(* ===== verification/Prelude.thy ===== *)
theory Prelude
  imports Complex_Main "HOL-Library.Word" "HOL-Library.AList" "HOL-Library.List_Lexorder"
begin

unbundle bit_operations_syntax

section \<open>Shared vocabulary\<close>

text \<open>
  What every component of the registry model shares.

  \<^item> Python values: a \<open>str\<close> is its list of code points (\<open>pystr\<close>), \<open>bytes\<close> is a list of
    8-bit words, an \<open>int\<close> is \<^typ>\<open>int\<close>, a \<open>dict\<close> is an association list in insertion
    order (\<open>pydict\<close>): assigning to a present key keeps its position, assigning to a new key
    appends it, which is exactly \<^const>\<open>AList.update\<close>.
  \<^item> Errors: \<open>py_error\<close> has one constructor per exception class the modelled code raises,
    and \<open>'a res\<close> is the result of code that may raise (\<open>Inl\<close>). Exception texts are not
    modelled. \<open>Key_Error\<close> is the class \<open>KeyError_\<close> of \<open>keys.py\<close>, \<open>KeyError\<close> the built-in one.
\<close>

subsection \<open>Python values\<close>

type_synonym pystr = "nat list"
type_synonym bytes = "8 word list"
type_synonym ('k, 'v) pydict = "('k \<times> 'v) list"

text \<open>A Python string literal of ASCII characters.\<close>

definition str :: "string \<Rightarrow> pystr" where
  "str s = map of_char s"

datatype py_error =
    ValueError
  | IndexError
  | KeyError
  | TypeError
  | AttributeError
  | RecursionError
  | UnicodeError
  | RaftLogCompacted
  | RaftInvariantViolated
  | RaftProtocolError
  | RaftCursorReservationFailed
  | SnapshotCaptureError
  | SnapshotAbandoned
  | PersistentStateError
  | PagingError
  | QueryError
  | SubscriptionError
  | UnsupportedQuery
  | JsonSpanError
  | NmosError
  | DecodeFailure
  | Key_Error
  | EtcdError
  | EtcdUnavailable
  | EtcdPermissionDenied
  | EtcdCompacted
  | EtcdLeaseNotFound
  | FenceTimeout
  | MutationTimeout
  | ClusterMismatch
  | OSError
  | OverflowError
  | EOFError

type_synonym 'a res = "py_error + 'a"

text \<open>Sequencing of code that may raise: the first exception ends the block.\<close>

definition bind_res :: "'a res \<Rightarrow> ('a \<Rightarrow> 'b res) \<Rightarrow> 'b res" where
  "bind_res r f = (case r of Inl e \<Rightarrow> Inl e | Inr x \<Rightarrow> f x)"

lemma bind_res_simps [simp]:
  "bind_res (Inl e) f = Inl e"
  "bind_res (Inr x) f = f x"
  by (simp_all add: bind_res_def)

lemma bind_res_eq_Inr:
  "bind_res r f = Inr y \<longleftrightarrow> (\<exists>x. r = Inr x \<and> f x = Inr y)"
  by (cases r) auto

lemma bind_res_eq_Inl:
  "bind_res r f = Inl e \<longleftrightarrow> r = Inl e \<or> (\<exists>x. r = Inr x \<and> f x = Inl e)"
  by (cases r) auto

lemma bind_res_InrE:
  assumes "bind_res r f = Inr y"
  obtains x where "r = Inr x" "f x = Inr y"
  using assms by (auto simp: bind_res_eq_Inr)

lemmas bind_res_splits = bind_res_eq_Inr bind_res_eq_Inl

subsection \<open>Collections of facts\<close>

named_theorems geometry_defs \<open>definitions of the log's index arithmetic\<close>
named_theorems wf_intros \<open>preservation of a component's well-formedness\<close>
named_theorems codec_simps \<open>rewriting of writers and readers\<close>

subsection \<open>Dictionaries in insertion order\<close>

abbreviation dget :: "('k, 'v) pydict \<Rightarrow> 'k \<Rightarrow> 'v option" where
  "dget d k \<equiv> map_of d k"

abbreviation dset :: "'k \<Rightarrow> 'v \<Rightarrow> ('k, 'v) pydict \<Rightarrow> ('k, 'v) pydict" where
  "dset k v d \<equiv> AList.update k v d"

abbreviation dpop :: "'k \<Rightarrow> ('k, 'v) pydict \<Rightarrow> ('k, 'v) pydict" where
  "dpop k d \<equiv> AList.delete k d"

abbreviation dkeys :: "('k, 'v) pydict \<Rightarrow> 'k list" where
  "dkeys d \<equiv> map fst d"

text \<open>A dictionary never holds a key twice.\<close>

definition wf_dict :: "('k, 'v) pydict \<Rightarrow> bool" where
  "wf_dict d \<longleftrightarrow> distinct (dkeys d)"

lemma wf_dict_Nil [simp, wf_intros]: "wf_dict []"
  by (simp add: wf_dict_def)

lemma wf_dict_dset [wf_intros]: "wf_dict d \<Longrightarrow> wf_dict (dset k v d)"
  by (simp add: wf_dict_def distinct_update)

lemma wf_dict_dpop [wf_intros]: "wf_dict d \<Longrightarrow> wf_dict (dpop k d)"
  by (simp add: wf_dict_def distinct_delete)

lemma dget_dset [simp]: "dget (dset k v d) x = (if x = k then Some v else dget d x)"
  by (simp add: update_conv')

lemma dget_dpop [simp]: "dget (dpop k d) x = (if x = k then None else dget d x)"
  by (simp add: delete_conv')

lemma dget_None_keys: "dget d k = None \<longleftrightarrow> k \<notin> set (dkeys d)"
  by (simp add: map_of_eq_None_iff)

lemma dget_Some_key: "dget d k = Some v \<Longrightarrow> k \<in> set (dkeys d)"
  by (metis dget_None_keys option.distinct(1))

lemma dget_in_set: "wf_dict d \<Longrightarrow> (k, v) \<in> set d \<longleftrightarrow> dget d k = Some v"
  by (simp add: wf_dict_def)

lemma dkeys_dset_old: "k \<in> set (dkeys d) \<Longrightarrow> dkeys (dset k v d) = dkeys d"
  by (induction d) auto

lemma dset_new: "k \<notin> set (dkeys d) \<Longrightarrow> dset k v d = d @ [(k, v)]"
  by (induction d) auto

lemma dkeys_dpop: "dkeys (dpop k d) = filter (\<lambda>x. x \<noteq> k) (dkeys d)"
  by (induction d) (auto simp: AList.delete_eq)

lemma dpop_absent: "k \<notin> set (dkeys d) \<Longrightarrow> dpop k d = d"
  by (induction d) auto

end
