(* ===== verification/Py_Text.thy ===== *)
theory Py_Text
  imports Prelude
begin

section \<open>Python text\<close>

text \<open>
  What the registry uses of Python's \<open>str\<close>: \<open>str.isdigit\<close>, \<open>int(text)\<close>, \<open>str(int)\<close>,
  \<open>str.partition\<close> and \<open>str.lstrip\<close>. The two digit tests differ: \<open>isdigit\<close> is true of
  superscripts and circled digits, which \<open>int\<close> refuses, and both accept the decimal digits
  of every script. The tables are those of Unicode 15.0, the version of Python 3.12.
\<close>

subsection \<open>Digits\<close>

text \<open>The code point of the zero of each of the 68 decimal digit blocks (category \<open>Nd\<close>).\<close>

definition decimal_zeros :: "nat list" where
  "decimal_zeros = [48, 1632, 1776, 1984, 2406, 2534, 2662, 2790, 2918, 3046, 3174, 3302, 3430,
     3558, 3664, 3792, 3872, 4160, 4240, 6112, 6160, 6470, 6608, 6784, 6800, 6992, 7088, 7232,
     7248, 42528, 43216, 43264, 43472, 43504, 43600, 44016, 65296, 66720, 68912, 69734, 69872,
     69942, 70096, 70384, 70736, 70864, 71248, 71360, 71472, 71904, 72016, 72784, 73040, 73120,
     73552, 92768, 92864, 93008, 120782, 120792, 120802, 120812, 120822, 123200, 123632, 124144,
     125264, 130032]"

text \<open>Code points with the \<open>Digit\<close> property that are not decimal, as inclusive ranges.\<close>

definition digit_ranges :: "(nat \<times> nat) list" where
  "digit_ranges = [(178, 179), (185, 185), (4969, 4977), (6618, 6618), (8304, 8304), (8308, 8313),
     (8320, 8329), (9312, 9320), (9332, 9340), (9352, 9360), (9450, 9450), (9461, 9469),
     (9471, 9471), (10102, 10110), (10112, 10120), (10122, 10130), (68160, 68163),
     (69216, 69224), (69714, 69722), (127232, 127242)]"

definition decimal_value :: "nat \<Rightarrow> nat option" where
  "decimal_value c = (case filter (\<lambda>z. z \<le> c \<and> c < z + 10) decimal_zeros of
                        [] \<Rightarrow> None | z # _ \<Rightarrow> Some (c - z))"

definition char_isdigit :: "nat \<Rightarrow> bool" where
  "char_isdigit c \<longleftrightarrow>
     decimal_value c \<noteq> None \<or> list_ex (\<lambda>(lo, hi). lo \<le> c \<and> c \<le> hi) digit_ranges"

text \<open>\<open>str.isdigit\<close>: false on the empty string.\<close>

definition py_isdigit :: "pystr \<Rightarrow> bool" where
  "py_isdigit s \<longleftrightarrow> s \<noteq> [] \<and> list_all char_isdigit s"

subsection \<open>Reading integers\<close>

text \<open>\<open>sys.int_info.default_max_str_digits\<close>: longer numerals are refused.\<close>

definition max_str_digits :: nat where
  "max_str_digits = 4300"

fun digits_value :: "nat \<Rightarrow> pystr \<Rightarrow> nat option" where
  "digits_value acc [] = Some acc"
| "digits_value acc (c # cs) =
     (case decimal_value c of None \<Rightarrow> None | Some d \<Rightarrow> digits_value (10 * acc + d) cs)"

text \<open>
  \<open>int(text)\<close> for a text with no white space and no underscores, which is all the registry
  passes: an optional sign, then at least one and at most \<open>max_str_digits\<close> decimal digits.
\<close>

definition py_nat :: "pystr \<Rightarrow> int res" where
  "py_nat s =
     (if s = [] \<or> length s > max_str_digits then Inl ValueError
      else case digits_value 0 s of None \<Rightarrow> Inl ValueError | Some n \<Rightarrow> Inr (int n))"

definition py_int :: "pystr \<Rightarrow> int res" where
  "py_int s =
     (case s of
        [] \<Rightarrow> Inl ValueError
      | c # cs \<Rightarrow> if c = 45 then bind_res (py_nat cs) (\<lambda>n. Inr (- n))
                  else if c = 43 then py_nat cs
                  else py_nat s)"

subsection \<open>Writing integers\<close>

fun nat_str :: "nat \<Rightarrow> pystr" where
  "nat_str n = (if n < 10 then [48 + n] else nat_str (n div 10) @ [48 + n mod 10])"

declare nat_str.simps [simp del]

definition int_str :: "int \<Rightarrow> pystr" where
  "int_str i = (if i < 0 then 45 # nat_str (nat (- i)) else nat_str (nat i))"

subsection \<open>Splitting\<close>

text \<open>\<open>text.partition(sep)\<close> for a one-character separator.\<close>

definition py_partition :: "nat \<Rightarrow> pystr \<Rightarrow> pystr \<times> bool \<times> pystr" where
  "py_partition c s =
     (let head = takeWhile (\<lambda>x. x \<noteq> c) s; rest = dropWhile (\<lambda>x. x \<noteq> c) s
      in (head, rest \<noteq> [], drop 1 rest))"

definition py_lstrip :: "nat \<Rightarrow> pystr \<Rightarrow> pystr" where
  "py_lstrip c s = dropWhile (\<lambda>x. x = c) s"

subsection \<open>Facts\<close>

lemma decimal_value_ascii: "d < 10 \<Longrightarrow> decimal_value (48 + d) = Some d"
  by (simp add: decimal_value_def decimal_zeros_def)

lemma decimal_value_small:
  assumes "c < 178"
  shows "decimal_value c = (if 48 \<le> c \<and> c < 58 then Some (c - 48) else None)"
  using assms by (simp add: decimal_value_def decimal_zeros_def)

lemma char_isdigit_ascii: "c < 178 \<Longrightarrow> char_isdigit c \<longleftrightarrow> 48 \<le> c \<and> c < 58"
  by (simp add: char_isdigit_def decimal_value_small digit_ranges_def)

lemma decimal_char_isdigit: "decimal_value c \<noteq> None \<Longrightarrow> char_isdigit c"
  by (simp add: char_isdigit_def)

lemma nat_str_chars: "c \<in> set (nat_str n) \<Longrightarrow> 48 \<le> c \<and> c < 58"
proof (induction n rule: nat_str.induct)
  case (1 n)
  then show ?case by (cases "n < 10") (auto simp: nat_str.simps [of n])
qed

lemma nat_str_nonempty [simp]: "nat_str n \<noteq> []"
  by (simp add: nat_str.simps [of n])

lemma nat_str_isdigit: "py_isdigit (nat_str n)"
proof -
  have "char_isdigit c" if "c \<in> set (nat_str n)" for c
    using nat_str_chars [OF that] by (simp add: char_isdigit_ascii)
  then show ?thesis by (simp add: py_isdigit_def list_all_iff)
qed

lemma digits_value_append:
  "digits_value acc (xs @ ys) =
     (case digits_value acc xs of None \<Rightarrow> None | Some a \<Rightarrow> digits_value a ys)"
  by (induction xs arbitrary: acc) (auto split: option.splits)

lemma digits_value_nat_str: "digits_value 0 (nat_str n) = Some n"
proof (induction n rule: nat_str.induct)
  case (1 n)
  show ?case
  proof (cases "n < 10")
    case True
    then show ?thesis using decimal_value_ascii [of n] by (simp add: nat_str.simps [of n])
  next
    case False
    then show ?thesis
      using 1 decimal_value_ascii [of "n mod 10"]
      by (simp add: nat_str.simps [of n] digits_value_append)
  qed
qed

text \<open>How many characters a number takes: fewer than \<open>k + 1\<close> exactly below \<open>10 ^ k\<close>.\<close>

lemma length_nat_str: "0 < k \<Longrightarrow> length (nat_str n) \<le> k \<longleftrightarrow> n < 10 ^ k"
proof (induction n arbitrary: k rule: nat_str.induct)
  case (1 n)
  show ?case
  proof (cases "n < 10")
    case True
    have "(10::nat) ^ 1 \<le> 10 ^ k" using 1(2) by (intro power_increasing) auto
    with True 1(2) show ?thesis by (simp add: nat_str.simps [of n])
  next
    case False
    then obtain j where k: "k = Suc j" using 1(2) by (cases k) auto
    have len: "length (nat_str n) = Suc (length (nat_str (n div 10)))"
      using False by (simp add: nat_str.simps [of n])
    show ?thesis
    proof (cases "j = 0")
      case True
      have "length (nat_str (n div 10)) > 0" by simp
      with True False k len show ?thesis by simp
    next
      case j: False
      have "n < 10 ^ k \<longleftrightarrow> n div 10 < 10 ^ j"
        unfolding k by (simp add: div_less_iff_less_mult mult.commute)
      with 1(1) [OF False, of j] j len k show ?thesis by simp
    qed
  qed
qed

lemma max_str_digits_pos: "0 < max_str_digits"
  by (simp add: max_str_digits_def)

lemma py_nat_nat_str:
  "n < 10 ^ max_str_digits \<Longrightarrow> py_nat (nat_str n) = Inr (int n)"
  using length_nat_str [OF max_str_digits_pos, of n]
  by (simp add: py_nat_def digits_value_nat_str)

lemma digits_value_defined:
  "list_all (\<lambda>c. decimal_value c \<noteq> None) s \<Longrightarrow> \<exists>n. digits_value acc s = Some n"
  by (induction s arbitrary: acc) auto

lemma py_nat_nonneg: "py_nat s = Inr i \<Longrightarrow> 0 \<le> i"
  by (auto simp: py_nat_def split: if_splits option.splits)

lemma py_partition_found:
  "c \<notin> set head \<Longrightarrow> py_partition c (head @ c # tail) = (head, True, tail)"
  unfolding py_partition_def Let_def
  by (subst takeWhile_append2, blast, subst dropWhile_append2, blast) simp

lemma py_partition_parts:
  assumes "py_partition c s = (head, sep, tail)"
  shows "c \<notin> set head \<and> (sep \<longrightarrow> s = head @ c # tail) \<and> (\<not> sep \<longrightarrow> s = head \<and> tail = [])"
proof -
  define rest where "rest = dropWhile (\<lambda>x. x \<noteq> c) s"
  have head: "head = takeWhile (\<lambda>x. x \<noteq> c) s" and sep: "sep \<longleftrightarrow> rest \<noteq> []" and tail: "tail = drop 1 rest"
    using assms by (auto simp: py_partition_def Let_def rest_def)
  have s: "s = head @ rest" unfolding head rest_def by simp
  have c: "c \<notin> set head" unfolding head by (metis (full_types) set_takeWhileD)
  show ?thesis
  proof (cases rest)
    case Nil
    with s c sep tail show ?thesis by simp
  next
    case (Cons d ds)
    then have "d = c" using hd_dropWhile [of "\<lambda>x. x \<noteq> c" s] by (simp add: rest_def)
    with Cons s c sep tail show ?thesis by simp
  qed
qed

end
