(* ===== verification/Registry_Types.thy ===== *)
theory Registry_Types
  imports Py_Text "HOL-Library.Product_Lexorder"
begin

section \<open>Registry value types\<close>

text \<open>
  \<open>src/nmos/registry/types.py\<close>: resource kinds with their URL spellings and parent rules,
  the TAI paging cursor with its text form, stored resources, change events, registration
  outcomes and the status-line statistics. The wall clock is not modelled: what
  \<open>TaiCursor.now()\<close> returns is an argument of the operations that read it. Exception and
  failure texts (\<open>detail\<close>) are not modelled.
\<close>

subsection \<open>Resource kinds\<close>

datatype ResourceType = NODE | DEVICE | SOURCE | FLOW | SENDER | RECEIVER

text \<open>Iterating the enum: declaration order.\<close>

definition resource_types :: "ResourceType list" where
  "resource_types = [NODE, DEVICE, SOURCE, FLOW, SENDER, RECEIVER]"

fun singular :: "ResourceType \<Rightarrow> pystr" where
  "singular NODE = str ''node''"
| "singular DEVICE = str ''device''"
| "singular SOURCE = str ''source''"
| "singular FLOW = str ''flow''"
| "singular SENDER = str ''sender''"
| "singular RECEIVER = str ''receiver''"

definition plural :: "ResourceType \<Rightarrow> pystr" where
  "plural rt = singular rt @ str ''s''"

definition topic :: "ResourceType \<Rightarrow> pystr" where
  "topic rt = str ''/'' @ plural rt @ str ''/''"

definition from_singular :: "pystr \<Rightarrow> ResourceType option" where
  "from_singular name = find (\<lambda>rt. singular rt = name) resource_types"

definition from_plural :: "pystr \<Rightarrow> ResourceType option" where
  "from_plural name = find (\<lambda>rt. plural rt = name) resource_types"

fun PARENT_KEY :: "ResourceType \<Rightarrow> pystr option" where
  "PARENT_KEY NODE = None"
| "PARENT_KEY DEVICE = Some (str ''node_id'')"
| "PARENT_KEY SOURCE = Some (str ''device_id'')"
| "PARENT_KEY FLOW = Some (str ''device_id'')"
| "PARENT_KEY SENDER = Some (str ''device_id'')"
| "PARENT_KEY RECEIVER = Some (str ''device_id'')"

fun PARENT_TYPE :: "ResourceType \<Rightarrow> ResourceType option" where
  "PARENT_TYPE NODE = None"
| "PARENT_TYPE DEVICE = Some NODE"
| "PARENT_TYPE SOURCE = Some DEVICE"
| "PARENT_TYPE FLOW = Some DEVICE"
| "PARENT_TYPE SENDER = Some DEVICE"
| "PARENT_TYPE RECEIVER = Some DEVICE"

subsection \<open>TAI cursors\<close>

datatype TaiCursor = TaiCursor (seconds: int) (nanoseconds: int)

text \<open>\<open>@dataclass(order=True)\<close>: lexicographic on (seconds, nanoseconds).\<close>

instantiation TaiCursor :: linorder
begin

definition less_eq_TaiCursor :: "TaiCursor \<Rightarrow> TaiCursor \<Rightarrow> bool" where
  "less_eq_TaiCursor a b \<longleftrightarrow>
     seconds a < seconds b \<or> seconds a = seconds b \<and> nanoseconds a \<le> nanoseconds b"

definition less_TaiCursor :: "TaiCursor \<Rightarrow> TaiCursor \<Rightarrow> bool" where
  "less_TaiCursor a b \<longleftrightarrow>
     seconds a < seconds b \<or> seconds a = seconds b \<and> nanoseconds a < nanoseconds b"

instance
  by standard
     (auto simp: less_eq_TaiCursor_def less_TaiCursor_def intro: TaiCursor.expand)

end

definition cursor_str :: "TaiCursor \<Rightarrow> pystr" where
  "cursor_str c = int_str (seconds c) @ str '':'' @ int_str (nanoseconds c)"

definition cursor_min :: TaiCursor where
  "cursor_min = TaiCursor 0 0"

text \<open>\<open>TaiCursor.parse\<close>: \<open>Inr None\<close> is a malformed text, \<open>Inl\<close> an exception out of \<open>int()\<close>.\<close>

definition cursor_parse :: "pystr \<Rightarrow> TaiCursor option res" where
  "cursor_parse text =
     (let (head, sep, tail) = py_partition 58 text
      in if \<not> sep \<or> \<not> py_isdigit head \<or> \<not> py_isdigit tail then Inr None
         else bind_res (py_int head) (\<lambda>s.
              bind_res (py_int tail) (\<lambda>n.
                Inr (Some (TaiCursor s n)))))"

definition cursor_next :: "TaiCursor \<Rightarrow> TaiCursor" where
  "cursor_next c =
     (if nanoseconds c \<ge> 999999999 then TaiCursor (seconds c + 1) 0
      else TaiCursor (seconds c) (nanoseconds c + 1))"

subsection \<open>Stored resources\<close>

text \<open>
  A parsed JSON document. A float is kept as its \<open>str()\<close> text, the only thing the modelled
  code reads of one.
\<close>

datatype json =
    JNull
  | JBool bool
  | JInt int
  | JFloat pystr
  | JStr pystr
  | JArr "json list"
  | JObj "(pystr \<times> json) list"

text \<open>
  A body is its text; \<open>parsed\<close> is the cached dictionary when one was supplied. What
  \<open>json.loads\<close> makes of the text is the argument \<open>loads\<close>.
\<close>

record Body =
  body_text :: pystr
  parsed :: "(pystr, json) pydict option"

definition body_data :: "(pystr \<Rightarrow> (pystr, json) pydict res) \<Rightarrow> Body \<Rightarrow> (pystr, json) pydict res" where
  "body_data loads b = (case parsed b of Some d \<Rightarrow> Inr d | None \<Rightarrow> loads (body_text b))"

definition body_eq :: "Body \<Rightarrow> Body \<Rightarrow> bool" where
  "body_eq a b \<longleftrightarrow> body_text a = body_text b"

record RegisteredResource =
  resource_type :: ResourceType
  res_id :: pystr
  body :: Body
  version :: pystr
  created :: TaiCursor
  updated :: TaiCursor
  parent_id :: "pystr option"
  extant :: bool
  health :: int

definition version_cursor :: "RegisteredResource \<Rightarrow> TaiCursor option res" where
  "version_cursor r = cursor_parse (version r)"

subsection \<open>Change events\<close>

datatype EventKind = ADDED | REMOVED | MODIFIED | SYNC

record ResourceEvent =
  ev_kind :: EventKind
  ev_type :: ResourceType
  ev_id :: pystr
  ev_pre :: "Body option"
  ev_post :: "Body option"

definition ev_added :: "RegisteredResource \<Rightarrow> ResourceEvent" where
  "ev_added r = \<lparr>ev_kind = ADDED, ev_type = resource_type r, ev_id = res_id r,
                 ev_pre = None, ev_post = Some (body r)\<rparr>"

definition ev_removed :: "RegisteredResource \<Rightarrow> ResourceEvent" where
  "ev_removed r = \<lparr>ev_kind = REMOVED, ev_type = resource_type r, ev_id = res_id r,
                   ev_pre = Some (body r), ev_post = None\<rparr>"

definition ev_modified :: "Body \<Rightarrow> RegisteredResource \<Rightarrow> ResourceEvent" where
  "ev_modified pre r = \<lparr>ev_kind = MODIFIED, ev_type = resource_type r, ev_id = res_id r,
                        ev_pre = Some pre, ev_post = Some (body r)\<rparr>"

definition ev_sync :: "RegisteredResource \<Rightarrow> ResourceEvent" where
  "ev_sync r = \<lparr>ev_kind = SYNC, ev_type = resource_type r, ev_id = res_id r,
                ev_pre = Some (body r), ev_post = Some (body r)\<rparr>"

subsection \<open>Registration outcomes\<close>

datatype RegistrationError =
    SCHEMA | ID_TYPE_CONFLICT | VERSION_REGRESSION | PARENT_CHANGED | PARENT_MISSING

record PreparedRegistration =
  pr_type :: ResourceType
  pr_id :: pystr
  pr_version :: pystr
  pr_parent :: "pystr option"
  creates :: bool
  reviving :: bool

record RegistrationResult =
  rr_created :: bool
  rr_events :: "ResourceEvent list"
  rr_error :: "RegistrationError option"

definition rr_ok :: "RegistrationResult \<Rightarrow> bool" where
  "rr_ok r \<longleftrightarrow> rr_error r = None"

definition failure :: "RegistrationError \<Rightarrow> RegistrationResult" where
  "failure e = \<lparr>rr_created = False, rr_events = [], rr_error = Some e\<rparr>"

subsection \<open>Statistics\<close>

record RegistryStatistics =
  st_total :: int
  per_type :: "(ResourceType, int) pydict"
  subscriptions :: int
  grains :: int
  most_recent_update :: TaiCursor
  least_health :: int
  non_extant :: int

definition stat_counters :: "RegistryStatistics \<Rightarrow> (pystr \<times> int) list" where
  "stat_counters s =
     map (\<lambda>rt. (plural rt, case dget (per_type s) rt of None \<Rightarrow> 0 | Some n \<Rightarrow> n)) resource_types
     @ [(str ''subscriptions'', subscriptions s), (str ''grains'', grains s)]"

fun py_join :: "pystr \<Rightarrow> pystr list \<Rightarrow> pystr" where
  "py_join sep [] = []"
| "py_join sep [x] = x"
| "py_join sep (x # y # ys) = x @ sep @ py_join sep (y # ys)"

definition render :: "RegistryStatistics \<Rightarrow> pystr" where
  "render s =
     int_str (st_total s) @ str '' resources ('' @
     py_join (str '', '') (map (\<lambda>(label, count). int_str count @ str '' '' @ label) (stat_counters s)) @
     str ''), most recent update: '' @ cursor_str (most_recent_update s) @
     str '', least health: '' @ int_str (least_health s) @
     str '', '' @ int_str (non_extant s) @ str '' non-extant resources''"

subsection \<open>Facts about kinds\<close>

lemma resource_types_complete [simp]: "rt \<in> set resource_types"
  by (cases rt) (simp_all add: resource_types_def)

lemma distinct_resource_types [simp]: "distinct resource_types"
  by (simp add: resource_types_def)

lemma str_inject [simp]: "str a = str b \<longleftrightarrow> a = b"
  by (auto simp: str_def inj_map_eq_map inj_on_def)

lemma singular_inject [simp]: "singular a = singular b \<longleftrightarrow> a = b"
  by (cases a; cases b) simp_all

lemma plural_inject [simp]: "plural a = plural b \<longleftrightarrow> a = b"
  by (simp add: plural_def)

lemma find_unique:
  assumes "x \<in> set xs" and "\<And>y. y \<in> set xs \<Longrightarrow> P y \<longleftrightarrow> y = x"
  shows "find P xs = Some x"
  using assms by (induction xs) auto

lemma from_singular_iff: "from_singular name = Some rt \<longleftrightarrow> name = singular rt"
  unfolding from_singular_def
  by (metis (mono_tags, lifting) find_Some_iff find_unique resource_types_complete singular_inject)

lemma from_plural_iff: "from_plural name = Some rt \<longleftrightarrow> name = plural rt"
  unfolding from_plural_def
  by (metis (mono_tags, lifting) find_Some_iff find_unique resource_types_complete plural_inject)

text \<open>How far a kind is from the root of its tree.\<close>

fun rank :: "ResourceType \<Rightarrow> nat" where
  "rank NODE = 0"
| "rank DEVICE = 1"
| "rank _ = 2"

lemma PARENT_TYPE_rank: "PARENT_TYPE rt = Some p \<Longrightarrow> rank rt = Suc (rank p)"
  by (cases rt) auto

lemma rank_le: "rank rt \<le> 2"
  by (cases rt) auto

lemma PARENT_KEY_None_iff: "PARENT_KEY rt = None \<longleftrightarrow> PARENT_TYPE rt = None"
  by (cases rt) auto

subsection \<open>Facts about cursors\<close>

lemma cursor_next_greater: "c < cursor_next c"
  by (auto simp: cursor_next_def less_TaiCursor_def)

text \<open>A normalised cursor: nanoseconds within the second.\<close>

definition cursor_norm :: "TaiCursor \<Rightarrow> bool" where
  "cursor_norm c \<longleftrightarrow> 0 \<le> nanoseconds c \<and> nanoseconds c \<le> 999999999"

lemma cursor_next_norm: "cursor_norm c \<Longrightarrow> cursor_norm (cursor_next c)"
  by (auto simp: cursor_next_def cursor_norm_def)

lemma cursor_next_least:
  assumes "c < d" and "cursor_norm c" and "cursor_norm d"
  shows "cursor_next c \<le> d"
  using assms
  by (auto simp: cursor_next_def less_TaiCursor_def less_eq_TaiCursor_def cursor_norm_def)

lemma py_int_digits: "py_isdigit s \<Longrightarrow> py_int s = py_nat s"
  by (cases s) (auto simp: py_int_def py_isdigit_def char_isdigit_ascii)

lemma int_str_nat: "0 \<le> i \<Longrightarrow> int_str i = nat_str (nat i)"
  by (simp add: int_str_def)

lemma str_colon: "str '':'' = [58]"
  by (simp add: str_def)

lemma colon_not_digit: "py_isdigit s \<Longrightarrow> 58 \<notin> set s"
  using char_isdigit_ascii [of 58] by (auto simp: py_isdigit_def list_all_iff)

lemma cursor_parse_split:
  assumes "py_isdigit head" and "py_isdigit tail"
  shows "cursor_parse (head @ 58 # tail) =
           bind_res (py_nat head) (\<lambda>s. bind_res (py_nat tail) (\<lambda>n. Inr (Some (TaiCursor s n))))"
  using assms py_partition_found [OF colon_not_digit [OF assms(1)], of tail]
  by (simp add: cursor_parse_def py_int_digits)

lemma py_nat_int_str:
  assumes "0 \<le> i" and "i < 10 ^ max_str_digits"
  shows "py_nat (int_str i) = Inr i"
proof -
  have "nat i < 10 ^ max_str_digits" using assms by (simp add: nat_less_iff)
  then show ?thesis using assms(1) py_nat_nat_str [of "nat i"] by (simp add: int_str_nat)
qed

lemma cursor_parse_str:
  assumes "0 \<le> seconds c" "seconds c < 10 ^ max_str_digits"
    and "0 \<le> nanoseconds c" "nanoseconds c < 10 ^ max_str_digits"
  shows "cursor_parse (cursor_str c) = Inr (Some c)"
proof -
  have "py_isdigit (int_str i)" if "0 \<le> i" for i
    using that by (simp add: int_str_nat nat_str_isdigit)
  then have "cursor_parse (cursor_str c) =
      bind_res (py_nat (int_str (seconds c))) (\<lambda>s. bind_res (py_nat (int_str (nanoseconds c)))
        (\<lambda>n. Inr (Some (TaiCursor s n))))"
    using cursor_parse_split assms(1,3) by (simp add: cursor_str_def str_colon)
  with assms show ?thesis by (simp add: py_nat_int_str)
qed

subsection \<open>What the cursor text promises\<close>

text \<open>
  Cursor text round trip. A cursor whose two numbers are not negative and within the
  interpreter's limit of 4300 digits survives \<open>str\<close> followed by \<open>parse\<close>.
\<close>

theorem cursor_text_round_trip:
  assumes "0 \<le> seconds c" "seconds c < 10 ^ max_str_digits"
    and "0 \<le> nanoseconds c" "nanoseconds c < 10 ^ max_str_digits"
  shows "cursor_parse (cursor_str c) = Inr (Some c)"
  using assms by (rule cursor_parse_str)

lemma two_pow_small: "i < 10 \<Longrightarrow> i < 10 ^ max_str_digits" for i :: int
  using power_increasing [of 1 max_str_digits "10::int"] max_str_digits_pos by simp

theorem cursor_text_round_trip_witness:
  "cursor_parse (cursor_str (TaiCursor 7 5)) = Inr (Some (TaiCursor 7 5)) \<and>
   cursor_str (TaiCursor 7 5) = str ''7:5''"
  using cursor_text_round_trip [of "TaiCursor 7 5"]
  by (simp add: two_pow_small cursor_str_def int_str_def nat_str.simps str_def)

text \<open>
  On plain ASCII the parser is exactly the RAML pattern. For a text of code points below
  178, \<open>parse\<close> answers \<open>None\<close> unless the text is two non-empty runs of the digits 0 to 9
  around one colon, and then it yields their values, provided both are within the
  interpreter's digit limit.
\<close>

theorem cursor_parse_ascii:
  assumes "\<forall>c \<in> set text. c < 178"
  shows "cursor_parse text =
    (case py_partition 58 text of (head, sep, tail) \<Rightarrow>
       if sep \<and> head \<noteq> [] \<and> tail \<noteq> [] \<and> (\<forall>c \<in> set head \<union> set tail. 48 \<le> c \<and> c < 58)
       then if length head \<le> max_str_digits \<and> length tail \<le> max_str_digits
            then Inr (Some (TaiCursor (int (the (digits_value 0 head))) (int (the (digits_value 0 tail)))))
            else Inl ValueError
       else Inr None)"
proof -
  obtain head sep tail where p: "py_partition 58 text = (head, sep, tail)" by (cases "py_partition 58 text") auto
  have sub: "set head \<union> set tail \<subseteq> set text"
    using py_partition_parts [OF p] by (cases sep) auto
  then have small: "c < 178" if "c \<in> set head \<union> set tail" for c using assms that by blast
  have dig: "py_isdigit s \<longleftrightarrow> s \<noteq> [] \<and> (\<forall>c \<in> set s. 48 \<le> c \<and> c < 58)" if "set s \<subseteq> set head \<union> set tail" for s
    using small that char_isdigit_ascii unfolding py_isdigit_def list_all_iff by blast
  have val: "\<exists>n. digits_value 0 s = Some n" if "set s \<subseteq> set head \<union> set tail" "\<forall>c \<in> set s. 48 \<le> c \<and> c < 58" for s
    using that small by (intro digits_value_defined) (auto simp: list_all_iff decimal_value_small)
  have nat: "py_nat s = (if length s > max_str_digits then Inl ValueError else Inr (int (the (digits_value 0 s))))"
    if "set s \<subseteq> set head \<union> set tail" "s \<noteq> []" "\<forall>c \<in> set s. 48 \<le> c \<and> c < 58" for s
    using val [OF that(1,3)] that(2) by (auto simp: py_nat_def)
  show ?thesis
    using dig [of head] dig [of tail] nat [of head] nat [of tail] p
    by (auto simp: cursor_parse_def py_int_digits)
qed

theorem cursor_parse_ascii_witness:
  "cursor_parse (str ''12:07'') = Inr (Some (TaiCursor 12 7)) \<and> cursor_parse (str ''+1:0'') = Inr None"
  using cursor_parse_ascii [of "str ''12:07''"] cursor_parse_ascii [of "str ''+1:0''"]
  by (simp add: str_def py_partition_def decimal_value_small max_str_digits_def)

text \<open>
  Outside ASCII the documented pattern \<open>^[0-9]+:[0-9]+$\<close> is not what is accepted.
  A superscript two (code point 178) passes \<open>isdigit\<close> and then raises out of \<open>int\<close>, where
  the documentation promises \<open>None\<close>; an Arabic-Indic three (1635) is accepted as 3.
\<close>

theorem cursor_parse_not_the_pattern:
  "cursor_parse (178 # str '':0'') = Inl ValueError \<and>
   cursor_parse (1635 # str '':0'') = Inr (Some (TaiCursor 3 0))"
  by (simp add: cursor_parse_def py_partition_def str_def py_isdigit_def char_isdigit_def
      decimal_value_def decimal_zeros_def digit_ranges_def py_int_def py_nat_def max_str_digits_def)

text \<open>
  \<open>next\<close> is the successor. It is strictly greater, it keeps the nanoseconds within a
  second, and no normalised cursor lies between a cursor and its \<open>next\<close>.
\<close>

theorem cursor_next_successor:
  "c < cursor_next c \<and>
   (cursor_norm c \<longrightarrow> cursor_norm (cursor_next c) \<and> (\<forall>d. cursor_norm d \<and> c < d \<longrightarrow> cursor_next c \<le> d))"
  using cursor_next_greater cursor_next_norm cursor_next_least by blast

theorem cursor_next_successor_witness:
  "cursor_next (TaiCursor 3 999999999) = TaiCursor 4 0 \<and> cursor_next (TaiCursor 3 999999999) \<le> TaiCursor 4 5"
  using cursor_next_successor [of "TaiCursor 3 999999999"]
  by (auto simp: cursor_next_def cursor_norm_def less_TaiCursor_def less_eq_TaiCursor_def)

end
