(* ===== verification/Registry_Store.thy ===== *)
theory Registry_Store
  imports Registry_Types
begin

section \<open>The resource store\<close>

text \<open>
  \<open>src/nmos/registry/store.py\<close>: the class \<open>RegistryStore\<close> as a record and its methods as
  functions that return the changed store. \<open>_by_type\<close> always has its six keys, so it is a
  function to buckets; a missing key of \<open>_children\<close> reads as the empty set, of \<open>_order\<close> as
  the empty index and of \<open>_order_dirty\<close> as \<open>False\<close>, so these are total functions; an
  order index (\<open>dict[str, None]\<close>) is the list of its keys.

  The clock is an argument: \<open>tn\<close> is what \<open>TaiCursor.now()\<close> returns, \<open>hn\<close> what
  \<open>health_now()\<close> returns; the cascade reads the clock once per retired resource, so there
  \<open>hn\<close> is a function of the resource being retired. The two recursions over the
  parent/child graph run on the interpreter's recursion limit and raise \<open>RecursionError\<close>
  when it is used up; the invariant below bounds their depth by three.
\<close>

datatype Order = ORDER_CREATE | ORDER_UPDATE

record RegistryStore =
  by_type :: "ResourceType \<Rightarrow> (pystr, RegisteredResource) pydict"
  type_of :: "pystr \<rightharpoonup> ResourceType"
  children :: "pystr \<Rightarrow> pystr set"
  last_cursor :: "ResourceType \<rightharpoonup> TaiCursor"
  order_index :: "ResourceType \<Rightarrow> Order \<Rightarrow> pystr list"
  order_dirty :: "ResourceType \<Rightarrow> Order \<Rightarrow> bool"
  gc_interval :: real
  forget_interval :: real

definition new_store :: "real \<Rightarrow> real \<Rightarrow> RegistryStore" where
  "new_store gc fi =
     \<lparr>by_type = (\<lambda>_. []), type_of = Map.empty, children = (\<lambda>_. {}), last_cursor = Map.empty,
      order_index = (\<lambda>_ _. []), order_dirty = (\<lambda>_ _. False),
      gc_interval = gc, forget_interval = fi\<rparr>"

text \<open>\<open>int()\<close> of a float: truncation toward zero.\<close>

definition trunc :: "real \<Rightarrow> int" where
  "trunc x = (if 0 \<le> x then \<lfloor>x\<rfloor> else \<lceil>x\<rceil>)"

text \<open>In-place assignment to the fields of the record held under \<open>i\<close>.\<close>

definition put_resource :: "RegistryStore \<Rightarrow> ResourceType \<Rightarrow> pystr \<Rightarrow> RegisteredResource \<Rightarrow> RegistryStore" where
  "put_resource st rt i r = st\<lparr>by_type := (by_type st)(rt := dset i r (by_type st rt))\<rparr>"

definition modify ::
  "RegistryStore \<Rightarrow> ResourceType \<Rightarrow> pystr \<Rightarrow> (RegisteredResource \<Rightarrow> RegisteredResource) \<Rightarrow> RegistryStore" where
  "modify st rt i f =
     (case dget (by_type st rt) i of None \<Rightarrow> st | Some r \<Rightarrow> put_resource st rt i (f r))"

subsection \<open>Cursor-ordered indexes\<close>

definition set_index :: "RegistryStore \<Rightarrow> ResourceType \<Rightarrow> Order \<Rightarrow> pystr list \<Rightarrow> RegistryStore" where
  "set_index st rt ord ids =
     st\<lparr>order_index := (order_index st)(rt := (order_index st rt)(ord := ids))\<rparr>"

definition set_dirty :: "RegistryStore \<Rightarrow> ResourceType \<Rightarrow> Order \<Rightarrow> bool \<Rightarrow> RegistryStore" where
  "set_dirty st rt ord d =
     st\<lparr>order_dirty := (order_dirty st)(rt := (order_dirty st rt)(ord := d))\<rparr>"

definition cursor_of :: "RegisteredResource \<Rightarrow> Order \<Rightarrow> TaiCursor" where
  "cursor_of r ord = (if ord = ORDER_CREATE then created r else updated r)"

definition touch_order ::
  "RegistryStore \<Rightarrow> ResourceType \<Rightarrow> Order \<Rightarrow> pystr \<Rightarrow> TaiCursor \<Rightarrow> RegistryStore" where
  "touch_order st rt ord i cursor =
     (let index = filter (\<lambda>x. x \<noteq> i) (order_index st rt ord);
          st' = (if \<not> order_dirty st rt ord \<and> index \<noteq> [] then
                   (let last_id = last index
                    in case dget (by_type st rt) last_id of
                         None \<Rightarrow> st
                       | Some lst \<Rightarrow>
                           if (cursor, i) < (cursor_of lst ord, last_id)
                           then set_dirty st rt ord True else st)
                 else st)
      in set_index st' rt ord (index @ [i]))"

definition drop_from_order :: "RegistryStore \<Rightarrow> ResourceType \<Rightarrow> pystr \<Rightarrow> RegistryStore" where
  "drop_from_order st rt i =
     (let st1 = set_index st rt ORDER_CREATE (filter (\<lambda>x. x \<noteq> i) (order_index st rt ORDER_CREATE))
      in set_index st1 rt ORDER_UPDATE (filter (\<lambda>x. x \<noteq> i) (order_index st1 rt ORDER_UPDATE)))"

text \<open>The key \<open>(cursor, id)\<close> an explicit sort of the index uses.\<close>

definition index_key :: "(pystr, RegisteredResource) pydict \<Rightarrow> Order \<Rightarrow> pystr \<Rightarrow> TaiCursor \<times> pystr" where
  "index_key bucket ord i = (cursor_of (the (dget bucket i)) ord, i)"

definition iter_ordered :: "RegistryStore \<Rightarrow> ResourceType \<Rightarrow> Order \<Rightarrow> RegistryStore \<times> RegisteredResource list" where
  "iter_ordered st rt ord =
     (let bucket = by_type st rt;
          st' = (if order_dirty st rt ord then
                   set_dirty
                     (set_index st rt ord
                        (sort_key (index_key bucket ord)
                           (filter (\<lambda>i. dget bucket i \<noteq> None) (order_index st rt ord))))
                     rt ord False
                 else st)
      in (st', filter extant (List.map_filter (dget bucket) (order_index st' rt ord))))"

subsection \<open>Cursor allocation\<close>

definition next_cursor :: "TaiCursor \<Rightarrow> RegistryStore \<Rightarrow> ResourceType \<Rightarrow> RegistryStore \<times> TaiCursor" where
  "next_cursor tn st rt =
     (let cursor = (case last_cursor st rt of
                      Some previous \<Rightarrow> if tn \<le> previous then cursor_next previous else tn
                    | None \<Rightarrow> tn)
      in (st\<lparr>last_cursor := (last_cursor st)(rt \<mapsto> cursor)\<rparr>, cursor))"

subsection \<open>Lookup\<close>

definition get_resource :: "RegistryStore \<Rightarrow> ResourceType \<Rightarrow> pystr \<Rightarrow> bool \<Rightarrow> RegisteredResource option" where
  "get_resource st rt i include_non_extant =
     (case dget (by_type st rt) i of
        None \<Rightarrow> None
      | Some found \<Rightarrow> if \<not> extant found \<and> \<not> include_non_extant then None else Some found)"

definition find_any :: "RegistryStore \<Rightarrow> pystr \<Rightarrow> RegisteredResource option" where
  "find_any st i = (case type_of st i of None \<Rightarrow> None | Some rt \<Rightarrow> get_resource st rt i False)"

definition iter_extant :: "RegistryStore \<Rightarrow> ResourceType \<Rightarrow> RegisteredResource list" where
  "iter_extant st rt = filter extant (map snd (by_type st rt))"

definition count_extant :: "RegistryStore \<Rightarrow> ResourceType \<Rightarrow> int" where
  "count_extant st rt = int (length (iter_extant st rt))"

subsection \<open>Registration\<close>

definition parent_id_of :: "ResourceType \<Rightarrow> (pystr, json) pydict \<Rightarrow> pystr option" where
  "parent_id_of rt raw =
     (case PARENT_KEY rt of
        None \<Rightarrow> None
      | Some key \<Rightarrow> (case dget raw key of Some (JStr s) \<Rightarrow> Some s | _ \<Rightarrow> None))"

definition check_parent :: "RegistryStore \<Rightarrow> ResourceType \<Rightarrow> pystr option \<Rightarrow> RegistrationResult option" where
  "check_parent st rt parent =
     (case PARENT_TYPE rt of
        None \<Rightarrow> None
      | Some expected \<Rightarrow>
          (case parent of
             None \<Rightarrow> Some (failure SCHEMA)
           | Some p \<Rightarrow>
               let actual_type = type_of st p;
                   par = (case actual_type of Some t \<Rightarrow> dget (by_type st t) p | None \<Rightarrow> None)
               in (case par of
                     None \<Rightarrow> Some (failure PARENT_MISSING)
                   | Some q \<Rightarrow>
                       if \<not> extant q then Some (failure PARENT_MISSING)
                       else if actual_type \<noteq> Some expected then Some (failure PARENT_MISSING)
                       else None)))"

definition check_update ::
  "RegisteredResource \<Rightarrow> pystr \<Rightarrow> pystr option \<Rightarrow> RegistrationResult option res" where
  "check_update previous ver parent =
     bind_res (cursor_parse ver) (\<lambda>new_cursor.
     bind_res (version_cursor previous) (\<lambda>old_cursor.
       case new_cursor of
         None \<Rightarrow> Inr (Some (failure SCHEMA))
       | Some nc \<Rightarrow>
           if (case old_cursor of Some oc \<Rightarrow> nc < oc | None \<Rightarrow> False)
           then Inr (Some (failure VERSION_REGRESSION))
           else if parent_id previous \<noteq> None \<and> parent \<noteq> parent_id previous
           then Inr (Some (failure PARENT_CHANGED))
           else Inr None))"

text \<open>\<open>prepare\<close>: \<open>Inr (Inl r)\<close> is a refused registration, \<open>Inr (Inr p)\<close> a prepared one.\<close>

definition prepare ::
  "RegistryStore \<Rightarrow> ResourceType \<Rightarrow> (pystr, json) pydict \<Rightarrow> (RegistrationResult + PreparedRegistration) res" where
  "prepare st rt raw =
     (case dget raw (str ''id'') of
        Some (JStr i) \<Rightarrow>
          if i = [] then Inr (Inl (failure SCHEMA))
          else (case dget raw (str ''version'') of
            Some (JStr ver) \<Rightarrow>
              if type_of st i \<noteq> None \<and> type_of st i \<noteq> Some rt
              then Inr (Inl (failure ID_TYPE_CONFLICT))
              else let parent = parent_id_of rt raw in
                (case check_parent st rt parent of
                   Some r \<Rightarrow> Inr (Inl r)
                 | None \<Rightarrow>
                     let previous = dget (by_type st rt) i;
                         revives = (case previous of Some p \<Rightarrow> \<not> extant p | None \<Rightarrow> False);
                         prepared = \<lparr>pr_type = rt, pr_id = i, pr_version = ver, pr_parent = parent,
                                     creates = (previous = None \<or> revives), reviving = revives\<rparr>
                     in (case previous of
                           Some p \<Rightarrow>
                             if extant p then
                               bind_res (check_update p ver parent) (\<lambda>f.
                                 case f of Some r \<Rightarrow> Inr (Inl r) | None \<Rightarrow> Inr (Inr prepared))
                             else Inr (Inr prepared)
                         | None \<Rightarrow> Inr (Inr prepared)))
          | _ \<Rightarrow> Inr (Inl (failure SCHEMA)))
      | _ \<Rightarrow> Inr (Inl (failure SCHEMA)))"

definition reparent :: "RegistryStore \<Rightarrow> pystr \<Rightarrow> pystr option \<Rightarrow> pystr option \<Rightarrow> RegistryStore" where
  "reparent st i pre_parent new_parent =
     (let ch1 = (case pre_parent of
                   None \<Rightarrow> children st
                 | Some p \<Rightarrow> (children st)(p := children st p - {i}));
          ch2 = (case new_parent of
                   None \<Rightarrow> ch1
                 | Some p \<Rightarrow> ch1(p := insert i (ch1 p)))
      in st\<lparr>children := ch2\<rparr>)"

text \<open>
  \<open>apply_committed\<close> in three parts: choosing the cursor and raising the high-water mark,
  the update in place, and the create or revive.
\<close>

definition commit_cursor ::
  "TaiCursor \<Rightarrow> RegistryStore \<Rightarrow> ResourceType \<Rightarrow> TaiCursor option \<Rightarrow> RegistryStore \<times> TaiCursor" where
  "commit_cursor tn st0 rt updated_arg =
     (let (st1, cursor) = (case updated_arg of Some u \<Rightarrow> (st0, u) | None \<Rightarrow> next_cursor tn st0 rt)
      in (if (case last_cursor st1 rt of None \<Rightarrow> True | Some pc \<Rightarrow> cursor > pc)
          then st1\<lparr>last_cursor := (last_cursor st1)(rt \<mapsto> cursor)\<rparr> else st1, cursor))"

definition commit_update ::
  "RegistryStore \<Rightarrow> PreparedRegistration \<Rightarrow> Body \<Rightarrow> TaiCursor \<Rightarrow> int \<Rightarrow> RegisteredResource \<Rightarrow>
   RegistryStore \<times> RegistrationResult" where
  "commit_update st prepared bdy cursor now_health p =
     (let i = pr_id prepared; rt = pr_type prepared;
          p' = p\<lparr>body := bdy, version := pr_version prepared, updated := cursor,
                 parent_id := pr_parent prepared, health := now_health\<rparr>;
          st1 = put_resource st rt i p';
          st2 = reparent st1 i (parent_id p) (pr_parent prepared);
          st3 = touch_order st2 rt ORDER_UPDATE i cursor
      in (st3, \<lparr>rr_created = False, rr_events = [ev_modified (body p) p'], rr_error = None\<rparr>))"

definition commit_create ::
  "RegistryStore \<Rightarrow> PreparedRegistration \<Rightarrow> Body \<Rightarrow> TaiCursor option \<Rightarrow> TaiCursor \<Rightarrow> int \<Rightarrow> pystr option \<Rightarrow>
   RegistryStore \<times> RegistrationResult" where
  "commit_create st prepared bdy created_arg cursor now_health pre_parent =
     (let i = pr_id prepared; rt = pr_type prepared;
          r = \<lparr>resource_type = rt, res_id = i, body = bdy, version = pr_version prepared,
               created = (case created_arg of Some c \<Rightarrow> c | None \<Rightarrow> cursor),
               updated = cursor, parent_id = pr_parent prepared, extant = True,
               health = now_health\<rparr>;
          st1 = put_resource st rt i r;
          st2 = st1\<lparr>type_of := (type_of st1)(i \<mapsto> rt)\<rparr>;
          st3 = reparent st2 i pre_parent (pr_parent prepared);
          st4 = (if reviving prepared then st3\<lparr>children := (children st3)(i := {})\<rparr> else st3);
          st5 = touch_order st4 rt ORDER_CREATE i (created r);
          st6 = touch_order st5 rt ORDER_UPDATE i cursor
      in (st6, \<lparr>rr_created = True, rr_events = [ev_added r], rr_error = None\<rparr>))"

text \<open>
  The arguments after the body are the keyword arguments \<open>created\<close>, \<open>updated\<close> and \<open>health\<close>.
\<close>

definition apply_committed ::
  "int \<Rightarrow> TaiCursor \<Rightarrow> RegistryStore \<Rightarrow> PreparedRegistration \<Rightarrow> Body \<Rightarrow>
   TaiCursor option \<Rightarrow> TaiCursor option \<Rightarrow> int option \<Rightarrow> RegistryStore \<times> RegistrationResult" where
  "apply_committed hn tn st0 prepared bdy created_arg updated_arg health_arg =
     (let now_health = (case health_arg of None \<Rightarrow> hn | Some h \<Rightarrow> h);
          (st, cursor) = commit_cursor tn st0 (pr_type prepared) updated_arg
      in case dget (by_type st (pr_type prepared)) (pr_id prepared) of
           Some p \<Rightarrow>
             if \<not> reviving prepared then commit_update st prepared bdy cursor now_health p
             else commit_create st prepared bdy created_arg cursor now_health (parent_id p)
         | None \<Rightarrow> commit_create st prepared bdy created_arg cursor now_health None)"

definition insert_or_update ::
  "(pystr \<Rightarrow> (pystr, json) pydict res) \<Rightarrow> int \<Rightarrow> TaiCursor \<Rightarrow> RegistryStore \<Rightarrow> ResourceType \<Rightarrow> Body \<Rightarrow>
   (RegistryStore \<times> RegistrationResult) res" where
  "insert_or_update loads hn tn st rt bdy =
     bind_res (body_data loads bdy) (\<lambda>raw.
     bind_res (prepare st rt raw) (\<lambda>r.
       case r of
         Inl failed \<Rightarrow> Inr (st, failed)
       | Inr prepared \<Rightarrow> Inr (apply_committed hn tn st prepared bdy None None None)))"

subsection \<open>Deletion\<close>

definition recursion_limit :: nat where
  "recursion_limit = 1000"

text \<open>\<open>resource.extant = False; resource.health = health_now()\<close>.\<close>

definition retire :: "int \<Rightarrow> RegisteredResource \<Rightarrow> RegisteredResource" where
  "retire h r = r\<lparr>extant := False, health := h\<rparr>"

text \<open>\<open>sorted(self._children.get(resource.id, ()))\<close>.\<close>

definition sorted_children :: "RegistryStore \<Rightarrow> pystr \<Rightarrow> pystr list" where
  "sorted_children st i = sorted_list_of_set (children st i)"

function (sequential) erase_subtree ::
    "nat \<Rightarrow> (pystr \<Rightarrow> int) \<Rightarrow> RegistryStore \<Rightarrow> RegisteredResource \<Rightarrow> (RegistryStore \<times> ResourceEvent list) res"
  and erase_children ::
    "nat \<Rightarrow> (pystr \<Rightarrow> int) \<Rightarrow> RegistryStore \<Rightarrow> pystr list \<Rightarrow> (RegistryStore \<times> ResourceEvent list) res"
where
  "erase_subtree 0 hn st r = Inl RecursionError"
| "erase_subtree (Suc depth) hn st r =
     bind_res (erase_children depth hn st (sorted_children st (res_id r))) (\<lambda>(st', events).
       Inr (modify st' (resource_type r) (res_id r) (retire (hn (res_id r))),
            events @ [ev_removed r]))"
| "erase_children depth hn st [] = Inr (st, [])"
| "erase_children depth hn st (c # cs) =
     (case find_any st c of
        None \<Rightarrow> erase_children depth hn st cs
      | Some child \<Rightarrow>
          bind_res (erase_subtree depth hn st child) (\<lambda>(st', ev).
          bind_res (erase_children depth hn st' cs) (\<lambda>(st'', evs). Inr (st'', ev @ evs))))"
  by pat_completeness auto
termination
  by (relation "measures [\<lambda>x. case x of Inl (d, _) \<Rightarrow> d | Inr (d, _) \<Rightarrow> d,
                          \<lambda>x. case x of Inl _ \<Rightarrow> 0 | Inr (_, _, _, cs) \<Rightarrow> Suc (length cs)]") auto

definition delete_resource ::
  "(pystr \<Rightarrow> int) \<Rightarrow> RegistryStore \<Rightarrow> ResourceType \<Rightarrow> pystr \<Rightarrow> (RegistryStore \<times> ResourceEvent list option) res" where
  "delete_resource hn st rt i =
     (case get_resource st rt i False of
        None \<Rightarrow> Inr (st, None)
      | Some r \<Rightarrow> bind_res (erase_subtree recursion_limit hn st r) (\<lambda>(st', evs). Inr (st', Some evs)))"

definition remove_one ::
  "int \<Rightarrow> RegistryStore \<Rightarrow> ResourceType \<Rightarrow> pystr \<Rightarrow> RegistryStore \<times> ResourceEvent option" where
  "remove_one hn st rt i =
     (case dget (by_type st rt) i of
        None \<Rightarrow> (st, None)
      | Some r \<Rightarrow> if \<not> extant r then (st, None)
                  else (put_resource st rt i (retire hn r), Some (ev_removed r)))"

definition forget_record :: "RegistryStore \<Rightarrow> RegisteredResource \<Rightarrow> RegistryStore" where
  "forget_record st r =
     (let rt = resource_type r; i = res_id r;
          st1 = st\<lparr>by_type := (by_type st)(rt := dpop i (by_type st rt))\<rparr>;
          st2 = drop_from_order st1 rt i;
          st3 = (if type_of st2 i = Some rt then st2\<lparr>type_of := (type_of st2)(i := None)\<rparr> else st2);
          st4 = st3\<lparr>children := (children st3)(i := {})\<rparr>
      in case parent_id r of
           None \<Rightarrow> st4
         | Some p \<Rightarrow> st4\<lparr>children := (children st4)(p := children st4 p - {i})\<rparr>)"

function (sequential) walk ::
    "nat \<Rightarrow> RegistryStore \<Rightarrow> RegisteredResource \<Rightarrow> RegisteredResource list res"
  and walk_children :: "nat \<Rightarrow> RegistryStore \<Rightarrow> pystr list \<Rightarrow> RegisteredResource list res"
where
  "walk 0 st r = Inl RecursionError"
| "walk (Suc depth) st r =
     bind_res (walk_children depth st (sorted_children st (res_id r))) (\<lambda>rs. Inr (rs @ [r]))"
| "walk_children depth st [] = Inr []"
| "walk_children depth st (c # cs) =
     (case find_any st c of
        None \<Rightarrow> walk_children depth st cs
      | Some child \<Rightarrow>
          if extant child then
            bind_res (walk depth st child) (\<lambda>xs.
            bind_res (walk_children depth st cs) (\<lambda>ys. Inr (xs @ ys)))
          else walk_children depth st cs)"
  by pat_completeness auto
termination
  by (relation "measures [\<lambda>x. case x of Inl (d, _) \<Rightarrow> d | Inr (d, _) \<Rightarrow> d,
                          \<lambda>x. case x of Inl _ \<Rightarrow> 0 | Inr (_, _, cs) \<Rightarrow> Suc (length cs)]") auto

definition subtree :: "RegistryStore \<Rightarrow> ResourceType \<Rightarrow> pystr \<Rightarrow> RegisteredResource list res" where
  "subtree st rt i =
     (case get_resource st rt i False of None \<Rightarrow> Inr [] | Some top_res \<Rightarrow> walk recursion_limit st top_res)"

definition forgettable :: "RegistryStore \<Rightarrow> int \<Rightarrow> (ResourceType \<times> pystr) list" where
  "forgettable st moment =
     (let forget_before = moment - trunc (forget_interval st)
      in sort_key (\<lambda>(rt, i). (singular rt, i))
           (map (\<lambda>r. (resource_type r, res_id r))
              (filter (\<lambda>r. \<not> extant r \<and> health r < forget_before)
                 (concat (map (\<lambda>rt. map snd (by_type st rt)) resource_types)))))"

definition forget :: "RegistryStore \<Rightarrow> ResourceType \<Rightarrow> pystr \<Rightarrow> RegistryStore \<times> bool" where
  "forget st rt i =
     (case dget (by_type st rt) i of
        None \<Rightarrow> (st, False)
      | Some r \<Rightarrow> if extant r then (st, False) else (forget_record st r, True))"

subsection \<open>Health and garbage collection\<close>

text \<open>
  The source walks \<open>_children\<close> in hash order here; every order gives the same store, so the
  model takes the sorted one.
\<close>

function (sequential) set_health_recursive ::
    "nat \<Rightarrow> RegistryStore \<Rightarrow> RegisteredResource \<Rightarrow> int \<Rightarrow> RegistryStore res"
  and set_health_children :: "nat \<Rightarrow> RegistryStore \<Rightarrow> pystr list \<Rightarrow> int \<Rightarrow> RegistryStore res"
where
  "set_health_recursive 0 st r h = Inl RecursionError"
| "set_health_recursive (Suc depth) st r h =
     bind_res (set_health_children depth st (sorted_children st (res_id r)) h) (\<lambda>st'.
       Inr (modify st' (resource_type r) (res_id r) (\<lambda>x. x\<lparr>health := h\<rparr>)))"
| "set_health_children depth st [] h = Inr st"
| "set_health_children depth st (c # cs) h =
     (case find_any st c of
        None \<Rightarrow> set_health_children depth st cs h
      | Some child \<Rightarrow>
          bind_res (set_health_recursive depth st child h) (\<lambda>st'. set_health_children depth st' cs h))"
  by pat_completeness auto
termination
  by (relation "measures [\<lambda>x. case x of Inl (d, _) \<Rightarrow> d | Inr (d, _) \<Rightarrow> d,
                          \<lambda>x. case x of Inl _ \<Rightarrow> 0 | Inr (_, _, cs, _) \<Rightarrow> Suc (length cs)]") auto

definition heartbeat :: "int \<Rightarrow> RegistryStore \<Rightarrow> pystr \<Rightarrow> (RegistryStore \<times> int option) res" where
  "heartbeat hn st node_id =
     (case get_resource st NODE node_id False of
        None \<Rightarrow> Inr (st, None)
      | Some node \<Rightarrow>
          bind_res (set_health_recursive recursion_limit st node hn) (\<lambda>st'. Inr (st', Some hn)))"

definition node_health :: "RegistryStore \<Rightarrow> pystr \<Rightarrow> int option" where
  "node_health st node_id = map_option health (get_resource st NODE node_id False)"

text \<open>The expiry loop: every node's health is read when its turn comes.\<close>

fun expire_nodes ::
  "(pystr \<Rightarrow> int) \<Rightarrow> int \<Rightarrow> RegistryStore \<Rightarrow> pystr list \<Rightarrow> (RegistryStore \<times> ResourceEvent list) res" where
  "expire_nodes hn expire_before st [] = Inr (st, [])"
| "expire_nodes hn expire_before st (i # is) =
     (case dget (by_type st NODE) i of
        None \<Rightarrow> expire_nodes hn expire_before st is
      | Some node \<Rightarrow>
          if health node < expire_before then
            bind_res (erase_subtree recursion_limit hn st node) (\<lambda>(st', ev).
            bind_res (expire_nodes hn expire_before st' is) (\<lambda>(st'', evs). Inr (st'', ev @ evs)))
          else expire_nodes hn expire_before st is)"

fun forget_all :: "RegistryStore \<Rightarrow> (ResourceType \<times> pystr) list \<Rightarrow> RegistryStore" where
  "forget_all st [] = st"
| "forget_all st ((rt, i) # vs) = forget_all (fst (forget st rt i)) vs"

definition collect_garbage ::
  "(pystr \<Rightarrow> int) \<Rightarrow> int \<Rightarrow> RegistryStore \<Rightarrow> (RegistryStore \<times> ResourceEvent list) res" where
  "collect_garbage hn now st =
     bind_res (expire_nodes hn (now - trunc (gc_interval st)) st (map res_id (iter_extant st NODE)))
       (\<lambda>(st', events). Inr (forget_all st' (forgettable st' now), events))"

subsection \<open>Statistics\<close>

definition min_health :: "int option \<Rightarrow> RegisteredResource \<Rightarrow> int option" where
  "min_health least r =
     (case least of None \<Rightarrow> Some (health r)
                  | Some l \<Rightarrow> if health r < l then Some (health r) else Some l)"

definition statistics :: "int \<Rightarrow> RegistryStore \<Rightarrow> int \<Rightarrow> int \<Rightarrow> RegistryStatistics" where
  "statistics hn st subs grs =
     (let all = concat (map (\<lambda>rt. map snd (by_type st rt)) resource_types);
          live = filter extant all;
          counts = map (\<lambda>rt. (rt, count_extant st rt)) resource_types;
          least = foldl min_health None live
      in \<lparr>st_total = sum_list (map snd counts) + subs + grs,
          per_type = counts, subscriptions = subs, grains = grs,
          most_recent_update = foldl (\<lambda>m r. if updated r > m then updated r else m) cursor_min live,
          least_health = (case least of None \<Rightarrow> hn | Some l \<Rightarrow> l),
          non_extant = int (length (filter (\<lambda>r. \<not> extant r) all))\<rparr>)"

end
