(* ===== verification/Utf8.thy ===== *)
theory Utf8
  imports Prelude
begin

section \<open>UTF-8\<close>

text \<open>
  What the registry uses of \<open>str.encode("utf-8")\<close> and \<open>bytes.decode("utf-8")\<close>, both in
  strict mode: lone surrogates are refused by the encoder; the decoder refuses overlong
  forms, surrogates, values beyond \<open>0x10FFFF\<close>, stray and missing continuation bytes.
  Bytes are handled as their values here and as \<^typ>\<open>8 word\<close> at the boundary.
\<close>

text \<open>The bytes of one code point; \<open>None\<close> for what strict encoding refuses.\<close>

definition utf8_char :: "nat \<Rightarrow> nat list option" where
  "utf8_char c =
     (if c < 128 then Some [c]
      else if c < 2048 then Some [192 + c div 64, 128 + c mod 64]
      else if 55296 \<le> c \<and> c < 57344 then None
      else if c < 65536 then Some [224 + c div 4096, 128 + c div 64 mod 64, 128 + c mod 64]
      else if c < 1114112 then
        Some [240 + c div 262144, 128 + c div 4096 mod 64, 128 + c div 64 mod 64, 128 + c mod 64]
      else None)"

definition valid_char :: "nat \<Rightarrow> bool" where
  "valid_char c \<longleftrightarrow> c < 1114112 \<and> \<not> (55296 \<le> c \<and> c < 57344)"

fun utf8_values :: "pystr \<Rightarrow> nat list option" where
  "utf8_values [] = Some []"
| "utf8_values (c # cs) =
     (case utf8_char c of
        None \<Rightarrow> None
      | Some bs \<Rightarrow> (case utf8_values cs of None \<Rightarrow> None | Some rest \<Rightarrow> Some (bs @ rest)))"

definition utf8_encode :: "pystr \<Rightarrow> bytes res" where
  "utf8_encode s = (case utf8_values s of None \<Rightarrow> Inl UnicodeError | Some vs \<Rightarrow> Inr (map of_nat vs))"

definition cont :: "nat \<Rightarrow> bool" where
  "cont b \<longleftrightarrow> 128 \<le> b \<and> b < 192"

fun utf8_chars :: "nat list \<Rightarrow> pystr option" where
  "utf8_chars [] = Some []"
| "utf8_chars (a # rest) =
     (if a < 128 then map_option ((#) a) (utf8_chars rest)
      else if a < 194 then None
      else if a < 224 then
        (case rest of
           b # rest' \<Rightarrow>
             if cont b then map_option ((#) ((a - 192) * 64 + (b - 128))) (utf8_chars rest') else None
         | _ \<Rightarrow> None)
      else if a < 240 then
        (case rest of
           b # c # rest' \<Rightarrow>
             (let v = (a - 224) * 4096 + (b - 128) * 64 + (c - 128)
              in if cont b \<and> cont c \<and> 2048 \<le> v \<and> \<not> (55296 \<le> v \<and> v < 57344)
                 then map_option ((#) v) (utf8_chars rest') else None)
         | _ \<Rightarrow> None)
      else if a < 245 then
        (case rest of
           b # c # d # rest' \<Rightarrow>
             (let v = (a - 240) * 262144 + (b - 128) * 4096 + (c - 128) * 64 + (d - 128)
              in if cont b \<and> cont c \<and> cont d \<and> 65536 \<le> v \<and> v < 1114112
                 then map_option ((#) v) (utf8_chars rest') else None)
         | _ \<Rightarrow> None)
      else None)"

definition utf8_decode :: "bytes \<Rightarrow> pystr res" where
  "utf8_decode bs = (case utf8_chars (map unat bs) of None \<Rightarrow> Inl UnicodeError | Some s \<Rightarrow> Inr s)"

declare utf8_chars.simps(2) [simp del]

lemma utf8_char_None: "utf8_char c = None \<longleftrightarrow> \<not> valid_char c"
  by (auto simp: utf8_char_def valid_char_def)

lemma mod_parts:
  fixes c :: nat
  shows "c div 64 * 64 + c mod 64 = c"
    and "c div 4096 * 4096 + c div 64 mod 64 * 64 + c mod 64 = c"
    and "c div 262144 * 262144 + c div 4096 mod 64 * 4096 + c div 64 mod 64 * 64 + c mod 64 = c"
proof -
  show a: "c div 64 * 64 + c mod 64 = c" by simp
  have "c div 4096 = c div 64 div 64" by (simp add: div_mult2_eq)
  then have b: "c div 4096 * 64 + c div 64 mod 64 = c div 64" by simp
  then have "c div 4096 * 4096 + c div 64 mod 64 * 64 = c div 64 * 64" by simp
  with a show d: "c div 4096 * 4096 + c div 64 mod 64 * 64 + c mod 64 = c" by simp
  have "c div 262144 = c div 4096 div 64" by (simp add: div_mult2_eq)
  then have "c div 262144 * 64 + c div 4096 mod 64 = c div 4096" by simp
  then have "c div 262144 * 262144 + c div 4096 mod 64 * 4096 = c div 4096 * 4096" by simp
  with d show "c div 262144 * 262144 + c div 4096 mod 64 * 4096 + c div 64 mod 64 * 64 + c mod 64 = c" by simp
qed

lemma cont_mod: "cont (128 + x mod 64)"
  by (simp add: cont_def)

lemma utf8_char_bytes: "utf8_char c = Some bs \<Longrightarrow> b \<in> set bs \<Longrightarrow> b < 256"
  by (auto simp: utf8_char_def split: if_splits)

lemma utf8_chars_char:
  assumes "utf8_char c = Some bs"
  shows "utf8_chars (bs @ rest) = map_option ((#) c) (utf8_chars rest)"
proof -
  consider (one) "c < 128" | (two) "128 \<le> c" "c < 2048"
    | (three) "2048 \<le> c" "c < 65536" "\<not> (55296 \<le> c \<and> c < 57344)" | (four) "65536 \<le> c" "c < 1114112"
    using assms by (auto simp: utf8_char_def split: if_splits)
  then show ?thesis
  proof cases
    case one
    then show ?thesis using assms by (auto simp: utf8_char_def utf8_chars.simps(2))
  next
    case two
    then have bs: "bs = [192 + c div 64, 128 + c mod 64]" using assms by (simp add: utf8_char_def)
    have "2 \<le> c div 64" "c div 64 < 32" using two by auto
    then show ?thesis
      using mod_parts(1) [of c] by (simp add: bs utf8_chars.simps(2) cont_mod)
  next
    case three
    then have bs: "bs = [224 + c div 4096, 128 + c div 64 mod 64, 128 + c mod 64]"
      using assms by (auto simp: utf8_char_def)
    have "c div 4096 < 16" using three by auto
    then show ?thesis
      using mod_parts(2) [of c] three by (simp add: bs utf8_chars.simps(2) cont_mod Let_def)
  next
    case four
    then have bs: "bs = [240 + c div 262144, 128 + c div 4096 mod 64, 128 + c div 64 mod 64, 128 + c mod 64]"
      using assms by (auto simp: utf8_char_def)
    have "c div 262144 < 5" using four by auto
    then show ?thesis
      using mod_parts(3) [of c] four by (simp add: bs utf8_chars.simps(2) cont_mod Let_def)
  qed
qed

lemma utf8_chars_values: "utf8_values s = Some vs \<Longrightarrow> utf8_chars vs = Some s"
proof (induction s arbitrary: vs)
  case (Cons c cs)
  then obtain bs rest where "utf8_char c = Some bs" "utf8_values cs = Some rest" "vs = bs @ rest"
    by (auto split: option.splits)
  then show ?case using Cons.IH utf8_chars_char by simp
qed simp

lemma utf8_values_bytes: "utf8_values s = Some vs \<Longrightarrow> b \<in> set vs \<Longrightarrow> b < 256"
  by (induction s arbitrary: vs) (auto dest: utf8_char_bytes split: option.splits)

lemma utf8_values_defined: "(\<exists>vs. utf8_values s = Some vs) \<longleftrightarrow> list_all valid_char s"
proof (induction s)
  case (Cons c cs)
  then show ?case using utf8_char_None [of c] by (auto split: option.splits)
qed simp

lemma unat_of_nat_byte: "v < 256 \<Longrightarrow> unat (of_nat v :: 8 word) = v"
  by (simp add: unat_of_nat take_bit_eq_mod)

lemma utf8_round_trip: "utf8_encode s = Inr bs \<Longrightarrow> utf8_decode bs = Inr s"
proof -
  assume "utf8_encode s = Inr bs"
  then obtain vs where vs: "utf8_values s = Some vs" "bs = map of_nat vs"
    by (auto simp: utf8_encode_def split: option.splits)
  have "map (unat \<circ> (of_nat :: nat \<Rightarrow> 8 word)) vs = vs"
    using utf8_values_bytes [OF vs(1)] unat_of_nat_byte by (intro map_idI) simp
  then show ?thesis using utf8_chars_values [OF vs(1)] by (simp add: utf8_decode_def vs(2))
qed

lemma utf8_encode_defined: "(\<exists>bs. utf8_encode s = Inr bs) \<longleftrightarrow> list_all valid_char s"
  using utf8_values_defined [of s] by (auto simp: utf8_encode_def split: option.splits)

end
