(* ===== verification/Paging.thy ===== *)
theory Paging
  imports Registry_Store Utf8 "HOL-Library.Multiset"
begin

section \<open>Query API pagination\<close>

text \<open>
  \<open>src/nmos/registry/paging.py\<close>: parsing the four \<open>paging.*\<close> parameters, selecting one page
  by binary search over the cursor-ordered collection, and the response headers. Python's
  slicing, indexing, \<open>bisect_right\<close> and \<open>urlencode\<close> are modelled as the code uses them.
\<close>

record PagingRequest =
  pg_since :: "TaiCursor option"
  pg_until :: "TaiCursor option"
  pg_limit :: int
  pg_order :: Order

definition order_by_created :: "PagingRequest \<Rightarrow> bool" where
  "order_by_created req \<longleftrightarrow> pg_order req = ORDER_CREATE"

definition page_cursor :: "PagingRequest \<Rightarrow> RegisteredResource \<Rightarrow> TaiCursor" where
  "page_cursor req r = (if order_by_created req then created r else updated r)"

record Page =
  resources :: "RegisteredResource list"
  page_since :: TaiCursor
  page_until :: TaiCursor
  page_limit :: int

subsection \<open>Parameters\<close>

definition PARAM_SINCE :: pystr where "PARAM_SINCE = str ''paging.since''"
definition PARAM_UNTIL :: pystr where "PARAM_UNTIL = str ''paging.until''"
definition PARAM_LIMIT :: pystr where "PARAM_LIMIT = str ''paging.limit''"
definition PARAM_ORDER :: pystr where "PARAM_ORDER = str ''paging.order''"

definition PAGING_PARAMS :: "pystr list" where
  "PAGING_PARAMS = [PARAM_SINCE, PARAM_UNTIL, PARAM_LIMIT, PARAM_ORDER]"

definition cursor_param :: "(pystr, pystr) pydict \<Rightarrow> pystr \<Rightarrow> TaiCursor option res" where
  "cursor_param params name =
     (case dget params name of
        None \<Rightarrow> Inr None
      | Some raw \<Rightarrow>
          bind_res (cursor_parse raw) (\<lambda>c. case c of None \<Rightarrow> Inl PagingError | Some x \<Rightarrow> Inr (Some x)))"

definition limit_param :: "(pystr, pystr) pydict \<Rightarrow> int \<Rightarrow> int \<Rightarrow> int res" where
  "limit_param params default_limit max_limit =
     (case dget params PARAM_LIMIT of
        None \<Rightarrow> Inr default_limit
      | Some raw \<Rightarrow>
          if \<not> py_isdigit (py_lstrip 45 raw) then Inl PagingError
          else bind_res (py_int raw) (\<lambda>limit.
            if limit < 0 then Inl PagingError else Inr (min limit max_limit)))"

definition order_param :: "(pystr, pystr) pydict \<Rightarrow> Order res" where
  "order_param params =
     (case dget params PARAM_ORDER of
        None \<Rightarrow> Inr ORDER_UPDATE
      | Some s \<Rightarrow> if s = str ''create'' then Inr ORDER_CREATE
                  else if s = str ''update'' then Inr ORDER_UPDATE else Inl PagingError)"

definition parse_paging :: "(pystr, pystr) pydict \<Rightarrow> int \<Rightarrow> int \<Rightarrow> PagingRequest res" where
  "parse_paging params default_limit max_limit =
     bind_res (cursor_param params PARAM_SINCE) (\<lambda>since.
     bind_res (cursor_param params PARAM_UNTIL) (\<lambda>until.
     bind_res (limit_param params default_limit max_limit) (\<lambda>limit.
     bind_res (order_param params) (\<lambda>ord.
       case (since, until) of
         (Some s, Some u) \<Rightarrow>
           if s > u then Inl PagingError
           else Inr \<lparr>pg_since = since, pg_until = until, pg_limit = limit, pg_order = ord\<rparr>
       | _ \<Rightarrow> Inr \<lparr>pg_since = since, pg_until = until, pg_limit = limit, pg_order = ord\<rparr>))))"

subsection \<open>Selecting a page\<close>

text \<open>\<open>bisect.bisect_right(a, x, key=key)\<close>: the loop between \<open>lo\<close> and \<open>hi\<close>.\<close>

function bisect_loop :: "('a \<Rightarrow> 'k::linorder) \<Rightarrow> 'a list \<Rightarrow> 'k \<Rightarrow> nat \<Rightarrow> nat \<Rightarrow> nat" where
  "bisect_loop key xs x lo hi =
     (if lo < hi then
        (let mid = (lo + hi) div 2
         in if x < key (xs ! mid) then bisect_loop key xs x lo mid
            else bisect_loop key xs x (mid + 1) hi)
      else lo)"
  by pat_completeness auto
termination
  by (relation "measure (\<lambda>(key, xs, x, lo, hi). hi - lo)") auto

declare bisect_loop.simps [simp del]

definition bisect_right :: "('a \<Rightarrow> 'k::linorder) \<Rightarrow> 'a list \<Rightarrow> 'k \<Rightarrow> nat" where
  "bisect_right key xs x = bisect_loop key xs x 0 (length xs)"

text \<open>\<open>xs[a:b]\<close> and \<open>xs[i]\<close> with Python's reading of negative positions.\<close>

definition py_bound :: "'a list \<Rightarrow> int \<Rightarrow> nat" where
  "py_bound xs i = nat (if i < 0 then max 0 (i + int (length xs)) else min i (int (length xs)))"

definition py_slice :: "'a list \<Rightarrow> int \<Rightarrow> int \<Rightarrow> 'a list" where
  "py_slice xs a b = drop (py_bound xs a) (take (py_bound xs b) xs)"

definition py_index :: "'a list \<Rightarrow> int \<Rightarrow> 'a res" where
  "py_index xs i =
     (let j = (if i < 0 then i + int (length xs) else i)
      in if j < 0 \<or> j \<ge> int (length xs) then Inl IndexError else Inr (xs ! nat j))"

definition max_cursor ::
  "RegisteredResource list \<Rightarrow> (RegisteredResource \<Rightarrow> TaiCursor) \<Rightarrow> bool \<Rightarrow> TaiCursor" where
  "max_cursor collection key presorted =
     (if presorted then (if collection \<noteq> [] then key (last collection) else cursor_min)
      else foldl (\<lambda>highest r. if key r > highest then key r else highest) cursor_min collection)"

definition forward_page :: "RegisteredResource list \<Rightarrow> PagingRequest \<Rightarrow> TaiCursor \<Rightarrow> Page" where
  "forward_page ascending req since =
     (let key = page_cursor req;
          start = int (bisect_right key ascending since);
          end0 = (case pg_until req of
                    None \<Rightarrow> int (length ascending)
                  | Some u \<Rightarrow> int (bisect_right key ascending u));
          end1 = (if end0 < start then start else end0);
          window_size = end1 - start;
          page = py_slice ascending start (min end1 (start + pg_limit req));
          truncated = (window_size > pg_limit req);
          report_until =
            (if truncated \<and> page \<noteq> [] then key (last page)
             else case pg_until req of
                    Some u \<Rightarrow> u
                  | None \<Rightarrow> if page \<noteq> [] then key (last page) else since)
      in \<lparr>resources = rev page, page_since = since, page_until = report_until,
          page_limit = pg_limit req\<rparr>)"

definition backward_page ::
  "RegisteredResource list \<Rightarrow> RegisteredResource list \<Rightarrow> PagingRequest \<Rightarrow> bool \<Rightarrow> Page res" where
  "backward_page ascending collection req presorted =
     (let key = page_cursor req;
          ceiling = (case pg_until req of Some u \<Rightarrow> u | None \<Rightarrow> max_cursor collection key presorted);
          window_size = int (bisect_right key ascending ceiling);
          page = (if pg_limit req = 0 then []
                  else py_slice ascending (max 0 (window_size - pg_limit req)) window_size);
          mk = (\<lambda>s. \<lparr>resources = rev page, page_since = s, page_until = ceiling, page_limit = pg_limit req\<rparr>)
      in if pg_limit req = 0 then Inr (mk ceiling)
         else if window_size > pg_limit req
         then bind_res (py_index ascending (window_size - pg_limit req - 1)) (\<lambda>r. Inr (mk (key r)))
         else Inr (mk cursor_min))"

definition apply_paging ::
  "RegisteredResource list \<Rightarrow> RegisteredResource list \<Rightarrow> PagingRequest \<Rightarrow> bool \<Rightarrow> Page res" where
  "apply_paging matched collection req presorted =
     (let ascending = (if presorted then matched
                       else sort_key (\<lambda>r. (page_cursor req r, res_id r)) matched)
      in case pg_since req of
           Some since \<Rightarrow> Inr (forward_page ascending req since)
         | None \<Rightarrow> backward_page ascending collection req presorted)"

subsection \<open>Response headers\<close>

text \<open>\<open>urllib.parse.quote(text, safe=":")\<close>.\<close>

definition unreserved :: "nat \<Rightarrow> bool" where
  "unreserved c \<longleftrightarrow> 65 \<le> c \<and> c \<le> 90 \<or> 97 \<le> c \<and> c \<le> 122 \<or> 48 \<le> c \<and> c \<le> 57 \<or>
     c \<in> {95, 46, 45, 126, 58}"

definition hex_digit :: "nat \<Rightarrow> nat" where
  "hex_digit d = (if d < 10 then 48 + d else 55 + d)"

definition quote_byte :: "nat \<Rightarrow> pystr" where
  "quote_byte b = (if unreserved b then [b] else [37, hex_digit (b div 16), hex_digit (b mod 16)])"

definition quote :: "pystr \<Rightarrow> pystr res" where
  "quote s = bind_res (utf8_encode s) (\<lambda>bs. Inr (concat (map (\<lambda>b. quote_byte (unat b)) bs)))"

fun urlencode :: "(pystr \<times> pystr) list \<Rightarrow> pystr list res" where
  "urlencode [] = Inr []"
| "urlencode ((k, v) # rest) =
     bind_res (quote k) (\<lambda>qk. bind_res (quote v) (\<lambda>qv.
     bind_res (urlencode rest) (\<lambda>xs. Inr ((qk @ str ''='' @ qv) # xs))))"

definition encode_query :: "(pystr \<times> pystr) list \<Rightarrow> pystr res" where
  "encode_query qs = bind_res (urlencode qs) (\<lambda>xs. Inr (py_join (str ''&'') xs))"

fun order_str :: "Order \<Rightarrow> pystr" where
  "order_str ORDER_CREATE = str ''create''"
| "order_str ORDER_UPDATE = str ''update''"

definition link_query ::
  "(pystr \<times> pystr) list \<Rightarrow> (pystr \<times> TaiCursor) option \<Rightarrow> int \<Rightarrow> Order \<Rightarrow> (pystr \<times> pystr) list" where
  "link_query filters cursor limit ord =
     filters @ (case cursor of None \<Rightarrow> [] | Some (p, c) \<Rightarrow> [(p, cursor_str c)]) @
     [(PARAM_LIMIT, int_str limit)] @
     (if ord \<noteq> ORDER_UPDATE then [(PARAM_ORDER, order_str ord)] else [])"

definition link :: "pystr \<Rightarrow> (pystr \<times> pystr) list \<Rightarrow> pystr res" where
  "link base_url qs =
     bind_res (encode_query qs) (\<lambda>e. Inr (str ''<'' @ base_url @ str ''?'' @ e @ str ''>''))"

definition paging_headers ::
  "Page \<Rightarrow> pystr \<Rightarrow> (pystr \<times> pystr) list \<Rightarrow> Order \<Rightarrow> (pystr, pystr) pydict res" where
  "paging_headers page base_url filters ord =
     (let mk = (\<lambda>c. link base_url (link_query filters c (page_limit page) ord))
      in bind_res (mk (Some (PARAM_SINCE, page_until page))) (\<lambda>nxt.
         bind_res (mk (Some (PARAM_UNTIL, page_since page))) (\<lambda>prev.
         bind_res (mk (Some (PARAM_SINCE, cursor_min))) (\<lambda>first.
         bind_res (mk None) (\<lambda>lst.
           Inr [(str ''Link'', py_join (str '', '')
                   [nxt @ str ''; rel='' @ [34] @ str ''next'' @ [34],
                    prev @ str ''; rel='' @ [34] @ str ''prev'' @ [34],
                    first @ str ''; rel='' @ [34] @ str ''first'' @ [34],
                    lst @ str ''; rel='' @ [34] @ str ''last'' @ [34]]),
                (str ''X-Paging-Limit'', int_str (page_limit page)),
                (str ''X-Paging-Since'', cursor_str (page_since page)),
                (str ''X-Paging-Until'', cursor_str (page_until page))])))))"

subsection \<open>Binary search counts\<close>

lemma bisect_loop_inv:
  assumes "sorted (map key xs)" and "lo \<le> hi" and "hi \<le> length xs"
    and "\<forall>i < lo. key (xs ! i) \<le> x" and "\<forall>i. hi \<le> i \<and> i < length xs \<longrightarrow> x < key (xs ! i)"
  shows "bisect_loop key xs x lo hi \<le> length xs \<and>
    (\<forall>i < bisect_loop key xs x lo hi. key (xs ! i) \<le> x) \<and>
    (\<forall>i. bisect_loop key xs x lo hi \<le> i \<and> i < length xs \<longrightarrow> x < key (xs ! i))"
  using assms
proof (induction key xs x lo hi rule: bisect_loop.induct)
  case (1 key xs x lo hi)
  have mono: "key (xs ! i) \<le> key (xs ! j)" if "i \<le> j" "j < length xs" for i j
    using "1.prems"(1) that by (simp add: sorted_iff_nth_mono)
  show ?case
  proof (cases "lo < hi")
    case True
    define mid where "mid = (lo + hi) div 2"
    have m: "lo \<le> mid" "mid < hi" using True by (auto simp: mid_def)
    show ?thesis
    proof (cases "x < key (xs ! mid)")
      case x: True
      have "\<forall>i. mid \<le> i \<and> i < length xs \<longrightarrow> x < key (xs ! i)"
        using x mono by (meson less_le_trans)
      moreover have run: "bisect_loop key xs x lo hi = bisect_loop key xs x lo mid"
        using True x by (simp add: bisect_loop.simps [of key xs x lo hi] mid_def)
      ultimately show ?thesis
        unfolding run using "1.prems" m by (intro "1.IH"(1) [OF True mid_def x]) simp_all
    next
      case x: False
      have "\<forall>i < mid + 1. key (xs ! i) \<le> x"
      proof (intro allI impI)
        fix i assume "i < mid + 1"
        then have "key (xs ! i) \<le> key (xs ! mid)" using m(2) "1.prems"(3) by (intro mono) auto
        with x show "key (xs ! i) \<le> x" by (simp add: not_less)
      qed
      moreover have run: "bisect_loop key xs x lo hi = bisect_loop key xs x (mid + 1) hi"
        using True x by (simp add: bisect_loop.simps [of key xs x lo hi] mid_def)
      ultimately show ?thesis
        unfolding run using "1.prems" m by (intro "1.IH"(2) [OF True mid_def x]) simp_all
    qed
  next
    case False
    then have "bisect_loop key xs x lo hi = lo" by (simp add: bisect_loop.simps [of key xs x lo hi])
    with False "1.prems" show ?thesis by simp
  qed
qed

lemma bisect_inv:
  assumes "sorted (map key xs)"
  shows "bisect_right key xs x \<le> length xs" "\<forall>i < bisect_right key xs x. key (xs ! i) \<le> x"
    "\<forall>i. bisect_right key xs x \<le> i \<and> i < length xs \<longrightarrow> x < key (xs ! i)"
proof -
  have "bisect_right key xs x \<le> length xs \<and> (\<forall>i < bisect_right key xs x. key (xs ! i) \<le> x) \<and>
    (\<forall>i. bisect_right key xs x \<le> i \<and> i < length xs \<longrightarrow> x < key (xs ! i))"
    unfolding bisect_right_def by (rule bisect_loop_inv [OF assms]) auto
  then show "bisect_right key xs x \<le> length xs" "\<forall>i < bisect_right key xs x. key (xs ! i) \<le> x"
    "\<forall>i. bisect_right key xs x \<le> i \<and> i < length xs \<longrightarrow> x < key (xs ! i)" by blast+
qed

lemma bisect_right_split:
  assumes "sorted (map key xs)"
  shows "take (bisect_right key xs x) xs = filter (\<lambda>r. key r \<le> x) xs"
    and "drop (bisect_right key xs x) xs = filter (\<lambda>r. x < key r) xs"
    and "bisect_right key xs x \<le> length xs"
proof -
  let ?b = "bisect_right key xs x"
  have b: "?b \<le> length xs" "\<forall>i < ?b. key (xs ! i) \<le> x" "\<forall>i. ?b \<le> i \<and> i < length xs \<longrightarrow> x < key (xs ! i)"
    using bisect_inv [OF assms, of x] by (simp_all only: bisect_right_def)
  have t: "r \<in> set (take ?b xs) \<Longrightarrow> key r \<le> x" for r
    using b(1,2) by (auto simp: in_set_conv_nth)
  have d: "r \<in> set (drop ?b xs) \<Longrightarrow> x < key r" for r
    using b(1,3) by (auto simp: in_set_conv_nth)
  have split: "filter P xs = filter P (take ?b xs) @ filter P (drop ?b xs)" for P
    by (metis append_take_drop_id filter_append)
  show "take ?b xs = filter (\<lambda>r. key r \<le> x) xs"
    unfolding split [of "\<lambda>r. key r \<le> x"] using t d
    by (simp add: filter_id_conv filter_empty_conv not_le)
  show "drop ?b xs = filter (\<lambda>r. x < key r) xs"
    unfolding split [of "\<lambda>r. x < key r"] using t d
    by (simp add: filter_id_conv filter_empty_conv not_less)
  show "?b \<le> length xs" by (rule b(1))
qed

lemma bisect_right_length:
  "sorted (map key xs) \<Longrightarrow> bisect_right key xs x = length (filter (\<lambda>r. key r \<le> x) xs)"
  by (metis bisect_right_split(1,3) length_take min_absorb2)

subsection \<open>The window\<close>

text \<open>The records a request's window holds, in ascending order.\<close>

definition in_window :: "(RegisteredResource \<Rightarrow> TaiCursor) \<Rightarrow> TaiCursor \<Rightarrow> TaiCursor option \<Rightarrow> RegisteredResource \<Rightarrow> bool" where
  "in_window key since until r \<longleftrightarrow> since < key r \<and> (case until of None \<Rightarrow> True | Some u \<Rightarrow> key r \<le> u)"

lemma py_slice_nonneg:
  "0 \<le> a \<Longrightarrow> a \<le> b \<Longrightarrow> py_slice xs a b = take (nat (b - a)) (drop (nat a) xs)"
  by (auto simp: py_slice_def py_bound_def drop_take min_def nat_diff_distrib)

lemma window_slice:
  fixes key :: "RegisteredResource \<Rightarrow> TaiCursor" and since until
  assumes s: "sorted (map key xs)"
  defines "a \<equiv> bisect_right key xs since"
  defines "b \<equiv> (case until of None \<Rightarrow> length xs | Some u \<Rightarrow> bisect_right key xs u)"
  shows "take (max a b - a) (drop a xs) = filter (in_window key since until) xs"
    and "length (filter (in_window key since until) xs) = max a b - a"
proof -
  let ?W = "in_window key since until"
  have b: "b \<le> length xs" using bisect_right_split(3) [OF s] by (auto simp: b_def split: option.splits)
  have low: "\<not> ?W r" if "r \<in> set (take a xs)" for r
    using that bisect_right_split(1) [OF s, of since] by (auto simp: a_def in_window_def)
  have high: "\<not> ?W r" if "r \<in> set (drop b xs)" for r
    using that bisect_right_split(2) [OF s] by (auto simp: b_def in_window_def split: option.splits)
  have mid: "?W r" if "r \<in> set (drop a xs)" "r \<in> set (take b xs)" for r
    using that bisect_right_split(1) [OF s] bisect_right_split(2) [OF s, of since]
    by (auto simp: a_def b_def in_window_def split: option.splits)
  have w: "filter ?W xs = drop a (take b xs)"
  proof (cases "a \<le> b")
    case True
    have "xs = take a xs @ drop a (take b xs) @ drop b xs"
      using True by (metis append_assoc append_take_drop_id min_absorb1 take_take)
    then have "filter ?W xs = filter ?W (take a xs) @ filter ?W (drop a (take b xs)) @ filter ?W (drop b xs)"
      by (metis filter_append)
    moreover have "filter ?W (drop a (take b xs)) = drop a (take b xs)"
    proof -
      have "?W r" if "r \<in> set (drop a (take b xs))" for r
        using that mid [of r] in_set_takeD [of r "b - a" "drop a xs"] in_set_dropD [of r a "take b xs"]
        by (simp add: drop_take)
      then show ?thesis by (simp add: filter_id_conv)
    qed
    ultimately show ?thesis using low high by (simp add: filter_empty_conv)
  next
    case False
    have "\<not> ?W r" if "r \<in> set xs" for r
    proof -
      have "set (drop a xs) \<subseteq> set (drop b xs)" using False by (intro set_drop_subset_set_drop) simp
      moreover have "r \<in> set (take a xs) \<union> set (drop a xs)"
        using that by (metis append_take_drop_id set_append)
      ultimately show ?thesis using low high by blast
    qed
    then show ?thesis using False by (simp add: filter_empty_conv)
  qed
  show "take (max a b - a) (drop a xs) = filter ?W xs"
    unfolding w by (simp add: drop_take max_def)
  show "length (filter ?W xs) = max a b - a"
    unfolding w using b by (simp add: max_def)
qed

lemma forward_page_window:
  fixes since
  assumes s: "sorted (map (page_cursor req) xs)" and l: "0 \<le> pg_limit req"
  defines "w \<equiv> filter (in_window (page_cursor req) since (pg_until req)) xs"
  shows "resources (forward_page xs req since) = rev (take (nat (pg_limit req)) w)"
    and "page_since (forward_page xs req since) = since"
    and "page_until (forward_page xs req since) =
      (let p = take (nat (pg_limit req)) w
       in if nat (pg_limit req) < length w \<and> p \<noteq> [] then page_cursor req (last p)
          else case pg_until req of Some u \<Rightarrow> u
               | None \<Rightarrow> if p \<noteq> [] then page_cursor req (last p) else since)"
proof -
  let ?key = "page_cursor req"
  define a where "a = bisect_right ?key xs since"
  define b where "b = (case pg_until req of None \<Rightarrow> length xs | Some u \<Rightarrow> bisect_right ?key xs u)"
  define n where "n = nat (pg_limit req)"
  note ws = window_slice [OF s, of since "pg_until req", folded a_def b_def w_def]
  have e0: "(case pg_until req of None \<Rightarrow> int (length xs) | Some u \<Rightarrow> int (bisect_right ?key xs u)) = int b"
    by (simp add: b_def split: option.splits)
  have e1: "(if int b < int a then int a else int b) = int (max a b)" by simp
  have lim: "pg_limit req = int n" using l by (simp add: n_def)
  have "py_slice xs (int a) (min (int (max a b)) (int a + int n)) = take (min (max a b - a) n) (drop a xs)"
  proof -
    have "nat (min (int (max a b)) (int a + int n) - int a) = min (max a b - a) n" by linarith
    then show ?thesis by (subst py_slice_nonneg) simp_all
  qed
  also have "\<dots> = take n w" unfolding ws(1) [symmetric] by (simp add: min.commute)
  finally have page: "py_slice xs (int a) (min (int (max a b)) (int a + int n)) = take n w" .
  have tr: "int (max a b) - int a > int n \<longleftrightarrow> n < length w" unfolding ws(2) by (auto simp: max_def)
  show "resources (forward_page xs req since) = rev (take (nat (pg_limit req)) w)"
    "page_since (forward_page xs req since) = since"
    "page_until (forward_page xs req since) =
      (let p = take (nat (pg_limit req)) w
       in if nat (pg_limit req) < length w \<and> p \<noteq> [] then page_cursor req (last p)
          else case pg_until req of Some u \<Rightarrow> u
               | None \<Rightarrow> if p \<noteq> [] then page_cursor req (last p) else since)"
    unfolding forward_page_def Let_def a_def [symmetric] e0 e1 lim page tr nat_int by simp_all
qed

lemma backward_page_window:
  fixes collection presorted
  assumes s: "sorted (map (page_cursor req) xs)" and l: "0 < pg_limit req"
  defines "n \<equiv> nat (pg_limit req)"
  defines "topc \<equiv> (case pg_until req of Some u \<Rightarrow> u | None \<Rightarrow> max_cursor collection (page_cursor req) presorted)"
  defines "v \<equiv> filter (\<lambda>r. page_cursor req r \<le> topc) xs"
  shows "backward_page xs collection req presorted =
    Inr \<lparr>resources = rev (drop (length v - n) v),
         page_since = (if n < length v then page_cursor req (v ! (length v - n - 1)) else cursor_min),
         page_until = topc, page_limit = pg_limit req\<rparr>"
proof -
  let ?key = "page_cursor req"
  have lim: "pg_limit req = int n" "0 < n" using l by (simp_all add: n_def)
  have size: "bisect_right ?key xs topc = length v"
    unfolding v_def by (rule bisect_right_length [OF s])
  have tk: "take (length v) xs = v" using bisect_right_split(1) [OF s, of topc] size by (simp add: v_def)
  have le: "length v \<le> length xs" by (simp add: v_def)
  have page: "py_slice xs (max 0 (int (length v) - int n)) (int (length v)) = drop (length v - n) v"
  proof -
    have "py_bound xs (max 0 (int (length v) - int n)) = length v - n"
      "py_bound xs (int (length v)) = length v"
      using le lim(2) by (auto simp: py_bound_def max_def)
    then show ?thesis by (simp add: py_slice_def tk)
  qed
  have idx: "py_index xs (int (length v) - int n - 1) = Inr (v ! (length v - n - 1))" if "n < length v"
  proof -
    have "nat (int (length v) - int n - 1) = length v - n - 1" using that by linarith
    moreover have "xs ! (length v - n - 1) = v ! (length v - n - 1)"
      using arg_cong [OF tk, of "\<lambda>ys. ys ! (length v - n - 1)"] that by simp
    ultimately show ?thesis using that le by (simp add: py_index_def Let_def)
  qed
  show ?thesis
    unfolding backward_page_def Let_def topc_def [symmetric] size lim(1) page
    using lim(2) idx by (cases "n < length v") simp_all
qed

text \<open>A strictly ascending list: the records have distinct cursors.\<close>

definition ascending_by :: "(RegisteredResource \<Rightarrow> TaiCursor) \<Rightarrow> RegisteredResource list \<Rightarrow> bool" where
  "ascending_by key xs \<longleftrightarrow> sorted_wrt (<) (map key xs)"

lemma ascending_by_sorted: "ascending_by key xs \<Longrightarrow> sorted (map key xs)"
  unfolding ascending_by_def by (rule strict_sorted_imp_sorted)

lemma ascending_by_filter: "ascending_by key xs \<Longrightarrow> ascending_by key (filter P xs)"
  unfolding ascending_by_def sorted_wrt_map by (rule sorted_wrt_filter)

lemma ascending_split:
  assumes "ascending_by key (xs @ ys)" and "xs \<noteq> []"
  shows "filter (\<lambda>r. key r \<le> key (last xs)) (xs @ ys) = xs"
    and "filter (\<lambda>r. key (last xs) < key r) (xs @ ys) = ys"
proof -
  have le: "key r \<le> key (last xs)" if r: "r \<in> set xs" for r
  proof -
    have "sorted (map key xs)"
      using assms(1) unfolding ascending_by_def by (simp add: sorted_wrt_append strict_sorted_imp_sorted)
    moreover obtain i where "i < length xs" "r = xs ! i" using r by (metis in_set_conv_nth)
    ultimately show ?thesis using assms(2) by (auto simp: last_conv_nth sorted_iff_nth_mono)
  qed
  have lt: "key (last xs) < key r" if "r \<in> set ys" for r
    using assms that by (auto simp: ascending_by_def sorted_wrt_append)
  show "filter (\<lambda>r. key r \<le> key (last xs)) (xs @ ys) = xs"
    using le lt by (simp add: filter_id_conv filter_empty_conv not_le)
  show "filter (\<lambda>r. key (last xs) < key r) (xs @ ys) = ys"
    using le lt by (simp add: filter_id_conv filter_empty_conv not_less)
qed

subsection \<open>What paging promises\<close>

definition page_record :: "nat \<Rightarrow> int \<Rightarrow> RegisteredResource" where
  "page_record i t =
     \<lparr>resource_type = NODE, res_id = [i], body = \<lparr>body_text = [], parsed = None\<rparr>, version = [],
      created = TaiCursor t 0, updated = TaiCursor t 0, parent_id = None, extant = True, health = 0\<rparr>"

definition page_request :: "int option \<Rightarrow> int option \<Rightarrow> int \<Rightarrow> PagingRequest" where
  "page_request s u l =
     \<lparr>pg_since = map_option (\<lambda>t. TaiCursor t 0) s, pg_until = map_option (\<lambda>t. TaiCursor t 0) u,
      pg_limit = l, pg_order = ORDER_UPDATE\<rparr>"

lemmas page_sample_defs = page_record_def page_request_def page_cursor_def order_by_created_def
  less_TaiCursor_def less_eq_TaiCursor_def cursor_min_def

lemma in_window_prefix_until:
  assumes asc: "ascending_by key xs" and w: "filter (in_window key since until) xs = ps @ qs" and ps: "ps \<noteq> []"
  shows "filter (in_window key since (Some (key (last ps)))) xs = ps"
proof -
  have "ascending_by key (ps @ qs)" using ascending_by_filter [OF asc] unfolding w [symmetric] by blast
  then have eq: "filter (\<lambda>r. key r \<le> key (last ps)) (ps @ qs) = ps" using ps by (rule ascending_split(1))
  have "last ps \<in> set (filter (in_window key since until) xs)" unfolding w using ps by simp
  then have "in_window key since until (last ps)" by simp
  then have "in_window key since until r \<and> key r \<le> key (last ps) \<longleftrightarrow> in_window key since (Some (key (last ps))) r" for r
    by (auto simp: in_window_def split: option.splits)
  then show ?thesis using eq unfolding w [symmetric] by (simp add: filter_filter conj_commute)
qed

lemma in_window_suffix:
  assumes asc: "ascending_by key xs" and v: "filter (\<lambda>r. key r \<le> u) xs = ps @ qs" and ps: "ps \<noteq> []"
  shows "filter (in_window key (key (last ps)) (Some u)) xs = qs"
proof -
  have "ascending_by key (ps @ qs)" using ascending_by_filter [OF asc] unfolding v [symmetric] by blast
  then have "filter (\<lambda>r. key (last ps) < key r) (ps @ qs) = qs" using ps by (rule ascending_split(2))
  then show ?thesis unfolding v [symmetric] by (simp add: filter_filter in_window_def [abs_def] conj_commute)
qed

text \<open>
  C34: the reported cursors describe the page. On a collection whose cursors are distinct and
  above \<open>0:0\<close>, with a positive limit, every request is answered, the page has at most
  \<open>limit\<close> records, most recent first, and asking again for exactly the window
  (\<open>X-Paging-Since\<close>, \<open>X-Paging-Until\<close>] selects exactly the records of the page.
\<close>

theorem page_cursors_describe_page:
  assumes asc: "ascending_by (page_cursor req) xs" and l: "0 < pg_limit req"
    and pos: "\<forall>r \<in> set xs. cursor_min < page_cursor req r"
  shows "\<exists>p. apply_paging xs collection req True = Inr p \<and>
    int (length (resources p)) \<le> pg_limit req \<and>
    filter (in_window (page_cursor req) (page_since p) (Some (page_until p))) xs = rev (resources p)"
proof (cases "pg_since req")
  case (Some since)
  let ?key = "page_cursor req" and ?n = "nat (pg_limit req)"
  let ?p = "forward_page xs req since" and ?w = "filter (in_window ?key since (pg_until req)) xs"
  note f = forward_page_window [OF ascending_by_sorted [OF asc], of since]
  have run: "apply_paging xs collection req True = Inr ?p" by (simp add: apply_paging_def Some)
  have wsplit: "?w = take ?n ?w @ drop ?n ?w" by simp
  have "filter (in_window ?key since (Some (page_until ?p))) xs = take ?n ?w"
  proof (cases "take ?n ?w = []")
    case True
    then have "?w = []" using l by simp
    then show ?thesis using f(3) l
      by (cases "pg_until req") (auto simp: Let_def in_window_def filter_empty_conv)
  next
    case False
    show ?thesis
    proof (cases "?n < length ?w \<or> pg_until req = None")
      case True
      then have "page_until ?p = ?key (last (take ?n ?w))" using f(3) l False by (auto simp: Let_def)
      then show ?thesis using in_window_prefix_until [OF asc wsplit False] by simp
    next
      case False
      then show ?thesis using f(3) l by (auto simp: Let_def)
    qed
  qed
  then show ?thesis using run f(1,2) l by (intro exI [of _ ?p]) auto
next
  case None
  let ?key = "page_cursor req" and ?n = "nat (pg_limit req)"
  define u where "u = (case pg_until req of Some u \<Rightarrow> u | None \<Rightarrow> max_cursor collection ?key True)"
  define v where "v = filter (\<lambda>r. ?key r \<le> u) xs"
  define s where "s = (if ?n < length v then ?key (v ! (length v - ?n - 1)) else cursor_min)"
  let ?p = "\<lparr>resources = rev (drop (length v - ?n) v), page_since = s, page_until = u, page_limit = pg_limit req\<rparr>"
  have run: "apply_paging xs collection req True = Inr ?p"
    using backward_page_window [OF ascending_by_sorted [OF asc] l, of collection True]
    by (simp add: apply_paging_def None u_def v_def s_def)
  have "filter (in_window ?key s (Some u)) xs = drop (length v - ?n) v"
  proof (cases "?n < length v")
    case True
    let ?ps = "take (length v - ?n) v"
    have ps: "?ps \<noteq> []" using True by auto
    have "last ?ps = v ! (length v - ?n - 1)" using True ps by (simp add: last_conv_nth)
    moreover have "filter (\<lambda>r. ?key r \<le> u) xs = ?ps @ drop (length v - ?n) v" by (simp add: v_def)
    ultimately show ?thesis using in_window_suffix [OF asc _ ps] True by (simp add: s_def)
  next
    case False
    then have "s = cursor_min" by (simp add: s_def)
    then have "filter (in_window ?key s (Some u)) xs = v"
      using pos unfolding v_def by (intro filter_cong) (auto simp: in_window_def)
    then show ?thesis using False by simp
  qed
  moreover have "int (length (drop (length v - ?n) v)) \<le> pg_limit req" using l by simp
  ultimately show ?thesis using run by (intro exI [of _ ?p]) simp
qed

theorem page_cursors_describe_page_witness:
  "\<exists>p. apply_paging (map (\<lambda>i. page_record i (int i)) [1, 2, 3]) [] (page_request None (Some 9) 2) True = Inr p \<and>
     length (resources p) \<le> 2"
  using page_cursors_describe_page [of "page_request None (Some 9) 2" "map (\<lambda>i. page_record i (int i)) [1, 2, 3]" "[]"]
  by (force simp: ascending_by_def page_sample_defs)

text \<open>
  A client that follows the \<open>next\<close> links: each page's \<open>until\<close> is the next request's
  \<open>since\<close>.
\<close>

fun forward_walk :: "nat \<Rightarrow> RegisteredResource list \<Rightarrow> PagingRequest \<Rightarrow> TaiCursor \<Rightarrow> RegisteredResource list" where
  "forward_walk 0 xs req since = []"
| "forward_walk (Suc k) xs req since =
     (let p = forward_page xs req since in rev (resources p) @ forward_walk k xs req (page_until p))"

text \<open>
  C35: following \<open>next\<close> misses nothing. With distinct cursors and a positive limit, a client
  that starts at any cursor and follows the \<open>next\<close> links for enough pages receives every
  record above that cursor, each exactly once and in cursor order; further requests then
  return nothing and leave the cursor where it is.
\<close>

theorem forward_walk_complete:
  assumes asc: "ascending_by (page_cursor req) xs" and l: "0 < pg_limit req" and u: "pg_until req = None"
    and k: "length (filter (\<lambda>r. since < page_cursor req r) xs) \<le> k * nat (pg_limit req)"
  shows "forward_walk k xs req since = filter (\<lambda>r. since < page_cursor req r) xs"
  using k
proof (induction k arbitrary: since)
  case 0
  then show ?case by simp
next
  case (Suc k)
  let ?key = "page_cursor req" and ?n = "nat (pg_limit req)"
  define w where "w = filter (\<lambda>r. since < ?key r) xs"
  have ww: "filter (in_window ?key since (pg_until req)) xs = w"
    by (simp add: w_def in_window_def [abs_def] u)
  note f = forward_page_window [OF ascending_by_sorted [OF asc], of since, unfolded ww]
  show ?case
  proof (cases "w = []")
    case True
    then have "page_until (forward_page xs req since) = since" "resources (forward_page xs req since) = []"
      using f(1,3) l u by (simp_all add: Let_def)
    then show ?thesis using Suc.IH [of since] True by (simp add: w_def Let_def)
  next
    case False
    let ?ps = "take ?n w"
    have ps: "?ps \<noteq> []" using False l by simp
    have until: "page_until (forward_page xs req since) = ?key (last ?ps)"
      using f(3) l u ps by (simp add: Let_def)
    have "ascending_by ?key (?ps @ drop ?n w)" using ascending_by_filter [OF asc] by (simp add: w_def)
    then have "filter (\<lambda>r. ?key (last ?ps) < ?key r) (?ps @ drop ?n w) = drop ?n w"
      using ps by (rule ascending_split(2))
    then have "filter (\<lambda>r. ?key (last ?ps) < ?key r) w = drop ?n w" by simp
    moreover have lt: "since < ?key (last ?ps)"
    proof -
      have "last ?ps \<in> set w" using ps by (metis in_set_takeD last_in_set)
      then show ?thesis by (simp add: w_def)
    qed
    moreover have "filter (\<lambda>r. ?key (last ?ps) < ?key r) w = filter (\<lambda>r. ?key (last ?ps) < ?key r) xs"
      unfolding w_def filter_filter using lt [unfolded w_def] by (intro filter_cong) (auto intro: less_trans)
    ultimately have rest: "filter (\<lambda>r. ?key (last ?ps) < ?key r) xs = drop ?n w" by simp
    have "length (drop ?n w) \<le> k * ?n" using Suc.prems by (simp add: w_def)
    then have "forward_walk k xs req (?key (last ?ps)) = drop ?n w"
      using Suc.IH [of "?key (last ?ps)"] rest by simp
    then show ?thesis using f(1) l until by (simp add: Let_def w_def)
  qed
qed

theorem forward_walk_complete_witness:
  "map res_id (forward_walk 2 (map (\<lambda>i. page_record i (int i)) [1, 2, 3]) (page_request (Some 0) None 2)
     (TaiCursor 0 0)) = [[1], [2], [3]]"
  using forward_walk_complete [of "page_request (Some 0) None 2" "map (\<lambda>i. page_record i (int i)) [1, 2, 3]"
      "TaiCursor 0 0" 2]
  by (simp add: ascending_by_def page_sample_defs)

lemma max_cursor_upper:
  "(\<forall>r \<in> set xs. key r \<le> foldl (\<lambda>h r. if key r > h then key r else h) m xs) \<and>
   m \<le> foldl (\<lambda>h r. if key r > h then key r else h) m xs \<and>
   foldl (\<lambda>h r. if key r > h then key r else h) m xs \<in> insert m (key ` set xs)"
  for m :: TaiCursor
proof (induction xs arbitrary: m)
  case (Cons x xs)
  let ?m = "if key x > m then key x else m"
  have "m \<le> ?m" "key x \<le> ?m" by (auto simp: not_less)
  then show ?case using Cons.IH [of ?m] by (auto intro: order_trans)
qed simp

lemma max_cursor_sorted:
  assumes "\<forall>r \<in> set xs. cursor_min \<le> key r"
  shows "max_cursor (sort_key (\<lambda>r. (key r, res_id r)) xs) key True = max_cursor xs key False"
proof (cases "xs = []")
  case False
  let ?s = "sort_key (\<lambda>r. (key r, res_id r)) xs"
  let ?f = "foldl (\<lambda>h r. if key r > h then key r else h) cursor_min xs"
  have s: "?s \<noteq> []" "set ?s = set xs" using False by (auto simp: set_empty [symmetric] simp del: set_empty)
  have last: "key r \<le> key (last ?s)" if r: "r \<in> set xs" for r
  proof -
    have srt: "sorted (map (\<lambda>r. (key r, res_id r)) ?s)" by simp
    obtain i where i: "i < length ?s" "?s ! i = r" using r s(2) by (metis in_set_conv_nth)
    have "(key (?s ! i), res_id (?s ! i)) \<le> (key (?s ! (length ?s - 1)), res_id (?s ! (length ?s - 1)))"
      using srt i(1) by (auto simp: sorted_iff_nth_mono simp del: length_sort)
    then show ?thesis using i s(1) by (auto simp: last_conv_nth less_eq_prod_def)
  qed
  note up = max_cursor_upper [of xs key cursor_min]
  have mem: "last ?s \<in> set xs" using last_in_set [OF s(1)] s(2) by simp
  then have "key (last ?s) \<le> ?f" using up by blast
  moreover have "?f \<le> key (last ?s)"
  proof (cases "?f = cursor_min")
    case True
    then show ?thesis using assms mem by simp
  next
    case False
    then obtain r where "r \<in> set xs" "?f = key r" using up by blast
    then show ?thesis using last by simp
  qed
  ultimately show ?thesis using s(1) False by (simp add: max_cursor_def)
qed (simp add: max_cursor_def)

text \<open>
  \<open>presorted\<close> is only an optimisation. Handing \<open>apply_paging\<close> the two sequences already
  sorted by (cursor, id), as \<open>RegistryStore.iter_ordered\<close> yields them, gives the page that
  the sorting path computes from the same sequences in any order.
\<close>

theorem presorted_equivalent:
  assumes "\<forall>r \<in> set collection. cursor_min \<le> page_cursor req r"
  shows "apply_paging (sort_key (\<lambda>r. (page_cursor req r, res_id r)) matched)
           (sort_key (\<lambda>r. (page_cursor req r, res_id r)) collection) req True =
         apply_paging matched collection req False"
  using max_cursor_sorted [OF assms]
  by (simp add: apply_paging_def backward_page_def Let_def cong: option.case_cong)

theorem presorted_equivalent_witness:
  "apply_paging (sort_key (\<lambda>r. (page_cursor (page_request None None 2) r, res_id r)) [page_record 2 2, page_record 1 1])
     (sort_key (\<lambda>r. (page_cursor (page_request None None 2) r, res_id r)) [page_record 2 2, page_record 1 1])
     (page_request None None 2) True =
   apply_paging [page_record 2 2, page_record 1 1] [page_record 2 2, page_record 1 1] (page_request None None 2) False"
  by (rule presorted_equivalent) (simp add: page_sample_defs)

text \<open>
  C36: a parsed request is within bounds. When the paging parameters are accepted, the limit
  is not negative and at most the server's maximum (or the server's own default), and the
  window is not inverted.
\<close>

theorem parse_paging_bounds:
  assumes "parse_paging params default_limit max_limit = Inr req"
    and "0 \<le> default_limit" and "default_limit \<le> max_limit"
  shows "0 \<le> pg_limit req \<and> pg_limit req \<le> max_limit \<and>
    (\<forall>s u. pg_since req = Some s \<and> pg_until req = Some u \<longrightarrow> s \<le> u)"
proof -
  obtain s u l ord where r: "limit_param params default_limit max_limit = Inr l"
      "(case (s, u) of (Some s', Some u') \<Rightarrow>
           if s' > u' then Inl PagingError else Inr \<lparr>pg_since = s, pg_until = u, pg_limit = l, pg_order = ord\<rparr>
         | _ \<Rightarrow> Inr \<lparr>pg_since = s, pg_until = u, pg_limit = l, pg_order = ord\<rparr>) = (Inr req :: PagingRequest res)"
    using assms(1) unfolding parse_paging_def bind_res_eq_Inr by blast
  have "0 \<le> l \<and> l \<le> max_limit"
    using r(1) assms(2,3) by (auto simp: limit_param_def bind_res_eq_Inr split: option.splits if_splits)
  then show ?thesis using r(2) by (auto simp: not_less split: option.splits if_splits)
qed

theorem parse_paging_bounds_witness:
  "\<exists>req. parse_paging [(PARAM_LIMIT, str ''7'')] 10 5 = Inr req \<and> pg_limit req \<le> 5 \<or>
     parse_paging [] 4 5 = Inr req \<and> pg_limit req \<le> 5"
proof -
  have run: "parse_paging [] 4 5 = Inr \<lparr>pg_since = None, pg_until = None, pg_limit = 4, pg_order = ORDER_UPDATE\<rparr>"
    by (simp add: parse_paging_def cursor_param_def limit_param_def order_param_def)
  show ?thesis using run parse_paging_bounds [OF run] by auto
qed

text \<open>
  A malformed limit can escape the error handling. \<open>--5\<close> and a superscript two pass the
  digit test after stripping minus signs and then raise \<open>ValueError\<close> out of \<open>int()\<close>, not
  the \<open>PagingError\<close> the caller turns into a 400.
\<close>

theorem parse_paging_uncaught:
  "parse_paging [(PARAM_LIMIT, str ''--5'')] d m = Inl ValueError \<and>
   parse_paging [(PARAM_LIMIT, [178])] d m = Inl ValueError"
  by (simp add: parse_paging_def cursor_param_def limit_param_def PARAM_LIMIT_def PARAM_SINCE_def PARAM_UNTIL_def
      py_lstrip_def str_def py_isdigit_def char_isdigit_ascii char_isdigit_def decimal_value_def decimal_zeros_def
      digit_ranges_def py_int_def py_nat_def max_str_digits_def)

end
