(* ===== verification/Store_Invariant.thy ===== *)
theory Store_Invariant
  imports Registry_Store
begin

section \<open>The store's invariant\<close>

text \<open>
  What every reachable store satisfies: the buckets and the id-to-type index agree, every
  live resource hangs below a live parent of the right type, the child sets list exactly
  the records that name the parent, the order indexes list exactly the bucket and are
  sorted unless flagged, and the per-type cursor high-water mark dominates every update
  cursor. Each operation of the store is shown to keep it, and the recursive walks are
  shown to end within three levels and to agree with one another.
\<close>

subsection \<open>The abstract view: one map from ids to records\<close>

definition look :: "RegistryStore \<Rightarrow> pystr \<rightharpoonup> RegisteredResource" where
  "look st i = (case type_of st i of None \<Rightarrow> None | Some rt \<Rightarrow> dget (by_type st rt) i)"

definition wf_buckets :: "RegistryStore \<Rightarrow> bool" where
  "wf_buckets st \<longleftrightarrow>
     (\<forall>rt. wf_dict (by_type st rt)) \<and>
     (\<forall>rt i r. dget (by_type st rt) i = Some r \<longrightarrow>
        resource_type r = rt \<and> res_id r = i \<and> type_of st i = Some rt) \<and>
     (\<forall>i rt. type_of st i = Some rt \<longrightarrow> dget (by_type st rt) i \<noteq> None)"

definition parent_ok :: "(pystr \<rightharpoonup> RegisteredResource) \<Rightarrow> RegisteredResource \<Rightarrow> bool" where
  "parent_ok m r \<longleftrightarrow>
     (case PARENT_TYPE (resource_type r) of
        None \<Rightarrow> parent_id r = None
      | Some pt \<Rightarrow> (\<exists>p q. parent_id r = Some p \<and> m p = Some q \<and> extant q \<and> resource_type q = pt))"

definition wf_tree :: "(pystr \<rightharpoonup> RegisteredResource) \<Rightarrow> (pystr \<Rightarrow> pystr set) \<Rightarrow> bool" where
  "wf_tree m ch \<longleftrightarrow>
     (\<forall>i r. m i = Some r \<and> extant r \<longrightarrow> parent_ok m r) \<and>
     (\<forall>i r p. m i = Some r \<and> extant r \<and> parent_id r = Some p \<longrightarrow> i \<in> ch p) \<and>
     (\<forall>p c. c \<in> ch p \<longrightarrow> (\<exists>r. m c = Some r \<and> parent_id r = Some p))"

definition wf_order :: "RegistryStore \<Rightarrow> bool" where
  "wf_order st \<longleftrightarrow>
     (\<forall>rt ord. distinct (order_index st rt ord) \<and>
        set (order_index st rt ord) = set (dkeys (by_type st rt)) \<and>
        (\<not> order_dirty st rt ord \<longrightarrow>
           sorted (map (index_key (by_type st rt) ord) (order_index st rt ord))))"

definition wf_cursor :: "RegistryStore \<Rightarrow> bool" where
  "wf_cursor st \<longleftrightarrow>
     (\<forall>rt i r. dget (by_type st rt) i = Some r \<longrightarrow>
        (\<exists>c. last_cursor st rt = Some c \<and> updated r \<le> c))"

definition wf_graph :: "RegistryStore \<Rightarrow> bool" where
  "wf_graph st \<longleftrightarrow> wf_buckets st \<and> wf_tree (look st) (children st)"

definition wf_store :: "RegistryStore \<Rightarrow> bool" where
  "wf_store st \<longleftrightarrow> wf_graph st \<and> wf_order st \<and> wf_cursor st"

lemma wf_new_store: "wf_store (new_store gc fi)"
  by (simp add: wf_store_def wf_graph_def wf_buckets_def wf_tree_def wf_order_def wf_cursor_def
      new_store_def look_def)

lemma wf_bucketsD:
  assumes "wf_buckets st" and "dget (by_type st rt) i = Some r"
  shows "resource_type r = rt" "res_id r = i" "type_of st i = Some rt" "look st i = Some r"
  using assms by (auto simp: wf_buckets_def look_def)

lemma look_bucket:
  assumes "wf_buckets st"
  shows "look st i = Some r \<longleftrightarrow> dget (by_type st (resource_type r)) i = Some r"
proof
  assume "look st i = Some r"
  then obtain rt where "type_of st i = Some rt" and b: "dget (by_type st rt) i = Some r"
    unfolding look_def by (cases "type_of st i") auto
  with wf_bucketsD(1) [OF assms b] show "dget (by_type st (resource_type r)) i = Some r" by simp
qed (rule wf_bucketsD(4) [OF assms])

lemma look_id: "wf_buckets st \<Longrightarrow> look st i = Some r \<Longrightarrow> res_id r = i"
  using look_bucket wf_bucketsD(2) by blast

lemma bucket_eq:
  assumes "wf_buckets st"
  shows "dget (by_type st rt) i =
           (case look st i of Some r \<Rightarrow> if resource_type r = rt then Some r else None | None \<Rightarrow> None)"
proof (cases "dget (by_type st rt) i")
  case None
  then show ?thesis using look_bucket [OF assms] by (auto split: option.splits)
next
  case (Some r)
  then show ?thesis using wf_bucketsD [OF assms Some] by simp
qed

lemma find_any_look:
  assumes "wf_buckets st"
  shows "find_any st i = (case look st i of Some r \<Rightarrow> if extant r then Some r else None | None \<Rightarrow> None)"
  by (simp add: find_any_def look_def get_resource_def split: option.splits)

lemma get_resource_look:
  assumes "wf_buckets st"
  shows "get_resource st rt i False = Some r \<longleftrightarrow> look st i = Some r \<and> resource_type r = rt \<and> extant r"
  using bucket_eq [OF assms, of rt i]
  by (auto simp: get_resource_def split: option.splits if_splits)

lemma finite_look: 
  assumes "wf_buckets st" shows "finite (dom (look st))"
proof -
  have "dom (look st) \<subseteq> (\<Union>rt \<in> set resource_types. set (dkeys (by_type st rt)))"
  proof
    fix i assume "i \<in> dom (look st)"
    then obtain r where "look st i = Some r" by blast
    then have "dget (by_type st (resource_type r)) i = Some r" using look_bucket [OF assms] by blast
    then have "i \<in> set (dkeys (by_type st (resource_type r)))" by (rule dget_Some_key)
    then show "i \<in> (\<Union>rt \<in> set resource_types. set (dkeys (by_type st rt)))"
      using resource_types_complete by (rule UN_I [rotated])
  qed
  then show ?thesis by (rule finite_subset) simp
qed

lemma wf_tree_parent: "wf_tree m ch \<Longrightarrow> m i = Some r \<Longrightarrow> extant r \<Longrightarrow> parent_ok m r"
  unfolding wf_tree_def by blast

lemma wf_tree_listed:
  "wf_tree m ch \<Longrightarrow> m i = Some r \<Longrightarrow> extant r \<Longrightarrow> parent_id r = Some p \<Longrightarrow> i \<in> ch p"
  unfolding wf_tree_def by blast

lemma wf_tree_child: "wf_tree m ch \<Longrightarrow> c \<in> ch p \<Longrightarrow> \<exists>r. m c = Some r \<and> parent_id r = Some p"
  unfolding wf_tree_def by blast

lemma finite_children:
  assumes "wf_graph st" shows "finite (children st p)"
proof -
  have "children st p \<subseteq> dom (look st)"
    using assms wf_tree_child unfolding wf_graph_def by blast
  then show ?thesis using finite_look assms finite_subset wf_graph_def by blast
qed

lemma set_sorted_children [simp]:
  "wf_graph st \<Longrightarrow> set (sorted_children st p) = children st p"
  by (simp add: sorted_children_def finite_children)

lemma distinct_sorted_children [simp]: "distinct (sorted_children st p)"
  by (simp add: sorted_children_def)

subsection \<open>Descendants\<close>

text \<open>\<open>desc m c i\<close>: the live record \<open>c\<close> is \<open>i\<close> itself or below it.\<close>

inductive desc :: "(pystr \<rightharpoonup> RegisteredResource) \<Rightarrow> pystr \<Rightarrow> pystr \<Rightarrow> bool" for m where
  self: "m i = Some r \<Longrightarrow> extant r \<Longrightarrow> desc m i i"
| step: "m c = Some r \<Longrightarrow> extant r \<Longrightarrow> parent_id r = Some p \<Longrightarrow> desc m p i \<Longrightarrow> desc m c i"

inductive_cases desc_E: "desc m c i"

lemma desc_left: "desc m c i \<Longrightarrow> \<exists>r. m c = Some r \<and> extant r"
  by (induction rule: desc.induct) auto

lemma desc_right: "desc m c i \<Longrightarrow> \<exists>r. m i = Some r \<and> extant r"
  by (induction rule: desc.induct) auto

lemma desc_trans: "desc m a b \<Longrightarrow> desc m b c \<Longrightarrow> desc m a c"
  by (induction rule: desc.induct) (auto intro: desc.step)

definition rank_of :: "(pystr \<rightharpoonup> RegisteredResource) \<Rightarrow> pystr \<Rightarrow> nat" where
  "rank_of m i = rank (resource_type (the (m i)))"

lemma parent_rank:
  assumes "wf_tree m ch" and "m c = Some r" "extant r" "parent_id r = Some p"
  shows "\<exists>q. m p = Some q \<and> extant q \<and> rank (resource_type r) = Suc (rank (resource_type q))"
proof -
  have "parent_ok m r" using assms unfolding wf_tree_def by blast
  then obtain q where "m p = Some q" "extant q" "PARENT_TYPE (resource_type r) = Some (resource_type q)"
    using assms(4) unfolding parent_ok_def by (auto split: option.splits)
  then show ?thesis using PARENT_TYPE_rank by blast
qed

lemma desc_rank:
  assumes "wf_tree m ch" and "desc m c i"
  shows "c = i \<or> rank_of m i < rank_of m c"
  using assms(2)
proof (induction rule: desc.induct)
  case (step c r p i)
  then obtain q where "m p = Some q" "rank (resource_type r) = Suc (rank (resource_type q))"
    using parent_rank [OF assms(1)] by blast
  with step show ?case by (auto simp: rank_of_def)
qed simp

text \<open>Two ancestors of one record at the same level are the same.\<close>

lemma desc_unique:
  assumes wf: "wf_tree m ch" and "desc m x a" and "desc m x b" and "rank_of m a = rank_of m b"
  shows "a = b"
  using assms(2-4)
proof (induction arbitrary: b rule: desc.induct)
  case (self i r)
  then show ?case using desc_rank [OF wf self(3)] by simp
next
  case (step c r p i)
  have "desc m c i" by (rule desc.step [OF step(1-4)])
  then have "c = i \<or> rank_of m i < rank_of m c" by (rule desc_rank [OF wf])
  moreover have "rank_of m p < rank_of m c"
    using parent_rank [OF wf step(1-3)] step(1) by (auto simp: rank_of_def)
  moreover have "p = i \<or> rank_of m i < rank_of m p" by (rule desc_rank [OF wf step(4)])
  ultimately have "c \<noteq> b" using step(7) by auto
  from step(6) have "desc m p b"
  proof cases
    case self
    with \<open>c \<noteq> b\<close> show ?thesis by simp
  next
    case (step r' p')
    with \<open>m c = Some r\<close> \<open>parent_id r = Some p\<close> show ?thesis by simp
  qed
  then show ?case using step.IH step.prems(2) by blast
qed

lemma desc_child_cases:
  assumes wf: "wf_tree m ch"
  shows "desc m x i \<longleftrightarrow> (\<exists>r. m i = Some r \<and> extant r \<and>
           (x = i \<or> (\<exists>c \<in> ch i. desc m x c)))" (is "?L \<longleftrightarrow> ?R")
proof
  assume ?L then show ?R
  proof (induction rule: desc.induct)
    case (step c r p i)
    then obtain q where q: "m i = Some q" "extant q" and "p = i \<or> (\<exists>c \<in> ch i. desc m p c)" by blast
    moreover have "c \<in> ch p" "desc m c c"
      using wf step(1-3) unfolding wf_tree_def by (blast intro: desc.self)+
    ultimately show ?case using step(1-3) by (blast intro: desc.step)
  qed blast
next
  assume ?R
  then obtain r where r: "m i = Some r" "extant r" and "x = i \<or> (\<exists>c \<in> ch i. desc m x c)" by blast
  then consider "x = i" | c where "c \<in> ch i" "desc m x c" by blast
  then show ?L
  proof cases
    case 2
    then obtain q where "m c = Some q" "parent_id q = Some i" using wf unfolding wf_tree_def by blast
    moreover have "extant q" using desc_right [OF 2(2)] calculation(1) by auto
    ultimately have "desc m c i" using r by (intro desc.step [of m c q i i] desc.self)
    then show ?thesis using 2(2) desc_trans by blast
  qed (use r desc.self in blast)
qed

subsection \<open>The walk over a subtree\<close>

lemma wf_graphD: "wf_graph st \<Longrightarrow> wf_buckets st" "wf_graph st \<Longrightarrow> wf_tree (look st) (children st)"
  by (simp_all add: wf_graph_def)

lemma find_any_Some:
  assumes "wf_graph st"
  shows "find_any st i = Some r \<longleftrightarrow> look st i = Some r \<and> extant r"
  using find_any_look [OF wf_graphD(1) [OF assms], of i] by (auto split: option.splits)

lemma find_any_id: "wf_graph st \<Longrightarrow> find_any st i = Some r \<Longrightarrow> res_id r = i"
  using find_any_Some look_id wf_graphD(1) by blast

lemma find_any_desc:
  assumes "wf_graph st" shows "find_any st i \<noteq> None \<longleftrightarrow> desc (look st) i i"
  using find_any_Some [OF assms] desc_left [of "look st" i i] desc.self [of "look st" i] by (metis not_Some_eq)

lemma child_rank:
  assumes wf: "wf_graph st" and "c \<in> children st (res_id r)" and "look st (res_id r) = Some r"
    and "find_any st c = Some q"
  shows "rank (resource_type q) = Suc (rank (resource_type r))" "rank_of (look st) c = Suc (rank (resource_type r))"
proof -
  have q: "look st c = Some q" "extant q" using assms(4) find_any_Some [OF wf] by blast+
  moreover have "parent_id q = Some (res_id r)"
    using wf_tree_child [OF wf_graphD(2) [OF wf] assms(2)] q(1) by auto
  ultimately show "rank (resource_type q) = Suc (rank (resource_type r))"
    using parent_rank [OF wf_graphD(2) [OF wf]] assms(3) by (metis option.inject)
  then show "rank_of (look st) c = Suc (rank (resource_type r))"
    using q(1) by (simp add: rank_of_def)
qed

text \<open>
  The walk ends within three levels. It lists every live descendant once, each after its
  own descendants.
\<close>

definition walked :: "RegistryStore \<Rightarrow> RegisteredResource list \<Rightarrow> pystr set \<Rightarrow> bool" where
  "walked st rs tops \<longleftrightarrow>
     distinct (map res_id rs) \<and>
     (\<forall>x. x \<in> set rs \<longleftrightarrow> look st (res_id x) = Some x \<and> (\<exists>c \<in> tops. desc (look st) (res_id x) c)) \<and>
     (\<forall>j < length rs. \<forall>k < length rs. desc (look st) (res_id (rs ! j)) (res_id (rs ! k)) \<longrightarrow> j \<le> k)"

lemma walked_ids:
  assumes "wf_buckets st" and "walked st rs tops"
  shows "res_id ` set rs = {i. \<exists>c \<in> tops. desc (look st) i c}"
proof
  show "{i. \<exists>c \<in> tops. desc (look st) i c} \<subseteq> res_id ` set rs"
  proof clarify
    fix i c assume c: "c \<in> tops" "desc (look st) i c"
    then obtain r where r: "look st i = Some r" using desc_left by blast
    then have "res_id r = i" using look_id [OF assms(1)] by blast
    then have "r \<in> set rs" using assms(2) c r unfolding walked_def by blast
    then show "i \<in> res_id ` set rs" using \<open>res_id r = i\<close> by blast
  qed
qed (use assms(2) in \<open>auto simp: walked_def\<close>)

lemma walked_append:
  assumes wf: "wf_graph st" and "walked st xs A" and "walked st ys B"
    and apart: "\<And>i a b. a \<in> A \<Longrightarrow> b \<in> B \<Longrightarrow> desc (look st) i a \<Longrightarrow> desc (look st) i b \<Longrightarrow> False"
  shows "walked st (xs @ ys) (A \<union> B)"
proof -
  note ids = walked_ids [OF wf_graphD(1) [OF wf] assms(2)] walked_ids [OF wf_graphD(1) [OF wf] assms(3)]
  have disj: "res_id ` set xs \<inter> res_id ` set ys = {}"
    unfolding ids using apart by blast
  have cross: "\<not> desc (look st) (res_id y) (res_id x)" if xy: "x \<in> set xs" "y \<in> set ys" for x y
  proof
    assume d: "desc (look st) (res_id y) (res_id x)"
    obtain a b where "a \<in> A" "desc (look st) (res_id x) a" "b \<in> B" "desc (look st) (res_id y) b"
      using xy assms(2,3) unfolding walked_def by blast
    with apart d show False using desc_trans by blast
  qed
  have "j \<le> k" if jk: "j < length (xs @ ys)" "k < length (xs @ ys)"
    and d: "desc (look st) (res_id ((xs @ ys) ! j)) (res_id ((xs @ ys) ! k))" for j k
  proof -
    consider "j < length xs" "k < length xs" | "j < length xs" "length xs \<le> k"
      | "length xs \<le> j" "k < length xs" | "length xs \<le> j" "length xs \<le> k" by linarith
    then show ?thesis
    proof cases
      case 1
      then show ?thesis using d assms(2) by (simp add: walked_def nth_append)
    next
      case 3
      then show ?thesis using d cross [of "xs ! k" "ys ! (j - length xs)"] jk(1) by (simp add: nth_append)
    next
      case 4
      then have "j - length xs \<le> k - length xs"
        using d jk assms(3) by (simp add: walked_def nth_append)
      with 4 show ?thesis by linarith
    qed linarith
  qed
  moreover have "distinct (map res_id (xs @ ys))"
    using assms(2,3) disj by (simp add: walked_def)
  moreover have "x \<in> set (xs @ ys) \<longleftrightarrow>
      look st (res_id x) = Some x \<and> (\<exists>c \<in> A \<union> B. desc (look st) (res_id x) c)" for x
    using assms(2,3) unfolding walked_def set_append by blast
  ultimately show ?thesis unfolding walked_def by blast
qed

lemma walked_Nil: "walked st [] {}"
  by (simp add: walked_def)

lemma walked_none: "find_any st c = None \<Longrightarrow> wf_graph st \<Longrightarrow> walked st rs A \<Longrightarrow> walked st rs (insert c A)"
  using find_any_desc [of st c] desc_right [of "look st" _ c] desc.self [of "look st" c]
  unfolding walked_def by (metis insert_iff)

lemma walked_self:
  assumes wf: "wf_graph st" and r: "look st (res_id r) = Some r" "extant r"
    and ys: "walked st ys (children st (res_id r))"
  shows "walked st (ys @ [r]) {res_id r}"
proof -
  let ?m = "look st" and ?i = "res_id r"
  note tree = wf_graphD(2) [OF wf]
  have below: "x \<in> set ys \<longleftrightarrow> ?m (res_id x) = Some x \<and> (\<exists>c \<in> children st ?i. desc ?m (res_id x) c)" for x
    using ys unfolding walked_def by blast
  have not_self: "\<not> desc ?m ?i c" if "c \<in> children st ?i" for c
  proof
    assume d: "desc ?m ?i c"
    then obtain q where "find_any st c = Some q"
      using find_any_desc [OF wf] desc_right [OF d] find_any_Some [OF wf] by metis
    then have "rank_of ?m c = Suc (rank_of ?m ?i)"
      using child_rank(2) [OF wf that r(1)] r(1) by (simp add: rank_of_def)
    then show False using desc_rank [OF tree d] by auto
  qed
  then have fresh: "?i \<notin> res_id ` set ys"
    unfolding walked_ids [OF wf_graphD(1) [OF wf] ys] by blast
  have cross: "\<not> desc ?m ?i (res_id y)" if "y \<in> set ys" for y
    using below [of y] that not_self desc_trans by blast
  have all: "x \<in> set (ys @ [r]) \<longleftrightarrow> ?m (res_id x) = Some x \<and> desc ?m (res_id x) ?i" for x
    using below [of x] desc_child_cases [OF tree, of "res_id x" ?i] r by auto
  have "j \<le> k" if "j < length (ys @ [r])" "k < length (ys @ [r])"
    "desc ?m (res_id ((ys @ [r]) ! j)) (res_id ((ys @ [r]) ! k))" for j k
  proof (cases "k = length ys")
    case False
    then have k: "k < length ys" using that(2) by simp
    have "j \<noteq> length ys" using that(3) cross [of "ys ! k"] k by (auto simp: nth_append)
    then show ?thesis using that ys k by (simp add: walked_def nth_append)
  qed (use that in simp)
  then show ?thesis using all fresh ys by (simp add: walked_def)
qed

lemma walk_walked:
  "wf_graph st \<Longrightarrow> look st (res_id r) = Some r \<Longrightarrow> extant r \<Longrightarrow> 3 \<le> n + rank (resource_type r) \<Longrightarrow>
     \<exists>rs. walk n st r = Inr rs \<and> walked st rs {res_id r}"
  "wf_graph st \<Longrightarrow> distinct cs \<Longrightarrow> set cs \<subseteq> children st p \<Longrightarrow> look st p = Some q \<Longrightarrow> res_id q = p \<Longrightarrow>
     2 \<le> n + rank (resource_type q) \<Longrightarrow> \<exists>rs. walk_children n st cs = Inr rs \<and> walked st rs (set cs)"
proof (induction n st r and n st cs arbitrary: and p q rule: walk_walk_children.induct)
  case (1 st r)
  then show ?case using rank_le [of "resource_type r"] by simp
next
  case (2 depth st r)
  have "\<exists>rs. walk_children depth st (sorted_children st (res_id r)) = Inr rs \<and>
             walked st rs (set (sorted_children st (res_id r)))"
    by (rule "2.IH" [OF "2.prems"(1) _ _ "2.prems"(2) refl]) (use 2 in simp_all)
  then show ?case using walked_self [OF "2.prems"(1-3)] "2.prems"(1) by auto
next
  case (3 depth st)
  then show ?case by (simp add: walked_Nil)
next
  case (4 depth st c cs)
  note wf = "4.prems"(1)
  show ?case
  proof (cases "find_any st c")
    case None
    then obtain rs where "walk_children depth st cs = Inr rs" "walked st rs (set cs)"
      using "4.IH"(1) [OF None wf _ _ "4.prems"(4,5,6)] "4.prems"(2,3) by auto
    then show ?thesis using None walked_none [OF None wf] by auto
  next
    case (Some child)
    then have ch: "look st c = Some child" "extant child" and idc: "res_id child = c"
      using find_any_Some [OF wf] find_any_id [OF wf] by blast+
    have rk: "rank (resource_type child) = Suc (rank (resource_type q))"
      using child_rank(1) [OF wf _ _ Some, of q] "4.prems"(3-5) by auto
    obtain xs where xs: "walk depth st child = Inr xs" "walked st xs {c}"
      using "4.IH"(2) [OF Some ch(2) wf] ch idc rk "4.prems"(6) by auto
    obtain ys where ys: "walk_children depth st cs = Inr ys" "walked st ys (set cs)"
      using "4.IH"(3) [OF Some ch(2) wf _ _ "4.prems"(4,5,6)] "4.prems"(2,3) by auto
    have "walked st (xs @ ys) ({c} \<union> set cs)"
    proof (rule walked_append [OF wf xs(2) ys(2)])
      fix i a b assume ab: "a \<in> {c}" "b \<in> set cs" "desc (look st) i a" "desc (look st) i b"
      obtain qb where "find_any st b = Some qb"
        using desc_right [OF ab(4)] find_any_Some [OF wf] by blast
      then have "rank_of (look st) b = rank_of (look st) c"
        using child_rank(2) [OF wf _ _ Some, of q] child_rank(2) [OF wf, of b q qb] "4.prems"(3-5) ab(2) by auto
      then have "b = c" using desc_unique [OF wf_graphD(2) [OF wf] ab(4)] ab(1,3) by blast
      then show False using ab(2) "4.prems"(2) by simp
    qed
    then show ?thesis using Some ch(2) xs(1) ys(1) by simp
  qed
qed

subsection \<open>Updating the records of a subtree\<close>

text \<open>A change of a record that leaves its identity, its cursors and its parent alone.\<close>

definition keeps :: "(RegisteredResource \<Rightarrow> RegisteredResource) \<Rightarrow> bool" where
  "keeps f \<longleftrightarrow> (\<forall>r. resource_type (f r) = resource_type r \<and> res_id (f r) = res_id r \<and>
     created (f r) = created r \<and> updated (f r) = updated r \<and> parent_id (f r) = parent_id r)"

lemma keeps_retire [simp]: "keeps (retire h)"
  by (simp add: keeps_def retire_def)

lemma keeps_health [simp]: "keeps (\<lambda>r. r\<lparr>health := h\<rparr>)"
  by (simp add: keeps_def)

lemma modify_frame [simp]:
  "type_of (modify st rt i f) = type_of st" "children (modify st rt i f) = children st"
  "last_cursor (modify st rt i f) = last_cursor st" "order_index (modify st rt i f) = order_index st"
  "order_dirty (modify st rt i f) = order_dirty st" "gc_interval (modify st rt i f) = gc_interval st"
  "forget_interval (modify st rt i f) = forget_interval st"
  by (simp_all add: modify_def put_resource_def split: option.splits)

lemma modify_bucket:
  "dget (by_type (modify st rt i f) rt') j =
     (if rt' = rt \<and> j = i then map_option f (dget (by_type st rt) i) else dget (by_type st rt') j)"
  by (cases "dget (by_type st rt) i") (auto simp: modify_def put_resource_def)

lemma modify_keys [simp]: "dkeys (by_type (modify st rt i f) rt') = dkeys (by_type st rt')"
  using dkeys_dset_old [of i "by_type st rt"] dget_Some_key [of "by_type st rt" i]
  by (cases "dget (by_type st rt) i") (auto simp: modify_def put_resource_def)

lemma modify_wf_buckets:
  assumes "wf_buckets st" and "keeps f"
  shows "wf_buckets (modify st rt i f)"
proof -
  have "wf_dict (by_type (modify st rt i f) rt')" for rt'
    using assms(1) unfolding wf_dict_def modify_keys by (simp add: wf_buckets_def wf_dict_def)
  moreover have "resource_type x = rt' \<and> res_id x = j \<and> type_of st j = Some rt'"
    if "dget (by_type (modify st rt i f) rt') j = Some x" for rt' j x
    using that wf_bucketsD(1-3) [OF assms(1)] assms(2)
    by (auto simp: modify_bucket keeps_def split: if_splits)
  moreover have "dget (by_type (modify st rt i f) rt') j \<noteq> None" if "type_of st j = Some rt'" for rt' j
    using that assms(1) unfolding modify_bucket wf_buckets_def by auto
  ultimately show ?thesis unfolding wf_buckets_def modify_frame by blast
qed

lemma look_modify:
  assumes "type_of st i = Some rt"
  shows "look (modify st rt i f) = (look st)(i := map_option f (look st i))"
  using assms by (auto simp: look_def modify_bucket split: option.splits)

lemma modify_key:
  "keeps f \<Longrightarrow> j \<in> set (dkeys (by_type st rt')) \<Longrightarrow>
     index_key (by_type (modify st rt i f) rt') ord j = index_key (by_type st rt') ord j"
  using dget_None_keys [of "by_type st rt'" j]
  by (auto simp: index_key_def modify_bucket cursor_of_def keeps_def)

lemma modify_wf_order:
  assumes "wf_order st" and "keeps f"
  shows "wf_order (modify st rt i f)"
proof -
  have "map (index_key (by_type (modify st rt i f) rt') ord) (order_index st rt' ord) =
        map (index_key (by_type st rt') ord) (order_index st rt' ord)" for rt' ord
    using assms by (intro map_cong) (auto simp: wf_order_def modify_key)
  then show ?thesis using assms(1) unfolding wf_order_def modify_frame modify_keys by metis
qed

lemma modify_wf_cursor:
  assumes "wf_cursor st" and "keeps f"
  shows "wf_cursor (modify st rt i f)"
  using assms by (auto simp: wf_cursor_def modify_bucket keeps_def)

definition update_all ::
  "(pystr \<Rightarrow> RegisteredResource \<Rightarrow> RegisteredResource) \<Rightarrow> RegistryStore \<Rightarrow> RegisteredResource list \<Rightarrow> RegistryStore" where
  "update_all F st rs = foldl (\<lambda>s r. modify s (resource_type r) (res_id r) (F (res_id r))) st rs"

lemma update_all_simps [simp]:
  "update_all F st [] = st"
  "update_all F st (r # rs) = update_all F (modify st (resource_type r) (res_id r) (F (res_id r))) rs"
  by (simp_all add: update_all_def)

lemma update_all_append [simp]: "update_all F st (xs @ ys) = update_all F (update_all F st xs) ys"
  by (simp add: update_all_def)

lemma update_all_frame [simp]:
  "type_of (update_all F st rs) = type_of st" "children (update_all F st rs) = children st"
  "last_cursor (update_all F st rs) = last_cursor st" "order_index (update_all F st rs) = order_index st"
  "order_dirty (update_all F st rs) = order_dirty st" "gc_interval (update_all F st rs) = gc_interval st"
  "forget_interval (update_all F st rs) = forget_interval st"
  "dkeys (by_type (update_all F st rs) rt) = dkeys (by_type st rt)"
  by (induction rs arbitrary: st) simp_all

lemma update_all_wf:
  assumes "\<And>i. keeps (F i)"
  shows "wf_buckets st \<Longrightarrow> wf_buckets (update_all F st rs)"
    "wf_order st \<Longrightarrow> wf_order (update_all F st rs)"
    "wf_cursor st \<Longrightarrow> wf_cursor (update_all F st rs)"
  by (induction rs arbitrary: st) (simp_all add: assms modify_wf_buckets modify_wf_order modify_wf_cursor)

lemma look_update_all:
  assumes "distinct (map res_id rs)" and "\<And>r. r \<in> set rs \<Longrightarrow> type_of st (res_id r) = Some (resource_type r)"
  shows "look (update_all F st rs) i =
           (if i \<in> res_id ` set rs then map_option (F i) (look st i) else look st i)"
  using assms
proof (induction rs arbitrary: st)
  case (Cons r rs)
  have "look (modify st (resource_type r) (res_id r) (F (res_id r))) =
          (look st)(res_id r := map_option (F (res_id r)) (look st (res_id r)))"
    using Cons.prems(2) [of r] by (intro look_modify) simp
  then show ?case using Cons by (auto simp: image_iff)
qed simp

text \<open>The walk does not see a change outside what it lists.\<close>

lemma walk_cong:
  "walk n st r = Inr rs \<Longrightarrow> children st' = children st \<Longrightarrow>
     (\<And>c. find_any st c = None \<Longrightarrow> find_any st' c = None) \<Longrightarrow>
     (\<And>c x. find_any st c = Some x \<Longrightarrow> x \<in> set rs \<Longrightarrow> find_any st' c = Some x) \<Longrightarrow> walk n st' r = Inr rs"
  "walk_children n st cs = Inr rs \<Longrightarrow> children st' = children st \<Longrightarrow>
     (\<And>c. find_any st c = None \<Longrightarrow> find_any st' c = None) \<Longrightarrow>
     (\<And>c x. find_any st c = Some x \<Longrightarrow> x \<in> set rs \<Longrightarrow> find_any st' c = Some x) \<Longrightarrow>
     walk_children n st' cs = Inr rs"
proof (induction n st r and n st cs arbitrary: rs and rs rule: walk_walk_children.induct)
  case (2 depth st r)
  then obtain ys where ys: "walk_children depth st (sorted_children st (res_id r)) = Inr ys" "rs = ys @ [r]"
    by (auto simp: bind_res_eq_Inr)
  have "walk_children depth st' (sorted_children st (res_id r)) = Inr ys"
    by (rule "2.IH" [OF ys(1) "2.prems"(2,3)]) (use 2 ys in auto)
  then show ?case using ys "2.prems"(2) by (simp add: sorted_children_def)
next
  case (4 depth st c cs)
  show ?case
  proof (cases "find_any st c")
    case None
    then show ?thesis using 4 by simp
  next
    case (Some child)
    show ?thesis
    proof (cases "extant child")
      case True
      then obtain xs ys where xy: "walk depth st child = Inr xs" "walk_children depth st cs = Inr ys" "rs = xs @ ys"
        using "4.prems"(1) Some by (auto simp: bind_res_eq_Inr)
      then have "child \<in> set rs" by (cases depth) (auto simp: bind_res_eq_Inr)
      moreover have "walk depth st' child = Inr xs"
        by (rule "4.IH"(2) [OF Some True xy(1) "4.prems"(2,3)]) (use "4.prems"(4) xy in auto)
      moreover have "walk_children depth st' cs = Inr ys"
        by (rule "4.IH"(3) [OF Some True xy(2) "4.prems"(2,3)]) (use "4.prems"(4) xy in auto)
      ultimately show ?thesis using "4.prems"(4) [OF Some] True xy(3) by simp
    next
      case False
      then show ?thesis using Some by (simp add: find_any_def get_resource_def split: option.splits if_splits)
    qed
  qed
qed (auto split: option.splits)

lemma look_update_walked:
  assumes wf: "wf_graph st" and w: "walked st rs tops"
  shows "look (update_all F st rs) i =
           (if \<exists>c \<in> tops. desc (look st) i c then map_option (F i) (look st i) else look st i)"
proof -
  have "type_of st (res_id r) = Some (resource_type r)" if "r \<in> set rs" for r
    using that w look_bucket [OF wf_graphD(1) [OF wf]] wf_bucketsD(3) [OF wf_graphD(1) [OF wf]]
    unfolding walked_def by blast
  moreover have "distinct (map res_id rs)" using w by (simp add: walked_def)
  ultimately show ?thesis
    using look_update_all [of rs st F i] walked_ids [OF wf_graphD(1) [OF wf] w] by auto
qed

text \<open>The tree survives a change of records under which the live ones stay closed upwards.\<close>

lemma wf_tree_transfer:
  assumes tree: "wf_tree m ch"
    and rel: "\<And>i. rel_option (\<lambda>r r'. resource_type r' = resource_type r \<and> parent_id r' = parent_id r \<and>
                (extant r' \<longrightarrow> extant r)) (m i) (m' i)"
    and up: "\<And>i r p q. m' i = Some r \<Longrightarrow> extant r \<Longrightarrow> parent_id r = Some p \<Longrightarrow> m p = Some q \<Longrightarrow> extant q \<Longrightarrow>
               \<exists>q'. m' p = Some q' \<and> extant q'"
  shows "wf_tree m' ch"
proof -
  have fwd: "\<exists>r. m i = Some r \<and> resource_type r' = resource_type r \<and> parent_id r' = parent_id r \<and>
      (extant r' \<longrightarrow> extant r)" if "m' i = Some r'" for i r'
    using rel [of i] that by (auto simp: option_rel_Some2)
  have bwd: "\<exists>r'. m' i = Some r' \<and> resource_type r' = resource_type r \<and> parent_id r' = parent_id r"
    if "m i = Some r" for i r
    using rel [of i] that by (auto simp: option_rel_Some1)
  have "parent_ok m' r'" if r': "m' i = Some r' \<and> extant r'" for i r'
  proof -
    obtain r where r: "m i = Some r" "extant r" "resource_type r' = resource_type r" "parent_id r' = parent_id r"
      using fwd r' by blast
    then have ok: "parent_ok m r" by (intro wf_tree_parent [OF tree])
    show ?thesis
    proof (cases "PARENT_TYPE (resource_type r)")
      case None
      then show ?thesis using ok r by (simp add: parent_ok_def)
    next
      case (Some pt)
      then obtain p q where p: "parent_id r = Some p" "m p = Some q" "extant q" "resource_type q = pt"
        using ok by (auto simp: parent_ok_def)
      then obtain q' where "m' p = Some q'" "extant q'" using up r' r(4) by metis
      moreover from this have "resource_type q' = pt" using bwd [OF p(2)] p(4) by auto
      ultimately show ?thesis using Some p(1) r(3,4) by (simp add: parent_ok_def)
    qed
  qed
  moreover have "i \<in> ch p" if "m' i = Some r' \<and> extant r' \<and> parent_id r' = Some p" for i r' p
    using that fwd [of i r'] wf_tree_listed [OF tree, of i] by auto
  moreover have "\<exists>r. m' c = Some r \<and> parent_id r = Some p" if "c \<in> ch p" for c p
    using wf_tree_child [OF tree that] bwd [of c] by force
  ultimately show ?thesis unfolding wf_tree_def by blast
qed

lemma update_all_graph_retire:
  assumes wf: "wf_graph st" and w: "walked st rs tops"
  shows "wf_graph (update_all (\<lambda>i. retire (hn i)) st rs)" (is "wf_graph ?st")
proof -
  note look = look_update_walked [OF wf w, where F = "\<lambda>i. retire (hn i)"]
  have "wf_tree (look ?st) (children st)"
  proof (rule wf_tree_transfer [OF wf_graphD(2) [OF wf]])
    fix i show "rel_option (\<lambda>r r'. resource_type r' = resource_type r \<and> parent_id r' = parent_id r \<and>
                (extant r' \<longrightarrow> extant r)) (look st i) (look ?st i)"
      unfolding look by (cases "look st i") (auto simp: retire_def)
  next
    fix i r p q assume i: "look ?st i = Some r" "extant r" "parent_id r = Some p" and q: "look st p = Some q" "extant q"
    then have "look st i = Some r" "\<not> (\<exists>c \<in> tops. desc (look st) i c)"
      unfolding look by (auto simp: retire_def split: if_splits)
    then have "\<not> (\<exists>c \<in> tops. desc (look st) p c)" using i(2,3) desc.step by blast
    then show "\<exists>q'. look ?st p = Some q' \<and> extant q'" using q unfolding look by simp
  qed
  moreover have "wf_buckets ?st" using wf_graphD(1) [OF wf] by (intro update_all_wf) simp_all
  ultimately show ?thesis by (simp add: wf_graph_def)
qed

lemma update_all_graph_health:
  assumes wf: "wf_graph st" and w: "walked st rs tops"
  shows "wf_graph (update_all (\<lambda>i r. r\<lparr>health := h\<rparr>) st rs)" (is "wf_graph ?st")
proof -
  note look = look_update_walked [OF wf w, where F = "\<lambda>i r. r\<lparr>health := h\<rparr>"]
  have "wf_tree (look ?st) (children st)"
  proof (rule wf_tree_transfer [OF wf_graphD(2) [OF wf]])
    fix i show "rel_option (\<lambda>r r'. resource_type r' = resource_type r \<and> parent_id r' = parent_id r \<and>
                (extant r' \<longrightarrow> extant r)) (look st i) (look ?st i)"
      unfolding look by (cases "look st i") auto
  next
    fix i r p q assume "look st p = Some q" "extant q"
    then show "\<exists>q'. look ?st p = Some q' \<and> extant q'" unfolding look by auto
  qed
  moreover have "wf_buckets ?st" using wf_graphD(1) [OF wf] by (intro update_all_wf) simp_all
  ultimately show ?thesis by (simp add: wf_graph_def)
qed

subsection \<open>The cascades follow the walk\<close>

text \<open>
  Both recursions change exactly the records the walk lists, in its order. A sibling's
  subtree is walked in a store where the earlier siblings' subtrees have already changed;
  \<open>walk_cong\<close> says that makes no difference.
\<close>

lemma walked_split:
  assumes wf: "wf_graph st" and "walked st (xs @ ys) (insert c A)" and "walked st xs {c}"
    and "find_any st d = Some x" and "x \<in> set ys"
  shows "\<not> desc (look st) d c"
proof
  assume "desc (look st) d c"
  moreover have d: "look st d = Some x" "res_id x = d"
    using assms(4) find_any_Some [OF wf] find_any_id [OF wf] by blast+
  ultimately have "x \<in> set xs" using assms(3) unfolding walked_def by blast
  then show False using assms(2,5) by (auto simp: walked_def)
qed

text \<open>What an update of one subtree leaves for the walk over the later siblings.\<close>

lemma sibling_walk:
  assumes wf: "wf_graph st" and c: "find_any st c = Some child" and w: "walked st xs {c}"
    and xy: "walked st (xs @ ys) (insert c (set cs))"
    and run: "walk_children n st cs = Inr ys"
    and gone: "\<And>i r. look st i = Some r \<Longrightarrow> extant (F i r) \<Longrightarrow> extant r"
  shows "walk_children n (update_all F st xs) cs = Inr ys"
proof (rule walk_cong(2) [OF run])
  note lk = look_update_walked [OF wf w, where F = F]
  have fa: "find_any (update_all F st xs) d =
      (case look (update_all F st xs) d of Some r \<Rightarrow> if extant r then Some r else None | None \<Rightarrow> None)" for d
    by (simp add: find_any_def look_def get_resource_def split: option.splits)
  fix d
  show "find_any (update_all F st xs) d = None" if "find_any st d = None"
    using that find_any_look [OF wf_graphD(1) [OF wf], of d] gone
    unfolding fa lk by (auto split: option.splits if_splits)
  fix x assume x: "find_any st d = Some x" "x \<in> set ys"
  then have "\<not> desc (look st) d c" by (rule walked_split [OF wf xy w])
  then show "find_any (update_all F st xs) d = Some x"
    using x(1) find_any_Some [OF wf, of d x] unfolding fa lk by simp
qed simp

lemma sibling_parent:
  assumes wf: "wf_graph st" and "walked st xs tops" and "look st p = Some q" and "keeps (F p)"
  shows "\<exists>q'. look (update_all F st xs) p = Some q' \<and> res_id q' = res_id q \<and> resource_type q' = resource_type q"
  unfolding look_update_walked [OF assms(1,2)] using assms(3,4) by (auto simp: keeps_def)

lemma erase_walk:
  "wf_graph st \<Longrightarrow> look st (res_id r) = Some r \<Longrightarrow> extant r \<Longrightarrow> 3 \<le> n + rank (resource_type r) \<Longrightarrow>
     walk n st r = Inr rs \<Longrightarrow>
     erase_subtree n hn st r = Inr (update_all (\<lambda>i. retire (hn i)) st rs, map ev_removed rs)"
  "wf_graph st \<Longrightarrow> distinct cs \<Longrightarrow> set cs \<subseteq> children st p \<Longrightarrow> look st p = Some q \<Longrightarrow> res_id q = p \<Longrightarrow>
     2 \<le> n + rank (resource_type q) \<Longrightarrow> walk_children n st cs = Inr rs \<Longrightarrow>
     erase_children n hn st cs = Inr (update_all (\<lambda>i. retire (hn i)) st rs, map ev_removed rs)"
proof (induction n hn st r and n hn st cs arbitrary: rs and rs p q
    rule: erase_subtree_erase_children.induct)
  case (2 depth hn st r)
  then obtain ys where ys: "walk_children depth st (sorted_children st (res_id r)) = Inr ys" "rs = ys @ [r]"
    by (auto simp: bind_res_eq_Inr)
  have "erase_children depth hn st (sorted_children st (res_id r)) =
          Inr (update_all (\<lambda>i. retire (hn i)) st ys, map ev_removed ys)"
    by (rule "2.IH" [OF "2.prems"(1) _ _ "2.prems"(2) refl _ ys(1)]) (use 2 in simp_all)
  then show ?case using ys(2) by simp
next
  case (4 depth hn st c cs)
  note wf = "4.prems"(1)
  show ?case
  proof (cases "find_any st c")
    case None
    then show ?thesis using "4.IH"(1) [OF None wf _ _ "4.prems"(4,5,6)] "4.prems"(2,3,7) by auto
  next
    case (Some child)
    then have ch: "look st c = Some child" "extant child" and idc: "res_id child = c"
      using find_any_Some [OF wf] find_any_id [OF wf] by blast+
    have rk: "3 \<le> depth + rank (resource_type child)"
      using child_rank(1) [OF wf _ _ Some, of q] "4.prems"(3-6) by auto
    obtain xs ys where xy: "walk depth st child = Inr xs" "walk_children depth st cs = Inr ys" "rs = xs @ ys"
      using "4.prems"(7) Some ch(2) by (auto simp: bind_res_eq_Inr)
    let ?st = "update_all (\<lambda>i. retire (hn i)) st xs"
    have one: "erase_subtree depth hn st child = Inr (?st, map ev_removed xs)"
      by (rule "4.IH"(2) [OF Some wf _ ch(2) rk xy(1)]) (use ch idc in simp)
    have w: "walked st xs {c}"
      using walk_walked(1) [OF wf _ ch(2) rk] ch idc xy(1) by auto
    have "walked st (xs @ ys) (insert c (set cs))"
      using walk_walked(2) [OF wf "4.prems"(2-6)] "4.prems"(7) xy(3) by auto
    then have ys: "walk_children depth ?st cs = Inr ys"
      by (rule sibling_walk [OF wf Some w _ xy(2)]) (simp add: retire_def)
    obtain q' where q': "look ?st p = Some q'" "res_id q' = p" "resource_type q' = resource_type q"
      using sibling_parent [OF wf w "4.prems"(4), of "\<lambda>i. retire (hn i)"] "4.prems"(5) by auto
    have "erase_children depth hn ?st cs =
            Inr (update_all (\<lambda>i. retire (hn i)) ?st ys, map ev_removed ys)"
      by (rule "4.IH"(3) [OF Some update_all_graph_retire [OF wf w] _ _ q'(1,2) _ ys])
         (use "4.prems"(2,3,6) q'(3) in simp_all)
    then show ?thesis using Some one xy(3) by simp
  qed
qed simp_all

lemma set_health_walk:
  "wf_graph st \<Longrightarrow> look st (res_id r) = Some r \<Longrightarrow> extant r \<Longrightarrow> 3 \<le> n + rank (resource_type r) \<Longrightarrow>
     walk n st r = Inr rs \<Longrightarrow>
     set_health_recursive n st r h = Inr (update_all (\<lambda>i r. r\<lparr>health := h\<rparr>) st rs)"
  "wf_graph st \<Longrightarrow> distinct cs \<Longrightarrow> set cs \<subseteq> children st p \<Longrightarrow> look st p = Some q \<Longrightarrow> res_id q = p \<Longrightarrow>
     2 \<le> n + rank (resource_type q) \<Longrightarrow> walk_children n st cs = Inr rs \<Longrightarrow>
     set_health_children n st cs h = Inr (update_all (\<lambda>i r. r\<lparr>health := h\<rparr>) st rs)"
proof (induction n st r h and n st cs h arbitrary: rs and rs p q
    rule: set_health_recursive_set_health_children.induct)
  case (2 depth st r h)
  then obtain ys where ys: "walk_children depth st (sorted_children st (res_id r)) = Inr ys" "rs = ys @ [r]"
    by (auto simp: bind_res_eq_Inr)
  have "set_health_children depth st (sorted_children st (res_id r)) h =
          Inr (update_all (\<lambda>i r. r\<lparr>health := h\<rparr>) st ys)"
    by (rule "2.IH" [OF "2.prems"(1) _ _ "2.prems"(2) refl _ ys(1)]) (use 2 in simp_all)
  then show ?case using ys(2) by simp
next
  case (4 depth st c cs h)
  note wf = "4.prems"(1)
  show ?case
  proof (cases "find_any st c")
    case None
    then show ?thesis using "4.IH"(1) [OF None wf _ _ "4.prems"(4,5,6)] "4.prems"(2,3,7) by auto
  next
    case (Some child)
    then have ch: "look st c = Some child" "extant child" and idc: "res_id child = c"
      using find_any_Some [OF wf] find_any_id [OF wf] by blast+
    have rk: "3 \<le> depth + rank (resource_type child)"
      using child_rank(1) [OF wf _ _ Some, of q] "4.prems"(3-6) by auto
    obtain xs ys where xy: "walk depth st child = Inr xs" "walk_children depth st cs = Inr ys" "rs = xs @ ys"
      using "4.prems"(7) Some ch(2) by (auto simp: bind_res_eq_Inr)
    let ?st = "update_all (\<lambda>i r. r\<lparr>health := h\<rparr>) st xs"
    have one: "set_health_recursive depth st child h = Inr ?st"
      by (rule "4.IH"(2) [OF Some wf _ ch(2) rk xy(1)]) (use ch idc in simp)
    have w: "walked st xs {c}"
      using walk_walked(1) [OF wf _ ch(2) rk] ch idc xy(1) by auto
    have "walked st (xs @ ys) (insert c (set cs))"
      using walk_walked(2) [OF wf "4.prems"(2-6)] "4.prems"(7) xy(3) by auto
    then have ys: "walk_children depth ?st cs = Inr ys"
      by (rule sibling_walk [OF wf Some w _ xy(2)]) simp
    obtain q' where q': "look ?st p = Some q'" "res_id q' = p" "resource_type q' = resource_type q"
      using sibling_parent [OF wf w "4.prems"(4), of "\<lambda>i r. r\<lparr>health := h\<rparr>"] "4.prems"(5) by auto
    have "set_health_children depth ?st cs h = Inr (update_all (\<lambda>i r. r\<lparr>health := h\<rparr>) ?st ys)"
      by (rule "4.IH"(3) [OF Some update_all_graph_health [OF wf w] _ _ q'(1,2) _ ys])
         (use "4.prems"(2,3,6) q'(3) in simp_all)
    then show ?thesis using Some one xy(3) by simp
  qed
qed simp_all

subsection \<open>Order indexes\<close>

definition idx_ok :: "RegistryStore \<Rightarrow> ResourceType \<Rightarrow> Order \<Rightarrow> bool" where
  "idx_ok st rt ord \<longleftrightarrow>
     distinct (order_index st rt ord) \<and> set (order_index st rt ord) = set (dkeys (by_type st rt)) \<and>
     (\<not> order_dirty st rt ord \<longrightarrow> sorted (map (index_key (by_type st rt) ord) (order_index st rt ord)))"

text \<open>An index that is right but for the place of \<open>i\<close>.\<close>

definition idx_pre :: "RegistryStore \<Rightarrow> ResourceType \<Rightarrow> Order \<Rightarrow> pystr \<Rightarrow> bool" where
  "idx_pre st rt ord i \<longleftrightarrow>
     distinct (order_index st rt ord) \<and>
     insert i (set (order_index st rt ord)) = set (dkeys (by_type st rt)) \<and>
     (\<not> order_dirty st rt ord \<longrightarrow>
        sorted (map (index_key (by_type st rt) ord) (filter (\<lambda>x. x \<noteq> i) (order_index st rt ord))))"

lemma wf_order_idx: "wf_order st \<longleftrightarrow> (\<forall>rt ord. idx_ok st rt ord)"
  by (simp add: wf_order_def idx_ok_def)

lemma touch_order_frame [simp]:
  "by_type (touch_order st rt ord i c) = by_type st" "type_of (touch_order st rt ord i c) = type_of st"
  "children (touch_order st rt ord i c) = children st"
  "last_cursor (touch_order st rt ord i c) = last_cursor st"
  "gc_interval (touch_order st rt ord i c) = gc_interval st"
  "forget_interval (touch_order st rt ord i c) = forget_interval st"
  by (simp_all add: touch_order_def Let_def set_index_def set_dirty_def split: option.splits)

lemma touch_order_other:
  "(rt', ord') \<noteq> (rt, ord) \<Longrightarrow>
     order_index (touch_order st rt ord i c) rt' ord' = order_index st rt' ord' \<and>
     order_dirty (touch_order st rt ord i c) rt' ord' = order_dirty st rt' ord'"
  by (auto simp: touch_order_def Let_def set_index_def set_dirty_def split: option.splits)

lemma touch_order_index:
  "order_index (touch_order st rt ord i c) rt ord = filter (\<lambda>x. x \<noteq> i) (order_index st rt ord) @ [i]"
  by (simp add: touch_order_def Let_def set_index_def set_dirty_def split: option.splits)

text \<open>
  The flag after the call: unless it was already set, it is set exactly when the new
  element sorts before the one it is appended to.
\<close>

lemma touch_order_dirty:
  assumes "set (order_index st rt ord) \<subseteq> set (dkeys (by_type st rt))"
  shows "order_dirty (touch_order st rt ord i c) rt ord \<longleftrightarrow>
     order_dirty st rt ord \<or>
     (let xs = filter (\<lambda>x. x \<noteq> i) (order_index st rt ord)
      in xs \<noteq> [] \<and> (c, i) < index_key (by_type st rt) ord (last xs))"
proof -
  let ?xs = "filter (\<lambda>x. x \<noteq> i) (order_index st rt ord)"
  have "\<exists>l. dget (by_type st rt) (last ?xs) = Some l" if "?xs \<noteq> []"
  proof -
    have "last ?xs \<in> set ?xs" using that by (rule last_in_set)
    then have "last ?xs \<in> set (dkeys (by_type st rt))" using assms by auto
    then show ?thesis using dget_None_keys [of "by_type st rt" "last ?xs"] by auto
  qed
  then show ?thesis
    by (cases "?xs = []")
       (auto simp: touch_order_def Let_def set_index_def set_dirty_def index_key_def split: option.splits)
qed

lemma touch_order_ok:
  assumes pre: "idx_pre st rt ord i" and r: "dget (by_type st rt) i = Some r" and c: "c = cursor_of r ord"
  shows "idx_ok (touch_order st rt ord i c) rt ord"
proof -
  let ?xs = "filter (\<lambda>x. x \<noteq> i) (order_index st rt ord)"
  let ?k = "index_key (by_type st rt) ord"
  let ?st = "touch_order st rt ord i c"
  have sub: "set (order_index st rt ord) \<subseteq> set (dkeys (by_type st rt))"
    and ins: "insert i (set (order_index st rt ord)) = set (dkeys (by_type st rt))"
    using pre by (auto simp: idx_pre_def)
  have ki: "?k i = (c, i)" using r c by (simp add: index_key_def)
  have "sorted (map ?k (?xs @ [i]))" if "\<not> order_dirty ?st rt ord"
  proof (cases "?xs = []")
    case False
    have nd: "\<not> order_dirty st rt ord" and le: "?k (last ?xs) \<le> ?k i"
      using that False unfolding touch_order_dirty [OF sub] ki by (auto simp: Let_def not_less)
    have srt: "sorted (map ?k ?xs)" using pre nd by (simp add: idx_pre_def)
    have "y \<le> ?k i" if "y \<in> set (map ?k ?xs)" for y
    proof -
      have "y \<le> last (map ?k ?xs)"
        using srt that False by (metis in_set_conv_nth last_conv_nth length_pos_if_in_set less_Suc_eq_le
            less_numeral_extra(3) list.size(3) sorted_iff_nth_mono Suc_pred' diff_less zero_less_one)
      with le False show ?thesis by (simp add: last_map)
    qed
    then show ?thesis using srt by (simp add: sorted_append)
  qed simp
  moreover have "distinct (?xs @ [i])" using pre by (simp add: idx_pre_def)
  moreover have "set (?xs @ [i]) = set (dkeys (by_type st rt))" using ins by auto
  ultimately show ?thesis by (simp add: idx_ok_def touch_order_index)
qed

lemma touch_order_others:
  assumes "(rt', ord') \<noteq> (rt, ord)"
  shows "idx_ok (touch_order st rt ord i c) rt' ord' = idx_ok st rt' ord'"
    "idx_pre (touch_order st rt ord i c) rt' ord' j = idx_pre st rt' ord' j"
  using touch_order_other [OF assms, of st i c] by (simp_all add: idx_ok_def idx_pre_def)

lemma put_resource_frame [simp]:
  "type_of (put_resource st rt i r) = type_of st" "children (put_resource st rt i r) = children st"
  "last_cursor (put_resource st rt i r) = last_cursor st" "order_index (put_resource st rt i r) = order_index st"
  "order_dirty (put_resource st rt i r) = order_dirty st" "gc_interval (put_resource st rt i r) = gc_interval st"
  "forget_interval (put_resource st rt i r) = forget_interval st"
  by (simp_all add: put_resource_def)

lemma put_resource_bucket:
  "dget (by_type (put_resource st rt i r) rt') j =
     (if rt' = rt \<and> j = i then Some r else dget (by_type st rt') j)"
  by (simp add: put_resource_def)

lemma set_dkeys_dset: "set (dkeys (dset i r d)) = insert i (set (dkeys d))"
  by (auto simp: dom_update simp flip: dom_map_of_conv_image_fst)

lemma put_resource_pre:
  assumes "idx_ok st rt ord"
  shows "idx_pre (put_resource st rt i r) rt ord i"
proof -
  have "index_key (dset i r (by_type st rt)) ord x = index_key (by_type st rt) ord x" if "x \<noteq> i" for x
    using that by (simp add: index_key_def)
  then have eq: "map (index_key (dset i r (by_type st rt)) ord) (filter (\<lambda>x. x \<noteq> i) (order_index st rt ord)) =
             map (index_key (by_type st rt) ord) (filter (\<lambda>x. x \<noteq> i) (order_index st rt ord))"
    by (intro map_cong) auto
  have "sorted (map (index_key (by_type st rt) ord) (filter (\<lambda>x. x \<noteq> i) (order_index st rt ord)))"
    if "\<not> order_dirty st rt ord"
    using assms that by (intro sorted_filter) (simp add: idx_ok_def)
  then show ?thesis
    using assms set_dkeys_dset [of i r "by_type st rt"]
    unfolding idx_ok_def idx_pre_def put_resource_frame by (simp add: put_resource_def eq)
qed

lemma put_resource_same_key:
  assumes "idx_ok st rt ord" and "dget (by_type st rt) i = Some p" and "cursor_of r ord = cursor_of p ord"
  shows "idx_ok (put_resource st rt i r) rt ord"
proof -
  have "index_key (dset i r (by_type st rt)) ord = index_key (by_type st rt) ord"
    using assms(2,3) by (auto simp: index_key_def)
  moreover have "set (dkeys (dset i r (by_type st rt))) = set (dkeys (by_type st rt))"
    using dkeys_dset_old [OF dget_Some_key [OF assms(2)], of r] by simp
  ultimately show ?thesis using assms(1) by (simp add: idx_ok_def put_resource_def)
qed

lemma put_resource_other: "rt' \<noteq> rt \<Longrightarrow> idx_ok (put_resource st rt i r) rt' ord = idx_ok st rt' ord"
  by (simp add: idx_ok_def put_resource_def)

subsection \<open>Registration keeps the invariant\<close>

text \<open>What \<open>prepare\<close> has established when it returns a prepared registration.\<close>

definition prepared_ok :: "RegistryStore \<Rightarrow> PreparedRegistration \<Rightarrow> bool" where
  "prepared_ok st p \<longleftrightarrow>
     type_of st (pr_id p) \<in> {None, Some (pr_type p)} \<and>
     (case PARENT_TYPE (pr_type p) of
        None \<Rightarrow> pr_parent p = None
      | Some pt \<Rightarrow> (\<exists>pp q. pr_parent p = Some pp \<and> look st pp = Some q \<and> extant q \<and> resource_type q = pt)) \<and>
     (case look st (pr_id p) of
        None \<Rightarrow> \<not> reviving p
      | Some r \<Rightarrow> reviving p = (\<not> extant r) \<and> (extant r \<longrightarrow> parent_id r = pr_parent p))"

lemma check_parent_None:
  assumes "wf_buckets st"
  shows "check_parent st rt parent = None \<longleftrightarrow>
    (case PARENT_TYPE rt of None \<Rightarrow> True
     | Some pt \<Rightarrow> (\<exists>pp q. parent = Some pp \<and> look st pp = Some q \<and> extant q \<and> resource_type q = pt))"
proof (cases "PARENT_TYPE rt")
  case (Some pt)
  show ?thesis
  proof (cases parent)
    case p: (Some pp)
    show ?thesis
    proof (cases "look st pp")
      case None
      then show ?thesis using Some p by (auto simp: check_parent_def look_def split: option.splits)
    next
      case (Some q)
      then obtain t where t: "type_of st pp = Some t" "dget (by_type st t) pp = Some q"
        by (auto simp: look_def split: option.splits)
      moreover have "resource_type q = t" using wf_bucketsD(1) [OF assms t(2)] .
      ultimately show ?thesis using \<open>PARENT_TYPE rt = Some pt\<close> p Some by (auto simp: check_parent_def)
    qed
  qed (simp add: check_parent_def Some)
qed (simp add: check_parent_def)

lemma check_update_None:
  "check_update p ver parent = Inr None \<Longrightarrow> parent_id p = None \<or> parent = parent_id p"
  by (auto simp: check_update_def bind_res_eq_Inr split: option.splits if_splits)

lemma prepare_cases:
  assumes "prepare st rt raw = Inr (Inr p)"
  shows "\<exists>ver. dget raw (str ''version'') = Some (JStr ver) \<and> dget raw (str ''id'') = Some (JStr (pr_id p)) \<and>
    pr_id p \<noteq> [] \<and> pr_type p = rt \<and> pr_version p = ver \<and> pr_parent p = parent_id_of rt raw \<and>
    type_of st (pr_id p) \<in> {None, Some rt} \<and> check_parent st rt (pr_parent p) = None \<and>
    (case dget (by_type st rt) (pr_id p) of
       None \<Rightarrow> creates p \<and> \<not> reviving p
     | Some x \<Rightarrow> creates p = (\<not> extant x) \<and> reviving p = (\<not> extant x) \<and>
                 (extant x \<longrightarrow> check_update x ver (pr_parent p) = Inr None))"
  using assms unfolding prepare_def
  by (auto simp: bind_res_eq_Inr Let_def split: option.splits json.splits if_splits sum.splits)

lemma prepare_prepared_ok:
  assumes wf: "wf_graph st" and p: "prepare st rt raw = Inr (Inr p)"
  shows "prepared_ok st p"
proof -
  note b = wf_graphD(1) [OF wf]
  obtain ver where c: "pr_type p = rt" "pr_parent p = parent_id_of rt raw"
      "type_of st (pr_id p) \<in> {None, Some rt}" "check_parent st rt (pr_parent p) = None"
      "case dget (by_type st rt) (pr_id p) of None \<Rightarrow> creates p \<and> \<not> reviving p
       | Some x \<Rightarrow> creates p = (\<not> extant x) \<and> reviving p = (\<not> extant x) \<and>
                   (extant x \<longrightarrow> check_update x ver (pr_parent p) = Inr None)"
    using prepare_cases [OF p] by blast
  have par: "case PARENT_TYPE rt of None \<Rightarrow> pr_parent p = None
      | Some pt \<Rightarrow> (\<exists>pp q. pr_parent p = Some pp \<and> look st pp = Some q \<and> extant q \<and> resource_type q = pt)"
    using c(4) check_parent_None [OF b, of rt "pr_parent p"] c(2) PARENT_KEY_None_iff [of rt]
    by (auto simp: parent_id_of_def split: option.splits)
  have prev: "look st (pr_id p) = dget (by_type st rt) (pr_id p)"
    using c(3) b unfolding look_def wf_buckets_def by (cases "dget (by_type st rt) (pr_id p)") auto
  have same: "parent_id x = pr_parent p" if "look st (pr_id p) = Some x" "extant x" for x
  proof -
    have "parent_id x = None \<or> pr_parent p = parent_id x"
      using that prev c(5) check_update_None by auto
    moreover have "resource_type x = rt" using that prev wf_bucketsD(1) [OF b] by simp
    moreover have "parent_ok (look st) x" using wf_tree_parent [OF wf_graphD(2) [OF wf]] that by blast
    ultimately show ?thesis using par by (auto simp: parent_ok_def split: option.splits)
  qed
  show ?thesis
    using c prev par same by (auto simp: prepared_ok_def split: option.splits)
qed

lemma commit_cursor_frame:
  assumes "commit_cursor tn st rt ua = (st', c)"
  shows "by_type st' = by_type st" "type_of st' = type_of st" "children st' = children st"
    "order_index st' = order_index st" "order_dirty st' = order_dirty st"
    "gc_interval st' = gc_interval st" "forget_interval st' = forget_interval st" "look st' = look st"
  using assms
  by (auto simp: commit_cursor_def next_cursor_def Let_def look_def fun_eq_iff split: option.splits if_splits)

lemma commit_cursor_mark:
  assumes "commit_cursor tn st rt ua = (st', c)"
  shows "\<exists>l. last_cursor st' rt = Some l \<and> c \<le> l \<and> (\<forall>l0. last_cursor st rt = Some l0 \<longrightarrow> l0 \<le> l) \<and>
           (\<forall>rt'. rt' \<noteq> rt \<longrightarrow> last_cursor st' rt' = last_cursor st rt')"
  using assms cursor_next_greater
  by (auto simp: commit_cursor_def next_cursor_def Let_def not_less less_imp_le split: option.splits if_splits)

lemma wf_tree_put:
  assumes tree: "wf_tree m ch" and r: "extant r" "parent_ok m r"
    and old: "\<And>q. m i = Some q \<Longrightarrow> resource_type q = resource_type r"
    and ch': "\<And>c p. c \<in> ch' p \<longleftrightarrow> c = i \<and> parent_id r = Some p \<or> c \<noteq> i \<and> c \<in> ch p \<and> (p = i \<longrightarrow> keep)"
    and keep: "\<And>q. \<not> keep \<Longrightarrow> m i = Some q \<Longrightarrow> \<not> extant q"
  shows "wf_tree (m(i \<mapsto> r)) ch'"
proof -
  have ok: "parent_ok (m(i \<mapsto> r)) x" if "parent_ok m x" for x
  proof (cases "PARENT_TYPE (resource_type x)")
    case (Some pt)
    then obtain p q where "parent_id x = Some p" "m p = Some q" "extant q" "resource_type q = pt"
      using \<open>parent_ok m x\<close> by (auto simp: parent_ok_def)
    then show ?thesis using Some old [of q] r(1) by (cases "p = i") (simp_all add: parent_ok_def)
  qed (use that in \<open>simp add: parent_ok_def\<close>)
  have "parent_ok (m(i \<mapsto> r)) x" if x: "(m(i \<mapsto> r)) j = Some x \<and> extant x" for j x
    using x ok r(2) wf_tree_parent [OF tree, of j x] by (auto split: if_splits)
  moreover have "j \<in> ch' p" if x: "(m(i \<mapsto> r)) j = Some x \<and> extant x \<and> parent_id x = Some p" for j x p
  proof (cases "j = i")
    case False
    then have j: "m j = Some x" "extant x" "parent_id x = Some p" using x by auto
    then have "j \<in> ch p" by (rule wf_tree_listed [OF tree])
    moreover have "p = i \<longrightarrow> keep" using parent_rank [OF tree j] keep by blast
    ultimately show ?thesis using ch' False by blast
  qed (use x ch' in auto)
  moreover have "\<exists>x. (m(i \<mapsto> r)) c = Some x \<and> parent_id x = Some p" if "c \<in> ch' p" for c p
    using that wf_tree_child [OF tree, of c p] unfolding ch' by auto
  ultimately show ?thesis unfolding wf_tree_def by blast
qed

lemma reparent_frame [simp]:
  "by_type (reparent st i a b) = by_type st" "type_of (reparent st i a b) = type_of st"
  "last_cursor (reparent st i a b) = last_cursor st" "order_index (reparent st i a b) = order_index st"
  "order_dirty (reparent st i a b) = order_dirty st" "gc_interval (reparent st i a b) = gc_interval st"
  "forget_interval (reparent st i a b) = forget_interval st"
  by (simp_all add: reparent_def Let_def)

lemma reparent_children:
  "c \<in> children (reparent st i a b) p \<longleftrightarrow>
     (c = i \<and> b = Some p) \<or> (c \<in> children st p \<and> \<not> (c = i \<and> a = Some p))"
  by (auto simp: reparent_def Let_def split: option.splits if_splits)

lemma wf_order_other:
  assumes "wf_order st"
    and "\<And>rt' ord. rt' \<noteq> rt \<Longrightarrow> by_type st' rt' = by_type st rt' \<and> order_index st' rt' ord = order_index st rt' ord \<and>
           order_dirty st' rt' ord = order_dirty st rt' ord"
    and "\<And>ord. idx_ok st' rt ord"
  shows "wf_order st'"
  unfolding wf_order_idx
proof (intro allI)
  fix rt' ord
  show "idx_ok st' rt' ord"
  proof (cases "rt' = rt")
    case False
    then show ?thesis using assms(1) assms(2) [of rt' ord] unfolding wf_order_idx idx_ok_def by simp
  qed (use assms(3) in simp)
qed

lemma Order_all: "(\<forall>ord. P ord) \<longleftrightarrow> P ORDER_CREATE \<and> P ORDER_UPDATE"
  by (metis Order.exhaust)

text \<open>Storing a record of the right identity, with the index entry its type needs.\<close>

lemma wf_buckets_put:
  assumes wf: "wf_buckets st" and i: "type_of st i \<in> {None, Some rt}"
    and r: "resource_type r = rt" "res_id r = i"
    and bt: "by_type st' = (by_type st)(rt := dset i r (by_type st rt))"
    and ty: "type_of st' = (type_of st)(i \<mapsto> rt)"
  shows "wf_buckets st'" "look st' = (look st)(i \<mapsto> r)"
proof -
  have get: "dget (by_type st' t) j = (if t = rt \<and> j = i then Some r else dget (by_type st t) j)" for t j
    by (simp add: bt)
  have "wf_dict (by_type st' t)" for t
    using wf by (simp add: bt wf_buckets_def wf_dict_dset)
  moreover have "resource_type x = t \<and> res_id x = j \<and> type_of st' j = Some t"
    if "dget (by_type st' t) j = Some x" for t j x
  proof (cases "t = rt \<and> j = i")
    case True
    then show ?thesis using that r by (simp add: get ty)
  next
    case False
    then have x: "dget (by_type st t) j = Some x" using that by (simp add: get split: if_splits)
    note d = wf_bucketsD [OF wf x]
    moreover have "j \<noteq> i" using d(3) i False by auto
    ultimately show ?thesis by (simp add: ty)
  qed
  moreover have "dget (by_type st' t) j \<noteq> None" if "type_of st' j = Some t" for t j
    using that wf unfolding get ty wf_buckets_def by (auto split: if_splits)
  ultimately show "wf_buckets st'" unfolding wf_buckets_def by blast
  show "look st' = (look st)(i \<mapsto> r)"
    by (rule ext) (auto simp: look_def get ty split: option.splits)
qed

lemma wf_cursor_put:
  assumes "wf_cursor st" and "by_type st' = (by_type st)(rt := dset i r (by_type st rt))"
    and "last_cursor st' = last_cursor st" and "updated r = c"
    and "\<exists>l. last_cursor st rt = Some l \<and> c \<le> l"
  shows "wf_cursor st'"
  using assms by (auto simp: wf_cursor_def)

lemma commit_update_wf:
  assumes wf: "wf_store st" and ok: "prepared_ok st p" and nr: "\<not> reviving p"
    and prev: "dget (by_type st (pr_type p)) (pr_id p) = Some x"
    and mark: "\<exists>l. last_cursor st (pr_type p) = Some l \<and> c \<le> l"
    and run: "commit_update st p b c h x = (st', res)"
  shows "wf_store st'"
    and "look st' = (look st)(pr_id p \<mapsto> x\<lparr>body := b, version := pr_version p, updated := c, health := h\<rparr>)"
proof -
  let ?rt = "pr_type p" and ?i = "pr_id p"
  let ?x = "x\<lparr>body := b, version := pr_version p, updated := c, parent_id := pr_parent p, health := h\<rparr>"
  have wfs: "wf_graph st" "wf_order st" "wf_cursor st" "wf_buckets st" "wf_tree (look st) (children st)"
    using wf by (simp_all add: wf_store_def wf_graph_def)
  note x = wf_bucketsD [OF wfs(4) prev]
  have ext: "extant x" and par: "parent_id x = pr_parent p"
    using ok nr x(4) by (auto simp: prepared_ok_def)
  have st': "st' = touch_order (reparent (put_resource st ?rt ?i ?x) ?i (parent_id x) (pr_parent p)) ?rt ORDER_UPDATE ?i c"
    using run by (simp add: commit_update_def Let_def)
  have bt: "by_type st' = (by_type st)(?rt := dset ?i ?x (by_type st ?rt))"
    by (simp add: st' put_resource_def)
  have ty: "type_of st' = (type_of st)(?i \<mapsto> ?rt)"
    using x(3) by (auto simp: st')
  have b: "wf_buckets st'" "look st' = (look st)(?i \<mapsto> ?x)"
    by (rule wf_buckets_put [OF wfs(4) _ _ _ bt ty]; use x in simp)+
  have "wf_tree ((look st)(?i \<mapsto> ?x)) (children st')"
  proof (rule wf_tree_put [OF wfs(5), where keep = True])
    show "parent_ok (look st) ?x"
      using wf_tree_parent [OF wfs(5) x(4) ext] par by (simp add: parent_ok_def split: option.splits)
    fix d q
    have "?i \<in> children st q \<Longrightarrow> parent_id x = Some q"
      using wf_tree_child [OF wfs(5), of ?i q] x(4) by simp
    then show "d \<in> children st' q \<longleftrightarrow> d = ?i \<and> parent_id ?x = Some q \<or> d \<noteq> ?i \<and> d \<in> children st q \<and> (q = ?i \<longrightarrow> True)"
      by (auto simp: st' reparent_children)
  qed (use ext x in auto)
  then have g: "wf_graph st'" using b by (simp add: wf_graph_def)
  have create: "idx_ok (put_resource st ?rt ?i ?x) ?rt ORDER_CREATE"
    using wfs(2) by (intro put_resource_same_key [OF _ prev]) (simp_all add: wf_order_idx cursor_of_def)
  have pre: "idx_pre (put_resource st ?rt ?i ?x) ?rt ORDER_UPDATE ?i"
    using wfs(2) by (intro put_resource_pre) (simp add: wf_order_idx)
  have "wf_order st'"
  proof (rule wf_order_other [OF wfs(2), of ?rt])
    fix ord show "idx_ok st' ?rt ord"
    proof (cases ord)
      case ORDER_CREATE
      then show ?thesis using create by (simp add: st' touch_order_others idx_ok_def touch_order_other)
    next
      case ORDER_UPDATE
      have "idx_ok st' ?rt ORDER_UPDATE"
        unfolding st'
        by (rule touch_order_ok [where r = ?x])
           (use pre in \<open>simp_all add: idx_pre_def put_resource_bucket cursor_of_def\<close>)
      then show ?thesis using ORDER_UPDATE by simp
    qed
  next
    fix rt' ord assume "rt' \<noteq> ?rt"
    then show "by_type st' rt' = by_type st rt' \<and> order_index st' rt' ord = order_index st rt' ord \<and>
        order_dirty st' rt' ord = order_dirty st rt' ord"
      using touch_order_other [of rt' ord ?rt] by (simp add: st' put_resource_def)
  qed
  moreover have "wf_cursor st'"
    by (rule wf_cursor_put [OF wfs(3) bt _ _ mark]) (simp_all add: st')
  ultimately show "wf_store st'" using g by (simp add: wf_store_def)
  show "look st' = (look st)(pr_id p \<mapsto> x\<lparr>body := b, version := pr_version p, updated := c, health := h\<rparr>)"
    using b(2) par by (cases x) simp
qed

lemma commit_create_wf:
  assumes wf: "wf_store st" and ok: "prepared_ok st p"
    and fresh: "\<And>x. look st (pr_id p) = Some x \<Longrightarrow> \<not> extant x"
    and pre_parent: "pre = (case look st (pr_id p) of Some x \<Rightarrow> parent_id x | None \<Rightarrow> None)"
    and mark: "\<exists>l. last_cursor st (pr_type p) = Some l \<and> c \<le> l"
    and run: "commit_create st p b ca c h pre = (st', res)"
  shows "wf_store st'"
    and "look st' = (look st)(pr_id p \<mapsto>
           \<lparr>resource_type = pr_type p, res_id = pr_id p, body = b, version = pr_version p,
            created = (case ca of Some cc \<Rightarrow> cc | None \<Rightarrow> c), updated = c, parent_id = pr_parent p,
            extant = True, health = h\<rparr>)"
proof -
  let ?rt = "pr_type p" and ?i = "pr_id p"
  define r where "r = \<lparr>resource_type = ?rt, res_id = ?i, body = b, version = pr_version p,
     created = (case ca of Some cc \<Rightarrow> cc | None \<Rightarrow> c), updated = c, parent_id = pr_parent p,
     extant = True, health = h\<rparr>"
  have r: "resource_type r = ?rt" "res_id r = ?i" "parent_id r = pr_parent p" "extant r" "updated r = c"
    by (simp_all add: r_def)
  have wfs: "wf_graph st" "wf_order st" "wf_cursor st" "wf_buckets st" "wf_tree (look st) (children st)"
    using wf by (simp_all add: wf_store_def wf_graph_def)
  define s3 where "s3 = reparent ((put_resource st ?rt ?i r)\<lparr>type_of := (type_of (put_resource st ?rt ?i r))(?i \<mapsto> ?rt)\<rparr>) ?i pre (pr_parent p)"
  define s4 where "s4 = (if reviving p then s3\<lparr>children := (children s3)(?i := {})\<rparr> else s3)"
  define s5 where "s5 = touch_order s4 ?rt ORDER_CREATE ?i (created r)"
  have st': "st' = touch_order s5 ?rt ORDER_UPDATE ?i c"
    using run [unfolded commit_create_def Let_def, folded r_def, folded s3_def, folded s4_def, folded s5_def]
    by simp
  have s4: "by_type s4 = by_type (put_resource st ?rt ?i r)" "type_of s4 = (type_of st)(?i \<mapsto> ?rt)"
    "last_cursor s4 = last_cursor st" "order_index s4 = order_index st" "order_dirty s4 = order_dirty st"
    by (simp_all add: s4_def s3_def)
  have bt: "by_type st' = (by_type st)(?rt := dset ?i r (by_type st ?rt))"
    by (simp add: st' s5_def s4 put_resource_def)
  have ty: "type_of st' = (type_of st)(?i \<mapsto> ?rt)" by (simp add: st' s5_def s4)
  have tyi: "type_of st ?i \<in> {None, Some ?rt}" using ok by (simp add: prepared_ok_def)
  note bs = wf_buckets_put [OF wfs(4) tyi r(1,2) bt ty]
  have "wf_tree ((look st)(?i \<mapsto> r)) (children st')"
  proof (rule wf_tree_put [OF wfs(5), where keep = "\<not> reviving p"])
    show "parent_ok (look st) r"
      using ok r(1,3) by (auto simp: prepared_ok_def parent_ok_def split: option.splits)
    show "resource_type q = resource_type r" if "look st ?i = Some q" for q
      using that tyi wf_bucketsD(3) [OF wfs(4)] look_bucket [OF wfs(4)] r(1) by (metis insertE option.distinct(1) option.inject singletonD)
    fix d q
    have pr: "?i \<in> children st q \<Longrightarrow> pre = Some q"
      using wf_tree_child [OF wfs(5), of ?i q] pre_parent by auto
    have ns: "pr_parent p \<noteq> Some ?i"
    proof
      assume "pr_parent p = Some ?i"
      then obtain x where "look st ?i = Some x" "extant x"
        using ok by (auto simp: prepared_ok_def split: option.splits)
      with fresh show False by blast
    qed
    have c3: "d \<in> children s3 q \<longleftrightarrow> (d = ?i \<and> pr_parent p = Some q) \<or> (d \<in> children st q \<and> d \<noteq> ?i)"
      using pr by (auto simp: s3_def reparent_children)
    show "d \<in> children st' q \<longleftrightarrow> d = ?i \<and> parent_id r = Some q \<or> d \<noteq> ?i \<and> d \<in> children st q \<and> (q = ?i \<longrightarrow> \<not> reviving p)"
      using c3 ns r(3) by (auto simp: st' s5_def s4_def)
  qed (use fresh r(4) in auto)
  then have g: "wf_graph st'" using bs by (simp add: wf_graph_def)
  have pre: "idx_pre s4 ?rt ord ?i" for ord
    using put_resource_pre [of st ?rt ord ?i r] wfs(2) by (simp add: wf_order_idx idx_pre_def s4)
  have get: "dget (by_type s4 ?rt) ?i = Some r" by (simp add: s4 put_resource_def)
  have create: "idx_ok s5 ?rt ORDER_CREATE"
    unfolding s5_def by (rule touch_order_ok [OF pre get]) (simp add: cursor_of_def)
  have pre5: "idx_pre s5 ?rt ORDER_UPDATE ?i"
    unfolding s5_def using pre [of ORDER_UPDATE] by (simp add: touch_order_others)
  have "wf_order st'"
  proof (rule wf_order_other [OF wfs(2), of ?rt])
    fix ord show "idx_ok st' ?rt ord"
    proof (cases ord)
      case ORDER_CREATE
      then show ?thesis using create by (simp add: st' touch_order_others)
    next
      case ORDER_UPDATE
      have "idx_ok st' ?rt ORDER_UPDATE"
        unfolding st'
        by (rule touch_order_ok [OF pre5, of r]) (simp_all add: s5_def get cursor_of_def r(5))
      then show ?thesis using ORDER_UPDATE by simp
    qed
  next
    fix rt' ord assume "rt' \<noteq> ?rt"
    then show "by_type st' rt' = by_type st rt' \<and> order_index st' rt' ord = order_index st rt' ord \<and>
        order_dirty st' rt' ord = order_dirty st rt' ord"
      using touch_order_other [of rt' ord ?rt] by (simp add: bt) (simp add: st' s5_def s4)
  qed
  moreover have "wf_cursor st'"
    by (rule wf_cursor_put [OF wfs(3) bt _ r(5) mark]) (simp add: st' s5_def s4)
  ultimately show "wf_store st'" using g by (simp add: wf_store_def)
  show "look st' = (look st)(?i \<mapsto> \<lparr>resource_type = pr_type p, res_id = pr_id p, body = b, version = pr_version p,
            created = (case ca of Some cc \<Rightarrow> cc | None \<Rightarrow> c), updated = c, parent_id = pr_parent p,
            extant = True, health = h\<rparr>)"
    using bs(2) by (simp add: r_def)
qed

lemma commit_cursor_wf:
  assumes wf: "wf_store st" and run: "commit_cursor tn st rt ua = (st', c)"
  shows "wf_store st'"
proof -
  note fr = commit_cursor_frame [OF run]
  have "wf_graph st'"
    using wf unfolding wf_store_def wf_graph_def fr(3,8) by (simp add: wf_buckets_def fr(1,2))
  moreover have "wf_order st'"
    using wf unfolding wf_store_def by (simp add: wf_order_def fr(1,4,5))
  moreover have "wf_cursor st'"
    unfolding wf_cursor_def fr(1)
  proof (intro allI impI)
    fix t i r assume "dget (by_type st t) i = Some r"
    then obtain l0 where "last_cursor st t = Some l0" "updated r \<le> l0"
      using wf unfolding wf_store_def wf_cursor_def by blast
    with commit_cursor_mark [OF run] show "\<exists>c. last_cursor st' t = Some c \<and> updated r \<le> c"
      by (cases "t = rt") force+
  qed
  ultimately show ?thesis by (simp add: wf_store_def)
qed

text \<open>The cursor a registration is stamped with, and the record it leaves behind.\<close>

definition stamp :: "TaiCursor \<Rightarrow> RegistryStore \<Rightarrow> ResourceType \<Rightarrow> TaiCursor option \<Rightarrow> TaiCursor" where
  "stamp tn st rt ua = snd (commit_cursor tn st rt ua)"

definition registered ::
  "RegisteredResource option \<Rightarrow> PreparedRegistration \<Rightarrow> Body \<Rightarrow> TaiCursor option \<Rightarrow> TaiCursor \<Rightarrow> int \<Rightarrow> RegisteredResource" where
  "registered prev p b ca c h =
     \<lparr>resource_type = pr_type p, res_id = pr_id p, body = b, version = pr_version p,
      created = (case prev of
                   Some x \<Rightarrow> if extant x then created x else (case ca of Some cc \<Rightarrow> cc | None \<Rightarrow> c)
                 | None \<Rightarrow> (case ca of Some cc \<Rightarrow> cc | None \<Rightarrow> c)),
      updated = c, parent_id = pr_parent p, extant = True, health = h\<rparr>"

lemma prepared_prev:
  assumes "wf_graph st" and "prepared_ok st p"
  shows "dget (by_type st (pr_type p)) (pr_id p) = look st (pr_id p)"
  using assms(2) wf_graphD(1) [OF assms(1)] unfolding prepared_ok_def look_def wf_buckets_def
  by (cases "dget (by_type st (pr_type p)) (pr_id p)") auto

lemma apply_committed_effect:
  assumes wf: "wf_store st" and ok: "prepared_ok st p"
    and run: "apply_committed hn tn st p b ca ua ha = (st', res)"
  shows "wf_store st' \<and>
    look st' = (look st)(pr_id p \<mapsto> registered (look st (pr_id p)) p b ca (stamp tn st (pr_type p) ua)
                                       (case ha of None \<Rightarrow> hn | Some h \<Rightarrow> h)) \<and>
    rr_error res = None \<and>
    rr_created res = (case look st (pr_id p) of Some x \<Rightarrow> \<not> extant x | None \<Rightarrow> True) \<and>
    rr_events res = [case look st (pr_id p) of
        Some x \<Rightarrow> if extant x then ev_modified (body x) (the (look st' (pr_id p))) else ev_added (the (look st' (pr_id p)))
      | None \<Rightarrow> ev_added (the (look st' (pr_id p)))]"
proof -
  let ?h = "case ha of None \<Rightarrow> hn | Some h \<Rightarrow> h"
  obtain s c where sc: "commit_cursor tn st (pr_type p) ua = (s, c)" by fastforce
  note fr = commit_cursor_frame [OF sc]
  have c: "stamp tn st (pr_type p) ua = c" by (simp add: stamp_def sc)
  have wfs: "wf_store s" by (rule commit_cursor_wf [OF wf sc])
  then have g: "wf_graph s" by (simp add: wf_store_def)
  have oks: "prepared_ok s p" using ok unfolding prepared_ok_def fr(2,8) .
  have mark: "\<exists>l. last_cursor s (pr_type p) = Some l \<and> c \<le> l" using commit_cursor_mark [OF sc] by blast
  have prev: "dget (by_type s (pr_type p)) (pr_id p) = look st (pr_id p)"
    using prepared_prev [OF g oks] fr(8) by simp
  show ?thesis
  proof (cases "\<exists>x. look st (pr_id p) = Some x \<and> extant x")
    case True
    then obtain x where x: "look st (pr_id p) = Some x" "extant x" by blast
    have nr: "\<not> reviving p" and par: "parent_id x = pr_parent p" using ok x by (auto simp: prepared_ok_def)
    have upd: "commit_update s p b c ?h x = (st', res)"
      using run prev x(1) nr by (simp add: apply_committed_def sc)
    have px: "dget (by_type s (pr_type p)) (pr_id p) = Some x" using prev x(1) by simp
    note e = commit_update_wf [OF wfs oks nr px mark upd]
    have xid: "resource_type x = pr_type p" "res_id x = pr_id p"
      using wf_bucketsD(1,2) [OF wf_graphD(1) [OF g] px] by simp_all
    have "x\<lparr>body := b, version := pr_version p, updated := c, health := ?h\<rparr> = registered (Some x) p b ca c ?h"
      using xid x(2) par by (cases x) (simp add: registered_def)
    then have lk: "look st' = (look st)(pr_id p \<mapsto> registered (Some x) p b ca c ?h)"
      using e(2) fr(8) by simp
    have "rr_error res = None" "\<not> rr_created res"
      "rr_events res = [ev_modified (body x) (registered (Some x) p b ca c ?h)]"
      using upd xid by (auto simp: commit_update_def Let_def ev_modified_def registered_def)
    then show ?thesis using e(1) lk x c by simp
  next
    case False
    then have fresh: "\<And>x. look s (pr_id p) = Some x \<Longrightarrow> \<not> extant x" using fr(8) by simp
    let ?pre = "case look s (pr_id p) of Some x \<Rightarrow> parent_id x | None \<Rightarrow> None"
    have cre: "commit_create s p b ca c ?h ?pre = (st', res)"
      using run prev oks fr(8) False by (auto simp: apply_committed_def sc prepared_ok_def split: option.splits)
    note e = commit_create_wf [OF wfs oks fresh refl mark cre]
    have reg: "registered (look st (pr_id p)) p b ca c ?h =
        \<lparr>resource_type = pr_type p, res_id = pr_id p, body = b, version = pr_version p,
            created = (case ca of Some cc \<Rightarrow> cc | None \<Rightarrow> c), updated = c, parent_id = pr_parent p,
            extant = True, health = ?h\<rparr>"
      using False by (auto simp: registered_def split: option.splits)
    have res: "rr_error res = None" "rr_created res"
      "rr_events res = [ev_added (registered (look st (pr_id p)) p b ca c ?h)]"
      using cre unfolding reg by (auto simp: commit_create_def Let_def ev_added_def)
    have lk: "look st' = (look st)(pr_id p \<mapsto> registered (look st (pr_id p)) p b ca c ?h)"
      using e(2) fr(8) unfolding reg by simp
    show ?thesis using e(1) res lk False c by (cases "look st (pr_id p)") simp_all
  qed
qed

subsection \<open>Forgetting keeps the invariant\<close>

lemma drop_from_order_frame [simp]:
  "by_type (drop_from_order st rt i) = by_type st" "type_of (drop_from_order st rt i) = type_of st"
  "children (drop_from_order st rt i) = children st" "last_cursor (drop_from_order st rt i) = last_cursor st"
  "order_dirty (drop_from_order st rt i) = order_dirty st"
  "gc_interval (drop_from_order st rt i) = gc_interval st"
  "forget_interval (drop_from_order st rt i) = forget_interval st"
  by (simp_all add: drop_from_order_def set_index_def Let_def)

lemma drop_from_order_index:
  "order_index (drop_from_order st rt i) rt' ord =
     (if rt' = rt then filter (\<lambda>x. x \<noteq> i) (order_index st rt ord) else order_index st rt' ord)"
  by (cases ord) (simp_all add: drop_from_order_def set_index_def Let_def)

lemma forget_record_wf:
  assumes wf: "wf_store st" and r: "look st (res_id r) = Some r" and dead: "\<not> extant r"
  shows "wf_store (forget_record st r)" and "look (forget_record st r) = (look st)(res_id r := None)"
proof -
  let ?i = "res_id r" and ?rt = "resource_type r" and ?st = "forget_record st r"
  have wfs: "wf_graph st" "wf_order st" "wf_cursor st" "wf_buckets st" "wf_tree (look st) (children st)"
    using wf by (simp_all add: wf_store_def wf_graph_def)
  have b: "dget (by_type st ?rt) ?i = Some r" using look_bucket [OF wfs(4)] r by blast
  note ty = wf_bucketsD(3) [OF wfs(4) b]
  have bt: "by_type ?st = (by_type st)(?rt := dpop ?i (by_type st ?rt))"
    and tt: "type_of ?st = (type_of st)(?i := None)"
    and lc: "last_cursor ?st = last_cursor st" and od: "order_dirty ?st = order_dirty st"
    and oi: "\<And>rt' ord. order_index ?st rt' ord =
        (if rt' = ?rt then filter (\<lambda>x. x \<noteq> ?i) (order_index st ?rt ord) else order_index st rt' ord)"
    and ch: "\<And>p. children ?st p = (if p = ?i then {} else children st p) - (if parent_id r = Some p then {?i} else {})"
    using ty by (auto simp: forget_record_def Let_def drop_from_order_index split: option.splits)
  have get: "dget (by_type ?st t) j = (if t = ?rt \<and> j = ?i then None else dget (by_type st t) j)" for t j
    by (simp add: bt)
  have "wf_buckets ?st"
    unfolding wf_buckets_def
  proof (intro conjI allI impI)
    fix t show "wf_dict (by_type ?st t)" using wfs(4) by (simp add: bt wf_buckets_def wf_dict_dpop)
  next
    fix t j x assume "dget (by_type ?st t) j = Some x"
    then have x: "dget (by_type st t) j = Some x" "\<not> (t = ?rt \<and> j = ?i)" by (auto simp: get split: if_splits)
    note d = wf_bucketsD(1-3) [OF wfs(4) x(1)]
    then have "j \<noteq> ?i" using ty x(2) by auto
    then show "resource_type x = t" "res_id x = j" "type_of ?st j = Some t" using d by (simp_all add: tt)
  next
    fix j t assume j: "type_of ?st j = Some t"
    then have "j \<noteq> ?i" "type_of st j = Some t" by (auto simp: tt split: if_splits)
    then show "dget (by_type ?st t) j \<noteq> None" using wfs(4) by (auto simp: get wf_buckets_def)
  qed
  moreover show lk: "look ?st = (look st)(?i := None)"
    by (rule ext) (auto simp: look_def tt get split: option.splits)
  moreover have "wf_tree ((look st)(?i := None)) (children ?st)"
    unfolding wf_tree_def
  proof (intro conjI allI impI)
    fix j x assume "((look st)(?i := None)) j = Some x \<and> extant x"
    then have x: "look st j = Some x" "extant x" by (auto split: if_splits)
    then have "parent_ok (look st) x" by (rule wf_tree_parent [OF wfs(5)])
    then show "parent_ok ((look st)(?i := None)) x"
      using r dead unfolding parent_ok_def
      by (cases "PARENT_TYPE (resource_type x)") (simp_all, metis option.inject)
  next
    fix j x p assume "((look st)(?i := None)) j = Some x \<and> extant x \<and> parent_id x = Some p"
    then have x: "look st j = Some x" "extant x" "parent_id x = Some p" "j \<noteq> ?i" by (auto split: if_splits)
    have "p \<noteq> ?i" using parent_rank [OF wfs(5) x(1-3)] r dead by auto
    then show "j \<in> children ?st p" using wf_tree_listed [OF wfs(5) x(1-3)] x(4) by (simp add: ch)
  next
    fix p c assume "c \<in> children ?st p"
    then have c: "c \<in> children st p" "\<not> (parent_id r = Some p \<and> c = ?i)" by (auto simp: ch split: if_splits)
    then have "c \<noteq> ?i" using wf_tree_child [OF wfs(5) c(1)] r by auto
    then show "\<exists>x. ((look st)(?i := None)) c = Some x \<and> parent_id x = Some p"
      using wf_tree_child [OF wfs(5) c(1)] by simp
  qed
  ultimately have "wf_graph ?st" by (simp add: wf_graph_def)
  moreover have "idx_ok ?st ?rt ord" for ord
  proof -
    have ok: "idx_ok st ?rt ord" using wfs(2) by (simp add: wf_order_idx)
    have eq: "map (index_key (dpop ?i (by_type st ?rt)) ord) (filter (\<lambda>x. x \<noteq> ?i) (order_index st ?rt ord)) =
          map (index_key (by_type st ?rt) ord) (filter (\<lambda>x. x \<noteq> ?i) (order_index st ?rt ord))"
      by (intro map_cong) (auto simp: index_key_def)
    have "sorted (map (index_key (by_type st ?rt) ord) (filter (\<lambda>x. x \<noteq> ?i) (order_index st ?rt ord)))"
      if "\<not> order_dirty st ?rt ord"
      using ok that by (intro sorted_filter) (simp add: idx_ok_def)
    moreover have "set (dkeys (dpop ?i (by_type st ?rt))) = set (dkeys (by_type st ?rt)) - {?i}"
      by (auto simp: dkeys_dpop)
    ultimately show ?thesis
      using ok unfolding idx_ok_def oi bt od fun_upd_same if_P [OF refl] eq by (auto simp del: set_map)
  qed
  then have "wf_order ?st"
    by (intro wf_order_other [OF wfs(2), of ?rt]) (simp_all add: oi bt od)
  moreover have "wf_cursor ?st" using wfs(3) by (auto simp: wf_cursor_def get lc split: if_splits)
  ultimately show "wf_store ?st" by (simp add: wf_store_def)
qed

lemma forget_effect:
  assumes wf: "wf_store st" and run: "forget st rt i = (st', was)"
  shows "wf_store st' \<and> was = (\<exists>r. look st i = Some r \<and> resource_type r = rt \<and> \<not> extant r) \<and>
         look st' = (if was then (look st)(i := None) else look st)"
proof -
  have b: "wf_buckets st" using wf by (simp add: wf_store_def wf_graph_def)
  have g: "dget (by_type st rt) i = (case look st i of Some r \<Rightarrow> if resource_type r = rt then Some r else None | None \<Rightarrow> None)"
    by (rule bucket_eq [OF b])
  show ?thesis
  proof (cases "\<exists>r. look st i = Some r \<and> resource_type r = rt \<and> \<not> extant r")
    case True
    then obtain r where r: "look st i = Some r" "resource_type r = rt" "\<not> extant r" by blast
    have i: "res_id r = i" using look_id [OF b r(1)] .
    have "st' = forget_record st r" "was" using run g r by (simp_all add: forget_def)
    then show ?thesis using forget_record_wf [OF wf] r i True by simp
  next
    case False
    then have "st' = st" "\<not> was" using run g by (auto simp: forget_def split: option.splits if_splits)
    then show ?thesis using wf False by simp
  qed
qed

subsection \<open>Deletion, heartbeats and garbage collection\<close>

lemma recursion_limit_enough: "3 \<le> recursion_limit + k"
  by (simp add: recursion_limit_def)

lemma wf_storeD: "wf_store st \<Longrightarrow> wf_graph st" "wf_store st \<Longrightarrow> wf_buckets st"
  by (simp_all add: wf_store_def wf_graph_def)

lemma erase_subtree_effect:
  assumes wf: "wf_store st" and r: "look st (res_id r) = Some r" "extant r"
  shows "\<exists>rs. walk recursion_limit st r = Inr rs \<and> walked st rs {res_id r} \<and>
    erase_subtree recursion_limit hn st r = Inr (update_all (\<lambda>i. retire (hn i)) st rs, map ev_removed rs) \<and>
    wf_store (update_all (\<lambda>i. retire (hn i)) st rs)"
proof -
  note g = wf_storeD(1) [OF wf]
  obtain rs where rs: "walk recursion_limit st r = Inr rs" "walked st rs {res_id r}"
    using walk_walked(1) [OF g r recursion_limit_enough] by blast
  have "wf_store (update_all (\<lambda>i. retire (hn i)) st rs)"
    using update_all_graph_retire [OF g rs(2)] wf by (simp add: wf_store_def update_all_wf)
  then show ?thesis using rs erase_walk(1) [OF g r recursion_limit_enough rs(1)] by blast
qed

lemma look_retired:
  assumes "wf_store st" and "walked st rs {i}"
  shows "look (update_all (\<lambda>i. retire (hn i)) st rs) j =
           (if desc (look st) j i then map_option (retire (hn j)) (look st j) else look st j)"
  using look_update_walked [OF wf_storeD(1) [OF assms(1)] assms(2)] by simp

lemma heartbeat_effect:
  assumes wf: "wf_store st" and n: "get_resource st NODE i False = Some r"
  shows "\<exists>st'. heartbeat h st i = Inr (st', Some h) \<and> wf_store st' \<and>
    (\<forall>j. look st' j = (if desc (look st) j i then map_option (\<lambda>x. x\<lparr>health := h\<rparr>) (look st j) else look st j))"
proof -
  note g = wf_storeD(1) [OF wf]
  have r: "look st i = Some r" "extant r" using n get_resource_look [OF wf_storeD(2) [OF wf]] by blast+
  have i: "res_id r = i" by (rule look_id [OF wf_storeD(2) [OF wf] r(1)])
  with r have lr: "look st (res_id r) = Some r" by simp
  obtain rs where rs: "walk recursion_limit st r = Inr rs" "walked st rs {i}"
    using walk_walked(1) [OF g lr r(2) recursion_limit_enough] i by blast
  let ?st = "update_all (\<lambda>i r. r\<lparr>health := h\<rparr>) st rs"
  have "heartbeat h st i = Inr (?st, Some h)"
    using n set_health_walk(1) [OF g lr r(2) recursion_limit_enough rs(1)] by (simp add: heartbeat_def)
  moreover have "wf_store ?st"
    using update_all_graph_health [OF g rs(2)] wf by (simp add: wf_store_def update_all_wf)
  ultimately show ?thesis using look_update_walked [OF g rs(2)] by auto
qed

text \<open>
  What a client may see: the kind and body of every extant resource. A list of events
  \<open>follows\<close> such a view when every event's \<open>pre\<close> is what was shown and replacing it by its
  \<open>post\<close>, event after event, ends in the second view.
\<close>

type_synonym shown = "pystr \<rightharpoonup> ResourceType \<times> Body"

definition shown :: "RegistryStore \<Rightarrow> shown" where
  "shown st i = (case look st i of None \<Rightarrow> None
     | Some r \<Rightarrow> if extant r then Some (resource_type r, body r) else None)"

fun follows :: "shown \<Rightarrow> ResourceEvent list \<Rightarrow> shown \<Rightarrow> bool" where
  "follows f [] g \<longleftrightarrow> f = g"
| "follows f (e # es) g \<longleftrightarrow>
     f (ev_id e) = map_option (Pair (ev_type e)) (ev_pre e) \<and>
     follows (f(ev_id e := map_option (Pair (ev_type e)) (ev_post e))) es g"

lemma follows_append: "follows f xs g \<Longrightarrow> follows g ys h \<Longrightarrow> follows f (xs @ ys) h"
  by (induction xs arbitrary: f) auto

lemma follows_removals:
  assumes "distinct (map ev_id evs)"
    and "\<And>e. e \<in> set evs \<Longrightarrow> f (ev_id e) = map_option (Pair (ev_type e)) (ev_pre e) \<and> ev_post e = None"
  shows "follows f evs (\<lambda>j. if j \<in> ev_id ` set evs then None else f j)"
  using assms
proof (induction evs arbitrary: f)
  case (Cons e evs)
  let ?f = "f(ev_id e := None)"
  have "?f (ev_id x) = f (ev_id x)" if "x \<in> set evs" for x
    using Cons.prems(1) that by (metis distinct.simps(2) fun_upd_apply image_eqI list.simps(9) set_map)
  then have "follows ?f evs (\<lambda>j. if j \<in> ev_id ` set evs then None else ?f j)"
    using Cons.prems by (intro Cons.IH) simp_all
  moreover have "(\<lambda>j. if j \<in> ev_id ` set evs then None else ?f j) =
      (\<lambda>j. if j \<in> ev_id ` set (e # evs) then None else f j)" by (simp add: fun_eq_iff)
  ultimately show ?case using Cons.prems(2) [of e] by simp
qed simp

lemma ev_removed_sel [simp]:
  "ev_id (ev_removed r) = res_id r" "ev_type (ev_removed r) = resource_type r"
  "ev_pre (ev_removed r) = Some (body r)" "ev_post (ev_removed r) = None"
  by (simp_all add: ev_removed_def)

lemma erase_follows:
  assumes wf: "wf_store st" and w: "walked st rs {i}" and evs: "set evs = ev_removed ` set rs" "distinct (map ev_id evs)"
  shows "follows (shown st) evs (shown (update_all (\<lambda>i. retire (hn i)) st rs))"
proof -
  have at: "look st (res_id r) = Some r" "desc (look st) (res_id r) i" if "r \<in> set rs" for r
    using w that unfolding walked_def by auto
  have live: "extant r" if "r \<in> set rs" for r using at [OF that] desc_left by fastforce
  have ids: "ev_id ` set evs = {j. desc (look st) j i}"
    using walked_ids [OF wf_storeD(2) [OF wf] w] by (simp add: evs(1) image_image)
  have "(\<lambda>j. if j \<in> ev_id ` set evs then None else shown st j) = shown (update_all (\<lambda>i. retire (hn i)) st rs)"
    unfolding ids by (rule ext) (auto simp: shown_def look_retired [OF wf w] retire_def split: option.split)
  moreover have "follows (shown st) evs (\<lambda>j. if j \<in> ev_id ` set evs then None else shown st j)"
    using at(1) live by (intro follows_removals evs(2)) (auto simp: shown_def evs(1))
  ultimately show ?thesis by simp
qed

text \<open>
  The expiry loop. Retiring one node's subtree leaves every other node as it was, so the
  loop retires exactly the nodes whose health lies below the threshold when it starts.
\<close>

lemma desc_node:
  assumes "wf_tree m ch" and "desc m j i" and "m j = Some r" and "resource_type r = NODE"
  shows "j = i"
  using desc_rank [OF assms(1,2)] assms(3,4) by (simp add: rank_of_def)

definition expired :: "RegistryStore \<Rightarrow> int \<Rightarrow> pystr \<Rightarrow> bool" where
  "expired st before i \<longleftrightarrow> (\<exists>r. look st i = Some r \<and> resource_type r = NODE \<and> extant r \<and> health r < before)"

lemma desc_retired:
  assumes lk: "\<And>j. m' j = (if desc m j i then map_option (retire (hn j)) (m j) else m j)"
    and wf: "wf_tree m ch" and k: "m k = Some r" "resource_type r = NODE" "k \<noteq> i"
    and i: "m i = Some q" "resource_type q = NODE"
  shows "desc m' j k \<longleftrightarrow> desc m j k"
proof
  have live: "m' c = Some s \<Longrightarrow> extant s \<Longrightarrow> m c = Some s" for c s
    unfolding lk by (auto simp: retire_def split: if_splits)
  show "desc m j k" if "desc m' j k"
    using that by (induction rule: desc.induct) (blast intro: live desc.intros)+
  have apart: "m' c = m c" if "desc m c k" for c
    unfolding lk using desc_unique [OF wf _ that, of i] k i by (auto simp: rank_of_def)
  show "desc m' j k" if "desc m j k"
    using that k apart
  proof (induction rule: desc.induct)
    case (self x s)
    have "desc m x x" using self(1,2) by (rule desc.self)
    then show ?case using self desc.self [of m' x s] by simp
  next
    case (step c s p x)
    have "desc m c x" using step(1-4) by (rule desc.step)
    then have "m' c = Some s" using step.prems(4) step(1) by simp
    then show ?case using step desc.step [of m' c s p x] by simp
  qed
qed

lemma expire_nodes_effect:
  assumes "wf_store st" and "distinct ids"
    and "\<And>i. i \<in> set ids \<Longrightarrow> \<exists>r. look st i = Some r \<and> resource_type r = NODE \<and> extant r"
  shows "\<exists>st' evs. expire_nodes hn before st ids = Inr (st', evs) \<and> wf_store st' \<and>
    forget_interval st' = forget_interval st \<and> follows (shown st) evs (shown st') \<and>
    (\<forall>j. look st' j = (if \<exists>i \<in> set ids. expired st before i \<and> desc (look st) j i
                       then map_option (retire (hn j)) (look st j) else look st j))"
  using assms
proof (induction ids arbitrary: st)
  case (Cons i ids)
  note wf = Cons.prems(1)
  obtain r where r: "look st i = Some r" "resource_type r = NODE" "extant r" using Cons.prems(3) [of i] by auto
  have b: "dget (by_type st NODE) i = Some r" using bucket_eq [OF wf_storeD(2) [OF wf], of NODE i] r by simp
  show ?case
  proof (cases "health r < before")
    case False
    then have "\<not> expired st before i" using r by (simp add: expired_def)
    moreover have "expire_nodes hn before st (i # ids) = expire_nodes hn before st ids" using b False by simp
    ultimately show ?thesis using Cons.IH [OF wf] Cons.prems(2,3) by auto
  next
    case True
    have i: "res_id r = i" by (rule look_id [OF wf_storeD(2) [OF wf] r(1)])
    obtain rs where rs: "walked st rs {i}"
        "erase_subtree recursion_limit hn st r = Inr (update_all (\<lambda>i. retire (hn i)) st rs, map ev_removed rs)"
        "wf_store (update_all (\<lambda>i. retire (hn i)) st rs)"
      using erase_subtree_effect [OF wf, of r hn] r i by auto
    let ?s = "update_all (\<lambda>i. retire (hn i)) st rs"
    note lk = look_retired [OF wf rs(1), of hn]
    note tree = wf_graphD(2) [OF wf_storeD(1) [OF wf]]
    have other: "look ?s k = look st k" if k: "k \<in> set ids" for k
    proof -
      obtain s where "look st k = Some s" "resource_type s = NODE" using Cons.prems(3) [of k] k by auto
      then have "\<not> desc (look st) k i" using desc_node [OF tree] Cons.prems(2) k by auto
      then show ?thesis unfolding lk by simp
    qed
    have prem: "\<exists>r. look ?s k = Some r \<and> resource_type r = NODE \<and> extant r" if "k \<in> set ids" for k
      using other [OF that] Cons.prems(3) [of k] that by simp
    obtain st' evs where run: "expire_nodes hn before ?s ids = Inr (st', evs)" "wf_store st'"
        "forget_interval st' = forget_interval ?s" "follows (shown ?s) evs (shown st')"
        "\<forall>j. look st' j = (if \<exists>k \<in> set ids. expired ?s before k \<and> desc (look ?s) j k
                         then map_option (retire (hn j)) (look ?s j) else look ?s j)"
      using Cons.IH [OF rs(3) _ prem] Cons.prems(2) by auto
    have eq: "expired ?s before k \<and> desc (look ?s) j k \<longleftrightarrow> expired st before k \<and> desc (look st) j k"
      if k: "k \<in> set ids" for k j
    proof -
      obtain s where s: "look st k = Some s" "resource_type s = NODE" using Cons.prems(3) [of k] k by auto
      have "k \<noteq> i" using Cons.prems(2) k by auto
      then have "desc (look ?s) j k = desc (look st) j k"
        using desc_retired [OF lk tree s(1,2) _ r(1,2)] by simp
      then show ?thesis using other [OF k] by (simp add: expired_def)
    qed
    have "expired st before i" using True r by (simp add: expired_def)
    then have "look st' j = (if \<exists>k \<in> set (i # ids). expired st before k \<and> desc (look st) j k
                       then map_option (retire (hn j)) (look st j) else look st j)" for j
      using run(5) eq unfolding lk by (cases "look st j") (auto simp: retire_def)
    moreover have "follows (shown st) (map ev_removed rs @ evs) (shown st')"
      using rs(1) by (intro follows_append [OF erase_follows [OF wf rs(1)] run(4)]) (auto simp: walked_def comp_def)
    ultimately show ?thesis using run(1-3) rs(2) b True by simp
  qed
qed simp

lemma forget_frame: "forget_interval (forget_record st r) = forget_interval st"
  by (simp add: forget_record_def Let_def split: option.splits)

lemma forget_all_effect:
  assumes "wf_store st"
  shows "wf_store (forget_all st vs) \<and>
    (\<forall>i. look (forget_all st vs) i =
      (if \<exists>r. look st i = Some r \<and> \<not> extant r \<and> (resource_type r, i) \<in> set vs then None else look st i))"
  using assms
proof (induction st vs rule: forget_all.induct)
  case (2 st rt i vs)
  obtain st' was where run: "forget st rt i = (st', was)" by fastforce
  note e = forget_effect [OF "2.prems" run]
  show ?case using "2.IH" e run by (auto split: if_splits)
qed simp

end
