(* ===== verification/Store_Properties.thy ===== *)
theory Store_Properties
  imports Store_Invariant "HOL-Library.Multiset"
begin

section \<open>What the store promises\<close>

text \<open>
  The properties of the store as its callers rely on them, each over the operations of
  \<open>Registry_Store\<close>, with a concrete registry (a node, a device and two resources of it) on
  which the hypotheses hold.
\<close>

subsection \<open>Ordered iteration\<close>

lemma map_filter_total:
  "(\<And>x. x \<in> set xs \<Longrightarrow> f x \<noteq> None) \<Longrightarrow> List.map_filter f xs = map (\<lambda>x. the (f x)) xs"
  by (induction xs) (fastforce simp: List.map_filter_simps)+

lemma iter_ordered_index:
  assumes wf: "wf_store st" and run: "iter_ordered st rt ord = (st', rs)"
  shows "by_type st' = by_type st" "type_of st' = type_of st" "children st' = children st"
    "last_cursor st' = last_cursor st" "wf_order st'" "\<not> order_dirty st' rt ord"
    "rs = filter extant (List.map_filter (dget (by_type st rt)) (order_index st' rt ord))"
proof -
  let ?b = "by_type st rt"
  let ?xs = "sort_key (index_key ?b ord) (filter (\<lambda>i. dget ?b i \<noteq> None) (order_index st rt ord))"
  have ok: "idx_ok st rt ord" using wf by (simp add: wf_store_def wf_order_idx)
  have st': "st' = (if order_dirty st rt ord then set_dirty (set_index st rt ord ?xs) rt ord False else st)"
    using run by (auto simp: iter_ordered_def Let_def)
  show "by_type st' = by_type st" "type_of st' = type_of st" "children st' = children st"
    "last_cursor st' = last_cursor st" "\<not> order_dirty st' rt ord"
    by (simp_all add: st' set_dirty_def set_index_def)
  show "rs = filter extant (List.map_filter (dget (by_type st rt)) (order_index st' rt ord))"
    using run by (auto simp: iter_ordered_def Let_def)
  have "dget ?b i \<noteq> None" if "i \<in> set (order_index st rt ord)" for i
    using ok that dget_None_keys [of ?b i] by (simp add: idx_ok_def)
  then have keep: "filter (\<lambda>i. dget ?b i \<noteq> None) (order_index st rt ord) = order_index st rt ord"
    by (simp add: filter_id_conv)
  have "idx_ok (set_dirty (set_index st rt ord ?xs) rt ord False) rt ord"
    using ok unfolding keep by (simp add: idx_ok_def set_dirty_def set_index_def)
  moreover have "idx_ok st' rt' ord' = idx_ok st rt' ord'" if "(rt', ord') \<noteq> (rt, ord)" for rt' ord'
    using that by (auto simp: st' idx_ok_def set_dirty_def set_index_def)
  moreover have all: "idx_ok st rt' ord'" for rt' ord' using wf by (simp add: wf_store_def wf_order_idx)
  ultimately have "idx_ok st' rt' ord'" for rt' ord'
    by (cases "(rt', ord') = (rt, ord)") (auto simp: st')
  then show "wf_order st'" by (simp add: wf_order_idx)
qed

lemma iter_ordered_sorted:
  assumes wf: "wf_store st" and run: "iter_ordered st rt ord = (st', rs)"
  shows "rs = sort_key (\<lambda>r. (cursor_of r ord, res_id r)) (iter_extant st rt)"
proof -
  let ?b = "by_type st rt" and ?k = "\<lambda>r. (cursor_of r ord, res_id r)"
  let ?idx = "order_index st' rt ord"
  note i = iter_ordered_index [OF wf run]
  note b = wf_storeD(2) [OF wf]
  have ok: "idx_ok st' rt ord" using i(5) by (simp add: wf_order_idx)
  have dict: "wf_dict ?b" using b by (simp add: wf_buckets_def)
  have get: "\<exists>r. dget ?b j = Some r \<and> res_id r = j" if "j \<in> set ?idx" for j
  proof -
    have "j \<in> set (dkeys ?b)" using that ok i(1) by (simp add: idx_ok_def)
    then show ?thesis using dget_None_keys [of ?b j] wf_bucketsD(2) [OF b, of rt j] by force
  qed
  define all where "all = map (\<lambda>j. the (dget ?b j)) ?idx"
  have rs: "rs = filter extant all"
    unfolding i(7) all_def using get by (subst map_filter_total) auto
  have keys: "map ?k all = map (index_key ?b ord) ?idx"
    unfolding all_def map_map using get by (intro map_cong) (fastforce simp: index_key_def)+
  have "sorted (map (index_key ?b ord) ?idx)" using ok i(1,6) by (simp add: idx_ok_def)
  then have srt: "sorted (map ?k rs)" unfolding rs by (intro sorted_filter) (simp add: keys)
  have "map res_id all = ?idx"
    unfolding all_def map_map using get by (intro map_idI) force
  moreover have "distinct ?idx" using ok by (simp add: idx_ok_def)
  ultimately have ids: "distinct (map res_id all)" by simp
  then have dist: "distinct rs" unfolding rs by (simp add: distinct_map)
  have inj: "inj_on res_id (set (map snd ?b))"
    using dget_in_set [OF dict] wf_bucketsD(2) [OF b] by (auto simp: inj_on_def)
  have "map res_id (map snd ?b) = dkeys ?b"
    using dget_in_set [OF dict] wf_bucketsD(2) [OF b] by auto
  then have "distinct (map res_id (map snd ?b))" using dict unfolding wf_dict_def by metis
  then have dist': "distinct (iter_extant st rt)"
    unfolding iter_extant_def using distinct_map [of res_id "map snd ?b"] by simp
  have "set all = set (map snd ?b)"
  proof -
    have "set ?idx = set (dkeys ?b)" using ok i(1) by (simp add: idx_ok_def)
    then show ?thesis unfolding all_def set_map
      using dget_in_set [OF dict] by (auto simp: image_iff) (metis dget_in_set dict fst_conv option.sel snd_conv)+
  qed
  then have "set rs = set (iter_extant st rt)" by (simp add: rs iter_extant_def)
  then have "mset (iter_extant st rt) = mset rs"
    using dist dist' by (simp add: set_eq_iff_mset_eq_distinct)
  moreover have "inj_on ?k (set (iter_extant st rt))"
    using inj by (auto simp: inj_on_def iter_extant_def)
  ultimately show ?thesis using srt by (intro sort_key_inj_key_eq [symmetric])
qed

subsection \<open>Reachable stores\<close>

lemma iter_ordered_wf:
  assumes "wf_store st" and "iter_ordered st rt ord = (st', rs)"
  shows "wf_store st' \<and> look st' = look st"
proof -
  note i = iter_ordered_index [OF assms]
  have look: "look st' = look st" by (rule ext) (simp only: look_def i)
  have "wf_buckets st'" using wf_storeD(2) [OF assms(1)] by (simp add: wf_buckets_def i)
  moreover have "wf_cursor st'" using assms(1) by (simp add: wf_store_def wf_cursor_def i)
  ultimately show ?thesis using assms(1) look i(3,5) by (simp add: wf_store_def wf_graph_def)
qed

lemma failure_error [simp]: "rr_error (failure e) = Some e"
  by (simp add: failure_def)

lemma check_parent_failure: "check_parent st rt parent = Some r \<Longrightarrow> rr_error r \<noteq> None"
  by (auto simp: check_parent_def Let_def split: option.split_asm if_split_asm)

lemma check_update_failure: "check_update p ver parent = Inr (Some r) \<Longrightarrow> rr_error r \<noteq> None"
  unfolding check_update_def bind_res_eq_Inr
  by (elim exE conjE) (auto split: option.split_asm if_split_asm)

lemma prepare_failure:
  assumes "prepare st rt raw = Inr (Inl r)"
  shows "rr_error r \<noteq> None"
  using assms unfolding prepare_def Let_def
  by (auto simp: bind_res_eq_Inr split: option.split_asm json.split_asm if_split_asm
      dest!: check_parent_failure check_update_failure)

lemma forgettable_iff:
  "(rt, i) \<in> set (forgettable s now) \<longleftrightarrow>
     (\<exists>t j x. (j, x) \<in> set (by_type s t) \<and> resource_type x = rt \<and> res_id x = i \<and> \<not> extant x \<and>
        health x < now - trunc (forget_interval s))"
  by (auto simp: forgettable_def Let_def image_iff) (use resource_types_complete in force)+

lemma insert_or_update_effect:
  assumes wf: "wf_store st" and run: "insert_or_update loads hn tn st rt b = Inr (st', res)"
  shows "(\<exists>p raw. body_data loads b = Inr raw \<and> prepare st rt raw = Inr (Inr p) \<and>
            apply_committed hn tn st p b None None None = (st', res)) \<or>
         (st' = st \<and> rr_error res \<noteq> None)"
proof -
  obtain raw r where r: "body_data loads b = Inr raw" "prepare st rt raw = Inr r"
      "(case r of Inl failed \<Rightarrow> Inr (st, failed) | Inr p \<Rightarrow> Inr (apply_committed hn tn st p b None None None)) =
       (Inr (st', res) :: (RegistryStore \<times> RegistrationResult) res)"
    using run by (auto simp: insert_or_update_def bind_res_eq_Inr)
  with prepare_failure show ?thesis by (cases r) fastforce+
qed

lemma registration_wf:
  assumes wf: "wf_store st" and run: "insert_or_update loads hn tn st rt b = Inr (st', res)"
  shows "wf_store st'"
  using insert_or_update_effect [OF assms] apply_committed_effect [OF wf]
    prepare_prepared_ok [OF wf_storeD(1) [OF wf]] wf by blast

lemma delete_wf:
  assumes wf: "wf_store st" and run: "delete_resource hn st rt i = Inr (st', evs)"
  shows "wf_store st'"
proof (cases "get_resource st rt i False")
  case (Some r)
  then have r: "look st i = Some r" "extant r" using get_resource_look [OF wf_storeD(2) [OF wf]] by blast+
  then have "look st (res_id r) = Some r" using look_id [OF wf_storeD(2) [OF wf] r(1)] by simp
  then show ?thesis using erase_subtree_effect [OF wf _ r(2), of hn] run Some by (auto simp: delete_resource_def)
qed (use assms in \<open>simp add: delete_resource_def\<close>)

lemma collect_garbage_effect:
  assumes wf: "wf_store st"
  shows "\<exists>st' evs. collect_garbage hn now st = Inr (st', evs) \<and> wf_store st' \<and> follows (shown st) evs (shown st') \<and>
    (\<forall>j. look st' j =
      (case look st j of
         None \<Rightarrow> None
       | Some r \<Rightarrow>
           (let r' = (if \<exists>i. expired st (now - trunc (gc_interval st)) i \<and> desc (look st) j i
                      then retire (hn j) r else r)
            in if \<not> extant r' \<and> health r' < now - trunc (forget_interval st) then None else Some r')))"
proof -
  let ?e = "now - trunc (gc_interval st)" and ?f = "now - trunc (forget_interval st)"
  let ?ids = "map res_id (iter_extant st NODE)"
  note b = wf_storeD(2) [OF wf]
  have dict: "wf_dict (by_type st NODE)" using b by (simp add: wf_buckets_def)
  have node: "i \<in> set ?ids \<longleftrightarrow> (\<exists>r. look st i = Some r \<and> resource_type r = NODE \<and> extant r)" for i
  proof -
    have "i \<in> set ?ids \<longleftrightarrow> (\<exists>r. dget (by_type st NODE) i = Some r \<and> extant r)"
      using dget_in_set [OF dict] wf_bucketsD(2) [OF b, of NODE]
      by (auto simp: iter_extant_def image_iff) (metis dget_in_set dict snd_conv)+
    then show ?thesis using bucket_eq [OF b, of NODE i] by (auto split: option.splits if_splits)
  qed
  have "map res_id (map snd (by_type st NODE)) = dkeys (by_type st NODE)"
    using dget_in_set [OF dict] wf_bucketsD(2) [OF b] by auto
  then have "distinct (map res_id (map snd (by_type st NODE)))" using dict unfolding wf_dict_def by metis
  then have dist: "distinct ?ids" unfolding iter_extant_def by (rule distinct_map_filter)
  obtain s evs where s: "expire_nodes hn ?e st ?ids = Inr (s, evs)" "wf_store s"
      "forget_interval s = forget_interval st" "follows (shown st) evs (shown s)"
      "\<forall>j. look s j = (if \<exists>i \<in> set ?ids. expired st ?e i \<and> desc (look st) j i
                       then map_option (retire (hn j)) (look st j) else look st j)"
    using expire_nodes_effect [OF wf dist, of hn ?e] node by blast
  have ex: "(\<exists>i \<in> set ?ids. expired st ?e i \<and> desc (look st) j i) \<longleftrightarrow>
            (\<exists>i. expired st ?e i \<and> desc (look st) j i)" for j
    using node unfolding expired_def by blast
  have victims: "(resource_type r, i) \<in> set (forgettable s now) \<longleftrightarrow> health r < ?f"
    if "look s i = Some r" "\<not> extant r" for r i
  proof -
    note bs = wf_storeD(2) [OF s(2)]
    have d: "wf_dict (by_type s t)" for t using bs by (simp add: wf_buckets_def)
    have "dget (by_type s (resource_type r)) i = Some r" using look_bucket [OF bs] that(1) by blast
    moreover have "res_id r = i" by (rule look_id [OF bs that(1)])
    moreover have "x = r" if "(j, x) \<in> set (by_type s t)" "resource_type x = resource_type r" "res_id x = i" for j x t
      using that dget_in_set [OF d] wf_bucketsD(1,2) [OF bs] calculation(1) by (metis option.inject)
    ultimately show ?thesis
      using that(2) dget_in_set [OF d] unfolding forgettable_iff s(3) by metis
  qed
  let ?st = "forget_all s (forgettable s now)"
  note fa = forget_all_effect [OF s(2), of "forgettable s now"]
  have "look ?st j = (case look st j of None \<Rightarrow> None
       | Some r \<Rightarrow>
           (let r' = (if \<exists>i. expired st ?e i \<and> desc (look st) j i then retire (hn j) r else r)
            in if \<not> extant r' \<and> health r' < ?f then None else Some r'))" for j
  proof -
    define D where "D \<longleftrightarrow> (\<exists>i. expired st ?e i \<and> desc (look st) j i)"
    have lj: "look s j = (if D then map_option (retire (hn j)) (look st j) else look st j)"
      using s(5) ex unfolding D_def by simp
    have "look ?st j = (case look s j of None \<Rightarrow> None
        | Some r' \<Rightarrow> if \<not> extant r' \<and> health r' < ?f then None else Some r')"
      using fa victims [of j] by (cases "look s j") auto
    then show ?thesis unfolding lj D_def [symmetric]
      by (cases D; cases "look st j") (simp_all add: Let_def)
  qed
  moreover have "collect_garbage hn now st = Inr (?st, evs)" using s(1) by (simp add: collect_garbage_def)
  moreover have "shown ?st = shown s"
    using fa by (auto simp: shown_def fun_eq_iff split: option.splits)
  ultimately show ?thesis using fa s(4) by auto
qed

subsection \<open>A small registry\<close>

text \<open>Four registrations: a node, its device, and a sender and a flow of the device.\<close>

definition no_loads :: "pystr \<Rightarrow> (pystr, json) pydict res" where
  "no_loads t = Inl ValueError"

definition sample_prepared :: "ResourceType \<Rightarrow> pystr \<Rightarrow> pystr option \<Rightarrow> PreparedRegistration" where
  "sample_prepared rt i parent =
     \<lparr>pr_type = rt, pr_id = i, pr_version = [49, 58, 48], pr_parent = parent, creates = True, reviving = False\<rparr>"

definition sample_body :: "pystr \<Rightarrow> Body" where
  "sample_body i = \<lparr>body_text = i, parsed = None\<rparr>"

definition sample_record :: "ResourceType \<Rightarrow> pystr \<Rightarrow> pystr option \<Rightarrow> int \<Rightarrow> RegisteredResource" where
  "sample_record rt i parent t =
     \<lparr>resource_type = rt, res_id = i, body = sample_body i, version = [49, 58, 48],
      created = TaiCursor t 0, updated = TaiCursor t 0, parent_id = parent, extant = True, health = t\<rparr>"

definition sample_add :: "RegistryStore \<Rightarrow> ResourceType \<Rightarrow> pystr \<Rightarrow> pystr option \<Rightarrow> int \<Rightarrow> RegistryStore" where
  "sample_add st rt i parent t =
     fst (apply_committed 0 cursor_min st (sample_prepared rt i parent) (sample_body i)
            None (Some (TaiCursor t 0)) (Some t))"

definition sample_store :: RegistryStore where
  "sample_store =
     sample_add (sample_add (sample_add (sample_add (new_store 12 60)
       NODE [1] None 10) DEVICE [2] (Some [1]) 11) SENDER [3] (Some [2]) 12) FLOW [4] (Some [2]) 13"

lemma type_of_look:
  assumes "wf_buckets st" shows "type_of st i = map_option resource_type (look st i)"
proof (cases "type_of st i")
  case (Some rt)
  then obtain r where r: "dget (by_type st rt) i = Some r"
    using assms unfolding wf_buckets_def by blast
  with Some show ?thesis using wf_bucketsD(1,4) [OF assms r] by simp
qed (simp add: look_def)

lemma sample_add_effect:
  assumes wf: "wf_store st" and fresh: "look st i = None"
    and parent: "case PARENT_TYPE rt of None \<Rightarrow> parent = None
      | Some pt \<Rightarrow> \<exists>pp q. parent = Some pp \<and> look st pp = Some q \<and> extant q \<and> resource_type q = pt"
  shows "wf_store (sample_add st rt i parent t)"
    "look (sample_add st rt i parent t) = (look st)(i \<mapsto> sample_record rt i parent t)"
proof -
  have ok: "prepared_ok st (sample_prepared rt i parent)"
    using parent fresh type_of_look [OF wf_storeD(2) [OF wf], of i]
    by (simp add: prepared_ok_def sample_prepared_def split: option.splits)
  obtain st' res where run: "apply_committed 0 cursor_min st (sample_prepared rt i parent) (sample_body i)
      None (Some (TaiCursor t 0)) (Some t) = (st', res)" by fastforce
  then have st': "sample_add st rt i parent t = st'" by (simp add: sample_add_def)
  note e = apply_committed_effect [OF wf ok run]
  show "wf_store (sample_add st rt i parent t)" using e st' by simp
  show "look (sample_add st rt i parent t) = (look st)(i \<mapsto> sample_record rt i parent t)"
    using e st' fresh
    by (simp add: sample_prepared_def registered_def sample_record_def stamp_def commit_cursor_def)
qed

lemma look_new_store: "look (new_store gc fi) = Map.empty"
  by (rule ext) (simp add: look_def new_store_def)

lemma sample_look:
  "wf_store sample_store"
  "look sample_store = [[1] \<mapsto> sample_record NODE [1] None 10, [2] \<mapsto> sample_record DEVICE [2] (Some [1]) 11,
     [3] \<mapsto> sample_record SENDER [3] (Some [2]) 12, [4] \<mapsto> sample_record FLOW [4] (Some [2]) 13]"
  unfolding sample_store_def
  by (simp_all add: sample_add_effect wf_new_store look_new_store sample_record_def)

lemma sample_get:
  "get_resource sample_store NODE [1] False = Some (sample_record NODE [1] None 10)"
  "get_resource sample_store DEVICE [2] False = Some (sample_record DEVICE [2] (Some [1]) 11)"
  using get_resource_look [OF wf_storeD(2) [OF sample_look(1)]] sample_look(2)
  by (simp_all add: sample_record_def)

lemma sample_desc: "desc (look sample_store) [4] [1]" "desc (look sample_store) [3] [2]"
proof -
  have n: "desc (look sample_store) [1] [1]"
    by (rule desc.self [where r = "sample_record NODE [1] None 10"]) (simp_all add: sample_look sample_record_def)
  have d: "desc (look sample_store) [2] [2]"
    by (rule desc.self [where r = "sample_record DEVICE [2] (Some [1]) 11"]) (simp_all add: sample_look sample_record_def)
  have dn: "desc (look sample_store) [2] [1]"
    by (rule desc.step [OF _ _ _ n, where r = "sample_record DEVICE [2] (Some [1]) 11"])
       (simp_all add: sample_look sample_record_def)
  show "desc (look sample_store) [4] [1]"
    by (rule desc.step [OF _ _ _ dn, where r = "sample_record FLOW [4] (Some [2]) 13"])
       (simp_all add: sample_look sample_record_def)
  show "desc (look sample_store) [3] [2]"
    by (rule desc.step [OF _ _ _ d, where r = "sample_record SENDER [3] (Some [2]) 12"])
       (simp_all add: sample_look sample_record_def)
qed

subsection \<open>Properties\<close>

lemma stamp_fresh:
  assumes wf: "wf_store st" and x: "look st j = Some x" "resource_type x = rt"
  shows "updated x < stamp tn st rt None"
proof -
  have "dget (by_type st rt) j = Some x" using look_bucket [OF wf_storeD(2) [OF wf]] x by blast
  then obtain l where l: "last_cursor st rt = Some l" "updated x \<le> l"
    using wf unfolding wf_store_def wf_cursor_def by blast
  have "l < stamp tn st rt None"
    using l(1) cursor_next_greater [of l]
    by (auto simp: stamp_def commit_cursor_def next_cursor_def Let_def not_le)
  with l(2) show ?thesis by (rule le_less_trans)
qed

text \<open>
  C30: the outcome of a registration. A \<open>POST\<close> that the store answers keeps the store's
  invariant. When it is refused nothing changes. When it is accepted exactly one record
  changes: it is live, carries the body verbatim, hangs below a live parent of the type the
  specification asks for, and its update cursor is strictly above every update cursor its
  type has ever shown; an update keeps the creation cursor, and "created" is answered
  exactly when no live record had the id.
\<close>

theorem registration_outcome:
  assumes wf: "wf_store st" and run: "insert_or_update loads hn tn st rt b = Inr (st', res)"
  shows "wf_store st' \<and> (rr_error res \<noteq> None \<longrightarrow> st' = st) \<and>
    (rr_error res = None \<longrightarrow>
      (\<exists>i r. look st' = (look st)(i \<mapsto> r) \<and> extant r \<and> res_id r = i \<and> resource_type r = rt \<and> body r = b \<and>
         parent_ok (look st') r \<and>
         (\<forall>j x. look st j = Some x \<and> resource_type x = rt \<longrightarrow> updated x < updated r) \<and>
         rr_created res = (\<not> (\<exists>x. look st i = Some x \<and> extant x)) \<and>
         (\<forall>x. look st i = Some x \<and> extant x \<longrightarrow> created r = created x \<and> parent_id r = parent_id x)))"
proof -
  have wf': "wf_store st'" by (rule registration_wf [OF assms])
  consider "st' = st" "rr_error res \<noteq> None"
    | p raw where "prepare st rt raw = Inr (Inr p)" "apply_committed hn tn st p b None None None = (st', res)"
    using insert_or_update_effect [OF assms] by blast
  then show ?thesis
  proof cases
    case 1
    then show ?thesis using wf by auto
  next
    case 2
    have ok: "prepared_ok st p" by (rule prepare_prepared_ok [OF wf_storeD(1) [OF wf] 2(1)])
    have rt: "pr_type p = rt" using prepare_cases [OF 2(1)] by blast
    note e = apply_committed_effect [OF wf ok 2(2)]
    let ?r = "registered (look st (pr_id p)) p b None (stamp tn st rt None) hn"
    have lk: "look st' = (look st)(pr_id p \<mapsto> ?r)" using e rt by simp
    have r: "extant ?r" "res_id ?r = pr_id p" "resource_type ?r = rt" "body ?r = b"
      "updated ?r = stamp tn st rt None" by (simp_all add: registered_def rt)
    have "parent_ok (look st') ?r"
      using wf_tree_parent [OF wf_graphD(2) [OF wf_storeD(1) [OF wf']], of "pr_id p" ?r] lk r(1) by simp
    moreover have "created ?r = created x \<and> parent_id ?r = parent_id x"
      if "look st (pr_id p) = Some x \<and> extant x" for x
      using that ok by (simp add: registered_def prepared_ok_def)
    ultimately show ?thesis
      using wf' e lk r stamp_fresh [OF wf, of _ _ rt tn]
      by (intro conjI impI exI [of _ "pr_id p"] exI [of _ ?r]) (auto split: option.splits)
  qed
qed

theorem registration_outcome_witness:
  "\<exists>st' res. insert_or_update no_loads 7 (TaiCursor 5 0) sample_store NODE
      \<lparr>body_text = [], parsed = Some [(str ''id'', JStr [9]), (str ''version'', JStr [])]\<rparr> = Inr (st', res) \<and>
     rr_error res = None \<and> rr_created res \<and> wf_store st'"
proof -
  let ?b = "\<lparr>body_text = [], parsed = Some [(str ''id'', JStr [9]), (str ''version'', JStr [])]\<rparr>"
  let ?p = "\<lparr>pr_type = NODE, pr_id = [9], pr_version = [], pr_parent = None, creates = True, reviving = False\<rparr>"
  have none: "type_of sample_store [9] = None" "dget (by_type sample_store NODE) [9] = None"
    using type_of_look [OF wf_storeD(2) [OF sample_look(1)], of "[9]"]
      bucket_eq [OF wf_storeD(2) [OF sample_look(1)], of NODE "[9]"] by (simp_all add: sample_look(2))
  obtain st' res where app: "apply_committed 7 (TaiCursor 5 0) sample_store ?p ?b None None None = (st', res)"
    by fastforce
  have run: "insert_or_update no_loads 7 (TaiCursor 5 0) sample_store NODE ?b = Inr (st', res)"
    using none app by (simp add: insert_or_update_def body_data_def prepare_def check_parent_def parent_id_of_def str_def)
  have "prepared_ok sample_store ?p" using none(1) by (simp add: prepared_ok_def sample_look(2))
  then have "rr_error res = None" "rr_created res"
    using apply_committed_effect [OF sample_look(1) _ app] by (simp_all add: sample_look(2))
  with run registration_outcome [OF sample_look(1) run] show ?thesis by blast
qed

text \<open>
  C31: what is accepted. A registration is prepared exactly when it names a non-empty id and
  a version, the id is not held by a record of another type, its parent is live and of the
  required type, and, if a live record has the id, its version parses and does not go
  backwards and its parent is unchanged.
\<close>

theorem prepare_accepts_iff:
  assumes wf: "wf_store st"
  shows "(\<exists>p. prepare st rt raw = Inr (Inr p)) \<longleftrightarrow>
    (\<exists>i ver. dget raw (str ''id'') = Some (JStr i) \<and> i \<noteq> [] \<and> dget raw (str ''version'') = Some (JStr ver) \<and>
       (\<forall>x. look st i = Some x \<longrightarrow> resource_type x = rt) \<and>
       (case PARENT_TYPE rt of None \<Rightarrow> True
        | Some pt \<Rightarrow> \<exists>pp q. parent_id_of rt raw = Some pp \<and> look st pp = Some q \<and> extant q \<and> resource_type q = pt) \<and>
       (\<forall>x. look st i = Some x \<and> extant x \<longrightarrow>
          (\<exists>nc oc. cursor_parse ver = Inr (Some nc) \<and> version_cursor x = Inr oc \<and>
             (\<forall>c. oc = Some c \<longrightarrow> c \<le> nc)) \<and> parent_id x = parent_id_of rt raw))"
  (is "?L \<longleftrightarrow> ?R")
proof -
  note b = wf_storeD(2) [OF wf]
  have par: "check_parent st rt (parent_id_of rt raw) = None \<longleftrightarrow>
      (case PARENT_TYPE rt of None \<Rightarrow> True
        | Some pt \<Rightarrow> \<exists>pp q. parent_id_of rt raw = Some pp \<and> look st pp = Some q \<and> extant q \<and> resource_type q = pt)"
    by (rule check_parent_None [OF b])
  have ty: "type_of st i \<in> {None, Some rt} \<longleftrightarrow> (\<forall>x. look st i = Some x \<longrightarrow> resource_type x = rt)" for i
    using type_of_look [OF b, of i] by (cases "look st i") auto
  have prev: "dget (by_type st rt) i = look st i" if "\<forall>x. look st i = Some x \<longrightarrow> resource_type x = rt" for i
    using bucket_eq [OF b, of rt i] that by (auto split: option.splits)
  have same: "parent_id x = None \<longrightarrow> parent_id_of rt raw = None" if "look st i = Some x" "extant x" "resource_type x = rt" for i x
    using wf_tree_parent [OF wf_graphD(2) [OF wf_storeD(1) [OF wf]] that(1,2)] that(3) PARENT_KEY_None_iff [of rt]
    by (auto simp: parent_ok_def parent_id_of_def split: option.splits)
  have upd: "check_update x ver par = Inr None \<longleftrightarrow>
      (\<exists>nc oc. cursor_parse ver = Inr (Some nc) \<and> version_cursor x = Inr oc \<and> (\<forall>c. oc = Some c \<longrightarrow> c \<le> nc)) \<and>
      (parent_id x = None \<or> par = parent_id x)" for x ver par
    by (cases "cursor_parse ver"; cases "version_cursor x")
       (auto simp: check_update_def not_le split: option.splits if_splits)
  show ?thesis
  proof
    assume ?L
    then obtain p where p: "prepare st rt raw = Inr (Inr p)" by blast
    obtain ver where c: "dget raw (str ''version'') = Some (JStr ver)" "dget raw (str ''id'') = Some (JStr (pr_id p))"
        "pr_id p \<noteq> []" "pr_parent p = parent_id_of rt raw" "type_of st (pr_id p) \<in> {None, Some rt}"
        "check_parent st rt (pr_parent p) = None"
        "case dget (by_type st rt) (pr_id p) of None \<Rightarrow> True
         | Some x \<Rightarrow> extant x \<longrightarrow> check_update x ver (pr_parent p) = Inr None"
      using prepare_cases [OF p] by (auto split: option.splits)
    have t: "\<forall>x. look st (pr_id p) = Some x \<longrightarrow> resource_type x = rt" using c(5) ty by blast
    have live: "(\<exists>nc oc. cursor_parse ver = Inr (Some nc) \<and> version_cursor x = Inr oc \<and>
         (\<forall>c. oc = Some c \<longrightarrow> c \<le> nc)) \<and> parent_id x = parent_id_of rt raw"
      if x: "look st (pr_id p) = Some x \<and> extant x" for x
    proof -
      have "check_update x ver (parent_id_of rt raw) = Inr None" using c(4,7) prev [OF t] x by simp
      then show ?thesis using upd same [of "pr_id p" x] x t by metis
    qed
    have "check_parent st rt (parent_id_of rt raw) = None" using c(4,6) by simp
    with c(1-3) t live show ?R unfolding par by blast
  next
    assume ?R
    then obtain i ver where c: "dget raw (str ''id'') = Some (JStr i)" "i \<noteq> []" "dget raw (str ''version'') = Some (JStr ver)"
        "\<forall>x. look st i = Some x \<longrightarrow> resource_type x = rt"
        and pc: "case PARENT_TYPE rt of None \<Rightarrow> True
        | Some pt \<Rightarrow> \<exists>pp q. parent_id_of rt raw = Some pp \<and> look st pp = Some q \<and> extant q \<and> resource_type q = pt"
        and live: "\<forall>x. look st i = Some x \<and> extant x \<longrightarrow>
          (\<exists>nc oc. cursor_parse ver = Inr (Some nc) \<and> version_cursor x = Inr oc \<and>
             (\<forall>c. oc = Some c \<longrightarrow> c \<le> nc)) \<and> parent_id x = parent_id_of rt raw"
      by (elim exE conjE) (rule that)
    have "check_parent st rt (parent_id_of rt raw) = None" using par pc by blast
    moreover have "\<forall>x. look st i = Some x \<and> extant x \<longrightarrow> check_update x ver (parent_id_of rt raw) = Inr None"
      using live upd by metis
    moreover note c
    ultimately show ?L
      using ty prev [OF c(4)] by (auto simp: prepare_def Let_def split: option.splits)
  qed
qed

theorem prepare_accepts_iff_witness:
  "(\<exists>p. prepare sample_store SENDER [(str ''id'', JStr [9]), (str ''version'', JStr []),
          (str ''device_id'', JStr [2])] = Inr (Inr p)) \<and>
   \<not> (\<exists>p. prepare sample_store SENDER [(str ''id'', JStr [9]), (str ''version'', JStr []),
          (str ''device_id'', JStr [1])] = Inr (Inr p))"
  using prepare_accepts_iff [OF sample_look(1), of SENDER]
  by (simp add: sample_look(2) parent_id_of_def sample_record_def)

text \<open>
  C32: the cascade. Deleting a live resource never exceeds the recursion limit. The records
  it retires are exactly the live resource and its live descendants, the ones \<open>subtree\<close>
  lists beforehand; everything else is untouched and the store keeps its invariant. There is
  one removal event per retired record and no child's event comes after its parent's.
\<close>

theorem delete_cascades:
  assumes wf: "wf_store st" and r: "get_resource st rt i False = Some r"
  shows "\<exists>st' rs. subtree st rt i = Inr rs \<and>
    delete_resource hn st rt i = Inr (st', Some (map ev_removed rs)) \<and> wf_store st' \<and>
    (\<forall>j. look st' j = (if desc (look st) j i then map_option (retire (hn j)) (look st j) else look st j)) \<and>
    res_id ` set rs = {j. desc (look st) j i} \<and> distinct (map res_id rs) \<and>
    (\<forall>a < length rs. \<forall>b < length rs. parent_id (rs ! a) = Some (res_id (rs ! b)) \<longrightarrow> a < b)"
proof -
  note b = wf_storeD(2) [OF wf] and g = wf_storeD(1) [OF wf]
  have lr: "look st i = Some r" "extant r" using r get_resource_look [OF b] by blast+
  have i: "res_id r = i" by (rule look_id [OF b lr(1)])
  with lr(1) have ri: "look st (res_id r) = Some r" by simp
  obtain rs where rs: "walk recursion_limit st r = Inr rs" "walked st rs {i}"
      "erase_subtree recursion_limit hn st r = Inr (update_all (\<lambda>i. retire (hn i)) st rs, map ev_removed rs)"
      "wf_store (update_all (\<lambda>i. retire (hn i)) st rs)"
    using erase_subtree_effect [OF wf ri lr(2), of hn] i by auto
  have "a < b" if ab: "a < length rs" "b < length rs" "parent_id (rs ! a) = Some (res_id (rs ! b))" for a b
  proof -
    have w: "look st (res_id x) = Some x \<and> desc (look st) (res_id x) i" if "x \<in> set rs" for x
      using rs(2) that unfolding walked_def by blast
    have la: "look st (res_id (rs ! a)) = Some (rs ! a)" "extant (rs ! a)"
      using w [of "rs ! a"] ab(1) desc_left [of "look st" "res_id (rs ! a)"] by auto
    have lb: "look st (res_id (rs ! b)) = Some (rs ! b)" "extant (rs ! b)"
      using w [of "rs ! b"] ab(2) desc_left [of "look st" "res_id (rs ! b)"] by auto
    have "desc (look st) (res_id (rs ! a)) (res_id (rs ! b))"
      using la lb ab(3) desc.self [of "look st" "res_id (rs ! b)"] desc.step [of "look st"] by blast
    then have "a \<le> b" using rs(2) ab(1,2) unfolding walked_def by blast
    moreover have "a \<noteq> b" using parent_rank [OF wf_graphD(2) [OF g] la ab(3)] la(1) by auto
    ultimately show ?thesis by simp
  qed
  moreover have "subtree st rt i = Inr rs" using r rs(1) by (simp add: subtree_def)
  moreover have "delete_resource hn st rt i =
      Inr (update_all (\<lambda>i. retire (hn i)) st rs, Some (map ev_removed rs))"
    using r rs(3) by (simp add: delete_resource_def)
  moreover have "res_id ` set rs = {j. desc (look st) j i}" using walked_ids [OF b rs(2)] by simp
  moreover have "distinct (map res_id rs)" using rs(2) by (simp add: walked_def)
  ultimately show ?thesis using rs(4) look_retired [OF wf rs(2), of hn] by blast
qed

theorem delete_cascades_witness:
  "\<exists>st' evs. delete_resource (\<lambda>_. 99) sample_store NODE [1] = Inr (st', Some evs) \<and>
     wf_store st' \<and> map_option extant (look st' [4]) = Some False"
proof -
  obtain st' rs where "delete_resource (\<lambda>_. 99) sample_store NODE [1] = Inr (st', Some (map ev_removed rs))"
      "wf_store st'"
      "look st' [4] = (if desc (look sample_store) [4] [1]
         then map_option (retire 99) (look sample_store [4]) else look sample_store [4])"
    using delete_cascades [OF sample_look(1) sample_get(1), of "\<lambda>_. 99"] by blast
  then show ?thesis using sample_desc(1) by (simp add: sample_look(2) retire_def sample_record_def)
qed

text \<open>
  A heartbeat refreshes the whole subtree. It gives the health it read to the node and
  to every live descendant, changes nothing else of any record, and never exceeds the
  recursion limit; for a node that is not registered it answers \<open>None\<close>.
\<close>

theorem heartbeat_refreshes_subtree:
  assumes wf: "wf_store st" and n: "get_resource st NODE i False = Some r"
  shows "\<exists>st'. heartbeat h st i = Inr (st', Some h) \<and> wf_store st' \<and> node_health st' i = Some h \<and>
    (\<forall>j. look st' j = (if desc (look st) j i then map_option (\<lambda>x. x\<lparr>health := h\<rparr>) (look st j) else look st j))"
proof -
  obtain st' where e: "heartbeat h st i = Inr (st', Some h)" "wf_store st'"
    "\<And>j. look st' j = (if desc (look st) j i then map_option (\<lambda>x. x\<lparr>health := h\<rparr>) (look st j) else look st j)"
    using heartbeat_effect [OF assms] by blast
  have r: "look st i = Some r" "resource_type r = NODE" "extant r"
    using n get_resource_look [OF wf_storeD(2) [OF wf]] by blast+
  then have "look st' i = Some (r\<lparr>health := h\<rparr>)" using e(3) [of i] desc.self [of "look st" i r] by simp
  then have "get_resource st' NODE i False = Some (r\<lparr>health := h\<rparr>)"
    using get_resource_look [OF wf_storeD(2) [OF e(2)]] r by simp
  then have "node_health st' i = Some h" by (simp add: node_health_def)
  with e show ?thesis by blast
qed

theorem heartbeat_refreshes_subtree_witness:
  "\<exists>st'. heartbeat 77 sample_store [1] = Inr (st', Some 77) \<and> map_option health (look st' [4]) = Some 77"
proof -
  obtain st' where "heartbeat 77 sample_store [1] = Inr (st', Some 77)"
      "look st' [4] = (if desc (look sample_store) [4] [1]
         then map_option (\<lambda>x. x\<lparr>health := 77\<rparr>) (look sample_store [4]) else look sample_store [4])"
    using heartbeat_refreshes_subtree [OF sample_look(1) sample_get(1), of 77] by blast
  then show ?thesis using sample_desc(1) by (simp add: sample_look(2))
qed

text \<open>
  C33: one garbage collection pass. Exactly the live records below a live node whose health
  has fallen behind the collection interval are retired, and exactly the dead records whose
  health lies behind the forget interval are dropped; the store keeps its invariant.
\<close>

theorem collect_garbage_exact:
  assumes "wf_store st"
  shows "\<exists>st' evs. collect_garbage hn now st = Inr (st', evs) \<and> wf_store st' \<and>
    (\<forall>j. look st' j =
      (case look st j of
         None \<Rightarrow> None
       | Some r \<Rightarrow>
           (let r' = (if \<exists>i. expired st (now - trunc (gc_interval st)) i \<and> desc (look st) j i
                      then retire (hn j) r else r)
            in if \<not> extant r' \<and> health r' < now - trunc (forget_interval st) then None else Some r')))"
  using collect_garbage_effect [OF assms, of hn now] by blast

lemma sample_intervals: "gc_interval sample_store = 12" "forget_interval sample_store = 60"
proof -
  have "gc_interval (sample_add st rt i p t) = gc_interval st \<and>
        forget_interval (sample_add st rt i p t) = forget_interval st" for st rt i p t
    by (auto simp: sample_add_def apply_committed_def commit_cursor_def commit_update_def commit_create_def
        Let_def sample_prepared_def split: option.splits)
  then show "gc_interval sample_store = 12" "forget_interval sample_store = 60"
    by (simp_all add: sample_store_def new_store_def)
qed

theorem collect_garbage_exact_witness:
  "\<exists>st' evs. collect_garbage (\<lambda>_. 23) 23 sample_store = Inr (st', evs) \<and>
     map_option extant (look st' [1]) = Some False"
proof -
  have "expired sample_store 11 [1]" by (simp add: expired_def sample_look(2) sample_record_def)
  moreover have "desc (look sample_store) [1] [1]"
    by (rule desc.self [where r = "sample_record NODE [1] None 10"]) (simp_all add: sample_look sample_record_def)
  ultimately have x: "\<exists>i. expired sample_store (23 - trunc (gc_interval sample_store)) i \<and> desc (look sample_store) [1] i"
    unfolding sample_intervals by (auto simp: trunc_def)
  obtain st' evs where "collect_garbage (\<lambda>_. 23) 23 sample_store = Inr (st', evs)"
    "look st' [1] = (case look sample_store [1] of None \<Rightarrow> None
       | Some r \<Rightarrow>
           (let r' = (if \<exists>i. expired sample_store (23 - trunc (gc_interval sample_store)) i \<and> desc (look sample_store) [1] i
                      then retire 23 r else r)
            in if \<not> extant r' \<and> health r' < 23 - trunc (forget_interval sample_store) then None else Some r'))"
    using collect_garbage_exact [OF sample_look(1), of "\<lambda>_. 23" 23] by blast
  then show ?thesis unfolding if_P [OF x]
    by (simp add: sample_look(2) sample_intervals retire_def trunc_def Let_def)
qed

text \<open>
  Ordered iteration is sorting. Whatever order registrations, updates, revivals and
  forgets came in, and whether or not the lazy re-sort is due, \<open>iter_ordered\<close> yields the live
  records of the type sorted by (cursor, id), exactly as an explicit sort of the collection
  would; it changes no record and leaves the index clean.
\<close>

theorem iter_ordered_is_sort:
  assumes "wf_store st" and "iter_ordered st rt ord = (st', rs)"
  shows "rs = sort_key (\<lambda>r. (cursor_of r ord, res_id r)) (iter_extant st rt) \<and>
    wf_store st' \<and> look st' = look st \<and> \<not> order_dirty st' rt ord"
  using iter_ordered_sorted [OF assms] iter_ordered_wf [OF assms] iter_ordered_index(6) [OF assms] by blast

theorem iter_ordered_is_sort_witness:
  "\<exists>st' rs. iter_ordered sample_store SENDER ORDER_UPDATE = (st', rs) \<and>
     rs = sort_key (\<lambda>r. (cursor_of r ORDER_UPDATE, res_id r)) (iter_extant sample_store SENDER)"
proof -
  obtain st' rs where "iter_ordered sample_store SENDER ORDER_UPDATE = (st', rs)" by fastforce
  then show ?thesis using iter_ordered_is_sort [OF sample_look(1)] by blast
qed

end
