(* ===== verification/Wire.thy ===== *)
theory Wire
  imports Utf8
begin

section \<open>The peer wire format\<close>

text \<open>
  \<open>src/nmos/raft/wire.py\<close>: LEB128 varints, the field writer and reader, the CRC-32 of
  \<open>zlib\<close>, and frames. A read position in a buffer is modelled by the bytes from there on:
  \<open>decode_varint(data, offset)\<close> is \<open>decode_varint\<close> of the suffix and returns the suffix after
  the varint. A chain of \<open>Writer\<close> calls is the concatenation of the fields they append, or
  the first exception. The \<open>_pending\<close> flag of \<open>Reader\<close> guards against a decoder that reads
  nothing for a field; every decoder modelled here reads or skips each field.
\<close>

subsection \<open>Varints\<close>

function varint_bytes :: "nat \<Rightarrow> bytes" where
  "varint_bytes value =
     (let byte = value AND 127; value' = drop_bit 7 value
      in if value' \<noteq> 0 then of_nat (byte OR 128) # varint_bytes value' else [of_nat byte])"
  by pat_completeness auto
termination
  by (relation "measure (\<lambda>v. v)") (auto simp: drop_bit_eq_div)

declare varint_bytes.simps [simp del]

definition encode_varint :: "int \<Rightarrow> bytes res" where
  "encode_varint value = (if value < 0 then Inl ValueError else Inr (varint_bytes (nat value)))"

text \<open>The loop of \<open>decode_varint\<close>, with the rounds left of its ten.\<close>

fun varint_loop :: "nat \<Rightarrow> nat \<Rightarrow> nat \<Rightarrow> bytes \<Rightarrow> (nat \<times> bytes) res" where
  "varint_loop 0 value shift data = Inl RaftProtocolError"
| "varint_loop (Suc k) value shift [] = Inl RaftProtocolError"
| "varint_loop (Suc k) value shift (byte # data) =
     (let value' = value OR push_bit shift (unat byte AND 127)
      in if unat byte AND 128 = 0 then Inr (value', data)
         else varint_loop k value' (shift + 7) data)"

definition decode_varint :: "bytes \<Rightarrow> (nat \<times> bytes) res" where
  "decode_varint data = varint_loop 10 0 0 data"

subsection \<open>Fields\<close>

definition tag_bytes :: "nat \<Rightarrow> nat \<Rightarrow> bytes" where
  "tag_bytes field wire = varint_bytes (push_bit 3 field OR wire)"

definition f_uint :: "nat \<Rightarrow> nat \<Rightarrow> bytes" where
  "f_uint field v = tag_bytes field 0 @ varint_bytes v"

definition f_bytes :: "nat \<Rightarrow> bytes \<Rightarrow> bytes" where
  "f_bytes field bs = tag_bytes field 2 @ varint_bytes (length bs) @ bs"

definition w_uint :: "nat \<Rightarrow> int \<Rightarrow> bytes res" where
  "w_uint field value = bind_res (encode_varint value) (\<lambda>bs. Inr (tag_bytes field 0 @ bs))"

definition w_bool :: "nat \<Rightarrow> bool \<Rightarrow> bytes res" where
  "w_bool field value = w_uint field (if value then 1 else 0)"

definition w_bytes :: "nat \<Rightarrow> bytes \<Rightarrow> bytes res" where
  "w_bytes field value =
     bind_res (encode_varint (int (length value))) (\<lambda>len. Inr (tag_bytes field 2 @ len @ value))"

definition w_string :: "nat \<Rightarrow> pystr \<Rightarrow> bytes res" where
  "w_string field value = bind_res (utf8_encode value) (w_bytes field)"

text \<open>\<open>Writer().a(..).b(..).take()\<close>.\<close>

fun w_take :: "bytes res list \<Rightarrow> bytes res" where
  "w_take [] = Inr []"
| "w_take (w # ws) = bind_res w (\<lambda>a. bind_res (w_take ws) (\<lambda>b. Inr (a @ b)))"

definition r_uint :: "bytes \<Rightarrow> (int \<times> bytes) res" where
  "r_uint data = bind_res (decode_varint data) (\<lambda>(v, rest). Inr (int v, rest))"

definition r_bool :: "bytes \<Rightarrow> (bool \<times> bytes) res" where
  "r_bool data = bind_res (r_uint data) (\<lambda>(v, rest). Inr (v \<noteq> 0, rest))"

definition r_bytes :: "bytes \<Rightarrow> (bytes \<times> bytes) res" where
  "r_bytes data =
     bind_res (decode_varint data) (\<lambda>(len, rest).
       if len > length rest then Inl RaftProtocolError else Inr (take len rest, drop len rest))"

definition r_string :: "bytes \<Rightarrow> (pystr \<times> bytes) res" where
  "r_string data =
     bind_res (r_bytes data) (\<lambda>(raw, rest).
       case utf8_decode raw of Inl _ \<Rightarrow> Inl RaftProtocolError | Inr s \<Rightarrow> Inr (s, rest))"

definition r_skip :: "nat \<Rightarrow> bytes \<Rightarrow> bytes res" where
  "r_skip wire data =
     (if wire = 0 then bind_res (r_uint data) (\<lambda>(_, rest). Inr rest)
      else bind_res (r_bytes data) (\<lambda>(_, rest). Inr rest))"

lemma varint_loop_shorter: "varint_loop k v s data = Inr (x, rest) \<Longrightarrow> length rest < length data"
  by (induction k v s data rule: varint_loop.induct) (auto simp: Let_def less_SucI split: if_splits)

lemma decode_varint_shorter: "decode_varint data = Inr (x, rest) \<Longrightarrow> length rest < length data"
  unfolding decode_varint_def by (rule varint_loop_shorter)

text \<open>
  \<open>for field, wire in reader\<close> over a decoder's loop body: \<open>step\<close> gets the field number, the
  wire type, the decoder's variables and the bytes after the tag, and returns the variables
  and the bytes after the field. Bytes are never given back; the corresponding check only
  serves to make the recursion visibly end.
\<close>

function read_fields ::
  "(nat \<Rightarrow> nat \<Rightarrow> 's \<Rightarrow> bytes \<Rightarrow> ('s \<times> bytes) res) \<Rightarrow> bytes \<Rightarrow> 's \<Rightarrow> 's res" where
  "read_fields step data s =
     (if data = [] then Inr s
      else (case decode_varint data of
              Inl e \<Rightarrow> Inl e
            | Inr (tag, rest) \<Rightarrow>
                let wire = tag AND 7
                in if wire \<noteq> 0 \<and> wire \<noteq> 2 then Inl RaftProtocolError
                   else (case step (drop_bit 3 tag) wire s rest of
                           Inl e \<Rightarrow> Inl e
                         | Inr (s', rest') \<Rightarrow>
                             if length rest' > length rest then Inl RecursionError
                             else read_fields step rest' s')))"
  by pat_completeness auto
termination
  by (relation "measure (\<lambda>(step, data, s). length data)") (auto dest!: decode_varint_shorter)

declare read_fields.simps [simp del]

text \<open>
  The three things a loop body does with a field: assign what it read, assign what a nested
  decoder makes of the bytes it read, or skip it.
\<close>

definition reads :: "('a \<times> bytes) res \<Rightarrow> ('a \<Rightarrow> 's) \<Rightarrow> ('s \<times> bytes) res" where
  "reads r f = bind_res r (\<lambda>(x, rest). Inr (f x, rest))"

definition reads_res :: "('a \<times> bytes) res \<Rightarrow> ('a \<Rightarrow> 's res) \<Rightarrow> ('s \<times> bytes) res" where
  "reads_res r f = bind_res r (\<lambda>(x, rest). bind_res (f x) (\<lambda>s. Inr (s, rest)))"

definition skips :: "nat \<Rightarrow> 's \<Rightarrow> bytes \<Rightarrow> ('s \<times> bytes) res" where
  "skips wire s data = bind_res (r_skip wire data) (\<lambda>rest. Inr (s, rest))"

subsection \<open>Frames\<close>

definition PROTOCOL_MAJOR :: nat where "PROTOCOL_MAJOR = 1"
definition PROTOCOL_MINOR :: nat where "PROTOCOL_MINOR = 0"
definition MAGIC :: nat where "MAGIC = 1313690177"
definition HEADER_SIZE :: nat where "HEADER_SIZE = 16"
definition TRAILER_SIZE :: nat where "TRAILER_SIZE = 4"
definition MAX_FRAME :: nat where "MAX_FRAME = 16 * 1024 * 1024"
definition FLAG_REPLY :: nat where "FLAG_REPLY = 1"
definition RESERVED_FLAGS :: nat where "RESERVED_FLAGS = 65534"

datatype Stream = CONTROL | BULK

datatype MessageType =
    HELLO | HELLO_ACK | REQUEST_VOTE | REQUEST_VOTE_REPLY | APPEND_ENTRIES | APPEND_ENTRIES_REPLY
  | INSTALL_SNAPSHOT | INSTALL_SNAPSHOT_REPLY | PROMOTE | READ_INDEX | READ_INDEX_REPLY
  | PROPOSE | PROPOSE_REPLY | FORWARD | FORWARD_REPLY | PING | PONG

fun stream_num :: "Stream \<Rightarrow> nat" where
  "stream_num CONTROL = 0"
| "stream_num BULK = 1"

fun type_num :: "MessageType \<Rightarrow> nat" where
  "type_num HELLO = 1"
| "type_num HELLO_ACK = 2"
| "type_num REQUEST_VOTE = 16"
| "type_num REQUEST_VOTE_REPLY = 17"
| "type_num APPEND_ENTRIES = 18"
| "type_num APPEND_ENTRIES_REPLY = 19"
| "type_num INSTALL_SNAPSHOT = 20"
| "type_num INSTALL_SNAPSHOT_REPLY = 21"
| "type_num PROMOTE = 22"
| "type_num READ_INDEX = 23"
| "type_num READ_INDEX_REPLY = 24"
| "type_num PROPOSE = 32"
| "type_num PROPOSE_REPLY = 33"
| "type_num FORWARD = 34"
| "type_num FORWARD_REPLY = 35"
| "type_num PING = 48"
| "type_num PONG = 49"

definition message_types :: "MessageType list" where
  "message_types = [HELLO, HELLO_ACK, REQUEST_VOTE, REQUEST_VOTE_REPLY, APPEND_ENTRIES, APPEND_ENTRIES_REPLY,
     INSTALL_SNAPSHOT, INSTALL_SNAPSHOT_REPLY, PROMOTE, READ_INDEX, READ_INDEX_REPLY,
     PROPOSE, PROPOSE_REPLY, FORWARD, FORWARD_REPLY, PING, PONG]"

definition stream_of :: "nat \<Rightarrow> Stream option" where
  "stream_of n = find (\<lambda>s. stream_num s = n) [CONTROL, BULK]"

definition message_type_of :: "nat \<Rightarrow> MessageType option" where
  "message_type_of n = find (\<lambda>t. type_num t = n) message_types"

record Frame =
  fr_stream :: Stream
  fr_type :: MessageType
  fr_flags :: nat
  fr_payload :: bytes
  fr_minor :: nat

definition is_reply :: "Frame \<Rightarrow> bool" where
  "is_reply f \<longleftrightarrow> fr_flags f AND FLAG_REPLY \<noteq> 0"

text \<open>\<open>int.to_bytes(n, "little")\<close> and \<open>int.from_bytes(data, "little")\<close>.\<close>

fun le_bytes :: "nat \<Rightarrow> nat \<Rightarrow> bytes" where
  "le_bytes 0 v = []"
| "le_bytes (Suc n) v = of_nat (v mod 256) # le_bytes n (v div 256)"

definition to_bytes :: "nat \<Rightarrow> nat \<Rightarrow> bytes res" where
  "to_bytes n v = (if v < 256 ^ n then Inr (le_bytes n v) else Inl OverflowError)"

fun from_bytes :: "bytes \<Rightarrow> nat" where
  "from_bytes [] = 0"
| "from_bytes (b # bs) = unat b + 256 * from_bytes bs"

text \<open>\<open>zlib.crc32\<close>: reflected polynomial \<open>0xEDB88320\<close>, register preset and final inversion.\<close>

definition crc_shift :: "32 word \<Rightarrow> 32 word" where
  "crc_shift r = (if bit r 0 then drop_bit 1 r XOR 3988292384 else drop_bit 1 r)"

definition crc_byte :: "32 word \<Rightarrow> 8 word \<Rightarrow> 32 word" where
  "crc_byte r b = (crc_shift ^^ 8) (r XOR ucast b)"

definition crc32 :: "bytes \<Rightarrow> nat" where
  "crc32 data = unat (NOT (foldl crc_byte (NOT 0) data))"

definition encode_frame :: "Frame \<Rightarrow> bytes res" where
  "encode_frame f =
     (if length (fr_payload f) > MAX_FRAME then Inl RaftProtocolError
      else
        bind_res (to_bytes 2 PROTOCOL_MAJOR) (\<lambda>ma.
        bind_res (to_bytes 2 (fr_minor f)) (\<lambda>mi.
        bind_res (to_bytes 2 (fr_flags f)) (\<lambda>fl.
        bind_res (to_bytes 4 (length (fr_payload f))) (\<lambda>len.
          let bdy = ma @ mi @ [of_nat (stream_num (fr_stream f)), of_nat (type_num (fr_type f))] @
                    fl @ len @ fr_payload f
          in bind_res (to_bytes 4 MAGIC) (\<lambda>mg.
             bind_res (to_bytes 4 (crc32 bdy)) (\<lambda>c. Inr (mg @ bdy @ c))))))))"

definition part :: "nat \<Rightarrow> nat \<Rightarrow> bytes \<Rightarrow> bytes" where
  "part a b data = drop a (take b data)"

definition decode_frame :: "bytes \<Rightarrow> Frame res" where
  "decode_frame data =
     (if length data < HEADER_SIZE + TRAILER_SIZE then Inl RaftProtocolError
      else if from_bytes (part 0 4 data) \<noteq> MAGIC then Inl RaftProtocolError
      else if from_bytes (part 4 6 data) \<noteq> PROTOCOL_MAJOR then Inl RaftProtocolError
      else
        let minor = from_bytes (part 6 8 data);
            len = from_bytes (part 12 16 data)
        in if len > MAX_FRAME then Inl RaftProtocolError
           else if length data \<noteq> HEADER_SIZE + len + TRAILER_SIZE then Inl RaftProtocolError
           else if from_bytes (drop (HEADER_SIZE + len) data) \<noteq> crc32 (part 4 (HEADER_SIZE + len) data)
           then Inl RaftProtocolError
           else
             let flags = from_bytes (part 10 12 data)
             in if flags AND RESERVED_FLAGS \<noteq> 0 then Inl RaftProtocolError
                else (case stream_of (unat (data ! 8)) of
                        None \<Rightarrow> Inl RaftProtocolError
                      | Some s \<Rightarrow>
                          (case message_type_of (unat (data ! 9)) of
                             None \<Rightarrow> Inl RaftProtocolError
                           | Some t \<Rightarrow>
                               Inr \<lparr>fr_stream = s, fr_type = t, fr_flags = flags,
                                    fr_payload = part HEADER_SIZE (HEADER_SIZE + len) data,
                                    fr_minor = minor\<rparr>)))"

text \<open>
  \<open>read_frame\<close> on a stream that delivers the given bytes and then ends; it returns the frame
  and what follows it.
\<close>

definition read_exactly :: "nat \<Rightarrow> bytes \<Rightarrow> (bytes \<times> bytes) res" where
  "read_exactly n data = (if length data < n then Inl EOFError else Inr (take n data, drop n data))"

definition read_frame :: "bytes \<Rightarrow> (Frame \<times> bytes) res" where
  "read_frame data =
     bind_res (read_exactly HEADER_SIZE data) (\<lambda>(header, data').
       let len = from_bytes (part 12 16 header)
       in if len > MAX_FRAME then Inl RaftProtocolError
          else bind_res (read_exactly (len + TRAILER_SIZE) data') (\<lambda>(rest, data'').
               bind_res (decode_frame (header @ rest)) (\<lambda>f. Inr (f, data''))))"

subsection \<open>Varint round trip\<close>

lemma and_127: "(n::nat) AND 127 = n mod 128"
  using take_bit_eq_mask [of 7 n] by (simp add: take_bit_eq_mod mask_eq_exp_minus_1)

lemma and_7: "(n::nat) AND 7 = n mod 8"
  using take_bit_eq_mask [of 3 n] by (simp add: take_bit_eq_mod mask_eq_exp_minus_1)

lemma or_push: "v < 2 ^ s \<Longrightarrow> (v::nat) OR push_bit s x = v + x * 2 ^ s"
proof -
  assume "v < 2 ^ s"
  then have v: "take_bit s v = v" by (rule take_bit_nat_eq_self)
  have "bit v m \<Longrightarrow> m < s" for m using bit_take_bit_iff [of s v m] unfolding v by blast
  then have "\<not> bit v m \<or> \<not> bit (push_bit s x) m" for m
    by (metis bit_push_bit_iff not_less)
  then have "v OR push_bit s x = v + push_bit s x" by (intro disjunctive_add [symmetric])
  then show ?thesis by (simp add: push_bit_eq_mult mult.commute)
qed

lemma or_128: "n < 128 \<Longrightarrow> (n::nat) OR 128 = n + 128"
  using or_push [of n 7 1] by (simp add: push_bit_eq_mult)

lemma and_128: "n < 256 \<Longrightarrow> (n::nat) AND 128 = 0 \<longleftrightarrow> n < 128"
proof -
  assume n: "n < 256"
  have "n AND 128 = 0 \<longleftrightarrow> \<not> bit n 7"
    using and_exp_eq_0_iff_not_bit [of n 7] by simp
  also have "\<dots> \<longleftrightarrow> n < 128"
  proof -
    have "n div 128 = (if n < 128 then 0 else 1)" using n by auto
    then show ?thesis by (simp add: bit_iff_odd)
  qed
  finally show ?thesis .
qed

lemma varint_bytes_small: "v < 128 \<Longrightarrow> varint_bytes v = [of_nat v]"
  by (simp add: varint_bytes.simps [of v] drop_bit_eq_div and_127)

lemma varint_bytes_large: "128 \<le> v \<Longrightarrow> varint_bytes v = of_nat (v mod 128 + 128) # varint_bytes (v div 128)"
proof -
  assume "128 \<le> v"
  then have "v div 128 \<noteq> 0" by auto
  then show ?thesis by (simp add: varint_bytes.simps [of v] drop_bit_eq_div and_127 or_128)
qed

lemma varint_bytes_nonempty [simp]: "varint_bytes v \<noteq> []"
  by (cases "v < 128") (simp_all add: varint_bytes_small varint_bytes_large)

lemma byte_parts:
  "unat (of_nat (x mod 128 + 128) :: 8 word) = x mod 128 + 128"
  "x < 128 \<Longrightarrow> unat (of_nat x :: 8 word) = x"
proof -
  have "x mod 128 + 128 < 256" using mod_less_divisor [of 128 x] by linarith
  then show "unat (of_nat (x mod 128 + 128) :: 8 word) = x mod 128 + 128" by (rule unat_of_nat_byte)
  show "x < 128 \<Longrightarrow> unat (of_nat x :: 8 word) = x" by (rule unat_of_nat_byte) simp
qed

text \<open>The loop started on the encoding of \<open>v\<close> with \<open>k\<close> rounds: it succeeds exactly when \<open>v\<close> fits them.\<close>

lemma varint_loop_bytes:
  assumes "acc < 2 ^ s"
  shows "varint_loop k acc s (varint_bytes v @ rest) =
    (if 0 < k \<and> v < 128 ^ k then Inr (acc + v * 2 ^ s, rest) else Inl RaftProtocolError)"
  using assms
proof (induction k arbitrary: acc s v)
  case (Suc k)
  show ?case
  proof (cases "v < 128")
    case True
    have "(1::nat) \<le> 128 ^ k" by simp
    then have "128 * 1 \<le> 128 * (128::nat) ^ k" by (rule mult_le_mono2)
    then have "v < 128 ^ Suc k" using True by (simp only: power_Suc)
    then show ?thesis
      using True Suc.prems by (simp add: varint_bytes_small byte_parts and_127 and_128 or_push Let_def)
  next
    case False
    have lt: "acc + v mod 128 * 2 ^ s < 2 ^ (s + 7)"
    proof -
      have "v mod 128 * 2 ^ s \<le> 127 * 2 ^ s" using mod_less_divisor [of 128 v] by (intro mult_le_mono1) linarith
      moreover have "(2::nat) ^ (s + 7) = 128 * 2 ^ s" by (simp add: power_add)
      ultimately show ?thesis using Suc.prems by linarith
    qed
    have m: "(v mod 128 + 128) AND 127 = v mod 128" by (simp add: and_127)
    have c: "(v mod 128 + 128) AND 128 \<noteq> 0"
      using and_128 [of "v mod 128 + 128"] mod_less_divisor [of 128 v] by linarith
    have val: "acc + v mod 128 * 2 ^ s + v div 128 * 2 ^ (s + 7) = acc + v * 2 ^ s"
    proof -
      have "v div 128 * 2 ^ (s + 7) = (v div 128 * 128) * 2 ^ s" by (simp add: power_add)
      then have "v mod 128 * 2 ^ s + v div 128 * 2 ^ (s + 7) = (v mod 128 + v div 128 * 128) * 2 ^ s"
        by (simp only: add_mult_distrib)
      then show ?thesis by simp
    qed
    have k: "0 < k \<and> v div 128 < 128 ^ k \<longleftrightarrow> v < 128 ^ Suc k"
      using False by (cases k) (auto simp: div_less_iff_less_mult mult.commute)
    have "128 \<le> v" using False by simp
    then have "varint_loop (Suc k) acc s (varint_bytes v @ rest) =
        varint_loop k (acc + v mod 128 * 2 ^ s) (s + 7) (varint_bytes (v div 128) @ rest)"
      by (simp only: varint_bytes_large append_Cons varint_loop.simps Let_def byte_parts m c
          or_push [OF Suc.prems] if_False)
    then show ?thesis
      using Suc.IH [OF lt, of "v div 128"] k val by simp
  qed
qed simp

lemma decode_varint_bytes:
  "decode_varint (varint_bytes v @ rest) = (if v < 2 ^ 70 then Inr (v, rest) else Inl RaftProtocolError)"
proof -
  have "(128::nat) ^ 10 = 2 ^ 70" using power_mult [of "2::nat" 7 10] by simp
  then show ?thesis
    using varint_loop_bytes [of 0 0 10 v rest] by (simp add: decode_varint_def)
qed

subsection \<open>Field round trips\<close>

lemma tag_value: "wire < 8 \<Longrightarrow> push_bit 3 field OR wire = wire + field * 8" for wire field :: nat
  using or_push [of wire 3 field] by (simp add: or.commute)

lemma tag_parts:
  fixes wire field :: nat
  assumes "wire < 8"
  shows "(push_bit 3 field OR wire) AND 7 = wire" "drop_bit 3 (push_bit 3 field OR wire) = field"
  using assms by (simp_all add: tag_value and_7 drop_bit_eq_div)

lemma read_fields_Nil [simp]: "read_fields step [] s = Inr s"
  by (simp add: read_fields.simps [of step "[]"])

lemma read_fields_tag:
  assumes "field < 2 ^ 60" and "wire = 0 \<or> wire = 2"
  shows "read_fields step (tag_bytes field wire @ rest) s =
    (case step field wire s rest of
       Inl e \<Rightarrow> Inl e
     | Inr (s', rest') \<Rightarrow> if length rest' > length rest then Inl RecursionError else read_fields step rest' s')"
proof -
  have w: "wire < 8" using assms(2) by auto
  have "wire + field * 8 < 2 ^ 70" using assms w by auto
  then have "decode_varint (tag_bytes field wire @ rest) = Inr (push_bit 3 field OR wire, rest)"
    unfolding tag_bytes_def decode_varint_bytes using w by (simp add: tag_value)
  moreover have "tag_bytes field wire @ rest \<noteq> []" by (simp add: tag_bytes_def)
  moreover have "\<not> (wire \<noteq> 0 \<and> wire \<noteq> 2)" using assms(2) by auto
  ultimately show ?thesis
    by (subst read_fields.simps) (simp only: tag_parts [OF w] Let_def if_False sum.case prod.case simp_thms)
qed

lemma read_fields_uint:
  "field < 2 ^ 60 \<Longrightarrow> read_fields step (f_uint field v @ rest) s =
    (case step field 0 s (varint_bytes v @ rest) of
       Inl e \<Rightarrow> Inl e
     | Inr (s', rest') \<Rightarrow> if length rest' > length (varint_bytes v @ rest) then Inl RecursionError
                          else read_fields step rest' s')"
  unfolding f_uint_def append_assoc by (rule read_fields_tag) simp_all

lemma read_fields_bytes:
  "field < 2 ^ 60 \<Longrightarrow> read_fields step (f_bytes field bs @ rest) s =
    (case step field 2 s (varint_bytes (length bs) @ bs @ rest) of
       Inl e \<Rightarrow> Inl e
     | Inr (s', rest') \<Rightarrow> if length rest' > length (varint_bytes (length bs) @ bs @ rest) then Inl RecursionError
                          else read_fields step rest' s')"
  unfolding f_bytes_def append_assoc by (rule read_fields_tag) simp_all

text \<open>What ten bytes of a varint can carry.\<close>

definition fits :: "nat \<Rightarrow> bool" where
  "fits n \<longleftrightarrow> n < 2 ^ 70"

lemma fits_le: "fits n \<Longrightarrow> m \<le> n \<Longrightarrow> fits m"
  unfolding fits_def by (rule le_less_trans)

lemma fits_small: "n < 1000 \<Longrightarrow> fits n"
  by (simp add: fits_def)

lemma fits_0_1 [codec_simps]: "fits 0" "fits (Suc 0)" "fits 1"
  by (simp_all add: fits_small)

lemma decode_varint_fits [codec_simps]: "fits v \<Longrightarrow> decode_varint (varint_bytes v @ rest) = Inr (v, rest)"
  by (simp add: decode_varint_bytes fits_def)

lemma r_uint_varint [codec_simps]: "fits v \<Longrightarrow> r_uint (varint_bytes v @ rest) = Inr (int v, rest)"
  by (simp add: r_uint_def decode_varint_fits)

lemma r_bool_varint [codec_simps]: "fits v \<Longrightarrow> r_bool (varint_bytes v @ rest) = Inr (v \<noteq> 0, rest)"
  by (simp add: r_bool_def r_uint_varint)

lemma r_bytes_field [codec_simps]:
  "fits (length bs) \<Longrightarrow> r_bytes (varint_bytes (length bs) @ bs @ rest) = Inr (bs, rest)"
  by (simp add: r_bytes_def decode_varint_fits)

text \<open>A text that UTF-8 can carry, and its bytes.\<close>

definition str_bytes :: "pystr \<Rightarrow> bytes" where
  "str_bytes s = (case utf8_encode s of Inl _ \<Rightarrow> [] | Inr b \<Rightarrow> b)"

definition wf_text :: "pystr \<Rightarrow> bool" where
  "wf_text s \<longleftrightarrow> list_all valid_char s \<and> fits (length (str_bytes s))"

lemma wf_text_encode: "wf_text s \<Longrightarrow> utf8_encode s = Inr (str_bytes s)"
  using utf8_encode_defined [of s] by (auto simp: wf_text_def str_bytes_def)

lemma r_string_field [codec_simps]:
  "wf_text s \<Longrightarrow> r_string (varint_bytes (length (str_bytes s)) @ str_bytes s @ rest) = Inr (s, rest)"
  using utf8_round_trip [OF wf_text_encode]
  by (simp add: r_string_def r_bytes_field wf_text_def)

lemma w_uint_field [codec_simps]: "0 \<le> v \<Longrightarrow> w_uint field v = Inr (f_uint field (nat v))"
  by (simp add: w_uint_def encode_varint_def f_uint_def)

lemma w_bool_field [codec_simps]: "w_bool field b = Inr (f_uint field (if b then 1 else 0))"
  by (simp add: w_bool_def w_uint_field)

lemma w_bytes_field [codec_simps]: "w_bytes field bs = Inr (f_bytes field bs)"
  by (simp add: w_bytes_def encode_varint_def f_bytes_def)

lemma w_string_field [codec_simps]: "wf_text s \<Longrightarrow> w_string field s = Inr (f_bytes field (str_bytes s))"
  by (simp add: w_string_def wf_text_encode w_bytes_field)

lemma wf_text_fits [codec_simps]: "wf_text s \<Longrightarrow> fits (length (str_bytes s))"
  by (simp add: wf_text_def)

subsection \<open>Codecs\<close>

text \<open>
  The contract every encoder and decoder of this protocol owes: a value in range encodes,
  and decoding what was encoded gives it back. Two members that agree on bytes then agree on
  values.
\<close>

locale wire_codec =
  fixes enc :: "'a \<Rightarrow> bytes res" and dec :: "bytes \<Rightarrow> 'a res" and wf :: "'a \<Rightarrow> bool"
  assumes round_trip: "wf x \<Longrightarrow> \<exists>b. enc x = Inr b \<and> dec b = Inr x"
begin

lemma encodes: "wf x \<Longrightarrow> \<exists>b. enc x = Inr b"
  using round_trip by blast

lemma decodes: "wf x \<Longrightarrow> enc x = Inr b \<Longrightarrow> dec b = Inr x"
  using round_trip by fastforce

lemma enc_inject: "wf x \<Longrightarrow> wf y \<Longrightarrow> enc x = enc y \<Longrightarrow> x = y"
  using round_trip [of x] round_trip [of y] by auto

end

text \<open>
  A decoder for bytes from a peer owes one thing more: whatever arrives, the only exception
  it raises is the protocol error its caller handles.
\<close>

locale wire_protocol = wire_codec +
  assumes refuses: "dec b = Inl e \<Longrightarrow> e = RaftProtocolError"
begin

lemma decode_cases: "(\<exists>x. dec b = Inr x) \<or> dec b = Inl RaftProtocolError"
  using refuses by (cases "dec b") auto

end

text \<open>Loop bodies that only refuse with a protocol error and never give bytes back.\<close>

definition gives :: "nat \<Rightarrow> ('s \<times> bytes) res \<Rightarrow> bool" where
  "gives n r \<longleftrightarrow> (case r of Inl e \<Rightarrow> e = RaftProtocolError | Inr (s, rest) \<Rightarrow> length rest \<le> n)"

named_theorems gives_intros \<open>loop bodies built from the readers\<close>

lemma gives_cases:
  "(\<And>e. r = Inl e \<Longrightarrow> e = RaftProtocolError) \<Longrightarrow> (\<And>s rest. r = Inr (s, rest) \<Longrightarrow> length rest \<le> n) \<Longrightarrow> gives n r"
  by (auto simp: gives_def split: sum.splits)

lemma gives_error: "gives n (Inl e) \<Longrightarrow> e = RaftProtocolError"
  by (simp add: gives_def)

lemma gives_length: "gives n (Inr (s, rest)) \<Longrightarrow> length rest \<le> n"
  by (simp add: gives_def)

lemma varint_loop_error: "varint_loop k v s data = Inl e \<Longrightarrow> e = RaftProtocolError"
  by (induction k v s data rule: varint_loop.induct) (auto simp: Let_def split: if_splits)

lemma decode_varint_error: "decode_varint data = Inl e \<Longrightarrow> e = RaftProtocolError"
  unfolding decode_varint_def by (rule varint_loop_error)

lemma gives_varint: "gives (length data) (decode_varint data)"
  by (rule gives_cases) (auto dest: decode_varint_error decode_varint_shorter)

lemma gives_bind:
  assumes "gives n r" and "\<And>s rest. r = Inr (s, rest) \<Longrightarrow> length rest \<le> n \<Longrightarrow> gives n (f (s, rest))"
  shows "gives n (bind_res r f)"
  using assms by (cases r) (auto simp: gives_def split: sum.splits)

lemma gives_r_uint [gives_intros]: "gives (length data) (r_uint data)"
  unfolding r_uint_def by (rule gives_bind [OF gives_varint]) (simp add: gives_def)

lemma gives_r_bool [gives_intros]: "gives (length data) (r_bool data)"
  unfolding r_bool_def by (rule gives_bind [OF gives_r_uint]) (simp add: gives_def)

lemma gives_r_bytes [gives_intros]: "gives (length data) (r_bytes data)"
  unfolding r_bytes_def by (rule gives_bind [OF gives_varint]) (auto simp: gives_def)

lemma gives_r_string [gives_intros]: "gives (length data) (r_string data)"
  unfolding r_string_def
  by (rule gives_bind [OF gives_r_bytes]) (simp add: gives_def split: sum.splits)

lemma gives_reads [gives_intros]: "gives n r \<Longrightarrow> gives n (reads r f)"
  unfolding reads_def by (erule gives_bind) (simp add: gives_def)

lemma gives_reads_res [gives_intros]:
  "gives n r \<Longrightarrow> (\<And>x e. f x = Inl e \<Longrightarrow> e = RaftProtocolError) \<Longrightarrow> gives n (reads_res r f)"
  unfolding reads_res_def
  by (erule gives_bind) (auto simp: gives_def bind_res_def split: sum.splits)

lemma gives_skips [gives_intros]: "gives (length data) (skips wire s data)"
  using gives_r_uint [of data] gives_r_bytes [of data]
  by (auto simp: skips_def r_skip_def gives_def bind_res_def split: sum.splits prod.splits)

lemma gives_if [gives_intros]: "(c \<Longrightarrow> gives n a) \<Longrightarrow> (\<not> c \<Longrightarrow> gives n b) \<Longrightarrow> gives n (if c then a else b)"
  by simp

lemma read_fields_error:
  assumes "\<And>k w s d. gives (length d) (step k w s d)"
  shows "read_fields step data s = Inl e \<Longrightarrow> e = RaftProtocolError"
proof (induction data arbitrary: s rule: length_induct)
  case (1 data)
  note IH = 1(1) and failed = 1(2) [unfolded read_fields.simps [of step data s]]
  show ?case
  proof (cases "decode_varint data")
    case (Inl e')
    then show ?thesis using failed decode_varint_error [OF Inl] by (simp split: if_splits)
  next
    case varint: (Inr p)
    obtain tag rest where p: "p = (tag, rest)" by fastforce
    note r = decode_varint_shorter [OF varint [unfolded p]]
    note g = assms [of rest "drop_bit 3 tag" "tag AND 7" s]
    let ?r = "step (drop_bit 3 tag) (tag AND 7) s rest"
    have next_round: "e = RaftProtocolError \<or>
        (case ?r of Inl e' \<Rightarrow> Inl e' | Inr (s', rest') \<Rightarrow>
           if length rest' > length rest then Inl RecursionError else read_fields step rest' s') = Inl e"
      using failed unfolding varint p Let_def sum.case prod.case
      by (cases "data = []"; cases "tag AND 7 \<noteq> 0 \<and> tag AND 7 \<noteq> 2")
         (simp_all only: if_True if_False sum.distinct sum.inject simp_thms)
    show ?thesis
    proof (cases "step (drop_bit 3 tag) (tag AND 7) s rest")
      case (Inl e')
      then show ?thesis using next_round g gives_error unfolding Inl by auto
    next
      case (Inr q)
      obtain s' rest' where q: "q = (s', rest')" by fastforce
      have le: "length rest' \<le> length rest" by (rule gives_length [OF g [unfolded Inr q]])
      then have lt: "length rest' < length data" using r by linarith
      have "e = RaftProtocolError \<or> read_fields step rest' s' = Inl e"
        using next_round le unfolding Inr q by simp
      then show ?thesis using IH lt by blast
    qed
  qed
qed

text \<open>One round of a decoder's loop on a field that its writer wrote.\<close>

lemma reads_simps [codec_simps]:
  "reads (Inr (x, rest)) f = Inr (f x, rest)"
  "reads_res (Inr (x, rest)) g = bind_res (g x) (\<lambda>s. Inr (s, rest))"
  by (simp_all add: reads_def reads_res_def)

text \<open>The numbers that fit a varint.\<close>

definition wf_uint :: "int \<Rightarrow> bool" where
  "wf_uint v \<longleftrightarrow> 0 \<le> v \<and> fits (nat v)"

lemma w_uint_wf [codec_simps]: "wf_uint v \<Longrightarrow> w_uint field v = Inr (f_uint field (nat v))"
  by (simp add: wf_uint_def w_uint_field)

lemma r_uint_wf [codec_simps]: "wf_uint v \<Longrightarrow> r_uint (varint_bytes (nat v) @ rest) = Inr (v, rest)"
  using r_uint_varint [of "nat v" rest] by (simp add: wf_uint_def)

lemma length_f_bytes: "length bs < length (f_bytes field bs)"
  by (simp add: f_bytes_def)

lemma read_uint_step [codec_simps]:
  assumes "field < 2 ^ 60" and "step field 0 s (varint_bytes v @ rest) = Inr (s', rest)"
  shows "read_fields step (f_uint field v @ rest) s = read_fields step rest s'"
  unfolding read_fields_uint [OF assms(1)] assms(2) by simp

lemma read_bytes_step [codec_simps]:
  assumes "field < 2 ^ 60" and "step field 2 s (varint_bytes (length bs) @ bs @ rest) = Inr (s', rest)"
  shows "read_fields step (f_bytes field bs @ rest) s = read_fields step rest s'"
  unfolding read_fields_bytes [OF assms(1)] assms(2) by simp

text \<open>The last field of a payload has nothing after it.\<close>

lemmas read_last_steps [codec_simps] =
  read_uint_step [of _ _ _ _ "[]", simplified append_Nil2 read_fields_Nil]
  read_bytes_step [of _ _ _ _ "[]", simplified append_Nil2 read_fields_Nil]

lemmas readers_last [codec_simps] =
  r_uint_wf [of _ "[]", simplified append_Nil2]
  r_uint_varint [of _ "[]", simplified append_Nil2]
  r_bool_varint [of _ "[]", simplified append_Nil2]
  r_bytes_field [of _ "[]", simplified append_Nil2]
  r_string_field [of _ "[]", simplified append_Nil2]

subsection \<open>Little-endian numbers\<close>

lemma length_le_bytes [simp]: "length (le_bytes n v) = n"
  by (induction n arbitrary: v) simp_all

lemma from_le_bytes: "v < 256 ^ n \<Longrightarrow> from_bytes (le_bytes n v) = v"
proof (induction n arbitrary: v)
  case (Suc n)
  have "v div 256 < 256 ^ n" using Suc.prems by (simp add: div_less_iff_less_mult mult.commute)
  then show ?case using Suc.IH by (simp add: unat_of_nat_byte)
qed simp

lemma unat_byte: "unat b < 256" for b :: "8 word"
proof -
  have "unat b < 2 ^ LENGTH(8)" by (rule unsigned_less)
  then show ?thesis by simp
qed

lemma from_bytes_inject: "length a = length b \<Longrightarrow> from_bytes a = from_bytes b \<Longrightarrow> a = b"
proof (induction a b rule: list_induct2)
  case (Cons x xs y ys)
  have "unat x < 256" "unat y < 256" by (rule unat_byte)+
  then have m: "(unat x + 256 * from_bytes xs) mod 256 = unat x" "(unat y + 256 * from_bytes ys) mod 256 = unat y"
    by simp_all
  have eq: "unat x + 256 * from_bytes xs = unat y + 256 * from_bytes ys" using Cons.prems by simp
  then have u: "unat x = unat y" using m by metis
  with eq have "from_bytes xs = from_bytes ys" by linarith
  with u Cons.IH show ?case by (simp add: unsigned_word_eqI)
qed simp

subsection \<open>The checksum\<close>

lemma crc_shift_top: "bit (crc_shift r) 31 \<longleftrightarrow> bit r 0"
proof -
  have "\<not> bit (drop_bit 1 r) 31" using bit_imp_le_length [of r 32] by (auto simp: bit_drop_bit_eq)
  moreover have "bit (3988292384 :: 32 word) 31" by simp
  ultimately show ?thesis by (simp add: crc_shift_def bit_xor_iff)
qed

lemma crc_shift_inject: "crc_shift r = crc_shift r' \<Longrightarrow> r = r'"
proof (rule bit_word_eqI)
  fix n assume eq: "crc_shift r = crc_shift r'"
  then have low: "bit r 0 = bit r' 0" using crc_shift_top by metis
  have "drop_bit 1 r = drop_bit 1 r'"
  proof (cases "bit r 0")
    case True
    then have "drop_bit 1 r XOR 3988292384 = drop_bit 1 r' XOR 3988292384"
      using eq low by (simp only: crc_shift_def if_True)
    then have "(drop_bit 1 r XOR 3988292384) XOR 3988292384 = (drop_bit 1 r' XOR 3988292384) XOR 3988292384"
      by (rule arg_cong)
    then show ?thesis by (simp only: xor.assoc xor_self_eq xor.right_neutral)
  next
    case False
    then show ?thesis using eq low by (simp only: crc_shift_def if_False)
  qed
  then have up: "bit r (Suc m) = bit r' (Suc m)" for m
    by (metis bit_drop_bit_eq comp_apply plus_1_eq_Suc)
  show "bit r n = bit r' n" by (cases n) (use low up in simp_all)
qed

lemma crc_byte_inject_reg: "crc_byte r b = crc_byte r' b \<Longrightarrow> r = r'"
proof -
  have pow: "(crc_shift ^^ k) x = (crc_shift ^^ k) y \<Longrightarrow> x = y" for k x y
    by (induction k arbitrary: x y) (auto dest: crc_shift_inject)
  assume "crc_byte r b = crc_byte r' b"
  then have "r XOR ucast b = r' XOR ucast b" unfolding crc_byte_def by (rule pow)
  then have "(r XOR ucast b) XOR ucast b = (r' XOR ucast b) XOR ucast b" by simp
  then show ?thesis by (simp only: xor.assoc xor_self_eq xor.right_neutral)
qed

lemma byte_ucast_inject: "(ucast b :: 32 word) = ucast b' \<Longrightarrow> b = b'" for b b' :: "8 word"
proof (rule bit_word_eqI)
  fix n assume eq: "(ucast b :: 32 word) = ucast b'" and n: "n < LENGTH(8)"
  have "bit c n = bit (ucast c :: 32 word) n" for c :: "8 word"
    using n by (simp add: bit_unsigned_iff)
  with eq show "bit b n = bit b' n" by metis
qed

lemma crc_byte_inject_byte: "crc_byte r b = crc_byte r b' \<Longrightarrow> b = b'"
proof -
  have pow: "(crc_shift ^^ k) x = (crc_shift ^^ k) y \<Longrightarrow> x = y" for k x y
    by (induction k arbitrary: x y) (auto dest: crc_shift_inject)
  assume "crc_byte r b = crc_byte r b'"
  then have "r XOR ucast b = r XOR ucast b'" unfolding crc_byte_def by (rule pow)
  then have "r XOR (r XOR ucast b) = r XOR (r XOR ucast b')" by simp
  then have "(ucast b :: 32 word) = ucast b'" by (simp only: xor.assoc [symmetric] xor_self_eq xor.left_neutral)
  then show ?thesis by (rule byte_ucast_inject)
qed

lemma crc_fold_inject: "foldl crc_byte r xs = foldl crc_byte r' xs \<Longrightarrow> r = r'"
  by (induction xs arbitrary: r r') (auto dest: crc_byte_inject_reg)

lemma crc32_one_byte:
  assumes "i < length xs" and "b \<noteq> xs ! i"
  shows "crc32 (xs[i := b]) \<noteq> crc32 xs"
proof
  assume "crc32 (xs[i := b]) = crc32 xs"
  then have eq: "foldl crc_byte (NOT 0) (xs[i := b]) = foldl crc_byte (NOT 0) xs"
    unfolding crc32_def by (metis bit.double_compl unsigned_word_eqI)
  have xs: "xs = take i xs @ xs ! i # drop (Suc i) xs" using assms(1) by (rule id_take_nth_drop)
  have xb: "xs[i := b] = take i xs @ b # drop (Suc i) xs" using assms(1) by (rule upd_conv_take_nth_drop)
  let ?r = "foldl crc_byte (NOT 0) (take i xs)"
  have "foldl crc_byte (crc_byte ?r b) (drop (Suc i) xs) = foldl crc_byte (crc_byte ?r (xs ! i)) (drop (Suc i) xs)"
    using eq unfolding xb by (subst (asm) (3) xs) simp
  then have "crc_byte ?r b = crc_byte ?r (xs ! i)" by (rule crc_fold_inject)
  then show False using crc_byte_inject_byte assms(2) by blast
qed

lemma crc32_range: "crc32 xs < 256 ^ 4"
proof -
  have "unat w < 2 ^ LENGTH(32)" for w :: "32 word" by (rule unsigned_less)
  then show ?thesis by (simp add: crc32_def)
qed

subsection \<open>Frame round trip\<close>

definition wf_frame :: "Frame \<Rightarrow> bool" where
  "wf_frame f \<longleftrightarrow> length (fr_payload f) \<le> MAX_FRAME \<and> fr_minor f < 65536 \<and> fr_flags f < 2"

lemma stream_of_num: "stream_of (unat (of_nat (stream_num s) :: 8 word)) = Some s"
  by (cases s) (simp_all add: stream_of_def)

lemma message_type_of_num: "message_type_of (unat (of_nat (type_num t) :: 8 word)) = Some t"
  by (cases t) (simp_all add: message_type_of_def message_types_def)

definition frame_body :: "Frame \<Rightarrow> bytes" where
  "frame_body f = le_bytes 2 1 @ le_bytes 2 (fr_minor f) @
     [of_nat (stream_num (fr_stream f)), of_nat (type_num (fr_type f))] @
     le_bytes 2 (fr_flags f) @ le_bytes 4 (length (fr_payload f)) @ fr_payload f"

lemma encode_frame_bytes:
  assumes "wf_frame f"
  shows "encode_frame f = Inr (le_bytes 4 MAGIC @ frame_body f @ le_bytes 4 (crc32 (frame_body f)))"
proof -
  have "length (fr_payload f) < 256 ^ 4" using assms by (simp add: wf_frame_def MAX_FRAME_def)
  then show ?thesis
    using assms crc32_range [of "frame_body f"]
    by (simp add: encode_frame_def to_bytes_def wf_frame_def PROTOCOL_MAJOR_def MAGIC_def frame_body_def Let_def)
qed

lemma frame_layout:
  fixes mg ma mi st fl ln pl cr :: bytes
  assumes "length mg = 4" "length ma = 2" "length mi = 2" "length st = 2" "length fl = 2" "length ln = 4"
    "length pl = n" "length cr = 4"
  defines "d \<equiv> mg @ ma @ mi @ st @ fl @ ln @ pl @ cr"
  shows "part 0 4 d = mg" "part 4 6 d = ma" "part 6 8 d = mi" "part 10 12 d = fl" "part 12 16 d = ln"
    "part 16 (16 + n) d = pl" "drop (16 + n) d = cr" "length d = 20 + n" "d ! 8 = st ! 0" "d ! 9 = st ! 1"
    "part 4 (16 + n) d = ma @ mi @ st @ fl @ ln @ pl"
  using assms by (simp_all add: part_def d_def nth_append)

lemma decode_encode_frame:
  assumes wf: "wf_frame f"
  shows "\<exists>b. encode_frame f = Inr b \<and> decode_frame b = Inr f"
proof -
  let ?n = "length (fr_payload f)"
  let ?d = "le_bytes 4 MAGIC @ frame_body f @ le_bytes 4 (crc32 (frame_body f))"
  have n: "?n < 256 ^ 4" "?n \<le> MAX_FRAME" using wf by (simp_all add: wf_frame_def MAX_FRAME_def)
  have m: "fr_minor f < 256 ^ 2" "fr_flags f < 256 ^ 2" using wf by (simp_all add: wf_frame_def)
  have fl: "fr_flags f AND RESERVED_FLAGS = 0"
  proof -
    have "fr_flags f = 0 \<or> fr_flags f = 1" using wf by (auto simp: wf_frame_def)
    then show ?thesis by (auto simp: RESERVED_FLAGS_def)
  qed
  note lay = frame_layout [of "le_bytes 4 MAGIC" "le_bytes 2 1" "le_bytes 2 (fr_minor f)"
      "[of_nat (stream_num (fr_stream f)), of_nat (type_num (fr_type f))]" "le_bytes 2 (fr_flags f)"
      "le_bytes 4 ?n" "fr_payload f" ?n "le_bytes 4 (crc32 (frame_body f))", simplified]
  have d: "?d = le_bytes 4 MAGIC @ le_bytes 2 1 @ le_bytes 2 (fr_minor f) @
      of_nat (stream_num (fr_stream f)) # of_nat (type_num (fr_type f)) # le_bytes 2 (fr_flags f) @
      le_bytes 4 ?n @ fr_payload f @ le_bytes 4 (crc32 (frame_body f))"
    by (simp add: frame_body_def)
  have "decode_frame ?d = Inr f"
    unfolding decode_frame_def d HEADER_SIZE_def TRAILER_SIZE_def PROTOCOL_MAJOR_def
    using lay from_le_bytes [of MAGIC 4] from_le_bytes [OF m(1)] from_le_bytes [OF m(2)] from_le_bytes [OF n(1)]
      from_le_bytes [OF crc32_range, of "frame_body f"] from_le_bytes [of 1 2] n(2) fl
    by (simp add: MAGIC_def stream_of_num message_type_of_num frame_body_def)
  then show ?thesis using encode_frame_bytes [OF wf] by blast
qed

lemma decode_frame_error: "decode_frame d = Inl e \<Longrightarrow> e = RaftProtocolError"
  by (auto simp: decode_frame_def Let_def split: if_splits option.splits)

interpretation frame_codec: wire_protocol encode_frame decode_frame wf_frame
  by unfold_locales (rule decode_encode_frame, assumption, erule decode_frame_error)

lemma decode_frame_checks:
  assumes "decode_frame d = Inr f"
  shows "from_bytes (part 0 4 d) = MAGIC" "length d = 20 + from_bytes (part 12 16 d)"
    "from_bytes (part 12 16 d) \<le> MAX_FRAME"
    "from_bytes (drop (16 + from_bytes (part 12 16 d)) d) = crc32 (part 4 (16 + from_bytes (part 12 16 d)) d)"
  using assms
  by (auto simp: decode_frame_def HEADER_SIZE_def TRAILER_SIZE_def Let_def split: if_splits option.splits)

lemma read_frame_bytes:
  assumes "decode_frame b = Inr f"
  shows "read_frame (b @ rest) = Inr (f, rest)"
proof -
  note c = decode_frame_checks [OF assms]
  have p: "part 12 16 (take 16 b) = part 12 16 b" by (simp add: part_def)
  have t: "take 16 (b @ rest) = take 16 b" "drop 16 (b @ rest) = drop 16 b @ rest"
    using c(2) by simp_all
  have split: "take 16 b @ drop 16 b = b" by simp
  have len: "length (drop 16 b) = from_bytes (part 12 16 b) + 4" using c(2) by simp
  show ?thesis
    using c(2,3) assms len
    by (simp add: read_frame_def read_exactly_def HEADER_SIZE_def TRAILER_SIZE_def t p split)
qed

subsection \<open>What the wire format promises\<close>

text \<open>
  Varints round trip exactly below \<open>2 ^ 70\<close>. Any non-negative number encodes; decoding
  returns it and the rest of the buffer untouched when it is below \<open>2 ^ 70\<close>, and refuses it
  as a protocol error otherwise (ten bytes are not enough); a negative number is refused by
  the encoder.
\<close>

theorem varint_round_trip:
  "(0 \<le> v \<longrightarrow> (\<exists>b. encode_varint v = Inr b \<and>
      decode_varint (b @ rest) = (if v < 2 ^ 70 then Inr (nat v, rest) else Inl RaftProtocolError))) \<and>
   (v < 0 \<longrightarrow> encode_varint v = Inl ValueError)"
proof -
  have "nat v < 2 ^ 70 \<longleftrightarrow> v < 2 ^ 70" if "0 \<le> v" using that by (simp add: nat_less_iff)
  then show ?thesis by (simp add: encode_varint_def decode_varint_bytes)
qed

theorem varint_round_trip_witness:
  "encode_varint 300 = Inr [172, 2] \<and> (\<exists>b. encode_varint 300 = Inr b \<and> decode_varint (b @ [7]) = Inr (300, [7]))"
proof
  have "varint_bytes 300 = [172, 2]" by (simp add: varint_bytes_large varint_bytes_small)
  then show "encode_varint 300 = Inr [172, 2]" by (simp add: encode_varint_def)
  show "\<exists>b. encode_varint 300 = Inr b \<and> decode_varint (b @ [7]) = Inr (300, [7])"
    using varint_round_trip [of 300 "[7]"] by simp
qed

text \<open>
  Frames are self-delimiting. A frame in range encodes, and reading from a stream that
  carries its encoding followed by anything returns exactly that frame and leaves exactly
  what follows, so a sequence of frames is read back one by one.
\<close>

theorem read_frame_encoded:
  assumes wf: "wf_frame f"
  shows "\<exists>b. encode_frame f = Inr b \<and> decode_frame b = Inr f \<and> read_frame (b @ rest) = Inr (f, rest)"
proof -
  obtain b where b: "encode_frame f = Inr b" "decode_frame b = Inr f"
    using frame_codec.round_trip [OF wf] by blast
  with read_frame_bytes [OF b(2), of rest] show ?thesis by blast
qed

definition sample_frame :: Frame where
  "sample_frame = \<lparr>fr_stream = BULK, fr_type = PING, fr_flags = 1, fr_payload = [1, 2, 3], fr_minor = 0\<rparr>"

lemma sample_frame_wf: "wf_frame sample_frame"
  by (simp add: wf_frame_def sample_frame_def MAX_FRAME_def)

theorem read_frame_encoded_witness:
  "\<exists>b. encode_frame sample_frame = Inr b \<and> read_frame (b @ [9, 9]) = Inr (sample_frame, [9, 9])"
  using read_frame_encoded [OF sample_frame_wf, of "[9, 9]"] by blast

text \<open>
  C38: no corrupted byte goes unnoticed. Change any one byte of an acceptable frame, in the
  header, the payload or the checksum, to any other value: the result is refused as a
  protocol error.
\<close>

theorem decode_frame_detects_byte:
  assumes ok: "decode_frame d = Inr f" and i: "i < length d" and b: "b \<noteq> d ! i"
  shows "decode_frame (d[i := b]) = Inl RaftProtocolError"
proof (rule ccontr)
  let ?d = "d[i := b]" and ?L = "from_bytes (part 12 16 d)"
  assume "decode_frame ?d \<noteq> Inl RaftProtocolError"
  then obtain g where g: "decode_frame ?d = Inr g"
    using decode_frame_error by (cases "decode_frame ?d") auto
  note c = decode_frame_checks [OF ok] and c' = decode_frame_checks [OF g]
  have L: "from_bytes (part 12 16 ?d) = ?L" using c(2) c'(2) by simp
  have ne: "xs[k := b] \<noteq> xs" if k: "k < length xs" "xs ! k = d ! i" for xs k
  proof
    assume "xs[k := b] = xs"
    then have "xs[k := b] ! k = xs ! k" by simp
    then show False using k b by simp
  qed
  consider "i < 4" | "4 \<le> i" "i < 16 + ?L" | "16 + ?L \<le> i" by linarith
  then show False
  proof cases
    case 1
    then have "part 0 4 ?d = (part 0 4 d)[i := b]" by (simp add: part_def take_update_swap)
    moreover have "length (part 0 4 ?d) = length (part 0 4 d)" by (simp add: part_def)
    moreover have "from_bytes (part 0 4 ?d) = from_bytes (part 0 4 d)" by (rule trans [OF c'(1) c(1) [symmetric]])
    ultimately have "(part 0 4 d)[i := b] = part 0 4 d"
      using from_bytes_inject by metis
    moreover have "i < length (part 0 4 d)" "part 0 4 d ! i = d ! i" using 1 i by (simp_all add: part_def)
    ultimately show False using ne by blast
  next
    case 2
    have "drop (16 + ?L) ?d = drop (16 + ?L) d" using 2(2) by simp
    then have "crc32 (part 4 (16 + ?L) ?d) = crc32 (part 4 (16 + ?L) d)" using c(4) c'(4) L by simp
    moreover have "part 4 (16 + ?L) ?d = (part 4 (16 + ?L) d)[i - 4 := b]"
      using 2 by (simp add: part_def take_update_swap drop_update_swap)
    moreover have "i - 4 < length (part 4 (16 + ?L) d)" "part 4 (16 + ?L) d ! (i - 4) = d ! i"
      using 2 i by (simp_all add: part_def)
    ultimately show False using crc32_one_byte b by metis
  next
    case 3
    have "part 4 (16 + ?L) ?d = part 4 (16 + ?L) d" using 3 by (simp add: part_def)
    then have "from_bytes (drop (16 + ?L) ?d) = from_bytes (drop (16 + ?L) d)" using c(4) c'(4) L by simp
    then have "drop (16 + ?L) ?d = drop (16 + ?L) d" by (intro from_bytes_inject) simp_all
    moreover have "drop (16 + ?L) ?d = (drop (16 + ?L) d)[i - (16 + ?L) := b]"
      using 3 by (simp add: drop_update_swap)
    moreover have "i - (16 + ?L) < length (drop (16 + ?L) d)" "drop (16 + ?L) d ! (i - (16 + ?L)) = d ! i"
      using 3 i by simp_all
    ultimately show False using ne by metis
  qed
qed

theorem decode_frame_detects_byte_witness:
  "\<exists>d. encode_frame sample_frame = Inr d \<and> decode_frame (d[5 := d ! 5 + 1]) = Inl RaftProtocolError"
proof -
  obtain d where d: "encode_frame sample_frame = Inr d" "decode_frame d = Inr sample_frame"
    using frame_codec.round_trip [OF sample_frame_wf] by blast
  have "5 < length d" using decode_frame_checks(2) [OF d(2)] by simp
  then show ?thesis using d decode_frame_detects_byte [OF d(2), of 5 "d ! 5 + 1"] by simp
qed

end
