(* ===== verification/Operations.thy ===== *)
theory Operations
  imports Registry_Types Wire
begin

section \<open>Registry operations\<close>

text \<open>
  \<open>src/nmos/raft/operations.py\<close>: what a log entry carries, and its encoding. The union
  \<open>RegistryOperation\<close> is a datatype with one constructor per operation class, the fields in
  the order of the class. The codec follows the code field by field: \<open>op_body\<close> is the
  writer's chain for each class, \<open>op_step\<close> the body of the decoder's inner loop.
\<close>

subsection \<open>Data\<close>

datatype OpKind =
    NOOP | REGISTER | UNREGISTER | EXPIRE | FORGET | CLAIM_OWNERSHIP | RELEASE_OWNERSHIP | MEMBER_DOWN

fun kind_num :: "OpKind \<Rightarrow> int" where
  "kind_num NOOP = 0"
| "kind_num REGISTER = 1"
| "kind_num UNREGISTER = 2"
| "kind_num EXPIRE = 3"
| "kind_num FORGET = 4"
| "kind_num CLAIM_OWNERSHIP = 5"
| "kind_num RELEASE_OWNERSHIP = 6"
| "kind_num MEMBER_DOWN = 7"

definition op_kinds :: "OpKind list" where
  "op_kinds = [NOOP, REGISTER, UNREGISTER, EXPIRE, FORGET, CLAIM_OWNERSHIP, RELEASE_OWNERSHIP, MEMBER_DOWN]"

text \<open>\<open>OpKind(value)\<close>; \<open>None\<close> where it raises \<open>ValueError\<close>.\<close>

definition op_kind_of :: "int \<Rightarrow> OpKind option" where
  "op_kind_of v = find (\<lambda>k. kind_num k = v) op_kinds"

datatype ProposalId = ProposalId (pid_member: int) (pid_sequence: int)

datatype RegistryOperation =
    NoopOp (op_proposal: ProposalId)
  | RegisterOp (op_proposal: ProposalId) (op_type: ResourceType) (op_resource: pystr) (op_node: pystr)
      (op_text: pystr) (op_created: TaiCursor) (op_updated: TaiCursor) (op_health: int)
      (op_expect_created: bool) (op_claim_owner: "int option")
  | UnregisterOp (op_proposal: ProposalId) (op_type: ResourceType) (op_resource: pystr)
  | ExpireOp (op_proposal: ProposalId) (op_node: pystr)
  | ForgetOp (op_proposal: ProposalId) (op_victims: "(ResourceType \<times> pystr) list")
  | ClaimOwnershipOp (op_proposal: ProposalId) (op_node: pystr) (op_owner: int)
  | ReleaseOwnershipOp (op_proposal: ProposalId) (op_node: pystr)
  | MemberDownOp (op_proposal: ProposalId) (op_member: int)

fun op_kind :: "RegistryOperation \<Rightarrow> OpKind" where
  "op_kind (NoopOp p) = NOOP"
| "op_kind (RegisterOp p rt i n b c u h x o') = REGISTER"
| "op_kind (UnregisterOp p rt i) = UNREGISTER"
| "op_kind (ExpireOp p n) = EXPIRE"
| "op_kind (ForgetOp p vs) = FORGET"
| "op_kind (ClaimOwnershipOp p n w) = CLAIM_OWNERSHIP"
| "op_kind (ReleaseOwnershipOp p n) = RELEASE_OWNERSHIP"
| "op_kind (MemberDownOp p m) = MEMBER_DOWN"

subsection \<open>Nested messages\<close>

text \<open>
  \<open>ProposalId\<close> and \<open>TaiCursor\<close> travel the same way, as fields 1 and 2 of a nested message:
  \<open>write_pair\<close> is the writer both share, \<open>pair_step\<close> the loop body of both readers.
\<close>

definition write_pair :: "nat \<Rightarrow> int \<Rightarrow> int \<Rightarrow> bytes res" where
  "write_pair field a b = bind_res (w_take [w_uint 1 a, w_uint 2 b]) (w_bytes field)"

definition write_proposal :: "ProposalId \<Rightarrow> bytes res" where
  "write_proposal p = write_pair 1 (pid_member p) (pid_sequence p)"

definition write_cursor :: "nat \<Rightarrow> TaiCursor \<Rightarrow> bytes res" where
  "write_cursor field c = write_pair field (seconds c) (nanoseconds c)"

definition pair_step :: "nat \<Rightarrow> nat \<Rightarrow> int \<times> int \<Rightarrow> bytes \<Rightarrow> ((int \<times> int) \<times> bytes) res" where
  "pair_step number wire s data =
     (if number = 1 then reads (r_uint data) (\<lambda>v. (v, snd s))
      else if number = 2 then reads (r_uint data) (\<lambda>v. (fst s, v))
      else skips wire s data)"

definition read_proposal :: "bytes \<Rightarrow> ProposalId res" where
  "read_proposal payload =
     bind_res (read_fields pair_step payload (0, 0)) (\<lambda>(member, sequence). Inr (ProposalId member sequence))"

definition read_cursor :: "bytes \<Rightarrow> TaiCursor res" where
  "read_cursor payload =
     bind_res (read_fields pair_step payload (0, 0)) (\<lambda>(s, n). Inr (TaiCursor s n))"

definition resource_type_named :: "pystr \<Rightarrow> ResourceType res" where
  "resource_type_named v =
     (case from_singular v of None \<Rightarrow> Inl RaftProtocolError | Some rt \<Rightarrow> Inr rt)"

definition write_victim :: "ResourceType \<times> pystr \<Rightarrow> bytes res" where
  "write_victim v = bind_res (w_take [w_string 1 (singular (fst v)), w_string 2 (snd v)]) (w_bytes 2)"

definition victim_step :: "nat \<Rightarrow> nat \<Rightarrow> pystr \<times> pystr \<Rightarrow> bytes \<Rightarrow> ((pystr \<times> pystr) \<times> bytes) res" where
  "victim_step number wire s data =
     (if number = 1 then reads (r_string data) (\<lambda>v. (v, snd s))
      else if number = 2 then reads (r_string data) (\<lambda>v. (fst s, v))
      else skips wire s data)"

definition read_victim :: "bytes \<Rightarrow> (ResourceType \<times> pystr) res" where
  "read_victim payload =
     bind_res (read_fields victim_step payload ([], [])) (\<lambda>(name, i).
     bind_res (resource_type_named name) (\<lambda>rt. Inr (rt, i)))"

subsection \<open>Encoding\<close>

fun op_body :: "RegistryOperation \<Rightarrow> bytes res" where
  "op_body (NoopOp p) = w_take [write_proposal p]"
| "op_body (RegisterOp p rt i n b c u h x o') =
     w_take ([write_proposal p, w_string 2 (singular rt), w_string 3 i, w_string 4 n, w_string 5 b,
              write_cursor 6 c, write_cursor 7 u, w_uint 8 h, w_bool 9 x]
             @ (case o' of None \<Rightarrow> [] | Some m \<Rightarrow> [w_uint 10 m]))"
| "op_body (UnregisterOp p rt i) = w_take [write_proposal p, w_string 2 (singular rt), w_string 3 i]"
| "op_body (ExpireOp p n) = w_take [write_proposal p, w_string 2 n]"
| "op_body (ForgetOp p vs) = w_take (write_proposal p # map write_victim vs)"
| "op_body (ClaimOwnershipOp p n w) = w_take [write_proposal p, w_string 2 n, w_uint 3 w]"
| "op_body (ReleaseOwnershipOp p n) = w_take [write_proposal p, w_string 2 n]"
| "op_body (MemberDownOp p m) = w_take [write_proposal p, w_uint 2 m]"

definition encode_operation :: "RegistryOperation \<Rightarrow> bytes res" where
  "encode_operation op =
     bind_res (op_body op) (\<lambda>b. w_take [w_uint 1 (kind_num (op_kind op)), w_bytes 2 b])"

subsection \<open>Decoding\<close>

text \<open>The decoder's local variables.\<close>

record OpFields =
  of_proposal :: ProposalId
  of_type_name :: pystr
  of_resource :: pystr
  of_node :: pystr
  of_text :: pystr
  of_created :: TaiCursor
  of_updated :: TaiCursor
  of_health :: int
  of_expect :: bool
  of_owner :: "int option"
  of_member :: int
  of_victims :: "(ResourceType \<times> pystr) list"

definition no_fields :: OpFields where
  "no_fields = \<lparr>of_proposal = ProposalId 0 0, of_type_name = [], of_resource = [], of_node = [],
     of_text = [], of_created = cursor_min, of_updated = cursor_min, of_health = 0, of_expect = False,
     of_owner = None, of_member = 0, of_victims = []\<rparr>"

definition outer_step ::
  "nat \<Rightarrow> nat \<Rightarrow> int option \<times> bytes \<Rightarrow> bytes \<Rightarrow> ((int option \<times> bytes) \<times> bytes) res" where
  "outer_step number wire s data =
     (if number = 1 then reads (r_uint data) (\<lambda>v. (Some v, snd s))
      else if number = 2 then reads (r_bytes data) (\<lambda>v. (fst s, v))
      else skips wire s data)"

definition register_step :: "nat \<Rightarrow> nat \<Rightarrow> OpFields \<Rightarrow> bytes \<Rightarrow> (OpFields \<times> bytes) res" where
  "register_step number wire s data =
     (if number = 2 then reads (r_string data) (\<lambda>v. s\<lparr>of_type_name := v\<rparr>)
      else if number = 3 then reads (r_string data) (\<lambda>v. s\<lparr>of_resource := v\<rparr>)
      else if number = 4 then reads (r_string data) (\<lambda>v. s\<lparr>of_node := v\<rparr>)
      else if number = 5 then reads (r_string data) (\<lambda>v. s\<lparr>of_text := v\<rparr>)
      else if number = 6 then
        reads_res (r_bytes data) (\<lambda>b. bind_res (read_cursor b) (\<lambda>c. Inr (s\<lparr>of_created := c\<rparr>)))
      else if number = 7 then
        reads_res (r_bytes data) (\<lambda>b. bind_res (read_cursor b) (\<lambda>c. Inr (s\<lparr>of_updated := c\<rparr>)))
      else if number = 8 then reads (r_uint data) (\<lambda>v. s\<lparr>of_health := v\<rparr>)
      else if number = 9 then reads (r_bool data) (\<lambda>v. s\<lparr>of_expect := v\<rparr>)
      else if number = 10 then reads (r_uint data) (\<lambda>v. s\<lparr>of_owner := Some v\<rparr>)
      else skips wire s data)"

definition op_step :: "OpKind \<Rightarrow> nat \<Rightarrow> nat \<Rightarrow> OpFields \<Rightarrow> bytes \<Rightarrow> (OpFields \<times> bytes) res" where
  "op_step kind number wire s data =
     (if number = 1 then
        reads_res (r_bytes data) (\<lambda>b. bind_res (read_proposal b) (\<lambda>p. Inr (s\<lparr>of_proposal := p\<rparr>)))
      else if kind = REGISTER then register_step number wire s data
      else if kind = UNREGISTER then
        (if number = 2 then reads (r_string data) (\<lambda>v. s\<lparr>of_type_name := v\<rparr>)
         else if number = 3 then reads (r_string data) (\<lambda>v. s\<lparr>of_resource := v\<rparr>)
         else skips wire s data)
      else if kind = EXPIRE \<or> kind = RELEASE_OWNERSHIP then
        (if number = 2 then reads (r_string data) (\<lambda>v. s\<lparr>of_node := v\<rparr>) else skips wire s data)
      else if kind = FORGET then
        (if number = 2 then
           reads_res (r_bytes data) (\<lambda>b.
             bind_res (read_victim b) (\<lambda>v. Inr (s\<lparr>of_victims := of_victims s @ [v]\<rparr>)))
         else skips wire s data)
      else if kind = CLAIM_OWNERSHIP then
        (if number = 2 then reads (r_string data) (\<lambda>v. s\<lparr>of_node := v\<rparr>)
         else if number = 3 then reads (r_uint data) (\<lambda>v. s\<lparr>of_owner := Some v\<rparr>)
         else skips wire s data)
      else if kind = MEMBER_DOWN then
        (if number = 2 then reads (r_uint data) (\<lambda>v. s\<lparr>of_member := v\<rparr>) else skips wire s data)
      else skips wire s data)"

fun op_build :: "OpKind \<Rightarrow> OpFields \<Rightarrow> RegistryOperation res" where
  "op_build NOOP f = Inr (NoopOp (of_proposal f))"
| "op_build REGISTER f =
     bind_res (resource_type_named (of_type_name f)) (\<lambda>rt.
       Inr (RegisterOp (of_proposal f) rt (of_resource f) (of_node f) (of_text f) (of_created f)
              (of_updated f) (of_health f) (of_expect f) (of_owner f)))"
| "op_build UNREGISTER f =
     bind_res (resource_type_named (of_type_name f)) (\<lambda>rt.
       Inr (UnregisterOp (of_proposal f) rt (of_resource f)))"
| "op_build EXPIRE f = Inr (ExpireOp (of_proposal f) (of_node f))"
| "op_build FORGET f = Inr (ForgetOp (of_proposal f) (of_victims f))"
| "op_build CLAIM_OWNERSHIP f =
     (case of_owner f of
        None \<Rightarrow> Inl RaftProtocolError
      | Some w \<Rightarrow> Inr (ClaimOwnershipOp (of_proposal f) (of_node f) w))"
| "op_build RELEASE_OWNERSHIP f = Inr (ReleaseOwnershipOp (of_proposal f) (of_node f))"
| "op_build MEMBER_DOWN f = Inr (MemberDownOp (of_proposal f) (of_member f))"

definition decode_operation :: "bytes \<Rightarrow> RegistryOperation res" where
  "decode_operation data =
     bind_res (read_fields outer_step data (None, [])) (\<lambda>(kind_value, body).
       case kind_value of
         None \<Rightarrow> Inl RaftProtocolError
       | Some v \<Rightarrow>
           (case op_kind_of v of
              None \<Rightarrow> Inl RaftProtocolError
            | Some kind \<Rightarrow> bind_res (read_fields (op_step kind) body no_fields) (op_build kind)))"

subsection \<open>Round trips of the nested messages\<close>

definition wf_pair :: "int \<Rightarrow> int \<Rightarrow> bool" where
  "wf_pair a b \<longleftrightarrow> wf_uint a \<and> wf_uint b"

definition pair_bytes :: "int \<Rightarrow> int \<Rightarrow> bytes" where
  "pair_bytes a b = f_uint 1 (nat a) @ f_uint 2 (nat b)"

lemma write_pair_field [codec_simps]: "wf_pair a b \<Longrightarrow> write_pair field a b = Inr (f_bytes field (pair_bytes a b))"
  by (simp add: write_pair_def wf_pair_def codec_simps pair_bytes_def)

lemma read_pair: "wf_pair a b \<Longrightarrow> read_fields pair_step (pair_bytes a b) s = Inr (a, b)"
  by (simp add: wf_pair_def pair_bytes_def codec_simps pair_step_def)

lemma read_proposal_bytes [codec_simps]: "wf_pair m q \<Longrightarrow> read_proposal (pair_bytes m q) = Inr (ProposalId m q)"
  by (simp add: read_proposal_def read_pair)

lemma read_cursor_bytes [codec_simps]: "wf_pair a b \<Longrightarrow> read_cursor (pair_bytes a b) = Inr (TaiCursor a b)"
  by (simp add: read_cursor_def read_pair)

lemma wf_text_ascii: "list_all (\<lambda>c. c < 128) s \<Longrightarrow> length s < 100 \<Longrightarrow> wf_text s"
proof -
  assume s: "list_all (\<lambda>c. c < 128) s" "length s < 100"
  have "utf8_values s = Some s" using s(1) by (induction s) (simp_all add: utf8_char_def)
  then have "fits (length (str_bytes s))" using s(2) by (simp add: str_bytes_def utf8_encode_def fits_small)
  moreover have "list_all valid_char s" using s(1) by (auto simp: list_all_iff valid_char_def)
  ultimately show ?thesis by (simp add: wf_text_def)
qed

lemma singular_wf [simp]: "wf_text (singular rt)"
  by (rule wf_text_ascii; cases rt) (simp_all add: str_def)

lemma from_singular_singular [simp]: "from_singular (singular rt) = Some rt"
  by (simp add: from_singular_iff)

lemma resource_type_named_singular [codec_simps]: "resource_type_named (singular rt) = Inr rt"
  by (simp add: resource_type_named_def)

definition victim_bytes :: "ResourceType \<times> pystr \<Rightarrow> bytes" where
  "victim_bytes v = f_bytes 1 (str_bytes (singular (fst v))) @ f_bytes 2 (str_bytes (snd v))"

lemma write_victim_field [codec_simps]: "wf_text (snd v) \<Longrightarrow> write_victim v = Inr (f_bytes 2 (victim_bytes v))"
  by (simp add: write_victim_def codec_simps victim_bytes_def)

lemma read_victim_bytes [codec_simps]: "wf_text (snd v) \<Longrightarrow> read_victim (victim_bytes v) = Inr v"
  by (cases v) (simp add: read_victim_def victim_bytes_def codec_simps victim_step_def)

subsection \<open>Round trip of operations\<close>

text \<open>
  The operations the wire can carry: numbers that fit a varint, texts that are Unicode, and
  an encoding whose length fits one (a frame is at most 16 MiB).
\<close>

definition wf_proposal :: "ProposalId \<Rightarrow> bool" where
  "wf_proposal p \<longleftrightarrow> wf_pair (pid_member p) (pid_sequence p)"

definition wire_cursor :: "TaiCursor \<Rightarrow> bool" where
  "wire_cursor c \<longleftrightarrow> wf_pair (seconds c) (nanoseconds c)"

fun wf_op_fields :: "RegistryOperation \<Rightarrow> bool" where
  "wf_op_fields (NoopOp p) \<longleftrightarrow> True"
| "wf_op_fields (RegisterOp p rt i n b c u h x o') \<longleftrightarrow>
     wf_text i \<and> wf_text n \<and> wf_text b \<and> wire_cursor c \<and> wire_cursor u \<and> wf_uint h \<and>
     (case o' of None \<Rightarrow> True | Some m \<Rightarrow> wf_uint m)"
| "wf_op_fields (UnregisterOp p rt i) \<longleftrightarrow> wf_text i"
| "wf_op_fields (ExpireOp p n) \<longleftrightarrow> wf_text n"
| "wf_op_fields (ForgetOp p vs) \<longleftrightarrow> list_all (\<lambda>v. wf_text (snd v)) vs"
| "wf_op_fields (ClaimOwnershipOp p n w) \<longleftrightarrow> wf_text n \<and> wf_uint w"
| "wf_op_fields (ReleaseOwnershipOp p n) \<longleftrightarrow> wf_text n"
| "wf_op_fields (MemberDownOp p m) \<longleftrightarrow> wf_uint m"

definition wf_op :: "RegistryOperation \<Rightarrow> bool" where
  "wf_op op \<longleftrightarrow> wf_proposal (op_proposal op) \<and> wf_op_fields op \<and>
     (case op_body op of Inl _ \<Rightarrow> True | Inr b \<Rightarrow> fits (length b))"

lemma write_proposal_field [codec_simps]:
  "wf_proposal p \<Longrightarrow> write_proposal p = Inr (f_bytes 1 (pair_bytes (pid_member p) (pid_sequence p)))"
  by (simp add: write_proposal_def wf_proposal_def codec_simps)

lemma write_cursor_field [codec_simps]:
  "wire_cursor c \<Longrightarrow> write_cursor field c = Inr (f_bytes field (pair_bytes (seconds c) (nanoseconds c)))"
  by (simp add: write_cursor_def wire_cursor_def codec_simps)

lemma read_proposal_wf [codec_simps]:
  "wf_proposal p \<Longrightarrow> read_proposal (pair_bytes (pid_member p) (pid_sequence p)) = Inr p"
  by (simp add: wf_proposal_def read_proposal_bytes)

lemma read_cursor_wf [codec_simps]:
  "wire_cursor c \<Longrightarrow> read_cursor (pair_bytes (seconds c) (nanoseconds c)) = Inr c"
  by (simp add: wire_cursor_def read_cursor_bytes)

lemma op_kind_of_num [simp]: "op_kind_of (kind_num k) = Some k"
  by (cases k) (simp_all add: op_kind_of_def op_kinds_def)

lemma kind_num_wf [simp]: "wf_uint (kind_num k)"
  by (cases k) (simp_all add: wf_uint_def fits_small)

lemma w_take_victims:
  "list_all (\<lambda>v. wf_text (snd v)) vs \<Longrightarrow>
    w_take (map write_victim vs) = Inr (concat (map (\<lambda>v. f_bytes 2 (victim_bytes v)) vs))"
  by (induction vs) (simp_all add: codec_simps)

lemma wf_op_body: "wf_op op \<Longrightarrow> \<exists>b. op_body op = Inr b \<and> fits (length b)"
  unfolding wf_op_def
  by (cases op) (auto simp: codec_simps w_take_victims split: option.splits)

lemma length_varint_bytes: "v < 128 ^ Suc k \<Longrightarrow> length (varint_bytes v) \<le> Suc k"
proof (induction k arbitrary: v)
  case 0
  then show ?case by (simp add: varint_bytes_small)
next
  case (Suc k)
  show ?case
  proof (cases "v < 128")
    case False
    have "v div 128 < 128 ^ Suc k" using Suc.prems by (simp add: div_less_iff_less_mult mult.commute)
    then show ?thesis using Suc.IH [of "v div 128"] False by (simp add: varint_bytes_large)
  qed (simp add: varint_bytes_small)
qed

lemma length_varint_uint: "wf_uint v \<Longrightarrow> length (varint_bytes (nat v)) \<le> 10"
proof -
  assume "wf_uint v"
  then have "nat v < 2 ^ 70" by (simp only: wf_uint_def fits_def)
  moreover have "(2::nat) ^ 70 = 128 ^ Suc 9" using power_mult [of "2::nat" 7 10] by simp
  ultimately have "nat v < 128 ^ Suc 9" by (simp only:)
  then have "length (varint_bytes (nat v)) \<le> Suc 9" by (rule length_varint_bytes)
  then show ?thesis by simp
qed

lemma length_pair_bytes [codec_simps]: "wf_pair a b \<Longrightarrow> fits (length (pair_bytes a b))"
proof -
  assume w: "wf_pair a b"
  have "length (pair_bytes a b) \<le> 22"
    using length_varint_uint [of a] length_varint_uint [of b] w
    by (simp add: pair_bytes_def f_uint_def tag_bytes_def tag_value varint_bytes_small wf_pair_def)
  then show ?thesis by (intro fits_small) simp
qed

lemmas length_pair_wf [codec_simps] =
  length_pair_bytes [OF wf_proposal_def [THEN iffD1]]
  length_pair_bytes [OF wire_cursor_def [THEN iffD1]]

lemma read_victims:
  assumes "list_all (\<lambda>v. wf_text (snd v)) vs"
    and "fits (length (concat (map (\<lambda>v. f_bytes 2 (victim_bytes v)) vs)))"
  shows "read_fields (op_step FORGET) (concat (map (\<lambda>v. f_bytes 2 (victim_bytes v)) vs)) s =
    Inr (s\<lparr>of_victims := of_victims s @ vs\<rparr>)"
  using assms
proof (induction vs arbitrary: s)
  case (Cons v vs)
  have "fits (length (victim_bytes v))"
    by (rule fits_le [OF Cons.prems(2)]) (use length_f_bytes [of "victim_bytes v" 2] in simp)
  then have "op_step FORGET 2 2 s (varint_bytes (length (victim_bytes v)) @ victim_bytes v @ rest) =
      Inr (s\<lparr>of_victims := of_victims s @ [v]\<rparr>, rest)" for rest
    using Cons.prems(1) by (simp add: op_step_def r_bytes_field codec_simps)
  moreover have "fits (length (concat (map (\<lambda>v. f_bytes 2 (victim_bytes v)) vs)))"
    by (rule fits_le [OF Cons.prems(2)]) simp
  ultimately show ?case using Cons.IH Cons.prems(1) by (simp add: read_bytes_step)
qed simp

lemma read_op_body:
  assumes "wf_op op" and "op_body op = Inr b"
  shows "bind_res (read_fields (op_step (op_kind op)) b no_fields) (op_build (op_kind op)) = Inr op"
proof -
  have p: "wf_proposal (op_proposal op)" and f: "wf_op_fields op" and len: "fits (length b)"
    using assms by (auto simp: wf_op_def)
  show ?thesis
  proof (cases op)
    case (RegisterOp q rt i n t c u h x o')
    have fs: "wf_proposal q" "wf_text i" "wf_text n" "wf_text t" "wire_cursor c" "wire_cursor u" "wf_uint h"
      using p f RegisterOp by simp_all
    show ?thesis
    proof (cases o')
      case None
      show ?thesis
        using assms(2) fs unfolding RegisterOp None
        by (auto simp: codec_simps op_step_def register_step_def no_fields_def)
    next
      case (Some m)
      then have "wf_uint m" using f RegisterOp by simp
      then show ?thesis
        using assms(2) fs unfolding RegisterOp Some
        by (auto simp: codec_simps op_step_def register_step_def no_fields_def)
    qed
  next
    case (ForgetOp q vs)
    have w: "wf_proposal q" "list_all (\<lambda>v. wf_text (snd v)) vs" using p f ForgetOp by simp_all
    let ?vs = "concat (map (\<lambda>v. f_bytes 2 (victim_bytes v)) vs)"
    have b: "b = f_bytes 1 (pair_bytes (pid_member q) (pid_sequence q)) @ ?vs"
      using assms(2) w unfolding ForgetOp by (auto simp: codec_simps w_take_victims)
    then have "fits (length ?vs)" using fits_le [OF len] by simp
    note r = read_victims [OF w(2) this]
    show ?thesis
      unfolding ForgetOp b using w(1)
      by (simp add: r codec_simps op_step_def no_fields_def)
  qed (use assms(2) p f in \<open>auto simp: codec_simps op_step_def no_fields_def\<close>)
qed

lemma decode_encode_operation:
  assumes "wf_op op"
  shows "\<exists>b. encode_operation op = Inr b \<and> decode_operation b = Inr op"
proof -
  obtain b where b: "op_body op = Inr b" "fits (length b)" using wf_op_body [OF assms] by blast
  have e: "encode_operation op = Inr (f_uint 1 (nat (kind_num (op_kind op))) @ f_bytes 2 b)"
    by (simp add: encode_operation_def b codec_simps)
  have "read_fields outer_step (f_uint 1 (nat (kind_num (op_kind op))) @ f_bytes 2 b) (None, []) =
      Inr (Some (kind_num (op_kind op)), b)"
    using b(2) by (simp add: codec_simps outer_step_def)
  then have "decode_operation (f_uint 1 (nat (kind_num (op_kind op))) @ f_bytes 2 b) = Inr op"
    using read_op_body [OF assms b(1)] by (simp add: decode_operation_def)
  with e show ?thesis by blast
qed

subsection \<open>Refusals\<close>

lemma gives_pair_step [gives_intros]: "gives (length d) (pair_step k w s d)"
  unfolding pair_step_def by (intro gives_intros)

lemma gives_victim_step [gives_intros]: "gives (length d) (victim_step k w s d)"
  unfolding victim_step_def by (intro gives_intros)

lemma gives_outer_step [gives_intros]: "gives (length d) (outer_step k w s d)"
  unfolding outer_step_def by (intro gives_intros)

lemma resource_type_named_error: "resource_type_named v = Inl e \<Longrightarrow> e = RaftProtocolError"
  by (simp add: resource_type_named_def split: option.splits)

lemma read_proposal_error: "read_proposal b = Inl e \<Longrightarrow> e = RaftProtocolError"
  using read_fields_error [of pair_step, OF gives_pair_step]
  by (auto simp: read_proposal_def bind_res_splits)

lemma read_cursor_error: "read_cursor b = Inl e \<Longrightarrow> e = RaftProtocolError"
  using read_fields_error [of pair_step, OF gives_pair_step]
  by (auto simp: read_cursor_def bind_res_splits)

lemma read_victim_error: "read_victim b = Inl e \<Longrightarrow> e = RaftProtocolError"
  using read_fields_error [of victim_step, OF gives_victim_step] resource_type_named_error
  by (auto simp: read_victim_def bind_res_splits)

lemma gives_register_step [gives_intros]: "gives (length d) (register_step k w s d)"
  unfolding register_step_def
  by (intro gives_intros) (auto simp: bind_res_splits dest: read_cursor_error)

lemma gives_op_step [gives_intros]: "gives (length d) (op_step kind k w s d)"
  unfolding op_step_def
  by (intro gives_intros) (auto simp: bind_res_splits dest: read_proposal_error read_victim_error)

lemma op_build_error: "op_build k f = Inl e \<Longrightarrow> e = RaftProtocolError"
  by (cases k) (auto simp: bind_res_splits dest: resource_type_named_error split: option.splits)

lemma decode_operation_error: "decode_operation b = Inl e \<Longrightarrow> e = RaftProtocolError"
proof -
  assume failed: "decode_operation b = Inl e"
  have inner: "bind_res (read_fields (op_step kind) d no_fields) (op_build kind) = Inl e \<Longrightarrow> e = RaftProtocolError"
    for kind d
    using read_fields_error [of "op_step kind", OF gives_op_step] op_build_error
    by (auto simp: bind_res_splits)
  show ?thesis
  proof (cases "read_fields outer_step b (None, [])")
    case (Inl e')
    then show ?thesis
      using failed read_fields_error [of outer_step, OF gives_outer_step Inl] by (simp add: decode_operation_def)
  next
    case (Inr p)
    obtain k d where p: "p = (k, d)" by fastforce
    show ?thesis
      using failed inner unfolding decode_operation_def Inr p
      by (simp split: option.split_asm)
  qed
qed

interpretation op_codec: wire_protocol encode_operation decode_operation wf_op
  by unfold_locales (rule decode_encode_operation, assumption, erule decode_operation_error)

subsection \<open>What the operation codec promises\<close>

text \<open>
  C40: an operation reaches every member as it was proposed. Every operation whose numbers fit
  a varint and whose texts are Unicode encodes, and decodes to exactly itself, the optional
  ownership claim, the verbatim body and the order of forgotten records included; so
  operations that differ never share an encoding.
\<close>

theorem operation_round_trip:
  assumes "wf_op op"
  shows "\<exists>b. encode_operation op = Inr b \<and> decode_operation b = Inr op \<and>
    (\<forall>op'. wf_op op' \<and> encode_operation op' = Inr b \<longrightarrow> op' = op)"
  using op_codec.round_trip [OF assms] op_codec.enc_inject [OF _ assms] by metis

text \<open>A registration that claims its Node, and a forget of two records.\<close>

definition sample_register :: RegistryOperation where
  "sample_register = RegisterOp (ProposalId 1 7) NODE (str ''n1'') (str ''n1'') (str ''{}'')
     (TaiCursor 5 1) (TaiCursor 5 1) 100 True (Some 0)"

lemma sample_register_wf: "wf_op sample_register"
proof -
  have w: "wf_text (str ''n1'')" "wf_text (str ''{}'')" "wf_text (str ''node'')" by (simp_all add: wf_text_ascii str_def)
  have u: "wf_uint 0" "wf_uint 1" "wf_uint 5" "wf_uint 7" "wf_uint 100"
    by (simp_all add: wf_uint_def fits_small)
  have l: "str_bytes (str ''n1'') = [110, 49]" "str_bytes (str ''{}'') = [123, 125]"
    "str_bytes (str ''node'') = [110, 111, 100, 101]"
    by (simp_all add: str_bytes_def utf8_encode_def utf8_char_def str_def)
  have v: "length (varint_bytes n) \<le> 1" if "n < 128" for n using that by (simp add: varint_bytes_small)
  have c: "wire_cursor (TaiCursor 5 1)" "wf_proposal (ProposalId 1 7)"
    using u by (simp_all add: wire_cursor_def wf_proposal_def wf_pair_def)
  have "\<exists>b. op_body sample_register = Inr b \<and> length b < 1000"
    using w u c
    by (simp add: sample_register_def codec_simps l f_bytes_def f_uint_def tag_bytes_def tag_value
        pair_bytes_def varint_bytes_small)
  then show ?thesis using w u c by (auto simp: wf_op_def sample_register_def fits_small)
qed

theorem operation_round_trip_witness:
  "\<exists>b. encode_operation sample_register = Inr b \<and> decode_operation b = Inr sample_register"
  using operation_round_trip [OF sample_register_wf] by blast

text \<open>
  A malformed entry can always be refused in the reply. Whatever bytes a peer sends,
  \<open>decode_operation\<close> returns an operation or raises \<open>RaftProtocolError\<close>, the exception its
  caller handles, and nothing else.
\<close>

theorem decode_operation_refuses:
  "(\<exists>op. decode_operation data = Inr op) \<or> decode_operation data = Inl RaftProtocolError"
  by (rule op_codec.decode_cases)

end
