(* ===== verification/Ownership.thy ===== *)
theory Ownership
  imports Operations
begin

section \<open>Node ownership\<close>

text \<open>
  \<open>src/nmos/raft/ownership.py\<close>: which member owns which Node. The table is the class's one
  dictionary; epochs are log indices. Operations return the changed table and the value the
  method returns.
\<close>

datatype Ownership = Ownership (held_owner: int) (held_epoch: int)

type_synonym OwnershipTable = "(pystr, Ownership) pydict"

subsection \<open>Reading\<close>

definition owner_of_node :: "OwnershipTable \<Rightarrow> pystr \<Rightarrow> Ownership option" where
  "owner_of_node t node_id = dget t node_id"

definition is_owned_by :: "OwnershipTable \<Rightarrow> pystr \<Rightarrow> int \<Rightarrow> bool" where
  "is_owned_by t node_id member =
     (case dget t node_id of None \<Rightarrow> False | Some current \<Rightarrow> held_owner current = member)"

definition nodes_owned_by :: "OwnershipTable \<Rightarrow> int \<Rightarrow> pystr list" where
  "nodes_owned_by t member = sort (map fst (filter (\<lambda>(_, held). held_owner held = member) t))"

definition table_len :: "OwnershipTable \<Rightarrow> int" where
  "table_len t = int (length t)"

definition table_contains :: "OwnershipTable \<Rightarrow> pystr \<Rightarrow> bool" where
  "table_contains t node_id = (node_id \<in> set (dkeys t))"

subsection \<open>Changes\<close>

definition claim :: "OwnershipTable \<Rightarrow> pystr \<Rightarrow> int \<Rightarrow> int \<Rightarrow> OwnershipTable \<times> bool" where
  "claim t node_id owner epoch =
     (if (case dget t node_id of Some current \<Rightarrow> epoch \<le> held_epoch current | None \<Rightarrow> False)
      then (t, False) else (dset node_id (Ownership owner epoch) t, True))"

definition release :: "OwnershipTable \<Rightarrow> pystr \<Rightarrow> int \<Rightarrow> OwnershipTable \<times> bool" where
  "release t node_id epoch =
     (case dget t node_id of
        None \<Rightarrow> (t, False)
      | Some current \<Rightarrow>
          if epoch \<le> held_epoch current then (t, False) else (dpop node_id t, True))"

fun release_each :: "OwnershipTable \<Rightarrow> pystr list \<Rightarrow> int \<Rightarrow> OwnershipTable \<times> pystr list" where
  "release_each t [] epoch = (t, [])"
| "release_each t (n # ns) epoch =
     (let (t', changed) = release t n epoch; (t'', released) = release_each t' ns epoch
      in (t'', if changed then n # released else released))"

definition member_down :: "OwnershipTable \<Rightarrow> int \<Rightarrow> int \<Rightarrow> OwnershipTable \<times> pystr list" where
  "member_down t member epoch = release_each t (nodes_owned_by t member) epoch"

subsection \<open>Snapshot transfer\<close>

definition write_entry :: "OwnershipTable \<Rightarrow> pystr \<Rightarrow> bytes res" where
  "write_entry t node_id =
     (case dget t node_id of
        None \<Rightarrow> Inl KeyError
      | Some held \<Rightarrow>
          bind_res (w_take [w_string 1 node_id, w_uint 2 (held_owner held), w_uint 3 (held_epoch held)])
            (w_bytes 1))"

definition encode_table :: "OwnershipTable \<Rightarrow> bytes res" where
  "encode_table t = w_take (map (write_entry t) (sort (dkeys t)))"

definition entry_step ::
  "nat \<Rightarrow> nat \<Rightarrow> pystr \<times> int \<times> int \<Rightarrow> bytes \<Rightarrow> ((pystr \<times> int \<times> int) \<times> bytes) res" where
  "entry_step number wire s data =
     (case s of (node_id, owner, epoch) \<Rightarrow>
       if number = 1 then reads (r_string data) (\<lambda>v. (v, owner, epoch))
       else if number = 2 then reads (r_uint data) (\<lambda>v. (node_id, v, epoch))
       else if number = 3 then reads (r_uint data) (\<lambda>v. (node_id, owner, v))
       else skips wire s data)"

definition read_entry :: "bytes \<Rightarrow> (pystr \<times> int \<times> int) res" where
  "read_entry payload = read_fields entry_step payload ([], 0, 0)"

definition table_step :: "nat \<Rightarrow> nat \<Rightarrow> OwnershipTable \<Rightarrow> bytes \<Rightarrow> (OwnershipTable \<times> bytes) res" where
  "table_step number wire t data =
     (if number = 1 then
        reads_res (r_bytes data) (\<lambda>b.
          bind_res (read_entry b) (\<lambda>(node_id, owner, epoch). Inr (dset node_id (Ownership owner epoch) t)))
      else skips wire t data)"

definition decode_table :: "bytes \<Rightarrow> OwnershipTable res" where
  "decode_table payload = read_fields table_step payload []"

subsection \<open>Lemmas: claims and releases\<close>

lemma claim_wf [wf_intros]: "wf_dict t \<Longrightarrow> wf_dict (fst (claim t n w e))"
  by (simp add: claim_def wf_dict_dset)

lemma release_wf [wf_intros]: "wf_dict t \<Longrightarrow> wf_dict (fst (release t n e))"
  by (simp add: release_def wf_dict_dpop split: option.splits)

lemma release_get:
  "dget (fst (release t n e)) x =
    (if x = n \<and> (\<exists>h. dget t n = Some h \<and> held_epoch h < e) then None else dget t x)"
  by (auto simp: release_def not_le split: option.splits)

lemma release_changed: "snd (release t n e) \<longleftrightarrow> (\<exists>h. dget t n = Some h \<and> held_epoch h < e)"
  by (auto simp: release_def not_le split: option.splits)

lemma release_each_wf [wf_intros]: "wf_dict t \<Longrightarrow> wf_dict (fst (release_each t ns e))"
  by (induction ns arbitrary: t) (simp_all add: split_beta release_wf)

lemma release_each_get:
  "dget (fst (release_each t ns e)) x =
    (if x \<in> set ns \<and> (\<exists>h. dget t x = Some h \<and> held_epoch h < e) then None else dget t x)"
  by (induction ns arbitrary: t) (auto simp: split_beta release_get)

lemma release_each_released:
  assumes "distinct ns"
  shows "snd (release_each t ns e) = filter (\<lambda>n. \<exists>h. dget t n = Some h \<and> held_epoch h < e) ns"
  using assms
proof (induction ns arbitrary: t)
  case (Cons n ns)
  let ?t = "fst (release t n e)"
  have "filter (\<lambda>x. \<exists>h. dget ?t x = Some h \<and> held_epoch h < e) ns =
        filter (\<lambda>x. \<exists>h. dget t x = Some h \<and> held_epoch h < e) ns"
    using Cons.prems by (intro filter_cong) (auto simp: release_get)
  then show ?case
    using Cons by (simp add: split_beta release_changed)
qed simp

lemma nodes_owned_by_iff: "wf_dict t \<Longrightarrow> n \<in> set (nodes_owned_by t m) \<longleftrightarrow> is_owned_by t n m"
  using dget_in_set [of t n]
  by (auto simp: nodes_owned_by_def is_owned_by_def image_iff split: option.splits)

lemma nodes_owned_by_sorted: "wf_dict t \<Longrightarrow> sorted (nodes_owned_by t m)" "wf_dict t \<Longrightarrow> distinct (nodes_owned_by t m)"
  by (simp_all add: nodes_owned_by_def wf_dict_def distinct_map_filter)

text \<open>Every epoch in the table is the index of an entry already applied.\<close>

definition epochs_upto :: "int \<Rightarrow> OwnershipTable \<Rightarrow> bool" where
  "epochs_upto n t \<longleftrightarrow> (\<forall>k h. dget t k = Some h \<longrightarrow> held_epoch h \<le> n)"

lemma epochs_uptoD: "epochs_upto n t \<Longrightarrow> dget t k = Some h \<Longrightarrow> held_epoch h \<le> n"
  by (simp add: epochs_upto_def)

lemma epochs_upto_mono: "epochs_upto n t \<Longrightarrow> n \<le> m \<Longrightarrow> epochs_upto m t"
  unfolding epochs_upto_def by (meson order_trans)

lemma epochs_upto_claim: "epochs_upto n t \<Longrightarrow> n \<le> e \<Longrightarrow> epochs_upto e (fst (claim t k w e))"
  by (auto simp: claim_def epochs_upto_def dest: order_trans)

lemma epochs_upto_release: "epochs_upto n t \<Longrightarrow> epochs_upto n (fst (release t k e))"
  by (simp add: epochs_upto_def release_get)

lemma epochs_upto_release_each: "epochs_upto n t \<Longrightarrow> epochs_upto n (fst (release_each t ks e))"
  by (simp add: epochs_upto_def release_each_get)

subsection \<open>Lemmas: the snapshot codec\<close>

definition entry_bytes :: "pystr \<Rightarrow> Ownership \<Rightarrow> bytes" where
  "entry_bytes n h = f_bytes 1 (str_bytes n) @ f_uint 2 (nat (held_owner h)) @ f_uint 3 (nat (held_epoch h))"

definition wf_entry :: "pystr \<times> Ownership \<Rightarrow> bool" where
  "wf_entry e \<longleftrightarrow> wf_text (fst e) \<and> wf_uint (held_owner (snd e)) \<and> wf_uint (held_epoch (snd e))"

definition entries_bytes :: "(pystr \<times> Ownership) list \<Rightarrow> bytes" where
  "entries_bytes es = concat (map (\<lambda>(n, h). f_bytes 1 (entry_bytes n h)) es)"

text \<open>The table in the order it is written.\<close>

definition sorted_table :: "OwnershipTable \<Rightarrow> OwnershipTable" where
  "sorted_table t = map (\<lambda>n. (n, the (dget t n))) (sort (dkeys t))"

definition wf_table :: "OwnershipTable \<Rightarrow> bool" where
  "wf_table t \<longleftrightarrow> wf_dict t \<and> list_all wf_entry t \<and> fits (length (entries_bytes (sorted_table t)))"

lemma sorted_table_entries: "wf_dict t \<Longrightarrow> set (sorted_table t) = set t"
  using dget_in_set [of t] by (force simp: sorted_table_def)

lemma write_entry_field [codec_simps]:
  "dget t n = Some h \<Longrightarrow> wf_entry (n, h) \<Longrightarrow> write_entry t n = Inr (f_bytes 1 (entry_bytes n h))"
  by (simp add: write_entry_def wf_entry_def codec_simps entry_bytes_def)

lemma encode_table_entries:
  assumes "wf_dict t" and "list_all wf_entry t"
  shows "encode_table t = Inr (entries_bytes (sorted_table t))"
proof -
  have "w_take (map (write_entry t) ns) = Inr (entries_bytes (map (\<lambda>n. (n, the (dget t n))) ns))"
    if "set ns \<subseteq> set (dkeys t)" for ns
    using that
  proof (induction ns)
    case (Cons n ns)
    then obtain h where h: "(n, h) \<in> set t" by auto
    then have "dget t n = Some h" "wf_entry (n, h)"
      using assms dget_in_set [of t n h] by (auto simp: list_all_iff)
    then show ?case using Cons by (simp add: write_entry_field entries_bytes_def)
  qed (simp add: entries_bytes_def)
  then show ?thesis by (simp add: encode_table_def sorted_table_def)
qed

lemma read_entry_bytes: "wf_entry (n, h) \<Longrightarrow> read_entry (entry_bytes n h) = Inr (n, held_owner h, held_epoch h)"
  by (simp add: read_entry_def wf_entry_def entry_bytes_def codec_simps entry_step_def)

lemma read_table_entries:
  assumes "list_all wf_entry es" and "distinct (map fst (t @ es))" and "fits (length (entries_bytes es))"
  shows "read_fields table_step (entries_bytes es) t = Inr (t @ es)"
  using assms
proof (induction es arbitrary: t)
  case (Cons e es)
  obtain n h where e: "e = (n, h)" by fastforce
  have len: "fits (length (entry_bytes n h))" "fits (length (entries_bytes es))"
    using length_f_bytes [of "entry_bytes n h" 1]
    by (auto intro!: fits_le [OF Cons.prems(3)] simp: entries_bytes_def e)
  have "n \<notin> set (dkeys t)" using Cons.prems(2) e by simp
  then have "table_step 1 2 t (varint_bytes (length (entry_bytes n h)) @ entry_bytes n h @ rest) =
      Inr (t @ [e], rest)" for rest
    using Cons.prems(1) len(1) e
    by (simp add: table_step_def r_bytes_field read_entry_bytes codec_simps dset_new)
  then show ?case
    using Cons.IH [of "t @ [e]"] Cons.prems len(2) by (simp add: entries_bytes_def e read_bytes_step)
qed (simp add: entries_bytes_def)

lemma sorted_table_get: "wf_dict t \<Longrightarrow> dget (sorted_table t) = dget t"
proof
  fix n
  assume "wf_dict t"
  moreover have "wf_dict (sorted_table t)" if "wf_dict t"
    using that by (simp add: wf_dict_def sorted_table_def comp_def)
  ultimately show "dget (sorted_table t) n = dget t n"
    using sorted_table_entries [of t] dget_in_set [of t n] dget_in_set [of "sorted_table t" n]
    by (cases "dget t n"; cases "dget (sorted_table t) n") auto
qed

lemma decode_encode_table:
  assumes "wf_table t"
  shows "\<exists>b. encode_table t = Inr b \<and> decode_table b = Inr (sorted_table t)"
proof -
  have w: "wf_dict t" "list_all wf_entry t" "fits (length (entries_bytes (sorted_table t)))"
    using assms by (simp_all add: wf_table_def)
  have "list_all wf_entry (sorted_table t)" using w sorted_table_entries [of t] by (simp add: list_all_iff)
  moreover have "distinct (map fst ([] @ sorted_table t))"
    using w(1) by (simp add: wf_dict_def sorted_table_def comp_def)
  ultimately show ?thesis
    using read_table_entries [OF _ _ w(3), of "[]"] encode_table_entries [OF w(1,2)]
    by (simp add: decode_table_def)
qed

subsection \<open>What the table promises\<close>

lemma list_empty_if_no_member: "(\<And>x. x \<notin> set xs) \<Longrightarrow> xs = []"
  by (cases xs) auto

lemma member_down_get:
  assumes "wf_dict t"
  shows "dget (fst (member_down t m e)) n =
    (if \<exists>h. dget t n = Some h \<and> held_owner h = m \<and> held_epoch h < e then None else dget t n)"
  using nodes_owned_by_iff [OF assms, of n m]
  by (auto simp: member_down_def release_each_get is_owned_by_def split: option.splits)

text \<open>
  A member-down entry releases exactly that member's Nodes. When every claim in the table
  comes from an earlier entry, afterwards no Node is owned by the lost member, every other
  Node keeps the owner and epoch it had, and what is returned is the list of the Nodes it
  owned, in a fixed order.
\<close>

theorem member_down_releases:
  assumes "wf_dict t" and "epochs_upto (e - 1) t"
  shows "wf_dict (fst (member_down t m e)) \<and>
    (\<forall>n. dget (fst (member_down t m e)) n = (if is_owned_by t n m then None else dget t n)) \<and>
    nodes_owned_by (fst (member_down t m e)) m = [] \<and>
    snd (member_down t m e) = nodes_owned_by t m"
proof (intro conjI allI)
  have old: "held_epoch h < e" if "dget t n = Some h" for n h
    using epochs_uptoD [OF assms(2) that] by simp
  show wf: "wf_dict (fst (member_down t m e))"
    using assms(1) by (simp add: member_down_def release_each_wf)
  show get: "dget (fst (member_down t m e)) n = (if is_owned_by t n m then None else dget t n)" for n
    using old by (auto simp: member_down_get [OF assms(1)] is_owned_by_def split: option.splits)
  have "\<not> is_owned_by (fst (member_down t m e)) n m" for n
    by (auto simp: is_owned_by_def get split: option.splits)
  then have "n \<notin> set (nodes_owned_by (fst (member_down t m e)) m)" for n
    by (simp add: nodes_owned_by_iff [OF wf])
  then show "nodes_owned_by (fst (member_down t m e)) m = []" by (simp add: list_empty_if_no_member)
  have "filter (\<lambda>n. \<exists>h. dget t n = Some h \<and> held_epoch h < e) (nodes_owned_by t m) = nodes_owned_by t m"
    using old nodes_owned_by_iff [OF assms(1)]
    by (auto simp: filter_id_conv is_owned_by_def split: option.splits)
  then show "snd (member_down t m e) = nodes_owned_by t m"
    unfolding member_down_def by (simp add: release_each_released [OF nodes_owned_by_sorted(2) [OF assms(1)]])
qed

definition sample_table :: OwnershipTable where
  "sample_table = [(str ''b'', Ownership 1 3), (str ''a'', Ownership 0 2), (str ''c'', Ownership 1 5)]"

lemma sample_table_wf: "wf_dict sample_table" "epochs_upto 5 sample_table"
  by (simp_all add: wf_dict_def sample_table_def epochs_upto_def)

theorem member_down_releases_witness:
  "snd (member_down sample_table 1 6) = nodes_owned_by sample_table 1 \<and>
   nodes_owned_by sample_table 1 = [str ''b'', str ''c'']"
  using member_down_releases [of sample_table 6 1] sample_table_wf
  by (simp add: nodes_owned_by_def sample_table_def str_def)

text \<open>
  Ownership survives a snapshot. A table that fits the wire encodes; decoding gives a
  table with the same owner and epoch for every Node; and two tables that agree on every
  Node, whatever order their entries were made in, encode to identical bytes.
\<close>

theorem ownership_snapshot:
  assumes "wf_table t" and "wf_table t'"
  shows "\<exists>b s. encode_table t = Inr b \<and> decode_table b = Inr s \<and>
    (\<forall>n. owner_of_node s n = owner_of_node t n) \<and>
    ((\<forall>n. owner_of_node t' n = owner_of_node t n) \<longrightarrow> encode_table t' = Inr b)"
proof -
  have w: "wf_dict t" "list_all wf_entry t" "wf_dict t'" "list_all wf_entry t'"
    using assms by (simp_all add: wf_table_def)
  obtain b where b: "encode_table t = Inr b" "decode_table b = Inr (sorted_table t)"
    using decode_encode_table [OF assms(1)] by blast
  have "sorted_table t' = sorted_table t" if same: "\<forall>n. owner_of_node t' n = owner_of_node t n"
  proof -
    have eq: "dget t' = dget t" using same by (auto simp: owner_of_node_def)
    have "n \<in> set (dkeys t') \<longleftrightarrow> n \<in> set (dkeys t)" for n
      using dget_None_keys [of t n] dget_None_keys [of t' n] by (simp add: eq)
    then have "set (dkeys t') = set (dkeys t)" by (simp add: set_eq_iff)
    then have "sort (dkeys t') = sort (dkeys t)"
      using w(1,3) by (intro sorted_distinct_set_unique) (simp_all add: wf_dict_def)
    then show ?thesis by (simp add: sorted_table_def eq)
  qed
  then have "encode_table t' = Inr b" if same: "\<forall>n. owner_of_node t' n = owner_of_node t n"
    using same b(1) encode_table_entries [OF w(1,2)] encode_table_entries [OF w(3,4)] by metis
  moreover have "\<forall>n. owner_of_node (sorted_table t) n = owner_of_node t n"
    by (simp add: owner_of_node_def sorted_table_get [OF w(1)])
  ultimately show ?thesis using b by blast
qed

lemma sample_table_fits: "wf_table sample_table" "wf_table (rev sample_table)"
proof -
  have l: "str_bytes (str [c]) = [of_nat (of_char c)]" if "of_char c < (128::nat)" for c
    using that by (simp add: str_bytes_def utf8_encode_def utf8_char_def str_def)
  have e: "list_all wf_entry sample_table"
    by (simp add: sample_table_def wf_entry_def wf_text_ascii str_def wf_uint_def fits_small)
  have "length (entries_bytes (sorted_table t)) < 1000" if "t = sample_table \<or> t = rev sample_table" for t
  proof -
    have "sort (dkeys t) = [str ''a'', str ''b'', str ''c'']"
      "dget t (str ''a'') = Some (Ownership 0 2)" "dget t (str ''b'') = Some (Ownership 1 3)"
      "dget t (str ''c'') = Some (Ownership 1 5)"
      using that by (auto simp: sample_table_def str_def)
    then show ?thesis
      by (simp add: sorted_table_def entries_bytes_def entry_bytes_def l f_bytes_def f_uint_def
          tag_bytes_def tag_value varint_bytes_small)
  qed
  then show "wf_table sample_table" "wf_table (rev sample_table)"
    using e sample_table_wf(1) by (auto simp: wf_table_def fits_small wf_dict_def list_all_iff rev_map [symmetric])
qed

theorem ownership_snapshot_witness:
  "\<exists>b s. encode_table sample_table = Inr b \<and> encode_table (rev sample_table) = Inr b \<and>
     decode_table b = Inr s \<and> owner_of_node s (str ''b'') = Some (Ownership 1 3)"
proof -
  have "\<forall>n. owner_of_node (rev sample_table) n = owner_of_node sample_table n"
    by (auto simp: owner_of_node_def sample_table_def str_def)
  moreover have "owner_of_node sample_table (str ''b'') = Some (Ownership 1 3)"
    by (simp add: owner_of_node_def sample_table_def)
  ultimately show ?thesis using ownership_snapshot [OF sample_table_fits] by metis
qed

end
