(* ===== verification/Snapshot.thy ===== *)
theory Snapshot
  imports Store_Properties Ownership
begin

section \<open>Snapshots\<close>

text \<open>
  \<open>src/nmos/raft/snapshot.py\<close>: the record codec, the copy-on-write capture, the walk over
  the store, the snapshot payload and its installation. \<open>finish\<close> yields to other tasks after
  every 256 resources; its uninterrupted form is here, the interleaved one in the theory of
  the snapshot run. What \<open>json.loads\<close> makes of a body is the argument \<open>loads\<close>.
\<close>

definition SNAPSHOT_VERSION :: int where "SNAPSHOT_VERSION = 1"
definition CHUNK_RESOURCES :: nat where "CHUNK_RESOURCES = 256"

subsection \<open>Records\<close>

definition encode_resource :: "RegisteredResource \<Rightarrow> bytes res" where
  "encode_resource r = w_take
     [w_string 1 (singular (resource_type r)),
      w_string 2 (res_id r),
      w_string 3 (version r),
      w_uint 4 (seconds (created r)),
      w_uint 5 (nanoseconds (created r)),
      w_uint 6 (seconds (updated r)),
      w_uint 7 (nanoseconds (updated r)),
      w_bool 8 (extant r),
      w_uint 9 (max 0 (health r)),
      w_string 10 (case parent_id r of None \<Rightarrow> [] | Some p \<Rightarrow> p),
      w_string 11 (body_text (body r))]"

text \<open>The decoder's local variables.\<close>

record ResFields =
  rf_type :: pystr
  rf_id :: pystr
  rf_version :: pystr
  rf_parent :: pystr
  rf_text :: pystr
  rf_created_s :: int
  rf_created_ns :: int
  rf_updated_s :: int
  rf_updated_ns :: int
  rf_health :: int
  rf_extant :: bool

definition no_resource :: ResFields where
  "no_resource = \<lparr>rf_type = [], rf_id = [], rf_version = [], rf_parent = [], rf_text = [],
     rf_created_s = 0, rf_created_ns = 0, rf_updated_s = 0, rf_updated_ns = 0, rf_health = 0,
     rf_extant = True\<rparr>"

definition resource_step :: "nat \<Rightarrow> nat \<Rightarrow> ResFields \<Rightarrow> bytes \<Rightarrow> (ResFields \<times> bytes) res" where
  "resource_step number wire s data =
     (if number = 1 then reads (r_string data) (\<lambda>v. s\<lparr>rf_type := v\<rparr>)
      else if number = 2 then reads (r_string data) (\<lambda>v. s\<lparr>rf_id := v\<rparr>)
      else if number = 3 then reads (r_string data) (\<lambda>v. s\<lparr>rf_version := v\<rparr>)
      else if number = 4 then reads (r_uint data) (\<lambda>v. s\<lparr>rf_created_s := v\<rparr>)
      else if number = 5 then reads (r_uint data) (\<lambda>v. s\<lparr>rf_created_ns := v\<rparr>)
      else if number = 6 then reads (r_uint data) (\<lambda>v. s\<lparr>rf_updated_s := v\<rparr>)
      else if number = 7 then reads (r_uint data) (\<lambda>v. s\<lparr>rf_updated_ns := v\<rparr>)
      else if number = 8 then reads (r_bool data) (\<lambda>v. s\<lparr>rf_extant := v\<rparr>)
      else if number = 9 then reads (r_uint data) (\<lambda>v. s\<lparr>rf_health := v\<rparr>)
      else if number = 10 then reads (r_string data) (\<lambda>v. s\<lparr>rf_parent := v\<rparr>)
      else if number = 11 then reads (r_string data) (\<lambda>v. s\<lparr>rf_text := v\<rparr>)
      else skips wire s data)"

definition resource_of_fields :: "ResFields \<Rightarrow> RegisteredResource res" where
  "resource_of_fields f =
     bind_res (resource_type_named (rf_type f)) (\<lambda>rt.
       Inr \<lparr>resource_type = rt, res_id = rf_id f, body = \<lparr>body_text = rf_text f, parsed = None\<rparr>,
            version = rf_version f, created = TaiCursor (rf_created_s f) (rf_created_ns f),
            updated = TaiCursor (rf_updated_s f) (rf_updated_ns f),
            parent_id = (if rf_parent f = [] then None else Some (rf_parent f)),
            extant = rf_extant f, health = rf_health f\<rparr>)"

definition decode_resource :: "bytes \<Rightarrow> RegisteredResource res" where
  "decode_resource payload =
     bind_res (read_fields resource_step payload no_resource) resource_of_fields"

subsection \<open>Captures\<close>

type_synonym res_key = "ResourceType \<times> pystr"

definition key_of :: "RegisteredResource \<Rightarrow> res_key" where
  "key_of r = (resource_type r, res_id r)"

record SnapshotCapture =
  cap_index :: int
  cap_term :: int
  cap_ownership :: bytes
  cap_pre :: "(res_key, bytes) pydict"
  cap_gone :: "res_key set"

definition new_capture :: "int \<Rightarrow> int \<Rightarrow> bytes \<Rightarrow> SnapshotCapture" where
  "new_capture index term ownership =
     \<lparr>cap_index = index, cap_term = term, cap_ownership = ownership, cap_pre = [], cap_gone = {}\<rparr>"

definition capture_resource :: "SnapshotCapture \<Rightarrow> RegisteredResource \<Rightarrow> SnapshotCapture res" where
  "capture_resource c r =
     (if dget (cap_pre c) (key_of r) \<noteq> None \<or> key_of r \<in> cap_gone c then Inr c
      else bind_res (encode_resource r) (\<lambda>b. Inr (c\<lparr>cap_pre := dset (key_of r) b (cap_pre c)\<rparr>)))"

definition capture_created :: "SnapshotCapture \<Rightarrow> ResourceType \<Rightarrow> pystr \<Rightarrow> SnapshotCapture" where
  "capture_created c rt i =
     (if dget (cap_pre c) (rt, i) = None then c\<lparr>cap_gone := insert (rt, i) (cap_gone c)\<rparr> else c)"

definition image_of :: "SnapshotCapture \<Rightarrow> RegisteredResource \<Rightarrow> bytes option res" where
  "image_of c r =
     (if key_of r \<in> cap_gone c then Inr None
      else (case dget (cap_pre c) (key_of r) of
              Some b \<Rightarrow> Inr (Some b)
            | None \<Rightarrow> bind_res (encode_resource r) (\<lambda>b. Inr (Some b))))"

definition orphans :: "SnapshotCapture \<Rightarrow> res_key set \<Rightarrow> ((pystr \<times> pystr) \<times> bytes) list" where
  "orphans c live =
     map (\<lambda>((rt, i), b). ((singular rt, i), b)) (filter (\<lambda>(k, b). k \<notin> live) (cap_pre c))"

definition capture_held :: "SnapshotCapture \<Rightarrow> int" where
  "capture_held c = int (length (cap_pre c))"

subsection \<open>The snapshot store\<close>

text \<open>
  \<open>SnapshotStore\<close> holds the open capture, if any. \<open>finish\<close> of a capture that is not the
  open one raises; two captures are the same object exactly when the one open now is the one
  that was begun, which its caller passes.
\<close>

definition begin_capture ::
  "SnapshotCapture option \<Rightarrow> int \<Rightarrow> int \<Rightarrow> OwnershipTable \<Rightarrow> SnapshotCapture res" where
  "begin_capture open_cap index term own =
     (if open_cap \<noteq> None then Inl SnapshotCaptureError
      else bind_res (encode_table own) (\<lambda>b. Inr (new_capture index term b)))"

text \<open>\<open>sorted(store.iter_extant(t), key=id)\<close> for one kind, and the whole walk.\<close>

definition walk_type :: "RegistryStore \<Rightarrow> ResourceType \<Rightarrow> RegisteredResource list" where
  "walk_type st rt = sort_key res_id (iter_extant st rt)"

definition walk_all :: "RegistryStore \<Rightarrow> RegisteredResource list" where
  "walk_all st = concat (map (walk_type st) resource_types)"

fun images :: "SnapshotCapture \<Rightarrow> RegisteredResource list \<Rightarrow> bytes list res" where
  "images c [] = Inr []"
| "images c (r # rs) =
     bind_res (image_of c r) (\<lambda>b.
     bind_res (images c rs) (\<lambda>bs. Inr (case b of None \<Rightarrow> bs | Some x \<Rightarrow> x # bs)))"

text \<open>
  \<open>sorted\<close> on pairs of a key and an image: keys of distinct records differ, so the images are
  never compared.
\<close>

definition orphan_images :: "SnapshotCapture \<Rightarrow> res_key set \<Rightarrow> bytes list" where
  "orphan_images c live = map snd (sort_key fst (orphans c live))"

definition snapshot_payload :: "SnapshotCapture \<Rightarrow> bytes list \<Rightarrow> bytes res" where
  "snapshot_payload c records = w_take
     ([w_uint 1 SNAPSHOT_VERSION, w_uint 2 (cap_index c), w_uint 3 (cap_term c),
       w_uint 4 (int (length records)), w_bytes 5 (cap_ownership c)] @ map (w_bytes 6) records)"

definition finish_now :: "RegistryStore \<Rightarrow> SnapshotCapture \<Rightarrow> bytes res" where
  "finish_now st c =
     bind_res (images c (walk_all st)) (\<lambda>records.
       snapshot_payload c (records @ orphan_images c (set (map key_of (walk_all st)))))"

subsection \<open>Reading a snapshot\<close>

record SnapshotMeta =
  sm_last_index :: int
  sm_last_term :: int
  sm_resources :: int

record SnapFields =
  sf_version :: int
  sf_index :: int
  sf_term :: int
  sf_count :: int
  sf_ownership :: bytes
  sf_records :: "RegisteredResource list"

definition no_snapshot :: SnapFields where
  "no_snapshot = \<lparr>sf_version = 0, sf_index = 0, sf_term = 0, sf_count = 0, sf_ownership = [], sf_records = []\<rparr>"

definition snapshot_step :: "nat \<Rightarrow> nat \<Rightarrow> SnapFields \<Rightarrow> bytes \<Rightarrow> (SnapFields \<times> bytes) res" where
  "snapshot_step number wire s data =
     (if number = 1 then reads (r_uint data) (\<lambda>v. s\<lparr>sf_version := v\<rparr>)
      else if number = 2 then reads (r_uint data) (\<lambda>v. s\<lparr>sf_index := v\<rparr>)
      else if number = 3 then reads (r_uint data) (\<lambda>v. s\<lparr>sf_term := v\<rparr>)
      else if number = 4 then reads (r_uint data) (\<lambda>v. s\<lparr>sf_count := v\<rparr>)
      else if number = 5 then reads (r_bytes data) (\<lambda>v. s\<lparr>sf_ownership := v\<rparr>)
      else if number = 6 then
        reads_res (r_bytes data) (\<lambda>b.
          bind_res (decode_resource b) (\<lambda>r. Inr (s\<lparr>sf_records := sf_records s @ [r]\<rparr>)))
      else skips wire s data)"

definition decode_snapshot :: "bytes \<Rightarrow> (SnapshotMeta \<times> OwnershipTable \<times> RegisteredResource list) res" where
  "decode_snapshot payload =
     bind_res (read_fields snapshot_step payload no_snapshot) (\<lambda>s.
       if sf_version s \<noteq> SNAPSHOT_VERSION then Inl RaftProtocolError
       else if sf_count s \<noteq> int (length (sf_records s)) then Inl RaftProtocolError
       else bind_res (decode_table (sf_ownership s)) (\<lambda>own.
              Inr (\<lparr>sm_last_index = sf_index s, sm_last_term = sf_term s,
                    sm_resources = int (length (sf_records s))\<rparr>, own, sf_records s)))"

subsection \<open>Installing\<close>

definition depth_key :: "RegisteredResource \<Rightarrow> nat \<times> pystr" where
  "depth_key r = (rank (resource_type r), res_id r)"

fun install_records ::
  "(pystr \<Rightarrow> (pystr, json) pydict res) \<Rightarrow> int \<Rightarrow> TaiCursor \<Rightarrow> RegistryStore \<Rightarrow> RegisteredResource list \<Rightarrow>
   RegistryStore res" where
  "install_records loads hn tn st [] = Inr st"
| "install_records loads hn tn st (r # rs) =
     bind_res (body_data loads (body r)) (\<lambda>raw.
     bind_res (prepare st (resource_type r) raw) (\<lambda>p.
       case p of
         Inl _ \<Rightarrow> Inl RaftProtocolError
       | Inr prepared \<Rightarrow>
           install_records loads hn tn
             (fst (apply_committed hn tn st prepared (body r) (Some (created r)) (Some (updated r)) (Some (health r))))
             rs))"

definition install ::
  "(pystr \<Rightarrow> (pystr, json) pydict res) \<Rightarrow> int \<Rightarrow> TaiCursor \<Rightarrow> RegisteredResource list \<Rightarrow> real \<Rightarrow> real \<Rightarrow>
   RegistryStore res" where
  "install loads hn tn records gc fi =
     install_records loads hn tn (new_store gc fi) (sort_key depth_key records)"

subsection \<open>Round trip of records\<close>

text \<open>What survives a record's encoding: everything but a cached parse and a negative health.\<close>

definition wire_image :: "RegisteredResource \<Rightarrow> RegisteredResource" where
  "wire_image r = r\<lparr>body := \<lparr>body_text = body_text (body r), parsed = None\<rparr>, health := max 0 (health r)\<rparr>"

definition wf_resource :: "RegisteredResource \<Rightarrow> bool" where
  "wf_resource r \<longleftrightarrow> wf_text (res_id r) \<and> wf_text (version r) \<and> wf_text (body_text (body r)) \<and>
     wire_cursor (created r) \<and> wire_cursor (updated r) \<and> fits (nat (health r)) \<and>
     (case parent_id r of None \<Rightarrow> True | Some p \<Rightarrow> wf_text p \<and> p \<noteq> [])"

definition resource_bytes :: "RegisteredResource \<Rightarrow> bytes" where
  "resource_bytes r =
     f_bytes 1 (str_bytes (singular (resource_type r))) @ f_bytes 2 (str_bytes (res_id r)) @
     f_bytes 3 (str_bytes (version r)) @
     f_uint 4 (nat (seconds (created r))) @ f_uint 5 (nat (nanoseconds (created r))) @
     f_uint 6 (nat (seconds (updated r))) @ f_uint 7 (nat (nanoseconds (updated r))) @
     f_uint 8 (if extant r then 1 else 0) @ f_uint 9 (nat (max 0 (health r))) @
     f_bytes 10 (str_bytes (case parent_id r of None \<Rightarrow> [] | Some p \<Rightarrow> p)) @
     f_bytes 11 (str_bytes (body_text (body r)))"

lemma wf_text_Nil [simp]: "wf_text []"
  by (rule wf_text_ascii) simp_all

lemma wf_resourceD:
  assumes "wf_resource r"
  shows "wf_text (res_id r)" "wf_text (version r)" "wf_text (body_text (body r))"
    "wf_uint (seconds (created r))" "wf_uint (nanoseconds (created r))"
    "wf_uint (seconds (updated r))" "wf_uint (nanoseconds (updated r))"
    "wf_uint (max 0 (health r))" "wf_text (case parent_id r of None \<Rightarrow> [] | Some p \<Rightarrow> p)"
  using assms
  by (simp_all add: wf_resource_def wire_cursor_def wf_pair_def wf_uint_def max_def fits_0_1 split: option.splits)

lemma encode_resource_bytes: "wf_resource r \<Longrightarrow> encode_resource r = Inr (resource_bytes r)"
  by (simp add: encode_resource_def codec_simps wf_resourceD resource_bytes_def)

lemma decode_resource_bytes:
  assumes "wf_resource r"
  shows "decode_resource (resource_bytes r) = Inr (wire_image r)"
proof -
  have e: "fits (if extant r then 1 else 0)" by (simp add: codec_simps)
  have "read_fields resource_step (resource_bytes r) no_resource =
    Inr \<lparr>rf_type = singular (resource_type r), rf_id = res_id r, rf_version = version r,
         rf_parent = (case parent_id r of None \<Rightarrow> [] | Some p \<Rightarrow> p), rf_text = body_text (body r),
         rf_created_s = seconds (created r), rf_created_ns = nanoseconds (created r),
         rf_updated_s = seconds (updated r), rf_updated_ns = nanoseconds (updated r),
         rf_health = max 0 (health r), rf_extant = extant r\<rparr>"
    by (simp add: resource_bytes_def codec_simps resource_step_def no_resource_def e wf_resourceD [OF assms])
  moreover have "parent_id r \<noteq> Some []" using assms by (auto simp: wf_resource_def)
  ultimately show ?thesis
    by (cases r; cases "parent_id r")
       (auto simp: decode_resource_def resource_of_fields_def resource_type_named_singular wire_image_def)
qed

subsection \<open>Round trip of the payload\<close>

definition records_bytes :: "bytes list \<Rightarrow> bytes" where
  "records_bytes bs = concat (map (f_bytes 6) bs)"

lemma w_take_append: "w_take (xs @ ys) = bind_res (w_take xs) (\<lambda>a. bind_res (w_take ys) (\<lambda>b. Inr (a @ b)))"
proof (induction xs)
  case Nil
  show ?case by (cases "w_take ys") simp_all
next
  case (Cons x xs)
  then show ?case by (cases x; cases "w_take xs"; cases "w_take ys") simp_all
qed

lemma w_take_records: "w_take (map (w_bytes 6) bs) = Inr (records_bytes bs)"
  by (induction bs) (simp_all add: codec_simps records_bytes_def)

lemma read_records:
  assumes "\<And>b. b \<in> set bs \<Longrightarrow> \<exists>r. decode_resource b = Inr r \<and> fits (length b)"
  shows "read_fields snapshot_step (records_bytes bs) s =
    Inr (s\<lparr>sf_records := sf_records s @ map (\<lambda>b. case decode_resource b of Inr r \<Rightarrow> r) bs\<rparr>)"
  using assms
proof (induction bs arbitrary: s)
  case (Cons b bs)
  obtain r where r: "decode_resource b = Inr r" "fits (length b)" using Cons.prems by force
  have "snapshot_step 6 2 s (varint_bytes (length b) @ b @ rest) = Inr (s\<lparr>sf_records := sf_records s @ [r]\<rparr>, rest)" for rest
    using r by (simp add: snapshot_step_def r_bytes_field codec_simps)
  then show ?case using Cons.IH [of "s\<lparr>sf_records := sf_records s @ [r]\<rparr>"] Cons.prems r
    by (simp add: records_bytes_def read_bytes_step)
qed (simp add: records_bytes_def)

text \<open>A capture and records the wire can carry.\<close>

definition wf_capture :: "SnapshotCapture \<Rightarrow> bool" where
  "wf_capture c \<longleftrightarrow> wf_uint (cap_index c) \<and> wf_uint (cap_term c) \<and> fits (length (cap_ownership c))"

lemma payload_round_trip:
  assumes c: "wf_capture c" and n: "fits (length bs)"
    and bs: "\<And>b. b \<in> set bs \<Longrightarrow> \<exists>r. decode_resource b = Inr r \<and> fits (length b)"
    and own: "decode_table (cap_ownership c) = Inr t"
  shows "\<exists>p. snapshot_payload c bs = Inr p \<and>
    decode_snapshot p = Inr (\<lparr>sm_last_index = cap_index c, sm_last_term = cap_term c, sm_resources = int (length bs)\<rparr>,
                             t, map (\<lambda>b. case decode_resource b of Inr r \<Rightarrow> r) bs)"
proof -
  have u: "wf_uint 1" "wf_uint (cap_index c)" "wf_uint (cap_term c)" "wf_uint (int (length bs))"
    using c n by (simp_all add: wf_capture_def wf_uint_def fits_small)
  have o: "fits (length (cap_ownership c))" using c by (simp add: wf_capture_def)
  have "snapshot_payload c bs = Inr (f_uint 1 1 @ f_uint 2 (nat (cap_index c)) @ f_uint 3 (nat (cap_term c)) @
      f_uint 4 (length bs) @ f_bytes 5 (cap_ownership c) @ records_bytes bs)"
    using u by (simp add: snapshot_payload_def w_take_append w_take_records codec_simps SNAPSHOT_VERSION_def)
  moreover have "read_fields snapshot_step (f_uint 1 1 @ f_uint 2 (nat (cap_index c)) @ f_uint 3 (nat (cap_term c)) @
      f_uint 4 (length bs) @ f_bytes 5 (cap_ownership c) @ records_bytes bs) no_snapshot =
    Inr \<lparr>sf_version = 1, sf_index = cap_index c, sf_term = cap_term c, sf_count = int (length bs),
         sf_ownership = cap_ownership c, sf_records = map (\<lambda>b. case decode_resource b of Inr r \<Rightarrow> r) bs\<rparr>"
    using u o n by (simp add: read_records [OF bs] codec_simps snapshot_step_def no_snapshot_def)
  ultimately show ?thesis using own by (simp add: decode_snapshot_def SNAPSHOT_VERSION_def)
qed

subsection \<open>Installing what was captured\<close>

text \<open>A record whose body says what the record says, which is how every registration makes them.\<close>

definition speaks_for :: "(pystr \<Rightarrow> (pystr, json) pydict res) \<Rightarrow> RegisteredResource \<Rightarrow> bool" where
  "speaks_for loads r \<longleftrightarrow> res_id r \<noteq> [] \<and>
     (case loads (body_text (body r)) of
        Inl _ \<Rightarrow> False
      | Inr raw \<Rightarrow> dget raw (str ''id'') = Some (JStr (res_id r)) \<and>
                   dget raw (str ''version'') = Some (JStr (version r)) \<and>
                   parent_id_of (resource_type r) raw = parent_id r)"

text \<open>The live part of a store, as the wire carries it.\<close>

definition live_image :: "RegistryStore \<Rightarrow> pystr \<rightharpoonup> RegisteredResource" where
  "live_image st i = (case look st i of None \<Rightarrow> None
     | Some r \<Rightarrow> if extant r then Some (wire_image r) else None)"

lemma wire_image_sel [simp]:
  "resource_type (wire_image r) = resource_type r" "res_id (wire_image r) = res_id r"
  "version (wire_image r) = version r" "parent_id (wire_image r) = parent_id r"
  "extant (wire_image r) = extant r" "created (wire_image r) = created r" "updated (wire_image r) = updated r"
  "body_text (body (wire_image r)) = body_text (body r)" "parsed (body (wire_image r)) = None"
  by (simp_all add: wire_image_def)

lemma speaks_for_wire: "speaks_for loads (wire_image r) = speaks_for loads r"
  by (cases "loads (body_text (body r))") (simp_all add: speaks_for_def)

text \<open>Installing one record into a store that has its parent and not its id.\<close>

lemma install_one:
  assumes wf: "wf_store st" and r: "extant r" "speaks_for loads r" "parsed (body r) = None"
    and new: "look st (res_id r) = None" and par: "parent_ok (look st) r"
  shows "\<exists>raw p. body_data loads (body r) = Inr raw \<and> prepare st (resource_type r) raw = Inr (Inr p) \<and>
    (\<forall>st' x. apply_committed hn tn st p (body r) (Some (created r)) (Some (updated r)) (Some (health r)) = (st', x) \<longrightarrow>
       wf_store st' \<and> look st' = (look st)(res_id r \<mapsto> r))"
proof -
  have b: "wf_buckets st" using wf by (simp add: wf_storeD)
  obtain raw where raw: "loads (body_text (body r)) = Inr raw" "dget raw (str ''id'') = Some (JStr (res_id r))"
      "dget raw (str ''version'') = Some (JStr (version r))" "parent_id_of (resource_type r) raw = parent_id r"
    using r(2) by (auto simp: speaks_for_def split: sum.splits)
  have ne: "res_id r \<noteq> []" using r(2) by (simp add: speaks_for_def)
  have no_type: "type_of st (res_id r) = None"
    using new b by (fastforce simp: look_def wf_buckets_def split: option.splits)
  have no_prev: "dget (by_type st (resource_type r)) (res_id r) = None"
    using bucket_eq [OF b] new by simp
  let ?p = "\<lparr>pr_type = resource_type r, pr_id = res_id r, pr_version = version r, pr_parent = parent_id r,
             creates = True, reviving = False\<rparr>"
  have parent: "check_parent st (resource_type r) (parent_id r) = None"
    using par by (auto simp: check_parent_None [OF b] parent_ok_def split: option.splits)
  have prep: "prepare st (resource_type r) raw = Inr (Inr ?p)"
    using raw ne no_type no_prev parent by (simp add: prepare_def)
  have ok: "prepared_ok st ?p" using prepare_prepared_ok [OF wf_storeD(1) [OF wf] prep] .
  have "registered None ?p (body r) (Some (created r)) (updated r) (health r) = r"
    using r(1) by (cases r) (simp add: registered_def)
  moreover have "stamp tn st (resource_type r) (Some (updated r)) = updated r"
    by (simp add: stamp_def commit_cursor_def Let_def)
  ultimately have "wf_store st' \<and> look st' = (look st)(res_id r \<mapsto> r)"
    if "apply_committed hn tn st ?p (body r) (Some (created r)) (Some (updated r)) (Some (health r)) = (st', x)" for st' x
    using apply_committed_effect [OF wf ok that] new by simp
  moreover have "body_data loads (body r) = Inr raw" using raw(1) r(3) by (simp add: body_data_def)
  ultimately show ?thesis using prep by blast
qed

text \<open>Records by id.\<close>

definition by_id :: "RegisteredResource list \<Rightarrow> pystr \<rightharpoonup> RegisteredResource" where
  "by_id rs = map_of (map (\<lambda>r. (res_id r, r)) rs)"

lemma by_id_simps [simp]: "by_id [] = Map.empty" "by_id (r # rs) = (by_id rs)(res_id r \<mapsto> r)"
  by (simp_all add: by_id_def)

lemma by_id_Some: "distinct (map res_id rs) \<Longrightarrow> by_id rs i = Some r \<longleftrightarrow> r \<in> set rs \<and> res_id r = i"
  by (induction rs) (auto simp: image_iff)

lemma by_id_None: "by_id rs i = None \<longleftrightarrow> i \<notin> res_id ` set rs"
  by (induction rs) auto

definition installable :: "(pystr \<Rightarrow> (pystr, json) pydict res) \<Rightarrow> RegisteredResource \<Rightarrow> bool" where
  "installable loads r \<longleftrightarrow> extant r \<and> speaks_for loads r \<and> parsed (body r) = None"

lemma parent_ok_mono:
  "parent_ok m r \<Longrightarrow> (\<And>p q. parent_id r = Some p \<Longrightarrow> m p = Some q \<Longrightarrow> PARENT_TYPE (resource_type r) = Some (resource_type q)
      \<Longrightarrow> m' p = Some q) \<Longrightarrow> parent_ok m' r"
  by (auto simp: parent_ok_def split: option.splits)

lemma install_records_effect:
  assumes "wf_store st" and "\<And>r. r \<in> set rs \<Longrightarrow> installable loads r" and "distinct (map res_id rs)"
    and "\<And>r. r \<in> set rs \<Longrightarrow> look st (res_id r) = None"
    and "\<And>xs r ys. rs = xs @ r # ys \<Longrightarrow> parent_ok (look st ++ by_id xs) r"
  shows "\<exists>st'. install_records loads hn tn st rs = Inr st' \<and> wf_store st' \<and> look st' = look st ++ by_id rs"
  using assms
proof (induction rs arbitrary: st)
  case (Cons r rs)
  have r: "extant r" "speaks_for loads r" "parsed (body r) = None"
    using Cons.prems(2) [of r] by (simp_all add: installable_def)
  have "parent_ok (look st) r" using Cons.prems(5) [of "[]" r rs] by simp
  then obtain raw p where p: "body_data loads (body r) = Inr raw" "prepare st (resource_type r) raw = Inr (Inr p)"
      and eff: "\<And>st' x. apply_committed hn tn st p (body r) (Some (created r)) (Some (updated r)) (Some (health r)) = (st', x) \<Longrightarrow>
        wf_store st' \<and> look st' = (look st)(res_id r \<mapsto> r)"
    using install_one [OF Cons.prems(1) r, of hn tn] Cons.prems(4) [of r] by auto
  obtain st1 x where st1: "apply_committed hn tn st p (body r) (Some (created r)) (Some (updated r)) (Some (health r)) = (st1, x)"
    by fastforce
  note e = eff [OF st1]
  have "\<exists>st'. install_records loads hn tn st1 rs = Inr st' \<and> wf_store st' \<and> look st' = look st1 ++ by_id rs"
  proof (rule Cons.IH)
    show "parent_ok (look st1 ++ by_id xs) q" if "rs = xs @ q # ys" for xs q ys
    proof -
      have "res_id r \<notin> res_id ` set xs" using Cons.prems(3) that by auto
      then have "look st ++ by_id (r # xs) = look st1 ++ by_id xs"
        using e by_id_None [of xs "res_id r"] by (auto simp: map_add_def fun_eq_iff split: option.splits)
      moreover have "parent_ok (look st ++ by_id (r # xs)) q" by (rule Cons.prems(5)) (simp add: that)
      ultimately show ?thesis by metis
    qed
    show "look st1 (res_id q) = None" if "q \<in> set rs" for q
    proof -
      have "res_id q \<noteq> res_id r" using Cons.prems(3) that by (auto simp: image_iff)
      then show ?thesis using e Cons.prems(4) [of q] that by simp
    qed
  qed (use e Cons.prems in auto)
  moreover have "look st ++ by_id (r # rs) = look st1 ++ by_id rs"
    using e Cons.prems(3) by_id_None [of rs "res_id r"] by (auto simp: map_add_def fun_eq_iff split: option.splits)
  moreover have "install_records loads hn tn st (r # rs) = install_records loads hn tn st1 rs"
    using p st1 by simp
  ultimately show ?case by metis
qed simp

lemma depth_key_less: "rank (resource_type q) < rank (resource_type r) \<Longrightarrow> depth_key q < depth_key r"
  by (simp add: depth_key_def less_prod_def)

text \<open>Any family of live records that holds the parent of each of its members installs.\<close>

lemma install_effect:
  assumes inst: "\<And>r. r \<in> set rs \<Longrightarrow> installable loads r" and d: "distinct (map res_id rs)"
    and closed: "\<And>r. r \<in> set rs \<Longrightarrow> parent_ok (by_id rs) r"
  shows "\<exists>st. install loads hn tn rs gc fi = Inr st \<and> wf_store st \<and> look st = by_id rs"
proof -
  let ?rs = "sort_key depth_key rs"
  have d': "distinct (map res_id ?rs)" using d by (simp add: distinct_map)
  have same: "by_id ?rs = by_id rs"
  proof
    fix i
    have "by_id ?rs i = Some r \<longleftrightarrow> by_id rs i = Some r" for r
      by (simp add: by_id_Some [OF d] by_id_Some [OF d'])
    then show "by_id ?rs i = by_id rs i" by (metis not_Some_eq)
  qed
  have empty: "look (new_store gc fi) = Map.empty" by (auto simp: look_def new_store_def)
  have "parent_ok (by_id xs) r" if split: "?rs = xs @ r # ys" for xs r ys
  proof (rule parent_ok_mono)
    have "r \<in> set rs" using split by (metis in_set_conv_decomp set_sort)
    then show "parent_ok (by_id rs) r" by (rule closed)
    fix p q
    assume q: "parent_id r = Some p" "by_id rs p = Some q" "PARENT_TYPE (resource_type r) = Some (resource_type q)"
    have lt: "depth_key q < depth_key r"
      by (rule depth_key_less) (use PARENT_TYPE_rank [OF q(3)] in simp)
    have "q \<in> set ?rs" "res_id q = p" using by_id_Some [OF d] q(2) by auto
    moreover have "sorted (map depth_key (xs @ r # ys))" using sorted_sort_key [of depth_key rs] split by simp
    then have "depth_key r \<le> depth_key y" if "y \<in> set (r # ys)" for y using that by (auto simp: sorted_append)
    then have "q \<notin> set (r # ys)" using lt by (meson not_le)
    ultimately have "q \<in> set xs" using split by auto
    moreover have "distinct (map res_id xs)" using d' split by (metis distinct_append map_append)
    ultimately show "by_id xs p = Some q" using by_id_Some \<open>res_id q = p\<close> by blast
  qed
  then show ?thesis
    using install_records_effect [OF wf_new_store, of ?rs loads gc fi hn tn] inst d' empty same
    by (simp add: install_def)
qed

subsection \<open>A snapshot taken at rest\<close>

lemma walk_all_live:
  assumes "wf_store st"
  shows "distinct (map res_id (walk_all st))"
    and "r \<in> set (walk_all st) \<longleftrightarrow> look st (res_id r) = Some r \<and> extant r"
proof -
  have b: "wf_buckets st" using assms by (simp add: wf_storeD)
  have mem: "r \<in> set (walk_type st rt) \<longleftrightarrow> look st (res_id r) = Some r \<and> resource_type r = rt \<and> extant r" for r rt
  proof -
    have d: "wf_dict (by_type st rt)" using b by (simp add: wf_buckets_def)
    have "r \<in> snd ` set (by_type st rt) \<longleftrightarrow> dget (by_type st rt) (res_id r) = Some r"
    proof
      assume "r \<in> snd ` set (by_type st rt)"
      then obtain i where i: "dget (by_type st rt) i = Some r" using dget_in_set [OF d] by auto
      then show "dget (by_type st rt) (res_id r) = Some r" using wf_bucketsD(2) [OF b i] by simp
    next
      assume "dget (by_type st rt) (res_id r) = Some r"
      then have "(res_id r, r) \<in> set (by_type st rt)" using dget_in_set [OF d] by simp
      then show "r \<in> snd ` set (by_type st rt)" by (rule rev_image_eqI) simp
    qed
    also have "\<dots> \<longleftrightarrow> look st (res_id r) = Some r \<and> resource_type r = rt"
      unfolding bucket_eq [OF b] by (cases "look st (res_id r)") auto
    finally show ?thesis by (auto simp: walk_type_def iter_extant_def)
  qed
  show "r \<in> set (walk_all st) \<longleftrightarrow> look st (res_id r) = Some r \<and> extant r"
    by (auto simp: walk_all_def mem)
  have one: "distinct (map res_id (walk_type st rt))" for rt
  proof -
    have d: "distinct (dkeys (by_type st rt))" using b by (simp add: wf_buckets_def wf_dict_def)
    have "map (res_id \<circ> snd) (by_type st rt) = dkeys (by_type st rt)"
      using wf_bucketsD(2) [OF b, of rt] d by (intro map_cong) auto
    then have "distinct (map res_id (map snd (by_type st rt)))" using d by (simp only: map_map)
    then have "distinct (map res_id (iter_extant st rt))"
      unfolding iter_extant_def by (rule distinct_map_filter)
    then show ?thesis by (simp only: walk_type_def distinct_map distinct_sort set_sort)
  qed
  have "distinct (map res_id (concat (map (walk_type st) ts)))" if "distinct ts" for ts
    using that
  proof (induction ts)
    case (Cons t ts)
    have "res_id x \<noteq> res_id y" if x: "x \<in> set (walk_type st t)" and y: "y \<in> set (walk_type st u)" and u: "u \<in> set ts" for x y u
    proof
      assume "res_id x = res_id y"
      then have "x = y" using x y unfolding mem by (metis option.inject)
      then have "t = u" using x y unfolding mem by blast
      then show False using u Cons.prems by simp
    qed
    then have "set (map res_id (walk_type st t)) \<inter> set (map res_id (concat (map (walk_type st) ts))) = {}" by auto
    then show ?case using Cons one [of t] by simp
  qed simp
  then show "distinct (map res_id (walk_all st))" by (simp add: walk_all_def)
qed

lemma images_plain:
  "\<forall>r \<in> set rs. wf_resource r \<Longrightarrow> cap_pre c = [] \<Longrightarrow> cap_gone c = {} \<Longrightarrow>
    images c rs = Inr (map resource_bytes rs)"
  by (induction rs) (simp_all add: image_of_def encode_resource_bytes)

lemma live_closed:
  assumes "wf_store st" and "r \<in> set (walk_all st)"
  shows "parent_ok (by_id (map wire_image (walk_all st))) (wire_image r)"
proof -
  note w = walk_all_live [OF assms(1)]
  have d: "distinct (map res_id (map wire_image (walk_all st)))" using w(1) by (simp add: comp_def)
  have "parent_ok (look st) r"
    using assms w(2) [of r] wf_tree_parent [OF wf_graphD(2) [OF wf_storeD(1) [OF assms(1)]]] by blast
  moreover have "by_id (map wire_image (walk_all st)) p = Some (wire_image q)" if "look st p = Some q" "extant q" for p q
    using that w(2) [of q] look_id [OF wf_storeD(2) [OF assms(1)] that(1)] by (auto simp: by_id_Some [OF d])
  ultimately show ?thesis by (fastforce simp: parent_ok_def split: option.splits)
qed

lemma by_id_live:
  assumes "wf_store st"
  shows "by_id (map wire_image (walk_all st)) = live_image st"
proof
  fix i
  note w = walk_all_live [OF assms]
  have d: "distinct (map res_id (map wire_image (walk_all st)))" using w(1) by (simp add: comp_def)
  have "by_id (map wire_image (walk_all st)) i = Some x \<longleftrightarrow>
      (\<exists>r. x = wire_image r \<and> look st i = Some r \<and> extant r)" for x
  proof -
    have "by_id (map wire_image (walk_all st)) i = Some x \<longleftrightarrow>
        (\<exists>r. x = wire_image r \<and> look st (res_id r) = Some r \<and> extant r \<and> res_id r = i)"
      unfolding by_id_Some [OF d] using w(2) by auto
    also have "\<dots> \<longleftrightarrow> (\<exists>r. x = wire_image r \<and> look st i = Some r \<and> extant r)"
      using look_id [OF wf_storeD(2) [OF assms], of i] by metis
    finally show ?thesis .
  qed
  moreover have "live_image st i = Some x \<longleftrightarrow> (\<exists>r. x = wire_image r \<and> look st i = Some r \<and> extant r)" for x
    by (cases "look st i") (auto simp: live_image_def)
  ultimately have "by_id (map wire_image (walk_all st)) i = Some x \<longleftrightarrow> live_image st i = Some x" for x by blast
  then show "by_id (map wire_image (walk_all st)) i = live_image st i" by (metis not_Some_eq)
qed


text \<open>What the sample bodies parse to: the id is the text itself.\<close>

definition sample_loads :: "pystr \<Rightarrow> (pystr, json) pydict res" where
  "sample_loads t = Inr
     ([(str ''id'', JStr t), (str ''version'', JStr [49, 58, 48])] @
      (if t = [2] then [(str ''node_id'', JStr [1])]
       else if t = [3] \<or> t = [4] then [(str ''device_id'', JStr [2])] else []))"

lemma sample_walk:
  "set (walk_all sample_store) = {sample_record NODE [1] None 10, sample_record DEVICE [2] (Some [1]) 11,
     sample_record SENDER [3] (Some [2]) 12, sample_record FLOW [4] (Some [2]) 13}"
  (is "_ = ?S")
proof -
  have range: "x \<in> ?S" if "look sample_store i = Some x" for i x
    using that unfolding sample_look(2) by (simp split: if_splits)
  have "look sample_store (res_id x) = Some x \<and> extant x" if "x \<in> ?S" for x
    using that unfolding sample_look(2) by (auto simp: sample_record_def)
  then show ?thesis using range walk_all_live(2) [OF sample_look(1)] by blast
qed

lemma sample_records_fit:
  assumes "r \<in> set (walk_all sample_store)"
  shows "wf_resource r" "speaks_for sample_loads r" "fits (length (resource_bytes r))"
proof -
  have u: "wf_uint 0" "wf_uint i" if "0 \<le> i" "i < 100" for i using that by (simp_all add: wf_uint_def fits_small)
  have b: "str_bytes [k] = [of_nat k]" if "k < 128" for k
    using that by (simp add: str_bytes_def utf8_encode_def utf8_char_def)
  have v: "str_bytes [49, 58, 48] = [49, 58, 48]" by (simp add: str_bytes_def utf8_encode_def utf8_char_def)
  have n: "length (str_bytes (singular rt)) < 20" for rt
    by (cases rt) (simp_all add: str_bytes_def utf8_encode_def utf8_char_def str_def)
  have t: "length (f_bytes k bs) < 30" if "length bs < 20" "k < 16" for k bs
    using that by (simp add: f_bytes_def tag_bytes_def tag_value varint_bytes_small)
  have w: "length (f_uint k x) < 30" if "x < 100" "k < 16" for k x
    using that by (simp add: f_uint_def tag_bytes_def varint_bytes_small push_bit_eq_mult)
  have len: "length (resource_bytes r) < 1000"
    if "length (str_bytes (res_id r)) < 20" "length (str_bytes (version r)) < 20"
      "length (str_bytes (body_text (body r))) < 20" "length (str_bytes (case parent_id r of None \<Rightarrow> [] | Some p \<Rightarrow> p)) < 20"
      "nat (seconds (created r)) < 100" "nat (nanoseconds (created r)) < 100" "nat (seconds (updated r)) < 100"
      "nat (nanoseconds (updated r)) < 100" "nat (max 0 (health r)) < 100" for r
    using t [OF n [of "resource_type r"], of 1] t [OF that(1), of 2] t [OF that(2), of 3] t [OF that(3), of 11]
      t [OF that(4), of 10] w [OF that(5), of 4] w [OF that(6), of 5] w [OF that(7), of 6] w [OF that(8), of 7]
      w [OF that(9), of 9] w [of 1 8] w [of 0 8]
    by (cases "extant r") (simp_all add: resource_bytes_def)
  have e: "str_bytes [] = []" by (simp add: str_bytes_def utf8_encode_def)
  show "fits (length (resource_bytes r))"
    using assms unfolding sample_walk
    by (intro fits_small len) (auto simp: sample_record_def sample_body_def b v e)
  show "wf_resource r"
    using assms u unfolding sample_walk
    by (auto simp: wf_resource_def sample_record_def sample_body_def wf_text_ascii wire_cursor_def wf_pair_def
        fits_small)
  show "speaks_for sample_loads r"
    using assms unfolding sample_walk
    by (auto simp: speaks_for_def sample_record_def sample_body_def sample_loads_def parent_id_of_def)
qed


end
