(* ===== verification/Cursors.thy ===== *)
theory Cursors
  imports Registry_Types
begin

section \<open>Cursor allocation\<close>

text \<open>
  \<open>src/nmos/raft/cursors.py\<close>: the class \<open>CursorAllocator\<close> as a record, its methods as
  functions; the wall clock that \<open>allocate\<close> reads is the argument \<open>tn\<close>. Nanoseconds are
  Python integers, so the lane arithmetic is on \<^typ>\<open>int\<close> with its bit operations.
\<close>

definition OWNER_BITS :: nat where "OWNER_BITS = 3"
definition MAX_OWNERS :: int where "MAX_OWNERS = push_bit OWNER_BITS 1"
definition LANE_MASK :: int where "LANE_MASK = MAX_OWNERS - 1"
definition NANOS_PER_SECOND :: int where "NANOS_PER_SECOND = 1000000000"
definition RESERVATION_WINDOW_SECONDS :: int where "RESERVATION_WINDOW_SECONDS = 1"

definition owner_of :: "TaiCursor \<Rightarrow> int" where
  "owner_of cursor = nanoseconds cursor AND LANE_MASK"

record CursorAllocator =
  ca_owner :: int
  ca_high_water :: "ResourceType \<rightharpoonup> TaiCursor"
  ca_floor :: "TaiCursor option"
  ca_reserved :: "TaiCursor option"

definition new_allocator :: "int \<Rightarrow> CursorAllocator res" where
  "new_allocator owner =
     (if \<not> (0 \<le> owner \<and> owner < MAX_OWNERS) then Inl ValueError
      else Inr \<lparr>ca_owner = owner, ca_high_water = Map.empty, ca_floor = None, ca_reserved = None\<rparr>)"

definition reservation :: "CursorAllocator \<Rightarrow> TaiCursor option" where
  "reservation a = ca_reserved a"

definition resume :: "CursorAllocator \<Rightarrow> TaiCursor option \<Rightarrow> CursorAllocator" where
  "resume a reserved = a\<lparr>ca_floor := reserved, ca_reserved := reserved\<rparr>"

definition in_lane :: "CursorAllocator \<Rightarrow> TaiCursor \<Rightarrow> TaiCursor" where
  "in_lane a cursor = TaiCursor (seconds cursor) ((nanoseconds cursor AND NOT LANE_MASK) OR ca_owner a)"

definition next_in_lane :: "CursorAllocator \<Rightarrow> TaiCursor \<Rightarrow> TaiCursor" where
  "next_in_lane a after =
     (let ns = push_bit OWNER_BITS (drop_bit OWNER_BITS (nanoseconds after) + 1) OR ca_owner a
      in if ns \<ge> NANOS_PER_SECOND then TaiCursor (seconds after + 1) (ca_owner a)
         else TaiCursor (seconds after) ns)"

definition allocate :: "TaiCursor \<Rightarrow> CursorAllocator \<Rightarrow> ResourceType \<Rightarrow> CursorAllocator \<times> TaiCursor" where
  "allocate tn a rt =
     (let candidate = in_lane a tn;
          previous = ca_high_water a rt;
          previous' = (case ca_floor a of
                         None \<Rightarrow> previous
                       | Some bound \<Rightarrow>
                           if (case previous of None \<Rightarrow> True | Some p \<Rightarrow> p < bound)
                           then Some bound else previous);
          candidate' = (case previous' of
                          None \<Rightarrow> candidate
                        | Some p \<Rightarrow> if candidate \<le> p then next_in_lane a p else candidate)
      in (a\<lparr>ca_high_water := (ca_high_water a)(rt \<mapsto> candidate')\<rparr>, candidate'))"

definition reservation_needed :: "CursorAllocator \<Rightarrow> TaiCursor \<Rightarrow> TaiCursor option" where
  "reservation_needed a cursor =
     (if (case ca_reserved a of Some r \<Rightarrow> cursor \<le> r | None \<Rightarrow> False) then None
      else Some (TaiCursor (seconds cursor + RESERVATION_WINDOW_SECONDS) (nanoseconds cursor)))"

definition confirm_reservation :: "CursorAllocator \<Rightarrow> TaiCursor \<Rightarrow> CursorAllocator" where
  "confirm_reservation a reserved =
     (if (case ca_reserved a of None \<Rightarrow> True | Some r \<Rightarrow> reserved > r)
      then a\<lparr>ca_reserved := Some reserved\<rparr> else a)"

definition observe :: "CursorAllocator \<Rightarrow> ResourceType \<Rightarrow> TaiCursor \<Rightarrow> CursorAllocator" where
  "observe a rt cursor =
     (if (case ca_high_water a rt of None \<Rightarrow> True | Some p \<Rightarrow> cursor > p)
      then a\<lparr>ca_high_water := (ca_high_water a)(rt \<mapsto> cursor)\<rparr> else a)"

definition high_water :: "CursorAllocator \<Rightarrow> ResourceType \<Rightarrow> TaiCursor option" where
  "high_water a rt = ca_high_water a rt"

subsection \<open>Lane arithmetic\<close>

definition wf_allocator :: "CursorAllocator \<Rightarrow> bool" where
  "wf_allocator a \<longleftrightarrow> 0 \<le> ca_owner a \<and> ca_owner a < 8"

lemma MAX_OWNERS_8 [simp]: "MAX_OWNERS = 8" by (simp add: MAX_OWNERS_def OWNER_BITS_def)
lemma LANE_MASK_7 [simp]: "LANE_MASK = 7" by (simp add: LANE_MASK_def)

lemma new_allocator_wf: "new_allocator owner = Inr a \<Longrightarrow> wf_allocator a"
  by (auto simp: new_allocator_def wf_allocator_def split: if_splits)

lemma int_and_7: "(x::int) AND 7 = x mod 8"
  using take_bit_eq_mask [of 3 x] by (simp add: take_bit_eq_mod mask_eq_exp_minus_1)

lemma lane_or:
  fixes x w :: int
  assumes "0 \<le> w" "w < 8"
  shows "(8 * x) OR w = 8 * x + w"
proof -
  have w: "take_bit 3 w = w" using assms by (simp add: take_bit_int_eq_self_iff)
  have "\<not> bit (push_bit 3 x) n \<or> \<not> bit w n" for n
    using bit_take_bit_iff [of 3 w n] by (auto simp: w bit_push_bit_iff)
  then have "push_bit 3 x OR w = push_bit 3 x + w" by (intro disjunctive_add [symmetric]) blast
  then show ?thesis by (simp add: push_bit_eq_mult mult.commute)
qed

lemma and_not_7: "(x::int) AND NOT 7 = 8 * (x div 8)"
proof -
  have "x = (x AND NOT 7) + (x AND 7)"
  proof -
    have "(x AND NOT 7) + (x AND 7) = (x AND NOT 7) OR (x AND 7)"
      by (rule disjunctive_add) (auto simp: bit_simps)
    also have "\<dots> = x" by (rule bit_eqI) (auto simp: bit_simps)
    finally show ?thesis by simp
  qed
  then show ?thesis using int_and_7 [of x] minus_mod_eq_mult_div [of x 8] by linarith
qed

lemma in_lane_eq: "wf_allocator a \<Longrightarrow>
  in_lane a c = TaiCursor (seconds c) (8 * (nanoseconds c div 8) + ca_owner a)"
  unfolding in_lane_def LANE_MASK_7 and_not_7 wf_allocator_def by (simp only: lane_or)

lemma next_in_lane_eq: "wf_allocator a \<Longrightarrow>
  next_in_lane a c =
    (let ns = 8 * (nanoseconds c div 8 + 1) + ca_owner a
     in if 1000000000 \<le> ns then TaiCursor (seconds c + 1) (ca_owner a) else TaiCursor (seconds c) ns)"
proof -
  assume "wf_allocator a"
  then have "push_bit OWNER_BITS (drop_bit OWNER_BITS (nanoseconds c) + 1) OR ca_owner a =
      8 * (nanoseconds c div 8 + 1) + ca_owner a"
    using lane_or [of "ca_owner a" "nanoseconds c div 8 + 1"]
    by (simp only: wf_allocator_def OWNER_BITS_def drop_bit_eq_div push_bit_eq_mult) (simp add: mult.commute)
  then show ?thesis by (simp only: next_in_lane_def NANOS_PER_SECOND_def)
qed

lemma owner_of_lane: "0 \<le> w \<Longrightarrow> w < 8 \<Longrightarrow> owner_of (TaiCursor s (8 * x + w)) = w"
  by (simp add: owner_of_def int_and_7)

lemma in_lane_owner: "wf_allocator a \<Longrightarrow> owner_of (in_lane a c) = ca_owner a"
  by (simp add: in_lane_eq owner_of_lane wf_allocator_def)

lemma next_in_lane_owner: "wf_allocator a \<Longrightarrow> owner_of (next_in_lane a c) = ca_owner a"
  using owner_of_lane [of "ca_owner a" _ 0] owner_of_lane [of "ca_owner a" "seconds c" "nanoseconds c div 8 + 1"]
  by (auto simp: next_in_lane_eq Let_def wf_allocator_def)

lemma next_in_lane_greater: "wf_allocator a \<Longrightarrow> c < next_in_lane a c"
proof -
  assume w: "wf_allocator a"
  have "nanoseconds c < 8 * (nanoseconds c div 8 + 1) + ca_owner a"
    using w by (simp add: wf_allocator_def) linarith
  then show ?thesis by (simp add: next_in_lane_eq [OF w] Let_def less_TaiCursor_def)
qed

lemma in_lane_norm: "wf_allocator a \<Longrightarrow> cursor_norm c \<Longrightarrow> cursor_norm (in_lane a c)"
proof -
  assume "wf_allocator a" "cursor_norm c"
  then show ?thesis
    unfolding cursor_norm_def in_lane_eq [OF \<open>wf_allocator a\<close>] wf_allocator_def TaiCursor.sel by presburger
qed

lemma next_in_lane_norm: "wf_allocator a \<Longrightarrow> cursor_norm c \<Longrightarrow> cursor_norm (next_in_lane a c)"
  by (auto simp: next_in_lane_eq cursor_norm_def wf_allocator_def Let_def)

lemma in_lane_clock: "wf_allocator a \<Longrightarrow> in_lane a c \<ge> TaiCursor (seconds c) (nanoseconds c - 7)"
  by (simp add: in_lane_eq less_eq_TaiCursor_def wf_allocator_def) linarith

end
