(* ===== verification/Raft_Log.thy ===== *)
theory Raft_Log
  imports Prelude
begin

section \<open>The replicated log\<close>

text \<open>
  \<open>src/nmos/raft/log.py\<close>: the in-memory log with a truncated prefix. \<open>RaftLog\<close> has the
  three slots of the class; every method is one definition of the same name. A method that
  can raise returns \<open>'a res\<close>; \<open>append_replicated\<close> can raise after it has already
  changed the log, so it returns the changed log together with the exception, if any.
\<close>

record 'a Entry =
  e_term :: int
  e_index :: int
  e_payload :: bytes
  e_value :: 'a

record 'a RaftLog =
  log_entries :: "'a Entry list"
  snapshot_index :: int
  snapshot_term :: int

definition new_log :: "int \<Rightarrow> int \<Rightarrow> 'a RaftLog" where
  "new_log si st = \<lparr>log_entries = [], snapshot_index = si, snapshot_term = st\<rparr>"

subsection \<open>Geometry\<close>

definition first_index :: "'a RaftLog \<Rightarrow> int" where
  "first_index lg = snapshot_index lg + 1"

definition last_index :: "'a RaftLog \<Rightarrow> int" where
  "last_index lg =
     (if log_entries lg \<noteq> [] then e_index (last (log_entries lg)) else snapshot_index lg)"

definition last_term :: "'a RaftLog \<Rightarrow> int" where
  "last_term lg =
     (if log_entries lg \<noteq> [] then e_term (last (log_entries lg)) else snapshot_term lg)"

definition entries_held :: "'a RaftLog \<Rightarrow> int" where
  "entries_held lg = int (length (log_entries lg))"

subsection \<open>Reading\<close>

definition position :: "'a RaftLog \<Rightarrow> int \<Rightarrow> nat res" where
  "position lg i =
     (if i \<le> snapshot_index lg then Inl RaftLogCompacted
      else let offset = i - first_index lg
           in if offset < 0 \<or> offset \<ge> int (length (log_entries lg)) then Inl IndexError
              else Inr (nat offset))"

definition get_entry :: "'a RaftLog \<Rightarrow> int \<Rightarrow> 'a Entry res" where
  "get_entry lg i = bind_res (position lg i) (\<lambda>p. Inr (log_entries lg ! p))"

definition term_at :: "'a RaftLog \<Rightarrow> int \<Rightarrow> int res" where
  "term_at lg i =
     (if i = snapshot_index lg then Inr (snapshot_term lg)
      else if i = 0 \<and> snapshot_index lg = 0 then Inr 0
      else bind_res (get_entry lg i) (\<lambda>e. Inr (e_term e)))"

definition slice :: "'a RaftLog \<Rightarrow> int \<Rightarrow> int \<Rightarrow> 'a Entry list res" where
  "slice lg start limit =
     (if limit \<le> 0 \<or> start > last_index lg then Inr []
      else bind_res (position lg start)
             (\<lambda>p. Inr (take (nat limit) (drop p (log_entries lg)))))"

text \<open>The counting loop of \<open>window\<close>: \<open>taken\<close> and \<open>total_bytes\<close> are the code's \<open>taken\<close> and \<open>total\<close>.\<close>

fun window_taken :: "int \<Rightarrow> 'a Entry list \<Rightarrow> nat \<Rightarrow> int \<Rightarrow> nat" where
  "window_taken max_bytes [] taken total_bytes = taken"
| "window_taken max_bytes (e # es) taken total_bytes =
     (let total' = total_bytes + int (length (e_payload e))
      in if total' > max_bytes \<and> taken > 0 then taken
         else window_taken max_bytes es (Suc taken) total')"

definition window :: "'a RaftLog \<Rightarrow> int \<Rightarrow> int \<Rightarrow> int \<Rightarrow> 'a Entry list res" where
  "window lg start max_entries max_bytes =
     bind_res (slice lg start max_entries)
       (\<lambda>es. Inr (take (window_taken max_bytes es 0 0) es))"

subsection \<open>Appending\<close>

text \<open>The entries \<open>append\<close> builds: consecutive indices from \<open>first\<close>.\<close>

fun number_entries :: "int \<Rightarrow> int \<Rightarrow> (bytes \<times> 'a) list \<Rightarrow> 'a Entry list" where
  "number_entries t i [] = []"
| "number_entries t i ((p, v) # xs) =
     \<lparr>e_term = t, e_index = i, e_payload = p, e_value = v\<rparr> # number_entries t (i + 1) xs"

definition append_log ::
  "'a RaftLog \<Rightarrow> int \<Rightarrow> (bytes \<times> 'a) list \<Rightarrow> ('a RaftLog \<times> int \<times> int) res" where
  "append_log lg t xs =
     (if xs = [] then Inl ValueError
      else let first = last_index lg + 1;
               lg' = lg\<lparr>log_entries := log_entries lg @ number_entries t first xs\<rparr>
           in Inr (lg', first, last_index lg'))"

definition truncate_suffix :: "'a RaftLog \<Rightarrow> int \<Rightarrow> 'a RaftLog res" where
  "truncate_suffix lg from_index =
     (if from_index \<le> snapshot_index lg then Inl RaftLogCompacted
      else if from_index > last_index lg then Inr lg
      else bind_res (position lg from_index)
             (\<lambda>p. Inr (lg\<lparr>log_entries := take p (log_entries lg)\<rparr>)))"

text \<open>
  The tail of the loop body of \<open>append_replicated\<close>: the contiguity check and the append.
\<close>

definition append_next :: "'a RaftLog \<Rightarrow> 'a Entry \<Rightarrow> 'a RaftLog res" where
  "append_next lg e =
     (if e_index e \<noteq> last_index lg + 1 then Inl ValueError
      else Inr (lg\<lparr>log_entries := log_entries lg @ [e]\<rparr>))"

text \<open>
  One round of the loop: \<open>Inl\<close> is the exception with the log as it stands when it is
  raised (a truncation may already have happened), \<open>Inr\<close> the log after the round.
\<close>

definition append_one ::
  "int \<Rightarrow> 'a RaftLog \<Rightarrow> 'a Entry \<Rightarrow> ('a RaftLog \<times> py_error) + 'a RaftLog" where
  "append_one committed lg e =
     (if e_index e \<le> snapshot_index lg then Inr lg
      else
        if e_index e \<le> last_index lg then
          (case get_entry lg (e_index e) of
             Inl err \<Rightarrow> Inl (lg, err)
           | Inr existing \<Rightarrow>
               if e_term existing = e_term e then Inr lg
               else if e_index e \<le> committed then Inl (lg, RaftInvariantViolated)
               else (case truncate_suffix lg (e_index e) of
                       Inl err \<Rightarrow> Inl (lg, err)
                     | Inr lg' \<Rightarrow>
                         (case append_next lg' e of
                            Inl err \<Rightarrow> Inl (lg', err)
                          | Inr lg'' \<Rightarrow> Inr lg'')))
        else (case append_next lg e of Inl err \<Rightarrow> Inl (lg, err) | Inr lg' \<Rightarrow> Inr lg'))"

fun append_replicated ::
  "'a RaftLog \<Rightarrow> 'a Entry list \<Rightarrow> int \<Rightarrow> 'a RaftLog \<times> py_error option" where
  "append_replicated lg [] committed = (lg, None)"
| "append_replicated lg (e # es) committed =
     (case append_one committed lg e of
        Inl (lg', err) \<Rightarrow> (lg', Some err)
      | Inr lg' \<Rightarrow> append_replicated lg' es committed)"

subsection \<open>Compaction\<close>

definition discard_through :: "'a RaftLog \<Rightarrow> int \<Rightarrow> int \<Rightarrow> ('a RaftLog \<times> int) res" where
  "discard_through lg i t =
     (if i > last_index lg then Inl ValueError
      else if i \<le> snapshot_index lg then Inr (lg, 0)
      else bind_res (position lg i)
             (\<lambda>p. let freed = Suc p
                  in Inr (lg\<lparr>log_entries := drop freed (log_entries lg),
                            snapshot_index := i, snapshot_term := t\<rparr>, int freed)))"

definition reset_to_snapshot :: "'a RaftLog \<Rightarrow> int \<Rightarrow> int \<Rightarrow> 'a RaftLog" where
  "reset_to_snapshot lg i t =
     lg\<lparr>log_entries := [], snapshot_index := i, snapshot_term := t\<rparr>"

subsection \<open>Conflict resolution\<close>

definition log_matches :: "'a RaftLog \<Rightarrow> int \<Rightarrow> int \<Rightarrow> bool res" where
  "log_matches lg i t =
     (if i = 0 then Inr (snapshot_index lg = 0)
      else if i < snapshot_index lg \<or> i > last_index lg then Inr False
      else if i = snapshot_index lg then Inr (t = snapshot_term lg)
      else bind_res (get_entry lg i) (\<lambda>e. Inr (e_term e = t)))"

text \<open>
  The \<open>while first > self.first_index\<close> loop; the second argument is \<open>conflicting\<close>.
\<close>

function conflict_start :: "'a RaftLog \<Rightarrow> int \<Rightarrow> int \<Rightarrow> int res" where
  "conflict_start lg conflicting first =
     (if first > first_index lg then
        (case get_entry lg (first - 1) of
           Inl RaftLogCompacted \<Rightarrow> Inr first
         | Inl err \<Rightarrow> Inl err
         | Inr e \<Rightarrow> if e_term e \<noteq> conflicting then Inr first
                    else conflict_start lg conflicting (first - 1))
      else Inr first)"
  by pat_completeness auto
termination
  by (relation "measure (\<lambda>(lg, c, first). nat (first - first_index lg))") auto

definition find_conflict :: "'a RaftLog \<Rightarrow> int \<Rightarrow> int \<Rightarrow> (int \<times> int) res" where
  "find_conflict lg i t =
     (if i > last_index lg then Inr (last_index lg + 1, last_term lg)
      else (case get_entry lg i of
              Inl RaftLogCompacted \<Rightarrow> Inr (first_index lg, snapshot_term lg)
            | Inl err \<Rightarrow> Inl err
            | Inr e \<Rightarrow>
                let conflicting = e_term e
                in if conflicting = t then Inr (i, t)
                   else bind_res (conflict_start lg conflicting i)
                          (\<lambda>first. Inr (first, conflicting))))"

definition is_at_least_as_current_as :: "'a RaftLog \<Rightarrow> int \<Rightarrow> int \<Rightarrow> bool" where
  "is_at_least_as_current_as lg i t =
     (if t \<noteq> last_term lg then t > last_term lg else i \<ge> last_index lg)"

declare conflict_start.simps [simp del]


subsection \<open>Well-formed logs\<close>

text \<open>
  Indices are absolute and contiguous: entry \<open>k\<close> of the list sits at
  \<open>snapshot_index + 1 + k\<close>, and the boundary itself is never negative.
\<close>

definition numbered_from :: "int \<Rightarrow> 'a Entry list \<Rightarrow> bool" where
  "numbered_from i es \<longleftrightarrow> (\<forall>k < length es. e_index (es ! k) = i + int k)"

definition wf_log :: "'a RaftLog \<Rightarrow> bool" where
  "wf_log lg \<longleftrightarrow> 0 \<le> snapshot_index lg \<and> numbered_from (snapshot_index lg + 1) (log_entries lg)"

text \<open>The log as the partial map from indices to entries it stands for.\<close>

definition entry_at :: "'a RaftLog \<Rightarrow> int \<Rightarrow> 'a Entry option" where
  "entry_at lg i =
     (if snapshot_index lg < i \<and> i \<le> snapshot_index lg + int (length (log_entries lg))
      then Some (log_entries lg ! nat (i - snapshot_index lg - 1)) else None)"

lemma numbered_from_Nil [simp]: "numbered_from i []"
  by (simp add: numbered_from_def)

lemma numbered_from_Cons [simp]:
  "numbered_from i (e # es) \<longleftrightarrow> e_index e = i \<and> numbered_from (i + 1) es"
proof
  assume n: "numbered_from i (e # es)"
  have "e_index (es ! k) = i + 1 + int k" if "k < length es" for k
    using n that by (auto simp: numbered_from_def dest: spec [where x = "Suc k"])
  moreover from n have "e_index e = i"
    by (auto simp: numbered_from_def dest: spec [where x = 0])
  ultimately show "e_index e = i \<and> numbered_from (i + 1) es"
    by (simp add: numbered_from_def)
next
  assume "e_index e = i \<and> numbered_from (i + 1) es"
  then show "numbered_from i (e # es)"
    by (auto simp: numbered_from_def nth_Cons split: nat.splits)
qed

lemma numbered_from_append [simp]:
  "numbered_from i (xs @ ys) \<longleftrightarrow> numbered_from i xs \<and> numbered_from (i + int (length xs)) ys"
  by (induction xs arbitrary: i) (auto simp: algebra_simps)

lemma numbered_from_take: "numbered_from i xs \<Longrightarrow> numbered_from i (take n xs)"
  by (simp add: numbered_from_def)

lemma numbered_from_drop:
  "numbered_from i xs \<Longrightarrow> n \<le> length xs \<Longrightarrow> numbered_from (i + int n) (drop n xs)"
  by (simp add: numbered_from_def)

lemma numbered_number_entries [simp]: "numbered_from i (number_entries t i xs)"
  by (induction t i xs rule: number_entries.induct) auto

lemma length_number_entries [simp]: "length (number_entries t i xs) = length xs"
  by (induction t i xs rule: number_entries.induct) auto

lemma last_index_wf:
  assumes "wf_log lg"
  shows "last_index lg = snapshot_index lg + int (length (log_entries lg))"
  using assms by (auto simp: last_index_def wf_log_def numbered_from_def last_conv_nth of_nat_diff Suc_leI)

lemma position_wf:
  assumes "wf_log lg"
  shows "position lg i =
    (if i \<le> snapshot_index lg then Inl RaftLogCompacted
     else if i > last_index lg then Inl IndexError
     else Inr (nat (i - snapshot_index lg - 1)))"
  using assms by (auto simp: position_def Let_def first_index_def last_index_wf algebra_simps)

lemma get_entry_wf:
  assumes "wf_log lg"
  shows "get_entry lg i =
    (if i \<le> snapshot_index lg then Inl RaftLogCompacted
     else case entry_at lg i of None \<Rightarrow> Inl IndexError | Some e \<Rightarrow> Inr e)"
  using assms by (auto simp: get_entry_def position_wf entry_at_def last_index_wf)

lemma entry_at_index:
  assumes "wf_log lg" and "entry_at lg i = Some e"
  shows "e_index e = i"
  using assms by (auto simp: entry_at_def wf_log_def numbered_from_def split: if_splits)

lemma entry_at_range:
  assumes "wf_log lg"
  shows "entry_at lg i \<noteq> None \<longleftrightarrow> snapshot_index lg < i \<and> i \<le> last_index lg"
  using assms by (auto simp: entry_at_def last_index_wf)

lemma term_at_wf:
  assumes "wf_log lg"
  shows "term_at lg i =
    (if i = snapshot_index lg then Inr (snapshot_term lg)
     else if i < snapshot_index lg then Inl RaftLogCompacted
     else case entry_at lg i of None \<Rightarrow> Inl IndexError | Some e \<Rightarrow> Inr (e_term e))"
  using assms by (auto simp: term_at_def get_entry_wf split: option.splits)

subsection \<open>Every operation keeps the log well formed\<close>

lemma wf_new_log [wf_intros]: "0 \<le> si \<Longrightarrow> wf_log (new_log si st)"
  by (simp add: wf_log_def new_log_def)

lemma append_log_wf:
  assumes "wf_log lg" and "append_log lg t xs = Inr (lg', f, l)"
  shows "wf_log lg' \<and> f = last_index lg + 1 \<and> l = last_index lg + int (length xs) \<and>
         last_index lg' = l \<and> snapshot_index lg' = snapshot_index lg \<and>
         snapshot_term lg' = snapshot_term lg \<and>
         log_entries lg' = log_entries lg @ number_entries t (last_index lg + 1) xs"
proof -
  from assms(2) have lg': "lg' = lg\<lparr>log_entries := log_entries lg @ number_entries t (last_index lg + 1) xs\<rparr>"
    and f: "f = last_index lg + 1" and l: "l = last_index lg'"
    by (auto simp: append_log_def Let_def split: if_splits)
  have n: "numbered_from (snapshot_index lg + 1 + int (length (log_entries lg)))
             (number_entries t (last_index lg + 1) xs)"
    using numbered_number_entries [of "last_index lg + 1" t xs]
    by (simp add: last_index_wf [OF assms(1)] algebra_simps)
  then have wf: "wf_log lg'"
    using assms(1) by (simp add: lg' wf_log_def)
  then have "last_index lg' = last_index lg + int (length xs)"
    using last_index_wf [OF wf] last_index_wf [OF assms(1)] by (simp add: lg')
  with wf show ?thesis by (simp add: lg' f l)
qed

lemma truncate_suffix_wf:
  assumes "wf_log lg" and "truncate_suffix lg i = Inr lg'"
  shows "wf_log lg' \<and> snapshot_index lg' = snapshot_index lg \<and> snapshot_term lg' = snapshot_term lg \<and>
         last_index lg' = min (last_index lg) (i - 1) \<and>
         log_entries lg' = take (nat (i - snapshot_index lg - 1)) (log_entries lg)"
proof (cases "i > last_index lg")
  case True
  with assms show ?thesis
    by (auto simp: truncate_suffix_def last_index_wf split: if_splits)
next
  case False
  with assms have lg': "lg' = lg\<lparr>log_entries := take (nat (i - snapshot_index lg - 1)) (log_entries lg)\<rparr>"
    and gt: "i > snapshot_index lg"
    by (auto simp: truncate_suffix_def position_wf split: if_splits)
  then have wf: "wf_log lg'"
    using assms(1) by (auto simp: wf_log_def numbered_from_take)
  show ?thesis
    using wf last_index_wf [OF wf] last_index_wf [OF assms(1)] False gt by (auto simp: lg')
qed

lemma discard_through_wf:
  assumes "wf_log lg" and "discard_through lg i t = Inr (lg', freed)"
  shows "wf_log lg' \<and> last_index lg' = last_index lg \<and>
         snapshot_index lg' = max i (snapshot_index lg) \<and> freed = snapshot_index lg' - snapshot_index lg"
proof (cases "i \<le> snapshot_index lg")
  case True
  with assms show ?thesis
    by (auto simp: discard_through_def split: if_splits)
next
  case False
  let ?n = "Suc (nat (i - snapshot_index lg - 1))"
  from False assms have le: "i \<le> last_index lg"
    and lg': "lg' = lg\<lparr>log_entries := drop ?n (log_entries lg), snapshot_index := i, snapshot_term := t\<rparr>"
    and fr: "freed = int ?n"
    by (auto simp: discard_through_def position_wf Let_def split: if_splits)
  have len: "?n \<le> length (log_entries lg)"
    using le False last_index_wf [OF assms(1)] by linarith
  then have "numbered_from (snapshot_index lg + 1 + int ?n) (drop ?n (log_entries lg))"
    using assms(1) by (intro numbered_from_drop) (simp_all add: wf_log_def)
  with False assms(1) have wf: "wf_log lg'"
    by (simp add: lg' wf_log_def algebra_simps)
  show ?thesis
    using wf last_index_wf [OF wf] last_index_wf [OF assms(1)] False len
    by (auto simp: lg' fr of_nat_diff)
qed

lemma reset_to_snapshot_wf [wf_intros]:
  "0 \<le> i \<Longrightarrow> wf_log (reset_to_snapshot lg i t)"
  by (simp add: reset_to_snapshot_def wf_log_def)

lemma append_next_wf:
  assumes "wf_log lg" and "append_next lg e = Inr lg'"
  shows "wf_log lg' \<and> snapshot_index lg' = snapshot_index lg \<and> snapshot_term lg' = snapshot_term lg \<and>
         log_entries lg' = log_entries lg @ [e] \<and> e_index e = last_index lg + 1"
  using assms last_index_wf [OF assms(1)]
  by (auto simp: append_next_def wf_log_def split: if_splits)


subsection \<open>Replicated appends: the conflict rule\<close>

lemma truncate_suffix_exact:
  assumes wf: "wf_log lg" and gt: "i > snapshot_index lg"
  shows "truncate_suffix lg i =
    Inr (lg\<lparr>log_entries := take (nat (i - snapshot_index lg - 1)) (log_entries lg)\<rparr>)"
  using assms last_index_wf [OF wf]
  by (auto simp: truncate_suffix_def position_wf)

lemma append_next_exact:
  assumes "e_index e = last_index lg + 1"
  shows "append_next lg e = Inr (lg\<lparr>log_entries := log_entries lg @ [e]\<rparr>)"
  using assms by (simp add: append_next_def)

text \<open>
  One round of the loop on a well-formed log, case by case: skip, refuse, overwrite or
  extend. The truncation never fails and the entry always fits after it.
\<close>

lemma append_one_cases:
  assumes wf: "wf_log lg"
  shows "append_one committed lg e =
    (if e_index e \<le> snapshot_index lg then Inr lg
     else case entry_at lg (e_index e) of
            Some x \<Rightarrow> if e_term x = e_term e then Inr lg
                      else if e_index e \<le> committed then Inl (lg, RaftInvariantViolated)
                      else Inr (lg\<lparr>log_entries :=
                             take (nat (e_index e - snapshot_index lg - 1)) (log_entries lg) @ [e]\<rparr>)
          | None \<Rightarrow> if e_index e = last_index lg + 1
                    then Inr (lg\<lparr>log_entries := log_entries lg @ [e]\<rparr>)
                    else Inl (lg, ValueError))"
proof (cases "snapshot_index lg < e_index e \<and> e_index e \<le> last_index lg")
  case True
  let ?t = "lg\<lparr>log_entries := take (nat (e_index e - snapshot_index lg - 1)) (log_entries lg)\<rparr>"
  from True wf obtain x where x: "entry_at lg (e_index e) = Some x"
    by (metis entry_at_range option.exhaust)
  have tr: "truncate_suffix lg (e_index e) = Inr ?t"
    using True by (intro truncate_suffix_exact [OF wf]) simp
  have "last_index ?t = e_index e - 1"
    using truncate_suffix_wf [OF wf tr] True by simp
  then have nx: "append_next ?t e = Inr (?t\<lparr>log_entries := log_entries ?t @ [e]\<rparr>)"
    by (intro append_next_exact) simp
  from True x tr nx show ?thesis
    by (simp add: append_one_def get_entry_wf [OF wf])
next
  case False
  then have "e_index e > snapshot_index lg \<Longrightarrow> entry_at lg (e_index e) = None"
    using entry_at_range [OF wf, of "e_index e"] by auto
  with False show ?thesis
    by (auto simp: append_one_def append_next_def)
qed


text \<open>So a round that raises leaves the log alone, and one that does not either leaves it
  alone or cuts it above the commit index and adds the entry there.\<close>

lemma append_one_Inl: "wf_log lg \<Longrightarrow> append_one committed lg e = Inl (lg', err) \<Longrightarrow> lg' = lg"
  by (auto simp: append_one_cases split: option.splits if_splits)

lemma append_one_Inr:
  assumes wf: "wf_log lg" and "append_one committed lg e = Inr lg'"
  shows "lg' = lg \<or>
    (\<exists>n \<le> length (log_entries lg).
       lg' = lg\<lparr>log_entries := take n (log_entries lg) @ [e]\<rparr> \<and>
       e_index e = snapshot_index lg + 1 + int n \<and>
       (n < length (log_entries lg) \<longrightarrow> committed < e_index e))"
proof (cases "entry_at lg (e_index e)")
  case None
  show ?thesis
  proof (cases "lg' = lg")
    case False
    with None assms last_index_wf [OF wf]
    have "lg' = lg\<lparr>log_entries := take (length (log_entries lg)) (log_entries lg) @ [e]\<rparr> \<and>
          e_index e = snapshot_index lg + 1 + int (length (log_entries lg))"
      by (auto simp: append_one_cases split: if_splits)
    then show ?thesis by blast
  qed simp
next
  case (Some x)
  let ?n = "nat (e_index e - snapshot_index lg - 1)"
  from Some have "snapshot_index lg < e_index e" and lt: "?n < length (log_entries lg)"
    by (auto simp: entry_at_def split: if_splits)
  moreover from Some assms have "lg' = lg \<or>
      lg' = lg\<lparr>log_entries := take ?n (log_entries lg) @ [e]\<rparr> \<and> committed < e_index e"
    by (auto simp: append_one_cases split: if_splits)
  moreover have "e_index e = snapshot_index lg + 1 + int ?n"
    using calculation(1) by simp
  ultimately show ?thesis by (metis less_imp_le)
qed

lemma append_one_wf:
  assumes wf: "wf_log lg" and "append_one committed lg e = Inr lg'"
  shows "wf_log lg' \<and> snapshot_index lg' = snapshot_index lg \<and> snapshot_term lg' = snapshot_term lg"
  using append_one_Inr [OF assms] wf
  by (auto simp: wf_log_def numbered_from_take)

lemma append_replicated_wf:
  assumes "wf_log lg" and "append_replicated lg es committed = (lg', err)"
  shows "wf_log lg' \<and> snapshot_index lg' = snapshot_index lg \<and> snapshot_term lg' = snapshot_term lg"
  using assms
proof (induction lg es committed arbitrary: lg' err rule: append_replicated.induct)
  case (2 lg e es committed)
  show ?case
  proof (cases "append_one committed lg e")
    case (Inl a)
    with 2 show ?thesis by (cases a) (auto dest: append_one_Inl)
  next
    case (Inr lg1)
    with "2.IH" [OF Inr] "2.prems" append_one_wf [OF "2.prems"(1) Inr] show ?thesis by auto
  qed
qed simp

text \<open>
  Whatever arrives, and however the call ends, an entry at or below the commit index is
  exactly the entry that was there before.
\<close>

lemma take_entry_at:
  assumes "wf_log lg" "wf_log lg'" "snapshot_index lg' = snapshot_index lg"
    and "log_entries lg' = take n (log_entries lg) @ ys"
    and "i \<le> last_index lg" "i \<le> snapshot_index lg + int n"
  shows "entry_at lg' i = entry_at lg i"
  using assms by (auto simp: entry_at_def nth_append last_index_wf)


lemma append_one_committed:
  assumes wf: "wf_log lg" and ok: "append_one committed lg e = Inr lg'"
    and i: "i \<le> committed" "i \<le> last_index lg"
  shows "entry_at lg' i = entry_at lg i \<and> i \<le> last_index lg'"
proof (cases "lg' = lg")
  case False
  with append_one_Inr [OF wf ok] obtain n where n: "n \<le> length (log_entries lg)"
    "lg' = lg\<lparr>log_entries := take n (log_entries lg) @ [e]\<rparr>"
    "e_index e = snapshot_index lg + 1 + int n"
    "n < length (log_entries lg) \<Longrightarrow> committed < e_index e" by auto
  have "i \<le> snapshot_index lg + int n"
    using n i last_index_wf [OF wf] by (cases "n < length (log_entries lg)") auto
  then show ?thesis
    using take_entry_at [OF wf, of lg' n "[e]" i] append_one_wf [OF wf ok] n i
    by (auto simp: last_index_wf)
qed (use i in simp)

lemma append_replicated_committed:
  assumes "wf_log lg" and "append_replicated lg es committed = (lg', err)"
    and "i \<le> committed" and "i \<le> last_index lg"
  shows "entry_at lg' i = entry_at lg i \<and> i \<le> last_index lg'"
  using assms
proof (induction lg es committed arbitrary: lg' err rule: append_replicated.induct)
  case (2 lg e es committed)
  show ?case
  proof (cases "append_one committed lg e")
    case (Inl a)
    with 2 show ?thesis by (cases a) (auto dest: append_one_Inl)
  next
    case (Inr lg1)
    with append_one_wf [OF "2.prems"(1) Inr] append_one_committed [OF "2.prems"(1) Inr "2.prems"(3,4)]
      "2.IH" [OF Inr] "2.prems" show ?thesis by auto
  qed
qed simp


text \<open>
  The rule itself, on lists aligned at one index: keep what agrees on the term, and from the
  first disagreement on take what the leader sent. \<open>append_replicated\<close> refines it.
\<close>

fun merge_entries :: "'a Entry list \<Rightarrow> 'a Entry list \<Rightarrow> 'a Entry list" where
  "merge_entries xs [] = xs"
| "merge_entries [] es = es"
| "merge_entries (x # xs) (e # es) =
     (if e_term x = e_term e then x # merge_entries xs es else e # es)"

text \<open>No entry that arrives disagrees with one at or below the commit index.\<close>

definition no_committed_conflict :: "'a RaftLog \<Rightarrow> 'a Entry list \<Rightarrow> int \<Rightarrow> bool" where
  "no_committed_conflict lg es committed \<longleftrightarrow>
     (\<forall>e \<in> set es. \<forall>x. e_index e \<le> committed \<and> entry_at lg (e_index e) = Some x \<longrightarrow>
        e_term x = e_term e)"

lemma merge_entries_Nil [simp]: "merge_entries [] es = es"
  by (cases es) auto

lemma entry_at_offset:
  assumes "n < length (log_entries lg)"
  shows "entry_at lg (snapshot_index lg + 1 + int n) = Some (log_entries lg ! n)"
  using assms by (simp add: entry_at_def nat_add_distrib)

text \<open>Past the end of the log nothing can disagree: the rest is appended as it is.\<close>

lemma append_replicated_extend:
  assumes "wf_log lg" and "numbered_from (last_index lg + 1) es"
  shows "append_replicated lg es committed = (lg\<lparr>log_entries := log_entries lg @ es\<rparr>, None)"
  using assms
proof (induction es arbitrary: lg)
  case (Cons e es)
  let ?lg = "lg\<lparr>log_entries := log_entries lg @ [e]\<rparr>"
  from Cons.prems have e: "e_index e = last_index lg + 1" and es: "numbered_from (last_index lg + 2) es"
    by (simp_all add: algebra_simps)
  have one: "append_one committed lg e = Inr ?lg"
    using e last_index_wf [OF Cons.prems(1)]
    by (simp add: append_one_cases [OF Cons.prems(1)] entry_at_def)
  have wf: "wf_log ?lg"
    using append_one_wf [OF Cons.prems(1) one] by simp
  moreover have "last_index ?lg = last_index lg + 1"
    using last_index_wf [OF wf] last_index_wf [OF Cons.prems(1)] by simp
  ultimately have "append_replicated ?lg es committed = (?lg\<lparr>log_entries := log_entries ?lg @ es\<rparr>, None)"
    using es by (intro Cons.IH) (simp_all add: algebra_simps)
  then show ?case by (simp add: one)
qed simp

lemma append_replicated_merge:
  assumes "wf_log lg" and "n \<le> length (log_entries lg)"
    and "numbered_from (snapshot_index lg + 1 + int n) es"
    and "no_committed_conflict lg es committed"
  shows "append_replicated lg es committed =
    (lg\<lparr>log_entries := take n (log_entries lg) @ merge_entries (drop n (log_entries lg)) es\<rparr>, None)"
  using assms
proof (induction es arbitrary: n)
  case (Cons e es)
  note wf = Cons.prems(1)
  from Cons.prems(3) have e: "e_index e = snapshot_index lg + 1 + int n"
    and es: "numbered_from (snapshot_index lg + 1 + int (Suc n)) es"
    by (simp_all add: algebra_simps)
  show ?case
  proof (cases "n = length (log_entries lg)")
    case True
    then show ?thesis
      using append_replicated_extend [OF wf, of "e # es" committed] Cons.prems(3)
      by (simp add: last_index_wf [OF wf] algebra_simps)
  next
    case False
    with Cons.prems(2) have lt: "n < length (log_entries lg)" by simp
    note at = entry_at_offset [OF lt]
    have drop: "drop n (log_entries lg) = log_entries lg ! n # drop (Suc n) (log_entries lg)"
      using lt by (simp add: Cons_nth_drop_Suc)
    show ?thesis
    proof (cases "e_term (log_entries lg ! n) = e_term e")
      case True
      have one: "append_one committed lg e = Inr lg"
        using True at by (simp add: append_one_cases [OF wf] e)
      have rest: "no_committed_conflict lg es committed"
        using Cons.prems(4) unfolding no_committed_conflict_def by (meson list.set_intros(2))
      have "append_replicated lg es committed =
          (lg\<lparr>log_entries := take (Suc n) (log_entries lg) @
                merge_entries (drop (Suc n) (log_entries lg)) es\<rparr>, None)"
        by (rule Cons.IH [OF wf Suc_leI [OF lt] es rest])
      moreover have "take (Suc n) (log_entries lg) = take n (log_entries lg) @ [log_entries lg ! n]"
        using lt by (rule take_Suc_conv_app_nth)
      ultimately show ?thesis
        using True by (simp only: append_replicated.simps one sum.case drop merge_entries.simps if_True
          append_assoc append.simps simp_thms)
    next
      case False
      let ?lg = "lg\<lparr>log_entries := take n (log_entries lg) @ [e]\<rparr>"
      have "committed < e_index e"
        using Cons.prems(4) False at unfolding no_committed_conflict_def
        by (metis e leI list.set_intros(1))
      then have one: "append_one committed lg e = Inr ?lg"
        using False at by (simp add: append_one_cases [OF wf] e)
      have wf': "wf_log ?lg"
        using append_one_wf [OF wf one] by simp
      have "last_index ?lg = snapshot_index lg + 1 + int n"
        using last_index_wf [OF wf'] lt by simp
      then have "append_replicated ?lg es committed = (?lg\<lparr>log_entries := log_entries ?lg @ es\<rparr>, None)"
        using es by (intro append_replicated_extend [OF wf']) (simp add: algebra_simps)
      then show ?thesis
        unfolding append_replicated.simps one sum.case drop merge_entries.simps using False by simp
    qed
  qed
qed simp

text \<open>
  Entries the snapshot already covers are skipped, so the message may start anywhere at or
  below the end of the log.
\<close>

lemma append_replicated_skip:
  assumes "wf_log lg" and "\<forall>e \<in> set es. e_index e \<le> snapshot_index lg"
  shows "append_replicated lg (es @ fs) committed = append_replicated lg fs committed"
  using assms by (induction es) (auto simp: append_one_cases)

lemma merge_entries_idem: "merge_entries (merge_entries xs es) es = merge_entries xs es"
proof (induction xs es rule: merge_entries.induct)
  case (2 v va)
  have "merge_entries ys ys = ys" for ys :: "'a Entry list"
    by (induction ys) auto
  then show ?case by simp
next
  case (3 x xs e es)
  have "merge_entries ys ys = ys" for ys :: "'a Entry list"
    by (induction ys) auto
  with 3 show ?case by simp
qed simp

lemma merge_entries_terms:
  "k < length es \<Longrightarrow> k < length (merge_entries xs es) \<and> e_term (merge_entries xs es ! k) = e_term (es ! k)"
  by (induction xs es arbitrary: k rule: merge_entries.induct)
     (auto simp: nth_Cons split: nat.splits)

lemma length_merge_entries: "length es \<le> length (merge_entries xs es)"
  by (induction xs es rule: merge_entries.induct) auto


subsection \<open>Finding where to resume\<close>

text \<open>The loop stops at the first index of the run of equal terms that ends at \<open>first\<close>.\<close>

lemma conflict_start_run:
  assumes wf: "wf_log lg" and "snapshot_index lg < first" and "first \<le> last_index lg"
    and "entry_at lg first = Some x" and "e_term x = c"
  shows "\<exists>r. conflict_start lg c first = Inr r \<and> snapshot_index lg < r \<and> r \<le> first \<and>
           (\<forall>i. r \<le> i \<and> i \<le> first \<longrightarrow> (\<exists>e. entry_at lg i = Some e \<and> e_term e = c)) \<and>
           (r = first_index lg \<or> (\<exists>e. entry_at lg (r - 1) = Some e \<and> e_term e \<noteq> c))"
  using assms(2-5)
proof (induction lg c first arbitrary: x rule: conflict_start.induct)
  case (1 lg c first)
  show ?case
  proof (cases "first > first_index lg")
    case False
    then have eq: "first = first_index lg" using "1.prems"(1) by (simp add: first_index_def)
    have run: "conflict_start lg c first = Inr first"
      using False by (simp add: conflict_start.simps [of lg c first])
    show ?thesis
      by (rule exI [of _ first]) (use run eq "1.prems" in auto)
  next
    case True
    then obtain e where e: "entry_at lg (first - 1) = Some e"
      using "1.prems"(3) by (auto simp: entry_at_def first_index_def split: if_splits)
    then have g: "get_entry lg (first - 1) = Inr e"
      using True by (simp add: get_entry_def position_def first_index_def entry_at_def Let_def
          algebra_simps split: if_splits)
    show ?thesis
    proof (cases "e_term e = c")
      case False
      then have run: "conflict_start lg c first = Inr first"
        using True g by (simp add: conflict_start.simps [of lg c first])
      show ?thesis
        by (rule exI [of _ first]) (use run e False "1.prems" in auto)
    next
      case same: True
      from e have "snapshot_index lg < first - 1" and "first - 1 \<le> last_index lg"
        using "1.prems"(2) by (auto simp: entry_at_def split: if_splits)
      then obtain r where r: "conflict_start lg c (first - 1) = Inr r" "snapshot_index lg < r"
          "r \<le> first - 1"
          "\<forall>i. r \<le> i \<and> i \<le> first - 1 \<longrightarrow> (\<exists>e. entry_at lg i = Some e \<and> e_term e = c)"
          "r = first_index lg \<or> (\<exists>e. entry_at lg (r - 1) = Some e \<and> e_term e \<noteq> c)"
        using "1.IH" [OF True g _ _ _ e] same by blast
      have run: "conflict_start lg c first = Inr r"
        using True g same r(1) by (simp add: conflict_start.simps [of lg c first])
      have "\<exists>e. entry_at lg i = Some e \<and> e_term e = c" if "r \<le> i \<and> i \<le> first" for i
        using r(4) that "1.prems"(3,4) by (cases "i = first") auto
      with run r show ?thesis by auto
    qed
  qed
qed

lemma find_conflict_cases:
  assumes wf: "wf_log lg"
  shows "find_conflict lg i t =
    (if i > last_index lg then Inr (last_index lg + 1, last_term lg)
     else if i \<le> snapshot_index lg then Inr (first_index lg, snapshot_term lg)
     else case entry_at lg i of
            None \<Rightarrow> Inl IndexError
          | Some e \<Rightarrow> if e_term e = t then Inr (i, t)
                      else bind_res (conflict_start lg (e_term e) i) (\<lambda>f. Inr (f, e_term e)))"
  using entry_at_range [OF wf, of i]
  by (auto simp: find_conflict_def get_entry_wf [OF wf] Let_def split: option.splits)

subsection \<open>The append window\<close>

lemma window_taken_ge: "taken \<le> window_taken mb es taken n"
  by (induction mb es taken n rule: window_taken.induct) (fastforce simp: Let_def)+

text \<open>The bytes of the first \<open>k\<close> entries.\<close>

definition payload_bytes :: "'a Entry list \<Rightarrow> int" where
  "payload_bytes es = sum_list (map (\<lambda>e. int (length (e_payload e))) es)"

lemma payload_bytes_simps [simp]:
  "payload_bytes [] = 0"
  "payload_bytes (e # es) = int (length (e_payload e)) + payload_bytes es"
  by (simp_all add: payload_bytes_def)

lemma payload_bytes_nonneg: "0 \<le> payload_bytes es"
  by (induction es) auto

lemma window_taken_bounds:
  "window_taken mb es taken n \<le> taken + length es \<and>
   (taken < window_taken mb es taken n \<longrightarrow> 0 < taken \<longrightarrow>
      n + payload_bytes (take (window_taken mb es taken n - taken) es) \<le> mb) \<and>
   (window_taken mb es taken n < taken + length es \<longrightarrow>
      mb < n + payload_bytes (take (Suc (window_taken mb es taken n - taken)) es))"
proof (induction mb es taken n rule: window_taken.induct)
  case (2 mb e es taken n)
  let ?n = "n + int (length (e_payload e))"
  show ?case
  proof (cases "?n > mb \<and> taken > 0")
    case True
    then show ?thesis by auto
  next
    case False
    define w where "w = window_taken mb es (Suc taken) ?n"
    have eq: "window_taken mb (e # es) taken n = w"
      using False by (auto simp: w_def Let_def)
    have ge: "Suc taken \<le> w" unfolding w_def by (rule window_taken_ge)
    then have dec: "w - taken = Suc (w - Suc taken)" by simp
    note IH = "2.IH" [OF refl False, folded w_def]
    show ?thesis
      unfolding eq dec
      using IH ge False payload_bytes_nonneg [of es]
      by (cases "w = Suc taken") (auto simp: algebra_simps)
  qed
qed auto


subsection \<open>What the log promises\<close>

text \<open>A log the witnesses below run on: three entries of terms 1, 1, 2 behind a snapshot at 4.\<close>

definition sample_entry :: "int \<Rightarrow> int \<Rightarrow> nat Entry" where
  "sample_entry t i = \<lparr>e_term = t, e_index = i, e_payload = [1, 2], e_value = 0\<rparr>"

definition sample_log :: "nat RaftLog" where
  "sample_log = \<lparr>log_entries = [sample_entry 1 5, sample_entry 1 6, sample_entry 2 7],
                 snapshot_index = 4, snapshot_term = 1\<rparr>"

lemmas sample_defs = sample_log_def sample_entry_def

lemma sample_log_wf: "wf_log sample_log"
  by (simp add: sample_defs wf_log_def)

lemma replicated_prefix:
  assumes wf: "wf_log lg" and p: "snapshot_index lg \<le> p" "p \<le> last_index lg"
    and es: "numbered_from (p + 1) es" and nc: "no_committed_conflict lg es committed"
  shows "append_replicated lg es committed =
    (lg\<lparr>log_entries := take (nat (p - snapshot_index lg)) (log_entries lg) @
          merge_entries (drop (nat (p - snapshot_index lg)) (log_entries lg)) es\<rparr>, None)"
proof (rule append_replicated_merge [OF wf _ _ nc])
  show "nat (p - snapshot_index lg) \<le> length (log_entries lg)"
    using p last_index_wf [OF wf] by linarith
  have "snapshot_index lg + 1 + int (nat (p - snapshot_index lg)) = p + 1" using p by simp
  then show "numbered_from (snapshot_index lg + 1 + int (nat (p - snapshot_index lg))) es"
    using es by metis
qed

lemma term_at_entry:
  "wf_log lg \<Longrightarrow> entry_at lg i = Some x \<Longrightarrow> term_at lg i = Inr (e_term x)"
  using term_at_wf [of lg i] by (auto simp: entry_at_def split: if_splits)

lemma term_at_merged:
  assumes wf: "wf_log lg" and n: "n \<le> length (log_entries lg)"
    and wf': "wf_log (lg\<lparr>log_entries := take n (log_entries lg) @ ms\<rparr>)" and k: "k < length ms"
  shows "term_at (lg\<lparr>log_entries := take n (log_entries lg) @ ms\<rparr>)
           (snapshot_index lg + 1 + int (n + k)) = Inr (e_term (ms ! k))"
proof -
  have "entry_at (lg\<lparr>log_entries := take n (log_entries lg) @ ms\<rparr>)
          (snapshot_index lg + 1 + int (n + k)) = Some (ms ! k)"
    using n k entry_at_offset [of "n + k" "lg\<lparr>log_entries := take n (log_entries lg) @ ms\<rparr>"]
    by (simp add: nth_append)
  then show ?thesis by (simp add: term_at_wf [OF wf'])
qed

text \<open>
  Replication converges. When the entries of an append continue the log at \<open>p\<close> and none
  of them contradicts a committed entry, \<open>append_replicated\<close> succeeds; afterwards the log
  holds every term the leader sent at its index, everything at or below \<open>p\<close> is untouched,
  the log is well formed, and delivering the same append again changes nothing.
\<close>

theorem append_replicated_converges:
  assumes wf: "wf_log lg" and p: "snapshot_index lg \<le> p" "p \<le> last_index lg"
    and es: "numbered_from (p + 1) es" and nc: "no_committed_conflict lg es committed"
  shows "\<exists>lg'. append_replicated lg es committed = (lg', None) \<and> wf_log lg' \<and>
           (\<forall>k < length es. term_at lg' (p + 1 + int k) = Inr (e_term (es ! k))) \<and>
           (\<forall>i \<le> p. entry_at lg' i = entry_at lg i) \<and>
           append_replicated lg' es committed = (lg', None)"
proof -
  let ?n = "nat (p - snapshot_index lg)"
  let ?ms = "merge_entries (drop ?n (log_entries lg)) es"
  let ?lg = "lg\<lparr>log_entries := take ?n (log_entries lg) @ ?ms\<rparr>"
  have n: "?n \<le> length (log_entries lg)" and pn: "p = snapshot_index lg + int ?n"
    using p last_index_wf [OF wf] by simp_all
  have run: "append_replicated lg es committed = (?lg, None)"
    by (rule replicated_prefix [OF assms])
  then have wf': "wf_log ?lg" using append_replicated_wf [OF wf run] by simp
  have terms: "term_at ?lg (p + 1 + int k) = Inr (e_term (es ! k))" if "k < length es" for k
  proof -
    have at: "p + 1 + int k = snapshot_index lg + 1 + int (?n + k)" using p(1) by simp
    have mk: "k < length ?ms \<and> e_term (?ms ! k) = e_term (es ! k)"
      by (rule merge_entries_terms [OF that])
    show ?thesis unfolding at using term_at_merged [OF wf n wf', of k] mk by metis
  qed
  have below: "\<forall>i \<le> p. entry_at ?lg i = entry_at lg i"
    using take_entry_at [OF wf wf', of ?n ?ms] p(2) pn by auto
  have "p \<le> last_index ?lg"
    using last_index_wf [OF wf'] n pn by simp
  moreover have "no_committed_conflict ?lg es committed"
  proof -
    have "e_term x = e_term e" if e: "e \<in> set es" and x: "entry_at ?lg (e_index e) = Some x" for e x
    proof -
      obtain k where k: "k < length es" "e = es ! k"
        using e by (metis in_set_conv_nth)
      then have "e_index e = p + 1 + int k" using es by (simp add: numbered_from_def)
      moreover from calculation have "term_at ?lg (e_index e) = Inr (e_term x)"
        using term_at_entry [OF wf' x] by blast
      ultimately show ?thesis using terms [OF k(1)] k(2) by (metis sum.inject(2))
    qed
    then show ?thesis unfolding no_committed_conflict_def by blast
  qed
  ultimately have "append_replicated ?lg es committed =
      (?lg\<lparr>log_entries := take ?n (log_entries ?lg) @ merge_entries (drop ?n (log_entries ?lg)) es\<rparr>, None)"
    using replicated_prefix [OF wf', of p es committed] p(1) es by simp
  then have again: "append_replicated ?lg es committed = (?lg, None)"
    using n by (simp add: merge_entries_idem)
  with run wf' terms below show ?thesis by blast
qed

theorem append_replicated_converges_witness:
  "\<exists>lg'. append_replicated sample_log [sample_entry 3 6, sample_entry 3 7] 5 = (lg', None) \<and>
     log_entries lg' = [sample_entry 1 5, sample_entry 3 6, sample_entry 3 7] \<and>
     append_replicated lg' [sample_entry 3 6, sample_entry 3 7] 5 = (lg', None)"
proof -
  have nc: "no_committed_conflict sample_log [sample_entry 3 6, sample_entry 3 7] 5"
    by (auto simp: no_committed_conflict_def sample_entry_def)
  have run: "append_replicated sample_log [sample_entry 3 6, sample_entry 3 7] 5 =
      (sample_log\<lparr>log_entries := [sample_entry 1 5, sample_entry 3 6, sample_entry 3 7]\<rparr>, None)"
    using replicated_prefix [OF sample_log_wf _ _ _ nc, of 5]
    by (simp add: sample_defs last_index_def numeral_eq_Suc)
  show ?thesis
    using append_replicated_converges [OF sample_log_wf _ _ _ nc, of 5] run
    by (auto simp: sample_defs last_index_def)
qed

text \<open>
  C21: committed entries are final. Whatever list of entries arrives (any terms, any indices,
  contradicting or not) and whether or not the call raises, every entry at or below the
  commit index is afterwards the entry it was before, and the log still reaches that far.
\<close>

theorem append_replicated_keeps_committed:
  assumes "wf_log lg" and "append_replicated lg es committed = (lg', err)"
    and "i \<le> committed" and "i \<le> last_index lg"
  shows "entry_at lg' i = entry_at lg i \<and> i \<le> last_index lg'"
  by (rule append_replicated_committed [OF assms])

theorem append_replicated_keeps_committed_witness:
  "append_replicated sample_log [sample_entry 9 6] 6 = (sample_log, Some RaftInvariantViolated) \<and>
   entry_at sample_log 6 = Some (sample_entry 1 6)"
proof -
  have run: "append_replicated sample_log [sample_entry 9 6] 6 = (sample_log, Some RaftInvariantViolated)"
    using append_one_cases [OF sample_log_wf, of 6 "sample_entry 9 6"]
    by (simp add: entry_at_def sample_defs last_index_def numeral_eq_Suc)
  then have "entry_at sample_log 6 = entry_at sample_log 6 \<and> 6 \<le> last_index sample_log"
    by (rule append_replicated_keeps_committed [OF sample_log_wf])
       (simp_all add: sample_defs last_index_def)
  with run show ?thesis by (simp add: entry_at_def sample_defs)
qed

text \<open>
  The conflict hint is exact. \<open>find_conflict\<close> never raises on a well-formed log. Past the
  end it answers the next index; below the snapshot it answers the first index held;
  otherwise the answer is the first index of the whole run of the conflicting term that ends
  at \<open>i\<close>: every index of the run has that term and the index before it does not.
\<close>

theorem find_conflict_first_of_run:
  assumes wf: "wf_log lg"
  shows "\<exists>r c. find_conflict lg i t = Inr (r, c) \<and>
    (last_index lg < i \<longrightarrow> r = last_index lg + 1 \<and> c = last_term lg) \<and>
    (i \<le> last_index lg \<and> i \<le> snapshot_index lg \<longrightarrow> r = snapshot_index lg + 1 \<and> c = snapshot_term lg) \<and>
    (snapshot_index lg < i \<and> i \<le> last_index lg \<longrightarrow>
       term_at lg i = Inr c \<and>
       (c = t \<longrightarrow> r = i) \<and>
       (c \<noteq> t \<longrightarrow> snapshot_index lg < r \<and> r \<le> i \<and>
          (\<forall>j. r \<le> j \<and> j \<le> i \<longrightarrow> term_at lg j = Inr c) \<and>
          (r = snapshot_index lg + 1 \<or> term_at lg (r - 1) \<noteq> Inr c)))"
proof (cases "snapshot_index lg < i \<and> i \<le> last_index lg")
  case False
  then show ?thesis
    by (auto simp: find_conflict_cases [OF wf] first_index_def)
next
  case True
  then obtain e where e: "entry_at lg i = Some e"
    using entry_at_range [OF wf, of i] by blast
  obtain r where r: "conflict_start lg (e_term e) i = Inr r" "snapshot_index lg < r" "r \<le> i"
      "\<forall>j. r \<le> j \<and> j \<le> i \<longrightarrow> (\<exists>x. entry_at lg j = Some x \<and> e_term x = e_term e)"
      "r = first_index lg \<or> (\<exists>x. entry_at lg (r - 1) = Some x \<and> e_term x \<noteq> e_term e)"
    using conflict_start_run [OF wf _ _ e refl] True by blast
  have run: "find_conflict lg i t = Inr (if e_term e = t then i else r, e_term e)"
    using True e r(1) by (auto simp: find_conflict_cases [OF wf])
  have same: "\<forall>j. r \<le> j \<and> j \<le> i \<longrightarrow> term_at lg j = Inr (e_term e)"
    using r(4) term_at_entry [OF wf] by metis
  have edge: "r = snapshot_index lg + 1 \<or> term_at lg (r - 1) \<noteq> Inr (e_term e)"
    using r(5) term_at_entry [OF wf] first_index_def by (metis sum.inject(2))
  have "term_at lg i = Inr (e_term e)" by (rule term_at_entry [OF wf e])
  with run same edge r(2,3) True show ?thesis by auto
qed

theorem find_conflict_first_of_run_witness:
  "find_conflict sample_log 6 9 = Inr (5, 1) \<and> find_conflict sample_log 6 1 = Inr (6, 1) \<and>
   (\<exists>r c. find_conflict sample_log 12 9 = Inr (r, c) \<and> r = 8)"
proof (intro conjI)
  show "\<exists>r c. find_conflict sample_log 12 9 = Inr (r, c) \<and> r = 8"
    using find_conflict_first_of_run [OF sample_log_wf, of 12 9]
    by (auto simp: last_index_def sample_defs)
qed (simp_all add: find_conflict_def conflict_start.simps get_entry_def position_def
      first_index_def last_index_def sample_defs numeral_eq_Suc)

text \<open>
  The append window is the longest that fits. From an index the log holds, \<open>window\<close>
  returns a prefix of the entries from there on, never empty when \<open>max_entries\<close> allows one;
  beyond its first entry it stays within \<open>max_bytes\<close>, and it stops early only when the next
  entry would exceed the byte bound or the entry bound is reached.
\<close>

theorem window_longest_that_fits:
  assumes wf: "wf_log lg" and s: "snapshot_index lg < start" "start \<le> last_index lg"
    and m: "0 < max_entries"
  shows "\<exists>n. window lg start max_entries max_bytes = Inr (take n (drop (nat (start - snapshot_index lg - 1)) (log_entries lg))) \<and>
    0 < n \<and> int n \<le> max_entries \<and> int n \<le> last_index lg - start + 1 \<and>
    (1 < n \<longrightarrow> payload_bytes (take n (drop (nat (start - snapshot_index lg - 1)) (log_entries lg))) \<le> max_bytes) \<and>
    (int n < max_entries \<and> int n < last_index lg - start + 1 \<longrightarrow>
       max_bytes < payload_bytes (take (Suc n) (drop (nat (start - snapshot_index lg - 1)) (log_entries lg))))"
proof -
  let ?p = "nat (start - snapshot_index lg - 1)"
  define xs where "xs = drop ?p (log_entries lg)"
  define ys where "ys = take (nat max_entries) xs"
  define n where "n = window_taken max_bytes ys 0 0"
  have len: "int (length xs) = last_index lg - start + 1"
    using s last_index_wf [OF wf] by (simp add: xs_def)
  have ys0: "ys \<noteq> []" using len s m by (auto simp: ys_def)
  have leny: "length ys = min (nat max_entries) (length xs)" by (simp add: ys_def)
  have run: "window lg start max_entries max_bytes = Inr (take n ys)"
    using s m by (simp add: window_def slice_def position_wf [OF wf] n_def ys_def xs_def)
  note b = window_taken_bounds [of max_bytes ys 0 0, folded n_def]
  obtain e zs where e: "ys = e # zs" using ys0 by (cases ys) auto
  have n1: "1 \<le> n" using window_taken_ge [of 1 max_bytes zs] by (simp add: n_def e)
  have bytes: "payload_bytes (take n ys) \<le> max_bytes" if "1 < n"
  proof -
    have "n = window_taken max_bytes zs 1 (int (length (e_payload e)))" by (simp add: n_def e)
    moreover from n1 have "n = Suc (n - 1)" by simp
    then have "take n ys = e # take (n - 1) zs" unfolding e by (metis take_Suc_Cons)
    ultimately show ?thesis
      using window_taken_bounds [of max_bytes zs 1 "int (length (e_payload e))"] that by simp
  qed
  have pre: "take n ys = take n xs"
    using b leny by (simp add: ys_def)
  have more: "max_bytes < payload_bytes (take (Suc n) xs)"
    if "int n < max_entries" "int n < last_index lg - start + 1"
  proof -
    have "n < length ys" using that leny len by linarith
    then have "max_bytes < payload_bytes (take (Suc n) ys)" using b by simp
    moreover have "take (Suc n) ys = take (Suc n) xs"
      using \<open>n < length ys\<close> leny by (simp add: ys_def min_absorb1)
    ultimately show ?thesis by simp
  qed
  have "int n \<le> max_entries" "int n \<le> last_index lg - start + 1"
    using b leny len m by linarith+
  with run n1 bytes pre more show ?thesis unfolding xs_def by (intro exI [of _ n]) auto
qed

theorem window_longest_that_fits_witness:
  "window sample_log 5 10 4 = Inr [sample_entry 1 5, sample_entry 1 6] \<and>
   (\<exists>n > 0. window sample_log 5 10 1 = Inr (take n (log_entries sample_log)))"
proof
  show "\<exists>n > 0. window sample_log 5 10 1 = Inr (take n (log_entries sample_log))"
    using window_longest_that_fits [OF sample_log_wf, of 5 10 1]
    by (auto simp: last_index_def sample_defs)
qed (simp add: window_def slice_def position_def first_index_def last_index_def sample_defs numeral_eq_Suc)

text \<open>
  Compaction loses nothing above its boundary. \<open>discard_through\<close> up to an index the log
  reaches succeeds, keeps the log well formed and its end where it was, keeps every entry
  above the boundary, reports how many it freed, and the boundary then answers with the term
  it was given.
\<close>

theorem discard_through_keeps_suffix:
  assumes wf: "wf_log lg" and i: "snapshot_index lg < i" "i \<le> last_index lg"
  shows "\<exists>lg'. discard_through lg i t = Inr (lg', i - snapshot_index lg) \<and> wf_log lg' \<and>
           last_index lg' = last_index lg \<and> snapshot_index lg' = i \<and> term_at lg' i = Inr t \<and>
           (\<forall>j > i. entry_at lg' j = entry_at lg j) \<and>
           (\<forall>j < i. term_at lg' j = Inl RaftLogCompacted)"
proof -
  let ?n = "Suc (nat (i - snapshot_index lg - 1))"
  let ?lg = "lg\<lparr>log_entries := drop ?n (log_entries lg), snapshot_index := i, snapshot_term := t\<rparr>"
  have run: "discard_through lg i t = Inr (?lg, i - snapshot_index lg)"
    using i by (simp add: discard_through_def position_wf [OF wf])
  note w = discard_through_wf [OF wf run]
  have len: "int ?n = i - snapshot_index lg" "?n \<le> length (log_entries lg)"
    using i last_index_wf [OF wf] by simp_all
  have above: "entry_at ?lg j = entry_at lg j" if "i < j" for j
  proof -
    have "?n + nat (j - i - 1) = nat (j - snapshot_index lg - 1)" using that i(1) by simp
    then show ?thesis using that len i(1) by (simp add: entry_at_def of_nat_diff)
  qed
  show ?thesis
    using run w above term_at_wf [of ?lg] by (intro exI [of _ ?lg]) auto
qed

theorem discard_through_keeps_suffix_witness:
  "\<exists>lg'. discard_through sample_log 6 1 = Inr (lg', 2) \<and> last_index lg' = 7 \<and>
     (\<forall>j > 6. entry_at lg' j = entry_at sample_log j)"
  using discard_through_keeps_suffix [OF sample_log_wf, of 6 1]
  by (auto simp: last_index_def sample_defs)

end
