(* ===== verification/Machine.thy ===== *)
theory Machine
  imports Snapshot Cursors Raft_Log
begin

section \<open>The applier\<close>

text \<open>
  \<open>src/nmos/raft/machine.py\<close>: the class \<open>StateMachine\<close>. Its state is the registry's store,
  the ownership table, the member's cursor allocator, the index applied so far and the
  snapshot store with the capture it may have open. What \<open>json.loads\<close> makes of a body is the
  argument \<open>loads\<close>; the clock that \<open>store.delete\<close> reads while it retires records is the
  argument \<open>clock\<close>, by log index and record; the clock and cursor arguments that
  \<open>apply_committed\<close> has a default for are always passed, so the two zeros given for the
  defaults are never used.

  \<open>apply\<close> returns the new state, the outcome of every proposal, and the batch of events it
  published (\<open>None\<close> when it published nothing). An exception stops the member for good
  (\<open>RaftNode._fail\<close>); the state it leaves behind is not modelled.
\<close>

datatype Outcome = Registered RegistrationResult | Flag bool | Count int

record StateMachine =
  ma_store :: RegistryStore
  ma_ownership :: OwnershipTable
  ma_cursors :: CursorAllocator
  ma_member :: int
  ma_last_applied :: int
  ma_snapshots :: "SnapshotCapture option option"

type_synonym json_loads = "pystr \<Rightarrow> (pystr, json) pydict res"

definition new_machine ::
  "RegistryStore \<Rightarrow> OwnershipTable \<Rightarrow> CursorAllocator \<Rightarrow> int \<Rightarrow> SnapshotCapture option option \<Rightarrow> StateMachine" where
  "new_machine st own cur member snaps =
     \<lparr>ma_store = st, ma_ownership = own, ma_cursors = cur, ma_member = member, ma_last_applied = 0,
      ma_snapshots = snaps\<rparr>"

definition store_intervals :: "StateMachine \<Rightarrow> real \<times> real" where
  "store_intervals m = (gc_interval (ma_store m), forget_interval (ma_store m))"

definition install_snapshot :: "StateMachine \<Rightarrow> RegistryStore \<Rightarrow> OwnershipTable \<Rightarrow> int \<Rightarrow> StateMachine" where
  "install_snapshot m st own index =
     m\<lparr>ma_snapshots := map_option (\<lambda>_. None) (ma_snapshots m), ma_store := st, ma_ownership := own,
       ma_last_applied := index\<rparr>"

subsection \<open>Copy-on-write hooks\<close>

definition open_capture :: "StateMachine \<Rightarrow> SnapshotCapture option" where
  "open_capture m = (case ma_snapshots m of None \<Rightarrow> None | Some c \<Rightarrow> c)"

definition set_capture :: "StateMachine \<Rightarrow> SnapshotCapture \<Rightarrow> StateMachine" where
  "set_capture m c = m\<lparr>ma_snapshots := Some (Some c)\<rparr>"

definition capture_before_mutating :: "StateMachine \<Rightarrow> ResourceType \<Rightarrow> pystr \<Rightarrow> StateMachine res" where
  "capture_before_mutating m rt i =
     (case open_capture m of
        None \<Rightarrow> Inr m
      | Some c \<Rightarrow>
          (case get_resource (ma_store m) rt i True of
             None \<Rightarrow> Inr (set_capture m (capture_created c rt i))
           | Some existing \<Rightarrow> bind_res (capture_resource c existing) (\<lambda>c'. Inr (set_capture m c'))))"

fun capture_each :: "SnapshotCapture \<Rightarrow> RegisteredResource list \<Rightarrow> SnapshotCapture res" where
  "capture_each c [] = Inr c"
| "capture_each c (r # rs) = bind_res (capture_resource c r) (\<lambda>c'. capture_each c' rs)"

definition capture_subtree :: "StateMachine \<Rightarrow> ResourceType \<Rightarrow> pystr \<Rightarrow> StateMachine res" where
  "capture_subtree m rt i =
     (case open_capture m of
        None \<Rightarrow> Inr m
      | Some c \<Rightarrow>
          bind_res (subtree (ma_store m) rt i) (\<lambda>rs.
          bind_res (capture_each c rs) (\<lambda>c'. Inr (set_capture m c'))))"

fun capture_victims :: "StateMachine \<Rightarrow> (ResourceType \<times> pystr) list \<Rightarrow> StateMachine res" where
  "capture_victims m [] = Inr m"
| "capture_victims m ((rt, i) # vs) = bind_res (capture_before_mutating m rt i) (\<lambda>m'. capture_victims m' vs)"

subsection \<open>Operations\<close>

definition depth_of :: "ResourceEvent \<Rightarrow> int" where
  "depth_of ev = (if ev_type ev = NODE then 0 else if ev_type ev = DEVICE then 1 else 2)"

definition ordered_events :: "ResourceEvent list \<Rightarrow> ResourceEvent list" where
  "ordered_events evs = sort_key (\<lambda>ev. (- depth_of ev, singular (ev_type ev), ev_id ev)) evs"

definition apply_register ::
  "json_loads \<Rightarrow> StateMachine \<Rightarrow> RegistryOperation \<Rightarrow> int \<Rightarrow> (StateMachine \<times> Outcome \<times> ResourceEvent list) res" where
  "apply_register loads m op index =
     (let bdy = \<lparr>body_text = op_text op, parsed = None\<rparr>
      in bind_res (body_data loads bdy) (\<lambda>raw.
         bind_res (prepare (ma_store m) (op_type op) raw) (\<lambda>p.
           case p of
             Inl refused \<Rightarrow> Inr (m, Registered refused, [])
           | Inr prepared \<Rightarrow>
               let m1 = (case op_claim_owner op of
                           None \<Rightarrow> m
                         | Some w \<Rightarrow> m\<lparr>ma_ownership := fst (claim (ma_ownership m) (op_node op) w index)\<rparr>)
               in bind_res (capture_before_mutating m1 (op_type op) (op_resource op)) (\<lambda>m2.
                    let (st, result) =
                          apply_committed 0 cursor_min (ma_store m2) prepared bdy
                            (Some (if creates prepared then op_updated op else op_created op))
                            (Some (op_updated op)) (Some (op_health op))
                    in Inr (m2\<lparr>ma_store := st, ma_cursors := observe (ma_cursors m2) (op_type op) (op_updated op)\<rparr>,
                            Registered result, rr_events result)))))"

definition apply_unregister ::
  "(pystr \<Rightarrow> int) \<Rightarrow> StateMachine \<Rightarrow> RegistryOperation \<Rightarrow> (StateMachine \<times> Outcome \<times> ResourceEvent list) res" where
  "apply_unregister hn m op =
     bind_res (capture_subtree m (op_type op) (op_resource op)) (\<lambda>m1.
     bind_res (delete_resource hn (ma_store m1) (op_type op) (op_resource op)) (\<lambda>(st, removed).
       case removed of
         None \<Rightarrow> Inr (m1\<lparr>ma_store := st\<rparr>, Flag False, [])
       | Some evs \<Rightarrow> Inr (m1\<lparr>ma_store := st\<rparr>, Flag True, ordered_events evs)))"

definition apply_expire ::
  "(pystr \<Rightarrow> int) \<Rightarrow> StateMachine \<Rightarrow> RegistryOperation \<Rightarrow> (StateMachine \<times> Outcome \<times> ResourceEvent list) res" where
  "apply_expire hn m op =
     bind_res (capture_subtree m NODE (op_node op)) (\<lambda>m1.
     bind_res (delete_resource hn (ma_store m1) NODE (op_node op)) (\<lambda>(st, removed).
       case removed of
         None \<Rightarrow> Inr (m1\<lparr>ma_store := st\<rparr>, Count 0, [])
       | Some evs \<Rightarrow> Inr (m1\<lparr>ma_store := st\<rparr>, Count (int (length evs)), ordered_events evs)))"

fun forget_each :: "RegistryStore \<Rightarrow> (ResourceType \<times> pystr) list \<Rightarrow> RegistryStore \<times> int" where
  "forget_each st [] = (st, 0)"
| "forget_each st ((rt, i) # vs) =
     (let (st1, was) = forget st rt i; (st2, n) = forget_each st1 vs in (st2, n + (if was then 1 else 0)))"

definition apply_forget :: "StateMachine \<Rightarrow> RegistryOperation \<Rightarrow> (StateMachine \<times> Outcome \<times> ResourceEvent list) res" where
  "apply_forget m op =
     bind_res (capture_victims m (op_victims op)) (\<lambda>m1.
       let (st, n) = forget_each (ma_store m1) (op_victims op)
       in Inr (m1\<lparr>ma_store := st\<rparr>, Count n, []))"

definition apply_one ::
  "json_loads \<Rightarrow> (pystr \<Rightarrow> int) \<Rightarrow> StateMachine \<Rightarrow> RegistryOperation Entry \<Rightarrow>
   (StateMachine \<times> Outcome option \<times> ResourceEvent list) res" where
  "apply_one loads hn m entry =
     (let op = e_value entry; index = e_index entry;
          answer = (\<lambda>r. bind_res r (\<lambda>(m', out, evs). Inr (m', Some out, evs)))
      in case op of
           NoopOp p \<Rightarrow> Inr (m, None, [])
         | RegisterOp p rt i n b c u h x w \<Rightarrow> answer (apply_register loads m op index)
         | UnregisterOp p rt i \<Rightarrow> answer (apply_unregister hn m op)
         | ExpireOp p n \<Rightarrow> answer (apply_expire hn m op)
         | ForgetOp p vs \<Rightarrow> answer (apply_forget m op)
         | ClaimOwnershipOp p n w \<Rightarrow>
             Inr (m\<lparr>ma_ownership := fst (claim (ma_ownership m) n w index)\<rparr>, Some (Flag True), [])
         | ReleaseOwnershipOp p n \<Rightarrow>
             Inr (m\<lparr>ma_ownership := fst (release (ma_ownership m) n index)\<rparr>, Some (Flag True), [])
         | MemberDownOp p k \<Rightarrow>
             (let (own, released) = member_down (ma_ownership m) k index
              in Inr (m\<lparr>ma_ownership := own\<rparr>, Some (Count (int (length released))), [])))"

type_synonym outcomes = "(ProposalId, Outcome) pydict"

text \<open>The loop of \<open>apply\<close>: entries already applied are skipped, outcomes and events accumulate.\<close>

fun apply_loop ::
  "json_loads \<Rightarrow> (int \<Rightarrow> pystr \<Rightarrow> int) \<Rightarrow> StateMachine \<Rightarrow> outcomes \<Rightarrow> ResourceEvent list \<Rightarrow>
   RegistryOperation Entry list \<Rightarrow> (StateMachine \<times> outcomes \<times> ResourceEvent list) res" where
  "apply_loop loads clock m outs evs [] = Inr (m, outs, evs)"
| "apply_loop loads clock m outs evs (e # es) =
     (if e_index e \<le> ma_last_applied m then apply_loop loads clock m outs evs es
      else bind_res (apply_one loads (clock (e_index e)) m e) (\<lambda>(m', out, evs').
             apply_loop loads clock (m'\<lparr>ma_last_applied := e_index e\<rparr>)
               (case out of None \<Rightarrow> outs | Some r \<Rightarrow> dset (op_proposal (e_value e)) r outs)
               (evs @ evs') es))"

definition apply_entries ::
  "json_loads \<Rightarrow> (int \<Rightarrow> pystr \<Rightarrow> int) \<Rightarrow> StateMachine \<Rightarrow> RegistryOperation Entry list \<Rightarrow>
   (StateMachine \<times> outcomes \<times> ResourceEvent list option) res" where
  "apply_entries loads clock m entries =
     bind_res (apply_loop loads clock m [] [] entries) (\<lambda>(m', outs, evs).
       Inr (m', outs, if evs = [] then None else Some evs))"

end
