(* ===== verification/Machine_Spec.thy ===== *)
theory Machine_Spec
  imports Machine
begin

section \<open>What the applier computes\<close>

text \<open>
  The abstract registry every member is meant to hold: a map from ids to records, with the
  health left out, because health is stamped by the local clock and refreshed by heartbeats
  at one member only; an ownership map; and the index applied so far. \<open>spec_one\<close> is one
  operation on it, a function of the entry and the abstract state alone. The refinement
  lemma says that \<open>apply_one\<close> computes exactly \<open>spec_one\<close>, whatever the clock, the order in
  which the store holds its records, the tombstones it once had, and whether a snapshot is
  being captured; that two members that apply the same entries agree is its corollary.
\<close>

subsection \<open>The abstract registry\<close>

type_synonym areg = "pystr \<rightharpoonup> RegisteredResource"

definition erase :: "RegisteredResource \<Rightarrow> RegisteredResource" where
  "erase r = r\<lparr>health := 0\<rparr>"

definition areg :: "RegistryStore \<Rightarrow> areg" where
  "areg st i = map_option erase (look st i)"

record aregistry =
  as_reg :: areg
  as_own :: "pystr \<rightharpoonup> Ownership"
  as_applied :: int

definition abs_machine :: "StateMachine \<Rightarrow> aregistry" where
  "abs_machine m = \<lparr>as_reg = areg (ma_store m), as_own = dget (ma_ownership m), as_applied = ma_last_applied m\<rparr>"

text \<open>\<open>prepare\<close> on the map: the store's indexes answer what the map says.\<close>

definition spec_parent :: "areg \<Rightarrow> ResourceType \<Rightarrow> pystr option \<Rightarrow> RegistrationResult option" where
  "spec_parent m rt parent =
     (case PARENT_TYPE rt of
        None \<Rightarrow> None
      | Some expected \<Rightarrow>
          (case parent of
             None \<Rightarrow> Some (failure SCHEMA)
           | Some p \<Rightarrow>
               (case m p of
                  None \<Rightarrow> Some (failure PARENT_MISSING)
                | Some q \<Rightarrow> if extant q \<and> resource_type q = expected then None
                            else Some (failure PARENT_MISSING))))"

definition spec_prepare :: "areg \<Rightarrow> ResourceType \<Rightarrow> (pystr, json) pydict \<Rightarrow> (RegistrationResult + PreparedRegistration) res" where
  "spec_prepare m rt raw =
     (case dget raw (str ''id'') of
        Some (JStr i) \<Rightarrow>
          if i = [] then Inr (Inl (failure SCHEMA))
          else (case dget raw (str ''version'') of
            Some (JStr ver) \<Rightarrow>
              if (case m i of None \<Rightarrow> False | Some r \<Rightarrow> resource_type r \<noteq> rt)
              then Inr (Inl (failure ID_TYPE_CONFLICT))
              else let parent = parent_id_of rt raw in
                (case spec_parent m rt parent of
                   Some r \<Rightarrow> Inr (Inl r)
                 | None \<Rightarrow>
                     let fresh = \<lparr>pr_type = rt, pr_id = i, pr_version = ver, pr_parent = parent,
                                  creates = True, reviving = (m i \<noteq> None)\<rparr>
                     in (case m i of
                           Some p \<Rightarrow>
                             if extant p then
                               bind_res (check_update p ver parent) (\<lambda>f.
                                 case f of Some r \<Rightarrow> Inr (Inl r)
                                 | None \<Rightarrow> Inr (Inr (fresh\<lparr>creates := False, reviving := False\<rparr>)))
                             else Inr (Inr fresh)
                         | None \<Rightarrow> Inr (Inr fresh)))
          | _ \<Rightarrow> Inr (Inl (failure SCHEMA)))
      | _ \<Rightarrow> Inr (Inl (failure SCHEMA)))"

subsection \<open>The abstract operations\<close>

definition spec_register ::
  "json_loads \<Rightarrow> aregistry \<Rightarrow> RegistryOperation \<Rightarrow> int \<Rightarrow> (aregistry \<times> Outcome \<times> ResourceEvent list) res" where
  "spec_register loads s op index =
     bind_res (loads (op_text op)) (\<lambda>raw.
     bind_res (spec_prepare (as_reg s) (op_type op) raw) (\<lambda>p.
       case p of
         Inl refused \<Rightarrow> Inr (s, Registered refused, [])
       | Inr prepared \<Rightarrow>
           let i = pr_id prepared; prev = as_reg s i;
               r = registered prev prepared \<lparr>body_text = op_text op, parsed = None\<rparr>
                     (Some (if creates prepared then op_updated op else op_created op)) (op_updated op) 0;
               made = (case prev of None \<Rightarrow> True | Some x \<Rightarrow> \<not> extant x);
               ev = (case prev of None \<Rightarrow> ev_added r
                     | Some x \<Rightarrow> if extant x then ev_modified (body x) r else ev_added r);
               own = (case op_claim_owner op of
                        None \<Rightarrow> as_own s
                      | Some w \<Rightarrow>
                          if (case as_own s (op_node op) of Some h \<Rightarrow> index \<le> held_epoch h | None \<Rightarrow> False)
                          then as_own s else (as_own s)(op_node op \<mapsto> Ownership w index))
           in Inr (s\<lparr>as_reg := (as_reg s)(i \<mapsto> r), as_own := own\<rparr>,
                   Registered \<lparr>rr_created = made, rr_events = [ev], rr_error = None\<rparr>, [ev])))"

text \<open>The removal of a subtree, and its events: deepest first, then by kind and id.\<close>

definition removed_keys :: "areg \<Rightarrow> pystr \<Rightarrow> (int \<times> pystr \<times> pystr) set" where
  "removed_keys m i =
     (\<lambda>j. (- int (rank_of m j), singular (resource_type (the (m j))), j)) ` {j. desc m j i}"

definition removal_events :: "areg \<Rightarrow> pystr \<Rightarrow> ResourceEvent list" where
  "removal_events m i =
     map (\<lambda>(_, _, j). ev_removed (the (m j))) (sorted_list_of_set (removed_keys m i))"

definition spec_delete :: "areg \<Rightarrow> ResourceType \<Rightarrow> pystr \<Rightarrow> areg \<times> ResourceEvent list option" where
  "spec_delete m rt i =
     (if \<exists>r. m i = Some r \<and> extant r \<and> resource_type r = rt
      then (\<lambda>j. if desc m j i then map_option (\<lambda>r. r\<lparr>extant := False\<rparr>) (m j) else m j,
            Some (removal_events m i))
      else (m, None))"

fun spec_forget :: "areg \<Rightarrow> (ResourceType \<times> pystr) list \<Rightarrow> areg \<times> int" where
  "spec_forget m [] = (m, 0)"
| "spec_forget m ((rt, i) # vs) =
     (if \<exists>r. m i = Some r \<and> resource_type r = rt \<and> \<not> extant r
      then (let (m', n) = spec_forget (m(i := None)) vs in (m', n + 1))
      else spec_forget m vs)"

definition spec_claim :: "(pystr \<rightharpoonup> Ownership) \<Rightarrow> pystr \<Rightarrow> int \<Rightarrow> int \<Rightarrow> pystr \<rightharpoonup> Ownership" where
  "spec_claim own n w index =
     (if (case own n of Some h \<Rightarrow> index \<le> held_epoch h | None \<Rightarrow> False) then own
      else own(n \<mapsto> Ownership w index))"

definition held_before :: "(pystr \<rightharpoonup> Ownership) \<Rightarrow> int \<Rightarrow> pystr \<Rightarrow> bool" where
  "held_before own index n \<longleftrightarrow> (\<exists>h. own n = Some h \<and> held_epoch h < index)"

fun spec_one ::
  "json_loads \<Rightarrow> aregistry \<Rightarrow> RegistryOperation \<Rightarrow> int \<Rightarrow> (aregistry \<times> Outcome option \<times> ResourceEvent list) res" where
  "spec_one loads s (NoopOp p) index = Inr (s, None, [])"
| "spec_one loads s (RegisterOp p rt i n b c u h x w) index =
     bind_res (spec_register loads s (RegisterOp p rt i n b c u h x w) index) (\<lambda>(s', out, evs). Inr (s', Some out, evs))"
| "spec_one loads s (UnregisterOp p rt i) index =
     (case spec_delete (as_reg s) rt i of
        (reg, None) \<Rightarrow> Inr (s\<lparr>as_reg := reg\<rparr>, Some (Flag False), [])
      | (reg, Some evs) \<Rightarrow> Inr (s\<lparr>as_reg := reg\<rparr>, Some (Flag True), evs))"
| "spec_one loads s (ExpireOp p n) index =
     (case spec_delete (as_reg s) NODE n of
        (reg, None) \<Rightarrow> Inr (s\<lparr>as_reg := reg\<rparr>, Some (Count 0), [])
      | (reg, Some evs) \<Rightarrow> Inr (s\<lparr>as_reg := reg\<rparr>, Some (Count (int (length evs))), evs))"
| "spec_one loads s (ForgetOp p vs) index =
     (let (reg, n) = spec_forget (as_reg s) vs in Inr (s\<lparr>as_reg := reg\<rparr>, Some (Count n), []))"
| "spec_one loads s (ClaimOwnershipOp p n w) index =
     Inr (s\<lparr>as_own := spec_claim (as_own s) n w index\<rparr>, Some (Flag True), [])"
| "spec_one loads s (ReleaseOwnershipOp p n) index =
     Inr (s\<lparr>as_own := (if held_before (as_own s) index n then (as_own s)(n := None) else as_own s)\<rparr>,
          Some (Flag True), [])"
| "spec_one loads s (MemberDownOp p k) index =
     (let gone = {n. held_before (as_own s) index n \<and> held_owner (the (as_own s n)) = k}
      in Inr (s\<lparr>as_own := (\<lambda>n. if n \<in> gone then None else as_own s n)\<rparr>, Some (Count (int (card gone))), []))"

subsection \<open>Health is invisible\<close>

lemma erase_sel [simp]:
  "resource_type (erase r) = resource_type r" "res_id (erase r) = res_id r" "body (erase r) = body r"
  "version (erase r) = version r" "created (erase r) = created r" "updated (erase r) = updated r"
  "parent_id (erase r) = parent_id r" "extant (erase r) = extant r"
  by (simp_all add: erase_def)

lemma ev_erase [simp]:
  "ev_removed (erase r) = ev_removed r" "ev_added (erase r) = ev_added r" "ev_modified b (erase r) = ev_modified b r"
  by (simp_all add: ev_removed_def ev_added_def ev_modified_def)

lemma areg_None: "areg st i = None \<longleftrightarrow> look st i = None"
  by (simp add: areg_def)

lemma areg_Some: "areg st i = Some r \<longleftrightarrow> (\<exists>r'. look st i = Some r' \<and> r = erase r')"
  by (auto simp: areg_def)

lemma desc_areg: "desc (areg st) c i \<longleftrightarrow> desc (look st) c i"
proof
  show "desc (areg st) c i \<Longrightarrow> desc (look st) c i"
    by (induction rule: desc.induct) (auto simp: areg_Some intro: desc.intros)
  show "desc (look st) c i \<Longrightarrow> desc (areg st) c i"
  proof (induction rule: desc.induct)
    case (self i r)
    then show ?case by (intro desc.self [of _ _ "erase r"]) (simp_all add: areg_def)
  next
    case (step c r p i)
    have "desc (areg st) p i" by (rule step.IH)
    moreover have "areg st c = Some (erase r)" using step.hyps(1) by (simp add: areg_def)
    ultimately show ?case using step.hyps by (intro desc.step [of "areg st" c "erase r" p]) simp_all
  qed
qed

lemma check_update_erase: "check_update (erase p) ver parent = check_update p ver parent"
  by (simp only: check_update_def version_cursor_def erase_sel)

subsection \<open>The store computes the abstract operations\<close>

lemma check_parent_spec:
  assumes "wf_buckets st"
  shows "check_parent st rt parent = spec_parent (areg st) rt parent"
proof (cases "PARENT_TYPE rt")
  case (Some pt)
  show ?thesis
  proof (cases parent)
    case p: (Some pp)
    show ?thesis
    proof (cases "look st pp")
      case None
      then show ?thesis using Some p type_of_look [OF assms, of pp]
        by (simp add: check_parent_def spec_parent_def areg_def)
    next
      case (Some q)
      then have "type_of st pp = Some (resource_type q)" "dget (by_type st (resource_type q)) pp = Some q"
        using type_of_look [OF assms, of pp] look_bucket [OF assms] by auto
      then show ?thesis
        using \<open>PARENT_TYPE rt = Some pt\<close> p Some by (simp add: check_parent_def spec_parent_def areg_def)
    qed
  qed (simp add: check_parent_def spec_parent_def Some)
qed (simp add: check_parent_def spec_parent_def)

lemma prepare_spec:
  assumes "wf_buckets st"
  shows "prepare st rt raw = spec_prepare (areg st) rt raw"
proof (cases "dget raw (str ''id'')")
  case (Some idv)
  show ?thesis
  proof (cases "\<exists>i ver. idv = JStr i \<and> i \<noteq> [] \<and> dget raw (str ''version'') = Some (JStr ver)")
    case True
    then obtain i ver where v: "idv = JStr i" "i \<noteq> []" "dget raw (str ''version'') = Some (JStr ver)" by blast
    have t: "type_of st i = map_option resource_type (look st i)" by (rule type_of_look [OF assms])
    have b: "dget (by_type st rt) i =
        (case look st i of Some r \<Rightarrow> if resource_type r = rt then Some r else None | None \<Rightarrow> None)"
      by (rule bucket_eq [OF assms])
    have a: "areg st i = map_option erase (look st i)" by (simp add: areg_def)
    show ?thesis
    proof (cases "spec_parent (areg st) rt (parent_id_of rt raw)")
      case None
      show ?thesis
      proof (cases "look st i")
        case no: None
        show ?thesis
          using Some v None no
          by (simp add: prepare_def spec_prepare_def t b a check_parent_spec [OF assms])
      next
        case r: (Some r)
        then show ?thesis
          using Some v None
          by (cases "resource_type r = rt"; cases "extant r")
             (simp_all add: prepare_def spec_prepare_def t b a check_parent_spec [OF assms] check_update_erase Let_def
               cong: option.case_cong)
      qed
    next
      case refused: (Some x)
      show ?thesis
        using Some v refused
        by (cases "look st i")
           (simp_all add: prepare_def spec_prepare_def t a check_parent_spec [OF assms])
    qed
  next
    case False
    then show ?thesis
      using Some by (cases idv) (auto simp: prepare_def spec_prepare_def split: option.splits json.splits)
  qed
qed (simp add: prepare_def spec_prepare_def)

lemma registered_erase:
  "erase (registered prev p b ca c h) = registered (map_option erase prev) p b ca c 0"
  by (cases prev) (simp_all add: registered_def erase_def)

lemma stamp_given: "stamp tn st rt (Some u) = u"
  by (simp add: stamp_def commit_cursor_def Let_def)

lemma areg_update: "look st' = (look st)(i \<mapsto> r) \<Longrightarrow> areg st' = (areg st)(i \<mapsto> erase r)"
  by (auto simp: areg_def fun_eq_iff)

subsection \<open>Captures are invisible\<close>

text \<open>The hooks change the open capture and nothing else.\<close>

definition same_but_capture :: "StateMachine \<Rightarrow> StateMachine \<Rightarrow> bool" where
  "same_but_capture m m' \<longleftrightarrow> ma_store m' = ma_store m \<and> ma_ownership m' = ma_ownership m \<and>
     ma_cursors m' = ma_cursors m \<and> ma_member m' = ma_member m \<and> ma_last_applied m' = ma_last_applied m \<and>
     (open_capture m' = None \<longleftrightarrow> open_capture m = None)"

lemma same_but_capture_refl [simp]: "same_but_capture m m"
  by (simp add: same_but_capture_def)

lemma set_capture_same: "open_capture m = Some c \<Longrightarrow> same_but_capture m (set_capture m c')"
  by (simp add: same_but_capture_def set_capture_def open_capture_def)

lemma capture_before_same: "capture_before_mutating m rt i = Inr m' \<Longrightarrow> same_but_capture m m'"
  by (auto simp: capture_before_mutating_def bind_res_eq_Inr set_capture_same split: option.splits)

lemma capture_subtree_same: "capture_subtree m rt i = Inr m' \<Longrightarrow> same_but_capture m m'"
  by (auto simp: capture_subtree_def bind_res_eq_Inr set_capture_same split: option.splits)

lemma capture_victims_same: "capture_victims m vs = Inr m' \<Longrightarrow> same_but_capture m m'"
proof (induction m vs rule: capture_victims.induct)
  case (2 m rt i vs)
  then obtain m1 where m1: "capture_before_mutating m rt i = Inr m1" "capture_victims m1 vs = Inr m'"
    by (auto simp: bind_res_eq_Inr)
  have "same_but_capture m1 m'" using "2.IH" m1 by blast
  then show ?case using capture_before_same [OF m1(1)] by (simp add: same_but_capture_def)
qed simp

lemma no_capture:
  assumes "open_capture m = None"
  shows "capture_before_mutating m rt i = Inr m" "capture_subtree m rt i = Inr m" "capture_victims m vs = Inr m"
proof -
  show b: "capture_before_mutating m rt i = Inr m" for rt i by (simp add: capture_before_mutating_def assms)
  show "capture_subtree m rt i = Inr m" by (simp add: capture_subtree_def assms)
  show "capture_victims m vs = Inr m" by (induction vs) (auto simp: b)
qed

subsection \<open>Removal\<close>

lemma sort_key_unique:
  assumes "distinct (map f xs)" and g: "\<And>x. x \<in> set xs \<Longrightarrow> g (f x) = x"
  shows "sort_key f xs = map g (sorted_list_of_set (f ` set xs))"
proof -
  have "map f (sort_key f xs) = sorted_list_of_set (f ` set xs)"
  proof (rule sorted_distinct_set_unique)
    show "distinct (map f (sort_key f xs))" using assms(1) by (simp add: distinct_map)
  qed simp_all
  then have "map g (map f (sort_key f xs)) = map g (sorted_list_of_set (f ` set xs))" by simp
  moreover have "map (g \<circ> f) (sort_key f xs) = sort_key f xs" by (rule map_idI) (use g in simp)
  ultimately show ?thesis by simp
qed

lemma depth_of_removed: "depth_of (ev_removed r) = int (rank (resource_type r))"
  by (cases "resource_type r") (simp_all add: depth_of_def ev_removed_def)

lemma ordered_events_removal:
  assumes wf: "wf_store st" and w: "walked st rs {i}"
  shows "ordered_events (map ev_removed rs) = removal_events (areg st) i"
proof -
  let ?m = "areg st" and ?key = "\<lambda>ev. (- depth_of ev, singular (ev_type ev), ev_id ev)"
  let ?g = "\<lambda>(_, _, j). ev_removed (the (?m j))" and ?evs = "map ev_removed rs"
  have in_store: "look st (res_id r) = Some r" "desc (look st) (res_id r) i" if "r \<in> set rs" for r
    using that w by (auto simp: walked_def)
  have key: "?key (ev_removed r) = (- int (rank (resource_type r)), singular (resource_type r), res_id r)" for r
    by (simp only: depth_of_removed) (simp add: ev_removed_def)
  have inv: "?g (?key ev) = ev" if "ev \<in> set ?evs" for ev
  proof -
    have "ev \<in> ev_removed ` set rs" using that by (simp only: set_map)
    then obtain r where r: "r \<in> set rs" "ev = ev_removed r" by blast
    have "?m (res_id r) = Some (erase r)" using in_store(1) [OF r(1)] by (simp add: areg_def)
    then show ?thesis unfolding r(2) key by simp
  qed
  have "distinct (map (snd \<circ> snd) (map ?key ?evs))"
    using w by (simp add: walked_def comp_def key)
  then have d: "distinct (map ?key ?evs)" unfolding distinct_map by blast
  have ids: "res_id ` set rs = {j. desc ?m j i}"
    using walked_ids [OF wf_storeD(2) [OF wf] w] by (simp add: desc_areg)
  have "?key (ev_removed r) =
      (- int (rank_of ?m (res_id r)), singular (resource_type (the (?m (res_id r)))), res_id r)" if "r \<in> set rs" for r
    unfolding key using in_store(1) [OF that] by (simp add: rank_of_def areg_def)
  then have "?key ` set ?evs = removed_keys ?m i"
    unfolding removed_keys_def ids [symmetric] by (simp add: image_image cong: image_cong)
  then show ?thesis
    unfolding ordered_events_def removal_events_def using sort_key_unique [OF d inv] by simp
qed

lemma delete_spec:
  assumes wf: "wf_store st"
  shows "\<exists>st' evs. delete_resource hn st rt i = Inr (st', evs) \<and> wf_store st' \<and>
    spec_delete (areg st) rt i = (areg st', map_option ordered_events evs) \<and>
    (\<forall>xs. evs = Some xs \<longrightarrow> length (ordered_events xs) = length xs) \<and>
    (\<forall>j r. look st' j = Some r \<longrightarrow> (\<exists>r'. look st j = Some r' \<and> r = r'\<lparr>extant := extant r, health := health r\<rparr>))"
proof (cases "get_resource st rt i False")
  case None
  then have "\<not> (\<exists>r. areg st i = Some r \<and> extant r \<and> resource_type r = rt)"
    using get_resource_look [OF wf_storeD(2) [OF wf], of rt i] by (auto simp: areg_Some)
  then show ?thesis using None wf by (auto simp: delete_resource_def spec_delete_def)
next
  case (Some r)
  then have r: "look st i = Some r" "resource_type r = rt" "extant r"
    using get_resource_look [OF wf_storeD(2) [OF wf]] by auto
  have i: "res_id r = i" by (rule look_id [OF wf_storeD(2) [OF wf] r(1)])
  obtain rs where rs: "walked st rs {i}"
      "erase_subtree recursion_limit hn st r = Inr (update_all (\<lambda>i. retire (hn i)) st rs, map ev_removed rs)"
      "wf_store (update_all (\<lambda>i. retire (hn i)) st rs)"
    using erase_subtree_effect [OF wf, of r hn] r i by auto
  let ?st = "update_all (\<lambda>i. retire (hn i)) st rs"
  note lk = look_retired [OF wf rs(1), of hn]
  have ret: "erase (retire h x) = (erase x)\<lparr>extant := False\<rparr>" for h x by (simp add: erase_def retire_def)
  have "areg ?st j = (if desc (areg st) j i then map_option (\<lambda>r. r\<lparr>extant := False\<rparr>) (areg st j) else areg st j)" for j
    by (cases "look st j") (simp_all add: areg_def lk desc_areg ret)
  then have reg: "areg ?st = (\<lambda>j. if desc (areg st) j i then map_option (\<lambda>r. r\<lparr>extant := False\<rparr>) (areg st j) else areg st j)"
    by blast
  have here: "\<exists>q. areg st i = Some q \<and> extant q \<and> resource_type q = rt"
    using r by (intro exI [of _ "erase r"]) (simp add: areg_def)
  have "spec_delete (areg st) rt i = (areg ?st, Some (ordered_events (map ev_removed rs)))"
    unfolding spec_delete_def if_P [OF here] reg ordered_events_removal [OF wf rs(1)] ..
  moreover have "\<exists>r'. look st j = Some r' \<and> x = r'\<lparr>extant := extant x, health := health x\<rparr>" if "look ?st j = Some x" for j x
    using that by (cases "look st j") (auto simp: lk retire_def split: if_splits)
  moreover have "delete_resource hn st rt i = Inr (?st, Some (map ev_removed rs))"
    using Some rs(2) by (simp add: delete_resource_def)
  ultimately show ?thesis using rs(3) by (auto simp: ordered_events_def)
qed

lemma forget_each_spec:
  assumes "wf_store st" and "forget_each st vs = (st', n)"
  shows "wf_store st' \<and> spec_forget (areg st) vs = (areg st', n) \<and>
    (\<forall>j r. look st' j = Some r \<longrightarrow> look st j = Some r)"
  using assms
proof (induction st vs arbitrary: n rule: forget_each.induct)
  case (2 st rt i vs)
  obtain st1 was where f: "forget st rt i = (st1, was)" by fastforce
  note e = forget_effect [OF "2.prems"(1) f]
  obtain k where k: "forget_each st1 vs = (st', k)" "n = k + (if was then 1 else 0)"
    using "2.prems"(2) f by (cases "forget_each st1 vs") auto
  have wf1: "wf_store st1" using e by blast
  have IH: "wf_store st' \<and> spec_forget (areg st1) vs = (areg st', k) \<and> (\<forall>j r. look st' j = Some r \<longrightarrow> look st1 j = Some r)"
    using "2.IH" [OF f [symmetric] refl wf1 k(1)] .
  have was: "was \<longleftrightarrow> (\<exists>r. areg st i = Some r \<and> resource_type r = rt \<and> \<not> extant r)"
    using e by (auto simp: areg_Some)
  show ?case
  proof (cases was)
    case True
    then have "areg st1 = (areg st)(i := None)" using e by (auto simp: areg_def fun_eq_iff)
    moreover have "look st1 j = Some r \<Longrightarrow> look st j = Some r" for j r
      using e True by (simp split: if_splits)
    moreover have "spec_forget (areg st) ((rt, i) # vs) = (let (m', n) = spec_forget ((areg st)(i := None)) vs in (m', n + 1))"
      using was True by simp
    ultimately show ?thesis using IH k(2) True by simp
  next
    case False
    then have "areg st1 = areg st" "look st1 = look st" using e by (auto simp: areg_def fun_eq_iff)
    then show ?thesis using IH k(2) False was by auto
  qed
qed simp

subsection \<open>Ownership\<close>

lemma claim_get: "dget (fst (claim t n w e)) = spec_claim (dget t) n w e"
  by (auto simp: claim_def spec_claim_def fun_eq_iff)

lemma release_spec: "dget (fst (release t n e)) = (if held_before (dget t) e n then (dget t)(n := None) else dget t)"
  by (auto simp: release_get held_before_def fun_eq_iff)

lemma member_down_spec:
  assumes "wf_dict t"
  shows "dget (fst (member_down t k e)) =
      (\<lambda>n. if n \<in> {n. held_before (dget t) e n \<and> held_owner (the (dget t n)) = k} then None else dget t n)"
    and "length (snd (member_down t k e)) = card {n. held_before (dget t) e n \<and> held_owner (the (dget t n)) = k}"
proof -
  have "dget (fst (member_down t k e)) n =
      (if held_before (dget t) e n \<and> held_owner (the (dget t n)) = k then None else dget t n)" for n
    by (auto simp: member_down_get [OF assms] held_before_def)
  then show "dget (fst (member_down t k e)) =
      (\<lambda>n. if n \<in> {n. held_before (dget t) e n \<and> held_owner (the (dget t n)) = k} then None else dget t n)"
    by (simp add: fun_eq_iff)
  let ?ns = "filter (\<lambda>n. \<exists>h. dget t n = Some h \<and> held_epoch h < e) (nodes_owned_by t k)"
  have "snd (member_down t k e) = ?ns"
    unfolding member_down_def by (rule release_each_released [OF nodes_owned_by_sorted(2) [OF assms]])
  moreover have "distinct ?ns" using nodes_owned_by_sorted(2) [OF assms] by simp
  moreover have "set ?ns = {n. held_before (dget t) e n \<and> held_owner (the (dget t n)) = k}"
    by (auto simp: nodes_owned_by_iff [OF assms] is_owned_by_def held_before_def split: option.splits)
  ultimately show "length (snd (member_down t k e)) = card {n. held_before (dget t) e n \<and> held_owner (the (dget t n)) = k}"
    by (metis distinct_card)
qed

subsection \<open>Refinement\<close>

definition wf_machine :: "StateMachine \<Rightarrow> bool" where
  "wf_machine m \<longleftrightarrow> wf_store (ma_store m) \<and> wf_dict (ma_ownership m)"

text \<open>One operation keeps the machine well-formed and takes the abstract step.\<close>

definition refines_step ::
  "StateMachine \<Rightarrow> ('s \<times> 'o \<times> 'e) res \<Rightarrow> (StateMachine \<times> 'o \<times> 'e) res \<Rightarrow> (StateMachine \<Rightarrow> 's) \<Rightarrow> bool" where
  "refines_step m spec run ab \<longleftrightarrow>
     (\<forall>m' out evs. run = Inr (m', out, evs) \<longrightarrow> wf_machine m' \<and> spec = Inr (ab m', out, evs)) \<and>
     (open_capture m = None \<longrightarrow>
        (\<forall>e. spec = Inl e \<longrightarrow> run = Inl e) \<and>
        (\<forall>x. spec = Inr x \<longrightarrow> (\<exists>m' out evs. run = Inr (m', out, evs) \<and> open_capture m' = None)))"

lemma refines_stepI:
  assumes "\<And>m1. same_but_capture m m1 \<Longrightarrow> hook = Inr m1 \<Longrightarrow>
      \<exists>m' out evs. run m1 = Inr (m', out, evs) \<and> wf_machine m' \<and> spec = Inr (ab m', out, evs) \<and>
        (open_capture m1 = None \<longrightarrow> open_capture m' = None)"
    and "\<And>m1. hook = Inr m1 \<Longrightarrow> same_but_capture m m1" and "open_capture m = None \<Longrightarrow> hook = Inr m"
  shows "refines_step m spec (bind_res hook run) ab"
  unfolding refines_step_def
proof (intro conjI allI impI)
  fix m' out evs
  assume "bind_res hook run = Inr (m', out, evs)"
  then obtain m1 where m1: "hook = Inr m1" "run m1 = Inr (m', out, evs)" by (auto simp: bind_res_eq_Inr)
  with assms(1) [OF assms(2) [OF m1(1)] m1(1)] show "wf_machine m'" "spec = Inr (ab m', out, evs)" by auto
next
  assume none: "open_capture m = None"
  then obtain m' out evs where r: "run m = Inr (m', out, evs)" "spec = Inr (ab m', out, evs)" "open_capture m' = None"
    using assms(1) [of m] assms(3) by auto
  show "spec = Inl e \<Longrightarrow> bind_res hook run = Inl e" for e using r by simp
  show "spec = Inr x \<Longrightarrow> \<exists>m' out evs. bind_res hook run = Inr (m', out, evs) \<and> open_capture m' = None" for x
    using r assms(3) none by simp
qed

lemma open_capture_update [simp]:
  "open_capture (m\<lparr>ma_store := st\<rparr>) = open_capture m" "open_capture (m\<lparr>ma_ownership := ow\<rparr>) = open_capture m"
  "open_capture (m\<lparr>ma_cursors := cu\<rparr>) = open_capture m" "open_capture (m\<lparr>ma_last_applied := n\<rparr>) = open_capture m"
  by (simp_all add: open_capture_def)

lemma register_result:
  "rr_error res = None \<Longrightarrow> rr_created res = c \<Longrightarrow> rr_events res = evs \<Longrightarrow>
    res = \<lparr>rr_created = c, rr_events = evs, rr_error = None\<rparr>"
  by (cases res) simp

lemma refines_step_cong: "open_capture m = open_capture m1 \<Longrightarrow> refines_step m1 spec run ab \<Longrightarrow> refines_step m spec run ab"
  by (simp add: refines_step_def)

text \<open>A registration accepted by \<open>prepare\<close>, in the state its claim leaves.\<close>

definition claimed :: "StateMachine \<Rightarrow> RegistryOperation \<Rightarrow> int \<Rightarrow> StateMachine" where
  "claimed m op index =
     (case op_claim_owner op of
        None \<Rightarrow> m
      | Some w \<Rightarrow> m\<lparr>ma_ownership := fst (claim (ma_ownership m) (op_node op) w index)\<rparr>)"

definition commit_register ::
  "StateMachine \<Rightarrow> RegistryOperation \<Rightarrow> PreparedRegistration \<Rightarrow> (StateMachine \<times> Outcome \<times> ResourceEvent list) res" where
  "commit_register m op prepared =
     (let (st, result) = apply_committed 0 cursor_min (ma_store m) prepared \<lparr>body_text = op_text op, parsed = None\<rparr>
            (Some (if creates prepared then op_updated op else op_created op))
            (Some (op_updated op)) (Some (op_health op))
      in Inr (m\<lparr>ma_store := st, ma_cursors := observe (ma_cursors m) (op_type op) (op_updated op)\<rparr>,
              Registered result, rr_events result))"

lemma apply_register_unfold:
  "apply_register loads m op index =
     bind_res (loads (op_text op)) (\<lambda>raw.
     bind_res (prepare (ma_store m) (op_type op) raw) (\<lambda>p.
       case p of
         Inl refused \<Rightarrow> Inr (m, Registered refused, [])
       | Inr prepared \<Rightarrow>
           bind_res (capture_before_mutating (claimed m op index) (op_type op) (op_resource op))
             (\<lambda>m2. commit_register m2 op prepared)))"
  unfolding apply_register_def claimed_def commit_register_def Let_def body_data_def by simp

lemma claimed_facts:
  assumes "wf_machine m"
  shows "wf_machine (claimed m op index)" "ma_store (claimed m op index) = ma_store m"
    "open_capture (claimed m op index) = open_capture m" "ma_last_applied (claimed m op index) = ma_last_applied m"
    "dget (ma_ownership (claimed m op index)) =
       (case op_claim_owner op of None \<Rightarrow> dget (ma_ownership m)
        | Some w \<Rightarrow> spec_claim (dget (ma_ownership m)) (op_node op) w index)"
  using assms by (auto simp: claimed_def wf_machine_def claim_wf claim_get split: option.split)

lemma apply_register_refines:
  assumes wf: "wf_machine m"
  shows "refines_step m (spec_register loads (abs_machine m) op index) (apply_register loads m op index) abs_machine"
proof -
  let ?st = "ma_store m" and ?s = "abs_machine m"
  have wst: "wf_store ?st" using wf by (simp add: wf_machine_def)
  have prep: "prepare ?st rt raw = spec_prepare (as_reg ?s) rt raw" for rt raw
    by (simp add: prepare_spec [OF wf_storeD(2) [OF wst]] abs_machine_def)
  show ?thesis
  proof (cases "loads (op_text op)")
    case (Inl e)
    then show ?thesis by (simp add: refines_step_def apply_register_unfold spec_register_def)
  next
    case raw: (Inr raw)
    show ?thesis
    proof (cases "prepare ?st (op_type op) raw")
      case (Inl e)
      then show ?thesis using raw prep by (simp add: refines_step_def apply_register_unfold spec_register_def)
    next
      case p: (Inr q)
      show ?thesis
      proof (cases q)
        case (Inl refused)
        then show ?thesis
          using raw p prep [of "op_type op" raw] wf by (simp add: refines_step_def apply_register_unfold spec_register_def)
      next
        case (Inr prepared)
        let ?m1 = "claimed m op index"
        note c = claimed_facts [OF wf, of op index]
        have ok: "prepared_ok ?st prepared"
          using prepare_prepared_ok [OF wf_storeD(1) [OF wst]] p Inr by blast
        have "refines_step ?m1 (spec_register loads ?s op index)
            (bind_res (capture_before_mutating ?m1 (op_type op) (op_resource op)) (\<lambda>m2. commit_register m2 op prepared)) abs_machine"
        proof (rule refines_stepI)
          fix m2 assume same: "same_but_capture ?m1 m2"
          then have m2: "ma_store m2 = ?st" "ma_ownership m2 = ma_ownership ?m1" "ma_last_applied m2 = ma_last_applied m"
            using c by (simp_all add: same_but_capture_def)
          let ?b = "\<lparr>body_text = op_text op, parsed = None\<rparr>"
          let ?ca = "Some (if creates prepared then op_updated op else op_created op)"
          obtain st' res where run: "apply_committed 0 cursor_min ?st prepared ?b ?ca (Some (op_updated op)) (Some (op_health op)) = (st', res)"
            by fastforce
          note e = apply_committed_effect [OF wst ok run]
          let ?prev = "areg ?st (pr_id prepared)"
          let ?r = "registered ?prev prepared ?b ?ca (op_updated op) 0"
          let ?raw_rec = "registered (look ?st (pr_id prepared)) prepared ?b ?ca (op_updated op) (op_health op)"
          have er: "?r = erase ?raw_rec" unfolding areg_def by (rule registered_erase [symmetric])
          have lk: "look st' = (look ?st)(pr_id prepared \<mapsto> ?raw_rec)" using e by (simp only: stamp_given option.case)
          have reg: "areg st' = (areg ?st)(pr_id prepared \<mapsto> ?r)" unfolding er by (rule areg_update [OF lk])
          let ?ev = "case ?prev of None \<Rightarrow> ev_added ?r | Some x \<Rightarrow> if extant x then ev_modified (body x) ?r else ev_added ?r"
          have new: "ev_added (the (look st' (pr_id prepared))) = ev_added ?r"
              "ev_modified b (the (look st' (pr_id prepared))) = ev_modified b ?r" for b
            unfolding er lk by simp_all
          have res: "res = \<lparr>rr_created = (case ?prev of None \<Rightarrow> True | Some x \<Rightarrow> \<not> extant x), rr_events = [?ev], rr_error = None\<rparr>"
          proof (rule register_result)
            show "rr_error res = None" using e by blast
            have "rr_created res = (case look ?st (pr_id prepared) of Some x \<Rightarrow> \<not> extant x | None \<Rightarrow> True)" using e by blast
            then show "rr_created res = (case ?prev of None \<Rightarrow> True | Some x \<Rightarrow> \<not> extant x)"
              by (cases "look ?st (pr_id prepared)") (simp_all add: areg_def)
            have "rr_events res = [case look ?st (pr_id prepared) of
                Some x \<Rightarrow> if extant x then ev_modified (body x) ?r else ev_added ?r | None \<Rightarrow> ev_added ?r]"
              using e unfolding new by blast
            then show "rr_events res = [?ev]" by (cases "look ?st (pr_id prepared)") (simp_all add: areg_def)
          qed
          let ?m' = "m2\<lparr>ma_store := st', ma_cursors := observe (ma_cursors m2) (op_type op) (op_updated op)\<rparr>"
          have go: "commit_register m2 op prepared = Inr (?m', Registered res, [?ev])"
            using run res by (simp add: commit_register_def m2)
          have "wf_machine ?m'" using e c(1) m2 by (simp add: wf_machine_def)
          moreover have "spec_register loads ?s op index = Inr (abs_machine ?m', Registered res, [?ev])"
            using raw p Inr prep [of "op_type op" raw] reg res m2 c(5)
            by (simp add: spec_register_def abs_machine_def Let_def spec_claim_def split: option.split)
          ultimately show "\<exists>m' out evs. commit_register m2 op prepared = Inr (m', out, evs) \<and> wf_machine m' \<and>
              spec_register loads ?s op index = Inr (abs_machine m', out, evs) \<and>
              (open_capture m2 = None \<longrightarrow> open_capture m' = None)"
            using go by auto
        qed (auto simp: capture_before_same no_capture)
        then show ?thesis
          using raw p Inr c(3) by (simp add: apply_register_unfold refines_step_def)
      qed
    qed
  qed
qed

lemma apply_removal_refines:
  assumes wf: "wf_machine m"
    and run: "\<And>m1. run m1 = bind_res (delete_resource hn (ma_store m1) rt i) (\<lambda>(st, removed).
        case removed of
          None \<Rightarrow> Inr (m1\<lparr>ma_store := st\<rparr>, none, [])
        | Some evs \<Rightarrow> Inr (m1\<lparr>ma_store := st\<rparr>, done1 (length evs), ordered_events evs))"
    and spec: "spec = (case spec_delete (as_reg (abs_machine m)) rt i of
        (reg, None) \<Rightarrow> Inr ((abs_machine m)\<lparr>as_reg := reg\<rparr>, none, [])
      | (reg, Some evs) \<Rightarrow> Inr ((abs_machine m)\<lparr>as_reg := reg\<rparr>, done1 (length evs), evs))"
  shows "refines_step m spec (bind_res (capture_subtree m rt i) run) abs_machine"
proof (rule refines_stepI)
  fix m1 assume "same_but_capture m m1"
  then have m1: "ma_store m1 = ma_store m" "ma_ownership m1 = ma_ownership m" "ma_last_applied m1 = ma_last_applied m"
    by (simp_all add: same_but_capture_def)
  have wst: "wf_store (ma_store m)" using wf by (simp add: wf_machine_def)
  obtain st' evs where d: "delete_resource hn (ma_store m) rt i = Inr (st', evs)" "wf_store st'"
      "spec_delete (areg (ma_store m)) rt i = (areg st', map_option ordered_events evs)"
      "\<forall>xs. evs = Some xs \<longrightarrow> length (ordered_events xs) = length xs"
    using delete_spec [OF wst, of hn rt i] by blast
  have wf': "wf_machine (m1\<lparr>ma_store := st'\<rparr>)" using wf d(2) m1 by (simp add: wf_machine_def)
  have ab: "(abs_machine m)\<lparr>as_reg := areg st'\<rparr> = abs_machine (m1\<lparr>ma_store := st'\<rparr>)" by (simp add: abs_machine_def m1)
  have reg: "as_reg (abs_machine m) = areg (ma_store m)" by (simp add: abs_machine_def)
  show "\<exists>m' out evs. run m1 = Inr (m', out, evs) \<and> wf_machine m' \<and> spec = Inr (abs_machine m', out, evs) \<and>
      (open_capture m1 = None \<longrightarrow> open_capture m' = None)"
  proof (cases evs)
    case None
    then show ?thesis unfolding run spec reg m1(1) d(1,3) using wf' by (simp add: ab)
  next
    case (Some xs)
    then show ?thesis unfolding run spec reg m1(1) d(1,3) using wf' d(4) by (simp add: ab)
  qed
qed (auto simp: capture_subtree_same no_capture)

lemma apply_forget_refines:
  assumes wf: "wf_machine m"
  shows "refines_step m
    (let (reg, n) = spec_forget (as_reg (abs_machine m)) (op_victims op)
     in Inr ((abs_machine m)\<lparr>as_reg := reg\<rparr>, Count n, [])) (apply_forget m op) abs_machine"
  unfolding apply_forget_def
proof (rule refines_stepI)
  fix m1 assume "same_but_capture m m1"
  then have m1: "ma_store m1 = ma_store m" "ma_ownership m1 = ma_ownership m" "ma_last_applied m1 = ma_last_applied m"
    by (simp_all add: same_but_capture_def)
  obtain st' n where f: "forget_each (ma_store m) (op_victims op) = (st', n)" by fastforce
  have "wf_store st'" "spec_forget (areg (ma_store m)) (op_victims op) = (areg st', n)"
    using forget_each_spec [OF _ f] wf by (simp_all add: wf_machine_def)
  then show "\<exists>m' out evs. (let (st, n) = forget_each (ma_store m1) (op_victims op) in Inr (m1\<lparr>ma_store := st\<rparr>, Count n, [])) = Inr (m', out, evs) \<and>
      wf_machine m' \<and>
      (let (reg, n) = spec_forget (as_reg (abs_machine m)) (op_victims op)
       in Inr ((abs_machine m)\<lparr>as_reg := reg\<rparr>, Count n, [])) = Inr (abs_machine m', out, evs) \<and>
      (open_capture m1 = None \<longrightarrow> open_capture m' = None)"
    using wf m1 f by (simp add: wf_machine_def abs_machine_def)
qed (auto simp: capture_victims_same no_capture)

lemma refines_step_answer:
  assumes "refines_step m spec run ab"
  shows "refines_step m (bind_res spec (\<lambda>(s, out, evs). Inr (s, Some out, evs)))
    (bind_res run (\<lambda>(m', out, evs). Inr (m', Some out, evs))) ab"
  using assms unfolding refines_step_def by (auto simp: bind_res_splits)

lemma apply_one_refines:
  assumes wf: "wf_machine m"
  shows "refines_step m (spec_one loads (abs_machine m) (e_value e) (e_index e)) (apply_one loads hn m e) abs_machine"
proof (cases "e_value e")
  case (RegisterOp p rt i n b c u h x w)
  show ?thesis
    using refines_step_answer [OF apply_register_refines [OF wf, of loads "e_value e" "e_index e"]]
    unfolding RegisterOp by (simp add: apply_one_def RegisterOp)
next
  case (UnregisterOp p rt i)
  have "refines_step m (case spec_delete (as_reg (abs_machine m)) rt i of
        (reg, None) \<Rightarrow> Inr ((abs_machine m)\<lparr>as_reg := reg\<rparr>, Flag False, [])
      | (reg, Some evs) \<Rightarrow> Inr ((abs_machine m)\<lparr>as_reg := reg\<rparr>, Flag True, evs)) (apply_unregister hn m (e_value e)) abs_machine"
    unfolding apply_unregister_def UnregisterOp RegistryOperation.sel
    by (rule apply_removal_refines [OF wf, of _ hn rt i "Flag False" "\<lambda>_. Flag True"]) (simp_all add: UnregisterOp)
  from refines_step_answer [OF this] show ?thesis
    by (simp add: apply_one_def UnregisterOp split_beta split: option.split_asm)
next
  case (ExpireOp p n)
  have "refines_step m (case spec_delete (as_reg (abs_machine m)) NODE n of
        (reg, None) \<Rightarrow> Inr ((abs_machine m)\<lparr>as_reg := reg\<rparr>, Count 0, [])
      | (reg, Some evs) \<Rightarrow> Inr ((abs_machine m)\<lparr>as_reg := reg\<rparr>, Count (int (length evs)), evs)) (apply_expire hn m (e_value e)) abs_machine"
    unfolding apply_expire_def ExpireOp RegistryOperation.sel
    by (rule apply_removal_refines [OF wf, of _ hn NODE n "Count 0" "\<lambda>k. Count (int k)"]) (simp_all add: ExpireOp)
  from refines_step_answer [OF this] show ?thesis
    by (simp add: apply_one_def ExpireOp split_beta split: option.split_asm)
next
  case (ForgetOp p vs)
  show ?thesis
    using refines_step_answer [OF apply_forget_refines [OF wf, of "e_value e"]]
    by (simp add: apply_one_def ForgetOp split_beta)
next
  case (MemberDownOp p k)
  have o: "wf_dict (ma_ownership m)" using wf by (simp add: wf_machine_def)
  obtain own rel where d: "member_down (ma_ownership m) k (e_index e) = (own, rel)" by fastforce
  let ?gone = "{n. held_before (dget (ma_ownership m)) (e_index e) n \<and> held_owner (the (dget (ma_ownership m) n)) = k}"
  have own: "dget own = (\<lambda>n. if n \<in> ?gone then None else dget (ma_ownership m) n)" "length rel = card ?gone"
    using member_down_spec [OF o, of k "e_index e"] unfolding d fst_conv snd_conv by blast+
  have "wf_dict own" using release_each_wf [OF o] d by (metis fst_conv member_down_def)
  then have wf': "wf_machine (m\<lparr>ma_ownership := own\<rparr>)" using wf by (simp add: wf_machine_def)
  have run: "apply_one loads hn m e = Inr (m\<lparr>ma_ownership := own\<rparr>, Some (Count (int (card ?gone))), [])"
    by (simp add: apply_one_def MemberDownOp d own(2) Let_def)
  have "spec_one loads (abs_machine m) (e_value e) (e_index e) =
      Inr (abs_machine (m\<lparr>ma_ownership := own\<rparr>), Some (Count (int (card ?gone))), [])"
    unfolding MemberDownOp spec_one.simps Let_def by (auto simp: abs_machine_def own(1) fun_eq_iff)
  then show ?thesis unfolding run using wf' by (simp add: refines_step_def)
qed (use wf in \<open>auto simp: apply_one_def refines_step_def wf_machine_def abs_machine_def claim_wf claim_get
      release_wf release_spec\<close>)

subsection \<open>Replicated application\<close>

text \<open>Running a list of entries, stopping at the first exception.\<close>

fun run_steps :: "('s \<Rightarrow> 'e \<Rightarrow> ('s \<times> 'o) res) \<Rightarrow> 's \<Rightarrow> 'e list \<Rightarrow> ('s \<times> 'o list) res" where
  "run_steps step s [] = Inr (s, [])"
| "run_steps step s (e # es) =
     bind_res (step s e) (\<lambda>(s', out). bind_res (run_steps step s' es) (\<lambda>(s'', outs). Inr (s'', out # outs)))"

lemma run_steps_append:
  "run_steps step s (xs @ ys) =
    bind_res (run_steps step s xs) (\<lambda>(s', os). bind_res (run_steps step s' ys) (\<lambda>(s'', os'). Inr (s'', os @ os')))"
proof (induction xs arbitrary: s)
  case Nil
  show ?case by (cases "run_steps step s ys") auto
next
  case (Cons x xs)
  show ?case
  proof (cases "step s x")
    case (Inr p)
    obtain s' out where p: "p = (s', out)" by fastforce
    show ?thesis using Inr p Cons.IH [of s']
      by (cases "run_steps step s' xs") (auto simp: bind_res_def split: sum.splits prod.splits)
  qed simp
qed

text \<open>
  The contract between consensus and what it replicates: every member's step computes, in
  its own environment, one function of the entry and of an abstract state; so members that
  start in the same abstract state and are fed the same entries answer the same and stay in
  the same abstract state.
\<close>

locale replicated =
  fixes step :: "'c \<Rightarrow> 's \<Rightarrow> 'e \<Rightarrow> ('s \<times> 'o) res"
    and ok :: "'s \<Rightarrow> bool" and ab :: "'s \<Rightarrow> 'a"
    and spec :: "'a \<Rightarrow> 'e \<Rightarrow> ('a \<times> 'o) res"
  assumes refines: "ok s \<Longrightarrow> step c s e = Inr (s', out) \<Longrightarrow> ok s' \<and> spec (ab s) e = Inr (ab s', out)"
begin

lemma run_refines:
  "ok s \<Longrightarrow> run_steps (step c) s es = Inr (s', outs) \<Longrightarrow> ok s' \<and> run_steps spec (ab s) es = Inr (ab s', outs)"
proof (induction es arbitrary: s outs)
  case (Cons e es)
  then obtain s1 out outs1 where r: "step c s e = Inr (s1, out)" "run_steps (step c) s1 es = Inr (s', outs1)" "outs = out # outs1"
    by (auto simp: bind_res_eq_Inr)
  have s1: "ok s1" "spec (ab s) e = Inr (ab s1, out)" using refines [OF Cons.prems(1) r(1)] by auto
  then show ?case using Cons.IH [OF s1(1) r(2)] r(3) by simp
qed simp

lemma runs_agree:
  assumes "ok s" "ok t" "ab s = ab t"
    and "run_steps (step c) s es = Inr (s', outs)" "run_steps (step d) t es = Inr (t', outs')"
  shows "outs = outs' \<and> ab s' = ab t'"
  using run_refines [OF assms(1,4)] run_refines [OF assms(2,5)] assms(3) by simp

end

text \<open>One round of the loop in \<open>apply\<close>, with the proposal it answers.\<close>

definition apply_entry ::
  "json_loads \<Rightarrow> (int \<Rightarrow> pystr \<Rightarrow> int) \<Rightarrow> StateMachine \<Rightarrow> RegistryOperation Entry \<Rightarrow>
   (StateMachine \<times> (ProposalId \<times> Outcome) option \<times> ResourceEvent list) res" where
  "apply_entry loads clock m e =
     (if e_index e \<le> ma_last_applied m then Inr (m, None, [])
      else bind_res (apply_one loads (clock (e_index e)) m e) (\<lambda>(m', out, evs).
             Inr (m'\<lparr>ma_last_applied := e_index e\<rparr>, map_option (Pair (op_proposal (e_value e))) out, evs)))"

definition spec_entry ::
  "json_loads \<Rightarrow> aregistry \<Rightarrow> RegistryOperation Entry \<Rightarrow> (aregistry \<times> (ProposalId \<times> Outcome) option \<times> ResourceEvent list) res" where
  "spec_entry loads s e =
     (if e_index e \<le> as_applied s then Inr (s, None, [])
      else bind_res (spec_one loads s (e_value e) (e_index e)) (\<lambda>(s', out, evs).
             Inr (s'\<lparr>as_applied := e_index e\<rparr>, map_option (Pair (op_proposal (e_value e))) out, evs)))"

definition add_outcome :: "outcomes \<Rightarrow> (ProposalId \<times> Outcome) option \<Rightarrow> outcomes" where
  "add_outcome outs r = (case r of None \<Rightarrow> outs | Some (p, v) \<Rightarrow> dset p v outs)"

lemma apply_loop_run:
  "apply_loop loads clock m outs evs es =
    bind_res (run_steps (apply_entry loads clock) m es) (\<lambda>(m', rs).
      Inr (m', foldl add_outcome outs (map fst rs), evs @ concat (map snd rs)))"
proof (induction es arbitrary: m outs evs)
  case (Cons e es)
  show ?case
  proof (cases "e_index e \<le> ma_last_applied m")
    case True
    then have s: "apply_entry loads clock m e = Inr (m, None, [])" by (simp add: apply_entry_def)
    have o: "add_outcome outs None = outs" by (simp add: add_outcome_def)
    show ?thesis
      using Cons.IH [of m outs evs] True
      by (cases "run_steps (apply_entry loads clock) m es") (auto simp: s o)
  next
    case False
    show ?thesis
    proof (cases "apply_one loads (clock (e_index e)) m e")
      case (Inr p)
      obtain m1 out evs1 where p: "p = (m1, out, evs1)" by (cases p) auto
      let ?m = "m1\<lparr>ma_last_applied := e_index e\<rparr>"
      let ?outs = "case out of None \<Rightarrow> outs | Some r \<Rightarrow> dset (op_proposal (e_value e)) r outs"
      have o: "add_outcome outs (map_option (Pair (op_proposal (e_value e))) out) = ?outs"
        by (cases out) (simp_all add: add_outcome_def)
      have s: "apply_entry loads clock m e = Inr (?m, map_option (Pair (op_proposal (e_value e))) out, evs1)"
        using False Inr p by (simp add: apply_entry_def)
      have "apply_loop loads clock m outs evs (e # es) = apply_loop loads clock ?m ?outs (evs @ evs1) es"
        using False Inr p by simp
      also have "\<dots> = bind_res (run_steps (apply_entry loads clock) ?m es) (\<lambda>(m', rs).
          Inr (m', foldl add_outcome ?outs (map fst rs), (evs @ evs1) @ concat (map snd rs)))"
        by (rule Cons.IH)
      finally show ?thesis
        by (cases "run_steps (apply_entry loads clock) ?m es") (auto simp: s o)
    qed (simp add: False apply_entry_def)
  qed
qed simp

lemma apply_entry_refines:
  assumes "wf_machine m" and "apply_entry loads clock m e = Inr (m', out)"
  shows "wf_machine m' \<and> spec_entry loads (abs_machine m) e = Inr (abs_machine m', out)"
proof (cases "e_index e \<le> ma_last_applied m")
  case True
  then show ?thesis using assms by (simp add: apply_entry_def spec_entry_def abs_machine_def)
next
  case False
  then obtain m1 o1 evs where r: "apply_one loads (clock (e_index e)) m e = Inr (m1, o1, evs)"
      "m' = m1\<lparr>ma_last_applied := e_index e\<rparr>" "out = (map_option (Pair (op_proposal (e_value e))) o1, evs)"
    using assms(2) by (auto simp: apply_entry_def bind_res_eq_Inr)
  have "wf_machine m1 \<and> spec_one loads (abs_machine m) (e_value e) (e_index e) = Inr (abs_machine m1, o1, evs)"
    using apply_one_refines [OF assms(1), of loads e "clock (e_index e)"] r(1) by (simp add: refines_step_def)
  then show ?thesis
    using False r(2,3) by (simp add: spec_entry_def wf_machine_def) (simp add: abs_machine_def)
qed

interpretation applier: replicated "apply_entry loads" wf_machine abs_machine "spec_entry loads" for loads
  by unfold_locales (rule apply_entry_refines)

subsection \<open>What the applier promises\<close>

text \<open>Several runs one after the other, as the commit index advances.\<close>

fun apply_runs ::
  "json_loads \<Rightarrow> (int \<Rightarrow> pystr \<Rightarrow> int) \<Rightarrow> StateMachine \<Rightarrow> RegistryOperation Entry list list \<Rightarrow>
   (StateMachine \<times> outcomes \<times> ResourceEvent list) res" where
  "apply_runs loads clock m [] = Inr (m, [], [])"
| "apply_runs loads clock m (run # runs) =
     bind_res (apply_entries loads clock m run) (\<lambda>(m1, outs, published).
     bind_res (apply_runs loads clock m1 runs) (\<lambda>(m2, outs', evs).
       Inr (m2, outs @ outs', (case published of None \<Rightarrow> [] | Some b \<Rightarrow> b) @ evs)))"

definition answered :: "(ProposalId \<times> Outcome) option list \<Rightarrow> outcomes" where
  "answered rs = List.map_filter (\<lambda>r. r) rs"

lemma answered_simps [simp]:
  "answered [] = []" "answered (None # rs) = answered rs" "answered (Some x # rs) = x # answered rs"
  "answered (xs @ ys) = answered xs @ answered ys"
  by (simp_all add: answered_def List.map_filter_def)

lemma foldl_add_outcome:
  assumes "distinct (map fst (outs @ answered rs))"
  shows "foldl add_outcome outs rs = outs @ answered rs"
  using assms
proof (induction rs arbitrary: outs)
  case (Cons r rs)
  show ?case
  proof (cases r)
    case None
    then show ?thesis using Cons by (simp add: add_outcome_def)
  next
    case (Some x)
    obtain p v where x: "x = (p, v)" by fastforce
    have "p \<notin> set (dkeys outs)" using Cons.prems Some x by simp
    then have "add_outcome outs r = outs @ [x]" by (simp add: add_outcome_def Some x dset_new)
    then show ?thesis using Cons.IH [of "outs @ [x]"] Cons.prems Some by simp
  qed
qed simp

lemma apply_entry_answers:
  "apply_entry loads clock m e = Inr (m', Some (p, v), evs) \<Longrightarrow> p = op_proposal (e_value e)"
  by (auto simp: apply_entry_def bind_res_eq_Inr split: if_splits)

lemma run_answers:
  "run_steps (apply_entry loads clock) m es = Inr (m', rs) \<Longrightarrow>
    \<exists>ns. map fst (answered (map fst rs)) = nths (map (\<lambda>e. op_proposal (e_value e)) es) ns"
proof (induction es arbitrary: m rs)
  case (Cons e es)
  then obtain m1 r rs1 where r: "apply_entry loads clock m e = Inr (m1, r)"
      "run_steps (apply_entry loads clock) m1 es = Inr (m', rs1)" "rs = r # rs1"
    by (auto simp: bind_res_eq_Inr)
  obtain ns where ns: "map fst (answered (map fst rs1)) = nths (map (\<lambda>e. op_proposal (e_value e)) es) ns"
    using Cons.IH [OF r(2)] by blast
  obtain o' evs where o: "r = (o', evs)" by fastforce
  show ?case
  proof (cases o')
    case None
    have "nths (map (\<lambda>e. op_proposal (e_value e)) (e # es)) (Suc ` ns) =
        nths (map (\<lambda>e. op_proposal (e_value e)) es) ns" by (simp add: nths_Cons image_iff)
    then show ?thesis using ns r(3) o None by (intro exI [of _ "Suc ` ns"]) simp
  next
    case (Some x)
    have "fst x = op_proposal (e_value e)" using apply_entry_answers r(1) o Some by (cases x) auto
    moreover have "nths (map (\<lambda>e. op_proposal (e_value e)) (e # es)) (insert 0 (Suc ` ns)) =
        op_proposal (e_value e) # nths (map (\<lambda>e. op_proposal (e_value e)) es) ns" by (simp add: nths_Cons image_iff)
    ultimately show ?thesis using ns r(3) o Some by (intro exI [of _ "insert 0 (Suc ` ns)"]) simp
  qed
qed simp

lemma run_answers_distinct:
  assumes "distinct (map (\<lambda>e. op_proposal (e_value e)) es)" "run_steps (apply_entry loads clock) m es = Inr (m', rs)"
  shows "distinct (map fst (answered (map fst rs)))"
  using run_answers [OF assms(2)] distinct_nthsI [OF assms(1)] by metis

text \<open>However the entries are cut into runs, the result is that of applying them one by one.\<close>

lemma apply_runs_run:
  assumes "apply_runs loads clock m runs = Inr (m', outs, evs)"
  shows "\<exists>rs. run_steps (apply_entry loads clock) m (concat runs) = Inr (m', rs) \<and> evs = concat (map snd rs) \<and>
    (distinct (map (\<lambda>e. op_proposal (e_value e)) (concat runs)) \<longrightarrow> outs = answered (map fst rs))"
  using assms
proof (induction runs arbitrary: m outs evs)
  case (Cons run runs)
  then obtain m1 o1 pub o2 ev2 where a: "apply_entries loads clock m run = Inr (m1, o1, pub)"
      "apply_runs loads clock m1 runs = Inr (m', o2, ev2)" "outs = o1 @ o2"
      "evs = (case pub of None \<Rightarrow> [] | Some b \<Rightarrow> b) @ ev2"
    by (auto simp: bind_res_eq_Inr)
  obtain rs1 where r1: "run_steps (apply_entry loads clock) m run = Inr (m1, rs1)"
      "o1 = foldl add_outcome [] (map fst rs1)" "(case pub of None \<Rightarrow> [] | Some b \<Rightarrow> b) = concat (map snd rs1)"
    using a(1) by (fastforce simp: apply_entries_def apply_loop_run bind_res_eq_Inr)
  obtain rs2 where r2: "run_steps (apply_entry loads clock) m1 (concat runs) = Inr (m', rs2)" "ev2 = concat (map snd rs2)"
      "distinct (map (\<lambda>e. op_proposal (e_value e)) (concat runs)) \<longrightarrow> o2 = answered (map fst rs2)"
    using Cons.IH [OF a(2)] by blast
  have "o1 = answered (map fst rs1)" if "distinct (map (\<lambda>e. op_proposal (e_value e)) (concat (run # runs)))"
    using foldl_add_outcome [of "[]" "map fst rs1"] run_answers_distinct [OF _ r1(1)] that r1(2) by simp
  then show ?case
    using r1 r2 a(3,4) by (intro exI [of _ "rs1 @ rs2"]) (auto simp: run_steps_append)
qed simp

text \<open>
  C15: replicas agree. Let two members be in states that agree on every record but its health,
  on the owner of every Node and on the index applied. Feed them the same log entries, cut
  into runs in any way, with any clocks, with or without a snapshot being captured at either.
  As far as neither raises, they end in states that agree again, they publish the same events
  in the same order, and answer every proposal alike.
\<close>

theorem replicas_agree:
  assumes "wf_machine m" "wf_machine t" "abs_machine m = abs_machine t" and "concat runs = concat runs'"
    and "apply_runs loads clock m runs = Inr (m', outs, evs)" and "apply_runs loads clock' t runs' = Inr (t', outs', evs')"
  shows "wf_machine m' \<and> wf_machine t' \<and> abs_machine m' = abs_machine t' \<and> evs = evs' \<and>
    (distinct (map (\<lambda>e. op_proposal (e_value e)) (concat runs)) \<longrightarrow> outs = outs')"
proof -
  obtain rs where r: "run_steps (apply_entry loads clock) m (concat runs) = Inr (m', rs)" "evs = concat (map snd rs)"
      "distinct (map (\<lambda>e. op_proposal (e_value e)) (concat runs)) \<longrightarrow> outs = answered (map fst rs)"
    using apply_runs_run [OF assms(5)] by blast
  obtain rs' where r': "run_steps (apply_entry loads clock') t (concat runs) = Inr (t', rs')" "evs' = concat (map snd rs')"
      "distinct (map (\<lambda>e. op_proposal (e_value e)) (concat runs)) \<longrightarrow> outs' = answered (map fst rs')"
    using apply_runs_run [OF assms(6)] unfolding assms(4) by blast
  have "rs = rs' \<and> abs_machine m' = abs_machine t'"
    by (rule applier.runs_agree [OF assms(1-3) r(1) r'(1)])
  then show ?thesis
    using r r' applier.run_refines [OF assms(1) r(1)] applier.run_refines [OF assms(2) r'(1)] by simp
qed

text \<open>A member without a capture open stops exactly where the abstract registry does.\<close>

lemma apply_entry_progress:
  assumes "wf_machine m" "open_capture m = None" "spec_entry loads (abs_machine m) e = Inr (s, out)"
  shows "\<exists>m'. apply_entry loads clock m e = Inr (m', out) \<and> open_capture m' = None"
proof (cases "e_index e \<le> ma_last_applied m")
  case True
  then show ?thesis using assms by (simp add: apply_entry_def spec_entry_def abs_machine_def)
next
  case False
  then obtain x where x: "spec_one loads (abs_machine m) (e_value e) (e_index e) = Inr x"
    using assms(3) by (auto simp: spec_entry_def abs_machine_def bind_res_eq_Inr)
  note r = apply_one_refines [OF assms(1), of loads e "clock (e_index e)"]
  obtain m1 o1 ev where a: "apply_one loads (clock (e_index e)) m e = Inr (m1, o1, ev)" "open_capture m1 = None"
    using r x assms(2) unfolding refines_step_def by blast
  let ?out = "(map_option (Pair (op_proposal (e_value e))) o1, ev)"
  have run: "apply_entry loads clock m e = Inr (m1\<lparr>ma_last_applied := e_index e\<rparr>, ?out)"
    using False a by (simp add: apply_entry_def)
  have "out = ?out" using apply_entry_refines [OF assms(1) run] assms(3) by simp
  then show ?thesis using run a(2) by simp
qed

lemma run_progress:
  assumes "wf_machine m" "open_capture m = None" "run_steps (spec_entry loads) (abs_machine m) es = Inr (s, rs)"
  shows "\<exists>m'. run_steps (apply_entry loads clock) m es = Inr (m', rs) \<and> abs_machine m' = s"
  using assms
proof (induction es arbitrary: m rs)
  case (Cons e es)
  obtain s1 o1 rs1 where s1: "spec_entry loads (abs_machine m) e = Inr (s1, o1)"
      "run_steps (spec_entry loads) s1 es = Inr (s, rs1)" "rs = o1 # rs1"
    using Cons.prems(3) by (auto simp: bind_res_eq_Inr)
  obtain m1 where m1: "apply_entry loads clock m e = Inr (m1, o1)" "open_capture m1 = None"
    using apply_entry_progress [OF Cons.prems(1,2) s1(1)] by blast
  have "wf_machine m1 \<and> s1 = abs_machine m1" using apply_entry_refines [OF Cons.prems(1) m1(1)] s1(1) by simp
  then show ?case using Cons.IH [of m1 rs1] m1 s1(2,3) by auto
qed simp
lemma apply_entry_raises:
  assumes "wf_machine m" "open_capture m = None" "spec_entry loads (abs_machine m) e = Inl err"
  shows "apply_entry loads clock m e = Inl err"
proof -
  have new: "\<not> e_index e \<le> ma_last_applied m"
    using assms(3) by (auto simp: spec_entry_def abs_machine_def)
  then have "spec_one loads (abs_machine m) (e_value e) (e_index e) = Inl err"
    using assms(3) by (auto simp: spec_entry_def abs_machine_def bind_res_eq_Inl)
  then have "apply_one loads (clock (e_index e)) m e = Inl err"
    using apply_one_refines [OF assms(1), of loads e "clock (e_index e)"] assms(2) unfolding refines_step_def by blast
  then show ?thesis using new by (simp add: apply_entry_def)
qed

lemma run_raises:
  assumes "wf_machine m" "open_capture m = None" "run_steps (spec_entry loads) (abs_machine m) es = Inl err"
  shows "run_steps (apply_entry loads clock) m es = Inl err"
  using assms
proof (induction es arbitrary: m)
  case (Cons e es)
  show ?case
  proof (cases "spec_entry loads (abs_machine m) e")
    case (Inl x)
    then have "x = err" using Cons.prems(3) by simp
    then show ?thesis using apply_entry_raises [OF Cons.prems(1,2)] Inl by simp
  next
    case (Inr p)
    obtain s1 o1 where p: "p = (s1, o1)" by (cases p) blast
    obtain m1 where m1: "apply_entry loads clock m e = Inr (m1, o1)" "open_capture m1 = None"
      using apply_entry_progress [OF Cons.prems(1,2)] Inr p by blast
    have "wf_machine m1 \<and> s1 = abs_machine m1" using apply_entry_refines [OF Cons.prems(1) m1(1)] Inr p by simp
    moreover have "run_steps (spec_entry loads) s1 es = Inl err"
      using Cons.prems(3) Inr p by (auto simp: bind_res_eq_Inl)
    ultimately show ?thesis using Cons.IH [of m1] m1 by simp
  qed
qed simp

text \<open>A whole run of the abstract registry, reported the way \<open>apply\<close> reports it.\<close>

definition spec_entries ::
  "json_loads \<Rightarrow> aregistry \<Rightarrow> RegistryOperation Entry list \<Rightarrow> (aregistry \<times> outcomes \<times> ResourceEvent list option) res" where
  "spec_entries loads s es =
     bind_res (run_steps (spec_entry loads) s es) (\<lambda>(s', rs).
       let evs = concat (map snd rs)
       in Inr (s', foldl add_outcome [] (map fst rs), if evs = [] then None else Some evs))"

lemma apply_entries_run:
  "apply_entries loads clock m es =
     bind_res (run_steps (apply_entry loads clock) m es) (\<lambda>(m', rs).
       let evs = concat (map snd rs)
       in Inr (m', foldl add_outcome [] (map fst rs), if evs = [] then None else Some evs))"
  by (cases "run_steps (apply_entry loads clock) m es") (auto simp: apply_entries_def apply_loop_run Let_def)

text \<open>
  C16: the applier refines the abstract registry. Whatever the clock and whatever capture is
  open, a run that completes leaves a well-formed machine whose abstraction, outcomes and
  published batch are those of the abstract registry. With no capture open the two agree on
  every run, the raising ones included: the applier is a function of the log and of the
  abstract state alone.
\<close>

theorem apply_refines_spec:
  assumes "wf_machine m"
  shows "(\<forall>m' outs pub. apply_entries loads clock m es = Inr (m', outs, pub) \<longrightarrow>
           wf_machine m' \<and> spec_entries loads (abs_machine m) es = Inr (abs_machine m', outs, pub)) \<and>
         (open_capture m = None \<longrightarrow>
           map_sum (\<lambda>e. e) (\<lambda>(m', out). (abs_machine m', out)) (apply_entries loads clock m es) =
             spec_entries loads (abs_machine m) es)"
    (is "?refines \<and> ?exact")
proof
  show refines: ?refines
    using applier.run_refines [OF assms]
    by (fastforce simp: apply_entries_run spec_entries_def bind_res_eq_Inr Let_def)
  show ?exact
  proof
    assume c: "open_capture m = None"
    show "map_sum (\<lambda>e. e) (\<lambda>(m', out). (abs_machine m', out)) (apply_entries loads clock m es) =
        spec_entries loads (abs_machine m) es"
    proof (cases "run_steps (spec_entry loads) (abs_machine m) es")
      case (Inl e)
      then show ?thesis using run_raises [OF assms c Inl] by (simp add: apply_entries_run spec_entries_def)
    next
      case (Inr p)
      obtain s rs where p: "p = (s, rs)" by fastforce
      obtain m' where "run_steps (apply_entry loads clock) m es = Inr (m', rs)" "abs_machine m' = s"
        using run_progress [OF assms c, of loads es s rs] Inr p by blast
      then show ?thesis using Inr p by (simp add: apply_entries_run spec_entries_def Let_def)
    qed
  qed
qed

definition sample_machine :: StateMachine where
  "sample_machine = new_machine sample_store []
     \<lparr>ca_owner = 0, ca_high_water = Map.empty, ca_floor = None, ca_reserved = None\<rparr> 0 None"

lemma sample_machine_wf: "wf_machine sample_machine" "open_capture sample_machine = None"
  using sample_look(1) by (simp_all add: sample_machine_def new_machine_def wf_machine_def open_capture_def wf_dict_def)

definition sample_entry :: "RegistryOperation Entry" where
  "sample_entry = \<lparr>e_term = 1, e_index = 1, e_payload = [], e_value = ExpireOp (ProposalId 0 1) [1]\<rparr>"

text \<open>The sample run expires the Node \<open>[1]\<close>, and its Flow \<open>[4]\<close> with it.\<close>

lemma sample_run:
  "\<exists>m' outs pub. apply_entries sample_loads clock sample_machine [sample_entry] = Inr (m', outs, pub)"
  "run_steps (spec_entry sample_loads) (abs_machine sample_machine) [sample_entry] = Inr (s, rs) \<Longrightarrow>
    \<exists>r. as_reg s [4] = Some r \<and> \<not> extant r"
proof -
  let ?s = "abs_machine sample_machine"
  have reg: "as_reg ?s = areg sample_store" "as_applied ?s = 0"
    by (simp_all add: abs_machine_def sample_machine_def new_machine_def)
  obtain y where y: "spec_one sample_loads ?s (e_value sample_entry) (e_index sample_entry) = Inr y"
    by (cases "spec_delete (as_reg ?s) NODE [1]") (cases "snd (spec_delete (as_reg ?s) NODE [1])"; simp add: sample_entry_def)
  then have run: "run_steps (spec_entry sample_loads) ?s [sample_entry] =
      Inr ((fst y)\<lparr>as_applied := 1\<rparr>, [(map_option (Pair (ProposalId 0 1)) (fst (snd y)), snd (snd y))])"
    by (cases y) (simp add: spec_entry_def reg sample_entry_def)
  then show "\<exists>m' outs pub. apply_entries sample_loads clock sample_machine [sample_entry] = Inr (m', outs, pub)"
    using run_progress [OF sample_machine_wf run, of clock] by (auto simp: apply_entries_run Let_def)
  have live: "\<exists>r. areg sample_store [1] = Some r \<and> extant r \<and> resource_type r = NODE"
    by (simp add: areg_def sample_look(2) sample_record_def)
  have "areg sample_store [4] \<noteq> None" by (simp add: areg_def sample_look(2))
  then have "\<exists>r. as_reg (fst y) [4] = Some r \<and> \<not> extant r"
    using y sample_desc(1) live by (auto simp: sample_entry_def reg spec_delete_def desc_areg)
  then show "\<exists>r. as_reg s [4] = Some r \<and> \<not> extant r"
    if "run_steps (spec_entry sample_loads) ?s [sample_entry] = Inr (s, rs)"
    using that run by auto
qed

theorem apply_refines_spec_witness:
  "\<exists>m' outs pub. apply_entries sample_loads (\<lambda>_ _. 7) sample_machine [sample_entry] = Inr (m', outs, pub) \<and>
     wf_machine m' \<and> (\<exists>r. as_reg (abs_machine m') [4] = Some r \<and> \<not> extant r)"
proof -
  obtain m' outs pub where r: "apply_entries sample_loads (\<lambda>_ _. 7) sample_machine [sample_entry] = Inr (m', outs, pub)"
    using sample_run(1) by blast
  have "wf_machine m' \<and> spec_entries sample_loads (abs_machine sample_machine) [sample_entry] = Inr (abs_machine m', outs, pub)"
    using apply_refines_spec [OF sample_machine_wf(1), of sample_loads "\<lambda>_ _. 7" "[sample_entry]"] r by blast
  moreover from this obtain rs where
    "run_steps (spec_entry sample_loads) (abs_machine sample_machine) [sample_entry] = Inr (abs_machine m', rs)"
    unfolding spec_entries_def by (auto simp only: bind_res_eq_Inr Let_def split: prod.splits)
  ultimately show ?thesis using r sample_run(2) by blast
qed

theorem replicas_agree_witness:
  "\<exists>m' outs evs t' outs' evs'.
     apply_runs sample_loads (\<lambda>_ _. 7) sample_machine [[sample_entry]] = Inr (m', outs, evs) \<and>
     apply_runs sample_loads (\<lambda>_ _. 99) sample_machine [[], [sample_entry]] = Inr (t', outs', evs') \<and>
     abs_machine m' = abs_machine t' \<and> outs = outs' \<and> evs = evs'"
proof -
  obtain m' outs evs where r: "apply_runs sample_loads (\<lambda>_ _. 7) sample_machine [[sample_entry]] = Inr (m', outs, evs)"
    using sample_run(1) [of "\<lambda>_ _. 7"] by auto
  have e: "apply_entries sample_loads (\<lambda>_ _. 99) sample_machine [] = Inr (sample_machine, [], None)"
    by (simp add: apply_entries_def)
  obtain t' outs' evs' where t: "apply_runs sample_loads (\<lambda>_ _. 99) sample_machine [[], [sample_entry]] = Inr (t', outs', evs')"
    using sample_run(1) [of "\<lambda>_ _. 99"] by (auto simp: e)
  from replicas_agree [OF sample_machine_wf(1) sample_machine_wf(1) refl _ r t] r t show ?thesis by simp
qed

end
