(* ===== verification/Messages.thy ===== *)
theory Messages
  imports Wire
begin

section \<open>Peer messages\<close>

text \<open>
  \<open>src/nmos/raft/messages.py\<close>: one record per message class, with its \<open>encode\<close> and
  \<open>decode\<close>. A decoder starts from the values an absent field has and folds its loop body over
  the fields of the payload. \<open>decode_message\<close> chooses the decoder by the frame's type byte.

  Every message round trips, and whatever bytes a peer sends, a decoder returns a message or
  raises the protocol error that drops the link.
\<close>

text \<open>\<open>_stream\<close>: the stream class of a number.\<close>

definition hello_stream :: "int \<Rightarrow> Stream res" where
  "hello_stream v = (if v = 0 then Inr CONTROL else if v = 1 then Inr BULK else Inl RaftProtocolError)"

subsection \<open>\<open>Hello\<close>\<close>

record Hello =
  hl_major :: int
  hl_minor :: int
  hl_cluster_id :: pystr
  hl_member_name :: pystr
  hl_member_index :: int
  hl_incarnation :: int
  hl_stream :: Stream

definition encode_hello :: "Hello \<Rightarrow> bytes res" where
  "encode_hello m = w_take
     [w_uint 1 (hl_major m),
      w_uint 2 (hl_minor m),
      w_string 3 (hl_cluster_id m),
      w_string 4 (hl_member_name m),
      w_uint 5 (hl_member_index m),
      w_uint 6 (hl_incarnation m),
      w_uint 7 (int (stream_num (hl_stream m)))]"

definition blank_hello :: Hello where
  "blank_hello = \<lparr>hl_major = 0, hl_minor = 0, hl_cluster_id = [], hl_member_name = [], hl_member_index = 0, hl_incarnation = 0, hl_stream = CONTROL\<rparr>"

definition hello_step :: "nat \<Rightarrow> nat \<Rightarrow> Hello \<Rightarrow> bytes \<Rightarrow> (Hello \<times> bytes) res" where
  "hello_step number wire s data =
     (if number = 1 then reads (r_uint data) (\<lambda>v. s\<lparr>hl_major := v\<rparr>)
      else if number = 2 then reads (r_uint data) (\<lambda>v. s\<lparr>hl_minor := v\<rparr>)
      else if number = 3 then reads (r_string data) (\<lambda>v. s\<lparr>hl_cluster_id := v\<rparr>)
      else if number = 4 then reads (r_string data) (\<lambda>v. s\<lparr>hl_member_name := v\<rparr>)
      else if number = 5 then reads (r_uint data) (\<lambda>v. s\<lparr>hl_member_index := v\<rparr>)
      else if number = 6 then reads (r_uint data) (\<lambda>v. s\<lparr>hl_incarnation := v\<rparr>)
      else if number = 7 then reads_res (r_uint data) (\<lambda>v. bind_res (hello_stream v) (\<lambda>x. Inr (s\<lparr>hl_stream := x\<rparr>)))
      else skips wire s data)"

definition decode_hello :: "bytes \<Rightarrow> Hello res" where
  "decode_hello payload = read_fields hello_step payload blank_hello"

subsection \<open>\<open>HelloAck\<close>\<close>

record HelloAck =
  ha_accepted :: bool
  ha_reason :: pystr
  ha_minor :: int
  ha_member_index :: int
  ha_incarnation :: int

definition encode_hello_ack :: "HelloAck \<Rightarrow> bytes res" where
  "encode_hello_ack m = w_take
     [w_bool 1 (ha_accepted m),
      w_string 2 (ha_reason m),
      w_uint 3 (ha_minor m),
      w_uint 4 (ha_member_index m),
      w_uint 5 (ha_incarnation m)]"

definition blank_hello_ack :: HelloAck where
  "blank_hello_ack = \<lparr>ha_accepted = False, ha_reason = [], ha_minor = 0, ha_member_index = 0, ha_incarnation = 0\<rparr>"

definition hello_ack_step :: "nat \<Rightarrow> nat \<Rightarrow> HelloAck \<Rightarrow> bytes \<Rightarrow> (HelloAck \<times> bytes) res" where
  "hello_ack_step number wire s data =
     (if number = 1 then reads (r_bool data) (\<lambda>v. s\<lparr>ha_accepted := v\<rparr>)
      else if number = 2 then reads (r_string data) (\<lambda>v. s\<lparr>ha_reason := v\<rparr>)
      else if number = 3 then reads (r_uint data) (\<lambda>v. s\<lparr>ha_minor := v\<rparr>)
      else if number = 4 then reads (r_uint data) (\<lambda>v. s\<lparr>ha_member_index := v\<rparr>)
      else if number = 5 then reads (r_uint data) (\<lambda>v. s\<lparr>ha_incarnation := v\<rparr>)
      else skips wire s data)"

definition decode_hello_ack :: "bytes \<Rightarrow> HelloAck res" where
  "decode_hello_ack payload = read_fields hello_ack_step payload blank_hello_ack"

subsection \<open>\<open>WireEntry\<close>\<close>

record WireEntry =
  we_term :: int
  we_index :: int
  we_payload :: bytes

definition encode_wire_entry :: "WireEntry \<Rightarrow> bytes res" where
  "encode_wire_entry m = w_take
     [w_uint 1 (we_term m),
      w_uint 2 (we_index m),
      w_bytes 3 (we_payload m)]"

definition blank_wire_entry :: WireEntry where
  "blank_wire_entry = \<lparr>we_term = 0, we_index = 0, we_payload = []\<rparr>"

definition wire_entry_step :: "nat \<Rightarrow> nat \<Rightarrow> WireEntry \<Rightarrow> bytes \<Rightarrow> (WireEntry \<times> bytes) res" where
  "wire_entry_step number wire s data =
     (if number = 1 then reads (r_uint data) (\<lambda>v. s\<lparr>we_term := v\<rparr>)
      else if number = 2 then reads (r_uint data) (\<lambda>v. s\<lparr>we_index := v\<rparr>)
      else if number = 3 then reads (r_bytes data) (\<lambda>v. s\<lparr>we_payload := v\<rparr>)
      else skips wire s data)"

definition decode_wire_entry :: "bytes \<Rightarrow> WireEntry res" where
  "decode_wire_entry payload = read_fields wire_entry_step payload blank_wire_entry"

subsection \<open>\<open>RequestVote\<close>\<close>

record RequestVote =
  rv_term :: int
  rv_candidate :: int
  rv_last_log_index :: int
  rv_last_log_term :: int
  rv_pre_vote :: bool

definition encode_request_vote :: "RequestVote \<Rightarrow> bytes res" where
  "encode_request_vote m = w_take
     [w_uint 1 (rv_term m),
      w_uint 2 (rv_candidate m),
      w_uint 3 (rv_last_log_index m),
      w_uint 4 (rv_last_log_term m),
      w_bool 7 (rv_pre_vote m)]"

definition blank_request_vote :: RequestVote where
  "blank_request_vote = \<lparr>rv_term = 0, rv_candidate = 0, rv_last_log_index = 0, rv_last_log_term = 0, rv_pre_vote = False\<rparr>"

definition request_vote_step :: "nat \<Rightarrow> nat \<Rightarrow> RequestVote \<Rightarrow> bytes \<Rightarrow> (RequestVote \<times> bytes) res" where
  "request_vote_step number wire s data =
     (if number = 1 then reads (r_uint data) (\<lambda>v. s\<lparr>rv_term := v\<rparr>)
      else if number = 2 then reads (r_uint data) (\<lambda>v. s\<lparr>rv_candidate := v\<rparr>)
      else if number = 3 then reads (r_uint data) (\<lambda>v. s\<lparr>rv_last_log_index := v\<rparr>)
      else if number = 4 then reads (r_uint data) (\<lambda>v. s\<lparr>rv_last_log_term := v\<rparr>)
      else if number = 7 then reads (r_bool data) (\<lambda>v. s\<lparr>rv_pre_vote := v\<rparr>)
      else skips wire s data)"

definition decode_request_vote :: "bytes \<Rightarrow> RequestVote res" where
  "decode_request_vote payload = read_fields request_vote_step payload blank_request_vote"

subsection \<open>\<open>RequestVoteReply\<close>\<close>

record RequestVoteReply =
  vr_term :: int
  vr_granted :: bool
  vr_voting :: bool
  vr_pre_vote :: bool

definition encode_request_vote_reply :: "RequestVoteReply \<Rightarrow> bytes res" where
  "encode_request_vote_reply m = w_take
     [w_uint 1 (vr_term m),
      w_bool 2 (vr_granted m),
      w_bool 3 (vr_voting m),
      w_bool 4 (vr_pre_vote m)]"

definition blank_request_vote_reply :: RequestVoteReply where
  "blank_request_vote_reply = \<lparr>vr_term = 0, vr_granted = False, vr_voting = False, vr_pre_vote = False\<rparr>"

definition request_vote_reply_step :: "nat \<Rightarrow> nat \<Rightarrow> RequestVoteReply \<Rightarrow> bytes \<Rightarrow> (RequestVoteReply \<times> bytes) res" where
  "request_vote_reply_step number wire s data =
     (if number = 1 then reads (r_uint data) (\<lambda>v. s\<lparr>vr_term := v\<rparr>)
      else if number = 2 then reads (r_bool data) (\<lambda>v. s\<lparr>vr_granted := v\<rparr>)
      else if number = 3 then reads (r_bool data) (\<lambda>v. s\<lparr>vr_voting := v\<rparr>)
      else if number = 4 then reads (r_bool data) (\<lambda>v. s\<lparr>vr_pre_vote := v\<rparr>)
      else skips wire s data)"

definition decode_request_vote_reply :: "bytes \<Rightarrow> RequestVoteReply res" where
  "decode_request_vote_reply payload = read_fields request_vote_reply_step payload blank_request_vote_reply"

subsection \<open>\<open>AppendEntries\<close>\<close>

record AppendEntries =
  ae_term :: int
  ae_leader :: int
  ae_prev_log_index :: int
  ae_prev_log_term :: int
  ae_leader_commit :: int
  ae_request_id :: int
  ae_entries :: "WireEntry list"

definition encode_append_entries :: "AppendEntries \<Rightarrow> bytes res" where
  "encode_append_entries m = w_take
     ([w_uint 1 (ae_term m),
      w_uint 2 (ae_leader m),
      w_uint 3 (ae_prev_log_index m),
      w_uint 4 (ae_prev_log_term m),
      w_uint 5 (ae_leader_commit m),
      w_uint 6 (ae_request_id m)] @
     map (\<lambda>e. bind_res (encode_wire_entry e) (w_bytes 7)) (ae_entries m))"

definition blank_append_entries :: AppendEntries where
  "blank_append_entries = \<lparr>ae_term = 0, ae_leader = 0, ae_prev_log_index = 0, ae_prev_log_term = 0, ae_leader_commit = 0, ae_request_id = 0, ae_entries = []\<rparr>"

definition append_entries_step :: "nat \<Rightarrow> nat \<Rightarrow> AppendEntries \<Rightarrow> bytes \<Rightarrow> (AppendEntries \<times> bytes) res" where
  "append_entries_step number wire s data =
     (if number = 1 then reads (r_uint data) (\<lambda>v. s\<lparr>ae_term := v\<rparr>)
      else if number = 2 then reads (r_uint data) (\<lambda>v. s\<lparr>ae_leader := v\<rparr>)
      else if number = 3 then reads (r_uint data) (\<lambda>v. s\<lparr>ae_prev_log_index := v\<rparr>)
      else if number = 4 then reads (r_uint data) (\<lambda>v. s\<lparr>ae_prev_log_term := v\<rparr>)
      else if number = 5 then reads (r_uint data) (\<lambda>v. s\<lparr>ae_leader_commit := v\<rparr>)
      else if number = 6 then reads (r_uint data) (\<lambda>v. s\<lparr>ae_request_id := v\<rparr>)
      else if number = 7 then reads_res (r_bytes data) (\<lambda>v. bind_res (decode_wire_entry v) (\<lambda>e. Inr (s\<lparr>ae_entries := ae_entries s @ [e]\<rparr>)))
      else skips wire s data)"

definition decode_append_entries :: "bytes \<Rightarrow> AppendEntries res" where
  "decode_append_entries payload = read_fields append_entries_step payload blank_append_entries"

subsection \<open>\<open>AppendEntriesReply\<close>\<close>

record AppendEntriesReply =
  ar_term :: int
  ar_success :: bool
  ar_match_index :: int
  ar_conflict_index :: int
  ar_conflict_term :: int
  ar_catching_up :: bool
  ar_request_id :: int

definition encode_append_entries_reply :: "AppendEntriesReply \<Rightarrow> bytes res" where
  "encode_append_entries_reply m = w_take
     [w_uint 1 (ar_term m),
      w_bool 2 (ar_success m),
      w_uint 3 (ar_match_index m),
      w_uint 4 (ar_conflict_index m),
      w_uint 5 (ar_conflict_term m),
      w_bool 6 (ar_catching_up m),
      w_uint 7 (ar_request_id m)]"

definition blank_append_entries_reply :: AppendEntriesReply where
  "blank_append_entries_reply = \<lparr>ar_term = 0, ar_success = False, ar_match_index = 0, ar_conflict_index = 0, ar_conflict_term = 0, ar_catching_up = False, ar_request_id = 0\<rparr>"

definition append_entries_reply_step :: "nat \<Rightarrow> nat \<Rightarrow> AppendEntriesReply \<Rightarrow> bytes \<Rightarrow> (AppendEntriesReply \<times> bytes) res" where
  "append_entries_reply_step number wire s data =
     (if number = 1 then reads (r_uint data) (\<lambda>v. s\<lparr>ar_term := v\<rparr>)
      else if number = 2 then reads (r_bool data) (\<lambda>v. s\<lparr>ar_success := v\<rparr>)
      else if number = 3 then reads (r_uint data) (\<lambda>v. s\<lparr>ar_match_index := v\<rparr>)
      else if number = 4 then reads (r_uint data) (\<lambda>v. s\<lparr>ar_conflict_index := v\<rparr>)
      else if number = 5 then reads (r_uint data) (\<lambda>v. s\<lparr>ar_conflict_term := v\<rparr>)
      else if number = 6 then reads (r_bool data) (\<lambda>v. s\<lparr>ar_catching_up := v\<rparr>)
      else if number = 7 then reads (r_uint data) (\<lambda>v. s\<lparr>ar_request_id := v\<rparr>)
      else skips wire s data)"

definition decode_append_entries_reply :: "bytes \<Rightarrow> AppendEntriesReply res" where
  "decode_append_entries_reply payload = read_fields append_entries_reply_step payload blank_append_entries_reply"

subsection \<open>\<open>InstallSnapshot\<close>\<close>

record InstallSnapshot =
  is_term :: int
  is_leader :: int
  is_last_index :: int
  is_last_term :: int
  is_offset :: int
  is_ownership :: bytes
  is_data :: bytes
  is_done :: bool
  is_request_id :: int

definition encode_install_snapshot :: "InstallSnapshot \<Rightarrow> bytes res" where
  "encode_install_snapshot m = w_take
     [w_uint 1 (is_term m),
      w_uint 2 (is_leader m),
      w_uint 3 (is_last_index m),
      w_uint 4 (is_last_term m),
      w_uint 5 (is_offset m),
      w_bytes 6 (is_ownership m),
      w_bytes 7 (is_data m),
      w_bool 8 (is_done m),
      w_uint 9 (is_request_id m)]"

definition blank_install_snapshot :: InstallSnapshot where
  "blank_install_snapshot = \<lparr>is_term = 0, is_leader = 0, is_last_index = 0, is_last_term = 0, is_offset = 0, is_ownership = [], is_data = [], is_done = False, is_request_id = 0\<rparr>"

definition install_snapshot_step :: "nat \<Rightarrow> nat \<Rightarrow> InstallSnapshot \<Rightarrow> bytes \<Rightarrow> (InstallSnapshot \<times> bytes) res" where
  "install_snapshot_step number wire s data =
     (if number = 1 then reads (r_uint data) (\<lambda>v. s\<lparr>is_term := v\<rparr>)
      else if number = 2 then reads (r_uint data) (\<lambda>v. s\<lparr>is_leader := v\<rparr>)
      else if number = 3 then reads (r_uint data) (\<lambda>v. s\<lparr>is_last_index := v\<rparr>)
      else if number = 4 then reads (r_uint data) (\<lambda>v. s\<lparr>is_last_term := v\<rparr>)
      else if number = 5 then reads (r_uint data) (\<lambda>v. s\<lparr>is_offset := v\<rparr>)
      else if number = 6 then reads (r_bytes data) (\<lambda>v. s\<lparr>is_ownership := v\<rparr>)
      else if number = 7 then reads (r_bytes data) (\<lambda>v. s\<lparr>is_data := v\<rparr>)
      else if number = 8 then reads (r_bool data) (\<lambda>v. s\<lparr>is_done := v\<rparr>)
      else if number = 9 then reads (r_uint data) (\<lambda>v. s\<lparr>is_request_id := v\<rparr>)
      else skips wire s data)"

definition decode_install_snapshot :: "bytes \<Rightarrow> InstallSnapshot res" where
  "decode_install_snapshot payload = read_fields install_snapshot_step payload blank_install_snapshot"

subsection \<open>\<open>InstallSnapshotReply\<close>\<close>

record InstallSnapshotReply =
  ir_term :: int
  ir_bytes_received :: int
  ir_done :: bool
  ir_commit_index :: int
  ir_request_id :: int

definition encode_install_snapshot_reply :: "InstallSnapshotReply \<Rightarrow> bytes res" where
  "encode_install_snapshot_reply m = w_take
     [w_uint 1 (ir_term m),
      w_uint 2 (ir_bytes_received m),
      w_bool 3 (ir_done m),
      w_uint 4 (ir_commit_index m),
      w_uint 5 (ir_request_id m)]"

definition blank_install_snapshot_reply :: InstallSnapshotReply where
  "blank_install_snapshot_reply = \<lparr>ir_term = 0, ir_bytes_received = 0, ir_done = False, ir_commit_index = 0, ir_request_id = 0\<rparr>"

definition install_snapshot_reply_step :: "nat \<Rightarrow> nat \<Rightarrow> InstallSnapshotReply \<Rightarrow> bytes \<Rightarrow> (InstallSnapshotReply \<times> bytes) res" where
  "install_snapshot_reply_step number wire s data =
     (if number = 1 then reads (r_uint data) (\<lambda>v. s\<lparr>ir_term := v\<rparr>)
      else if number = 2 then reads (r_uint data) (\<lambda>v. s\<lparr>ir_bytes_received := v\<rparr>)
      else if number = 3 then reads (r_bool data) (\<lambda>v. s\<lparr>ir_done := v\<rparr>)
      else if number = 4 then reads (r_uint data) (\<lambda>v. s\<lparr>ir_commit_index := v\<rparr>)
      else if number = 5 then reads (r_uint data) (\<lambda>v. s\<lparr>ir_request_id := v\<rparr>)
      else skips wire s data)"

definition decode_install_snapshot_reply :: "bytes \<Rightarrow> InstallSnapshotReply res" where
  "decode_install_snapshot_reply payload = read_fields install_snapshot_reply_step payload blank_install_snapshot_reply"

subsection \<open>\<open>Promote\<close>\<close>

record Promote =
  pm_term :: int
  pm_leader :: int
  pm_through_index :: int

definition encode_promote :: "Promote \<Rightarrow> bytes res" where
  "encode_promote m = w_take
     [w_uint 1 (pm_term m),
      w_uint 2 (pm_leader m),
      w_uint 3 (pm_through_index m)]"

definition blank_promote :: Promote where
  "blank_promote = \<lparr>pm_term = 0, pm_leader = 0, pm_through_index = 0\<rparr>"

definition promote_step :: "nat \<Rightarrow> nat \<Rightarrow> Promote \<Rightarrow> bytes \<Rightarrow> (Promote \<times> bytes) res" where
  "promote_step number wire s data =
     (if number = 1 then reads (r_uint data) (\<lambda>v. s\<lparr>pm_term := v\<rparr>)
      else if number = 2 then reads (r_uint data) (\<lambda>v. s\<lparr>pm_leader := v\<rparr>)
      else if number = 3 then reads (r_uint data) (\<lambda>v. s\<lparr>pm_through_index := v\<rparr>)
      else skips wire s data)"

definition decode_promote :: "bytes \<Rightarrow> Promote res" where
  "decode_promote payload = read_fields promote_step payload blank_promote"

subsection \<open>\<open>ReadIndex\<close>\<close>

record ReadIndex =
  ri_request_id :: int

definition encode_read_index :: "ReadIndex \<Rightarrow> bytes res" where
  "encode_read_index m = w_take
     [w_uint 1 (ri_request_id m)]"

definition blank_read_index :: ReadIndex where
  "blank_read_index = \<lparr>ri_request_id = 0\<rparr>"

definition read_index_step :: "nat \<Rightarrow> nat \<Rightarrow> ReadIndex \<Rightarrow> bytes \<Rightarrow> (ReadIndex \<times> bytes) res" where
  "read_index_step number wire s data =
     (if number = 1 then reads (r_uint data) (\<lambda>v. s\<lparr>ri_request_id := v\<rparr>)
      else skips wire s data)"

definition decode_read_index :: "bytes \<Rightarrow> ReadIndex res" where
  "decode_read_index payload = read_fields read_index_step payload blank_read_index"

subsection \<open>\<open>ReadIndexReply\<close>\<close>

record ReadIndexReply =
  rx_ok :: bool
  rx_index :: int
  rx_reason :: pystr
  rx_request_id :: int

definition encode_read_index_reply :: "ReadIndexReply \<Rightarrow> bytes res" where
  "encode_read_index_reply m = w_take
     [w_bool 1 (rx_ok m),
      w_uint 2 (rx_index m),
      w_string 3 (rx_reason m),
      w_uint 4 (rx_request_id m)]"

definition blank_read_index_reply :: ReadIndexReply where
  "blank_read_index_reply = \<lparr>rx_ok = False, rx_index = 0, rx_reason = [], rx_request_id = 0\<rparr>"

definition read_index_reply_step :: "nat \<Rightarrow> nat \<Rightarrow> ReadIndexReply \<Rightarrow> bytes \<Rightarrow> (ReadIndexReply \<times> bytes) res" where
  "read_index_reply_step number wire s data =
     (if number = 1 then reads (r_bool data) (\<lambda>v. s\<lparr>rx_ok := v\<rparr>)
      else if number = 2 then reads (r_uint data) (\<lambda>v. s\<lparr>rx_index := v\<rparr>)
      else if number = 3 then reads (r_string data) (\<lambda>v. s\<lparr>rx_reason := v\<rparr>)
      else if number = 4 then reads (r_uint data) (\<lambda>v. s\<lparr>rx_request_id := v\<rparr>)
      else skips wire s data)"

definition decode_read_index_reply :: "bytes \<Rightarrow> ReadIndexReply res" where
  "decode_read_index_reply payload = read_fields read_index_reply_step payload blank_read_index_reply"

subsection \<open>\<open>Propose\<close>\<close>

record Propose =
  pp_request_id :: int
  pp_proposals :: "bytes list"

definition encode_propose :: "Propose \<Rightarrow> bytes res" where
  "encode_propose m = w_take
     ([w_uint 1 (pp_request_id m)] @
     map (w_bytes 2) (pp_proposals m))"

definition blank_propose :: Propose where
  "blank_propose = \<lparr>pp_request_id = 0, pp_proposals = []\<rparr>"

definition propose_step :: "nat \<Rightarrow> nat \<Rightarrow> Propose \<Rightarrow> bytes \<Rightarrow> (Propose \<times> bytes) res" where
  "propose_step number wire s data =
     (if number = 1 then reads (r_uint data) (\<lambda>v. s\<lparr>pp_request_id := v\<rparr>)
      else if number = 2 then reads (r_bytes data) (\<lambda>v. s\<lparr>pp_proposals := pp_proposals s @ [v]\<rparr>)
      else skips wire s data)"

definition decode_propose :: "bytes \<Rightarrow> Propose res" where
  "decode_propose payload = read_fields propose_step payload blank_propose"

subsection \<open>\<open>ProposeReply\<close>\<close>

record ProposeReply =
  pq_accepted :: bool
  pq_reason :: pystr
  pq_term :: int
  pq_first_index :: int
  pq_request_id :: int
  pq_leader :: "int option"

definition encode_propose_reply :: "ProposeReply \<Rightarrow> bytes res" where
  "encode_propose_reply m = w_take
     ([w_bool 1 (pq_accepted m),
      w_string 2 (pq_reason m),
      w_uint 3 (pq_term m),
      w_uint 4 (pq_first_index m),
      w_uint 5 (pq_request_id m)] @
     (case pq_leader m of None \<Rightarrow> [] | Some x \<Rightarrow> [w_uint 6 x]))"

definition blank_propose_reply :: ProposeReply where
  "blank_propose_reply = \<lparr>pq_accepted = False, pq_reason = [], pq_term = 0, pq_first_index = 0, pq_request_id = 0, pq_leader = None\<rparr>"

definition propose_reply_step :: "nat \<Rightarrow> nat \<Rightarrow> ProposeReply \<Rightarrow> bytes \<Rightarrow> (ProposeReply \<times> bytes) res" where
  "propose_reply_step number wire s data =
     (if number = 1 then reads (r_bool data) (\<lambda>v. s\<lparr>pq_accepted := v\<rparr>)
      else if number = 2 then reads (r_string data) (\<lambda>v. s\<lparr>pq_reason := v\<rparr>)
      else if number = 3 then reads (r_uint data) (\<lambda>v. s\<lparr>pq_term := v\<rparr>)
      else if number = 4 then reads (r_uint data) (\<lambda>v. s\<lparr>pq_first_index := v\<rparr>)
      else if number = 5 then reads (r_uint data) (\<lambda>v. s\<lparr>pq_request_id := v\<rparr>)
      else if number = 6 then reads (r_uint data) (\<lambda>v. s\<lparr>pq_leader := Some v\<rparr>)
      else skips wire s data)"

definition decode_propose_reply :: "bytes \<Rightarrow> ProposeReply res" where
  "decode_propose_reply payload = read_fields propose_reply_step payload blank_propose_reply"

subsection \<open>\<open>Forward\<close>\<close>

record Forward =
  fw_verb :: pystr
  fw_resource_type :: pystr
  fw_resource_id :: pystr
  fw_body_text :: pystr
  fw_request_id :: int

definition encode_forward :: "Forward \<Rightarrow> bytes res" where
  "encode_forward m = w_take
     [w_string 1 (fw_verb m),
      w_string 2 (fw_resource_type m),
      w_string 3 (fw_resource_id m),
      w_string 4 (fw_body_text m),
      w_uint 5 (fw_request_id m)]"

definition blank_forward :: Forward where
  "blank_forward = \<lparr>fw_verb = [], fw_resource_type = [], fw_resource_id = [], fw_body_text = [], fw_request_id = 0\<rparr>"

definition forward_step :: "nat \<Rightarrow> nat \<Rightarrow> Forward \<Rightarrow> bytes \<Rightarrow> (Forward \<times> bytes) res" where
  "forward_step number wire s data =
     (if number = 1 then reads (r_string data) (\<lambda>v. s\<lparr>fw_verb := v\<rparr>)
      else if number = 2 then reads (r_string data) (\<lambda>v. s\<lparr>fw_resource_type := v\<rparr>)
      else if number = 3 then reads (r_string data) (\<lambda>v. s\<lparr>fw_resource_id := v\<rparr>)
      else if number = 4 then reads (r_string data) (\<lambda>v. s\<lparr>fw_body_text := v\<rparr>)
      else if number = 5 then reads (r_uint data) (\<lambda>v. s\<lparr>fw_request_id := v\<rparr>)
      else skips wire s data)"

definition decode_forward :: "bytes \<Rightarrow> Forward res" where
  "decode_forward payload = read_fields forward_step payload blank_forward"

subsection \<open>\<open>ForwardReply\<close>\<close>

record ForwardReply =
  fr_ok :: bool
  fr_created :: bool
  fr_error :: pystr
  fr_detail :: pystr
  fr_applied_index :: int
  fr_not_owner :: bool
  fr_request_id :: int
  fr_owner :: "int option"

definition encode_forward_reply :: "ForwardReply \<Rightarrow> bytes res" where
  "encode_forward_reply m = w_take
     ([w_bool 1 (fr_ok m),
      w_bool 2 (fr_created m),
      w_string 3 (fr_error m),
      w_string 4 (fr_detail m),
      w_uint 5 (fr_applied_index m),
      w_bool 6 (fr_not_owner m),
      w_uint 7 (fr_request_id m)] @
     (case fr_owner m of None \<Rightarrow> [] | Some x \<Rightarrow> [w_uint 8 x]))"

definition blank_forward_reply :: ForwardReply where
  "blank_forward_reply = \<lparr>fr_ok = False, fr_created = False, fr_error = [], fr_detail = [], fr_applied_index = 0, fr_not_owner = False, fr_request_id = 0, fr_owner = None\<rparr>"

definition forward_reply_step :: "nat \<Rightarrow> nat \<Rightarrow> ForwardReply \<Rightarrow> bytes \<Rightarrow> (ForwardReply \<times> bytes) res" where
  "forward_reply_step number wire s data =
     (if number = 1 then reads (r_bool data) (\<lambda>v. s\<lparr>fr_ok := v\<rparr>)
      else if number = 2 then reads (r_bool data) (\<lambda>v. s\<lparr>fr_created := v\<rparr>)
      else if number = 3 then reads (r_string data) (\<lambda>v. s\<lparr>fr_error := v\<rparr>)
      else if number = 4 then reads (r_string data) (\<lambda>v. s\<lparr>fr_detail := v\<rparr>)
      else if number = 5 then reads (r_uint data) (\<lambda>v. s\<lparr>fr_applied_index := v\<rparr>)
      else if number = 6 then reads (r_bool data) (\<lambda>v. s\<lparr>fr_not_owner := v\<rparr>)
      else if number = 7 then reads (r_uint data) (\<lambda>v. s\<lparr>fr_request_id := v\<rparr>)
      else if number = 8 then reads (r_uint data) (\<lambda>v. s\<lparr>fr_owner := Some v\<rparr>)
      else skips wire s data)"

definition decode_forward_reply :: "bytes \<Rightarrow> ForwardReply res" where
  "decode_forward_reply payload = read_fields forward_reply_step payload blank_forward_reply"

subsection \<open>\<open>Ping\<close>\<close>

record Ping =
  pi_nonce :: int

definition encode_ping :: "Ping \<Rightarrow> bytes res" where
  "encode_ping m = w_take
     [w_uint 1 (pi_nonce m)]"

definition blank_ping :: Ping where
  "blank_ping = \<lparr>pi_nonce = 0\<rparr>"

definition ping_step :: "nat \<Rightarrow> nat \<Rightarrow> Ping \<Rightarrow> bytes \<Rightarrow> (Ping \<times> bytes) res" where
  "ping_step number wire s data =
     (if number = 1 then reads (r_uint data) (\<lambda>v. s\<lparr>pi_nonce := v\<rparr>)
      else skips wire s data)"

definition decode_ping :: "bytes \<Rightarrow> Ping res" where
  "decode_ping payload = read_fields ping_step payload blank_ping"

subsection \<open>\<open>Pong\<close>\<close>

record Pong =
  po_nonce :: int

definition encode_pong :: "Pong \<Rightarrow> bytes res" where
  "encode_pong m = w_take
     [w_uint 1 (po_nonce m)]"

definition blank_pong :: Pong where
  "blank_pong = \<lparr>po_nonce = 0\<rparr>"

definition pong_step :: "nat \<Rightarrow> nat \<Rightarrow> Pong \<Rightarrow> bytes \<Rightarrow> (Pong \<times> bytes) res" where
  "pong_step number wire s data =
     (if number = 1 then reads (r_uint data) (\<lambda>v. s\<lparr>po_nonce := v\<rparr>)
      else skips wire s data)"

definition decode_pong :: "bytes \<Rightarrow> Pong res" where
  "decode_pong payload = read_fields pong_step payload blank_pong"

subsection \<open>Any message\<close>

datatype message =
    MHello Hello
  | MHelloAck HelloAck
  | MRequestVote RequestVote
  | MRequestVoteReply RequestVoteReply
  | MAppendEntries AppendEntries
  | MAppendEntriesReply AppendEntriesReply
  | MInstallSnapshot InstallSnapshot
  | MInstallSnapshotReply InstallSnapshotReply
  | MPromote Promote
  | MReadIndex ReadIndex
  | MReadIndexReply ReadIndexReply
  | MPropose Propose
  | MProposeReply ProposeReply
  | MForward Forward
  | MForwardReply ForwardReply
  | MPing Ping
  | MPong Pong

fun message_type :: "message \<Rightarrow> MessageType" where
  "message_type (MHello m) = HELLO"
| "message_type (MHelloAck m) = HELLO_ACK"
| "message_type (MRequestVote m) = REQUEST_VOTE"
| "message_type (MRequestVoteReply m) = REQUEST_VOTE_REPLY"
| "message_type (MAppendEntries m) = APPEND_ENTRIES"
| "message_type (MAppendEntriesReply m) = APPEND_ENTRIES_REPLY"
| "message_type (MInstallSnapshot m) = INSTALL_SNAPSHOT"
| "message_type (MInstallSnapshotReply m) = INSTALL_SNAPSHOT_REPLY"
| "message_type (MPromote m) = PROMOTE"
| "message_type (MReadIndex m) = READ_INDEX"
| "message_type (MReadIndexReply m) = READ_INDEX_REPLY"
| "message_type (MPropose m) = PROPOSE"
| "message_type (MProposeReply m) = PROPOSE_REPLY"
| "message_type (MForward m) = FORWARD"
| "message_type (MForwardReply m) = FORWARD_REPLY"
| "message_type (MPing m) = PING"
| "message_type (MPong m) = PONG"

fun encode_message :: "message \<Rightarrow> bytes res" where
  "encode_message (MHello m) = encode_hello m"
| "encode_message (MHelloAck m) = encode_hello_ack m"
| "encode_message (MRequestVote m) = encode_request_vote m"
| "encode_message (MRequestVoteReply m) = encode_request_vote_reply m"
| "encode_message (MAppendEntries m) = encode_append_entries m"
| "encode_message (MAppendEntriesReply m) = encode_append_entries_reply m"
| "encode_message (MInstallSnapshot m) = encode_install_snapshot m"
| "encode_message (MInstallSnapshotReply m) = encode_install_snapshot_reply m"
| "encode_message (MPromote m) = encode_promote m"
| "encode_message (MReadIndex m) = encode_read_index m"
| "encode_message (MReadIndexReply m) = encode_read_index_reply m"
| "encode_message (MPropose m) = encode_propose m"
| "encode_message (MProposeReply m) = encode_propose_reply m"
| "encode_message (MForward m) = encode_forward m"
| "encode_message (MForwardReply m) = encode_forward_reply m"
| "encode_message (MPing m) = encode_ping m"
| "encode_message (MPong m) = encode_pong m"

fun decode_message :: "MessageType \<Rightarrow> bytes \<Rightarrow> message res" where
  "decode_message HELLO payload = map_sum id MHello (decode_hello payload)"
| "decode_message HELLO_ACK payload = map_sum id MHelloAck (decode_hello_ack payload)"
| "decode_message REQUEST_VOTE payload = map_sum id MRequestVote (decode_request_vote payload)"
| "decode_message REQUEST_VOTE_REPLY payload = map_sum id MRequestVoteReply (decode_request_vote_reply payload)"
| "decode_message APPEND_ENTRIES payload = map_sum id MAppendEntries (decode_append_entries payload)"
| "decode_message APPEND_ENTRIES_REPLY payload = map_sum id MAppendEntriesReply (decode_append_entries_reply payload)"
| "decode_message INSTALL_SNAPSHOT payload = map_sum id MInstallSnapshot (decode_install_snapshot payload)"
| "decode_message INSTALL_SNAPSHOT_REPLY payload = map_sum id MInstallSnapshotReply (decode_install_snapshot_reply payload)"
| "decode_message PROMOTE payload = map_sum id MPromote (decode_promote payload)"
| "decode_message READ_INDEX payload = map_sum id MReadIndex (decode_read_index payload)"
| "decode_message READ_INDEX_REPLY payload = map_sum id MReadIndexReply (decode_read_index_reply payload)"
| "decode_message PROPOSE payload = map_sum id MPropose (decode_propose payload)"
| "decode_message PROPOSE_REPLY payload = map_sum id MProposeReply (decode_propose_reply payload)"
| "decode_message FORWARD payload = map_sum id MForward (decode_forward payload)"
| "decode_message FORWARD_REPLY payload = map_sum id MForwardReply (decode_forward_reply payload)"
| "decode_message PING payload = map_sum id MPing (decode_ping payload)"
| "decode_message PONG payload = map_sum id MPong (decode_pong payload)"

fun EXPECTED_REPLY :: "MessageType \<Rightarrow> MessageType option" where
  "EXPECTED_REPLY HELLO = Some HELLO_ACK"
| "EXPECTED_REPLY REQUEST_VOTE = Some REQUEST_VOTE_REPLY"
| "EXPECTED_REPLY APPEND_ENTRIES = Some APPEND_ENTRIES_REPLY"
| "EXPECTED_REPLY INSTALL_SNAPSHOT = Some INSTALL_SNAPSHOT_REPLY"
| "EXPECTED_REPLY READ_INDEX = Some READ_INDEX_REPLY"
| "EXPECTED_REPLY PROPOSE = Some PROPOSE_REPLY"
| "EXPECTED_REPLY FORWARD = Some FORWARD_REPLY"
| "EXPECTED_REPLY PING = Some PONG"
| "EXPECTED_REPLY _ = None"

subsection \<open>Round trips\<close>

text \<open>What the wire can carry of each message.\<close>

definition wf_hello :: "Hello \<Rightarrow> bool" where
  "wf_hello m \<longleftrightarrow> wf_uint (hl_major m) \<and> wf_uint (hl_minor m) \<and> wf_text (hl_cluster_id m) \<and> wf_text (hl_member_name m) \<and> wf_uint (hl_member_index m) \<and> wf_uint (hl_incarnation m)"

definition wf_hello_ack :: "HelloAck \<Rightarrow> bool" where
  "wf_hello_ack m \<longleftrightarrow> wf_text (ha_reason m) \<and> wf_uint (ha_minor m) \<and> wf_uint (ha_member_index m) \<and> wf_uint (ha_incarnation m)"

definition wf_wire_entry :: "WireEntry \<Rightarrow> bool" where
  "wf_wire_entry m \<longleftrightarrow> wf_uint (we_term m) \<and> wf_uint (we_index m) \<and> fits (length (we_payload m))"

definition wire_entry_bytes :: "WireEntry \<Rightarrow> bytes" where
  "wire_entry_bytes m = f_uint 1 (nat (we_term m)) @ f_uint 2 (nat (we_index m)) @ f_bytes 3 (we_payload m)"

definition wire_entry_fits :: "WireEntry \<Rightarrow> bool" where
  "wire_entry_fits m \<longleftrightarrow> wf_wire_entry m \<and> fits (length (wire_entry_bytes m))"

definition wf_request_vote :: "RequestVote \<Rightarrow> bool" where
  "wf_request_vote m \<longleftrightarrow> wf_uint (rv_term m) \<and> wf_uint (rv_candidate m) \<and> wf_uint (rv_last_log_index m) \<and> wf_uint (rv_last_log_term m)"

definition wf_request_vote_reply :: "RequestVoteReply \<Rightarrow> bool" where
  "wf_request_vote_reply m \<longleftrightarrow> wf_uint (vr_term m)"

definition wf_append_entries :: "AppendEntries \<Rightarrow> bool" where
  "wf_append_entries m \<longleftrightarrow> wf_uint (ae_term m) \<and> wf_uint (ae_leader m) \<and> wf_uint (ae_prev_log_index m) \<and> wf_uint (ae_prev_log_term m) \<and> wf_uint (ae_leader_commit m) \<and> wf_uint (ae_request_id m) \<and> list_all wire_entry_fits (ae_entries m)"

definition wf_append_entries_reply :: "AppendEntriesReply \<Rightarrow> bool" where
  "wf_append_entries_reply m \<longleftrightarrow> wf_uint (ar_term m) \<and> wf_uint (ar_match_index m) \<and> wf_uint (ar_conflict_index m) \<and> wf_uint (ar_conflict_term m) \<and> wf_uint (ar_request_id m)"

definition wf_install_snapshot :: "InstallSnapshot \<Rightarrow> bool" where
  "wf_install_snapshot m \<longleftrightarrow> wf_uint (is_term m) \<and> wf_uint (is_leader m) \<and> wf_uint (is_last_index m) \<and> wf_uint (is_last_term m) \<and> wf_uint (is_offset m) \<and> fits (length (is_ownership m)) \<and> fits (length (is_data m)) \<and> wf_uint (is_request_id m)"

definition wf_install_snapshot_reply :: "InstallSnapshotReply \<Rightarrow> bool" where
  "wf_install_snapshot_reply m \<longleftrightarrow> wf_uint (ir_term m) \<and> wf_uint (ir_bytes_received m) \<and> wf_uint (ir_commit_index m) \<and> wf_uint (ir_request_id m)"

definition wf_promote :: "Promote \<Rightarrow> bool" where
  "wf_promote m \<longleftrightarrow> wf_uint (pm_term m) \<and> wf_uint (pm_leader m) \<and> wf_uint (pm_through_index m)"

definition wf_read_index :: "ReadIndex \<Rightarrow> bool" where
  "wf_read_index m \<longleftrightarrow> wf_uint (ri_request_id m)"

definition wf_read_index_reply :: "ReadIndexReply \<Rightarrow> bool" where
  "wf_read_index_reply m \<longleftrightarrow> wf_uint (rx_index m) \<and> wf_text (rx_reason m) \<and> wf_uint (rx_request_id m)"

definition wf_propose :: "Propose \<Rightarrow> bool" where
  "wf_propose m \<longleftrightarrow> wf_uint (pp_request_id m) \<and> list_all (\<lambda>x. fits (length x)) (pp_proposals m)"

definition wf_propose_reply :: "ProposeReply \<Rightarrow> bool" where
  "wf_propose_reply m \<longleftrightarrow> wf_text (pq_reason m) \<and> wf_uint (pq_term m) \<and> wf_uint (pq_first_index m) \<and> wf_uint (pq_request_id m) \<and> (case pq_leader m of None \<Rightarrow> True | Some x \<Rightarrow> wf_uint x)"

definition wf_forward :: "Forward \<Rightarrow> bool" where
  "wf_forward m \<longleftrightarrow> wf_text (fw_verb m) \<and> wf_text (fw_resource_type m) \<and> wf_text (fw_resource_id m) \<and> wf_text (fw_body_text m) \<and> wf_uint (fw_request_id m)"

definition wf_forward_reply :: "ForwardReply \<Rightarrow> bool" where
  "wf_forward_reply m \<longleftrightarrow> wf_text (fr_error m) \<and> wf_text (fr_detail m) \<and> wf_uint (fr_applied_index m) \<and> wf_uint (fr_request_id m) \<and> (case fr_owner m of None \<Rightarrow> True | Some x \<Rightarrow> wf_uint x)"

definition wf_ping :: "Ping \<Rightarrow> bool" where
  "wf_ping m \<longleftrightarrow> wf_uint (pi_nonce m)"

definition wf_pong :: "Pong \<Rightarrow> bool" where
  "wf_pong m \<longleftrightarrow> wf_uint (po_nonce m)"

lemma hello_stream_num [simp]: "hello_stream (int (stream_num s)) = Inr s"
  by (cases s) (simp_all add: hello_stream_def)

lemma hello_stream_fits [codec_simps]: "fits (stream_num s)"
  by (cases s) (simp_all add: fits_small)

lemma hello_stream_error: "hello_stream v = Inl e \<Longrightarrow> e = RaftProtocolError"
  by (auto simp: hello_stream_def split: if_splits)

text \<open>A repeated field: the reader adds one element after the other.\<close>

lemma w_take_repeated:
  "(\<And>x. x \<in> set xs \<Longrightarrow> w x = Inr (b x)) \<Longrightarrow> w_take (map w xs) = Inr (concat (map b xs))"
  by (induction xs) simp_all

lemma read_repeated:
  assumes "field < 2 ^ 60"
    and "\<And>s x rest. x \<in> set xs \<Longrightarrow> step field 2 s (varint_bytes (length (b x)) @ b x @ rest) = Inr (add s x, rest)"
  shows "read_fields step (concat (map (\<lambda>x. f_bytes field (b x)) xs)) s = Inr (foldl add s xs)"
  using assms(2)
proof (induction xs arbitrary: s)
  case (Cons x xs)
  have "read_fields step (concat (map (\<lambda>x. f_bytes field (b x)) xs)) (add s x) = Inr (foldl add (add s x) xs)"
    using Cons.prems by (intro Cons.IH) simp
  then show ?case
    using read_bytes_step [OF assms(1), of step s "b x" "concat (map (\<lambda>x. f_bytes field (b x)) xs)" "add s x"] Cons.prems
    by simp
qed (simp add: read_fields_Nil)

lemma encode_wire_entry_bytes: "wf_wire_entry m \<Longrightarrow> encode_wire_entry m = Inr (wire_entry_bytes m)"
  by (simp add: encode_wire_entry_def wire_entry_bytes_def wf_wire_entry_def codec_simps)

lemma decode_wire_entry_bytes: "wf_wire_entry m \<Longrightarrow> decode_wire_entry (wire_entry_bytes m) = Inr m"
  by (cases m)
     (simp add: decode_wire_entry_def wire_entry_bytes_def wire_entry_step_def blank_wire_entry_def wf_wire_entry_def codec_simps)

lemma foldl_entries: "foldl (\<lambda>s e. s\<lparr>ae_entries := ae_entries s @ [e]\<rparr>) s es = s\<lparr>ae_entries := ae_entries s @ es\<rparr>"
  by (induction es arbitrary: s) simp_all

lemma foldl_proposals: "foldl (\<lambda>s e. s\<lparr>pp_proposals := pp_proposals s @ [e]\<rparr>) s es = s\<lparr>pp_proposals := pp_proposals s @ es\<rparr>"
  by (induction es arbitrary: s) simp_all

lemma read_entries:
  assumes "list_all wire_entry_fits es"
  shows "read_fields append_entries_step (concat (map (\<lambda>e. f_bytes 7 (wire_entry_bytes e)) es)) s =
    Inr (s\<lparr>ae_entries := ae_entries s @ es\<rparr>)"
proof -
  have "append_entries_step 7 2 s (varint_bytes (length (wire_entry_bytes e)) @ wire_entry_bytes e @ rest) =
      Inr (s\<lparr>ae_entries := ae_entries s @ [e]\<rparr>, rest)" if "e \<in> set es" for s e rest
    using that assms
    by (simp add: append_entries_step_def list_all_iff wire_entry_fits_def codec_simps decode_wire_entry_bytes)
  from read_repeated [of 7 es append_entries_step, OF _ this] show ?thesis by (simp add: foldl_entries)
qed

lemma read_proposals:
  assumes "list_all (\<lambda>x. fits (length x)) bs"
  shows "read_fields propose_step (concat (map (f_bytes 2) bs)) s = Inr (s\<lparr>pp_proposals := pp_proposals s @ bs\<rparr>)"
proof -
  have "propose_step 2 2 s (varint_bytes (length b) @ b @ rest) = Inr (s\<lparr>pp_proposals := pp_proposals s @ [b]\<rparr>, rest)"
    if "b \<in> set bs" for s b rest
    using that assms by (simp add: propose_step_def list_all_iff codec_simps)
  from read_repeated [of 2 bs propose_step "\<lambda>b. b", OF _ this] show ?thesis by (simp add: foldl_proposals)
qed

lemma hello_round_trip: "wf_hello m \<Longrightarrow> \<exists>b. encode_hello m = Inr b \<and> decode_hello b = Inr m"
  by (cases m) (simp add: encode_hello_def decode_hello_def hello_step_def blank_hello_def wf_hello_def codec_simps)

lemma hello_ack_round_trip: "wf_hello_ack m \<Longrightarrow> \<exists>b. encode_hello_ack m = Inr b \<and> decode_hello_ack b = Inr m"
  by (cases m) (simp add: encode_hello_ack_def decode_hello_ack_def hello_ack_step_def blank_hello_ack_def wf_hello_ack_def codec_simps)

lemma request_vote_round_trip: "wf_request_vote m \<Longrightarrow> \<exists>b. encode_request_vote m = Inr b \<and> decode_request_vote b = Inr m"
  by (cases m) (simp add: encode_request_vote_def decode_request_vote_def request_vote_step_def blank_request_vote_def wf_request_vote_def codec_simps)

lemma request_vote_reply_round_trip: "wf_request_vote_reply m \<Longrightarrow> \<exists>b. encode_request_vote_reply m = Inr b \<and> decode_request_vote_reply b = Inr m"
  by (cases m) (simp add: encode_request_vote_reply_def decode_request_vote_reply_def request_vote_reply_step_def blank_request_vote_reply_def wf_request_vote_reply_def codec_simps)

lemma append_entries_round_trip: "wf_append_entries m \<Longrightarrow> \<exists>b. encode_append_entries m = Inr b \<and> decode_append_entries b = Inr m"
proof -
  assume wf: "wf_append_entries m"
  have w: "w_take (map (\<lambda>e. bind_res (encode_wire_entry e) (w_bytes 7)) (ae_entries m)) =
      Inr (concat (map (\<lambda>e. f_bytes 7 (wire_entry_bytes e)) (ae_entries m)))"
    using wf by (intro w_take_repeated)
      (auto simp: wf_append_entries_def list_all_iff wire_entry_fits_def encode_wire_entry_bytes codec_simps)
  have r: "read_fields append_entries_step (concat (map (\<lambda>e. f_bytes 7 (wire_entry_bytes e)) (ae_entries m))) s =
      Inr (s\<lparr>ae_entries := ae_entries s @ ae_entries m\<rparr>)" for s
    using wf by (intro read_entries) (simp add: wf_append_entries_def)
  show ?thesis
    using wf w r by (cases m) (simp add: encode_append_entries_def decode_append_entries_def append_entries_step_def blank_append_entries_def wf_append_entries_def codec_simps)
qed

lemma append_entries_reply_round_trip: "wf_append_entries_reply m \<Longrightarrow> \<exists>b. encode_append_entries_reply m = Inr b \<and> decode_append_entries_reply b = Inr m"
  by (cases m) (simp add: encode_append_entries_reply_def decode_append_entries_reply_def append_entries_reply_step_def blank_append_entries_reply_def wf_append_entries_reply_def codec_simps)

lemma install_snapshot_round_trip: "wf_install_snapshot m \<Longrightarrow> \<exists>b. encode_install_snapshot m = Inr b \<and> decode_install_snapshot b = Inr m"
  by (cases m) (simp add: encode_install_snapshot_def decode_install_snapshot_def install_snapshot_step_def blank_install_snapshot_def wf_install_snapshot_def codec_simps)

lemma install_snapshot_reply_round_trip: "wf_install_snapshot_reply m \<Longrightarrow> \<exists>b. encode_install_snapshot_reply m = Inr b \<and> decode_install_snapshot_reply b = Inr m"
  by (cases m) (simp add: encode_install_snapshot_reply_def decode_install_snapshot_reply_def install_snapshot_reply_step_def blank_install_snapshot_reply_def wf_install_snapshot_reply_def codec_simps)

lemma promote_round_trip: "wf_promote m \<Longrightarrow> \<exists>b. encode_promote m = Inr b \<and> decode_promote b = Inr m"
  by (cases m) (simp add: encode_promote_def decode_promote_def promote_step_def blank_promote_def wf_promote_def codec_simps)

lemma read_index_round_trip: "wf_read_index m \<Longrightarrow> \<exists>b. encode_read_index m = Inr b \<and> decode_read_index b = Inr m"
  by (cases m) (simp add: encode_read_index_def decode_read_index_def read_index_step_def blank_read_index_def wf_read_index_def codec_simps)

lemma read_index_reply_round_trip: "wf_read_index_reply m \<Longrightarrow> \<exists>b. encode_read_index_reply m = Inr b \<and> decode_read_index_reply b = Inr m"
  by (cases m) (simp add: encode_read_index_reply_def decode_read_index_reply_def read_index_reply_step_def blank_read_index_reply_def wf_read_index_reply_def codec_simps)

lemma propose_round_trip: "wf_propose m \<Longrightarrow> \<exists>b. encode_propose m = Inr b \<and> decode_propose b = Inr m"
proof -
  assume wf: "wf_propose m"
  have w: "w_take (map (w_bytes 2) (pp_proposals m)) = Inr (concat (map (f_bytes 2) (pp_proposals m)))"
    by (intro w_take_repeated) (simp add: codec_simps)
  have r: "read_fields propose_step (concat (map (f_bytes 2) (pp_proposals m))) s =
      Inr (s\<lparr>pp_proposals := pp_proposals s @ pp_proposals m\<rparr>)" for s
    using wf by (intro read_proposals) (simp add: wf_propose_def)
  show ?thesis
    using wf w r by (cases m) (simp add: encode_propose_def decode_propose_def propose_step_def blank_propose_def wf_propose_def codec_simps)
qed

lemma propose_reply_round_trip: "wf_propose_reply m \<Longrightarrow> \<exists>b. encode_propose_reply m = Inr b \<and> decode_propose_reply b = Inr m"
  by (cases m; cases "pq_leader m") (auto simp: encode_propose_reply_def decode_propose_reply_def propose_reply_step_def blank_propose_reply_def wf_propose_reply_def codec_simps)

lemma forward_round_trip: "wf_forward m \<Longrightarrow> \<exists>b. encode_forward m = Inr b \<and> decode_forward b = Inr m"
  by (cases m) (simp add: encode_forward_def decode_forward_def forward_step_def blank_forward_def wf_forward_def codec_simps)

lemma forward_reply_round_trip: "wf_forward_reply m \<Longrightarrow> \<exists>b. encode_forward_reply m = Inr b \<and> decode_forward_reply b = Inr m"
  by (cases m; cases "fr_owner m") (auto simp: encode_forward_reply_def decode_forward_reply_def forward_reply_step_def blank_forward_reply_def wf_forward_reply_def codec_simps)

lemma ping_round_trip: "wf_ping m \<Longrightarrow> \<exists>b. encode_ping m = Inr b \<and> decode_ping b = Inr m"
  by (cases m) (simp add: encode_ping_def decode_ping_def ping_step_def blank_ping_def wf_ping_def codec_simps)

lemma pong_round_trip: "wf_pong m \<Longrightarrow> \<exists>b. encode_pong m = Inr b \<and> decode_pong b = Inr m"
  by (cases m) (simp add: encode_pong_def decode_pong_def pong_step_def blank_pong_def wf_pong_def codec_simps)

subsection \<open>Refusals\<close>

lemma decode_wire_entry_error: "decode_wire_entry b = Inl e \<Longrightarrow> e = RaftProtocolError"
  unfolding decode_wire_entry_def by (erule read_fields_error [rotated], unfold wire_entry_step_def, intro gives_intros)

lemma decode_hello_error: "decode_hello b = Inl e \<Longrightarrow> e = RaftProtocolError"
  unfolding decode_hello_def
  by (erule read_fields_error [rotated], unfold hello_step_def, intro gives_intros)
     (auto simp: bind_res_def dest: hello_stream_error decode_wire_entry_error split: sum.splits)

lemma decode_hello_ack_error: "decode_hello_ack b = Inl e \<Longrightarrow> e = RaftProtocolError"
  unfolding decode_hello_ack_def by (erule read_fields_error [rotated], unfold hello_ack_step_def, intro gives_intros)

lemma decode_request_vote_error: "decode_request_vote b = Inl e \<Longrightarrow> e = RaftProtocolError"
  unfolding decode_request_vote_def by (erule read_fields_error [rotated], unfold request_vote_step_def, intro gives_intros)

lemma decode_request_vote_reply_error: "decode_request_vote_reply b = Inl e \<Longrightarrow> e = RaftProtocolError"
  unfolding decode_request_vote_reply_def by (erule read_fields_error [rotated], unfold request_vote_reply_step_def, intro gives_intros)

lemma decode_append_entries_error: "decode_append_entries b = Inl e \<Longrightarrow> e = RaftProtocolError"
  unfolding decode_append_entries_def
  by (erule read_fields_error [rotated], unfold append_entries_step_def, intro gives_intros)
     (auto simp: bind_res_def dest: hello_stream_error decode_wire_entry_error split: sum.splits)

lemma decode_append_entries_reply_error: "decode_append_entries_reply b = Inl e \<Longrightarrow> e = RaftProtocolError"
  unfolding decode_append_entries_reply_def by (erule read_fields_error [rotated], unfold append_entries_reply_step_def, intro gives_intros)

lemma decode_install_snapshot_error: "decode_install_snapshot b = Inl e \<Longrightarrow> e = RaftProtocolError"
  unfolding decode_install_snapshot_def by (erule read_fields_error [rotated], unfold install_snapshot_step_def, intro gives_intros)

lemma decode_install_snapshot_reply_error: "decode_install_snapshot_reply b = Inl e \<Longrightarrow> e = RaftProtocolError"
  unfolding decode_install_snapshot_reply_def by (erule read_fields_error [rotated], unfold install_snapshot_reply_step_def, intro gives_intros)

lemma decode_promote_error: "decode_promote b = Inl e \<Longrightarrow> e = RaftProtocolError"
  unfolding decode_promote_def by (erule read_fields_error [rotated], unfold promote_step_def, intro gives_intros)

lemma decode_read_index_error: "decode_read_index b = Inl e \<Longrightarrow> e = RaftProtocolError"
  unfolding decode_read_index_def by (erule read_fields_error [rotated], unfold read_index_step_def, intro gives_intros)

lemma decode_read_index_reply_error: "decode_read_index_reply b = Inl e \<Longrightarrow> e = RaftProtocolError"
  unfolding decode_read_index_reply_def by (erule read_fields_error [rotated], unfold read_index_reply_step_def, intro gives_intros)

lemma decode_propose_error: "decode_propose b = Inl e \<Longrightarrow> e = RaftProtocolError"
  unfolding decode_propose_def by (erule read_fields_error [rotated], unfold propose_step_def, intro gives_intros)

lemma decode_propose_reply_error: "decode_propose_reply b = Inl e \<Longrightarrow> e = RaftProtocolError"
  unfolding decode_propose_reply_def by (erule read_fields_error [rotated], unfold propose_reply_step_def, intro gives_intros)

lemma decode_forward_error: "decode_forward b = Inl e \<Longrightarrow> e = RaftProtocolError"
  unfolding decode_forward_def by (erule read_fields_error [rotated], unfold forward_step_def, intro gives_intros)

lemma decode_forward_reply_error: "decode_forward_reply b = Inl e \<Longrightarrow> e = RaftProtocolError"
  unfolding decode_forward_reply_def by (erule read_fields_error [rotated], unfold forward_reply_step_def, intro gives_intros)

lemma decode_ping_error: "decode_ping b = Inl e \<Longrightarrow> e = RaftProtocolError"
  unfolding decode_ping_def by (erule read_fields_error [rotated], unfold ping_step_def, intro gives_intros)

lemma decode_pong_error: "decode_pong b = Inl e \<Longrightarrow> e = RaftProtocolError"
  unfolding decode_pong_def by (erule read_fields_error [rotated], unfold pong_step_def, intro gives_intros)

lemmas message_round_trips =
  hello_round_trip hello_ack_round_trip request_vote_round_trip request_vote_reply_round_trip append_entries_round_trip append_entries_reply_round_trip install_snapshot_round_trip install_snapshot_reply_round_trip promote_round_trip read_index_round_trip read_index_reply_round_trip propose_round_trip propose_reply_round_trip forward_round_trip forward_reply_round_trip ping_round_trip pong_round_trip

lemmas message_errors =
  decode_hello_error decode_hello_ack_error decode_request_vote_error decode_request_vote_reply_error decode_append_entries_error decode_append_entries_reply_error decode_install_snapshot_error decode_install_snapshot_reply_error decode_promote_error decode_read_index_error decode_read_index_reply_error decode_propose_error decode_propose_reply_error decode_forward_error decode_forward_reply_error decode_ping_error decode_pong_error

fun wf_message :: "message \<Rightarrow> bool" where
  "wf_message (MHello m) = wf_hello m"
| "wf_message (MHelloAck m) = wf_hello_ack m"
| "wf_message (MRequestVote m) = wf_request_vote m"
| "wf_message (MRequestVoteReply m) = wf_request_vote_reply m"
| "wf_message (MAppendEntries m) = wf_append_entries m"
| "wf_message (MAppendEntriesReply m) = wf_append_entries_reply m"
| "wf_message (MInstallSnapshot m) = wf_install_snapshot m"
| "wf_message (MInstallSnapshotReply m) = wf_install_snapshot_reply m"
| "wf_message (MPromote m) = wf_promote m"
| "wf_message (MReadIndex m) = wf_read_index m"
| "wf_message (MReadIndexReply m) = wf_read_index_reply m"
| "wf_message (MPropose m) = wf_propose m"
| "wf_message (MProposeReply m) = wf_propose_reply m"
| "wf_message (MForward m) = wf_forward m"
| "wf_message (MForwardReply m) = wf_forward_reply m"
| "wf_message (MPing m) = wf_ping m"
| "wf_message (MPong m) = wf_pong m"

lemma decode_message_error: "decode_message t b = Inl e \<Longrightarrow> e = RaftProtocolError"
  by (cases t) (auto simp: map_sum_def dest: message_errors split: sum.splits)

lemma decode_encode_message:
  "wf_message m \<Longrightarrow> \<exists>b. encode_message m = Inr b \<and> decode_message (message_type m) b = Inr m"
  by (cases m) (fastforce dest: message_round_trips)+

interpretation message_codec: wire_protocol encode_message "decode_message t" "\<lambda>m. wf_message m \<and> message_type m = t" for t
  by unfold_locales (metis decode_encode_message, rule decode_message_error)

subsection \<open>Messages in frames\<close>

text \<open>\<open>_frame_for\<close> of \<open>transport.py\<close>, and what a link does with the bytes that arrive on it.\<close>

definition frame_for :: "message \<Rightarrow> Stream \<Rightarrow> bool \<Rightarrow> bytes res" where
  "frame_for m stream is_rep =
     bind_res (encode_message m) (\<lambda>payload.
       encode_frame \<lparr>fr_stream = stream, fr_type = message_type m, fr_flags = (if is_rep then FLAG_REPLY else 0),
                     fr_payload = payload, fr_minor = PROTOCOL_MINOR\<rparr>)"

definition receive :: "bytes \<Rightarrow> ((Frame \<times> message) \<times> bytes) res" where
  "receive data =
     bind_res (read_frame data) (\<lambda>(frame, rest).
     bind_res (decode_message (fr_type frame) (fr_payload frame)) (\<lambda>m. Inr ((frame, m), rest)))"

text \<open>
  C39: a message arrives as it was sent. Put any message in range, whose payload is within the
  frame limit, in a frame on either stream: the bytes exist, and a peer that reads them,
  whatever follows, takes off exactly that message, on that stream, marked as a reply exactly
  when it was sent as one. Encodings of different messages of one type differ, so no message
  is mistaken for another.
\<close>

theorem message_arrives:
  assumes wf: "wf_message m" and small: "\<forall>p. encode_message m = Inr p \<longrightarrow> length p \<le> MAX_FRAME"
  shows "\<exists>b f. frame_for m stream is_rep = Inr b \<and> receive (b @ rest) = Inr ((f, m), rest) \<and>
     fr_stream f = stream \<and> is_reply f = is_rep \<and>
     (\<forall>m'. wf_message m' \<and> message_type m' = message_type m \<and> encode_message m' = encode_message m \<longrightarrow> m' = m)"
proof -
  obtain p where p: "encode_message m = Inr p" "decode_message (message_type m) p = Inr m"
    using decode_encode_message [OF wf] by blast
  let ?f = "\<lparr>fr_stream = stream, fr_type = message_type m, fr_flags = (if is_rep then FLAG_REPLY else 0),
              fr_payload = p, fr_minor = PROTOCOL_MINOR\<rparr>"
  have "wf_frame ?f" using small p(1) by (simp add: wf_frame_def PROTOCOL_MINOR_def FLAG_REPLY_def)
  then obtain b where b: "encode_frame ?f = Inr b" "decode_frame b = Inr ?f"
    using frame_codec.round_trip by blast
  have "frame_for m stream is_rep = Inr b" using p(1) b(1) by (simp add: frame_for_def)
  moreover have "receive (b @ rest) = Inr ((?f, m), rest)"
    using read_frame_bytes [OF b(2)] p(2) by (simp add: receive_def)
  moreover have "is_reply ?f = is_rep" by (simp add: is_reply_def FLAG_REPLY_def)
  moreover have "m' = m" if "wf_message m'" "message_type m' = message_type m" "encode_message m' = encode_message m" for m'
    using message_codec.enc_inject [of m' "message_type m" m] that wf by simp
  ultimately show ?thesis by (metis (no_types, lifting) Frame.select_convs(1))
qed

definition sample_vote :: message where
  "sample_vote = MRequestVoteReply \<lparr>vr_term = 4, vr_granted = True, vr_voting = False, vr_pre_vote = False\<rparr>"

theorem message_arrives_witness:
  "\<exists>b f. frame_for sample_vote CONTROL True = Inr b \<and> receive (b @ [7]) = Inr ((f, sample_vote), [7]) \<and> is_reply f"
proof -
  have wf: "wf_message sample_vote"
    by (simp add: sample_vote_def wf_request_vote_reply_def wf_uint_def fits_small)
  have "encode_message sample_vote = Inr [8, 4, 16, 1, 24, 0, 32, 0]"
    by (simp add: sample_vote_def encode_request_vote_reply_def codec_simps f_uint_def tag_bytes_def varint_bytes_small push_bit_eq_mult)
  then have "\<forall>p. encode_message sample_vote = Inr p \<longrightarrow> length p \<le> MAX_FRAME" by (simp add: MAX_FRAME_def)
  from message_arrives [OF wf this, of CONTROL True "[7]"] show ?thesis by blast
qed

end
