(* ===== verification/Persist.thy ===== *)
theory Persist
  imports Registry_Types
begin

section \<open>The persisted term and vote\<close>

text \<open>
  \<open>src/nmos/raft/persist.py\<close>: the state file and the two operations on it. The file is
  modelled by the JSON document its text parses to, so \<open>json.dumps\<close> followed by \<open>json.loads\<close>
  is the identity on documents; \<open>Unreadable\<close> is a file that cannot be read or parsed.

  \<open>save\<close> publishes by renaming a complete temporary file over the target. What the operating
  system does is its argument: \<open>Saved\<close>, or \<open>OSError\<close> before the rename
  (\<open>NotPublished\<close>), or \<open>OSError\<close> after it, from the directory fsync (\<open>NotSynced\<close>).
  A number of more than \<open>max_str_digits\<close> digits cannot be written: \<open>str\<close> raises
  \<open>ValueError\<close> before the file is touched. The Windows rename is not modelled.
\<close>

definition STATE_VERSION :: int where "STATE_VERSION = 1"

record PersistentState =
  ps_term :: int
  ps_voted_for :: "int option"
  ps_incarnation :: int
  ps_reservation :: "TaiCursor option"

datatype StateFile = NoFile | Unreadable | Document json

record TermStore =
  ts_file :: StateFile
  ts_writes :: int

definition new_term_store :: "StateFile \<Rightarrow> TermStore" where
  "new_term_store f = \<lparr>ts_file = f, ts_writes = 0\<rparr>"

datatype SaveOutcome = Saved | NotPublished | NotSynced

text \<open>\<open>str(int)\<close> within the interpreter's limit.\<close>

definition printable :: "int \<Rightarrow> bool" where
  "printable i \<longleftrightarrow> \<bar>i\<bar> < 10 ^ max_str_digits"

definition opt_int :: "int option \<Rightarrow> json" where
  "opt_int v = (case v of None \<Rightarrow> JNull | Some i \<Rightarrow> JInt i)"

definition state_document :: "PersistentState \<Rightarrow> json" where
  "state_document st = JObj
     [(str ''version'', JInt STATE_VERSION),
      (str ''term'', JInt (ps_term st)),
      (str ''voted_for'', opt_int (ps_voted_for st)),
      (str ''incarnation'', JInt (ps_incarnation st)),
      (str ''cursor_reservation'',
         case ps_reservation st of None \<Rightarrow> JNull | Some c \<Rightarrow> JStr (cursor_str c))]"

definition printable_state :: "PersistentState \<Rightarrow> bool" where
  "printable_state st \<longleftrightarrow> printable (ps_term st) \<and> printable (ps_incarnation st) \<and>
     (case ps_voted_for st of None \<Rightarrow> True | Some v \<Rightarrow> printable v) \<and>
     (case ps_reservation st of None \<Rightarrow> True | Some c \<Rightarrow> printable (seconds c) \<and> printable (nanoseconds c))"

definition save_state :: "SaveOutcome \<Rightarrow> TermStore \<Rightarrow> PersistentState \<Rightarrow> TermStore \<times> unit res" where
  "save_state os ts st =
     (if \<not> printable_state st then (ts, Inl ValueError)
      else (case os of
              Saved \<Rightarrow> (ts\<lparr>ts_file := Document (state_document st), ts_writes := ts_writes ts + 1\<rparr>, Inr ())
            | NotPublished \<Rightarrow> (ts, Inl OSError)
            | NotSynced \<Rightarrow> (ts\<lparr>ts_file := Document (state_document st)\<rparr>, Inl OSError)))"

subsection \<open>Loading\<close>

text \<open>\<open>value != STATE_VERSION\<close> is Python's \<open>!=\<close>: \<open>true\<close> and \<open>1.0\<close> equal one.\<close>

fun is_version :: "json option \<Rightarrow> bool" where
  "is_version (Some (JInt i)) \<longleftrightarrow> i = STATE_VERSION"
| "is_version (Some (JBool b)) \<longleftrightarrow> (if b then 1 else 0) = STATE_VERSION"
| "is_version (Some (JFloat t)) \<longleftrightarrow> t = str ''1.0''"
| "is_version _ \<longleftrightarrow> False"

text \<open>
  \<open>int(value)\<close> of a JSON value. What it makes of a text or a float, which no file written
  here holds, is the argument \<open>conv\<close>.
\<close>

fun json_int :: "(json \<Rightarrow> int res) \<Rightarrow> json \<Rightarrow> int res" where
  "json_int conv (JInt i) = Inr i"
| "json_int conv (JBool b) = Inr (if b then 1 else 0)"
| "json_int conv (JStr s) = conv (JStr s)"
| "json_int conv (JFloat t) = conv (JFloat t)"
| "json_int conv _ = Inl TypeError"

definition item :: "(pystr, json) pydict \<Rightarrow> pystr \<Rightarrow> json res" where
  "item raw k = (case dget raw k of None \<Rightarrow> Inl KeyError | Some v \<Rightarrow> Inr v)"

definition stored_vote :: "(json \<Rightarrow> int res) \<Rightarrow> json \<Rightarrow> int option res" where
  "stored_vote conv v = (if v = JNull then Inr None else bind_res (json_int conv v) (\<lambda>i. Inr (Some i)))"

text \<open>The \<open>try\<close> block: three exception classes become a refusal, any other escapes.\<close>

definition refuse :: "'a res \<Rightarrow> 'a res" where
  "refuse r = (case r of
     Inl e \<Rightarrow> Inl (if e \<in> {KeyError, TypeError, ValueError} then PersistentStateError else e)
   | Inr x \<Rightarrow> Inr x)"

definition term_and_vote :: "(json \<Rightarrow> int res) \<Rightarrow> (pystr, json) pydict \<Rightarrow> (int \<times> int option \<times> int) res" where
  "term_and_vote conv raw =
     refuse (bind_res (bind_res (item raw (str ''term'')) (json_int conv)) (\<lambda>term.
             bind_res (bind_res (item raw (str ''voted_for'')) (stored_vote conv)) (\<lambda>vote.
             bind_res (bind_res (item raw (str ''incarnation'')) (json_int conv)) (\<lambda>inc.
               Inr (term, vote, inc + 1)))))"

definition cursor_reservation :: "(pystr, json) pydict \<Rightarrow> TaiCursor option res" where
  "cursor_reservation raw =
     (case dget raw (str ''cursor_reservation'') of
        None \<Rightarrow> Inr None
      | Some JNull \<Rightarrow> Inr None
      | Some (JStr stored) \<Rightarrow>
          bind_res (cursor_parse stored) (\<lambda>c.
            case c of None \<Rightarrow> Inl PersistentStateError | Some r \<Rightarrow> Inr (Some r))
      | Some _ \<Rightarrow> Inl PersistentStateError)"

definition read_state :: "(json \<Rightarrow> int res) \<Rightarrow> StateFile \<Rightarrow> PersistentState res" where
  "read_state conv f =
     (case f of
        NoFile \<Rightarrow> Inr \<lparr>ps_term = 0, ps_voted_for = None, ps_incarnation = 1, ps_reservation = None\<rparr>
      | Document (JObj raw) \<Rightarrow>
          if \<not> is_version (dget raw (str ''version'')) then Inl PersistentStateError
          else bind_res (term_and_vote conv raw) (\<lambda>(term, vote, inc).
               bind_res (cursor_reservation raw) (\<lambda>r.
                 Inr \<lparr>ps_term = term, ps_voted_for = vote, ps_incarnation = inc, ps_reservation = r\<rparr>))
      | _ \<Rightarrow> Inl PersistentStateError)"

definition load_state ::
  "(json \<Rightarrow> int res) \<Rightarrow> SaveOutcome \<Rightarrow> TermStore \<Rightarrow> TermStore \<times> PersistentState res" where
  "load_state conv os ts =
     (case read_state conv (ts_file ts) of
        Inl e \<Rightarrow> (ts, Inl e)
      | Inr st \<Rightarrow>
          (case save_state os ts st of
             (ts', Inl e) \<Rightarrow> (ts', Inl e)
           | (ts', Inr _) \<Rightarrow> (ts', Inr st)))"

subsection \<open>Lemmas\<close>

text \<open>States whose reservation, if any, is a cursor the text form can carry.\<close>

definition wf_reservation :: "TaiCursor option \<Rightarrow> bool" where
  "wf_reservation r \<longleftrightarrow> (case r of None \<Rightarrow> True | Some c \<Rightarrow> 0 \<le> seconds c \<and> 0 \<le> nanoseconds c)"

lemma parse_printable:
  assumes "0 \<le> seconds c" "0 \<le> nanoseconds c" "printable (seconds c)" "printable (nanoseconds c)"
  shows "cursor_parse (cursor_str c) = Inr (Some c)"
proof -
  have "seconds c < 10 ^ max_str_digits" "nanoseconds c < 10 ^ max_str_digits"
    using assms by (simp_all only: printable_def abs_of_nonneg)
  then show ?thesis using cursor_parse_str assms(1,2) by blast
qed

lemma read_saved:
  assumes "printable_state st" and "wf_reservation (ps_reservation st)"
  shows "read_state conv (Document (state_document st)) = Inr (st\<lparr>ps_incarnation := ps_incarnation st + 1\<rparr>)"
proof -
  let ?raw = "[(str ''version'', JInt STATE_VERSION), (str ''term'', JInt (ps_term st)),
      (str ''voted_for'', opt_int (ps_voted_for st)), (str ''incarnation'', JInt (ps_incarnation st)),
      (str ''cursor_reservation'', case ps_reservation st of None \<Rightarrow> JNull | Some c \<Rightarrow> JStr (cursor_str c))]"
  have v: "stored_vote conv (opt_int (ps_voted_for st)) = Inr (ps_voted_for st)"
    by (simp add: stored_vote_def opt_int_def split: option.splits)
  have "cursor_reservation ?raw = Inr (ps_reservation st)"
  proof (cases "ps_reservation st")
    case (Some c)
    then have "cursor_parse (cursor_str c) = Inr (Some c)"
      using assms by (intro parse_printable) (simp_all add: printable_state_def wf_reservation_def)
    then show ?thesis by (simp add: cursor_reservation_def Some)
  qed (simp add: cursor_reservation_def)
  then show ?thesis
    by (simp add: read_state_def state_document_def term_and_vote_def item_def v refuse_def)
qed

lemma save_state_cases:
  obtains "\<not> printable_state st" "save_state os ts st = (ts, Inl ValueError)"
  | "printable_state st" "save_state os ts st = (ts, Inl OSError)"
  | w where "printable_state st" "os = NotSynced"
      "save_state os ts st = (\<lparr>ts_file = Document (state_document st), ts_writes = w\<rparr>, Inl OSError)"
  | w where "printable_state st" "os = Saved"
      "save_state os ts st = (\<lparr>ts_file = Document (state_document st), ts_writes = w\<rparr>, Inr ())"
proof (cases "printable_state st")
  case False
  then show ?thesis using that(1) by (simp add: save_state_def)
next
  case True
  have u: "ts\<lparr>ts_file := f\<rparr> = \<lparr>ts_file = f, ts_writes = ts_writes ts\<rparr>"
    "ts\<lparr>ts_file := f, ts_writes := n\<rparr> = \<lparr>ts_file = f, ts_writes = n\<rparr>" for f n
    by (cases ts; simp)+
  show ?thesis
    using True that(2) that(3) [of "ts_writes ts"] that(4) [of "ts_writes ts + 1"]
    by (cases os) (simp_all add: save_state_def u)
qed

text \<open>
  C19: the vote outlives the process, and a crash never shows half of it. Whatever the
  operating system does during a save, the file afterwards holds the state it held before or
  the complete new one; when the save returns it holds the new one, and the next start reads
  back exactly that term, vote and reservation, with the incarnation counted up.
\<close>

theorem saved_state_survives:
  assumes "wf_reservation (ps_reservation st)" and "save_state os ts st = (ts', r)"
  shows "(ts_file ts' = ts_file ts \<or> ts_file ts' = Document (state_document st)) \<and>
    (r = Inr () \<longrightarrow>
       (let st' = st\<lparr>ps_incarnation := ps_incarnation st + 1\<rparr>
        in read_state conv (ts_file ts') = Inr st' \<and>
           (printable_state st' \<longrightarrow>
              snd (load_state conv Saved ts') = Inr st' \<and>
              ts_file (fst (load_state conv Saved ts')) = Document (state_document st'))))"
proof (cases rule: save_state_cases [of st os ts])
  case (4 w)
  then have ts': "ts' = \<lparr>ts_file = Document (state_document st), ts_writes = w\<rparr>" using assms(2) by simp
  note read = read_saved [OF 4(1) assms(1), of conv]
  show ?thesis
    using read by (simp add: ts' load_state_def save_state_def Let_def)
qed (use assms(2) in auto)

definition sample_state :: PersistentState where
  "sample_state = \<lparr>ps_term = 4, ps_voted_for = Some 0, ps_incarnation = 2, ps_reservation = Some (TaiCursor 9 1)\<rparr>"

lemma printable_small: "\<bar>i\<bar> < 10 \<Longrightarrow> printable i"
  unfolding printable_def by (rule two_pow_small)

lemma sample_state_printable: "printable_state sample_state" "wf_reservation (ps_reservation sample_state)"
  by (simp_all add: printable_state_def sample_state_def printable_small wf_reservation_def)

theorem saved_state_survives_witness:
  "read_state (\<lambda>_. Inl TypeError) (ts_file (fst (save_state Saved (new_term_store NoFile) sample_state))) =
     Inr (sample_state\<lparr>ps_incarnation := 3\<rparr>)"
proof -
  have "save_state Saved (new_term_store NoFile) sample_state =
      (fst (save_state Saved (new_term_store NoFile) sample_state), Inr ())"
    using sample_state_printable by (simp add: save_state_def)
  then show ?thesis
    using saved_state_survives [OF sample_state_printable(2), of Saved "new_term_store NoFile" _ "Inr ()" "\<lambda>_. Inl TypeError"]
    by (simp add: Let_def sample_state_def)
qed

end
