(* ===== verification/Raft_State.thy ===== *)
theory Raft_State
  imports Machine Messages Persist
begin

section \<open>The state of a consensus member\<close>

text \<open>
  \<open>src/nmos/raft/node.py\<close>, first part: the fields of \<open>RaftNode\<close> and of the classes it keeps,
  the cluster of \<open>src/nmos/raft/cluster.py\<close>, and what every handler uses.

  \<^item> A method that may raise is an \<open>act\<close>: the member as the method leaves it, and the value it
    returns or the exception it raises. The state survives the exception, as it does in Python,
    where the transport and the tick catch \<open>OSError\<close> and go on.
  \<^item> What the member reads of its surroundings during one handler is the record \<open>Env\<close>: the
    event loop's clock (one reading per handler), the random election timeout, what the
    operating system answers to the handler's first and second save, the number of the BULK
    connection to each peer, and what \<open>json.loads\<close> makes of a body.
  \<^item> \<open>transport.send\<close> appends to \<open>rn_outbox\<close>. A future is a number; \<open>rn_futures\<close> holds those
    already done, with what they were given.
  \<^item> The snapshot store is the one the state machine consults (\<open>ma_snapshots\<close>); the event that
    wakes the applier, the tasks and the log lines are not modelled.
\<close>

subsection \<open>The cluster\<close>

record RaftMember =
  mb_index :: int
  mb_name :: pystr
  mb_host :: pystr
  mb_port :: int

record RaftLayout =
  ly_members :: "RaftMember list"
  ly_local :: RaftMember
  ly_cluster_id :: pystr

definition mb_target :: "RaftMember \<Rightarrow> pystr \<times> int" where
  "mb_target m = (mb_host m, mb_port m)"

definition size_of :: "RaftLayout \<Rightarrow> int" where
  "size_of ly = int (length (ly_members ly))"

definition quorum :: "RaftLayout \<Rightarrow> int" where
  "quorum ly = size_of ly div 2 + 1"

definition failures_tolerated :: "RaftLayout \<Rightarrow> int" where
  "failures_tolerated ly = size_of ly - quorum ly"

definition peers_of :: "RaftLayout \<Rightarrow> RaftMember list" where
  "peers_of ly = filter (\<lambda>m. mb_index m \<noteq> mb_index (ly_local ly)) (ly_members ly)"

definition peer_targets :: "RaftLayout \<Rightarrow> (int, pystr \<times> int) pydict" where
  "peer_targets ly = foldl (\<lambda>d m. dset (mb_index m) (mb_target m) d) [] (peers_of ly)"

definition member_by_index :: "RaftLayout \<Rightarrow> int \<Rightarrow> RaftMember option" where
  "member_by_index ly i = List.find (\<lambda>m. mb_index m = i) (ly_members ly)"

subsection \<open>Timing, peers, transfers and reads\<close>

datatype Role = FOLLOWER | PRE_CANDIDATE | CANDIDATE | LEADER

record RaftTiming =
  tm_heartbeat :: real
  tm_election_min :: real
  tm_election_max :: real
  tm_max_entries :: int
  tm_max_append_bytes :: int
  tm_max_apply_batch :: int
  tm_compaction_threshold :: int
  tm_max_log_entries :: int
  tm_snapshot_chunk :: int

definition default_timing :: RaftTiming where
  "default_timing = \<lparr>tm_heartbeat = 5 / 100, tm_election_min = 30 / 100, tm_election_max = 60 / 100,
     tm_max_entries = 256, tm_max_append_bytes = 2 ^ 20, tm_max_apply_batch = 128,
     tm_compaction_threshold = 4096, tm_max_log_entries = 65536, tm_snapshot_chunk = 2 ^ 20\<rparr>"

record PeerState =
  p_next_index :: int
  p_match_index :: int
  p_up :: bool
  p_incarnation :: int
  p_catching_up :: bool
  p_promote_through :: int
  p_pending_through :: int
  p_pending_request :: int
  p_pending_since :: real
  p_sent_commit :: int
  p_heard_request :: int
  p_reply_floor :: int
  p_last_heard_at :: real
  p_snapshot_offset :: int
  p_sending :: "(SnapshotMeta \<times> bytes) option"
  p_snapshot_request :: int
  p_snapshot_carrier :: "int option"

definition new_peer :: PeerState where
  "new_peer = \<lparr>p_next_index = 1, p_match_index = 0, p_up = False, p_incarnation = 0, p_catching_up = False,
     p_promote_through = 0, p_pending_through = 0, p_pending_request = 0, p_pending_since = 0,
     p_sent_commit = 0, p_heard_request = 0, p_reply_floor = 0, p_last_heard_at = 0,
     p_snapshot_offset = 0, p_sending = None, p_snapshot_request = 0, p_snapshot_carrier = None\<rparr>"

record Assembly =
  as_identity :: "int \<times> int \<times> int \<times> int"
  as_data :: bytes

record ReadRequest =
  rd_future :: nat
  rd_index :: "int option"
  rd_after :: int

text \<open>\<open>_holds\<close>: the chunk is already part of what is assembled.\<close>

definition holds_chunk :: "bytes \<Rightarrow> int \<Rightarrow> bytes \<Rightarrow> bool" where
  "holds_chunk assembled offset chunk \<longleftrightarrow>
     offset + int (length chunk) \<le> int (length assembled) \<and>
     take (length chunk) (drop (nat offset) assembled) = chunk"

subsection \<open>The member\<close>

datatype Settled = Answered Outcome | ReadAt int | Unavailable | Cancelled

record RaftNode =
  rn_layout :: RaftLayout
  rn_timing :: RaftTiming
  rn_terms :: TermStore
  rn_machine :: StateMachine
  rn_term :: int
  rn_voted_for :: "int option"
  rn_incarnation :: int
  rn_role :: Role
  rn_leader :: "int option"
  rn_commit_index :: int
  rn_log :: "RegistryOperation RaftLog"
  rn_peers :: "(int, PeerState) pydict"
  rn_voting :: bool
  rn_votes :: "int set"
  rn_pre_votes :: "int set"
  rn_pre_refusals :: "int set"
  rn_forgotten :: "int set"
  rn_pre_forgotten :: "int set"
  rn_append_sequence :: int
  rn_waiters :: "(ProposalId, nat) pydict"
  rn_reads :: "ReadRequest list"
  rn_sequence :: int
  rn_pending :: "(RegistryOperation \<times> nat) list"
  rn_deadline :: real
  rn_heard_from_leader_at :: real
  rn_snapshot :: bytes
  rn_snapshot_meta :: "SnapshotMeta option"
  rn_installing :: "(int, Assembly) pydict"
  rn_fence :: int
  rn_closing :: bool
  rn_failure :: "py_error option"
  rn_futures :: "nat \<rightharpoonup> Settled"
  rn_outbox :: "(int \<times> message \<times> Stream) list"

record Env =
  en_now :: real
  en_timeout :: real
  en_save :: SaveOutcome
  en_save_again :: SaveOutcome
  en_carrier :: "int \<Rightarrow> int option"
  en_loads :: json_loads
  en_health :: int
  en_cursor :: TaiCursor

type_synonym 'a act = "RaftNode \<times> 'a res"

definition and_then :: "'a act \<Rightarrow> (RaftNode \<Rightarrow> 'a \<Rightarrow> 'b act) \<Rightarrow> 'b act" where
  "and_then r f = (case r of (n, Inl e) \<Rightarrow> (n, Inl e) | (n, Inr x) \<Rightarrow> f n x)"

lemma and_then_simps [simp]:
  "and_then (n, Inl e) f = (n, Inl e)" "and_then (n, Inr x) f = f n x"
  by (simp_all add: and_then_def)

definition PROPOSALS_PER_INCARNATION :: int where "PROPOSALS_PER_INCARNATION = 2 ^ 32"

definition local_index :: "RaftNode \<Rightarrow> int" where
  "local_index n = mb_index (ly_local (rn_layout n))"

definition member_indexes :: "RaftLayout \<Rightarrow> int set" where
  "member_indexes ly = mb_index ` set (ly_members ly)"

text \<open>\<open>__init__\<close>, with the term store already loaded and the machine's allocator resumed.\<close>

definition new_node :: "RaftLayout \<Rightarrow> RaftTiming \<Rightarrow> TermStore \<Rightarrow> StateMachine \<Rightarrow> PersistentState \<Rightarrow> RaftNode" where
  "new_node ly tm ts m st =
     \<lparr>rn_layout = ly, rn_timing = tm, rn_terms = ts,
      rn_machine = m\<lparr>ma_cursors := resume (ma_cursors m) (ps_reservation st)\<rparr>,
      rn_term = ps_term st, rn_voted_for = ps_voted_for st, rn_incarnation = ps_incarnation st,
      rn_role = FOLLOWER, rn_leader = None, rn_commit_index = 0, rn_log = new_log 0 0,
      rn_peers = foldl (\<lambda>d m. dset (mb_index m) new_peer d) [] (peers_of ly),
      rn_voting = (ps_incarnation st = 1 \<or> size_of ly = 1),
      rn_votes = {}, rn_pre_votes = {}, rn_pre_refusals = {}, rn_forgotten = {}, rn_pre_forgotten = {},
      rn_append_sequence = 0, rn_waiters = [], rn_reads = [],
      rn_sequence = ps_incarnation st * PROPOSALS_PER_INCARNATION, rn_pending = [],
      rn_deadline = 0, rn_heard_from_leader_at = 0, rn_snapshot = [], rn_snapshot_meta = None,
      rn_installing = [], rn_fence = 0, rn_closing = False, rn_failure = None, rn_futures = Map.empty,
      rn_outbox = []\<rparr>"

definition start_member ::
  "(json \<Rightarrow> int res) \<Rightarrow> SaveOutcome \<Rightarrow> RaftLayout \<Rightarrow> RaftTiming \<Rightarrow> StateMachine \<Rightarrow> TermStore \<Rightarrow> TermStore \<times> RaftNode res" where
  "start_member conv os ly tm m ts =
     (case load_state conv os ts of
        (ts', Inl e) \<Rightarrow> (ts', Inl e)
      | (ts', Inr st) \<Rightarrow> (ts', Inr (new_node ly tm ts' m st)))"

definition peer_state :: "RaftNode \<Rightarrow> int \<Rightarrow> PeerState" where
  "peer_state n p = (case dget (rn_peers n) p of Some s \<Rightarrow> s | None \<Rightarrow> new_peer)"

definition set_peer :: "RaftNode \<Rightarrow> int \<Rightarrow> PeerState \<Rightarrow> RaftNode" where
  "set_peer n p s = n\<lparr>rn_peers := dset p s (rn_peers n)\<rparr>"

definition send :: "RaftNode \<Rightarrow> int \<Rightarrow> message \<Rightarrow> Stream \<Rightarrow> RaftNode" where
  "send n p m s = n\<lparr>rn_outbox := rn_outbox n @ [(p, m, s)]\<rparr>"

subsection \<open>Who is there\<close>

definition count_peers :: "RaftNode \<Rightarrow> (PeerState \<Rightarrow> bool) \<Rightarrow> int" where
  "count_peers n P = int (length (filter (\<lambda>(_, s). P s) (rn_peers n)))"

definition has_quorum :: "RaftNode \<Rightarrow> bool" where
  "has_quorum n \<longleftrightarrow> 1 + count_peers n (\<lambda>s. p_up s \<and> \<not> p_catching_up s) \<ge> quorum (rn_layout n)"

definition reaches_a_majority :: "RaftNode \<Rightarrow> bool" where
  "reaches_a_majority n \<longleftrightarrow> 1 + count_peers n p_up \<ge> quorum (rn_layout n)"

definition quorum_is_answering :: "RaftNode \<Rightarrow> real \<Rightarrow> bool" where
  "quorum_is_answering n now \<longleftrightarrow>
     1 + count_peers n (\<lambda>s. now - p_last_heard_at s < tm_election_max (rn_timing n)) \<ge> quorum (rn_layout n)"

definition leader_lease_holds :: "Env \<Rightarrow> RaftNode \<Rightarrow> bool" where
  "leader_lease_holds env n \<longleftrightarrow>
     rn_role n \<noteq> LEADER \<and> rn_leader n \<noteq> None \<and>
     en_now env - rn_heard_from_leader_at n < tm_election_min (rn_timing n)"

definition reset_election_timer :: "Env \<Rightarrow> RaftNode \<Rightarrow> RaftNode" where
  "reset_election_timer env n = n\<lparr>rn_deadline := en_now env + en_timeout env\<rparr>"

subsection \<open>What reaches the disk\<close>

definition durable :: "RaftNode \<Rightarrow> PersistentState" where
  "durable n = \<lparr>ps_term = rn_term n, ps_voted_for = rn_voted_for n, ps_incarnation = rn_incarnation n,
                ps_reservation = reservation (ma_cursors (rn_machine n))\<rparr>"

definition persist_node :: "SaveOutcome \<Rightarrow> RaftNode \<Rightarrow> unit act" where
  "persist_node os n = (case save_state os (rn_terms n) (durable n) of (ts, r) \<Rightarrow> (n\<lparr>rn_terms := ts\<rparr>, r))"

subsection \<open>Standing down and stopping\<close>

definition settle :: "nat \<Rightarrow> Settled \<Rightarrow> RaftNode \<Rightarrow> RaftNode" where
  "settle f v n = (if rn_futures n f = None then n\<lparr>rn_futures := (rn_futures n)(f \<mapsto> v)\<rparr> else n)"

definition fail_reads :: "RaftNode \<Rightarrow> RaftNode" where
  "fail_reads n = (foldl (\<lambda>n r. settle (rd_future r) Unavailable n) n (rn_reads n))\<lparr>rn_reads := []\<rparr>"

definition clear_rounds :: "RaftNode \<Rightarrow> RaftNode" where
  "clear_rounds n = n\<lparr>rn_votes := {}, rn_pre_votes := {}, rn_pre_refusals := {}, rn_forgotten := {}, rn_pre_forgotten := {}\<rparr>"

definition relinquish :: "Env \<Rightarrow> RaftNode \<Rightarrow> RaftNode" where
  "relinquish env n =
     (if rn_role n \<noteq> LEADER then n
      else reset_election_timer env (fail_reads (clear_rounds (n\<lparr>rn_role := FOLLOWER, rn_leader := None\<rparr>))))"

definition step_down :: "SaveOutcome \<Rightarrow> RaftNode \<Rightarrow> int \<Rightarrow> unit act" where
  "step_down os n t =
     persist_node os (clear_rounds ((fail_reads n)\<lparr>rn_term := t, rn_installing := [], rn_voted_for := None,
       rn_role := FOLLOWER, rn_leader := None\<rparr>))"

text \<open>\<open>_fail\<close>: the first defect stops the member; whoever waits is told it is unavailable.\<close>

definition fail_node :: "Env \<Rightarrow> RaftNode \<Rightarrow> py_error \<Rightarrow> RaftNode" where
  "fail_node env n err =
     (if rn_failure n \<noteq> None then n
      else let n1 = relinquish env (n\<lparr>rn_failure := Some err, rn_closing := True\<rparr>);
               n2 = (foldl (\<lambda>n (_, f). settle f Unavailable n) n1 (rn_pending n1))\<lparr>rn_pending := []\<rparr>;
               n3 = fail_reads n2;
               n4 = foldl (\<lambda>n (_, f). settle f Unavailable n) n3 (rn_waiters n3)
           in n4\<lparr>rn_waiters := []\<rparr>)"

subsection \<open>Sending\<close>

definition send_keepalive :: "RaftNode \<Rightarrow> int \<Rightarrow> RaftNode" where
  "send_keepalive n p =
     (let n1 = n\<lparr>rn_append_sequence := rn_append_sequence n + 1\<rparr>;
          n2 = set_peer n1 p ((peer_state n1 p)\<lparr>p_sent_commit := 0\<rparr>)
      in send n2 p (MAppendEntries \<lparr>ae_term = rn_term n2, ae_leader = local_index n2, ae_prev_log_index = 0,
           ae_prev_log_term = 0, ae_leader_commit = 0, ae_request_id = rn_append_sequence n2, ae_entries = []\<rparr>) CONTROL)"

definition send_chunk :: "RaftNode \<Rightarrow> int \<Rightarrow> SnapshotMeta \<Rightarrow> bytes \<Rightarrow> int option \<Rightarrow> RaftNode" where
  "send_chunk n p meta payload carrier =
     (let s = peer_state n p; offset = p_snapshot_offset s;
          chunk = take (nat (tm_snapshot_chunk (rn_timing n))) (drop (nat offset) payload);
          seq = rn_append_sequence n + 1;
          n1 = set_peer (n\<lparr>rn_append_sequence := seq\<rparr>) p (s\<lparr>p_snapshot_request := seq, p_snapshot_carrier := carrier\<rparr>)
      in send n1 p (MInstallSnapshot \<lparr>is_term = rn_term n1, is_leader = local_index n1,
           is_last_index = sm_last_index meta, is_last_term = sm_last_term meta, is_offset = offset,
           is_ownership = [], is_data = chunk, is_done = (offset + int (length chunk) \<ge> int (length payload)),
           is_request_id = seq\<rparr>) BULK)"

definition send_snapshot :: "Env \<Rightarrow> RaftNode \<Rightarrow> int \<Rightarrow> RaftNode" where
  "send_snapshot env n p =
     (case rn_snapshot_meta n of
        None \<Rightarrow> send_keepalive n p
      | Some meta \<Rightarrow>
          if rn_snapshot n = [] then send_keepalive n p
          else let s = peer_state n p; carrier = en_carrier env p
               in if p_snapshot_request s \<noteq> 0 \<and> carrier \<noteq> None \<and> carrier = p_snapshot_carrier s then send_keepalive n p
                  else let s1 = s\<lparr>p_snapshot_request := 0\<rparr>
                       in if carrier = None then send_keepalive (set_peer n p s1) p
                          else (case p_sending s1 of
                                  Some (sent, payload) \<Rightarrow>
                                    if p_snapshot_offset s1 = 0
                                    then send_chunk (set_peer n p (s1\<lparr>p_sending := Some (meta, rn_snapshot n)\<rparr>)) p meta (rn_snapshot n) carrier
                                    else send_chunk (set_peer n p s1) p sent payload carrier
                                | None \<Rightarrow>
                                    send_chunk (set_peer n p (s1\<lparr>p_sending := Some (meta, rn_snapshot n), p_snapshot_offset := 0\<rparr>))
                                      p meta (rn_snapshot n) carrier))"

text \<open>
  \<open>_carrying_entries_would_repeat_them\<close> answers and, when the outstanding append is overdue,
  forgets it.
\<close>

definition carrying_entries_would_repeat_them :: "Env \<Rightarrow> RaftNode \<Rightarrow> PeerState \<Rightarrow> PeerState \<times> bool" where
  "carrying_entries_would_repeat_them env n s =
     (if p_pending_request s = 0 then (s, False)
      else if en_now env - p_pending_since s \<ge> tm_election_min (rn_timing n) then (s\<lparr>p_pending_request := 0\<rparr>, False)
      else (s, True))"

definition wire_of :: "RegistryOperation Entry \<Rightarrow> WireEntry" where
  "wire_of e = \<lparr>we_term = e_term e, we_index = e_index e, we_payload = e_payload e\<rparr>"

definition transmit_append :: "Env \<Rightarrow> RaftNode \<Rightarrow> int \<Rightarrow> int \<Rightarrow> RegistryOperation Entry list \<Rightarrow> RaftNode" where
  "transmit_append env n p prev_term entries =
     (let s = peer_state n p; previous = p_next_index s - 1;
          seq = rn_append_sequence n + 1;
          window_last = (if entries = [] then previous else e_index (last entries));
          s1 = (if entries = [] then s
                else s\<lparr>p_pending_through := e_index (last entries), p_pending_request := seq, p_pending_since := en_now env\<rparr>);
          n1 = set_peer (n\<lparr>rn_append_sequence := seq\<rparr>) p (s1\<lparr>p_sent_commit := min (rn_commit_index n) window_last\<rparr>)
      in send n1 p (MAppendEntries \<lparr>ae_term = rn_term n1, ae_leader = local_index n1, ae_prev_log_index = previous,
           ae_prev_log_term = prev_term, ae_leader_commit = rn_commit_index n1, ae_request_id = seq,
           ae_entries = map wire_of entries\<rparr>) CONTROL)"

definition send_append :: "Env \<Rightarrow> RaftNode \<Rightarrow> int \<Rightarrow> unit act" where
  "send_append env n p =
     (let s = peer_state n p
      in case bind_res (term_at (rn_log n) (p_next_index s - 1)) (\<lambda>prev_term.
              bind_res (window (rn_log n) (p_next_index s) (tm_max_entries (rn_timing n)) (tm_max_append_bytes (rn_timing n)))
                (\<lambda>entries. Inr (prev_term, entries))) of
           Inl RaftLogCompacted \<Rightarrow> (send_snapshot env n p, Inr ())
         | Inl e \<Rightarrow> (n, Inl e)
         | Inr (prev_term, entries) \<Rightarrow>
             (let (s1, repeats) = carrying_entries_would_repeat_them env n s
              in (transmit_append env (set_peer n p s1) p prev_term (if repeats then [] else entries), Inr ())))"

fun replicate_to :: "Env \<Rightarrow> RaftNode \<Rightarrow> int list \<Rightarrow> unit act" where
  "replicate_to env n [] = (n, Inr ())"
| "replicate_to env n (p # ps) =
     (if p_up (peer_state n p) then and_then (send_append env n p) (\<lambda>n1 _. replicate_to env n1 ps)
      else replicate_to env n ps)"

definition replicate_all :: "Env \<Rightarrow> RaftNode \<Rightarrow> unit act" where
  "replicate_all env n = replicate_to env n (dkeys (rn_peers n))"

definition next_proposal :: "RaftNode \<Rightarrow> RaftNode \<times> ProposalId" where
  "next_proposal n =
     (let n1 = n\<lparr>rn_sequence := rn_sequence n + 1\<rparr> in (n1, ProposalId (local_index n1) (rn_sequence n1)))"

fun encode_all :: "RegistryOperation list \<Rightarrow> (bytes \<times> RegistryOperation) list res" where
  "encode_all [] = Inr []"
| "encode_all (op # ops) =
     bind_res (encode_operation op) (\<lambda>b. bind_res (encode_all ops) (\<lambda>xs. Inr ((b, op) # xs)))"

definition append_local :: "RaftNode \<Rightarrow> RegistryOperation list \<Rightarrow> (int \<times> int) act" where
  "append_local n ops =
     (case bind_res (encode_all ops) (append_log (rn_log n) (rn_term n)) of
        Inl e \<Rightarrow> (n, Inl e)
      | Inr (lg, first, lst) \<Rightarrow> (n\<lparr>rn_log := lg\<rparr>, Inr (first, lst)))"

end
