(* ===== verification/Raft_Election.thy ===== *)
theory Raft_Election
  imports Raft_State
begin

section \<open>Elections\<close>

text \<open>
  The election handlers of \<open>src/nmos/raft/node.py\<close>: the tick, the pre-vote round, the
  campaign, granting and counting votes, winning, and promotion.
\<close>

definition won :: "RaftNode \<Rightarrow> int set \<Rightarrow> int set \<Rightarrow> bool" where
  "won n votes forgotten =
     (let members = member_indexes (rn_layout n);
          proven = (forgotten \<inter> members) \<union> (if rn_voting n then {} else {local_index n});
          granted = votes \<inter> members;
          q = quorum (rn_layout n)
      in if int (card (granted - proven)) \<ge> q then True
         else if size_of (rn_layout n) - int (card proven) \<ge> q then False
         else int (card granted) \<ge> q \<and> members - proven \<subseteq> granted)"

definition won_pre_vote :: "RaftNode \<Rightarrow> bool" where
  "won_pre_vote n = won n (rn_pre_votes n) (rn_pre_forgotten n)"

definition pre_vote_is_lost :: "RaftNode \<Rightarrow> bool" where
  "pre_vote_is_lost n \<longleftrightarrow> size_of (rn_layout n) - int (card (rn_pre_refusals n)) < quorum (rn_layout n)"

text \<open>What a new leader assumes of each peer; \<open>up\<close> and \<open>incarnation\<close> are kept, and so is the carrier.\<close>

definition led_peer :: "Env \<Rightarrow> RaftNode \<Rightarrow> PeerState \<Rightarrow> PeerState" where
  "led_peer env n s =
     s\<lparr>p_next_index := last_index (rn_log n) + 1, p_match_index := 0, p_last_heard_at := en_now env,
       p_catching_up := False, p_promote_through := 0, p_pending_through := 0, p_pending_request := 0,
       p_pending_since := 0, p_sent_commit := 0, p_reply_floor := rn_append_sequence n, p_heard_request := 0,
       p_snapshot_offset := 0, p_snapshot_request := 0, p_sending := None\<rparr>"

definition become_leader :: "Env \<Rightarrow> RaftNode \<Rightarrow> unit act" where
  "become_leader env n =
     (let n1 = n\<lparr>rn_role := LEADER, rn_leader := Some (local_index n), rn_voting := True\<rparr>;
          n2 = n1\<lparr>rn_peers := map (\<lambda>(p, s). (p, led_peer env n1 s)) (rn_peers n1)\<rparr>;
          (n3, pid) = next_proposal n2
      in and_then (append_local n3 [NoopOp pid]) (\<lambda>n4 _. replicate_all env n4))"

definition request_vote :: "RaftNode \<Rightarrow> int \<Rightarrow> bool \<Rightarrow> message" where
  "request_vote n t pre =
     MRequestVote \<lparr>rv_term = t, rv_candidate = local_index n, rv_last_log_index = last_index (rn_log n),
                    rv_last_log_term = last_term (rn_log n), rv_pre_vote = pre\<rparr>"

definition broadcast :: "RaftNode \<Rightarrow> message \<Rightarrow> RaftNode" where
  "broadcast n m = foldl (\<lambda>n p. send n p m CONTROL) n (dkeys (rn_peers n))"

definition campaign :: "Env \<Rightarrow> RaftNode \<Rightarrow> unit act" where
  "campaign env n =
     (let n1 = n\<lparr>rn_role := CANDIDATE, rn_term := rn_term n + 1, rn_installing := [],
                 rn_voted_for := Some (local_index n)\<rparr>
      in and_then (persist_node (en_save env) n1) (\<lambda>n2 _.
           let n3 = reset_election_timer env
                      (n2\<lparr>rn_votes := {local_index n2}, rn_forgotten := {}, rn_leader := None\<rparr>)
           in if won n3 (rn_votes n3) (rn_forgotten n3) then become_leader env n3
              else (broadcast n3 (request_vote n3 (rn_term n3) False), Inr ())))"

definition pre_campaign :: "Env \<Rightarrow> RaftNode \<Rightarrow> unit act" where
  "pre_campaign env n =
     (let n1 = reset_election_timer env
                 (n\<lparr>rn_role := PRE_CANDIDATE, rn_leader := None, rn_pre_votes := {local_index n},
                   rn_pre_refusals := {}, rn_pre_forgotten := {}\<rparr>)
      in if won_pre_vote n1 then campaign env n1
         else (broadcast n1 (request_vote n1 (rn_term n1 + 1) True), Inr ()))"

definition tick :: "Env \<Rightarrow> RaftNode \<Rightarrow> unit act" where
  "tick env n =
     (if rn_role n = LEADER then
        if \<not> quorum_is_answering n (en_now env) then (relinquish env n, Inr ())
        else replicate_all env n
      else if \<not> reaches_a_majority n then (reset_election_timer env n, Inr ())
      else if en_now env < rn_deadline n then (n, Inr ())
      else pre_campaign env n)"

subsection \<open>Voting\<close>

definition answer_pre_vote :: "RaftNode \<Rightarrow> RequestVote \<Rightarrow> RequestVoteReply" where
  "answer_pre_vote n m =
     (let granted = rv_term m > rn_term n \<and>
                    is_at_least_as_current_as (rn_log n) (rv_last_log_index m) (rv_last_log_term m)
      in \<lparr>vr_term = (if granted then rv_term m else rn_term n), vr_granted = granted,
          vr_voting = rn_voting n, vr_pre_vote = True\<rparr>)"

definition vote_reply :: "RaftNode \<Rightarrow> bool \<Rightarrow> RequestVoteReply" where
  "vote_reply n granted =
     \<lparr>vr_term = rn_term n, vr_granted = granted, vr_voting = rn_voting n, vr_pre_vote = False\<rparr>"

definition cast_vote :: "Env \<Rightarrow> SaveOutcome \<Rightarrow> RaftNode \<Rightarrow> RequestVote \<Rightarrow> RequestVoteReply act" where
  "cast_vote env os n m =
     (if rv_term m = rn_term n \<and> (rn_voted_for n = None \<or> rn_voted_for n = Some (rv_candidate m)) \<and>
         is_at_least_as_current_as (rn_log n) (rv_last_log_index m) (rv_last_log_term m)
      then and_then (persist_node os (n\<lparr>rn_voted_for := Some (rv_candidate m)\<rparr>)) (\<lambda>n1 _.
             let n2 = reset_election_timer env n1 in (n2, Inr (vote_reply n2 True)))
      else (n, Inr (vote_reply n False)))"

definition on_request_vote :: "Env \<Rightarrow> RaftNode \<Rightarrow> RequestVote \<Rightarrow> RequestVoteReply act" where
  "on_request_vote env n m =
     (if leader_lease_holds env n
      then (n, Inr \<lparr>vr_term = rn_term n, vr_granted = False, vr_voting = rn_voting n, vr_pre_vote = rv_pre_vote m\<rparr>)
      else if rv_pre_vote m then (n, Inr (answer_pre_vote n m))
      else if rv_term m > rn_term n
      then and_then (step_down (en_save env) n (rv_term m)) (\<lambda>n1 _. cast_vote env (en_save_again env) n1 m)
      else cast_vote env (en_save env) n m)"

subsection \<open>Counting\<close>

definition on_pre_vote_reply :: "Env \<Rightarrow> RaftNode \<Rightarrow> int \<Rightarrow> RequestVoteReply \<Rightarrow> unit act" where
  "on_pre_vote_reply env n peer m =
     (if \<not> vr_granted m \<and> vr_term m > rn_term n then step_down (en_save env) n (vr_term m)
      else if rn_role n \<noteq> PRE_CANDIDATE then (n, Inr ())
      else if vr_granted m \<and> vr_term m = rn_term n + 1 then
        let n1 = n\<lparr>rn_pre_votes := insert peer (rn_pre_votes n),
                   rn_pre_forgotten := (if vr_voting m then rn_pre_forgotten n else insert peer (rn_pre_forgotten n))\<rparr>
        in if won_pre_vote n1 then campaign env n1 else (n1, Inr ())
      else if \<not> vr_granted m then
        let n1 = n\<lparr>rn_pre_refusals := insert peer (rn_pre_refusals n)\<rparr>
        in if pre_vote_is_lost n1
           then (reset_election_timer env (n1\<lparr>rn_role := FOLLOWER, rn_pre_votes := {}, rn_pre_refusals := {}\<rparr>), Inr ())
           else (n1, Inr ())
      else (n, Inr ()))"

definition on_request_vote_reply :: "Env \<Rightarrow> RaftNode \<Rightarrow> int \<Rightarrow> RequestVoteReply \<Rightarrow> unit act" where
  "on_request_vote_reply env n peer m =
     (if vr_pre_vote m then on_pre_vote_reply env n peer m
      else if vr_term m > rn_term n then step_down (en_save env) n (vr_term m)
      else if rn_role n \<noteq> CANDIDATE \<or> vr_term m \<noteq> rn_term n then (n, Inr ())
      else let n1 = n\<lparr>rn_forgotten := (if vr_voting m then rn_forgotten n else insert peer (rn_forgotten n)),
                      rn_votes := (if vr_granted m then insert peer (rn_votes n) else rn_votes n)\<rparr>
           in if won n1 (rn_votes n1) (rn_forgotten n1) then become_leader env n1 else (n1, Inr ()))"

definition on_promote :: "RaftNode \<Rightarrow> Promote \<Rightarrow> RaftNode" where
  "on_promote n m = (if pm_term m < rn_term n then n else n\<lparr>rn_voting := True\<rparr>)"

end
