(* ===== verification/Raft_Replication.thy ===== *)
theory Raft_Replication
  imports Raft_Election
begin

section \<open>Replication\<close>

text \<open>
  The replication handlers of \<open>src/nmos/raft/node.py\<close>: appends and their replies, the commit
  rule, applying, reads, proposals, connections, and the transfer of snapshots.
  \<open>_apply_committed\<close> and \<open>_maybe_compact\<close> yield to other tasks; each is given as the pieces
  between two yields.
\<close>

subsection \<open>Reads\<close>

definition committed_in_current_term :: "RaftNode \<Rightarrow> bool res" where
  "committed_in_current_term n =
     (case term_at (rn_log n) (rn_commit_index n) of
        Inl RaftLogCompacted \<Rightarrow> Inr False
      | Inl e \<Rightarrow> Inl e
      | Inr t \<Rightarrow> Inr (t = rn_term n))"

definition read_confirmed :: "RaftNode \<Rightarrow> ReadRequest \<Rightarrow> bool" where
  "read_confirmed n r \<longleftrightarrow>
     1 + count_peers n (\<lambda>s. \<not> p_catching_up s \<and> p_heard_request s > rd_after r) \<ge> quorum (rn_layout n)"

fun confirm_each :: "RaftNode \<Rightarrow> ReadRequest list \<Rightarrow> RaftNode \<times> ReadRequest list" where
  "confirm_each n [] = (n, [])"
| "confirm_each n (r # rs) =
     (if rn_futures n (rd_future r) \<noteq> None then confirm_each n rs
      else (case rd_index r of
              None \<Rightarrow> (let (n1, ws) = confirm_each n rs in (n1, r # ws))
            | Some i \<Rightarrow>
                if read_confirmed n r then confirm_each (settle (rd_future r) (ReadAt i) n) rs
                else (let (n1, ws) = confirm_each n rs in (n1, r # ws))))"

definition confirm_reads :: "RaftNode \<Rightarrow> RaftNode" where
  "confirm_reads n = (let (n1, waiting) = confirm_each n (rn_reads n) in n1\<lparr>rn_reads := waiting\<rparr>)"

definition arm_read :: "RaftNode \<Rightarrow> ReadRequest \<Rightarrow> ReadRequest" where
  "arm_read n r =
     (if rd_index r = None then r\<lparr>rd_index := Some (rn_commit_index n), rd_after := rn_append_sequence n\<rparr> else r)"

definition arm_reads :: "Env \<Rightarrow> RaftNode \<Rightarrow> unit act" where
  "arm_reads env n =
     (if rn_role n \<noteq> LEADER then (n, Inr ())
      else (case committed_in_current_term n of
              Inl e \<Rightarrow> (n, Inl e)
            | Inr False \<Rightarrow> (n, Inr ())
            | Inr True \<Rightarrow>
                if list_ex (\<lambda>r. rd_index r = None) (rn_reads n)
                then and_then (replicate_all env (n\<lparr>rn_reads := map (arm_read n) (rn_reads n)\<rparr>))
                       (\<lambda>n1 _. (confirm_reads n1, Inr ()))
                else (n, Inr ())))"

text \<open>\<open>_begin_read\<close>: \<open>f\<close> is the future it creates.\<close>

definition begin_read :: "Env \<Rightarrow> RaftNode \<Rightarrow> nat \<Rightarrow> unit act" where
  "begin_read env n f =
     (if size_of (rn_layout n) = 1 then (settle f (ReadAt (rn_commit_index n)) n, Inr ())
      else arm_reads env (n\<lparr>rn_reads := rn_reads n @ [\<lparr>rd_future = f, rd_index = None, rd_after = 0\<rparr>]\<rparr>))"

subsection \<open>The commit rule\<close>

text \<open>The match indexes of the peers that count, highest first.\<close>

definition counted :: "RaftNode \<Rightarrow> int list" where
  "counted n = rev (sort (map (\<lambda>(_, s). p_match_index s) (filter (\<lambda>(_, s). \<not> p_catching_up s) (rn_peers n))))"

definition commit_candidate :: "RaftNode \<Rightarrow> int option" where
  "commit_candidate n =
     (let needed = nat (quorum (rn_layout n) - 1)
      in if length (counted n) < needed then None
         else Some (if needed = 0 then last_index (rn_log n) else counted n ! (needed - 1)))"

definition advance_commit :: "Env \<Rightarrow> RaftNode \<Rightarrow> unit act" where
  "advance_commit env n =
     (case commit_candidate n of
        None \<Rightarrow> (n, Inr ())
      | Some c \<Rightarrow>
          if c \<le> rn_commit_index n then (n, Inr ())
          else (case term_at (rn_log n) c of
                  Inl RaftLogCompacted \<Rightarrow> (n, Inr ())
                | Inl e \<Rightarrow> (n, Inl e)
                | Inr t \<Rightarrow>
                    if t \<noteq> rn_term n then (n, Inr ())
                    else and_then (replicate_all env (n\<lparr>rn_commit_index := c\<rparr>)) (\<lambda>n1 _. arm_reads env n1)))"

subsection \<open>Appends, at the follower\<close>

definition append_reply :: "RaftNode \<Rightarrow> bool \<Rightarrow> int \<Rightarrow> int \<Rightarrow> int \<Rightarrow> int \<Rightarrow> AppendEntriesReply" where
  "append_reply n ok match ci ct rid =
     \<lparr>ar_term = rn_term n, ar_success = ok, ar_match_index = match, ar_conflict_index = ci, ar_conflict_term = ct,
      ar_catching_up = (\<not> rn_voting n), ar_request_id = rid\<rparr>"

definition refusal :: "RaftNode \<Rightarrow> AppendEntries \<Rightarrow> AppendEntriesReply" where
  "refusal n m = append_reply n False 0 0 0 (ae_request_id m)"

definition append_reject :: "RaftNode \<Rightarrow> AppendEntriesReply" where
  "append_reject n = append_reply n False 0 0 0 0"

text \<open>The loop over the anchor and the entries: does one contradict an entry committed here?\<close>

fun contradicts :: "RegistryOperation RaftLog \<Rightarrow> int \<Rightarrow> (int \<times> int) list \<Rightarrow> bool res" where
  "contradicts lg limit [] = Inr False"
| "contradicts lg limit ((i, t) # claims) =
     (if snapshot_index lg \<le> i \<and> i \<le> limit
      then bind_res (term_at lg i) (\<lambda>held. if held \<noteq> t then Inr True else contradicts lg limit claims)
      else contradicts lg limit claims)"

definition contradicting_committed :: "RaftNode \<Rightarrow> AppendEntries \<Rightarrow> bool res" where
  "contradicting_committed n m =
     contradicts (rn_log n) (min (rn_commit_index n) (last_index (rn_log n)))
       ((ae_prev_log_index m, ae_prev_log_term m) # map (\<lambda>w. (we_index w, we_term w)) (ae_entries m))"

fun decode_entries :: "WireEntry list \<Rightarrow> RegistryOperation Entry list res" where
  "decode_entries [] = Inr []"
| "decode_entries (w # ws) =
     bind_res (decode_operation (we_payload w)) (\<lambda>op.
     bind_res (decode_entries ws) (\<lambda>es.
       Inr (\<lparr>e_term = we_term w, e_index = we_index w, e_payload = we_payload w, e_value = op\<rparr> # es)))"

text \<open>The end of the handler: the commit index moves as far as the leader vouched, and the reply says so.\<close>

definition accept_append :: "RaftNode \<Rightarrow> AppendEntries \<Rightarrow> RaftNode \<times> AppendEntriesReply" where
  "accept_append n m =
     (let vouched_for = ae_prev_log_index m + int (length (ae_entries m));
          advanced = min (ae_leader_commit m) vouched_for;
          n1 = (if advanced > rn_commit_index n then n\<lparr>rn_commit_index := advanced\<rparr> else n)
      in (n1, append_reply n1 True vouched_for 0 0 (ae_request_id m)))"

definition store_entries :: "Env \<Rightarrow> RaftNode \<Rightarrow> AppendEntries \<Rightarrow> AppendEntriesReply act" where
  "store_entries env n m =
     (if ae_entries m = [] then (let (n1, r) = accept_append n m in (n1, Inr r))
      else (case decode_entries (ae_entries m) of
              Inl RaftProtocolError \<Rightarrow> (n, Inr (refusal n m))
            | Inl e \<Rightarrow> (n, Inl e)
            | Inr es \<Rightarrow>
                (case append_replicated (rn_log n) es (rn_commit_index n) of
                   (lg, None) \<Rightarrow> (let (n1, r) = accept_append (n\<lparr>rn_log := lg\<rparr>) m in (n1, Inr r))
                 | (lg, Some ValueError) \<Rightarrow> (n\<lparr>rn_log := lg\<rparr>, Inr (refusal (n\<lparr>rn_log := lg\<rparr>) m))
                 | (lg, Some RaftInvariantViolated) \<Rightarrow>
                     (let n1 = fail_node env (n\<lparr>rn_log := lg\<rparr>) RaftInvariantViolated in (n1, Inr (append_reject n1)))
                 | (lg, Some e) \<Rightarrow> (n\<lparr>rn_log := lg\<rparr>, Inl e))))"

definition follow_append :: "Env \<Rightarrow> RaftNode \<Rightarrow> AppendEntries \<Rightarrow> AppendEntriesReply act" where
  "follow_append env n m =
     (case contradicting_committed n m of
        Inl e \<Rightarrow> (n, Inl e)
      | Inr True \<Rightarrow> (let n1 = fail_node env n RaftInvariantViolated in (n1, Inr (append_reject n1)))
      | Inr False \<Rightarrow>
          if ae_prev_log_index m < rn_commit_index n
          then (n, Inr (append_reply n True (rn_commit_index n) 0 0 (ae_request_id m)))
          else (case log_matches (rn_log n) (ae_prev_log_index m) (ae_prev_log_term m) of
                  Inl e \<Rightarrow> (n, Inl e)
                | Inr False \<Rightarrow>
                    (case find_conflict (rn_log n) (ae_prev_log_index m) (ae_prev_log_term m) of
                       Inl e \<Rightarrow> (n, Inl e)
                     | Inr (ci, ct) \<Rightarrow> (n, Inr (append_reply n False 0 ci ct (ae_request_id m))))
                | Inr True \<Rightarrow> store_entries env n m))"

definition heed_leader :: "Env \<Rightarrow> RaftNode \<Rightarrow> int \<Rightarrow> RaftNode" where
  "heed_leader env n l = reset_election_timer env (n\<lparr>rn_role := FOLLOWER, rn_leader := Some l\<rparr>)"

definition on_append_entries :: "Env \<Rightarrow> RaftNode \<Rightarrow> AppendEntries \<Rightarrow> AppendEntriesReply act" where
  "on_append_entries env n m =
     (if ae_term m < rn_term n then (n, Inr (append_reject n))
      else and_then (if ae_term m > rn_term n then step_down (en_save env) n (ae_term m) else (n, Inr ()))
             (\<lambda>n1 _. follow_append env ((heed_leader env n1 (ae_leader m))\<lparr>rn_heard_from_leader_at := en_now env\<rparr>) m))"

subsection \<open>Appends, at the leader\<close>

definition should_send_now :: "RaftNode \<Rightarrow> PeerState \<Rightarrow> bool" where
  "should_send_now n s \<longleftrightarrow>
     p_pending_request s = 0 \<and>
     (p_next_index s \<le> last_index (rn_log n) \<or>
      (rn_commit_index n > p_sent_commit s \<and> p_sent_commit s < p_next_index s - 1))"

text \<open>What a reply in force says of the peer itself, before it says anything of its log.\<close>

definition note_reply :: "Env \<Rightarrow> RaftNode \<Rightarrow> int \<Rightarrow> AppendEntriesReply \<Rightarrow> RaftNode" where
  "note_reply env n peer m =
     (let s = peer_state n peer;
          s1 = (if ar_request_id m \<noteq> 0 \<and> ar_request_id m = p_pending_request s then s\<lparr>p_pending_request := 0\<rparr> else s);
          s2 = s1\<lparr>p_last_heard_at := en_now env, p_catching_up := ar_catching_up m\<rparr>;
          s3 = (if ar_catching_up m \<and> \<not> p_catching_up s then s2\<lparr>p_promote_through := last_index (rn_log n)\<rparr> else s2);
          s4 = (if ar_catching_up m then s3 else s3\<lparr>p_heard_request := max (p_heard_request s3) (ar_request_id m)\<rparr>)
      in confirm_reads (set_peer n peer s4))"

definition rejected_append :: "Env \<Rightarrow> RaftNode \<Rightarrow> int \<Rightarrow> AppendEntriesReply \<Rightarrow> unit act" where
  "rejected_append env n peer m =
     (let s = peer_state n peer; resume_at = max 1 (ar_conflict_index m)
      in if ar_conflict_index m \<le> p_match_index s then (n, Inr ())
         else if resume_at \<ge> p_next_index s then (n, Inr ())
         else send_append env (set_peer n peer (s\<lparr>p_next_index := resume_at,
                p_sent_commit := min (p_sent_commit s) (resume_at - 1)\<rparr>)) peer)"

definition promote_if_caught_up :: "RaftNode \<Rightarrow> int \<Rightarrow> RaftNode" where
  "promote_if_caught_up n peer =
     (let s = peer_state n peer
      in if p_catching_up s \<and> p_match_index s \<ge> p_promote_through s
         then send (set_peer n peer (s\<lparr>p_catching_up := False\<rparr>)) peer
                (MPromote \<lparr>pm_term = rn_term n, pm_leader = local_index n, pm_through_index = p_promote_through s\<rparr>) CONTROL
         else n)"

definition accepted_append :: "Env \<Rightarrow> RaftNode \<Rightarrow> int \<Rightarrow> AppendEntriesReply \<Rightarrow> bool \<Rightarrow> unit act" where
  "accepted_append env n peer m answered =
     (let s = peer_state n peer;
          vouched = min (ar_match_index m) (last_index (rn_log n));
          advanced = vouched > p_match_index s;
          s1 = (if advanced then s\<lparr>p_match_index := vouched\<rparr> else s);
          s2 = s1\<lparr>p_next_index := max (p_next_index s1) (p_match_index s1 + 1)\<rparr>;
          n1 = promote_if_caught_up (set_peer n peer s2) peer
      in if \<not> advanced \<and> \<not> answered then (n1, Inr ())
         else and_then (advance_commit env n1) (\<lambda>n2 _.
                if rn_commit_index n2 = rn_commit_index n1 \<and> should_send_now n2 (peer_state n2 peer)
                then send_append env n2 peer else (n2, Inr ())))"

definition on_append_entries_reply :: "Env \<Rightarrow> RaftNode \<Rightarrow> int \<Rightarrow> AppendEntriesReply \<Rightarrow> unit act" where
  "on_append_entries_reply env n peer m =
     (if ar_term m > rn_term n then step_down (en_save env) n (ar_term m)
      else if rn_role n \<noteq> LEADER \<or> ar_term m \<noteq> rn_term n then (n, Inr ())
      else (case dget (rn_peers n) peer of
              None \<Rightarrow> (n, Inr ())
            | Some s \<Rightarrow>
                if ar_request_id m \<le> p_reply_floor s then (n, Inr ())
                else let n1 = note_reply env n peer m
                     in if \<not> ar_success m then rejected_append env n1 peer m
                        else accepted_append env n1 peer m
                               (ar_request_id m \<noteq> 0 \<and> ar_request_id m = p_pending_request s)))"
subsection \<open>Applying\<close>

definition check_applied_within_committed :: "RaftNode \<Rightarrow> unit res" where
  "check_applied_within_committed n =
     (if ma_last_applied (rn_machine n) > rn_commit_index n then Inl RaftInvariantViolated
      else if rn_commit_index n > max (last_index (rn_log n)) (snapshot_index (rn_log n)) then Inl RaftInvariantViolated
      else Inr ())"

fun resolve :: "RaftNode \<Rightarrow> (ProposalId, Outcome) pydict \<Rightarrow> RaftNode" where
  "resolve n [] = n"
| "resolve n ((p, v) # outs) =
     resolve (case dget (rn_waiters n) p of
                None \<Rightarrow> n
              | Some f \<Rightarrow> settle f (Answered v) (n\<lparr>rn_waiters := dpop p (rn_waiters n)\<rparr>)) outs"

text \<open>\<open>RevisionFence.advance\<close> and \<open>reset\<close> of \<open>src/nmos/registry/fence.py\<close>.\<close>

definition fence_advance :: "int \<Rightarrow> RaftNode \<Rightarrow> RaftNode" where
  "fence_advance i n = (if i \<le> rn_fence n then n else n\<lparr>rn_fence := i\<rparr>)"

definition fence_reset :: "int \<Rightarrow> RaftNode \<Rightarrow> RaftNode" where
  "fence_reset i n = n\<lparr>rn_fence := i\<rparr>"

text \<open>
  One round of the loop in \<open>_apply_committed\<close>, up to its yield; \<open>False\<close> when the loop ends
  without reaching compaction. \<open>clock\<close> is what \<open>store.delete\<close> reads.
\<close>

definition apply_batch :: "Env \<Rightarrow> (int \<Rightarrow> pystr \<Rightarrow> int) \<Rightarrow> RaftNode \<Rightarrow> bool act" where
  "apply_batch env clock n =
     (let start = ma_last_applied (rn_machine n) + 1;
          wanted = min (tm_max_apply_batch (rn_timing n)) (rn_commit_index n - start + 1)
      in if rn_commit_index n < start then (n, Inr True)
         else (case slice (rn_log n) start wanted of
                 Inl RaftLogCompacted \<Rightarrow> (n, Inr False)
               | Inl e \<Rightarrow> (n, Inl e)
               | Inr [] \<Rightarrow> (n, Inr False)
               | Inr es \<Rightarrow>
                   (case apply_entries (en_loads env) clock (rn_machine n) es of
                      Inl e \<Rightarrow> (n, Inl e)
                    | Inr (m, outs, _) \<Rightarrow>
                        (fence_advance (ma_last_applied m) (resolve (n\<lparr>rn_machine := m\<rparr>) outs), Inr True))))"

subsection \<open>Proposals\<close>

definition rebind :: "RegistryOperation \<Rightarrow> ProposalId \<Rightarrow> RegistryOperation" where
  "rebind op p =
     (case op of
        NoopOp _ \<Rightarrow> NoopOp p
      | RegisterOp _ rt i n b c u h x w \<Rightarrow> RegisterOp p rt i n b c u h x w
      | UnregisterOp _ rt i \<Rightarrow> UnregisterOp p rt i
      | ExpireOp _ n \<Rightarrow> ExpireOp p n
      | ForgetOp _ vs \<Rightarrow> ForgetOp p vs
      | ClaimOwnershipOp _ n w \<Rightarrow> ClaimOwnershipOp p n w
      | ReleaseOwnershipOp _ n \<Rightarrow> ReleaseOwnershipOp p n
      | MemberDownOp _ k \<Rightarrow> MemberDownOp p k)"

definition wait_for :: "ProposalId \<Rightarrow> nat \<Rightarrow> RaftNode \<Rightarrow> RaftNode" where
  "wait_for p f n = n\<lparr>rn_waiters := dset p f (rn_waiters n)\<rparr>"

text \<open>The loop that stamps a batch: one proposal id and one waiter per operation.\<close>

fun stamp_batch :: "RaftNode \<Rightarrow> (RegistryOperation \<times> nat) list \<Rightarrow> RaftNode \<times> RegistryOperation list" where
  "stamp_batch n [] = (n, [])"
| "stamp_batch n ((op, f) # items) =
     (let (n1, p) = next_proposal n; (n2, ops) = stamp_batch (wait_for p f n1) items in (n2, rebind op p # ops))"

text \<open>The follower's loop encodes as it stamps, so a bad operation stops it midway.\<close>

fun stamp_and_encode :: "RaftNode \<Rightarrow> (RegistryOperation \<times> nat) list \<Rightarrow> bytes list act" where
  "stamp_and_encode n [] = (n, Inr [])"
| "stamp_and_encode n ((op, f) # items) =
     (let (n1, p) = next_proposal n; n2 = wait_for p f n1
      in case encode_operation (rebind op p) of
           Inl e \<Rightarrow> (n2, Inl e)
         | Inr b \<Rightarrow> and_then (stamp_and_encode n2 items) (\<lambda>n3 bs. (n3, Inr (b # bs))))"

fun split_loop :: "int \<Rightarrow> bytes list \<Rightarrow> bytes list \<Rightarrow> int \<Rightarrow> bytes list list" where
  "split_loop max_bytes [] current tot = (if current = [] then [] else [current])"
| "split_loop max_bytes (p # ps) current tot =
     (if current \<noteq> [] \<and> tot + int (length p) > max_bytes
      then current # split_loop max_bytes ps [p] (int (length p))
      else split_loop max_bytes ps (current @ [p]) (tot + int (length p)))"

definition split_by_bytes :: "bytes list \<Rightarrow> int \<Rightarrow> bytes list list" where
  "split_by_bytes payloads max_bytes = split_loop max_bytes payloads [] 0"

definition drain :: "Env \<Rightarrow> RaftNode \<Rightarrow> (RegistryOperation \<times> nat) list \<Rightarrow> unit act" where
  "drain env n batch =
     (if rn_role n = LEADER then
        let (n1, ops) = stamp_batch n batch
        in and_then (append_local n1 ops) (\<lambda>n2 _.
           and_then (replicate_all env n2) (\<lambda>n3 _.
             if rn_peers n3 = [] then advance_commit env n3 else (n3, Inr ())))
      else (case rn_leader n of
              None \<Rightarrow> (foldl (\<lambda>n (_, f). settle f Unavailable n) n batch, Inr ())
            | Some l \<Rightarrow>
                and_then (stamp_and_encode n batch) (\<lambda>n1 bs.
                  (foldl (\<lambda>n g. send n l (MPropose \<lparr>pp_request_id = 0, pp_proposals = g\<rparr>) CONTROL) n1
                     (split_by_bytes bs (tm_max_append_bytes (rn_timing n1))), Inr ()))))"

text \<open>\<open>propose\<close>: \<open>ProposalBatcher.submit\<close>, which drains a full batch at once, and \<open>_flush\<close>.\<close>

definition max_batch :: nat where "max_batch = 1024"

definition flush :: "Env \<Rightarrow> RaftNode \<Rightarrow> unit act" where
  "flush env n = (if rn_pending n = [] then (n, Inr ()) else drain env (n\<lparr>rn_pending := []\<rparr>) (rn_pending n))"

definition propose :: "Env \<Rightarrow> RaftNode \<Rightarrow> RegistryOperation \<Rightarrow> nat \<Rightarrow> unit act" where
  "propose env n op f =
     (let n1 = n\<lparr>rn_pending := rn_pending n @ [(op, f)]\<rparr>
      in if length (rn_pending n1) \<ge> max_batch then flush env n1 else (n1, Inr ()))"

fun decode_all :: "bytes list \<Rightarrow> RegistryOperation list res" where
  "decode_all [] = Inr []"
| "decode_all (b # bs) = bind_res (decode_operation b) (\<lambda>op. bind_res (decode_all bs) (\<lambda>ops. Inr (op # ops)))"

definition on_propose :: "Env \<Rightarrow> RaftNode \<Rightarrow> Propose \<Rightarrow> ProposeReply act" where
  "on_propose env n m =
     (let reply = (\<lambda>n acc why first led. \<lparr>pq_accepted = acc, pq_reason = why, pq_term = rn_term n,
                     pq_first_index = first, pq_request_id = pp_request_id m, pq_leader = led\<rparr>)
      in if rn_role n \<noteq> LEADER then (n, Inr (reply n False (str ''not the leader'') 0 (rn_leader n)))
         else (case decode_all (pp_proposals m) of
                 Inl e \<Rightarrow> (n, Inl e)
               | Inr [] \<Rightarrow> (n, Inr (reply n True [] 0 (Some (local_index n))))
               | Inr ops \<Rightarrow>
                   and_then (append_local n ops) (\<lambda>n1 (first, _).
                   and_then (replicate_all env n1) (\<lambda>n2 _.
                   and_then (if rn_peers n2 = [] then advance_commit env n2 else (n2, Inr ())) (\<lambda>n3 _.
                     (n3, Inr (reply n3 True [] first (Some (local_index n3)))))))))"

subsection \<open>Connections\<close>

definition on_peer_state :: "Env \<Rightarrow> RaftNode \<Rightarrow> int \<Rightarrow> bool \<Rightarrow> int \<Rightarrow> unit act" where
  "on_peer_state env n peer up inc =
     (case dget (rn_peers n) peer of
        None \<Rightarrow> (n, Inr ())
      | Some s \<Rightarrow>
          if up then
            let s1 = s\<lparr>p_up := True, p_incarnation := inc\<rparr>
            in if rn_role n = LEADER
               then send_append env (set_peer n peer (s1\<lparr>p_match_index := 0, p_next_index := last_index (rn_log n) + 1,
                      p_reply_floor := rn_append_sequence n, p_snapshot_request := 0, p_pending_request := 0,
                      p_snapshot_offset := 0, p_sending := None, p_sent_commit := 0\<rparr>)) peer
               else (set_peer n peer s1, Inr ())
          else ((set_peer n peer (s\<lparr>p_up := False, p_catching_up := False\<rparr>))\<lparr>rn_installing := dpop peer (rn_installing n)\<rparr>,
                Inr ()))"

subsection \<open>Compaction\<close>

text \<open>\<open>_maybe_compact\<close> up to the yield in \<open>finish\<close>: the index, its term and the discard bound it pinned.\<close>

definition compact_begin :: "RaftNode \<Rightarrow> (int \<times> int \<times> int) option act" where
  "compact_begin n =
     (let applied = ma_last_applied (rn_machine n); held = applied - first_index (rn_log n) + 1;
          confirmed = map (\<lambda>(_, s). p_match_index s) (filter (\<lambda>(_, s). p_up s) (rn_peers n));
          discard_to = (if rn_role n = LEADER \<and> held < tm_max_log_entries (rn_timing n) \<and> confirmed \<noteq> []
                        then min applied (Min (set confirmed)) else applied)
      in if ma_snapshots (rn_machine n) = None then (n, Inr None)
         else if held < tm_compaction_threshold (rn_timing n) then (n, Inr None)
         else if open_capture (rn_machine n) \<noteq> None then (n, Inr None)
         else if applied \<le> snapshot_index (rn_log n) then (n, Inr None)
         else (case term_at (rn_log n) applied of
                 Inl RaftLogCompacted \<Rightarrow> (n, Inr None)
               | Inl e \<Rightarrow> (n, Inl e)
               | Inr t \<Rightarrow>
                   (case begin_capture (open_capture (rn_machine n)) applied t (ma_ownership (rn_machine n)) of
                      Inl e \<Rightarrow> (n, Inl e)
                    | Inr c \<Rightarrow> (n\<lparr>rn_machine := set_capture (rn_machine n) c\<rparr>, Inr (Some (applied, t, discard_to))))))"

text \<open>What follows once \<open>finish\<close> has returned the payload and closed the capture.\<close>

definition compact_end :: "RaftNode \<Rightarrow> int \<times> int \<times> int \<Rightarrow> bytes \<Rightarrow> unit act" where
  "compact_end n pinned payload =
     (let (applied, t, discard_to) = pinned;
          n1 = n\<lparr>rn_machine := (rn_machine n)\<lparr>ma_snapshots := Some None\<rparr>, rn_snapshot := payload,
                 rn_snapshot_meta := Some \<lparr>sm_last_index = applied, sm_last_term = t, sm_resources = 0\<rparr>\<rparr>
      in if discard_to \<le> snapshot_index (rn_log n1) then (n1, Inr ())
         else (case term_at (rn_log n1) discard_to of
                 Inl RaftLogCompacted \<Rightarrow> (n1, Inr ())
               | Inl e \<Rightarrow> (n1, Inl e)
               | Inr dt \<Rightarrow>
                   (case discard_through (rn_log n1) discard_to dt of
                      Inl e \<Rightarrow> (n1, Inl e)
                    | Inr (lg, _) \<Rightarrow> (n1\<lparr>rn_log := lg\<rparr>, Inr ()))))"

subsection \<open>Snapshot transfer\<close>

definition snapshot_answer :: "RaftNode \<Rightarrow> InstallSnapshot \<Rightarrow> int \<Rightarrow> bool \<Rightarrow> InstallSnapshotReply" where
  "snapshot_answer n m received finished =
     \<lparr>ir_term = rn_term n, ir_bytes_received = received, ir_done = finished, ir_commit_index = rn_commit_index n,
      ir_request_id = is_request_id m\<rparr>"

definition cannot_be_real :: "SnapshotMeta \<Rightarrow> int \<Rightarrow> int \<times> int \<Rightarrow> bool" where
  "cannot_be_real meta sender_term sent_as \<longleftrightarrow>
     (sm_last_index meta, sm_last_term meta) \<noteq> sent_as \<or> sm_last_term meta > sender_term"

text \<open>A complete buffer: decoded, built into a fresh store, checked and swapped in.\<close>

definition install_buffer :: "Env \<Rightarrow> RaftNode \<Rightarrow> int \<Rightarrow> InstallSnapshot \<Rightarrow> bytes \<Rightarrow> RaftNode \<times> InstallSnapshotReply" where
  "install_buffer env n peer m buffer =
     (let drop_it = n\<lparr>rn_installing := dpop peer (rn_installing n)\<rparr>;
          (gc, fi) = store_intervals (rn_machine n)
      in case bind_res (decode_snapshot buffer) (\<lambda>(meta, own, records).
              bind_res (install (en_loads env) (en_health env) (en_cursor env) records gc fi) (\<lambda>st. Inr (meta, own, st))) of
           Inl _ \<Rightarrow> (drop_it, snapshot_answer drop_it m 0 False)
         | Inr (meta, own, st) \<Rightarrow>
             if cannot_be_real meta (is_term m) (is_last_index m, is_last_term m)
             then (drop_it, snapshot_answer drop_it m 0 False)
             else let n1 = fence_reset (sm_last_index meta)
                        (drop_it\<lparr>rn_machine := install_snapshot (rn_machine n) st own (sm_last_index meta),
                          rn_log := reset_to_snapshot (rn_log n) (sm_last_index meta) (sm_last_term meta),
                          rn_snapshot := buffer, rn_snapshot_meta := Some meta,
                          rn_commit_index := max (rn_commit_index n) (sm_last_index meta)\<rparr>)
                  in (n1, snapshot_answer n1 m (int (length buffer)) True))"

definition receive_chunk :: "Env \<Rightarrow> RaftNode \<Rightarrow> int \<Rightarrow> InstallSnapshot \<Rightarrow> RaftNode \<times> InstallSnapshotReply" where
  "receive_chunk env n peer m =
     (let identity = (is_term m, is_leader m, is_last_index m, is_last_term m);
          held = dget (rn_installing n) peer;
          extend = (\<lambda>n (a :: Assembly).
            let a1 = a\<lparr>as_data := as_data a @ is_data m\<rparr>; n1 = n\<lparr>rn_installing := dset peer a1 (rn_installing n)\<rparr>
            in if is_done m then install_buffer env n1 peer m (as_data a1)
               else (n1, snapshot_answer n1 m (int (length (as_data a1))) False));
          restart = n\<lparr>rn_installing := dpop peer (rn_installing n)\<rparr>
      in if is_offset m = 0 then extend n \<lparr>as_identity = identity, as_data = []\<rparr>
         else (case held of
                 None \<Rightarrow> (restart, snapshot_answer restart m 0 False)
               | Some a \<Rightarrow>
                   if as_identity a = identity \<and> holds_chunk (as_data a) (is_offset m) (is_data m)
                   then (n, snapshot_answer n m (int (length (as_data a))) False)
                   else if as_identity a \<noteq> identity \<or> is_offset m \<noteq> int (length (as_data a))
                   then (restart, snapshot_answer restart m 0 False)
                   else extend n a))"

definition follow_snapshot :: "Env \<Rightarrow> RaftNode \<Rightarrow> int \<Rightarrow> InstallSnapshot \<Rightarrow> InstallSnapshotReply act" where
  "follow_snapshot env n peer m =
     (let forget_it = n\<lparr>rn_installing := dpop peer (rn_installing n)\<rparr>;
          contradiction = (if snapshot_index (rn_log n) \<le> is_last_index m \<and> is_last_index m \<le> rn_commit_index n
                           then bind_res (term_at (rn_log n) (is_last_index m)) (\<lambda>held. Inr (held \<noteq> is_last_term m))
                           else Inr False)
      in case contradiction of
           Inl e \<Rightarrow> (n, Inl e)
         | Inr True \<Rightarrow>
             (let n1 = fail_node env forget_it RaftInvariantViolated
              in (n1, Inr \<lparr>ir_term = rn_term n1, ir_bytes_received = 0, ir_done = False, ir_commit_index = 0, ir_request_id = 0\<rparr>))
         | Inr False \<Rightarrow>
             if is_last_index m \<le> rn_commit_index n then (forget_it, Inr (snapshot_answer forget_it m 0 False))
             else (let (n1, r) = receive_chunk env n peer m in (n1, Inr r)))"

definition on_install_snapshot :: "Env \<Rightarrow> RaftNode \<Rightarrow> int \<Rightarrow> InstallSnapshot \<Rightarrow> InstallSnapshotReply act" where
  "on_install_snapshot env n peer m =
     (if is_term m < rn_term n then (n, Inr (snapshot_answer n m 0 False))
      else and_then (if is_term m > rn_term n then step_down (en_save env) n (is_term m) else (n, Inr ()))
             (\<lambda>n1 _. follow_snapshot env (heed_leader env n1 (is_leader m)) peer m))"

definition on_install_snapshot_reply :: "Env \<Rightarrow> RaftNode \<Rightarrow> int \<Rightarrow> InstallSnapshotReply \<Rightarrow> unit act" where
  "on_install_snapshot_reply env n peer m =
     (if ir_term m > rn_term n then step_down (en_save env) n (ir_term m)
      else if rn_role n \<noteq> LEADER \<or> ir_term m \<noteq> rn_term n then (n, Inr ())
      else (case dget (rn_peers n) peer of
              None \<Rightarrow> (n, Inr ())
            | Some s \<Rightarrow>
                if ir_request_id m \<le> p_reply_floor s then (n, Inr ())
                else let s1 = s\<lparr>p_last_heard_at := en_now env\<rparr>;
                         credited = min (ir_commit_index m) (last_index (rn_log n));
                         s2 = (if credited > p_match_index s1
                               then s1\<lparr>p_match_index := credited, p_next_index := max (p_next_index s1) (credited + 1)\<rparr> else s1)
                     in if ir_request_id m \<noteq> p_snapshot_request s2 then (set_peer n peer s2, Inr ())
                        else let s3 = s2\<lparr>p_snapshot_request := 0\<rparr>
                             in if ir_done m \<or> (case p_sending s3 of None \<Rightarrow> False
                                                | Some (meta, _) \<Rightarrow> ir_commit_index m \<ge> sm_last_index meta)
                                then send_append env (set_peer n peer (s3\<lparr>p_sending := None, p_snapshot_offset := 0,
                                       p_next_index := p_match_index s3 + 1\<rparr>)) peer
                                else if ir_bytes_received m = 0
                                then (set_peer n peer (s3\<lparr>p_sending := None, p_snapshot_offset := 0\<rparr>), Inr ())
                                else (send_snapshot env (set_peer n peer (s3\<lparr>p_snapshot_offset := ir_bytes_received m\<rparr>)) peer, Inr ())))"

end
