(* ===== verification/Quorum.thy ===== *)
theory Quorum
  imports Raft_State
begin

section \<open>Quorums\<close>

text \<open>
  Why two elections of one term cannot both succeed: quorums of one cluster share a member,
  and a member votes once. The interface asks only that a quorum is more than half of a finite
  set of members; \<open>RaftLayout.quorum\<close> of \<open>src/nmos/raft/cluster.py\<close> provides it.
\<close>

locale quorum_system =
  fixes members :: "'m set" and q :: nat
  assumes finite_members: "finite members" and majority: "card members < 2 * q"
begin

lemma quorums_meet:
  assumes "A \<subseteq> members" "B \<subseteq> members" "q \<le> card A" "q \<le> card B"
  shows "A \<inter> B \<noteq> {}"
proof
  assume "A \<inter> B = {}"
  then have "card (A \<union> B) = card A + card B"
    using assms(1,2) finite_members by (intro card_Un_disjoint) (auto dest: finite_subset)
  moreover have "card (A \<union> B) \<le> card members"
    using assms(1,2) finite_members by (intro card_mono) auto
  ultimately show False using assms(3,4) majority by linarith
qed

lemma one_winner:
  assumes "A \<subseteq> members" "B \<subseteq> members" "q \<le> card A" "q \<le> card B"
    and "\<forall>v \<in> A. ballot v c" "\<forall>v \<in> B. ballot v d" "\<And>v c d. ballot v c \<Longrightarrow> ballot v d \<Longrightarrow> c = d"
  shows "c = d"
  using quorums_meet [OF assms(1-4)] assms(5-7) by blast

end

lemma quorum_positive: "0 < quorum ly"
  by (simp add: quorum_def size_of_def)

interpretation majority: quorum_system "member_indexes ly" "nat (quorum ly)" for ly
proof unfold_locales
  show "finite (member_indexes ly)" by (simp add: member_indexes_def)
  have "card (member_indexes ly) \<le> length (ly_members ly)"
    unfolding member_indexes_def by (metis card_image_le card_length finite_set le_trans)
  also have "length (ly_members ly) < 2 * nat (quorum ly)"
    by (simp add: quorum_def size_of_def nat_add_distrib zdiv_int) 
  finally show "card (member_indexes ly) < 2 * nat (quorum ly)" .
qed

end
