(* ===== verification/Election_Safety.thy ===== *)
theory Election_Safety
  imports Raft_Replication Quorum
begin

section \<open>At most one leader per term\<close>

text \<open>
  The election argument, over the handlers themselves. A ballot is a term with the candidate
  voted for in it; ballots only ever grow, in memory and on disk, and the disk never runs
  ahead of memory. Handlers that do not concern elections are \<open>calm\<close>: they leave the ballot,
  the disk, the role and the counted votes alone, and send no vote.
\<close>

subsection \<open>Calm handlers\<close>

definition same_ballots :: "RaftNode \<Rightarrow> RaftNode \<Rightarrow> bool" where
  "same_ballots n n' \<longleftrightarrow> rn_layout n' = rn_layout n \<and> rn_term n' = rn_term n \<and> rn_voted_for n' = rn_voted_for n \<and>
     rn_role n' = rn_role n \<and> rn_votes n' = rn_votes n \<and> rn_terms n' = rn_terms n"

definition is_vote :: "message \<Rightarrow> bool" where
  "is_vote m \<longleftrightarrow> (case m of MRequestVoteReply r \<Rightarrow> True | MRequestVote r \<Rightarrow> True | _ \<Rightarrow> False)"

definition calm :: "RaftNode \<Rightarrow> RaftNode \<Rightarrow> bool" where
  "calm n n' \<longleftrightarrow> same_ballots n n' \<and> (\<exists>xs. rn_outbox n' = rn_outbox n @ xs \<and> (\<forall>(p, m, s) \<in> set xs. \<not> is_vote m))"

lemma same_ballots_refl [simp]: "same_ballots n n"
  by (simp add: same_ballots_def)

lemma calm_refl [simp, intro]: "calm n n"
  by (simp add: calm_def)

lemma calm_trans [trans]:
  assumes "calm n n1" "calm n1 n2"
  shows "calm n n2"
proof -
  obtain xs ys where "rn_outbox n1 = rn_outbox n @ xs" "\<forall>(p, m, s) \<in> set xs. \<not> is_vote m"
      "rn_outbox n2 = rn_outbox n1 @ ys" "\<forall>(p, m, s) \<in> set ys. \<not> is_vote m"
    using assms by (auto simp: calm_def)
  then have "rn_outbox n2 = rn_outbox n @ (xs @ ys) \<and> (\<forall>(p, m, s) \<in> set (xs @ ys). \<not> is_vote m)" by auto
  moreover have "same_ballots n n2" using assms by (auto simp: calm_def same_ballots_def)
  ultimately show ?thesis unfolding calm_def by blast
qed

text \<open>An update of other fields is calm; so is sending anything but a vote.\<close>

lemma calmI: "same_ballots n n' \<Longrightarrow> rn_outbox n' = rn_outbox n \<Longrightarrow> calm n n'"
  by (simp add: calm_def)

lemma calm_send: "\<not> is_vote m \<Longrightarrow> calm n (send n p m s)"
  by (auto simp: calm_def send_def same_ballots_def)

named_theorems calm_intros \<open>functions that leave the election alone\<close>

lemma calm_send_after: "calm n n1 \<Longrightarrow> \<not> is_vote m \<Longrightarrow> calm n (send n1 p m s)"
  using calm_trans calm_send by blast

lemma calm_set_peer [calm_intros]: "calm n (set_peer n p s)"
  by (rule calmI) (simp_all add: set_peer_def same_ballots_def)

lemma calm_update [calm_intros]:
  "calm n (n\<lparr>rn_append_sequence := a\<rparr>)" "calm n (n\<lparr>rn_reads := b\<rparr>)" "calm n (n\<lparr>rn_deadline := c\<rparr>)"
  "calm n (n\<lparr>rn_log := d\<rparr>)" "calm n (n\<lparr>rn_installing := e\<rparr>)" "calm n (n\<lparr>rn_machine := f\<rparr>)"
  "calm n (n\<lparr>rn_commit_index := g\<rparr>)" "calm n (n\<lparr>rn_pending := h\<rparr>)" "calm n (n\<lparr>rn_waiters := i\<rparr>)"
  "calm n (n\<lparr>rn_sequence := j\<rparr>)" "calm n (n\<lparr>rn_futures := k\<rparr>)" "calm n (n\<lparr>rn_voting := l\<rparr>)" "calm n (n\<lparr>rn_fence := q\<rparr>)"
  by (rule calmI; simp add: same_ballots_def)+

lemma calm_and_then:
  assumes "calm n (fst r)" and "\<And>n1 x. r = (n1, Inr x) \<Longrightarrow> calm n1 (fst (f n1 x))"
  shows "calm n (fst (and_then r f))"
proof (cases r)
  case (Pair n1 y)
  then show ?thesis using assms calm_trans [of n n1] by (cases y) auto
qed

lemma calm_foldl: "(\<And>n x. calm n (f n x)) \<Longrightarrow> calm n (foldl f n xs)"
proof (induction xs arbitrary: n)
  case (Cons x xs)
  then show ?case using calm_trans [of n "f n x"] by simp
qed simp

lemma calm_settle [calm_intros]: "calm n (settle f v n)"
  by (simp add: settle_def calm_intros)

lemma calm_fail_reads [calm_intros]: "calm n (fail_reads n)"
  unfolding fail_reads_def
  by (rule calm_trans [OF _ calm_update(2)], rule calm_foldl, rule calm_settle)

lemma calm_timer [calm_intros]: "calm n (reset_election_timer env n)"
  by (simp add: reset_election_timer_def calm_intros)

lemma calm_keepalive [calm_intros]: "calm n (send_keepalive n p)"
proof -
  have "calm n (set_peer (n\<lparr>rn_append_sequence := k\<rparr>) p s)" for k s
    by (rule calm_trans [OF _ calm_set_peer]) (rule calm_intros)
  then show ?thesis by (auto simp: send_keepalive_def Let_def is_vote_def intro: calm_send_after)
qed

lemma calm_chunk [calm_intros]: "calm n (send_chunk n p meta payload carrier)"
proof -
  have "calm n (set_peer (n\<lparr>rn_append_sequence := k\<rparr>) p s)" for k s
    by (rule calm_trans [OF _ calm_set_peer]) (rule calm_intros)
  then show ?thesis by (auto simp: send_chunk_def Let_def is_vote_def intro: calm_send_after)
qed

lemma calm_snapshot [calm_intros]: "calm n (send_snapshot env n p)"
  by (auto simp: send_snapshot_def Let_def intro: calm_intros calm_trans [OF calm_set_peer] split: option.split)

lemma calm_transmit [calm_intros]: "calm n (transmit_append env n p t es)"
proof -
  have "calm n (set_peer (n\<lparr>rn_append_sequence := k\<rparr>) p s)" for k s
    by (rule calm_trans [OF _ calm_set_peer]) (rule calm_intros)
  then show ?thesis by (auto simp: transmit_append_def Let_def is_vote_def intro: calm_send_after)
qed

lemma calm_send_append [calm_intros]: "calm n (fst (send_append env n p))"
  unfolding send_append_def Let_def
  by (auto simp: split_beta intro: calm_intros calm_trans [OF calm_set_peer] split: sum.split py_error.split)

lemma calm_replicate_to: "calm n (fst (replicate_to env n ps))"
proof (induction ps arbitrary: n)
  case (Cons p ps)
  then show ?case by (auto intro!: calm_and_then calm_intros)
qed simp

lemma calm_replicate_all [calm_intros]: "calm n (fst (replicate_all env n))"
  unfolding replicate_all_def by (rule calm_replicate_to)

lemma calm_append_local [calm_intros]: "calm n (fst (append_local n ops))"
  by (auto simp: append_local_def intro: calm_intros split: sum.split)
lemma calm_confirm_each: "calm n (fst (confirm_each n rs))"
proof (induction rs arbitrary: n)
  case (Cons r rs)
  have s: "calm n (fst (confirm_each (settle f v n) rs))" for f v
    using calm_trans [OF calm_settle Cons.IH] .
  show ?case using Cons.IH s by (auto simp: split_beta split: option.split)
qed simp

lemma calm_confirm_reads [calm_intros]: "calm n (confirm_reads n)"
  unfolding confirm_reads_def Let_def split_beta
  by (rule calm_trans [OF calm_confirm_each calm_update(2)])

lemma calm_arm_reads [calm_intros]: "calm n (fst (arm_reads env n))"
proof -
  have "calm n (fst (and_then (replicate_all env (n\<lparr>rn_reads := x\<rparr>)) (\<lambda>n1 _. (confirm_reads n1, Inr ()))))" for x
    by (rule calm_and_then)
       (auto intro: calm_trans [OF calm_update(2) calm_replicate_all] calm_intros)
  then show ?thesis by (auto simp: arm_reads_def split: sum.split bool.split)
qed

lemma calm_begin_read [calm_intros]: "calm n (fst (begin_read env n f))"
  by (auto simp: begin_read_def intro: calm_intros calm_trans [OF calm_update(2) calm_arm_reads])

lemma calm_advance_commit [calm_intros]: "calm n (fst (advance_commit env n))"
proof -
  have "calm n (fst (and_then (replicate_all env (n\<lparr>rn_commit_index := c\<rparr>)) (\<lambda>n1 _. arm_reads env n1)))" for c
    by (rule calm_and_then)
       (auto intro: calm_trans [OF calm_update(7) calm_replicate_all] calm_intros)
  then show ?thesis
    by (auto simp: advance_commit_def split: option.split sum.split py_error.split)
qed

lemma calm_promote_if [calm_intros]: "calm n (promote_if_caught_up n p)"
  by (auto simp: promote_if_caught_up_def Let_def is_vote_def intro: calm_send_after [OF calm_set_peer])

lemma calm_note_reply [calm_intros]: "calm n (note_reply env n p m)"
  unfolding note_reply_def Let_def by (rule calm_trans [OF calm_set_peer calm_confirm_reads])

lemma calm_rejected [calm_intros]: "calm n (fst (rejected_append env n p m))"
  by (auto simp: rejected_append_def Let_def intro: calm_trans [OF calm_set_peer calm_send_append])

lemma calm_accepted [calm_intros]: "calm n (fst (accepted_append env n p m a))"
proof -
  have "calm n (promote_if_caught_up (set_peer n p s) p)" for s
    by (rule calm_trans [OF calm_set_peer calm_promote_if])
  then show ?thesis
    unfolding accepted_append_def Let_def
    by (auto intro!: calm_and_then intro: calm_intros calm_trans [OF _ calm_advance_commit])
qed

lemma calm_resolve: "calm n (resolve n outs)"
proof (induction outs arbitrary: n)
  case (Cons x outs)
  obtain p v where x: "x = (p, v)" by fastforce
  have "calm n (settle f (Answered v) (n\<lparr>rn_waiters := w\<rparr>))" for f w
    by (rule calm_trans [OF calm_update(9) calm_settle])
  then show ?case
    using calm_trans [OF _ Cons.IH] Cons.IH by (auto simp: x split: option.split)
qed simp

lemma calm_fence [calm_intros]: "calm n (fence_advance i n)" "calm n (fence_reset i n)"
  by (simp_all add: fence_advance_def fence_reset_def calm_intros)

lemma calm_apply_batch [calm_intros]: "calm n (fst (apply_batch env clock n))"
proof -
  have "calm n (fence_advance i (resolve (n\<lparr>rn_machine := m\<rparr>) outs))" for i m outs
    by (rule calm_trans [OF calm_trans [OF calm_update(6) calm_resolve] calm_fence(1)])
  then show ?thesis
    by (auto simp: apply_batch_def Let_def split: sum.split py_error.split list.split)
qed

lemma calm_next_proposal: "calm n (fst (next_proposal n))"
  by (simp add: next_proposal_def Let_def calm_intros)

lemma calm_wait_for: "calm n (wait_for p f n)"
  by (simp add: wait_for_def calm_intros)

lemma calm_stamp_batch: "calm n (fst (stamp_batch n items))"
proof (induction items arbitrary: n)
  case (Cons x items)
  then show ?case
    using calm_trans [OF calm_trans [OF calm_next_proposal calm_wait_for] Cons.IH]
    by (cases x) (simp add: split_beta)
qed simp

lemma calm_stamp_and_encode: "calm n (fst (stamp_and_encode n items))"
proof (induction items arbitrary: n)
  case (Cons x items)
  have w: "calm n (wait_for p f (fst (next_proposal n)))" for p f
    by (rule calm_trans [OF calm_next_proposal calm_wait_for])
  have "calm n (fst (and_then (stamp_and_encode (wait_for p f (fst (next_proposal n))) items) (\<lambda>n3 bs. (n3, Inr (b # bs)))))" for p f b
    using calm_trans [OF w Cons.IH] by (rule calm_and_then) simp
  then show ?case using w by (cases x) (auto simp: split_beta Let_def split: sum.split)
qed simp

lemma calm_drain [calm_intros]: "calm n (fst (drain env n batch))"
proof -
  have l: "calm n (fst (and_then (append_local (fst (stamp_batch n batch)) ops) (\<lambda>n2 _.
           and_then (replicate_all env n2) (\<lambda>n3 _.
             if rn_peers n3 = [] then advance_commit env n3 else (n3, Inr ())))))" for ops
    by (rule calm_and_then [OF calm_trans [OF calm_stamp_batch calm_append_local]])
       (auto intro!: calm_and_then intro: calm_intros)
  have s: "calm n (fst (and_then (stamp_and_encode n batch) (\<lambda>n1 bs.
                  (foldl (\<lambda>n g. send n l (MPropose \<lparr>pp_request_id = 0, pp_proposals = g\<rparr>) CONTROL) n1
                     (split_by_bytes bs (tm_max_append_bytes (rn_timing n1))), Inr ()))))" for l
    by (rule calm_and_then [OF calm_stamp_and_encode]) (auto intro!: calm_foldl calm_send simp: is_vote_def)
  have u: "calm n (foldl (\<lambda>n (_, f). settle f Unavailable n) n batch)"
    by (rule calm_foldl) (auto intro: calm_intros)
  show ?thesis using l s u by (auto simp: drain_def split_beta split: option.split)
qed

lemma calm_flush [calm_intros]: "calm n (fst (flush env n))"
  by (auto simp: flush_def intro: calm_trans [OF calm_update(8) calm_drain])

lemma calm_propose [calm_intros]: "calm n (fst (propose env n op f))"
  by (auto simp: propose_def Let_def intro: calm_trans [OF calm_update(8) calm_flush] calm_intros)

lemma calm_on_propose [calm_intros]: "calm n (fst (on_propose env n m))"
proof -
  have "calm n (fst (and_then (append_local n ops) (\<lambda>n1 (first, _).
                   and_then (replicate_all env n1) (\<lambda>n2 _.
                   and_then (if rn_peers n2 = [] then advance_commit env n2 else (n2, Inr ())) (\<lambda>n3 _.
                     (n3, Inr (g n3 first)))))))" for ops and g :: "RaftNode \<Rightarrow> int \<Rightarrow> ProposeReply"
    by (auto intro!: calm_and_then intro: calm_intros)
  then show ?thesis
    unfolding on_propose_def Let_def by (auto split: sum.split list.split)
qed

lemma calm_on_peer_state [calm_intros]: "calm n (fst (on_peer_state env n p up inc))"
  by (auto simp: on_peer_state_def Let_def intro: calm_intros calm_trans [OF calm_set_peer calm_send_append]
      calm_trans [OF calm_set_peer calm_update(5)] split: option.split)

lemma calm_compact [calm_intros]: "calm n (fst (compact_begin n))" "calm n (fst (compact_end n pinned payload))"
proof -
  show "calm n (fst (compact_begin n))"
    by (auto simp: compact_begin_def Let_def intro: calm_intros split: sum.split py_error.split)
  show "calm n (fst (compact_end n pinned payload))"
    by (auto simp: compact_end_def Let_def same_ballots_def intro!: calmI split: prod.split sum.split py_error.split)
qed

lemma calm_on_promote [calm_intros]: "calm n (on_promote n m)"
  by (simp add: on_promote_def calm_intros)
subsection \<open>Ballots\<close>

type_synonym ballot = "int \<times> int option"

definition ballot :: "RaftNode \<Rightarrow> ballot" where
  "ballot n = (rn_term n, rn_voted_for n)"

definition below :: "ballot \<Rightarrow> ballot \<Rightarrow> bool" where
  "below a b \<longleftrightarrow> fst a < fst b \<or> (fst a = fst b \<and> (snd a = None \<or> snd a = snd b))"

text \<open>The ballot the next start would read, if the file can be read.\<close>

definition stored :: "(json \<Rightarrow> int res) \<Rightarrow> TermStore \<Rightarrow> ballot set" where
  "stored conv ts = {(ps_term st, ps_voted_for st) | st. read_state conv (ts_file ts) = Inr st}"

lemma below_refl [simp]: "below b b"
  by (simp add: below_def)

lemma below_trans: "below a b \<Longrightarrow> below b c \<Longrightarrow> below a c"
  by (auto simp: below_def)

lemma below_vote: "below (t, Some c) b \<Longrightarrow> below (t, Some d) b \<Longrightarrow> fst b = t \<Longrightarrow> c = d"
  unfolding below_def by (metis fst_conv less_irrefl option.distinct(1) option.inject snd_conv)

lemma read_document:
  assumes "read_state conv (Document (state_document st)) = Inr st'"
  shows "ps_term st' = ps_term st \<and> ps_voted_for st' = ps_voted_for st"
proof -
  have v: "stored_vote conv (opt_int (ps_voted_for st)) = Inr (ps_voted_for st)"
    by (simp add: stored_vote_def opt_int_def split: option.splits)
  show ?thesis
    using assms
    by (auto simp: read_state_def state_document_def term_and_vote_def item_def v refuse_def bind_res_eq_Inr)
qed

lemma stored_document: "stored conv \<lparr>ts_file = Document (state_document st), ts_writes = w\<rparr> \<subseteq> {(ps_term st, ps_voted_for st)}"
  using read_document by (fastforce simp: stored_def)

lemma persist_cases:
  assumes "persist_node os n = (n', r)"
  obtains e where "n' = n" "r = Inl e"
  | e ts where "n' = n\<lparr>rn_terms := ts\<rparr>" "stored conv ts \<subseteq> {ballot n}" "r = Inl e"
  | ts where "n' = n\<lparr>rn_terms := ts\<rparr>" "stored conv ts \<subseteq> {ballot n}" "r = Inr ()"
proof -
  have d: "(ps_term (durable n), ps_voted_for (durable n)) = ballot n" by (simp add: durable_def ballot_def)
  show ?thesis
    using assms that(1) that(2) [of "\<lparr>ts_file = Document (state_document (durable n)), ts_writes = w\<rparr>" for w]
      that(3) [of "\<lparr>ts_file = Document (state_document (durable n)), ts_writes = w\<rparr>" for w]
      stored_document [of conv "durable n"] unfolding persist_node_def d
    by (cases rule: save_state_cases [of "durable n" os "rn_terms n"]) auto
qed

subsection \<open>How a member may change\<close>

definition standing :: "RaftNode \<Rightarrow> (Role \<times> int \<times> int set) option" where
  "standing n = (if rn_role n \<in> {CANDIDATE, LEADER} then Some (rn_role n, rn_term n, rn_votes n) else None)"

definition leading :: "RaftNode \<Rightarrow> int option" where
  "leading n = (if rn_role n = LEADER then Some (rn_term n) else None)"

text \<open>Ballots grow, and what is written is what memory held or came to hold.\<close>

definition moves :: "(json \<Rightarrow> int res) \<Rightarrow> RaftNode \<Rightarrow> RaftNode \<Rightarrow> bool" where
  "moves conv n n' \<longleftrightarrow> rn_layout n' = rn_layout n \<and> below (ballot n) (ballot n') \<and>
     (stored conv (rn_terms n') = stored conv (rn_terms n) \<or>
      (\<forall>b \<in> stored conv (rn_terms n'). below (ballot n) b \<and> below b (ballot n')))"

definition votes_posted :: "RaftNode \<Rightarrow> RaftNode \<Rightarrow> (message \<Rightarrow> bool) \<Rightarrow> bool" where
  "votes_posted n n' P \<longleftrightarrow>
     (\<exists>xs. rn_outbox n' = rn_outbox n @ xs \<and> (\<forall>(p, m, s) \<in> set xs. is_vote m \<longrightarrow> P m))"

text \<open>A vote it asks for is a vote for itself.\<close>

definition honest :: "RaftNode \<Rightarrow> message \<Rightarrow> bool" where
  "honest n m \<longleftrightarrow> (\<exists>r. m = MRequestVote r \<and> rv_candidate r = local_index n)"

text \<open>A step in which the member neither stands for election nor counts a vote.\<close>

definition steady :: "(json \<Rightarrow> int res) \<Rightarrow> RaftNode \<Rightarrow> RaftNode \<Rightarrow> bool" where
  "steady conv n n' \<longleftrightarrow> moves conv n n' \<and> standing n' \<in> {None, standing n} \<and> leading n' \<in> {None, leading n} \<and>
     votes_posted n n' (honest n)"

lemma votes_posted_trans:
  assumes "votes_posted n n1 P" "votes_posted n1 n2 P"
  shows "votes_posted n n2 P"
proof -
  obtain xs ys where "rn_outbox n1 = rn_outbox n @ xs" "rn_outbox n2 = rn_outbox n1 @ ys"
      "\<forall>(p, m, s) \<in> set (xs @ ys). is_vote m \<longrightarrow> P m"
    using assms by (fastforce simp: votes_posted_def)
  then have "rn_outbox n2 = rn_outbox n @ (xs @ ys) \<and> (\<forall>(p, m, s) \<in> set (xs @ ys). is_vote m \<longrightarrow> P m)" by simp
  then show ?thesis unfolding votes_posted_def by blast
qed

lemma votes_posted_mono: "votes_posted n n' P \<Longrightarrow> (\<And>m. P m \<Longrightarrow> Q m) \<Longrightarrow> votes_posted n n' Q"
  by (fastforce simp: votes_posted_def)

lemma moves_trans:
  assumes "moves conv n n1" "moves conv n1 n2"
  shows "moves conv n n2"
proof -
  have b: "below (ballot n) (ballot n1)" "below (ballot n1) (ballot n2)" using assms by (simp_all add: moves_def)
  have "stored conv (rn_terms n2) = stored conv (rn_terms n) \<or>
      (\<forall>b \<in> stored conv (rn_terms n2). below (ballot n) b \<and> below b (ballot n2))"
    using assms b unfolding moves_def by (metis below_trans)
  then show ?thesis using assms b by (auto simp: moves_def intro: below_trans)
qed

lemma honest_layout: "rn_layout n' = rn_layout n \<Longrightarrow> honest n' = honest n"
  by (simp add: honest_def local_index_def fun_eq_iff)

lemma steady_trans:
  assumes "steady conv n n1" "steady conv n1 n2"
  shows "steady conv n n2"
proof -
  have h: "honest n1 = honest n" by (rule honest_layout) (use assms(1) in \<open>simp add: steady_def moves_def\<close>)
  have "votes_posted n n1 (honest n)" "votes_posted n1 n2 (honest n)" using assms unfolding steady_def h by simp_all
  then have "votes_posted n n2 (honest n)" by (rule votes_posted_trans)
  then show ?thesis using assms unfolding steady_def by (auto intro: moves_trans)
qed

lemma steady_refl [simp]: "steady conv n n"
  by (simp add: steady_def moves_def votes_posted_def)

lemma calm_posts: "calm n n' \<Longrightarrow> votes_posted n n' P"
  unfolding calm_def votes_posted_def by fastforce

lemma votes_posted_from: "votes_posted n1 n' P \<Longrightarrow> rn_outbox n1 = rn_outbox n \<Longrightarrow> votes_posted n n' P"
  by (simp add: votes_posted_def)

lemma calm_steady:
  assumes "calm n n'"
  shows "steady conv n n'"
proof -
  have f: "rn_layout n' = rn_layout n" "rn_term n' = rn_term n" "rn_voted_for n' = rn_voted_for n"
      "rn_role n' = rn_role n" "rn_votes n' = rn_votes n" "rn_terms n' = rn_terms n"
    using assms by (simp_all add: calm_def same_ballots_def)
  show ?thesis
    using calm_posts [OF assms, of "honest n"]
    by (simp add: steady_def moves_def standing_def leading_def ballot_def f)
qed

lemma steady_and_then:
  assumes "steady conv n (fst r)" and "\<And>n1 x. r = (n1, Inr x) \<Longrightarrow> steady conv n1 (fst (f n1 x))"
  shows "steady conv n (fst (and_then r f))"
proof (cases r)
  case (Pair n1 y)
  then show ?thesis using assms steady_trans [of conv n n1] by (cases y) auto
qed

lemma steady_save: "stored conv ts \<subseteq> {ballot n} \<Longrightarrow> steady conv n (n\<lparr>rn_terms := ts\<rparr>)"
proof -
  assume d: "stored conv ts \<subseteq> {ballot n}"
  have b: "ballot (n\<lparr>rn_terms := ts\<rparr>) = ballot n" by (simp add: ballot_def)
  have "\<forall>b \<in> stored conv ts. below (ballot n) b \<and> below b (ballot n)" using d by auto
  then show ?thesis
    by (simp add: steady_def moves_def b standing_def leading_def votes_posted_def)
qed

lemma steady_persist: "steady conv n (fst (persist_node os n))"
proof -
  obtain n' r where p: "persist_node os n = (n', r)" by fastforce
  have "steady conv n n'"
    using p by (cases rule: persist_cases [OF p, where conv = conv]) (simp_all only: steady_save steady_refl)
  then show ?thesis by (simp add: p)
qed

text \<open>A member that stops standing, in the same or a later term.\<close>

lemma steady_retire:
  assumes "below (ballot n) (ballot n')" "rn_layout n' = rn_layout n" "rn_terms n' = rn_terms n"
    "rn_role n' \<in> {FOLLOWER, PRE_CANDIDATE}" "rn_outbox n' = rn_outbox n"
  shows "steady conv n n'"
  using assms by (auto simp: steady_def moves_def standing_def leading_def votes_posted_def)

lemma fail_reads_fields [simp]:
  "rn_layout (fail_reads n) = rn_layout n" "rn_terms (fail_reads n) = rn_terms n" "rn_term (fail_reads n) = rn_term n"
  "rn_voted_for (fail_reads n) = rn_voted_for n" "rn_role (fail_reads n) = rn_role n" "rn_outbox (fail_reads n) = rn_outbox n"
proof -
  have f: "rn_outbox (foldl (\<lambda>n r. settle (rd_future r) Unavailable n) n rs) = rn_outbox n" for rs n
    by (induction rs arbitrary: n) (simp_all add: settle_def)
  show "rn_outbox (fail_reads n) = rn_outbox n" by (simp add: fail_reads_def f)
qed (use calm_fail_reads [of n] in \<open>simp_all add: calm_def same_ballots_def\<close>)

lemma steady_step_down:
  assumes "rn_term n < t"
  shows "steady conv n (fst (step_down os n t))"
proof -
  let ?n = "clear_rounds ((fail_reads n)\<lparr>rn_term := t, rn_installing := [], rn_voted_for := None,
    rn_role := FOLLOWER, rn_leader := None\<rparr>)"
  have "steady conv n ?n"
    using assms by (intro steady_retire) (simp_all add: clear_rounds_def ballot_def below_def)
  then show ?thesis unfolding step_down_def by (rule steady_trans [OF _ steady_persist])
qed

lemma steady_heed: "steady conv n (heed_leader env n l)"
  by (rule steady_retire) (simp_all add: heed_leader_def reset_election_timer_def ballot_def)

lemma steady_relinquish: "steady conv n (relinquish env n)"
  by (cases "rn_role n = LEADER")
     (auto simp: relinquish_def ballot_def clear_rounds_def reset_election_timer_def intro!: steady_retire)

lemma steady_fail_node: "steady conv n (fail_node env n err)"
proof -
  have s: "steady conv n (settle f v n)" for f v n by (rule calm_steady [OF calm_settle])
  have f: "calm n (foldl (\<lambda>n (_, f). settle f Unavailable n) n xs)" for n :: RaftNode and xs :: "('a \<times> nat) list"
    by (rule calm_foldl) (auto intro: calm_intros)
  have p: "calm n (fail_reads ((foldl (\<lambda>n (_, f). settle f Unavailable n) n xs)\<lparr>rn_pending := ys\<rparr>))"
    for n :: RaftNode and xs :: "(RegistryOperation \<times> nat) list" and ys
    by (rule calm_trans [OF calm_trans [OF f calm_update(8)] calm_fail_reads])
  have w: "calm n ((foldl (\<lambda>n (_, f). settle f Unavailable n) n xs)\<lparr>rn_waiters := ys\<rparr>)"
    for n :: RaftNode and xs :: "(ProposalId \<times> nat) list" and ys
    by (rule calm_trans [OF f calm_update(9)])
  have "steady conv n (n\<lparr>rn_failure := Some err, rn_closing := True\<rparr>)"
    by (rule calm_steady, rule calmI) (simp_all add: same_ballots_def)
  then have r: "steady conv n (relinquish env (n\<lparr>rn_failure := Some err, rn_closing := True\<rparr>))"
    by (rule steady_trans [OF _ steady_relinquish])
  show ?thesis
    unfolding fail_node_def Let_def
    using steady_trans [OF steady_trans [OF r calm_steady [OF p]] calm_steady [OF w]] by simp
qed
subsection \<open>Handlers that leave the election to others\<close>

lemma calm_accept_append [calm_intros]: "calm n (fst (accept_append n m))"
  by (simp add: accept_append_def Let_def calm_intros)

lemma steady_store_entries: "steady conv n (fst (store_entries env n m))"
proof -
  have a: "steady conv n (fst (accept_append (n\<lparr>rn_log := lg\<rparr>) m))" for lg
    by (rule calm_steady, rule calm_trans [OF calm_update(4) calm_accept_append])
  have f: "steady conv n (fail_node env (n\<lparr>rn_log := lg\<rparr>) e)" for lg e
    by (rule steady_trans [OF calm_steady [OF calm_update(4)] steady_fail_node])
  show ?thesis
    unfolding store_entries_def Let_def split_beta
    using a f calm_steady [OF calm_accept_append] calm_steady [OF calm_update(4)]
    by (auto split: sum.split py_error.split option.split)
qed

lemma steady_follow_append: "steady conv n (fst (follow_append env n m))"
  unfolding follow_append_def Let_def
  by (auto intro: steady_store_entries steady_fail_node split: sum.split bool.split)

lemma steady_maybe_step_down:
  "steady conv n (fst (if t > rn_term n then step_down os n t else (n, Inr ())))"
  by (simp add: steady_step_down)

lemma steady_on_append_entries: "steady conv n (fst (on_append_entries env n m))"
proof -
  have "steady conv n1 (fst (follow_append env ((heed_leader env n1 l)\<lparr>rn_heard_from_leader_at := t\<rparr>) m))" for n1 l t
  proof -
    have "calm (heed_leader env n1 l) ((heed_leader env n1 l)\<lparr>rn_heard_from_leader_at := t\<rparr>)"
      by (rule calmI) (simp_all add: same_ballots_def)
    then show ?thesis
      by (rule steady_trans [OF steady_trans [OF steady_heed calm_steady] steady_follow_append])
  qed
  then show ?thesis
    unfolding on_append_entries_def
    by (cases "ae_term m < rn_term n") (auto intro!: steady_and_then steady_step_down)
qed

lemma steady_on_append_entries_reply: "steady conv n (fst (on_append_entries_reply env n p m))"
proof -
  have "calm n (fst (rejected_append env (note_reply env n p m) p m))"
    "calm n (fst (accepted_append env (note_reply env n p m) p m a))" for a
    by (rule calm_trans [OF calm_note_reply], rule calm_intros)+
  then show ?thesis
    unfolding on_append_entries_reply_def Let_def
    by (auto intro: steady_step_down calm_steady split: option.split)
qed

lemma calm_install_buffer: "calm n (fst (install_buffer env n p m b))"
proof -
  have "calm n (fence_reset i (n\<lparr>rn_installing := a, rn_machine := x, rn_log := y, rn_snapshot := z,
      rn_snapshot_meta := u, rn_commit_index := v\<rparr>))" for a x y z u v i
    by (rule calmI) (simp_all add: fence_reset_def same_ballots_def)
  then show ?thesis
    unfolding install_buffer_def Let_def split_beta by (auto intro: calm_intros split: sum.split)
qed

lemma calm_receive_chunk: "calm n (fst (receive_chunk env n p m))"
proof -
  have "calm n (fst (install_buffer env (n\<lparr>rn_installing := x\<rparr>) p m b))" for x b
    by (rule calm_trans [OF calm_update(5) calm_install_buffer])
  then show ?thesis
    unfolding receive_chunk_def Let_def by (auto intro: calm_intros split: option.split)
qed

lemma steady_follow_snapshot: "steady conv n (fst (follow_snapshot env n p m))"
proof -
  have "steady conv n (fail_node env (n\<lparr>rn_installing := x\<rparr>) e)" for x e
    by (rule steady_trans [OF calm_steady [OF calm_update(5)] steady_fail_node])
  then show ?thesis
    unfolding follow_snapshot_def Let_def split_beta
    using calm_steady [OF calm_receive_chunk] calm_steady [OF calm_update(5)]
    by (auto split: sum.split bool.split)
qed

lemma steady_on_install_snapshot: "steady conv n (fst (on_install_snapshot env n p m))"
  unfolding on_install_snapshot_def
  by (cases "is_term m < rn_term n")
     (auto intro!: steady_and_then steady_step_down intro: steady_trans [OF steady_heed steady_follow_snapshot])

lemma steady_on_install_snapshot_reply: "steady conv n (fst (on_install_snapshot_reply env n p m))"
  unfolding on_install_snapshot_reply_def Let_def
  by (auto intro: steady_step_down calm_steady calm_intros calm_trans [OF calm_set_peer calm_send_append]
      calm_trans [OF calm_set_peer calm_snapshot] split: option.split)

subsection \<open>Granting a vote\<close>

lemma cast_vote_steady: "steady conv n (fst (cast_vote env os n m))"
proof (cases "rv_term m = rn_term n \<and> (rn_voted_for n = None \<or> rn_voted_for n = Some (rv_candidate m)) \<and>
    is_at_least_as_current_as (rn_log n) (rv_last_log_index m) (rv_last_log_term m)")
  case True
  let ?n = "n\<lparr>rn_voted_for := Some (rv_candidate m)\<rparr>"
  have "steady conv n ?n"
    using True by (auto simp: steady_def moves_def ballot_def below_def standing_def leading_def votes_posted_def)
  then have "steady conv n (fst (persist_node os ?n))" by (rule steady_trans [OF _ steady_persist])
  then have "steady conv n (fst (and_then (persist_node os ?n) (\<lambda>n1 _.
      let n2 = reset_election_timer env n1 in (n2, Inr (vote_reply n2 True)))))"
    by (rule steady_and_then) (simp add: Let_def calm_steady calm_timer)
  then show ?thesis using True by (simp add: cast_vote_def)
next
  case False
  then show ?thesis by (auto simp: cast_vote_def)
qed

text \<open>A vote that leaves the member is on disk.\<close>

lemma cast_vote_granted:
  assumes "cast_vote env os n m = (n', Inr r)" "vr_granted r"
  shows "ballot n' = (rv_term m, Some (rv_candidate m)) \<and> stored conv (rn_terms n') \<subseteq> {ballot n'} \<and>
    vr_term r = rv_term m \<and> \<not> vr_pre_vote r"
proof (cases "rv_term m = rn_term n \<and> (rn_voted_for n = None \<or> rn_voted_for n = Some (rv_candidate m)) \<and>
    is_at_least_as_current_as (rn_log n) (rv_last_log_index m) (rv_last_log_term m)")
  case True
  let ?n = "n\<lparr>rn_voted_for := Some (rv_candidate m)\<rparr>"
  obtain n1 x where p: "persist_node os ?n = (n1, x)" by fastforce
  have run: "and_then (n1, x) (\<lambda>n1 _. let n2 = reset_election_timer env n1 in (n2, Inr (vote_reply n2 True))) = (n', Inr r)"
    using assms(1) True unfolding cast_vote_def p by auto
  show ?thesis
    using p
  proof (cases rule: persist_cases [OF p, where conv = conv])
    case (3 ts)
    have n': "n' = reset_election_timer env n1" "r = vote_reply n' True" using run 3(3) by (auto simp: Let_def)
    have b: "ballot n' = ballot ?n" "rn_terms n' = ts"
      unfolding n'(1) 3(1) by (simp_all add: reset_election_timer_def ballot_def)
    have "ballot ?n = (rv_term m, Some (rv_candidate m))" "rn_term n' = rv_term m"
      using True b(1) by (simp_all add: ballot_def)
    then show ?thesis using 3(2) b n'(2) by (simp add: vote_reply_def)
  qed (use run in auto)
next
  case False
  then show ?thesis using assms by (auto simp: cast_vote_def vote_reply_def)
qed

lemma on_request_vote_steady: "steady conv n (fst (on_request_vote env n m))"
  unfolding on_request_vote_def
  by (auto intro!: steady_and_then steady_step_down cast_vote_steady)

lemma on_request_vote_granted:
  assumes "on_request_vote env n m = (n', Inr r)" "vr_granted r" "\<not> vr_pre_vote r"
  shows "ballot n' = (rv_term m, Some (rv_candidate m)) \<and> stored conv (rn_terms n') \<subseteq> {ballot n'} \<and>
    vr_term r = rv_term m \<and> \<not> rv_pre_vote m"
proof -
  have "\<exists>n1 os. cast_vote env os n1 m = (n', Inr r) \<and> \<not> rv_pre_vote m"
  proof (cases "leader_lease_holds env n \<or> rv_pre_vote m")
    case True
    then show ?thesis using assms by (auto simp: on_request_vote_def answer_pre_vote_def Let_def split: if_splits)
  next
    case False
    show ?thesis
    proof (cases "rv_term m > rn_term n")
      case True
      obtain n1 x where "step_down (en_save env) n (rv_term m) = (n1, x)" by fastforce
      then show ?thesis
        using assms(1) False True by (cases x) (auto simp: on_request_vote_def)
    next
      case less: False
      then show ?thesis using assms(1) False by (auto simp: on_request_vote_def)
    qed
  qed
  then show ?thesis using cast_vote_granted assms(2) by blast
qed
subsection \<open>Standing and counting\<close>

definition has_votes :: "RaftNode \<Rightarrow> bool" where
  "has_votes n \<longleftrightarrow> nat (quorum (rn_layout n)) \<le> card (rn_votes n \<inter> member_indexes (rn_layout n))"

lemma won_quorum:
  assumes "won n votes forgotten"
  shows "nat (quorum (rn_layout n)) \<le> card (votes \<inter> member_indexes (rn_layout n))"
proof -
  let ?g = "votes \<inter> member_indexes (rn_layout n)"
  have "card (?g - P) \<le> card ?g" for P
    by (rule card_mono) (auto simp: member_indexes_def)
  then have m: "quorum (rn_layout n) \<le> int (card ?g)" if "quorum (rn_layout n) \<le> int (card (?g - P))" for P
    using that by (meson of_nat_le_iff order_trans)
  then show ?thesis
    using assms m by (auto simp: won_def Let_def nat_le_iff split: if_splits)
qed

text \<open>A campaign whose save succeeded.\<close>

definition stands :: "(json \<Rightarrow> int res) \<Rightarrow> RaftNode \<Rightarrow> RaftNode \<Rightarrow> bool" where
  "stands conv n n' \<longleftrightarrow> rn_layout n' = rn_layout n \<and> ballot n' = (rn_term n + 1, Some (local_index n)) \<and>
     stored conv (rn_terms n') \<subseteq> {ballot n'} \<and> rn_votes n' = {local_index n} \<and>
     (rn_role n' = CANDIDATE \<or> rn_role n' = LEADER \<and> has_votes n') \<and> votes_posted n n' (honest n)"

definition counts :: "RaftNode \<Rightarrow> RaftNode \<Rightarrow> int set \<Rightarrow> bool" where
  "counts n n' V \<longleftrightarrow> rn_layout n' = rn_layout n \<and> ballot n' = ballot n \<and> rn_terms n' = rn_terms n \<and>
     rn_role n = CANDIDATE \<and> rn_votes n' = V \<and> (rn_role n' = CANDIDATE \<or> rn_role n' = LEADER \<and> has_votes n') \<and>
     votes_posted n n' (honest n)"

definition campaign_saves :: "Env \<Rightarrow> RaftNode \<Rightarrow> bool" where
  "campaign_saves env n \<longleftrightarrow>
     snd (save_state (en_save env) (rn_terms n) ((durable n)\<lparr>ps_term := rn_term n + 1, ps_voted_for := Some (local_index n)\<rparr>)) = Inr ()"

lemma become_leader_calm:
  "calm (n\<lparr>rn_role := LEADER, rn_leader := Some (local_index n), rn_voting := True\<rparr>) (fst (become_leader env n))"
proof -
  let ?n1 = "n\<lparr>rn_role := LEADER, rn_leader := Some (local_index n), rn_voting := True\<rparr>"
  have "calm ?n1 (?n1\<lparr>rn_peers := x\<rparr>)" for x by (rule calmI) (simp_all add: same_ballots_def)
  then have "calm ?n1 (fst (next_proposal (?n1\<lparr>rn_peers := x\<rparr>)))" for x
    by (rule calm_trans [OF _ calm_next_proposal])
  then have "calm ?n1 (fst (append_local (fst (next_proposal (?n1\<lparr>rn_peers := x\<rparr>))) ops))" for x ops
    by (rule calm_trans [OF _ calm_append_local])
  then show ?thesis
    unfolding become_leader_def Let_def split_beta by (rule calm_and_then) (rule calm_intros)
qed

lemma broadcast_posts: "P m \<Longrightarrow> votes_posted n (broadcast n m) P"
proof -
  assume P: "P m"
  have "votes_posted n (foldl (\<lambda>n p. send n p m CONTROL) n ps) P" for ps
  proof (induction ps arbitrary: n)
    case (Cons p ps)
    have "votes_posted n (send n p m CONTROL) P" using P by (auto simp: votes_posted_def send_def)
    then show ?case using votes_posted_trans Cons.IH by simp
  qed (simp add: votes_posted_def)
  then show ?thesis by (simp add: broadcast_def)
qed

lemma broadcast_fields [simp]:
  "rn_layout (broadcast n m) = rn_layout n" "rn_terms (broadcast n m) = rn_terms n" "rn_term (broadcast n m) = rn_term n"
  "rn_voted_for (broadcast n m) = rn_voted_for n" "rn_role (broadcast n m) = rn_role n" "rn_votes (broadcast n m) = rn_votes n"
  "rn_log (broadcast n m) = rn_log n"
proof -
  have "rn_layout (foldl (\<lambda>n p. send n p m CONTROL) n ps) = rn_layout n \<and> rn_terms (foldl (\<lambda>n p. send n p m CONTROL) n ps) = rn_terms n \<and>
    rn_term (foldl (\<lambda>n p. send n p m CONTROL) n ps) = rn_term n \<and> rn_voted_for (foldl (\<lambda>n p. send n p m CONTROL) n ps) = rn_voted_for n \<and>
    rn_role (foldl (\<lambda>n p. send n p m CONTROL) n ps) = rn_role n \<and> rn_votes (foldl (\<lambda>n p. send n p m CONTROL) n ps) = rn_votes n \<and>
    rn_log (foldl (\<lambda>n p. send n p m CONTROL) n ps) = rn_log n" for ps
    by (induction ps arbitrary: n) (simp_all add: send_def)
  then show "rn_layout (broadcast n m) = rn_layout n" "rn_terms (broadcast n m) = rn_terms n" "rn_term (broadcast n m) = rn_term n"
  "rn_voted_for (broadcast n m) = rn_voted_for n" "rn_role (broadcast n m) = rn_role n" "rn_votes (broadcast n m) = rn_votes n"
  "rn_log (broadcast n m) = rn_log n"
    by (simp_all add: broadcast_def)
qed

text \<open>The member as a campaign makes it, once its save is through.\<close>

definition campaigned :: "Env \<Rightarrow> RaftNode \<Rightarrow> TermStore \<Rightarrow> RaftNode" where
  "campaigned env n ts = n\<lparr>rn_role := CANDIDATE, rn_term := rn_term n + 1, rn_installing := [],
     rn_voted_for := Some (local_index n), rn_terms := ts, rn_votes := {local_index n}, rn_forgotten := {},
     rn_leader := None, rn_deadline := en_now env + en_timeout env\<rparr>"

lemma campaigned_fields [simp]:
  "rn_layout (campaigned env n ts) = rn_layout n" "rn_terms (campaigned env n ts) = ts"
  "rn_term (campaigned env n ts) = rn_term n + 1" "rn_voted_for (campaigned env n ts) = Some (local_index n)"
  "rn_votes (campaigned env n ts) = {local_index n}" "rn_role (campaigned env n ts) = CANDIDATE"
  "rn_outbox (campaigned env n ts) = rn_outbox n" "rn_forgotten (campaigned env n ts) = {}"
  "rn_voting (campaigned env n ts) = rn_voting n" "rn_log (campaigned env n ts) = rn_log n"
  by (simp_all add: campaigned_def)

lemma campaign_result:
  assumes "campaign_saves env n"
  obtains ts where "stored conv ts \<subseteq> {(rn_term n + 1, Some (local_index n))}"
    "fst (campaign env n) = (if won (campaigned env n ts) {local_index n} {} then fst (become_leader env (campaigned env n ts))
       else broadcast (campaigned env n ts) (request_vote (campaigned env n ts) (rn_term n + 1) False))"
proof -
  let ?n1 = "n\<lparr>rn_role := CANDIDATE, rn_term := rn_term n + 1, rn_installing := [], rn_voted_for := Some (local_index n)\<rparr>"
  have d: "durable ?n1 = (durable n)\<lparr>ps_term := rn_term n + 1, ps_voted_for := Some (local_index n)\<rparr>"
    by (simp add: durable_def)
  obtain n2 r where p: "persist_node (en_save env) ?n1 = (n2, r)" by fastforce
  have ok: "r = Inr ()"
    using assms p unfolding campaign_saves_def persist_node_def d by (auto split: prod.splits)
  obtain ts where ts: "n2 = ?n1\<lparr>rn_terms := ts\<rparr>" "stored conv ts \<subseteq> {ballot ?n1}"
    using p by (cases rule: persist_cases [OF p, where conv = conv]) (use ok in auto)
  let ?n3 = "reset_election_timer env (n2\<lparr>rn_votes := {local_index n2}, rn_forgotten := {}, rn_leader := None\<rparr>)"
  have n3: "?n3 = campaigned env n ts"
    unfolding ts(1) by (simp add: reset_election_timer_def campaigned_def local_index_def)
  have "fst (campaign env n) = (if won ?n3 (rn_votes ?n3) (rn_forgotten ?n3) then fst (become_leader env ?n3)
      else broadcast ?n3 (request_vote ?n3 (rn_term ?n3) False))"
    unfolding campaign_def Let_def p ok by simp
  then show ?thesis using that [of ts] ts(2) unfolding n3 by (simp add: ballot_def)
qed

lemma campaign_stands:
  assumes "campaign_saves env n"
  shows "stands conv n (fst (campaign env n))"
proof -
  obtain ts where ts: "stored conv ts \<subseteq> {(rn_term n + 1, Some (local_index n))}"
    and c: "fst (campaign env n) = (if won (campaigned env n ts) {local_index n} {} then fst (become_leader env (campaigned env n ts))
       else broadcast (campaigned env n ts) (request_vote (campaigned env n ts) (rn_term n + 1) False))"
    using campaign_result [OF assms] .
  let ?n = "campaigned env n ts"
  show ?thesis
  proof (cases "won ?n {local_index n} {}")
    case True
    note cl = become_leader_calm [of ?n env]
    have "has_votes ?n" using won_quorum [OF True] by (simp add: has_votes_def)
    moreover have "votes_posted n (fst (become_leader env ?n)) (honest n)"
      by (rule votes_posted_from [OF calm_posts [OF cl]]) simp
    ultimately show ?thesis
      unfolding c using True cl ts unfolding calm_def same_ballots_def
      by (simp add: stands_def ballot_def has_votes_def)
  next
    case False
    have "honest n (request_vote ?n (rn_term n + 1) False)"
      by (simp add: honest_def request_vote_def local_index_def)
    then have "votes_posted n (broadcast ?n (request_vote ?n (rn_term n + 1) False)) (honest n)"
      by (rule votes_posted_from [OF broadcast_posts]) simp
    then show ?thesis unfolding c using False ts by (simp add: stands_def ballot_def)
  qed
qed

lemma campaign_wins:
  assumes "campaign_saves env n" and "\<And>ts. won (campaigned env n ts) {local_index n} {}"
  shows "rn_role (fst (campaign env n)) = LEADER \<and> rn_term (fst (campaign env n)) = rn_term n + 1"
proof -
  obtain ts where "fst (campaign env n) = fst (become_leader env (campaigned env n ts))"
    using campaign_result [OF assms(1), of "\<lambda>_. Inl TypeError"] assms(2) by metis
  then show ?thesis
    using become_leader_calm [of "campaigned env n ts" env] by (simp add: calm_def same_ballots_def)
qed

lemma stands_from:
  assumes "stands conv n1 n'" "rn_layout n1 = rn_layout n" "rn_term n1 = rn_term n" "rn_outbox n1 = rn_outbox n"
  shows "stands conv n n'"
proof -
  have l: "local_index n1 = local_index n" by (simp add: local_index_def assms(2))
  have "votes_posted n n' (honest n)"
    using assms(1) honest_layout [OF assms(2)] votes_posted_from [OF _ assms(4)] by (simp add: stands_def)
  then show ?thesis using assms(1-3) l unfolding stands_def by auto
qed

lemma pre_campaign_moves:
  assumes "campaign_saves env n"
  shows "steady conv n (fst (pre_campaign env n)) \<or> stands conv n (fst (pre_campaign env n))"
proof -
  let ?n1 = "reset_election_timer env (n\<lparr>rn_role := PRE_CANDIDATE, rn_leader := None, rn_pre_votes := {local_index n},
      rn_pre_refusals := {}, rn_pre_forgotten := {}\<rparr>)"
  have f: "rn_layout ?n1 = rn_layout n" "rn_term ?n1 = rn_term n" "rn_outbox ?n1 = rn_outbox n"
      "campaign_saves env ?n1 = campaign_saves env n"
    by (simp_all add: reset_election_timer_def campaign_saves_def durable_def local_index_def)
  have s: "steady conv n ?n1" by (rule steady_retire) (simp_all add: reset_election_timer_def ballot_def)
  have "steady conv ?n1 (broadcast ?n1 (request_vote ?n1 t b))" for t b
    by (auto simp: steady_def moves_def standing_def leading_def ballot_def honest_def request_vote_def
        intro!: broadcast_posts)
  then have "steady conv n (broadcast ?n1 (request_vote ?n1 t b))" for t b by (rule steady_trans [OF s])
  moreover have "stands conv n (fst (campaign env ?n1))"
    by (rule stands_from [OF campaign_stands f(1-3)]) (simp only: f(4) assms)
  ultimately show ?thesis unfolding pre_campaign_def Let_def by simp
qed

lemma tick_moves:
  assumes "campaign_saves env n"
  shows "steady conv n (fst (tick env n)) \<or> stands conv n (fst (tick env n))"
  using pre_campaign_moves [OF assms, of conv] steady_relinquish [of conv n env]
    calm_steady [OF calm_replicate_all, of conv n env] calm_steady [OF calm_timer, of conv n env]
  by (auto simp: tick_def)

lemma on_pre_vote_reply_moves:
  assumes "vr_granted m \<Longrightarrow> campaign_saves env n"
  shows "steady conv n (fst (on_pre_vote_reply env n p m)) \<or> stands conv n (fst (on_pre_vote_reply env n p m))"
proof -
  have c: "stands conv n (fst (campaign env (n\<lparr>rn_pre_votes := a, rn_pre_forgotten := b\<rparr>)))" if "vr_granted m" for a b
    by (rule stands_from [OF campaign_stands])
       (use assms [OF that] in \<open>simp_all add: campaign_saves_def durable_def local_index_def\<close>)
  have u: "steady conv n (n\<lparr>rn_pre_votes := a, rn_pre_forgotten := b\<rparr>)" "steady conv n (n\<lparr>rn_pre_refusals := d\<rparr>)" for a b d
    by (rule calm_steady, rule calmI; simp add: same_ballots_def)+
  have r: "steady conv n (reset_election_timer env (n\<lparr>rn_pre_refusals := d, rn_role := FOLLOWER, rn_pre_votes := {}, rn_pre_refusals := {}\<rparr>))" for d
    by (rule steady_retire) (simp_all add: reset_election_timer_def ballot_def)
  show ?thesis
    using c u r [of "insert p (rn_pre_refusals n)"] steady_step_down [of n "vr_term m" conv "en_save env"]
    by (auto simp: on_pre_vote_reply_def Let_def)
qed

lemma on_request_vote_reply_moves:
  assumes "vr_pre_vote m \<Longrightarrow> vr_granted m \<Longrightarrow> campaign_saves env n"
  shows "let n' = fst (on_request_vote_reply env n p m)
    in steady conv n n' \<or> stands conv n n' \<or>
       counts n n' (if vr_granted m then insert p (rn_votes n) else rn_votes n) \<and> vr_term m = rn_term n \<and> \<not> vr_pre_vote m"
proof (cases "vr_pre_vote m \<or> vr_term m > rn_term n \<or> rn_role n \<noteq> CANDIDATE \<or> vr_term m \<noteq> rn_term n")
  case True
  then show ?thesis
    using on_pre_vote_reply_moves [of m env n conv p] assms steady_step_down [of n "vr_term m" conv "en_save env"]
    by (auto simp: on_request_vote_reply_def)
next
  case False
  let ?n = "n\<lparr>rn_forgotten := (if vr_voting m then rn_forgotten n else insert p (rn_forgotten n)),
              rn_votes := (if vr_granted m then insert p (rn_votes n) else rn_votes n)\<rparr>"
  have r: "fst (on_request_vote_reply env n p m) =
      (if won ?n (rn_votes ?n) (rn_forgotten ?n) then fst (become_leader env ?n) else ?n)"
    using False by (simp add: on_request_vote_reply_def)
  have "counts n (fst (on_request_vote_reply env n p m)) (if vr_granted m then insert p (rn_votes n) else rn_votes n)"
  proof (cases "won ?n (rn_votes ?n) (rn_forgotten ?n)")
    case True
    note cl = become_leader_calm [of ?n env]
    have "has_votes ?n" using won_quorum [OF True] by (simp add: has_votes_def)
    moreover have "votes_posted n (fst (become_leader env ?n)) (honest n)"
      by (rule votes_posted_from [OF calm_posts [OF cl]]) simp
    ultimately show ?thesis
      unfolding r using True cl False by (simp add: counts_def calm_def same_ballots_def ballot_def has_votes_def)
  next
    case no: False
    then show ?thesis unfolding r using False by (simp add: counts_def ballot_def votes_posted_def)
  qed
  then show ?thesis using False by (simp add: Let_def)
qed

end
