(* ===== verification/Reservation.thy ===== *)
theory Reservation
  imports Cursors Persist
begin

section \<open>Cursors that no restart repeats\<close>

text \<open>
  The part of \<open>src/nmos/raft/node.py\<close> that joins the allocator to the state file:
  \<open>RaftNode.__init__\<close> (the load and the resume), \<open>allocate_cursor\<close> and \<open>_persist\<close>, over the
  fields they use. A member's life is then a step relation: it runs, allocates, observes,
  changes its term or vote, crashes and starts again, while the operating system may fail any
  save at any point; \<open>handed\<close> is the ghost list of the cursors that left the member, newest
  first.
\<close>

record CursorNode =
  cn_cursors :: CursorAllocator
  cn_terms :: TermStore
  cn_term :: int
  cn_voted_for :: "int option"
  cn_incarnation :: int

definition cn_state :: "CursorNode \<Rightarrow> TaiCursor option \<Rightarrow> PersistentState" where
  "cn_state m r = \<lparr>ps_term = cn_term m, ps_voted_for = cn_voted_for m,
                   ps_incarnation = cn_incarnation m, ps_reservation = r\<rparr>"

text \<open>\<open>__init__\<close>: the terms are loaded, then the fresh allocator resumes above the reservation.\<close>

definition start_node ::
  "(json \<Rightarrow> int res) \<Rightarrow> SaveOutcome \<Rightarrow> int \<Rightarrow> TermStore \<Rightarrow> TermStore \<times> CursorNode res" where
  "start_node conv os owner ts =
     (case new_allocator owner of
        Inl e \<Rightarrow> (ts, Inl e)
      | Inr a \<Rightarrow>
          (case load_state conv os ts of
             (ts', Inl e) \<Rightarrow> (ts', Inl e)
           | (ts', Inr st) \<Rightarrow>
               (ts', Inr \<lparr>cn_cursors = resume a (ps_reservation st), cn_terms = ts',
                         cn_term = ps_term st, cn_voted_for = ps_voted_for st,
                         cn_incarnation = ps_incarnation st\<rparr>)))"

definition allocate_cursor ::
  "TaiCursor \<Rightarrow> SaveOutcome \<Rightarrow> CursorNode \<Rightarrow> ResourceType \<Rightarrow> CursorNode \<times> TaiCursor res" where
  "allocate_cursor tn os m rt =
     (let (a, cursor) = allocate tn (cn_cursors m) rt
      in case reservation_needed a cursor of
           None \<Rightarrow> (m\<lparr>cn_cursors := a\<rparr>, Inr cursor)
         | Some needed \<Rightarrow>
             (case save_state os (cn_terms m) (cn_state m (Some needed)) of
                (ts, Inl e) \<Rightarrow>
                  (m\<lparr>cn_cursors := a, cn_terms := ts\<rparr>,
                   Inl (if e = OSError then RaftCursorReservationFailed else e))
              | (ts, Inr _) \<Rightarrow>
                  (m\<lparr>cn_cursors := confirm_reservation a needed, cn_terms := ts\<rparr>, Inr cursor)))"

definition persist :: "SaveOutcome \<Rightarrow> CursorNode \<Rightarrow> CursorNode \<times> unit res" where
  "persist os m =
     (case save_state os (cn_terms m) (cn_state m (reservation (cn_cursors m))) of
        (ts, r) \<Rightarrow> (m\<lparr>cn_terms := ts\<rparr>, r))"

subsection \<open>A member's life\<close>

record Life =
  disk :: TermStore
  running :: "CursorNode option"
  handed :: "(ResourceType \<times> TaiCursor) list"

text \<open>A clock reading or an observed cursor: two numbers that are not negative.\<close>

definition pos_cursor :: "TaiCursor \<Rightarrow> bool" where
  "pos_cursor c \<longleftrightarrow> 0 \<le> seconds c \<and> 0 \<le> nanoseconds c"

inductive life_step :: "(json \<Rightarrow> int res) \<Rightarrow> int \<Rightarrow> Life \<Rightarrow> Life \<Rightarrow> bool"
  for conv :: "json \<Rightarrow> int res" and owner :: int where
  boot: "running l = None \<Longrightarrow> start_node conv os owner (disk l) = (ts, Inr m) \<Longrightarrow>
      life_step conv owner l (l\<lparr>disk := ts, running := Some m\<rparr>)"
| boot_fails: "running l = None \<Longrightarrow> start_node conv os owner (disk l) = (ts, Inl e) \<Longrightarrow>
      life_step conv owner l (l\<lparr>disk := ts\<rparr>)"
| hand_out: "running l = Some m \<Longrightarrow> pos_cursor tn \<Longrightarrow> allocate_cursor tn os m rt = (m', Inr c) \<Longrightarrow>
      life_step conv owner l (l\<lparr>disk := cn_terms m', running := Some m', handed := (rt, c) # handed l\<rparr>)"
| refused: "running l = Some m \<Longrightarrow> pos_cursor tn \<Longrightarrow> allocate_cursor tn os m rt = (m', Inl e) \<Longrightarrow>
      life_step conv owner l (l\<lparr>disk := cn_terms m', running := Some m'\<rparr>)"
| observes: "running l = Some m \<Longrightarrow> pos_cursor c \<Longrightarrow>
      life_step conv owner l (l\<lparr>running := Some (m\<lparr>cn_cursors := observe (cn_cursors m) rt c\<rparr>)\<rparr>)"
| new_term: "running l = Some m \<Longrightarrow> persist os (m\<lparr>cn_term := t, cn_voted_for := v\<rparr>) = (m', r) \<Longrightarrow>
      life_step conv owner l (l\<lparr>disk := cn_terms m', running := Some m'\<rparr>)"
| crash: "life_step conv owner l (l\<lparr>running := None\<rparr>)"

inductive_cases life_step_cases
  [consumes 1, case_names boot boot_fails hand_out refused observes new_term crash]: "life_step conv owner l l'"

text \<open>A member whose state file does not exist yet, and everything that can happen to it.\<close>

definition newborn :: Life where
  "newborn = \<lparr>disk = new_term_store NoFile, running = None, handed = []\<rparr>"

inductive lives :: "(json \<Rightarrow> int res) \<Rightarrow> int \<Rightarrow> Life \<Rightarrow> bool"
  for conv :: "json \<Rightarrow> int res" and owner :: int where
  born: "lives conv owner newborn"
| goes_on: "lives conv owner l \<Longrightarrow> life_step conv owner l l' \<Longrightarrow> lives conv owner l'"

subsection \<open>The invariant\<close>

text \<open>The bound the file records: nothing handed out lies above it.\<close>

definition bounded_by :: "TaiCursor option \<Rightarrow> (ResourceType \<times> TaiCursor) list \<Rightarrow> bool" where
  "bounded_by r h \<longleftrightarrow> (\<forall>(rt, c) \<in> set h. case r of None \<Rightarrow> False | Some b \<Rightarrow> c \<le> b)"

definition file_bounds :: "StateFile \<Rightarrow> (ResourceType \<times> TaiCursor) list \<Rightarrow> bool" where
  "file_bounds f h \<longleftrightarrow> (f = NoFile \<and> h = []) \<or>
     (\<exists>st. f = Document (state_document st) \<and> printable_state st \<and>
           wf_reservation (ps_reservation st) \<and> bounded_by (ps_reservation st) h)"

definition pos_opt :: "TaiCursor option \<Rightarrow> bool" where
  "pos_opt r \<longleftrightarrow> (case r of None \<Rightarrow> True | Some c \<Rightarrow> pos_cursor c)"

text \<open>What a running allocator knows: everything handed out is at most its mark or its floor.\<close>

definition covered :: "CursorAllocator \<Rightarrow> (ResourceType \<times> TaiCursor) list \<Rightarrow> bool" where
  "covered a h \<longleftrightarrow> (\<forall>(rt, c) \<in> set h.
     (case ca_high_water a rt of None \<Rightarrow> False | Some w \<Rightarrow> c \<le> w) \<or>
     (case ca_floor a of None \<Rightarrow> False | Some b \<Rightarrow> c \<le> b))"

definition alloc_inv :: "int \<Rightarrow> CursorAllocator \<Rightarrow> (ResourceType \<times> TaiCursor) list \<Rightarrow> bool" where
  "alloc_inv owner a h \<longleftrightarrow> wf_allocator a \<and> ca_owner a = owner \<and> covered a h \<and>
     bounded_by (ca_reserved a) h \<and> pos_opt (ca_reserved a) \<and> pos_opt (ca_floor a) \<and>
     (\<forall>rt. pos_opt (ca_high_water a rt))"

definition ordered :: "(ResourceType \<times> TaiCursor) list \<Rightarrow> bool" where
  "ordered h \<longleftrightarrow> sorted_wrt (\<lambda>(t1, c1) (t2, c2). t1 = t2 \<longrightarrow> c2 < c1) h"

text \<open>While the member runs, the file is one it wrote and records at least its reservation.\<close>

definition file_at_least :: "StateFile \<Rightarrow> TaiCursor option \<Rightarrow> bool" where
  "file_at_least f r \<longleftrightarrow>
     (\<exists>st. f = Document (state_document st) \<and> printable_state st \<and> wf_reservation (ps_reservation st) \<and>
           (\<forall>b. r = Some b \<longrightarrow> (\<exists>b'. ps_reservation st = Some b' \<and> b \<le> b')))"

definition life_inv :: "int \<Rightarrow> Life \<Rightarrow> bool" where
  "life_inv owner l \<longleftrightarrow> ordered (handed l) \<and> (\<forall>(rt, c) \<in> set (handed l). owner_of c = owner) \<and>
     (case running l of
        None \<Rightarrow> file_bounds (ts_file (disk l)) (handed l)
      | Some m \<Rightarrow> cn_terms m = disk l \<and> alloc_inv owner (cn_cursors m) (handed l) \<and>
                  file_at_least (ts_file (disk l)) (ca_reserved (cn_cursors m)))"

subsection \<open>The allocator keeps it\<close>

lemma allocate_state:
  assumes "allocate tn a rt = (a', c)"
  shows "a' = a\<lparr>ca_high_water := (ca_high_water a)(rt \<mapsto> c)\<rparr>"
  using assms by (auto simp: allocate_def Let_def)

text \<open>The mark an allocation has to pass, and that it passes it.\<close>

definition mark :: "CursorAllocator \<Rightarrow> ResourceType \<Rightarrow> TaiCursor option" where
  "mark a rt =
     (case ca_floor a of
        None \<Rightarrow> ca_high_water a rt
      | Some b \<Rightarrow> if (case ca_high_water a rt of None \<Rightarrow> True | Some p \<Rightarrow> p < b)
                  then Some b else ca_high_water a rt)"

lemma allocate_cursor_value:
  "snd (allocate tn a rt) =
    (case mark a rt of None \<Rightarrow> in_lane a tn
     | Some p \<Rightarrow> if in_lane a tn \<le> p then next_in_lane a p else in_lane a tn)"
  by (simp add: allocate_def mark_def Let_def)

lemma mark_least:
  "ca_high_water a rt = Some w \<Longrightarrow> \<exists>p. mark a rt = Some p \<and> w \<le> p"
  "ca_floor a = Some b \<Longrightarrow> \<exists>p. mark a rt = Some p \<and> b \<le> p"
  by (auto simp: mark_def not_less less_imp_le split: option.splits)

lemma mark_pos: "pos_opt (ca_floor a) \<Longrightarrow> pos_opt (ca_high_water a rt) \<Longrightarrow> pos_opt (mark a rt)"
  by (auto simp: mark_def pos_opt_def split: option.splits)

lemma allocate_above_mark:
  assumes "wf_allocator a" and "mark a rt = Some p"
  shows "p < snd (allocate tn a rt)"
  using assms next_in_lane_greater [OF assms(1), of p] by (simp add: allocate_cursor_value not_le)

lemma allocate_lane: "wf_allocator a \<Longrightarrow> owner_of (snd (allocate tn a rt)) = ca_owner a"
  by (simp add: allocate_cursor_value in_lane_owner next_in_lane_owner split: option.split)

lemma lane_pos:
  assumes "wf_allocator a" and "pos_cursor c"
  shows "pos_cursor (in_lane a c)" "pos_cursor (next_in_lane a c)"
  using assms by (auto simp: in_lane_eq next_in_lane_eq Let_def pos_cursor_def wf_allocator_def)

lemma allocate_pos:
  assumes "wf_allocator a" "pos_cursor tn" "pos_opt (mark a rt)"
  shows "pos_cursor (snd (allocate tn a rt))"
  using assms lane_pos by (auto simp: allocate_cursor_value pos_opt_def split: option.splits)

lemma covered_below_mark:
  assumes "covered a h" and "(rt, c) \<in> set h"
  shows "\<exists>p. mark a rt = Some p \<and> c \<le> p"
proof -
  consider w where "ca_high_water a rt = Some w" "c \<le> w" | b where "ca_floor a = Some b" "c \<le> b"
    using assms by (fastforce simp: covered_def split: option.splits)
  then show ?thesis
  proof cases
    case 1
    then show ?thesis using mark_least(1) order_trans by blast
  next
    case 2
    then show ?thesis using mark_least(2) order_trans by blast
  qed
qed

lemma covered_mono:
  assumes "covered a h" and "ca_floor a' = ca_floor a"
    and "\<And>rt w. ca_high_water a rt = Some w \<Longrightarrow> \<exists>w'. ca_high_water a' rt = Some w' \<and> w \<le> w'"
  shows "covered a' h"
proof -
  have "(case ca_high_water a' rt of None \<Rightarrow> False | Some w \<Rightarrow> c \<le> w)"
    if "case ca_high_water a rt of None \<Rightarrow> False | Some w \<Rightarrow> c \<le> w" for rt c
    using that assms(3) [of rt] by (cases "ca_high_water a rt") (auto intro: order_trans)
  then show ?thesis using assms(1,2) unfolding covered_def by (simp add: split_beta) blast
qed

lemma bounded_by_mono: "bounded_by r h \<Longrightarrow> (\<And>b. r = Some b \<Longrightarrow> \<exists>b'. r' = Some b' \<and> b \<le> b') \<Longrightarrow> bounded_by r' h"
  by (cases r) (auto simp: bounded_by_def split_beta intro: order_trans)

text \<open>One allocation: the mark rises to the new cursor, which nothing handed out reaches.\<close>

lemma alloc_inv_allocate:
  assumes inv: "alloc_inv owner a h" and "pos_cursor tn" and alloc: "allocate tn a rt = (a', c)"
  shows "alloc_inv owner a' h" "covered a' ((rt, c) # h)" "pos_cursor c" "owner_of c = owner"
    "\<And>d. (rt, d) \<in> set h \<Longrightarrow> d < c" "ca_reserved a' = ca_reserved a"
proof -
  have wf: "wf_allocator a" "ca_owner a = owner" using inv by (simp_all add: alloc_inv_def)
  have c: "c = snd (allocate tn a rt)" by (simp add: alloc)
  note a' = allocate_state [OF alloc]
  show lower: "d < c" if "(rt, d) \<in> set h" for d
    using covered_below_mark [of a h rt d] allocate_above_mark [OF wf(1), of rt _ tn] inv that
    unfolding c by (auto simp: alloc_inv_def intro: le_less_trans)
  show pos: "pos_cursor c"
    unfolding c using wf(1) assms(2) inv by (intro allocate_pos mark_pos) (auto simp: alloc_inv_def)
  show "owner_of c = owner" unfolding c using allocate_lane [OF wf(1)] wf(2) by simp
  show "ca_reserved a' = ca_reserved a" by (simp add: a')
  have up: "\<exists>w'. ca_high_water a' t = Some w' \<and> w \<le> w'" if old: "ca_high_water a t = Some w" for t w
  proof (cases "t = rt")
    case True
    obtain p where "mark a rt = Some p" "w \<le> p" using mark_least(1) [OF old] unfolding True by blast
    then have "w \<le> c" using allocate_above_mark [OF wf(1)] unfolding c by (meson le_less_trans less_imp_le)
    then show ?thesis by (simp add: a' True)
  qed (use old in \<open>simp add: a'\<close>)
  have old: "covered a h" using inv by (simp add: alloc_inv_def)
  have cov: "covered a' h" by (rule covered_mono [OF old _ up]) (simp add: a', assumption)
  then show "covered a' ((rt, c) # h)" by (simp add: covered_def a')
  have "pos_opt (ca_high_water a' t)" for t
    using inv pos by (auto simp: a' alloc_inv_def pos_opt_def)
  then show "alloc_inv owner a' h" using inv cov by (simp add: alloc_inv_def a' wf_allocator_def)
qed

lemma alloc_inv_observe:
  assumes "alloc_inv owner a h" and "pos_cursor c"
  shows "alloc_inv owner (observe a rt c) h"
proof -
  have up: "\<exists>w'. ca_high_water (observe a rt c) t = Some w' \<and> w \<le> w'" if "ca_high_water a t = Some w" for t w
    using that by (cases "t = rt") (auto simp: observe_def)
  have old: "covered a h" using assms(1) by (simp add: alloc_inv_def)
  have "covered (observe a rt c) h" by (rule covered_mono [OF old _ up]) (simp add: observe_def, assumption)
  moreover have "pos_opt (ca_high_water (observe a rt c) t)" for t
    using assms by (auto simp: observe_def alloc_inv_def pos_opt_def)
  ultimately show ?thesis
    using assms(1) by (simp add: alloc_inv_def observe_def wf_allocator_def)
qed

lemma needed_covers: "reservation_needed a c = Some n \<Longrightarrow> c \<le> n"
  by (auto simp: reservation_needed_def RESERVATION_WINDOW_SECONDS_def less_eq_TaiCursor_def split: if_splits)

lemma needed_pos: "reservation_needed a c = Some n \<Longrightarrow> pos_cursor c \<Longrightarrow> pos_cursor n"
  by (auto simp: reservation_needed_def RESERVATION_WINDOW_SECONDS_def pos_cursor_def split: if_splits)

lemma needed_above: "reservation_needed a c = Some n \<Longrightarrow> ca_reserved a = Some b \<Longrightarrow> b \<le> n"
proof -
  assume n: "reservation_needed a c = Some n" and b: "ca_reserved a = Some b"
  then have "b < c" by (auto simp: reservation_needed_def split: if_splits)
  then show "b \<le> n" using needed_covers [OF n] by (rule less_imp_le [OF less_le_trans])
qed

lemma not_needed_covers: "reservation_needed a c = None \<Longrightarrow> \<exists>b. ca_reserved a = Some b \<and> c \<le> b"
  by (auto simp: reservation_needed_def split: if_splits option.splits)

subsection \<open>Every step keeps it\<close>

lemma file_bounds_at_least:
  assumes "file_at_least f r" and "bounded_by r h"
  shows "file_bounds f h"
proof -
  obtain st where st: "f = Document (state_document st)" "printable_state st" "wf_reservation (ps_reservation st)"
      "\<forall>b. r = Some b \<longrightarrow> (\<exists>b'. ps_reservation st = Some b' \<and> b \<le> b')"
    using assms(1) unfolding file_at_least_def by blast
  have "bounded_by (ps_reservation st) h" by (rule bounded_by_mono [OF assms(2)]) (use st(4) in blast)
  then show ?thesis unfolding file_bounds_def using st by blast
qed

lemma saved_at_least:
  assumes "printable_state st" "wf_reservation (ps_reservation st)"
    and "\<And>b. r = Some b \<Longrightarrow> \<exists>b'. ps_reservation st = Some b' \<and> b \<le> b'"
  shows "file_at_least (Document (state_document st)) r"
  unfolding file_at_least_def using assms by blast

lemma pos_opt_wf: "pos_opt r \<longleftrightarrow> wf_reservation r"
  by (cases r) (simp_all add: pos_opt_def pos_cursor_def wf_reservation_def)

text \<open>A save at or above the reservation keeps the file at least there, however it ends.\<close>

lemma save_keeps_at_least:
  assumes "file_at_least (ts_file ts) r" and "save_state os ts st = (ts', x)" and "wf_reservation (ps_reservation st)"
    and "\<And>b. r = Some b \<Longrightarrow> \<exists>b'. ps_reservation st = Some b' \<and> b \<le> b'"
  shows "file_at_least (ts_file ts') r"
  by (rule save_state_cases [of st os ts]) (use assms saved_at_least [of st r] in auto)

lemma load_bounds:
  assumes "file_bounds (ts_file ts) h" and "load_state conv os ts = (ts', x)"
  shows "file_bounds (ts_file ts') h"
    and "x = Inr st \<Longrightarrow> file_at_least (ts_file ts') (ps_reservation st) \<and> bounded_by (ps_reservation st) h \<and>
           wf_reservation (ps_reservation st)"
proof -
  obtain st0 where read: "read_state conv (ts_file ts) = Inr st0" and b: "bounded_by (ps_reservation st0) h"
      and w: "wf_reservation (ps_reservation st0)"
  proof (cases "ts_file ts = NoFile")
    case True
    then have "h = []" using assms(1) by (auto simp: file_bounds_def)
    with True that show ?thesis by (simp add: read_state_def bounded_by_def wf_reservation_def)
  next
    case False
    then obtain s where s: "ts_file ts = Document (state_document s)" "printable_state s"
        "wf_reservation (ps_reservation s)" "bounded_by (ps_reservation s) h"
      using assms(1) unfolding file_bounds_def by blast
    with that read_saved [OF s(2,3), of conv] show ?thesis by auto
  qed
  have new: "file_at_least (Document (state_document st0)) (ps_reservation st0)" if "printable_state st0"
    by (rule saved_at_least) (use that w in auto)
  have load: "load_state conv os ts = (case save_state os ts st0 of (ts', Inl e) \<Rightarrow> (ts', Inl e) | (ts', Inr _) \<Rightarrow> (ts', Inr st0))"
    by (simp add: load_state_def read)
  show "file_bounds (ts_file ts') h"
    by (rule save_state_cases [of st0 os ts])
       (use assms load new file_bounds_at_least [OF new b] in auto)
  show "x = Inr st \<Longrightarrow> file_at_least (ts_file ts') (ps_reservation st) \<and> bounded_by (ps_reservation st) h \<and>
      wf_reservation (ps_reservation st)"
    by (rule save_state_cases [of st0 os ts]) (use assms load new b w in auto)
qed

lemma life_inv_boot:
  assumes "life_inv owner l" "running l = None" "start_node conv os owner (disk l) = (ts, x)"
  shows "x = Inl e \<Longrightarrow> life_inv owner (l\<lparr>disk := ts\<rparr>)"
    and "x = Inr m \<Longrightarrow> life_inv owner (l\<lparr>disk := ts, running := Some m\<rparr>)"
proof -
  have fb: "file_bounds (ts_file (disk l)) (handed l)" using assms(1,2) by (simp add: life_inv_def)
  show "life_inv owner (l\<lparr>disk := ts\<rparr>)" if x: "x = Inl e"
  proof (cases "new_allocator owner")
    case (Inl e')
    then have "ts = disk l" using assms(3) by (simp add: start_node_def)
    then show ?thesis using assms(1,2) by (simp add: life_inv_def)
  next
    case (Inr a)
    obtain r where "load_state conv os (disk l) = (ts, r)"
      using assms(3) Inr by (auto simp: start_node_def split: prod.splits sum.splits)
    then have "file_bounds (ts_file ts) (handed l)" by (rule load_bounds(1) [OF fb])
    then show ?thesis using assms(1,2) by (simp add: life_inv_def)
  qed
  show "life_inv owner (l\<lparr>disk := ts, running := Some m\<rparr>)" if x: "x = Inr m"
  proof -
    obtain a st where a: "new_allocator owner = Inr a" and load: "load_state conv os (disk l) = (ts, Inr st)"
        and m: "m = \<lparr>cn_cursors = resume a (ps_reservation st), cn_terms = ts, cn_term = ps_term st,
                    cn_voted_for = ps_voted_for st, cn_incarnation = ps_incarnation st\<rparr>"
      using assms(3) x by (auto simp: start_node_def split: prod.splits sum.splits)
    note b = load_bounds(2) [OF fb load, OF refl]
    have "covered (resume a (ps_reservation st)) (handed l)"
      using b by (auto simp: covered_def bounded_by_def resume_def)
    moreover have "pos_opt (ps_reservation st)"
      using b by (simp add: pos_opt_wf)
    ultimately have "alloc_inv owner (resume a (ps_reservation st)) (handed l)"
      using b a new_allocator_wf [OF a]
      by (auto simp: alloc_inv_def resume_def wf_allocator_def new_allocator_def pos_opt_def split: if_splits)
    then show ?thesis
      using b assms(1) by (simp add: life_inv_def m resume_def)
  qed
qed

lemma ordered_Cons: "ordered h \<Longrightarrow> (\<And>d. (rt, d) \<in> set h \<Longrightarrow> d < c) \<Longrightarrow> ordered ((rt, c) # h)"
  by (auto simp: ordered_def)

text \<open>What an allocation does to the node, in its three outcomes.\<close>

lemma allocate_cursor_outcomes [consumes 2, case_names within failed reserved]:
  assumes "allocate tn (cn_cursors m) rt = (a, c)" and "allocate_cursor tn os m rt = (m', x)"
  obtains (within) "reservation_needed a c = None" "m' = m\<lparr>cn_cursors := a\<rparr>" "x = Inr c"
  | (failed) n ts e where "reservation_needed a c = Some n"
      "save_state os (cn_terms m) (cn_state m (Some n)) = (ts, Inl e)"
      "m' = m\<lparr>cn_cursors := a, cn_terms := ts\<rparr>" "\<exists>e'. x = Inl e'"
  | (reserved) n ts where "reservation_needed a c = Some n"
      "save_state os (cn_terms m) (cn_state m (Some n)) = (ts, Inr ())"
      "m' = m\<lparr>cn_cursors := confirm_reservation a n, cn_terms := ts\<rparr>" "x = Inr c"
proof (cases "reservation_needed a c")
  case None
  then show ?thesis using assms within by (simp add: allocate_cursor_def)
next
  case (Some n)
  obtain ts r where save: "save_state os (cn_terms m) (cn_state m (Some n)) = (ts, r)" by fastforce
  show ?thesis
  proof (cases r)
    case (Inl e)
    then show ?thesis using assms Some save by (intro failed [of n ts e]) (auto simp: allocate_cursor_def)
  next
    case (Inr u)
    then show ?thesis using assms Some save by (intro reserved [of n ts]) (auto simp: allocate_cursor_def)
  qed
qed

lemma confirm_needed:
  assumes "reservation_needed a c = Some n"
  shows "confirm_reservation a n = a\<lparr>ca_reserved := Some n\<rparr>"
proof (cases "ca_reserved a")
  case (Some b)
  then have "b < c" using assms by (auto simp: reservation_needed_def split: if_splits)
  then have "b < n" using needed_covers [OF assms] by (rule less_le_trans)
  then show ?thesis by (simp add: confirm_reservation_def Some)
qed (simp add: confirm_reservation_def)

lemma life_inv_allocate:
  assumes inv: "life_inv owner l" and run: "running l = Some m" and tn: "pos_cursor tn"
    and alloc: "allocate_cursor tn os m rt = (m', x)"
  shows "x = Inl e \<Longrightarrow> life_inv owner (l\<lparr>disk := cn_terms m', running := Some m'\<rparr>)"
    and "x = Inr d \<Longrightarrow>
      life_inv owner (l\<lparr>disk := cn_terms m', running := Some m', handed := (rt, d) # handed l\<rparr>)"
proof -
  let ?h = "handed l"
  have l: "ordered ?h" "\<forall>(rt, c) \<in> set ?h. owner_of c = owner" "cn_terms m = disk l"
      "alloc_inv owner (cn_cursors m) ?h" "file_at_least (ts_file (disk l)) (ca_reserved (cn_cursors m))"
    using inv run by (simp_all add: life_inv_def)
  obtain a c where a: "allocate tn (cn_cursors m) rt = (a, c)" by fastforce
  note step = alloc_inv_allocate [OF l(4) tn a]
  have at_least: "file_at_least (ts_file ts) (ca_reserved a)"
    if "reservation_needed a c = Some n" "save_state os (cn_terms m) (cn_state m (Some n)) = (ts, r)" for n ts r
  proof (rule save_keeps_at_least [OF _ that(2)])
    show "file_at_least (ts_file (cn_terms m)) (ca_reserved a)" using l(3,5) step(6) by simp
    show "wf_reservation (ps_reservation (cn_state m (Some n)))"
      using needed_pos [OF that(1) step(3)] by (simp add: cn_state_def wf_reservation_def pos_cursor_def)
    show "ca_reserved a = Some b \<Longrightarrow> \<exists>b'. ps_reservation (cn_state m (Some n)) = Some b' \<and> b \<le> b'" for b
      using needed_above [OF that(1)] by (simp add: cn_state_def)
  qed
  have order: "ordered ((rt, c) # ?h)" by (rule ordered_Cons [OF l(1) step(5)])
  have lane: "\<forall>(rt, c) \<in> set ((rt, c) # ?h). owner_of c = owner" using l(2) step(4) by simp
  show "life_inv owner (l\<lparr>disk := cn_terms m', running := Some m'\<rparr>)" if "x = Inl e"
    using a alloc by (cases rule: allocate_cursor_outcomes)
      (use that l step at_least in \<open>auto simp: life_inv_def\<close>)
  show "life_inv owner (l\<lparr>disk := cn_terms m', running := Some m', handed := (rt, d) # ?h\<rparr>)" if x: "x = Inr d"
    using a alloc
  proof (cases rule: allocate_cursor_outcomes)
    case within
    obtain b where b: "ca_reserved a = Some b" "c \<le> b" using not_needed_covers [OF within(1)] by blast
    have "bounded_by (ca_reserved a) ((rt, c) # ?h)"
      using step(1) b by (simp add: alloc_inv_def bounded_by_def)
    then have "alloc_inv owner a ((rt, c) # ?h)" using step(1,2) by (simp add: alloc_inv_def)
    then show ?thesis using within x l order lane step(6) by (simp add: life_inv_def)
  next
    case (failed n ts e)
    then show ?thesis using x by simp
  next
    case (reserved n ts)
    let ?a = "a\<lparr>ca_reserved := Some n\<rparr>"
    have conf: "confirm_reservation a n = ?a" by (rule confirm_needed [OF reserved(1)])
    have "bounded_by (Some n) ?h"
      by (rule bounded_by_mono [of "ca_reserved a"])
         (use step(1) needed_above [OF reserved(1)] in \<open>auto simp: alloc_inv_def\<close>)
    then have bound: "bounded_by (Some n) ((rt, c) # ?h)"
      using needed_covers [OF reserved(1)] by (simp add: bounded_by_def)
    have "covered ?a ((rt, c) # ?h)" using step(2) by (simp add: covered_def)
    then have "alloc_inv owner ?a ((rt, c) # ?h)"
      using step(1) bound needed_pos [OF reserved(1) step(3)]
      by (simp add: alloc_inv_def wf_allocator_def pos_opt_def)
    moreover have "file_at_least (ts_file ts) (Some n)"
    proof (cases rule: save_state_cases [of "cn_state m (Some n)" os "cn_terms m"])
      case (4 w)
      have "file_at_least (Document (state_document (cn_state m (Some n)))) (Some n)"
        by (rule saved_at_least [OF 4(1)])
           (use needed_pos [OF reserved(1) step(3)] in \<open>simp_all add: cn_state_def wf_reservation_def pos_cursor_def\<close>)
      then show ?thesis using reserved(2) 4(3) by auto
    qed (use reserved(2) in simp_all)
    ultimately show ?thesis using reserved x order lane conf by (simp add: life_inv_def)
  qed
qed

lemma life_inv_step:
  assumes "life_step conv owner l l'" and inv: "life_inv owner l"
  shows "life_inv owner l'"
  using assms(1)
proof (cases rule: life_step_cases)
  case (observes m c rt)
  then show ?thesis using inv alloc_inv_observe [of owner "cn_cursors m" "handed l" c rt]
    by (simp add: life_inv_def observe_def)
next
  case (new_term m os v t m' r)
  let ?m = "m\<lparr>cn_term := t, cn_voted_for := v\<rparr>" and ?r = "ca_reserved (cn_cursors m)"
  obtain ts where s: "save_state os (cn_terms ?m) (cn_state ?m ?r) = (ts, r)" and m': "m' = ?m\<lparr>cn_terms := ts\<rparr>"
    using new_term(3) by (auto simp: persist_def reservation_def split: prod.splits)
  have l: "cn_terms m = disk l" "alloc_inv owner (cn_cursors m) (handed l)" "file_at_least (ts_file (disk l)) ?r"
    using inv new_term(2) by (simp_all add: life_inv_def)
  have "file_at_least (ts_file ts) ?r"
    by (rule save_keeps_at_least [OF _ s])
       (use l pos_opt_wf in \<open>auto simp: cn_state_def alloc_inv_def\<close>)
  then show ?thesis using inv new_term l by (simp add: life_inv_def m')
next
  case crash
  have "file_bounds (ts_file (disk l)) (handed l)"
    using inv file_bounds_at_least
    by (cases "running l") (auto simp: life_inv_def alloc_inv_def)
  then show ?thesis using crash inv by (simp add: life_inv_def)
qed (simp_all add: life_inv_boot [OF inv] life_inv_allocate [OF inv])

lemma life_invariant: "lives conv owner l \<Longrightarrow> life_inv owner l"
proof (induction rule: lives.induct)
  case born
  show ?case by (simp add: life_inv_def newborn_def new_term_store_def file_bounds_def ordered_def)
qed (rule life_inv_step)

subsection \<open>What the reservation promises\<close>

text \<open>
  C17: a member never hands out the same cursor twice, and never an older one, whatever
  crashes it goes through. In every life of a member, of any number of starts, with saves
  failing at any point, the clock stepping back at will and cursors of other members observed
  in between, the cursors handed out for one kind of resource strictly increase, and all
  carry the member's own number in their low bits.
\<close>

theorem cursors_never_repeat:
  assumes "lives conv owner l"
  shows "(\<forall>i j rt c d. i < j \<and> j < length (handed l) \<and> handed l ! i = (rt, c) \<and> handed l ! j = (rt, d) \<longrightarrow> d < c) \<and>
    (\<forall>rt c. (rt, c) \<in> set (handed l) \<longrightarrow> owner_of c = owner)"
proof -
  have inv: "ordered (handed l)" "\<forall>(rt, c) \<in> set (handed l). owner_of c = owner"
    using life_invariant [OF assms] by (simp_all add: life_inv_def)
  have "d < c" if "i < j" "j < length (handed l)" "handed l ! i = (rt, c)" "handed l ! j = (rt, d)" for i j rt c d
    using sorted_wrt_nth_less [OF inv(1) [unfolded ordered_def] that(1,2)] that(3,4) by simp
  then show ?thesis using inv(2) by blast
qed

text \<open>Two starts with a crash between them, under a clock that stands still.\<close>

definition no_conv :: "json \<Rightarrow> int res" where "no_conv j = Inl TypeError"

definition life_after :: "TaiCursor \<Rightarrow> Life \<Rightarrow> Life" where
  "life_after tn l =
     (case start_node no_conv Saved 1 (disk l) of
        (ts, Inl e) \<Rightarrow> l\<lparr>disk := ts\<rparr>
      | (ts, Inr m) \<Rightarrow>
          (case allocate_cursor tn Saved m NODE of
             (m', Inl e) \<Rightarrow> l\<lparr>disk := cn_terms m'\<rparr>
           | (m', Inr c) \<Rightarrow> l\<lparr>disk := cn_terms m', handed := (NODE, c) # handed l\<rparr>))"

lemma life_after_lives:
  assumes "lives no_conv 1 l" "running l = None" "pos_cursor tn"
  shows "lives no_conv 1 (life_after tn l)" "running (life_after tn l) = None"
proof -
  show "lives no_conv 1 (life_after tn l)"
  proof (cases "start_node no_conv Saved 1 (disk l)")
    case start: (Pair ts x)
    show ?thesis
    proof (cases x)
      case (Inl e)
      then show ?thesis
        using lives.goes_on [OF assms(1) life_step.boot_fails [OF assms(2)]] start by (simp add: life_after_def)
    next
      case (Inr m)
      let ?l = "l\<lparr>disk := ts, running := Some m\<rparr>"
      have up: "lives no_conv 1 ?l"
        using lives.goes_on [OF assms(1) life_step.boot [OF assms(2)]] start Inr by blast
      obtain m' y where a: "allocate_cursor tn Saved m NODE = (m', y)" by fastforce
      have "running ?l = Some m" by simp
      note steps = life_step.hand_out [OF this assms(3)] life_step.refused [OF this assms(3)]
      have off: "l\<lparr>disk := d, running := r, handed := h\<rparr>\<lparr>running := None\<rparr> = l\<lparr>disk := d, handed := h\<rparr>"
        "l\<lparr>disk := d, running := r\<rparr>\<lparr>running := None\<rparr> = l\<lparr>disk := d\<rparr>" for d r h
        using assms(2) by (cases l; simp)+
      show ?thesis
      proof (cases y)
        case (Inl e)
        have "lives no_conv 1 (?l\<lparr>disk := cn_terms m', running := Some m'\<rparr>\<lparr>running := None\<rparr>)"
          by (intro lives.goes_on [OF lives.goes_on [OF up steps(2)] life_step.crash]) (use a Inl in blast)
        then show ?thesis using start Inr a Inl off by (simp add: life_after_def)
      next
        case (Inr c)
        have "lives no_conv 1
            (?l\<lparr>disk := cn_terms m', running := Some m', handed := (NODE, c) # handed ?l\<rparr>\<lparr>running := None\<rparr>)"
          by (intro lives.goes_on [OF lives.goes_on [OF up steps(1)] life_step.crash]) (use a Inr in blast)
        then show ?thesis using start \<open>x = Inr m\<close> a Inr off by (simp add: life_after_def)
      qed
    qed
  qed
  show "running (life_after tn l) = None"
    using assms(2) by (simp add: life_after_def split: prod.split sum.split)
qed

definition lane_one :: "TaiCursor option \<Rightarrow> CursorAllocator" where
  "lane_one r = \<lparr>ca_owner = 1, ca_high_water = Map.empty, ca_floor = r, ca_reserved = r\<rparr>"

lemma life_after_read:
  assumes "read_state no_conv (ts_file (disk l)) = Inr st" "printable_state st"
    and "allocate tn (lane_one (ps_reservation st)) NODE = (a, c)" "reservation_needed a c = Some n"
    and "printable_state (st\<lparr>ps_reservation := Some n\<rparr>)"
  shows "ts_file (disk (life_after tn l)) = Document (state_document (st\<lparr>ps_reservation := Some n\<rparr>))"
    "handed (life_after tn l) = (NODE, c) # handed l"
proof -
  have "resume \<lparr>ca_owner = 1, ca_high_water = Map.empty, ca_floor = None, ca_reserved = None\<rparr> r = lane_one r" for r
    by (simp add: resume_def lane_one_def)
  then show "ts_file (disk (life_after tn l)) = Document (state_document (st\<lparr>ps_reservation := Some n\<rparr>))"
    "handed (life_after tn l) = (NODE, c) # handed l"
    using assms
    by (cases st; simp add: life_after_def start_node_def new_allocator_def load_state_def save_state_def
        allocate_cursor_def cn_state_def)+
qed

lemma two_lives:
  "handed (life_after (TaiCursor 5 3) (life_after (TaiCursor 5 3) newborn)) =
     [(NODE, TaiCursor 6 9), (NODE, TaiCursor 5 1)]"
proof -
  let ?t = "TaiCursor 5 3" and ?l = "life_after (TaiCursor 5 3) newborn"
  let ?st = "\<lambda>i r. \<lparr>ps_term = 0, ps_voted_for = None, ps_incarnation = i, ps_reservation = r\<rparr>"
  have wf: "wf_allocator (lane_one r)" for r by (simp add: wf_allocator_def lane_one_def)
  have p: "printable_state (?st i r)" if "i \<in> {1, 2}" "r \<in> {None, Some (TaiCursor 6 1), Some (TaiCursor 7 9)}" for i r
    using that by (auto simp: printable_state_def printable_small)
  have w: "ca_owner (lane_one r) = 1" for r by (simp add: lane_one_def)
  have lane: "in_lane (lane_one r) ?t = TaiCursor 5 1" "next_in_lane (lane_one r) (TaiCursor 6 1) = TaiCursor 6 9" for r
    by (simp_all add: in_lane_eq [OF wf] next_in_lane_eq [OF wf] w)
  have sel: "ca_floor (lane_one r) = r" "ca_reserved (lane_one r) = r" "ca_high_water (lane_one r) = Map.empty" for r
    by (simp_all add: lane_one_def)
  have le: "TaiCursor 5 1 \<le> TaiCursor 6 1" by (simp add: less_eq_TaiCursor_def)
  have "snd (allocate ?t (lane_one None) NODE) = TaiCursor 5 1"
    "snd (allocate ?t (lane_one (Some (TaiCursor 6 1))) NODE) = TaiCursor 6 9"
    by (simp_all add: allocate_cursor_value mark_def sel lane le)
  then obtain a b where alloc: "allocate ?t (lane_one None) NODE = (a, TaiCursor 5 1)"
      "allocate ?t (lane_one (Some (TaiCursor 6 1))) NODE = (b, TaiCursor 6 9)"
    by (metis prod.collapse)
  have res: "ca_reserved a = None" "ca_reserved b = Some (TaiCursor 6 1)"
    by (simp_all add: allocate_state [OF alloc(1)] allocate_state [OF alloc(2)] sel)
  have need: "reservation_needed a (TaiCursor 5 1) = Some (TaiCursor 6 1)"
      "reservation_needed b (TaiCursor 6 9) = Some (TaiCursor 7 9)"
    using res by (simp_all add: reservation_needed_def RESERVATION_WINDOW_SECONDS_def less_eq_TaiCursor_def)
  have first: "read_state no_conv (ts_file (disk newborn)) = Inr (?st 1 None)"
    by (simp add: newborn_def new_term_store_def read_state_def)
  have "handed ?l = [(NODE, TaiCursor 5 1)]" "ts_file (disk ?l) = Document (state_document (?st 1 (Some (TaiCursor 6 1))))"
    using life_after_read [OF first _ _ need(1)] alloc(1) p by (simp_all add: newborn_def)
  moreover have "read_state no_conv (Document (state_document (?st 1 (Some (TaiCursor 6 1))))) =
      Inr (?st 2 (Some (TaiCursor 6 1)))"
    using read_saved [of "?st 1 (Some (TaiCursor 6 1))" no_conv] p by (simp add: wf_reservation_def)
  ultimately show ?thesis
    using life_after_read(2) [of ?l "?st 2 (Some (TaiCursor 6 1))" ?t b "TaiCursor 6 9" "TaiCursor 7 9"] alloc(2) need(2) p
    by simp
qed

theorem cursors_never_repeat_witness:
  "lives no_conv 1 (life_after (TaiCursor 5 3) (life_after (TaiCursor 5 3) newborn)) \<and>
   TaiCursor 5 1 < TaiCursor 6 9 \<and> owner_of (TaiCursor 6 9) = 1"
proof -
  have tn: "pos_cursor (TaiCursor 5 3)" by (simp add: pos_cursor_def)
  have "running newborn = None" by (simp add: newborn_def)
  note one = life_after_lives [OF lives.born this tn]
  note two = life_after_lives [OF one tn]
  note never = cursors_never_repeat [OF two(1), unfolded two_lives]
  have "TaiCursor 5 1 < TaiCursor 6 9"
    using conjunct1 [OF never, rule_format, of 0 1 NODE "TaiCursor 6 9" "TaiCursor 5 1"] by simp
  moreover have "owner_of (TaiCursor 6 9) = 1"
    using conjunct2 [OF never, rule_format, of NODE "TaiCursor 6 9"] by simp
  ultimately show ?thesis using two(1) by blast
qed



end
