(* ===== verification/Cluster.thy ===== *)
theory Cluster
  imports Election_Safety Reservation
begin

section \<open>A cluster of members\<close>

text \<open>
  Any number of members over a network that may lose, delay, duplicate and reorder messages,
  with crashes and restarts at any moment and saves that the operating system may fail. The
  steps are the handlers of \<open>src/nmos/raft/node.py\<close>, reached as \<open>src/nmos/raft/transport.py\<close>
  reaches them: \<open>dispatch\<close> is \<open>_dispatch\<close> with the routing of replies in \<open>_resolve\<close>. A
  handler that raises leaves the member as it was when it raised and answers nothing.

  The network is the set of all messages ever sent: delivering one twice, late or never are
  all steps of the relation. \<open>cl_ballots\<close> and \<open>cl_elected\<close> are ghosts: the votes that left a
  member or that it counts for itself, and the leaderships that began.
\<close>

subsection \<open>Delivering\<close>

definition replies :: "('r \<Rightarrow> message) \<Rightarrow> 'r act \<Rightarrow> message option act" where
  "replies f r = and_then r (\<lambda>n x. (n, Inr (Some (f x))))"

definition silent :: "unit act \<Rightarrow> message option act" where
  "silent r = and_then r (\<lambda>n _. (n, Inr None))"

fun dispatch :: "Env \<Rightarrow> RaftNode \<Rightarrow> int \<Rightarrow> message \<Rightarrow> message option act" where
  "dispatch env n p (MPing m) = (n, Inr (Some (MPong \<lparr>po_nonce = pi_nonce m\<rparr>)))"
| "dispatch env n p (MRequestVote m) = replies MRequestVoteReply (on_request_vote env n m)"
| "dispatch env n p (MAppendEntries m) = replies MAppendEntriesReply (on_append_entries env n m)"
| "dispatch env n p (MInstallSnapshot m) = replies MInstallSnapshotReply (on_install_snapshot env n p m)"
| "dispatch env n p (MPromote m) = (on_promote n m, Inr None)"
| "dispatch env n p (MPropose m) = replies MProposeReply (on_propose env n m)"
| "dispatch env n p (MRequestVoteReply m) = silent (on_request_vote_reply env n p m)"
| "dispatch env n p (MAppendEntriesReply m) = silent (on_append_entries_reply env n p m)"
| "dispatch env n p (MInstallSnapshotReply m) = silent (on_install_snapshot_reply env n p m)"
| "dispatch env n p m = (n, Inr None)"

subsection \<open>What a member does of its own accord\<close>

definition cursor_node :: "RaftNode \<Rightarrow> CursorNode" where
  "cursor_node n = \<lparr>cn_cursors = ma_cursors (rn_machine n), cn_terms = rn_terms n, cn_term = rn_term n,
     cn_voted_for = rn_voted_for n, cn_incarnation = rn_incarnation n\<rparr>"

definition with_cursors :: "RaftNode \<Rightarrow> CursorNode \<Rightarrow> RaftNode" where
  "with_cursors n c = n\<lparr>rn_machine := (rn_machine n)\<lparr>ma_cursors := cn_cursors c\<rparr>, rn_terms := cn_terms c\<rparr>"

text \<open>
  \<open>_maybe_compact\<close> is two steps, around the yields of \<open>finish\<close>: the second runs only while the
  capture the first opened is still open (\<open>finish\<close> raises \<open>SnapshotAbandoned\<close> otherwise), with
  the index and term it is pinned at and a bound on discarding that never exceeds that index.
  A capture that fails is abandoned.
\<close>

inductive acts :: "Env \<Rightarrow> RaftNode \<Rightarrow> RaftNode \<Rightarrow> bool" for env where
  applies: "acts env n (fst (apply_batch env clock n))"
| stops: "acts env n (fail_node env n err)"
| proposes: "acts env n (fst (propose env n op f))"
| flushes: "acts env n (fst (flush env n))"
| reads: "acts env n (fst (begin_read env n f))"
| compacts: "acts env n (fst (compact_begin n))"
| compacted: "open_capture (rn_machine n) = Some c \<Longrightarrow> discard_to \<le> cap_index c \<Longrightarrow>
    acts env n (fst (compact_end n (cap_index c, cap_term c, discard_to) payload))"
| abandons: "acts env n (n\<lparr>rn_machine := (rn_machine n)\<lparr>ma_snapshots := map_option (\<lambda>_. None) (ma_snapshots (rn_machine n))\<rparr>\<rparr>)"
| connects: "acts env n (fst (on_peer_state env n p up inc))"
| allocates: "allocate_cursor tn os (cursor_node n) rt = (c, r) \<Longrightarrow> acts env n (with_cursors n c)"
| gives_up: "acts env n (settle f Cancelled n)"

subsection \<open>Steps of the cluster\<close>

record Cluster =
  cl_nodes :: "int \<Rightarrow> RaftNode option"
  cl_disk :: "int \<Rightarrow> TermStore"
  cl_net :: "(int \<times> int \<times> message) set"
  cl_ballots :: "(int \<times> int \<times> int) set"
  cl_elected :: "(int \<times> int) set"

definition posted :: "int \<Rightarrow> RaftNode \<Rightarrow> (int \<times> int \<times> message) set" where
  "posted i n = {(i, p, m) | p m s. (p, m, s) \<in> set (rn_outbox n)}"

definition own_ballot :: "int \<Rightarrow> RaftNode \<Rightarrow> (int \<times> int \<times> int) set" where
  "own_ballot i n = {(i, rn_term n, i) | u :: unit. rn_role n \<in> {CANDIDATE, LEADER} \<and> i \<in> rn_votes n}"

definition put :: "int \<Rightarrow> RaftNode \<Rightarrow> Cluster \<Rightarrow> Cluster" where
  "put i n c = c\<lparr>cl_nodes := (cl_nodes c)(i \<mapsto> n\<lparr>rn_outbox := []\<rparr>), cl_net := cl_net c \<union> posted i n,
     cl_ballots := cl_ballots c \<union> own_ballot i n,
     cl_elected := cl_elected c \<union> {(rn_term n, i) | u :: unit. rn_role n = LEADER}\<rparr>"

definition granted_ballot :: "int \<Rightarrow> message \<Rightarrow> message option res \<Rightarrow> (int \<times> int \<times> int) set" where
  "granted_ballot i m r =
     (case (m, r) of
        (MRequestVote q, Inr (Some (MRequestVoteReply v))) \<Rightarrow>
          if vr_granted v \<and> \<not> vr_pre_vote v then {(i, vr_term v, rv_candidate q)} else {}
      | _ \<Rightarrow> {})"

definition answer :: "int \<Rightarrow> int \<Rightarrow> message \<Rightarrow> message option res \<Rightarrow> Cluster \<Rightarrow> Cluster" where
  "answer i j m r c = c\<lparr>cl_net := cl_net c \<union> (case r of Inr (Some a) \<Rightarrow> {(i, j, a)} | _ \<Rightarrow> {}),
     cl_ballots := cl_ballots c \<union> granted_ballot i m r\<rparr>"

text \<open>
  Every member has the same list of members and starts with a machine that has applied nothing
  and captures nothing. \<open>saves\<close> restricts what the operating system may
  do during a tick (\<open>None\<close>) or the delivery of a message.
\<close>

inductive cluster_step ::
  "(json \<Rightarrow> int res) \<Rightarrow> RaftMember list \<Rightarrow> (Env \<Rightarrow> RaftNode \<Rightarrow> message option \<Rightarrow> bool) \<Rightarrow> Cluster \<Rightarrow> Cluster \<Rightarrow> bool"
  for conv members saves where
  start: "cl_nodes c i = None \<Longrightarrow> mb \<in> set members \<Longrightarrow> mb_index mb = i \<Longrightarrow>
     ma_last_applied m = 0 \<Longrightarrow> open_capture m = None \<Longrightarrow>
     start_member conv os \<lparr>ly_members = members, ly_local = mb, ly_cluster_id = cid\<rparr> tm m (cl_disk c i) = (ts, Inr n) \<Longrightarrow>
     cluster_step conv members saves c (put i n c)"
| no_start: "cl_nodes c i = None \<Longrightarrow>
     start_member conv os ly tm m (cl_disk c i) = (ts, Inl e) \<Longrightarrow>
     cluster_step conv members saves c (c\<lparr>cl_disk := (cl_disk c)(i := ts)\<rparr>)"
| crash: "cl_nodes c i = Some n \<Longrightarrow>
     cluster_step conv members saves c (c\<lparr>cl_nodes := (cl_nodes c)(i := None), cl_disk := (cl_disk c)(i := rn_terms n)\<rparr>)"
| ticks: "cl_nodes c i = Some n \<Longrightarrow> saves env n None \<Longrightarrow>
     cluster_step conv members saves c (put i (fst (tick env n)) c)"
| deliver: "cl_nodes c i = Some n \<Longrightarrow> (j, i, m) \<in> cl_net c \<Longrightarrow> saves env n (Some m) \<Longrightarrow> dispatch env n j m = (n', r) \<Longrightarrow>
     cluster_step conv members saves c (answer i j m r (put i n' c))"
| acts: "cl_nodes c i = Some n \<Longrightarrow> acts env n n' \<Longrightarrow>
     cluster_step conv members saves c (put i n' c)"

text \<open>The cluster before any member has run: any state files, nothing sent.\<close>

definition cluster_start :: "(int \<Rightarrow> TermStore) \<Rightarrow> Cluster" where
  "cluster_start disks = \<lparr>cl_nodes = (\<lambda>_. None), cl_disk = disks, cl_net = {}, cl_ballots = {}, cl_elected = {}\<rparr>"

inductive cluster_reach ::
  "(json \<Rightarrow> int res) \<Rightarrow> RaftMember list \<Rightarrow> (Env \<Rightarrow> RaftNode \<Rightarrow> message option \<Rightarrow> bool) \<Rightarrow> (int \<Rightarrow> TermStore) \<Rightarrow> Cluster \<Rightarrow> bool"
  for conv members saves disks where
  init: "cluster_reach conv members saves disks (cluster_start disks)"
| step: "cluster_reach conv members saves disks c \<Longrightarrow> cluster_step conv members saves c c' \<Longrightarrow>
     cluster_reach conv members saves disks c'"

text \<open>
  The operating system may fail any save except one: that of a campaign, which a tick or a
  granted pre-vote can start.
\<close>

definition campaigns_saved :: "Env \<Rightarrow> RaftNode \<Rightarrow> message option \<Rightarrow> bool" where
  "campaigns_saved env n m \<longleftrightarrow>
     (case m of
        None \<Rightarrow> campaign_saves env n
      | Some (MRequestVoteReply r) \<Rightarrow> vr_pre_vote r \<and> vr_granted r \<longrightarrow> campaign_saves env n
      | _ \<Rightarrow> True)"

subsection \<open>Every step keeps the ballots\<close>

lemma allocate_moves:
  assumes "allocate_cursor tn os (cursor_node n) rt = (c, r)"
  shows "steady conv n (with_cursors n c)"
proof -
  have d: "(ps_term (cn_state (cursor_node n) x), ps_voted_for (cn_state (cursor_node n) x)) = ballot n" for x
    by (simp add: cn_state_def cursor_node_def ballot_def)
  have "cn_terms c = rn_terms n \<or> stored conv (cn_terms c) \<subseteq> {ballot n}"
  proof (cases "reservation_needed (fst (allocate tn (ma_cursors (rn_machine n)) rt)) (snd (allocate tn (ma_cursors (rn_machine n)) rt))")
    case None
    then show ?thesis using assms by (auto simp: allocate_cursor_def split_beta cursor_node_def)
  next
    case (Some x)
    let ?st = "cn_state (cursor_node n) (Some x)"
    obtain ts y where sv: "save_state os (rn_terms n) ?st = (ts, y)" by fastforce
    have ts: "cn_terms c = ts"
      using assms Some sv
      by (cases y) (auto simp: allocate_cursor_def split_beta cursor_node_def)
    have "ts = rn_terms n \<or> stored conv ts \<subseteq> {ballot n}"
      using sv stored_document [of conv ?st] unfolding d by (cases rule: save_state_cases [of ?st os "rn_terms n"]) auto
    then show ?thesis using ts by simp
  qed
  moreover have "steady conv n (n\<lparr>rn_machine := x\<rparr>)" for x by (rule calm_steady [OF calm_update(6)])
  moreover have "steady conv (n\<lparr>rn_machine := x\<rparr>) (n\<lparr>rn_machine := x, rn_terms := ts\<rparr>)"
    if "stored conv ts \<subseteq> {ballot n}" for x ts
    using steady_save [of conv ts "n\<lparr>rn_machine := x\<rparr>"] that by (simp add: ballot_def)
  ultimately show ?thesis
    unfolding with_cursors_def by (auto intro: steady_trans)
qed

lemma acts_steady: "acts env n n' \<Longrightarrow> steady conv n n'"
  by (induction rule: acts.induct)
     (auto intro: allocate_moves steady_fail_node calm_steady calm_intros)
subsection \<open>The invariant\<close>

text \<open>Where a member's ballots are remembered: memory and disk while it runs, the disk while it is down.\<close>

definition remembers :: "(json \<Rightarrow> int res) \<Rightarrow> Cluster \<Rightarrow> int \<Rightarrow> ballot set" where
  "remembers conv c v =
     (case cl_nodes c v of
        Some n \<Rightarrow> insert (ballot n) (stored conv (rn_terms n))
      | None \<Rightarrow> stored conv (cl_disk c v))"

definition votes_once :: "Cluster \<Rightarrow> bool" where
  "votes_once c \<longleftrightarrow> (\<forall>v t a b. (v, t, a) \<in> cl_ballots c \<longrightarrow> (v, t, b) \<in> cl_ballots c \<longrightarrow> a = b)"

definition votes_kept :: "(json \<Rightarrow> int res) \<Rightarrow> Cluster \<Rightarrow> bool" where
  "votes_kept conv c \<longleftrightarrow>
     (\<forall>v t a. (v, t, a) \<in> cl_ballots c \<longrightarrow> (\<forall>b \<in> remembers conv c v. below (t, Some a) b)) \<and>
     (\<forall>i n. cl_nodes c i = Some n \<longrightarrow> (\<forall>b \<in> stored conv (rn_terms n). below b (ballot n)))"

definition seated :: "RaftMember list \<Rightarrow> int \<Rightarrow> RaftNode \<Rightarrow> bool" where
  "seated members i n \<longleftrightarrow> ly_members (rn_layout n) = members \<and> local_index n = i \<and> rn_outbox n = []"

definition tallied :: "Cluster \<Rightarrow> bool" where
  "tallied c \<longleftrightarrow>
     (\<forall>i n. cl_nodes c i = Some n \<longrightarrow> rn_role n \<in> {CANDIDATE, LEADER} \<longrightarrow>
        (\<forall>v \<in> rn_votes n. (v, rn_term n, i) \<in> cl_ballots c)) \<and>
     (\<forall>v i r. (v, i, MRequestVoteReply r) \<in> cl_net c \<longrightarrow> vr_granted r \<and> \<not> vr_pre_vote r \<longrightarrow> (v, vr_term r, i) \<in> cl_ballots c) \<and>
     (\<forall>j i q. (j, i, MRequestVote q) \<in> cl_net c \<longrightarrow> rv_candidate q = j)"

definition backed :: "RaftMember list \<Rightarrow> Cluster \<Rightarrow> int \<Rightarrow> int \<Rightarrow> bool" where
  "backed members c t i \<longleftrightarrow>
     (\<exists>Q. Q \<subseteq> mb_index ` set members \<and> length members div 2 + 1 \<le> card Q \<and> (\<forall>v \<in> Q. (v, t, i) \<in> cl_ballots c))"

definition elections :: "RaftMember list \<Rightarrow> Cluster \<Rightarrow> bool" where
  "elections members c \<longleftrightarrow> (\<forall>t i. (t, i) \<in> cl_elected c \<longrightarrow> backed members c t i) \<and>
     (\<forall>i n. cl_nodes c i = Some n \<longrightarrow> rn_role n = LEADER \<longrightarrow> (rn_term n, i) \<in> cl_elected c)"

definition cluster_inv :: "(json \<Rightarrow> int res) \<Rightarrow> RaftMember list \<Rightarrow> Cluster \<Rightarrow> bool" where
  "cluster_inv conv members c \<longleftrightarrow> votes_once c \<and> votes_kept conv c \<and> tallied c \<and> elections members c \<and>
     (\<forall>i n. cl_nodes c i = Some n \<longrightarrow> seated members i n)"

lemmas cluster_inv_defs = cluster_inv_def votes_once_def votes_kept_def tallied_def elections_def

lemma cluster_invD:
  assumes "cluster_inv conv members c"
  shows "(v, t, a) \<in> cl_ballots c \<Longrightarrow> (v, t, b) \<in> cl_ballots c \<Longrightarrow> a = b"
    "(v, t, a) \<in> cl_ballots c \<Longrightarrow> x \<in> remembers conv c v \<Longrightarrow> below (t, Some a) x"
    "cl_nodes c i = Some n \<Longrightarrow> x \<in> stored conv (rn_terms n) \<Longrightarrow> below x (ballot n)"
    "cl_nodes c i = Some n \<Longrightarrow> rn_role n \<in> {CANDIDATE, LEADER} \<Longrightarrow> v \<in> rn_votes n \<Longrightarrow> (v, rn_term n, i) \<in> cl_ballots c"
    "(v, i, MRequestVoteReply r) \<in> cl_net c \<Longrightarrow> vr_granted r \<Longrightarrow> \<not> vr_pre_vote r \<Longrightarrow> (v, vr_term r, i) \<in> cl_ballots c"
    "(j, i, MRequestVote q) \<in> cl_net c \<Longrightarrow> rv_candidate q = j"
    "(t, i) \<in> cl_elected c \<Longrightarrow> backed members c t i"
    "cl_nodes c i = Some n \<Longrightarrow> rn_role n = LEADER \<Longrightarrow> (rn_term n, i) \<in> cl_elected c"
    "cl_nodes c i = Some n \<Longrightarrow> seated members i n"
  using assms unfolding cluster_inv_defs by (auto simp del: insert_iff)

lemma quorum_nat: "ly_members ly = members \<Longrightarrow> nat (quorum ly) = length members div 2 + 1"
  by (simp add: quorum_def size_of_def nat_add_distrib nat_div_distrib)

lemma has_votes_backed:
  assumes "has_votes n" "ly_members (rn_layout n) = members" "\<forall>v \<in> rn_votes n. (v, t, i) \<in> cl_ballots c"
  shows "backed members c t i"
  unfolding backed_def using assms quorum_nat [OF assms(2)]
  by (intro exI [of _ "rn_votes n \<inter> mb_index ` set members"]) (simp add: has_votes_def member_indexes_def)

lemma backed_mono: "backed members c t i \<Longrightarrow> cl_ballots c \<subseteq> cl_ballots c' \<Longrightarrow> backed members c' t i"
  unfolding backed_def by blast

subsection \<open>Preservation\<close>

lemma posted_votes:
  assumes "votes_posted n n' (honest n)" "rn_outbox n = []" "local_index n = i"
  shows "(j, k, MRequestVoteReply r) \<notin> posted i n'" "(j, k, MRequestVote q) \<in> posted i n' \<Longrightarrow> rv_candidate q = j"
  using assms by (fastforce simp: votes_posted_def posted_def honest_def is_vote_def)+

text \<open>
  Replacing one running member: what the new state must satisfy, given the ballots that count
  from then on.
\<close>

lemma cluster_inv_put:
  assumes inv: "cluster_inv conv members c" and n: "cl_nodes c i = Some n"
    and lay: "rn_layout n' = rn_layout n" and posts: "votes_posted n n' (honest n)"
    and once: "own_ballot i n' \<subseteq> cl_ballots c \<or> rn_term n < rn_term n' \<and> ballot n' = (rn_term n', Some i)"
    and up: "below (ballot n) (ballot n')"
    and disk: "stored conv (rn_terms n') = stored conv (rn_terms n) \<or>
      (\<forall>b \<in> stored conv (rn_terms n'). below (ballot n) b \<and> below b (ballot n') \<and> (own_ballot i n' \<subseteq> cl_ballots c \<or> b = ballot n'))"
    and kept: "own_ballot i n' \<subseteq> cl_ballots c \<or> stored conv (rn_terms n') \<subseteq> {ballot n'}"
    and tally: "rn_role n' \<in> {CANDIDATE, LEADER} \<longrightarrow> (\<forall>v \<in> rn_votes n'. (v, rn_term n', i) \<in> cl_ballots c \<union> own_ballot i n')"
    and won: "rn_role n' = LEADER \<longrightarrow> has_votes n' \<or> (rn_term n', i) \<in> cl_elected c"
  shows "cluster_inv conv members (put i n' c)"
proof -
  let ?c = "put i n' c"
  have seat: "ly_members (rn_layout n) = members" "local_index n = i" "rn_outbox n = []"
    using inv n by (simp_all add: cluster_inv_def seated_def)
  have B: "cl_ballots ?c = cl_ballots c \<union> own_ballot i n'" and N: "cl_net ?c = cl_net c \<union> posted i n'"
    and E: "cl_elected ?c = cl_elected c \<union> {(rn_term n', i) | u :: unit. rn_role n' = LEADER}"
    and M: "cl_nodes ?c = (cl_nodes c)(i \<mapsto> n'\<lparr>rn_outbox := []\<rparr>)" "cl_disk ?c = cl_disk c"
    by (simp_all add: put_def)
  have own: "own_ballot i n' \<subseteq> {(i, rn_term n', i)}" by (auto simp: own_ballot_def)
  have old: "below (t, Some a) (ballot n)" "\<forall>b \<in> stored conv (rn_terms n). below (t, Some a) b" if "(i, t, a) \<in> cl_ballots c" for t a
  proof -
    have r: "remembers conv c i = insert (ballot n) (stored conv (rn_terms n))" by (simp add: remembers_def n)
    have "\<forall>b \<in> remembers conv c i. below (t, Some a) b"
      using inv that unfolding cluster_inv_def votes_kept_def by blast
    then show "below (t, Some a) (ballot n)" "\<forall>b \<in> stored conv (rn_terms n). below (t, Some a) b" by (simp_all add: r)
  qed
  have "votes_once ?c"
  proof -
    have "a = i" if "(i, rn_term n', a) \<in> cl_ballots c" "\<not> own_ballot i n' \<subseteq> cl_ballots c" for a
      using old(1) [OF that(1)] once that(2) by (auto simp: below_def ballot_def)
    then have new: "a = i" if "(i, rn_term n', a) \<in> cl_ballots c" "(i, rn_term n', i) \<notin> cl_ballots c" "own_ballot i n' \<noteq> {}" for a
      using that own by blast
    have old_once: "a = b" if "(v, t, a) \<in> cl_ballots c" "(v, t, b) \<in> cl_ballots c" for v t a b
      using inv that unfolding cluster_inv_def votes_once_def by blast
    show ?thesis
      unfolding votes_once_def B
    proof (intro allI impI)
      fix v t a b
      assume ab: "(v, t, a) \<in> cl_ballots c \<union> own_ballot i n'" "(v, t, b) \<in> cl_ballots c \<union> own_ballot i n'"
      show "a = b"
      proof (cases "(v, t, a) \<in> cl_ballots c \<and> (v, t, b) \<in> cl_ballots c")
        case False
        then have own': "own_ballot i n' \<noteq> {}" "v = i" "t = rn_term n'" using ab own by auto
        have "x = i" if "(i, rn_term n', x) \<in> cl_ballots c \<union> own_ballot i n'" for x
        proof (cases "(i, rn_term n', x) \<in> cl_ballots c")
          case True
          then show ?thesis using new [OF True _ own'(1)] old_once [OF True, of i] by blast
        qed (use that own in auto)
        then show ?thesis using ab unfolding own'(2,3) by metis
      qed (use old_once in blast)
    qed
  qed
  moreover have "votes_kept conv ?c"
  proof -
    have up': "below (t, Some a) (ballot n')" "\<forall>b \<in> stored conv (rn_terms n'). below (t, Some a) b" if "(i, t, a) \<in> cl_ballots c" for t a
      using old [OF that] below_trans [OF old(1) [OF that]] up disk by auto
    have new: "below (t, Some a) (ballot n')" "\<forall>b \<in> stored conv (rn_terms n'). below (t, Some a) b"
      if "(v, t, a) \<in> own_ballot i n'" "(v, t, a) \<notin> cl_ballots c" for v t a
    proof -
      have e: "t = rn_term n'" "a = i" "ballot n' = (rn_term n', Some i)" "stored conv (rn_terms n') \<subseteq> {ballot n'}"
        using that once kept own by auto
      then show "below (t, Some a) (ballot n')" "\<forall>b \<in> stored conv (rn_terms n'). below (t, Some a) b" by auto
    qed
    have b': "ballot (n'\<lparr>rn_outbox := []\<rparr>) = ballot n'" by (simp add: ballot_def)
    have "\<forall>b \<in> remembers conv ?c v. below (t, Some a) b" if "(v, t, a) \<in> cl_ballots ?c" for v t a
    proof (cases "v = i")
      case True
      have r: "remembers conv ?c i = insert (ballot n') (stored conv (rn_terms n'))" by (simp add: remembers_def M b')
      show ?thesis using that new up' unfolding True r B by (cases "(i, t, a) \<in> cl_ballots c") auto
    next
      case False
      then have "(v, t, a) \<in> cl_ballots c" using that own by (auto simp: B)
      moreover have "remembers conv ?c v = remembers conv c v" using False unfolding remembers_def M by simp
      ultimately show ?thesis using inv unfolding cluster_inv_def votes_kept_def by simp
    qed
    moreover have "\<forall>b \<in> stored conv (rn_terms n'). below b (ballot n')"
    proof -
      have "below b (ballot n)" if "b \<in> stored conv (rn_terms n)" for b using cluster_invD(3) [OF inv n that] .
      then show ?thesis using disk below_trans [OF _ up] by auto
    qed
    ultimately show ?thesis
      using cluster_invD(3) [OF inv] unfolding votes_kept_def M(1) by (auto simp: b' split: if_splits)
  qed
  moreover have "tallied ?c"
    using cluster_invD(4-6) [OF inv] tally posted_votes [OF posts seat(3,2)]
    unfolding tallied_def B N M(1) by (auto split: if_splits)
  moreover have "elections members ?c"
  proof -
    have "backed members ?c (rn_term n') i" if "rn_role n' = LEADER"
    proof (cases "has_votes n'")
      case True
      then show ?thesis
        using tally that lay seat(1) by (intro has_votes_backed [of n']) (auto simp: B)
    next
      case False
      then have "(rn_term n', i) \<in> cl_elected c" using won that by blast
      then show ?thesis using backed_mono [OF cluster_invD(7) [OF inv]] by (simp add: B)
    qed
    moreover have "backed members ?c t j" if "(t, j) \<in> cl_elected c" for t j
      using backed_mono [OF cluster_invD(7) [OF inv that]] by (simp add: B)
    ultimately show ?thesis
      using cluster_invD(8) [OF inv] unfolding elections_def E M(1) by (auto split: if_splits)
  qed
  moreover have "seated members i (n'\<lparr>rn_outbox := []\<rparr>)"
    using seat lay by (simp add: seated_def local_index_def)
  ultimately show ?thesis using inv unfolding cluster_inv_def M(1) by auto
qed
lemma put_steady:
  assumes inv: "cluster_inv conv members c" and n: "cl_nodes c i = Some n" and s: "steady conv n n'"
  shows "cluster_inv conv members (put i n' c)"
proof -
  have old: "own_ballot i n' \<subseteq> cl_ballots c"
    using s cluster_invD(4) [OF inv n] by (auto simp: own_ballot_def steady_def standing_def split: if_splits)
  have "v \<in> rn_votes n' \<longrightarrow> (v, rn_term n', i) \<in> cl_ballots c" if "rn_role n' \<in> {CANDIDATE, LEADER}" for v
    using s that cluster_invD(4) [OF inv n] by (auto simp: steady_def standing_def split: if_splits)
  moreover have "(rn_term n', i) \<in> cl_elected c" if "rn_role n' = LEADER"
    using s that cluster_invD(8) [OF inv n] by (auto simp: steady_def leading_def split: if_splits)
  ultimately show ?thesis
    using s old by (intro cluster_inv_put [OF inv n]) (auto simp: steady_def moves_def)
qed

lemma put_stands:
  assumes inv: "cluster_inv conv members c" and n: "cl_nodes c i = Some n" and s: "stands conv n n'"
  shows "cluster_inv conv members (put i n' c)"
proof -
  have i: "local_index n = i" using cluster_invD(9) [OF inv n] by (simp add: seated_def)
  have b: "ballot n' = (rn_term n + 1, Some i)" "rn_term n' = rn_term n + 1" "rn_votes n' = {i}"
      "stored conv (rn_terms n') \<subseteq> {ballot n'}" "rn_layout n' = rn_layout n" "votes_posted n n' (honest n)"
      "rn_role n' = CANDIDATE \<or> rn_role n' = LEADER \<and> has_votes n'"
    using s i by (auto simp: stands_def ballot_def)
  have up: "below (ballot n) (ballot n')" unfolding b(1) by (simp add: ballot_def below_def)
  have own: "(i, rn_term n', i) \<in> own_ballot i n'" using b(3,7) by (auto simp: own_ballot_def)
  show ?thesis
  proof (rule cluster_inv_put [OF inv n b(5,6) _ up])
    show "own_ballot i n' \<subseteq> cl_ballots c \<or> rn_term n < rn_term n' \<and> ballot n' = (rn_term n', Some i)"
      using b(1,2) by simp
    show "stored conv (rn_terms n') = stored conv (rn_terms n) \<or>
      (\<forall>x \<in> stored conv (rn_terms n'). below (ballot n) x \<and> below x (ballot n') \<and> (own_ballot i n' \<subseteq> cl_ballots c \<or> x = ballot n'))"
      using b(4) up by auto
    show "own_ballot i n' \<subseteq> cl_ballots c \<or> stored conv (rn_terms n') \<subseteq> {ballot n'}" using b(4) by simp
    show "rn_role n' \<in> {CANDIDATE, LEADER} \<longrightarrow> (\<forall>v \<in> rn_votes n'. (v, rn_term n', i) \<in> cl_ballots c \<union> own_ballot i n')"
      using own b(3) by simp
    show "rn_role n' = LEADER \<longrightarrow> has_votes n' \<or> (rn_term n', i) \<in> cl_elected c" using b(7) by auto
  qed
qed

lemma put_counts:
  assumes inv: "cluster_inv conv members c" and n: "cl_nodes c i = Some n" and s: "counts n n' V"
    and V: "\<forall>v \<in> V. (v, rn_term n, i) \<in> cl_ballots c"
  shows "cluster_inv conv members (put i n' c)"
proof -
  have b: "rn_term n' = rn_term n" "ballot n' = ballot n" using s by (simp_all add: counts_def ballot_def)
  have "own_ballot i n' \<subseteq> cl_ballots c" using s V b by (auto simp: own_ballot_def counts_def)
  then show ?thesis
    using s V b by (intro cluster_inv_put [OF inv n]) (auto simp: counts_def)
qed

text \<open>An answer in the network, with the ballot it carries.\<close>

lemma remembers_cong: "cl_nodes c' = cl_nodes c \<Longrightarrow> cl_disk c' = cl_disk c \<Longrightarrow> remembers conv c' = remembers conv c"
  by (rule ext) (simp only: remembers_def)

lemma answer_plain:
  assumes inv: "cluster_inv conv members c" and plain: "\<And>a. r = Inr (Some a) \<Longrightarrow> \<not> is_vote a"
  shows "cluster_inv conv members (answer i j m r c)"
proof -
  have g: "granted_ballot i m r = {}"
    using plain by (auto simp: granted_ballot_def is_vote_def split: message.split sum.split option.split)
  let ?c = "answer i j m r c"
  have S: "cl_ballots ?c = cl_ballots c" "cl_nodes ?c = cl_nodes c" "cl_elected ?c = cl_elected c" "cl_disk ?c = cl_disk c"
    by (simp_all add: answer_def g)
  have N: "(v, k, x) \<in> cl_net ?c \<Longrightarrow> is_vote x \<Longrightarrow> (v, k, x) \<in> cl_net c" for v k x
    using plain by (auto simp: answer_def split: sum.splits option.splits)
  have V: "is_vote (MRequestVote q)" "is_vote (MRequestVoteReply v)" for q v by (simp_all add: is_vote_def)
  have "tallied ?c"
    using cluster_invD(4) [OF inv] cluster_invD(5) [OF inv N [OF _ V(2)]] cluster_invD(6) [OF inv N [OF _ V(1)]]
    unfolding tallied_def S by blast
  moreover have "votes_once ?c" "votes_kept conv ?c" "elections members ?c"
    using inv unfolding cluster_inv_defs remembers_cong [OF S(2,4)] backed_def S by simp_all
  ultimately show ?thesis using inv unfolding cluster_inv_def S by blast
qed

lemma answer_vote:
  assumes inv: "cluster_inv conv members c" and n: "cl_nodes c i = Some n"
    and b: "vr_granted v \<and> \<not> vr_pre_vote v \<longrightarrow> vr_term v = rv_term q \<and> rv_candidate q = j \<and>
      ballot n = (rv_term q, Some j) \<and> stored conv (rn_terms n) \<subseteq> {ballot n}"
  shows "cluster_inv conv members (answer i j (MRequestVote q) (Inr (Some (MRequestVoteReply v))) c)"
proof -
  let ?c = "answer i j (MRequestVote q) (Inr (Some (MRequestVoteReply v))) c"
  let ?B = "granted_ballot i (MRequestVote q) (Inr (Some (MRequestVoteReply v)))"
  have B: "cl_ballots ?c = cl_ballots c \<union> ?B" and N: "cl_net ?c = insert (i, j, MRequestVoteReply v) (cl_net c)"
    and S: "cl_nodes ?c = cl_nodes c" "cl_disk ?c = cl_disk c" "cl_elected ?c = cl_elected c"
    by (simp_all add: answer_def)
  have R: "remembers conv ?c = remembers conv c" by (rule remembers_cong [OF S(1,2)])
  have new: "x = (i, rv_term q, j) \<and> ballot n = (rv_term q, Some j) \<and> stored conv (rn_terms n) \<subseteq> {ballot n}" if "x \<in> ?B" for x
    using that b by (auto simp: granted_ballot_def split: if_splits)
  have r: "remembers conv c i = insert (ballot n) (stored conv (rn_terms n))" by (simp add: remembers_def n)
  have kept: "below (t, Some a) x" if "(w, t, a) \<in> cl_ballots ?c" "x \<in> remembers conv c w" for w t a x
  proof (cases "(w, t, a) \<in> cl_ballots c")
    case True
    then show ?thesis by (rule cluster_invD(2) [OF inv _ that(2)])
  next
    case False
    then have e: "w = i" "t = rv_term q" "a = j" "ballot n = (t, Some a)" "stored conv (rn_terms n) \<subseteq> {ballot n}"
      using that(1) new [of "(w, t, a)"] unfolding B by auto
    then have "x = (t, Some a)" using that(2) r by auto
    then show ?thesis by simp
  qed
  have "a = a'" if "(w, t, a) \<in> cl_ballots ?c" "(w, t, a') \<in> cl_ballots ?c" for w t a a'
  proof (cases "(w, t, a) \<in> cl_ballots c \<and> (w, t, a') \<in> cl_ballots c")
    case False
    then have w: "w = i" "ballot n = (t, Some j)" using that new unfolding B by fastforce+
    have "below (t, Some a) (ballot n)" "below (t, Some a') (ballot n)"
      using kept that w(1) r by auto
    then show ?thesis using below_vote w(2) by auto
  qed (use cluster_invD(1) [OF inv] in blast)
  moreover have "votes_kept conv ?c"
    using kept cluster_invD(3) [OF inv] unfolding votes_kept_def R S by blast
  moreover have "tallied ?c"
    using cluster_invD(4-6) [OF inv] b unfolding tallied_def B N S
    by (auto simp: granted_ballot_def)
  moreover have "elections members ?c"
    using cluster_invD(8) [OF inv] backed_mono [OF cluster_invD(7) [OF inv], of _ _ ?c]
    unfolding elections_def S by (auto simp: B)
  ultimately show ?thesis
    using cluster_invD(9) [OF inv] unfolding cluster_inv_def votes_once_def S by blast
qed
subsection \<open>Starts and crashes\<close>

lemma load_stored:
  assumes "load_state conv os ts = (ts', r)"
  shows "stored conv ts' \<subseteq> stored conv ts"
    "r = Inr st \<Longrightarrow> (ps_term st, ps_voted_for st) \<in> stored conv ts \<and> stored conv ts' \<subseteq> {(ps_term st, ps_voted_for st)}"
proof -
  have "stored conv ts' \<subseteq> stored conv ts \<and>
    (\<forall>st. r = Inr st \<longrightarrow> (ps_term st, ps_voted_for st) \<in> stored conv ts \<and> stored conv ts' \<subseteq> {(ps_term st, ps_voted_for st)})"
  proof (cases "read_state conv (ts_file ts)")
    case (Inl e)
    then show ?thesis using assms by (auto simp: load_state_def)
  next
    case (Inr st)
    have m: "(ps_term st, ps_voted_for st) \<in> stored conv ts" using Inr by (auto simp: stored_def)
    obtain ts1 x where sv: "save_state os ts st = (ts1, x)" by fastforce
    have run: "ts' = ts1" "r = Inr st' \<Longrightarrow> st' = st \<and> x = Inr ()" for st'
      using assms Inr sv by (auto simp: load_state_def split: sum.splits)
    show ?thesis
      using sv stored_document [of conv st] m run
      by (cases rule: save_state_cases [of st os ts]) auto
  qed
  then show "stored conv ts' \<subseteq> stored conv ts"
    "r = Inr st \<Longrightarrow> (ps_term st, ps_voted_for st) \<in> stored conv ts \<and> stored conv ts' \<subseteq> {(ps_term st, ps_voted_for st)}"
    by blast+
qed

lemma inv_start:
  assumes inv: "cluster_inv conv members c" and down: "cl_nodes c i = None" and mb: "mb_index mb = i"
    and st: "start_member conv os \<lparr>ly_members = members, ly_local = mb, ly_cluster_id = cid\<rparr> tm m (cl_disk c i) = (ts, Inr n)"
  shows "cluster_inv conv members (put i n c)"
proof -
  let ?ly = "\<lparr>ly_members = members, ly_local = mb, ly_cluster_id = cid\<rparr>"
  obtain ps where ps: "load_state conv os (cl_disk c i) = (ts, Inr ps)" "n = new_node ?ly tm ts m ps"
    using st by (auto simp: start_member_def split: prod.splits sum.splits)
  note ld = load_stored(2) [OF ps(1) refl]
  have n: "ballot n = (ps_term ps, ps_voted_for ps)" "rn_role n = FOLLOWER" "rn_terms n = ts" "rn_outbox n = []"
      "seated members i (n\<lparr>rn_outbox := []\<rparr>)" "ballot (n\<lparr>rn_outbox := []\<rparr>) = ballot n"
    using mb unfolding ps(2) by (simp_all add: new_node_def ballot_def seated_def local_index_def)
  have P: "cl_nodes (put i n c) = (cl_nodes c)(i \<mapsto> n\<lparr>rn_outbox := []\<rparr>)" "cl_net (put i n c) = cl_net c"
      "cl_ballots (put i n c) = cl_ballots c" "cl_elected (put i n c) = cl_elected c" "cl_disk (put i n c) = cl_disk c"
    by (simp_all add: put_def posted_def own_ballot_def n)
  have r: "remembers conv c i = stored conv (cl_disk c i)" by (simp add: remembers_def down)
  have kept: "below (t, Some a) x" if "(v, t, a) \<in> cl_ballots c" "x \<in> remembers conv (put i n c) v" for v t a x
  proof (cases "v = i")
    case True
    have "x = ballot n" using that(2) ld unfolding True remembers_def P(1) by (auto simp: n)
    then have "x \<in> remembers conv c i" using ld by (simp add: r n(1))
    then show ?thesis using cluster_invD(2) [OF inv that(1)] True by simp
  next
    case False
    then have "remembers conv (put i n c) v = remembers conv c v" unfolding remembers_def P(1,5) by simp
    then show ?thesis using cluster_invD(2) [OF inv that(1)] that(2) by simp
  qed
  have "votes_kept conv (put i n c)"
    using kept cluster_invD(3) [OF inv] ld unfolding votes_kept_def P(1,3) by (auto simp: n split: if_splits)
  moreover have "votes_once (put i n c)" using inv unfolding cluster_inv_def votes_once_def P(3) by simp
  moreover have "tallied (put i n c)"
    using cluster_invD(4-6) [OF inv] unfolding tallied_def P(1-3) by (auto simp: n split: if_splits)
  moreover have "elections members (put i n c)"
    using cluster_invD(7,8) [OF inv] unfolding elections_def backed_def P(1,3,4) by (auto simp: n split: if_splits)
  moreover have "\<forall>k x. cl_nodes (put i n c) k = Some x \<longrightarrow> seated members k x"
    using cluster_invD(9) [OF inv] n(5) unfolding P(1) by (auto split: if_splits)
  ultimately show ?thesis unfolding cluster_inv_def by blast
qed

lemma inv_disk:
  assumes inv: "cluster_inv conv members c"
    and c': "cl_nodes c' = (cl_nodes c)(i := None)" "cl_disk c' = (cl_disk c)(i := ts)" "cl_net c' = cl_net c"
      "cl_ballots c' = cl_ballots c" "cl_elected c' = cl_elected c"
    and ts: "stored conv ts \<subseteq> remembers conv c i"
  shows "cluster_inv conv members c'"
proof -
  have kept: "below (t, Some a) x" if "(v, t, a) \<in> cl_ballots c" "x \<in> remembers conv c' v" for v t a x
  proof (cases "v = i")
    case True
    then have "x \<in> remembers conv c v" using that(2) ts unfolding remembers_def [of conv c'] c' by auto
    then show ?thesis by (rule cluster_invD(2) [OF inv that(1)])
  next
    case False
    then have "remembers conv c' v = remembers conv c v" unfolding remembers_def c' by (simp split: option.split)
    then show ?thesis using cluster_invD(2) [OF inv that(1)] that(2) by simp
  qed
  have "votes_kept conv c'"
    using kept cluster_invD(3) [OF inv] unfolding votes_kept_def c'(1,4) by (auto split: if_splits)
  moreover have "votes_once c'" using inv unfolding cluster_inv_def votes_once_def c' by simp
  moreover have "tallied c'"
    using cluster_invD(4-6) [OF inv] unfolding tallied_def c' by (auto split: if_splits)
  moreover have "elections members c'"
    using cluster_invD(7,8) [OF inv] unfolding elections_def backed_def c' by (auto split: if_splits)
  moreover have "\<forall>k x. cl_nodes c' k = Some x \<longrightarrow> seated members k x"
    using cluster_invD(9) [OF inv] unfolding c' by (auto split: if_splits)
  ultimately show ?thesis unfolding cluster_inv_def by blast
qed

lemma and_then_cases:
  assumes "and_then r f = (n', Inr y)"
  obtains n1 x where "r = (n1, Inr x)" "f n1 x = (n', Inr y)"
  using assms by (cases r; cases "snd r") auto

lemma fst_replies: "fst (replies f r) = fst r" "fst (silent s) = fst s"
  by (cases r; cases "snd r"; auto simp: replies_def) (cases s; cases "snd s"; auto simp: silent_def)

lemma steady_dispatch:
  assumes "\<And>r. m \<noteq> MRequestVoteReply r"
  shows "steady conv n (fst (dispatch env n p m))"
proof (cases m)
  case (MRequestVoteReply r)
  then show ?thesis using assms by blast
qed (simp_all add: fst_replies on_request_vote_steady steady_on_append_entries steady_on_append_entries_reply
    steady_on_install_snapshot steady_on_install_snapshot_reply calm_steady calm_intros)

lemma dispatch_answers:
  assumes "dispatch env n p m = (n', Inr (Some a))" "is_vote a"
  obtains q v where "m = MRequestVote q" "a = MRequestVoteReply v" "on_request_vote env n q = (n', Inr v)"
  using assms that
  by (cases m) (auto simp: replies_def silent_def is_vote_def elim!: and_then_cases)

lemma inv_put_deliver:
  assumes inv: "cluster_inv conv members c" and n: "cl_nodes c i = Some n" and m: "(j, i, m) \<in> cl_net c"
    and sv: "campaigns_saved env n (Some m)" and run: "dispatch env n j m = (n', r)"
  shows "cluster_inv conv members (put i n' c)"
proof (cases "\<exists>q. m = MRequestVoteReply q")
  case False
  then show ?thesis using put_steady [OF inv n] steady_dispatch [of m conv n env j] run by auto
next
  case True
  then obtain q where q: "m = MRequestVoteReply q" by blast
  have n': "n' = fst (on_request_vote_reply env n j q)" using run q fst_replies(2) by (metis dispatch.simps(7) fst_conv)
  have tally: "(v, rn_term n, i) \<in> cl_ballots c"
    if "v \<in> (if vr_granted q then insert j (rn_votes n) else rn_votes n)" "rn_role n = CANDIDATE" "vr_term q = rn_term n"
      "\<not> vr_pre_vote q" for v
    using that cluster_invD(4) [OF inv n] cluster_invD(5) [OF inv m [unfolded q]] by (auto split: if_splits)
  have "vr_pre_vote q \<Longrightarrow> vr_granted q \<Longrightarrow> campaign_saves env n" using sv by (simp add: campaigns_saved_def q)
  with on_request_vote_reply_moves [where conv = conv and p = j and m = q and n = n and env = env]
  consider "steady conv n n'" | "stands conv n n'"
    | "counts n n' (if vr_granted q then insert j (rn_votes n) else rn_votes n)" "vr_term q = rn_term n" "\<not> vr_pre_vote q"
    unfolding n' [symmetric] Let_def by blast
  then show ?thesis
  proof cases
    case 3
    then have "rn_role n = CANDIDATE" by (simp add: counts_def)
    then show ?thesis using tally 3 by (intro put_counts [OF inv n 3(1)]) blast
  qed (use put_steady [OF inv n] put_stands [OF inv n] in blast)+
qed

lemma inv_deliver:
  assumes inv: "cluster_inv conv members c" and n: "cl_nodes c i = Some n" and m: "(j, i, m) \<in> cl_net c"
    and sv: "campaigns_saved env n (Some m)" and run: "dispatch env n j m = (n', r)"
  shows "cluster_inv conv members (answer i j m r (put i n' c))"
proof -
  note put = inv_put_deliver [OF assms]
  show ?thesis
  proof (cases "\<exists>a. r = Inr (Some a) \<and> is_vote a")
    case False
    then show ?thesis by (intro answer_plain [OF put]) blast
  next
    case True
    then obtain a where a: "r = Inr (Some a)" "is_vote a" by blast
    obtain q v where qv: "m = MRequestVote q" "a = MRequestVoteReply v" "on_request_vote env n q = (n', Inr v)"
      using dispatch_answers [OF run [unfolded a(1)] a(2)] by blast
    have c: "rv_candidate q = j" by (rule cluster_invD(6) [OF inv m [unfolded qv(1)]])
    show ?thesis
      unfolding a(1) qv(1,2)
    proof (rule answer_vote [OF put])
      show "cl_nodes (put i n' c) i = Some (n'\<lparr>rn_outbox := []\<rparr>)" by (simp add: put_def)
      show "vr_granted v \<and> \<not> vr_pre_vote v \<longrightarrow> vr_term v = rv_term q \<and> rv_candidate q = j \<and>
        ballot (n'\<lparr>rn_outbox := []\<rparr>) = (rv_term q, Some j) \<and>
        stored conv (rn_terms (n'\<lparr>rn_outbox := []\<rparr>)) \<subseteq> {ballot (n'\<lparr>rn_outbox := []\<rparr>)}"
        using on_request_vote_granted [OF qv(3), of conv] c by (auto simp: ballot_def)
    qed
  qed
qed

lemma cluster_inv_reach: "cluster_reach conv members campaigns_saved disks c \<Longrightarrow> cluster_inv conv members c"
proof (induction rule: cluster_reach.induct)
  case init
  then show ?case by (simp add: cluster_start_def cluster_inv_defs)
next
  case (step c c')
  note inv = step.IH
  from step.hyps(2) show ?case
  proof cases
    case (start i mb os cid tm m ts n)
    then show ?thesis using inv_start [OF inv] by blast
  next
    case (no_start i os ly tm m ts e)
    have "stored conv ts \<subseteq> stored conv (cl_disk c i)"
      using no_start load_stored(1) by (auto simp: start_member_def split: prod.splits sum.splits)
    then show ?thesis
      using no_start by (intro inv_disk [OF inv, where i = i and ts = ts]) (auto simp: remembers_def)
  next
    case (crash i n)
    then show ?thesis by (intro inv_disk [OF inv, where i = i and ts = "rn_terms n"]) (auto simp: remembers_def)
  next
    case (ticks i n env)
    then show ?thesis
      using tick_moves [of env n conv] put_steady [OF inv] put_stands [OF inv] by (auto simp: campaigns_saved_def)
  next
    case (deliver i n j m env n' r)
    then show ?thesis using inv_deliver [OF inv] by blast
  next
    case (acts i n env n')
    then show ?thesis using put_steady [OF inv] acts_steady by blast
  qed
qed
subsection \<open>Election safety\<close>

lemma one_leader:
  assumes inv: "cluster_inv conv members c" and el: "(t, i) \<in> cl_elected c" "(t, j) \<in> cl_elected c"
  shows "i = j"
proof -
  let ?ly = "\<lparr>ly_members = members, ly_local = undefined, ly_cluster_id = []\<rparr>"
  obtain Q where Q: "Q \<subseteq> member_indexes ?ly" "nat (quorum ?ly) \<le> card Q" "\<forall>v \<in> Q. (v, t, i) \<in> cl_ballots c"
    using cluster_invD(7) [OF inv el(1)] quorum_nat [of ?ly members] by (auto simp: backed_def member_indexes_def)
  obtain R where R: "R \<subseteq> member_indexes ?ly" "nat (quorum ?ly) \<le> card R" "\<forall>v \<in> R. (v, t, j) \<in> cl_ballots c"
    using cluster_invD(7) [OF inv el(2)] quorum_nat [of ?ly members] by (auto simp: backed_def member_indexes_def)
  show ?thesis
    by (rule majority.one_winner [OF Q(1) R(1) Q(2) R(2), where ballot = "\<lambda>v a. (v, t, a) \<in> cl_ballots c"])
       (use Q(3) R(3) cluster_invD(1) [OF inv] in blast)+
qed

text \<open>
  C1: at most one leader is ever elected in a term. Let any number of members run the handlers
  over a network that loses, duplicates, delays and reorders messages, let them crash and
  restart with their logs gone, let saves fail at any point except in the middle of a
  campaign, and let members that have forgotten their log vote: two members never lead the
  same term, at the same time or one after the other.
\<close>

theorem election_safety:
  assumes "cluster_reach conv members campaigns_saved disks c"
  shows "(\<forall>t i j. (t, i) \<in> cl_elected c \<longrightarrow> (t, j) \<in> cl_elected c \<longrightarrow> i = j) \<and>
    (\<forall>i j n n'. cl_nodes c i = Some n \<longrightarrow> cl_nodes c j = Some n' \<longrightarrow> rn_role n = LEADER \<longrightarrow> rn_role n' = LEADER \<longrightarrow>
       rn_term n = rn_term n' \<longrightarrow> i = j)"
proof -
  note inv = cluster_inv_reach [OF assms]
  have "i = j" if "(t, i) \<in> cl_elected c" "(t, j) \<in> cl_elected c" for t i j by (rule one_leader [OF inv that])
  then show ?thesis using cluster_invD(8) [OF inv] by metis
qed

definition lone_member :: RaftMember where
  "lone_member = \<lparr>mb_index = 0, mb_name = str ''m0'', mb_host = str ''h'', mb_port = 2482\<rparr>"

definition calm_env :: Env where
  "calm_env = \<lparr>en_now = 1, en_timeout = 1, en_save = Saved, en_save_again = Saved, en_carrier = (\<lambda>_. None),
     en_loads = (\<lambda>_. Inl TypeError), en_health = 0, en_cursor = TaiCursor 1 0\<rparr>"

lemma lone_entry:
  assumes "rn_peers n = []" "rn_log n = new_log 0 0" "local_index n = 0" "rn_sequence n = PROPOSALS_PER_INCARNATION"
  shows "\<exists>e. entry_at (rn_log (fst (become_leader env n))) 1 = Some e"
proof -
  let ?op = "NoopOp (ProposalId 0 (PROPOSALS_PER_INCARNATION + 1))"
  have "wf_proposal (ProposalId 0 (PROPOSALS_PER_INCARNATION + 1))"
    by (simp add: wf_proposal_def wf_pair_def PROPOSALS_PER_INCARNATION_def wf_uint_def fits_def)
  then obtain b where b: "encode_operation ?op = Inr b"
    by (simp add: encode_operation_def write_proposal_field w_uint_field w_bytes_field)
  have l: "local_index (n\<lparr>rn_role := r, rn_leader := x, rn_voting := v, rn_peers := p, rn_sequence := q\<rparr>) = 0" for r x v p q
    using assms(3) by (simp add: local_index_def)
  show ?thesis
    using assms(1,2,4) b l
    by (simp add: become_leader_def next_proposal_def Let_def append_local_def append_log_def replicate_all_def
        new_log_def last_index_def entry_at_def)
qed

lemma lone_leader:
  "\<exists>c n e. cluster_reach (\<lambda>_. Inl TypeError) [lone_member] campaigns_saved (\<lambda>_. new_term_store NoFile) c \<and>
     (1, 0) \<in> cl_elected c \<and> cl_nodes c 0 = Some n \<and> entry_at (rn_log n) 1 = Some e"
proof -
  let ?conv = "\<lambda>_. Inl TypeError" and ?disks = "\<lambda>_ :: int. new_term_store NoFile"
  let ?st = "\<lparr>ps_term = 0, ps_voted_for = None, ps_incarnation = 1, ps_reservation = None\<rparr>"
  let ?ts = "\<lparr>ts_file = Document (state_document ?st), ts_writes = 1\<rparr>"
  let ?ly = "\<lparr>ly_members = [lone_member], ly_local = lone_member, ly_cluster_id = []\<rparr>"
  let ?m = "new_machine (new_store 1 1) [] \<lparr>ca_owner = 0, ca_high_water = Map.empty, ca_floor = None, ca_reserved = None\<rparr> 0 None"
  let ?n = "new_node ?ly default_timing ?ts ?m ?st"
  let ?c = "put 0 ?n (cluster_start ?disks)"
  have "printable_state ?st" by (simp add: printable_state_def printable_small)
  then have "load_state ?conv Saved (new_term_store NoFile) = (?ts, Inr ?st)"
    by (simp add: load_state_def read_state_def new_term_store_def save_state_def)
  then have "cluster_step ?conv [lone_member] campaigns_saved (cluster_start ?disks) ?c"
    by (intro cluster_step.start [where os = Saved and tm = default_timing and m = ?m and mb = lone_member and ts = ?ts and cid = "[]"])
       (simp_all add: cluster_start_def lone_member_def start_member_def new_machine_def open_capture_def)
  then have r1: "cluster_reach ?conv [lone_member] campaigns_saved ?disks ?c"
    by (rule cluster_reach.step [OF cluster_reach.init])
  let ?n0 = "?n\<lparr>rn_outbox := []\<rparr>"
  have n: "cl_nodes ?c 0 = Some ?n0" by (simp add: put_def)
  have d: "durable ?n0 = \<lparr>ps_term = 0, ps_voted_for = None, ps_incarnation = 1, ps_reservation = None\<rparr>"
    by (simp add: durable_def new_node_def new_machine_def resume_def reservation_def)
  have "printable_state \<lparr>ps_term = 1, ps_voted_for = Some 0, ps_incarnation = 1, ps_reservation = None\<rparr>"
    by (simp add: printable_state_def printable_small)
  then have sv: "campaign_saves calm_env ?n0"
    unfolding campaign_saves_def d
    by (simp add: calm_env_def new_node_def local_index_def lone_member_def save_state_def)
  have w: "won x {0} {}" if "rn_layout x = ?ly" "rn_voting x" for x
    using that by (simp add: won_def Let_def member_indexes_def lone_member_def quorum_def size_of_def local_index_def)
  have q: "reaches_a_majority ?n0"
    by (simp add: reaches_a_majority_def count_peers_def quorum_def size_of_def new_node_def)
  have f: "rn_layout ?n0 = ?ly" "rn_voting ?n0" "local_index ?n0 = 0" "rn_term ?n0 = 0" "rn_role ?n0 = FOLLOWER" "rn_deadline ?n0 = 0"
    by (simp_all add: new_node_def local_index_def lone_member_def)
  let ?n1 = "reset_election_timer calm_env (?n0\<lparr>rn_role := PRE_CANDIDATE, rn_leader := None, rn_pre_votes := {local_index ?n0},
      rn_pre_refusals := {}, rn_pre_forgotten := {}\<rparr>)"
  have g: "rn_layout ?n1 = ?ly" "rn_voting ?n1" "local_index ?n1 = 0" "rn_term ?n1 = 0" "campaign_saves calm_env ?n1"
      "rn_pre_votes ?n1 = {0}" "rn_pre_forgotten ?n1 = {}"
    using f sv by (simp_all add: reset_election_timer_def local_index_def campaign_saves_def durable_def)
  have "tick calm_env ?n0 = pre_campaign calm_env ?n0"
    using q f(5,6) by (simp add: tick_def calm_env_def)
  also have "\<dots> = campaign calm_env ?n1"
    using w [OF g(1,2)] g(6,7) unfolding pre_campaign_def Let_def by (simp add: won_pre_vote_def)
  finally have tk: "tick calm_env ?n0 = campaign calm_env ?n1" .
  then have "rn_role (fst (tick calm_env ?n0)) = LEADER \<and> rn_term (fst (tick calm_env ?n0)) = 1"
    using campaign_wins [OF g(5)] w g(1-4) by simp
  then have e: "(1, 0) \<in> cl_elected (put 0 (fst (tick calm_env ?n0)) ?c)" by (simp add: put_def)
  obtain ts where "fst (campaign calm_env ?n1) = fst (become_leader calm_env (campaigned calm_env ?n1 ts))"
    using campaign_result [OF g(5), of ?conv] w g(1-3) by (metis campaigned_fields(1,9))
  moreover have "rn_peers (campaigned calm_env ?n1 ts) = []" "rn_log (campaigned calm_env ?n1 ts) = new_log 0 0"
    "local_index (campaigned calm_env ?n1 ts) = 0" "rn_sequence (campaigned calm_env ?n1 ts) = PROPOSALS_PER_INCARNATION"
    by (simp_all add: campaigned_def reset_election_timer_def new_node_def peers_of_def local_index_def lone_member_def)
  ultimately obtain x where x: "entry_at (rn_log (fst (tick calm_env ?n0))) 1 = Some x"
    using lone_entry [of "campaigned calm_env ?n1 ts" calm_env] tk by auto
  have "cluster_step ?conv [lone_member] campaigns_saved ?c (put 0 (fst (tick calm_env ?n0)) ?c)"
    by (rule cluster_step.ticks [OF n]) (simp add: campaigns_saved_def sv)
  moreover have "cl_nodes (put 0 (fst (tick calm_env ?n0)) ?c) 0 = Some ((fst (tick calm_env ?n0))\<lparr>rn_outbox := []\<rparr>)"
    by (simp add: put_def)
  moreover have "entry_at (rn_log ((fst (tick calm_env ?n0))\<lparr>rn_outbox := []\<rparr>)) 1 = Some x" using x by simp
  ultimately show ?thesis using cluster_reach.step [OF r1] e by blast
qed

theorem election_safety_witness:
  "\<exists>c. cluster_reach (\<lambda>_. Inl TypeError) [lone_member] campaigns_saved (\<lambda>_. new_term_store NoFile) c \<and>
     (1, 0) \<in> cl_elected c \<and> (\<forall>j. (1, j) \<in> cl_elected c \<longrightarrow> j = 0)"
proof -
  obtain c where c: "cluster_reach (\<lambda>_. Inl TypeError) [lone_member] campaigns_saved (\<lambda>_. new_term_store NoFile) c"
      "(1, 0) \<in> cl_elected c"
    using lone_leader by blast
  from election_safety [OF c(1)] c(2) have "\<forall>j. (1, j) \<in> cl_elected c \<longrightarrow> j = 0" by blast
  with c show ?thesis by blast
qed

end
