(* ===== verification/Log_Ledger.thy ===== *)
theory Log_Ledger
  imports Election_Safety
begin

section \<open>What a member's log says\<close>

text \<open>
  The second half of the safety argument, over one member: every entry of every log, and of
  every append in flight, is an entry some leader once wrote. A \<open>ledger\<close> is what leaders have
  written: the entry of an index and a term, with the term of the entry before it. A member is
  \<open>sound\<close> for a ledger when its log is a chain of the ledger, everything it is about to send
  is, and its indexes are in order: the log's boundary, what is applied, what is committed, the
  end of the log.

  Handlers that leave the log alone \<open>keeps\<close> a member sound. Those by which a leader writes
  \<open>advances\<close> it: the ledger grows, and only in the leader's own term.
\<close>

subsection \<open>Ledgers\<close>

type_synonym ledger = "int \<times> int \<rightharpoonup> int \<times> bytes"

type_synonym mark = "int \<times> int \<times> bytes"

definition marks :: "'a Entry list \<Rightarrow> mark list" where
  "marks es = map (\<lambda>e. (e_index e, e_term e, e_payload e)) es"

definition wire_marks :: "WireEntry list \<Rightarrow> mark list" where
  "wire_marks ws = map (\<lambda>w. (we_index w, we_term w, we_payload w)) ws"

text \<open>A chain after index \<open>i\<close> and term \<open>t\<close>.\<close>

fun linked :: "ledger \<Rightarrow> int \<Rightarrow> int \<Rightarrow> mark list \<Rightarrow> bool" where
  "linked G i t [] \<longleftrightarrow> True"
| "linked G i t ((k, u, b) # ms) \<longleftrightarrow> k = i + 1 \<and> G (k, u) = Some (t, b) \<and> linked G k u ms"

definition grounded :: "ledger \<Rightarrow> int \<Rightarrow> int \<Rightarrow> bool" where
  "grounded G i t \<longleftrightarrow> (i = 0 \<and> t = 0) \<or> (i, t) \<in> dom G"

definition positive :: "ledger \<Rightarrow> bool" where
  "positive G \<longleftrightarrow> (\<forall>i t. (i, t) \<in> dom G \<longrightarrow> 0 < i)"

lemma grounded_zero: "positive G \<Longrightarrow> grounded G 0 t \<Longrightarrow> t = 0"
  by (auto simp: grounded_def positive_def)

lemma grounded_nonneg: "positive G \<Longrightarrow> grounded G i t \<Longrightarrow> 0 \<le> i"
  unfolding grounded_def positive_def using less_imp_le by blast

lemma grounded_mono: "grounded G i t \<Longrightarrow> G \<subseteq>\<^sub>m H \<Longrightarrow> grounded H i t"
  by (auto simp: grounded_def dest: map_le_implies_dom_le)

lemma linked_mono: "linked G i t ms \<Longrightarrow> G \<subseteq>\<^sub>m H \<Longrightarrow> linked H i t ms"
  by (induction G i t ms rule: linked.induct) (auto simp: map_le_def dom_def)

lemma linked_append:
  "linked G i t (ms @ ns) \<longleftrightarrow> linked G i t ms \<and>
     (if ms = [] then linked G i t ns else linked G (fst (last ms)) (fst (snd (last ms))) ns)"
  by (induction G i t ms rule: linked.induct) auto

lemma linked_index: "linked G i t ms \<Longrightarrow> k < length ms \<Longrightarrow> fst (ms ! k) = i + 1 + int k"
  by (induction G i t ms arbitrary: k rule: linked.induct) (auto simp: nth_Cons split: nat.splits)

lemma linked_take: "linked G i t ms \<Longrightarrow> linked G i t (take n ms)"
  using linked_append [of G i t "take n ms" "drop n ms"] by simp

text \<open>Position \<open>k\<close> of a chain: the entry is on the ledger, after the entry before it.\<close>

lemma linked_nth:
  assumes "linked G i t ms" "k < length ms"
  shows "G (fst (ms ! k), fst (snd (ms ! k))) =
    Some (if k = 0 then t else fst (snd (ms ! (k - 1))), snd (snd (ms ! k)))"
  using assms
proof (induction G i t ms arbitrary: k rule: linked.induct)
  case (2 G i t j u b ms)
  then show ?case by (cases k) (auto simp: nth_Cons split: nat.splits)
qed simp

lemma linked_drop:
  assumes "linked G i t ms" "k < length ms"
  shows "linked G (fst (ms ! k)) (fst (snd (ms ! k))) (drop (Suc k) ms)"
  using assms
proof (induction G i t ms arbitrary: k rule: linked.induct)
  case (2 G i t j u b ms)
  then show ?case by (cases k) auto
qed simp

lemma marks_simps [simp]:
  "marks [] = []" "marks (e # es) = (e_index e, e_term e, e_payload e) # marks es"
  "marks (xs @ ys) = marks xs @ marks ys" "length (marks xs) = length xs" "marks xs = [] \<longleftrightarrow> xs = []"
  "marks (take k xs) = take k (marks xs)" "marks (drop k xs) = drop k (marks xs)"
  by (simp_all add: marks_def take_map drop_map)

lemma nth_marks: "k < length xs \<Longrightarrow> marks xs ! k = (e_index (xs ! k), e_term (xs ! k), e_payload (xs ! k))"
  by (simp add: marks_def)

lemma last_marks: "xs \<noteq> [] \<Longrightarrow> last (marks xs) = (e_index (last xs), e_term (last xs), e_payload (last xs))"
  by (simp add: marks_def last_map)

lemma wire_marks_of: "wire_marks (map wire_of es) = marks es"
  by (simp add: wire_marks_def marks_def wire_of_def)

subsection \<open>Logs on a ledger\<close>

definition log_sound :: "ledger \<Rightarrow> 'a RaftLog \<Rightarrow> bool" where
  "log_sound G lg \<longleftrightarrow> wf_log lg \<and> grounded G (snapshot_index lg) (snapshot_term lg) \<and>
     linked G (snapshot_index lg) (snapshot_term lg) (marks (log_entries lg))"

lemma log_soundD:
  assumes "log_sound G lg"
  shows "wf_log lg" "grounded G (snapshot_index lg) (snapshot_term lg)"
    "linked G (snapshot_index lg) (snapshot_term lg) (marks (log_entries lg))"
  using assms by (simp_all add: log_sound_def)

lemma log_sound_mono: "log_sound G lg \<Longrightarrow> G \<subseteq>\<^sub>m H \<Longrightarrow> log_sound H lg"
  unfolding log_sound_def using grounded_mono linked_mono by blast

lemma entry_at_nth:
  assumes "wf_log lg" "entry_at lg i = Some e"
  obtains k where "k < length (log_entries lg)" "log_entries lg ! k = e" "i = snapshot_index lg + 1 + int k"
proof -
  have r: "snapshot_index lg < i" "i \<le> snapshot_index lg + int (length (log_entries lg))"
      "log_entries lg ! nat (i - snapshot_index lg - 1) = e"
    using assms(2) by (auto simp: entry_at_def split: if_splits)
  show ?thesis using r by (intro that [of "nat (i - snapshot_index lg - 1)"]) auto
qed

lemma entry_on_ledger:
  assumes "log_sound G lg" "entry_at lg i = Some e"
  shows "(i, e_term e) \<in> dom G"
proof -
  obtain k where k: "k < length (log_entries lg)" "log_entries lg ! k = e" "i = snapshot_index lg + 1 + int k"
    using entry_at_nth [OF log_soundD(1) [OF assms(1)] assms(2)] .
  have "e_index e = i" by (rule entry_at_index [OF log_soundD(1) [OF assms(1)] assms(2)])
  then show ?thesis
    using linked_nth [OF log_soundD(3) [OF assms(1)], of k] k(1,2) by (simp add: nth_marks dom_def)
qed

lemma term_at_grounded:
  assumes "positive G" "log_sound G lg" "term_at lg i = Inr t"
  shows "grounded G i t" "snapshot_index lg \<le> i" "i \<le> last_index lg"
proof -
  note w = log_soundD(1) [OF assms(2)]
  have "grounded G i t \<and> snapshot_index lg \<le> i \<and> i \<le> last_index lg"
  proof (cases "i = snapshot_index lg")
    case True
    then show ?thesis
      using assms(3) log_soundD(2) [OF assms(2)] last_index_wf [OF w] by (simp add: term_at_def)
  next
    case False
    then obtain e where e: "entry_at lg i = Some e" "t = e_term e"
      using assms(3) term_at_wf [OF w, of i] by (auto split: if_splits option.splits)
    have "snapshot_index lg < i \<and> i \<le> last_index lg" using entry_at_range [OF w, of i] e by simp
    then show ?thesis using entry_on_ledger [OF assms(2) e(1)] e(2) by (simp add: grounded_def)
  qed
  then show "grounded G i t" "snapshot_index lg \<le> i" "i \<le> last_index lg" by simp_all
qed

text \<open>The rest of a log after an index whose term it knows.\<close>

lemma linked_after:
  assumes "positive G" "log_sound G lg" "term_at lg i = Inr t"
  shows "linked G i t (marks (drop (nat (i - snapshot_index lg)) (log_entries lg)))"
proof (cases "i = snapshot_index lg")
  case True
  then show ?thesis using assms(3) log_soundD(3) [OF assms(2)] by (simp add: term_at_def)
next
  case False
  note w = log_soundD(1) [OF assms(2)]
  obtain e where e: "entry_at lg i = Some e" "t = e_term e"
    using assms(3) False term_at_wf [OF w, of i] by (auto split: if_splits option.splits)
  obtain k where k: "k < length (log_entries lg)" "log_entries lg ! k = e" "i = snapshot_index lg + 1 + int k"
    using entry_at_nth [OF w e(1)] .
  have "nat (i - snapshot_index lg) = Suc k" using k(3) by simp
  then show ?thesis
    using linked_drop [OF log_soundD(3) [OF assms(2)], of k] k entry_at_index [OF w e(1)] e(2) by (simp add: nth_marks)
qed

subsection \<open>Writing and following\<close>

text \<open>A leader's entries, written one after the other.\<close>

fun written :: "ledger \<Rightarrow> int \<Rightarrow> mark list \<Rightarrow> ledger" where
  "written G t [] = G"
| "written G t ((k, u, b) # ms) = written (G((k, u) \<mapsto> (t, b))) u ms"

lemma written_linked:
  assumes "\<forall>n < length ms. fst (ms ! n) = i + 1 + int n \<and> fst (snd (ms ! n)) = T" "\<forall>k > i. (k, T) \<notin> dom G"
  shows "G \<subseteq>\<^sub>m written G t ms \<and> linked (written G t ms) i t ms \<and>
    (\<forall>k u. (k, u) \<in> dom (written G t ms) \<longrightarrow> (k, u) \<in> dom G \<or> u = T \<and> i < k \<and> k \<le> i + int (length ms))"
  using assms
proof (induction G t ms arbitrary: i rule: written.induct)
  case (2 G t k u b ms)
  let ?G = "G((k, u) \<mapsto> (t, b))"
  have ku: "k = i + 1" "u = T" using 2(2) by auto
  have "\<forall>n < length ms. fst (ms ! n) = (i + 1) + 1 + int n \<and> fst (snd (ms ! n)) = T"
  proof (intro allI impI)
    fix n assume "n < length ms"
    then show "fst (ms ! n) = (i + 1) + 1 + int n \<and> fst (snd (ms ! n)) = T"
      using 2(2) [rule_format, of "Suc n"] by simp
  qed
  moreover have "\<forall>k' > i + 1. (k', T) \<notin> dom ?G" using 2(3) ku by auto
  ultimately have ih: "?G \<subseteq>\<^sub>m written ?G u ms \<and> linked (written ?G u ms) (i + 1) u ms \<and>
    (\<forall>k' u'. (k', u') \<in> dom (written ?G u ms) \<longrightarrow> (k', u') \<in> dom ?G \<or> u' = T \<and> i + 1 < k' \<and> k' \<le> i + 1 + int (length ms))"
    by (rule 2(1))
  have "(k, u) \<notin> dom G" using 2(3) ku by auto
  then have "G (k, u) = None" by blast
  then have "G \<subseteq>\<^sub>m ?G" by (auto simp: map_le_def)
  moreover have "written ?G u ms (k, u) = Some (t, b)"
    using ih unfolding map_le_def by (metis domI fun_upd_same)
  moreover have "(x, v) \<in> dom G \<or> v = T \<and> i < x \<and> x \<le> i + int (length ((k, u, b) # ms))"
    if "(x, v) \<in> dom (written ?G u ms)" for x v
  proof -
    have "(x, v) \<in> dom ?G \<or> v = T \<and> i + 1 < x \<and> x \<le> i + 1 + int (length ms)" using ih that by blast
    then show ?thesis using ku by auto
  qed
  ultimately show ?case using ih ku map_le_trans by (simp del: fun_upd_apply) blast
qed (simp add: map_le_def)

lemma append_log_sound:
  assumes G: "positive G" "log_sound G lg" and free: "\<forall>k > last_index lg. (k, T) \<notin> dom G"
    and run: "append_log lg T xs = Inr (lg', f, l)"
  shows "\<exists>H. G \<subseteq>\<^sub>m H \<and> positive H \<and> log_sound H lg' \<and> last_index lg \<le> last_index lg' \<and>
    (\<forall>k u. (k, u) \<in> dom H \<longrightarrow> (k, u) \<in> dom G \<or> u = T \<and> k \<le> last_index lg')"
proof -
  note w = log_soundD(1) [OF G(2)]
  note lg' = append_log_wf [OF w run]
  let ?ms = "marks (number_entries T (last_index lg + 1) xs)"
  let ?t = "if log_entries lg = [] then snapshot_term lg else e_term (last (log_entries lg))"
  have terms: "e_term (number_entries T j xs ! n) = T" if "n < length xs" for j n
    using that by (induction T j xs arbitrary: n rule: number_entries.induct) (auto simp: nth_Cons split: nat.splits)
  have ms: "\<forall>n < length ?ms. fst (?ms ! n) = last_index lg + 1 + int n \<and> fst (snd (?ms ! n)) = T"
    using terms numbered_number_entries [of "last_index lg + 1" T xs] by (auto simp: nth_marks numbered_from_def)
  define H where "H = written G ?t ?ms"
  have H: "G \<subseteq>\<^sub>m H" "linked H (last_index lg) ?t ?ms"
    "\<And>k u. (k, u) \<in> dom H \<Longrightarrow> (k, u) \<in> dom G \<or> u = T \<and> last_index lg < k \<and> k \<le> last_index lg + int (length xs)"
    using written_linked [OF ms free, of ?t] unfolding H_def by auto
  have nn: "0 \<le> last_index lg" using grounded_nonneg [OF G(1) log_soundD(2) [OF G(2)]] last_index_wf [OF w] by simp
  have "positive H" using H(3) G(1) nn unfolding positive_def by fastforce
  moreover have "log_sound H lg'"
    using lg' H(2) log_sound_mono [OF G(2) H(1)]
    by (auto simp: log_sound_def linked_append last_marks last_index_def)
  ultimately show ?thesis using H(1,3) lg' by (intro exI [of _ H]) auto
qed

text \<open>A follower's log stays on the ledger while it takes in a chain that starts where it agrees.\<close>

lemma log_sound_cut:
  assumes "log_sound G lg" "k \<le> length (log_entries lg)"
    and "linked G (snapshot_index lg + int k) (if k = 0 then snapshot_term lg else e_term (log_entries lg ! (k - 1))) [(e_index e, e_term e, e_payload e)]"
  shows "log_sound G (lg\<lparr>log_entries := take k (log_entries lg) @ [e]\<rparr>)"
proof -
  note s = log_soundD [OF assms(1)]
  have w: "wf_log (lg\<lparr>log_entries := take k (log_entries lg) @ [e]\<rparr>)"
    using s(1) assms(2,3) by (simp add: wf_log_def numbered_from_take)
  have "linked G (snapshot_index lg) (snapshot_term lg) (take k (marks (log_entries lg)) @ [(e_index e, e_term e, e_payload e)])"
  proof (cases "k = 0")
    case False
    let ?x = "log_entries lg ! (k - 1)"
    have l: "last (take k (marks (log_entries lg))) = (e_index ?x, e_term ?x, e_payload ?x)"
    proof -
      have "last (take k (log_entries lg)) = ?x" using False assms(2) by (subst last_conv_nth) (auto simp: min_absorb2)
      moreover have "log_entries lg \<noteq> []" using False assms(2) by auto
      ultimately show ?thesis using False last_marks [of "take k (log_entries lg)"] by simp
    qed
    have "e_index ?x = snapshot_index lg + int k"
      using s(1) False assms(2) by (simp add: wf_log_def numbered_from_def of_nat_diff)
    then show ?thesis
      using False assms(2,3) linked_take [OF s(3)] l by (auto simp: linked_append)
  next
    case True
    have "linked G (snapshot_index lg) (snapshot_term lg) [(e_index e, e_term e, e_payload e)]"
      using assms(3) True by auto
    then show ?thesis unfolding True by auto
  qed
  then show ?thesis using w s(2) by (simp add: log_sound_def)
qed

lemma append_replicated_sound:
  assumes "positive G" "log_sound G lg" "term_at lg p = Inr t" "linked G p t (marks es)"
    and "append_replicated lg es committed = (lg', err)"
  shows "log_sound G lg' \<and> (err = None \<longrightarrow> p + int (length es) \<le> last_index lg')"
  using assms
proof (induction lg es committed arbitrary: p t lg' err rule: append_replicated.induct)
  case (2 lg e es committed)
  note G = 2(2) and s = 2(3)
  note w = log_soundD(1) [OF s] and at = 2(4)
  have p: "snapshot_index lg \<le> p" "p \<le> last_index lg" using term_at_grounded [OF G s at] by simp_all
  have e: "e_index e = p + 1" "G (p + 1, e_term e) = Some (t, e_payload e)" "linked G (p + 1) (e_term e) (marks es)"
    using 2(5) by auto
  have go: "log_sound G lg' \<and> (err = None \<longrightarrow> p + int (length (e # es)) \<le> last_index lg')" if one: "append_one committed lg e = Inr lg1" "log_sound G lg1" "term_at lg1 (p + 1) = Inr (e_term e)" for lg1
  proof -
    have "append_replicated lg1 es committed = (lg', err)" using 2(6) one(1) by simp
    then show ?thesis using 2(1) [OF one(1) G one(2,3) e(3)] by (simp add: algebra_simps)
  qed
  let ?k = "nat (p - snapshot_index lg)"
  have k: "?k \<le> length (log_entries lg)" "snapshot_index lg + int ?k = p" using p last_index_wf [OF w] by linarith+
  have prev: "(if ?k = 0 then snapshot_term lg else e_term (log_entries lg ! (?k - 1))) = t"
  proof (cases "p = snapshot_index lg")
    case False
    then have "entry_at lg p = Some (log_entries lg ! (?k - 1))"
      using p last_index_wf [OF w] by (auto simp: entry_at_def nat_diff_distrib)
    then show ?thesis using at False p term_at_entry [OF w] by fastforce
  qed (use at in \<open>simp add: term_at_def\<close>)
  let ?lg = "lg\<lparr>log_entries := take ?k (log_entries lg) @ [e]\<rparr>"
  have cut: "log_sound G ?lg" by (rule log_sound_cut [OF s k(1)]) (use prev k(2) e in auto)
  have "entry_at ?lg (p + 1) = Some e"
    using k entry_at_offset [of ?k ?lg] by (simp add: nth_append algebra_simps)
  then have cut_at: "term_at ?lg (p + 1) = Inr (e_term e)" by (rule term_at_entry [OF log_soundD(1) [OF cut]])
  show ?case
  proof (cases "entry_at lg (p + 1)")
    case None
    then have "p = last_index lg" using entry_at_range [OF w, of "p + 1"] p by auto
    then have "append_one committed lg e = Inr ?lg"
      using None p e(1) last_index_wf [OF w] by (simp add: append_one_cases [OF w])
    then show ?thesis by (rule go [OF _ cut cut_at])
  next
    case (Some x)
    then have one: "append_one committed lg e =
        (if e_term x = e_term e then Inr lg else if p + 1 \<le> committed then Inl (lg, RaftInvariantViolated) else Inr ?lg)"
      using p e(1) by (simp add: append_one_cases [OF w])
    show ?thesis
    proof (cases "e_term x = e_term e")
      case True
      then show ?thesis using one term_at_entry [OF w Some] by (intro go [OF _ s]) auto
    next
      case False
      show ?thesis
      proof (cases "p + 1 \<le> committed")
        case True
        then show ?thesis using False one 2(6) s by auto
      next
        case no: False
        then show ?thesis using False one by (intro go [OF _ cut cut_at]) simp
      qed
    qed
  qed
qed (use term_at_grounded(3) in fastforce)

subsection \<open>A sound member\<close>

definition on_ledger :: "ledger \<Rightarrow> message \<Rightarrow> bool" where
  "on_ledger G m \<longleftrightarrow> (case m of
     MAppendEntries a \<Rightarrow> grounded G (ae_prev_log_index a) (ae_prev_log_term a) \<and>
       linked G (ae_prev_log_index a) (ae_prev_log_term a) (wire_marks (ae_entries a))
   | MInstallSnapshot s \<Rightarrow> grounded G (is_last_index s) (is_last_term s)
   | _ \<Rightarrow> True)"

definition known :: "ledger \<Rightarrow> (SnapshotMeta \<times> bytes) option \<Rightarrow> bool" where
  "known G x \<longleftrightarrow> (case x of None \<Rightarrow> True | Some (m, b) \<Rightarrow> grounded G (sm_last_index m) (sm_last_term m))"

definition held_meta :: "RaftNode \<Rightarrow> (SnapshotMeta \<times> bytes) option" where
  "held_meta n = map_option (\<lambda>m. (m, [])) (rn_snapshot_meta n)"

definition in_order :: "RaftNode \<Rightarrow> bool" where
  "in_order n \<longleftrightarrow> snapshot_index (rn_log n) \<le> ma_last_applied (rn_machine n) \<and>
     ma_last_applied (rn_machine n) \<le> rn_commit_index n \<and> rn_commit_index n \<le> last_index (rn_log n)"

definition capture_sound :: "ledger \<Rightarrow> StateMachine \<Rightarrow> bool" where
  "capture_sound G m \<longleftrightarrow> (case open_capture m of None \<Rightarrow> True
     | Some c \<Rightarrow> grounded G (cap_index c) (cap_term c) \<and> cap_index c \<le> ma_last_applied m)"

definition sound :: "ledger \<Rightarrow> RaftNode \<Rightarrow> bool" where
  "sound G n \<longleftrightarrow> positive G \<and> log_sound G (rn_log n) \<and> in_order n \<and> capture_sound G (rn_machine n) \<and>
     known G (held_meta n) \<and> (\<forall>(p, s) \<in> set (rn_peers n). known G (p_sending s)) \<and>
     (\<forall>(p, m, s) \<in> set (rn_outbox n). on_ledger G m)"

lemma soundD:
  assumes "sound G n"
  shows "positive G" "log_sound G (rn_log n)" "in_order n" "capture_sound G (rn_machine n)" "known G (held_meta n)"
    "(p, s) \<in> set (rn_peers n) \<Longrightarrow> known G (p_sending s)" "(p, m, x) \<in> set (rn_outbox n) \<Longrightarrow> on_ledger G m"
  using assms by (auto simp: sound_def)

lemma on_ledger_simps [simp]:
  "on_ledger G (MRequestVote a)" "on_ledger G (MPromote b)" "on_ledger G (MPropose c)"
  by (simp_all add: on_ledger_def)

lemma known_None [simp]: "known G None"
  by (simp add: known_def)

lemma known_mono: "known G x \<Longrightarrow> G \<subseteq>\<^sub>m H \<Longrightarrow> known H x"
  unfolding known_def using grounded_mono by (auto split: option.splits)

lemma on_ledger_mono: "on_ledger G m \<Longrightarrow> G \<subseteq>\<^sub>m H \<Longrightarrow> on_ledger H m"
  unfolding on_ledger_def using grounded_mono linked_mono by (cases m) auto

lemma sound_mono: "sound G n \<Longrightarrow> G \<subseteq>\<^sub>m H \<Longrightarrow> positive H \<Longrightarrow> sound H n"
  unfolding sound_def capture_sound_def
  using log_sound_mono known_mono on_ledger_mono grounded_mono by (fastforce split: option.splits)

lemma dset_in: "(q, x) \<in> set (dset p s d) \<Longrightarrow> (q, x) = (p, s) \<or> (q, x) \<in> set d"
  by (induction d) (auto split: if_splits)

lemma peer_state_known: "sound G n \<Longrightarrow> known G (p_sending (peer_state n p))"
  using soundD(6) map_of_SomeD
  by (fastforce simp: peer_state_def new_peer_def split: option.splits)

subsection \<open>Keeping a member sound\<close>

text \<open>The end of the log stays where it is, and soundness for any ledger is kept.\<close>

definition keeps :: "RaftNode \<Rightarrow> RaftNode \<Rightarrow> bool" where
  "keeps n n' \<longleftrightarrow> (\<forall>G. sound G n \<longrightarrow> sound G n' \<and> last_index (rn_log n') = last_index (rn_log n))"

named_theorems keeps_intros \<open>functions that keep a member sound\<close>

lemma keeps_refl [simp, intro]: "keeps n n"
  by (simp add: keeps_def)

lemma keeps_trans [trans]: "keeps n n1 \<Longrightarrow> keeps n1 n2 \<Longrightarrow> keeps n n2"
  unfolding keeps_def by metis

lemma keeps_and_then:
  assumes "keeps n (fst r)" and "\<And>n1 x. r = (n1, Inr x) \<Longrightarrow> keeps n1 (fst (f n1 x))"
  shows "keeps n (fst (and_then r f))"
proof (cases r)
  case (Pair n1 y)
  then show ?thesis using assms keeps_trans [of n n1] by (cases y) auto
qed

lemma keeps_foldl: "(\<And>n x. keeps n (f n x)) \<Longrightarrow> keeps n (foldl f n xs)"
proof (induction xs arbitrary: n)
  case (Cons x xs)
  then show ?case using keeps_trans [of n "f n x"] by simp
qed simp

text \<open>A field that soundness does not read.\<close>

lemma keeps_update [keeps_intros]:
  "keeps n (n\<lparr>rn_append_sequence := a\<rparr>)" "keeps n (n\<lparr>rn_reads := b\<rparr>)" "keeps n (n\<lparr>rn_deadline := c\<rparr>)"
  "keeps n (n\<lparr>rn_installing := d\<rparr>)" "keeps n (n\<lparr>rn_pending := e\<rparr>)" "keeps n (n\<lparr>rn_waiters := f\<rparr>)"
  "keeps n (n\<lparr>rn_sequence := g\<rparr>)" "keeps n (n\<lparr>rn_futures := h\<rparr>)" "keeps n (n\<lparr>rn_voting := i\<rparr>)"
  "keeps n (n\<lparr>rn_fence := j\<rparr>)" "keeps n (n\<lparr>rn_role := k\<rparr>)" "keeps n (n\<lparr>rn_leader := l\<rparr>)"
  "keeps n (n\<lparr>rn_term := m\<rparr>)" "keeps n (n\<lparr>rn_voted_for := q\<rparr>)" "keeps n (n\<lparr>rn_votes := r\<rparr>)"
  "keeps n (n\<lparr>rn_pre_votes := s\<rparr>)" "keeps n (n\<lparr>rn_pre_refusals := t\<rparr>)" "keeps n (n\<lparr>rn_forgotten := u\<rparr>)"
  "keeps n (n\<lparr>rn_pre_forgotten := v\<rparr>)" "keeps n (n\<lparr>rn_terms := w\<rparr>)" "keeps n (n\<lparr>rn_failure := x\<rparr>)"
  "keeps n (n\<lparr>rn_closing := y\<rparr>)" "keeps n (n\<lparr>rn_heard_from_leader_at := z\<rparr>)"
  by (simp_all add: keeps_def sound_def in_order_def held_meta_def)

definition sendable :: "RaftNode \<Rightarrow> (SnapshotMeta \<times> bytes) option \<Rightarrow> bool" where
  "sendable n x \<longleftrightarrow> (\<forall>G. sound G n \<longrightarrow> known G x)"

lemma sendable_intros [simp, intro]:
  "sendable n None" "sendable n (p_sending (peer_state n p))"
  by (simp_all add: sendable_def peer_state_known)

lemma keeps_set_peer [keeps_intros]: "sendable n (p_sending s) \<Longrightarrow> keeps n (set_peer n p s)"
proof -
  assume s: "sendable n (p_sending s)"
  have "known G (p_sending x)" if "sound G n" "(q, x) \<in> set (dset p s (rn_peers n))" for G q x
    using that s dset_in soundD(6) [OF that(1)] unfolding sendable_def by fastforce
  then show ?thesis by (auto simp: keeps_def set_peer_def sound_def in_order_def held_meta_def)
qed

lemma keeps_send: "(\<And>G. sound G n \<Longrightarrow> on_ledger G m) \<Longrightarrow> keeps n (send n p m s)"
  by (auto simp: keeps_def send_def sound_def in_order_def held_meta_def)
lemma peer_state_set [simp]: "peer_state (set_peer n p s) p = s"
  by (simp add: peer_state_def set_peer_def)

lemma peer_state_update [simp]: "peer_state (n\<lparr>rn_append_sequence := k\<rparr>) p = peer_state n p"
  by (simp add: peer_state_def)

lemma set_peer_fields [simp]:
  "rn_snapshot_meta (set_peer n p s) = rn_snapshot_meta n" "rn_log (set_peer n p s) = rn_log n"
  by (simp_all add: set_peer_def)

text \<open>Only these fields matter.\<close>

lemma keeps_fields:
  assumes "rn_log n' = rn_log n" "rn_machine n' = rn_machine n" "rn_commit_index n' = rn_commit_index n"
    "rn_snapshot_meta n' = rn_snapshot_meta n" "rn_peers n' = rn_peers n" "rn_outbox n' = rn_outbox n"
  shows "keeps n n'"
  using assms by (simp add: keeps_def sound_def in_order_def held_meta_def)

lemma keeps_settle [keeps_intros]: "keeps n (settle f v n)"
  by (simp add: settle_def keeps_intros)

lemma keeps_settle_all: "keeps n (foldl (\<lambda>n (_, f). settle f v n) n xs)"
  by (rule keeps_foldl) (auto intro: keeps_intros)

lemma keeps_fail_reads [keeps_intros]: "keeps n (fail_reads n)"
  unfolding fail_reads_def
  by (rule keeps_trans [OF _ keeps_update(2)], rule keeps_foldl, rule keeps_settle)

lemma keeps_timer [keeps_intros]: "keeps n (reset_election_timer env n)"
  by (simp add: reset_election_timer_def keeps_intros)

subsection \<open>What a member sends is on the ledger\<close>

lemma sound_send: "sound G (send n p m s) \<longleftrightarrow> sound G n \<and> on_ledger G m"
  by (auto simp: send_def sound_def in_order_def held_meta_def)

lemma keeps_counted: "sendable n (p_sending s) \<Longrightarrow> keeps n (set_peer (n\<lparr>rn_append_sequence := k\<rparr>) p s)"
  by (rule keeps_trans [OF keeps_update(1) keeps_set_peer])
     (auto simp: sendable_def keeps_def sound_def in_order_def held_meta_def)

lemma keeps_send_after: "keeps n n1 \<Longrightarrow> (\<And>G. sound G n \<Longrightarrow> on_ledger G m) \<Longrightarrow> keeps n (send n1 p m s)"
  unfolding keeps_def sound_send by (simp add: send_def)

lemma keeps_keepalive [keeps_intros]: "keeps n (send_keepalive n p)"
  unfolding send_keepalive_def Let_def
proof (rule keeps_send_after)
  show "keeps n (set_peer (n\<lparr>rn_append_sequence := rn_append_sequence n + 1\<rparr>) p
      ((peer_state (n\<lparr>rn_append_sequence := rn_append_sequence n + 1\<rparr>) p)\<lparr>p_sent_commit := 0\<rparr>))"
    by (rule keeps_counted) simp
qed (simp add: on_ledger_def grounded_def wire_marks_def)

lemma keeps_chunk:
  assumes "sendable n (Some (meta, b))"
  shows "keeps n (send_chunk n p meta payload carrier)"
  unfolding send_chunk_def Let_def
proof (rule keeps_send_after)
  show "keeps n (set_peer (n\<lparr>rn_append_sequence := rn_append_sequence n + 1\<rparr>) p
      ((peer_state n p)\<lparr>p_snapshot_request := rn_append_sequence n + 1, p_snapshot_carrier := carrier\<rparr>))"
    by (rule keeps_counted) simp
qed (use assms in \<open>auto simp: on_ledger_def sendable_def known_def\<close>)

lemma sendable_meta: "rn_snapshot_meta n = Some meta \<Longrightarrow> sendable n (Some (meta, b))"
  by (auto simp: sendable_def sound_def held_meta_def known_def)

lemma sendable_sent: "p_sending (peer_state n p) = Some (meta, b) \<Longrightarrow> sendable n (Some (meta, b))"
  using sendable_intros(2) [of n p] by simp

lemma keeps_snapshot [keeps_intros]: "keeps n (send_snapshot env n p)"
proof (cases "rn_snapshot_meta n")
  case None
  then show ?thesis by (simp add: send_snapshot_def keeps_intros)
next
  case (Some meta)
  let ?s = "(peer_state n p)\<lparr>p_snapshot_request := 0\<rparr>"
  have k: "keeps n (set_peer n p ?s)" by (rule keeps_set_peer) simp
  have "keeps n (send_keepalive (set_peer n p ?s) p)" by (rule keeps_trans [OF k keeps_keepalive])
  moreover have "keeps n (send_chunk (set_peer n p (?s\<lparr>p_sending := Some (meta, b)\<rparr>)) p meta c carrier)"
    "keeps n (send_chunk (set_peer n p (?s\<lparr>p_sending := Some (meta, b), p_snapshot_offset := 0\<rparr>)) p meta c carrier)" for b c carrier
    by (rule keeps_trans [OF keeps_set_peer keeps_chunk [OF sendable_meta]]; simp add: Some sendable_meta)+
  moreover have "keeps n (send_chunk (set_peer n p ?s) p sent c carrier)"
    if "p_sending (peer_state n p) = Some (sent, b)" for sent b c carrier
    by (rule keeps_trans [OF k keeps_chunk [OF sendable_sent [of _ p _ b]]]) (use that in simp)
  ultimately show ?thesis
    unfolding send_snapshot_def Let_def using Some
    by (auto intro: keeps_intros split: option.split)
qed

text \<open>An append carries the chain that follows the entry it is anchored at.\<close>

lemma window_linked:
  assumes "positive G" "log_sound G lg" "term_at lg i = Inr t" "window lg (i + 1) a b = Inr es"
  shows "linked G i t (marks es)"
proof -
  note w = log_soundD(1) [OF assms(2)]
  have i: "snapshot_index lg \<le> i" using term_at_grounded [OF assms(1-3)] by simp
  obtain xs where xs: "slice lg (i + 1) a = Inr xs" "es = take (window_taken b xs 0 0) xs"
    using assms(4) by (auto simp: window_def bind_res_eq_Inr)
  have "xs = [] \<or> xs = take (nat a) (drop (nat (i - snapshot_index lg)) (log_entries lg))"
    using xs(1) i by (auto simp: slice_def position_wf [OF w] bind_res_eq_Inr split: if_splits)
  then have "linked G i t (marks xs)"
  proof
    assume "xs = take (nat a) (drop (nat (i - snapshot_index lg)) (log_entries lg))"
    then show ?thesis using linked_take [OF linked_after [OF assms(1-3)], of "nat a"] by simp
  qed simp
  then show ?thesis using linked_take xs(2) by simp
qed

lemma keeps_transmit:
  assumes t: "term_at (rn_log n) (p_next_index (peer_state n p) - 1) = Inr t"
    and es: "es = [] \<or> window (rn_log n) (p_next_index (peer_state n p)) a b = Inr es"
  shows "keeps n (transmit_append env n p t es)"
  unfolding transmit_append_def Let_def
proof (rule keeps_send_after)
  fix G assume G: "sound G n"
  have "linked G (p_next_index (peer_state n p) - 1) t (marks es)"
  proof (cases "es = []")
    case False
    then show ?thesis
      using es by (intro window_linked [OF soundD(1,2) [OF G] t, of a b]) simp
  qed simp
  then show "on_ledger G (MAppendEntries \<lparr>ae_term = x, ae_leader = y, ae_prev_log_index = p_next_index (peer_state n p) - 1,
    ae_prev_log_term = t, ae_leader_commit = z, ae_request_id = q, ae_entries = map wire_of es\<rparr>)" for x y z q
    using term_at_grounded(1) [OF soundD(1,2) [OF G] t] by (simp add: on_ledger_def wire_marks_of)
qed (rule keeps_counted; simp)

lemma keeps_send_append [keeps_intros]: "keeps n (fst (send_append env n p))"
proof -
  let ?s = "peer_state n p"
  obtain s1 r where c: "carrying_entries_would_repeat_them env n ?s = (s1, r)" by fastforce
  have s1: "p_sending s1 = p_sending ?s" "p_next_index s1 = p_next_index ?s"
    using c by (auto simp: carrying_entries_would_repeat_them_def split: if_splits)
  have "keeps n (transmit_append env (set_peer n p s1) p t (if r then [] else es))"
    if t: "term_at (rn_log n) (p_next_index ?s - 1) = Inr t"
      and es: "window (rn_log n) (p_next_index ?s) (tm_max_entries (rn_timing n)) (tm_max_append_bytes (rn_timing n)) = Inr es" for t es
  proof (rule keeps_trans [OF keeps_set_peer keeps_transmit])
    show "sendable n (p_sending s1)" by (simp add: s1)
    show "term_at (rn_log (set_peer n p s1)) (p_next_index (peer_state (set_peer n p s1) p) - 1) = Inr t"
      using t by (simp add: s1)
    show "(if r then [] else es) = [] \<or> window (rn_log (set_peer n p s1)) (p_next_index (peer_state (set_peer n p s1) p))
       (tm_max_entries (rn_timing n)) (tm_max_append_bytes (rn_timing n)) = Inr (if r then [] else es)"
      using es by (simp add: s1)
  qed
  then show ?thesis
    unfolding send_append_def Let_def c
    by (auto simp: bind_res_eq_Inr intro: keeps_intros split: sum.split py_error.split)
qed
subsection \<open>The applier and its capture\<close>

text \<open>What a capture is pinned at does not change while it is open.\<close>

definition pinned_at :: "StateMachine \<Rightarrow> (int \<times> int) option" where
  "pinned_at m = map_option (\<lambda>c. (cap_index c, cap_term c)) (open_capture m)"

definition still_pinned :: "StateMachine \<Rightarrow> StateMachine \<Rightarrow> bool" where
  "still_pinned m m' \<longleftrightarrow> pinned_at m' = pinned_at m \<and> ma_last_applied m' = ma_last_applied m"

lemma still_pinned_trans: "still_pinned m m1 \<Longrightarrow> still_pinned m1 m2 \<Longrightarrow> still_pinned m m2"
  by (simp add: still_pinned_def)

lemma still_pinned_update [simp]:
  "still_pinned m m" "still_pinned m (m'\<lparr>ma_store := st\<rparr>) = still_pinned m m'"
  "still_pinned m (m'\<lparr>ma_ownership := ow\<rparr>) = still_pinned m m'" "still_pinned m (m'\<lparr>ma_cursors := cu\<rparr>) = still_pinned m m'"
  by (simp_all add: still_pinned_def pinned_at_def open_capture_def)

lemma capture_resource_pinned:
  "capture_resource c r = Inr c' \<Longrightarrow> cap_index c' = cap_index c \<and> cap_term c' = cap_term c"
  by (auto simp: capture_resource_def bind_res_eq_Inr split: if_splits)

lemma set_capture_pinned:
  "open_capture m = Some c \<Longrightarrow> cap_index c' = cap_index c \<and> cap_term c' = cap_term c \<Longrightarrow> still_pinned m (set_capture m c')"
  by (simp add: still_pinned_def pinned_at_def set_capture_def open_capture_def)

lemma capture_before_pinned: "capture_before_mutating m rt i = Inr m' \<Longrightarrow> still_pinned m m'"
  by (auto simp: capture_before_mutating_def bind_res_eq_Inr capture_created_def
      intro!: set_capture_pinned dest: capture_resource_pinned split: option.splits)

lemma capture_each_pinned: "capture_each c rs = Inr c' \<Longrightarrow> cap_index c' = cap_index c \<and> cap_term c' = cap_term c"
  by (induction c rs rule: capture_each.induct) (auto simp: bind_res_eq_Inr dest: capture_resource_pinned)

lemma capture_subtree_pinned: "capture_subtree m rt i = Inr m' \<Longrightarrow> still_pinned m m'"
  by (auto simp: capture_subtree_def bind_res_eq_Inr
      intro!: set_capture_pinned dest: capture_each_pinned split: option.splits)

lemma capture_victims_pinned: "capture_victims m vs = Inr m' \<Longrightarrow> still_pinned m m'"
proof (induction m vs rule: capture_victims.induct)
  case (2 m rt i vs)
  then obtain m1 where m1: "capture_before_mutating m rt i = Inr m1" "capture_victims m1 vs = Inr m'"
    by (auto simp: bind_res_eq_Inr)
  show ?case by (rule still_pinned_trans [OF capture_before_pinned [OF m1(1)] 2(1) [OF m1(2)]])
qed simp

lemma apply_register_pinned:
  assumes "apply_register loads m op index = Inr (m', out, evs)"
  shows "still_pinned m m'"
proof -
  let ?own = "\<lambda>w. m\<lparr>ma_ownership := fst (claim (ma_ownership m) (op_node op) w index)\<rparr>"
  let ?m = "case op_claim_owner op of None \<Rightarrow> m | Some w \<Rightarrow> ?own w"
  obtain raw pr where pr: "body_data loads \<lparr>body_text = op_text op, parsed = None\<rparr> = Inr raw"
      "prepare (ma_store m) (op_type op) raw = Inr pr"
    using assms by (auto simp: apply_register_def bind_res_eq_Inr Let_def)
  have "m' = m \<or> (\<exists>m2 st cu. capture_before_mutating ?m (op_type op) (op_resource op) = Inr m2 \<and> m' = m2\<lparr>ma_store := st, ma_cursors := cu\<rparr>)"
  proof (cases pr)
    case (Inl refused)
    then show ?thesis using assms pr by (simp add: apply_register_def)
  next
    case (Inr prepared)
    then show ?thesis using assms pr by (auto simp: apply_register_def bind_res_eq_Inr Let_def split_beta)
  qed
  moreover have "still_pinned m ?m" by (simp split: option.split)
  ultimately show ?thesis using capture_before_pinned still_pinned_trans by fastforce
qed

lemma apply_one_pinned:
  assumes "apply_one loads hn m e = Inr (m', out, evs)"
  shows "still_pinned m m'"
proof (cases "e_value e")
  case (RegisterOp p rt i n b c u h x w)
  then show ?thesis using assms apply_register_pinned by (auto simp: apply_one_def bind_res_eq_Inr Let_def)
next
  case (UnregisterOp p rt i)
  then show ?thesis
    using assms capture_subtree_pinned
    by (fastforce simp: apply_one_def apply_unregister_def bind_res_eq_Inr split: option.splits prod.splits)
next
  case (ExpireOp p n)
  then show ?thesis
    using assms capture_subtree_pinned
    by (fastforce simp: apply_one_def apply_expire_def bind_res_eq_Inr split: option.splits prod.splits)
next
  case (ForgetOp p vs)
  then show ?thesis
    using assms by (auto simp: apply_one_def apply_forget_def bind_res_eq_Inr Let_def split_beta dest!: capture_victims_pinned)
qed (use assms in \<open>auto simp: apply_one_def Let_def split: prod.splits\<close>)

lemma apply_loop_applied:
  assumes "apply_loop loads clock m outs evs es = Inr (m', outs', evs')"
    and "ma_last_applied m \<le> B" "\<forall>e \<in> set es. e_index e \<le> B"
  shows "pinned_at m' = pinned_at m \<and> ma_last_applied m \<le> ma_last_applied m' \<and> ma_last_applied m' \<le> B"
  using assms
proof (induction loads clock m outs evs es rule: apply_loop.induct)
  case (2 loads clock m outs evs e es)
  show ?case
  proof (cases "e_index e \<le> ma_last_applied m")
    case True
    then show ?thesis using 2 by simp
  next
    case False
    then obtain m1 out evs1 where one: "apply_one loads (clock (e_index e)) m e = Inr (m1, out, evs1)"
      using "2.prems"(1) by (auto simp: bind_res_eq_Inr)
    let ?m = "m1\<lparr>ma_last_applied := e_index e\<rparr>"
    have "apply_loop loads clock ?m (case out of None \<Rightarrow> outs | Some r \<Rightarrow> dset (op_proposal (e_value e)) r outs) (evs @ evs1) es =
        Inr (m', outs', evs')"
      using "2.prems"(1) False one by simp
    then have "pinned_at m' = pinned_at ?m \<and> ma_last_applied ?m \<le> ma_last_applied m' \<and> ma_last_applied m' \<le> B"
      using "2.IH"(2) [OF False, of m1 out evs1] "2.prems"(3) by simp
    moreover have "pinned_at ?m = pinned_at m"
      using apply_one_pinned [OF one] by (simp add: still_pinned_def pinned_at_def open_capture_def)
    ultimately show ?thesis using False by simp
  qed
qed simp

lemma keeps_resolve: "keeps n (resolve n outs)"
proof (induction outs arbitrary: n)
  case (Cons x outs)
  obtain p v where x: "x = (p, v)" by fastforce
  have "keeps n (settle f (Answered v) (n\<lparr>rn_waiters := w\<rparr>))" for f w
    by (rule keeps_trans [OF keeps_update(6) keeps_settle])
  then show ?case
    using keeps_trans [OF _ Cons.IH] Cons.IH by (auto simp: x split: option.split)
qed simp

lemma keeps_fence [keeps_intros]: "keeps n (fence_advance i n)" "keeps n (fence_reset i n)"
  by (simp_all add: fence_advance_def fence_reset_def keeps_intros)

text \<open>A machine that only moved forward, within what is committed.\<close>

lemma keeps_machine:
  assumes "pinned_at m = pinned_at (rn_machine n) \<or> pinned_at m = None"
    "ma_last_applied (rn_machine n) \<le> ma_last_applied m"
    "in_order n \<Longrightarrow> ma_last_applied m \<le> rn_commit_index n"
  shows "keeps n (n\<lparr>rn_machine := m\<rparr>)"
proof -
  have "capture_sound G m" if "capture_sound G (rn_machine n)" for G
    using that assms(1,2) unfolding capture_sound_def pinned_at_def by (auto split: option.splits)
  then show ?thesis
    using assms(2,3) by (auto simp: keeps_def sound_def in_order_def held_meta_def)
qed

lemma slice_bounded:
  assumes "wf_log lg" "slice lg start k = Inr es" "e \<in> set es"
  shows "e_index e < start + k"
proof -
  obtain q where q: "position lg start = Inr q" "es = take (nat k) (drop q (log_entries lg))"
    using assms(2,3) by (auto simp: slice_def bind_res_eq_Inr split: if_splits)
  have st: "snapshot_index lg < start" "q = nat (start - snapshot_index lg - 1)"
    using q(1) by (auto simp: position_wf [OF assms(1)] split: if_splits)
  obtain j where j: "j < nat k" "j < length (drop q (log_entries lg))" "e = drop q (log_entries lg) ! j"
    using assms(3) q(2) by (auto simp: in_set_conv_nth)
  then have "e_index e = snapshot_index lg + 1 + int (q + j)"
    using assms(1) by (simp add: wf_log_def numbered_from_def)
  then show ?thesis using st j(1) by simp
qed

lemma keeps_apply_batch [keeps_intros]: "keeps n (fst (apply_batch env clock n))"
proof -
  let ?start = "ma_last_applied (rn_machine n) + 1"
  let ?k = "min (tm_max_apply_batch (rn_timing n)) (rn_commit_index n - ?start + 1)"
  have "keeps n (fence_advance i (resolve (n\<lparr>rn_machine := m\<rparr>) outs))"
    if run: "apply_entries (en_loads env) clock (rn_machine n) es = Inr (m, outs, evs)"
      and sl: "slice (rn_log n) ?start ?k = Inr es" and c: "\<not> rn_commit_index n < ?start" for i m outs evs es
  proof -
    obtain evs' where loop: "apply_loop (en_loads env) clock (rn_machine n) [] [] es = Inr (m, outs, evs')"
      using run by (auto simp: apply_entries_def bind_res_eq_Inr split: if_splits)
    have "keeps n (n\<lparr>rn_machine := m\<rparr>)"
    proof (cases "wf_log (rn_log n)")
      case True
      have "\<forall>e \<in> set es. e_index e \<le> rn_commit_index n"
        using slice_bounded [OF True sl] by fastforce
      then show ?thesis
        using apply_loop_applied [OF loop, of "rn_commit_index n"] c by (intro keeps_machine) auto
    next
      case False
      then show ?thesis by (simp add: keeps_def sound_def log_sound_def)
    qed
    then show ?thesis by (rule keeps_trans [OF keeps_trans [OF _ keeps_resolve] keeps_fence(1)])
  qed
  then show ?thesis
    unfolding apply_batch_def Let_def by (auto split: sum.split py_error.split list.split)
qed
subsection \<open>Replies, reads and the commit rule\<close>

lemma keeps_replicate_to: "keeps n (fst (replicate_to env n ps))"
proof (induction ps arbitrary: n)
  case (Cons p ps)
  then show ?case by (auto intro!: keeps_and_then keeps_intros)
qed simp

lemma keeps_replicate_all [keeps_intros]: "keeps n (fst (replicate_all env n))"
  unfolding replicate_all_def by (rule keeps_replicate_to)

lemma keeps_confirm_each: "keeps n (fst (confirm_each n rs))"
proof (induction rs arbitrary: n)
  case (Cons r rs)
  have s: "keeps n (fst (confirm_each (settle f v n) rs))" for f v
    using keeps_trans [OF keeps_settle Cons.IH] .
  show ?case using Cons.IH s by (auto simp: split_beta split: option.split)
qed simp

lemma keeps_confirm_reads [keeps_intros]: "keeps n (confirm_reads n)"
  unfolding confirm_reads_def Let_def split_beta
  by (rule keeps_trans [OF keeps_confirm_each keeps_update(2)])

lemma keeps_arm_reads [keeps_intros]: "keeps n (fst (arm_reads env n))"
proof -
  have "keeps n (fst (and_then (replicate_all env (n\<lparr>rn_reads := x\<rparr>)) (\<lambda>n1 _. (confirm_reads n1, Inr ()))))" for x
    by (rule keeps_and_then)
       (auto intro: keeps_trans [OF keeps_update(2) keeps_replicate_all] keeps_intros)
  then show ?thesis by (auto simp: arm_reads_def split: sum.split bool.split)
qed

lemma keeps_begin_read [keeps_intros]: "keeps n (fst (begin_read env n f))"
  by (auto simp: begin_read_def intro: keeps_intros keeps_trans [OF keeps_update(2) keeps_arm_reads])

text \<open>A leader commits only what its log holds.\<close>

lemma keeps_commit:
  assumes "term_at (rn_log n) c = Inr t" "rn_commit_index n \<le> c"
  shows "keeps n (n\<lparr>rn_commit_index := c\<rparr>)"
proof -
  have "c \<le> last_index (rn_log n)" if "sound G n" for G
    using term_at_grounded(3) [OF soundD(1,2) [OF that] assms(1)] .
  then show ?thesis using assms(2) by (auto simp: keeps_def sound_def in_order_def held_meta_def)
qed

lemma keeps_advance_commit [keeps_intros]: "keeps n (fst (advance_commit env n))"
proof -
  have "keeps n (fst (and_then (replicate_all env (n\<lparr>rn_commit_index := c\<rparr>)) (\<lambda>n1 _. arm_reads env n1)))"
    if "term_at (rn_log n) c = Inr t" "\<not> c \<le> rn_commit_index n" for c t
    by (rule keeps_and_then [OF keeps_trans [OF keeps_commit keeps_replicate_all]])
       (use that in \<open>auto intro: keeps_intros\<close>)
  then show ?thesis
    by (auto simp: advance_commit_def split: option.split sum.split py_error.split)
qed

lemma keeps_promote_if [keeps_intros]: "keeps n (promote_if_caught_up n p)"
  unfolding promote_if_caught_up_def Let_def
  by (auto intro!: keeps_send_after keeps_set_peer)

lemma keeps_note_reply [keeps_intros]: "keeps n (note_reply env n p m)"
  unfolding note_reply_def Let_def
  by (rule keeps_trans [OF keeps_set_peer keeps_confirm_reads]) simp

lemma keeps_rejected [keeps_intros]: "keeps n (fst (rejected_append env n p m))"
  unfolding rejected_append_def Let_def
  by (auto intro!: keeps_trans [OF keeps_set_peer keeps_send_append])

lemma keeps_accepted [keeps_intros]: "keeps n (fst (accepted_append env n p m a))"
proof -
  have "keeps n (promote_if_caught_up (set_peer n p s) p)" if "p_sending s = p_sending (peer_state n p)" for s
    by (rule keeps_trans [OF keeps_set_peer keeps_promote_if]) (simp add: that)
  then show ?thesis
    unfolding accepted_append_def Let_def
    by (auto intro!: keeps_and_then intro: keeps_intros keeps_trans [OF _ keeps_advance_commit])
qed

subsection \<open>Terms, votes and stopping\<close>

lemma keeps_persist [keeps_intros]: "keeps n (fst (persist_node os n))"
  by (simp add: persist_node_def split_beta keeps_intros)

lemma keeps_rounds [keeps_intros]: "keeps n (clear_rounds n)"
  unfolding clear_rounds_def by (rule keeps_fields) simp_all

lemma keeps_step_down [keeps_intros]: "keeps n (fst (step_down os n t))"
proof -
  have "keeps (fail_reads n) ((fail_reads n)\<lparr>rn_term := t, rn_installing := [], rn_voted_for := None,
       rn_role := FOLLOWER, rn_leader := None\<rparr>)" by (rule keeps_fields) simp_all
  then show ?thesis
    unfolding step_down_def
    by (rule keeps_trans [OF keeps_trans [OF keeps_trans [OF keeps_fail_reads] keeps_rounds] keeps_persist])
qed

lemma keeps_relinquish [keeps_intros]: "keeps n (relinquish env n)"
proof -
  have "keeps n (n\<lparr>rn_role := FOLLOWER, rn_leader := None\<rparr>)" by (rule keeps_fields) simp_all
  then show ?thesis
    unfolding relinquish_def
    using keeps_trans [OF keeps_trans [OF keeps_trans [OF _ keeps_rounds] keeps_fail_reads] keeps_timer] by simp
qed

lemma keeps_heed [keeps_intros]: "keeps n (heed_leader env n l)"
  unfolding heed_leader_def reset_election_timer_def by (rule keeps_fields) simp_all

lemma keeps_fail_node [keeps_intros]: "keeps n (fail_node env n err)"
proof -
  have p: "keeps n (fail_reads ((foldl (\<lambda>n (_, f). settle f Unavailable n) n xs)\<lparr>rn_pending := ys\<rparr>))"
    for n :: RaftNode and xs :: "(RegistryOperation \<times> nat) list" and ys
    by (rule keeps_trans [OF keeps_trans [OF keeps_settle_all keeps_update(5)] keeps_fail_reads])
  have w: "keeps n ((foldl (\<lambda>n (_, f). settle f Unavailable n) n xs)\<lparr>rn_waiters := ys\<rparr>)"
    for n :: RaftNode and xs :: "(ProposalId \<times> nat) list" and ys
    by (rule keeps_trans [OF keeps_settle_all keeps_update(6)])
  have "keeps n (n\<lparr>rn_failure := Some err, rn_closing := True\<rparr>)" by (rule keeps_fields) simp_all
  then have r: "keeps n (relinquish env (n\<lparr>rn_failure := Some err, rn_closing := True\<rparr>))"
    by (rule keeps_trans [OF _ keeps_relinquish])
  show ?thesis
    unfolding fail_node_def Let_def using keeps_trans [OF keeps_trans [OF r p] w] by simp
qed

lemma keeps_cast_vote [keeps_intros]: "keeps n (fst (cast_vote env os n m))"
  unfolding cast_vote_def Let_def
  by (auto intro!: keeps_and_then keeps_trans [OF keeps_update(14) keeps_persist] intro: keeps_intros)

lemma keeps_on_request_vote [keeps_intros]: "keeps n (fst (on_request_vote env n m))"
  unfolding on_request_vote_def by (auto intro!: keeps_and_then keeps_intros)

lemma keeps_broadcast: "(\<And>G. on_ledger G m) \<Longrightarrow> keeps n (broadcast n m)"
  unfolding broadcast_def by (rule keeps_foldl) (rule keeps_send_after; simp)

lemma keeps_on_promote [keeps_intros]: "keeps n (on_promote n m)"
  by (simp add: on_promote_def keeps_intros)

subsection \<open>Proposals and connections\<close>

lemma keeps_next_proposal: "keeps n (fst (next_proposal n))"
  by (simp add: next_proposal_def Let_def keeps_intros)

lemma keeps_wait_for: "keeps n (wait_for p f n)"
  by (simp add: wait_for_def keeps_intros)

lemma keeps_stamp_batch: "keeps n (fst (stamp_batch n items))"
proof (induction items arbitrary: n)
  case (Cons x items)
  then show ?case
    using keeps_trans [OF keeps_trans [OF keeps_next_proposal keeps_wait_for] Cons.IH]
    by (cases x) (simp add: split_beta)
qed simp

lemma keeps_stamp_and_encode: "keeps n (fst (stamp_and_encode n items))"
proof (induction items arbitrary: n)
  case (Cons x items)
  have w: "keeps n (wait_for p f (fst (next_proposal n)))" for p f
    by (rule keeps_trans [OF keeps_next_proposal keeps_wait_for])
  have "keeps n (fst (and_then (stamp_and_encode (wait_for p f (fst (next_proposal n))) items) (\<lambda>n3 bs. (n3, Inr (b # bs)))))" for p f b
    using keeps_trans [OF w Cons.IH] by (rule keeps_and_then) simp
  then show ?case using w by (cases x) (auto simp: split_beta Let_def split: sum.split)
qed simp

lemma peer_state_get: "dget (rn_peers n) p = Some s \<Longrightarrow> peer_state n p = s"
  by (simp add: peer_state_def)

lemma keeps_on_peer_state [keeps_intros]: "keeps n (fst (on_peer_state env n p up inc))"
proof (cases "dget (rn_peers n) p")
  case (Some s)
  have s: "sendable n (p_sending s)" using sendable_intros(2) [of n p] peer_state_get [OF Some] by simp
  show ?thesis
    unfolding on_peer_state_def Let_def
    by (auto simp: Some s intro!: keeps_trans [OF keeps_set_peer keeps_send_append] keeps_set_peer
        keeps_trans [OF keeps_set_peer keeps_update(4)])
qed (simp add: on_peer_state_def)

subsection \<open>Compaction\<close>

lemma keeps_compact_begin [keeps_intros]: "keeps n (fst (compact_begin n))"
proof -
  have "keeps n (n\<lparr>rn_machine := set_capture (rn_machine n) c\<rparr>)"
    if t: "term_at (rn_log n) (ma_last_applied (rn_machine n)) = Inr t"
      and c: "begin_capture x (ma_last_applied (rn_machine n)) t own = Inr c" for t c x own
  proof -
    have "cap_index c = ma_last_applied (rn_machine n)" "cap_term c = t"
      using c by (auto simp: begin_capture_def bind_res_eq_Inr new_capture_def split: if_splits)
    then have "capture_sound G (set_capture (rn_machine n) c)" if "sound G n" for G
      using term_at_grounded(1) [OF soundD(1,2) [OF that] t]
      by (simp add: capture_sound_def set_capture_def open_capture_def)
    then show ?thesis by (auto simp: keeps_def sound_def in_order_def held_meta_def set_capture_def)
  qed
  then show ?thesis
    unfolding compact_begin_def Let_def by (auto split: sum.split py_error.split)
qed

text \<open>Discarding a prefix leaves a log of the ledger, grounded at its new boundary.\<close>

lemma discard_through_sound:
  assumes "positive G" "log_sound G lg" "term_at lg i = Inr t" "discard_through lg i t = Inr (lg', k)"
  shows "log_sound G lg'"
proof (cases "i \<le> snapshot_index lg")
  case True
  then have "lg' = lg" using assms(4) by (auto simp: discard_through_def split: if_splits)
  then show ?thesis using assms(2) by simp
next
  case False
  note w = log_soundD(1) [OF assms(2)]
  have i: "i \<le> last_index lg" using term_at_grounded(3) [OF assms(1-3)] .
  have lg': "lg' = lg\<lparr>log_entries := drop (nat (i - snapshot_index lg)) (log_entries lg), snapshot_index := i, snapshot_term := t\<rparr>"
    using assms(4) False i
    by (auto simp: discard_through_def position_wf [OF w] Let_def nat_diff_distrib' Suc_nat_eq_nat_zadd1 algebra_simps split: if_splits)
  show ?thesis
    using discard_through_wf [OF w assms(4)] linked_after [OF assms(1-3)] term_at_grounded(1) [OF assms(1-3)]
    unfolding log_sound_def by (simp add: lg')
qed

lemma keeps_compact_end:
  assumes c: "open_capture (rn_machine n) = Some c" and d: "discard_to \<le> cap_index c"
  shows "keeps n (fst (compact_end n (cap_index c, cap_term c, discard_to) payload))"
proof -
  let ?n = "n\<lparr>rn_machine := (rn_machine n)\<lparr>ma_snapshots := Some None\<rparr>, rn_snapshot := payload,
     rn_snapshot_meta := Some \<lparr>sm_last_index = cap_index c, sm_last_term = cap_term c, sm_resources = 0\<rparr>\<rparr>"
  have k: "keeps n ?n"
    using c by (auto simp: keeps_def sound_def in_order_def held_meta_def known_def capture_sound_def open_capture_def)
  have "keeps n (?n\<lparr>rn_log := lg\<rparr>)"
    if t: "term_at (rn_log n) discard_to = Inr t" and lg: "discard_through (rn_log n) discard_to t = Inr (lg, f)" for t lg f
  proof -
    have "last_index lg = last_index (rn_log n) \<and> sound G (?n\<lparr>rn_log := lg\<rparr>)" if "sound G n" for G
    proof -
      note s = soundD [OF that]
      have "cap_index c \<le> ma_last_applied (rn_machine n)" using s(4) c by (simp add: capture_sound_def)
      moreover have "last_index lg = last_index (rn_log n) \<and> snapshot_index lg = max discard_to (snapshot_index (rn_log n))"
        using discard_through_wf [OF log_soundD(1) [OF s(2)] lg] by simp
      ultimately show ?thesis
        using k that d discard_through_sound [OF s(1,2) t lg]
        by (auto simp: keeps_def sound_def in_order_def held_meta_def)
    qed
    then show ?thesis by (auto simp: keeps_def)
  qed
  then show ?thesis
    using k unfolding compact_end_def Let_def by (auto split: sum.split py_error.split)
qed
subsection \<open>Following a leader\<close>

lemma decode_entries_marks: "decode_entries ws = Inr es \<Longrightarrow> marks es = wire_marks ws \<and> length es = length ws"
  by (induction ws arbitrary: es) (auto simp: bind_res_eq_Inr wire_marks_def)

lemma log_matches_term:
  assumes "positive G" "log_sound G lg" "grounded G i t" "log_matches lg i t = Inr True"
  shows "term_at lg i = Inr t"
proof (cases "i = 0")
  case True
  then have "snapshot_index lg = 0" using assms(4) by (simp add: log_matches_def)
  then have "snapshot_term lg = 0" "t = 0"
    using grounded_zero [OF assms(1)] log_soundD(2) [OF assms(2)] assms(3) True by auto
  then show ?thesis using \<open>snapshot_index lg = 0\<close> True by (simp add: term_at_def)
next
  case False
  then show ?thesis
    using assms(4) by (auto simp: log_matches_def term_at_def bind_res_eq_Inr split: if_splits)
qed

lemma sound_commit:
  assumes "sound G n" "rn_commit_index n \<le> c" "c \<le> last_index (rn_log n)"
  shows "sound G (n\<lparr>rn_commit_index := c\<rparr>)"
  using assms by (auto simp: sound_def in_order_def held_meta_def)

lemma sound_accept_append:
  assumes "sound G n" "ae_prev_log_index m + int (length (ae_entries m)) \<le> last_index (rn_log n)"
  shows "sound G (fst (accept_append n m))"
  using assms sound_commit by (auto simp: accept_append_def Let_def)

lemma sound_log:
  assumes "sound G n" "append_replicated (rn_log n) es (rn_commit_index n) = (lg, err)" "log_sound G lg"
  shows "sound G (n\<lparr>rn_log := lg\<rparr>)"
proof -
  note w = log_soundD(1) [OF soundD(2) [OF assms(1)]]
  have "rn_commit_index n \<le> last_index (rn_log n)" using soundD(3) [OF assms(1)] by (simp add: in_order_def)
  then have "rn_commit_index n \<le> last_index lg" "snapshot_index lg = snapshot_index (rn_log n)"
    using append_replicated_committed [OF w assms(2) order_refl] append_replicated_wf [OF w assms(2)] by simp_all
  then show ?thesis using assms(1,3) by (simp add: sound_def in_order_def held_meta_def)
qed

lemma sound_keeps: "keeps n n' \<Longrightarrow> sound G n \<Longrightarrow> sound G n'"
  by (simp add: keeps_def)

lemma sound_store_entries:
  assumes s: "sound G n" and m: "on_ledger G (MAppendEntries m)"
    and t: "term_at (rn_log n) (ae_prev_log_index m) = Inr (ae_prev_log_term m)"
  shows "sound G (fst (store_entries env n m))"
proof (cases "ae_entries m = []")
  case True
  have "ae_prev_log_index m \<le> last_index (rn_log n)" by (rule term_at_grounded(3) [OF soundD(1,2) [OF s] t])
  then show ?thesis
    using True sound_accept_append [OF s, of m] by (simp add: store_entries_def Let_def split_beta)
next
  case False
  show ?thesis
  proof (cases "decode_entries (ae_entries m)")
    case (Inl e)
    then show ?thesis using False s by (cases e) (simp_all add: store_entries_def)
  next
    case (Inr es)
    obtain lg err where r: "append_replicated (rn_log n) es (rn_commit_index n) = (lg, err)" by fastforce
    have es: "marks es = wire_marks (ae_entries m)" "length es = length (ae_entries m)"
      using decode_entries_marks [OF Inr] by simp_all
    have "linked G (ae_prev_log_index m) (ae_prev_log_term m) (marks es)" using m es(1) by (simp add: on_ledger_def)
    note a = append_replicated_sound [OF soundD(1,2) [OF s] t this r]
    have lg: "sound G (n\<lparr>rn_log := lg\<rparr>)" using sound_log [OF s r] a by blast
    have "sound G (fst (accept_append (n\<lparr>rn_log := lg\<rparr>) m))" if "err = None"
      using a that es(2) by (intro sound_accept_append [OF lg]) simp
    then show ?thesis
      using False Inr r lg sound_keeps [OF keeps_fail_node lg]
      by (auto simp: store_entries_def Let_def split_beta split: option.split py_error.split)
  qed
qed

lemma sound_follow_append:
  assumes s: "sound G n" and m: "on_ledger G (MAppendEntries m)"
  shows "sound G (fst (follow_append env n m))"
proof -
  have g: "grounded G (ae_prev_log_index m) (ae_prev_log_term m)" using m by (simp add: on_ledger_def)
  show ?thesis
    using s sound_keeps [OF keeps_fail_node s] sound_store_entries [OF s m log_matches_term [OF soundD(1,2) [OF s] g]]
    unfolding follow_append_def Let_def by (auto split: sum.split bool.split)
qed

lemma sound_and_then:
  assumes "sound G (fst r)" and "\<And>n1 x. r = (n1, Inr x) \<Longrightarrow> sound G n1 \<Longrightarrow> sound G (fst (f n1 x))"
  shows "sound G (fst (and_then r f))"
  using assms by (cases r; cases "snd r") auto

lemma sound_on_append_entries:
  assumes s: "sound G n" and m: "on_ledger G (MAppendEntries m)"
  shows "sound G (fst (on_append_entries env n m))"
proof (cases "ae_term m < rn_term n")
  case False
  have "sound G (fst (follow_append env ((heed_leader env n1 l)\<lparr>rn_heard_from_leader_at := x\<rparr>) m))"
    if "sound G n1" for n1 l x
    by (intro sound_follow_append [OF _ m] sound_keeps [OF keeps_trans [OF keeps_heed keeps_update(23)] that])
  then show ?thesis
    unfolding on_append_entries_def
    using False s sound_keeps [OF keeps_step_down s] by (auto intro!: sound_and_then)
qed (simp add: on_append_entries_def s)

lemma sound_install_buffer:
  assumes s: "sound G n" and g: "grounded G (is_last_index m) (is_last_term m)"
    and c: "rn_commit_index n < is_last_index m"
  shows "sound G (fst (install_buffer env n p m b))"
proof -
  let ?n = "n\<lparr>rn_installing := dpop p (rn_installing n)\<rparr>"
  have drop: "sound G ?n" by (rule sound_keeps [OF keeps_update(4) s])
  have "sound G (fence_reset i (?n\<lparr>rn_machine := install_snapshot (rn_machine n) st own (sm_last_index meta),
      rn_log := reset_to_snapshot (rn_log n) (sm_last_index meta) (sm_last_term meta), rn_snapshot := x,
      rn_snapshot_meta := Some meta, rn_commit_index := max (rn_commit_index n) (sm_last_index meta)\<rparr>))"
    if r: "\<not> cannot_be_real meta (is_term m) (is_last_index m, is_last_term m)" for i st own meta x
  proof -
    have e: "sm_last_index meta = is_last_index m" "sm_last_term meta = is_last_term m"
      using r by (simp_all add: cannot_be_real_def)
    have "log_sound G (reset_to_snapshot (rn_log n) (is_last_index m) (is_last_term m))"
      using g reset_to_snapshot_wf [OF grounded_nonneg [OF soundD(1) [OF s] g]]
      by (simp add: log_sound_def reset_to_snapshot_def)
    moreover have "open_capture (install_snapshot x st own j) = None" for x j
      by (simp add: open_capture_def install_snapshot_def split: option.split)
    ultimately show ?thesis
      using s g c e
      by (auto simp: sound_def in_order_def held_meta_def known_def capture_sound_def fence_reset_def
          install_snapshot_def reset_to_snapshot_def last_index_def)
  qed
  then show ?thesis
    unfolding install_buffer_def Let_def split_beta using drop by (auto split: sum.split)
qed

lemma sound_receive_chunk:
  assumes s: "sound G n" and g: "grounded G (is_last_index m) (is_last_term m)"
    and c: "rn_commit_index n < is_last_index m"
  shows "sound G (fst (receive_chunk env n p m))"
proof -
  have u: "sound G (n\<lparr>rn_installing := x\<rparr>)" for x by (rule sound_keeps [OF keeps_update(4) s])
  have "sound G (fst (install_buffer env (n\<lparr>rn_installing := x\<rparr>) p m b))" for x b
    by (rule sound_install_buffer [OF u g]) (simp add: c)
  then show ?thesis
    unfolding receive_chunk_def Let_def using s u by (auto split: option.split)
qed

lemma sound_on_install_snapshot:
  assumes s: "sound G n" and m: "on_ledger G (MInstallSnapshot m)"
  shows "sound G (fst (on_install_snapshot env n p m))"
proof -
  have g: "grounded G (is_last_index m) (is_last_term m)" using m by (simp add: on_ledger_def)
  have f: "sound G (fst (follow_snapshot env n1 p m))" if s1: "sound G n1" for n1
  proof -
    have u: "sound G (n1\<lparr>rn_installing := x\<rparr>)" for x by (rule sound_keeps [OF keeps_update(4) s1])
    have "sound G (fst (receive_chunk env n1 p m))" if "\<not> is_last_index m \<le> rn_commit_index n1"
      using sound_receive_chunk [OF s1 g] that by simp
    then show ?thesis
      unfolding follow_snapshot_def Let_def split_beta
      using s1 u sound_keeps [OF keeps_fail_node u] by (auto split: sum.split bool.split)
  qed
  show ?thesis
    unfolding on_install_snapshot_def
    using s sound_keeps [OF keeps_step_down s] f sound_keeps [OF keeps_heed] by (auto intro!: sound_and_then)
qed
text \<open>Whoever takes an append or a snapshot in does not lead afterwards.\<close>

lemma steady_not_leader: "steady conv n n' \<Longrightarrow> rn_role n = FOLLOWER \<Longrightarrow> rn_role n' \<noteq> LEADER"
  by (auto simp: steady_def leading_def split: if_splits)

lemma step_down_follows: "rn_role (fst (step_down os n t)) = FOLLOWER"
  by (simp add: step_down_def persist_node_def split_beta clear_rounds_def)

lemma and_then_not_leading:
  assumes "rn_role (fst r) \<noteq> LEADER" and "\<And>n1 x. r = (n1, Inr x) \<Longrightarrow> rn_role (fst (f n1 x)) \<noteq> LEADER"
  shows "rn_role (fst (and_then r f)) \<noteq> LEADER"
  using assms by (cases r; cases "snd r") auto

lemma on_append_entries_follows:
  "on_append_entries env n m = (n, Inr (append_reject n)) \<or> rn_role (fst (on_append_entries env n m)) \<noteq> LEADER"
proof (cases "ae_term m < rn_term n")
  case False
  have f: "rn_role (fst (follow_append env ((heed_leader env n1 l)\<lparr>rn_heard_from_leader_at := x\<rparr>) m)) \<noteq> LEADER" for n1 l x
    by (rule steady_not_leader [OF steady_follow_append [where conv = "\<lambda>_. Inl TypeError"]])
       (simp add: heed_leader_def reset_election_timer_def)
  have "rn_role (fst (and_then (step_down (en_save env) n (ae_term m))
      (\<lambda>n1 _. follow_append env ((heed_leader env n1 (ae_leader m))\<lparr>rn_heard_from_leader_at := en_now env\<rparr>) m))) \<noteq> LEADER"
    by (rule and_then_not_leading) (simp_all add: step_down_follows f)
  then show ?thesis using False f by (simp add: on_append_entries_def)
qed (simp add: on_append_entries_def)

lemma on_install_snapshot_follows:
  "on_install_snapshot env n p m = (n, Inr (snapshot_answer n m 0 False)) \<or> rn_role (fst (on_install_snapshot env n p m)) \<noteq> LEADER"
proof (cases "is_term m < rn_term n")
  case False
  have f: "rn_role (fst (follow_snapshot env (heed_leader env n1 l) p m)) \<noteq> LEADER" for n1 l
    by (rule steady_not_leader [OF steady_follow_snapshot [where conv = "\<lambda>_. Inl TypeError"]])
       (simp add: heed_leader_def reset_election_timer_def)
  have "rn_role (fst (and_then (step_down (en_save env) n (is_term m))
      (\<lambda>n1 _. follow_snapshot env (heed_leader env n1 (is_leader m)) p m))) \<noteq> LEADER"
    by (rule and_then_not_leading) (simp_all add: step_down_follows f)
  then show ?thesis using False f by (simp add: on_install_snapshot_def)
qed (simp add: on_install_snapshot_def)

subsection \<open>Writing the ledger\<close>

text \<open>
  A leader's log reaches as far as anything written in its term. A step by which a member comes
  to lead a term finds nothing written in that term. Then what the step writes is written in the
  term it leads.
\<close>

definition owns :: "ledger \<Rightarrow> RaftNode \<Rightarrow> bool" where
  "owns G n \<longleftrightarrow> (rn_role n = LEADER \<longrightarrow> (\<forall>k. (k, rn_term n) \<in> dom G \<longrightarrow> k \<le> last_index (rn_log n)))"

definition fresh :: "ledger \<Rightarrow> RaftNode \<Rightarrow> RaftNode \<Rightarrow> bool" where
  "fresh G n n' \<longleftrightarrow> (rn_role n' = LEADER \<longrightarrow>
     (rn_role n = LEADER \<and> rn_term n = rn_term n') \<or> (\<forall>k. (k, rn_term n') \<notin> dom G))"

definition grows :: "ledger \<Rightarrow> ledger \<Rightarrow> RaftNode \<Rightarrow> bool" where
  "grows G H n \<longleftrightarrow> G \<subseteq>\<^sub>m H \<and>
     (\<forall>k t. (k, t) \<in> dom H \<longrightarrow> (k, t) \<in> dom G \<or> t = rn_term n \<and> rn_role n = LEADER)"

definition sees :: "ledger \<Rightarrow> RaftNode \<Rightarrow> bool" where
  "sees G n \<longleftrightarrow> (\<exists>H. grows G H n \<and> sound H n \<and> owns H n)"

definition advances :: "RaftNode \<Rightarrow> RaftNode \<Rightarrow> bool" where
  "advances n n' \<longleftrightarrow> (\<forall>G. sound G n \<longrightarrow> owns G n \<longrightarrow> fresh G n n' \<longrightarrow> sees G n')"

lemma grows_refl [simp]: "grows G G n"
  by (simp add: grows_def)

lemma calm_lead: "calm n n' \<Longrightarrow> rn_role n' = rn_role n \<and> rn_term n' = rn_term n"
  by (simp add: calm_def same_ballots_def)

lemma keeps_advances: "keeps n n' \<Longrightarrow> advances n n'"
  unfolding advances_def
proof (intro allI impI)
  fix G assume k: "keeps n n'" and G: "sound G n" "owns G n" "fresh G n n'"
  have "sound G n'" "last_index (rn_log n') = last_index (rn_log n)" using k G(1) by (simp_all add: keeps_def)
  moreover have "owns G n'" using G(2,3) calculation(2) unfolding owns_def fresh_def by metis
  ultimately show "sees G n'" unfolding sees_def using grows_refl by blast
qed

lemma sees_after:
  assumes "sees G n1" "keeps n1 n2" "calm n1 n2"
  shows "sees G n2"
proof -
  obtain H where H: "grows G H n1" "sound H n1" "owns H n1" using assms(1) by (auto simp: sees_def)
  have "sound H n2" "last_index (rn_log n2) = last_index (rn_log n1)" using assms(2) H(2) by (simp_all add: keeps_def)
  then show ?thesis
    using H calm_lead [OF assms(3)] unfolding sees_def by (intro exI [of _ H]) (simp add: grows_def owns_def)
qed

lemma advances_after: "advances n n1 \<Longrightarrow> keeps n1 n2 \<Longrightarrow> calm n1 n2 \<Longrightarrow> advances n n2"
  unfolding advances_def using sees_after calm_lead by (auto simp: fresh_def)

lemma advances_before:
  assumes "keeps n n1" "calm n n1" "advances n1 n2"
  shows "advances n n2"
  unfolding advances_def
proof (intro allI impI)
  fix G assume G: "sound G n" "owns G n" "fresh G n n2"
  have "sound G n1" "last_index (rn_log n1) = last_index (rn_log n)" using assms(1) G(1) by (simp_all add: keeps_def)
  moreover have "owns G n1" "fresh G n1 n2"
    using G(2,3) calm_lead [OF assms(2)] calculation(2) by (simp_all add: owns_def fresh_def)
  ultimately show "sees G n2" using assms(3) by (simp add: advances_def)
qed

lemma advances_and_then:
  assumes "advances n (fst r)" and "\<And>n1 x. r = (n1, Inr x) \<Longrightarrow> keeps n1 (fst (f n1 x)) \<and> calm n1 (fst (f n1 x))"
  shows "advances n (fst (and_then r f))"
proof (cases r)
  case (Pair n1 y)
  then show ?thesis using assms advances_after [of n n1] by (cases y) auto
qed

lemma advances_append_local:
  assumes "rn_role n = LEADER"
  shows "advances n (fst (append_local n ops))"
proof (cases "bind_res (encode_all ops) (append_log (rn_log n) (rn_term n))")
  case (Inl e)
  then show ?thesis by (simp add: append_local_def keeps_advances)
next
  case (Inr x)
  obtain lg f l where x: "x = (lg, f, l)" by (cases x) auto
  obtain xs where run: "append_log (rn_log n) (rn_term n) xs = Inr (lg, f, l)"
    using Inr x by (auto simp: bind_res_eq_Inr)
  have "sees G (n\<lparr>rn_log := lg\<rparr>)" if G: "sound G n" "owns G n" for G
  proof -
    note s = soundD [OF G(1)]
    have "\<forall>k > last_index (rn_log n). (k, rn_term n) \<notin> dom G" using G(2) assms by (force simp: owns_def)
    from append_log_sound [OF s(1,2) this run]
    obtain H where H: "G \<subseteq>\<^sub>m H" "positive H" "log_sound H lg" "last_index (rn_log n) \<le> last_index lg"
      "\<And>k u. (k, u) \<in> dom H \<Longrightarrow> (k, u) \<in> dom G \<or> u = rn_term n \<and> k \<le> last_index lg"
      by blast
    have "snapshot_index lg = snapshot_index (rn_log n)" using append_log_wf [OF log_soundD(1) [OF s(2)] run] by simp
    then have "sound H (n\<lparr>rn_log := lg\<rparr>)"
      using sound_mono [OF G(1) H(1,2)] H(3,4) by (simp add: sound_def in_order_def held_meta_def)
    moreover have "owns H (n\<lparr>rn_log := lg\<rparr>)" using H(4,5) G(2) assms by (fastforce simp: owns_def)
    moreover have "grows G H (n\<lparr>rn_log := lg\<rparr>)" using H(1,5) assms by (fastforce simp: grows_def)
    ultimately show ?thesis by (auto simp: sees_def)
  qed
  then show ?thesis using Inr x by (simp add: append_local_def advances_def)
qed

lemma advances_drain: "advances n (fst (drain env n batch))"
proof (cases "rn_role n = LEADER")
  case True
  have l: "rn_role (fst (stamp_batch n batch)) = LEADER" using calm_lead [OF calm_stamp_batch] True by simp
  have "advances n (fst (and_then (append_local (fst (stamp_batch n batch)) ops) (\<lambda>n2 _.
           and_then (replicate_all env n2) (\<lambda>n3 _.
             if rn_peers n3 = [] then advance_commit env n3 else (n3, Inr ())))))" for ops
  proof (rule advances_before [OF keeps_stamp_batch calm_stamp_batch advances_and_then [OF advances_append_local [OF l]]])
    show "keeps n1 (fst (and_then (replicate_all env n1) (\<lambda>n3 _. if rn_peers n3 = [] then advance_commit env n3 else (n3, Inr ())))) \<and>
      calm n1 (fst (and_then (replicate_all env n1) (\<lambda>n3 _. if rn_peers n3 = [] then advance_commit env n3 else (n3, Inr ()))))" for n1
      by (auto intro!: keeps_and_then calm_and_then intro: keeps_intros calm_intros)
  qed
  then show ?thesis using True by (simp add: drain_def split_beta)
next
  case False
  have s: "keeps n (fst (and_then (stamp_and_encode n batch) (\<lambda>n1 bs.
                  (foldl (\<lambda>n g. send n l (MPropose \<lparr>pp_request_id = 0, pp_proposals = g\<rparr>) CONTROL) n1
                     (split_by_bytes bs (tm_max_append_bytes (rn_timing n1))), Inr ()))))" for l
    by (rule keeps_and_then [OF keeps_stamp_and_encode]) (auto intro!: keeps_foldl keeps_send_after)
  then show ?thesis
    using False keeps_settle_all [of n Unavailable batch]
    by (auto simp: drain_def intro!: keeps_advances split: option.split)
qed

lemma advances_flush: "advances n (fst (flush env n))"
  by (auto simp: flush_def intro: keeps_advances advances_before [OF keeps_update(5) calm_update(8) advances_drain])

lemma advances_propose: "advances n (fst (propose env n op f))"
  by (auto simp: propose_def Let_def intro: advances_before [OF keeps_update(5) calm_update(8) advances_flush]
      keeps_advances keeps_intros)

lemma advances_on_propose: "advances n (fst (on_propose env n m))"
proof (cases "rn_role n = LEADER")
  case True
  have "advances n (fst (and_then (append_local n ops) (\<lambda>n1 (first, _).
                   and_then (replicate_all env n1) (\<lambda>n2 _.
                   and_then (if rn_peers n2 = [] then advance_commit env n2 else (n2, Inr ())) (\<lambda>n3 _.
                     (n3, Inr (g n3 first)))))))" for ops and g :: "RaftNode \<Rightarrow> int \<Rightarrow> ProposeReply"
    by (rule advances_and_then [OF advances_append_local [OF True]])
       (auto intro!: keeps_and_then calm_and_then intro: keeps_intros calm_intros)
  then show ?thesis
    unfolding on_propose_def Let_def using True by (auto simp: keeps_advances split: sum.split list.split)
qed (simp add: on_propose_def keeps_advances)
subsection \<open>Beginning to lead\<close>

lemma led_peer_known: "(p, s) \<in> set (map (\<lambda>(p, s). (p, led_peer env n s)) xs) \<Longrightarrow> p_sending s = None"
  by (auto simp: led_peer_def)

lemma become_leader_sees:
  assumes "sound G n" "\<forall>k. (k, rn_term n) \<notin> dom G"
  shows "sees G (fst (become_leader env n))"
proof -
  let ?n1 = "n\<lparr>rn_role := LEADER, rn_leader := Some (local_index n), rn_voting := True\<rparr>"
  let ?n2 = "?n1\<lparr>rn_peers := map (\<lambda>(p, s). (p, led_peer env ?n1 s)) (rn_peers ?n1)\<rparr>"
  let ?n3 = "fst (next_proposal ?n2)"
  have "sound G ?n1" by (rule sound_keeps [OF _ assms(1)]) (rule keeps_fields; simp)
  then have "sound G ?n2"
    by (simp add: sound_def in_order_def held_meta_def) (auto simp: led_peer_def)
  then have s: "sound G ?n3" by (rule sound_keeps [OF keeps_next_proposal])
  have r: "rn_role ?n3 = LEADER" "rn_term ?n3 = rn_term n" using calm_lead [OF calm_next_proposal, of ?n2] by simp_all
  have "advances ?n3 (fst (append_local ?n3 ops))" for ops by (rule advances_append_local [OF r(1)])
  then have a: "advances ?n3 (fst (and_then (append_local ?n3 ops) (\<lambda>n4 _. replicate_all env n4)))" for ops
    by (rule advances_and_then) (simp add: keeps_replicate_all calm_replicate_all)
  have c: "calm ?n3 (fst (and_then (append_local ?n3 ops) (\<lambda>n4 _. replicate_all env n4)))" for ops
    by (rule calm_and_then) (rule calm_intros)+
  have "owns G ?n3" using assms(2) r(2) by (simp add: owns_def)
  moreover have "fresh G ?n3 (fst (and_then (append_local ?n3 ops) (\<lambda>n4 _. replicate_all env n4)))" for ops
    using calm_lead [OF c] r(1) by (simp add: fresh_def)
  ultimately have "sees G (fst (and_then (append_local ?n3 ops) (\<lambda>n4 _. replicate_all env n4)))" for ops
    using a s unfolding advances_def by blast
  then show ?thesis unfolding become_leader_def Let_def split_beta .
qed

lemma become_leader_leads: "rn_role (fst (become_leader env n)) = LEADER \<and> rn_term (fst (become_leader env n)) = rn_term n"
  using calm_lead [OF become_leader_calm [of n env]] by simp

lemma advances_campaign:
  assumes "campaign_saves env n" and k: "keeps n0 n" and t: "rn_term n0 = rn_term n"
  shows "advances n0 (fst (campaign env n))"
  unfolding advances_def
proof (intro allI impI)
  fix G assume G: "sound G n0" "owns G n0" "fresh G n0 (fst (campaign env n))"
  obtain ts where c: "fst (campaign env n) = (if won (campaigned env n ts) {local_index n} {} then fst (become_leader env (campaigned env n ts))
       else broadcast (campaigned env n ts) (request_vote (campaigned env n ts) (rn_term n + 1) False))"
    using campaign_result [OF assms(1), where conv = "\<lambda>_. Inl TypeError"] by blast
  have k1: "keeps n (campaigned env n ts)" by (rule keeps_fields) (simp_all add: campaigned_def)
  have s: "sound G (campaigned env n ts)" by (rule sound_keeps [OF keeps_trans [OF k k1] G(1)])
  show "sees G (fst (campaign env n))"
  proof (cases "won (campaigned env n ts) {local_index n} {}")
    case True
    then have e: "fst (campaign env n) = fst (become_leader env (campaigned env n ts))" by (simp add: c)
    have "\<forall>j. (j, rn_term n + 1) \<notin> dom G"
      using G(3) t become_leader_leads [of env "campaigned env n ts"] unfolding fresh_def e by simp
    then show ?thesis unfolding e by (intro become_leader_sees [OF s]) simp
  next
    case False
    then have e: "fst (campaign env n) = broadcast (campaigned env n ts) (request_vote (campaigned env n ts) (rn_term n + 1) False)"
      by (simp add: c)
    have "keeps (campaigned env n ts) (fst (campaign env n))"
      unfolding e by (rule keeps_broadcast) (simp add: request_vote_def)
    then have "advances n0 (fst (campaign env n))" by (intro keeps_advances keeps_trans [OF k keeps_trans [OF k1]])
    then show ?thesis using G by (simp add: advances_def)
  qed
qed

lemma keeps_candidacy: "keeps n (reset_election_timer env (n\<lparr>rn_role := r, rn_leader := None, rn_pre_votes := a,
      rn_pre_refusals := b, rn_pre_forgotten := c\<rparr>))"
  by (rule keeps_fields) (simp_all add: reset_election_timer_def)

lemma advances_pre_campaign:
  assumes "campaign_saves env n"
  shows "advances n (fst (pre_campaign env n))"
proof -
  let ?n1 = "reset_election_timer env (n\<lparr>rn_role := PRE_CANDIDATE, rn_leader := None, rn_pre_votes := {local_index n},
      rn_pre_refusals := {}, rn_pre_forgotten := {}\<rparr>)"
  have f: "campaign_saves env ?n1 = campaign_saves env n" "rn_term ?n1 = rn_term n"
    by (simp_all add: reset_election_timer_def campaign_saves_def durable_def local_index_def)
  have "advances n (fst (campaign env ?n1))"
    by (rule advances_campaign [OF _ keeps_candidacy]) (simp_all only: f assms)
  moreover have "keeps n (broadcast ?n1 (request_vote ?n1 t b))" for t b
    by (rule keeps_trans [OF keeps_candidacy keeps_broadcast]) (simp add: request_vote_def)
  ultimately show ?thesis unfolding pre_campaign_def Let_def by (simp add: keeps_advances)
qed

lemma advances_tick: "campaign_saves env n \<Longrightarrow> advances n (fst (tick env n))"
  unfolding tick_def
  by (auto intro: keeps_advances keeps_intros advances_pre_campaign)

lemma advances_on_pre_vote_reply:
  assumes "vr_granted m \<Longrightarrow> campaign_saves env n"
  shows "advances n (fst (on_pre_vote_reply env n p m))"
proof -
  have c: "advances n (fst (campaign env (n\<lparr>rn_pre_votes := a, rn_pre_forgotten := b\<rparr>)))" if "vr_granted m" for a b
    by (rule advances_campaign)
       (use assms [OF that] in \<open>simp_all add: campaign_saves_def durable_def local_index_def keeps_fields\<close>)
  have "keeps n (n\<lparr>rn_pre_votes := a, rn_pre_forgotten := b\<rparr>)" "keeps n (n\<lparr>rn_pre_refusals := a\<rparr>)"
    "keeps n (reset_election_timer env (n\<lparr>rn_pre_refusals := a, rn_role := FOLLOWER, rn_pre_votes := {}, rn_pre_refusals := {}\<rparr>))" for a b
    by (rule keeps_fields; simp add: reset_election_timer_def)+
  then show ?thesis
    using c by (auto simp: on_pre_vote_reply_def Let_def intro: keeps_advances keeps_intros)
qed

lemma advances_on_request_vote_reply:
  assumes "vr_pre_vote m \<Longrightarrow> vr_granted m \<Longrightarrow> campaign_saves env n"
  shows "advances n (fst (on_request_vote_reply env n p m))"
proof (cases "vr_pre_vote m \<or> vr_term m > rn_term n \<or> rn_role n \<noteq> CANDIDATE \<or> vr_term m \<noteq> rn_term n")
  case True
  then show ?thesis
    using advances_on_pre_vote_reply [of m env n p] assms
    by (auto simp: on_request_vote_reply_def intro: keeps_advances keeps_intros)
next
  case False
  let ?n = "n\<lparr>rn_forgotten := (if vr_voting m then rn_forgotten n else insert p (rn_forgotten n)),
              rn_votes := (if vr_granted m then insert p (rn_votes n) else rn_votes n)\<rparr>"
  have r: "fst (on_request_vote_reply env n p m) =
      (if won ?n (rn_votes ?n) (rn_forgotten ?n) then fst (become_leader env ?n) else ?n)"
    using False by (simp add: on_request_vote_reply_def)
  have k: "keeps n ?n" by (rule keeps_fields) simp_all
  show ?thesis
  proof (cases "won ?n (rn_votes ?n) (rn_forgotten ?n)")
    case True
    have "sees G (fst (become_leader env ?n))" if "sound G n" "fresh G n (fst (become_leader env ?n))" for G
      using that(2) False become_leader_leads [of env ?n]
      by (intro become_leader_sees [OF sound_keeps [OF k that(1)]]) (simp add: fresh_def)
    then show ?thesis unfolding r using True by (simp add: advances_def)
  next
    case no: False
    then show ?thesis unfolding r by (simp add: keeps_advances k)
  qed
qed

lemma keeps_on_append_entries_reply: "keeps n (fst (on_append_entries_reply env n p m))"
proof -
  have "keeps n (fst (rejected_append env (note_reply env n p m) p m))"
    "keeps n (fst (accepted_append env (note_reply env n p m) p m a))" for a
    by (rule keeps_trans [OF keeps_note_reply], rule keeps_intros)+
  then show ?thesis
    unfolding on_append_entries_reply_def Let_def by (auto intro: keeps_intros split: option.split)
qed

lemma keeps_on_install_snapshot_reply: "keeps n (fst (on_install_snapshot_reply env n p m))"
proof (cases "dget (rn_peers n) p")
  case None
  then show ?thesis by (auto simp: on_install_snapshot_reply_def intro: keeps_intros)
next
  case (Some s)
  have s: "sendable n (p_sending s)" using sendable_intros(2) [of n p] peer_state_get [OF Some] by simp
  show ?thesis
    unfolding on_install_snapshot_reply_def Let_def
    by (auto simp: Some s intro!: keeps_set_peer keeps_trans [OF keeps_set_peer keeps_send_append]
        keeps_trans [OF keeps_set_peer keeps_snapshot] intro: keeps_intros)
qed

text \<open>A member as it starts: an empty log, and a machine that has applied nothing.\<close>

lemma new_node_sound:
  assumes "ma_last_applied m = 0" "open_capture m = None" "positive G"
  shows "sound G (new_node ly tm ts m ps)"
proof -
  have p: "p_sending s = None" if "(q, s) \<in> set (foldl (\<lambda>d m. dset (f m) new_peer d) d xs)" "\<forall>(q, s) \<in> set d. p_sending s = None"
    for q s d xs and f :: "RaftMember \<Rightarrow> int"
    using that
  proof (induction xs arbitrary: d)
    case (Cons x xs)
    have "\<forall>(q, s) \<in> set (dset (f x) new_peer d). p_sending s = None"
      using Cons.prems(2) dset_in [of _ _ "f x" new_peer d] by (fastforce simp: new_peer_def)
    then show ?case using Cons.IH Cons.prems(1) by simp
  qed auto
  then show ?thesis
    using assms
    by (auto simp: sound_def new_node_def in_order_def held_meta_def capture_sound_def open_capture_def log_sound_def
        wf_new_log grounded_def new_log_def last_index_def wf_log_def dest!: p)
qed

end
