(* ===== verification/Log_Matching.thy ===== *)
theory Log_Matching
  imports Cluster Log_Ledger
begin

section \<open>Logs that agree on a term agree on everything before it\<close>

text \<open>
  The ledger of the whole cluster: every member is sound for it, every message in flight is on
  it, and it only holds entries of terms that had a leader. From it the log matching property,
  and the order of every member's indexes.
\<close>

subsection \<open>The ledger of a cluster\<close>

definition cluster_ledger :: "ledger \<Rightarrow> Cluster \<Rightarrow> bool" where
  "cluster_ledger G c \<longleftrightarrow> positive G \<and> (\<forall>i n. cl_nodes c i = Some n \<longrightarrow> sound G n \<and> owns G n) \<and>
     (\<forall>j i m. (j, i, m) \<in> cl_net c \<longrightarrow> on_ledger G m) \<and> (\<forall>k t. (k, t) \<in> dom G \<longrightarrow> (\<exists>i. (t, i) \<in> cl_elected c))"

lemma cluster_ledgerD:
  assumes "cluster_ledger G c"
  shows "positive G" "cl_nodes c i = Some n \<Longrightarrow> sound G n" "cl_nodes c i = Some n \<Longrightarrow> owns G n"
    "(j, i, m) \<in> cl_net c \<Longrightarrow> on_ledger G m" "(k, t) \<in> dom G \<Longrightarrow> \<exists>i. (t, i) \<in> cl_elected c"
  using assms unfolding cluster_ledger_def by blast+

text \<open>Who stands votes for itself, and stands once in a term.\<close>

definition candidacies :: "Cluster \<Rightarrow> bool" where
  "candidacies c \<longleftrightarrow>
     (\<forall>i n. cl_nodes c i = Some n \<longrightarrow> rn_role n \<in> {CANDIDATE, LEADER} \<longrightarrow> i \<in> rn_votes n) \<and>
     (\<forall>t i. (t, i) \<in> cl_elected c \<longrightarrow> (i, t, i) \<in> cl_ballots c) \<and>
     (\<forall>i n. cl_nodes c i = Some n \<longrightarrow> rn_role n = CANDIDATE \<longrightarrow> (rn_term n, i) \<notin> cl_elected c)"

lemma candidaciesD:
  assumes "candidacies c"
  shows "cl_nodes c i = Some n \<Longrightarrow> rn_role n \<in> {CANDIDATE, LEADER} \<Longrightarrow> i \<in> rn_votes n"
    "(t, i) \<in> cl_elected c \<Longrightarrow> (i, t, i) \<in> cl_ballots c"
    "cl_nodes c i = Some n \<Longrightarrow> rn_role n = CANDIDATE \<Longrightarrow> (rn_term n, i) \<notin> cl_elected c"
  using assms unfolding candidacies_def by blast+

definition log_inv :: "(json \<Rightarrow> int res) \<Rightarrow> RaftMember list \<Rightarrow> Cluster \<Rightarrow> bool" where
  "log_inv conv members c \<longleftrightarrow> cluster_inv conv members c \<and> candidacies c \<and> (\<exists>G. cluster_ledger G c)"

subsection \<open>One member's step\<close>

text \<open>How a member may have come to its role: the three shapes of \<open>Election_Safety\<close>.\<close>

definition proceeds :: "(json \<Rightarrow> int res) \<Rightarrow> RaftNode \<Rightarrow> RaftNode \<Rightarrow> bool" where
  "proceeds conv n n' \<longleftrightarrow> steady conv n n' \<or> stands conv n n' \<or> (\<exists>V. counts n n' V \<and> rn_votes n \<subseteq> V)"

lemma elected_not_later:
  assumes "cluster_inv conv members c" "candidacies c" "cl_nodes c i = Some n" "(t, i) \<in> cl_elected c"
  shows "t \<le> rn_term n"
proof -
  have "ballot n \<in> remembers conv c i" using assms(3) by (simp add: remembers_def)
  from cluster_invD(2) [OF assms(1) candidaciesD(2) [OF assms(2,4)] this]
  show ?thesis by (auto simp: below_def ballot_def)
qed

text \<open>A member that newly leads a term has not led it before, nor has anybody else.\<close>

lemma newly_leading:
  assumes inv: "cluster_inv conv members c" and ca: "candidacies c" and n: "cl_nodes c i = Some n"
    and p: "proceeds conv n n'" and l: "rn_role n' = LEADER" "\<not> (rn_role n = LEADER \<and> rn_term n = rn_term n')"
  shows "(rn_term n', i) \<notin> cl_elected c"
proof -
  have "rn_term n < rn_term n' \<or> rn_role n = CANDIDATE \<and> rn_term n' = rn_term n"
    using p l by (auto simp: proceeds_def steady_def leading_def stands_def counts_def ballot_def split: if_splits)
  then show ?thesis
    using elected_not_later [OF inv ca n] candidaciesD(3) [OF ca n] by fastforce
qed

lemma put_parts:
  "cl_nodes (put i n c) = (cl_nodes c)(i \<mapsto> n\<lparr>rn_outbox := []\<rparr>)" "cl_net (put i n c) = cl_net c \<union> posted i n"
  "cl_ballots (put i n c) = cl_ballots c \<union> own_ballot i n"
  "cl_elected (put i n c) = cl_elected c \<union> {(rn_term n, i) | u :: unit. rn_role n = LEADER}"
  by (simp_all add: put_def)

lemma put_candidacies:
  assumes inv: "cluster_inv conv members c" and ca: "candidacies c" and n: "cl_nodes c i = Some n"
    and p: "proceeds conv n n'"
  shows "candidacies (put i n' c)"
proof -
  have i: "local_index n = i" using cluster_invD(9) [OF inv n] by (simp add: seated_def)
  have votes: "i \<in> rn_votes n'" if "rn_role n' \<in> {CANDIDATE, LEADER}"
    using p that candidaciesD(1) [OF ca n] i
    by (auto simp: proceeds_def steady_def standing_def stands_def counts_def split: if_splits)
  then have own: "rn_role n' = LEADER \<Longrightarrow> (i, rn_term n', i) \<in> own_ballot i n'"
    by (auto simp: own_ballot_def)
  have cand: "(rn_term n', i) \<notin> cl_elected c" if r: "rn_role n' = CANDIDATE"
  proof -
    have "rn_term n < rn_term n' \<or> rn_role n = CANDIDATE \<and> rn_term n' = rn_term n"
      using p r by (auto simp: proceeds_def steady_def standing_def stands_def counts_def ballot_def split: if_splits)
    then show ?thesis using elected_not_later [OF inv ca n] candidaciesD(3) [OF ca n] by fastforce
  qed
  have "(rn_term x, k) \<noteq> (rn_term n', i)" if "k \<noteq> i" for x k using that by simp
  then show ?thesis
    using votes own cand candidaciesD [OF ca]
    unfolding candidacies_def put_parts by (auto split: if_splits)
qed

lemma put_ledger:
  assumes inv: "cluster_inv conv members (put i n' c)" and G: "cluster_ledger G c"
    and see: "sees G n'"
  shows "\<exists>H. cluster_ledger H (put i n' c)"
proof -
  obtain H where H: "grows G H n'" "sound H n'" "owns H n'" using see by (auto simp: sees_def)
  have le: "G \<subseteq>\<^sub>m H" and new: "\<And>k t. (k, t) \<in> dom H \<Longrightarrow> (k, t) \<in> dom G \<or> t = rn_term n' \<and> rn_role n' = LEADER"
    using H(1) unfolding grows_def by blast+
  note pos = soundD(1) [OF H(2)]
  have me: "sound H (n'\<lparr>rn_outbox := []\<rparr>)" "owns H (n'\<lparr>rn_outbox := []\<rparr>)"
    using H(2,3) by (simp_all add: sound_def in_order_def held_meta_def owns_def)
  have others: "sound H x \<and> owns H x" if x: "cl_nodes c j = Some x" "j \<noteq> i" for j x
  proof
    show "sound H x" by (rule sound_mono [OF cluster_ledgerD(2) [OF G x(1)] le pos])
    show "owns H x"
      unfolding owns_def
    proof (intro impI allI)
      fix k assume r: "rn_role x = LEADER" and k: "(k, rn_term x) \<in> dom H"
      have "\<not> (rn_term x = rn_term n' \<and> rn_role n' = LEADER)"
      proof
        assume same: "rn_term x = rn_term n' \<and> rn_role n' = LEADER"
        have "cl_nodes (put i n' c) j = Some x" using x by (simp add: put_parts)
        then have "(rn_term x, j) \<in> cl_elected (put i n' c)" by (rule cluster_invD(8) [OF inv _ r])
        moreover have "(rn_term x, i) \<in> cl_elected (put i n' c)" using same by (auto simp: put_parts)
        ultimately show False using one_leader [OF inv] x(2) by blast
      qed
      then show "k \<le> last_index (rn_log x)"
        using new [OF k] cluster_ledgerD(3) [OF G x(1)] r unfolding owns_def by blast
    qed
  qed
  have net: "on_ledger H m" if "(j, k, m) \<in> cl_net c \<union> posted i n'" for j k m
    using that on_ledger_mono [OF cluster_ledgerD(4) [OF G] le] soundD(7) [OF H(2)] by (auto simp: posted_def)
  have led: "\<exists>j. (t, j) \<in> cl_elected (put i n' c)" if "(k, t) \<in> dom H" for k t
    using new [OF that] cluster_ledgerD(5) [OF G, of k t] unfolding put_parts by blast
  show ?thesis
    unfolding cluster_ledger_def
    using pos me others net led by (intro exI [of _ H]) (auto simp: put_parts split: if_splits)
qed

lemma log_put:
  assumes inv: "log_inv conv members c" and n: "cl_nodes c i = Some n"
    and inv': "cluster_inv conv members (put i n' c)" and p: "proceeds conv n n'"
    and see: "\<And>G. cluster_ledger G c \<Longrightarrow> fresh G n n' \<Longrightarrow> sees G n'"
  shows "log_inv conv members (put i n' c)"
proof -
  have old: "cluster_inv conv members c" "candidacies c" using inv by (simp_all add: log_inv_def)
  obtain G where G: "cluster_ledger G c" using inv by (auto simp: log_inv_def)
  have "fresh G n n'"
  proof -
    have "(k, rn_term n') \<notin> dom G" if l: "rn_role n' = LEADER" "\<not> (rn_role n = LEADER \<and> rn_term n = rn_term n')" for k
    proof
      assume "(k, rn_term n') \<in> dom G"
      then obtain j where j: "(rn_term n', j) \<in> cl_elected c" using cluster_ledgerD(5) [OF G] by blast
      have "(rn_term n', i) \<in> cl_elected (put i n' c)" "(rn_term n', j) \<in> cl_elected (put i n' c)"
        using l(1) j by (auto simp: put_parts)
      then have "j = i" using one_leader [OF inv'] by blast
      then show False using newly_leading [OF old n p l] j by simp
    qed
    then show ?thesis unfolding fresh_def by blast
  qed
  then show ?thesis
    using inv' put_candidacies [OF old n p] put_ledger [OF inv' G see [OF G]] by (simp add: log_inv_def)
qed

lemma log_put_advances:
  assumes "log_inv conv members c" "cl_nodes c i = Some n" "cluster_inv conv members (put i n' c)" "proceeds conv n n'"
    and "advances n n'"
  shows "log_inv conv members (put i n' c)"
  using assms(5) cluster_ledgerD(2,3) [OF _ assms(2)]
  by (intro log_put [OF assms(1-4)]) (simp add: advances_def)
subsection \<open>Every step\<close>

lemma steady_proceeds: "steady conv n n' \<Longrightarrow> proceeds conv n n'"
  by (simp add: proceeds_def)

lemma acts_advances: "acts env n n' \<Longrightarrow> advances n n'"
proof (induction rule: acts.induct)
  case (compacted n c discard_to payload)
  then show ?case by (intro keeps_advances keeps_compact_end)
next
  case (abandons n)
  show ?case
    by (rule keeps_advances, rule keeps_machine) (auto simp: pinned_at_def open_capture_def in_order_def split: option.split)
next
  case (allocates tn os n rt c r)
  have "keeps n (n\<lparr>rn_machine := (rn_machine n)\<lparr>ma_cursors := cn_cursors c\<rparr>\<rparr>)"
    by (rule keeps_machine) (auto simp: pinned_at_def open_capture_def in_order_def)
  then show ?case unfolding with_cursors_def by (intro keeps_advances) (auto simp: keeps_def sound_def in_order_def held_meta_def)
qed (auto intro: keeps_advances keeps_intros advances_propose advances_flush)

lemma dispatch_sees:
  assumes G: "sound G n" "owns G n" "fresh G n (fst (dispatch env n p m))" "on_ledger G m"
    and sv: "campaigns_saved env n (Some m)"
  shows "sees G (fst (dispatch env n p m))"
proof -
  have adv: "sees G n'" if "advances n n'" "fresh G n n'" for n'
    using that G(1,2) by (simp add: advances_def)
  have stay: "sees G n'" if "sound G n'" "n' = n \<or> rn_role n' \<noteq> LEADER" for n'
    using that G(2) unfolding sees_def owns_def by (intro exI [of _ G]) auto
  note f = G(3)
  show ?thesis
  proof (cases m)
    case (MAppendEntries a)
    have "fst (on_append_entries env n a) = n \<or> rn_role (fst (on_append_entries env n a)) \<noteq> LEADER"
      using on_append_entries_follows [of env n a] by auto
    then show ?thesis
      using stay [OF sound_on_append_entries [OF G(1)]] G(4) MAppendEntries by (simp add: fst_replies)
  next
    case (MInstallSnapshot s)
    have "fst (on_install_snapshot env n p s) = n \<or> rn_role (fst (on_install_snapshot env n p s)) \<noteq> LEADER"
      using on_install_snapshot_follows [of env n p s] by auto
    then show ?thesis
      using stay [OF sound_on_install_snapshot [OF G(1)]] G(4) MInstallSnapshot by (simp add: fst_replies)
  next
    case (MRequestVoteReply r)
    then show ?thesis
      using adv [OF advances_on_request_vote_reply] f sv by (simp add: fst_replies campaigns_saved_def)
  next
    case (MPropose q)
    then show ?thesis using adv [OF advances_on_propose] f by (simp add: fst_replies)
  qed (use adv [OF keeps_advances] f in \<open>auto simp: fst_replies keeps_on_append_entries_reply keeps_on_install_snapshot_reply
      intro: keeps_intros\<close>)
qed

lemma dispatch_proceeds:
  assumes "campaigns_saved env n (Some m)"
  shows "proceeds conv n (fst (dispatch env n p m))"
proof (cases "\<exists>q. m = MRequestVoteReply q")
  case False
  then show ?thesis by (intro steady_proceeds steady_dispatch) blast
next
  case True
  then obtain q where q: "m = MRequestVoteReply q" by blast
  have "vr_pre_vote q \<Longrightarrow> vr_granted q \<Longrightarrow> campaign_saves env n" using assms by (simp add: campaigns_saved_def q)
  from on_request_vote_reply_moves [where conv = conv and p = p and m = q and n = n and env = env, OF this]
  show ?thesis unfolding q by (auto simp: proceeds_def fst_replies Let_def split: if_splits)
qed

lemma dispatch_answer:
  assumes "dispatch env n p m = (n', Inr (Some a))"
  shows "on_ledger G a"
  using assms by (cases m) (auto simp: replies_def silent_def on_ledger_def elim!: and_then_cases)

lemma log_answer:
  assumes inv: "log_inv conv members c" and inv': "cluster_inv conv members (answer i j m r c)"
    and a: "\<And>a G. r = Inr (Some a) \<Longrightarrow> on_ledger G a"
  shows "log_inv conv members (answer i j m r c)"
proof -
  obtain G where G: "cluster_ledger G c" using inv by (auto simp: log_inv_def)
  have S: "cl_nodes (answer i j m r c) = cl_nodes c" "cl_elected (answer i j m r c) = cl_elected c"
    "cl_ballots c \<subseteq> cl_ballots (answer i j m r c)"
    by (auto simp: answer_def)
  have "on_ledger G x" if "(p, q, x) \<in> cl_net (answer i j m r c)" for p q x
    using that cluster_ledgerD(4) [OF G] a by (auto simp: answer_def split: sum.splits option.splits)
  then have "cluster_ledger G (answer i j m r c)" using G unfolding cluster_ledger_def S by blast
  moreover have "candidacies (answer i j m r c)" using inv S(3) unfolding log_inv_def candidacies_def S(1,2) by blast
  ultimately show ?thesis using inv' by (auto simp: log_inv_def)
qed

text \<open>Members that stop, or that were not there.\<close>

lemma log_fewer:
  assumes inv: "log_inv conv members c" and inv': "cluster_inv conv members c'"
    and c': "\<And>i n. cl_nodes c' i = Some n \<Longrightarrow> cl_nodes c i = Some n" "cl_net c' = cl_net c"
      "cl_ballots c' = cl_ballots c" "cl_elected c' = cl_elected c"
  shows "log_inv conv members c'"
proof -
  obtain G where G: "cluster_ledger G c" using inv by (auto simp: log_inv_def)
  have "cluster_ledger G c'" using G c'(1) unfolding cluster_ledger_def c'(2-4) by blast
  moreover have "candidacies c'" using inv c'(1) unfolding log_inv_def candidacies_def c'(2-4) by blast
  ultimately show ?thesis using inv' by (auto simp: log_inv_def)
qed

lemma log_start:
  assumes inv: "log_inv conv members c" and inv': "cluster_inv conv members (put i n c)"
    and m: "ma_last_applied m = 0" "open_capture m = None"
    and st: "start_member conv os ly tm m ts = (ts', Inr n)"
  shows "log_inv conv members (put i n c)"
proof -
  obtain G where G: "cluster_ledger G c" using inv by (auto simp: log_inv_def)
  obtain ps where n: "n = new_node ly tm ts' m ps" using st by (auto simp: start_member_def split: prod.splits sum.splits)
  have r: "rn_role n = FOLLOWER" by (simp add: n new_node_def)
  have s: "sound G n" unfolding n by (rule new_node_sound [OF m cluster_ledgerD(1) [OF G]])
  have "sees G n" unfolding sees_def using s r by (intro exI [of _ G]) (simp add: owns_def)
  moreover have "candidacies (put i n c)"
    using inv r unfolding log_inv_def candidacies_def put_parts by auto
  ultimately show ?thesis using inv' put_ledger [OF inv' G] by (simp add: log_inv_def)
qed

lemma log_inv_reach: "cluster_reach conv members campaigns_saved disks c \<Longrightarrow> log_inv conv members c"
proof (induction rule: cluster_reach.induct)
  case init
  have "cluster_inv conv members (cluster_start disks)" by (rule cluster_inv_reach [OF cluster_reach.init])
  moreover have "cluster_ledger Map.empty (cluster_start disks)"
    by (simp add: cluster_ledger_def cluster_start_def positive_def)
  ultimately show ?case by (auto simp: log_inv_def candidacies_def cluster_start_def)
next
  case (step c c')
  note inv = step.IH
  have inv': "cluster_inv conv members c'" by (rule cluster_inv_reach [OF cluster_reach.step [OF step.hyps]])
  from step.hyps(2) show ?case
  proof cases
    case (start i mb m os cid tm ts n)
    then show ?thesis using log_start [OF inv] inv' by blast
  next
    case (no_start i os ly tm m ts e)
    then show ?thesis using inv' by (intro log_fewer [OF inv]) auto
  next
    case (crash i n)
    then show ?thesis using inv' by (intro log_fewer [OF inv]) (auto split: if_splits)
  next
    case (ticks i n env)
    then have sv: "campaign_saves env n" by (simp add: campaigns_saved_def)
    have "proceeds conv n (fst (tick env n))" using tick_moves [OF sv] by (auto simp: proceeds_def)
    then show ?thesis
      using ticks inv' log_put_advances [OF inv ticks(2) _ _ advances_tick [OF sv]] by simp
  next
    case (deliver i n j m env n' r)
    have n': "n' = fst (dispatch env n j m)" using deliver(5) by simp
    have put: "cluster_inv conv members (put i n' c)" using inv_put_deliver [OF _ deliver(2-5)] inv by (auto simp: log_inv_def)
    have "log_inv conv members (put i n' c)"
    proof (rule log_put [OF inv deliver(2) put])
      show "proceeds conv n n'" unfolding n' by (rule dispatch_proceeds [OF deliver(4)])
      show "sees G n'" if "cluster_ledger G c" "fresh G n n'" for G
        using dispatch_sees [OF cluster_ledgerD(2,3) [OF that(1) deliver(2)] _ cluster_ledgerD(4) [OF that(1) deliver(3)] deliver(4)]
          that(2) n' by simp
    qed
    then show ?thesis
      unfolding deliver(1) using inv' deliver dispatch_answer by (intro log_answer) auto
  next
    case (acts i n env n')
    then show ?thesis
      using inv' log_put_advances [OF inv acts(2) _ steady_proceeds [OF acts_steady] acts_advances] by simp
  qed
qed
subsection \<open>Log matching\<close>

text \<open>The entry at an index, and the term the log knows just before it.\<close>

lemma entry_links:
  assumes "log_sound G lg" "entry_at lg k = Some e"
  shows "\<exists>u. G (k, e_term e) = Some (u, e_payload e) \<and> term_at lg (k - 1) = Inr u"
proof -
  note s = log_soundD [OF assms(1)]
  obtain j where j: "j < length (log_entries lg)" "log_entries lg ! j = e" "k = snapshot_index lg + 1 + int j"
    using entry_at_nth [OF s(1) assms(2)] .
  have G: "G (k, e_term e) = Some (if j = 0 then snapshot_term lg else e_term (log_entries lg ! (j - 1)), e_payload e)"
    using linked_nth [OF s(3), of j] j entry_at_index [OF s(1) assms(2)] by (auto simp: nth_marks)
  show ?thesis
  proof (cases j)
    case 0
    then show ?thesis using G j by (simp add: term_at_def)
  next
    case (Suc i)
    then have "entry_at lg (k - 1) = Some (log_entries lg ! i)"
      using j entry_at_offset [of i lg] by (simp add: algebra_simps)
    then show ?thesis using G Suc term_at_entry [OF s(1)] by simp
  qed
qed

lemma terms_agree_below:
  assumes lg: "log_sound G lg" "log_sound G lg'" and at: "term_at lg k = Inr t" "term_at lg' k = Inr t"
    and G: "positive G" and p: "p \<le> k" "term_at lg p = Inr a" "term_at lg' p = Inr b"
  shows "a = b"
  using at p(1)
proof (induction "nat (k - p)" arbitrary: k t)
  case 0
  then show ?case using p(2,3) by simp
next
  case (Suc d)
  have r: "snapshot_index lg \<le> p" "snapshot_index lg' \<le> p" "k \<le> last_index lg" "k \<le> last_index lg'"
    using term_at_grounded(2) [OF G lg(1) p(2)] term_at_grounded(2) [OF G lg(2) p(3)]
      term_at_grounded(3) [OF G lg(1) Suc.prems(1)] term_at_grounded(3) [OF G lg(2) Suc.prems(2)] by simp_all
  have lt: "p < k" using Suc.hyps(2) by simp
  note w = log_soundD(1) [OF lg(1)] and w' = log_soundD(1) [OF lg(2)]
  obtain e e' where e: "entry_at lg k = Some e" "entry_at lg' k = Some e'"
    using entry_at_range [OF w, of k] entry_at_range [OF w', of k] r lt by auto
  have t: "e_term e = t" "e_term e' = t"
    using term_at_entry [OF w e(1)] term_at_entry [OF w' e(2)] Suc.prems by simp_all
  obtain u u' where u: "G (k, t) = Some (u, e_payload e)" "term_at lg (k - 1) = Inr u"
      "G (k, t) = Some (u', e_payload e')" "term_at lg' (k - 1) = Inr u'"
    using entry_links [OF lg(1) e(1)] entry_links [OF lg(2) e(2)] unfolding t by blast
  show ?case using Suc.hyps(1) [of "k - 1" u] Suc.hyps(2) u lt by simp
qed

lemma log_matching_on_ledger:
  assumes lg: "log_sound G lg" "log_sound G lg'" "positive G" and e: "entry_at lg k = Some e" "entry_at lg' k = Some e'"
    and t: "e_term e = e_term e'" and p: "p \<le> k" "entry_at lg p = Some x" "entry_at lg' p = Some y"
  shows "e_term x = e_term y \<and> e_payload x = e_payload y"
proof -
  note w = log_soundD(1) [OF lg(1)] and w' = log_soundD(1) [OF lg(2)]
  have "e_term x = e_term y"
    by (rule terms_agree_below [OF lg(1,2) term_at_entry [OF w e(1)] _ lg(3) p(1) term_at_entry [OF w p(2)] term_at_entry [OF w' p(3)]])
       (simp add: term_at_entry [OF w' e(2)] t)
  then show ?thesis using entry_links [OF lg(1) p(2)] entry_links [OF lg(2) p(3)] by auto
qed

text \<open>
  C2: log matching. In every state the cluster can reach, when two members hold entries with the
  same index and the same term, their logs agree on every index up to it that both still hold,
  entry for entry: same term, same bytes. And where one of them has only the term of an index
  left, because its log was compacted or reset by a snapshot at that index, that term agrees too.
\<close>

theorem log_matching:
  assumes "cluster_reach conv members campaigns_saved disks c"
    and n: "cl_nodes c i = Some n" "cl_nodes c j = Some n'"
    and e: "entry_at (rn_log n) k = Some e" "entry_at (rn_log n') k = Some e'" "e_term e = e_term e'"
    and p: "p \<le> k"
  shows "(\<forall>x y. entry_at (rn_log n) p = Some x \<longrightarrow> entry_at (rn_log n') p = Some y \<longrightarrow>
      e_term x = e_term y \<and> e_payload x = e_payload y) \<and>
    (\<forall>a b. term_at (rn_log n) p = Inr a \<longrightarrow> term_at (rn_log n') p = Inr b \<longrightarrow> a = b)"
proof -
  obtain G where G: "cluster_ledger G c" using log_inv_reach [OF assms(1)] by (auto simp: log_inv_def)
  note s = soundD(2) [OF cluster_ledgerD(2) [OF G n(1)]] and s' = soundD(2) [OF cluster_ledgerD(2) [OF G n(2)]]
  note pos = cluster_ledgerD(1) [OF G]
  have "term_at (rn_log n) k = Inr (e_term e)" "term_at (rn_log n') k = Inr (e_term e)"
    using term_at_entry [OF log_soundD(1) [OF s] e(1)] term_at_entry [OF log_soundD(1) [OF s'] e(2)] e(3) by simp_all
  then show ?thesis
    using log_matching_on_ledger [OF s s' pos e p] terms_agree_below [OF s s' _ _ pos p] by blast
qed

text \<open>
  C3: the indexes of a member are in order. In every reachable state, what a member's log has
  discarded is applied, what it has applied is committed, and what it has committed it holds: so
  the check by which \<open>check_applied_within_committed\<close> stops a member never fails, the term of the
  commit index is always known, and the entries to be applied next are in the log, none of them
  compacted away.
\<close>

theorem indexes_in_order:
  assumes "cluster_reach conv members campaigns_saved disks c" "cl_nodes c i = Some n"
  shows "0 \<le> snapshot_index (rn_log n) \<and> snapshot_index (rn_log n) \<le> ma_last_applied (rn_machine n) \<and>
    ma_last_applied (rn_machine n) \<le> rn_commit_index n \<and> rn_commit_index n \<le> last_index (rn_log n) \<and>
    check_applied_within_committed n = Inr () \<and>
    (\<exists>t. term_at (rn_log n) (rn_commit_index n) = Inr t) \<and>
    (\<forall>p. ma_last_applied (rn_machine n) < p \<and> p \<le> rn_commit_index n \<longrightarrow> (\<exists>e. entry_at (rn_log n) p = Some e))"
proof -
  obtain G where G: "cluster_ledger G c" using log_inv_reach [OF assms(1)] by (auto simp: log_inv_def)
  note s = cluster_ledgerD(2) [OF G assms(2)]
  note w = log_soundD(1) [OF soundD(2) [OF s]]
  have o: "snapshot_index (rn_log n) \<le> ma_last_applied (rn_machine n)" "ma_last_applied (rn_machine n) \<le> rn_commit_index n"
      "rn_commit_index n \<le> last_index (rn_log n)" "0 \<le> snapshot_index (rn_log n)"
    using soundD(3) [OF s] w by (simp_all add: in_order_def wf_log_def)
  have held: "\<exists>e. entry_at (rn_log n) p = Some e" if "snapshot_index (rn_log n) < p" "p \<le> rn_commit_index n" for p
    using entry_at_range [OF w, of p] that o(3) by auto
  have "\<exists>t. term_at (rn_log n) (rn_commit_index n) = Inr t"
    using held [of "rn_commit_index n"] o(1,2) term_at_wf [OF w, of "rn_commit_index n"] by fastforce
  moreover have "check_applied_within_committed n = Inr ()" using o by (simp add: check_applied_within_committed_def)
  ultimately show ?thesis using o held by fastforce
qed
subsection \<open>A run that reaches an entry\<close>

theorem log_matching_witness:
  "\<exists>c n e. cluster_reach (\<lambda>_. Inl TypeError) [lone_member] campaigns_saved (\<lambda>_. new_term_store NoFile) c \<and>
     cl_nodes c 0 = Some n \<and> entry_at (rn_log n) 1 = Some e \<and>
     (\<forall>x y. entry_at (rn_log n) 1 = Some x \<longrightarrow> entry_at (rn_log n) 1 = Some y \<longrightarrow> e_term x = e_term y \<and> e_payload x = e_payload y)"
proof -
  obtain c n e where c: "cluster_reach (\<lambda>_. Inl TypeError) [lone_member] campaigns_saved (\<lambda>_. new_term_store NoFile) c"
      "cl_nodes c 0 = Some n" "entry_at (rn_log n) 1 = Some e"
    using lone_leader by blast
  from log_matching [OF c(1,2,2,3,3) refl order_refl] c show ?thesis by blast
qed

theorem indexes_in_order_witness:
  "\<exists>c n. cluster_reach (\<lambda>_. Inl TypeError) [lone_member] campaigns_saved (\<lambda>_. new_term_store NoFile) c \<and>
     cl_nodes c 0 = Some n \<and> check_applied_within_committed n = Inr () \<and> (\<exists>t. term_at (rn_log n) (rn_commit_index n) = Inr t)"
proof -
  obtain c n e where c: "cluster_reach (\<lambda>_. Inl TypeError) [lone_member] campaigns_saved (\<lambda>_. new_term_store NoFile) c"
      "cl_nodes c 0 = Some n"
    using lone_leader by blast
  from indexes_in_order [OF c] c show ?thesis by blast
qed

end
