(* ===== verification/Query_Filter.thy ===== *)
theory Query_Filter
  imports Paging
begin

section \<open>Basic and downgrade queries\<close>

text \<open>
  \<open>src/nmos/registry/query_filter.py\<close>: the optional query features that are refused, the
  downgrade check, and matching a resource's JSON against dotted-path filters.
\<close>

definition PARAM_DOWNGRADE :: pystr where "PARAM_DOWNGRADE = str ''query.downgrade''"

definition UNSUPPORTED_PARAMS :: "pystr list" where
  "UNSUPPORTED_PARAMS = [str ''query.rql'', str ''query.ancestry_id'', str ''query.ancestry_type'',
                         str ''query.ancestry_generations'']"

definition API_VERSION :: pystr where "API_VERSION = str ''v1.3''"

subsection \<open>Versions\<close>

record ParsedVersion =
  major :: int
  minor :: int

definition ascii_digits :: "pystr \<Rightarrow> bool" where
  "ascii_digits s \<longleftrightarrow> s \<noteq> [] \<and> list_all (\<lambda>c. 48 \<le> c \<and> c \<le> 57) s"

text \<open>
  The pattern \<open>^v([0-9]+)\.([0-9]+)\Z\<close>: the first group ends at the first character that is
  not a digit, which has to be the dot.
\<close>

definition parse_version :: "pystr \<Rightarrow> ParsedVersion option res" where
  "parse_version text =
     (case text of
        [] \<Rightarrow> Inr None
      | c # rest \<Rightarrow>
          if c \<noteq> 118 then Inr None
          else let (head, sep, tail) = py_partition 46 rest
               in if \<not> sep \<or> \<not> ascii_digits head \<or> \<not> ascii_digits tail then Inr None
                  else bind_res (py_int head) (\<lambda>a. bind_res (py_int tail) (\<lambda>b.
                         Inr (Some \<lparr>major = a, minor = b\<rparr>))))"

subsection \<open>Request checks\<close>

definition check_unsupported :: "(pystr, pystr) pydict \<Rightarrow> unit res" where
  "check_unsupported params =
     (if list_ex (\<lambda>name. dget params name \<noteq> None) UNSUPPORTED_PARAMS then Inl UnsupportedQuery else Inr ())"

definition check_downgrade :: "(pystr, pystr) pydict \<Rightarrow> pystr option res" where
  "check_downgrade params =
     (case dget params PARAM_DOWNGRADE of
        None \<Rightarrow> Inr None
      | Some requested \<Rightarrow>
          bind_res (parse_version requested) (\<lambda>t.
            case t of
              None \<Rightarrow> Inl QueryError
            | Some target \<Rightarrow>
                bind_res (parse_version API_VERSION) (\<lambda>c.
                  case c of
                    None \<Rightarrow> Inl AttributeError
                  | Some current \<Rightarrow>
                      if major target \<noteq> major current then Inl QueryError else Inr (Some requested))))"

definition starts_with :: "pystr \<Rightarrow> pystr \<Rightarrow> bool" where
  "starts_with p s \<longleftrightarrow> take (length p) s = p"

definition filter_params :: "(pystr, pystr) pydict \<Rightarrow> (pystr \<times> pystr) list" where
  "filter_params params =
     filter (\<lambda>(name, value). name \<notin> set PAGING_PARAMS \<and> \<not> starts_with (str ''query.'') name) params"

subsection \<open>Matching\<close>

text \<open>\<open>path.split(".")\<close>.\<close>

fun py_split :: "nat \<Rightarrow> pystr \<Rightarrow> pystr list" where
  "py_split c [] = [[]]"
| "py_split c (x # xs) =
     (if x = c then [] # py_split c xs
      else case py_split c xs of
             [] \<Rightarrow> [[x]]
           | y # ys \<Rightarrow> (x # y) # ys)"

fun scalar_matches :: "json \<Rightarrow> pystr \<Rightarrow> bool" where
  "scalar_matches (JArr items) expected = list_ex (\<lambda>item. scalar_matches item expected) items"
| "scalar_matches (JBool b) expected = ((if b then str ''true'' else str ''false'') = expected)"
| "scalar_matches JNull expected = (expected = str ''null'')"
| "scalar_matches (JInt i) expected = (int_str i = expected)"
| "scalar_matches (JFloat t) expected = (t = expected)"
| "scalar_matches (JStr s) expected = (s = expected)"
| "scalar_matches (JObj d) expected = False"

lemma json_size_lookup: "dget d k = Some v \<Longrightarrow> size v < size (JObj d)"
proof -
  assume "dget d k = Some v"
  then have "(k, v) \<in> set d" by (rule map_of_SomeD)
  then have "size (snd (k, v)) \<le> size_list (size_prod (\<lambda>_. 0) size) d"
    by (rule size_list_estimation') simp
  then show ?thesis by simp
qed

function (sequential) path_matches :: "json \<Rightarrow> pystr list \<Rightarrow> pystr \<Rightarrow> bool" where
  "path_matches value [] expected = scalar_matches value expected"
| "path_matches (JObj d) (head # rest) expected =
     (case dget d head of None \<Rightarrow> False | Some v \<Rightarrow> path_matches v rest expected)"
| "path_matches (JArr items) (head # rest) expected =
     list_ex (\<lambda>item. path_matches item (head # rest) expected) items"
| "path_matches value (head # rest) expected = False"
  by pat_completeness auto
termination
  by (relation "measure (\<lambda>(v, segs, e). size v)")
     (auto dest: json_size_lookup simp: less_Suc_eq_le size_list_estimation')

definition matches :: "(pystr, json) pydict \<Rightarrow> (pystr \<times> pystr) list \<Rightarrow> bool" where
  "matches raw filters =
     list_all (\<lambda>(path, expected). path_matches (JObj raw) (py_split 46 path) expected) filters"

subsection \<open>The values a path names\<close>

text \<open>
  A reference reading: a path names a list of values, objects are entered by attribute and
  arrays are flattened wherever they occur; a value compares by its JSON scalar text.
\<close>

fun flatten_arrays :: "json \<Rightarrow> json list" where
  "flatten_arrays (JArr items) = concat (map flatten_arrays items)"
| "flatten_arrays v = [v]"

fun attribute :: "pystr \<Rightarrow> json \<Rightarrow> json list" where
  "attribute k (JObj d) = (case dget d k of None \<Rightarrow> [] | Some v \<Rightarrow> flatten_arrays v)"
| "attribute k _ = []"

fun named_values :: "json list \<Rightarrow> pystr list \<Rightarrow> json list" where
  "named_values vs [] = vs"
| "named_values vs (k # ks) = named_values (concat (map (attribute k) vs)) ks"

fun scalar_text :: "json \<Rightarrow> pystr option" where
  "scalar_text (JBool b) = Some (if b then str ''true'' else str ''false'')"
| "scalar_text JNull = Some (str ''null'')"
| "scalar_text (JInt i) = Some (int_str i)"
| "scalar_text (JFloat t) = Some t"
| "scalar_text (JStr s) = Some s"
| "scalar_text (JArr _) = None"
| "scalar_text (JObj _) = None"

lemma scalar_matches_flat:
  "scalar_matches v e \<longleftrightarrow> (\<exists>x \<in> set (flatten_arrays v). scalar_text x = Some e)"
proof (induction v e rule: scalar_matches.induct)
  case (1 items e)
  then show ?case by (simp add: list_ex_iff)
qed auto

lemma named_values_append: "named_values (xs @ ys) ks = named_values xs ks @ named_values ys ks"
  by (induction ks arbitrary: xs ys) simp_all

lemma named_values_Nil [simp]: "named_values [] ks = []"
  by (induction ks) simp_all

lemma named_values_concat: "named_values (concat vss) ks = concat (map (\<lambda>vs. named_values vs ks) vss)"
  by (induction vss) (simp_all add: named_values_append)

lemma path_matches_named:
  "path_matches v ks e \<longleftrightarrow> (\<exists>x \<in> set (named_values (flatten_arrays v) ks). scalar_text x = Some e)"
proof (induction v ks e rule: path_matches.induct)
  case (1 v e)
  then show ?case by (simp add: scalar_matches_flat)
next
  case (2 d k ks e)
  then show ?case by (cases "dget d k") simp_all
next
  case (3 items k ks e)
  then show ?case
    by (simp add: list_ex_iff named_values_concat comp_def del: named_values.simps)
qed simp_all

text \<open>
  C37: a resource matches exactly when every filter's path names some value with the expected
  text. Arrays are transparent at every level, a path that resolves nowhere matches nothing,
  and no filter, however malformed, raises.
\<close>

theorem matches_iff_named:
  "matches raw filters \<longleftrightarrow>
     (\<forall>(path, expected) \<in> set filters.
        \<exists>x \<in> set (named_values [JObj raw] (py_split 46 path)). scalar_text x = Some expected)"
  by (auto simp: matches_def list_all_iff path_matches_named)

theorem matches_iff_named_witness:
  "matches [(str ''tags'', JObj [(str ''studio'', JArr [JStr (str ''HQ1''), JStr (str ''HQ2'')])])]
     [(str ''tags.studio'', str ''HQ2'')]"
  unfolding matches_iff_named by (simp add: str_def)

end
