(* ===== verification/Subscriptions.thy ===== *)
theory Subscriptions
  imports Query_Filter Registry_Store
begin

section \<open>Query subscriptions\<close>

text \<open>
  \<open>src/nmos/registry/subscriptions.py\<close>: subscriptions, the WebSocket connections attached to
  them, the per-connection buffer of coalesced events, and the fan-out of resource changes.

  A connection is a shared mutable object: the manager's lists hold references to it and the
  WebSocket handler holds another. So the manager carries a heap of connections
  (\<open>sm_heap\<close>) and the lists of \<open>_connections\<close> hold addresses; list membership and \<open>remove\<close>
  compare objects by identity, which is equality of addresses. A pending event is copied when
  it is buffered and only the copy is merged into, so it is a value. \<open>uuid4\<close> and the clock
  are arguments. \<open>asyncio.Event\<close> is its flag.
\<close>

definition GRAIN_TYPE :: pystr where "GRAIN_TYPE = str ''urn:x-nmos:format:data.event''"
definition GRAIN_TYPE_EVENT :: pystr where "GRAIN_TYPE_EVENT = str ''event''"
definition GRAIN_RATE :: "int \<times> int" where "GRAIN_RATE = (0, 1)"

subsection \<open>Subscriptions\<close>

record Subscription =
  sub_id :: pystr
  sub_ws_href :: pystr
  sub_resource_path :: pystr
  sub_type :: ResourceType
  sub_params :: "(pystr, pystr) pydict"
  sub_max_rate :: int
  sub_persist :: bool
  sub_secure :: bool
  sub_authorization :: bool
  sub_created :: TaiCursor
  sub_host :: pystr

definition sub_to_json :: "Subscription \<Rightarrow> json" where
  "sub_to_json s =
     JObj [(str ''id'', JStr (sub_id s)),
           (str ''ws_href'', JStr (sub_ws_href s)),
           (str ''max_update_rate_ms'', JInt (sub_max_rate s)),
           (str ''persist'', JBool (sub_persist s)),
           (str ''secure'', JBool (sub_secure s)),
           (str ''authorization'', JBool (sub_authorization s)),
           (str ''resource_path'', JStr (sub_resource_path s)),
           (str ''params'', JObj (map (\<lambda>(k, v). (k, JStr v)) (sub_params s)))]"

definition sub_filters :: "Subscription \<Rightarrow> (pystr \<times> pystr) list" where
  "sub_filters s = sub_params s"

definition sub_matches :: "Subscription \<Rightarrow> (pystr, json) pydict option \<Rightarrow> bool" where
  "sub_matches s raw = (case raw of None \<Rightarrow> False | Some d \<Rightarrow> matches d (sub_filters s))"

subsection \<open>Pending events\<close>

record PendingEvent =
  pe_path :: pystr
  pe_pre :: "Body option"
  pe_post :: "Body option"

definition merge :: "PendingEvent \<Rightarrow> PendingEvent \<Rightarrow> PendingEvent" where
  "merge e newer = e\<lparr>pe_post := pe_post newer\<rparr>"

subsection \<open>Connections\<close>

record Connection =
  co_subscription :: Subscription
  co_pending :: "(pystr, PendingEvent) pydict"
  co_wake :: bool
  co_closed :: bool
  co_shutdown :: bool

definition new_connection :: "Subscription \<Rightarrow> Connection" where
  "new_connection s =
     \<lparr>co_subscription = s, co_pending = [], co_wake = False, co_closed = False, co_shutdown = False\<rparr>"

definition close_connection :: "Connection \<Rightarrow> Connection" where
  "close_connection c = c\<lparr>co_closed := True, co_wake := True, co_shutdown := True\<rparr>"

definition enqueue :: "Connection \<Rightarrow> PendingEvent \<Rightarrow> Connection" where
  "enqueue c e =
     c\<lparr>co_pending := dset (pe_path e)
          (case dget (co_pending c) (pe_path e) of None \<Rightarrow> e | Some existing \<Rightarrow> merge existing e)
          (co_pending c),
       co_wake := True\<rparr>"

fun enqueue_all :: "Connection \<Rightarrow> PendingEvent list \<Rightarrow> Connection" where
  "enqueue_all c [] = c"
| "enqueue_all c (e # es) = enqueue_all (enqueue c e) es"

definition drain_pending :: "Connection \<Rightarrow> Connection \<times> PendingEvent list" where
  "drain_pending c = (c\<lparr>co_pending := [], co_wake := False\<rparr>, map snd (co_pending c))"

subsection \<open>The manager\<close>

record SubscriptionManager =
  sm_subscriptions :: "(pystr, Subscription) pydict"
  sm_connections :: "(pystr, nat list) pydict"
  sm_heap :: "nat \<rightharpoonup> Connection"
  sm_next :: nat

definition new_manager :: SubscriptionManager where
  "new_manager = \<lparr>sm_subscriptions = [], sm_connections = [], sm_heap = Map.empty, sm_next = 0\<rparr>"

text \<open>A method call on the connection at address \<open>k\<close>.\<close>

definition on_connection :: "nat \<Rightarrow> (Connection \<Rightarrow> Connection) \<Rightarrow> SubscriptionManager \<Rightarrow> SubscriptionManager" where
  "on_connection k f m = m\<lparr>sm_heap := (sm_heap m)(k := map_option f (sm_heap m k))\<rparr>"

definition sub_count :: "SubscriptionManager \<Rightarrow> nat" where
  "sub_count m = length (sm_subscriptions m)"

definition grain_count :: "SubscriptionManager \<Rightarrow> nat" where
  "grain_count m = sum_list (map (length \<circ> snd) (sm_connections m))"

definition sub_get :: "SubscriptionManager \<Rightarrow> pystr \<Rightarrow> Subscription option" where
  "sub_get m i = dget (sm_subscriptions m) i"

definition sub_all :: "SubscriptionManager \<Rightarrow> Subscription list" where
  "sub_all m = map snd (sm_subscriptions m)"

subsection \<open>Lifecycle\<close>

definition py_strip :: "nat \<Rightarrow> pystr \<Rightarrow> pystr" where
  "py_strip c s = rev (dropWhile (\<lambda>x. x = c) (rev (dropWhile (\<lambda>x. x = c) s)))"

definition resource_type_of :: "pystr \<Rightarrow> ResourceType res" where
  "resource_type_of path =
     (case from_plural (py_strip 47 path) of None \<Rightarrow> Inl SubscriptionError | Some rt \<Rightarrow> Inr rt)"

text \<open>Equality of dictionaries does not look at the insertion order.\<close>

definition py_dict_eq :: "('k, 'v) pydict \<Rightarrow> ('k, 'v) pydict \<Rightarrow> bool" where
  "py_dict_eq a b \<longleftrightarrow> length a = length b \<and> list_all (\<lambda>(k, v). dget b k = Some v) a"

text \<open>The keyword arguments of \<open>create_or_match\<close>.\<close>

record SubscriptionRequest =
  rq_resource_path :: pystr
  rq_params :: "(pystr, pystr) pydict"
  rq_max_rate :: int
  rq_persist :: bool
  rq_secure :: bool
  rq_authorization :: bool
  rq_host :: pystr
  rq_ws_scheme :: pystr
  rq_ws_host :: pystr

definition same_request :: "SubscriptionRequest \<Rightarrow> Subscription \<Rightarrow> bool" where
  "same_request q s \<longleftrightarrow>
     sub_resource_path s = rq_resource_path q \<and> py_dict_eq (sub_params s) (rq_params q) \<and>
     sub_max_rate s = rq_max_rate q \<and> sub_persist s = rq_persist q \<and>
     sub_secure s = rq_secure q \<and> sub_authorization s = rq_authorization q \<and> sub_host s = rq_host q"

definition create_or_match ::
  "pystr \<Rightarrow> TaiCursor \<Rightarrow> SubscriptionManager \<Rightarrow> SubscriptionRequest \<Rightarrow>
   (SubscriptionManager \<times> Subscription \<times> bool) res" where
  "create_or_match uid now m q =
     bind_res (resource_type_of (rq_resource_path q)) (\<lambda>rt.
       case find (same_request q) (map snd (sm_subscriptions m)) of
         Some existing \<Rightarrow> Inr (m, existing, False)
       | None \<Rightarrow>
           let s = \<lparr>sub_id = uid,
                    sub_ws_href = rq_ws_scheme q @ str ''://'' @ rq_ws_host q @
                                  str ''/x-nmos/query/v1.3/subscriptions/'' @ uid,
                    sub_resource_path = rq_resource_path q, sub_type = rt, sub_params = rq_params q,
                    sub_max_rate = rq_max_rate q, sub_persist = rq_persist q, sub_secure = rq_secure q,
                    sub_authorization = rq_authorization q, sub_created = now, sub_host = rq_host q\<rparr>
           in Inr (m\<lparr>sm_subscriptions := dset uid s (sm_subscriptions m),
                     sm_connections := dset uid [] (sm_connections m)\<rparr>, s, True))"

fun close_all :: "SubscriptionManager \<Rightarrow> nat list \<Rightarrow> SubscriptionManager" where
  "close_all m [] = m"
| "close_all m (k # ks) = close_all (on_connection k close_connection m) ks"

definition sub_delete :: "SubscriptionManager \<Rightarrow> pystr \<Rightarrow> SubscriptionManager" where
  "sub_delete m i =
     close_all (m\<lparr>sm_subscriptions := dpop i (sm_subscriptions m),
                  sm_connections := dpop i (sm_connections m)\<rparr>)
       (case dget (sm_connections m) i of None \<Rightarrow> [] | Some ks \<Rightarrow> ks)"

subsection \<open>Attaching and detaching\<close>

text \<open>The list comprehension: a body that does not parse raises out of it.\<close>

fun matching ::
  "(pystr \<Rightarrow> (pystr, json) pydict res) \<Rightarrow> Subscription \<Rightarrow> RegisteredResource list \<Rightarrow> RegisteredResource list res" where
  "matching loads s [] = Inr []"
| "matching loads s (r # rs) =
     bind_res (body_data loads (body r)) (\<lambda>raw.
     bind_res (matching loads s rs) (\<lambda>xs. Inr (if sub_matches s (Some raw) then r # xs else xs)))"

definition matching_resources ::
  "(pystr \<Rightarrow> (pystr, json) pydict res) \<Rightarrow> RegistryStore \<Rightarrow> Subscription \<Rightarrow> RegisteredResource list res" where
  "matching_resources loads st s = matching loads s (iter_extant st (sub_type s))"

definition sync_event :: "RegisteredResource \<Rightarrow> PendingEvent" where
  "sync_event r = \<lparr>pe_path = res_id r, pe_pre = Some (body r), pe_post = Some (body r)\<rparr>"

text \<open>
  The connection is attached before the burst is computed, so it stays attached when computing
  the burst raises. The result is the address of the connection.
\<close>

definition connect ::
  "(pystr \<Rightarrow> (pystr, json) pydict res) \<Rightarrow> RegistryStore \<Rightarrow> SubscriptionManager \<Rightarrow> Subscription \<Rightarrow>
   SubscriptionManager \<times> nat res" where
  "connect loads st m s =
     (let k = sm_next m;
          m1 = m\<lparr>sm_connections := dset (sub_id s)
                   ((case dget (sm_connections m) (sub_id s) of None \<Rightarrow> [] | Some ks \<Rightarrow> ks) @ [k]) (sm_connections m),
                 sm_heap := (sm_heap m)(k \<mapsto> new_connection s), sm_next := Suc k\<rparr>
      in case matching_resources loads st s of
           Inl e \<Rightarrow> (m1, Inl e)
         | Inr rs \<Rightarrow> (on_connection k (\<lambda>c. enqueue_all c (map sync_event rs)) m1, Inr k))"

definition disconnect :: "SubscriptionManager \<Rightarrow> nat \<Rightarrow> SubscriptionManager" where
  "disconnect m k =
     (case sm_heap m k of
        None \<Rightarrow> m
      | Some c \<Rightarrow>
          let m1 = on_connection k close_connection m; s = co_subscription c
          in case dget (sm_connections m1) (sub_id s) of
               None \<Rightarrow> m1
             | Some ks \<Rightarrow>
                 let ks' = remove1 k ks;
                     m2 = m1\<lparr>sm_connections := dset (sub_id s) ks' (sm_connections m1)\<rparr>
                 in if ks' = [] \<and> \<not> sub_persist s
                    then m2\<lparr>sm_subscriptions := dpop (sub_id s) (sm_subscriptions m2),
                            sm_connections := dpop (sub_id s) (sm_connections m2)\<rparr>
                    else m2)"

subsection \<open>Publication\<close>

definition data_of ::
  "(pystr \<Rightarrow> (pystr, json) pydict res) \<Rightarrow> Body option \<Rightarrow> (pystr, json) pydict option res" where
  "data_of loads b = (case b of None \<Rightarrow> Inr None | Some x \<Rightarrow> bind_res (body_data loads x) (\<lambda>d. Inr (Some d)))"

definition classify ::
  "(pystr \<Rightarrow> (pystr, json) pydict res) \<Rightarrow> Subscription \<Rightarrow> ResourceEvent \<Rightarrow> PendingEvent option res" where
  "classify loads s ev =
     bind_res (data_of loads (ev_pre ev)) (\<lambda>pre.
     bind_res (data_of loads (ev_post ev)) (\<lambda>post.
       if sub_matches s post \<and> sub_matches s pre
       then Inr (Some \<lparr>pe_path = ev_id ev, pe_pre = ev_pre ev, pe_post = ev_post ev\<rparr>)
       else if sub_matches s post
       then Inr (Some \<lparr>pe_path = ev_id ev, pe_pre = None, pe_post = ev_post ev\<rparr>)
       else if sub_matches s pre
       then Inr (Some \<lparr>pe_path = ev_id ev, pe_pre = ev_pre ev, pe_post = None\<rparr>)
       else Inr None))"

fun fan_out :: "SubscriptionManager \<Rightarrow> nat list \<Rightarrow> PendingEvent \<Rightarrow> SubscriptionManager" where
  "fan_out m [] e = m"
| "fan_out m (k # ks) e = fan_out (on_connection k (\<lambda>c. enqueue c e) m) ks e"

text \<open>
  The two loops. An exception ends both with what has been buffered so far in place, so the
  result is the manager and, when it raised, the exception.
\<close>

fun publish_event ::
  "(pystr \<Rightarrow> (pystr, json) pydict res) \<Rightarrow> SubscriptionManager \<Rightarrow> Subscription list \<Rightarrow> ResourceEvent \<Rightarrow>
   SubscriptionManager \<times> py_error option" where
  "publish_event loads m [] ev = (m, None)"
| "publish_event loads m (s # ss) ev =
     (if sub_type s \<noteq> ev_type ev then publish_event loads m ss ev
      else case classify loads s ev of
             Inl e \<Rightarrow> (m, Some e)
           | Inr None \<Rightarrow> publish_event loads m ss ev
           | Inr (Some pending) \<Rightarrow>
               publish_event loads
                 (fan_out m (case dget (sm_connections m) (sub_id s) of None \<Rightarrow> [] | Some ks \<Rightarrow> ks) pending) ss ev)"

fun publish ::
  "(pystr \<Rightarrow> (pystr, json) pydict res) \<Rightarrow> SubscriptionManager \<Rightarrow> ResourceEvent list \<Rightarrow>
   SubscriptionManager \<times> py_error option" where
  "publish loads m [] = (m, None)"
| "publish loads m (ev # evs) =
     (case publish_event loads m (map snd (sm_subscriptions m)) ev of
        (m', Some e) \<Rightarrow> (m', Some e)
      | (m', None) \<Rightarrow> publish loads m' evs)"

subsection \<open>Grains\<close>

text \<open>
  The payload \<open>build_grain\<close> fills in, member by member; a member that is not set stays out of
  the encoding. Turning the payload into text is the generated encoder's.
\<close>

record GrainEntry =
  ge_path :: pystr
  ge_pre :: "pystr option"
  ge_post :: "pystr option"

record GrainPayload =
  gp_grain_type :: pystr
  gp_source_id :: pystr
  gp_flow_id :: pystr
  gp_origin :: "int \<times> int"
  gp_sync :: "int \<times> int"
  gp_creation :: "int \<times> int"
  gp_rate :: "int \<times> int"
  gp_duration :: "int \<times> int"
  gp_type :: pystr
  gp_topic :: pystr
  gp_data :: "GrainEntry list"

definition TAI_UTC_OFFSET :: int where "TAI_UTC_OFFSET = 37"

definition set_tai :: "TaiCursor \<Rightarrow> int \<times> int" where
  "set_tai c = (seconds c - TAI_UTC_OFFSET, nanoseconds c)"

definition build_grain :: "pystr \<Rightarrow> TaiCursor \<Rightarrow> Subscription \<Rightarrow> PendingEvent list \<Rightarrow> GrainPayload" where
  "build_grain query_id now s events =
     \<lparr>gp_grain_type = GRAIN_TYPE_EVENT, gp_source_id = query_id, gp_flow_id = sub_id s,
      gp_origin = set_tai now, gp_sync = set_tai now, gp_creation = set_tai now,
      gp_rate = GRAIN_RATE, gp_duration = GRAIN_RATE,
      gp_type = GRAIN_TYPE, gp_topic = topic (sub_type s),
      gp_data = map (\<lambda>e. \<lparr>ge_path = pe_path e, ge_pre = map_option body_text (pe_pre e),
                          ge_post = map_option body_text (pe_post e)\<rparr>) events\<rparr>"

end
