(* ===== verification/Registry.thy ===== *)
theory Registry
  imports Subscriptions
begin

section \<open>The registry and its WebSocket handlers\<close>

text \<open>
  \<open>src/nmos/registry/registry.py\<close>: the object that owns the store and the subscription manager
  and changes the one only together with the other; the standalone backend of
  \<open>backend.py\<close>, which is a name for its operations; and the steps of the WebSocket handler
  of \<open>websocket.py\<close> between two awaits. Metrics and log lines are not modelled.
\<close>

subsection \<open>Mutations\<close>

record Registry =
  rg_store :: RegistryStore
  rg_query_id :: pystr
  rg_subscriptions :: "SubscriptionManager option"

definition new_registry :: "RegistryStore \<Rightarrow> pystr \<Rightarrow> Registry" where
  "new_registry st q = \<lparr>rg_store = st, rg_query_id = q, rg_subscriptions = None\<rparr>"

definition attach_subscriptions :: "Registry \<Rightarrow> SubscriptionManager \<Rightarrow> Registry" where
  "attach_subscriptions rg m = rg\<lparr>rg_subscriptions := Some m\<rparr>"

definition swap_store :: "Registry \<Rightarrow> RegistryStore \<Rightarrow> Registry \<times> RegistryStore" where
  "swap_store rg st = (rg\<lparr>rg_store := st\<rparr>, rg_store rg)"

text \<open>\<open>_publish\<close>, which \<open>publish\<close> of the registry is a name for.\<close>

definition reg_publish ::
  "(pystr \<Rightarrow> (pystr, json) pydict res) \<Rightarrow> Registry \<Rightarrow> ResourceEvent list \<Rightarrow> Registry \<times> unit res" where
  "reg_publish loads rg evs =
     (case rg_subscriptions rg of
        None \<Rightarrow> (rg, Inr ())
      | Some m \<Rightarrow>
          if evs = [] then (rg, Inr ())
          else let (m', e) = publish loads m evs
               in (rg\<lparr>rg_subscriptions := Some m'\<rparr>, case e of None \<Rightarrow> Inr () | Some x \<Rightarrow> Inl x))"

text \<open>An exception out of the publication leaves the store changed.\<close>

definition reg_register ::
  "(pystr \<Rightarrow> (pystr, json) pydict res) \<Rightarrow> int \<Rightarrow> TaiCursor \<Rightarrow> Registry \<Rightarrow> ResourceType \<Rightarrow> Body \<Rightarrow>
   Registry \<times> RegistrationResult res" where
  "reg_register loads hn tn rg rt b =
     (case insert_or_update loads hn tn (rg_store rg) rt b of
        Inl e \<Rightarrow> (rg, Inl e)
      | Inr (st, result) \<Rightarrow>
          let rg1 = rg\<lparr>rg_store := st\<rparr>
          in if rr_ok result
             then (let (rg2, r) = reg_publish loads rg1 (rr_events result)
                   in (rg2, bind_res r (\<lambda>_. Inr result)))
             else (rg1, Inr result))"

definition reg_unregister ::
  "(pystr \<Rightarrow> (pystr, json) pydict res) \<Rightarrow> (pystr \<Rightarrow> int) \<Rightarrow> Registry \<Rightarrow> ResourceType \<Rightarrow> pystr \<Rightarrow>
   Registry \<times> bool res" where
  "reg_unregister loads hn rg rt i =
     (case delete_resource hn (rg_store rg) rt i of
        Inl e \<Rightarrow> (rg, Inl e)
      | Inr (st, None) \<Rightarrow> (rg\<lparr>rg_store := st\<rparr>, Inr False)
      | Inr (st, Some evs) \<Rightarrow>
          let (rg2, r) = reg_publish loads (rg\<lparr>rg_store := st\<rparr>) evs
          in (rg2, bind_res r (\<lambda>_. Inr True)))"

definition reg_collect_garbage ::
  "(pystr \<Rightarrow> (pystr, json) pydict res) \<Rightarrow> (pystr \<Rightarrow> int) \<Rightarrow> int \<Rightarrow> Registry \<Rightarrow> Registry \<times> int res" where
  "reg_collect_garbage loads hn now rg =
     (case collect_garbage hn now (rg_store rg) of
        Inl e \<Rightarrow> (rg, Inl e)
      | Inr (st, evs) \<Rightarrow>
          let (rg2, r) = reg_publish loads (rg\<lparr>rg_store := st\<rparr>) evs
          in (rg2, bind_res r (\<lambda>_. Inr (int (length evs)))))"

text \<open>\<open>StandaloneRegistryBackend.heartbeat\<close>.\<close>

definition reg_heartbeat :: "int \<Rightarrow> Registry \<Rightarrow> pystr \<Rightarrow> Registry \<times> int option res" where
  "reg_heartbeat hn rg i =
     (case heartbeat hn (rg_store rg) i of
        Inl e \<Rightarrow> (rg, Inl e)
      | Inr (st, h) \<Rightarrow> (rg\<lparr>rg_store := st\<rparr>, Inr h))"

definition reg_statistics :: "int \<Rightarrow> Registry \<Rightarrow> RegistryStatistics" where
  "reg_statistics hn rg =
     (case rg_subscriptions rg of
        None \<Rightarrow> statistics hn (rg_store rg) 0 0
      | Some m \<Rightarrow> statistics hn (rg_store rg) (int (sub_count m)) (int (grain_count m)))"

definition status_line :: "TaiCursor \<Rightarrow> int \<Rightarrow> Registry \<Rightarrow> pystr" where
  "status_line now hn rg =
     str ''At '' @ cursor_str now @ str '', the registry contains '' @ render (reg_statistics hn rg)"

subsection \<open>One WebSocket\<close>

text \<open>
  The handler looks the subscription up, answers 404 when it is not there, and otherwise awaits
  the upgrade (\<open>websocket.prepare\<close>) before it attaches with the subscription it looked up.
\<close>

definition ws_open :: "SubscriptionManager \<Rightarrow> pystr \<Rightarrow> Subscription option" where
  "ws_open m i = sub_get m i"

definition ws_attach ::
  "(pystr \<Rightarrow> (pystr, json) pydict res) \<Rightarrow> RegistryStore \<Rightarrow> SubscriptionManager \<Rightarrow> Subscription \<Rightarrow>
   SubscriptionManager \<times> nat res" where
  "ws_attach loads st m s = connect loads st m s"

text \<open>
  One turn of \<open>_send_grains\<close> after its wait: nothing when the connection was closed or there is
  nothing to send, otherwise the grain.
\<close>

definition ws_turn :: "pystr \<Rightarrow> TaiCursor \<Rightarrow> SubscriptionManager \<Rightarrow> nat \<Rightarrow> SubscriptionManager \<times> GrainPayload option" where
  "ws_turn query_id now m k =
     (case sm_heap m k of
        None \<Rightarrow> (m, None)
      | Some c \<Rightarrow>
          if co_closed c then (m, None)
          else let (c', pending) = drain_pending c;
                   m' = m\<lparr>sm_heap := (sm_heap m)(k \<mapsto> c')\<rparr>
               in if pending = [] then (m', None)
                  else (m', Some (build_grain query_id now (co_subscription c) pending)))"

definition ws_finish :: "SubscriptionManager \<Rightarrow> nat \<Rightarrow> SubscriptionManager" where
  "ws_finish m k = disconnect m k"

subsection \<open>Deleting a subscription over HTTP\<close>

text \<open>\<open>handle_delete_subscription\<close> of \<open>handlers_query.py\<close>: the status and the manager.\<close>

definition handle_delete_subscription :: "SubscriptionManager \<Rightarrow> pystr \<Rightarrow> SubscriptionManager \<times> int" where
  "handle_delete_subscription m i =
     (case sub_get m i of
        None \<Rightarrow> (m, 404)
      | Some s \<Rightarrow> if \<not> sub_persist s then (m, 403) else (sub_delete m i, 204))"

end
