(* ===== verification/Subscription_Sync.thy ===== *)
theory Subscription_Sync
  imports Registry Machine_Spec
begin

section \<open>What a subscriber sees\<close>

text \<open>
  What the subscription manager promises. A client keeps, per resource id, the text the last
  grain gave for it. The promise: that picture, brought up to date with the events still
  buffered for the connection, is at every moment exactly the extant resources of the
  subscription's kind that match its filters. It is proved for every interleaving of changes
  to the store, of subscription requests, and of the steps of the WebSocket handlers
  (\<open>src/nmos/registry/websocket.py\<close>).
\<close>

subsection \<open>Replaying events\<close>

type_synonym picture = "pystr \<rightharpoonup> pystr"

text \<open>The client's reading of a grain's \<open>data\<close> array, and of the events it was built from.\<close>

fun receive_grain :: "picture \<Rightarrow> GrainEntry list \<Rightarrow> picture" where
  "receive_grain v [] = v"
| "receive_grain v (g # gs) = receive_grain (v(ge_path g := ge_post g)) gs"

fun replay :: "picture \<Rightarrow> PendingEvent list \<Rightarrow> picture" where
  "replay v [] = v"
| "replay v (e # es) = replay (v(pe_path e := map_option body_text (pe_post e))) es"

lemma receive_grain: "receive_grain v (gp_data (build_grain q now s es)) = replay v es"
proof -
  have "receive_grain v (map (\<lambda>e. \<lparr>ge_path = pe_path e, ge_pre = map_option body_text (pe_pre e),
      ge_post = map_option body_text (pe_post e)\<rparr>) es) = replay v es"
    by (induction es arbitrary: v) simp_all
  then show ?thesis by (simp add: build_grain_def)
qed

definition wf_connection :: "Connection \<Rightarrow> bool" where
  "wf_connection c \<longleftrightarrow> wf_dict (co_pending c) \<and> (\<forall>(k, e) \<in> set (co_pending c). pe_path e = k) \<and>
     (co_pending c \<noteq> [] \<longrightarrow> co_wake c)"

lemma wf_new_connection: "wf_connection (new_connection s)"
  by (simp add: wf_connection_def new_connection_def)

definition buffered :: "picture \<Rightarrow> Connection \<Rightarrow> picture" where
  "buffered v c = replay v (map snd (co_pending c))"

lemma replay_dict:
  assumes "wf_dict d" and "\<forall>(k, e) \<in> set d. pe_path e = k"
  shows "replay v (map snd d) i = (case dget d i of None \<Rightarrow> v i | Some e \<Rightarrow> map_option body_text (pe_post e))"
  using assms
proof (induction d arbitrary: v)
  case (Cons p d)
  obtain k e where p: "p = (k, e)" by fastforce
  have k: "pe_path e = k" "dget d k = None" "wf_dict d" "\<forall>(k, e) \<in> set d. pe_path e = k"
    using Cons.prems p by (auto simp: wf_dict_def dget_None_keys)
  show ?case using Cons.IH [OF k(3,4)] k(1,2) p by (auto split: option.split)
qed simp

lemma enqueue_frame [simp]:
  "co_subscription (enqueue c e) = co_subscription c" "co_closed (enqueue c e) = co_closed c"
  by (simp_all add: enqueue_def)

lemma dset_nonempty [simp]: "dset k v d \<noteq> []"
  by (cases d) (auto split: if_splits)

lemma set_dset: "wf_dict d \<Longrightarrow> set (dset k v d) = insert (k, v) {p \<in> set d. fst p \<noteq> k}"
  using wf_dict_dset [of d k v] by (auto simp: dget_in_set split: if_splits)

lemma enqueue_wf: "wf_connection c \<Longrightarrow> wf_connection (enqueue c e)"
  unfolding wf_connection_def
  by (auto simp: enqueue_def set_dset wf_dict_dset merge_def dget_in_set [symmetric] split: option.splits)

lemma enqueue_buffered:
  assumes "wf_connection c"
  shows "buffered v (enqueue c e) = (buffered v c)(pe_path e := map_option body_text (pe_post e))"
proof
  fix i
  have "wf_dict (co_pending (enqueue c e))" "\<forall>(k, e) \<in> set (co_pending (enqueue c e)). pe_path e = k"
    "wf_dict (co_pending c)" "\<forall>(k, e) \<in> set (co_pending c). pe_path e = k"
    using assms enqueue_wf [OF assms] by (simp_all add: wf_connection_def)
  note r = replay_dict [OF this(1,2)] replay_dict [OF this(3,4)]
  show "buffered v (enqueue c e) i = ((buffered v c)(pe_path e := map_option body_text (pe_post e))) i"
    unfolding buffered_def r by (auto simp: enqueue_def merge_def split: option.split)
qed

lemma enqueue_all_effect:
  assumes "wf_connection c"
  shows "wf_connection (enqueue_all c es) \<and> buffered v (enqueue_all c es) = replay (buffered v c) es \<and>
    co_subscription (enqueue_all c es) = co_subscription c \<and> co_closed (enqueue_all c es) = co_closed c"
  using assms by (induction es arbitrary: c) (simp_all add: enqueue_wf enqueue_buffered)

lemma drain_pending_effect:
  "wf_connection (fst (drain_pending c))" "buffered v (fst (drain_pending c)) = v" "replay v (snd (drain_pending c)) = buffered v c"
  "co_subscription (fst (drain_pending c)) = co_subscription c" "co_closed (fst (drain_pending c)) = co_closed c"
  by (simp_all add: drain_pending_def wf_connection_def buffered_def)

subsection \<open>What the subscription is about\<close>

definition wants :: "json_loads \<Rightarrow> Subscription \<Rightarrow> Body \<Rightarrow> bool" where
  "wants loads s b = (case body_data loads b of Inl _ \<Rightarrow> False | Inr d \<Rightarrow> sub_matches s (Some d))"

definition wanted :: "json_loads \<Rightarrow> Subscription \<Rightarrow> shown \<Rightarrow> picture" where
  "wanted loads s f i = (case f i of None \<Rightarrow> None
     | Some (rt, b) \<Rightarrow> if rt = sub_type s \<and> wants loads s b then Some (body_text b) else None)"

text \<open>Every body on show parses.\<close>

definition readable :: "json_loads \<Rightarrow> shown \<Rightarrow> bool" where
  "readable loads f \<longleftrightarrow> (\<forall>i rt b. f i = Some (rt, b) \<longrightarrow> (\<exists>d. body_data loads b = Inr d))"

lemma data_of_readable:
  assumes "readable loads f" and "f i = map_option (Pair rt) b"
  shows "\<exists>d. data_of loads b = Inr d \<and>
    sub_matches s d = (case b of None \<Rightarrow> False | Some x \<Rightarrow> wants loads s x)"
proof (cases b)
  case (Some x)
  then obtain d where "body_data loads x = Inr d" using assms unfolding readable_def by fastforce
  then show ?thesis using Some by (simp add: data_of_def wants_def)
qed (simp add: data_of_def sub_matches_def)

lemma classify_wanted:
  assumes f: "readable loads f" "f (ev_id ev) = map_option (Pair (ev_type ev)) (ev_pre ev)"
    and g: "readable loads g" "g = f(ev_id ev := map_option (Pair (ev_type ev)) (ev_post ev))"
    and t: "sub_type s = ev_type ev"
  shows "\<exists>p. classify loads s ev = Inr p \<and>
    wanted loads s g = (case p of None \<Rightarrow> wanted loads s f
      | Some e \<Rightarrow> (wanted loads s f)(pe_path e := map_option body_text (pe_post e)))"
proof -
  obtain a where a: "data_of loads (ev_pre ev) = Inr a"
      "sub_matches s a = (case ev_pre ev of None \<Rightarrow> False | Some x \<Rightarrow> wants loads s x)"
    using data_of_readable [OF f] by blast
  have "g (ev_id ev) = map_option (Pair (ev_type ev)) (ev_post ev)" by (simp add: g(2))
  then obtain b where b: "data_of loads (ev_post ev) = Inr b"
      "sub_matches s b = (case ev_post ev of None \<Rightarrow> False | Some x \<Rightarrow> wants loads s x)"
    using data_of_readable [OF g(1)] by blast
  have old: "wanted loads s f (ev_id ev) = (if sub_matches s a then map_option body_text (ev_pre ev) else None)"
    unfolding wanted_def f(2) a(2) by (simp add: t split: option.split)
  have new: "wanted loads s g = (wanted loads s f)
      (ev_id ev := (if sub_matches s b then map_option body_text (ev_post ev) else None))"
    unfolding b(2) g(2) by (auto simp: wanted_def t fun_eq_iff split: option.split)
  show ?thesis
    unfolding classify_def a(1) b(1) bind_res_simps new
    using old by (auto simp: fun_eq_iff)
qed

lemma other_kind_wanted:
  assumes "f (ev_id ev) = map_option (Pair (ev_type ev)) (ev_pre ev)" and "sub_type s \<noteq> ev_type ev"
  shows "wanted loads s (f(ev_id ev := map_option (Pair (ev_type ev)) (ev_post ev))) = wanted loads s f"
proof
  fix i
  show "wanted loads s (f(ev_id ev := map_option (Pair (ev_type ev)) (ev_post ev))) i = wanted loads s f i"
    using assms by (cases "ev_pre ev"; cases "ev_post ev") (auto simp: wanted_def)
qed

subsection \<open>The manager's invariant\<close>

definition listed :: "SubscriptionManager \<Rightarrow> pystr \<Rightarrow> nat list" where
  "listed m i = (case dget (sm_connections m) i of None \<Rightarrow> [] | Some ks \<Rightarrow> ks)"

text \<open>
  Every subscription is held under its own id and has a connection list. A listed connection
  exists, is open, belongs to the id it is listed under and is listed once; when that id is a
  subscription's, it is the subscription the connection was made for.
\<close>

definition conn_ok :: "SubscriptionManager \<Rightarrow> pystr \<Rightarrow> nat \<Rightarrow> bool" where
  "conn_ok m i k \<longleftrightarrow> (\<exists>c. sm_heap m k = Some c \<and> \<not> co_closed c \<and> sub_id (co_subscription c) = i \<and>
     (\<forall>s. dget (sm_subscriptions m) i = Some s \<longrightarrow> co_subscription c = s))"

definition wf_manager :: "SubscriptionManager \<Rightarrow> bool" where
  "wf_manager m \<longleftrightarrow>
     wf_dict (sm_subscriptions m) \<and> wf_dict (sm_connections m) \<and>
     (\<forall>i s. dget (sm_subscriptions m) i = Some s \<longrightarrow> sub_id s = i \<and> dget (sm_connections m) i \<noteq> None) \<and>
     (\<forall>i. distinct (listed m i) \<and> (\<forall>k \<in> set (listed m i). conn_ok m i k)) \<and>
     (\<forall>k c. sm_heap m k = Some c \<longrightarrow> k < sm_next m \<and> wf_connection c)"

lemma wf_new_manager: "wf_manager new_manager"
  by (simp add: wf_manager_def new_manager_def listed_def)

lemma wf_managerD:
  assumes "wf_manager m"
  shows "wf_dict (sm_subscriptions m)" "wf_dict (sm_connections m)"
    "dget (sm_subscriptions m) i = Some s \<Longrightarrow> sub_id s = i"
    "dget (sm_subscriptions m) i = Some s \<Longrightarrow> dget (sm_connections m) i \<noteq> None"
    "distinct (listed m i)" "k \<in> set (listed m i) \<Longrightarrow> conn_ok m i k"
    "sm_heap m k = Some c \<Longrightarrow> k < sm_next m" "sm_heap m k = Some c \<Longrightarrow> wf_connection c"
  using assms unfolding wf_manager_def by blast+

lemma wf_managerI:
  assumes "wf_dict (sm_subscriptions m)" "wf_dict (sm_connections m)"
    and "\<And>i s. dget (sm_subscriptions m) i = Some s \<Longrightarrow> sub_id s = i \<and> dget (sm_connections m) i \<noteq> None"
    and "\<And>i. distinct (listed m i)" "\<And>i k. k \<in> set (listed m i) \<Longrightarrow> conn_ok m i k"
    and "\<And>k c. sm_heap m k = Some c \<Longrightarrow> k < sm_next m \<and> wf_connection c"
  shows "wf_manager m"
  using assms unfolding wf_manager_def by blast

lemma listed_apart:
  assumes "wf_manager m" and "k \<in> set (listed m i)" and "k \<in> set (listed m j)"
  shows "i = j"
  using wf_managerD(6) [OF assms(1,2)] wf_managerD(6) [OF assms(1,3)] by (auto simp: conn_ok_def)

text \<open>
  Calls on connections that leave their subscription and their openness alone leave the
  invariant alone.
\<close>

definition same_lists :: "SubscriptionManager \<Rightarrow> SubscriptionManager \<Rightarrow> bool" where
  "same_lists m m' \<longleftrightarrow> sm_subscriptions m' = sm_subscriptions m \<and> sm_connections m' = sm_connections m \<and>
     sm_next m' = sm_next m"

lemma same_lists_refl [simp]: "same_lists m m"
  by (simp add: same_lists_def)

lemma same_lists_trans: "same_lists a b \<Longrightarrow> same_lists b c \<Longrightarrow> same_lists a c"
  by (simp add: same_lists_def)

lemma on_connection_frame [simp]:
  "sm_subscriptions (on_connection k f m) = sm_subscriptions m"
  "sm_connections (on_connection k f m) = sm_connections m" "sm_next (on_connection k f m) = sm_next m"
  "sm_heap (on_connection k f m) j = (if j = k then map_option f (sm_heap m k) else sm_heap m j)"
  by (simp_all add: on_connection_def)

lemma same_lists_on_connection [simp]: "same_lists m (on_connection k f m)"
  by (simp add: same_lists_def)

lemma listed_same: "same_lists m m' \<Longrightarrow> listed m' i = listed m i"
  by (simp add: same_lists_def listed_def)

lemma wf_on_connection:
  assumes wf: "wf_manager m"
    and f: "\<And>c. wf_connection c \<Longrightarrow> wf_connection (f c) \<and> co_subscription (f c) = co_subscription c \<and>
      co_closed (f c) = co_closed c"
  shows "wf_manager (on_connection k f m)"
proof -
  let ?m = "on_connection k f m"
  have "conn_ok ?m i j" if "conn_ok m i j" for i j
    using that f wf_managerD(8) [OF wf, of k] unfolding conn_ok_def by (cases "j = k") auto
  moreover have "j < sm_next ?m \<and> wf_connection c" if "sm_heap ?m j = Some c" for j c
    using that f wf_managerD(7,8) [OF wf, of j] by (cases "j = k") auto
  ultimately show ?thesis
    using wf listed_same [of m ?m] unfolding wf_manager_def by simp
qed

text \<open>\<open>W\<close> says, per subscription, what its clients should be seeing, \<open>V\<close> what each has been told.\<close>

definition synced ::
  "SubscriptionManager \<Rightarrow> (nat \<Rightarrow> picture) \<Rightarrow> (pystr \<Rightarrow> picture) \<Rightarrow> bool" where
  "synced m V W \<longleftrightarrow>
     (\<forall>i k c. dget (sm_subscriptions m) i \<noteq> None \<longrightarrow> k \<in> set (listed m i) \<longrightarrow> sm_heap m k = Some c \<longrightarrow>
        buffered (V k) c = W i)"

lemma syncedD:
  "synced m V W \<Longrightarrow> dget (sm_subscriptions m) i = Some s \<Longrightarrow> k \<in> set (listed m i) \<Longrightarrow> sm_heap m k = Some c \<Longrightarrow>
    buffered (V k) c = W i"
  unfolding synced_def by auto

lemma fan_out_effect:
  assumes "distinct ks" and "wf_manager m"
  shows "same_lists m (fan_out m ks e) \<and> wf_manager (fan_out m ks e) \<and>
    (\<forall>k. sm_heap (fan_out m ks e) k =
      (if k \<in> set ks then map_option (\<lambda>c. enqueue c e) (sm_heap m k) else sm_heap m k))"
  using assms
proof (induction ks arbitrary: m)
  case (Cons k ks)
  let ?m = "on_connection k (\<lambda>c. enqueue c e) m"
  have wf: "wf_manager ?m" using Cons.prems(2) by (rule wf_on_connection) (simp add: enqueue_wf)
  have "same_lists m ?m" by simp
  with Cons.IH [OF _ wf] Cons.prems(1) show ?case
    using same_lists_trans [of m ?m "fan_out ?m ks e"] by auto
qed simp

lemma fan_out_synced:
  assumes wf: "wf_manager m" and s: "synced m V W"
  shows "synced (fan_out m (listed m i) e) V (W(i := (W i)(pe_path e := map_option body_text (pe_post e))))"
  unfolding synced_def
proof (intro allI impI)
  let ?m = "fan_out m (listed m i) e"
  fix j k c
  assume a: "dget (sm_subscriptions ?m) j \<noteq> None" "k \<in> set (listed ?m j)" "sm_heap ?m k = Some c"
  have fx: "same_lists m ?m" "sm_heap ?m k = (if k \<in> set (listed m i) then map_option (\<lambda>c. enqueue c e) (sm_heap m k) else sm_heap m k)"
    using fan_out_effect [OF wf_managerD(5) [OF wf] wf] by blast+
  have j: "dget (sm_subscriptions m) j \<noteq> None" "k \<in> set (listed m j)"
    using a(1,2) fx(1) listed_same [OF fx(1)] by (simp_all add: same_lists_def)
  show "buffered (V k) c = (W(i := (W i)(pe_path e := map_option body_text (pe_post e)))) j"
  proof (cases "k \<in> set (listed m i)")
    case True
    then have "j = i" using listed_apart [OF wf _ j(2)] by blast
    obtain c0 where c0: "sm_heap m k = Some c0" "c = enqueue c0 e" using a(3) fx(2) True by auto
    have "buffered (V k) c0 = W j" using s j c0(1) unfolding synced_def by blast
    then show ?thesis using enqueue_buffered [OF wf_managerD(8) [OF wf c0(1)]] c0(2) \<open>j = i\<close> by simp
  next
    case False
    then have "j \<noteq> i" using j(2) by blast
    then show ?thesis using s j a(3) fx(2) False unfolding synced_def by simp
  qed
qed
subsection \<open>Publishing\<close>

text \<open>The picture each subscription's clients should have of a view.\<close>

definition targets :: "json_loads \<Rightarrow> SubscriptionManager \<Rightarrow> shown \<Rightarrow> pystr \<Rightarrow> picture" where
  "targets loads m f i = (case dget (sm_subscriptions m) i of None \<Rightarrow> Map.empty | Some s \<Rightarrow> wanted loads s f)"

definition in_sync :: "json_loads \<Rightarrow> SubscriptionManager \<Rightarrow> (nat \<Rightarrow> picture) \<Rightarrow> shown \<Rightarrow> bool" where
  "in_sync loads m V f \<longleftrightarrow> synced m V (targets loads m f)"

lemma synced_cong:
  "synced m V W \<Longrightarrow> (\<And>i. dget (sm_subscriptions m) i \<noteq> None \<Longrightarrow> W' i = W i) \<Longrightarrow> synced m V W'"
  unfolding synced_def by simp

lemma publish_event_effect:
  assumes "wf_manager m" and "synced m V W"
    and "distinct (map sub_id ss)" and "\<And>s. s \<in> set ss \<Longrightarrow> W (sub_id s) = wanted loads s f"
    and acc: "f (ev_id ev) = map_option (Pair (ev_type ev)) (ev_pre ev)"
      "g = f(ev_id ev := map_option (Pair (ev_type ev)) (ev_post ev))"
    and ok: "readable loads f" "readable loads g"
  shows "\<exists>m'. publish_event loads m ss ev = (m', None) \<and> same_lists m m' \<and> wf_manager m' \<and>
    synced m' V (\<lambda>i. case find (\<lambda>s. sub_id s = i) ss of None \<Rightarrow> W i | Some s \<Rightarrow> wanted loads s g)"
  using assms(1-4)
proof (induction ss arbitrary: m W)
  case Nil
  then show ?case by simp
next
  case (Cons s ss)
  let ?W = "W(sub_id s := wanted loads s g)"
  have other: "find (\<lambda>x. sub_id x = sub_id s) ss = None"
    using Cons.prems(3) unfolding find_None_iff by (metis distinct.simps(2) image_eqI list.simps(9) set_map)
  have final: "(\<lambda>i. case find (\<lambda>s. sub_id s = i) ss of None \<Rightarrow> ?W i | Some s \<Rightarrow> wanted loads s g) =
      (\<lambda>i. case find (\<lambda>s. sub_id s = i) (s # ss) of None \<Rightarrow> W i | Some s \<Rightarrow> wanted loads s g)"
    using other by (auto simp: fun_eq_iff split: option.split)
  have rest: "?W (sub_id x) = wanted loads x f" if "x \<in> set ss" for x
  proof -
    have "sub_id x \<noteq> sub_id s" using Cons.prems(3) that by (metis distinct.simps(2) image_eqI list.simps(9) set_map)
    then show ?thesis using Cons.prems(4) [of x] that by simp
  qed
  have step: "\<exists>m'. publish_event loads m1 ss ev = (m', None) \<and> same_lists m m' \<and> wf_manager m' \<and>
      synced m' V (\<lambda>i. case find (\<lambda>s. sub_id s = i) (s # ss) of None \<Rightarrow> W i | Some s \<Rightarrow> wanted loads s g)"
    if "same_lists m m1" "wf_manager m1" "synced m1 V ?W" for m1
    using Cons.IH [OF that(2,3) _ rest] Cons.prems(3) same_lists_trans [OF that(1)] unfolding final by auto
  have here: "W (sub_id s) = wanted loads s f" using Cons.prems(4) by simp
  show ?case
  proof (cases "sub_type s = ev_type ev")
    case False
    then have "?W = W" using other_kind_wanted [where ev = ev and s = s and f = f and loads = loads, OF acc(1)] acc(2) here by auto
    then show ?thesis using step [of m] Cons.prems(1,2) False by simp
  next
    case True
    obtain p where p: "classify loads s ev = Inr p"
        "wanted loads s g = (case p of None \<Rightarrow> wanted loads s f
          | Some e \<Rightarrow> (wanted loads s f)(pe_path e := map_option body_text (pe_post e)))"
      using classify_wanted [OF ok(1) acc(1) ok(2) acc(2) True] by blast
    show ?thesis
    proof (cases p)
      case None
      then have "?W = W" using p(2) here by auto
      then show ?thesis using step [of m] Cons.prems(1,2) True p(1) None by simp
    next
      case (Some e)
      let ?m = "fan_out m (listed m (sub_id s)) e"
      note fx = fan_out_effect [OF wf_managerD(5) [OF Cons.prems(1)] Cons.prems(1), of "sub_id s" e]
      have "W(sub_id s := (W (sub_id s))(pe_path e := map_option body_text (pe_post e))) = ?W"
        using p(2) Some here by simp
      then have "synced ?m V ?W" using fan_out_synced [OF Cons.prems(1,2), of "sub_id s" e] by simp
      then show ?thesis using step [of ?m] fx True p(1) Some by (simp add: listed_def)
    qed
  qed
qed

lemma find_by_id:
  assumes "\<And>x. x \<in> set d \<Longrightarrow> sub_id (snd x) = fst x"
  shows "find (\<lambda>s. sub_id s = i) (map snd d) = dget d i"
  using assms
proof (induction d)
  case (Cons p d)
  have "sub_id (snd p) = fst p" by (rule Cons.prems) simp
  moreover have "find (\<lambda>s. sub_id s = i) (map snd d) = dget d i" using Cons.prems by (intro Cons.IH) simp
  ultimately show ?case by simp
qed simp

lemma publish_event_in_sync:
  assumes wf: "wf_manager m" and s: "in_sync loads m V f"
    and acc: "f (ev_id ev) = map_option (Pair (ev_type ev)) (ev_pre ev)"
      "g = f(ev_id ev := map_option (Pair (ev_type ev)) (ev_post ev))"
    and ok: "readable loads f" "readable loads g"
  shows "\<exists>m'. publish_event loads m (map snd (sm_subscriptions m)) ev = (m', None) \<and> same_lists m m' \<and>
    wf_manager m' \<and> in_sync loads m' V g"
proof -
  let ?ss = "map snd (sm_subscriptions m)"
  note d = wf_managerD(1) [OF wf]
  have ids: "sub_id (snd x) = fst x" if "x \<in> set (sm_subscriptions m)" for x
    using wf_managerD(3) [OF wf, of "fst x" "snd x"] that dget_in_set [OF d, of "fst x" "snd x"] by simp
  have keys: "map sub_id ?ss = dkeys (sm_subscriptions m)" using ids by simp
  have find: "find (\<lambda>s. sub_id s = i) ?ss = dget (sm_subscriptions m) i" for i
    using ids by (rule find_by_id)
  have "targets loads m f (sub_id x) = wanted loads x f" if x: "x \<in> set ?ss" for x
  proof -
    obtain y where "y \<in> set (sm_subscriptions m)" "x = snd y" using x by auto
    then have "(sub_id x, x) \<in> set (sm_subscriptions m)" using ids [of y] by simp
    then show ?thesis using dget_in_set [OF d] by (simp add: targets_def)
  qed
  moreover have "distinct (map sub_id ?ss)" unfolding keys using d by (simp add: wf_dict_def)
  ultimately obtain m' where m': "publish_event loads m ?ss ev = (m', None)" "same_lists m m'" "wf_manager m'"
      "synced m' V (\<lambda>i. case dget (sm_subscriptions m) i of None \<Rightarrow> targets loads m f i | Some s \<Rightarrow> wanted loads s g)"
    using publish_event_effect [OF wf s [unfolded in_sync_def] _ _ acc ok, of ?ss, unfolded find] by blast
  have "in_sync loads m' V g"
    unfolding in_sync_def using m'(2)
    by (intro synced_cong [OF m'(4)]) (auto simp: targets_def same_lists_def split: option.split)
  then show ?thesis using m' by blast
qed

text \<open>
  A run of events that follows the store brings every connection's buffer up to the new view,
  and never raises while every body parses.
\<close>

fun all_readable :: "json_loads \<Rightarrow> shown \<Rightarrow> ResourceEvent list \<Rightarrow> bool" where
  "all_readable loads f [] = readable loads f"
| "all_readable loads f (e # es) =
     (readable loads f \<and> all_readable loads (f(ev_id e := map_option (Pair (ev_type e)) (ev_post e))) es)"

lemma all_readable_first: "all_readable loads f es \<Longrightarrow> readable loads f"
  by (cases es) auto

lemma publish_in_sync:
  assumes "wf_manager m" and "in_sync loads m V f" and "follows f evs g" and "all_readable loads f evs"
  shows "\<exists>m'. publish loads m evs = (m', None) \<and> same_lists m m' \<and> wf_manager m' \<and> in_sync loads m' V g"
  using assms
proof (induction evs arbitrary: m f)
  case (Cons ev evs)
  let ?f = "f(ev_id ev := map_option (Pair (ev_type ev)) (ev_post ev))"
  have p: "f (ev_id ev) = map_option (Pair (ev_type ev)) (ev_pre ev)" "follows ?f evs g"
    "readable loads f" "all_readable loads ?f evs" using Cons.prems(3,4) by auto
  obtain m1 where m1: "publish_event loads m (map snd (sm_subscriptions m)) ev = (m1, None)"
      "same_lists m m1" "wf_manager m1" "in_sync loads m1 V ?f"
    using publish_event_in_sync [OF Cons.prems(1,2) p(1) refl p(3) all_readable_first [OF p(4)]] by blast
  from Cons.IH [OF m1(3,4) p(2,4)] m1(1,2) show ?case
    using same_lists_trans by fastforce
qed auto

lemma readable_removals:
  assumes "readable loads f" and "\<forall>e \<in> set evs. ev_post e = None"
  shows "all_readable loads f evs"
  using assms
proof (induction evs arbitrary: f)
  case (Cons e evs)
  have "readable loads (f(ev_id e := None))" using Cons.prems(1) by (simp add: readable_def)
  then have "all_readable loads (f(ev_id e := None)) evs" by (rule Cons.IH) (use Cons.prems in simp)
  then show ?case using Cons.prems by simp
qed simp
subsection \<open>Requests and connections\<close>

lemma resource_type_plural: "resource_type_of path = Inr rt \<longleftrightarrow> py_strip 47 path = plural rt"
  using from_plural_iff [of "py_strip 47 path"]
  by (cases "from_plural (py_strip 47 path)") (auto simp: resource_type_of_def)

lemma create_effect:
  assumes wf: "wf_manager m" and s: "in_sync loads m V f"
    and fresh: "dget (sm_subscriptions m) uid = None" "dget (sm_connections m) uid = None"
    and run: "create_or_match uid now m q = Inr (m', x, fresh_one)"
  shows "wf_manager m' \<and> in_sync loads m' V f \<and> dget (sm_subscriptions m') (sub_id x) = Some x \<and>
    (if fresh_one then sm_subscriptions m' = dset uid x (sm_subscriptions m) \<and>
        sm_connections m' = dset uid [] (sm_connections m) \<and> sm_heap m' = sm_heap m \<and> sub_id x = uid
     else m' = m)"
proof -
  obtain rt where rt: "resource_type_of (rq_resource_path q) = Inr rt"
    using run by (auto simp: create_or_match_def bind_res_eq_Inr)
  show ?thesis
  proof (cases "find (same_request q) (map snd (sm_subscriptions m))")
    case (Some y)
    then have y: "m' = m" "x = y" "\<not> fresh_one" using run rt by (auto simp: create_or_match_def)
    obtain i where "(i, y) \<in> set (sm_subscriptions m)" using Some by (auto simp: find_Some_iff nth_mem) (metis nth_mem prod.collapse)
    then have "dget (sm_subscriptions m) i = Some y" using dget_in_set [OF wf_managerD(1) [OF wf]] by blast
    moreover then have "sub_id y = i" by (rule wf_managerD(3) [OF wf])
    ultimately show ?thesis using y wf s by simp
  next
    case None
    have r: "m' = m\<lparr>sm_subscriptions := dset uid x (sm_subscriptions m), sm_connections := dset uid [] (sm_connections m)\<rparr>"
      "sub_id x = uid" "fresh_one"
      using run rt None by (auto simp: create_or_match_def Let_def)
    have lst: "listed m' i = listed m i" for i using fresh(2) r(1) by (simp add: listed_def)
    have "conn_ok m' i k" if "conn_ok m i k" "k \<in> set (listed m i)" for i k
      using that fresh(2) r(1) by (cases "i = uid") (auto simp: conn_ok_def listed_def)
    then have "wf_manager m'"
      using wf fresh r(1,2) unfolding wf_manager_def lst by (auto simp: wf_dict_dset)
    moreover have "in_sync loads m' V f"
      using s fresh(2) r(1) unfolding in_sync_def synced_def lst
      by (auto simp: targets_def listed_def split: option.splits if_splits)
    ultimately show ?thesis using r by simp
  qed
qed

lemma close_connection_frame [simp]: "co_subscription (close_connection c) = co_subscription c"
  by (simp add: close_connection_def)

lemma wf_close: "wf_connection c \<Longrightarrow> wf_connection (close_connection c)"
  by (simp add: wf_connection_def close_connection_def)

lemma close_all_effect:
  "same_lists m (close_all m ks) \<and>
   (\<forall>k. sm_heap (close_all m ks) k = (if k \<in> set ks then map_option (\<lambda>c. c\<lparr>co_closed := True, co_wake := True, co_shutdown := True\<rparr>) (sm_heap m k) else sm_heap m k))"
proof (induction ks arbitrary: m)
  case (Cons k ks)
  have "same_lists m (on_connection k close_connection m)" by simp
  with Cons [of "on_connection k close_connection m"] show ?case
    using same_lists_trans [of m "on_connection k close_connection m" "close_all (on_connection k close_connection m) ks"]
    by (cases "sm_heap m k") (auto simp: close_connection_def)
qed simp

text \<open>
  Closing the connections of a list that is itself dropped or has just lost them: what the
  remaining lists hold is untouched.
\<close>

lemma shrink_effect:
  assumes wf: "wf_manager m" and s: "in_sync loads m V f"
    and dict: "wf_dict (sm_subscriptions m')" "wf_dict (sm_connections m')" and nx: "sm_next m' = sm_next m"
    and subs: "\<And>i x. dget (sm_subscriptions m') i = Some x \<Longrightarrow> dget (sm_subscriptions m) i = Some x \<and> dget (sm_connections m') i \<noteq> None"
    and lst: "\<And>i. distinct (listed m' i)" "\<And>i k. k \<in> set (listed m' i) \<Longrightarrow> k \<in> set (listed m i) \<and> sm_heap m' k = sm_heap m k"
    and heap: "\<And>k c. sm_heap m' k = Some c \<Longrightarrow> \<exists>c0. sm_heap m k = Some c0 \<and> (c = c0 \<or> c = close_connection c0)"
  shows "wf_manager m' \<and> in_sync loads m' V f"
proof
  have "conn_ok m' i k" if "k \<in> set (listed m' i)" for i k
    using wf_managerD(6) [OF wf, of k i] lst(2) [OF that] subs unfolding conn_ok_def by fastforce
  moreover have "k < sm_next m' \<and> wf_connection c" if "sm_heap m' k = Some c" for k c
    using heap [OF that] wf_managerD(7,8) [OF wf] wf_close nx by fastforce
  ultimately show "wf_manager m'"
    using dict lst(1) subs wf_managerD(3) [OF wf] unfolding wf_manager_def by blast
  show "in_sync loads m' V f"
    unfolding in_sync_def synced_def
  proof (intro allI impI)
    fix i k c assume a: "dget (sm_subscriptions m') i \<noteq> None" "k \<in> set (listed m' i)" "sm_heap m' k = Some c"
    then obtain x where x: "dget (sm_subscriptions m') i = Some x" "dget (sm_subscriptions m) i = Some x" using subs by blast
    have "buffered (V k) c = targets loads m f i"
      using syncedD [OF s [unfolded in_sync_def] x(2)] lst(2) [OF a(2)] a(3) by simp
    then show "buffered (V k) c = targets loads m' f i" using x by (simp add: targets_def)
  qed
qed

lemma delete_effect:
  assumes wf: "wf_manager m" and s: "in_sync loads m V f"
  shows "wf_manager (sub_delete m i) \<and> in_sync loads (sub_delete m i) V f \<and>
    sm_subscriptions (sub_delete m i) = dpop i (sm_subscriptions m) \<and>
    sm_connections (sub_delete m i) = dpop i (sm_connections m)"
proof -
  let ?m0 = "m\<lparr>sm_subscriptions := dpop i (sm_subscriptions m), sm_connections := dpop i (sm_connections m)\<rparr>"
  have d: "sub_delete m i = close_all ?m0 (listed m i)" by (simp add: sub_delete_def listed_def)
  note c = close_all_effect [of ?m0 "listed m i"]
  have f: "sm_subscriptions (sub_delete m i) = dpop i (sm_subscriptions m)"
    "sm_connections (sub_delete m i) = dpop i (sm_connections m)" "sm_next (sub_delete m i) = sm_next m"
    using c unfolding d by (simp_all add: same_lists_def)
  have h: "sm_heap (sub_delete m i) k = (if k \<in> set (listed m i) then map_option close_connection (sm_heap m k) else sm_heap m k)" for k
    using c unfolding d by (simp add: close_connection_def [abs_def])
  have l: "listed (sub_delete m i) j = (if j = i then [] else listed m j)" for j
    by (simp add: listed_def f)
  have "wf_manager (sub_delete m i) \<and> in_sync loads (sub_delete m i) V f"
  proof (rule shrink_effect [OF wf s])
    show "wf_dict (sm_subscriptions (sub_delete m i))" "wf_dict (sm_connections (sub_delete m i))"
      using wf_managerD(1,2) [OF wf] by (simp_all add: f wf_dict_dpop)
    show "distinct (listed (sub_delete m i) j)" for j using wf_managerD(5) [OF wf] by (simp add: l)
    show "k \<in> set (listed m j) \<and> sm_heap (sub_delete m i) k = sm_heap m k" if "k \<in> set (listed (sub_delete m i) j)" for j k
      using that listed_apart [OF wf, of k i j] by (auto simp: l h split: if_splits)
    show "\<exists>c0. sm_heap m k = Some c0 \<and> (c = c0 \<or> c = close_connection c0)" if "sm_heap (sub_delete m i) k = Some c" for k c
      using that by (auto simp: h split: if_splits)
    show "dget (sm_subscriptions m) j = Some x \<and> dget (sm_connections (sub_delete m i)) j \<noteq> None"
      if "dget (sm_subscriptions (sub_delete m i)) j = Some x" for j x
      using that wf_managerD(4) [OF wf, of j x] by (auto simp: f split: if_splits)
  qed (simp add: f)
  then show ?thesis using f by simp
qed

lemma disconnect_effect:
  assumes wf: "wf_manager m" and s: "in_sync loads m V f"
  shows "wf_manager (disconnect m k) \<and> in_sync loads (disconnect m k) V f \<and>
    (\<forall>i x. dget (sm_subscriptions (disconnect m k)) i = Some x \<longrightarrow> dget (sm_subscriptions m) i = Some x)"
proof (cases "sm_heap m k")
  case None
  then show ?thesis using wf s by (simp add: disconnect_def)
next
  case (Some c)
  let ?i = "sub_id (co_subscription c)" and ?m = "disconnect m k"
  have h: "sm_heap ?m = (sm_heap m)(k \<mapsto> close_connection c)" "sm_next ?m = sm_next m"
    using Some by (auto simp: disconnect_def Let_def fun_eq_iff split: option.split)
  have sub: "sm_subscriptions ?m = sm_subscriptions m \<or> sm_subscriptions ?m = dpop ?i (sm_subscriptions m) \<and> dget (sm_connections ?m) ?i = None"
    using Some by (auto simp: disconnect_def Let_def split: option.split)
  have con: "dget (sm_connections ?m) j = dget (sm_connections m) j" if "j \<noteq> ?i" for j
    using Some that by (auto simp: disconnect_def Let_def split: option.split)
  have gone: "dget (sm_connections ?m) ?i = None \<Longrightarrow> dget (sm_connections m) ?i = None \<or> sm_subscriptions ?m = dpop ?i (sm_subscriptions m)"
    using Some by (auto simp: disconnect_def Let_def split: option.split if_splits)
  have here: "listed ?m ?i = remove1 k (listed m ?i)"
    using Some by (auto simp: disconnect_def Let_def listed_def split: option.split)
  have there: "listed ?m j = listed m j" if "j \<noteq> ?i" for j using con [OF that] by (simp add: listed_def)
  have dict: "wf_dict (sm_subscriptions ?m)" "wf_dict (sm_connections ?m)"
    using Some wf_managerD(1,2) [OF wf] by (auto simp: disconnect_def Let_def wf_dict_dset wf_dict_dpop split: option.split)
  have "wf_manager ?m \<and> in_sync loads ?m V f"
  proof (rule shrink_effect [OF wf s dict h(2)])
    show "distinct (listed ?m j)" for j using wf_managerD(5) [OF wf, of j] here there by (cases "j = ?i") simp_all
    show "j \<in> set (listed m i) \<and> sm_heap ?m j = sm_heap m j" if j: "j \<in> set (listed ?m i)" for i j
    proof (cases "i = ?i")
      case True
      then show ?thesis using j here h(1) wf_managerD(5) [OF wf, of ?i] by (simp add: set_remove1_eq)
    next
      case False
      then have "j \<in> set (listed m i)" using j there by simp
      moreover have "j \<noteq> k" using wf_managerD(6) [OF wf calculation] Some False by (auto simp: conn_ok_def)
      ultimately show ?thesis using h(1) by simp
    qed
    show "\<exists>c0. sm_heap m j = Some c0 \<and> (x = c0 \<or> x = close_connection c0)" if "sm_heap ?m j = Some x" for j x
      using that Some h(1) by (auto split: if_splits)
    show "dget (sm_subscriptions m) i = Some x \<and> dget (sm_connections ?m) i \<noteq> None"
      if x: "dget (sm_subscriptions ?m) i = Some x" for i x
    proof -
      have m: "dget (sm_subscriptions m) i = Some x" using x sub by (auto split: if_splits)
      moreover have "dget (sm_connections ?m) i \<noteq> None"
        using wf_managerD(4) [OF wf m] con [of i] gone x by (metis dget_dpop option.distinct(1))
      ultimately show ?thesis by blast
    qed
  qed
  moreover have "dget (sm_subscriptions m) i = Some x" if "dget (sm_subscriptions ?m) i = Some x" for i x
    using that sub by (auto split: if_splits)
  ultimately show ?thesis by blast
qed
lemma replay_sync:
  assumes "\<forall>r \<in> set rs. F (res_id r) = Some (body_text (body r))"
  shows "replay v (map sync_event rs) i = (if i \<in> res_id ` set rs then F i else v i)"
  using assms
proof (induction rs arbitrary: v)
  case (Cons r rs)
  then show ?case by (auto simp: sync_event_def)
qed simp

lemma iter_extant_iff:
  assumes "wf_buckets st"
  shows "r \<in> set (iter_extant st rt) \<longleftrightarrow> look st (res_id r) = Some r \<and> resource_type r = rt \<and> extant r"
proof -
  have d: "wf_dict (by_type st rt)" using assms by (simp add: wf_buckets_def)
  have "r \<in> set (map snd (by_type st rt)) \<longleftrightarrow> dget (by_type st rt) (res_id r) = Some r"
    using dget_in_set [OF d] wf_bucketsD(2) [OF assms] by (auto simp: image_iff) (metis snd_conv)+
  then show ?thesis
    using bucket_eq [OF assms, of rt "res_id r"] by (auto simp: iter_extant_def split: option.splits if_splits)
qed

lemma matching_readable:
  assumes "\<And>r. r \<in> set rs \<Longrightarrow> \<exists>d. body_data loads (body r) = Inr d"
  shows "matching loads s rs = Inr (filter (\<lambda>r. wants loads s (body r)) rs)"
  using assms
proof (induction rs)
  case (Cons r rs)
  obtain d where d: "body_data loads (body r) = Inr d" using Cons.prems [of r] by auto
  have "matching loads s rs = Inr (filter (\<lambda>r. wants loads s (body r)) rs)" using Cons.prems by (intro Cons.IH) simp
  then show ?case using d by (simp add: wants_def)
qed simp

lemma sync_burst:
  assumes wf: "wf_buckets st" and ok: "readable loads (shown st)"
  shows "\<exists>rs. matching_resources loads st s = Inr rs \<and>
    replay Map.empty (map sync_event rs) = wanted loads s (shown st)"
proof -
  let ?rs = "filter (\<lambda>r. wants loads s (body r)) (iter_extant st (sub_type s))"
  have sh: "shown st (res_id r) = Some (sub_type s, body r)" if "r \<in> set (iter_extant st (sub_type s))" for r
    using that iter_extant_iff [OF wf] by (auto simp: shown_def)
  have m: "matching_resources loads st s = Inr ?rs"
    unfolding matching_resources_def 
    by (rule matching_readable) (use sh ok [unfolded readable_def] in blast)
  have eq: "wanted loads s (shown st) (res_id r) = Some (body_text (body r))" if "r \<in> set ?rs" for r
    using that sh by (auto simp: wanted_def)
  have none: "wanted loads s (shown st) i = None" if "i \<notin> res_id ` set ?rs" for i
  proof (rule ccontr)
    assume "wanted loads s (shown st) i \<noteq> None"
    then obtain r where r: "look st i = Some r" "extant r" "resource_type r = sub_type s" "wants loads s (body r)"
      by (auto simp: wanted_def shown_def split: option.splits if_splits)
    then have "r \<in> set ?rs" "res_id r = i" using look_id [OF wf r(1)] iter_extant_iff [OF wf] by auto
    with that show False by blast
  qed
  have "replay Map.empty (map sync_event ?rs) i = wanted loads s (shown st) i" for i
    using replay_sync [of ?rs "wanted loads s (shown st)" Map.empty i] eq none [of i] by auto
  with m show ?thesis by blast
qed

lemma connect_effect:
  assumes wf: "wf_manager m" and s: "in_sync loads m V (shown st)"
    and st: "wf_buckets st" "readable loads (shown st)"
    and cur: "dget (sm_subscriptions m) (sub_id s) \<in> {None, Some s}"
  shows "\<exists>m'. connect loads st m s = (m', Inr (sm_next m)) \<and> wf_manager m' \<and>
    in_sync loads m' (V(sm_next m := Map.empty)) (shown st) \<and> sm_subscriptions m' = sm_subscriptions m \<and>
    set (dkeys (sm_connections m')) = insert (sub_id s) (set (dkeys (sm_connections m)))"
proof -
  let ?k = "sm_next m" and ?i = "sub_id s"
  obtain rs where rs: "matching_resources loads st s = Inr rs"
      "replay Map.empty (map sync_event rs) = wanted loads s (shown st)" using sync_burst [OF st] by blast
  let ?c = "enqueue_all (new_connection s) (map sync_event rs)"
  note e = enqueue_all_effect [OF wf_new_connection, of s "map sync_event rs"]
  have c: "wf_connection ?c" "buffered Map.empty ?c = wanted loads s (shown st)" "co_subscription ?c = s" "\<not> co_closed ?c"
    using e rs(2) by (simp_all add: new_connection_def buffered_def)
  let ?m1 = "m\<lparr>sm_connections := dset ?i (listed m ?i @ [?k]) (sm_connections m),
               sm_heap := (sm_heap m)(?k \<mapsto> new_connection s), sm_next := Suc ?k\<rparr>"
  let ?m = "on_connection ?k (\<lambda>c. enqueue_all c (map sync_event rs)) ?m1"
  have run: "connect loads st m s = (?m, Inr ?k)"
    by (simp add: connect_def Let_def rs(1) listed_def)
  have h: "sm_heap ?m = (sm_heap m)(?k \<mapsto> ?c)" by (simp add: fun_eq_iff)
  have l: "listed ?m j = (if j = ?i then listed m ?i @ [?k] else listed m j)" for j by (simp add: listed_def)
  have new: "j < ?k" if "j \<in> set (listed m i)" for i j
    using wf_managerD(6) [OF wf that] wf_managerD(7) [OF wf] by (auto simp: conn_ok_def)
  have ck: "conn_ok ?m i j" if j: "j \<in> set (listed ?m i)" for i j
  proof (cases "j = ?k")
    case True
    then have "i = ?i" using j new [of j] by (auto simp: l split: if_splits)
    then show ?thesis using True c cur unfolding conn_ok_def h by auto
  next
    case False
    then have "j \<in> set (listed m i)" using j by (auto simp: l split: if_splits)
    then show ?thesis using wf_managerD(6) [OF wf] False unfolding conn_ok_def h by auto
  qed
  have dl: "distinct (listed ?m i)" for i using wf_managerD(5) [OF wf] new [of ?k] by (auto simp: l)
  have hp: "j < sm_next ?m \<and> wf_connection x" if "sm_heap ?m j = Some x" for j x
    using that wf_managerD(7,8) [OF wf, of j] c(1) unfolding h by (auto simp: less_Suc_eq split: if_splits)
  have id: "sub_id x = i \<and> dget (sm_connections ?m) i \<noteq> None" if "dget (sm_subscriptions ?m) i = Some x" for i x
    using that wf_managerD(3,4) [OF wf, of i x] by simp
  have w: "wf_manager ?m"
  proof (rule wf_managerI)
    show "wf_dict (sm_subscriptions ?m)" "wf_dict (sm_connections ?m)"
      using wf_managerD(1,2) [OF wf] by (simp_all add: wf_dict_dset)
  qed (fact id dl ck hp)+
  have y: "in_sync loads ?m (V(?k := Map.empty)) (shown st)"
    unfolding in_sync_def synced_def
  proof (intro allI impI)
    fix i j x assume a: "dget (sm_subscriptions ?m) i \<noteq> None" "j \<in> set (listed ?m i)" "sm_heap ?m j = Some x"
    have t: "targets loads ?m (shown st) i = targets loads m (shown st) i" by (simp add: targets_def)
    show "buffered ((V(?k := Map.empty)) j) x = targets loads ?m (shown st) i"
    proof (cases "j = ?k")
      case True
      then have "i = ?i" using a(2) new [of j] by (auto simp: l split: if_splits)
      then show ?thesis using True a(1,3) c(2) cur unfolding h by (auto simp: targets_def)
    next
      case False
      then have "j \<in> set (listed m i)" "sm_heap m j = Some x" using a(2,3) unfolding h by (auto simp: l split: if_splits)
      then show ?thesis using s a(1) False unfolding in_sync_def synced_def t by simp
    qed
  qed
  have k: "set (dkeys (sm_connections ?m)) = insert ?i (set (dkeys (sm_connections m)))"
    using set_dkeys_dset [of ?i "listed m ?i @ [?k]" "sm_connections m"] by (simp only: on_connection_frame) simp
  show ?thesis using run w y k by auto
qed
subsection \<open>Changes to the store, described by their events\<close>

text \<open>
  One fact for every way the store changes: the events the change reports follow it, and every
  view on the way shows bodies that parse.
\<close>

definition described :: "json_loads \<Rightarrow> RegistryStore \<Rightarrow> ResourceEvent list \<Rightarrow> RegistryStore \<Rightarrow> bool" where
  "described loads st evs st' \<longleftrightarrow>
     follows (shown st) evs (shown st') \<and> all_readable loads (shown st) evs \<and> readable loads (shown st')"

lemma all_readable_last: "follows f evs g \<Longrightarrow> all_readable loads f evs \<Longrightarrow> readable loads g"
  by (induction evs arbitrary: f) auto

lemma described_quiet: "shown st' = shown st \<Longrightarrow> readable loads (shown st) \<Longrightarrow> described loads st [] st'"
  by (simp add: described_def)

lemma all_readable_append:
  "follows f xs g \<Longrightarrow> all_readable loads f xs \<Longrightarrow> all_readable loads g ys \<Longrightarrow> all_readable loads f (xs @ ys)"
  by (induction xs arbitrary: f) auto

lemma described_append:
  "described loads a xs b \<Longrightarrow> described loads b ys c \<Longrightarrow> described loads a (xs @ ys) c"
  by (auto simp: described_def intro: follows_append all_readable_append)

lemma described_removals:
  assumes "follows (shown st) evs (shown st')" and "readable loads (shown st)" and "\<forall>e \<in> set evs. ev_post e = None"
  shows "described loads st evs st'"
  using assms readable_removals all_readable_last unfolding described_def by blast

lemma committed_described:
  assumes wf: "wf_store st" and ok: "prepared_ok st p" and rd: "readable loads (shown st)"
    and b: "body_data loads b = Inr raw" and run: "apply_committed hn tn st p b ca ua ha = (st', res)"
  shows "wf_store st' \<and> rr_ok res \<and> described loads st (rr_events res) st'"
proof -
  note e = apply_committed_effect [OF wf ok run]
  let ?i = "pr_id p"
  obtain r where r: "look st' = (look st)(?i \<mapsto> r)" "resource_type r = pr_type p" "res_id r = ?i" "body r = b" "extant r"
    using e by (auto simp: registered_def)
  have ev: "rr_events res = [case look st ?i of
      Some x \<Rightarrow> if extant x then ev_modified (body x) (the (look st' ?i)) else ev_added (the (look st' ?i))
    | None \<Rightarrow> ev_added (the (look st' ?i))]" using e by blast
  moreover have "the (look st' ?i) = r" by (simp add: r(1))
  ultimately have ev: "rr_events res = [case look st ?i of
      Some x \<Rightarrow> if extant x then ev_modified (body x) r else ev_added r | None \<Rightarrow> ev_added r]"
    by (simp only:)
  have sh: "shown st' = (shown st)(?i \<mapsto> (pr_type p, b))"
    using r by (auto simp: shown_def fun_eq_iff)
  have rd': "readable loads (shown st')" using rd b unfolding sh readable_def by auto
  have ty: "resource_type x = pr_type p" if "look st ?i = Some x" for x
    using that prepared_prev [OF wf_storeD(1) [OF wf] ok] wf_bucketsD(1) [OF wf_storeD(2) [OF wf]] by metis
  have "described loads st (rr_events res) st'"
  proof (cases "\<exists>x. look st ?i = Some x \<and> extant x")
    case True
    then obtain x where x: "look st ?i = Some x" "extant x" by blast
    then have "rr_events res = [ev_modified (body x) r]" using ev by simp
    moreover have "shown st ?i = Some (pr_type p, body x)" using x ty by (simp add: shown_def)
    ultimately show ?thesis using r rd rd' sh by (simp add: described_def ev_modified_def)
  next
    case False
    then have "rr_events res = [ev_added r]" using ev by (auto split: option.splits)
    moreover have "shown st ?i = None" using False by (auto simp: shown_def split: option.split)
    ultimately show ?thesis using r rd rd' sh by (simp add: described_def ev_added_def)
  qed
  moreover have "wf_store st'" "rr_error res = None" using e by blast+
  ultimately show ?thesis by (simp add: rr_ok_def)
qed

lemma register_described:
  assumes wf: "wf_store st" and rd: "readable loads (shown st)"
    and run: "insert_or_update loads hn tn st rt b = Inr (st', res)"
  shows "wf_store st' \<and> (if rr_ok res then described loads st (rr_events res) st' else st' = st)"
  using insert_or_update_effect [OF wf run]
proof
  assume "\<exists>p raw. body_data loads b = Inr raw \<and> prepare st rt raw = Inr (Inr p) \<and>
      apply_committed hn tn st p b None None None = (st', res)"
  then obtain p raw where p: "body_data loads b = Inr raw" "prepare st rt raw = Inr (Inr p)"
      "apply_committed hn tn st p b None None None = (st', res)" by blast
  show ?thesis
    using committed_described [OF wf prepare_prepared_ok [OF wf_storeD(1) [OF wf] p(2)] rd p(1,3)] by simp
qed (use wf in \<open>auto simp: rr_ok_def\<close>)

lemma delete_described:
  assumes wf: "wf_store st" and rd: "readable loads (shown st)"
    and run: "delete_resource hn st rt i = Inr (st', Some evs)"
  shows "wf_store st' \<and> described loads st evs st' \<and> described loads st (ordered_events evs) st'"
proof -
  obtain r where g: "get_resource st rt i False = Some r" using run by (auto simp: delete_resource_def split: option.splits)
  then have r: "look st i = Some r" "extant r" using get_resource_look [OF wf_storeD(2) [OF wf]] by blast+
  have i: "res_id r = i" by (rule look_id [OF wf_storeD(2) [OF wf] r(1)])
  obtain rs where rs: "walked st rs {i}"
      "erase_subtree recursion_limit hn st r = Inr (update_all (\<lambda>i. retire (hn i)) st rs, map ev_removed rs)"
      "wf_store (update_all (\<lambda>i. retire (hn i)) st rs)"
    using erase_subtree_effect [OF wf, of r hn] r i by auto
  have st': "st' = update_all (\<lambda>i. retire (hn i)) st rs" and evs: "evs = map ev_removed rs"
    using run g rs(2) by (auto simp: delete_resource_def)
  have "distinct (map ev_id evs)" using rs(1) by (simp add: evs walked_def comp_def)
  moreover have "mset (map ev_id (ordered_events evs)) = mset (map ev_id evs)" by (simp add: ordered_events_def)
  ultimately have d: "distinct (map ev_id evs)" "distinct (map ev_id (ordered_events evs))"
    by (metis mset_eq_imp_distinct_iff)+
  have s: "set evs = ev_removed ` set rs" "set (ordered_events evs) = ev_removed ` set rs"
    by (simp_all add: evs ordered_events_def)
  have none: "\<forall>e \<in> ev_removed ` set rs. ev_post e = None" by simp
  show ?thesis
    using erase_follows [OF wf rs(1) s(1) d(1)] erase_follows [OF wf rs(1) s(2) d(2)] rs(3) rd none
    unfolding st' by (auto intro!: described_removals simp: s)
qed

lemma erase_only_removes:
  "erase_subtree d hn st r = Inr (st', evs) \<Longrightarrow> \<forall>e \<in> set evs. ev_post e = None"
  "erase_children d hn st cs = Inr (st', evs) \<Longrightarrow> \<forall>e \<in> set evs. ev_post e = None"
proof (induction d hn st r and d hn st cs arbitrary: st' evs and st' evs rule: erase_subtree_erase_children.induct)
  case (4 d hn st c cs)
  show ?case
  proof (cases "find_any st c")
    case None
    then show ?thesis using "4.IH"(1) "4.prems" by simp
  next
    case (Some child)
    then obtain s1 e1 s2 e2 where r: "erase_subtree d hn st child = Inr (s1, e1)" "erase_children d hn s1 cs = Inr (s2, e2)"
        "evs = e1 @ e2" using "4.prems" by (auto simp: bind_res_eq_Inr)
    then show ?thesis using "4.IH"(2,3) Some by auto
  qed
qed (auto simp: bind_res_eq_Inr)

lemma expire_only_removes:
  "expire_nodes hn before st ids = Inr (st', evs) \<Longrightarrow> \<forall>e \<in> set evs. ev_post e = None"
proof (induction hn before st ids arbitrary: st' evs rule: expire_nodes.induct)
  case (2 hn before st i ids)
  show ?case
  proof (cases "dget (by_type st NODE) i")
    case None
    then show ?thesis using "2.IH"(1) "2.prems" by simp
  next
    case (Some node)
    show ?thesis
    proof (cases "health node < before")
      case True
      then obtain s1 e1 s2 e2 where r: "erase_subtree recursion_limit hn st node = Inr (s1, e1)"
          "expire_nodes hn before s1 ids = Inr (s2, e2)" "evs = e1 @ e2"
        using "2.prems" Some by (auto simp: bind_res_eq_Inr)
      then show ?thesis using "2.IH"(2) [OF Some True r(2)] erase_only_removes(1) [OF r(1)] by auto
    next
      case False
      then show ?thesis using "2.IH"(3) [OF Some] "2.prems" Some by simp
    qed
  qed
qed simp

lemma garbage_described:
  assumes wf: "wf_store st" and rd: "readable loads (shown st)" and run: "collect_garbage hn now st = Inr (st', evs)"
  shows "wf_store st' \<and> described loads st evs st'"
proof -
  have e: "wf_store st'" "follows (shown st) evs (shown st')" using collect_garbage_effect [OF wf, of hn now] run by auto
  obtain s where "expire_nodes hn (now - trunc (gc_interval st)) st (map res_id (iter_extant st NODE)) = Inr (s, evs)"
    using run by (auto simp: collect_garbage_def bind_res_eq_Inr)
  then show ?thesis using e(1) described_removals [OF e(2) rd] expire_only_removes by blast
qed

lemma heartbeat_described:
  assumes wf: "wf_store st" and rd: "readable loads (shown st)" and run: "heartbeat h st i = Inr (st', out)"
  shows "wf_store st' \<and> described loads st [] st'"
proof (cases "get_resource st NODE i False")
  case None
  then show ?thesis using run wf rd by (simp add: heartbeat_def described_quiet)
next
  case (Some r)
  then have "wf_store st'" and lk: "\<And>j. look st' j = (if desc (look st) j i then map_option (\<lambda>x. x\<lparr>health := h\<rparr>) (look st j) else look st j)"
    using heartbeat_effect [OF wf Some, of h] run by auto
  moreover have "shown st' = shown st" by (rule ext) (auto simp: shown_def lk split: option.split)
  ultimately show ?thesis using rd by (simp add: described_quiet)
qed

text \<open>An entry of the replicated log, and a run of them.\<close>

lemma forget_each_shown: "wf_store st \<Longrightarrow> shown (fst (forget_each st vs)) = shown st"
proof (induction st vs rule: forget_each.induct)
  case (2 st rt i vs)
  obtain s was where f: "forget st rt i = (s, was)" by fastforce
  note e = forget_effect [OF "2.prems" f]
  have "shown s = shown st" using e by (auto simp: shown_def fun_eq_iff)
  moreover have "shown (fst (forget_each s vs)) = shown s" using "2.IH" [OF f [symmetric] refl] e by blast
  ultimately show ?case using f by (simp add: split_beta)
qed simp

lemma apply_one_described:
  assumes wf: "wf_machine m" and rd: "readable loads (shown (ma_store m))"
    and run: "apply_one loads hn m e = Inr (m', out, evs)"
  shows "wf_machine m' \<and> described loads (ma_store m) evs (ma_store m')"
proof
  show "wf_machine m'" using apply_one_refines [OF wf, of loads e hn] run unfolding refines_step_def by blast
  have ws: "wf_store (ma_store m)" using wf by (simp add: wf_machine_def)
  have removal: "described loads (ma_store m) evs (ma_store m')"
    if c: "capture_subtree m rt i = Inr m1" and d: "delete_resource hn (ma_store m1) rt i = Inr (st, removed)"
      and m': "m' = m1\<lparr>ma_store := st\<rparr>" and ev: "(case removed of None \<Rightarrow> [] | Some xs \<Rightarrow> ordered_events xs) = evs"
    for rt i m1 st removed
  proof -
    have m1: "ma_store m1 = ma_store m" using capture_subtree_same [OF c] by (simp add: same_but_capture_def)
    show ?thesis
    proof (cases removed)
      case None
      then have "st = ma_store m" using d m1 by (auto simp: delete_resource_def bind_res_eq_Inr split: option.splits)
      then show ?thesis using None m' ev rd by (simp add: described_quiet)
    next
      case (Some xs)
      then show ?thesis using delete_described [OF ws rd, of hn rt i st xs] d m1 m' ev by simp
    qed
  qed
  show "described loads (ma_store m) evs (ma_store m')"
  proof (cases "e_value e")
    case (RegisterOp p rt i n b c u h x w)
    have "(apply_register loads m (e_value e) (e_index e)) = Inr (m', the out, evs)"
      using run RegisterOp by (auto simp: apply_one_def bind_res_eq_Inr)
    then obtain raw q where q: "loads (op_text (e_value e)) = Inr raw"
        "prepare (ma_store m) (op_type (e_value e)) raw = Inr q"
        "(case q of Inl refused \<Rightarrow> Inr (m, Registered refused, [])
          | Inr prepared \<Rightarrow> bind_res (capture_before_mutating (claimed m (e_value e) (e_index e)) (op_type (e_value e)) (op_resource (e_value e)))
             (\<lambda>m2. commit_register m2 (e_value e) prepared)) = (Inr (m', the out, evs) :: (StateMachine \<times> Outcome \<times> ResourceEvent list) res)"
      unfolding apply_register_unfold by (auto simp: bind_res_eq_Inr)
    show ?thesis
    proof (cases q)
      case (Inl refused)
      then show ?thesis using q(3) rd by (simp add: described_quiet)
    next
      case (Inr prepared)
      then obtain m2 where m2: "capture_before_mutating (claimed m (e_value e) (e_index e)) (op_type (e_value e)) (op_resource (e_value e)) = Inr m2"
          "commit_register m2 (e_value e) prepared = Inr (m', the out, evs)" using q(3) by (auto simp: bind_res_eq_Inr)
      have st2: "ma_store m2 = ma_store m"
        using capture_before_same [OF m2(1)] claimed_facts(2) [OF wf] by (simp add: same_but_capture_def)
      have ok: "prepared_ok (ma_store m) prepared"
        using prepare_prepared_ok [OF wf_storeD(1) [OF ws]] q(2) Inr by blast
      let ?b = "\<lparr>body_text = op_text (e_value e), parsed = None\<rparr>"
      obtain st' res where c: "apply_committed 0 cursor_min (ma_store m) prepared ?b
          (Some (if creates prepared then op_updated (e_value e) else op_created (e_value e)))
          (Some (op_updated (e_value e))) (Some (op_health (e_value e))) = (st', res)" by fastforce
      have "body_data loads ?b = Inr raw" by (simp add: body_data_def q(1))
      from committed_described [OF ws ok rd this c] show ?thesis
        using m2(2) c st2 by (auto simp: commit_register_def)
    qed
  next
    case (UnregisterOp p rt i)
    then obtain m1 st removed where r: "capture_subtree m rt i = Inr m1"
        "delete_resource hn (ma_store m1) rt i = Inr (st, removed)" "m' = m1\<lparr>ma_store := st\<rparr>"
        "(case removed of None \<Rightarrow> [] | Some xs \<Rightarrow> ordered_events xs) = evs"
      using run unfolding apply_one_def apply_unregister_def
      by (force simp: bind_res_eq_Inr split: option.splits)
    then show ?thesis by (rule removal)
  next
    case (ExpireOp p n)
    then obtain m1 st removed where r: "capture_subtree m NODE n = Inr m1"
        "delete_resource hn (ma_store m1) NODE n = Inr (st, removed)" "m' = m1\<lparr>ma_store := st\<rparr>"
        "(case removed of None \<Rightarrow> [] | Some xs \<Rightarrow> ordered_events xs) = evs"
      using run unfolding apply_one_def apply_expire_def
      by (force simp: bind_res_eq_Inr split: option.splits)
    then show ?thesis by (rule removal)
  next
    case (ForgetOp p vs)
    then obtain m1 where m1: "capture_victims m vs = Inr m1" "m' = m1\<lparr>ma_store := fst (forget_each (ma_store m1) vs)\<rparr>" "evs = []"
      using run by (auto simp: apply_one_def apply_forget_def bind_res_eq_Inr split_beta)
    then have "ma_store m1 = ma_store m" using capture_victims_same by (simp add: same_but_capture_def)
    then show ?thesis using forget_each_shown [OF ws, of vs] m1 rd by (simp add: described_quiet)
  qed (use run rd in \<open>auto simp: apply_one_def Let_def split_beta described_quiet\<close>)
qed

lemma apply_loop_described:
  assumes "wf_machine m" and "described loads st0 evs (ma_store m)"
    and "apply_loop loads clock m outs evs es = Inr (m', outs', evs')"
  shows "wf_machine m' \<and> described loads st0 evs' (ma_store m')"
  using assms
proof (induction loads clock m outs evs es rule: apply_loop.induct)
  case (2 loads clock m outs evs e es)
  show ?case
  proof (cases "e_index e \<le> ma_last_applied m")
    case True
    then show ?thesis using "2.IH"(1) "2.prems" by simp
  next
    case False
    then obtain m1 out ev1 where one: "apply_one loads (clock (e_index e)) m e = Inr (m1, out, ev1)"
        "apply_loop loads clock (m1\<lparr>ma_last_applied := e_index e\<rparr>)
           (case out of None \<Rightarrow> outs | Some r \<Rightarrow> dset (op_proposal (e_value e)) r outs) (evs @ ev1) es = Inr (m', outs', evs')"
      using "2.prems"(3) by (auto simp: bind_res_eq_Inr)
    have rd: "readable loads (shown (ma_store m))" using "2.prems"(2) by (simp add: described_def)
    note d = apply_one_described [OF "2.prems"(1) rd one(1)]
    have "wf_machine (m1\<lparr>ma_last_applied := e_index e\<rparr>)" using d by (simp add: wf_machine_def)
    moreover have "described loads st0 (evs @ ev1) (ma_store (m1\<lparr>ma_last_applied := e_index e\<rparr>))"
      using described_append [OF "2.prems"(2)] d by simp
    ultimately show ?thesis using "2.IH"(2) [OF False] one(2) by blast
  qed
qed simp

end
