(* ===== verification/Subscription_World.thy ===== *)
theory Subscription_World
  imports Subscription_Sync
begin

section \<open>Subscribers stay in step with the registry\<close>

text \<open>
  The registry, its subscriptions and its WebSocket clients as one transition system. A step is
  one uninterrupted run of the event loop: a mutation with its publication, a batch of committed
  entries applied with its publication, a subscription request, or a step of a WebSocket handler.
  \<open>wo_opening\<close> are the subscriptions of handlers that await their upgrade, \<open>wo_issued\<close> the
  ids handed out (\<open>uuid4\<close> does not repeat itself), \<open>wo_view\<close> what each client has put together
  from the grains sent on its connection.
\<close>

record World =
  wo_registry :: Registry
  wo_opening :: "Subscription list"
  wo_issued :: "pystr set"
  wo_view :: "nat \<Rightarrow> picture"

definition first_world :: "real \<Rightarrow> real \<Rightarrow> pystr \<Rightarrow> World" where
  "first_world gc fi q =
     \<lparr>wo_registry = attach_subscriptions (new_registry (new_store gc fi) q) new_manager,
      wo_opening = [], wo_issued = {}, wo_view = (\<lambda>_. Map.empty)\<rparr>"

abbreviation wo_store :: "World \<Rightarrow> RegistryStore" where
  "wo_store w \<equiv> rg_store (wo_registry w)"

abbreviation wo_manager :: "World \<Rightarrow> SubscriptionManager" where
  "wo_manager w \<equiv> the (rg_subscriptions (wo_registry w))"

definition put_manager :: "World \<Rightarrow> SubscriptionManager \<Rightarrow> World" where
  "put_manager w m = w\<lparr>wo_registry := (wo_registry w)\<lparr>rg_subscriptions := Some m\<rparr>\<rparr>"

inductive world_step :: "json_loads \<Rightarrow> World \<Rightarrow> World \<Rightarrow> bool" for loads where
  registered: "reg_register loads hn tn (wo_registry w) rt b = (rg, out) \<Longrightarrow>
    world_step loads w (w\<lparr>wo_registry := rg\<rparr>)"
| unregistered: "reg_unregister loads clock (wo_registry w) rt i = (rg, done1) \<Longrightarrow>
    world_step loads w (w\<lparr>wo_registry := rg\<rparr>)"
| collected: "reg_collect_garbage loads clock now (wo_registry w) = (rg, n) \<Longrightarrow>
    world_step loads w (w\<lparr>wo_registry := rg\<rparr>)"
| beaten: "reg_heartbeat hn (wo_registry w) i = (rg, h) \<Longrightarrow>
    world_step loads w (w\<lparr>wo_registry := rg\<rparr>)"
| applied: "ma_store ma = wo_store w \<Longrightarrow> wf_machine ma \<Longrightarrow>
    apply_entries loads clocks ma es = Inr (ma', outs, evs) \<Longrightarrow>
    reg_publish loads ((wo_registry w)\<lparr>rg_store := ma_store ma'\<rparr>) (case evs of None \<Rightarrow> [] | Some xs \<Rightarrow> xs) = (rg, r) \<Longrightarrow>
    world_step loads w (w\<lparr>wo_registry := rg\<rparr>)"
| requested: "uid \<notin> wo_issued w \<Longrightarrow> create_or_match uid now (wo_manager w) q = Inr (m, s, new) \<Longrightarrow>
    world_step loads w ((put_manager w m)\<lparr>wo_issued := insert uid (wo_issued w)\<rparr>)"
| dropped: "handle_delete_subscription (wo_manager w) i = (m, status) \<Longrightarrow>
    world_step loads w (put_manager w m)"
| opened: "ws_open (wo_manager w) i = Some s \<Longrightarrow>
    world_step loads w (w\<lparr>wo_opening := s # wo_opening w\<rparr>)"
| attached: "s \<in> set (wo_opening w) \<Longrightarrow> ws_attach loads (wo_store w) (wo_manager w) s = (m, Inr k) \<Longrightarrow>
    world_step loads w ((put_manager w m)\<lparr>wo_opening := remove1 s (wo_opening w), wo_view := (wo_view w)(k := Map.empty)\<rparr>)"
| gave_up: "s \<in> set (wo_opening w) \<Longrightarrow>
    world_step loads w (w\<lparr>wo_opening := remove1 s (wo_opening w)\<rparr>)"
| sent: "sm_heap (wo_manager w) k = Some c \<Longrightarrow> co_wake c \<Longrightarrow>
    ws_turn (rg_query_id (wo_registry w)) now (wo_manager w) k = (m, grain) \<Longrightarrow>
    world_step loads w ((put_manager w m)\<lparr>wo_view := (wo_view w)
      (k := (case grain of None \<Rightarrow> wo_view w k | Some g \<Rightarrow> receive_grain (wo_view w k) (gp_data g)))\<rparr>)"
| finished: "world_step loads w (put_manager w (ws_finish (wo_manager w) k))"

subsection \<open>The invariant\<close>

definition sm_ids :: "SubscriptionManager \<Rightarrow> pystr set" where
  "sm_ids m = set (dkeys (sm_subscriptions m)) \<union> set (dkeys (sm_connections m))"

definition world_inv :: "json_loads \<Rightarrow> World \<Rightarrow> bool" where
  "world_inv loads w \<longleftrightarrow>
     wf_store (wo_store w) \<and> readable loads (shown (wo_store w)) \<and>
     (\<exists>m. rg_subscriptions (wo_registry w) = Some m \<and> wf_manager m \<and> in_sync loads m (wo_view w) (shown (wo_store w)) \<and>
        sm_ids m \<subseteq> wo_issued w \<and>
        (\<forall>s \<in> set (wo_opening w). sub_id s \<in> wo_issued w \<and> dget (sm_subscriptions m) (sub_id s) \<in> {None, Some s}))"

lemma world_invD:
  assumes "world_inv loads w"
  shows "wf_store (wo_store w)" "readable loads (shown (wo_store w))" "rg_subscriptions (wo_registry w) = Some (wo_manager w)"
    "wf_manager (wo_manager w)" "in_sync loads (wo_manager w) (wo_view w) (shown (wo_store w))"
    "sm_ids (wo_manager w) \<subseteq> wo_issued w"
    "s \<in> set (wo_opening w) \<Longrightarrow> sub_id s \<in> wo_issued w \<and> dget (sm_subscriptions (wo_manager w)) (sub_id s) \<in> {None, Some s}"
  using assms unfolding world_inv_def by auto

lemma first_world_inv: "world_inv loads (first_world gc fi q)"
proof -
  have "shown (new_store gc fi) = Map.empty" by (simp add: shown_def look_new_store fun_eq_iff)
  then show ?thesis
    using wf_new_manager
    by (auto simp: world_inv_def first_world_def attach_subscriptions_def new_registry_def wf_new_store
        readable_def in_sync_def synced_def new_manager_def sm_ids_def)
qed

text \<open>A change of the store with the publication of its events.\<close>

lemma publication_inv:
  assumes inv: "world_inv loads w" and wf: "wf_store st" and d: "described loads (wo_store w) evs st"
    and run: "reg_publish loads ((wo_registry w)\<lparr>rg_store := st\<rparr>) evs = (rg, r)"
  shows "world_inv loads (w\<lparr>wo_registry := rg\<rparr>) \<and> r = Inr ()"
proof -
  note i = world_invD [OF inv]
  obtain m where m: "rg_subscriptions (wo_registry w) = Some m" using i(3) by blast
  have d': "follows (shown (wo_store w)) evs (shown st)" "all_readable loads (shown (wo_store w)) evs" "readable loads (shown st)"
    using d by (simp_all add: described_def)
  obtain m' where m': "publish loads (wo_manager w) evs = (m', None)" "same_lists (wo_manager w) m'" "wf_manager m'"
      "in_sync loads m' (wo_view w) (shown st)"
    using publish_in_sync [OF i(4,5) d'(1,2)] by blast
  have "evs = [] \<Longrightarrow> m' = wo_manager w" using m'(1) by simp
  then have g: "rg_store rg = st" "rg_subscriptions rg = Some m'" "r = Inr ()"
    using run m'(1) m by (auto simp: reg_publish_def split: if_splits)
  have "sm_ids m' = sm_ids (wo_manager w)" "sm_subscriptions m' = sm_subscriptions (wo_manager w)"
    using m'(2) by (simp_all add: same_lists_def sm_ids_def)
  then show ?thesis
    using m'(3,4) wf d'(3) i(6,7) g unfolding world_inv_def by simp
qed

text \<open>A step of the manager alone.\<close>

lemma manager_inv:
  assumes inv: "world_inv loads w" and "wf_manager m" and "in_sync loads m V (shown (wo_store w))"
    and "sm_ids m \<subseteq> iss"
    and "\<And>s. s \<in> set opn \<Longrightarrow> sub_id s \<in> iss \<and> dget (sm_subscriptions m) (sub_id s) \<in> {None, Some s}"
  shows "world_inv loads ((put_manager w m)\<lparr>wo_view := V, wo_issued := iss, wo_opening := opn\<rparr>)"
  using assms unfolding world_inv_def put_manager_def by simp

lemma world_eta:
  "(put_manager w m)\<lparr>wo_view := wo_view w, wo_issued := wo_issued w, wo_opening := wo_opening w\<rparr> = put_manager w m"
  "(put_manager w m)\<lparr>wo_view := wo_view w, wo_issued := iss, wo_opening := wo_opening w\<rparr> = (put_manager w m)\<lparr>wo_issued := iss\<rparr>"
  "(put_manager w m)\<lparr>wo_view := V, wo_issued := wo_issued w, wo_opening := opn\<rparr> = (put_manager w m)\<lparr>wo_opening := opn, wo_view := V\<rparr>"
  "(put_manager w m)\<lparr>wo_view := V, wo_issued := wo_issued w, wo_opening := wo_opening w\<rparr> = (put_manager w m)\<lparr>wo_view := V\<rparr>"
  by (simp_all add: put_manager_def)

lemma ws_turn_effect:
  assumes wf: "wf_manager m" and c: "sm_heap m k = Some c" and run: "ws_turn q now m k = (m', g)"
  shows "same_lists m m' \<and> wf_manager m' \<and>
    (in_sync loads m V f \<longrightarrow> in_sync loads m' (V(k := (case g of None \<Rightarrow> V k | Some p \<Rightarrow> receive_grain (V k) (gp_data p)))) f)"
proof (cases "co_closed c")
  case True
  then show ?thesis using c run wf by (auto simp: ws_turn_def)
next
  case False
  note d = drain_pending_effect [where c = c]
  have m': "m' = on_connection k (\<lambda>x. fst (drain_pending x)) m"
    using c run False by (auto simp: ws_turn_def on_connection_def split_beta Let_def split: if_splits)
  have v: "(case g of None \<Rightarrow> V k | Some p \<Rightarrow> receive_grain (V k) (gp_data p)) = buffered (V k) c"
    using c run False d(3) [of "V k"] by (auto simp: ws_turn_def split_beta Let_def receive_grain split: if_splits)
  have "in_sync loads m' (V(k := buffered (V k) c)) f" if s: "in_sync loads m V f"
    unfolding in_sync_def synced_def
  proof (intro allI impI)
    fix i j x assume a: "dget (sm_subscriptions m') i \<noteq> None" "j \<in> set (listed m' i)" "sm_heap m' j = Some x"
    have t: "targets loads m' f i = targets loads m f i" "listed m' i = listed m i" "sm_subscriptions m' = sm_subscriptions m"
      by (simp_all add: m' targets_def listed_def)
    show "buffered ((V(k := buffered (V k) c)) j) x = targets loads m' f i"
    proof (cases "j = k")
      case True
      then have "x = fst (drain_pending c)" using a(3) c m' by simp
      moreover have "buffered (V k) c = targets loads m f i"
        using s a(1,2) c True unfolding in_sync_def synced_def t by blast
      ultimately show ?thesis using True d(2) by (simp add: t)
    next
      case False
      then show ?thesis using s a m' unfolding in_sync_def synced_def t by simp
    qed
  qed
  then show ?thesis
    unfolding v m' using wf_on_connection [OF wf, of "\<lambda>x. fst (drain_pending x)" k] drain_pending_effect by auto
qed

lemma sm_ids_iff: "i \<in> sm_ids m \<longleftrightarrow> dget (sm_subscriptions m) i \<noteq> None \<or> dget (sm_connections m) i \<noteq> None"
  unfolding sm_ids_def dget_None_keys by blast

lemma disconnect_ids: "sm_ids (disconnect m k) \<subseteq> sm_ids m"
proof
  fix i assume "i \<in> sm_ids (disconnect m k)"
  then show "i \<in> sm_ids m"
    unfolding sm_ids_iff by (auto simp: disconnect_def Let_def split: option.splits if_splits)
qed

lemma world_step_inv:
  assumes "world_step loads w w'" and inv: "world_inv loads w"
  shows "world_inv loads w'"
proof -
  note i = world_invD [OF inv]
  have quiet: "world_inv loads (w\<lparr>wo_registry := (wo_registry w)\<lparr>rg_store := st\<rparr>\<rparr>)"
    if "wf_store st" "described loads (wo_store w) [] st" for st
    using publication_inv [OF inv that, of "(wo_registry w)\<lparr>rg_store := st\<rparr>" "Inr ()"]
    by (simp add: reg_publish_def split: option.split)
  show ?thesis
    using assms(1)
  proof cases
    case (registered hn tn rt b rg out)
    show ?thesis
    proof (cases "insert_or_update loads hn tn (wo_store w) rt b")
      case (Inl e)
      then have "w' = w" using registered by (auto simp: reg_register_def)
      then show ?thesis using inv by simp
    next
      case (Inr p)
      obtain st res where p: "p = (st, res)" by fastforce
      note d = register_described [OF i(1,2) Inr [unfolded p]]
      show ?thesis
      proof (cases "rr_ok res")
        case True
        obtain rg2 r where g: "reg_publish loads ((wo_registry w)\<lparr>rg_store := st\<rparr>) (rr_events res) = (rg2, r)" by fastforce
        then have "rg = rg2" using registered Inr p True by (simp add: reg_register_def Let_def)
        then show ?thesis using registered publication_inv [OF inv _ _ g] d True by simp
      next
        case False
        then have "w' = w" using registered Inr p d by (auto simp: reg_register_def Let_def)
        then show ?thesis using inv by simp
      qed
    qed
  next
    case (unregistered clock rt j rg flag)
    show ?thesis
    proof (cases "delete_resource clock (wo_store w) rt j")
      case (Inl e)
      then have "w' = w" using unregistered by (auto simp: reg_unregister_def)
      then show ?thesis using inv by simp
    next
      case (Inr p)
      obtain st evs where p: "p = (st, evs)" by fastforce
      show ?thesis
      proof (cases evs)
        case None
        then have "st = wo_store w" using Inr p by (auto simp: delete_resource_def bind_res_eq_Inr split: option.splits)
        then have "w' = w" using unregistered Inr p None by (auto simp: reg_unregister_def)
        then show ?thesis using inv by simp
      next
        case (Some xs)
        note d = delete_described [OF i(1,2) Inr [unfolded p Some]]
        obtain rg2 r where g: "reg_publish loads ((wo_registry w)\<lparr>rg_store := st\<rparr>) xs = (rg2, r)" by fastforce
        then have "rg = rg2" using unregistered Inr p Some by (simp add: reg_unregister_def Let_def)
        then show ?thesis using unregistered publication_inv [OF inv _ _ g] d by simp
      qed
    qed
  next
    case (collected clock now rg n)
    obtain st evs where p: "collect_garbage clock now (wo_store w) = Inr (st, evs)"
      using collect_garbage_effect [OF i(1)] by blast
    note d = garbage_described [OF i(1,2) p]
    obtain rg2 r where g: "reg_publish loads ((wo_registry w)\<lparr>rg_store := st\<rparr>) evs = (rg2, r)" by fastforce
    then have "rg = rg2" using collected p by (simp add: reg_collect_garbage_def Let_def)
    then show ?thesis using collected publication_inv [OF inv _ _ g] d by simp
  next
    case (beaten hn j rg h)
    show ?thesis
    proof (cases "heartbeat hn (wo_store w) j")
      case (Inl e)
      then have "w' = w" using beaten by (auto simp: reg_heartbeat_def)
      then show ?thesis using inv by simp
    next
      case (Inr p)
      obtain st out where p: "p = (st, out)" by fastforce
      have "rg = (wo_registry w)\<lparr>rg_store := st\<rparr>" using beaten Inr p by (auto simp: reg_heartbeat_def)
      then show ?thesis using beaten quiet heartbeat_described [OF i(1,2) Inr [unfolded p]] by simp
    qed
  next
    case (applied ma clocks es ma' outs evs rg r)
    obtain xs where xs: "apply_loop loads clocks ma [] [] es = Inr (ma', outs, xs)" "evs = (if xs = [] then None else Some xs)"
      using applied(4) by (auto simp: apply_entries_def bind_res_eq_Inr)
    have "described loads (wo_store w) [] (ma_store ma)" using i(2) applied(2) by (simp add: described_quiet)
    note d = apply_loop_described [OF applied(3) this xs(1)]
    have "(case evs of None \<Rightarrow> [] | Some xs \<Rightarrow> xs) = xs" by (simp add: xs(2))
    then show ?thesis using applied publication_inv [OF inv _ _ applied(5)] d by (simp add: wf_machine_def)
  next
    case (requested uid now q m s new)
    have f: "dget (sm_subscriptions (wo_manager w)) uid = None" "dget (sm_connections (wo_manager w)) uid = None"
      using requested(2) i(6) unfolding sm_ids_def dget_None_keys by blast+
    note c = create_effect [OF i(4,5) f requested(3)]
    have "sm_ids m \<subseteq> insert uid (sm_ids (wo_manager w))"
    proof (cases new)
      case True
      then have "sm_subscriptions m = dset uid s (sm_subscriptions (wo_manager w))"
        "sm_connections m = dset uid [] (sm_connections (wo_manager w))" using c by simp_all
      then show ?thesis unfolding sm_ids_def by (simp only: set_dkeys_dset) blast
    qed (use c in auto)
    then have "sm_ids m \<subseteq> insert uid (wo_issued w)" using i(6) by blast
    moreover have "sub_id x \<in> insert uid (wo_issued w) \<and> dget (sm_subscriptions m) (sub_id x) \<in> {None, Some x}"
      if "x \<in> set (wo_opening w)" for x
      using c i(7) [OF that] requested(2) by (auto split: if_splits)
    ultimately show ?thesis
      using requested manager_inv [OF inv, of m "wo_view w" "insert uid (wo_issued w)" "wo_opening w"] c by (simp add: world_eta)
  next
    case (dropped j m status)
    have "m = wo_manager w \<or> m = sub_delete (wo_manager w) j"
      using dropped by (auto simp: handle_delete_subscription_def split: option.splits if_splits)
    then show ?thesis
    proof
      assume "m = wo_manager w"
      then have "w' = w" using dropped i(3) by (simp add: put_manager_def)
      then show ?thesis using inv by simp
    next
      assume m: "m = sub_delete (wo_manager w) j"
      note d = delete_effect [OF i(4,5), of j]
      have "sm_ids m \<subseteq> wo_issued w" using d i(6) unfolding m by (auto simp: sm_ids_def dkeys_dpop)
      moreover have "sub_id x \<in> wo_issued w \<and> dget (sm_subscriptions m) (sub_id x) \<in> {None, Some x}"
        if "x \<in> set (wo_opening w)" for x
        using d i(7) [OF that] unfolding m by auto
      ultimately show ?thesis
        using dropped manager_inv [OF inv, of m "wo_view w" "wo_issued w" "wo_opening w"] d unfolding m by (simp add: world_eta)
    qed
  next
    case (opened j s)
    have s: "dget (sm_subscriptions (wo_manager w)) j = Some s" using opened by (simp add: ws_open_def sub_get_def)
    then have "sub_id s = j" by (rule wf_managerD(3) [OF i(4)])
    moreover have "j \<in> wo_issued w" using dget_Some_key [OF s] i(6) unfolding sm_ids_def by blast
    ultimately show ?thesis using opened inv s unfolding world_inv_def by auto
  next
    case (attached s m k)
    note cur = i(7) [OF attached(2)]
    obtain m' where m': "connect loads (wo_store w) (wo_manager w) s = (m', Inr (sm_next (wo_manager w)))" "wf_manager m'"
        "in_sync loads m' ((wo_view w)(sm_next (wo_manager w) := Map.empty)) (shown (wo_store w))"
        "sm_subscriptions m' = sm_subscriptions (wo_manager w)" "set (dkeys (sm_connections m')) = insert (sub_id s) (set (dkeys (sm_connections (wo_manager w))))"
      using connect_effect [OF i(4,5) wf_storeD(2) [OF i(1)] i(2) conjunct2 [OF cur]] by blast
    have k: "m = m'" "k = sm_next (wo_manager w)" using attached(3) m'(1) by (simp_all add: ws_attach_def)
    have "sm_ids m = insert (sub_id s) (sm_ids (wo_manager w))" unfolding k sm_ids_def m'(4,5) by blast
    then have "sm_ids m \<subseteq> wo_issued w" using i(6) cur by simp
    moreover have "sub_id x \<in> wo_issued w \<and> dget (sm_subscriptions m) (sub_id x) \<in> {None, Some x}"
      if "x \<in> set (remove1 s (wo_opening w))" for x
      using i(7) [of x] that m'(4) unfolding k by (auto dest: notin_set_remove1)
    ultimately show ?thesis
      using attached manager_inv [OF inv, of m "(wo_view w)(k := Map.empty)" "wo_issued w" "remove1 s (wo_opening w)"] m'(2,3) k
      by (simp add: world_eta)
  next
    case (gave_up s)
    then show ?thesis using inv unfolding world_inv_def by (auto dest: notin_set_remove1)
  next
    case (sent k c now m grain)
    note e = ws_turn_effect [OF i(4) sent(2,4), of loads "wo_view w" "shown (wo_store w)"]
    have "sm_ids m \<subseteq> wo_issued w" "sm_subscriptions m = sm_subscriptions (wo_manager w)"
      using e i(6) by (auto simp: same_lists_def sm_ids_def)
    then show ?thesis
      using sent manager_inv [OF inv, of m "(wo_view w)(k := (case grain of None \<Rightarrow> wo_view w k | Some g \<Rightarrow> receive_grain (wo_view w k) (gp_data g)))" "wo_issued w" "wo_opening w"] e i(5,7)
      by (simp add: world_eta(4))
  next
    case (finished k)
    note d = disconnect_effect [OF i(4,5), of k]
    have "sm_ids (disconnect (wo_manager w) k) \<subseteq> wo_issued w"
      using i(6) disconnect_ids [of "wo_manager w" k] by blast
    moreover have "sub_id x \<in> wo_issued w \<and> dget (sm_subscriptions (disconnect (wo_manager w) k)) (sub_id x) \<in> {None, Some x}"
      if "x \<in> set (wo_opening w)" for x
      using i(7) [OF that] d by (metis insertCI insertE option.exhaust singletonD)
    ultimately show ?thesis
      using finished manager_inv [OF inv, of "disconnect (wo_manager w) k" "wo_view w" "wo_issued w" "wo_opening w"] d
      by (simp add: world_eta ws_finish_def)
  qed
qed

inductive world_run :: "json_loads \<Rightarrow> World \<Rightarrow> World \<Rightarrow> bool" for loads w0 where
  stay: "world_run loads w0 w0"
| go: "world_run loads w0 w \<Longrightarrow> world_step loads w w' \<Longrightarrow> world_run loads w0 w'"

lemma world_run_inv: "world_run loads w0 w \<Longrightarrow> world_inv loads w0 \<Longrightarrow> world_inv loads w"
  by (induction rule: world_run.induct) (auto intro: world_step_inv)

lemma reached_inv: "world_run loads (first_world gc fi q) w \<Longrightarrow> world_inv loads w"
  using world_run_inv first_world_inv by blast

text \<open>A subscription to nodes, a client attached to it, and a node that registers afterwards.\<close>

definition demo_loads :: json_loads where
  "demo_loads t = Inr [(str ''id'', JStr t), (str ''version'', JStr (str ''1:2''))]"

definition demo_request :: SubscriptionRequest where
  "demo_request = \<lparr>rq_resource_path = str ''/nodes'', rq_params = [], rq_max_rate = 100, rq_persist = False,
     rq_secure = False, rq_authorization = False, rq_host = [], rq_ws_scheme = str ''ws'', rq_ws_host = []\<rparr>"

definition demo_sub :: Subscription where
  "demo_sub = \<lparr>sub_id = [7], sub_ws_href = str ''ws:///x-nmos/query/v1.3/subscriptions/'' @ [7],
     sub_resource_path = str ''/nodes'', sub_type = NODE, sub_params = [], sub_max_rate = 100, sub_persist = False,
     sub_secure = False, sub_authorization = False, sub_created = cursor_min, sub_host = []\<rparr>"

definition demo_manager :: SubscriptionManager where
  "demo_manager = \<lparr>sm_subscriptions = [([7], demo_sub)], sm_connections = [([7], [])], sm_heap = Map.empty, sm_next = 0\<rparr>"

definition demo_attached :: SubscriptionManager where
  "demo_attached = \<lparr>sm_subscriptions = [([7], demo_sub)], sm_connections = [([7], [0])],
     sm_heap = [0 \<mapsto> new_connection demo_sub], sm_next = 1\<rparr>"

lemma demo_created: "create_or_match [7] cursor_min new_manager demo_request = Inr (demo_manager, demo_sub, True)"
  by (simp add: create_or_match_def Let_def resource_type_of_def demo_request_def demo_manager_def demo_sub_def new_manager_def
      py_strip_def str_def from_plural_def resource_types_def plural_def)

lemma demo_connected: "connect demo_loads (new_store 12 60) demo_manager demo_sub = (demo_attached, Inr 0)"
  by (simp add: connect_def Let_def demo_manager_def demo_attached_def matching_resources_def iter_extant_def
      new_store_def on_connection_def fun_eq_iff demo_sub_def)

definition demo_registered :: Registry where
  "demo_registered = fst (reg_register demo_loads 5 (TaiCursor 9 0)
     (attach_subscriptions (new_registry (new_store 12 60) [1]) demo_attached) NODE \<lparr>body_text = [3], parsed = None\<rparr>)"

lemma demo_managed: "sm_subscriptions (the (rg_subscriptions demo_registered)) = [([7], demo_sub)]"
  "sm_connections (the (rg_subscriptions demo_registered)) = [([7], [0])]"
  "map_option (dkeys \<circ> co_pending) (sm_heap (the (rg_subscriptions demo_registered)) 0) = Some [[3]]"
  by code_simp+

definition demo_world :: World where
  "demo_world = \<lparr>wo_registry = demo_registered, wo_opening = [], wo_issued = {[7]}, wo_view = (\<lambda>_. Map.empty)\<rparr>"

lemma demo_run: "world_run demo_loads (first_world 12 60 [1]) demo_world"
proof -
  let ?w0 = "first_world 12 60 [1]"
  let ?w1 = "(put_manager ?w0 demo_manager)\<lparr>wo_issued := insert [7] (wo_issued ?w0)\<rparr>"
  let ?w2 = "?w1\<lparr>wo_opening := demo_sub # wo_opening ?w1\<rparr>"
  let ?w3 = "(put_manager ?w2 demo_attached)\<lparr>wo_opening := remove1 demo_sub (wo_opening ?w2), wo_view := (wo_view ?w2)(0 := Map.empty)\<rparr>"
  note defs = first_world_def attach_subscriptions_def new_registry_def put_manager_def
  have a: "world_step demo_loads ?w0 ?w1"
    by (rule requested [where uid = "[7]" and now = cursor_min and q = demo_request]) (simp_all add: demo_created defs)
  have b: "world_step demo_loads ?w1 ?w2"
    by (rule opened [where i = "[7]"]) (simp add: ws_open_def sub_get_def demo_manager_def defs)
  have c: "world_step demo_loads ?w2 ?w3"
    by (rule attached) (simp_all add: ws_attach_def demo_connected defs)
  have d: "world_step demo_loads ?w3 (?w3\<lparr>wo_registry := demo_registered\<rparr>)"
    by (rule registered [where hn = 5 and tn = "TaiCursor 9 0" and rt = NODE and b = "\<lparr>body_text = [3], parsed = None\<rparr>"])
       (simp add: demo_registered_def defs prod_eq_iff)
  have e: "?w3\<lparr>wo_registry := demo_registered\<rparr> = demo_world"
    by (simp add: defs demo_world_def fun_eq_iff)
  show ?thesis
    using world_run.go [OF world_run.go [OF world_run.go [OF world_run.go [OF world_run.stay a] b] c] d] unfolding e .
qed

subsection \<open>What subscribers are promised\<close>

text \<open>
  C4: no subscriber misses a change or sees one that is not there. In every state reached by any
  interleaving of registrations, deletions, collections, heartbeats, batches of committed
  entries, subscription requests and WebSocket steps, take a subscription that exists and a
  connection attached to it. What its client has put together from the grains it was sent,
  continued by the events still buffered, is exactly the texts of the extant resources of the
  subscription's kind that match its filters. The connection is open, and when anything is
  buffered its sender has been woken.
\<close>

theorem subscribers_in_sync:
  assumes "world_run loads (first_world gc fi q) w"
    and "dget (sm_subscriptions (wo_manager w)) i = Some s" and "k \<in> set (listed (wo_manager w) i)"
  shows "\<exists>c. sm_heap (wo_manager w) k = Some c \<and> co_subscription c = s \<and> \<not> co_closed c \<and>
    replay (wo_view w k) (map snd (co_pending c)) = wanted loads s (shown (wo_store w)) \<and>
    (co_pending c \<noteq> [] \<longrightarrow> co_wake c)"
proof -
  note inv = world_invD [OF reached_inv [OF assms(1)]]
  obtain c where c: "sm_heap (wo_manager w) k = Some c" "\<not> co_closed c" "co_subscription c = s"
    using wf_managerD(6) [OF inv(4) assms(3)] assms(2) by (auto simp: conn_ok_def)
  moreover have "buffered (wo_view w k) c = wanted loads s (shown (wo_store w))"
    using syncedD [OF inv(5) [unfolded in_sync_def] assms(2,3) c(1)] assms(2) by (simp add: targets_def)
  moreover have "wf_connection c" by (rule wf_managerD(8) [OF inv(4) c(1)])
  ultimately show ?thesis by (auto simp: buffered_def wf_connection_def)
qed

theorem subscribers_in_sync_witness:
  "\<exists>c. sm_heap (wo_manager demo_world) 0 = Some c \<and> dkeys (co_pending c) = [[3]] \<and>
     replay (wo_view demo_world 0) (map snd (co_pending c)) = wanted demo_loads demo_sub (shown (wo_store demo_world))"
  using subscribers_in_sync [OF demo_run, of "[7]" demo_sub 0] demo_managed
  by (auto simp: demo_world_def listed_def)

text \<open>
  C13: one turn of the sender brings the client up to date. The turn sends a grain exactly when
  something is buffered, the grain is never empty, its entries carry the client to exactly the
  matching extant resources, and the buffer is empty afterwards.
\<close>

theorem sender_turn_catches_up:
  assumes "world_run loads (first_world gc fi q) w"
    and "dget (sm_subscriptions (wo_manager w)) i = Some s" and "k \<in> set (listed (wo_manager w) i)"
  shows "\<exists>c c' m. sm_heap (wo_manager w) k = Some c \<and> sm_heap m k = Some c' \<and> co_pending c' = [] \<and> \<not> co_wake c' \<and>
    (if co_pending c = []
     then ws_turn query now (wo_manager w) k = (m, None) \<and> wo_view w k = wanted loads s (shown (wo_store w))
     else \<exists>g. ws_turn query now (wo_manager w) k = (m, Some g) \<and> gp_data g \<noteq> [] \<and> gp_flow_id g = i \<and>
       receive_grain (wo_view w k) (gp_data g) = wanted loads s (shown (wo_store w)))"
proof -
  note inv = world_invD [OF reached_inv [OF assms(1)]]
  obtain c where c: "sm_heap (wo_manager w) k = Some c" "\<not> co_closed c" "co_subscription c = s"
    using wf_managerD(6) [OF inv(4) assms(3)] assms(2) by (auto simp: conn_ok_def)
  have b: "buffered (wo_view w k) c = wanted loads s (shown (wo_store w))"
    using syncedD [OF inv(5) [unfolded in_sync_def] assms(2,3) c(1)] assms(2) by (simp add: targets_def)
  have id: "sub_id s = i" by (rule wf_managerD(3) [OF inv(4) assms(2)])
  let ?m = "(wo_manager w)\<lparr>sm_heap := (sm_heap (wo_manager w))(k \<mapsto> fst (drain_pending c))\<rparr>"
  let ?g = "build_grain query now s (map snd (co_pending c))"
  have t: "ws_turn query now (wo_manager w) k = (?m, if co_pending c = [] then None else Some ?g)"
    using c by (simp add: ws_turn_def drain_pending_def)
  have h: "sm_heap ?m k = Some (fst (drain_pending c))" "co_pending (fst (drain_pending c)) = []" "\<not> co_wake (fst (drain_pending c))"
    by (simp_all add: drain_pending_def)
  show ?thesis
  proof (cases "co_pending c = []")
    case True
    then show ?thesis using c h t b by (intro exI [of _ c] exI [of _ "fst (drain_pending c)"] exI [of _ ?m]) (simp add: buffered_def)
  next
    case False
    have "receive_grain (wo_view w k) (gp_data ?g) = wanted loads s (shown (wo_store w))"
      using b by (simp add: receive_grain buffered_def)
    moreover have "gp_data ?g \<noteq> []" "gp_flow_id ?g = i" using False id by (simp_all add: build_grain_def)
    ultimately show ?thesis using c h t False
      by (intro exI [of _ c] exI [of _ "fst (drain_pending c)"] exI [of _ ?m]) auto
  qed
qed

theorem sender_turn_catches_up_witness:
  "\<exists>g. snd (ws_turn [1] cursor_min (wo_manager demo_world) 0) = Some g \<and>
     receive_grain (wo_view demo_world 0) (gp_data g) = wanted demo_loads demo_sub (shown (wo_store demo_world))"
  using sender_turn_catches_up [OF demo_run, of "[7]" demo_sub 0 "[1]" cursor_min] demo_managed
  by (auto simp: demo_world_def listed_def split: if_splits)

subsection \<open>Where the promise stops\<close>

text \<open>
  The upgrade is awaited between the lookup and the attachment. When the subscription is deleted
  or reaped in between, \<open>setdefault\<close> gives its id a connection list again, but no publication
  ever looks at that list: the client gets the synchronisation burst and nothing after it.
\<close>

lemma publish_event_unheld:
  assumes "\<forall>s \<in> set ss. k \<notin> set (listed m (sub_id s))"
  shows "sm_heap (fst (publish_event loads m ss ev)) k = sm_heap m k \<and> same_lists m (fst (publish_event loads m ss ev))"
  using assms
proof (induction loads m ss ev rule: publish_event.induct)
  case (2 loads m s ss ev)
  show ?case
  proof (cases "sub_type s = ev_type ev")
    case False
    then show ?thesis using 2 by simp
  next
    case True
    show ?thesis
    proof (cases "classify loads s ev")
      case (Inl e)
      then show ?thesis using True by simp
    next
      case (Inr p)
      show ?thesis
      proof (cases p)
        case None
        then show ?thesis using 2 True Inr by simp
      next
        case (Some e)
        let ?m = "fan_out m (listed m (sub_id s)) e"
        have f: "sm_heap (fan_out m ks e) k = sm_heap m k \<and> same_lists m (fan_out m ks e)" if "k \<notin> set ks" for ks m
          using that
        proof (induction ks arbitrary: m)
          case (Cons j ks)
          then show ?case
            using same_lists_trans [of m "on_connection j (\<lambda>c. enqueue c e) m" "fan_out (on_connection j (\<lambda>c. enqueue c e) m) ks e"] by simp
        qed simp
        have "k \<notin> set (listed m (sub_id s))" using "2.prems" by simp
        note f = f [OF this]
        have "\<forall>s \<in> set ss. k \<notin> set (listed ?m (sub_id s))" 
          using "2.prems" listed_same [OF conjunct2 [OF f [of m]]] by simp
        then have "sm_heap (fst (publish_event loads ?m ss ev)) k = sm_heap ?m k \<and> same_lists ?m (fst (publish_event loads ?m ss ev))"
          using "2.IH"(3) [OF _ Inr Some] True by (simp add: listed_def)
        then show ?thesis
          using True Inr Some f [of m] same_lists_trans [of m ?m] by (simp add: listed_def)
      qed
    qed
  qed
qed simp

lemma stale_attachment_is_silent:
  assumes "\<forall>s \<in> set (map snd (sm_subscriptions m)). k \<notin> set (listed m (sub_id s))"
  shows "sm_heap (fst (publish loads m evs)) k = sm_heap m k"
  using assms
proof (induction loads m evs rule: publish.induct)
  case (2 loads m ev evs)
  obtain m1 e where r: "publish_event loads m (map snd (sm_subscriptions m)) ev = (m1, e)" by fastforce
  have u: "sm_heap m1 k = sm_heap m k" "same_lists m m1"
    using publish_event_unheld [OF "2.prems", of loads ev] r by simp_all
  show ?case
  proof (cases e)
    case None
    have "\<forall>s \<in> set (map snd (sm_subscriptions m1)). k \<notin> set (listed m1 (sub_id s))"
      using "2.prems" u(2) listed_same [OF u(2)] by (simp add: same_lists_def)
    then show ?thesis using "2.IH" r None u(1) by simp
  qed (use r u(1) in simp)
qed simp

text \<open>
  Installing a snapshot swaps the store and publishes nothing
  (\<open>src/nmos/raft/machine.py\<close>, \<open>StateMachine.install_snapshot\<close>), so a client attached before is
  in step afterwards only when nothing it watches has changed.
\<close>

lemma unpublished_swap:
  assumes "in_sync loads m V (shown st)" and "in_sync loads m V (shown st')"
    and s: "dget (sm_subscriptions m) i = Some s" and k: "k \<in> set (listed m i)" and c: "sm_heap m k = Some c"
  shows "wanted loads s (shown st) = wanted loads s (shown st')"
  using syncedD [OF assms(1) [unfolded in_sync_def] s k c] syncedD [OF assms(2) [unfolded in_sync_def] s k c] s
  by (simp add: targets_def)

text \<open>
  A resource that appears and disappears within one window leaves an event with neither \<open>pre\<close>
  nor \<open>post\<close>, which is none of the four shapes.
\<close>

lemma add_then_remove_shapeless:
  assumes "dget (co_pending c) i = None"
  shows "dget (co_pending (enqueue (enqueue c \<lparr>pe_path = i, pe_pre = None, pe_post = Some b\<rparr>)
           \<lparr>pe_path = i, pe_pre = Some b, pe_post = None\<rparr>)) i = Some \<lparr>pe_path = i, pe_pre = None, pe_post = None\<rparr>"
  using assms by (simp add: enqueue_def merge_def)

text \<open>
  A subscription's parameters are matched as attribute paths whatever their names, where the
  query string of a GET sets those starting with \<open>query.\<close> aside.
\<close>

lemma subscription_query_parameter:
  assumes "(str ''query.downgrade'', v) \<in> set (sub_params s)" and "dget d (str ''query'') = None"
  shows "\<not> sub_matches s (Some d)" and "filter_params [(str ''query.downgrade'', v)] = []"
proof -
  have split: "py_split 46 (str ''query.downgrade'') = [str ''query'', str ''downgrade'']" by (simp add: str_def)
  have "\<not> path_matches (JObj d) (py_split 46 (str ''query.downgrade'')) v" unfolding split using assms(2) by simp
  then show "\<not> sub_matches s (Some d)"
    using assms(1) by (fastforce simp: sub_matches_def matches_def sub_filters_def list_all_iff)
  show "filter_params [(str ''query.downgrade'', v)] = []"
    by (simp add: filter_params_def starts_with_def str_def)
qed

text \<open>Classifying an event reads both bodies, also for a subscription without filters.\<close>

lemma unfiltered_parses:
  assumes "ev_post ev = Some b" and "ev_pre ev = None" and "body_data loads b = Inl e"
  shows "classify loads s ev = Inl e"
  using assms by (simp add: classify_def data_of_def)

end
