(* ===== verification/Raft_Backend.thy ===== *)
theory Raft_Backend
  imports Machine Messages
begin

section \<open>The registry over the consensus layer\<close>

text \<open>
  \<open>src/nmos/registry/raft_backend.py\<close>: the class \<open>RaftRegistryBackend\<close>. Its methods are
  coroutines: they run on what their member holds and give it up at every await, where anything
  may happen. So a method is a process (\<open>proc\<close>): it ends, or asks the consensus layer for
  something and goes on with the answer and with the member as it is then. Nothing is assumed
  about either, so what is proved holds for every behaviour of the member and its peers.

  \<open>MutationUnavailable\<close>, which a client sees as a 503, is the end \<open>Unavailable\<close>; every other
  exception is the end \<open>Raised\<close>. What only feeds metrics (the trip counts, the timers) and
  \<open>_last_seen\<close>, which nothing reads, are left out. A gate's lock is taken by \<open>TakeLock\<close>; both
  coroutines that take one hold it to their end.
\<close>

subsection \<open>The member as a coroutine sees it\<close>

text \<open>
  The store is an object the registry points to: \<open>Registry.swap_store\<close> makes it point to
  another, and a coroutine that kept a reference goes on reading the old one. So stores have
  addresses.
\<close>

record Member =
  mb_index :: int
  mb_leading :: bool
  mb_leader :: "int option"
  mb_quorum :: bool
  mb_failed :: bool
  mb_ownership :: OwnershipTable
  mb_live :: "int list"
  mb_last_applied :: int
  mb_stores :: "nat \<Rightarrow> RegistryStore"
  mb_current :: nat

definition mb_store :: "Member \<Rightarrow> RegistryStore" where
  "mb_store m = mb_stores m (mb_current m)"

datatype 'r proc =
    Done 'r
  | Unavailable
  | Raised py_error
  | AskReadIndex "Member \<Rightarrow> int option \<Rightarrow> 'r proc"
  | AwaitApplied int "Member \<Rightarrow> bool \<Rightarrow> 'r proc"
  | AskPropose RegistryOperation "Member \<Rightarrow> Outcome option \<Rightarrow> 'r proc"
  | AskForward int Forward "Member \<Rightarrow> ForwardReply option \<Rightarrow> 'r proc"
  | TakeLock pystr "Member \<Rightarrow> 'r proc"
  | AllocateCursor ResourceType "TaiCursor option \<Rightarrow> 'r proc"
  | ReadClock "int \<Rightarrow> 'r proc"
  | ReadHealth pystr "int \<Rightarrow> 'r proc"
  | WriteStore nat RegistryStore "'r proc"

primrec bind_proc :: "'a proc \<Rightarrow> ('a \<Rightarrow> 'b proc) \<Rightarrow> 'b proc" where
  "bind_proc (Done x) f = f x"
| "bind_proc Unavailable f = Unavailable"
| "bind_proc (Raised e) f = Raised e"
| "bind_proc (AskReadIndex k) f = AskReadIndex (\<lambda>m i. bind_proc (k m i) f)"
| "bind_proc (AwaitApplied i k) f = AwaitApplied i (\<lambda>m ok. bind_proc (k m ok) f)"
| "bind_proc (AskPropose p k) f = AskPropose p (\<lambda>m out. bind_proc (k m out) f)"
| "bind_proc (AskForward w msg k) f = AskForward w msg (\<lambda>m r. bind_proc (k m r) f)"
| "bind_proc (TakeLock n k) f = TakeLock n (\<lambda>m. bind_proc (k m) f)"
| "bind_proc (AllocateCursor rt k) f = AllocateCursor rt (\<lambda>c. bind_proc (k c) f)"
| "bind_proc (ReadClock k) f = ReadClock (\<lambda>h. bind_proc (k h) f)"
| "bind_proc (ReadHealth i k) f = ReadHealth i (\<lambda>h. bind_proc (k h) f)"
| "bind_proc (WriteStore a st p) f = WriteStore a st (bind_proc p f)"

text \<open>\<open>except MutationUnavailable: return r\<close>.\<close>

primrec on_unavailable :: "'r proc \<Rightarrow> 'r \<Rightarrow> 'r proc" where
  "on_unavailable (Done x) r = Done x"
| "on_unavailable Unavailable r = Done r"
| "on_unavailable (Raised e) r = Raised e"
| "on_unavailable (AskReadIndex k) r = AskReadIndex (\<lambda>m i. on_unavailable (k m i) r)"
| "on_unavailable (AwaitApplied i k) r = AwaitApplied i (\<lambda>m ok. on_unavailable (k m ok) r)"
| "on_unavailable (AskPropose p k) r = AskPropose p (\<lambda>m out. on_unavailable (k m out) r)"
| "on_unavailable (AskForward w msg k) r = AskForward w msg (\<lambda>m x. on_unavailable (k m x) r)"
| "on_unavailable (TakeLock n k) r = TakeLock n (\<lambda>m. on_unavailable (k m) r)"
| "on_unavailable (AllocateCursor rt k) r = AllocateCursor rt (\<lambda>c. on_unavailable (k c) r)"
| "on_unavailable (ReadClock k) r = ReadClock (\<lambda>h. on_unavailable (k h) r)"
| "on_unavailable (ReadHealth i k) r = ReadHealth i (\<lambda>h. on_unavailable (k h) r)"
| "on_unavailable (WriteStore a st p) r = WriteStore a st (on_unavailable p r)"

text \<open>A computation that raises instead of asking.\<close>

definition lift_res :: "'a res \<Rightarrow> 'a proc" where
  "lift_res r = (case r of Inl e \<Rightarrow> Raised e | Inr x \<Rightarrow> Done x)"

subsection \<open>States\<close>

datatype BackendState = STARTING | READY | DEGRADED | RESYNCING | STOPPING

definition accepts_mutations :: "BackendState \<Rightarrow> bool" where
  "accepts_mutations s \<longleftrightarrow> s = READY"

definition serves_queries :: "BackendState \<Rightarrow> bool" where
  "serves_queries s \<longleftrightarrow> s \<noteq> STARTING"

definition backend_state :: "bool \<Rightarrow> bool \<Rightarrow> Member \<Rightarrow> BackendState" where
  "backend_state started stopping m =
     (if stopping \<or> mb_failed m then STOPPING
      else if \<not> started then STARTING
      else if mb_leader m \<noteq> None \<and> mb_quorum m then READY
      else DEGRADED)"

subsection \<open>Routing\<close>

definition owner_for :: "Member \<Rightarrow> pystr \<Rightarrow> int option" where
  "owner_for m node_id =
     (case owner_of_node (mb_ownership m) node_id of
        None \<Rightarrow> None
      | Some h \<Rightarrow>
          if held_owner h = mb_index m then Some (mb_index m)
          else if held_owner h \<in> set (mb_live m) then Some (held_owner h)
          else None)"

definition owns_node :: "Member \<Rightarrow> pystr \<Rightarrow> bool" where
  "owns_node m node_id \<longleftrightarrow> owner_for m node_id = Some (mb_index m)"

text \<open>\<open>Inl\<close> is the refusal, \<open>Inr\<close> the id of the node.\<close>

definition resolve_node ::
  "Member \<Rightarrow> ResourceType \<Rightarrow> (pystr, json) pydict \<Rightarrow> RegistrationResult + pystr" where
  "resolve_node m rt raw =
     (if rt = NODE then (case dget raw (str ''id'') of Some (JStr n) \<Rightarrow> Inr n | _ \<Rightarrow> Inl (failure SCHEMA))
      else if rt = DEVICE then (case dget raw (str ''node_id'') of Some (JStr n) \<Rightarrow> Inr n | _ \<Rightarrow> Inl (failure SCHEMA))
      else (case dget raw (str ''device_id'') of
              Some (JStr d) \<Rightarrow>
                (case get_resource (mb_store m) DEVICE d False of
                   None \<Rightarrow> Inl (failure PARENT_MISSING)
                 | Some device \<Rightarrow> Inr (case parent_id device of None \<Rightarrow> [] | Some p \<Rightarrow> p))
            | _ \<Rightarrow> Inl (failure SCHEMA)))"

definition decided_by_state :: "RegistrationResult \<Rightarrow> bool" where
  "decided_by_state r \<longleftrightarrow> rr_error r \<noteq> None \<and> rr_error r \<noteq> Some SCHEMA"

fun error_value :: "RegistrationError \<Rightarrow> pystr" where
  "error_value SCHEMA = str ''schema''"
| "error_value ID_TYPE_CONFLICT = str ''id_type_conflict''"
| "error_value VERSION_REGRESSION = str ''version_regression''"
| "error_value PARENT_CHANGED = str ''parent_changed''"
| "error_value PARENT_MISSING = str ''parent_missing''"

definition registration_errors :: "RegistrationError list" where
  "registration_errors = [SCHEMA, ID_TYPE_CONFLICT, VERSION_REGRESSION, PARENT_CHANGED, PARENT_MISSING]"

definition result_of :: "ForwardReply \<Rightarrow> RegistrationResult proc" where
  "result_of reply =
     (if fr_ok reply then Done \<lparr>rr_created = fr_created reply, rr_events = [], rr_error = None\<rparr>
      else case find (\<lambda>e. error_value e = fr_error reply) registration_errors of
             None \<Rightarrow> Unavailable
           | Some e \<Rightarrow> Done (failure e))"

definition reply_for :: "RegistrationResult \<Rightarrow> int \<Rightarrow> int \<Rightarrow> ForwardReply" where
  "reply_for r applied request_id =
     \<lparr>fr_ok = rr_ok r, fr_created = rr_created r,
      fr_error = (case rr_error r of None \<Rightarrow> [] | Some e \<Rightarrow> error_value e), fr_detail = [],
      fr_applied_index = applied, fr_not_owner = False, fr_request_id = request_id, fr_owner = None\<rparr>"

subsection \<open>Waiting\<close>

definition await_applied :: "Member \<Rightarrow> int \<Rightarrow> Member proc" where
  "await_applied m index =
     (if index \<le> 0 then Done m
      else AwaitApplied index (\<lambda>m' ok. if ok then Done m' else Unavailable))"

definition read_barrier :: "Member proc" where
  "read_barrier = AskReadIndex (\<lambda>m i. case i of None \<Rightarrow> Unavailable | Some index \<Rightarrow> await_applied m index)"

definition commit :: "RegistryOperation \<Rightarrow> (Member \<times> Outcome) proc" where
  "commit op = AskPropose op (\<lambda>m out. case out of None \<Rightarrow> Unavailable | Some r \<Rightarrow> Done (m, r))"

definition forward :: "Forward \<Rightarrow> int \<Rightarrow> (Member \<times> ForwardReply option) proc" where
  "forward message w = AskForward w message (\<lambda>m reply. Done (m, reply))"

subsection \<open>Registration\<close>

definition cursors_for ::
  "Member \<Rightarrow> ResourceType \<Rightarrow> pystr \<Rightarrow> (TaiCursor \<times> TaiCursor) proc" where
  "cursors_for m rt i = AllocateCursor rt (\<lambda>c. case c of
       None \<Rightarrow> Unavailable
     | Some updated_at \<Rightarrow>
         Done (case get_resource (mb_store m) rt i True of
                 None \<Rightarrow> (updated_at, updated_at)
               | Some r \<Rightarrow> (if extant r then created r else updated_at, updated_at)))"

text \<open>
  A refusal decided by the store is looked at again after a barrier. \<open>again m\<close> is the second
  look.
\<close>

definition settle_decision ::
  "Member \<Rightarrow> (Member \<Rightarrow> (RegistrationResult + 'a) res) \<Rightarrow> (Member \<times> (RegistrationResult + 'a)) proc" where
  "settle_decision m look_at =
     bind_proc (lift_res (look_at m)) (\<lambda>first.
       if (case first of Inl r \<Rightarrow> decided_by_state r | Inr _ \<Rightarrow> False)
       then bind_proc read_barrier (\<lambda>m'. bind_proc (lift_res (look_at m')) (\<lambda>second. Done (m', second)))
       else Done (m, first))"

definition register_as_owner ::
  "Member \<Rightarrow> ResourceType \<Rightarrow> pystr \<Rightarrow> (pystr, json) pydict \<Rightarrow> pystr \<Rightarrow> bool \<Rightarrow> (Member \<times> RegistrationResult) proc" where
  "register_as_owner m rt text raw node_id claims =
     (let store = mb_current m
      in bind_proc (settle_decision m (\<lambda>m'. prepare (mb_stores m' store) rt raw)) (\<lambda>(m1, prepared).
           case prepared of
             Inl refused \<Rightarrow> Done (m1, refused)
           | Inr p \<Rightarrow>
               bind_proc (cursors_for m1 rt (pr_id p)) (\<lambda>(created_at, updated_at).
               ReadClock (\<lambda>now.
               bind_proc (commit (RegisterOp (ProposalId (mb_index m1) 0) rt (pr_id p) node_id text
                                    created_at updated_at now (creates p)
                                    (if claims then Some (mb_index m1) else None))) (\<lambda>(m2, out).
                 case out of Registered r \<Rightarrow> Done (m2, r) | _ \<Rightarrow> Raised TypeError)))))"

text \<open>
  \<open>str()\<close> of a decoded JSON value. The text of an array or an object, which is the id of no
  resource, is the argument \<open>brackets\<close>.
\<close>

fun py_str :: "(json \<Rightarrow> pystr) \<Rightarrow> json \<Rightarrow> pystr" where
  "py_str brackets (JStr s) = s"
| "py_str brackets (JInt i) = int_str i"
| "py_str brackets (JFloat t) = t"
| "py_str brackets (JBool b) = (if b then str ''True'' else str ''False'')"
| "py_str brackets JNull = str ''None''"
| "py_str brackets v = brackets v"

definition register_message ::
  "(json \<Rightarrow> pystr) \<Rightarrow> ResourceType \<Rightarrow> pystr \<Rightarrow> (pystr, json) pydict \<Rightarrow> Forward" where
  "register_message brackets rt text raw =
     \<lparr>fw_verb = str ''register'', fw_resource_type = singular rt,
      fw_resource_id = (case dget raw (str ''id'') of Some v \<Rightarrow> py_str brackets v | None \<Rightarrow> []),
      fw_body_text = text, fw_request_id = 0\<rparr>"

text \<open>
  \<open>_register\<close> and \<open>_forward_register\<close> call each other; \<open>route_again\<close> is spent by the one retry.
\<close>

function register_routed ::
  "(json \<Rightarrow> pystr) \<Rightarrow> Member \<Rightarrow> ResourceType \<Rightarrow> pystr \<Rightarrow> (pystr, json) pydict \<Rightarrow> bool \<Rightarrow> RegistrationResult proc" where
  "register_routed brackets m rt text raw route_again =
     bind_proc (settle_decision m (\<lambda>m'. Inr (resolve_node m' rt raw))) (\<lambda>(m1, node).
       case node of
         Inl refused \<Rightarrow> Done refused
       | Inr node_id \<Rightarrow>
           (case owner_for m1 node_id of
              Some w \<Rightarrow>
                if w \<noteq> mb_index m1
                then bind_proc (forward (register_message brackets rt text raw) w) (\<lambda>(m2, reply).
                       case reply of
                         None \<Rightarrow> Unavailable
                       | Some r \<Rightarrow>
                           if fr_not_owner r
                           then (if route_again then register_routed brackets m2 rt text raw False else Unavailable)
                           else bind_proc (await_applied m2 (fr_applied_index r)) (\<lambda>_. result_of r))
                else TakeLock node_id (\<lambda>m2. bind_proc (register_as_owner m2 rt text raw node_id False) (\<lambda>(m3, r). Done r))
            | None \<Rightarrow> TakeLock node_id (\<lambda>m2. bind_proc (register_as_owner m2 rt text raw node_id True) (\<lambda>(m3, r). Done r))))"
  by pat_completeness auto
termination
  by (relation "measure (\<lambda>(brackets, m, rt, text, raw, route_again). if route_again then 1 else 0)") auto

declare register_routed.simps [simp del]

definition register ::
  "(pystr \<Rightarrow> (pystr, json) pydict res) \<Rightarrow> (json \<Rightarrow> pystr) \<Rightarrow> Member \<Rightarrow> ResourceType \<Rightarrow> Body \<Rightarrow> RegistrationResult proc" where
  "register loads brackets m rt b =
     bind_proc (lift_res (body_data loads b)) (\<lambda>raw. register_routed brackets m rt (body_text b) raw True)"

subsection \<open>Deletion\<close>

definition unregister :: "Member \<Rightarrow> ResourceType \<Rightarrow> pystr \<Rightarrow> bool proc" where
  "unregister m rt i =
     (let go = (\<lambda>m'. bind_proc (commit (UnregisterOp (ProposalId (mb_index m') 0) rt i)) (\<lambda>(m2, out).
                  Done (case out of Flag b \<Rightarrow> b | Count n \<Rightarrow> n \<noteq> 0 | Registered r \<Rightarrow> True)))
      in case get_resource (mb_store m) rt i False of
           None \<Rightarrow>
             bind_proc read_barrier (\<lambda>m'.
               case get_resource (mb_store m') rt i False of
                 None \<Rightarrow> Done False
               | Some _ \<Rightarrow> go m')
         | Some _ \<Rightarrow> go m)"

subsection \<open>Heartbeats\<close>

record Beat =
  bt_health :: "int option"
  bt_owner :: "int option"

definition beat_store :: "Member \<Rightarrow> pystr \<Rightarrow> Beat proc" where
  "beat_store m node_id = ReadClock (\<lambda>now.
     case heartbeat now (mb_store m) node_id of
       Inl e \<Rightarrow> Raised e
     | Inr (st, h) \<Rightarrow> WriteStore (mb_current m) st (Done \<lparr>bt_health = h, bt_owner = None\<rparr>))"

definition beat_here :: "Member \<Rightarrow> pystr \<Rightarrow> (Member \<times> Beat) proc" where
  "beat_here m node_id =
     (if get_resource (mb_store m) NODE node_id False = None
      then bind_proc read_barrier (\<lambda>m'.
             case owner_for m' node_id of
               Some w \<Rightarrow>
                 if w \<noteq> mb_index m' then Done (m', \<lparr>bt_health = None, bt_owner = Some w\<rparr>)
                 else if get_resource (mb_store m') NODE node_id False = None
                 then Done (m', \<lparr>bt_health = None, bt_owner = None\<rparr>)
                 else bind_proc (beat_store m' node_id) (\<lambda>b. Done (m', b))
             | None \<Rightarrow>
                 if get_resource (mb_store m') NODE node_id False = None
                 then Done (m', \<lparr>bt_health = None, bt_owner = None\<rparr>)
                 else bind_proc (beat_store m' node_id) (\<lambda>b. Done (m', b)))
      else bind_proc (beat_store m node_id) (\<lambda>b. Done (m, b)))"

definition heartbeat_message :: "pystr \<Rightarrow> Forward" where
  "heartbeat_message node_id =
     \<lparr>fw_verb = str ''heartbeat'', fw_resource_type = str ''node'', fw_resource_id = node_id,
      fw_body_text = [], fw_request_id = 0\<rparr>"

text \<open>\<open>forward_beat\<close> is \<open>_forward_heartbeat\<close> with the retry as its argument.\<close>

definition forward_beat ::
  "int \<Rightarrow> pystr \<Rightarrow> (Member \<Rightarrow> int option proc) option \<Rightarrow> int option proc" where
  "forward_beat w node_id retry =
     bind_proc (forward (heartbeat_message node_id) w) (\<lambda>(m, reply).
       case reply of
         None \<Rightarrow> Unavailable
       | Some r \<Rightarrow>
           if fr_not_owner r then (case retry of None \<Rightarrow> Unavailable | Some again \<Rightarrow> again m)
           else if \<not> fr_ok r
           then (if fr_error r = str ''unavailable'' then Unavailable else Done None)
           else if fr_applied_index r \<noteq> 0 then Done (Some (fr_applied_index r))
           else ReadClock (\<lambda>now. Done (Some now)))"

function heartbeat_routed :: "Member \<Rightarrow> pystr \<Rightarrow> bool \<Rightarrow> int option proc" where
  "heartbeat_routed m node_id route_again =
     (let retry = (if route_again then Some (\<lambda>m'. heartbeat_routed m' node_id False) else None);
          here = bind_proc (beat_here m node_id) (\<lambda>(m', b).
                   case bt_owner b of
                     Some w \<Rightarrow> forward_beat w node_id retry
                   | None \<Rightarrow> Done (bt_health b))
      in case owner_for m node_id of
           Some w \<Rightarrow> if w \<noteq> mb_index m then forward_beat w node_id retry else here
         | None \<Rightarrow> here)"
  by pat_completeness auto
termination
  by (relation "measure (\<lambda>(m, node_id, route_again). if route_again then 1 else 0)") auto

declare heartbeat_routed.simps [simp del]

definition backend_heartbeat :: "Member \<Rightarrow> pystr \<Rightarrow> int option proc" where
  "backend_heartbeat m node_id = heartbeat_routed m node_id True"

subsection \<open>Garbage collection\<close>

text \<open>
  The pass keeps the store and the list of node objects it started with; \<open>ReadHealth\<close> reads the
  health of one of those objects when its turn comes.
\<close>

definition forget_tombstones :: "Member \<Rightarrow> nat \<Rightarrow> int \<Rightarrow> int proc" where
  "forget_tombstones m store expired_count = ReadClock (\<lambda>now.
     let victims = forgettable (mb_stores m store) now
     in if victims \<noteq> [] \<and> mb_leading m
        then AskPropose (ForgetOp (ProposalId (mb_index m) 0) victims) (\<lambda>m' out. Done expired_count)
        else Done expired_count)"

fun expire_pass :: "Member \<Rightarrow> nat \<Rightarrow> int \<Rightarrow> pystr list \<Rightarrow> int \<Rightarrow> int proc" where
  "expire_pass m store threshold [] expired_count = forget_tombstones m store expired_count"
| "expire_pass m store threshold (i # is) expired_count = ReadHealth i (\<lambda>h.
     if h \<ge> threshold then expire_pass m store threshold is expired_count
     else if \<not> owns_node m i then expire_pass m store threshold is expired_count
     else AskPropose (ExpireOp (ProposalId (mb_index m) 0) i) (\<lambda>m' out.
            case out of
              None \<Rightarrow> forget_tombstones m' store expired_count
            | Some _ \<Rightarrow> expire_pass m' store threshold is (expired_count + 1)))"

definition backend_collect_garbage :: "bool \<Rightarrow> bool \<Rightarrow> Member \<Rightarrow> int proc" where
  "backend_collect_garbage started stopping m =
     (if backend_state started stopping m \<noteq> READY then Done 0
      else ReadClock (\<lambda>now.
        expire_pass m (mb_current m) (now - trunc (gc_interval (mb_store m)))
          (map res_id (iter_extant (mb_store m) NODE)) 0))"

subsection \<open>Answering a forwarded request\<close>

definition blank_reply :: "int \<Rightarrow> ForwardReply" where
  "blank_reply request_id =
     \<lparr>fr_ok = False, fr_created = False, fr_error = [], fr_detail = [], fr_applied_index = 0,
      fr_not_owner = False, fr_request_id = request_id, fr_owner = None\<rparr>"

definition heartbeat_forwarded :: "Member \<Rightarrow> Forward \<Rightarrow> ForwardReply proc" where
  "heartbeat_forwarded m msg =
     (let moved = (\<lambda>w. (blank_reply (fw_request_id msg))\<lparr>fr_not_owner := True, fr_owner := Some w\<rparr>);
          here = bind_proc (beat_here m (fw_resource_id msg)) (\<lambda>(m', b).
                   case bt_owner b of
                     Some w \<Rightarrow> Done (moved w)
                   | None \<Rightarrow> Done ((blank_reply (fw_request_id msg))
                       \<lparr>fr_ok := bt_health b \<noteq> None,
                        fr_applied_index := (case bt_health b of None \<Rightarrow> 0 | Some h \<Rightarrow> h)\<rparr>))
      in case owner_for m (fw_resource_id msg) of
           Some w \<Rightarrow> if w \<noteq> mb_index m then Done (moved w) else here
         | None \<Rightarrow> here)"

definition unavailable_reply :: "int \<Rightarrow> ForwardReply" where
  "unavailable_reply request_id = (blank_reply request_id)\<lparr>fr_error := str ''unavailable''\<rparr>"

definition on_forward ::
  "(pystr \<Rightarrow> (pystr, json) pydict res) \<Rightarrow> Member \<Rightarrow> Forward \<Rightarrow> ForwardReply proc" where
  "on_forward loads m msg =
     (case from_singular (fw_resource_type msg) of
        None \<Rightarrow> Done ((blank_reply (fw_request_id msg))\<lparr>fr_error := str ''schema''\<rparr>)
      | Some rt \<Rightarrow>
          if fw_verb msg = str ''heartbeat''
          then on_unavailable (heartbeat_forwarded m msg) (unavailable_reply (fw_request_id msg))
          else on_unavailable
            (bind_proc (lift_res (loads (fw_body_text msg))) (\<lambda>raw.
             bind_proc (settle_decision m (\<lambda>m'. Inr (resolve_node m' rt raw))) (\<lambda>(m1, node).
               case node of
                 Inl refused \<Rightarrow> Done (reply_for refused 0 (fw_request_id msg))
               | Inr node_id \<Rightarrow>
                   let serve = (\<lambda>claims. TakeLock node_id (\<lambda>m2.
                         bind_proc (register_as_owner m2 rt (fw_body_text msg) raw node_id claims) (\<lambda>(m3, r).
                           Done (reply_for r (mb_last_applied m3) (fw_request_id msg)))))
                   in (case owner_for m1 node_id of
                         Some w \<Rightarrow>
                           if w \<noteq> mb_index m1
                           then Done ((blank_reply (fw_request_id msg))\<lparr>fr_not_owner := True, fr_owner := Some w\<rparr>)
                           else serve False
                       | None \<Rightarrow> serve True))))
            (unavailable_reply (fw_request_id msg)))"

end
