(* ===== verification/Backend_Properties.thy ===== *)
theory Backend_Properties
  imports Raft_Backend
begin

section \<open>What the distributed backend promises\<close>

text \<open>
  Running a process against an environment. An environment answers every question a process
  asks, and may let the answer depend on everything asked before; \<open>drive\<close> runs the process to
  its end and returns what was asked and answered, and how it ended.
\<close>

datatype asked =
    GotIndex Member "int option"
  | Waited Member int bool
  | Proposed Member RegistryOperation "Outcome option"
  | Forwarded Member int Forward "ForwardReply option"
  | Locked Member pystr
  | Stamped ResourceType "TaiCursor option"
  | Clocked int
  | Sampled pystr int
  | Wrote nat RegistryStore

datatype 'r ended = Returned 'r | Busy | Threw py_error

record Answers =
  en_index :: "asked list \<Rightarrow> Member \<times> int option"
  en_applied :: "asked list \<Rightarrow> int \<Rightarrow> Member \<times> bool"
  en_propose :: "asked list \<Rightarrow> RegistryOperation \<Rightarrow> Member \<times> Outcome option"
  en_forward :: "asked list \<Rightarrow> int \<Rightarrow> Forward \<Rightarrow> Member \<times> ForwardReply option"
  en_lock :: "asked list \<Rightarrow> pystr \<Rightarrow> Member"
  en_cursor :: "asked list \<Rightarrow> ResourceType \<Rightarrow> TaiCursor option"
  en_clock :: "asked list \<Rightarrow> int"
  en_health :: "asked list \<Rightarrow> pystr \<Rightarrow> int"

definition logged :: "asked \<Rightarrow> asked list \<times> 'r ended \<Rightarrow> asked list \<times> 'r ended" where
  "logged a r = (a # fst r, snd r)"

primrec drive :: "'r proc \<Rightarrow> Answers \<Rightarrow> asked list \<Rightarrow> asked list \<times> 'r ended" where
  "drive (Done x) env h = ([], Returned x)"
| "drive Unavailable env h = ([], Busy)"
| "drive (Raised e) env h = ([], Threw e)"
| "drive (AskReadIndex k) env h =
     (let (m, i) = en_index env h; a = GotIndex m i in logged a (drive (k m i) env (h @ [a])))"
| "drive (AwaitApplied i k) env h =
     (let (m, ok) = en_applied env h i; a = Waited m i ok in logged a (drive (k m ok) env (h @ [a])))"
| "drive (AskPropose p k) env h =
     (let (m, out) = en_propose env h p; a = Proposed m p out in logged a (drive (k m out) env (h @ [a])))"
| "drive (AskForward w msg k) env h =
     (let (m, r) = en_forward env h w msg; a = Forwarded m w msg r in logged a (drive (k m r) env (h @ [a])))"
| "drive (TakeLock n k) env h =
     (let m = en_lock env h n; a = Locked m n in logged a (drive (k m) env (h @ [a])))"
| "drive (AllocateCursor rt k) env h =
     (let c = en_cursor env h rt; a = Stamped rt c in logged a (drive (k c) env (h @ [a])))"
| "drive (ReadClock k) env h =
     (let t = en_clock env h; a = Clocked t in logged a (drive (k t) env (h @ [a])))"
| "drive (ReadHealth i k) env h =
     (let t = en_health env h i; a = Sampled i t in logged a (drive (k t) env (h @ [a])))"
| "drive (WriteStore s st p) env h =
     (let a = Wrote s st in logged a (drive p env (h @ [a])))"

lemma logged_simps [simp]: "fst (logged a r) = a # fst r" "snd (logged a r) = snd r"
  by (simp_all add: logged_def)

lemma logged_pair [simp]: "logged a (tr, e) = (a # tr, e)"
  by (simp add: logged_def)

text \<open>Sequencing runs the second process on the history the first leaves.\<close>

definition after :: "asked list \<times> 'a ended \<Rightarrow> (asked list \<Rightarrow> 'a \<Rightarrow> asked list \<times> 'b ended) \<Rightarrow> asked list \<times> 'b ended" where
  "after r f = (case snd r of
       Returned x \<Rightarrow> (let r' = f (fst r) x in (fst r @ fst r', snd r'))
     | Busy \<Rightarrow> (fst r, Busy)
     | Threw e \<Rightarrow> (fst r, Threw e))"

lemma after_logged: "after (logged a r) f = logged a (after r (\<lambda>tr. f (a # tr)))"
  by (simp add: after_def logged_def Let_def split: ended.split)

lemma proc_induct [case_names Done Unavailable Raised AskReadIndex AwaitApplied AskPropose AskForward TakeLock
    AllocateCursor ReadClock ReadHealth WriteStore]:
  assumes "\<And>x. P (Done x)" and "P Unavailable" and "\<And>e. P (Raised e)"
    and "\<And>k. (\<And>m i. P (k m i)) \<Longrightarrow> P (AskReadIndex k)"
    and "\<And>j k. (\<And>m ok. P (k m ok)) \<Longrightarrow> P (AwaitApplied j k)"
    and "\<And>op k. (\<And>m out. P (k m out)) \<Longrightarrow> P (AskPropose op k)"
    and "\<And>w msg k. (\<And>m r. P (k m r)) \<Longrightarrow> P (AskForward w msg k)"
    and "\<And>n k. (\<And>m. P (k m)) \<Longrightarrow> P (TakeLock n k)"
    and "\<And>rt k. (\<And>c. P (k c)) \<Longrightarrow> P (AllocateCursor rt k)"
    and "\<And>k. (\<And>t. P (k t)) \<Longrightarrow> P (ReadClock k)"
    and "\<And>i k. (\<And>t. P (k t)) \<Longrightarrow> P (ReadHealth i k)"
    and "\<And>a st q. P q \<Longrightarrow> P (WriteStore a st q)"
  shows "P p"
  by (induction p) (blast intro: assms)+

lemma drive_bind: "drive (bind_proc p f) env h = after (drive p env h) (\<lambda>tr x. drive (f x) env (h @ tr))"
proof (induction p arbitrary: h rule: proc_induct)
  case (Done x)
  show ?case by (simp add: after_def Let_def)
next
  case Unavailable
  show ?case by (simp add: after_def)
next
  case (Raised e)
  show ?case by (simp add: after_def)
qed (simp_all add: after_logged Let_def split_beta)

lemma drive_on_unavailable:
  "drive (on_unavailable p r) env h =
     (fst (drive p env h), case snd (drive p env h) of Busy \<Rightarrow> Returned r | x \<Rightarrow> x)"
  by (induction p arbitrary: h rule: proc_induct) (simp_all add: Let_def split_beta logged_def)

subsection \<open>Every request ends, and is forwarded at most twice\<close>

fun forwards :: "asked list \<Rightarrow> nat" where
  "forwards [] = 0"
| "forwards (Forwarded m w msg r # tr) = Suc (forwards tr)"
| "forwards (a # tr) = forwards tr"

lemma forwards_append [simp]: "forwards (xs @ ys) = forwards xs + forwards ys"
  by (induction xs rule: forwards.induct) simp_all

text \<open>Whatever the environment answers: at most \<open>n\<close> questions, at most \<open>k\<close> of them forwards.\<close>

definition confined :: "'r proc \<Rightarrow> nat \<Rightarrow> nat \<Rightarrow> bool" where
  "confined p n k \<longleftrightarrow> (\<forall>env h. length (fst (drive p env h)) \<le> n \<and> forwards (fst (drive p env h)) \<le> k)"

lemma confined_ends [simp]: "confined (Done x) n k" "confined Unavailable n k" "confined (Raised e) n k"
  by (simp_all add: confined_def)

lemma confined_asks [intro]:
  "(\<And>m i. confined (f1 m i) n k) \<Longrightarrow> confined (AskReadIndex f1) (Suc n) k"
  "(\<And>m ok. confined (f2 m ok) n k) \<Longrightarrow> confined (AwaitApplied j f2) (Suc n) k"
  "(\<And>m out. confined (f3 m out) n k) \<Longrightarrow> confined (AskPropose p f3) (Suc n) k"
  "(\<And>m r. confined (f4 m r) n k) \<Longrightarrow> confined (AskForward w msg f4) (Suc n) (Suc k)"
  "(\<And>m. confined (f5 m) n k) \<Longrightarrow> confined (TakeLock i f5) (Suc n) k"
  "(\<And>c. confined (f6 c) n k) \<Longrightarrow> confined (AllocateCursor rt f6) (Suc n) k"
  "(\<And>t. confined (f7 t) n k) \<Longrightarrow> confined (ReadClock f7) (Suc n) k"
  "confined q n k \<Longrightarrow> confined (WriteStore s st q) (Suc n) k"
  by (simp_all add: confined_def Let_def split_beta)

lemma confined_mono: "confined p n k \<Longrightarrow> n \<le> n' \<Longrightarrow> k \<le> k' \<Longrightarrow> confined p n' k'"
  unfolding confined_def using order_trans by blast

lemma confined_bind:
  assumes p: "confined p n k" and f: "\<And>x. confined (f x) n' k'" and le: "n + n' \<le> N" "k + k' \<le> K"
  shows "confined (bind_proc p f) N K"
  unfolding confined_def
proof (intro allI)
  fix env h
  have a: "length (fst (drive p env h)) \<le> n" "forwards (fst (drive p env h)) \<le> k"
    using p unfolding confined_def by blast+
  show "length (fst (drive (bind_proc p f) env h)) \<le> N \<and> forwards (fst (drive (bind_proc p f) env h)) \<le> K"
  proof (cases "snd (drive p env h)")
    case (Returned x)
    have "length (fst (drive (f x) env (h @ fst (drive p env h)))) \<le> n'"
      "forwards (fst (drive (f x) env (h @ fst (drive p env h)))) \<le> k'"
      using f [of x] unfolding confined_def by blast+
    then show ?thesis using a le Returned by (simp add: drive_bind after_def Let_def)
  qed (use a le in \<open>simp_all add: drive_bind after_def\<close>)
qed

lemma confined_lift_res: "confined (lift_res r) 0 0"
  by (cases r) (simp_all add: lift_res_def)

lemma confined_await_applied: "confined (await_applied m i) 1 0"
  by (auto simp: await_applied_def intro!: confined_asks(2) [where n = 0, simplified])

lemma confined_read_barrier: "confined read_barrier 2 0"
  unfolding read_barrier_def
  using confined_asks(1) [where n = 1 and k = 0] confined_await_applied
  by (auto simp: numeral_2_eq_2 split: option.split)

lemma confined_commit: "confined (commit op) 1 0"
  unfolding commit_def using confined_asks(3) [where n = 0 and k = 0] by (auto split: option.split)

lemma confined_forward: "confined (forward msg w) 1 1"
  unfolding forward_def using confined_asks(4) [where n = 0 and k = 0] by auto

lemma confined_settle: "confined (settle_decision m f) 2 0"
proof -
  have second: "confined (bind_proc (lift_res r) (\<lambda>x. Done (m', x))) 0 0" for r m'
    by (rule confined_bind [OF confined_lift_res]) simp_all
  have "confined (bind_proc read_barrier (\<lambda>m'. bind_proc (lift_res (f m')) (\<lambda>x. Done (m', x)))) 2 0"
    by (rule confined_bind [OF confined_read_barrier second]) simp_all
  then show ?thesis
    unfolding settle_decision_def by (intro confined_bind [OF confined_lift_res, where n' = 2 and k' = 0]) (auto split: sum.split)
qed

lemma confined_cursors_for: "confined (cursors_for m rt i) 1 0"
  unfolding cursors_for_def using confined_asks(6) [where n = 0 and k = 0] by (auto split: option.split)

lemma confined_register_as_owner: "confined (register_as_owner m rt words raw n c) 5 0"
proof -
  have "confined (bind_proc (commit op) (\<lambda>(m2, out). case out of Registered r \<Rightarrow> Done (m2, r) | _ \<Rightarrow> Raised TypeError)) 1 0" for op
    by (rule confined_bind [OF confined_commit, where n' = 0 and k' = 0]) (auto split: prod.split Outcome.split)
  then have "confined (bind_proc (cursors_for m1 rt i) (\<lambda>(a, b). ReadClock (\<lambda>now. bind_proc (commit (op a b now))
      (\<lambda>(m2, out). case out of Registered r \<Rightarrow> Done (m2, r) | _ \<Rightarrow> Raised TypeError)))) 3 0" for m1 i op
    by (intro confined_bind [OF confined_cursors_for, where n' = 2 and k' = 0])
       (auto simp: numeral_2_eq_2 intro!: confined_asks(7) split: prod.split)
  then show ?thesis
    unfolding register_as_owner_def Let_def
    by (intro confined_bind [OF confined_settle, where n' = 3 and k' = 0]) (auto split: prod.split sum.split)
qed

lemma confined_serve: "confined (TakeLock n (\<lambda>m2. bind_proc (register_as_owner m2 rt words raw n c) (\<lambda>(m3, r). Done (f m3 r)))) 6 0"
proof -
  have "confined (bind_proc (register_as_owner m2 rt words raw n c) (\<lambda>(m3, r). Done (f m3 r))) 5 0" for m2
    by (rule confined_bind [OF confined_register_as_owner, where n' = 0 and k' = 0]) (auto split: prod.split)
  from confined_asks(5) [OF this] show ?thesis by simp
qed

lemma confined_result_of: "confined (result_of r) 0 0"
  by (simp add: result_of_def split: option.split)

text \<open>One pass of the routing, given what the retry may use.\<close>

lemma confined_pass:
  assumes retry: "\<And>m2. route_again \<Longrightarrow> confined (register_routed brackets m2 rt words raw False) n k"
  shows "confined (register_routed brackets m rt words raw route_again)
    (if route_again then max 8 (3 + n) else 8) (if route_again then Suc k else 1)"
proof -
  let ?N = "if route_again then max 6 (Suc n) else 6" and ?K = "if route_again then Suc k else 1"
  have reply: "confined (case reply of None \<Rightarrow> Unavailable
      | Some r \<Rightarrow> if fr_not_owner r then (if route_again then register_routed brackets m2 rt words raw False else Unavailable)
                else bind_proc (await_applied m2 (fr_applied_index r)) (\<lambda>_. result_of r))
      (if route_again then max 1 n else 1) (if route_again then k else 0)" for m2 reply
  proof (cases reply)
    case (Some r)
    have "confined (bind_proc (await_applied m2 (fr_applied_index r)) (\<lambda>_. result_of r)) 1 0"
      by (rule confined_bind [OF confined_await_applied confined_result_of]) simp_all
    from Some confined_mono [OF retry [of m2]] confined_mono [OF this, of "if route_again then max 1 n else 1" "if route_again then k else 0"]
    show ?thesis by (auto split: if_splits)
  qed simp
  have fwd: "confined (bind_proc (forward msg w) (\<lambda>(m2, reply). case reply of None \<Rightarrow> Unavailable
      | Some r \<Rightarrow> if fr_not_owner r then (if route_again then register_routed brackets m2 rt words raw False else Unavailable)
                else bind_proc (await_applied m2 (fr_applied_index r)) (\<lambda>_. result_of r))) ?N ?K" for msg w
    unfolding split_beta
    by (rule confined_bind [OF confined_forward reply]) auto
  have own: "confined (TakeLock i (\<lambda>m2. bind_proc (register_as_owner m2 rt words raw i c) (\<lambda>(m3, r). Done r))) ?N ?K" for i c
    using confined_mono [OF confined_serve [where f = "\<lambda>m3 r. r"]] by auto
  show ?thesis
    unfolding register_routed.simps [where m = m]
    using fwd own
    by (intro confined_bind [OF confined_settle, where n' = ?N and k' = ?K])
       (auto split: prod.split sum.split option.split)
qed

lemma confined_register: "confined (register loads brackets m rt b) 11 2"
proof -
  have once: "confined (register_routed brackets m2 rt words raw False) 8 1" for m2 words raw
    using confined_pass [of False brackets rt words raw 0 0 m2] by simp
  have "confined (register_routed brackets m rt words raw True) 11 2" for words raw
    using confined_pass [of True brackets rt words raw 8 1 m] once by (simp add: numeral_2_eq_2)
  then show ?thesis
    unfolding register_def by (intro confined_bind [OF confined_lift_res, where n' = 11 and k' = 2]) simp_all
qed

lemma confined_unregister: "confined (unregister m rt i) 3 0"
proof -
  have go: "confined (bind_proc (commit op) (\<lambda>(m2, out). Done (f out))) 1 0" for op and f :: "Outcome \<Rightarrow> bool"
    by (rule confined_bind [OF confined_commit, where n' = 0 and k' = 0]) (auto split: prod.split)
  have "confined (bind_proc read_barrier (\<lambda>m'. case get_resource (mb_store m') rt i False of
      None \<Rightarrow> Done False | Some _ \<Rightarrow> bind_proc (commit (op m')) (\<lambda>(m2, out). Done (f out)))) 3 0" for op and f :: "Outcome \<Rightarrow> bool"
    using go by (intro confined_bind [OF confined_read_barrier, where n' = 1 and k' = 0]) (auto split: option.split)
  then show ?thesis
    unfolding unregister_def Let_def using confined_mono [OF go, of 3 0] by (auto split: option.split)
qed

lemma confined_beat_store: "confined (beat_store m n) 2 0"
  unfolding beat_store_def numeral_2_eq_2
  by (intro confined_asks(7)) (auto intro: confined_asks(8) split: sum.split)

lemma confined_beat_here: "confined (beat_here m n) 4 0"
proof -
  have st: "confined (bind_proc (beat_store m n) (\<lambda>b. Done (f b))) 2 0" for m and f :: "Beat \<Rightarrow> Member \<times> Beat"
    by (rule confined_bind [OF confined_beat_store, where n' = 0 and k' = 0]) simp_all
  show ?thesis
    unfolding beat_here_def using st confined_mono [OF st, of 4 0]
    by (auto intro!: confined_bind [OF confined_read_barrier, where n' = 2 and k' = 0] split: option.split)
qed

lemma confined_forward_beat:
  assumes "\<And>f m. retry = Some f \<Longrightarrow> confined (f m) n k"
  shows "confined (forward_beat w i retry) (Suc (max 1 n)) (Suc k)"
proof -
  have clock: "confined (ReadClock (\<lambda>now. Done (Some now)) :: int option proc) 1 0"
    using confined_asks(7) [of "\<lambda>now. Done (Some now)" 0 0] by simp
  have "confined (case reply of None \<Rightarrow> Unavailable
      | Some r \<Rightarrow> if fr_not_owner r then (case retry of None \<Rightarrow> Unavailable | Some again \<Rightarrow> again m)
        else if \<not> fr_ok r then (if fr_error r = str ''unavailable'' then Unavailable else Done None)
        else if fr_applied_index r \<noteq> 0 then Done (Some (fr_applied_index r))
        else ReadClock (\<lambda>now. Done (Some now))) (max 1 n) k" for m reply
    using confined_mono [OF clock, of "max 1 n" k] confined_mono [OF assms, of _ "max 1 n" k m]
    by (auto split: option.split)
  then show ?thesis
    unfolding forward_beat_def
    by (intro confined_bind [OF confined_forward, where n' = "max 1 n" and k' = k]) (auto split: prod.split)
qed

lemma confined_beat_body:
  assumes "\<And>f m. retry = Some f \<Longrightarrow> confined (f m) n k"
  shows "confined (let here = bind_proc (beat_here m i) (\<lambda>(m', b). case bt_owner b of
        Some w \<Rightarrow> forward_beat w i retry | None \<Rightarrow> Done (bt_health b))
      in case owner_for m i of Some w \<Rightarrow> if w \<noteq> mb_index m then forward_beat w i retry else here | None \<Rightarrow> here)
    (4 + Suc (max 1 n)) (Suc k)"
proof -
  have f: "confined (forward_beat w i retry) (Suc (max 1 n)) (Suc k)" for w
    using assms by (rule confined_forward_beat)
  then have "confined (bind_proc (beat_here m i) (\<lambda>(m', b). case bt_owner b of
        Some w \<Rightarrow> forward_beat w i retry | None \<Rightarrow> Done (bt_health b))) (4 + Suc (max 1 n)) (Suc k)"
    by (intro confined_bind [OF confined_beat_here, where n' = "Suc (max 1 n)" and k' = "Suc k"]) (auto split: prod.split option.split)
  then show ?thesis
    unfolding Let_def using confined_mono [OF f, of "4 + Suc (max 1 n)" "Suc k"] by (auto split: option.split)
qed

lemma confined_heartbeat: "confined (backend_heartbeat m i) 11 2"
proof -
  have once: "confined (heartbeat_routed m' i False) 6 1" for m'
    unfolding heartbeat_routed.simps [where m = m']
    using confined_beat_body [of None 0 0 m' i] by simp
  have "confined (let here = bind_proc (beat_here m i) (\<lambda>(m', b). case bt_owner b of
        Some w \<Rightarrow> forward_beat w i (Some (\<lambda>m'. heartbeat_routed m' i False)) | None \<Rightarrow> Done (bt_health b))
      in case owner_for m i of Some w \<Rightarrow> if w \<noteq> mb_index m
             then forward_beat w i (Some (\<lambda>m'. heartbeat_routed m' i False)) else here | None \<Rightarrow> here) (4 + Suc (max 1 6)) (Suc 1)"
    by (rule confined_beat_body) (use once in auto)
  then have "confined (heartbeat_routed m i True) 11 2"
    unfolding heartbeat_routed.simps [where m = m] by (simp add: numeral_2_eq_2 Let_def)
  then show ?thesis by (simp add: backend_heartbeat_def)
qed

lemma confined_on_unavailable: "confined p n k \<Longrightarrow> confined (on_unavailable p r) n k"
  by (simp add: confined_def drive_on_unavailable)

lemma confined_on_forward: "confined (on_forward loads m msg) 8 0"
proof -
  have beat: "confined (heartbeat_forwarded m msg) 8 0"
    unfolding heartbeat_forwarded_def Let_def
    by (auto intro!: confined_bind [OF confined_beat_here, where n' = 0 and k' = 0] split: option.split prod.split)
  have "confined (bind_proc (settle_decision m f) g) 8 0" if "\<And>x. confined (g x) 6 0" for f and g :: "Member \<times> (RegistrationResult + pystr) \<Rightarrow> ForwardReply proc"
    using that by (intro confined_bind [OF confined_settle, where n' = 6 and k' = 0]) simp_all
  then have reg: "confined (bind_proc (lift_res r) (\<lambda>raw. bind_proc (settle_decision m (f raw)) (g raw))) 8 0"
    if "\<And>raw x. confined (g raw x) 6 0" for r f and g :: "(pystr, json) pydict \<Rightarrow> Member \<times> (RegistrationResult + pystr) \<Rightarrow> ForwardReply proc"
    using that by (intro confined_bind [OF confined_lift_res, where n' = 8 and k' = 0]) simp_all
  show ?thesis
    unfolding on_forward_def Let_def
    using confined_serve [where f = "\<lambda>m3 r. reply_for r (mb_last_applied m3) (fw_request_id msg)"]
    by (auto intro!: confined_on_unavailable beat reg split: option.split sum.split prod.split)
qed

subsection \<open>A small cluster member\<close>

text \<open>A member with an empty store, and an environment whose read index it has already applied.\<close>

definition demo_member :: Member where
  "demo_member = \<lparr>mb_index = 1, mb_leading = False, mb_leader = Some 2, mb_quorum = True, mb_failed = False,
     mb_ownership = [], mb_live = [2], mb_last_applied = 0, mb_stores = (\<lambda>_. new_store 12 60), mb_current = 0\<rparr>"

definition demo_env :: Answers where
  "demo_env = \<lparr>en_index = (\<lambda>h. (demo_member, Some 3)), en_applied = (\<lambda>h i. (demo_member, True)),
     en_propose = (\<lambda>h op. (demo_member, None)), en_forward = (\<lambda>h w msg. (demo_member, None)),
     en_lock = (\<lambda>h n. demo_member), en_cursor = (\<lambda>h rt. None), en_clock = (\<lambda>h. 5), en_health = (\<lambda>h i. 0)\<rparr>"

definition demo_sender :: Body where
  "demo_sender = \<lparr>body_text = [], parsed = Some [(str ''device_id'', JStr [1])]\<rparr>"

lemma demo_empty: "get_resource (mb_store demo_member) rt i False = None" "owner_for demo_member i = None"
  by (simp_all add: demo_member_def mb_store_def get_resource_def new_store_def owner_for_def owner_of_node_def)

text \<open>
  C5: every request is answered after finitely many questions, and no request travels between
  members without end. Whatever the members and the network answer, a registration or a
  heartbeat asks at most eleven things and forwards at most twice: once, and once more when the
  member it went to says the node has moved. A deletion, and a request another member forwarded
  here, never forwards.
\<close>

theorem requests_end:
  "length (fst (drive (register loads brackets m rt b) env h)) \<le> 11 \<and>
   forwards (fst (drive (register loads brackets m rt b) env h)) \<le> 2 \<and>
   length (fst (drive (backend_heartbeat m i) env h)) \<le> 11 \<and>
   forwards (fst (drive (backend_heartbeat m i) env h)) \<le> 2 \<and>
   length (fst (drive (unregister m rt i) env h)) \<le> 3 \<and>
   forwards (fst (drive (unregister m rt i) env h)) = 0 \<and>
   length (fst (drive (on_forward loads m msg) env h)) \<le> 8 \<and>
   forwards (fst (drive (on_forward loads m msg) env h)) = 0"
  using confined_register [of loads brackets m rt b] confined_heartbeat [of m i]
    confined_unregister [of m rt i] confined_on_forward [of loads m msg]
  unfolding confined_def by simp

subsection \<open>No refusal without a barrier\<close>

text \<open>
  What can be said of every run: \<open>ensures p Q\<close> when every run of \<open>p\<close>, on any history, ends
  as \<open>Q\<close> allows for what was asked in it.
\<close>

definition ensures :: "'r proc \<Rightarrow> (asked list \<Rightarrow> 'r \<Rightarrow> bool) \<Rightarrow> bool" where
  "ensures p Q \<longleftrightarrow> (\<forall>env h x. snd (drive p env h) = Returned x \<longrightarrow> Q (fst (drive p env h)) x)"

lemma ensures_ends [simp]:
  "ensures (Done x) Q \<longleftrightarrow> Q [] x" "ensures Unavailable Q" "ensures (Raised e) Q"
  by (auto simp: ensures_def)

lemma ensures_asks:
  "(\<And>m i. ensures (f1 m i) (\<lambda>tr. Q (GotIndex m i # tr))) \<Longrightarrow> ensures (AskReadIndex f1) Q"
  "(\<And>m ok. ensures (f2 m ok) (\<lambda>tr. Q (Waited m j ok # tr))) \<Longrightarrow> ensures (AwaitApplied j f2) Q"
  "(\<And>m out. ensures (f3 m out) (\<lambda>tr. Q (Proposed m p out # tr))) \<Longrightarrow> ensures (AskPropose p f3) Q"
  "(\<And>m r. ensures (f4 m r) (\<lambda>tr. Q (Forwarded m w msg r # tr))) \<Longrightarrow> ensures (AskForward w msg f4) Q"
  "(\<And>m. ensures (f5 m) (\<lambda>tr. Q (Locked m i # tr))) \<Longrightarrow> ensures (TakeLock i f5) Q"
  "(\<And>c. ensures (f6 c) (\<lambda>tr. Q (Stamped rt c # tr))) \<Longrightarrow> ensures (AllocateCursor rt f6) Q"
  "(\<And>t. ensures (f7 t) (\<lambda>tr. Q (Clocked t # tr))) \<Longrightarrow> ensures (ReadClock f7) Q"
  "ensures q (\<lambda>tr. Q (Wrote s st # tr)) \<Longrightarrow> ensures (WriteStore s st q) Q"
  by (auto simp: ensures_def Let_def split_beta)

lemma ensures_bind:
  assumes p: "ensures p P" and f: "\<And>tr x. P tr x \<Longrightarrow> ensures (f x) (\<lambda>tr'. Q (tr @ tr'))"
  shows "ensures (bind_proc p f) Q"
  unfolding ensures_def
proof (intro allI impI)
  fix env h y
  assume e: "snd (drive (bind_proc p f) env h) = Returned y"
  then obtain x where x: "snd (drive p env h) = Returned x"
    by (auto simp: drive_bind after_def Let_def split: ended.splits)
  have "P (fst (drive p env h)) x" using p x unfolding ensures_def by blast
  from f [OF this] e x show "Q (fst (drive (bind_proc p f) env h)) y"
    by (auto simp: ensures_def drive_bind after_def Let_def)
qed

lemma ensures_mono: "ensures p P \<Longrightarrow> (\<And>tr x. P tr x \<Longrightarrow> Q tr x) \<Longrightarrow> ensures p Q"
  unfolding ensures_def by blast

text \<open>
  A completed barrier: a read index was given, and the member, which is \<open>m\<close> at its end, has
  applied through it.
\<close>

definition barred :: "asked list \<Rightarrow> Member \<Rightarrow> bool" where
  "barred tr m \<longleftrightarrow> (\<exists>i m0. GotIndex m0 (Some i) \<in> set tr \<and> (if i \<le> 0 then m = m0 else Waited m i True \<in> set tr))"

lemma barred_weaken: "barred tr m \<Longrightarrow> set tr \<subseteq> set tr' \<Longrightarrow> barred tr' m"
  unfolding barred_def by (metis subsetD)

lemma ensures_barrier: "ensures read_barrier (\<lambda>tr m. barred tr m)"
  unfolding read_barrier_def
proof (rule ensures_asks(1))
  fix m i
  show "ensures (case i of None \<Rightarrow> Unavailable | Some index \<Rightarrow> await_applied m index) (\<lambda>tr. barred (GotIndex m i # tr))"
  proof (cases i)
    case (Some index)
    then show ?thesis
      by (auto simp: await_applied_def barred_def intro!: ensures_asks(2))
  qed simp
qed

lemma ensures_lift_res: "ensures (lift_res r) (\<lambda>tr x. tr = [] \<and> r = Inr x)"
  by (cases r) (simp_all add: lift_res_def)

text \<open>What a settled question is: decided without the store, or decided again after a barrier.\<close>

definition settled ::
  "(Member \<Rightarrow> (RegistrationResult + 'a) res) \<Rightarrow> asked list \<Rightarrow> Member \<times> (RegistrationResult + 'a) \<Rightarrow> bool" where
  "settled f tr x \<longleftrightarrow> f (fst x) = Inr (snd x) \<and>
     (\<forall>r. snd x = Inl r \<longrightarrow> decided_by_state r \<longrightarrow> barred tr (fst x))"

lemma ensures_settle: "ensures (settle_decision m f) (settled f)"
  unfolding settle_decision_def
proof (rule ensures_bind [OF ensures_lift_res], elim conjE)
  fix tr :: "asked list" and x
  assume "tr = []" and x: "f m = Inr x"
  have "ensures (bind_proc (lift_res (f m')) (\<lambda>second. Done (m', second))) (\<lambda>tr'. settled f (t @ tr'))" if "barred t m'" for t m'
    by (rule ensures_bind [OF ensures_lift_res]) (use that in \<open>auto simp: settled_def\<close>)
  then have "ensures (bind_proc read_barrier (\<lambda>m'. bind_proc (lift_res (f m')) (\<lambda>second. Done (m', second)))) (settled f)"
    by (intro ensures_bind [OF ensures_barrier])
  with x \<open>tr = []\<close> show "ensures (if case x of Inl r \<Rightarrow> decided_by_state r | Inr _ \<Rightarrow> False
      then bind_proc read_barrier (\<lambda>m'. bind_proc (lift_res (f m')) (\<lambda>second. Done (m', second)))
      else Done (m, x)) (\<lambda>tr'. settled f (tr @ tr'))"
    by (auto simp: settled_def)
qed

text \<open>Who may refuse: the applier, the owner's reply, or this member's store after a barrier.\<close>

definition excused :: "ResourceType \<Rightarrow> (pystr, json) pydict \<Rightarrow> asked list \<Rightarrow> RegistrationResult \<Rightarrow> bool" where
  "excused rt raw tr r \<longleftrightarrow>
     (\<exists>m op. Proposed m op (Some (Registered r)) \<in> set tr) \<or>
     (\<exists>m w msg reply e. Forwarded m w msg (Some reply) \<in> set tr \<and> \<not> fr_ok reply \<and> \<not> fr_not_owner reply \<and>
        rr_error r = Some e \<and> error_value e = fr_error reply) \<or>
     (\<exists>m. barred tr m \<and> (resolve_node m rt raw = Inl r \<or> (\<exists>a. prepare (mb_stores m a) rt raw = Inr (Inl r))))"

definition refuses_well :: "ResourceType \<Rightarrow> (pystr, json) pydict \<Rightarrow> asked list \<Rightarrow> RegistrationResult \<Rightarrow> bool" where
  "refuses_well rt raw tr r \<longleftrightarrow> (decided_by_state r \<longrightarrow> excused rt raw tr r)"

lemma refuses_well_weaken: "refuses_well rt raw tr r \<Longrightarrow> set tr \<subseteq> set tr' \<Longrightarrow> refuses_well rt raw tr' r"
  unfolding refuses_well_def excused_def using barred_weaken by (metis subsetD)

lemma ensures_later:
  "ensures p (\<lambda>tr. refuses_well rt raw tr) \<Longrightarrow> ensures p (\<lambda>tr. refuses_well rt raw (pre @ tr))"
  by (erule ensures_mono) (rule refuses_well_weaken, auto)

lemma ensures_later1:
  "ensures p (\<lambda>tr. refuses_well rt raw tr) \<Longrightarrow> ensures p (\<lambda>tr. refuses_well rt raw (a # tr))"
  using ensures_later [of p rt raw "[a]"] by simp

lemma ensures_commit: "ensures (commit op) (\<lambda>tr x. \<exists>m. Proposed m op (Some (snd x)) \<in> set tr)"
  unfolding commit_def by (rule ensures_asks(3)) (auto split: option.split)

lemma ensures_any: "ensures p (\<lambda>tr x. True)"
  by (simp add: ensures_def)

lemma ensures_register_as_owner:
  "ensures (register_as_owner m rt words raw n c) (\<lambda>tr x. refuses_well rt raw tr (snd x))"
proof -
  have committed: "ensures (bind_proc (commit op) (\<lambda>(m2, out). case out of Registered r \<Rightarrow> Done (m2, r) | _ \<Rightarrow> Raised TypeError))
      (\<lambda>tr x. refuses_well rt raw (pre @ tr) (snd x))" for op pre
    by (rule ensures_bind [OF ensures_commit]) (force simp: refuses_well_def excused_def split: prod.split Outcome.split)
  have "ensures (bind_proc (cursors_for m1 rt i) (\<lambda>(a, b). ReadClock (\<lambda>now. bind_proc (commit (op a b now))
      (\<lambda>(m2, out). case out of Registered r \<Rightarrow> Done (m2, r) | _ \<Rightarrow> Raised TypeError))))
      (\<lambda>tr x. refuses_well rt raw (pre @ tr) (snd x))" for m1 i op pre
  proof (rule ensures_bind [OF ensures_any])
    fix tr :: "asked list" and x
    show "ensures (case x of (a, b) \<Rightarrow> ReadClock (\<lambda>now. bind_proc (commit (op a b now))
        (\<lambda>(m2, out). case out of Registered r \<Rightarrow> Done (m2, r) | _ \<Rightarrow> Raised TypeError)))
        (\<lambda>tr' x. refuses_well rt raw (pre @ tr @ tr') (snd x))"
      using committed [where pre = "pre @ tr @ [Clocked _]"]
      by (cases x) (auto intro!: ensures_asks(7))
  qed
  then show ?thesis
    unfolding register_as_owner_def Let_def
    by (intro ensures_bind [OF ensures_settle])
       (auto simp: settled_def refuses_well_def excused_def split: prod.split sum.split)
qed
lemma ensures_result_of:
  "ensures (result_of reply) (\<lambda>tr r. rr_error r \<noteq> None \<longrightarrow> \<not> fr_ok reply \<and> (\<exists>e. rr_error r = Some e \<and> error_value e = fr_error reply))"
  by (auto simp: result_of_def failure_def find_Some_iff split: option.split)

lemma ensures_serve:
  "ensures (TakeLock n (\<lambda>m2. bind_proc (register_as_owner m2 rt words raw n c) (\<lambda>(m3, r). Done r))) (refuses_well rt raw)"
proof (rule ensures_asks(5))
  fix m2
  have "ensures (bind_proc (register_as_owner m2 rt words raw n c) (\<lambda>(m3, r). Done r)) (refuses_well rt raw)"
    by (rule ensures_bind [OF ensures_register_as_owner]) (auto split: prod.split)
  then show "ensures (bind_proc (register_as_owner m2 rt words raw n c) (\<lambda>(m3, r). Done r)) (\<lambda>tr. refuses_well rt raw (Locked m2 n # tr))"
    by (rule ensures_later1)
qed

lemma ensures_register_routed:
  assumes again: "\<And>m2. route_again \<Longrightarrow> ensures (register_routed brackets m2 rt words raw False) (refuses_well rt raw)"
  shows "ensures (register_routed brackets m rt words raw route_again) (refuses_well rt raw)"
proof -
  have reply: "ensures (case reply of None \<Rightarrow> Unavailable
      | Some r \<Rightarrow> if fr_not_owner r then (if route_again then register_routed brackets m2 rt words raw False else Unavailable)
                else bind_proc (await_applied m2 (fr_applied_index r)) (\<lambda>_. result_of r))
      (\<lambda>tr. refuses_well rt raw (pre @ tr))"
    if "Forwarded m2 w msg reply \<in> set pre" for m2 reply w msg pre
  proof (cases reply)
    case (Some r)
    show ?thesis
    proof (cases "fr_not_owner r")
      case True
      then show ?thesis using Some ensures_later [OF again] by auto
    next
      case False
      have "ensures (bind_proc (await_applied m2 (fr_applied_index r)) (\<lambda>_. result_of r)) (\<lambda>tr. refuses_well rt raw (pre @ tr))"
      proof (rule ensures_bind [OF ensures_any])
        fix tr :: "asked list"
        have "Forwarded m2 w msg (Some r) \<in> set (pre @ tr @ t)" for t using that Some by simp
        with False show "ensures (result_of r) (\<lambda>tr'. refuses_well rt raw (pre @ tr @ tr'))"
          by (intro ensures_mono [OF ensures_result_of]) (unfold refuses_well_def excused_def decided_by_state_def, blast)
      qed
      then show ?thesis using Some False by simp
    qed
  qed simp
  have fwd: "ensures (bind_proc (forward msg w) (\<lambda>(m2, reply). case reply of None \<Rightarrow> Unavailable
      | Some r \<Rightarrow> if fr_not_owner r then (if route_again then register_routed brackets m2 rt words raw False else Unavailable)
                else bind_proc (await_applied m2 (fr_applied_index r)) (\<lambda>_. result_of r))) (\<lambda>tr. refuses_well rt raw (pre @ tr))" for msg w pre
  proof -
    have "ensures (forward msg w) (\<lambda>tr x. Forwarded (fst x) w msg (snd x) \<in> set tr)"
      unfolding forward_def by (rule ensures_asks(4)) simp
    then show ?thesis
      unfolding split_beta
    proof (rule ensures_bind)
      fix tr x
      assume "Forwarded (fst x) w msg (snd x) \<in> set tr"
      then have "Forwarded (fst x) w msg (snd x) \<in> set (pre @ tr)" by simp
      from reply [OF this] show "ensures (case snd x of None \<Rightarrow> Unavailable
          | Some r \<Rightarrow> if fr_not_owner r then (if route_again then register_routed brackets (fst x) rt words raw False else Unavailable)
             else bind_proc (await_applied (fst x) (fr_applied_index r)) (\<lambda>_. result_of r))
          (\<lambda>tr'. refuses_well rt raw (pre @ tr @ tr'))" by simp
    qed
  qed
  show ?thesis
    unfolding register_routed.simps [where m = m]
  proof (rule ensures_bind [OF ensures_settle])
    fix tr x
    assume s: "settled (\<lambda>m'. Inr (resolve_node m' rt raw)) tr x"
    obtain m1 node where x: "x = (m1, node)" by fastforce
    show "ensures (case x of (m1, node) \<Rightarrow> case node of
         Inl refused \<Rightarrow> Done refused
       | Inr node_id \<Rightarrow>
           (case owner_for m1 node_id of
              Some w \<Rightarrow>
                if w \<noteq> mb_index m1
                then bind_proc (forward (register_message brackets rt words raw) w) (\<lambda>(m2, reply).
                       case reply of
                         None \<Rightarrow> Unavailable
                       | Some r \<Rightarrow>
                           if fr_not_owner r
                           then (if route_again then register_routed brackets m2 rt words raw False else Unavailable)
                           else bind_proc (await_applied m2 (fr_applied_index r)) (\<lambda>_. result_of r))
                else TakeLock node_id (\<lambda>m2. bind_proc (register_as_owner m2 rt words raw node_id False) (\<lambda>(m3, r). Done r))
            | None \<Rightarrow> TakeLock node_id (\<lambda>m2. bind_proc (register_as_owner m2 rt words raw node_id True) (\<lambda>(m3, r). Done r))))
        (\<lambda>tr'. refuses_well rt raw (tr @ tr'))"
    proof (cases node)
      case (Inl r)
      have "refuses_well rt raw tr r" using s Inl unfolding x settled_def refuses_well_def excused_def by auto
      then show ?thesis using Inl x by simp
    next
      case (Inr n)
      then show ?thesis
        using fwd [of "register_message brackets rt words raw" _ tr] ensures_later [OF ensures_serve, of _ rt words raw _ tr]
        unfolding x prod.case sum.case by (cases "owner_for m1 n") auto
    qed
  qed
qed

lemma ensures_register:
  assumes "body_data loads b = Inr raw"
  shows "ensures (register loads brackets m rt b) (refuses_well rt raw)"
proof -
  have once: "ensures (register_routed brackets m2 rt words raw False) (refuses_well rt raw)" for m2 words
    by (rule ensures_register_routed) simp
  have "ensures (register_routed brackets m rt words raw True) (refuses_well rt raw)" for words
    by (rule ensures_register_routed) (rule once)
  then show ?thesis by (simp add: register_def assms lift_res_def)
qed

text \<open>
  C6: no terminal refusal from a store that may be behind. When a registration ends with a
  refusal that depends on what the store holds, then the refusal was decided by the applier
  where the entry was committed, or it is the owning member's reply, or this member completed a
  read barrier and looked again: a quorum confirmed a read index, the member applied through it,
  and the refusal is what the routing or the validation answers then.
\<close>

theorem refusals_are_confirmed:
  assumes "body_data loads b = Inr raw"
    and "snd (drive (register loads brackets m rt b) env h) = Returned r" and "decided_by_state r"
  shows "excused rt raw (fst (drive (register loads brackets m rt b) env h)) r"
  using ensures_register [OF assms(1), of brackets m rt] assms(2,3) unfolding ensures_def refuses_well_def by blast
theorem refusals_are_confirmed_witness:
  "excused SENDER [(str ''device_id'', JStr [1])]
     (fst (drive (register (\<lambda>_. Inl ValueError) (\<lambda>_. []) demo_member SENDER demo_sender) demo_env [])) (failure PARENT_MISSING)"
proof (rule refusals_are_confirmed)
  show "body_data (\<lambda>_. Inl ValueError) demo_sender = Inr [(str ''device_id'', JStr [1])]"
    by (simp add: body_data_def demo_sender_def)
  have "resolve_node demo_member SENDER [(str ''device_id'', JStr [1])] = Inl (failure PARENT_MISSING)"
    by (simp add: resolve_node_def demo_empty str_def)
  then show "snd (drive (register (\<lambda>_. Inl ValueError) (\<lambda>_. []) demo_member SENDER demo_sender) demo_env []) = Returned (failure PARENT_MISSING)"
    by (simp add: register_def body_data_def demo_sender_def lift_res_def register_routed.simps settle_decision_def
        decided_by_state_def failure_def read_barrier_def await_applied_def demo_env_def)
qed (simp add: decided_by_state_def)

subsection \<open>No 404 without a barrier\<close>

text \<open>Who may say that a node is not there: the member forwarded to, or this one after a barrier.\<close>

definition absent_confirmed :: "ResourceType \<Rightarrow> pystr \<Rightarrow> asked list \<Rightarrow> bool" where
  "absent_confirmed rt i tr \<longleftrightarrow> (\<exists>m. barred tr m \<and> get_resource (mb_store m) rt i False = None)"

definition denied :: "asked list \<Rightarrow> bool" where
  "denied tr \<longleftrightarrow> (\<exists>m w msg reply. Forwarded m w msg (Some reply) \<in> set tr \<and> \<not> fr_ok reply \<and> \<not> fr_not_owner reply \<and>
     fr_error reply \<noteq> str ''unavailable'')"

definition misses_well :: "pystr \<Rightarrow> asked list \<Rightarrow> int option \<Rightarrow> bool" where
  "misses_well i tr x \<longleftrightarrow> (x = None \<longrightarrow> denied tr \<or> absent_confirmed NODE i tr)"

lemma misses_well_weaken: "misses_well i tr x \<Longrightarrow> set tr \<subseteq> set tr' \<Longrightarrow> misses_well i tr' x"
proof -
  assume m: "misses_well i tr x" and sub: "set tr \<subseteq> set tr'"
  have "denied tr \<Longrightarrow> denied tr'" using sub unfolding denied_def by blast
  moreover have "absent_confirmed NODE i tr \<Longrightarrow> absent_confirmed NODE i tr'"
    using sub barred_weaken unfolding absent_confirmed_def by blast
  ultimately show ?thesis using m unfolding misses_well_def by blast
qed

lemma misses_well_later:
  "ensures p (misses_well i) \<Longrightarrow> ensures p (\<lambda>tr. misses_well i (pre @ tr))"
  by (erule ensures_mono) (rule misses_well_weaken, auto)

lemma ensures_beat_store:
  assumes "get_resource (mb_store m) NODE i False \<noteq> None"
  shows "ensures (beat_store m i) (\<lambda>tr b. bt_health b \<noteq> None \<and> bt_owner b = None)"
  unfolding beat_store_def
proof (rule ensures_asks(7))
  fix now
  show "ensures (case heartbeat now (mb_store m) i of Inl e \<Rightarrow> Raised e
      | Inr (st, h) \<Rightarrow> WriteStore (mb_current m) st (Done \<lparr>bt_health = h, bt_owner = None\<rparr>))
      (\<lambda>tr b. bt_health b \<noteq> None \<and> bt_owner b = None)"
    using assms by (auto simp: heartbeat_def bind_res_eq_Inr intro!: ensures_asks(8) split: sum.split prod.split option.splits)
qed

text \<open>A beat that found nothing and no other owner has confirmed it.\<close>

lemma ensures_beat_here:
  "ensures (beat_here m i) (\<lambda>tr x. bt_owner (snd x) = None \<longrightarrow> bt_health (snd x) = None \<longrightarrow> absent_confirmed NODE i tr)"
proof -
  have beat: "ensures (bind_proc (beat_store m' i) (\<lambda>b. Done (m', b)))
      (\<lambda>tr x. bt_owner (snd x) = None \<longrightarrow> bt_health (snd x) = None \<longrightarrow> absent_confirmed NODE i (pre @ tr))"
    if "get_resource (mb_store m') NODE i False \<noteq> None" for m' pre
    by (rule ensures_bind [OF ensures_beat_store [OF that]]) auto
  have gone: "absent_confirmed NODE i tr" if "barred tr m'" "get_resource (mb_store m') NODE i False = None" for tr m'
    using that by (auto simp: absent_confirmed_def)
  show ?thesis
  proof (cases "get_resource (mb_store m) NODE i False = None")
    case True
    then show ?thesis
      unfolding beat_here_def if_P [OF True]
      using beat gone by (intro ensures_bind [OF ensures_barrier]) (auto split: option.split)
  next
    case False
    then show ?thesis unfolding beat_here_def if_not_P [OF False] using beat [OF False, of "[]"] by simp
  qed
qed

lemma ensures_forward_beat:
  assumes "\<And>f m. retry = Some f \<Longrightarrow> ensures (f m) (misses_well i)"
  shows "ensures (forward_beat w i retry) (misses_well i)"
  unfolding forward_beat_def split_beta
proof (rule ensures_bind)
  show "ensures (forward (heartbeat_message i) w) (\<lambda>tr x. Forwarded (fst x) w (heartbeat_message i) (snd x) \<in> set tr)"
    unfolding forward_def by (rule ensures_asks(4)) simp
  fix tr x
  assume f: "Forwarded (fst x) w (heartbeat_message i) (snd x) \<in> set tr"
  have retry: "ensures (f m) (\<lambda>tr'. misses_well i (tr @ tr'))" if "retry = Some f" for f m
    by (rule misses_well_later [OF assms [OF that]])
  have "misses_well i tr None" if "snd x = Some r" "\<not> fr_not_owner r" "\<not> fr_ok r" "fr_error r \<noteq> str ''unavailable''" for r
    using f that unfolding misses_well_def denied_def by metis
  moreover have "ensures (ReadClock (\<lambda>now. Done (Some now))) (\<lambda>tr'. misses_well i (tr @ tr'))"
    by (rule ensures_asks(7)) (simp add: misses_well_def)
  ultimately show "ensures (case snd x of None \<Rightarrow> Unavailable
      | Some r \<Rightarrow> if fr_not_owner r then (case retry of None \<Rightarrow> Unavailable | Some again \<Rightarrow> again (fst x))
        else if \<not> fr_ok r then (if fr_error r = str ''unavailable'' then Unavailable else Done None)
        else if fr_applied_index r \<noteq> 0 then Done (Some (fr_applied_index r))
        else ReadClock (\<lambda>now. Done (Some now))) (\<lambda>tr'. misses_well i (tr @ tr'))"
    using retry by (auto simp: misses_well_def split: option.split)
qed

lemma ensures_beat_body:
  assumes "\<And>f m. retry = Some f \<Longrightarrow> ensures (f m) (misses_well i)"
  shows "ensures (let here = bind_proc (beat_here m i) (\<lambda>(m', b). case bt_owner b of
        Some w \<Rightarrow> forward_beat w i retry | None \<Rightarrow> Done (bt_health b))
      in case owner_for m i of Some w \<Rightarrow> if w \<noteq> mb_index m then forward_beat w i retry else here | None \<Rightarrow> here)
    (misses_well i)"
proof -
  have f: "ensures (forward_beat w i retry) (misses_well i)" for w using assms by (rule ensures_forward_beat)
  have "ensures (bind_proc (beat_here m i) (\<lambda>(m', b). case bt_owner b of
        Some w \<Rightarrow> forward_beat w i retry | None \<Rightarrow> Done (bt_health b))) (misses_well i)"
    using misses_well_later [OF f]
    by (intro ensures_bind [OF ensures_beat_here]) (auto simp: misses_well_def split: prod.split option.split)
  then show ?thesis unfolding Let_def using f by (auto split: option.split)
qed

lemma ensures_heartbeat: "ensures (backend_heartbeat m i) (misses_well i)"
proof -
  have once: "ensures (heartbeat_routed m' i False) (misses_well i)" for m'
    unfolding heartbeat_routed.simps [where m = m'] using ensures_beat_body [of None i m'] by simp
  have "ensures (let here = bind_proc (beat_here m i) (\<lambda>(m', b). case bt_owner b of
        Some w \<Rightarrow> forward_beat w i (Some (\<lambda>m'. heartbeat_routed m' i False)) | None \<Rightarrow> Done (bt_health b))
      in case owner_for m i of Some w \<Rightarrow> if w \<noteq> mb_index m
             then forward_beat w i (Some (\<lambda>m'. heartbeat_routed m' i False)) else here | None \<Rightarrow> here) (misses_well i)"
    by (rule ensures_beat_body) (use once in auto)
  then show ?thesis
    unfolding backend_heartbeat_def heartbeat_routed.simps [where m = m] by (simp add: Let_def)
qed

text \<open>The applier got the deletion's entry and found nothing to delete.\<close>

definition undeleted :: "ResourceType \<Rightarrow> pystr \<Rightarrow> asked list \<Rightarrow> bool" where
  "undeleted rt i tr \<longleftrightarrow> (\<exists>m p. Proposed m (UnregisterOp p rt i) (Some (Flag False)) \<in> set tr \<or>
     Proposed m (UnregisterOp p rt i) (Some (Count 0)) \<in> set tr)"

lemma ensures_unregister:
  "ensures (unregister m rt i) (\<lambda>tr x. x \<or> absent_confirmed rt i tr \<or> undeleted rt i tr)"
proof -
  have go: "ensures (bind_proc (commit (UnregisterOp p rt i)) (\<lambda>(m2, out).
        Done (case out of Flag b \<Rightarrow> b | Count n \<Rightarrow> n \<noteq> 0 | Registered r \<Rightarrow> True)))
      (\<lambda>tr x. x \<or> absent_confirmed rt i (pre @ tr) \<or> undeleted rt i (pre @ tr))" for p pre
    by (rule ensures_bind [OF ensures_commit]) (force simp: undeleted_def split: prod.split Outcome.split)
  have gone: "absent_confirmed rt i tr" if "barred tr m'" "get_resource (mb_store m') rt i False = None" for tr m'
    using that by (auto simp: absent_confirmed_def)
  show ?thesis
  proof (cases "get_resource (mb_store m) rt i False")
    case None
    show ?thesis
      unfolding unregister_def Let_def None option.case
      using go gone by (intro ensures_bind [OF ensures_barrier]) (auto split: option.split)
  next
    case (Some r)
    show ?thesis unfolding unregister_def Let_def Some option.case using go [where pre = "[]"] by simp
  qed
qed

text \<open>
  C7: no 404 from a store that may be behind. A heartbeat that ends without a health, and a
  deletion that ends with nothing deleted, were answered by the member the heartbeat was
  forwarded to (which was reachable and did not say the node had moved), by the applier, which
  got the deletion's entry and found nothing, or by this member after a completed read barrier, with the resource
  missing from the store it then has.
\<close>

theorem misses_are_confirmed:
  "(snd (drive (backend_heartbeat m i) env h) = Returned None \<longrightarrow>
      denied (fst (drive (backend_heartbeat m i) env h)) \<or>
      absent_confirmed NODE i (fst (drive (backend_heartbeat m i) env h))) \<and>
   (snd (drive (unregister m rt i) env h) = Returned False \<longrightarrow>
      absent_confirmed rt i (fst (drive (unregister m rt i) env h)) \<or>
      undeleted rt i (fst (drive (unregister m rt i) env h)))"
  using ensures_heartbeat [of m i] ensures_unregister [of m rt i] unfolding ensures_def misses_well_def by blast
theorem misses_are_confirmed_witness:
  "snd (drive (backend_heartbeat demo_member [9]) demo_env []) = Returned None \<and>
   snd (drive (unregister demo_member FLOW [9]) demo_env []) = Returned False \<and>
   (denied (fst (drive (backend_heartbeat demo_member [9]) demo_env [])) \<or>
    absent_confirmed NODE [9] (fst (drive (backend_heartbeat demo_member [9]) demo_env []))) \<and>
   (absent_confirmed FLOW [9] (fst (drive (unregister demo_member FLOW [9]) demo_env [])) \<or>
    undeleted FLOW [9] (fst (drive (unregister demo_member FLOW [9]) demo_env [])))"
proof -
  have "snd (drive (backend_heartbeat demo_member [9]) demo_env []) = Returned None"
    by (simp add: backend_heartbeat_def heartbeat_routed.simps beat_here_def demo_empty read_barrier_def
        await_applied_def demo_env_def Let_def)
  moreover have "snd (drive (unregister demo_member FLOW [9]) demo_env []) = Returned False"
    by (simp add: unregister_def demo_empty read_barrier_def await_applied_def demo_env_def Let_def)
  ultimately show ?thesis
    using misses_are_confirmed [of demo_member "[9]" demo_env "[]" FLOW] by simp
qed

subsection \<open>The store that was replaced\<close>

text \<open>
  The validation keeps the store it started with across the barrier. A member that catches up by
  installing a snapshot has its registry point to another store by then
  (\<open>Registry.swap_store\<close>), and the abandoned one refuses again whatever the new one holds:
  nothing is assumed here about \<open>mb_store m'\<close>.
\<close>

lemma abandoned_store_refuses:
  assumes "prepare (mb_store m) rt raw = Inr (Inl r)" and "decided_by_state r"
    and "mb_stores m' (mb_current m) = mb_store m" and "0 < i"
    and "en_index env h = (m0, Some i)" and "en_applied env (h @ [GotIndex m0 (Some i)]) i = (m', True)"
  shows "drive (register_as_owner m rt words raw n c) env h = ([GotIndex m0 (Some i), Waited m' i True], Returned (m', r))"
  using assms
  by (simp add: register_as_owner_def settle_decision_def read_barrier_def await_applied_def lift_res_def mb_store_def Let_def)

subsection \<open>What is proposed\<close>

text \<open>
  Every registration proposed was accepted by the validation on the view it was proposed from,
  carries the proposer as the claimed owner exactly when the routing found the node free, and
  keeps the creation cursor of an extant record.
\<close>

fun proposal_ok ::
  "pystr \<Rightarrow> pystr \<Rightarrow> bool \<Rightarrow> nat \<Rightarrow> ResourceType \<Rightarrow> (pystr, json) pydict \<Rightarrow> asked \<Rightarrow> bool" where
  "proposal_ok words n claims store rt raw (Proposed m op out) =
     (\<exists>m1 p c u h. prepare (mb_stores m1 store) rt raw = Inr (Inr p) \<and>
        op = RegisterOp (ProposalId (mb_index m1) 0) rt (pr_id p) n words c u h (creates p)
               (if claims then Some (mb_index m1) else None) \<and>
        c = (case get_resource (mb_store m1) rt (pr_id p) True of
               None \<Rightarrow> u | Some r \<Rightarrow> if extant r then created r else u))"
| "proposal_ok words n claims store rt raw a = True"

definition asks :: "'r proc \<Rightarrow> (asked \<Rightarrow> bool) \<Rightarrow> bool" where
  "asks p A \<longleftrightarrow> (\<forall>env h. \<forall>a \<in> set (fst (drive p env h)). A a)"

lemma asks_rules:
  "asks (Done x) A" "asks Unavailable A" "asks (Raised e) A"
  "(\<And>m i. A (GotIndex m i) \<and> asks (f1 m i) A) \<Longrightarrow> asks (AskReadIndex f1) A"
  "(\<And>m ok. A (Waited m j ok) \<and> asks (f2 m ok) A) \<Longrightarrow> asks (AwaitApplied j f2) A"
  "(\<And>m out. A (Proposed m op out) \<and> asks (f3 m out) A) \<Longrightarrow> asks (AskPropose op f3) A"
  "(\<And>c. A (Stamped rt c) \<and> asks (f6 c) A) \<Longrightarrow> asks (AllocateCursor rt f6) A"
  "(\<And>t. A (Clocked t) \<and> asks (f7 t) A) \<Longrightarrow> asks (ReadClock f7) A"
  by (simp_all add: asks_def Let_def split_beta)

lemma asks_bind:
  assumes "asks p A" and e: "ensures p P" and f: "\<And>tr x. P tr x \<Longrightarrow> asks (f x) A"
  shows "asks (bind_proc p f) A"
  unfolding asks_def
proof (intro allI)
  fix env h
  show "\<forall>a \<in> set (fst (drive (bind_proc p f) env h)). A a"
  proof (cases "snd (drive p env h)")
    case (Returned x)
    then have "P (fst (drive p env h)) x" using e unfolding ensures_def by blast
    from f [OF this] assms(1) Returned show ?thesis
      by (auto simp: asks_def drive_bind after_def Let_def)
  qed (use assms(1) in \<open>simp_all add: asks_def drive_bind after_def\<close>)
qed

lemma asks_settle:
  assumes "\<And>m i. A (GotIndex m i)" and "\<And>m j ok. A (Waited m j ok)"
  shows "asks (settle_decision m f) A"
proof -
  have lr: "asks (lift_res r) A" for r :: "'c res" by (cases r) (simp_all add: lift_res_def asks_rules)
  have bar: "asks read_barrier A"
    unfolding read_barrier_def await_applied_def
    by (rule asks_rules(4)) (auto simp: assms asks_rules(1,2) intro!: asks_rules(5) split: option.split)
  have "asks (bind_proc (lift_res (f m')) (\<lambda>second. Done (m', second))) A" for m'
    by (rule asks_bind [OF lr ensures_any]) (rule asks_rules(1))
  then have "asks (bind_proc read_barrier (\<lambda>m'. bind_proc (lift_res (f m')) (\<lambda>second. Done (m', second)))) A"
    by (rule asks_bind [OF bar ensures_any])
  then show ?thesis
    unfolding settle_decision_def by (intro asks_bind [OF lr ensures_any]) (auto simp: asks_rules(1) split: sum.split)
qed

lemma ensures_cursors_for:
  "ensures (cursors_for m rt i) (\<lambda>tr x. fst x = (case get_resource (mb_store m) rt i True of
     None \<Rightarrow> snd x | Some r \<Rightarrow> if extant r then created r else snd x))"
  unfolding cursors_for_def by (rule ensures_asks(6)) (auto split: option.split)


lemma reply_round_trip:
  assumes "rr_error r \<noteq> None \<longrightarrow> \<not> rr_created r \<and> rr_events r = []"
  shows "result_of (reply_for r applied rid) = Done (r\<lparr>rr_events := []\<rparr>)"
proof (cases "rr_error r")
  case None
  then show ?thesis by (cases r) (simp add: result_of_def reply_for_def rr_ok_def)
next
  case (Some e)
  have "find (\<lambda>x. error_value x = error_value e) registration_errors = Some e"
    by (cases e) (simp_all add: registration_errors_def)
  then show ?thesis using Some assms
    by (cases r) (simp add: result_of_def reply_for_def rr_ok_def failure_def)
qed

text \<open>No refusal of the store or of a malformed body is answered as a success or as a 503.\<close>

lemma resolve_refuses: "resolve_node m rt raw = Inl r \<Longrightarrow> \<exists>e. r = failure e \<and> e \<in> {SCHEMA, PARENT_MISSING}"
  by (auto simp: resolve_node_def split: if_splits option.splits json.splits)

end
