(* ===== verification/Keys.thy ===== *)
theory Keys
  imports Utf8 Registry_Types "HOL-Library.Sublist"
begin

section \<open>The key layout\<close>

text \<open>
  The \<open>Namespace\<close> and \<open>ParsedKey\<close> of \<open>src/nmos/registry/keys.py\<close> and the requests of
  \<open>src/nmos/etcd/kv.py\<close>: where a resource is kept, what a key identifies, and the comparisons,
  writes, reads and ranged deletes the registry asks etcd for. etcd compares keys as byte strings;
  a request is modelled by the fields the builders set.
\<close>

subsection \<open>Text\<close>

text \<open>\<open>text.split(sep)\<close> for a one-character separator.\<close>

fun py_split :: "nat \<Rightarrow> pystr \<Rightarrow> pystr list" where
  "py_split c [] = [[]]"
| "py_split c (x # xs) =
     (if x = c then [] # py_split c xs
      else case py_split c xs of [] \<Rightarrow> [[x]] | p # ps \<Rightarrow> (x # p) # ps)"

text \<open>
  \<open>bytes.decode("utf-8", errors="replace")\<close>: every maximal part of an ill-formed sequence becomes
  one replacement character.
\<close>

definition second_ok :: "nat \<Rightarrow> nat \<Rightarrow> bool" where
  "second_ok a b \<longleftrightarrow>
     (if a = 224 then 160 \<le> b \<and> b < 192 else if a = 237 then 128 \<le> b \<and> b < 160
      else if a = 240 then 144 \<le> b \<and> b < 192 else if a = 244 then 128 \<le> b \<and> b < 144
      else cont b)"

fun utf8_replace :: "nat list \<Rightarrow> pystr" where
  "utf8_replace [] = []"
| "utf8_replace (a # rest) =
     (if a < 128 then a # utf8_replace rest
      else if 194 \<le> a \<and> a < 224 then
        (case rest of
           b # r2 \<Rightarrow> if cont b then ((a - 192) * 64 + (b - 128)) # utf8_replace r2 else 65533 # utf8_replace rest
         | [] \<Rightarrow> [65533])
      else if 224 \<le> a \<and> a < 240 then
        (case rest of
           [] \<Rightarrow> [65533]
         | b # r2 \<Rightarrow>
             if \<not> second_ok a b then 65533 # utf8_replace rest
             else (case r2 of
                     [] \<Rightarrow> [65533]
                   | c # r3 \<Rightarrow>
                       if cont c then ((a - 224) * 4096 + (b - 128) * 64 + (c - 128)) # utf8_replace r3
                       else 65533 # utf8_replace r2))
      else if 240 \<le> a \<and> a < 245 then
        (case rest of
           [] \<Rightarrow> [65533]
         | b # r2 \<Rightarrow>
             if \<not> second_ok a b then 65533 # utf8_replace rest
             else (case r2 of
                     [] \<Rightarrow> [65533]
                   | c # r3 \<Rightarrow>
                       if \<not> cont c then 65533 # utf8_replace r2
                       else (case r3 of
                               [] \<Rightarrow> [65533]
                             | d # r4 \<Rightarrow>
                                 if cont d
                                 then ((a - 240) * 262144 + (b - 128) * 4096 + (c - 128) * 64 + (d - 128)) # utf8_replace r4
                                 else 65533 # utf8_replace r3)))
      else 65533 # utf8_replace rest)"

definition utf8_decode_replace :: "bytes \<Rightarrow> pystr" where
  "utf8_decode_replace bs = utf8_replace (map unat bs)"

subsection \<open>The namespace\<close>

record Namespace = ns_prefix :: pystr

definition new_namespace :: "pystr \<Rightarrow> Namespace res" where
  "new_namespace p =
     (if take 1 p \<noteq> str ''/'' then Inl Key_Error
      else if p \<noteq> [] \<and> last p = 47 then Inl Key_Error
      else Inr \<lparr>ns_prefix = p\<rparr>)"

text \<open>\<open>f"{a}/{b}/..."\<close>, encoded.\<close>

definition path_text :: "pystr list \<Rightarrow> pystr" where
  "path_text ps = py_join (str ''/'') ps"

definition ns_root :: "Namespace \<Rightarrow> bytes res" where
  "ns_root ns = utf8_encode (path_text [ns_prefix ns, []])"

definition meta_config :: "Namespace \<Rightarrow> bytes res" where
  "meta_config ns = utf8_encode (path_text [ns_prefix ns, str ''meta'', str ''config''])"

definition ids_root :: "Namespace \<Rightarrow> bytes res" where
  "ids_root ns = utf8_encode (path_text [ns_prefix ns, str ''ids'', []])"

definition nodes_root :: "Namespace \<Rightarrow> bytes res" where
  "nodes_root ns = utf8_encode (path_text [ns_prefix ns, str ''nodes'', []])"

definition id_claim :: "Namespace \<Rightarrow> pystr \<Rightarrow> bytes res" where
  "id_claim ns i = utf8_encode (path_text [ns_prefix ns, str ''ids'', i])"

definition node_subtree :: "Namespace \<Rightarrow> pystr \<Rightarrow> bytes res" where
  "node_subtree ns n = utf8_encode (path_text [ns_prefix ns, str ''nodes'', n, []])"

definition node_key :: "Namespace \<Rightarrow> pystr \<Rightarrow> bytes res" where
  "node_key ns n = utf8_encode (path_text [ns_prefix ns, str ''nodes'', n, str ''self''])"

definition device_subtree :: "Namespace \<Rightarrow> pystr \<Rightarrow> pystr \<Rightarrow> bytes res" where
  "device_subtree ns n d = utf8_encode (path_text [ns_prefix ns, str ''nodes'', n, str ''devices'', d, []])"

definition device_key :: "Namespace \<Rightarrow> pystr \<Rightarrow> pystr \<Rightarrow> bytes res" where
  "device_key ns n d = utf8_encode (path_text [ns_prefix ns, str ''nodes'', n, str ''devices'', d, str ''self''])"

definition child_key :: "Namespace \<Rightarrow> ResourceType \<Rightarrow> pystr \<Rightarrow> pystr \<Rightarrow> pystr \<Rightarrow> bytes res" where
  "child_key ns rt n d i =
     (if rt = NODE \<or> rt = DEVICE then Inl Key_Error
      else utf8_encode (path_text [ns_prefix ns, str ''nodes'', n, str ''devices'', d, plural rt, i]))"

subsection \<open>What a key identifies\<close>

record ParsedKey =
  pk_type :: ResourceType
  pk_id :: pystr
  pk_node :: pystr
  pk_device :: "pystr option"

definition is_node :: "ParsedKey \<Rightarrow> bool" where
  "is_node k \<longleftrightarrow> pk_type k = NODE"

definition depth :: "ParsedKey \<Rightarrow> nat" where
  "depth k = (if pk_type k = NODE then 0 else if pk_type k = DEVICE then 1 else 2)"

definition parse_parts :: "pystr list \<Rightarrow> ParsedKey option res" where
  "parse_parts parts =
     (if parts ! 0 = str ''meta'' \<or> parts ! 0 = str ''ids'' then Inr None
      else if parts ! 0 \<noteq> str ''nodes'' then Inl Key_Error
      else if length parts = 3 \<and> parts ! 2 = str ''self''
      then Inr (Some \<lparr>pk_type = NODE, pk_id = parts ! 1, pk_node = parts ! 1, pk_device = None\<rparr>)
      else if length parts = 5 \<and> parts ! 2 = str ''devices'' \<and> parts ! 4 = str ''self''
      then Inr (Some \<lparr>pk_type = DEVICE, pk_id = parts ! 3, pk_node = parts ! 1, pk_device = Some (parts ! 3)\<rparr>)
      else if length parts = 6 \<and> parts ! 2 = str ''devices'' then
        (case from_plural (parts ! 4) of
           None \<Rightarrow> Inl Key_Error
         | Some rt \<Rightarrow> Inr (Some \<lparr>pk_type = rt, pk_id = parts ! 5, pk_node = parts ! 1, pk_device = Some (parts ! 3)\<rparr>))
      else Inl Key_Error)"

definition parse_key :: "Namespace \<Rightarrow> bytes \<Rightarrow> ParsedKey option res" where
  "parse_key ns key =
     (let t = utf8_decode_replace key; p = ns_prefix ns
      in if take (Suc (length p)) t \<noteq> p @ str ''/'' then Inl Key_Error
         else parse_parts (py_split 47 (drop (Suc (length p)) t)))"

subsection \<open>Requests\<close>

text \<open>\<open>prefix_range_end\<close>: the prefix with its last byte below 255 incremented, what follows cut off.\<close>

fun bump :: "bytes \<Rightarrow> bytes option" where
  "bump [] = None"
| "bump (b # bs) =
     (case bump bs of Some e \<Rightarrow> Some (b # e) | None \<Rightarrow> if b < 255 then Some [b + 1] else None)"

definition prefix_range_end :: "bytes \<Rightarrow> bytes" where
  "prefix_range_end p = (case bump p of Some e \<Rightarrow> e | None \<Rightarrow> [0])"

datatype CompareResult = EQUAL | GREATER
datatype CompareTarget = MOD | CREATE

record Compare =
  cm_result :: CompareResult
  cm_target :: CompareTarget
  cm_key :: bytes
  cm_revision :: int

definition compare_mod :: "bytes \<Rightarrow> int \<Rightarrow> Compare" where
  "compare_mod k r = \<lparr>cm_result = EQUAL, cm_target = MOD, cm_key = k, cm_revision = r\<rparr>"

definition compare_create :: "bytes \<Rightarrow> int \<Rightarrow> Compare" where
  "compare_create k r = \<lparr>cm_result = EQUAL, cm_target = CREATE, cm_key = k, cm_revision = r\<rparr>"

definition compare_exists :: "bytes \<Rightarrow> Compare" where
  "compare_exists k = \<lparr>cm_result = GREATER, cm_target = CREATE, cm_key = k, cm_revision = 0\<rparr>"

definition compare_absent :: "bytes \<Rightarrow> Compare" where
  "compare_absent k = compare_create k 0"

datatype RequestOp =
    PutOp (op_key: bytes) (op_value: bytes) (op_lease: int)
  | RangeOp (op_key: bytes) (op_end: bytes)
  | DeleteOp (op_key: bytes) (op_end: bytes)

definition put_op :: "bytes \<Rightarrow> bytes \<Rightarrow> int \<Rightarrow> RequestOp" where
  "put_op k v lease = PutOp k v lease"

text \<open>\<open>range_end or b""\<close>: without one, the request is for the key alone.\<close>

definition range_op :: "bytes \<Rightarrow> bytes option \<Rightarrow> RequestOp" where
  "range_op k e = RangeOp k (case e of None \<Rightarrow> [] | Some x \<Rightarrow> x)"

definition delete_op :: "bytes \<Rightarrow> bytes option \<Rightarrow> RequestOp" where
  "delete_op k e = DeleteOp k (case e of None \<Rightarrow> [] | Some x \<Rightarrow> x)"

definition delete_prefix_op :: "bytes \<Rightarrow> RequestOp" where
  "delete_prefix_op p = delete_op p (Some (prefix_range_end p))"

subsection \<open>Byte ranges\<close>

lemma byte_max: "(b :: 8 word) < 255 \<or> b = 255"
proof -
  have "unat b < 256" using unsigned_less [where w = b and 'a = nat] by simp
  then show ?thesis by (auto simp: word_less_nat_alt word_unat_eq_iff)
qed

lemma byte_succ:
  assumes "(b :: 8 word) < 255"
  shows "c < b + 1 \<longleftrightarrow> c \<le> b" "b + 1 \<noteq> 0"
proof -
  have u: "unat b < 255" using assms by (simp add: word_less_nat_alt)
  then have s: "unat (b + 1) = Suc (unat b)" by (simp add: unat_word_ariths)
  show "c < b + 1 \<longleftrightarrow> c \<le> b" using s by (simp add: word_less_nat_alt word_le_nat_alt less_Suc_eq_le)
  show "b + 1 \<noteq> 0" using s by auto
qed

lemma bump_range:
  "p \<le> k \<and> (case bump p of None \<Rightarrow> True | Some e \<Rightarrow> k < e) \<longleftrightarrow> prefix p k"
proof (induction p arbitrary: k)
  case Nil
  show ?case by simp
next
  case (Cons b bs)
  show ?case
  proof (cases k)
    case k: (Cons c ks)
    consider (inside) e where "bump bs = Some e" | (here) "bump bs = None" "b < 255" | (top) "bump bs = None" "b = 255"
      using byte_max [of b] by (cases "bump bs") auto
    then show ?thesis
    proof cases
      case inside
      then have "bs \<le> ks \<and> ks < e \<longleftrightarrow> prefix bs ks" using Cons.IH [of ks] by simp
      with k inside show ?thesis by auto
    next
      case here
      then have i: "bs \<le> ks \<longleftrightarrow> prefix bs ks" using Cons.IH [of ks] by simp
      have "k < [b + 1] \<longleftrightarrow> c \<le> b" using k byte_succ(1) [OF here(2), of c] by simp
      with i k here show ?thesis by auto
    next
      case top
      then have i: "bs \<le> ks \<longleftrightarrow> prefix bs ks" using Cons.IH [of ks] by simp
      have "\<not> b < c" using top byte_max [of c] by auto
      with i k top show ?thesis by auto
    qed
  qed simp
qed

lemma bump_nonempty: "bump p \<noteq> Some []"
  by (cases p) (auto split: option.splits if_splits)

lemma bump_nonzero: "bump p = Some e \<Longrightarrow> e \<noteq> [0]"
  by (induction p arbitrary: e) (auto split: option.splits if_splits simp: byte_succ(2) bump_nonempty)

subsection \<open>Encoding\<close>

declare utf8_replace.simps(2) [simp del]

lemma utf8_replace_char:
  assumes "utf8_char c = Some bs"
  shows "utf8_replace (bs @ rest) = c # utf8_replace rest"
proof -
  consider (one) "c < 128" | (two) "128 \<le> c" "c < 2048"
    | (three) "2048 \<le> c" "c < 65536" "\<not> (55296 \<le> c \<and> c < 57344)" | (four) "65536 \<le> c" "c < 1114112"
    using assms by (auto simp: utf8_char_def split: if_splits)
  then show ?thesis
  proof cases
    case one
    then show ?thesis using assms by (auto simp: utf8_char_def utf8_replace.simps(2))
  next
    case two
    then have bs: "bs = [192 + c div 64, 128 + c mod 64]" using assms by (simp add: utf8_char_def)
    have "2 \<le> c div 64" "c div 64 < 32" using two by auto
    then show ?thesis using mod_parts(1) [of c] unfolding bs append_Cons by (subst utf8_replace.simps(2)) (simp add: cont_mod)
  next
    case three
    then have bs: "bs = [224 + c div 4096, 128 + c div 64 mod 64, 128 + c mod 64]"
      using assms by (auto simp: utf8_char_def)
    have "c div 4096 < 16" using three by auto
    moreover have "second_ok (224 + c div 4096) (128 + c div 64 mod 64)"
    proof -
      define q where "q = c div 64"
      have q: "c div 4096 = q div 64" by (simp add: q_def div_mult2_eq [symmetric])
      have "32 \<le> q" "\<not> (864 \<le> q \<and> q < 896)" using three
        by (auto simp: q_def less_eq_div_iff_mult_less_eq div_less_iff_less_mult)
      moreover have "64 * (q div 64) + q mod 64 = q" "q mod 64 < 64" by simp_all
      ultimately have "q div 64 = 0 \<longrightarrow> 32 \<le> q mod 64" "q div 64 = 13 \<longrightarrow> q mod 64 < 32" by linarith+
      then show ?thesis using \<open>c div 4096 < 16\<close> by (auto simp: second_ok_def cont_def q q_def [symmetric])
    qed
    ultimately show ?thesis using mod_parts(2) [of c] cont_mod [of c] cont_mod [of "c div 64"] unfolding bs append_Cons
      by (subst utf8_replace.simps(2)) simp
  next
    case four
    then have bs: "bs = [240 + c div 262144, 128 + c div 4096 mod 64, 128 + c div 64 mod 64, 128 + c mod 64]"
      using assms by (auto simp: utf8_char_def)
    have "c div 262144 < 5" using four by auto
    moreover have "second_ok (240 + c div 262144) (128 + c div 4096 mod 64)"
    proof -
      define q where "q = c div 4096"
      have q: "c div 262144 = q div 64" by (simp add: q_def div_mult2_eq [symmetric])
      have "16 \<le> q" "q < 272" using four
        by (auto simp: q_def less_eq_div_iff_mult_less_eq div_less_iff_less_mult)
      moreover have "64 * (q div 64) + q mod 64 = q" by simp
      ultimately have "q div 64 = 0 \<longrightarrow> 16 \<le> q mod 64" "q div 64 = 4 \<longrightarrow> q mod 64 < 16" by linarith+
      then show ?thesis using \<open>c div 262144 < 5\<close> by (auto simp: second_ok_def cont_def q q_def [symmetric])
    qed
    ultimately show ?thesis using mod_parts(3) [of c] cont_mod [of c] cont_mod [of "c div 64"] cont_mod [of "c div 4096"] unfolding bs append_Cons
      by (subst utf8_replace.simps(2)) simp
  qed
qed

lemma utf8_replace_values: "utf8_values s = Some vs \<Longrightarrow> utf8_replace (vs @ r) = s @ utf8_replace r"
  by (induction s arbitrary: vs) (auto simp: utf8_replace_char split: option.splits)

lemma utf8_bytes:
  assumes "utf8_encode s = Inr bs"
  obtains vs where "utf8_values s = Some vs" "map unat bs = vs"
proof -
  from assms obtain vs where vs: "utf8_values s = Some vs" "bs = map of_nat vs"
    by (auto simp: utf8_encode_def split: option.splits)
  then have "map unat bs = vs" using utf8_values_bytes [OF vs(1)] by (auto simp: map_idI unat_of_nat_byte)
  with vs show thesis using that by blast
qed

lemma utf8_decode_replace_encode: "utf8_encode s = Inr bs \<Longrightarrow> utf8_decode_replace bs = s"
  by (erule utf8_bytes) (use utf8_replace_values [of s _ "[]"] in \<open>auto simp: utf8_decode_replace_def\<close>)

lemma utf8_values_append:
  "utf8_values (s @ t) = (case utf8_values s of None \<Rightarrow> None | Some v \<Rightarrow> map_option ((@) v) (utf8_values t))"
proof (induction s)
  case Nil
  show ?case by (cases "utf8_values t") simp_all
next
  case (Cons c s)
  then show ?case by (cases "utf8_values t") (auto split: option.splits)
qed

text \<open>Texts and their encodings have the same prefixes.\<close>

lemma utf8_prefix:
  assumes "utf8_encode s = Inr a" and "utf8_encode t = Inr b"
  shows "prefix a b \<longleftrightarrow> prefix s t"
proof
  obtain vs where vs: "utf8_values s = Some vs" "map unat a = vs" using utf8_bytes [OF assms(1)] .
  obtain vt where vt: "utf8_values t = Some vt" "map unat b = vt" using utf8_bytes [OF assms(2)] .
  {
    assume "prefix a b"
    then obtain r where "vt = vs @ r" using vs vt by (auto simp: prefix_def)
    then have "t = s @ utf8_replace r"
      using utf8_replace_values [OF vt(1), of "[]"] utf8_replace_values [OF vs(1), of r] by simp
    then show "prefix s t" by simp
  next
    assume "prefix s t"
    then obtain u where "t = s @ u" by (auto simp: prefix_def)
    then obtain w where "vt = vs @ w" using vs(1) vt(1) by (auto simp: utf8_values_append)
    then have "map unat b = map unat a @ w" using vs vt by simp
    then obtain b1 b2 where "b = b1 @ b2" "map unat b1 = map unat a" by (metis append_eq_map_conv map_eq_append_conv)
    moreover have "inj (unat :: 8 word \<Rightarrow> nat)" by (rule injI) (simp add: word_unat_eq_iff)
    ultimately have "b1 = a" using inj_map_eq_map by blast
    with \<open>b = b1 @ b2\<close> show "prefix a b" by simp
  }
qed

subsection \<open>Splitting what was joined\<close>

lemma py_split_nonempty: "py_split c s \<noteq> []"
  by (cases s) (auto split: list.splits)

lemma py_split_part: "c \<notin> set p \<Longrightarrow> py_split c p = [p]"
  by (induction p) auto

lemma py_split_Cons: "c \<notin> set p \<Longrightarrow> py_split c (p @ c # s) = p # py_split c s"
  by (induction p) auto

lemma py_split_join:
  "ps \<noteq> [] \<Longrightarrow> \<forall>p \<in> set ps. 47 \<notin> set p \<Longrightarrow> py_split 47 (path_text ps) = ps"
  unfolding path_text_def
  by (induction ps rule: py_join.induct [of "\<lambda>_. P" for P, case_names a b c])
    (auto simp: py_split_part py_split_Cons str_def)

subsection \<open>What the layout promises\<close>

text \<open>The key of what a key identifies; an id that can be part of a path has no slash.\<close>

definition key_of :: "Namespace \<Rightarrow> ParsedKey \<Rightarrow> bytes res" where
  "key_of ns k =
     (case pk_type k of
        NODE \<Rightarrow> node_key ns (pk_node k)
      | DEVICE \<Rightarrow> device_key ns (pk_node k) (pk_id k)
      | rt \<Rightarrow> child_key ns rt (pk_node k) (case pk_device k of None \<Rightarrow> [] | Some d \<Rightarrow> d) (pk_id k))"

definition wf_key :: "ParsedKey \<Rightarrow> bool" where
  "wf_key k \<longleftrightarrow>
     47 \<notin> set (pk_id k) \<and> 47 \<notin> set (pk_node k) \<and>
     (case pk_type k of
        NODE \<Rightarrow> pk_id k = pk_node k \<and> pk_device k = None
      | DEVICE \<Rightarrow> pk_device k = Some (pk_id k)
      | _ \<Rightarrow> (\<exists>d. pk_device k = Some d \<and> 47 \<notin> set d))"

text \<open>The parts of a key below the namespace.\<close>

definition key_parts :: "ParsedKey \<Rightarrow> pystr list" where
  "key_parts k =
     (case pk_type k of
        NODE \<Rightarrow> [str ''nodes'', pk_node k, str ''self'']
      | DEVICE \<Rightarrow> [str ''nodes'', pk_node k, str ''devices'', pk_id k, str ''self'']
      | rt \<Rightarrow> [str ''nodes'', pk_node k, str ''devices'', (case pk_device k of None \<Rightarrow> [] | Some d \<Rightarrow> d), plural rt, pk_id k])"

lemma path_text_Cons: "ps \<noteq> [] \<Longrightarrow> path_text (p # ps) = p @ 47 # path_text ps"
  by (cases ps) (simp_all add: path_text_def str_def)

lemma key_of_parts: "key_of ns k = Inr b \<Longrightarrow> utf8_encode (path_text (ns_prefix ns # key_parts k)) = Inr b"
  by (cases "pk_type k")
    (auto simp: key_of_def key_parts_def node_key_def device_key_def child_key_def)

lemma parts_slashless: "wf_key k \<Longrightarrow> p \<in> set (key_parts k) \<Longrightarrow> 47 \<notin> set p"
  by (cases "pk_type k") (auto simp: wf_key_def key_parts_def plural_def str_def)

lemma parse_key_parts:
  assumes "wf_key k"
  shows "parse_parts (key_parts k) = Inr (Some k)"
  using assms from_plural_iff [of "plural (pk_type k)" "pk_type k"]
  by (cases "pk_type k") (auto simp: wf_key_def parse_parts_def key_parts_def str_def)

lemma key_parts_nonempty: "key_parts k \<noteq> []"
  by (simp add: key_parts_def split: ResourceType.split)

lemma key_parses:
  assumes "wf_key k" and "key_of ns k = Inr b"
  shows "parse_key ns b = Inr (Some k)"
proof -
  let ?t = "path_text (ns_prefix ns # key_parts k)"
  have "utf8_decode_replace b = ns_prefix ns @ 47 # path_text (key_parts k)"
    using utf8_decode_replace_encode [OF key_of_parts [OF assms(2)]] key_parts_nonempty by (simp add: path_text_Cons)
  moreover have "py_split 47 (path_text (key_parts k)) = key_parts k"
    using py_split_join [OF key_parts_nonempty] parts_slashless [OF assms(1)] by blast
  ultimately show ?thesis using parse_key_parts [OF assms(1)] by (simp add: parse_key_def str_def)
qed

text \<open>
  C25: keys round trip. Every key the registry writes for a resource whose ids have no slash is
  parsed back to that kind, id, Node and Device; so two resources never share a key.
\<close>

theorem key_round_trip:
  assumes "wf_key k" and "key_of ns k = Inr b"
  shows "parse_key ns b = Inr (Some k)"
  by (rule key_parses [OF assms])

definition demo_ns :: Namespace where "demo_ns = \<lparr>ns_prefix = str ''/r''\<rparr>"

definition demo_key :: ParsedKey where
  "demo_key = \<lparr>pk_type = SENDER, pk_id = str ''s'', pk_node = str ''n'', pk_device = Some (str ''d'')\<rparr>"

lemma demo_key_bytes: "key_of demo_ns demo_key = Inr (map of_nat (str ''/r/nodes/n/devices/d/senders/s''))"
  by (simp add: key_of_def demo_key_def demo_ns_def child_key_def path_text_def str_def plural_def utf8_encode_def utf8_char_def)

theorem key_round_trip_witness:
  "parse_key demo_ns (map of_nat (str ''/r/nodes/n/devices/d/senders/s'')) = Inr (Some demo_key)"
  by (rule key_round_trip [OF _ demo_key_bytes]) (simp add: wf_key_def demo_key_def str_def)

lemma slash_prefix:
  fixes a b :: pystr
  assumes "47 \<notin> set a" and "47 \<notin> set b"
  shows "prefix (a @ 47 # s) (b @ 47 # r) \<longleftrightarrow> a = b \<and> prefix s r"
proof
  assume "prefix (a @ 47 # s) (b @ 47 # r)"
  then obtain t where "a @ 47 # s @ t = b @ 47 # r" by (auto simp: prefix_def)
  then have "(a, True, s @ t) = (b, True, r)"
    using py_partition_found [OF assms(1), of "s @ t"] py_partition_found [OF assms(2), of r] by metis
  then show "a = b \<and> prefix s r" by auto
qed simp

lemma slashless_prefix: "47 \<notin> set b \<Longrightarrow> \<not> prefix (a @ 47 # s) b" for b :: pystr
  by (auto simp: prefix_def)

lemma slash_words:
  "prefix (str ''devices'' @ 47 # s) (str ''devices'' @ 47 # r) \<longleftrightarrow> prefix s r"
  "\<not> prefix (str ''devices'' @ 47 # s) (str ''self'')"
  by (simp_all add: str_def)

lemma range_prefix:
  "p \<le> k \<and> (prefix_range_end p = [0] \<or> k < prefix_range_end p) \<longleftrightarrow> prefix p k"
  using bump_range [of p k] bump_nonzero [of p] by (auto simp: prefix_range_end_def split: option.splits)

lemma subtree_ranges:
  shows "p \<le> k \<and> (prefix_range_end p = [0] \<or> k < prefix_range_end p) \<longleftrightarrow> prefix p k"
    and "wf_key r \<Longrightarrow> key_of ns r = Inr k \<Longrightarrow> 47 \<notin> set n \<Longrightarrow> node_subtree ns n = Inr p \<Longrightarrow>
      p \<le> k \<and> (prefix_range_end p = [0] \<or> k < prefix_range_end p) \<longleftrightarrow> pk_node r = n"
    and "wf_key r \<Longrightarrow> key_of ns r = Inr k \<Longrightarrow> 47 \<notin> set n \<Longrightarrow> 47 \<notin> set d \<Longrightarrow> device_subtree ns n d = Inr p \<Longrightarrow>
      p \<le> k \<and> (prefix_range_end p = [0] \<or> k < prefix_range_end p) \<longleftrightarrow> pk_node r = n \<and> pk_device r = Some d"
proof -
  show "p \<le> k \<and> (prefix_range_end p = [0] \<or> k < prefix_range_end p) \<longleftrightarrow> prefix p k" by (rule range_prefix)
next
  assume r: "wf_key r" "key_of ns r = Inr k" and n: "47 \<notin> set n" and p: "node_subtree ns n = Inr p"
  have "prefix p k \<longleftrightarrow> prefix (path_text [ns_prefix ns, str ''nodes'', n, []]) (path_text (ns_prefix ns # key_parts r))"
    using utf8_prefix [OF _ key_of_parts [OF r(2)]] p by (simp add: node_subtree_def)
  also have "\<dots> \<longleftrightarrow> n = pk_node r"
    using slash_prefix [OF n, of "pk_node r" "[]"] r(1)
    by (cases "pk_type r") (auto simp: key_parts_def path_text_Cons wf_key_def path_text_def [of "[x]" for x])
  finally show "p \<le> k \<and> (prefix_range_end p = [0] \<or> k < prefix_range_end p) \<longleftrightarrow> pk_node r = n"
    using range_prefix by auto
next
  assume r: "wf_key r" "key_of ns r = Inr k" and n: "47 \<notin> set n" "47 \<notin> set d" and p: "device_subtree ns n d = Inr p"
  have "prefix p k \<longleftrightarrow> prefix (path_text [ns_prefix ns, str ''nodes'', n, str ''devices'', d, []]) (path_text (ns_prefix ns # key_parts r))"
    using utf8_prefix [OF _ key_of_parts [OF r(2)]] p by (simp add: device_subtree_def)
  also have "\<dots> \<longleftrightarrow> n = pk_node r \<and> Some d = pk_device r"
    using slash_prefix [OF n(1), of "pk_node r"] slash_prefix [OF n(2)] r(1)
    by (cases "pk_type r")
      (auto simp: key_parts_def path_text_Cons wf_key_def path_text_def [of "[x]" for x] slash_words slashless_prefix)
  finally show "p \<le> k \<and> (prefix_range_end p = [0] \<or> k < prefix_range_end p) \<longleftrightarrow> pk_node r = n \<and> pk_device r = Some d"
    using range_prefix by auto
qed

text \<open>
  C24: a subtree is a range. In etcd's order of keys, the keys from a prefix up to
  \<open>prefix_range_end\<close> of it (or to the end of the key space, which is spelled as one zero byte)
  are exactly the keys with that prefix; hence a ranged delete over a Node's or a Device's subtree
  reaches every resource key of that Node or Device and no other resource key.
\<close>

theorem subtree_is_a_range:
  "(p \<le> k \<and> (prefix_range_end p = [0] \<or> k < prefix_range_end p) \<longleftrightarrow> prefix p k) \<and>
   (wf_key r \<and> key_of ns r = Inr k \<and> 47 \<notin> set n \<and> node_subtree ns n = Inr p \<longrightarrow>
      (p \<le> k \<and> (prefix_range_end p = [0] \<or> k < prefix_range_end p) \<longleftrightarrow> pk_node r = n)) \<and>
   (wf_key r \<and> key_of ns r = Inr k \<and> 47 \<notin> set n \<and> 47 \<notin> set d \<and> device_subtree ns n d = Inr p \<longrightarrow>
      (p \<le> k \<and> (prefix_range_end p = [0] \<or> k < prefix_range_end p) \<longleftrightarrow> pk_node r = n \<and> pk_device r = Some d))"
  by (intro conjI impI subtree_ranges) auto

theorem subtree_is_a_range_witness:
  "(let k = map of_nat (str ''/r/nodes/n/devices/d/senders/s''); p = map of_nat (str ''/r/nodes/n/'');
        q = map of_nat (str ''/r/nodes/m/'')
    in (p \<le> k \<and> (prefix_range_end p = [0] \<or> k < prefix_range_end p)) \<and>
       \<not> (q \<le> k \<and> (prefix_range_end q = [0] \<or> k < prefix_range_end q)))"
proof -
  have wf: "wf_key demo_key" by (simp add: wf_key_def demo_key_def str_def)
  have p: "node_subtree demo_ns (str ''n'') = Inr (map of_nat (str ''/r/nodes/n/''))"
    "node_subtree demo_ns (str ''m'') = Inr (map of_nat (str ''/r/nodes/m/''))"
    by (simp_all add: node_subtree_def demo_ns_def path_text_def str_def utf8_encode_def utf8_char_def)
  show ?thesis
    using subtree_is_a_range [of "map of_nat (str ''/r/nodes/n/'')" _ demo_key demo_ns "str ''n''"]
      subtree_is_a_range [of "map of_nat (str ''/r/nodes/m/'')" _ demo_key demo_ns "str ''m''"] wf demo_key_bytes p
    by (simp add: demo_key_def str_def)
qed

end
