(* ===== verification/Json_Text.thy ===== *)
theory Json_Text
  imports Registry_Types
begin

section \<open>JSON text\<close>

text \<open>
  What the registry uses of Python's \<open>json\<close> module, through \<open>JsonEngine.parse_any\<close> and
  \<open>dump_any\<close> of \<open>src/nmos/json/engine.py\<close> and through \<open>scanstring\<close> and
  \<open>JSONDecoder.raw_decode\<close> in \<open>src/nmos/json/spans.py\<close>: the scanner of CPython 3.12 in strict
  mode and the encoder with \<open>ensure_ascii=False\<close>.

  A text is its list of code points. A scanner takes the text from its start index on and answers
  the value and the text from its end index on. Every \<open>JSONDecodeError\<close> is a \<open>ValueError\<close>.
  Nested containers use up the interpreter's recursion budget, the argument \<open>d\<close>; past it the
  scanner raises \<open>RecursionError\<close>. What \<open>repr(float(text))\<close> makes of a numeral is the argument
  \<open>fl\<close>: the model keeps a float as its \<open>repr\<close>.
\<close>

lemma bind_res_cong [fundef_cong]:
  "r = r' \<Longrightarrow> (\<And>x. r' = Inr x \<Longrightarrow> f x = f' x) \<Longrightarrow> bind_res r f = bind_res r' f'"
  by (cases r') simp_all

subsection \<open>White space\<close>

definition is_ws :: "nat \<Rightarrow> bool" where
  "is_ws c \<longleftrightarrow> c = 32 \<or> c = 9 \<or> c = 10 \<or> c = 13"

definition skip_ws :: "pystr \<Rightarrow> pystr" where
  "skip_ws s = dropWhile is_ws s"

subsection \<open>Strings\<close>

definition hex_value :: "nat \<Rightarrow> nat option" where
  "hex_value c =
     (if 48 \<le> c \<and> c \<le> 57 then Some (c - 48)
      else if 97 \<le> c \<and> c \<le> 102 then Some (c - 87)
      else if 65 \<le> c \<and> c \<le> 70 then Some (c - 55)
      else None)"

fun hex4 :: "pystr \<Rightarrow> (nat \<times> pystr) option" where
  "hex4 (a # b # c # e # s) =
     (case (hex_value a, hex_value b, hex_value c, hex_value e) of
        (Some u, Some v, Some w, Some x) \<Rightarrow> Some (4096 * u + 256 * v + 16 * w + x, s)
      | _ \<Rightarrow> None)"
| "hex4 _ = None"

text \<open>A high surrogate escape followed by the escape of a low one is one code point.\<close>

fun join_pair :: "nat \<Rightarrow> pystr \<Rightarrow> (nat \<times> pystr) option" where
  "join_pair u (b # x # s) =
     (if 55296 \<le> u \<and> u < 56320 \<and> b = 92 \<and> x = 117
      then (case hex4 s of
              Some (v, s') \<Rightarrow>
                if 56320 \<le> v \<and> v < 57344 then Some (65536 + (u - 55296) * 1024 + (v - 56320), s') else None
            | None \<Rightarrow> None)
      else None)"
| "join_pair u _ = None"

definition unescape :: "nat \<Rightarrow> nat option" where
  "unescape c =
     (if c = 34 then Some 34 else if c = 92 then Some 92 else if c = 47 then Some 47
      else if c = 98 then Some 8 else if c = 102 then Some 12 else if c = 110 then Some 10
      else if c = 114 then Some 13 else if c = 116 then Some 9 else None)"

lemma hex4_length: "hex4 s = Some (v, r) \<Longrightarrow> length r < length s"
  by (cases s rule: hex4.cases) (auto split: option.splits)

lemma join_pair_length: "join_pair u s = Some (v, r) \<Longrightarrow> length r < length s"
  by (cases "(u, s)" rule: join_pair.cases) (auto split: option.splits if_splits dest: hex4_length)

text \<open>\<open>scanstring\<close>, from just after the opening quote.\<close>

function scanstring :: "pystr \<Rightarrow> (pystr \<times> pystr) res" where
  "scanstring s =
     (case s of
        [] \<Rightarrow> Inl ValueError
      | c # r \<Rightarrow>
          if c = 34 then Inr ([], r)
          else if c = 92 then
            (case r of
               [] \<Rightarrow> Inl ValueError
             | e # r1 \<Rightarrow>
                 if e = 117 then
                   (case hex4 r1 of
                      None \<Rightarrow> Inl ValueError
                    | Some (u, r2) \<Rightarrow>
                        (case join_pair u r2 of
                           Some (v, r3) \<Rightarrow> bind_res (scanstring r3) (\<lambda>(t, z). Inr (v # t, z))
                         | None \<Rightarrow> bind_res (scanstring r2) (\<lambda>(t, z). Inr (u # t, z))))
                 else
                   (case unescape e of
                      None \<Rightarrow> Inl ValueError
                    | Some v \<Rightarrow> bind_res (scanstring r1) (\<lambda>(t, z). Inr (v # t, z))))
          else if c < 32 then Inl ValueError
          else bind_res (scanstring r) (\<lambda>(t, z). Inr (c # t, z)))"
  by pat_completeness auto
termination
  by (relation "measure length") (auto dest!: hex4_length join_pair_length)

declare scanstring.simps [simp del]

lemma scanstring_length: "scanstring s = Inr (t, r) \<Longrightarrow> length r < length s"
proof (induction s arbitrary: t r rule: length_induct)
  case (1 s)
  then have IH: "length z < length y" if "length y < length s" "scanstring y = Inr (u, z)" for y u z
    using that by blast
  show ?case
    using "1.prems"
    by (subst (asm) scanstring.simps)
      (auto simp: bind_res_eq_Inr split: list.splits if_splits option.splits
        dest!: hex4_length join_pair_length, (drule IH [rotated], simp, simp)+)
qed

subsection \<open>Numbers\<close>

definition is_digit :: "nat \<Rightarrow> bool" where
  "is_digit c \<longleftrightarrow> 48 \<le> c \<and> c \<le> 57"

text \<open>An optional part of a numeral: what it takes and what it leaves.\<close>

definition fraction :: "pystr \<Rightarrow> pystr \<times> pystr" where
  "fraction s =
     (case s of
        p # c # r \<Rightarrow>
          if p = 46 \<and> is_digit c
          then (46 # c # takeWhile is_digit r, dropWhile is_digit r) else ([], s)
      | _ \<Rightarrow> ([], s))"

definition exponent :: "pystr \<Rightarrow> pystr \<times> pystr" where
  "exponent s =
     (case s of
        e # c # r \<Rightarrow>
          if e = 101 \<or> e = 69 then
            (if is_digit c then (e # c # takeWhile is_digit r, dropWhile is_digit r)
             else if c = 43 \<or> c = 45 then
               (case r of
                  x # r' \<Rightarrow>
                    if is_digit x then (e # c # x # takeWhile is_digit r', dropWhile is_digit r') else ([], s)
                | [] \<Rightarrow> ([], s))
             else ([], s))
          else ([], s)
      | _ \<Rightarrow> ([], s))"

definition scan_unsigned :: "(pystr \<Rightarrow> pystr) \<Rightarrow> pystr \<Rightarrow> pystr \<Rightarrow> (json \<times> pystr) res" where
  "scan_unsigned fl sign s =
     (case s of
        [] \<Rightarrow> Inl ValueError
      | c # r \<Rightarrow>
          if \<not> is_digit c then Inl ValueError
          else let whole = (if c = 48 then [48] else c # takeWhile is_digit r);
                   after = (if c = 48 then r else dropWhile is_digit r);
                   (frac, r1) = fraction after;
                   (expo, r2) = exponent r1
               in if frac = [] \<and> expo = []
                  then bind_res (py_int (sign @ whole)) (\<lambda>i. Inr (JInt i, r2))
                  else Inr (JFloat (fl (sign @ whole @ frac @ expo)), r2))"

definition scan_number :: "(pystr \<Rightarrow> pystr) \<Rightarrow> pystr \<Rightarrow> (json \<times> pystr) res" where
  "scan_number fl s =
     (case s of
        c # r \<Rightarrow> if c = 45 then scan_unsigned fl [45] r else scan_unsigned fl [] s
      | [] \<Rightarrow> Inl ValueError)"

lemma drop_while_length: "length (dropWhile P s) \<le> length s"
  by (simp add: length_dropWhile_le)

lemma skip_ws_length: "length (skip_ws s) \<le> length s"
  by (simp add: skip_ws_def length_dropWhile_le)

lemma skip_ws_Cons_length: "skip_ws s = c # y \<Longrightarrow> length y < length s"
  using skip_ws_length [of s] by simp

lemma fraction_length: "fraction s = (t, r) \<Longrightarrow> length r \<le> length s"
  using length_dropWhile_le [of is_digit] by (auto simp: fraction_def le_SucI split: list.splits if_splits)

lemma exponent_length: "exponent s = (t, r) \<Longrightarrow> length r \<le> length s"
  using length_dropWhile_le [of is_digit] by (auto simp: exponent_def le_SucI split: list.splits if_splits)

lemma scan_unsigned_length: "scan_unsigned fl sign s = Inr (v, r) \<Longrightarrow> length r < length s"
  using length_dropWhile_le [of is_digit "tl s"]
  by (auto simp: scan_unsigned_def Let_def bind_res_eq_Inr split: list.splits if_splits prod.splits
    dest!: fraction_length exponent_length)

lemma scan_number_length: "scan_number fl s = Inr (v, r) \<Longrightarrow> length r < length s"
  by (auto simp: scan_number_def split: list.splits if_splits dest: scan_unsigned_length)

text \<open>Words: the constants, and the three floats that are not numerals.\<close>

definition words :: "(pystr \<times> json) list" where
  "words = [(str ''null'', JNull), (str ''true'', JBool True), (str ''false'', JBool False),
            (str ''NaN'', JFloat (str ''nan'')), (str ''Infinity'', JFloat (str ''inf'')),
            (str ''-Infinity'', JFloat (str ''-inf''))]"

definition scan_atom :: "(pystr \<Rightarrow> pystr) \<Rightarrow> pystr \<Rightarrow> (json \<times> pystr) res" where
  "scan_atom fl s =
     (case find (\<lambda>(w, v). take (length w) s = w) words of
        Some (w, v) \<Rightarrow> Inr (v, drop (length w) s)
      | None \<Rightarrow> scan_number fl s)"

subsection \<open>Values\<close>

function (sequential) scan_value :: "(pystr \<Rightarrow> pystr) \<Rightarrow> nat \<Rightarrow> pystr \<Rightarrow> (json \<times> pystr) res"
  and scan_items :: "(pystr \<Rightarrow> pystr) \<Rightarrow> nat \<Rightarrow> pystr \<Rightarrow> (json list \<times> pystr) res"
  and scan_members ::
    "(pystr \<Rightarrow> pystr) \<Rightarrow> nat \<Rightarrow> (pystr, json) pydict \<Rightarrow> pystr \<Rightarrow> ((pystr, json) pydict \<times> pystr) res"
where
  "scan_value fl d [] = Inl ValueError"
| "scan_value fl d (c # r) =
     (if c = 34 then bind_res (scanstring r) (\<lambda>(t, z). Inr (JStr t, z))
      else if c = 123 then
        (case d of
           0 \<Rightarrow> Inl RecursionError
         | Suc d' \<Rightarrow>
             (case skip_ws r of
                [] \<Rightarrow> Inl ValueError
              | b # y \<Rightarrow>
                  if b = 125 then Inr (JObj [], y)
                  else bind_res (scan_members fl d' [] (b # y)) (\<lambda>(ms, z). Inr (JObj ms, z))))
      else if c = 91 then
        (case d of
           0 \<Rightarrow> Inl RecursionError
         | Suc d' \<Rightarrow>
             (case skip_ws r of
                [] \<Rightarrow> Inl ValueError
              | b # y \<Rightarrow>
                  if b = 93 then Inr (JArr [], y)
                  else bind_res (scan_items fl d' (b # y)) (\<lambda>(vs, z). Inr (JArr vs, z))))
      else scan_atom fl (c # r))"
| "scan_items fl d s =
     bind_res (scan_value fl d s) (\<lambda>(v, r).
       case skip_ws r of
         [] \<Rightarrow> Inl ValueError
       | c # z \<Rightarrow>
           if c = 93 then Inr ([v], z)
           else if c = 44 then bind_res (scan_items fl d (skip_ws z)) (\<lambda>(vs, y). Inr (v # vs, y))
           else Inl ValueError)"
| "scan_members fl d acc s =
     (case s of
        [] \<Rightarrow> Inl ValueError
      | q # s1 \<Rightarrow>
          if q \<noteq> 34 then Inl ValueError
          else bind_res (scanstring s1) (\<lambda>(name, s2).
            case skip_ws s2 of
              [] \<Rightarrow> Inl ValueError
            | k # s3 \<Rightarrow>
                if k \<noteq> 58 then Inl ValueError
                else bind_res (scan_value fl d (skip_ws s3)) (\<lambda>(v, r).
                  case skip_ws r of
                    [] \<Rightarrow> Inl ValueError
                  | c # z \<Rightarrow>
                      if c = 125 then Inr (dset name v acc, z)
                      else if c = 44 then scan_members fl d (dset name v acc) (skip_ws z)
                      else Inl ValueError)))"
  by pat_completeness auto

lemma words_nonempty: "(w, v) \<in> set words \<Longrightarrow> w \<noteq> []"
  by (auto simp: words_def str_def)

lemma scan_atom_length: "scan_atom fl s = Inr (v, r) \<Longrightarrow> length r < length s"
proof (cases "find (\<lambda>(w, v). take (length w) s = w) words")
  case None
  then show "scan_atom fl s = Inr (v, r) \<Longrightarrow> length r < length s"
    by (simp add: scan_atom_def scan_number_length)
next
  case (Some x)
  obtain w y where x: "x = (w, y)" by fastforce
  have "(w, y) \<in> set words" "take (length w) s = w"
    using Some x by (auto simp: find_Some_iff in_set_conv_nth)
  then have "w \<noteq> []" "take (length w) s = w" by (auto dest: words_nonempty)
  then have "0 < length w" "length w \<le> length s" by (auto simp: min_def dest!: arg_cong [of _ w length] split: if_splits)
  then show "scan_atom fl s = Inr (v, r) \<Longrightarrow> length r < length s"
    using Some x by (auto simp: scan_atom_def intro!: diff_less)
qed

lemma scan_length_dom:
  "scan_value_scan_items_scan_members_dom (Inl (fl, d, s)) \<Longrightarrow>
     scan_value fl d s = Inr (v, z) \<Longrightarrow> length z < length s"
  "scan_value_scan_items_scan_members_dom (Inr (Inl (fl, d, s))) \<Longrightarrow>
     scan_items fl d s = Inr (vs, z) \<Longrightarrow> length z < length s"
  "scan_value_scan_items_scan_members_dom (Inr (Inr (fl, d, acc, s))) \<Longrightarrow>
     scan_members fl d acc s = Inr (ms, z) \<Longrightarrow> length z < length s"
proof (induction fl d s and fl d s and fl d acc s arbitrary: v z and vs z and ms z
    rule: scan_value_scan_items_scan_members.pinduct)
  case (1 fl d v z)
  then show ?case by (simp add: scan_value.psimps)
next
  case (2 fl d c r v z)
  have M: "length q < Suc (length y)"
    if "c = 123" "d = Suc e" "skip_ws r = b # y" "b \<noteq> 125" "scan_members fl e [] (b # y) = Inr (ms, q)" for e b y ms q
    using 2(2) that by fastforce
  have I: "length q < Suc (length y)"
    if "c = 91" "d = Suc e" "skip_ws r = b # y" "b \<noteq> 93" "scan_items fl e (b # y) = Inr (vs, q)" for e b y vs q
    using 2(3) that by fastforce
  show ?case
    using 2(1) 2(4) skip_ws_length [of r]
    by (auto simp: scan_value.psimps bind_res_eq_Inr split: if_splits nat.splits list.splits
        dest!: scanstring_length scan_atom_length dest: M I)
next
  case (3 fl d s vs z)
  have V: "length q < length s" if "scan_value fl d s = Inr (v, q)" for v q
    using 3(2) that by fastforce
  have I: "length q < length (skip_ws y)"
    if "scan_value fl d s = Inr (v, r)" "skip_ws r = 44 # y" "scan_items fl d (skip_ws y) = Inr (ws, q)" for v r y ws q
    using 3(3) that by fastforce
  obtain v r c y where r: "scan_value fl d s = Inr (v, r)" "skip_ws r = c # y"
    and z: "c = 93 \<and> z = y \<or> c = 44 \<and> (\<exists>ws. scan_items fl d (skip_ws y) = Inr (ws, z))"
    using 3(1) 3(4) by (auto simp: scan_items.psimps elim!: bind_res_InrE split: if_splits list.splits)
  from V [OF r(1)] skip_ws_Cons_length [OF r(2)] skip_ws_length [of y] I [OF r(1)] r(2) z
  show ?case by fastforce
next
  case (4 fl d acc s ms z)
  have V: "length q < length (skip_ws s3)"
    if "s = 34 # s1" "scanstring s1 = Inr (name, s2)" "skip_ws s2 = 58 # s3" "scan_value fl d (skip_ws s3) = Inr (v, q)"
    for s1 name s2 s3 v q using 4(2) that by fastforce
  have M: "length q < length (skip_ws y)"
    if "s = 34 # s1" "scanstring s1 = Inr (name, s2)" "skip_ws s2 = 58 # s3" "scan_value fl d (skip_ws s3) = Inr (v, r)"
      "skip_ws r = 44 # y" "scan_members fl d (dset name v acc) (skip_ws y) = Inr (ws, q)"
    for s1 name s2 s3 v r y ws q using 4(3) that by fastforce
  obtain s1 name s2 s3 v r c y where r: "s = 34 # s1" "scanstring s1 = Inr (name, s2)"
      "skip_ws s2 = 58 # s3" "scan_value fl d (skip_ws s3) = Inr (v, r)" "skip_ws r = c # y"
    and z: "c = 125 \<and> z = y \<or> c = 44 \<and> (\<exists>ws. scan_members fl d (dset name v acc) (skip_ws y) = Inr (ws, z))"
    using 4(1) 4(4) by (auto simp: scan_members.psimps elim!: bind_res_InrE split: if_splits list.splits)
  have "length y < length s"
    using V [OF r(1-4)] scanstring_length [OF r(2)] skip_ws_Cons_length [OF r(3)] skip_ws_Cons_length [OF r(5)]
      skip_ws_length [of s3] r(1) by simp
  with M [OF r(1-4)] r(5) z skip_ws_length [of y] show ?case by fastforce
qed

termination scan_value
proof (relation "measure (\<lambda>x. case x of
    Inl (fl, d, s) \<Rightarrow> 2 * length s | Inr (Inl (fl, d, s)) \<Rightarrow> Suc (2 * length s)
  | Inr (Inr (fl, d, acc, s)) \<Rightarrow> Suc (2 * length s))", goal_cases)
  case 1
  then show ?case by simp
next
  case (2 fl d c r e b y)
  then show ?case using skip_ws_length [of r] by simp
next
  case (3 fl d c r e b y)
  then show ?case using skip_ws_length [of r] by simp
next
  case 4
  then show ?case by simp
next
  case (5 fl d s x v r c y)
  then have "length r < length s" using scan_length_dom(1) by fastforce
  with skip_ws_Cons_length [of r c y] skip_ws_length [of y] 5 show ?case by simp
next
  case (6 fl d acc s q s1 x name s2 k s3)
  then have "length s2 < length s1" "length s3 < length s2"
    using scanstring_length skip_ws_Cons_length by fastforce+
  with 6 skip_ws_length [of s3] show ?case by simp
next
  case (7 fl d acc s q s1 x name s2 k s3 w v r c y)
  then have "length r < length (skip_ws s3)" "length s2 < length s1" "length s3 < length s2" "length y < length r"
    using scan_length_dom(1) scanstring_length skip_ws_Cons_length by fastforce+
  with 7 skip_ws_length [of s3] skip_ws_length [of y] show ?case by simp
qed

declare scan_value.simps(2) [simp del] scan_items.simps [simp del] scan_members.simps [simp del]

text \<open>
  \<open>JSONDecoder.raw_decode\<close> at an index where the scanner is called directly, and \<open>json.loads\<close>
  of a \<open>str\<close>: a byte order mark is refused, white space may surround the value, and anything
  else after it is extra data.
\<close>

definition raw_decode :: "(pystr \<Rightarrow> pystr) \<Rightarrow> nat \<Rightarrow> pystr \<Rightarrow> (json \<times> pystr) res" where
  "raw_decode fl d s = scan_value fl d s"

definition parse_any :: "(pystr \<Rightarrow> pystr) \<Rightarrow> nat \<Rightarrow> pystr \<Rightarrow> json res" where
  "parse_any fl d s =
     (if take 1 s = [65279] then Inl ValueError
      else bind_res (raw_decode fl d (skip_ws s)) (\<lambda>(v, r).
        if skip_ws r = [] then Inr v else Inl ValueError))"

subsection \<open>Writing\<close>

definition hex_char :: "nat \<Rightarrow> nat" where
  "hex_char n = (if n < 10 then 48 + n else 87 + n)"

definition escape_char :: "nat \<Rightarrow> pystr" where
  "escape_char c =
     (if c = 34 then [92, 34] else if c = 92 then [92, 92] else if c = 10 then [92, 110]
      else if c = 13 then [92, 114] else if c = 9 then [92, 116] else if c = 12 then [92, 102]
      else if c = 8 then [92, 98]
      else if c < 32 then [92, 117, 48, 48, hex_char (c div 16), hex_char (c mod 16)]
      else [c])"

definition quote :: "pystr \<Rightarrow> pystr" where
  "quote s = 34 # concat (map escape_char s) @ [34]"

definition float_literal :: "pystr \<Rightarrow> pystr" where
  "float_literal t =
     (if t = str ''nan'' then str ''NaN'' else if t = str ''inf'' then str ''Infinity''
      else if t = str ''-inf'' then str ''-Infinity'' else t)"

fun dump_text :: "json \<Rightarrow> pystr" where
  "dump_text JNull = str ''null''"
| "dump_text (JBool b) = (if b then str ''true'' else str ''false'')"
| "dump_text (JInt i) = int_str i"
| "dump_text (JFloat t) = float_literal t"
| "dump_text (JStr s) = quote s"
| "dump_text (JArr vs) = str ''['' @ py_join (str '', '') (map dump_text vs) @ str '']''"
| "dump_text (JObj ms) =
     str ''{'' @ py_join (str '', '') (map (\<lambda>(k, v). quote k @ str '': '' @ dump_text v) ms) @ str ''}''"

text \<open>An integer of more digits than the interpreter converts has no text.\<close>

definition int_fits :: "int \<Rightarrow> bool" where
  "int_fits i \<longleftrightarrow> \<bar>i\<bar> < 10 ^ max_str_digits"

fun ints_fit :: "json \<Rightarrow> bool" where
  "ints_fit (JInt i) = int_fits i"
| "ints_fit (JArr vs) = list_all ints_fit vs"
| "ints_fit (JObj ms) = list_all (\<lambda>(k, v). ints_fit v) ms"
| "ints_fit _ = True"

definition dump_any :: "json \<Rightarrow> pystr res" where
  "dump_any v = (if ints_fit v then Inr (dump_text v) else Inl ValueError)"

text \<open>Equations that wait for the text, for evaluation.\<close>

lemma scanstring_code [code]:
  "scanstring [] = Inl ValueError"
  "scanstring (c # r) =
     (if c = 34 then Inr ([], r)
      else if c = 92 then
        (case r of
           [] \<Rightarrow> Inl ValueError
         | e # r1 \<Rightarrow>
             if e = 117 then
               (case hex4 r1 of
                  None \<Rightarrow> Inl ValueError
                | Some (u, r2) \<Rightarrow>
                    (case join_pair u r2 of
                       Some (v, r3) \<Rightarrow> bind_res (scanstring r3) (\<lambda>(t, z). Inr (v # t, z))
                     | None \<Rightarrow> bind_res (scanstring r2) (\<lambda>(t, z). Inr (u # t, z))))
             else
               (case unescape e of
                  None \<Rightarrow> Inl ValueError
                | Some v \<Rightarrow> bind_res (scanstring r1) (\<lambda>(t, z). Inr (v # t, z))))
      else if c < 32 then Inl ValueError
      else bind_res (scanstring r) (\<lambda>(t, z). Inr (c # t, z)))"
  by (simp_all add: scanstring.simps)

lemma scan_items_code [code]:
  "scan_items fl d [] = Inl ValueError"
  "scan_items fl d (b # s) =
     bind_res (scan_value fl d (b # s)) (\<lambda>(v, r).
       case skip_ws r of
         [] \<Rightarrow> Inl ValueError
       | c # z \<Rightarrow>
           if c = 93 then Inr ([v], z)
           else if c = 44 then bind_res (scan_items fl d (skip_ws z)) (\<lambda>(vs, y). Inr (v # vs, y))
           else Inl ValueError)"
  by (simp_all add: scan_items.simps)

lemma scan_members_code [code]:
  "scan_members fl d acc [] = Inl ValueError"
  "scan_members fl d acc (q # s1) =
     (if q \<noteq> 34 then Inl ValueError
      else bind_res (scanstring s1) (\<lambda>(name, s2).
        case skip_ws s2 of
          [] \<Rightarrow> Inl ValueError
        | k # s3 \<Rightarrow>
            if k \<noteq> 58 then Inl ValueError
            else bind_res (scan_value fl d (skip_ws s3)) (\<lambda>(v, r).
              case skip_ws r of
                [] \<Rightarrow> Inl ValueError
              | c # z \<Rightarrow>
                  if c = 125 then Inr (dset name v acc, z)
                  else if c = 44 then scan_members fl d (dset name v acc) (skip_ws z)
                  else Inl ValueError)))"
  by (simp_all add: scan_members.simps)

subsection \<open>A scanner reads only what it consumes\<close>

text \<open>
  Cutting off what a scanner left, or putting anything else in its place, does not change what it
  read, except that a numeral must not be continued.
\<close>

lemma hex4_local:
  assumes "hex4 s = Some (v, r)"
  obtains p where "s = p @ r" "\<And>t. hex4 (p @ t) = Some (v, t)"
proof -
  from assms obtain a b c e where s: "s = a # b # c # e # r"
    by (cases s rule: hex4.cases) (auto split: option.splits)
  show thesis by (rule that [of "[a, b, c, e]"]) (use assms s in \<open>auto split: option.splits\<close>)
qed

lemma join_pair_Some:
  assumes "join_pair u s = Some (v, r)"
  obtains p where "s = p @ r" "\<And>t. join_pair u (p @ t) = Some (v, t)"
proof -
  from assms obtain q w where s: "s = 92 # 117 # q" "hex4 q = Some (w, r)"
    by (cases "(u, s)" rule: join_pair.cases) (auto split: option.splits if_splits)
  obtain p where p: "q = p @ r" "\<And>t. hex4 (p @ t) = Some (w, t)" using hex4_local [OF s(2)] by blast
  show thesis
    by (rule that [of "92 # 117 # p"]) (use assms s p in \<open>auto split: option.splits if_splits\<close>)
qed

lemma hex4_quoted:
  assumes "p \<noteq> []" and "last p = 34"
  shows "hex4 (p @ t) = (case hex4 p of None \<Rightarrow> None | Some (v, r) \<Rightarrow> Some (v, r @ t))"
proof -
  have q: "hex_value 34 = None" by (simp add: hex_value_def)
  consider (long) a b c e p' where "p = a # b # c # e # p'"
    | (three) a b c where "p = [a, b, c]" | (two) a b where "p = [a, b]" | (one) a where "p = [a]"
    using assms(1) by (metis neq_Nil_conv)
  then show ?thesis
  proof cases
    case three
    then show ?thesis using assms q by (cases t) (auto split: option.splits)
  next
    case two
    then show ?thesis using assms q by (cases t; cases "tl t") (auto split: option.splits)
  next
    case one
    then show ?thesis using assms q by (cases t; cases "tl t"; cases "tl (tl t)") (auto split: option.splits)
  qed (auto split: option.splits)
qed

lemma join_pair_None:
  assumes "p \<noteq> []" and "last p = 34" and "join_pair u (p @ z) = None"
  shows "join_pair u (p @ t) = None"
proof (cases p)
  case (Cons a q)
  show ?thesis
  proof (cases q)
    case Nil
    then show ?thesis using Cons assms by (cases t) auto
  next
    case q: (Cons b y)
    show ?thesis
    proof (cases "y = []")
      case True
      then show ?thesis using Cons q assms by (auto split: option.splits)
    next
      case False
      then have "last y = 34" using assms(2) Cons q by simp
      with hex4_quoted [OF False this] Cons q assms(3) show ?thesis
        by (auto split: option.splits if_splits)
    qed
  qed
qed (use assms in simp)

lemma scanstring_local:
  assumes "scanstring s = Inr (k, r)"
  obtains p where "s = p @ r" "p \<noteq> []" "last p = 34" "\<And>t. scanstring (p @ t) = Inr (k, t)"
proof -
  have "\<exists>p. s = p @ r \<and> p \<noteq> [] \<and> last p = 34 \<and> (\<forall>t. scanstring (p @ t) = Inr (k, t))"
    using assms
  proof (induction s arbitrary: k rule: length_induct)
    case (1 s)
    have IH: "\<exists>p. y = p @ r \<and> p \<noteq> [] \<and> last p = 34 \<and> (\<forall>t. scanstring (p @ t) = Inr (j, t))"
      if "length y < length s" "scanstring y = Inr (j, r)" for y j using 1 that by blast
    consider (close) "s = 34 # r" "k = []"
      | (pair) r1 u r2 v r3 j where "s = 92 # 117 # r1" "hex4 r1 = Some (u, r2)" "join_pair u r2 = Some (v, r3)"
          "scanstring r3 = Inr (j, r)" "k = v # j"
      | (code) r1 u r2 j where "s = 92 # 117 # r1" "hex4 r1 = Some (u, r2)" "join_pair u r2 = None"
          "scanstring r2 = Inr (j, r)" "k = u # j"
      | (escape) e r1 v j where "s = 92 # e # r1" "e \<noteq> 117" "unescape e = Some v" "scanstring r1 = Inr (j, r)" "k = v # j"
      | (plain) c r1 j where "s = c # r1" "c \<noteq> 34" "c \<noteq> 92" "\<not> c < 32" "scanstring r1 = Inr (j, r)" "k = c # j"
      using "1.prems" scanstring.simps [of s]
      by (auto elim!: bind_res_InrE split: list.splits if_splits option.splits)
    then show ?case
    proof cases
      case close
      then show ?thesis by (intro exI [of _ "[34]"]) (simp add: scanstring.simps [of "34 # t" for t])
    next
      case pair
      obtain p3 where p3: "r3 = p3 @ r" "p3 \<noteq> []" "last p3 = 34" "\<And>t. scanstring (p3 @ t) = Inr (j, t)"
        using IH [of r3 j] pair hex4_length [OF pair(2)] join_pair_length [OF pair(3)] by auto
      obtain p2 where p2: "r2 = p2 @ r3" "\<And>t. join_pair u (p2 @ t) = Some (v, t)" using join_pair_Some [OF pair(3)] by blast
      obtain p1 where p1: "r1 = p1 @ r2" "\<And>t. hex4 (p1 @ t) = Some (u, t)" using hex4_local [OF pair(2)] by blast
      show ?thesis
        by (intro exI [of _ "92 # 117 # p1 @ p2 @ p3"])
          (use pair(1,5) p1 p2 p3 in \<open>simp add: scanstring.simps [of "92 # t" for t]\<close>)
    next
      case code
      obtain p2 where p2: "r2 = p2 @ r" "p2 \<noteq> []" "last p2 = 34" "\<And>t. scanstring (p2 @ t) = Inr (j, t)"
        using IH [of r2 j] code hex4_length [OF code(2)] by auto
      obtain p1 where p1: "r1 = p1 @ r2" "\<And>t. hex4 (p1 @ t) = Some (u, t)" using hex4_local [OF code(2)] by blast
      have "join_pair u (p2 @ t) = None" for t using join_pair_None [OF p2(2,3)] code(3) p2(1) by blast
      then show ?thesis
        by (intro exI [of _ "92 # 117 # p1 @ p2"])
          (use code(1,5) p1 p2 in \<open>simp add: scanstring.simps [of "92 # t" for t]\<close>)
    next
      case escape
      obtain p1 where p1: "r1 = p1 @ r" "p1 \<noteq> []" "last p1 = 34" "\<And>t. scanstring (p1 @ t) = Inr (j, t)"
        using IH [of r1 j] escape by auto
      show ?thesis
        by (intro exI [of _ "92 # e # p1"]) (use escape p1 in \<open>simp add: scanstring.simps [of "92 # t" for t]\<close>)
    next
      case plain
      obtain p1 where p1: "r1 = p1 @ r" "p1 \<noteq> []" "last p1 = 34" "\<And>t. scanstring (p1 @ t) = Inr (j, t)"
        using IH [of r1 j] plain by auto
      show ?thesis
        by (intro exI [of _ "c # p1"]) (use plain p1 in \<open>simp add: scanstring.simps [of "c # t" for t]\<close>)
    qed
  qed
  then show thesis using that by blast
qed

lemma skip_ws_split:
  obtains w where "s = w @ skip_ws s" "\<forall>c \<in> set w. is_ws c"
  using that [of "takeWhile is_ws s"] set_takeWhileD by (fastforce simp: skip_ws_def)

lemma skip_ws_over: "\<forall>c \<in> set w. is_ws c \<Longrightarrow> skip_ws (w @ s) = skip_ws s"
  by (simp add: skip_ws_def dropWhile_append)

lemma skip_ws_head: "skip_ws s = c # r \<Longrightarrow> \<not> is_ws c"
  by (metis hd_dropWhile list.distinct(1) list.sel(1) skip_ws_def)

lemma skip_ws_stop [simp]: "\<not> is_ws c \<Longrightarrow> skip_ws (c # r) = c # r"
  by (simp add: skip_ws_def)

text \<open>White space, then one character that is not: what stands after it may be replaced.\<close>

lemma skip_ws_local:
  assumes "skip_ws s = c # r"
  obtains w where "s = w @ c # r" "\<not> is_ws c" "\<forall>x \<in> set w. is_ws x" "\<And>t. skip_ws (w @ c # t) = c # t"
  using assms skip_ws_split [of s] skip_ws_head [OF assms] skip_ws_over skip_ws_stop by metis

text \<open>What may follow a numeral without continuing it.\<close>

definition delim :: "pystr \<Rightarrow> bool" where
  "delim t \<longleftrightarrow> t = [] \<or> \<not> is_digit (hd t) \<and> hd t \<noteq> 46 \<and> hd t \<noteq> 101 \<and> hd t \<noteq> 69"

lemma take_digits_over:
  assumes "\<forall>c \<in> set ds. is_digit c" and "t = [] \<or> \<not> is_digit (hd t)"
  shows "takeWhile is_digit (ds @ t) = ds" "dropWhile is_digit (ds @ t) = t"
  using assms by (induction ds) (cases t; auto)+

lemma exponent_parts:
  assumes "exponent s = (x, r)"
  shows "s = x @ r" "x \<noteq> [] \<Longrightarrow> \<not> is_digit (hd x) \<and> hd x \<noteq> 46" "delim t \<Longrightarrow> exponent (x @ t) = (x, t)"
proof -
  have d: "\<forall>c \<in> set (takeWhile is_digit q). is_digit c" for q using set_takeWhileD by fastforce
  consider (none) "x = []" "r = s"
    | (plain) e c q where "s = e # c # q" "e = 101 \<or> e = 69" "is_digit c"
        "x = e # c # takeWhile is_digit q" "r = dropWhile is_digit q"
    | (signed) e c b q where "s = e # c # b # q" "e = 101 \<or> e = 69" "\<not> is_digit c" "c = 43 \<or> c = 45" "is_digit b"
        "x = e # c # b # takeWhile is_digit q" "r = dropWhile is_digit q"
    using assms by (auto simp: exponent_def split: list.splits if_splits)
  note c = this
  show "s = x @ r" using c by cases auto
  show "x \<noteq> [] \<Longrightarrow> \<not> is_digit (hd x) \<and> hd x \<noteq> 46" using c by cases (auto simp: is_digit_def)
  assume t: "delim t"
  then have t': "t = [] \<or> \<not> is_digit (hd t)" by (auto simp: delim_def)
  show "exponent (x @ t) = (x, t)" using c
  proof cases
    case none
    then show ?thesis using t by (cases t) (auto simp: exponent_def delim_def split: list.splits)
  next
    case plain
    then show ?thesis using take_digits_over [OF d t', of q] by (auto simp: exponent_def)
  next
    case signed
    then show ?thesis using take_digits_over [OF d t', of q] by (auto simp: exponent_def)
  qed
qed

lemma fraction_parts:
  assumes "fraction s = (x, r)"
  shows "s = x @ r" "x \<noteq> [] \<Longrightarrow> \<not> is_digit (hd x)"
    "t = [] \<or> \<not> is_digit (hd t) \<and> hd t \<noteq> 46 \<Longrightarrow> fraction (x @ t) = (x, t)"
proof -
  have d: "\<forall>c \<in> set (takeWhile is_digit q). is_digit c" for q using set_takeWhileD by fastforce
  consider (none) "x = []" "r = s"
    | (some) c q where "s = 46 # c # q" "is_digit c" "x = 46 # c # takeWhile is_digit q" "r = dropWhile is_digit q"
    using assms by (auto simp: fraction_def split: list.splits if_splits)
  note c = this
  show "s = x @ r" using c by cases auto
  show "x \<noteq> [] \<Longrightarrow> \<not> is_digit (hd x)" using c by cases (auto simp: is_digit_def)
  assume t: "t = [] \<or> \<not> is_digit (hd t) \<and> hd t \<noteq> 46"
  then have t': "t = [] \<or> \<not> is_digit (hd t)" by auto
  show "fraction (x @ t) = (x, t)" using c
  proof cases
    case none
    then show ?thesis using t by (cases t) (auto simp: fraction_def split: list.splits)
  next
    case some
    then show ?thesis using take_digits_over [OF d t', of q] by (auto simp: fraction_def)
  qed
qed

lemma scan_unsigned_local:
  assumes "scan_unsigned fl sign s = Inr (v, r)"
  obtains p where "s = p @ r" "p \<noteq> []" "is_digit (hd p)"
    "\<And>t. delim t \<Longrightarrow> scan_unsigned fl sign (p @ t) = Inr (v, t)"
proof -
  obtain c q where s: "s = c # q" "is_digit c" using assms by (auto simp: scan_unsigned_def split: list.splits if_splits)
  define whole where "whole = (if c = 48 then [48] else c # takeWhile is_digit q)"
  define rest where "rest = (if c = 48 then q else dropWhile is_digit q)"
  obtain frac r1 where fr: "fraction rest = (frac, r1)" by fastforce
  obtain expo r2 where ex: "exponent r1 = (expo, r2)" by fastforce
  have res: "(if frac = [] \<and> expo = [] then bind_res (py_int (sign @ whole)) (\<lambda>i. Inr (JInt i, r2))
      else Inr (JFloat (fl (sign @ whole @ frac @ expo)), r2)) = Inr (v, r)"
    using assms s fr ex by (cases "c = 48") (auto simp: scan_unsigned_def whole_def rest_def Let_def)
  have r2: "r2 = r" using res by (auto elim!: bind_res_InrE split: if_splits)
  have split: "s = whole @ frac @ expo @ r"
    using s fraction_parts(1) [OF fr] exponent_parts(1) [OF ex] takeWhile_dropWhile_id [of is_digit q]
    by (cases "c = 48") (simp_all add: whole_def rest_def r2)
  have w: "whole \<noteq> []" "hd whole = c" by (auto simp: whole_def)
  have go: "scan_unsigned fl sign ((whole @ frac @ expo) @ t) = Inr (v, t)" if t: "delim t" for t
  proof -
    have e: "exponent (expo @ t) = (expo, t)" using exponent_parts(3) [OF ex t] .
    have e0: "expo @ t = [] \<or> \<not> is_digit (hd (expo @ t)) \<and> hd (expo @ t) \<noteq> 46"
      using exponent_parts(2) [OF ex] t by (cases expo) (auto simp: delim_def)
    have f: "fraction (frac @ expo @ t) = (frac, expo @ t)" using fraction_parts(3) [OF fr e0] .
    have f0: "frac @ expo @ t = [] \<or> \<not> is_digit (hd (frac @ expo @ t))"
      using fraction_parts(2) [OF fr] e0 by (cases frac) auto
    have d: "\<forall>c \<in> set (takeWhile is_digit q). is_digit c" using set_takeWhileD by fastforce
    have "whole @ frac @ expo @ t = c # (if c = 48 then frac @ expo @ t else takeWhile is_digit q @ frac @ expo @ t)"
      by (simp add: whole_def)
    then show ?thesis
      using take_digits_over [OF d f0] f e res r2 s(2)
      by (cases "c = 48") (auto simp: scan_unsigned_def whole_def Let_def elim!: bind_res_InrE split: if_splits)
  qed
  show thesis by (rule that [of "whole @ frac @ expo"]) (use split w s(2) go in auto)
qed

lemma scan_number_local:
  assumes "scan_number fl s = Inr (v, r)"
  obtains p where "s = p @ r" "p \<noteq> []" "is_digit (hd p) \<or> hd p = 45 \<and> tl p \<noteq> [] \<and> is_digit (hd (tl p))"
    "\<And>t. delim t \<Longrightarrow> scan_number fl (p @ t) = Inr (v, t)"
proof (cases "take 1 s = [45]")
  case True
  then obtain q where s: "s = 45 # q" by (cases s) auto
  then have "scan_unsigned fl [45] q = Inr (v, r)" using assms by (simp add: scan_number_def)
  then obtain p where "q = p @ r" "p \<noteq> []" "is_digit (hd p)" "\<And>t. delim t \<Longrightarrow> scan_unsigned fl [45] (p @ t) = Inr (v, t)"
    using scan_unsigned_local by blast
  then show thesis using s by (intro that [of "45 # p"]) (auto simp: scan_number_def)
next
  case False
  then have "scan_unsigned fl [] s = Inr (v, r)" using assms by (auto simp: scan_number_def split: list.splits if_splits)
  then obtain p where p: "s = p @ r" "p \<noteq> []" "is_digit (hd p)" "\<And>t. delim t \<Longrightarrow> scan_unsigned fl [] (p @ t) = Inr (v, t)"
    using scan_unsigned_local by blast
  then show thesis using False by (intro that [of p]) (cases p; auto simp: scan_number_def)+
qed

lemma scan_number_kind: "scan_number fl s = Inr (v, r) \<Longrightarrow> (\<exists>i. v = JInt i) \<or> (\<exists>t. v = JFloat t)"
  by (auto simp: scan_number_def scan_unsigned_def Let_def elim!: bind_res_InrE split: list.splits if_splits prod.splits)

definition fits :: "json \<Rightarrow> pystr \<Rightarrow> bool" where
  "fits v t \<longleftrightarrow> (case v of JInt i \<Rightarrow> delim t | JFloat f \<Rightarrow> delim t | _ \<Rightarrow> True)"

lemma word_found:
  assumes "(w, v) \<in> set words"
  shows "find (\<lambda>(x, y). take (length x) (w @ t) = x) words = Some (w, v)"
proof -
  from assms consider "w = str ''null''" "v = JNull" | "w = str ''true''" "v = JBool True"
    | "w = str ''false''" "v = JBool False" | "w = str ''NaN''" "v = JFloat (str ''nan'')"
    | "w = str ''Infinity''" "v = JFloat (str ''inf'')" | "w = str ''-Infinity''" "v = JFloat (str ''-inf'')"
    by (auto simp: words_def)
  then show ?thesis by cases (simp_all add: words_def str_def)
qed

lemma no_word:
  "is_digit c \<Longrightarrow> find (\<lambda>(w, v). take (length w) (c # t) = w) words = None"
  "is_digit c \<Longrightarrow> find (\<lambda>(w, v). take (length w) (45 # c # t) = w) words = None"
  by (auto simp: words_def str_def is_digit_def)

lemma scan_atom_local:
  assumes "scan_atom fl s = Inr (v, r)"
  obtains p where "s = p @ r" "p \<noteq> []" "hd p \<noteq> 34" "hd p \<noteq> 123" "hd p \<noteq> 91" "\<not> is_ws (hd p)"
    "\<And>t. fits v t \<Longrightarrow> scan_atom fl (p @ t) = Inr (v, t)"
proof (cases "find (\<lambda>(w, v). take (length w) s = w) words")
  case None
  then have n: "scan_number fl s = Inr (v, r)" using assms by (simp add: scan_atom_def)
  obtain p where p: "s = p @ r" "p \<noteq> []" "is_digit (hd p) \<or> hd p = 45 \<and> tl p \<noteq> [] \<and> is_digit (hd (tl p))"
    "\<And>t. delim t \<Longrightarrow> scan_number fl (p @ t) = Inr (v, t)" using scan_number_local [OF n] by blast
  have "find (\<lambda>(w, v). take (length w) (p @ t) = w) words = None" for t
    using p(2,3) no_word by (cases p; cases "tl p") auto
  then show thesis
    using p scan_number_kind [OF n] by (intro that [of p]) (auto simp: scan_atom_def fits_def is_digit_def is_ws_def)
next
  case (Some x)
  obtain w y where x: "x = (w, y)" by fastforce
  have m: "(w, y) \<in> set words" and t: "take (length w) s = w" using Some x by (auto simp: find_Some_iff in_set_conv_nth)
  have v: "v = y" "r = drop (length w) s" using Some x assms by (auto simp: scan_atom_def)
  have "s = w @ r" using t v(2) append_take_drop_id [of "length w" s] by simp
  moreover have "hd w \<noteq> 34 \<and> hd w \<noteq> 123 \<and> hd w \<noteq> 91 \<and> \<not> is_ws (hd w)" "w \<noteq> []"
    using m by (auto simp: words_def str_def is_ws_def)
  moreover have "scan_atom fl (w @ t) = Inr (v, t)" for t
    using word_found [OF m, of t] v by (simp add: scan_atom_def)
  ultimately show thesis by (intro that [of w]) auto
qed

lemma fits_ws: "\<forall>x \<in> set w. is_ws x \<Longrightarrow> c = 93 \<or> c = 125 \<or> c = 44 \<Longrightarrow> fits v (w @ c # t)"
  by (cases w; cases v) (auto simp: fits_def delim_def is_digit_def is_ws_def)

lemma skip_ws_before:
  assumes "skip_ws s = p @ r" and "p \<noteq> []"
  obtains w where "s = w @ skip_ws s" "\<And>t. skip_ws (w @ p @ t) = p @ t"
proof -
  obtain c q where p: "p = c # q" using assms(2) by (cases p) auto
  then have "skip_ws s = c # q @ r" using assms(1) by simp
  from skip_ws_local [OF this] p assms(1) show thesis using that by (metis append_Cons)
qed

lemma scan_local_exists:
  "scan_value fl d s = Inr (v, r) \<Longrightarrow>
     \<exists>p. s = p @ r \<and> p \<noteq> [] \<and> (\<forall>t. fits v t \<longrightarrow> scan_value fl d (p @ t) = Inr (v, t))"
  "scan_items fl d s = Inr (vs, r) \<Longrightarrow>
     \<exists>p. s = p @ r \<and> p \<noteq> [] \<and> (\<forall>t. scan_items fl d (p @ t) = Inr (vs, t))"
  "scan_members fl d acc s = Inr (ms, r) \<Longrightarrow>
     \<exists>p. s = p @ r \<and> p \<noteq> [] \<and> (\<forall>t. scan_members fl d acc (p @ t) = Inr (ms, t))"
proof (induction fl d s and fl d s and fl d acc s arbitrary: v r and vs r and ms r
    rule: scan_value_scan_items_scan_members.induct)
  case (1 fl d v z)
  then show ?case by simp
next
  case (2 fl d c r v z)
  have M: "\<exists>p. b # y = p @ q \<and> p \<noteq> [] \<and> (\<forall>t. scan_members fl e [] (p @ t) = Inr (ms, t))"
    if "c = 123" "d = Suc e" "skip_ws r = b # y" "b \<noteq> 125" "scan_members fl e [] (b # y) = Inr (ms, q)" for e b y ms q
    using 2(1) that by fastforce
  have I: "\<exists>p. b # y = p @ q \<and> p \<noteq> [] \<and> (\<forall>t. scan_items fl e (p @ t) = Inr (vs, t))"
    if "c = 91" "d = Suc e" "skip_ws r = b # y" "b \<noteq> 93" "scan_items fl e (b # y) = Inr (vs, q)" for e b y vs q
    using 2(2) that by fastforce
  consider (quoted) t where "c = 34" "scanstring r = Inr (t, z)" "v = JStr t"
    | (empty_object) e where "c = 123" "d = Suc e" "skip_ws r = 125 # z" "v = JObj []"
    | (object) e b y ms where "c = 123" "d = Suc e" "skip_ws r = b # y" "b \<noteq> 125"
        "scan_members fl e [] (b # y) = Inr (ms, z)" "v = JObj ms"
    | (empty_array) e where "c = 91" "d = Suc e" "skip_ws r = 93 # z" "v = JArr []"
    | (array) e b y vs where "c = 91" "d = Suc e" "skip_ws r = b # y" "b \<noteq> 93"
        "scan_items fl e (b # y) = Inr (vs, z)" "v = JArr vs"
    | (atom) "c \<noteq> 34" "c \<noteq> 123" "c \<noteq> 91" "scan_atom fl (c # r) = Inr (v, z)"
    using 2(3) by (auto simp: scan_value.simps(2) elim!: bind_res_InrE split: if_splits nat.splits list.splits)
  then show ?case
  proof cases
    case quoted
    obtain p where "r = p @ z" "\<And>u. scanstring (p @ u) = Inr (t, u)" using scanstring_local [OF quoted(2)] by blast
    then show ?thesis using quoted by (intro exI [of _ "34 # p"]) (simp add: scan_value.simps(2))
  next
    case empty_object
    obtain w where "r = w @ 125 # z" "\<And>t. skip_ws (w @ 125 # t) = 125 # t" using skip_ws_local [OF empty_object(3)] by blast
    then show ?thesis using empty_object by (intro exI [of _ "123 # w @ [125]"]) (simp add: scan_value.simps(2))
  next
    case object
    obtain w where w: "r = w @ b # y" "\<And>t. skip_ws (w @ b # t) = b # t" using skip_ws_local [OF object(3)] by blast
    obtain p where p: "b # y = p @ z" "p \<noteq> []" "\<And>t. scan_members fl e [] (p @ t) = Inr (ms, t)"
      using M [OF object(1-5)] by blast
    then obtain p' where "p = b # p'" by (cases p) auto
    then show ?thesis using object w p by (intro exI [of _ "123 # w @ p"]) (simp add: scan_value.simps(2))
  next
    case empty_array
    obtain w where "r = w @ 93 # z" "\<And>t. skip_ws (w @ 93 # t) = 93 # t" using skip_ws_local [OF empty_array(3)] by blast
    then show ?thesis using empty_array by (intro exI [of _ "91 # w @ [93]"]) (simp add: scan_value.simps(2))
  next
    case array
    obtain w where w: "r = w @ b # y" "\<And>t. skip_ws (w @ b # t) = b # t" using skip_ws_local [OF array(3)] by blast
    obtain p where p: "b # y = p @ z" "p \<noteq> []" "\<And>t. scan_items fl e (p @ t) = Inr (vs, t)"
      using I [OF array(1-5)] by blast
    then obtain p' where "p = b # p'" by (cases p) auto
    then show ?thesis using array w p by (intro exI [of _ "91 # w @ p"]) (simp add: scan_value.simps(2))
  next
    case atom
    obtain p where p: "c # r = p @ z" "p \<noteq> []" "hd p \<noteq> 34" "hd p \<noteq> 123" "hd p \<noteq> 91"
      "\<And>t. fits v t \<Longrightarrow> scan_atom fl (p @ t) = Inr (v, t)" using scan_atom_local [OF atom(4)] by blast
    then have "scan_value fl d (p @ t) = scan_atom fl (p @ t)" for t by (cases p) (auto simp: scan_value.simps(2))
    then show ?thesis using p by (intro exI [of _ p]) auto
  qed
next
  case (3 fl d s vs z)
  obtain v r c y where r: "scan_value fl d s = Inr (v, r)" "skip_ws r = c # y"
    and z: "c = 93 \<and> z = y \<and> vs = [v] \<or> c = 44 \<and> (\<exists>ws. scan_items fl d (skip_ws y) = Inr (ws, z) \<and> vs = v # ws)"
    using 3(3) by (auto simp: scan_items.simps elim!: bind_res_InrE split: if_splits list.splits)
  obtain p where p: "s = p @ r" "p \<noteq> []" "\<And>t. fits v t \<Longrightarrow> scan_value fl d (p @ t) = Inr (v, t)"
    using 3(1) [OF r(1)] by blast
  obtain w where w: "r = w @ c # y" "\<forall>x \<in> set w. is_ws x" "\<And>t. skip_ws (w @ c # t) = c # t"
    using skip_ws_local [OF r(2)] by blast
  have f: "fits v (w @ c # t)" for t using fits_ws w(2) z by auto
  from z show ?case
  proof (elim disjE conjE exE)
    assume "c = 93" "z = y" "vs = [v]"
    then show ?thesis using p w f by (intro exI [of _ "p @ w @ [93]"]) (simp add: scan_items.simps)
  next
    fix ws assume c: "c = 44" and i: "scan_items fl d (skip_ws y) = Inr (ws, z)" and vs: "vs = v # ws"
    obtain q where q: "skip_ws y = q @ z" "q \<noteq> []" "\<And>t. scan_items fl d (q @ t) = Inr (ws, t)"
      using 3(2) [OF r(1) _ r(2) _ c i] c by fastforce
    obtain u where u: "y = u @ skip_ws y" "\<And>t. skip_ws (u @ q @ t) = q @ t" using skip_ws_before [OF q(1,2)] by blast
    show ?thesis using p w f c vs q u by (intro exI [of _ "p @ w @ 44 # u @ q"]) (simp add: scan_items.simps)
  qed
next
  case (4 fl d acc s ms z)
  obtain s1 name s2 s3 v r c y where r: "s = 34 # s1" "scanstring s1 = Inr (name, s2)"
      "skip_ws s2 = 58 # s3" "scan_value fl d (skip_ws s3) = Inr (v, r)" "skip_ws r = c # y"
    and z: "c = 125 \<and> z = y \<and> ms = dset name v acc \<or> c = 44 \<and> scan_members fl d (dset name v acc) (skip_ws y) = Inr (ms, z)"
    using 4(3) by (auto simp: scan_members.simps elim!: bind_res_InrE split: if_splits list.splits)
  obtain a where a: "s1 = a @ s2" "\<And>t. scanstring (a @ t) = Inr (name, t)" using scanstring_local [OF r(2)] by blast
  obtain b where b: "s2 = b @ 58 # s3" "\<And>t. skip_ws (b @ 58 # t) = 58 # t" using skip_ws_local [OF r(3)] by blast
  obtain p where p: "skip_ws s3 = p @ r" "p \<noteq> []" "\<And>t. fits v t \<Longrightarrow> scan_value fl d (p @ t) = Inr (v, t)"
    using 4(1) [OF r(1) _ r(2) _ r(3) _ r(4)] by fastforce
  obtain e where e: "s3 = e @ skip_ws s3" "\<And>t. skip_ws (e @ p @ t) = p @ t" using skip_ws_before [OF p(1,2)] by blast
  obtain w where w: "r = w @ c # y" "\<forall>x \<in> set w. is_ws x" "\<And>t. skip_ws (w @ c # t) = c # t"
    using skip_ws_local [OF r(5)] by blast
  have f: "fits v (w @ c # t)" for t using fits_ws w(2) z by auto
  from z show ?case
  proof (elim disjE conjE exE)
    assume "c = 125" "z = y" "ms = dset name v acc"
    then show ?thesis using r(1) a b p e w f
      by (intro exI [of _ "34 # a @ b @ 58 # e @ p @ w @ [125]"]) (simp add: scan_members.simps)
  next
    assume c: "c = 44" and i: "scan_members fl d (dset name v acc) (skip_ws y) = Inr (ms, z)"
    obtain q where q: "skip_ws y = q @ z" "q \<noteq> []" "\<And>t. scan_members fl d (dset name v acc) (q @ t) = Inr (ms, t)"
      using 4(2) [OF r(1) _ r(2) _ r(3) _ r(4) _ r(5) _ c i] c by fastforce
    obtain u where u: "y = u @ skip_ws y" "\<And>t. skip_ws (u @ q @ t) = q @ t" using skip_ws_before [OF q(1,2)] by blast
    show ?thesis using r(1) a b p e w f c q u
      by (intro exI [of _ "34 # a @ b @ 58 # e @ p @ w @ 44 # u @ q"]) (simp add: scan_members.simps)
  qed
qed

lemma raw_decode_local:
  assumes "raw_decode fl d s = Inr (v, r)"
  obtains p where "s = p @ r" "p \<noteq> []" "\<And>t. fits v t \<Longrightarrow> raw_decode fl d (p @ t) = Inr (v, t)"
  using scan_local_exists(1) assms unfolding raw_decode_def by blast

subsection \<open>What is written is read back\<close>

text \<open>A float is canonical when its \<open>repr\<close> is a word or a numeral whose \<open>repr\<close> it is.\<close>

definition float_ok :: "(pystr \<Rightarrow> pystr) \<Rightarrow> pystr \<Rightarrow> bool" where
  "float_ok fl t \<longleftrightarrow> t \<in> {str ''nan'', str ''inf'', str ''-inf''} \<or> scan_number fl t = Inr (JFloat t, [])"

text \<open>Values that arise in Python: canonical floats, keys once; within the limits of the interpreter.\<close>

fun plain :: "(pystr \<Rightarrow> pystr) \<Rightarrow> nat \<Rightarrow> json \<Rightarrow> bool" where
  "plain fl d (JInt i) = int_fits i"
| "plain fl d (JFloat t) = float_ok fl t"
| "plain fl d (JArr vs) = (0 < d \<and> list_all (plain fl (d - 1)) vs)"
| "plain fl d (JObj ms) = (0 < d \<and> wf_dict ms \<and> list_all (\<lambda>(k, v). plain fl (d - 1) v) ms)"
| "plain fl d _ = True"

lemma plain_ints_fit: "plain fl d v \<Longrightarrow> ints_fit v"
  by (induction fl d v rule: plain.induct) (auto simp: list_all_iff)

lemma hex_value_char: "n < 16 \<Longrightarrow> hex_value (hex_char n) = Some n"
  by (simp add: hex_value_def hex_char_def)

lemma scanstring_escape:
  assumes "scanstring r = Inr (s, t)"
  shows "scanstring (escape_char c @ r) = Inr (c # s, t)"
proof (cases "c < 32")
  case True
  then have pair: "join_pair c r = None" by (cases "(c, r)" rule: join_pair.cases) auto
  have hex: "hex4 (48 # 48 # hex_char (c div 16) # hex_char (c mod 16) # r) = Some (c, r)"
    using True hex_value_char [of "c div 16"] hex_value_char [of "c mod 16"] by (simp add: hex_value_def)
  show ?thesis
    using assms True pair hex
    by (simp add: scanstring.simps [of "x # y" for x y] escape_char_def unescape_def del: hex4.simps)
next
  case False
  then show ?thesis
    using assms by (simp add: scanstring.simps [of "x # y" for x y] escape_char_def unescape_def)
qed

lemma scanstring_quote: "scanstring (concat (map escape_char s) @ 34 # t) = Inr (s, t)"
  by (induction s) (simp_all add: scanstring.simps [of "34 # t"] scanstring_escape)

lemma nat_str_head: "0 < n \<Longrightarrow> hd (nat_str n) \<noteq> 48"
proof (induction n rule: nat_str.induct)
  case (1 n)
  then show ?case by (cases "n < 10") (auto simp: nat_str.simps [of n])
qed

lemma scan_unsigned_nat_str:
  assumes "int_fits (int n)" and t: "delim t" and sign: "sign = [] \<or> sign = [45]"
  shows "scan_unsigned fl sign (nat_str n @ t) = Inr (JInt (if sign = [] then int n else - int n), t)"
proof -
  obtain c q where cq: "nat_str n = c # q" by (metis nat_str_nonempty neq_Nil_conv)
  have dig: "\<forall>x \<in> set (nat_str n). is_digit x" using nat_str_chars [of _ n] by (fastforce simp: is_digit_def)
  have zero: "q = []" if "c = 48"
  proof -
    have "n = 0" using nat_str_head [of n] cq that by (cases "n = 0") auto
    then show ?thesis using cq by (simp add: nat_str.simps)
  qed
  have t': "t = [] \<or> \<not> is_digit (hd t)" using t by (auto simp: delim_def)
  have q: "takeWhile is_digit (q @ t) = q" "dropWhile is_digit (q @ t) = t"
    using take_digits_over [of q t] dig cq t' by auto
  have f: "fraction t = ([], t)" "exponent t = ([], t)"
    using t by (auto simp: fraction_def exponent_def delim_def split: list.splits)
  have "n < 10 ^ max_str_digits" using assms(1) by (simp add: int_fits_def)
  then have i: "py_nat (c # q) = Inr (int n)" using py_nat_nat_str [of n] cq by simp
  have c: "is_digit c" using dig cq by simp
  then have "py_int (sign @ c # q) = Inr (if sign = [] then int n else - int n)"
    using sign i by (auto simp: py_int_def is_digit_def)
  then show ?thesis using cq c q f zero by (auto simp: scan_unsigned_def Let_def)
qed

lemma nat_str_Cons: "\<exists>c q. nat_str n = c # q \<and> is_digit c"
  using nat_str_chars [of "hd (nat_str n)" n] by (cases "nat_str n") (auto simp: is_digit_def)

lemma scan_int_str:
  assumes "int_fits i" and t: "delim t"
  shows "scan_value fl d (int_str i @ t) = Inr (JInt i, t)"
proof -
  have fit: "int_fits (int (nat \<bar>i\<bar>))" using assms(1) by (simp add: int_fits_def)
  show ?thesis
  proof (cases "i < 0")
    case True
    obtain c q where cq: "nat_str (nat (- i)) = c # q" "is_digit c" using nat_str_Cons by blast
    have "scan_unsigned fl [45] (nat_str (nat (- i)) @ t) = Inr (JInt i, t)"
      using scan_unsigned_nat_str [OF _ t, of "nat (- i)" "[45]" fl] fit True by simp
    then show ?thesis
      using True cq no_word(2) [of c "q @ t"] by (simp add: int_str_def scan_value.simps(2) scan_atom_def scan_number_def)
  next
    case False
    obtain c q where cq: "nat_str (nat i) = c # q" "is_digit c" using nat_str_Cons by blast
    have "scan_unsigned fl [] (nat_str (nat i) @ t) = Inr (JInt i, t)"
      using scan_unsigned_nat_str [OF _ t, of "nat i" "[]" fl] fit False by simp
    then show ?thesis
      using False cq no_word(1) [of c "q @ t"]
      by (auto simp: int_str_def scan_value.simps(2) scan_atom_def scan_number_def is_digit_def)
  qed
qed

lemma scan_word:
  assumes "(w, v) \<in> set words"
  shows "scan_value fl d (w @ t) = Inr (v, t)"
proof -
  have "w \<noteq> []" "hd w \<noteq> 34" "hd w \<noteq> 123" "hd w \<noteq> 91" using assms by (auto simp: words_def str_def)
  then show ?thesis
    using word_found [OF assms, of t] by (cases w) (auto simp: scan_value.simps(2) scan_atom_def)
qed

lemma scan_float:
  assumes "float_ok fl f" and t: "delim t"
  shows "scan_value fl d (float_literal f @ t) = Inr (JFloat f, t)"
proof (cases "f \<in> {str ''nan'', str ''inf'', str ''-inf''}")
  case True
  then have "(float_literal f, JFloat f) \<in> set words" by (auto simp: float_literal_def words_def)
  then show ?thesis by (rule scan_word)
next
  case False
  then have n: "scan_number fl f = Inr (JFloat f, [])" using assms(1) by (simp add: float_ok_def)
  obtain p where p: "f = p @ []" "p \<noteq> []" "is_digit (hd p) \<or> hd p = 45 \<and> tl p \<noteq> [] \<and> is_digit (hd (tl p))"
    "\<And>t. delim t \<Longrightarrow> scan_number fl (p @ t) = Inr (JFloat f, t)" using scan_number_local [OF n] by blast
  have "find (\<lambda>(w, v). take (length w) (f @ t) = w) words = None"
    using p(1-3) no_word by (cases p; cases "tl p") auto
  moreover have "scan_value fl d (f @ t) = scan_atom fl (f @ t)"
    using p(1-3) by (cases p) (auto simp: scan_value.simps(2) is_digit_def)
  ultimately show ?thesis using p t False by (simp add: scan_atom_def float_literal_def)
qed

lemma str_marks:
  "str ''['' = [91]" "str '']'' = [93]" "str ''{'' = [123]" "str ''}'' = [125]"
  by (simp_all add: str_def)

lemma dump_head:
  assumes "plain fl d v"
  shows "\<exists>c q. dump_text v = c # q \<and> \<not> is_ws c \<and> c \<noteq> 93 \<and> c \<noteq> 125"
proof (cases v)
  case (JInt i)
  show ?thesis
    using JInt nat_str_Cons [of "nat i"] by (auto simp: int_str_def is_ws_def is_digit_def)
next
  case (JFloat f)
    show ?thesis
    proof (cases "f \<in> {str ''nan'', str ''inf'', str ''-inf''}")
      case True
      then show ?thesis using JFloat by (auto simp: float_literal_def str_def is_ws_def)
    next
      case False
      then have "scan_number fl f = Inr (JFloat f, [])" using assms JFloat by (simp add: float_ok_def)
      then obtain p where "f = p @ []" "p \<noteq> []" "is_digit (hd p) \<or> hd p = 45" using scan_number_local by blast
      then show ?thesis using JFloat False by (cases f) (auto simp: float_literal_def is_digit_def is_ws_def)
    qed
qed (auto simp: str_def quote_def is_ws_def)

lemma scan_items_dump:
  assumes "vs \<noteq> []"
    and "\<And>v t. v \<in> set vs \<Longrightarrow> fits v t \<Longrightarrow> scan_value fl d (dump_text v @ t) = Inr (v, t)"
    and "\<And>v. v \<in> set vs \<Longrightarrow> plain fl e v"
  shows "scan_items fl d (py_join (str '', '') (map dump_text vs) @ 93 # t) = Inr (vs, t)"
  using assms
proof (induction vs rule: list_nonempty_induct)
  case (single v)
  have "fits v (93 # t)" using fits_ws [of "[]" 93 v t] by simp
  then show ?case using single by (simp add: scan_items.simps is_ws_def)
next
  case (cons v vs)
  obtain w ws where vs: "vs = w # ws" using cons(1) by (cases vs) auto
  obtain c q where c: "dump_text w = c # q" "\<not> is_ws c" using dump_head [of fl e w] cons(4) vs by auto
  have f: "fits v (44 # u)" for u using fits_ws [of "[]" 44 v u] by simp
  have "skip_ws (32 # py_join (str '', '') (map dump_text vs) @ 93 # t) = py_join (str '', '') (map dump_text vs) @ 93 # t"
    using c vs by (cases ws) (simp_all add: skip_ws_def is_ws_def)
  then show ?case
    using cons f vs by (simp add: scan_items.simps str_def is_ws_def)
qed

lemma scan_members_dump:
  assumes "ms \<noteq> []"
    and "\<And>k v t. (k, v) \<in> set ms \<Longrightarrow> fits v t \<Longrightarrow> scan_value fl d (dump_text v @ t) = Inr (v, t)"
    and "\<And>k v. (k, v) \<in> set ms \<Longrightarrow> plain fl e v"
    and "wf_dict (acc @ ms)"
  shows "scan_members fl d acc
      (py_join (str '', '') (map (\<lambda>(k, v). quote k @ str '': '' @ dump_text v) ms) @ 125 # t) = Inr (acc @ ms, t)"
  using assms
proof (induction ms arbitrary: acc rule: list_nonempty_induct)
  case (single m)
  obtain k v where m: "m = (k, v)" by fastforce
  obtain c q where c: "dump_text v = c # q" "\<not> is_ws c" using dump_head [of fl e v] single(2) m by auto
  have f: "fits v (125 # t)" using fits_ws [of "[]" 125 v t] by simp
  have k: "k \<notin> set (dkeys acc)" using single(3) m by (auto simp: wf_dict_def)
  show ?case
    using single(1) [of k v "125 # t"] f m c dset_new [OF k]
    by (simp add: scan_members.simps quote_def scanstring_quote str_def is_ws_def skip_ws_def)
next
  case (cons m ms)
  obtain k v where m: "m = (k, v)" by fastforce
  obtain c q where c: "dump_text v = c # q" "\<not> is_ws c" using dump_head [of fl e v] cons(4) m by auto
  obtain k' v' ns where ms: "ms = (k', v') # ns" using cons(1) by (cases ms) auto
  have f: "fits v (44 # u)" for u using fits_ws [of "[]" 44 v u] by simp
  have k: "k \<notin> set (dkeys acc)" using cons(5) m by (auto simp: wf_dict_def)
  let ?rest = "py_join (str '', '') (map (\<lambda>(k, v). quote k @ str '': '' @ dump_text v) ms) @ 125 # t"
  have s: "skip_ws (32 # ?rest) = ?rest"
    using ms by (cases ns) (simp_all add: skip_ws_def is_ws_def quote_def)
  have "scan_members fl d (acc @ [(k, v)]) ?rest = Inr ((acc @ [(k, v)]) @ ms, t)"
  proof (rule cons(2), goal_cases)
    case (1 k v t)
    then show ?case using cons(3) [of k v t] by simp
  next
    case (2 k v)
    then show ?case using cons(4) [of k v] by simp
  next
    case 3
    then show ?case using cons(5) m by simp
  qed
  moreover have "py_join (str '', '') (map (\<lambda>(k, v). quote k @ str '': '' @ dump_text v) (m # ms)) @ 125 # t
      = quote k @ 58 # 32 # dump_text v @ 44 # 32 # ?rest"
    using ms m by (simp add: str_def)
  ultimately show ?case
    using s cons(3) [of k v "44 # 32 # ?rest"] f m c dset_new [OF k]
    by (simp add: scan_members.simps quote_def scanstring_quote is_ws_def skip_ws_def)
qed

lemma scan_dump:
  "plain fl d v \<Longrightarrow> fits v t \<Longrightarrow> scan_value fl d (dump_text v @ t) = Inr (v, t)"
proof (induction fl d v arbitrary: t rule: plain.induct)
  case (1 fl d i)
  then show ?case by (simp add: scan_int_str fits_def)
next
  case (2 fl d f)
  then show ?case by (simp add: scan_float fits_def)
next
  case (3 fl d vs)
  then obtain e where d: "d = Suc e" by (cases d) auto
  show ?case
  proof (cases "vs = []")
    case True
    then show ?thesis using d by (simp add: scan_value.simps(2) str_def is_ws_def)
  next
    case False
    have p: "plain fl e v" if "v \<in> set vs" for v using 3(2) d that by (simp add: list_all_iff)
    have "scan_value fl e (dump_text v @ u) = Inr (v, u)" if "v \<in> set vs" "fits v u" for v u
      using 3(1) [of v u] 3(2) d that p by simp
    then have i: "scan_items fl e (py_join (str '', '') (map dump_text vs) @ 93 # t) = Inr (vs, t)"
      using scan_items_dump [OF False] p by blast
    obtain w ws where vs: "vs = w # ws" using False by (cases vs) auto
    obtain c q where "dump_text w = c # q" "\<not> is_ws c" "c \<noteq> 93" using dump_head [OF p [of w]] vs by fastforce
    then obtain c' q' where j: "py_join (str '', '') (map dump_text vs) = c' # q'" "\<not> is_ws c'" "c' \<noteq> 93"
      using vs by (cases ws) auto
    show ?thesis using i d j by (simp add: scan_value.simps(2) str_marks)
  qed
next
  case (4 fl d ms)
  then obtain e where d: "d = Suc e" by (cases d) auto
  show ?case
  proof (cases "ms = []")
    case True
    then show ?thesis using d by (simp add: scan_value.simps(2) str_def is_ws_def)
  next
    case False
    let ?f = "\<lambda>(k, v). quote k @ str '': '' @ dump_text v"
    have p: "plain fl e v" if "(k, v) \<in> set ms" for k v using 4(2) d that by (auto simp: list_all_iff)
    have "scan_value fl e (dump_text v @ u) = Inr (v, u)" if "(k, v) \<in> set ms" "fits v u" for k v u
      using 4(1) [of "(k, v)" k v u] 4(2) d that p by auto
    then have i: "scan_members fl e [] (py_join (str '', '') (map ?f ms) @ 125 # t) = Inr (ms, t)"
      using scan_members_dump [OF False, of fl e e "[]" t] p 4(2) by auto
    obtain m ns where ms: "ms = m # ns" using False by (cases ms) auto
    obtain q' where j: "py_join (str '', '') (map ?f ms) = 34 # q'"
      using ms by (cases m; cases ns) (auto simp: quote_def)
    show ?thesis using i d j by (simp add: scan_value.simps(2) str_marks is_ws_def)
  qed
qed (auto simp: quote_def scan_value.simps(2) scanstring_quote scan_word [unfolded words_def]) 

subsection \<open>What the two promise\<close>

lemma dump_not_bom: "plain fl d v \<Longrightarrow> take 1 (dump_text v) \<noteq> [65279]"
proof (cases v)
  case (JInt i)
  then show ?thesis using nat_str_Cons [of "nat i"] by (auto simp: int_str_def is_digit_def)
next
  case (JFloat f)
  assume p: "plain fl d v"
  show ?thesis
  proof (cases "f \<in> {str ''nan'', str ''inf'', str ''-inf''}")
    case True
    then show ?thesis using JFloat by (auto simp: float_literal_def str_def)
  next
    case False
    then have "scan_number fl f = Inr (JFloat f, [])" using p JFloat by (simp add: float_ok_def)
    then obtain p where "f = p @ []" "p \<noteq> []" "is_digit (hd p) \<or> hd p = 45" using scan_number_local by blast
    then show ?thesis using JFloat False by (cases f) (auto simp: float_literal_def is_digit_def)
  qed
qed (auto simp: str_def quote_def)


definition demo_json :: json where
  "demo_json = JObj [(str ''id'', JStr [97, 34, 92, 10, 7, 233]), (str ''n'', JArr [JInt (- 7), JBool True, JNull])]"


end
