(* ===== verification/Json_Spans.thy ===== *)
theory Json_Spans
  imports Json_Text
begin

section \<open>The exact text of a member\<close>

text \<open>
  \<open>src/nmos/json/spans.py\<close> and \<open>src/nmos/registry/decode.py\<close>: the members of a JSON object with
  the text each value was written in, and the validation of a registration request, which keeps
  the text of its \<open>data\<close>. The generated types a resource is decoded into are the argument
  \<open>validate\<close>, which answers or raises.
\<close>

subsection \<open>Members with their text\<close>

text \<open>\<open>_require\<close>, and the step over the character it asked for.\<close>

definition require_char :: "nat \<Rightarrow> pystr \<Rightarrow> pystr res" where
  "require_char c s = (case s of [] \<Rightarrow> Inl JsonSpanError | x # r \<Rightarrow> if x = c then Inr r else Inl JsonSpanError)"

text \<open>\<open>except ValueError as exc: raise JsonSpanError\<close>.\<close>

definition span_error :: "'a res \<Rightarrow> 'a res" where
  "span_error r = (case r of Inl ValueError \<Rightarrow> Inl JsonSpanError | _ \<Rightarrow> r)"

text \<open>
  \<open>_scan\<close> from the first member on: every member as name, text and value, and what stands after
  the closing brace, which nobody looks at.
\<close>

function scan_spans ::
  "(pystr \<Rightarrow> pystr) \<Rightarrow> nat \<Rightarrow> pystr \<Rightarrow> ((pystr \<times> pystr \<times> json) list \<times> pystr) res" where
  "scan_spans fl d s =
     bind_res (require_char 34 s) (\<lambda>s1.
     bind_res (span_error (scanstring s1)) (\<lambda>(name, s2).
     bind_res (require_char 58 (skip_ws s2)) (\<lambda>s3.
     bind_res (span_error (raw_decode fl d (skip_ws s3))) (\<lambda>(v, r).
       let m = (name, take (length (skip_ws s3) - length r) (skip_ws s3), v)
       in case skip_ws r of
            [] \<Rightarrow> Inl JsonSpanError
          | c # z \<Rightarrow>
              if c = 44 then bind_res (scan_spans fl d (skip_ws z)) (\<lambda>(ms, y). Inr (m # ms, y))
              else if c = 125 then Inr ([m], z)
              else Inl JsonSpanError))))"
  by pat_completeness auto

lemma span_error_Inr [simp]: "span_error r = Inr x \<longleftrightarrow> r = Inr x"
  by (auto simp: span_error_def split: sum.splits py_error.splits)

lemma require_char_Inr [simp]: "require_char c s = Inr r \<longleftrightarrow> s = c # r"
  by (auto simp: require_char_def split: list.splits)

lemma raw_decode_length: "raw_decode fl d s = Inr (v, r) \<Longrightarrow> length r < length s"
  by (erule raw_decode_local) auto

termination scan_spans
proof (relation "measure (\<lambda>(fl, d, s). length s)", goal_cases)
  case (2 fl d s s1 x name s2 s3 y v r m c z)
  then have "s = 34 # s1" "length s2 < length s1" "length s3 < length s2" "length r < length (skip_ws s3)" "length z < length r"
    using scanstring_length skip_ws_Cons_length raw_decode_length by fastforce+
  with skip_ws_length [of s3] skip_ws_length [of z] show ?case by simp
qed simp

declare scan_spans.simps [simp del]

lemma scan_spans_code [code]:
  "scan_spans fl d [] = Inl JsonSpanError"
  "scan_spans fl d (q # s) =
     bind_res (require_char 34 (q # s)) (\<lambda>s1.
     bind_res (span_error (scanstring s1)) (\<lambda>(name, s2).
     bind_res (require_char 58 (skip_ws s2)) (\<lambda>s3.
     bind_res (span_error (raw_decode fl d (skip_ws s3))) (\<lambda>(v, r).
       let m = (name, take (length (skip_ws s3) - length r) (skip_ws s3), v)
       in case skip_ws r of
            [] \<Rightarrow> Inl JsonSpanError
          | c # z \<Rightarrow>
              if c = 44 then bind_res (scan_spans fl d (skip_ws z)) (\<lambda>(ms, y). Inr (m # ms, y))
              else if c = 125 then Inr ([m], z)
              else Inl JsonSpanError))))"
  by (simp_all add: scan_spans.simps require_char_def)

definition scan_object :: "(pystr \<Rightarrow> pystr) \<Rightarrow> nat \<Rightarrow> pystr \<Rightarrow> ((pystr \<times> pystr \<times> json) list \<times> pystr) res" where
  "scan_object fl d s =
     bind_res (require_char 123 (skip_ws s)) (\<lambda>r.
       case skip_ws r of
         [] \<Rightarrow> scan_spans fl d []
       | c # z \<Rightarrow> if c = 125 then Inr ([], z) else scan_spans fl d (c # z))"

definition member_text :: "(pystr \<Rightarrow> pystr) \<Rightarrow> nat \<Rightarrow> pystr \<Rightarrow> pystr \<Rightarrow> pystr option res" where
  "member_text fl d s key =
     bind_res (scan_object fl d s) (\<lambda>(ms, r).
       Inr (fold (\<lambda>(name, sp, v) found. if name = key then Some sp else found) ms None))"

definition member_spans :: "(pystr \<Rightarrow> pystr) \<Rightarrow> nat \<Rightarrow> pystr \<Rightarrow> (pystr, pystr \<times> json) pydict res" where
  "member_spans fl d s =
     bind_res (scan_object fl d s) (\<lambda>(ms, r). Inr (fold (\<lambda>(name, e). dset name e) ms []))"

subsection \<open>A registration request\<close>

text \<open>\<open>decode_resource\<close>: what the generated types raise becomes a \<open>DecodeFailure\<close>.\<close>

definition decode_resource_body ::
  "(ResourceType \<Rightarrow> (pystr, json) pydict \<Rightarrow> unit res) \<Rightarrow> ResourceType \<Rightarrow> json \<Rightarrow> unit res" where
  "decode_resource_body validate rt raw =
     (case raw of
        JObj data \<Rightarrow>
          (case validate rt data of
             Inl e \<Rightarrow> if e \<in> {NmosError, TypeError, ValueError, KeyError} then Inl DecodeFailure else Inl e
           | Inr u \<Rightarrow> Inr u)
      | _ \<Rightarrow> Inl DecodeFailure)"

definition decode_post_envelope ::
  "(pystr \<Rightarrow> pystr) \<Rightarrow> nat \<Rightarrow> (ResourceType \<Rightarrow> (pystr, json) pydict \<Rightarrow> unit res) \<Rightarrow> pystr
     \<Rightarrow> (ResourceType \<times> Body) res" where
  "decode_post_envelope fl d validate source =
     (case member_spans fl d source of
        Inl e \<Rightarrow>
          if e = JsonSpanError then
            (case parse_any fl d source of
               Inl x \<Rightarrow> if x \<in> {ValueError, TypeError} then Inl DecodeFailure else Inl x
             | Inr v \<Rightarrow> Inl DecodeFailure)
          else Inl e
      | Inr members \<Rightarrow>
          (case dget members (str ''type'') of
             Some (_, JStr name) \<Rightarrow>
               (case from_singular name of
                  None \<Rightarrow> Inl DecodeFailure
                | Some rt \<Rightarrow>
                    (case dget members (str ''data'') of
                       Some (sp, JObj data) \<Rightarrow>
                         bind_res (decode_resource_body validate rt (JObj data)) (\<lambda>_.
                           Inr (rt, \<lparr>body_text = sp, parsed = Some data\<rparr>))
                     | _ \<Rightarrow> Inl DecodeFailure))
           | _ \<Rightarrow> Inl DecodeFailure))"

subsection \<open>Members and the parsed object\<close>

text \<open>Each span is the text its value is read from, and nothing else.\<close>

definition exact_span :: "(pystr \<Rightarrow> pystr) \<Rightarrow> nat \<Rightarrow> pystr \<times> json \<Rightarrow> bool" where
  "exact_span fl d e \<longleftrightarrow> raw_decode fl d (fst e) = Inr (snd e, [])"

lemma fits_Nil [simp]: "fits v []"
  by (cases v) (simp_all add: fits_def delim_def)

lemma span_exact:
  assumes "raw_decode fl d s = Inr (v, r)"
  shows "exact_span fl d (take (length s - length r) s, v)" "s = take (length s - length r) s @ r"
proof -
  obtain p where p: "s = p @ r" "\<And>t. fits v t \<Longrightarrow> raw_decode fl d (p @ t) = Inr (v, t)"
    using raw_decode_local [OF assms] by blast
  then show "s = take (length s - length r) s @ r" by simp
  show "exact_span fl d (take (length s - length r) s, v)" using p(1) p(2) [of "[]"] by (simp add: exact_span_def)
qed

text \<open>The scanner of members and the scanner of objects go over the same characters.\<close>

abbreviation values_of :: "(pystr \<times> pystr \<times> json) list \<Rightarrow> (pystr, json) pydict \<Rightarrow> (pystr, json) pydict" where
  "values_of ms acc \<equiv> fold (\<lambda>(name, sp, v). dset name v) ms acc"

lemma scan_members_spans:
  "scan_members fl d acc s = Inr (ds, r) \<Longrightarrow>
     \<exists>ms. scan_spans fl d s = Inr (ms, r) \<and> ds = values_of ms acc \<and> (\<forall>m \<in> set ms. exact_span fl d (snd m))"
proof (induction s arbitrary: acc rule: length_induct)
  case (1 s)
  obtain s1 name s2 s3 v q c y where r: "s = 34 # s1" "scanstring s1 = Inr (name, s2)"
      "skip_ws s2 = 58 # s3" "scan_value fl d (skip_ws s3) = Inr (v, q)" "skip_ws q = c # y"
    and z: "c = 125 \<and> r = y \<and> ds = dset name v acc \<or> c = 44 \<and> scan_members fl d (dset name v acc) (skip_ws y) = Inr (ds, r)"
    using 1(2) by (auto simp: scan_members.simps elim!: bind_res_InrE split: if_splits list.splits)
  have raw: "raw_decode fl d (skip_ws s3) = Inr (v, q)" using r(4) by (simp add: raw_decode_def)
  note ex = span_exact [OF raw]
  show ?case
  proof (cases "c = 44")
    case True
    then have i: "scan_members fl d (dset name v acc) (skip_ws y) = Inr (ds, r)" using z by auto
    have "length (skip_ws y) < length s"
      using r(1) scanstring_length [OF r(2)] skip_ws_Cons_length [OF r(3)] skip_ws_length [of s3]
        raw_decode_length [OF raw] skip_ws_Cons_length [OF r(5)] skip_ws_length [of y] by simp
    then obtain ms where "scan_spans fl d (skip_ws y) = Inr (ms, r)" "ds = values_of ms (dset name v acc)"
        "\<forall>m \<in> set ms. exact_span fl d (snd m)"
      using 1(1) i by blast
    then show ?thesis using r raw ex True
      by (intro exI [of _ "(name, take (length (skip_ws s3) - length q) (skip_ws s3), v) # ms"])
        (simp add: scan_spans.simps [of fl d "34 # s1"] Let_def require_char_def span_error_def)
  next
    case False
    then show ?thesis using r raw ex z
      by (intro exI [of _ "[(name, take (length (skip_ws s3) - length q) (skip_ws s3), v)]"])
        (simp add: scan_spans.simps [of fl d "34 # s1"] Let_def require_char_def span_error_def)
  qed
qed

lemma scan_spans_members:
  "scan_spans fl d s = Inr (ms, r) \<Longrightarrow> scan_members fl d acc s = Inr (values_of ms acc, r)"
proof (induction s arbitrary: acc ms rule: length_induct)
  case (1 s)
  obtain s1 name s2 s3 v q c y ns where r: "s = 34 # s1" "scanstring s1 = Inr (name, s2)"
      "skip_ws s2 = 58 # s3" "raw_decode fl d (skip_ws s3) = Inr (v, q)" "skip_ws q = c # y"
    and ms: "ms = (name, take (length (skip_ws s3) - length q) (skip_ws s3), v) # ns"
    and z: "c = 125 \<and> r = y \<and> ns = [] \<or> c = 44 \<and> scan_spans fl d (skip_ws y) = Inr (ns, r)"
    using 1(2) by (auto simp: scan_spans.simps [of fl d s] Let_def elim!: bind_res_InrE split: if_splits list.splits)
  have "length (skip_ws y) < length s"
    using r(1) scanstring_length [OF r(2)] skip_ws_Cons_length [OF r(3)] skip_ws_length [of s3]
      raw_decode_length [OF r(4)] skip_ws_Cons_length [OF r(5)] skip_ws_length [of y] by simp
  then have "scan_members fl d acc' (skip_ws y) = Inr (values_of ns acc', r)" if "c = 44" for acc'
    using 1(1) z that by auto
  then show ?case
    using r z ms by (auto simp: scan_members.simps [of fl d acc "34 # s1"] raw_decode_def)
qed

text \<open>The dictionary of spans has the values of the dictionary \<open>json.loads\<close> builds.\<close>

lemma map_snd_dset: "map (\<lambda>(k, e). (k, snd e)) (dset name e d) = dset name (snd e) (map (\<lambda>(k, e). (k, snd e)) d)"
  by (induction d) auto

lemma spans_values:
  "map (\<lambda>(k, e). (k, snd e)) (fold (\<lambda>(name, e). dset name e) ms acc) =
     values_of ms (map (\<lambda>(k, e). (k, snd e)) acc)"
  by (induction ms arbitrary: acc) (auto simp: map_snd_dset)

lemma spans_from:
  "dget (fold (\<lambda>(name, e). dset name e) ms acc) k = Some e \<Longrightarrow> (k, e) \<in> set ms \<or> dget acc k = Some e"
  by (induction ms arbitrary: acc) (force split: if_splits)+

lemma scan_spans_exact: "scan_spans fl d t = Inr (ms, r) \<Longrightarrow> \<forall>m \<in> set ms. exact_span fl d (snd m)"
  using scan_members_spans [OF scan_spans_members [of fl d t ms r "[]"]] by auto

lemma scan_object_value:
  "(\<exists>ms. scan_object fl d s = Inr (ms, r) \<and> ds = values_of ms [] \<and> (\<forall>m \<in> set ms. exact_span fl d (snd m))) \<longleftrightarrow>
     scan_value fl (Suc d) (skip_ws s) = Inr (JObj ds, r)"
proof (cases "skip_ws s")
  case Nil
  then show ?thesis by (simp add: scan_object_def require_char_def)
next
  case (Cons c q)
  have atom: "scan_atom fl t \<noteq> Inr (JObj ds, r)" for t
    by (auto simp: scan_atom_def find_Some_iff words_def nth_Cons split: option.splits nat.splits dest: scan_number_kind)
  show ?thesis
  proof (cases "c = 123")
    case True
    show ?thesis
    proof (cases "skip_ws q")
      case Nil
      then show ?thesis using Cons True
        by (simp add: scan_object_def require_char_def scan_value.simps(2) scan_spans.simps [of fl d "[]"])
    next
      case c: (Cons b y)
      show ?thesis
      proof (cases "b = 125")
        case True
        then show ?thesis using Cons c \<open>c = 123\<close>
          by (auto simp: scan_object_def require_char_def scan_value.simps(2))
      next
        case False
        then show ?thesis using Cons c \<open>c = 123\<close> scan_spans_exact
          by (auto simp: scan_object_def require_char_def scan_value.simps(2) bind_res_eq_Inr
              dest: scan_members_spans scan_spans_members [of _ _ _ _ _ "[]"])
      qed
    qed
  next
    case False
    then show ?thesis using Cons atom
      by (auto simp: scan_object_def require_char_def scan_value.simps(2) elim!: bind_res_InrE split: if_splits nat.splits list.splits)
  qed
qed

lemma skip_ws_app: "skip_ws s = c # r \<Longrightarrow> skip_ws (s @ t) = c # r @ t"
  by (metis append_Cons append_assoc skip_ws_local)

lemma brace_not_bom: "skip_ws s = 123 # r \<Longrightarrow> take 1 s \<noteq> [65279]"
  by (cases s) (auto simp: skip_ws_def is_ws_def)

text \<open>Every span is a contiguous part of the text.\<close>

lemma scan_spans_part:
  "scan_spans fl d s = Inr (ms, r) \<Longrightarrow> m \<in> set ms \<Longrightarrow> \<exists>a t. s = a @ fst (snd m) @ t"
proof (induction s arbitrary: ms rule: length_induct)
  case (1 s)
  obtain s1 name s2 s3 v q c y ns where r: "s = 34 # s1" "scanstring s1 = Inr (name, s2)"
      "skip_ws s2 = 58 # s3" "raw_decode fl d (skip_ws s3) = Inr (v, q)" "skip_ws q = c # y"
    and ms: "ms = (name, take (length (skip_ws s3) - length q) (skip_ws s3), v) # ns"
    and z: "ns = [] \<or> c = 44 \<and> scan_spans fl d (skip_ws y) = Inr (ns, r)"
    using 1(2) by (auto simp: scan_spans.simps [of fl d s] Let_def elim!: bind_res_InrE split: if_splits list.splits)
  obtain a where a: "s1 = a @ s2" using scanstring_local [OF r(2)] by blast
  obtain b where b: "s2 = b @ 58 # s3" using skip_ws_local [OF r(3)] by blast
  obtain e where e: "s3 = e @ skip_ws s3" using skip_ws_split by blast
  note sp = span_exact(2) [OF r(4)]
  obtain w where w: "q = w @ c # y" using skip_ws_local [OF r(5)] by blast
  obtain u where u: "y = u @ skip_ws y" using skip_ws_split by blast
  let ?p = "take (length (skip_ws s3) - length q) (skip_ws s3)"
  have s: "s = (34 # a @ b @ 58 # e) @ ?p @ w @ c # u @ skip_ws y"
    using r(1) a b e sp w u by (metis append_Cons append_assoc)
  show ?case
  proof (cases "m \<in> set ns")
    case True
    then have i: "scan_spans fl d (skip_ws y) = Inr (ns, r)" using z by auto
    have "length (skip_ws y) < length s" using arg_cong [OF s, of length] by simp
    then obtain a' t where "skip_ws y = a' @ fst (snd m) @ t" using 1(1) i True by blast
    then show ?thesis using s by (metis append_Cons append_assoc)
  next
    case False
    then have "fst (snd m) = ?p" using 1(3) ms by auto
    then show ?thesis using s by metis
  qed
qed

lemma scan_object_part: "scan_object fl d s = Inr (ms, r) \<Longrightarrow> m \<in> set ms \<Longrightarrow> \<exists>a t. s = a @ fst (snd m) @ t"
proof -
  assume o: "scan_object fl d s = Inr (ms, r)" and m: "m \<in> set ms"
  obtain q c z where q: "skip_ws s = 123 # q" "skip_ws q = c # z" "scan_spans fl d (c # z) = Inr (ms, r)"
    using o m by (auto simp: scan_object_def scan_spans.simps [of fl d "[]"] require_char_def
      elim!: bind_res_InrE split: list.splits if_splits)
  obtain w where w: "s = w @ 123 # q" using skip_ws_local [OF q(1)] by blast
  obtain u where u: "q = u @ c # z" using skip_ws_local [OF q(2)] by blast
  from scan_spans_part [OF q(3) m] w u show ?thesis by (metis append_Cons append_assoc)
qed

lemma member_spans_object:
  assumes "member_spans fl d s = Inr ms"
  obtains p t ds where "s = p @ t" "parse_any fl (Suc d) p = Inr (JObj ds)"
    "ds = map (\<lambda>(k, e). (k, snd e)) ms"
    "\<And>k e. dget ms k = Some e \<Longrightarrow> exact_span fl d e \<and> (\<exists>a u. s = a @ fst e @ u)"
proof -
  obtain xs r where o: "scan_object fl d s = Inr (xs, r)" and ms: "ms = fold (\<lambda>(name, e). dset name e) xs []"
    using assms by (auto simp: member_spans_def elim!: bind_res_InrE)
  have ex: "\<forall>m \<in> set xs. exact_span fl d (snd m)"
  proof (cases "xs = []")
    case False
    then obtain t where "scan_spans fl d t = Inr (xs, r)"
      using o by (auto simp: scan_object_def elim!: bind_res_InrE split: list.splits if_splits)
    then show ?thesis by (rule scan_spans_exact)
  qed simp
  have v: "scan_value fl (Suc d) (skip_ws s) = Inr (JObj (values_of xs []), r)"
    using scan_object_value [of fl d s r "values_of xs []"] o ex by blast
  then obtain p where p: "skip_ws s = p @ r" "p \<noteq> []" "scan_value fl (Suc d) p = Inr (JObj (values_of xs []), [])"
    using scan_local_exists(1) [OF v] fits_Nil by (metis append_Nil2)
  obtain y where "skip_ws s = 123 # y" using o unfolding scan_object_def by (elim bind_res_InrE) simp
  then have c: "hd p = 123" using p(1,2) by (cases p) auto
  then obtain q where q: "p = 123 # q" using p(2) by (cases p) auto
  obtain w where w: "s = w @ skip_ws s" "\<forall>x \<in> set w. is_ws x" using skip_ws_split by blast
  have sk: "skip_ws (w @ p) = p" using w(2) q by (simp add: skip_ws_over is_ws_def)
  have "parse_any fl (Suc d) (w @ p) = Inr (JObj (values_of xs []))"
    using brace_not_bom [of "w @ p" q] sk q p(3) by (simp add: parse_any_def raw_decode_def skip_ws_def)
  moreover have "s = (w @ p) @ r" using w(1) p(1) by simp
  moreover have "exact_span fl d e \<and> (\<exists>a u. s = a @ fst e @ u)" if "dget ms k = Some e" for k e
  proof -
    have m: "(k, e) \<in> set xs" using spans_from [of xs "[]" k e] that ms by simp
    from ex m have "exact_span fl d e" by fastforce
    with scan_object_part [OF o m] show ?thesis by simp
  qed
  moreover have "values_of xs [] = map (\<lambda>(k, e). (k, snd e)) ms" using spans_values [of xs "[]"] ms by simp
  ultimately show thesis using that by blast
qed

lemma member_spans_complete:
  assumes "parse_any fl (Suc d) p = Inr (JObj ds)"
  obtains ms where "member_spans fl d (p @ t) = Inr ms" "ds = map (\<lambda>(k, e). (k, snd e)) ms"
proof -
  obtain r where r: "scan_value fl (Suc d) (skip_ws p) = Inr (JObj ds, r)" "skip_ws r = []"
    using assms by (auto simp: parse_any_def raw_decode_def elim!: bind_res_InrE split: if_splits)
  obtain a where a: "skip_ws p = a @ r" "a \<noteq> []" "\<And>t. scan_value fl (Suc d) (a @ t) = Inr (JObj ds, t)"
    using scan_local_exists(1) [OF r(1)] by (auto simp: fits_def)
  obtain c q where "a = c # q" using a(2) by (cases a) auto
  then have "skip_ws (p @ t) = a @ r @ t" using skip_ws_app [of p c "q @ r" t] a(1) by simp
  then have "scan_value fl (Suc d) (skip_ws (p @ t)) = Inr (JObj ds, r @ t)" using a(3) by simp
  then obtain xs where x: "scan_object fl d (p @ t) = Inr (xs, r @ t)" "ds = values_of xs []"
    using scan_object_value by blast
  show thesis
    by (rule that [of "fold (\<lambda>(name, e). dset name e) xs []"])
      (use x spans_values [of xs "[]"] in \<open>simp_all add: member_spans_def\<close>)
qed

lemma dget_map_snd: "dget (map (\<lambda>(k, e). (k, snd e)) ms) k = map_option snd (dget ms k)"
  by (induction ms) auto

subsection \<open>Evaluation\<close>

text \<open>Evaluating a scan: bodies of continuations are left alone until their argument is there.\<close>

lemma bind_res_weak_cong: "r = r' \<Longrightarrow> bind_res r f = bind_res r' f"
  by simp

lemmas scan_eval =
  scanstring_code scan_items_code scan_members_code scan_value.simps scan_spans_code scan_atom_def
  scan_number_def scan_unsigned_def fraction_def exponent_def words_def str_def skip_ws_def is_ws_def
  is_digit_def unescape_def raw_decode_def parse_any_def scan_object_def member_spans_def
  span_error_def require_char_def Let_def

subsection \<open>What a registration keeps\<close>

lemma accepted_request:
  shows "decode_post_envelope fl d validate s = Inr (rt, b) \<Longrightarrow>
    \<exists>p t ds data before after. s = p @ t \<and> parse_any fl (Suc d) p = Inr (JObj ds) \<and>
      dget ds (str ''type'') = Some (JStr (singular rt)) \<and> dget ds (str ''data'') = Some (JObj data) \<and>
      s = before @ body_text b @ after \<and> raw_decode fl d (body_text b) = Inr (JObj data, []) \<and>
      parsed b = Some data \<and> validate rt data = Inr ()"
    and "parse_any fl (Suc d) p = Inr (JObj ds) \<Longrightarrow> dget ds (str ''type'') = Some (JStr (singular rt)) \<Longrightarrow>
      dget ds (str ''data'') = Some (JObj data) \<Longrightarrow> validate rt data = Inr () \<Longrightarrow>
      \<exists>b. decode_post_envelope fl d validate (p @ t) = Inr (rt, b) \<and> parsed b = Some data"
proof -
  assume "decode_post_envelope fl d validate s = Inr (rt, b)"
  then obtain ms sp name data e where ms: "member_spans fl d s = Inr ms"
      and ty: "dget ms (str ''type'') = Some (e, JStr name)" "from_singular name = Some rt"
      and da: "dget ms (str ''data'') = Some (sp, JObj data)"
      and va: "decode_resource_body validate rt (JObj data) = Inr ()"
      and b: "b = \<lparr>body_text = sp, parsed = Some data\<rparr>"
    by (auto simp: decode_post_envelope_def bind_res_eq_Inr split: sum.splits if_splits option.splits prod.splits json.splits)
  obtain p t ds where p: "s = p @ t" "parse_any fl (Suc d) p = Inr (JObj ds)"
      "ds = map (\<lambda>(k, e). (k, snd e)) ms"
      "\<And>k e. dget ms k = Some e \<Longrightarrow> exact_span fl d e \<and> (\<exists>a u. s = a @ fst e @ u)"
    using member_spans_object [OF ms] by blast
  have "validate rt data = Inr ()" using va by (simp add: decode_resource_body_def split: sum.splits if_splits)
  moreover obtain a u where "exact_span fl d (sp, JObj data)" "s = a @ sp @ u" using p(4) [OF da] by auto
  moreover have "name = singular rt" using ty(2) from_singular_iff by blast
  ultimately show "\<exists>p t ds data before after. s = p @ t \<and> parse_any fl (Suc d) p = Inr (JObj ds) \<and>
      dget ds (str ''type'') = Some (JStr (singular rt)) \<and> dget ds (str ''data'') = Some (JObj data) \<and>
      s = before @ body_text b @ after \<and> raw_decode fl d (body_text b) = Inr (JObj data, []) \<and>
      parsed b = Some data \<and> validate rt data = Inr ()"
    using p(1-3) ty da b
    by (intro exI [of _ p] exI [of _ t] exI [of _ ds] exI [of _ data] exI [of _ a] exI [of _ u])
      (simp add: dget_map_snd exact_span_def)
next
  assume p: "parse_any fl (Suc d) p = Inr (JObj ds)" and ty: "dget ds (str ''type'') = Some (JStr (singular rt))"
    and da: "dget ds (str ''data'') = Some (JObj data)" and va: "validate rt data = Inr ()"
  obtain ms where "member_spans fl d (p @ t) = Inr ms" "ds = map (\<lambda>(k, e). (k, snd e)) ms"
    using member_spans_complete [OF p] by blast
  then show "\<exists>b. decode_post_envelope fl d validate (p @ t) = Inr (rt, b) \<and> parsed b = Some data"
    using ty da va from_singular_iff [of "singular rt" rt]
    by (auto simp: decode_post_envelope_def dget_map_snd decode_resource_body_def)
qed


definition demo_request :: pystr where
  "demo_request = str ''{ \"data\": {\"id\" : 1e3 },\"type\":\"node\"} and more''"


text \<open>
  The scanner stops at the closing brace: a request with anything after it is registered, where
  \<open>json.loads\<close> reports extra data. And a request nested beyond the recursion budget raises
  \<open>RecursionError\<close>, which neither \<open>except\<close> clause names, instead of being refused.
\<close>

lemma trailing_text_accepted:
  "decode_post_envelope id 3 (\<lambda>rt data. Inr ()) (str ''{\"data\":{},\"type\":\"node\"} }]'') =
     Inr (NODE, \<lparr>body_text = str ''{}'', parsed = Some []\<rparr>)"
  "parse_any id 3 (str ''{\"data\":{},\"type\":\"node\"} }]'') = Inl ValueError"
  by (simp_all add: decode_post_envelope_def scan_eval decode_resource_body_def from_singular_def resource_types_def cong: bind_res_weak_cong)

lemma deep_request_uncaught:
  "decode_post_envelope id 2 (\<lambda>rt data. Inr ()) (str ''{\"data\":[[[0]]]}'') = Inl RecursionError"
  by (simp add: decode_post_envelope_def scan_eval cong: bind_res_weak_cong)

end
