(* ===== verification/Envelope.thy ===== *)
theory Envelope
  imports Keys Json_Spans
begin

section \<open>The stored value\<close>

text \<open>
  The \<open>Envelope\<close> of \<open>src/nmos/registry/keys.py\<close>: what is kept in etcd for a resource. The
  metadata is written as JSON; the body is spliced in as the text it was registered with, and taken
  out again as text.
\<close>

definition ENVELOPE_VERSION :: int where
  "ENVELOPE_VERSION = 1"

record Envelope =
  en_version :: int
  en_type :: ResourceType
  en_body :: Body
  en_created :: TaiCursor
  en_updated :: TaiCursor
  en_health :: int

definition envelope_head :: "Envelope \<Rightarrow> json" where
  "envelope_head e = JObj
     [(str ''v'', JInt (en_version e)), (str ''type'', JStr (singular (en_type e))),
      (str ''created'', JStr (cursor_str (en_created e))), (str ''updated'', JStr (cursor_str (en_updated e))),
      (str ''health'', JInt (en_health e))]"

definition encode_envelope :: "Envelope \<Rightarrow> bytes res" where
  "encode_envelope e =
     bind_res (dump_any (envelope_head e)) (\<lambda>prefix.
       utf8_encode (butlast prefix @ str '', \"data\": '' @ body_text (en_body e) @ str ''}''))"

text \<open>\<open>_is_integer\<close> keeps \<open>True\<close> and \<open>False\<close> out.\<close>

definition is_integer :: "json option \<Rightarrow> int option" where
  "is_integer v = (case v of Some (JInt i) \<Rightarrow> Some i | _ \<Rightarrow> None)"

definition cursor_field :: "(pystr, json) pydict \<Rightarrow> pystr \<Rightarrow> TaiCursor res" where
  "cursor_field document field =
     (case dget document field of
        Some (JStr t) \<Rightarrow>
          bind_res (cursor_parse t) (\<lambda>c. case c of None \<Rightarrow> Inl Key_Error | Some x \<Rightarrow> Inr x)
      | _ \<Rightarrow> Inl Key_Error)"

text \<open>The members of the stored text, or the \<open>KeyError_\<close> a text that has none becomes.\<close>

definition envelope_members ::
  "(pystr \<Rightarrow> pystr) \<Rightarrow> nat \<Rightarrow> bytes \<Rightarrow> (pystr, pystr \<times> json) pydict res" where
  "envelope_members fl d v =
     (case utf8_decode v of
        Inl e \<Rightarrow> Inl Key_Error
      | Inr t \<Rightarrow>
          (case member_spans fl d t of
             Inl e \<Rightarrow>
               if e = JsonSpanError then
                 (case parse_any fl d t of
                    Inl x \<Rightarrow> if x \<in> {ValueError, TypeError} then Inl Key_Error else Inl x
                  | Inr w \<Rightarrow> Inl Key_Error)
               else Inl e
           | Inr ms \<Rightarrow> Inr ms))"

definition decode_envelope :: "(pystr \<Rightarrow> pystr) \<Rightarrow> nat \<Rightarrow> bytes \<Rightarrow> Envelope res" where
  "decode_envelope fl d v =
     bind_res (envelope_members fl d v) (\<lambda>members.
       let document = map (\<lambda>(name, e). (name, snd e)) members
       in case is_integer (dget document (str ''v'')) of
            None \<Rightarrow> Inl Key_Error
          | Some ver \<Rightarrow>
              if ver > ENVELOPE_VERSION then Inl Key_Error
              else case (case dget document (str ''type'') of Some (JStr t) \<Rightarrow> from_singular t | _ \<Rightarrow> None) of
                     None \<Rightarrow> Inl Key_Error
                   | Some rt \<Rightarrow>
                       (case dget members (str ''data'') of
                          Some (sp, JObj data) \<Rightarrow>
                            bind_res (cursor_field document (str ''created'')) (\<lambda>created_at.
                            bind_res (cursor_field document (str ''updated'')) (\<lambda>updated_at.
                              case is_integer (dget document (str ''health'')) of
                                None \<Rightarrow> Inl Key_Error
                              | Some h \<Rightarrow>
                                  Inr \<lparr>en_version = ver, en_type = rt,
                                       en_body = \<lparr>body_text = sp, parsed = Some data\<rparr>,
                                       en_created = created_at, en_updated = updated_at, en_health = h\<rparr>))
                        | _ \<Rightarrow> Inl Key_Error))"

subsection \<open>What is stored is read back\<close>

text \<open>A body as the registration leaves it: the text of one object, with its parsed form.\<close>

definition body_ok :: "(pystr \<Rightarrow> pystr) \<Rightarrow> nat \<Rightarrow> Body \<Rightarrow> bool" where
  "body_ok fl d b \<longleftrightarrow> (\<exists>data. parsed b = Some data \<and> raw_decode fl d (body_text b) = Inr (JObj data, []))"

definition cursor_fits :: "TaiCursor \<Rightarrow> bool" where
  "cursor_fits c \<longleftrightarrow> 0 \<le> seconds c \<and> int_fits (seconds c) \<and> 0 \<le> nanoseconds c \<and> int_fits (nanoseconds c)"

lemma decode_accepts_ok: "decode_post_envelope fl d validate s = Inr (rt, b) \<Longrightarrow> body_ok fl d b"
proof -
  assume "decode_post_envelope fl d validate s = Inr (rt, b)"
  then obtain ms sp data where ms: "member_spans fl d s = Inr ms" "dget ms (str ''data'') = Some (sp, JObj data)"
      "b = \<lparr>body_text = sp, parsed = Some data\<rparr>"
    by (auto simp: decode_post_envelope_def bind_res_eq_Inr split: sum.splits if_splits option.splits prod.splits json.splits)
  then have "exact_span fl d (sp, JObj data)" using member_spans_object [OF ms(1)] by metis
  then show ?thesis using ms(3) by (simp add: body_ok_def exact_span_def)
qed

text \<open>One member of an object, written with any text that reads as its value.\<close>

lemma scan_spans_member:
  assumes "raw_decode fl d v = Inr (x, [])" and "\<not> is_ws (hd v)" and "c = 44 \<or> c = 125"
  shows "scan_spans fl d (quote k @ str '': '' @ v @ c # rest) =
    (if c = 44 then bind_res (scan_spans fl d (skip_ws rest)) (\<lambda>(ms, y). Inr ((k, v, x) # ms, y))
     else Inr ([(k, v, x)], rest))"
proof -
  have "fits x (c # rest)" using fits_ws [of "[]" c x rest] assms(3) by auto
  moreover obtain p where p: "v = p @ []" "p \<noteq> []" "\<And>t. fits x t \<Longrightarrow> raw_decode fl d (p @ t) = Inr (x, t)"
    using raw_decode_local [OF assms(1)] by blast
  ultimately have raw: "raw_decode fl d (v @ c # rest) = Inr (x, c # rest)" by simp
  have "skip_ws (32 # v @ c # rest) = v @ c # rest"
    using assms(2) p(1,2) by (cases p) (simp_all add: skip_ws_def is_ws_def)
  moreover have "\<not> is_ws c" using assms(3) by (auto simp: is_ws_def)
  moreover have q: "quote k @ str '': '' @ v @ c # rest = 34 # concat (map escape_char k) @ 34 # 58 # 32 # v @ c # rest"
    by (simp add: quote_def str_def)
  ultimately show ?thesis
    using raw assms(3) unfolding q
    by (subst scan_spans.simps)
      (auto simp: require_char_def scanstring_quote span_error_def Let_def is_ws_def)
qed

lemma raw_object_head: "raw_decode fl d v = Inr (JObj data, []) \<Longrightarrow> hd v = 123 \<and> v \<noteq> []"
  by (cases v) (auto simp: raw_decode_def scan_value.simps(2) scan_atom_def find_Some_iff words_def nth_Cons
    split: if_splits option.splits nat.splits list.splits elim!: bind_res_InrE dest: scan_number_kind)

lemma scan_spans_dumped:
  assumes "plain fl d x" and "c = 44 \<or> c = 125"
  shows "scan_spans fl d (quote k @ str '': '' @ dump_text x @ c # rest) =
    (if c = 44 then bind_res (scan_spans fl d (skip_ws rest)) (\<lambda>(ms, y). Inr ((k, dump_text x, x) # ms, y))
     else Inr ([(k, dump_text x, x)], rest))"
proof (rule scan_spans_member [OF _ _ assms(2)])
  show "raw_decode fl d (dump_text x) = Inr (x, [])"
    using scan_dump [OF assms(1), of "[]"] by (simp add: raw_decode_def)
  show "\<not> is_ws (hd (dump_text x))" using dump_head [OF assms(1)] by auto
qed

lemma str_commas: "str '', '' = [44, 32]" "str '', \"data\": '' = 44 # 32 # quote (str ''data'') @ str '': ''"
  by (simp_all add: str_def quote_def escape_char_def)

lemma quote_stays: "skip_ws (32 # quote k @ r) = quote k @ r"
  by (simp add: skip_ws_def quote_def is_ws_def)

lemma scan_object_quote: "scan_object fl d (123 # quote k @ r) = scan_spans fl d (quote k @ r)"
  by (simp add: scan_object_def require_char_def quote_def skip_ws_def is_ws_def)

lemma valid_escape: "valid_char c \<Longrightarrow> list_all valid_char (escape_char c)"
  by (auto simp: escape_char_def valid_char_def hex_char_def)

lemma valid_quote: "list_all valid_char s \<Longrightarrow> list_all valid_char (quote s)"
  by (induction s) (auto simp: quote_def valid_escape valid_char_def)

lemma valid_nat_str: "list_all valid_char (nat_str n)"
  using nat_str_chars [of _ n] by (fastforce simp: list_all_iff valid_char_def)

lemma valid_int_str: "list_all valid_char (int_str i)"
  using valid_nat_str by (simp add: int_str_def valid_char_def)

lemma valid_cursor_str: "list_all valid_char (cursor_str c)"
  using valid_int_str by (simp add: cursor_str_def str_def valid_char_def)

lemma valid_singular: "list_all valid_char (singular rt)"
  by (cases rt) (simp_all add: str_def valid_char_def)

lemma envelope_decodes:
  assumes "en_version e \<le> ENVELOPE_VERSION" "int_fits (en_version e)" "int_fits (en_health e)"
    and "cursor_fits (en_created e)" "cursor_fits (en_updated e)"
    and "body_ok fl d (en_body e)" and "list_all valid_char (body_text (en_body e))"
  shows "\<exists>v. encode_envelope e = Inr v \<and> decode_envelope fl d v = Inr e"
proof -
  obtain data where data: "parsed (en_body e) = Some data" "raw_decode fl d (body_text (en_body e)) = Inr (JObj data, [])"
    using assms(6) by (auto simp: body_ok_def)
  let ?body = "body_text (en_body e)"
  let ?ms = "[(str ''v'', dump_text (JInt (en_version e)), JInt (en_version e)),
      (str ''type'', dump_text (JStr (singular (en_type e))), JStr (singular (en_type e))),
      (str ''created'', dump_text (JStr (cursor_str (en_created e))), JStr (cursor_str (en_created e))),
      (str ''updated'', dump_text (JStr (cursor_str (en_updated e))), JStr (cursor_str (en_updated e))),
      (str ''health'', dump_text (JInt (en_health e)), JInt (en_health e)),
      (str ''data'', ?body, JObj data)]"
  let ?t = "butlast (dump_text (envelope_head e)) @ str '', \"data\": '' @ ?body @ str ''}''"
  let ?m = "\<lambda>k v r. quote k @ str '': '' @ dump_text v @ 44 # 32 # r"
  have t: "?t = 123 # ?m (str ''v'') (JInt (en_version e)) (?m (str ''type'') (JStr (singular (en_type e)))
      (?m (str ''created'') (JStr (cursor_str (en_created e))) (?m (str ''updated'') (JStr (cursor_str (en_updated e)))
      (?m (str ''health'') (JInt (en_health e)) (quote (str ''data'') @ str '': '' @ ?body @ 125 # [])))))"
    by (simp add: envelope_head_def str_commas str_marks butlast_append del: dump_text.simps(3,5))
  have p: "plain fl d (JInt i)" if "int_fits i" for i using that by simp
  have q: "plain fl d (JStr x)" for x by simp
  have "\<not> is_ws (hd ?body)" using raw_object_head [OF data(2)] by (simp add: is_ws_def)
  note last = scan_spans_member [OF data(2) this, of 125 "str ''data''" "[]"]
  have "scan_object fl d ?t = Inr (?ms, [])"
    unfolding t
    by (simp add: scan_object_quote scan_spans_dumped p q assms last quote_stays del: dump_text.simps)
  then have "member_spans fl d ?t = Inr (map (\<lambda>(k, e). (k, e)) ?ms)"
    by (simp add: member_spans_def)
  moreover have "list_all valid_char ?t"
    unfolding t using assms(7) valid_quote valid_int_str valid_cursor_str valid_singular
    by (simp add: str_def valid_char_def)
  then obtain v where v: "utf8_encode ?t = Inr v" using utf8_encode_defined by blast
  ultimately have "envelope_members fl d v = Inr ?ms"
    using utf8_round_trip [OF v] by (simp add: envelope_members_def)
  moreover have "cursor_parse (cursor_str c) = Inr (Some c)" if "cursor_fits c" for c
    using that cursor_parse_str [of c] by (auto simp: cursor_fits_def int_fits_def)
  ultimately have "decode_envelope fl d v = Inr e"
    using assms(1,4,5) data(1) from_singular_iff [of "singular (en_type e)" "en_type e"]
    by (simp add: decode_envelope_def is_integer_def cursor_field_def)
  moreover have "ints_fit (envelope_head e)" using assms(2,3) by (simp add: envelope_head_def)
  ultimately show ?thesis using v by (simp add: encode_envelope_def dump_any_def)
qed

text \<open>
  C26: the stored value round trips. Decoding what was encoded gives the envelope back, the body
  with exactly the text it had and its parsed form with it, for every version this registry
  understands, every cursor and health within the interpreter's digit limit, and every body a
  registration can leave, provided its text can be encoded.
\<close>

theorem envelope_round_trip:
  assumes "en_version e \<le> ENVELOPE_VERSION" "int_fits (en_version e)" "int_fits (en_health e)"
    and "cursor_fits (en_created e)" "cursor_fits (en_updated e)"
    and "body_ok fl d (en_body e)" and "list_all valid_char (body_text (en_body e))"
  shows "\<exists>v. encode_envelope e = Inr v \<and> decode_envelope fl d v = Inr e"
  by (rule envelope_decodes [OF assms])

definition demo_envelope :: Envelope where
  "demo_envelope = \<lparr>en_version = 1, en_type = NODE,
     en_body = \<lparr>body_text = str ''{ \"id\":\"n\" }'', parsed = Some [(str ''id'', JStr (str ''n''))]\<rparr>,
     en_created = TaiCursor 3 4, en_updated = TaiCursor 5 6, en_health = 7\<rparr>"

theorem envelope_round_trip_witness:
  "\<exists>v. encode_envelope demo_envelope = Inr v \<and> decode_envelope id 3 v = Inr demo_envelope"
proof (rule envelope_round_trip)
  show "body_ok id 3 (en_body demo_envelope)"
    by (simp add: body_ok_def demo_envelope_def scan_eval cong: bind_res_weak_cong)
  show "list_all valid_char (body_text (en_body demo_envelope))"
    by (simp add: demo_envelope_def str_def valid_char_def)
qed (simp_all add: demo_envelope_def ENVELOPE_VERSION_def int_fits_def cursor_fits_def two_pow_small)

text \<open>
  Not every unreadable value is a \<open>KeyError_\<close>: a cursor text of digits \<open>int\<close> refuses raises
  \<open>ValueError\<close>, which the watch does not catch.
\<close>

lemma cursor_field_uncaught:
  "cursor_field [(str ''created'', JStr [178, 58, 48])] (str ''created'') = Inl ValueError"
  by (simp add: cursor_field_def cursor_parse_def py_partition_def py_isdigit_def char_isdigit_def digit_ranges_def
    py_int_def py_nat_def decimal_value_def decimal_zeros_def max_str_digits_def Let_def)

end
