(* ===== verification/Etcd_Watch.thy ===== *)
theory Etcd_Watch
  imports Prelude
begin

section \<open>The watch stream\<close>

text \<open>
  \<open>src/nmos/etcd/watch.py\<close>: what a watch connection hands to its consumer. etcd answers with
  responses, each carrying events in revision order, possibly a piece of a larger response
  (\<open>fragment\<close>) and possibly none at all (progress); the stream yields one batch per revision. The
  connection is modelled by the list of responses it delivers before it ends; an RPC failure, whose
  class \<open>classify\<close> of \<open>errors.py\<close> decides, by how the list ends.
\<close>

record KeyValue =
  kv_key :: bytes
  kv_value :: bytes
  kv_mod :: int
  kv_lease :: int

record KvEvent =
  ke_delete :: bool
  ke_kv :: KeyValue

record RevisionBatch =
  rb_revision :: int
  rb_events :: "KvEvent list"

definition progress_only :: "RevisionBatch \<Rightarrow> bool" where
  "progress_only b \<longleftrightarrow> rb_events b = []"

record WatchResponse =
  wr_created :: bool
  wr_canceled :: bool
  wr_compact_revision :: int
  wr_fragment :: bool
  wr_revision :: int
  wr_events :: "KvEvent list"

subsection \<open>Failures\<close>

datatype RpcCode = PERMISSION_DENIED | UNAUTHENTICATED | OTHER_CODE

text \<open>\<open>needle in text\<close>.\<close>

fun py_in :: "pystr \<Rightarrow> pystr \<Rightarrow> bool" where
  "py_in needle [] \<longleftrightarrow> needle = []"
| "py_in needle (c # cs) \<longleftrightarrow> take (length needle) (c # cs) = needle \<or> py_in needle cs"

definition classify_rpc :: "RpcCode \<Rightarrow> pystr \<Rightarrow> py_error" where
  "classify_rpc code detail =
     (if code = PERMISSION_DENIED \<or> code = UNAUTHENTICATED then EtcdPermissionDenied
      else if py_in (str ''required revision has been compacted'') detail then EtcdCompacted
      else if py_in (str ''requested lease not found'') detail \<or> py_in (str ''lease not found'') detail
      then EtcdLeaseNotFound
      else EtcdUnavailable)"

text \<open>\<open>isinstance(exc, EtcdError)\<close>.\<close>

definition is_EtcdError :: "py_error \<Rightarrow> bool" where
  "is_EtcdError e \<longleftrightarrow> e \<in> {EtcdError, EtcdUnavailable, EtcdCompacted, EtcdLeaseNotFound, EtcdPermissionDenied}"

definition raise_if_cancelled :: "WatchResponse \<Rightarrow> unit res" where
  "raise_if_cancelled r =
     (if \<not> wr_canceled r then Inr ()
      else if wr_compact_revision r > 0 then Inl EtcdCompacted
      else Inl EtcdUnavailable)"

text \<open>What the first read of a connection says; \<open>None\<close> is the end of the stream.\<close>

definition confirm_creation :: "WatchResponse option \<Rightarrow> unit res" where
  "confirm_creation r =
     (case r of
        None \<Rightarrow> Inl EtcdUnavailable
      | Some x \<Rightarrow>
          bind_res (raise_if_cancelled x) (\<lambda>_. if wr_created x then Inr () else Inl EtcdUnavailable))"

subsection \<open>Grouping\<close>

fun group_loop :: "RevisionBatch list \<Rightarrow> KvEvent list \<Rightarrow> int \<Rightarrow> KvEvent list \<Rightarrow> RevisionBatch list" where
  "group_loop batches current revision [] =
     (if current \<noteq> [] then batches @ [\<lparr>rb_revision = revision, rb_events = current\<rparr>] else batches)"
| "group_loop batches current revision (e # es) =
     (let event_revision = kv_mod (ke_kv e)
      in if current \<noteq> [] \<and> event_revision \<noteq> revision
         then group_loop (batches @ [\<lparr>rb_revision = revision, rb_events = current\<rparr>]) [e] event_revision es
         else group_loop batches (current @ [e]) event_revision es)"

definition group_by_revision :: "KvEvent list \<Rightarrow> RevisionBatch list" where
  "group_by_revision events = group_loop [] [] 0 events"

text \<open>
  \<open>__aiter__\<close>: the batches a connection yields and how it ends; \<open>None\<close> is a clean end of the
  stream. \<open>final\<close> is what the read after the last response does: \<open>None\<close> the end of the stream,
  \<open>Some\<close> the failure of the RPC.
\<close>

fun read_batches ::
  "py_error option \<Rightarrow> KvEvent list \<Rightarrow> WatchResponse list \<Rightarrow> RevisionBatch list \<times> py_error option" where
  "read_batches final pending [] =
     (case final of
        Some e \<Rightarrow> ([], Some e)
      | None \<Rightarrow> ([], if pending \<noteq> [] then Some EtcdUnavailable else None))"
| "read_batches final pending (r # rs) =
     (case raise_if_cancelled r of
        Inl e \<Rightarrow> ([], Some e)
      | Inr _ \<Rightarrow>
          if wr_created r then read_batches final pending rs
          else let events = pending @ wr_events r
               in if wr_fragment r then read_batches final events rs
                  else let (bs, e) = read_batches final [] rs
                       in ((if events = [] then [\<lparr>rb_revision = wr_revision r, rb_events = []\<rparr>]
                            else group_by_revision events) @ bs, e))"

subsection \<open>Batches are complete revisions\<close>

definition event_revision :: "KvEvent \<Rightarrow> int" where
  "event_revision e = kv_mod (ke_kv e)"

text \<open>What a grouping of events in revision order is: every batch holds the whole of its revision.\<close>

definition grouped :: "KvEvent list \<Rightarrow> RevisionBatch list \<Rightarrow> bool" where
  "grouped es bs \<longleftrightarrow> concat (map rb_events bs) = es \<and>
     (\<forall>b \<in> set bs. rb_events b \<noteq> [] \<and> rb_events b = filter (\<lambda>e. event_revision e = rb_revision b) es) \<and>
     sorted_wrt (<) (map rb_revision bs)"

lemma group_loop_batches:
  "group_loop bs cur r es = bs @ group_loop [] cur r es"
proof (induction es arbitrary: bs cur r)
  case (Cons e es)
  show ?case
    using Cons.IH [of "bs @ [\<lparr>rb_revision = r, rb_events = cur\<rparr>]" "[e]" "kv_mod (ke_kv e)"]
      Cons.IH [of "[\<lparr>rb_revision = r, rb_events = cur\<rparr>]" "[e]" "kv_mod (ke_kv e)"]
      Cons.IH [of bs "cur @ [e]" "kv_mod (ke_kv e)"]
    by (simp add: Let_def)
qed simp

lemma group_loop_grouped:
  assumes "sorted (map event_revision (cur @ es))" and "\<forall>e \<in> set cur. event_revision e = r" and "cur \<noteq> []"
  shows "grouped (cur @ es) (group_loop [] cur r es) \<and> (\<forall>b \<in> set (group_loop [] cur r es). r \<le> rb_revision b)"
  using assms
proof (induction es arbitrary: cur r)
  case Nil
  then show ?case by (auto simp: grouped_def filter_id_conv)
next
  case (Cons e es)
  let ?q = "event_revision e"
  have le: "r \<le> ?q" using Cons.prems by (cases cur) (auto simp: sorted_append)
  show ?case
  proof (cases "?q = r")
    case True
    have "grouped ((cur @ [e]) @ es) (group_loop [] (cur @ [e]) r es) \<and>
        (\<forall>b \<in> set (group_loop [] (cur @ [e]) r es). r \<le> rb_revision b)"
      using Cons.prems True by (intro Cons.IH) auto
    then show ?thesis using True Cons.prems(3) by (simp add: event_revision_def)
  next
    case False
    let ?bs = "group_loop [] [e] ?q es"
    have "sorted (map event_revision ([e] @ es))" using Cons.prems(1) by (simp add: sorted_append)
    then have "grouped ([e] @ es) ?bs \<and> (\<forall>b \<in> set ?bs. ?q \<le> rb_revision b)"
      by (rule Cons.IH) (simp, rule list.distinct)
    then have rest: "grouped (e # es) ?bs" "\<forall>b \<in> set ?bs. ?q \<le> rb_revision b" by (simp, blast)
    have later: "\<forall>x \<in> set (e # es). ?q \<le> event_revision x" using Cons.prems(1) by (simp add: sorted_append)
    have out: "group_loop [] cur r (e # es) = \<lparr>rb_revision = r, rb_events = cur\<rparr> # ?bs"
      using False Cons.prems(3) group_loop_batches [of "[\<lparr>rb_revision = r, rb_events = cur\<rparr>]" "[e]" ?q es]
      by (simp add: event_revision_def Let_def)
    have lt: "r < ?q" using le False by simp
    have "filter (\<lambda>x. event_revision x = r) (cur @ e # es) = cur"
      using later lt Cons.prems(2) by (auto simp: filter_id_conv filter_empty_conv)
    moreover have "filter (\<lambda>x. event_revision x = rb_revision b) (cur @ e # es) =
        filter (\<lambda>x. event_revision x = rb_revision b) (e # es)" if "b \<in> set ?bs" for b
      using that rest(2) lt Cons.prems(2) by (auto simp: filter_empty_conv)
    moreover have "r < rb_revision b" if "b \<in> set ?bs" for b using that rest(2) lt by fastforce
    ultimately show ?thesis
      using rest(1) lt Cons.prems(3) unfolding out grouped_def by (auto dest: order_less_imp_le)
  qed
qed

lemma group_by_revision_grouped:
  "sorted (map event_revision es) \<Longrightarrow> grouped es (group_by_revision es)"
proof (cases es)
  case Nil
  then show ?thesis by (simp add: group_by_revision_def grouped_def)
next
  case (Cons e r)
  assume "sorted (map event_revision es)"
  then show ?thesis
    using group_loop_grouped [of "[e]" r "event_revision e"] Cons
    by (simp add: group_by_revision_def event_revision_def Let_def)
qed

text \<open>The events a connection delivered in whole responses, and those of a response it did not finish.\<close>

fun whole_responses :: "KvEvent list \<Rightarrow> WatchResponse list \<Rightarrow> KvEvent list list \<times> KvEvent list" where
  "whole_responses pending [] = ([], pending)"
| "whole_responses pending (r # rs) =
     (if wr_created r then whole_responses pending rs
      else if wr_fragment r then whole_responses (pending @ wr_events r) rs
      else let (ws, left) = whole_responses [] rs in ((pending @ wr_events r) # ws, left))"

lemma group_loop_nonempty: "b \<in> set (group_loop [] cur r es) \<Longrightarrow> rb_events b \<noteq> []"
proof (induction es arbitrary: cur r)
  case (Cons e es)
  then show ?case
    using Cons.IH [of "[e]"] Cons.IH [of "cur @ [e]"]
      group_loop_batches [of "[\<lparr>rb_revision = r, rb_events = cur\<rparr>]" "[e]" "kv_mod (ke_kv e)" es]
    by (auto simp: Let_def split: if_splits)
qed (auto split: if_splits)

lemma read_batches_whole:
  assumes "\<forall>r \<in> set rs. \<not> wr_canceled r" and "whole_responses pending rs = (ws, left)"
  shows "filter (\<lambda>b. \<not> progress_only b) (fst (read_batches final pending rs)) = concat (map group_by_revision ws) \<and>
    snd (read_batches final pending rs) =
      (case final of Some e \<Rightarrow> Some e | None \<Rightarrow> if left = [] then None else Some EtcdUnavailable)"
  using assms
proof (induction rs arbitrary: pending ws)
  case (Cons r rs)
  have ok: "raise_if_cancelled r = Inr ()" using Cons.prems(1) by (simp add: raise_if_cancelled_def)
  show ?case
  proof (cases "wr_created r \<or> wr_fragment r")
    case True
    let ?p = "if wr_created r then pending else pending @ wr_events r"
    have "whole_responses ?p rs = (ws, left)" using Cons.prems(2) True by (auto simp del: append.simps split: if_splits)
    moreover have "read_batches final pending (r # rs) = read_batches final ?p rs"
      using True ok by (auto simp: Let_def)
    ultimately show ?thesis using Cons.IH [of ?p ws] Cons.prems(1) by simp
  next
    case False
    obtain w1 where w: "whole_responses [] rs = (w1, left)" "ws = (pending @ wr_events r) # w1"
      using Cons.prems(2) False by (auto simp: Let_def split: prod.splits)
    have "filter (\<lambda>b. \<not> progress_only b) (group_by_revision es) = group_by_revision es" for es
      by (auto simp: filter_id_conv progress_only_def group_by_revision_def dest: group_loop_nonempty)
    then show ?thesis
      using Cons.IH [OF _ w(1)] Cons.prems(1) ok False w(2)
      by (auto simp: Let_def progress_only_def group_by_revision_def split_beta)
  qed
qed (auto split: option.split)

lemma grouped_append:
  assumes "grouped a as" and "grouped b bs" and "\<forall>e \<in> set a. \<forall>f \<in> set b. event_revision e < event_revision f"
  shows "grouped (a @ b) (as @ bs)"
proof -
  have own: "\<exists>e \<in> set es. event_revision e = rb_revision x" if "grouped es xs" "x \<in> set xs" for es xs x
  proof -
    have "filter (\<lambda>e. event_revision e = rb_revision x) es \<noteq> []"
      using that unfolding grouped_def by metis
    then show ?thesis by (simp add: filter_empty_conv)
  qed
  have other_b: "filter (\<lambda>e. event_revision e = rb_revision x) b = []" if x: "x \<in> set as" for x
  proof -
    obtain e where "e \<in> set a" "event_revision e = rb_revision x" using own [OF assms(1) x] by blast
    then have "\<forall>f \<in> set b. rb_revision x < event_revision f" using assms(3) by force
    then show ?thesis by (simp add: filter_empty_conv) force
  qed
  have other_a: "filter (\<lambda>e. event_revision e = rb_revision x) a = []" if x: "x \<in> set bs" for x
  proof -
    obtain f where "f \<in> set b" "event_revision f = rb_revision x" using own [OF assms(2) x] by blast
    then have "\<forall>e \<in> set a. event_revision e < rb_revision x" using assms(3) by force
    then show ?thesis by (simp add: filter_empty_conv) force
  qed
  have less: "rb_revision x < rb_revision y" if xy: "x \<in> set as" "y \<in> set bs" for x y
  proof -
    obtain e where "e \<in> set a" "event_revision e = rb_revision x" using own [OF assms(1) xy(1)] by blast
    moreover obtain f where "f \<in> set b" "event_revision f = rb_revision y" using own [OF assms(2) xy(2)] by blast
    ultimately show ?thesis using assms(3) by force
  qed
  note g = assms(1,2) [unfolded grouped_def]
  show ?thesis
    unfolding grouped_def
  proof (intro conjI ballI)
    show "concat (map rb_events (as @ bs)) = a @ b" using g by simp
    show "sorted_wrt (<) (map rb_revision (as @ bs))" using g less by (simp only: map_append sorted_wrt_append) auto
    fix x assume "x \<in> set (as @ bs)"
    then consider "x \<in> set as" | "x \<in> set bs" by auto
    then show "rb_events x \<noteq> []" and "rb_events x = filter (\<lambda>e. event_revision e = rb_revision x) (a @ b)"
      using g other_a other_b by (cases; metis filter_append append_Nil append_Nil2)+
  qed
qed

text \<open>
  C27: a consumer never sees part of a revision. etcd promises events in revision order and never
  splits a revision over whole responses; then whatever pieces the responses came in, the batches
  with events hold every event delivered in whole responses, in order, each batch all events of its
  revision, revisions strictly increasing. A connection that ends inside a fragmented response
  fails instead of yielding the part it got.
\<close>

theorem batches_are_revisions:
  assumes "\<forall>r \<in> set rs. \<not> wr_canceled r" and "whole_responses [] rs = (ws, left)"
    and "\<forall>w \<in> set ws. sorted (map event_revision w)"
    and "sorted_wrt (\<lambda>v w. \<forall>e \<in> set v. \<forall>f \<in> set w. event_revision e < event_revision f) ws"
  shows "grouped (concat ws) (filter (\<lambda>b. \<not> progress_only b) (fst (read_batches final [] rs))) \<and>
    (left \<noteq> [] \<longrightarrow> snd (read_batches final [] rs) \<noteq> None)"
proof -
  have "grouped (concat ws) (concat (map group_by_revision ws))"
    using assms(3,4)
  proof (induction ws)
    case (Cons w ws)
    then show ?case using group_by_revision_grouped [of w] by (auto intro!: grouped_append)
  qed (simp add: grouped_def)
  then show ?thesis using read_batches_whole [OF assms(1,2)] by (auto split: option.split)
qed

definition demo_event :: "int \<Rightarrow> KvEvent" where
  "demo_event r = \<lparr>ke_delete = False, ke_kv = \<lparr>kv_key = [], kv_value = [], kv_mod = r, kv_lease = 0\<rparr>\<rparr>"

definition demo_response :: "bool \<Rightarrow> int list \<Rightarrow> WatchResponse" where
  "demo_response fragment rs =
     \<lparr>wr_created = False, wr_canceled = False, wr_compact_revision = 0, wr_fragment = fragment,
      wr_revision = 9, wr_events = map demo_event rs\<rparr>"

theorem batches_are_revisions_witness:
  "grouped (map demo_event [4, 4, 4, 5])
     (filter (\<lambda>b. \<not> progress_only b)
        (fst (read_batches None [] [demo_response True [4, 4], demo_response False [4, 5], demo_response True [6]]))) \<and>
   snd (read_batches None [] [demo_response True [4, 4], demo_response False [4, 5], demo_response True [6]]) \<noteq> None"
  using batches_are_revisions [of "[demo_response True [4, 4], demo_response False [4, 5], demo_response True [6]]"
      "[map demo_event [4, 4, 4, 5]]" "[demo_event 6]" None]
  by (simp add: demo_response_def demo_event_def event_revision_def)

end
