(* ===== verification/Etcd_View.thy ===== *)
theory Etcd_View
  imports Registry Raft_Backend Envelope Etcd_Watch
begin

section \<open>The read model over etcd\<close>

text \<open>
  \<open>src/nmos/registry/etcd_backend.py\<close>, the parts of \<open>EtcdRegistryBackend\<close> that run without
  giving up control: the application of a batch of watch events and of a snapshot to the local
  store, the difference of two stores, where a resource lives, and what a write asks of etcd. The
  coroutines built from them are in \<open>Etcd_Backend\<close>.

  \<open>_revisions\<close> and \<open>_leases\<close> are only looked up, set and popped, so they are maps. The tasks
  \<open>_schedule_advance\<close> creates are the list \<open>eb_scheduled\<close>, run in order; the lock of the fence is
  not modelled, its state is \<open>eb_applied\<close>. \<open>loads\<close>, \<open>fl\<close> and \<open>d\<close> are as in \<open>Json_Text\<close> and
  \<open>Subscriptions\<close>. Metrics are left out. Of the log, what is reported as skipped is returned.
\<close>

subsection \<open>The backend\<close>

record EtcdConfig =
  ec_external :: bool
  ec_members :: "pystr list"
  ec_timeout :: real

record EtcdBackend =
  eb_registry :: Registry
  eb_config :: EtcdConfig
  eb_namespace :: Namespace
  eb_state :: BackendState
  eb_applied :: int
  eb_scheduled :: "int list"
  eb_stopping :: bool
  eb_endpoint :: nat
  eb_revisions :: "bytes \<rightharpoonup> int"
  eb_leases :: "pystr \<rightharpoonup> int"
  eb_fast :: bool

definition new_etcd_backend :: "Registry \<Rightarrow> EtcdConfig \<Rightarrow> Namespace \<Rightarrow> bool \<Rightarrow> EtcdBackend" where
  "new_etcd_backend rg cfg ns fast =
     \<lparr>eb_registry = rg, eb_config = cfg, eb_namespace = ns, eb_state = STARTING, eb_applied = 0,
      eb_scheduled = [], eb_stopping = False, eb_endpoint = 0, eb_revisions = Map.empty,
      eb_leases = Map.empty, eb_fast = fast\<rparr>"

text \<open>The value of \<open>NMOS_ETCD_FAST_PATH\<close>, stripped; \<open>None\<close> when it is not set.\<close>

definition fast_path_enabled :: "pystr option \<Rightarrow> bool" where
  "fast_path_enabled v =
     ((case v of None \<Rightarrow> str ''1'' | Some t \<Rightarrow> t) \<notin> {str ''0'', str ''false'', str ''no'', str ''off''})"

definition eb_store :: "EtcdBackend \<Rightarrow> RegistryStore" where
  "eb_store b = rg_store (eb_registry b)"

definition put_store :: "EtcdBackend \<Rightarrow> RegistryStore \<Rightarrow> EtcdBackend" where
  "put_store b st = b\<lparr>eb_registry := (eb_registry b)\<lparr>rg_store := st\<rparr>\<rparr>"

definition set_state :: "EtcdBackend \<Rightarrow> BackendState \<Rightarrow> EtcdBackend" where
  "set_state b s = (if s = eb_state b then b else b\<lparr>eb_state := s\<rparr>)"

definition degrade :: "EtcdBackend \<Rightarrow> EtcdBackend" where
  "degrade b = (if eb_state b = STOPPING \<or> eb_state b = RESYNCING then b else set_state b DEGRADED)"

definition close_backend :: "EtcdBackend \<Rightarrow> EtcdBackend" where
  "close_backend b = set_state (b\<lparr>eb_stopping := True\<rparr>) STOPPING"

definition reconcile_members :: "EtcdConfig \<Rightarrow> pystr list \<Rightarrow> unit res" where
  "reconcile_members cfg actual =
     (let found = set (filter (\<lambda>n. n \<noteq> []) actual); expected = set (ec_members cfg)
      in if \<not> ec_external cfg
         then (if found \<noteq> {} \<and> found \<noteq> expected then Inl ClusterMismatch else Inr ())
         else if card found < card expected then Inl ClusterMismatch else Inr ())"

subsection \<open>The fence\<close>

definition fence_satisfied :: "EtcdBackend \<Rightarrow> int \<Rightarrow> bool" where
  "fence_satisfied b revision \<longleftrightarrow> eb_applied b \<ge> revision"

definition advance_fence :: "int \<Rightarrow> EtcdBackend \<Rightarrow> EtcdBackend" where
  "advance_fence revision b = (if revision \<le> eb_applied b then b else b\<lparr>eb_applied := revision\<rparr>)"

definition reset_fence :: "int \<Rightarrow> EtcdBackend \<Rightarrow> EtcdBackend" where
  "reset_fence revision b = b\<lparr>eb_applied := revision\<rparr>"

definition schedule_advance :: "int \<Rightarrow> EtcdBackend \<Rightarrow> EtcdBackend" where
  "schedule_advance revision b = b\<lparr>eb_scheduled := eb_scheduled b @ [revision]\<rparr>"

text \<open>The event loop gets to the first scheduled task.\<close>

definition run_scheduled :: "EtcdBackend \<Rightarrow> EtcdBackend" where
  "run_scheduled b =
     (case eb_scheduled b of [] \<Rightarrow> b | r # rs \<Rightarrow> advance_fence r (b\<lparr>eb_scheduled := rs\<rparr>))"

subsection \<open>One resource\<close>

definition check_envelope ::
  "(pystr \<Rightarrow> (pystr, json) pydict res) \<Rightarrow> ParsedKey \<Rightarrow> Envelope \<Rightarrow> unit res" where
  "check_envelope loads k e =
     (if en_type e \<noteq> pk_type k then Inl Key_Error
      else bind_res (body_data loads (en_body e)) (\<lambda>raw.
             if dget raw (str ''id'') \<noteq> Some (JStr (pk_id k)) then Inl Key_Error else Inr ()))"

text \<open>
  All three keyword arguments of \<open>apply_committed\<close> are given, so it reads no clock; its first two
  arguments are idle.
\<close>

definition apply_envelope ::
  "(pystr \<Rightarrow> (pystr, json) pydict res) \<Rightarrow> RegistryStore \<Rightarrow> Envelope \<Rightarrow> (RegistryStore \<times> ResourceEvent list) res" where
  "apply_envelope loads st e =
     bind_res (body_data loads (en_body e)) (\<lambda>raw.
     bind_res (prepare st (en_type e) raw) (\<lambda>r.
       case r of
         Inl refused \<Rightarrow> Inl Key_Error
       | Inr p \<Rightarrow>
           let (st', result) = apply_committed (en_health e) (en_updated e) st p (en_body e)
                 (Some (en_created e)) (Some (en_updated e)) (Some (en_health e))
           in Inr (st', rr_events result)))"

subsection \<open>Applying a batch\<close>

datatype change = Addition ParsedKey Envelope | Removal ParsedKey

text \<open>
  The loop over the events of a batch: the believed revisions and the leases, and what is to be
  done to the store. \<open>Inr None\<close> is an event that is passed over, because its key is no resource's
  or because it is reported as damaged.
\<close>

definition note_event ::
  "(pystr \<Rightarrow> (pystr, json) pydict res) \<Rightarrow> (pystr \<Rightarrow> pystr) \<Rightarrow> nat \<Rightarrow> EtcdBackend \<Rightarrow> KvEvent \<Rightarrow>
   EtcdBackend \<times> change option res" where
  "note_event loads fl d b ev =
     (let kv = ke_kv ev;
          b1 = b\<lparr>eb_revisions := (eb_revisions b)(kv_key kv \<mapsto> (if ke_delete ev then 0 else kv_mod kv))\<rparr>
      in case parse_key (eb_namespace b) (kv_key kv) of
           Inl e \<Rightarrow> (b1, if e = Key_Error then Inr None else Inl e)
         | Inr None \<Rightarrow> (b1, Inr None)
         | Inr (Some k) \<Rightarrow>
             if ke_delete ev
             then (if is_node k then b1\<lparr>eb_leases := (eb_leases b1)(pk_node k := None)\<rparr> else b1,
                   Inr (Some (Removal k)))
             else let b2 = (if is_node k \<and> kv_lease kv \<noteq> 0
                            then b1\<lparr>eb_leases := (eb_leases b1)(pk_node k \<mapsto> kv_lease kv)\<rparr> else b1)
                  in (b2, case bind_res (decode_envelope fl d (kv_value kv)) (\<lambda>e.
                              bind_res (check_envelope loads k e) (\<lambda>_. Inr e)) of
                            Inl e \<Rightarrow> if e = Key_Error then Inr None else Inl e
                          | Inr e \<Rightarrow> Inr (Some (Addition k e))))"

fun note_events ::
  "(pystr \<Rightarrow> (pystr, json) pydict res) \<Rightarrow> (pystr \<Rightarrow> pystr) \<Rightarrow> nat \<Rightarrow> EtcdBackend \<Rightarrow> KvEvent list \<Rightarrow>
   EtcdBackend \<times> change list res" where
  "note_events loads fl d b [] = (b, Inr [])"
| "note_events loads fl d b (ev # evs) =
     (case note_event loads fl d b ev of
        (b1, Inl e) \<Rightarrow> (b1, Inl e)
      | (b1, Inr c) \<Rightarrow>
          let (b2, r) = note_events loads fl d b1 evs
          in (b2, bind_res r (\<lambda>cs. Inr (case c of None \<Rightarrow> cs | Some x \<Rightarrow> x # cs))))"

definition additions :: "change list \<Rightarrow> (ParsedKey \<times> Envelope) list" where
  "additions cs = List.map_filter (\<lambda>c. case c of Addition k e \<Rightarrow> Some (k, e) | Removal k \<Rightarrow> None) cs"

definition removals :: "change list \<Rightarrow> ParsedKey list" where
  "removals cs = List.map_filter (\<lambda>c. case c of Addition k e \<Rightarrow> None | Removal k \<Rightarrow> Some k) cs"

text \<open>\<open>item[0], item[1].resource_id\<close>, and the stable sort by falling depth.\<close>

definition parents_first :: "(ParsedKey \<times> 'a) list \<Rightarrow> (ParsedKey \<times> 'a) list" where
  "parents_first adds = sort_key (\<lambda>(k, e). (depth k, pk_id k)) adds"

definition descendants_first :: "ParsedKey list \<Rightarrow> ParsedKey list" where
  "descendants_first ks = sort_key (\<lambda>k. - int (depth k)) ks"

text \<open>
  The additions: the events so far, the ids of the resources the store refused, which are
  reported and left out, and the exception that ends the loop, if there is one. A removal reads the clock of its own turn.
\<close>

fun apply_additions ::
  "(pystr \<Rightarrow> (pystr, json) pydict res) \<Rightarrow> RegistryStore \<Rightarrow> (ParsedKey \<times> Envelope) list \<Rightarrow>
   RegistryStore \<times> ResourceEvent list \<times> pystr list \<times> unit res" where
  "apply_additions loads st [] = (st, [], [], Inr ())"
| "apply_additions loads st ((k, e) # adds) =
     (case apply_envelope loads st e of
        Inl x \<Rightarrow>
          if x = Key_Error
          then (let (st', evs, skipped, r) = apply_additions loads st adds in (st', evs, pk_id k # skipped, r))
          else (st, [], [], Inl x)
      | Inr (st1, ev) \<Rightarrow>
          let (st', evs, skipped, r) = apply_additions loads st1 adds in (st', ev @ evs, skipped, r))"

fun apply_removals ::
  "(pystr \<Rightarrow> int) \<Rightarrow> RegistryStore \<Rightarrow> ParsedKey list \<Rightarrow> RegistryStore \<times> ResourceEvent list" where
  "apply_removals hn st [] = (st, [])"
| "apply_removals hn st (k # ks) =
     (let (st1, ev) = remove_one (hn (pk_id k)) st (pk_type k) (pk_id k);
          (st', evs) = apply_removals hn st1 ks
      in (st', case ev of None \<Rightarrow> evs | Some x \<Rightarrow> x # evs))"

definition apply_changes ::
  "(pystr \<Rightarrow> (pystr, json) pydict res) \<Rightarrow> (pystr \<Rightarrow> int) \<Rightarrow> RegistryStore \<Rightarrow> change list \<Rightarrow>
   RegistryStore \<times> (ResourceEvent list \<times> pystr list) res" where
  "apply_changes loads hn st cs =
     (let (st1, evs, skipped, r) = apply_additions loads st (parents_first (additions cs))
      in case r of
           Inl x \<Rightarrow> (st1, Inl x)
         | Inr _ \<Rightarrow>
             let (st2, gone) = apply_removals hn st1 (descendants_first (removals cs))
             in (st2, Inr (evs @ gone, skipped)))"

text \<open>
  \<open>_apply_batch\<close>. An exception leaves what was done so far in place: nothing is published and the
  fence is not advanced.
\<close>

definition apply_revision ::
  "(pystr \<Rightarrow> (pystr, json) pydict res) \<Rightarrow> (pystr \<Rightarrow> pystr) \<Rightarrow> nat \<Rightarrow> (pystr \<Rightarrow> int) \<Rightarrow> EtcdBackend \<Rightarrow> RevisionBatch \<Rightarrow>
   EtcdBackend \<times> unit res" where
  "apply_revision loads fl d hn b batch =
     (if progress_only batch then (schedule_advance (rb_revision batch) b, Inr ())
      else case note_events loads fl d b (rb_events batch) of
             (b1, Inl x) \<Rightarrow> (b1, Inl x)
           | (b1, Inr cs) \<Rightarrow>
               (case apply_changes loads hn (eb_store b1) cs of
                  (st, Inl x) \<Rightarrow> (put_store b1 st, Inl x)
                | (st, Inr (evs, skipped)) \<Rightarrow>
                    let b2 = put_store b1 st; (rg, r) = reg_publish loads (eb_registry b2) evs;
                        b3 = b2\<lparr>eb_registry := rg\<rparr>
                    in (case r of Inl x \<Rightarrow> (b3, Inl x)
                        | Inr _ \<Rightarrow> (schedule_advance (rb_revision batch) b3, Inr ()))))"

subsection \<open>A snapshot\<close>

text \<open>One key of a page: what it adds to the resources collected.\<close>

definition take_pair ::
  "(pystr \<Rightarrow> (pystr, json) pydict res) \<Rightarrow> (pystr \<Rightarrow> pystr) \<Rightarrow> nat \<Rightarrow> EtcdBackend \<Rightarrow> KeyValue \<Rightarrow>
   EtcdBackend \<times> (ParsedKey \<times> Envelope) option res" where
  "take_pair loads fl d b kv =
     (let b1 = b\<lparr>eb_revisions := (eb_revisions b)(kv_key kv \<mapsto> kv_mod kv)\<rparr>
      in case parse_key (eb_namespace b) (kv_key kv) of
           Inl e \<Rightarrow> (b1, Inl e)
         | Inr None \<Rightarrow> (b1, Inr None)
         | Inr (Some k) \<Rightarrow>
             (case bind_res (decode_envelope fl d (kv_value kv)) (\<lambda>e.
                     bind_res (check_envelope loads k e) (\<lambda>_. Inr e)) of
                Inl e \<Rightarrow> (b1, Inl e)
              | Inr e \<Rightarrow>
                  (if is_node k \<and> kv_lease kv \<noteq> 0
                   then b1\<lparr>eb_leases := (eb_leases b1)(pk_node k \<mapsto> kv_lease kv)\<rparr> else b1,
                   Inr (Some (k, e)))))"

fun take_page ::
  "(pystr \<Rightarrow> (pystr, json) pydict res) \<Rightarrow> (pystr \<Rightarrow> pystr) \<Rightarrow> nat \<Rightarrow> EtcdBackend \<Rightarrow> KeyValue list \<Rightarrow>
   EtcdBackend \<times> (ParsedKey \<times> Envelope) list res" where
  "take_page loads fl d b [] = (b, Inr [])"
| "take_page loads fl d b (kv # kvs) =
     (case take_pair loads fl d b kv of
        (b1, Inl e) \<Rightarrow> (b1, Inl e)
      | (b1, Inr x) \<Rightarrow>
          let (b2, r) = take_page loads fl d b1 kvs
          in (b2, bind_res r (\<lambda>xs. Inr (case x of None \<Rightarrow> xs | Some y \<Rightarrow> y # xs))))"

fun apply_all ::
  "(pystr \<Rightarrow> (pystr, json) pydict res) \<Rightarrow> RegistryStore \<Rightarrow> (ParsedKey \<times> Envelope) list \<Rightarrow> RegistryStore res" where
  "apply_all loads st [] = Inr st"
| "apply_all loads st ((k, e) # xs) =
     bind_res (apply_envelope loads st e) (\<lambda>(st', evs). apply_all loads st' xs)"

definition check_no_orphans :: "RegistryStore \<Rightarrow> unit res" where
  "check_no_orphans st =
     (if \<exists>rt \<in> set resource_types. rt \<noteq> NODE \<and> (\<exists>r \<in> set (iter_extant st rt). parent_id r = None)
      then Inl Key_Error else Inr ())"

definition build_snapshot ::
  "(pystr \<Rightarrow> (pystr, json) pydict res) \<Rightarrow> RegistryStore \<Rightarrow> (ParsedKey \<times> Envelope) list \<Rightarrow> RegistryStore res" where
  "build_snapshot loads candidate collected =
     bind_res (apply_all loads candidate (parents_first collected)) (\<lambda>st.
     bind_res (check_no_orphans st) (\<lambda>_. Inr st))"

subsection \<open>The difference of two stores\<close>

text \<open>
  \<open>==\<close> of decoded JSON values: numbers are compared by value across their classes, dictionaries
  without regard to order. A float is the text \<open>repr\<close> gives it; \<open>whole\<close> is the integer a float
  equals, if it equals one. The one \<open>NaN\<close> object of the decoder is identical with itself, which is
  what a container compares first.
\<close>

definition number_of :: "(pystr \<Rightarrow> int option) \<Rightarrow> json \<Rightarrow> int option" where
  "number_of whole v =
     (case v of JInt i \<Rightarrow> Some i | JBool c \<Rightarrow> Some (if c then 1 else 0) | JFloat t \<Rightarrow> whole t | _ \<Rightarrow> None)"

function (sequential) py_eq :: "(pystr \<Rightarrow> int option) \<Rightarrow> json \<Rightarrow> json \<Rightarrow> bool" where
  "py_eq whole (JStr a) (JStr b) \<longleftrightarrow> a = b"
| "py_eq whole JNull JNull \<longleftrightarrow> True"
| "py_eq whole (JArr xs) (JArr ys) \<longleftrightarrow>
     length xs = length ys \<and> list_all (\<lambda>(x, y). py_eq whole x y) (zip xs ys)"
| "py_eq whole (JObj xs) (JObj ys) \<longleftrightarrow>
     length xs = length ys \<and>
     list_all (\<lambda>(k, x). case dget ys k of None \<Rightarrow> False | Some y \<Rightarrow> py_eq whole x y) xs"
| "py_eq whole (JFloat a) (JFloat b) \<longleftrightarrow> a = b \<or> (whole a \<noteq> None \<and> whole a = whole b)"
| "py_eq whole a b \<longleftrightarrow> number_of whole a \<noteq> None \<and> number_of whole a = number_of whole b"
  by pat_completeness auto
termination
proof (relation "measure (\<lambda>(whole, a, b). size a)", goal_cases)
  case (2 whole xs ys p x y)
  then have "x \<in> set xs" by (auto dest: set_zip_leftD)
  then show ?case by (auto dest: size_list_estimation' [of _ _ "size x"] simp: less_Suc_eq_le)
next
  case (3 whole xs ys p k x y)
  then have "(k, x) \<in> set xs" by auto
  then have "size_list (size_prod (\<lambda>_. 0) size) xs \<ge> size_prod (\<lambda>_. 0) size (k, x)"
    by (rule size_list_estimation') simp
  then show ?case by simp
qed simp

text \<open>\<open>{r.id: r for r in ...}\<close>.\<close>

definition by_res_id :: "RegisteredResource list \<Rightarrow> (pystr, RegisteredResource) pydict" where
  "by_res_id rs = foldl (\<lambda>d r. dset (res_id r) r d) [] rs"

fun diff_after ::
  "(pystr \<Rightarrow> (pystr, json) pydict res) \<Rightarrow> (pystr \<Rightarrow> int option) \<Rightarrow> (pystr, RegisteredResource) pydict \<Rightarrow>
   (pystr, RegisteredResource) pydict \<Rightarrow> ResourceEvent list res" where
  "diff_after loads whole before [] = Inr []"
| "diff_after loads whole before ((i, r) # rs) =
     (case dget before i of
        None \<Rightarrow> bind_res (diff_after loads whole before rs) (\<lambda>evs. Inr (ev_added r # evs))
      | Some was \<Rightarrow>
          bind_res (body_data loads (body was)) (\<lambda>old.
          bind_res (body_data loads (body r)) (\<lambda>new.
          bind_res (diff_after loads whole before rs) (\<lambda>evs.
            Inr (if py_eq whole (JObj old) (JObj new) then evs else ev_modified (body was) r # evs)))))"

definition diff_type ::
  "(pystr \<Rightarrow> (pystr, json) pydict res) \<Rightarrow> (pystr \<Rightarrow> int option) \<Rightarrow> RegistryStore \<Rightarrow> RegistryStore \<Rightarrow>
   ResourceType \<Rightarrow> ResourceEvent list res" where
  "diff_type loads whole previous current rt =
     (let before = by_res_id (iter_extant previous rt); aft = by_res_id (iter_extant current rt)
      in bind_res (diff_after loads whole before aft) (\<lambda>evs.
           Inr (evs @ map (\<lambda>(i, r). ev_removed r) (filter (\<lambda>(i, r). dget aft i = None) before))))"

fun diff_types ::
  "(pystr \<Rightarrow> (pystr, json) pydict res) \<Rightarrow> (pystr \<Rightarrow> int option) \<Rightarrow> RegistryStore \<Rightarrow> RegistryStore \<Rightarrow>
   ResourceType list \<Rightarrow> ResourceEvent list res" where
  "diff_types loads whole previous current [] = Inr []"
| "diff_types loads whole previous current (rt # rts) =
     bind_res (diff_type loads whole previous current rt) (\<lambda>evs.
     bind_res (diff_types loads whole previous current rts) (\<lambda>rest. Inr (evs @ rest)))"

definition diff_stores ::
  "(pystr \<Rightarrow> (pystr, json) pydict res) \<Rightarrow> (pystr \<Rightarrow> int option) \<Rightarrow> RegistryStore \<Rightarrow> RegistryStore \<Rightarrow>
   ResourceEvent list res" where
  "diff_stores loads whole previous current = diff_types loads whole previous current resource_types"

subsection \<open>Where a resource lives\<close>

record Placement =
  pl_id :: pystr
  pl_node :: pystr
  pl_key :: bytes
  pl_claim :: bytes
  pl_parent :: "bytes option"
  pl_lease :: int

definition with_lease :: "Placement \<Rightarrow> int \<Rightarrow> Placement" where
  "with_lease p lease = p\<lparr>pl_lease := lease\<rparr>"

definition lease_of :: "EtcdBackend \<Rightarrow> pystr \<Rightarrow> int" where
  "lease_of b node_id = (case eb_leases b node_id of None \<Rightarrow> 0 | Some l \<Rightarrow> l)"

definition placement ::
  "EtcdBackend \<Rightarrow> ResourceType \<Rightarrow> (pystr, json) pydict \<Rightarrow> (RegistrationResult + Placement) res" where
  "placement b rt raw =
     (case dget raw (str ''id'') of
        Some (JStr i) \<Rightarrow>
          if i = [] then Inr (Inl (failure SCHEMA))
          else bind_res (id_claim (eb_namespace b) i) (\<lambda>claim_key.
            if rt = NODE then
              bind_res (node_key (eb_namespace b) i) (\<lambda>key.
                Inr (Inr \<lparr>pl_id = i, pl_node = i, pl_key = key, pl_claim = claim_key, pl_parent = None,
                          pl_lease = lease_of b i\<rparr>))
            else if rt = DEVICE then
              (case dget raw (str ''node_id'') of
                 Some (JStr n) \<Rightarrow>
                   bind_res (device_key (eb_namespace b) n i) (\<lambda>key.
                   bind_res (node_key (eb_namespace b) n) (\<lambda>parent.
                     Inr (Inr \<lparr>pl_id = i, pl_node = n, pl_key = key, pl_claim = claim_key,
                               pl_parent = Some parent, pl_lease = lease_of b n\<rparr>)))
               | _ \<Rightarrow> Inr (Inl (failure SCHEMA)))
            else
              (case dget raw (str ''device_id'') of
                 Some (JStr dev) \<Rightarrow>
                   (case get_resource (eb_store b) DEVICE dev False of
                      None \<Rightarrow> Inr (Inl (failure PARENT_MISSING))
                    | Some device \<Rightarrow>
                        (case parent_id device of
                           None \<Rightarrow> Inr (Inl (failure PARENT_MISSING))
                         | Some n \<Rightarrow>
                             bind_res (child_key (eb_namespace b) rt n dev i) (\<lambda>key.
                             bind_res (device_key (eb_namespace b) n dev) (\<lambda>parent.
                               Inr (Inr \<lparr>pl_id = i, pl_node = n, pl_key = key, pl_claim = claim_key,
                                         pl_parent = Some parent, pl_lease = lease_of b n\<rparr>)))))
               | _ \<Rightarrow> Inr (Inl (failure SCHEMA))))
      | _ \<Rightarrow> Inr (Inl (failure SCHEMA)))"

subsection \<open>What a write asks\<close>

definition believed :: "EtcdBackend \<Rightarrow> bytes \<Rightarrow> int" where
  "believed b key = (case eb_revisions b key of None \<Rightarrow> 0 | Some r \<Rightarrow> r)"

definition compare_believed :: "EtcdBackend \<Rightarrow> bytes \<Rightarrow> Compare" where
  "compare_believed b key =
     (if believed b key \<noteq> 0 then compare_mod key (believed b key) else compare_absent key)"

definition compare_set :: "EtcdBackend \<Rightarrow> Placement \<Rightarrow> Compare list" where
  "compare_set b p =
     [compare_believed b (pl_key p), compare_believed b (pl_claim p)] @
     (case pl_parent p of None \<Rightarrow> [] | Some parent \<Rightarrow> [compare_exists parent])"

definition etcd_cursors_for ::
  "TaiCursor \<Rightarrow> EtcdBackend \<Rightarrow> Placement \<Rightarrow> ResourceType \<Rightarrow> EtcdBackend \<times> TaiCursor \<times> TaiCursor" where
  "etcd_cursors_for tn b p rt =
     (let existing = get_resource (eb_store b) rt (pl_id p) True;
          (st, updated_at) = next_cursor tn (eb_store b) rt
      in (put_store b st,
          (case existing of None \<Rightarrow> updated_at | Some r \<Rightarrow> if extant r then created r else updated_at),
          updated_at))"

definition claim_value :: "bytes \<Rightarrow> bytes" where
  "claim_value key = key"

definition write_ops ::
  "TaiCursor \<Rightarrow> int \<Rightarrow> EtcdBackend \<Rightarrow> Placement \<Rightarrow> Body \<Rightarrow> ResourceType \<Rightarrow> EtcdBackend \<times> RequestOp list res" where
  "write_ops tn hn b p bdy rt =
     (let (b1, created_at, updated_at) = etcd_cursors_for tn b p rt;
          e = \<lparr>en_version = ENVELOPE_VERSION, en_type = rt, en_body = bdy,
               en_created = created_at, en_updated = updated_at, en_health = hn\<rparr>
      in (b1, bind_res (encode_envelope e) (\<lambda>v.
             Inr [put_op (pl_key p) v (pl_lease p), put_op (pl_claim p) (claim_value (pl_key p)) (pl_lease p)])))"

text \<open>The requests of a deletion: the ranged delete, or the key alone, and the resource's own claim.\<close>

definition delete_ops :: "EtcdBackend \<Rightarrow> ResourceType \<Rightarrow> pystr \<Rightarrow> Placement \<Rightarrow> RequestOp list res" where
  "delete_ops b rt i p =
     bind_res (if rt = NODE then bind_res (node_subtree (eb_namespace b) i) (\<lambda>s. Inr (delete_prefix_op s))
               else if rt = DEVICE
               then bind_res (device_subtree (eb_namespace b) (pl_node p) i) (\<lambda>s. Inr (delete_prefix_op s))
               else Inr (delete_op (pl_key p) None)) (\<lambda>first.
     Inr [first, delete_op (pl_claim p) None])"

text \<open>\<open>max(1, math.ceil(...))\<close>.\<close>

definition lease_ttl :: "EtcdBackend \<Rightarrow> int" where
  "lease_ttl b = max 1 \<lceil>gc_interval (eb_store b)\<rceil>"

fun forget_list :: "RegistryStore \<Rightarrow> (ResourceType \<times> pystr) list \<Rightarrow> RegistryStore" where
  "forget_list st [] = st"
| "forget_list st ((rt, i) # xs) = forget_list (fst (forget st rt i)) xs"

definition etcd_collect_garbage :: "int \<Rightarrow> EtcdBackend \<Rightarrow> EtcdBackend \<times> int" where
  "etcd_collect_garbage now b = (put_store b (forget_list (eb_store b) (forgettable (eb_store b) now)), 0)"

end
