(* ===== verification/Etcd_Mirror.thy ===== *)
theory Etcd_Mirror
  imports Etcd_View Store_Invariant
begin

section \<open>The read model shows what etcd holds\<close>

text \<open>
  What a batch and a snapshot do to the view. The store is fed by etcd alone, and a revision may
  take a Node away without its descendants, so the parent relation of \<open>Store_Invariant\<close> cannot be
  assumed here; only that every bucket holds records under their own id and type.
\<close>

subsection \<open>One resource\<close>

lemma shown_put:
  "look st' = (look st)(i \<mapsto> r) \<Longrightarrow> shown st' = (shown st)(i := if extant r then Some (resource_type r, body r) else None)"
  by (rule ext) (simp add: shown_def)

lemma buckets_frame: "by_type st' = by_type st \<Longrightarrow> type_of st' = type_of st \<Longrightarrow> wf_buckets st' = wf_buckets st"
  by (simp add: wf_buckets_def)

lemma bucket_member:
  assumes wf: "wf_buckets st"
  shows "(j, r) \<in> set (by_type st rt) \<longleftrightarrow> look st j = Some r \<and> resource_type r = rt"
  using dget_in_set [of "by_type st rt" j r] wf bucket_eq [OF wf, of rt j] by (auto simp: wf_buckets_def split: option.splits)

lemma extant_ids_distinct:
  assumes wf: "wf_buckets st"
  shows "distinct (map res_id (iter_extant st rt))"
proof -
  have "map res_id (map snd (by_type st rt)) = dkeys (by_type st rt)"
    unfolding map_map by (rule map_cong) (auto simp: bucket_member [OF wf] dest: look_id [OF wf])
  moreover have "wf_dict (by_type st rt)" using wf by (simp add: wf_buckets_def)
  ultimately show ?thesis unfolding iter_extant_def by (metis distinct_map_filter wf_dict_def)
qed

lemma apply_committed_shown:
  assumes wf: "wf_buckets st" and p: "prepare st rt raw = Inr (Inr p)"
    and run: "apply_committed hn tn st p b ca ua ha = (st', result)"
  shows "wf_buckets st' \<and> follows (shown st) (rr_events result) (shown st') \<and>
    shown st' = (shown st)(pr_id p \<mapsto> (rt, b))"
proof -
  let ?i = "pr_id p" and ?h = "case ha of None \<Rightarrow> hn | Some h \<Rightarrow> h"
  have c: "pr_type p = rt" "type_of st ?i \<in> {None, Some rt}"
    "case dget (by_type st rt) ?i of None \<Rightarrow> \<not> reviving p | Some x \<Rightarrow> reviving p = (\<not> extant x)"
    using prepare_cases [OF p] by (auto split: option.splits)
  obtain s cu where sc: "commit_cursor tn st rt ua = (s, cu)" by fastforce
  note fr = commit_cursor_frame [OF sc]
  have ws: "wf_buckets s" using wf buckets_frame [OF fr(1,2)] by simp
  have sh: "shown s = shown st" by (rule ext) (simp add: shown_def fr(8))
  have look: "look st ?i = dget (by_type st rt) ?i"
    using c(2) wf unfolding look_def wf_buckets_def by (cases "dget (by_type st rt) ?i") auto
  show ?thesis
  proof (cases "\<exists>x. dget (by_type st rt) ?i = Some x \<and> extant x")
    case True
    then obtain x where x: "dget (by_type st rt) ?i = Some x" "extant x" by blast
    note at = wf_bucketsD [OF wf x(1)]
    have nr: "\<not> reviving p" using c(3) x by simp
    define r where "r = x\<lparr>body := b, version := pr_version p, updated := cu, parent_id := pr_parent p, health := ?h\<rparr>"
    have st': "st' = touch_order (reparent (put_resource s rt ?i r) ?i (parent_id x) (pr_parent p)) rt ORDER_UPDATE ?i cu"
        "rr_events result = [ev_modified (body x) r]"
      using run x(1) nr by (auto simp: apply_committed_def c(1) sc fr commit_update_def Let_def r_def)
    have bt: "by_type st' = (by_type st)(rt := dset ?i r (by_type st rt))" by (simp add: st'(1) put_resource_def fr)
    have ty: "type_of st' = (type_of st)(?i \<mapsto> rt)" using at(3) by (auto simp: st'(1) fr)
    have r: "resource_type r = rt" "res_id r = ?i" "body r = b" "extant r" using at(1,2) x(2) by (simp_all add: r_def)
    note put = wf_buckets_put [OF wf c(2) r(1,2) bt ty]
    have "shown st' = (shown st)(?i \<mapsto> (rt, b))" using shown_put [OF put(2)] r by simp
    then show ?thesis using put(1) x(2) look x(1) r at(1) by (simp add: st'(2) ev_modified_def shown_def)
  next
    case False
    define r where "r = \<lparr>resource_type = rt, res_id = ?i, body = b, version = pr_version p,
       created = (case ca of Some cc \<Rightarrow> cc | None \<Rightarrow> cu), updated = cu, parent_id = pr_parent p, extant = True, health = ?h\<rparr>"
    let ?pre = "case dget (by_type st rt) ?i of Some x \<Rightarrow> parent_id x | None \<Rightarrow> None"
    have cre: "commit_create s p b ca cu ?h ?pre = (st', result)"
      using run False c(3) by (auto simp: apply_committed_def c(1) sc fr split: option.splits)
    have bt: "by_type st' = (by_type st)(rt := dset ?i r (by_type st rt))"
      and ty: "type_of st' = (type_of st)(?i \<mapsto> rt)" and ev: "rr_events result = [ev_added r]"
      using cre by (auto simp: commit_create_def Let_def c(1) r_def put_resource_def fr)
    have r: "resource_type r = rt" "res_id r = ?i" "body r = b" "extant r" by (simp_all add: r_def)
    note put = wf_buckets_put [OF wf c(2) r(1,2) bt ty]
    have "shown st' = (shown st)(?i \<mapsto> (rt, b))" using shown_put [OF put(2)] r by simp
    moreover have "shown st ?i = None" using False look by (auto simp: shown_def split: option.splits)
    ultimately show ?thesis using put(1) r by (simp add: ev ev_added_def)
  qed
qed

lemma apply_envelope_effect:
  assumes wf: "wf_buckets st" and run: "apply_envelope loads st e = Inr (st', evs)"
    and ck: "check_envelope loads k e = Inr ()"
  shows "wf_buckets st' \<and> follows (shown st) evs (shown st') \<and> shown st' = (shown st)(pk_id k \<mapsto> (pk_type k, en_body e))"
proof -
  obtain raw p where raw: "body_data loads (en_body e) = Inr raw" and p: "prepare st (en_type e) raw = Inr (Inr p)"
    and ap: "\<exists>result. apply_committed (en_health e) (en_updated e) st p (en_body e)
        (Some (en_created e)) (Some (en_updated e)) (Some (en_health e)) = (st', result) \<and> evs = rr_events result"
    using run unfolding apply_envelope_def by (auto simp: Let_def elim!: bind_res_InrE split: sum.splits prod.splits)
  have "en_type e = pk_type k" "dget raw (str ''id'') = Some (JStr (pk_id k))"
    using ck raw by (auto simp: check_envelope_def bind_res_eq_Inr split: if_splits)
  moreover from this(2) have "pr_id p = pk_id k" using prepare_cases [OF p] by auto
  moreover obtain result where "apply_committed (en_health e) (en_updated e) st p (en_body e)
      (Some (en_created e)) (Some (en_updated e)) (Some (en_health e)) = (st', result)" "evs = rr_events result"
    using ap by blast
  ultimately show ?thesis using apply_committed_shown [OF wf p, of "en_health e"] by metis
qed

lemma remove_one_effect:
  assumes wf: "wf_buckets st" and run: "remove_one hn st rt i = (st', ev)"
  shows "wf_buckets st' \<and> follows (shown st) (case ev of None \<Rightarrow> [] | Some x \<Rightarrow> [x]) (shown st') \<and>
    shown st' = (if \<exists>b. shown st i = Some (rt, b) then (shown st)(i := None) else shown st)"
proof (cases "\<exists>r. dget (by_type st rt) i = Some r \<and> extant r")
  case True
  then obtain r where r: "dget (by_type st rt) i = Some r" "extant r" by blast
  note at = wf_bucketsD [OF wf r(1)]
  have st': "st' = put_resource st rt i (retire hn r)" "ev = Some (ev_removed r)"
    using run r by (simp_all add: remove_one_def)
  have bt: "by_type st' = (by_type st)(rt := dset i (retire hn r) (by_type st rt))"
    and ty: "type_of st' = (type_of st)(i \<mapsto> rt)"
    using at(3) by (auto simp: st' put_resource_def)
  have "resource_type (retire hn r) = rt" "res_id (retire hn r) = i" using at by (simp_all add: retire_def)
  note put = wf_buckets_put [OF wf _ this bt ty]
  have "wf_buckets st'" "look st' = (look st)(i \<mapsto> retire hn r)" using put at(3) by simp_all
  moreover from this(2) have "shown st' = (shown st)(i := None)" by (simp add: shown_put retire_def)
  moreover have "shown st i = Some (rt, body r)" using at r by (simp add: shown_def)
  ultimately show ?thesis using at by (simp add: st'(2))
next
  case False
  then have "st' = st" "ev = None" using run by (auto simp: remove_one_def split: option.splits if_splits)
  moreover have "\<nexists>b. shown st i = Some (rt, b)"
    using False bucket_eq [OF wf, of rt i] by (auto simp: shown_def split: option.splits if_splits)
  ultimately show ?thesis using wf by simp
qed

subsection \<open>The changes of a batch\<close>

lemma apply_additions_follows:
  assumes "wf_buckets st" and "\<forall>(k, e) \<in> set adds. check_envelope loads k e = Inr ()"
    and "apply_additions loads st adds = (st', evs, skipped, Inr ())"
  shows "wf_buckets st' \<and> follows (shown st) evs (shown st')"
  using assms
proof (induction adds arbitrary: st evs skipped)
  case (Cons a adds)
  obtain k e where a: "a = (k, e)" by fastforce
  show ?case
  proof (cases "apply_envelope loads st e")
    case (Inl x)
    then show ?thesis using Cons a by (auto simp: Let_def split: if_splits prod.splits)
  next
    case (Inr y)
    obtain st1 ev where y: "y = (st1, ev)" by fastforce
    obtain evs1 sk where rest: "apply_additions loads st1 adds = (st', evs1, sk, Inr ())" "evs = ev @ evs1"
      using Cons.prems(3) Inr y a by (auto simp: Let_def split: prod.splits)
    have "wf_buckets st1 \<and> follows (shown st) ev (shown st1)"
      using apply_envelope_effect [OF Cons.prems(1), of loads e st1 ev k] Inr y Cons.prems(2) a by auto
    then show ?thesis using Cons.IH [OF _ _ rest(1)] Cons.prems(2) rest(2) follows_append by auto
  qed
qed simp

lemma apply_additions_shown:
  assumes "wf_buckets st" and "\<forall>(k, e) \<in> set adds. check_envelope loads k e = Inr ()"
    and "apply_additions loads st adds = (st', evs, [], Inr ())"
    and "\<And>k e k' e'. (k, e) \<in> set adds \<Longrightarrow> (k', e') \<in> set adds \<Longrightarrow> pk_id k = pk_id k' \<Longrightarrow> k = k' \<and> e = e'"
  shows "(\<forall>(k, e) \<in> set adds. shown st' (pk_id k) = Some (pk_type k, en_body e)) \<and>
    (\<forall>i. (\<forall>(k, e) \<in> set adds. pk_id k \<noteq> i) \<longrightarrow> shown st' i = shown st i)"
  using assms
proof (induction adds arbitrary: st evs)
  case (Cons a adds)
  obtain k e where a: "a = (k, e)" by fastforce
  obtain st1 ev where y: "apply_envelope loads st e = Inr (st1, ev)"
    using Cons.prems(3) a by (cases "apply_envelope loads st e") (auto simp: Let_def split: if_splits prod.splits)
  obtain evs1 where rest: "apply_additions loads st1 adds = (st', evs1, [], Inr ())"
    using Cons.prems(3) y a by (auto simp: Let_def split: prod.splits)
  have one: "wf_buckets st1" "shown st1 = (shown st)(pk_id k \<mapsto> (pk_type k, en_body e))"
    using apply_envelope_effect [OF Cons.prems(1) y, of k] Cons.prems(2) a by auto
  have same: "\<And>k e k' e'. (k, e) \<in> set adds \<Longrightarrow> (k', e') \<in> set adds \<Longrightarrow> pk_id k = pk_id k' \<Longrightarrow> k = k' \<and> e = e'"
    using Cons.prems(4) by (meson list.set_intros(2))
  have ih: "\<forall>(k, e) \<in> set adds. shown st' (pk_id k) = Some (pk_type k, en_body e)"
    "\<And>i. \<forall>(k, e) \<in> set adds. pk_id k \<noteq> i \<Longrightarrow> shown st' i = shown st1 i"
    using Cons.IH [OF one(1) _ rest same] Cons.prems(2) by auto
  have "shown st' (pk_id k) = Some (pk_type k, en_body e)"
  proof (cases "\<exists>(k', e') \<in> set adds. pk_id k' = pk_id k")
    case True
    then obtain k' e' where k': "(k', e') \<in> set adds" "pk_id k' = pk_id k" by auto
    then have "k' = k \<and> e' = e" using Cons.prems(4) [of k' e' k e] a by simp
    then show ?thesis using ih(1) k' by auto
  next
    case False
    then have "\<forall>(k', e') \<in> set adds. pk_id k' \<noteq> pk_id k" by auto
    then show ?thesis using ih(2) one(2) by simp
  qed
  then show ?case using ih a one(2) by auto
qed simp

lemma apply_removals_effect:
  assumes "wf_buckets st" and "apply_removals hn st ks = (st', evs)"
  shows "wf_buckets st' \<and> follows (shown st) evs (shown st') \<and>
    (\<forall>i. shown st' i = (if \<exists>k \<in> set ks. pk_id k = i \<and> (\<exists>b. shown st i = Some (pk_type k, b)) then None else shown st i))"
  using assms
proof (induction ks arbitrary: st evs)
  case (Cons k ks)
  obtain st1 ev where one: "remove_one (hn (pk_id k)) st (pk_type k) (pk_id k) = (st1, ev)" by fastforce
  obtain gone where rest: "apply_removals hn st1 ks = (st', gone)" "evs = (case ev of None \<Rightarrow> [] | Some x \<Rightarrow> [x]) @ gone"
    using Cons.prems(2) one by (auto simp: Let_def split: prod.splits option.splits)
  note e = remove_one_effect [OF Cons.prems(1) one]
  have ih: "wf_buckets st'" "follows (shown st1) gone (shown st')"
    "\<And>i. shown st' i = (if \<exists>k \<in> set ks. pk_id k = i \<and> (\<exists>b. shown st1 i = Some (pk_type k, b)) then None else shown st1 i)"
    using Cons.IH [OF _ rest(1)] e by auto
  have "follows (shown st) evs (shown st')" using e ih(2) rest(2) follows_append by auto
  moreover have "shown st' i = (if \<exists>k' \<in> set (k # ks). pk_id k' = i \<and> (\<exists>b. shown st i = Some (pk_type k', b)) then None else shown st i)" for i
    using ih(3) [of i] e by (cases "\<exists>b. shown st (pk_id k) = Some (pk_type k, b)") (auto split: if_splits)
  ultimately show ?case using ih(1) by blast
qed simp

lemma set_parents_first [simp]: "set (parents_first xs) = set xs"
  by (simp add: parents_first_def)

lemma set_descendants_first [simp]: "set (descendants_first xs) = set xs"
  by (simp add: descendants_first_def)

lemma in_additions [simp]: "(k, e) \<in> set (additions cs) \<longleftrightarrow> Addition k e \<in> set cs"
  by (induction cs) (auto simp: additions_def map_filter_simps split: change.splits option.splits)

lemma in_removals [simp]: "k \<in> set (removals cs) \<longleftrightarrow> Removal k \<in> set cs"
  by (induction cs) (auto simp: removals_def map_filter_simps split: change.splits option.splits)

text \<open>The events a batch publishes tell exactly how what is shown changes.\<close>

lemma apply_changes_follows:
  assumes "wf_buckets st" and "\<forall>k e. Addition k e \<in> set cs \<longrightarrow> check_envelope loads k e = Inr ()"
    and "apply_changes loads hn st cs = (st', Inr (evs, skipped))"
  shows "wf_buckets st' \<and> follows (shown st) evs (shown st')"
proof -
  obtain st1 added gone where a: "apply_additions loads st (parents_first (additions cs)) = (st1, added, skipped, Inr ())"
    and r: "apply_removals hn st1 (descendants_first (removals cs)) = (st', gone)" "evs = added @ gone"
    using assms(3) by (auto simp: apply_changes_def Let_def split: sum.splits prod.splits)
  have "\<forall>(k, e) \<in> set (parents_first (additions cs)). check_envelope loads k e = Inr ()" using assms(2) by auto
  then have "wf_buckets st1 \<and> follows (shown st) added (shown st1)" using apply_additions_follows [OF assms(1) _ a] by blast
  then show ?thesis using apply_removals_effect [OF _ r(1)] r(2) follows_append by auto
qed

subsection \<open>The contents of etcd\<close>

text \<open>
  Keys with their values, and what an event of a revision does to them. A resource is \<open>held\<close> when
  some key of its names it and the value there decodes to it.
\<close>

type_synonym contents = "bytes \<rightharpoonup> bytes"

fun after_events :: "contents \<Rightarrow> KvEvent list \<Rightarrow> contents" where
  "after_events E [] = E"
| "after_events E (ev # evs) =
     after_events (if ke_delete ev then E(kv_key (ke_kv ev) := None)
                   else E(kv_key (ke_kv ev) \<mapsto> kv_value (ke_kv ev))) evs"

definition names :: "Namespace \<Rightarrow> bytes \<Rightarrow> ParsedKey \<Rightarrow> bool" where
  "names ns key k \<longleftrightarrow> parse_key ns key = Inr (Some k)"

definition held ::
  "(pystr \<Rightarrow> pystr) \<Rightarrow> nat \<Rightarrow> Namespace \<Rightarrow> contents \<Rightarrow> pystr \<Rightarrow> ResourceType \<Rightarrow> Body \<Rightarrow> bool" where
  "held fl d ns E i rt b \<longleftrightarrow>
     (\<exists>key v k e. E key = Some v \<and> names ns key k \<and> pk_id k = i \<and> pk_type k = rt \<and>
        decode_envelope fl d v = Inr e \<and> en_body e = b)"

text \<open>The view of a store mirrors the contents: what it shows is what they hold.\<close>

definition mirrors :: "(pystr \<Rightarrow> pystr) \<Rightarrow> nat \<Rightarrow> Namespace \<Rightarrow> RegistryStore \<Rightarrow> contents \<Rightarrow> bool" where
  "mirrors fl d ns st E \<longleftrightarrow> (\<forall>i rt b. shown st i = Some (rt, b) \<longleftrightarrow> held fl d ns E i rt b)"

text \<open>
  The keys of a set name different resources; the id claims are what keeps the contents so.
\<close>

definition one_key :: "Namespace \<Rightarrow> bytes set \<Rightarrow> bool" where
  "one_key ns A \<longleftrightarrow>
     (\<forall>a \<in> A. \<forall>b \<in> A. \<forall>j k. names ns a j \<and> names ns b k \<and> pk_id j = pk_id k \<longrightarrow> a = b)"

definition event_key :: "KvEvent \<Rightarrow> bytes" where
  "event_key ev = kv_key (ke_kv ev)"

text \<open>Every key of the events is one of the layout, and what is put under a resource's key is that resource.\<close>

definition sound_events ::
  "(pystr \<Rightarrow> (pystr, json) pydict res) \<Rightarrow> (pystr \<Rightarrow> pystr) \<Rightarrow> nat \<Rightarrow> Namespace \<Rightarrow> KvEvent list \<Rightarrow> bool" where
  "sound_events loads fl d ns evs \<longleftrightarrow>
     (\<forall>ev \<in> set evs. \<exists>r. parse_key ns (event_key ev) = Inr r \<and>
        (case r of None \<Rightarrow> True
         | Some k \<Rightarrow> ke_delete ev \<or>
             (\<exists>e. decode_envelope fl d (kv_value (ke_kv ev)) = Inr e \<and> check_envelope loads k e = Inr ())))"

lemma after_events_other: "key \<notin> event_key ` set evs \<Longrightarrow> after_events E evs key = E key"
  by (induction evs arbitrary: E) (auto simp: event_key_def)

lemma after_events_at:
  assumes "distinct (map event_key evs)" and "ev \<in> set evs"
  shows "after_events E evs (event_key ev) = (if ke_delete ev then None else Some (kv_value (ke_kv ev)))"
  using assms
proof (induction evs arbitrary: E)
  case (Cons x evs)
  show ?case
  proof (cases "ev = x")
    case True
    then have "event_key ev \<notin> event_key ` set evs" using Cons.prems(1) by auto
    then show ?thesis using True by (simp add: after_events_other event_key_def)
  next
    case False
    then show ?thesis using Cons by simp
  qed
qed simp

text \<open>What the loop over the events makes of them, when they are sound.\<close>

definition change_of ::
  "(pystr \<Rightarrow> pystr) \<Rightarrow> nat \<Rightarrow> Namespace \<Rightarrow> KvEvent \<Rightarrow> change option" where
  "change_of fl d ns ev =
     (case parse_key ns (event_key ev) of
        Inr (Some k) \<Rightarrow>
          if ke_delete ev then Some (Removal k)
          else (case decode_envelope fl d (kv_value (ke_kv ev)) of Inr e \<Rightarrow> Some (Addition k e) | Inl x \<Rightarrow> None)
      | _ \<Rightarrow> None)"

lemma note_event_frame:
  "eb_registry (fst (note_event loads fl d b ev)) = eb_registry b"
  "eb_namespace (fst (note_event loads fl d b ev)) = eb_namespace b"
  "eb_state (fst (note_event loads fl d b ev)) = eb_state b"
  "eb_applied (fst (note_event loads fl d b ev)) = eb_applied b"
  "eb_scheduled (fst (note_event loads fl d b ev)) = eb_scheduled b"
  by (auto simp: note_event_def Let_def split: sum.splits option.splits)

lemma note_events_frame:
  "eb_registry (fst (note_events loads fl d b evs)) = eb_registry b \<and>
   eb_namespace (fst (note_events loads fl d b evs)) = eb_namespace b \<and>
   eb_state (fst (note_events loads fl d b evs)) = eb_state b \<and>
   eb_applied (fst (note_events loads fl d b evs)) = eb_applied b \<and>
   eb_scheduled (fst (note_events loads fl d b evs)) = eb_scheduled b"
proof (induction evs arbitrary: b)
  case (Cons ev evs)
  then show ?case
    using note_event_frame [of loads fl d b ev]
    by (cases "note_event loads fl d b ev" rule: prod.exhaust) (auto simp: Let_def split_beta split: sum.splits)
qed simp

lemma note_event_checked:
  "note_event loads fl d b ev = (b1, Inr (Some (Addition k e))) \<Longrightarrow> check_envelope loads k e = Inr ()"
  by (auto simp: note_event_def Let_def bind_res_eq_Inr split: sum.splits option.splits if_splits)

lemma note_events_checked:
  "note_events loads fl d b evs = (b1, Inr cs) \<Longrightarrow> Addition k e \<in> set cs \<Longrightarrow> check_envelope loads k e = Inr ()"
proof (induction evs arbitrary: b cs b1)
  case (Cons ev evs)
  obtain b2 c where one: "note_event loads fl d b ev = (b2, Inr c)"
    using Cons.prems(1) by (auto split: prod.splits sum.splits)
  obtain b3 cs1 where rest: "note_events loads fl d b2 evs = (b3, Inr cs1)" "cs = (case c of None \<Rightarrow> cs1 | Some x \<Rightarrow> x # cs1)"
    using Cons.prems(1) one by (auto simp: Let_def bind_res_eq_Inr split: prod.splits)
  then show ?case
    using Cons.IH [OF rest(1)] Cons.prems(2) note_event_checked [of loads fl d b ev b2 k e] one by (auto split: option.splits)
qed simp

lemma sound_events_Cons:
  "sound_events loads fl d ns (ev # evs) \<longleftrightarrow> sound_events loads fl d ns [ev] \<and> sound_events loads fl d ns evs"
  by (simp only: sound_events_def list.set ball_simps simp_thms)

lemma note_event_sound:
  assumes "sound_events loads fl d (eb_namespace b) [ev]"
  shows "snd (note_event loads fl d b ev) = Inr (change_of fl d (eb_namespace b) ev)"
  using assms
  by (auto simp: sound_events_def note_event_def change_of_def event_key_def Let_def split: sum.splits option.splits)

lemma note_events_sound:
  assumes "sound_events loads fl d (eb_namespace b) evs"
  shows "snd (note_events loads fl d b evs) = Inr (List.map_filter (change_of fl d (eb_namespace b)) evs)"
  using assms
proof (induction evs arbitrary: b)
  case (Cons ev evs)
  have "snd (note_event loads fl d b ev) = Inr (change_of fl d (eb_namespace b) ev)"
    by (rule note_event_sound [of loads]) (use Cons.prems sound_events_Cons in blast)
  then obtain b1 where b1: "note_event loads fl d b ev = (b1, Inr (change_of fl d (eb_namespace b) ev))"
    by (cases "note_event loads fl d b ev" rule: prod.exhaust) simp
  then have ns: "eb_namespace b1 = eb_namespace b" using note_event_frame(2) [of loads fl d b ev] by simp
  then have "snd (note_events loads fl d b1 evs) = Inr (List.map_filter (change_of fl d (eb_namespace b)) evs)"
    using Cons.IH [of b1] Cons.prems sound_events_Cons by (metis (no_types))
  then show ?case using b1 by (simp add: Let_def split_beta map_filter_simps split: option.split)
qed (simp add: map_filter_simps)

lemma in_map_filter: "y \<in> set (List.map_filter f xs) \<longleftrightarrow> (\<exists>x \<in> set xs. f x = Some y)"
  by (force simp: List.map_filter_def)

lemma change_of_eq:
  "change_of fl d ns ev = Some (Addition k e) \<longleftrightarrow>
     \<not> ke_delete ev \<and> names ns (event_key ev) k \<and> decode_envelope fl d (kv_value (ke_kv ev)) = Inr e"
  "change_of fl d ns ev = Some (Removal k) \<longleftrightarrow> ke_delete ev \<and> names ns (event_key ev) k"
  by (cases "parse_key ns (event_key ev)"; cases "projr (parse_key ns (event_key ev))";
      cases "decode_envelope fl d (kv_value (ke_kv ev))"; auto simp: change_of_def names_def)+

lemma in_changes:
  "Addition k e \<in> set (List.map_filter (change_of fl d ns) evs) \<longleftrightarrow>
     (\<exists>ev \<in> set evs. \<not> ke_delete ev \<and> names ns (event_key ev) k \<and> decode_envelope fl d (kv_value (ke_kv ev)) = Inr e)"
  "Removal k \<in> set (List.map_filter (change_of fl d ns) evs) \<longleftrightarrow>
     (\<exists>ev \<in> set evs. ke_delete ev \<and> names ns (event_key ev) k)"
  by (simp_all add: in_map_filter change_of_eq)

subsection \<open>A batch is mirrored\<close>

lemma names_fun: "names ns key j \<Longrightarrow> names ns key k \<Longrightarrow> j = k"
  by (simp add: names_def)

text \<open>
  The removals meet what the contents held, the additions what they hold now. No resource is both,
  since no id has two keys among the old and the new ones together.
\<close>

lemma apply_changes_mirrors:
  assumes wf: "wf_buckets st" and m: "mirrors fl d ns st E" and dis: "distinct (map event_key evs)"
    and del: "\<forall>ev \<in> set evs. ke_delete ev \<longrightarrow> event_key ev \<in> dom E"
    and ok: "sound_events loads fl d ns evs" and one: "one_key ns (dom E \<union> dom (after_events E evs))"
    and run: "apply_changes loads hn st (List.map_filter (change_of fl d ns) evs) = (st', Inr (out, []))"
  shows "mirrors fl d ns st' (after_events E evs)"
proof -
  let ?cs = "List.map_filter (change_of fl d ns) evs" and ?E = "after_events E evs"
  obtain st1 added gone where a: "apply_additions loads st (parents_first (additions ?cs)) = (st1, added, [], Inr ())"
    and r: "apply_removals hn st1 (descendants_first (removals ?cs)) = (st', gone)"
    using run by (auto simp: apply_changes_def Let_def split: sum.splits prod.splits)
  have ck: "check_envelope loads k e = Inr ()" if c: "Addition k e \<in> set ?cs" for k e
  proof -
    obtain ev where ev: "ev \<in> set evs" "\<not> ke_delete ev" "names ns (event_key ev) k" "decode_envelope fl d (kv_value (ke_kv ev)) = Inr e"
      using c by (auto simp: in_changes)
    then show ?thesis using ok unfolding sound_events_def names_def by fastforce
  qed
  have Put: "?E (event_key ev) = Some (kv_value (ke_kv ev))" if "ev \<in> set evs" "\<not> ke_delete ev" for ev
    using after_events_at [OF dis that(1)] that(2) by simp
  have once: "k = k' \<and> e = e'"
    if c: "Addition k e \<in> set ?cs" "Addition k' e' \<in> set ?cs" "pk_id k = pk_id k'" for k e k' e'
  proof -
    obtain ev ev' where ev: "ev \<in> set evs" "\<not> ke_delete ev" "names ns (event_key ev) k" "decode_envelope fl d (kv_value (ke_kv ev)) = Inr e"
        "ev' \<in> set evs" "\<not> ke_delete ev'" "names ns (event_key ev') k'" "decode_envelope fl d (kv_value (ke_kv ev')) = Inr e'"
      using c(1,2) by (auto simp: in_changes)
    then have "event_key ev = event_key ev'"
      using one Put [OF ev(1,2)] Put [OF ev(5,6)] c(3) unfolding one_key_def by blast
    then have "ev = ev'" using dis ev(1,5) by (auto simp: distinct_map inj_on_def)
    then show ?thesis using ev names_fun by fastforce
  qed
  have adds: "\<forall>(k, e) \<in> set (parents_first (additions ?cs)). check_envelope loads k e = Inr ()" using ck by auto
  have "k = k' \<and> e = e'" if "(k, e) \<in> set (parents_first (additions ?cs))" "(k', e') \<in> set (parents_first (additions ?cs))"
      "pk_id k = pk_id k'" for k e k' e'
    using that unfolding set_parents_first in_additions by (rule once)
  note sh = apply_additions_shown [OF wf adds a this]
  have s1: "shown st1 (pk_id k) = Some (pk_type k, en_body e)" if "Addition k e \<in> set ?cs" for k e
  proof -
    have "(k, e) \<in> set (parents_first (additions ?cs))" using that unfolding set_parents_first in_additions .
    from bspec [OF conjunct1 [OF sh] this] show ?thesis by simp
  qed
  have s0: "shown st1 i = shown st i" if "\<nexists>k e. Addition k e \<in> set ?cs \<and> pk_id k = i" for i
  proof -
    have "\<forall>(k, e) \<in> set (parents_first (additions ?cs)). pk_id k \<noteq> i"
      using that unfolding set_parents_first by (intro ballI, clarify) (simp only: in_additions, blast)
    with conjunct2 [OF sh] show ?thesis by blast
  qed
  have "wf_buckets st1" using apply_additions_follows [OF wf adds a] by blast
  then have s2: "shown st' i = (if \<exists>k. Removal k \<in> set ?cs \<and> pk_id k = i \<and> (\<exists>b. shown st1 i = Some (pk_type k, b)) then None else shown st1 i)" for i
    using apply_removals_effect [OF _ r] by auto
  have same: "names ns key k \<Longrightarrow> names ns key' k' \<Longrightarrow> pk_id k = pk_id k' \<Longrightarrow> key \<in> dom E \<union> dom ?E \<Longrightarrow>
      key' \<in> dom E \<union> dom ?E \<Longrightarrow> key = key'" for key key' k k'
    using one unfolding one_key_def by blast
  show ?thesis
    unfolding mirrors_def
  proof (intro allI)
    fix i rt b
    let ?held = "held fl d ns ?E i rt b"
    consider (put) ev k where "ev \<in> set evs" "\<not> ke_delete ev" "names ns (event_key ev) k" "pk_id k = i"
      | (gone) ev k where "ev \<in> set evs" "ke_delete ev" "names ns (event_key ev) k" "pk_id k = i"
          "\<nexists>ev k. ev \<in> set evs \<and> \<not> ke_delete ev \<and> names ns (event_key ev) k \<and> pk_id k = i"
      | (still) "\<nexists>ev k. ev \<in> set evs \<and> names ns (event_key ev) k \<and> pk_id k = i"
      by blast
    then show "shown st' i = Some (rt, b) \<longleftrightarrow> ?held"
    proof cases
      case put
      obtain e where e: "decode_envelope fl d (kv_value (ke_kv ev)) = Inr e"
        using ok put(1-3) unfolding sound_events_def names_def by fastforce
      then have add: "Addition k e \<in> set ?cs" using put(1-3) in_changes by blast
      have at: "?E (event_key ev) = Some (kv_value (ke_kv ev))" by (rule Put [OF put(1,2)])
      have "\<not> (Removal k' \<in> set ?cs \<and> pk_id k' = i)" for k'
      proof
        assume k': "Removal k' \<in> set ?cs \<and> pk_id k' = i"
        then obtain ev' where ev': "ev' \<in> set evs" "ke_delete ev'" "names ns (event_key ev') k'" using in_changes by blast
        then have "event_key ev = event_key ev'" using same [OF put(3) ev'(3)] put(4) k' at del by auto
        then have "ev = ev'" using dis put(1) ev'(1) by (auto simp: distinct_map inj_on_def)
        then show False using put(2) ev'(2) by simp
      qed
      then have sh: "shown st' i = Some (pk_type k, en_body e)" using s2 [of i] s1 [OF add] put(4) by auto
      have "?held \<longleftrightarrow> rt = pk_type k \<and> b = en_body e"
      proof
        assume ?held
        then obtain key v k' e' where h: "?E key = Some v" "names ns key k'" "pk_id k' = i" "pk_type k' = rt"
            "decode_envelope fl d v = Inr e'" "en_body e' = b" unfolding held_def by blast
        then have "key = event_key ev" using same [OF h(2) put(3)] put(4) at by auto
        then show "rt = pk_type k \<and> b = en_body e" using h at e put(3) names_fun by fastforce
      next
        assume "rt = pk_type k \<and> b = en_body e"
        then show ?held using at put(3,4) e unfolding held_def by blast
      qed
      then show ?thesis using sh by auto
    next
      case gone
      have none: "?E (event_key ev) = None" using after_events_at [OF dis gone(1)] gone(2) by simp
      have was: "event_key ev \<in> dom E" using del gone(1,2) by blast
      have "\<nexists>k e. Addition k e \<in> set ?cs \<and> pk_id k = i" using gone(5) in_changes by blast
      then have st1: "shown st1 i = shown st i" by (rule s0)
      have "\<not> ?held"
      proof
        assume ?held
        then obtain key v k' where h: "?E key = Some v" "names ns key k'" "pk_id k' = i" unfolding held_def by blast
        then have "key = event_key ev" using same [OF h(2) gone(3)] gone(4) was by auto
        then show False using none h(1) by simp
      qed
      moreover have "shown st' i = None"
      proof (cases "shown st i")
        case (Some x)
        obtain t c where x: "x = (t, c)" by fastforce
        then have "held fl d ns E i t c" using m Some unfolding mirrors_def by blast
        then obtain key v k' where h: "E key = Some v" "names ns key k'" "pk_id k' = i" "pk_type k' = t" unfolding held_def by blast
        then have "key = event_key ev" using same [OF h(2) gone(3)] gone(4) was by auto
        then have "k' = k" using h(2) gone(3) names_fun by blast
        moreover have "Removal k \<in> set ?cs" using gone(1-3) in_changes by blast
        ultimately have "\<exists>k. Removal k \<in> set ?cs \<and> pk_id k = i \<and> (\<exists>b. shown st1 i = Some (pk_type k, b))"
          using h(3,4) Some x st1 by (intro exI [of _ k] conjI exI [of _ c]) simp_all
        then show ?thesis using s2 [of i] by simp
      qed (use s2 [of i] st1 in simp)
      ultimately show ?thesis by simp
    next
      case still
      have "\<nexists>k e. Addition k e \<in> set ?cs \<and> pk_id k = i" using still in_changes by blast
      then have "shown st1 i = shown st i" by (rule s0)
      moreover have "\<nexists>k. Removal k \<in> set ?cs \<and> pk_id k = i" using still in_changes by blast
      ultimately have "shown st' i = shown st i" using s2 [of i] by auto
      moreover have "held fl d ns E i rt b \<longleftrightarrow> ?held"
      proof -
        have "?E key = E key" if "names ns key k" "pk_id k = i" for key k
          using still that by (intro after_events_other) blast
        then show ?thesis unfolding held_def by metis
      qed
      ultimately show ?thesis using m unfolding mirrors_def by simp
    qed
  qed
qed

text \<open>What a revision may do: no key twice, deletions of what is there, sound values, ids with one key.\<close>

definition good_events ::
  "(pystr \<Rightarrow> (pystr, json) pydict res) \<Rightarrow> (pystr \<Rightarrow> pystr) \<Rightarrow> nat \<Rightarrow> Namespace \<Rightarrow> contents \<Rightarrow> KvEvent list \<Rightarrow> bool" where
  "good_events loads fl d ns E evs \<longleftrightarrow>
     distinct (map event_key evs) \<and> (\<forall>ev \<in> set evs. ke_delete ev \<longrightarrow> event_key ev \<in> dom E) \<and>
     sound_events loads fl d ns evs \<and> one_key ns (dom E \<union> dom (after_events E evs))"

text \<open>The ids a batch reports as refused by the store, and leaves out.\<close>

definition refused_ids ::
  "(pystr \<Rightarrow> (pystr, json) pydict res) \<Rightarrow> (pystr \<Rightarrow> pystr) \<Rightarrow> nat \<Rightarrow> (pystr \<Rightarrow> int) \<Rightarrow> EtcdBackend \<Rightarrow> RevisionBatch \<Rightarrow> pystr list" where
  "refused_ids loads fl d hn b batch =
     (case note_events loads fl d b (rb_events batch) of
        (b1, Inr cs) \<Rightarrow> (case apply_changes loads hn (eb_store b1) cs of (st, Inr (evs, ids)) \<Rightarrow> ids | _ \<Rightarrow> [])
      | _ \<Rightarrow> [])"

definition publishes :: "(pystr \<Rightarrow> (pystr, json) pydict res) \<Rightarrow> EtcdBackend \<Rightarrow> EtcdBackend \<Rightarrow> bool" where
  "publishes loads b b' \<longleftrightarrow>
     (\<exists>evs. follows (shown (eb_store b)) evs (shown (eb_store b')) \<and>
        reg_publish loads ((eb_registry b)\<lparr>rg_store := eb_store b'\<rparr>) evs = (eb_registry b', Inr ()))"

lemma reg_publish_store: "rg_store (fst (reg_publish loads rg evs)) = rg_store rg"
  by (auto simp: reg_publish_def Let_def split: option.splits prod.splits)

lemma apply_revision_cases:
  assumes "apply_revision loads fl d hn b batch = (b', Inr ())" and "\<not> progress_only batch"
  shows "\<exists>b1 cs st evs. note_events loads fl d b (rb_events batch) = (b1, Inr cs) \<and>
    apply_changes loads hn (eb_store b) cs = (st, Inr (evs, refused_ids loads fl d hn b batch)) \<and> eb_store b' = st \<and>
    reg_publish loads ((eb_registry b)\<lparr>rg_store := st\<rparr>) evs = (eb_registry b', Inr ()) \<and>
    eb_namespace b' = eb_namespace b \<and> eb_scheduled b' = eb_scheduled b @ [rb_revision batch] \<and>
    eb_state b' = eb_state b \<and> eb_applied b' = eb_applied b"
proof -
  obtain b1 cs where n: "note_events loads fl d b (rb_events batch) = (b1, Inr cs)"
    using assms by (auto simp: apply_revision_def split: prod.splits sum.splits)
  then have fr: "eb_registry b1 = eb_registry b" "eb_namespace b1 = eb_namespace b" "eb_state b1 = eb_state b"
      "eb_applied b1 = eb_applied b" "eb_scheduled b1 = eb_scheduled b"
    using note_events_frame [of loads fl d b "rb_events batch"] by simp_all
  obtain st evs ids where c: "apply_changes loads hn (eb_store b1) cs = (st, Inr (evs, ids))"
    using assms n by (auto simp: apply_revision_def split: prod.splits sum.splits)
  obtain rg where p: "reg_publish loads (eb_registry (put_store b1 st)) evs = (rg, Inr ())"
      and b': "b' = schedule_advance (rb_revision batch) ((put_store b1 st)\<lparr>eb_registry := rg\<rparr>)"
    using assms n c by (auto simp: apply_revision_def Let_def split: prod.splits sum.splits)
  have "rg_store rg = st" using reg_publish_store [of loads "eb_registry (put_store b1 st)" evs] p by (simp add: put_store_def)
  then show ?thesis
    using n c p b' fr by (simp add: refused_ids_def eb_store_def put_store_def schedule_advance_def)
qed

lemma apply_revision_publishes:
  assumes wf: "wf_buckets (eb_store b)" and run: "apply_revision loads fl d hn b batch = (b', Inr ())"
  shows "wf_buckets (eb_store b') \<and> publishes loads b b' \<and> eb_namespace b' = eb_namespace b \<and>
    eb_state b' = eb_state b \<and> eb_applied b' = eb_applied b \<and> eb_scheduled b' = eb_scheduled b @ [rb_revision batch]"
proof (cases "progress_only batch")
  case True
  then have "b' = schedule_advance (rb_revision batch) b" using run by (simp add: apply_revision_def)
  moreover have "follows (shown (eb_store b)) [] (shown (eb_store b))" by simp
  ultimately show ?thesis
    using wf unfolding publishes_def
    by (auto simp: schedule_advance_def eb_store_def reg_publish_def split: option.splits intro!: exI [of _ "[]"])
next
  case False
  then obtain b1 cs st evs where c: "note_events loads fl d b (rb_events batch) = (b1, Inr cs)"
      "apply_changes loads hn (eb_store b) cs = (st, Inr (evs, refused_ids loads fl d hn b batch))" "eb_store b' = st"
      "reg_publish loads ((eb_registry b)\<lparr>rg_store := st\<rparr>) evs = (eb_registry b', Inr ())"
      "eb_namespace b' = eb_namespace b" "eb_scheduled b' = eb_scheduled b @ [rb_revision batch]"
      "eb_state b' = eb_state b" "eb_applied b' = eb_applied b"
    using apply_revision_cases [OF run] by blast
  have "wf_buckets st \<and> follows (shown (eb_store b)) evs (shown st)"
    using apply_changes_follows [OF wf _ c(2)] note_events_checked [OF c(1)] by blast
  then show ?thesis using c(3-) unfolding publishes_def by blast
qed

lemma apply_revision_mirrors:
  assumes wf: "wf_buckets (eb_store b)" and m: "mirrors fl d (eb_namespace b) (eb_store b) E"
    and good: "good_events loads fl d (eb_namespace b) E (rb_events batch)"
    and run: "apply_revision loads fl d hn b batch = (b', Inr ())" and none: "refused_ids loads fl d hn b batch = []"
  shows "mirrors fl d (eb_namespace b) (eb_store b') (after_events E (rb_events batch))"
proof (cases "progress_only batch")
  case True
  then show ?thesis using run m by (auto simp: apply_revision_def schedule_advance_def eb_store_def progress_only_def)
next
  case False
  then obtain b1 cs st evs where c: "note_events loads fl d b (rb_events batch) = (b1, Inr cs)"
      "apply_changes loads hn (eb_store b) cs = (st, Inr (evs, refused_ids loads fl d hn b batch))" "eb_store b' = st"
    using apply_revision_cases [OF run] by blast
  have "cs = List.map_filter (change_of fl d (eb_namespace b)) (rb_events batch)"
    using note_events_sound [of loads fl d b "rb_events batch"] good c(1) by (simp add: good_events_def)
  then show ?thesis
    using apply_changes_mirrors [OF wf m, of "rb_events batch" loads hn st evs] good c none
    by (simp add: good_events_def)
qed

end
