(* ===== verification/Store_Types.thy ===== *)
theory Store_Types
  imports Etcd_Mirror
begin

section \<open>What a store holds, whatever is done to it\<close>

text \<open>
  The operations of \<open>RegistryStore\<close> as one step relation, in any order: those of a standalone
  registry, those of the applier, and \<open>remove_one\<close>, with which a member of a registry over etcd
  may remove a parent before its children. The invariant of \<open>Store_Invariant\<close> speaks of the
  tree and does not survive the last; what survives everything is the typing of the buckets.
\<close>

inductive store_step :: "RegistryStore \<Rightarrow> RegistryStore \<Rightarrow> bool" where
  "insert_or_update loads h t st rt b = Inr (st', res) \<Longrightarrow> store_step st st'"
| "prepare st rt raw = Inr (Inr p) \<Longrightarrow> apply_committed h t st p b ca ua ha = (st', res) \<Longrightarrow> store_step st st'"
| "delete_resource hn st rt i = Inr (st', evs) \<Longrightarrow> store_step st st'"
| "remove_one h st rt i = (st', ev) \<Longrightarrow> store_step st st'"
| "forget st rt i = (st', was) \<Longrightarrow> store_step st st'"
| "heartbeat h st i = Inr (st', hb) \<Longrightarrow> store_step st st'"
| "collect_garbage hn h st = Inr (st', evs) \<Longrightarrow> store_step st st'"
| "next_cursor t st rt = (st', c) \<Longrightarrow> store_step st st'"
| "iter_ordered st rt ord = (st', rs) \<Longrightarrow> store_step st st'"

inductive store_steps :: "RegistryStore \<Rightarrow> bool" where
  new: "store_steps (new_store gc fi)"
| step: "store_steps st \<Longrightarrow> store_step st st' \<Longrightarrow> store_steps st'"

subsection \<open>Every operation keeps the buckets\<close>

lemma erase_buckets:
  "erase_subtree d hn st r = Inr (st', evs) \<Longrightarrow> wf_buckets st \<Longrightarrow> wf_buckets st'"
  "erase_children d hn st cs = Inr (st', evs) \<Longrightarrow> wf_buckets st \<Longrightarrow> wf_buckets st'"
proof (induction d hn st r and d hn st cs arbitrary: st' evs and st' evs rule: erase_subtree_erase_children.induct)
  case (2 depth hn st r)
  then show ?case by (auto elim!: bind_res_InrE intro: modify_wf_buckets)
next
  case (4 depth hn st c cs)
  then show ?case by (fastforce elim!: bind_res_InrE split: option.split_asm)
qed simp_all

lemma set_health_buckets:
  "set_health_recursive d st r h = Inr st' \<Longrightarrow> wf_buckets st \<Longrightarrow> wf_buckets st'"
  "set_health_children d st cs h = Inr st' \<Longrightarrow> wf_buckets st \<Longrightarrow> wf_buckets st'"
proof (induction d st r h and d st cs h arbitrary: st' and st' rule: set_health_recursive_set_health_children.induct)
  case (2 depth st r h)
  then show ?case by (auto elim!: bind_res_InrE intro: modify_wf_buckets)
next
  case (4 depth st c cs h)
  then show ?case by (fastforce elim!: bind_res_InrE split: option.split_asm)
qed simp_all

lemma forget_record_buckets:
  assumes wf: "wf_buckets st" and r: "dget (by_type st rt) i = Some r"
  shows "wf_buckets (forget_record st r)"
proof -
  note at = wf_bucketsD(1-3) [OF wf r]
  have bt: "by_type (forget_record st r) = (by_type st)(rt := dpop i (by_type st rt))"
    and tt: "type_of (forget_record st r) = (type_of st)(i := None)"
    using at by (auto simp: forget_record_def Let_def split: option.splits)
  have get: "dget (by_type (forget_record st r) t) j = (if t = rt \<and> j = i then None else dget (by_type st t) j)" for t j
    by (simp add: bt)
  show ?thesis unfolding wf_buckets_def
  proof (intro conjI allI impI)
    fix t show "wf_dict (by_type (forget_record st r) t)" using wf by (simp add: bt wf_buckets_def wf_dict_dpop)
  next
    fix t j x assume "dget (by_type (forget_record st r) t) j = Some x"
    then have x: "dget (by_type st t) j = Some x" "\<not> (t = rt \<and> j = i)" by (auto simp: get split: if_splits)
    note d = wf_bucketsD(1-3) [OF wf x(1)]
    then have "j \<noteq> i" using at x(2) by auto
    then show "resource_type x = t" "res_id x = j" "type_of (forget_record st r) j = Some t" using d by (simp_all add: tt)
  next
    fix j t assume j: "type_of (forget_record st r) j = Some t"
    then have "j \<noteq> i" "type_of st j = Some t" by (auto simp: tt split: if_splits)
    then show "dget (by_type (forget_record st r) t) j \<noteq> None" using wf by (auto simp: get wf_buckets_def)
  qed
qed

lemma forget_buckets: "forget st rt i = (st', was) \<Longrightarrow> wf_buckets st \<Longrightarrow> wf_buckets st'"
  by (auto simp: forget_def split: option.split_asm if_split_asm intro: forget_record_buckets)

lemma forget_all_buckets: "wf_buckets st \<Longrightarrow> wf_buckets (forget_all st vs)"
  by (induction st vs rule: forget_all.induct) (auto intro: forget_buckets prod.collapse [symmetric])

lemma expire_buckets: "expire_nodes hn before st is = Inr (st', evs) \<Longrightarrow> wf_buckets st \<Longrightarrow> wf_buckets st'"
proof (induction hn before st "is" arbitrary: st' evs rule: expire_nodes.induct)
  case (2 hn before st i "is")
  then show ?case by (fastforce elim!: bind_res_InrE split: option.split_asm if_split_asm dest: erase_buckets(1))
qed simp

lemma apply_committed_buckets:
  "prepare st rt raw = Inr (Inr p) \<Longrightarrow> apply_committed h t st p b ca ua ha = (st', res) \<Longrightarrow> wf_buckets st \<Longrightarrow> wf_buckets st'"
  using apply_committed_shown by metis

lemma next_cursor_buckets: "next_cursor t st rt = (st', c) \<Longrightarrow> wf_buckets st \<Longrightarrow> wf_buckets st'"
  by (auto simp: next_cursor_def Let_def wf_buckets_def)

lemma iter_ordered_buckets: "iter_ordered st rt ord = (st', rs) \<Longrightarrow> wf_buckets st \<Longrightarrow> wf_buckets st'"
  by (auto simp: iter_ordered_def Let_def wf_buckets_def set_index_def set_dirty_def split: if_splits)

lemma store_step_buckets: "store_step st st' \<Longrightarrow> wf_buckets st \<Longrightarrow> wf_buckets st'"
proof (induction rule: store_step.induct)
  case (1 loads h t st rt b st' res)
  then show ?case unfolding insert_or_update_def
    by (auto elim!: bind_res_InrE split: sum.split_asm dest: apply_committed_buckets)
next
  case (3 hn st rt i st' evs)
  then show ?case unfolding delete_resource_def
    by (auto elim!: bind_res_InrE split: option.split_asm dest: erase_buckets(1))
next
  case (4 h st rt i st' ev)
  then show ?case using remove_one_effect by blast
next
  case (6 h st i st' hb)
  then show ?case unfolding heartbeat_def
    by (auto elim!: bind_res_InrE split: option.split_asm dest: set_health_buckets(1))
next
  case (7 hn h st st' evs)
  then show ?case unfolding collect_garbage_def
    by (auto elim!: bind_res_InrE intro!: forget_all_buckets dest: expire_buckets)
qed (auto intro: apply_committed_buckets forget_buckets next_cursor_buckets iter_ordered_buckets)

lemma store_steps_buckets: "store_steps st \<Longrightarrow> wf_buckets st"
proof (induction rule: store_steps.induct)
  case (new gc fi)
  then show ?case using wf_new_store by (simp add: wf_store_def wf_graph_def)
qed (rule store_step_buckets)

text \<open>
  C29: the store is well typed. Whatever sequence of its operations built it, removals of a parent
  under its children included, what it holds under a kind and an id is a record of that kind with
  that id, every id has at most one kind, and a lookup by id alone finds exactly that record.
\<close>

theorem stored_by_kind_and_id:
  assumes "store_steps st"
  shows "(dget (by_type st rt) i = Some r \<longrightarrow> resource_type r = rt \<and> res_id r = i \<and> type_of st i = Some rt) \<and>
    (find_any st i = Some r \<longleftrightarrow> extant r \<and> dget (by_type st (resource_type r)) i = Some r) \<and>
    distinct (map res_id (iter_extant st rt))"
proof -
  have wf: "wf_buckets st" using assms by (rule store_steps_buckets)
  have "find_any st i = Some r \<longleftrightarrow> extant r \<and> dget (by_type st (resource_type r)) i = Some r"
    using bucket_eq [OF wf, of "resource_type r" i] by (auto simp: find_any_look [OF wf] split: option.splits)
  then show ?thesis using wf_bucketsD(1-3) [OF wf] extant_ids_distinct [OF wf] by blast
qed

text \<open>A store that was given a Node and lost it to a removal.\<close>

theorem stored_by_kind_and_id_witness:
  "\<exists>st r. store_steps st \<and> dget (by_type st NODE) [9] = Some r \<and> \<not> extant r \<and>
     resource_type r = NODE \<and> res_id r = [9] \<and> type_of st [9] = Some NODE \<and> find_any st [9] \<noteq> Some r"
proof -
  let ?b = "\<lparr>body_text = [], parsed = Some [(str ''id'', JStr [9]), (str ''version'', JStr [])]\<rparr>"
  obtain st1 res where one: "insert_or_update (\<lambda>_. Inl ValueError) 7 (TaiCursor 5 0) (new_store 12 12) NODE ?b = Inr (st1, res)"
      and at: "\<exists>r. dget (by_type st1 NODE) [9] = Some r \<and> extant r"
    by (auto simp: insert_or_update_def body_data_def prepare_def check_parent_def parent_id_of_def str_def new_store_def
        apply_committed_def commit_cursor_def next_cursor_def commit_create_def put_resource_def reparent_def Let_def split: prod.splits)
  obtain st2 ev where two: "remove_one 8 st1 NODE [9] = (st2, ev)" by fastforce
  have st2: "store_steps st2"
    by (rule store_steps.step [OF store_steps.step [OF store_steps.new store_step.intros(1) [OF one]] store_step.intros(4) [OF two]])
  obtain r where r: "dget (by_type st2 NODE) [9] = Some r" "\<not> extant r"
    using at two by (auto simp: remove_one_def put_resource_def retire_def)
  then show ?thesis using st2 stored_by_kind_and_id [OF st2, of NODE "[9]" r] by blast
qed

end
