(* ===== verification/Etcd_Backend.thy ===== *)
theory Etcd_Backend
  imports Etcd_View
begin

section \<open>The registry over etcd: its coroutines\<close>

text \<open>
  \<open>src/nmos/registry/etcd_backend.py\<close>: the methods of \<open>EtcdRegistryBackend\<close> that await. A method
  runs on the backend and gives it up at every await, where the watch and other requests may change
  it in any way. So a method is a process (\<open>eproc\<close>): it ends with the backend as it leaves it, or it
  hands the backend over with a question and goes on with the backend and the answer it is given.
  Nothing is assumed about either. The questions are the calls of \<open>kv.py\<close> and \<open>lease.py\<close>, a wait
  on the fence, a watch stream and its batches (\<open>Etcd_Watch\<close>), and the clocks; the answer with a
  batch carries the clock the removals of the batch are going to read. A call that raises answers
  with the exception.

  The retry loop of a registration runs until the deadline, by the clock, and the loop over the
  pages of a snapshot until etcd has no more; the watch runs until the backend is closed. They carry
  fuel and end as \<open>OutOfFuel\<close> without it. The cancellation of the watch task by \<open>close\<close> is not
  modelled.
  \<open>_Trips\<close> and the timers only feed metrics and are left out.
\<close>

subsection \<open>Processes\<close>

record TxnResult =
  tx_succeeded :: bool
  tx_revision :: int
  tx_responses :: "KeyValue list list"

record RangeResult =
  pg_revision :: int
  pg_kvs :: "KeyValue list"
  pg_more :: bool

record RangeRequest =
  rq_key :: bytes
  rq_end :: bytes
  rq_revision :: int
  rq_limit :: int

datatype 'r eproc =
    Ended EtcdBackend "'r res"
  | OutOfFuel
  | AskTxn EtcdBackend "Compare list" "RequestOp list" "EtcdBackend \<Rightarrow> TxnResult res \<Rightarrow> 'r eproc"
  | AskRange EtcdBackend RangeRequest "EtcdBackend \<Rightarrow> RangeResult res \<Rightarrow> 'r eproc"
  | AskGrant EtcdBackend int "EtcdBackend \<Rightarrow> int res \<Rightarrow> 'r eproc"
  | AskKeepalive EtcdBackend int "EtcdBackend \<Rightarrow> int res \<Rightarrow> 'r eproc"
  | AwaitFence EtcdBackend int "EtcdBackend \<Rightarrow> bool \<Rightarrow> 'r eproc"
  | OpenStream EtcdBackend int "EtcdBackend \<Rightarrow> unit res \<Rightarrow> 'r eproc"
  | NextBatch EtcdBackend "EtcdBackend \<Rightarrow> (pystr \<Rightarrow> int) \<Rightarrow> RevisionBatch option res \<Rightarrow> 'r eproc"
  | Suspend EtcdBackend "EtcdBackend \<Rightarrow> 'r eproc"
  | LoopTime "real \<Rightarrow> 'r eproc"
  | HealthNow "int \<Rightarrow> 'r eproc"
  | TaiNow "TaiCursor \<Rightarrow> 'r eproc"

primrec bind_eproc :: "'a eproc \<Rightarrow> (EtcdBackend \<Rightarrow> 'a \<Rightarrow> 'b eproc) \<Rightarrow> 'b eproc" where
  "bind_eproc (Ended b r) f = (case r of Inl e \<Rightarrow> Ended b (Inl e) | Inr x \<Rightarrow> f b x)"
| "bind_eproc OutOfFuel f = OutOfFuel"
| "bind_eproc (AskTxn b cs ops k) f = AskTxn b cs ops (\<lambda>b' r. bind_eproc (k b' r) f)"
| "bind_eproc (AskRange b q k) f = AskRange b q (\<lambda>b' r. bind_eproc (k b' r) f)"
| "bind_eproc (AskGrant b ttl k) f = AskGrant b ttl (\<lambda>b' r. bind_eproc (k b' r) f)"
| "bind_eproc (AskKeepalive b l k) f = AskKeepalive b l (\<lambda>b' r. bind_eproc (k b' r) f)"
| "bind_eproc (AwaitFence b i k) f = AwaitFence b i (\<lambda>b' ok. bind_eproc (k b' ok) f)"
| "bind_eproc (OpenStream b i k) f = OpenStream b i (\<lambda>b' r. bind_eproc (k b' r) f)"
| "bind_eproc (NextBatch b k) f = NextBatch b (\<lambda>b' hn r. bind_eproc (k b' hn r) f)"
| "bind_eproc (Suspend b k) f = Suspend b (\<lambda>b'. bind_eproc (k b') f)"
| "bind_eproc (LoopTime k) f = LoopTime (\<lambda>t. bind_eproc (k t) f)"
| "bind_eproc (HealthNow k) f = HealthNow (\<lambda>h. bind_eproc (k h) f)"
| "bind_eproc (TaiNow k) f = TaiNow (\<lambda>t. bind_eproc (k t) f)"

text \<open>\<open>except\<close>: what becomes of an exception.\<close>

primrec on_error :: "'r eproc \<Rightarrow> (EtcdBackend \<Rightarrow> py_error \<Rightarrow> 'r eproc) \<Rightarrow> 'r eproc" where
  "on_error (Ended b r) f = (case r of Inl e \<Rightarrow> f b e | Inr x \<Rightarrow> Ended b (Inr x))"
| "on_error OutOfFuel f = OutOfFuel"
| "on_error (AskTxn b cs ops k) f = AskTxn b cs ops (\<lambda>b' r. on_error (k b' r) f)"
| "on_error (AskRange b q k) f = AskRange b q (\<lambda>b' r. on_error (k b' r) f)"
| "on_error (AskGrant b ttl k) f = AskGrant b ttl (\<lambda>b' r. on_error (k b' r) f)"
| "on_error (AskKeepalive b l k) f = AskKeepalive b l (\<lambda>b' r. on_error (k b' r) f)"
| "on_error (AwaitFence b i k) f = AwaitFence b i (\<lambda>b' ok. on_error (k b' ok) f)"
| "on_error (OpenStream b i k) f = OpenStream b i (\<lambda>b' r. on_error (k b' r) f)"
| "on_error (NextBatch b k) f = NextBatch b (\<lambda>b' hn r. on_error (k b' hn r) f)"
| "on_error (Suspend b k) f = Suspend b (\<lambda>b'. on_error (k b') f)"
| "on_error (LoopTime k) f = LoopTime (\<lambda>t. on_error (k t) f)"
| "on_error (HealthNow k) f = HealthNow (\<lambda>h. on_error (k h) f)"
| "on_error (TaiNow k) f = TaiNow (\<lambda>t. on_error (k t) f)"

definition txn :: "EtcdBackend \<Rightarrow> Compare list \<Rightarrow> RequestOp list \<Rightarrow> TxnResult eproc" where
  "txn b cs ops = AskTxn b cs ops (\<lambda>b' r. Ended b' r)"

definition read_set :: "EtcdBackend \<Rightarrow> bytes list \<Rightarrow> TxnResult eproc" where
  "read_set b keys = txn b [] (map (\<lambda>key. range_op key None) keys)"

definition first_kv :: "KeyValue list \<Rightarrow> KeyValue option" where
  "first_kv kvs = (case kvs of [] \<Rightarrow> None | kv # rest \<Rightarrow> Some kv)"

text \<open>\<open>range_prefix_at\<close>: a page above a key is asked for from the key with a zero byte appended.\<close>

definition range_prefix_at :: "EtcdBackend \<Rightarrow> bytes \<Rightarrow> int \<Rightarrow> int \<Rightarrow> bytes option \<Rightarrow> RangeResult eproc" where
  "range_prefix_at b pre revision limit start_after =
     AskRange b \<lparr>rq_key = (case start_after of None \<Rightarrow> pre | Some k \<Rightarrow> k @ [0]), rq_end = prefix_range_end pre,
                 rq_revision = revision, rq_limit = limit\<rparr> (\<lambda>b' r. Ended b' r)"

text \<open>\<open>keepalive_once\<close>: a renewal that left no time is a lease that is gone.\<close>

definition keepalive_once :: "EtcdBackend \<Rightarrow> int \<Rightarrow> int eproc" where
  "keepalive_once b lease =
     AskKeepalive b lease (\<lambda>b' r. Ended b' (bind_res r (\<lambda>ttl. if ttl \<le> 0 then Inl EtcdLeaseNotFound else Inr ttl)))"

subsection \<open>The fence\<close>

definition fence_wait :: "EtcdBackend \<Rightarrow> int \<Rightarrow> unit eproc" where
  "fence_wait b revision =
     (if eb_applied b \<ge> revision then Ended b (Inr ())
      else AwaitFence b revision (\<lambda>b' ok. Ended b' (if ok then Inr () else Inl FenceTimeout)))"

definition catch_up :: "EtcdBackend \<Rightarrow> bytes \<Rightarrow> unit eproc" where
  "catch_up b key = bind_eproc (read_set b [key]) (\<lambda>b' t. fence_wait b' (tx_revision t))"

definition await_commit :: "EtcdBackend \<Rightarrow> int \<Rightarrow> unit eproc" where
  "await_commit b revision = fence_wait b revision"

text \<open>The exception of a wait is logged and swallowed.\<close>

definition recovery_fence :: "EtcdBackend \<Rightarrow> int \<Rightarrow> unit eproc" where
  "recovery_fence b revision = on_error (fence_wait b revision) (\<lambda>b' e. Ended b' (Inr ()))"

fun note_revisions :: "EtcdBackend \<Rightarrow> (bytes \<times> KeyValue list) list \<Rightarrow> EtcdBackend" where
  "note_revisions b [] = b"
| "note_revisions b ((key, kvs) # xs) =
     note_revisions (b\<lparr>eb_revisions := (eb_revisions b)(key \<mapsto> (case first_kv kvs of None \<Rightarrow> 0 | Some kv \<Rightarrow> kv_mod kv))\<rparr>) xs"

definition write_set :: "Placement \<Rightarrow> bytes list" where
  "write_set p = [pl_key p, pl_claim p] @ (case pl_parent p of None \<Rightarrow> [] | Some parent \<Rightarrow> [parent])"

definition read_fence :: "EtcdBackend \<Rightarrow> Placement \<Rightarrow> int eproc" where
  "read_fence b p =
     bind_eproc (read_set b (write_set p)) (\<lambda>b1 t.
     bind_eproc (fence_wait (note_revisions b1 (zip (write_set p) (tx_responses t))) (tx_revision t)) (\<lambda>b2 _.
       Ended b2 (Inr (tx_revision t))))"

subsection \<open>Mutations\<close>

text \<open>\<open>_guarded\<close>: what becomes of a failure of etcd.\<close>

definition guarded :: "'r eproc \<Rightarrow> 'r eproc" where
  "guarded p = on_error p (\<lambda>b e.
     if e = EtcdCompacted then Ended b (Inl MutationTimeout)
     else if e = FenceTimeout then Ended b (Inl MutationTimeout)
     else if is_EtcdError e then Ended (degrade b) (Inl MutationTimeout)
     else Ended b (Inl e))"

text \<open>The transaction of a write, from the envelope to the answer.\<close>

definition submit :: "EtcdBackend \<Rightarrow> Placement \<Rightarrow> Body \<Rightarrow> ResourceType \<Rightarrow> TxnResult eproc" where
  "submit b p bdy rt = TaiNow (\<lambda>tn. HealthNow (\<lambda>hn.
     let (b1, r) = write_ops tn hn b p bdy rt
     in case r of Inl e \<Rightarrow> Ended b1 (Inl e) | Inr ops \<Rightarrow> txn b1 (compare_set b p) ops))"

definition committed_result :: "PreparedRegistration \<Rightarrow> RegistrationResult" where
  "committed_result p = \<lparr>rr_created = creates p, rr_events = [], rr_error = None\<rparr>"

definition try_fast_path ::
  "EtcdBackend \<Rightarrow> ResourceType \<Rightarrow> Body \<Rightarrow> (pystr, json) pydict \<Rightarrow> Placement \<Rightarrow> RegistrationResult option eproc" where
  "try_fast_path b rt bdy raw p =
     (case prepare (eb_store b) rt raw of
        Inl e \<Rightarrow> Ended b (Inl e)
      | Inr (Inl refused) \<Rightarrow> Ended b (Inr None)
      | Inr (Inr prepared) \<Rightarrow>
          bind_eproc (submit b p bdy rt) (\<lambda>b1 t.
            if \<not> tx_succeeded t then Ended b1 (Inr None)
            else bind_eproc (await_commit b1 (tx_revision t)) (\<lambda>b2 _. Ended b2 (Inr (Some (committed_result prepared))))))"

primrec fenced_register ::
  "nat \<Rightarrow> ResourceType \<Rightarrow> Body \<Rightarrow> (pystr, json) pydict \<Rightarrow> real \<Rightarrow> EtcdBackend \<Rightarrow> Placement \<Rightarrow> RegistrationResult eproc" where
  "fenced_register 0 rt bdy raw deadline b p = OutOfFuel"
| "fenced_register (Suc n) rt bdy raw deadline b p =
     bind_eproc (on_error (read_fence b p) (\<lambda>b' e.
       if e \<noteq> EtcdCompacted \<and> is_EtcdError e then Ended (degrade b') (Inl e) else Ended b' (Inl e))) (\<lambda>b1 revision.
     case prepare (eb_store b1) rt raw of
       Inl e \<Rightarrow> Ended b1 (Inl e)
     | Inr (Inl refused) \<Rightarrow> Ended b1 (Inr refused)
     | Inr (Inr prepared) \<Rightarrow>
         let lease = lease_of b1 (pl_node p)
         in if rt \<noteq> NODE \<and> lease = 0 then Ended b1 (Inl MutationTimeout)
            else let p1 = (if rt \<noteq> NODE then with_lease p lease else p)
              in bind_eproc (submit b1 p1 bdy rt) (\<lambda>b2 t.
                   if tx_succeeded t
                   then bind_eproc (await_commit b2 (tx_revision t)) (\<lambda>b3 _. Ended b3 (Inr (committed_result prepared)))
                   else LoopTime (\<lambda>now.
                     if now \<ge> deadline then Ended b2 (Inl MutationTimeout)
                     else Suspend b2 (\<lambda>b3. fenced_register n rt bdy raw deadline b3 p1))))"

definition ensure_node_lease :: "EtcdBackend \<Rightarrow> pystr \<Rightarrow> int eproc" where
  "ensure_node_lease b node_id =
     (if lease_of b node_id \<noteq> 0 then Ended b (Inr (lease_of b node_id))
      else AskGrant b (lease_ttl b) (\<lambda>b' r.
        case r of Inl e \<Rightarrow> Ended b' (Inl e)
        | Inr l \<Rightarrow> Ended (b'\<lparr>eb_leases := (eb_leases b')(node_id \<mapsto> l)\<rparr>) (Inr l)))"

definition register_placed ::
  "nat \<Rightarrow> ResourceType \<Rightarrow> Body \<Rightarrow> (pystr, json) pydict \<Rightarrow> real \<Rightarrow> EtcdBackend \<Rightarrow> Placement \<Rightarrow> RegistrationResult eproc" where
  "register_placed n rt bdy raw deadline b p =
     guarded
       (if eb_fast b
        then bind_eproc (try_fast_path b rt bdy raw p) (\<lambda>b1 fast.
               case fast of
                 Some result \<Rightarrow> Ended b1 (Inr result)
               | None \<Rightarrow> fenced_register n rt bdy raw deadline b1 p)
        else fenced_register n rt bdy raw deadline b p)"

definition lift_b :: "EtcdBackend \<Rightarrow> 'a res \<Rightarrow> 'a eproc" where
  "lift_b b r = Ended b r"

text \<open>The first decision about a resource's place, taken again after catching up when it is a missing parent.\<close>

definition settle_placement ::
  "(json \<Rightarrow> pystr) \<Rightarrow> EtcdBackend \<Rightarrow> ResourceType \<Rightarrow> (pystr, json) pydict \<Rightarrow> (RegistrationResult + Placement) eproc" where
  "settle_placement brackets b rt raw =
     bind_eproc (lift_b b (placement b rt raw)) (\<lambda>b first.
       if (case first of Inl r \<Rightarrow> rr_error r = Some PARENT_MISSING | Inr p \<Rightarrow> False)
       then bind_eproc (lift_b b (id_claim (eb_namespace b)
                (case dget raw (str ''device_id'') of Some v \<Rightarrow> py_str brackets v | None \<Rightarrow> []))) (\<lambda>b key.
            bind_eproc (guarded (catch_up b key)) (\<lambda>b1 _. lift_b b1 (placement b1 rt raw)))
       else Ended b (Inr first))"

definition etcd_register ::
  "(pystr \<Rightarrow> (pystr, json) pydict res) \<Rightarrow> (json \<Rightarrow> pystr) \<Rightarrow> nat \<Rightarrow> EtcdBackend \<Rightarrow> ResourceType \<Rightarrow> Body \<Rightarrow>
   RegistrationResult eproc" where
  "etcd_register loads brackets n b rt bdy = LoopTime (\<lambda>start.
     bind_eproc (lift_b b (body_data loads bdy)) (\<lambda>b raw.
     bind_eproc (settle_placement brackets b rt raw) (\<lambda>b1 placed.
       case placed of
         Inl refused \<Rightarrow> Ended b1 (Inr refused)
       | Inr p \<Rightarrow>
           bind_eproc (if rt = NODE then bind_eproc (ensure_node_lease b1 (pl_node p)) (\<lambda>b2 l. Ended b2 (Inr (with_lease p l)))
                       else Ended b1 (Inr p)) (\<lambda>b2 p1.
             register_placed n rt bdy raw (start + ec_timeout (eb_config b)) b2 p1))))"

definition unregister_body ::
  "(pystr \<Rightarrow> (pystr, json) pydict res) \<Rightarrow> EtcdBackend \<Rightarrow> ResourceType \<Rightarrow> pystr \<Rightarrow> bool eproc" where
  "unregister_body loads b rt i =
     bind_eproc (case get_resource (eb_store b) rt i False of
         Some r \<Rightarrow> Ended b (Inr (Some r))
       | None \<Rightarrow>
           bind_eproc (lift_b b (id_claim (eb_namespace b) i)) (\<lambda>b key.
           bind_eproc (catch_up b key) (\<lambda>b1 _. Ended b1 (Inr (get_resource (eb_store b1) rt i False))))) (\<lambda>b1 found.
       case found of
         None \<Rightarrow> Ended b1 (Inr False)
       | Some r \<Rightarrow>
           bind_eproc (lift_b b1 (bind_res (body_data loads (body r)) (placement b1 rt))) (\<lambda>b1 placed.
             case placed of
               Inl refused \<Rightarrow> Ended b1 (Inr False)
             | Inr p \<Rightarrow>
                 bind_eproc (lift_b b1 (delete_ops b1 rt i p)) (\<lambda>b1 ops.
                 bind_eproc (txn b1 [] ops) (\<lambda>b2 t.
                 bind_eproc (await_commit b2 (tx_revision t)) (\<lambda>b3 _. Ended b3 (Inr True))))))"

definition etcd_unregister ::
  "(pystr \<Rightarrow> (pystr, json) pydict res) \<Rightarrow> EtcdBackend \<Rightarrow> ResourceType \<Rightarrow> pystr \<Rightarrow> bool eproc" where
  "etcd_unregister loads b rt i = guarded (unregister_body loads b rt i)"

text \<open>The renewal and what follows it: the local health is only for diagnosis.\<close>

definition renew :: "EtcdBackend \<Rightarrow> pystr \<Rightarrow> int \<Rightarrow> int option eproc" where
  "renew b node_id lease =
     bind_eproc (on_error (bind_eproc (keepalive_once b lease) (\<lambda>b' ttl. Ended b' (Inr True))) (\<lambda>b' e.
         if e = EtcdLeaseNotFound then Ended (b'\<lparr>eb_leases := (eb_leases b')(node_id := None)\<rparr>) (Inr False)
         else Ended b' (Inl e))) (\<lambda>b1 alive.
       if \<not> alive then Ended b1 (Inr None)
       else HealthNow (\<lambda>h.
         if get_resource (eb_store b1) NODE node_id False = None then Ended b1 (Inr (Some h))
         else HealthNow (\<lambda>h2.
           case heartbeat h2 (eb_store b1) node_id of
             Inl e \<Rightarrow> Ended b1 (Inl e)
           | Inr (st, _) \<Rightarrow> Ended (put_store b1 st) (Inr (Some h)))))"

definition heartbeat_body :: "EtcdBackend \<Rightarrow> pystr \<Rightarrow> int option eproc" where
  "heartbeat_body b node_id =
     (if lease_of b node_id \<noteq> 0 then renew b node_id (lease_of b node_id)
      else bind_eproc (lift_b b (node_key (eb_namespace b) node_id)) (\<lambda>b key.
           bind_eproc (catch_up b key) (\<lambda>b1 _.
             if lease_of b1 node_id = 0 then Ended b1 (Inr None)
             else renew b1 node_id (lease_of b1 node_id))))"

definition etcd_heartbeat :: "EtcdBackend \<Rightarrow> pystr \<Rightarrow> int option eproc" where
  "etcd_heartbeat b node_id = guarded (heartbeat_body b node_id)"

subsection \<open>Snapshots and the life of the watch\<close>

definition PRELOAD_PAGE :: int where
  "PRELOAD_PAGE = 100"

primrec read_pages ::
  "nat \<Rightarrow> (pystr \<Rightarrow> (pystr, json) pydict res) \<Rightarrow> (pystr \<Rightarrow> pystr) \<Rightarrow> nat \<Rightarrow> bytes \<Rightarrow> EtcdBackend \<Rightarrow> int \<Rightarrow>
   bytes option \<Rightarrow> (ParsedKey \<times> Envelope) list \<Rightarrow> (int \<times> (ParsedKey \<times> Envelope) list) eproc" where
  "read_pages 0 loads fl d root_key b revision start_after collected = OutOfFuel"
| "read_pages (Suc n) loads fl d root_key b revision start_after collected =
     bind_eproc (range_prefix_at b root_key revision PRELOAD_PAGE start_after) (\<lambda>b1 page.
       let pinned = (if revision = 0 then pg_revision page else revision)
       in case take_page loads fl d b1 (pg_kvs page) of
            (b2, Inl e) \<Rightarrow> Ended b2 (Inl e)
          | (b2, Inr xs) \<Rightarrow>
              if \<not> pg_more page \<or> pg_kvs page = [] then Ended b2 (Inr (pinned, collected @ xs))
              else read_pages n loads fl d root_key b2 pinned (Some (kv_key (last (pg_kvs page)))) (collected @ xs))"

definition read_snapshot ::
  "nat \<Rightarrow> (pystr \<Rightarrow> (pystr, json) pydict res) \<Rightarrow> (pystr \<Rightarrow> pystr) \<Rightarrow> nat \<Rightarrow> EtcdBackend \<Rightarrow> (int \<times> RegistryStore) eproc" where
  "read_snapshot n loads fl d b =
     (let candidate = new_store (gc_interval (eb_store b)) (forget_interval (eb_store b))
      in bind_eproc (lift_b b (ns_root (eb_namespace b))) (\<lambda>b root_key.
         bind_eproc (read_pages n loads fl d root_key b 0 None []) (\<lambda>b1 (revision, collected).
           case build_snapshot loads candidate collected of
             Inl e \<Rightarrow> Ended b1 (Inl e)
           | Inr st \<Rightarrow> Ended b1 (Inr (revision, st)))))"

definition preload ::
  "nat \<Rightarrow> (pystr \<Rightarrow> (pystr, json) pydict res) \<Rightarrow> (pystr \<Rightarrow> pystr) \<Rightarrow> nat \<Rightarrow> EtcdBackend \<Rightarrow> int eproc" where
  "preload n loads fl d b =
     bind_eproc (read_snapshot n loads fl d b) (\<lambda>b1 (revision, st).
       Ended (b1\<lparr>eb_registry := fst (swap_store (eb_registry b1) st)\<rparr>) (Inr revision))"

definition start_watch :: "int \<Rightarrow> EtcdBackend \<Rightarrow> EtcdBackend" where
  "start_watch revision b = b\<lparr>eb_applied := revision\<rparr>"

text \<open>\<open>start\<close> once the connections are made and the version gate has passed; \<open>actual\<close> are the names etcd reports.\<close>

definition start_backend ::
  "nat \<Rightarrow> (pystr \<Rightarrow> (pystr, json) pydict res) \<Rightarrow> (pystr \<Rightarrow> pystr) \<Rightarrow> nat \<Rightarrow> pystr list \<Rightarrow> EtcdBackend \<Rightarrow> unit eproc" where
  "start_backend n loads fl d actual b =
     bind_eproc (lift_b b (reconcile_members (eb_config b) actual)) (\<lambda>b _.
     bind_eproc (preload n loads fl d b) (\<lambda>b1 revision.
     bind_eproc (recovery_fence (start_watch revision b1) revision) (\<lambda>b2 _.
       Ended (set_state b2 READY) (Inr ()))))"

text \<open>The stream is open: \<open>_watch_once\<close> before its first batch.\<close>

definition watch_opened :: "EtcdBackend \<Rightarrow> unit eproc" where
  "watch_opened b =
     bind_eproc (if eb_state b = DEGRADED
                 then bind_eproc (recovery_fence b (eb_applied b)) (\<lambda>b1 _. Ended (set_state b1 READY) (Inr ()))
                 else Ended b (Inr ())) (\<lambda>b1 _. Ended (b1\<lparr>eb_endpoint := 0\<rparr>) (Inr ()))"

definition resnapshot ::
  "nat \<Rightarrow> (pystr \<Rightarrow> (pystr, json) pydict res) \<Rightarrow> (pystr \<Rightarrow> pystr) \<Rightarrow> nat \<Rightarrow> (pystr \<Rightarrow> int option) \<Rightarrow> EtcdBackend \<Rightarrow> int eproc" where
  "resnapshot n loads fl d whole b =
     bind_eproc (read_snapshot n loads fl d (set_state b RESYNCING)) (\<lambda>b1 (revision, candidate).
       let (rg, previous) = swap_store (eb_registry b1) candidate; b2 = b1\<lparr>eb_registry := rg\<rparr>
       in case diff_stores loads whole previous candidate of
            Inl e \<Rightarrow> Ended b2 (Inl e)
          | Inr evs \<Rightarrow>
              (case reg_publish loads rg evs of
                 (rg2, Inl e) \<Rightarrow> Ended (b2\<lparr>eb_registry := rg2\<rparr>) (Inl e)
               | (rg2, Inr _) \<Rightarrow> Suspend (b2\<lparr>eb_registry := rg2\<rparr>) (\<lambda>b3.
                   Ended (set_state (reset_fence revision b3) READY) (Inr revision))))"

text \<open>
  How \<open>_watch_loop\<close> goes on after a connection, other than after a compaction: the backend and the
  revision to resume from. \<open>None\<close> is a clean end of the stream.
\<close>

definition watch_ended :: "EtcdBackend \<Rightarrow> py_error option \<Rightarrow> EtcdBackend \<times> int" where
  "watch_ended b failed =
     (case failed of
        None \<Rightarrow> (b, eb_applied b + 1)
      | Some e \<Rightarrow> (let b1 = degrade b in (b1\<lparr>eb_endpoint := eb_endpoint b1 + 1\<rparr>, eb_applied b1 + 1)))"

definition WATCH_RETRY_INITIAL :: real where
  "WATCH_RETRY_INITIAL = 1 / 4"

definition WATCH_RETRY_MAX :: real where
  "WATCH_RETRY_MAX = 5"

definition next_backoff :: "real \<Rightarrow> real" where
  "next_backoff backoff = min (backoff * 2) WATCH_RETRY_MAX"

subsection \<open>The watch\<close>

text \<open>The batches of one connection. A batch that comes when the backend is closing is left alone.\<close>

primrec stream_loop ::
  "nat \<Rightarrow> (pystr \<Rightarrow> (pystr, json) pydict res) \<Rightarrow> (pystr \<Rightarrow> pystr) \<Rightarrow> nat \<Rightarrow> EtcdBackend \<Rightarrow> unit eproc" where
  "stream_loop 0 loads fl d b = OutOfFuel"
| "stream_loop (Suc n) loads fl d b = NextBatch b (\<lambda>b1 hn r.
     case r of
       Inl e \<Rightarrow> Ended b1 (Inl e)
     | Inr None \<Rightarrow> Ended b1 (Inr ())
     | Inr (Some batch) \<Rightarrow>
         if eb_stopping b1 then Ended b1 (Inr ())
         else (case apply_revision loads fl d hn b1 batch of
                 (b2, Inl e) \<Rightarrow> Ended b2 (Inl e)
               | (b2, Inr _) \<Rightarrow> stream_loop n loads fl d b2))"

text \<open>The member the stream is opened at is \<open>eb_endpoint\<close> modulo their number.\<close>

definition watch_once ::
  "nat \<Rightarrow> (pystr \<Rightarrow> (pystr, json) pydict res) \<Rightarrow> (pystr \<Rightarrow> pystr) \<Rightarrow> nat \<Rightarrow> int \<Rightarrow> EtcdBackend \<Rightarrow> unit eproc" where
  "watch_once n loads fl d start_revision b = OpenStream b start_revision (\<lambda>b1 r.
     case r of
       Inl e \<Rightarrow> Ended b1 (Inl e)
     | Inr _ \<Rightarrow> bind_eproc (watch_opened b1) (\<lambda>b2 _. stream_loop n loads fl d b2))"

text \<open>How a process ended, as a value: an exception is \<open>Some\<close>.\<close>

definition outcome :: "unit eproc \<Rightarrow> py_error option eproc" where
  "outcome p = on_error (bind_eproc p (\<lambda>b _. Ended b (Inr None))) (\<lambda>b e. Ended b (Inr (Some e)))"

text \<open>
  The handler of \<open>EtcdCompacted\<close> rebuilds the view inside the \<open>except\<close> clause, where the clauses
  below it do not reach: what \<open>_resnapshot\<close> raises ends the loop.
\<close>

primrec watch_loop ::
  "nat \<Rightarrow> nat \<Rightarrow> (pystr \<Rightarrow> (pystr, json) pydict res) \<Rightarrow> (pystr \<Rightarrow> pystr) \<Rightarrow> nat \<Rightarrow> (pystr \<Rightarrow> int option) \<Rightarrow> real \<Rightarrow> int \<Rightarrow>
   EtcdBackend \<Rightarrow> unit eproc" where
  "watch_loop 0 n loads fl d whole backoff next_revision b = OutOfFuel"
| "watch_loop (Suc m) n loads fl d whole backoff next_revision b =
     (if eb_stopping b then Ended b (Inr ())
      else bind_eproc (outcome (watch_once n loads fl d next_revision b)) (\<lambda>b1 failed.
        if failed = Some EtcdCompacted
        then bind_eproc (resnapshot n loads fl d whole b1) (\<lambda>b2 revision.
               watch_loop m n loads fl d whole WATCH_RETRY_INITIAL (revision + 1) b2)
        else let (b2, next) = watch_ended b1 failed
             in if eb_stopping b2 then Ended b2 (Inr ())
                else Suspend b2 (\<lambda>b3. watch_loop m n loads fl d whole (next_backoff backoff) next b3)))"

end
