(* ===== verification/Etcd_History.thy ===== *)
theory Etcd_History
  imports Etcd_Mirror
begin

section \<open>Snapshots, resynchronisation and histories\<close>

text \<open>
  A snapshot of etcd is mirrored by the store built from it; the difference of two stores tells a
  subscriber of the one how to come to the other; and after any number of revisions the view is
  what etcd holds.
\<close>

subsection \<open>A snapshot\<close>

lemma take_page_frame: "eb_namespace (fst (take_page loads fl d b kvs)) = eb_namespace b"
proof (induction kvs arbitrary: b)
  case (Cons kv kvs)
  have "eb_namespace (fst (take_pair loads fl d b kv)) = eb_namespace b"
    by (auto simp: take_pair_def Let_def split: sum.splits option.splits)
  then show ?case using Cons.IH by (cases "take_pair loads fl d b kv" rule: prod.exhaust) (auto simp: Let_def split_beta split: sum.splits)
qed simp

lemma take_pair_cases:
  assumes "take_pair loads fl d b kv = (b1, Inr x)"
  shows "eb_namespace b1 = eb_namespace b \<and>
    (case x of None \<Rightarrow> parse_key (eb_namespace b) (kv_key kv) = Inr None
     | Some (k, e) \<Rightarrow> names (eb_namespace b) (kv_key kv) k \<and> decode_envelope fl d (kv_value kv) = Inr e \<and>
         check_envelope loads k e = Inr ())"
  using assms by (auto simp: take_pair_def Let_def names_def bind_res_eq_Inr split: sum.splits option.splits if_splits)

lemma take_page_collects:
  assumes "take_page loads fl d b kvs = (b1, Inr xs)"
  shows "((k, e) \<in> set xs \<longleftrightarrow>
      (\<exists>kv \<in> set kvs. names (eb_namespace b) (kv_key kv) k \<and> decode_envelope fl d (kv_value kv) = Inr e)) \<and>
    ((k, e) \<in> set xs \<longrightarrow> check_envelope loads k e = Inr ())"
  using assms
proof (induction kvs arbitrary: b xs)
  case (Cons kv kvs)
  obtain b2 x where one: "take_pair loads fl d b kv = (b2, Inr x)"
    using Cons.prems by (auto split: prod.splits sum.splits)
  obtain ys where rest: "take_page loads fl d b2 kvs = (b1, Inr ys)" "xs = (case x of None \<Rightarrow> ys | Some y \<Rightarrow> y # ys)"
    using Cons.prems one by (auto simp: Let_def bind_res_eq_Inr split: prod.splits)
  have c: "eb_namespace b2 = eb_namespace b" using take_pair_cases [OF one] by simp
  show ?case
  proof (cases x)
    case None
    then have "\<not> names (eb_namespace b) (kv_key kv) k" using take_pair_cases [OF one] by (simp add: names_def)
    then show ?thesis using Cons.IH [OF rest(1)] rest(2) None c by simp
  next
    case (Some y)
    obtain k' e' where y: "y = (k', e')" by fastforce
    have n: "names (eb_namespace b) (kv_key kv) k'" "decode_envelope fl d (kv_value kv) = Inr e'" "check_envelope loads k' e' = Inr ()"
      using take_pair_cases [OF one] Some y by simp_all
    then have "names (eb_namespace b) (kv_key kv) k \<and> decode_envelope fl d (kv_value kv) = Inr e \<longleftrightarrow> k = k' \<and> e = e'"
      using names_fun by auto
    then show ?thesis using Cons.IH [OF rest(1)] rest(2) Some y c n(3) by auto
  qed
qed simp

lemma apply_all_additions:
  "apply_all loads st xs = Inr st' \<Longrightarrow> \<exists>evs. apply_additions loads st xs = (st', evs, [], Inr ())"
proof (induction xs arbitrary: st)
  case (Cons a xs)
  obtain k e where a: "a = (k, e)" by fastforce
  obtain st1 ev where one: "apply_envelope loads st e = Inr (st1, ev)" "apply_all loads st1 xs = Inr st'"
    using Cons.prems a by (auto elim!: bind_res_InrE)
  then show ?case using Cons.IH [OF one(2)] a by auto
qed simp

lemma apply_envelope_wf:
  assumes "wf_store st" and "apply_envelope loads st e = Inr (st', evs)"
  shows "wf_store st'"
proof -
  obtain raw p result where p: "prepare st (en_type e) raw = Inr (Inr p)"
    and ap: "apply_committed (en_health e) (en_updated e) st p (en_body e)
        (Some (en_created e)) (Some (en_updated e)) (Some (en_health e)) = (st', result)"
    using assms(2) unfolding apply_envelope_def by (auto simp: Let_def elim!: bind_res_InrE split: sum.splits prod.splits)
  have "prepared_ok st p" using prepare_prepared_ok [OF _ p] assms(1) by (simp add: wf_store_def)
  then show ?thesis using apply_committed_effect [OF assms(1) _ ap] by blast
qed

lemma apply_all_wf: "wf_store st \<Longrightarrow> apply_all loads st xs = Inr st' \<Longrightarrow> wf_store st'"
proof (induction xs arbitrary: st)
  case (Cons a xs)
  obtain k e where a: "a = (k, e)" by fastforce
  obtain st1 ev where one: "apply_envelope loads st e = Inr (st1, ev)" "apply_all loads st1 xs = Inr st'"
    using Cons.prems a by (auto elim!: bind_res_InrE)
  then show ?case using Cons.IH [OF _ one(2)] apply_envelope_wf [OF Cons.prems(1) one(1)] by blast
qed simp

lemma shown_new_store: "shown (new_store gc fi) = Map.empty"
  by (rule ext) (simp add: shown_def look_def new_store_def)

text \<open>The pages of a snapshot list the contents.\<close>

definition lists :: "KeyValue list \<Rightarrow> contents \<Rightarrow> bool" where
  "lists kvs E \<longleftrightarrow> (\<forall>k v. E k = Some v \<longleftrightarrow> (\<exists>kv \<in> set kvs. kv_key kv = k \<and> kv_value kv = v))"

lemma build_snapshot_mirrors:
  assumes page: "take_page loads fl d b kvs = (b1, Inr xs)" and lists: "lists kvs E"
    and one: "one_key (eb_namespace b) (dom E)" and run: "build_snapshot loads (new_store gc fi) xs = Inr st"
  shows "wf_store st \<and> mirrors fl d (eb_namespace b) st E"
proof
  let ?ns = "eb_namespace b"
  have all: "apply_all loads (new_store gc fi) (parents_first xs) = Inr st"
    using run by (auto simp: build_snapshot_def bind_res_eq_Inr)
  show "wf_store st" by (rule apply_all_wf [OF wf_new_store all])
  obtain evs where adds: "apply_additions loads (new_store gc fi) (parents_first xs) = (st, evs, [], Inr ())"
    using apply_all_additions [OF all] by blast
  have mem: "(k, e) \<in> set xs \<longleftrightarrow> (\<exists>key v. E key = Some v \<and> names ?ns key k \<and> decode_envelope fl d v = Inr e)" for k e
    using take_page_collects [OF page, of k e] lists unfolding lists_def by auto
  have ck: "\<forall>(k, e) \<in> set (parents_first xs). check_envelope loads k e = Inr ()"
    using take_page_collects [OF page] by auto
  have once: "k = k' \<and> e = e'" if x: "(k, e) \<in> set (parents_first xs)" "(k', e') \<in> set (parents_first xs)" "pk_id k = pk_id k'" for k e k' e'
  proof -
    obtain key v key' v' where h: "E key = Some v" "names ?ns key k" "decode_envelope fl d v = Inr e"
        "E key' = Some v'" "names ?ns key' k'" "decode_envelope fl d v' = Inr e'"
      using x(1,2) mem by (auto simp: set_parents_first)
    then have "key = key'" using one x(3) unfolding one_key_def by blast
    then show ?thesis using h names_fun by fastforce
  qed
  have wf: "wf_buckets (new_store gc fi)" using wf_new_store by (simp add: wf_store_def wf_graph_def)
  note sh = apply_additions_shown [OF wf ck adds once]
  show "mirrors fl d ?ns st E"
    unfolding mirrors_def
  proof (intro allI iffI)
    fix i rt bd assume s: "shown st i = Some (rt, bd)"
    then obtain k e where ke: "(k, e) \<in> set xs" "pk_id k = i"
      using conjunct2 [OF sh] shown_new_store [of gc fi] by (fastforce simp: set_parents_first)
    then have "shown st i = Some (pk_type k, en_body e)" using conjunct1 [OF sh] by (auto simp: set_parents_first)
    then show "held fl d ?ns E i rt bd" using ke mem s unfolding held_def by auto
  next
    fix i rt bd assume "held fl d ?ns E i rt bd"
    then obtain key v k e where h: "E key = Some v" "names ?ns key k" "pk_id k = i" "pk_type k = rt"
        "decode_envelope fl d v = Inr e" "en_body e = bd" unfolding held_def by blast
    then have "(k, e) \<in> set (parents_first xs)" using mem by (auto simp: set_parents_first)
    with conjunct1 [OF sh] have "shown st (pk_id k) = Some (pk_type k, en_body e)" by auto
    then show "shown st i = Some (rt, bd)" using h by simp
  qed
qed

subsection \<open>The difference of two stores\<close>

text \<open>
  Two views agree at an id when both show nothing, or a resource of the same type whose data
  Python finds equal. The difference does not tell texts apart that hold the same data.
\<close>

definition same_data ::
  "(pystr \<Rightarrow> (pystr, json) pydict res) \<Rightarrow> (pystr \<Rightarrow> int option) \<Rightarrow> (ResourceType \<times> Body) option \<Rightarrow>
   (ResourceType \<times> Body) option \<Rightarrow> bool" where
  "same_data loads whole x y \<longleftrightarrow>
     x = y \<or> (\<exists>t a b old new. x = Some (t, a) \<and> y = Some (t, b) \<and> body_data loads a = Inr old \<and>
               body_data loads b = Inr new \<and> py_eq whole (JObj old) (JObj new))"

lemma by_res_id_distinct:
  assumes "distinct (map res_id rs)"
  shows "by_res_id rs = map (\<lambda>r. (res_id r, r)) rs"
proof -
  have "foldl (\<lambda>d r. dset (res_id r) r d) d rs = d @ map (\<lambda>r. (res_id r, r)) rs"
    if "distinct (dkeys d @ map res_id rs)" for d
    using that by (induction rs arbitrary: d) (auto simp: dset_new)
  from this [of "[]"] show ?thesis using assms by (simp add: by_res_id_def)
qed

lemma by_res_id_extant:
  assumes wf: "wf_buckets st"
  shows "wf_dict (by_res_id (iter_extant st rt)) \<and>
    (dget (by_res_id (iter_extant st rt)) i = Some r \<longleftrightarrow> look st i = Some r \<and> resource_type r = rt \<and> extant r)"
proof -
  have eq: "by_res_id (iter_extant st rt) = map (\<lambda>r. (res_id r, r)) (iter_extant st rt)"
      "wf_dict (by_res_id (iter_extant st rt))"
    using extant_ids_distinct [OF wf] by_res_id_distinct [of "iter_extant st rt"] by (simp_all add: wf_dict_def comp_def)
  have "(i, r) \<in> set (by_res_id (iter_extant st rt)) \<longleftrightarrow> look st i = Some r \<and> resource_type r = rt \<and> extant r"
  proof -
    have "(i, r) \<in> set (by_res_id (iter_extant st rt)) \<longleftrightarrow> r \<in> set (iter_extant st rt) \<and> i = res_id r"
      unfolding eq(1) by auto
    also have "r \<in> set (iter_extant st rt) \<longleftrightarrow> extant r \<and> (\<exists>j. (j, r) \<in> set (by_type st rt))"
      by (auto simp: iter_extant_def image_iff) force
    finally show ?thesis using bucket_member [OF wf] look_id [OF wf] by blast
  qed
  then show ?thesis using eq(2) dget_in_set by metis
qed

lemma diff_after_follows:
  assumes "distinct (map fst rs)" and "diff_after loads whole before rs = Inr evs"
    and "\<And>i r. (i, r) \<in> set rs \<Longrightarrow> res_id r = i \<and> resource_type r = rt \<and> f i = map_option (\<lambda>w. (rt, body w)) (dget before i)"
  shows "\<exists>g. follows f evs g \<and> (\<forall>(i, r) \<in> set rs. same_data loads whole (g i) (Some (rt, body r))) \<and>
    (\<forall>i. i \<notin> fst ` set rs \<longrightarrow> g i = f i)"
  using assms
proof (induction rs arbitrary: f evs)
  case (Cons x rs)
  obtain i r where x: "x = (i, r)" by fastforce
  have r: "res_id r = i" "resource_type r = rt" "f i = map_option (\<lambda>w. (rt, body w)) (dget before i)"
    using Cons.prems(3) [of i r] x by simp_all
  have out: "i \<notin> fst ` set rs" and dist: "distinct (map fst rs)" using Cons.prems(1) x by auto
  obtain rest where rest: "diff_after loads whole before rs = Inr rest"
    using Cons.prems(2) x by (auto elim!: bind_res_InrE split: option.splits)
  show ?case
  proof (cases "evs = rest")
    case True
    obtain g where g: "follows f rest g" "\<forall>(i, r) \<in> set rs. same_data loads whole (g i) (Some (rt, body r))"
        "\<forall>i. i \<notin> fst ` set rs \<longrightarrow> g i = f i"
      using Cons.IH [OF dist rest, of f] Cons.prems(3) by (meson list.set_intros(2))
    have "same_data loads whole (f i) (Some (rt, body r))"
      using Cons.prems(2) x rest True r
      by (auto simp: same_data_def elim!: bind_res_InrE split: option.splits if_splits)
    then show ?thesis using g True out x by (intro exI [of _ g]) auto
  next
    case False
    let ?f = "f(i \<mapsto> (rt, body r))"
    obtain ev where ev: "evs = ev # rest" "ev_id ev = i" "ev_type ev = rt" "ev_post ev = Some (body r)"
        "f i = map_option (Pair rt) (ev_pre ev)"
      using Cons.prems(2) x rest False r
      by (auto simp: ev_added_def ev_modified_def elim!: bind_res_InrE split: option.splits if_splits)
    have keep: "res_id q = j \<and> resource_type q = rt \<and> ?f j = map_option (\<lambda>w. (rt, body w)) (dget before j)" if "(j, q) \<in> set rs" for j q
      using Cons.prems(3) [of j q] that out by force
    obtain g where g: "follows ?f rest g" "\<forall>(i, r) \<in> set rs. same_data loads whole (g i) (Some (rt, body r))"
        "\<forall>i. i \<notin> fst ` set rs \<longrightarrow> g i = ?f i"
      using Cons.IH [OF dist rest, of ?f] keep by blast
    have "g i = Some (rt, body r)" using g(3) out by simp
    then have "same_data loads whole (g i) (Some (rt, body r))" by (simp add: same_data_def)
    then show ?thesis using g ev x by (intro exI [of _ g]) auto
  qed
qed auto

text \<open>The ids one type is about, in either store.\<close>

definition of_type :: "shown \<Rightarrow> shown \<Rightarrow> ResourceType \<Rightarrow> pystr set" where
  "of_type f g rt = {i. \<exists>b. f i = Some (rt, b) \<or> g i = Some (rt, b)}"

lemma diff_type_follows:
  assumes wf: "wf_buckets prev" "wf_buckets cur" and run: "diff_type loads whole prev cur rt = Inr evs"
    and f: "\<And>i. i \<in> of_type (shown prev) (shown cur) rt \<Longrightarrow> f i = shown prev i"
    and same: "\<forall>i t t' b b'. shown prev i = Some (t, b) \<and> shown cur i = Some (t', b') \<longrightarrow> t = t'"
  shows "\<exists>g. follows f evs g \<and>
    (\<forall>i \<in> of_type (shown prev) (shown cur) rt. same_data loads whole (g i) (shown cur i)) \<and>
    (\<forall>i. i \<notin> of_type (shown prev) (shown cur) rt \<longrightarrow> g i = f i)"
proof -
  define before where "before = by_res_id (iter_extant prev rt)"
  define aft where "aft = by_res_id (iter_extant cur rt)"
  have b: "wf_dict before" "\<And>i r. dget before i = Some r \<longleftrightarrow> look prev i = Some r \<and> resource_type r = rt \<and> extant r"
    using by_res_id_extant [OF wf(1)] unfolding before_def by blast+
  have a: "wf_dict aft" "\<And>i r. dget aft i = Some r \<longleftrightarrow> look cur i = Some r \<and> resource_type r = rt \<and> extant r"
    using by_res_id_extant [OF wf(2)] unfolding aft_def by blast+
  have sb: "shown prev i = Some (rt, c) \<longleftrightarrow> (\<exists>r. dget before i = Some r \<and> body r = c)" for i c
    unfolding b(2) by (auto simp: shown_def split: option.splits)
  have sa: "shown cur i = Some (rt, c) \<longleftrightarrow> (\<exists>r. dget aft i = Some r \<and> body r = c)" for i c
    unfolding a(2) by (auto simp: shown_def split: option.splits)
  obtain upd where upd: "diff_after loads whole before aft = Inr upd"
      "evs = upd @ map (\<lambda>(i, r). ev_removed r) (filter (\<lambda>(i, r). dget aft i = None) before)"
    using run unfolding diff_type_def Let_def before_def [symmetric] aft_def [symmetric] by (auto elim!: bind_res_InrE)
  have "res_id r = i \<and> resource_type r = rt \<and> f i = map_option (\<lambda>w. (rt, body w)) (dget before i)" if ir: "(i, r) \<in> set aft" for i r
  proof -
    have r: "dget aft i = Some r" using dget_in_set [OF a(1)] ir by blast
    then have now: "shown cur i = Some (rt, body r)" using sa by blast
    moreover from this have "f i = shown prev i" by (intro f) (auto simp: of_type_def)
    moreover have "shown prev i = map_option (\<lambda>w. (rt, body w)) (dget before i)"
    proof (cases "shown prev i")
      case None
      then show ?thesis using sb [of i] by (cases "dget before i") auto
    next
      case (Some y)
      then obtain c where "shown prev i = Some (rt, c)" using same now by (metis prod.collapse)
      then show ?thesis using sb by fastforce
    qed
    ultimately show ?thesis using r a(2) look_id [OF wf(2)] by auto
  qed
  then obtain g where g: "follows f upd g" "\<forall>(i, r) \<in> set aft. same_data loads whole (g i) (Some (rt, body r))"
      "\<forall>i. i \<notin> fst ` set aft \<longrightarrow> g i = f i"
    using diff_after_follows [OF _ upd(1), of rt f] a(1) unfolding wf_dict_def by auto
  let ?gone = "filter (\<lambda>(i, r). dget aft i = None) before" and ?rm = "\<lambda>(i :: pystr, r). ev_removed r"
  have gone: "dget aft i = None \<and> res_id r = i \<and> shown prev i = Some (rt, body r) \<and> resource_type r = rt" if "(i, r) \<in> set ?gone" for i r
    using that dget_in_set [OF b(1)] b(2) sb look_id [OF wf(1)] by auto
  have ids: "map ev_id (map ?rm ?gone) = map fst ?gone"
    unfolding map_map
  proof (rule map_cong [OF refl])
    fix x assume x: "x \<in> set ?gone"
    obtain i r where "x = (i, r)" by fastforce
    then show "(ev_id \<circ> ?rm) x = fst x" using gone [of i r] x by simp
  qed
  have "distinct (map ev_id (map ?rm ?gone))" unfolding ids using b(1) by (simp add: wf_dict_def distinct_map_filter)
  moreover have "g (ev_id e) = map_option (Pair (ev_type e)) (ev_pre e) \<and> ev_post e = None" if e: "e \<in> set (map ?rm ?gone)" for e
  proof -
    obtain i r where ir: "(i, r) \<in> set ?gone" "e = ev_removed r" using e by auto
    note q = gone [OF ir(1)]
    have "i \<notin> fst ` set aft" using q dget_None_keys [of aft i] by simp
    then have "g i = f i" using g(3) by blast
    also have "f i = shown prev i" using q by (intro f) (auto simp: of_type_def)
    finally show ?thesis using q ir(2) by simp
  qed
  ultimately have rm: "follows g (map ?rm ?gone) (\<lambda>j. if j \<in> ev_id ` set (map ?rm ?gone) then None else g j)"
    by (rule follows_removals)
  let ?h = "\<lambda>j. if j \<in> ev_id ` set (map ?rm ?gone) then None else g j"
  have gi: "j \<in> ev_id ` set (map ?rm ?gone) \<longleftrightarrow> (\<exists>r. dget before j = Some r) \<and> dget aft j = None" for j
  proof -
    have "j \<in> ev_id ` set (map ?rm ?gone) \<longleftrightarrow> j \<in> fst ` set ?gone" using ids by (metis list.set_map)
    also have "j \<in> fst ` set ?gone \<longleftrightarrow> (\<exists>r. (j, r) \<in> set before) \<and> dget aft j = None" by (auto simp: image_iff)
    finally show ?thesis using dget_in_set [OF b(1)] by simp
  qed
  have ina: "j \<in> fst ` set aft \<longleftrightarrow> dget aft j \<noteq> None" for j using dget_None_keys [of aft j] by auto
  have "same_data loads whole (?h i) (shown cur i)" if i: "i \<in> of_type (shown prev) (shown cur) rt" for i
  proof (cases "dget aft i")
    case None
    then have no: "\<nexists>c. shown cur i = Some (rt, c)" using sa by simp
    then obtain c where c: "shown prev i = Some (rt, c)" using i by (auto simp: of_type_def)
    then have "shown cur i = None" using same c no by (cases "shown cur i") auto
    moreover have "\<exists>r. dget before i = Some r" using c sb by blast
    ultimately show ?thesis using gi [of i] None by (simp add: same_data_def)
  next
    case (Some r)
    then have "(i, r) \<in> set aft" "shown cur i = Some (rt, body r)" using dget_in_set [OF a(1)] sa by blast+
    then show ?thesis using g(2) gi [of i] Some by auto
  qed
  moreover have "?h i = f i" if i: "i \<notin> of_type (shown prev) (shown cur) rt" for i
  proof -
    have "dget before i = None" "dget aft i = None" using i sb sa by (auto simp: of_type_def) (metis option.exhaust)+
    then show ?thesis using gi [of i] g(3) ina by simp
  qed
  ultimately show ?thesis using follows_append [OF g(1) rm] upd(2) by (intro exI [of _ ?h]) auto
qed

lemma diff_types_follows:
  assumes wf: "wf_buckets prev" "wf_buckets cur"
    and same: "\<forall>i t t' b b'. shown prev i = Some (t, b) \<and> shown cur i = Some (t', b') \<longrightarrow> t = t'"
    and "distinct rts" and "diff_types loads whole prev cur rts = Inr evs"
    and "\<And>i rt. rt \<in> set rts \<Longrightarrow> i \<in> of_type (shown prev) (shown cur) rt \<Longrightarrow> f i = shown prev i"
  shows "\<exists>g. follows f evs g \<and>
    (\<forall>i. (\<exists>rt \<in> set rts. i \<in> of_type (shown prev) (shown cur) rt) \<longrightarrow> same_data loads whole (g i) (shown cur i)) \<and>
    (\<forall>i. (\<forall>rt \<in> set rts. i \<notin> of_type (shown prev) (shown cur) rt) \<longrightarrow> g i = f i)"
  using assms(4-)
proof (induction rts arbitrary: f evs)
  case (Cons rt rts)
  let ?T = "of_type (shown prev) (shown cur)"
  obtain e1 e2 where e: "diff_type loads whole prev cur rt = Inr e1" "diff_types loads whole prev cur rts = Inr e2" "evs = e1 @ e2"
    using Cons.prems(2) by (auto elim!: bind_res_InrE)
  have apart: "i \<notin> ?T rt" if "i \<in> ?T rt'" "rt' \<in> set rts" for i rt'
  proof
    assume "i \<in> ?T rt"
    then have "rt = rt'" using that(1) same unfolding of_type_def by fastforce
    then show False using that(2) Cons.prems(1) by simp
  qed
  have at: "f i = shown prev i" if "i \<in> ?T rt" for i using Cons.prems(3) [of rt i] that by simp
  obtain h where h: "follows f e1 h" "\<forall>i \<in> ?T rt. same_data loads whole (h i) (shown cur i)" "\<forall>i. i \<notin> ?T rt \<longrightarrow> h i = f i"
    using diff_type_follows [OF wf e(1) at same] by blast
  have "h i = shown prev i" if "rt' \<in> set rts" "i \<in> ?T rt'" for rt' i
    using h(3) apart [OF that(2,1)] Cons.prems(3) [of rt' i] that by simp
  then obtain g where g: "follows h e2 g"
      "\<forall>i. (\<exists>rt \<in> set rts. i \<in> ?T rt) \<longrightarrow> same_data loads whole (g i) (shown cur i)"
      "\<forall>i. (\<forall>rt \<in> set rts. i \<notin> ?T rt) \<longrightarrow> g i = h i"
    using Cons.IH [OF _ e(2), of h] Cons.prems(1) by auto
  have "same_data loads whole (g i) (shown cur i)" if "\<exists>t \<in> set (rt # rts). i \<in> ?T t" for i
  proof (cases "\<exists>t \<in> set rts. i \<in> ?T t")
    case False
    then show ?thesis using that g(3) h(2) by auto
  qed (use g(2) in blast)
  moreover have "g i = f i" if "\<forall>t \<in> set (rt # rts). i \<notin> ?T t" for i using that g(3) h(3) by simp
  ultimately show ?case using follows_append [OF h(1) g(1)] e(3) by blast
qed auto

text \<open>
  C28: after a compaction the subscribers are told how the old view became the new one. When no id
  changed its type, the events computed from the two stores are a story of the old view that ends
  where the new one is, up to the spelling of equal data: every event's earlier content is what a
  subscriber holds at that moment, nothing is missing and nothing is told twice.
\<close>

theorem resnapshot_tells_the_difference:
  assumes "wf_buckets prev" and "wf_buckets cur"
    and "\<forall>i t t' b b'. shown prev i = Some (t, b) \<and> shown cur i = Some (t', b') \<longrightarrow> t = t'"
    and "diff_stores loads whole prev cur = Inr evs"
  shows "\<exists>g. follows (shown prev) evs g \<and> (\<forall>i. same_data loads whole (g i) (shown cur i))"
proof -
  let ?T = "of_type (shown prev) (shown cur)"
  obtain g where g: "follows (shown prev) evs g"
      "\<forall>i. (\<exists>rt \<in> set resource_types. i \<in> ?T rt) \<longrightarrow> same_data loads whole (g i) (shown cur i)"
      "\<forall>i. (\<forall>rt \<in> set resource_types. i \<notin> ?T rt) \<longrightarrow> g i = shown prev i"
    using diff_types_follows [OF assms(1-3) distinct_resource_types assms(4) [unfolded diff_stores_def], of "shown prev"]
    by blast
  have "same_data loads whole (g i) (shown cur i)" for i
  proof (cases "\<exists>rt. i \<in> ?T rt")
    case False
    then have "shown prev i = None" "shown cur i = None"
      by (auto simp: of_type_def) (metis option.exhaust prod.exhaust)+
    then show ?thesis using g(3) False by (simp add: same_data_def)
  qed (use g(2) resource_types_complete in blast)
  then show ?thesis using g(1) by blast
qed

subsection \<open>Histories\<close>

text \<open>The batches a connection delivers, applied until one raises; \<open>hn\<close> is the clock.\<close>

fun apply_revisions ::
  "(pystr \<Rightarrow> (pystr, json) pydict res) \<Rightarrow> (pystr \<Rightarrow> pystr) \<Rightarrow> nat \<Rightarrow> (pystr \<Rightarrow> int) \<Rightarrow> EtcdBackend \<Rightarrow>
   RevisionBatch list \<Rightarrow> EtcdBackend \<times> unit res" where
  "apply_revisions loads fl d hn b [] = (b, Inr ())"
| "apply_revisions loads fl d hn b (x # xs) =
     (case apply_revision loads fl d hn b x of
        (b', Inl e) \<Rightarrow> (b', Inl e)
      | (b', Inr _) \<Rightarrow> apply_revisions loads fl d hn (run_scheduled b') xs)"

fun good_history ::
  "(pystr \<Rightarrow> (pystr, json) pydict res) \<Rightarrow> (pystr \<Rightarrow> pystr) \<Rightarrow> nat \<Rightarrow> Namespace \<Rightarrow> contents \<Rightarrow> RevisionBatch list \<Rightarrow> bool" where
  "good_history loads fl d ns E [] \<longleftrightarrow> True"
| "good_history loads fl d ns E (x # xs) \<longleftrightarrow>
     good_events loads fl d ns E (rb_events x) \<and> good_history loads fl d ns (after_events E (rb_events x)) xs"

fun contents_after :: "contents \<Rightarrow> RevisionBatch list \<Rightarrow> contents" where
  "contents_after E [] = E"
| "contents_after E (x # xs) = contents_after (after_events E (rb_events x)) xs"

fun all_refused ::
  "(pystr \<Rightarrow> (pystr, json) pydict res) \<Rightarrow> (pystr \<Rightarrow> pystr) \<Rightarrow> nat \<Rightarrow> (pystr \<Rightarrow> int) \<Rightarrow> EtcdBackend \<Rightarrow> RevisionBatch list \<Rightarrow> pystr list" where
  "all_refused loads fl d hn b [] = []"
| "all_refused loads fl d hn b (x # xs) =
     refused_ids loads fl d hn b x @ all_refused loads fl d hn (run_scheduled (fst (apply_revision loads fl d hn b x))) xs"

lemma run_scheduled_frame [simp]:
  "eb_registry (run_scheduled b) = eb_registry b" "eb_namespace (run_scheduled b) = eb_namespace b"
  "eb_store (run_scheduled b) = eb_store b" "eb_state (run_scheduled b) = eb_state b"
  by (simp_all add: run_scheduled_def advance_fence_def eb_store_def split: list.split)

lemma apply_revisions_mirror:
  assumes "wf_buckets (eb_store b)" and "mirrors fl d (eb_namespace b) (eb_store b) E"
    and "good_history loads fl d (eb_namespace b) E xs" and "apply_revisions loads fl d hn b xs = (b', Inr ())"
    and "all_refused loads fl d hn b xs = []"
  shows "wf_buckets (eb_store b') \<and> mirrors fl d (eb_namespace b) (eb_store b') (contents_after E xs) \<and>
    eb_state b' = eb_state b"
  using assms
proof (induction xs arbitrary: b E)
  case (Cons x xs)
  obtain b1 where one: "apply_revision loads fl d hn b x = (b1, Inr ())" "apply_revisions loads fl d hn (run_scheduled b1) xs = (b', Inr ())"
    using Cons.prems(4) by (auto split: prod.splits sum.splits)
  note p = apply_revision_publishes [OF Cons.prems(1) one(1)]
  have "mirrors fl d (eb_namespace b) (eb_store b1) (after_events E (rb_events x))"
    using apply_revision_mirrors [OF Cons.prems(1,2) _ one(1)] Cons.prems(3,5) by simp
  then show ?case
    using Cons.IH [of "run_scheduled b1" "after_events E (rb_events x)"] Cons.prems(3,5) one p by simp
qed simp


definition demo_body :: Body where
  "demo_body = \<lparr>body_text = str ''{\"id\":\"n\",\"version\":\"1:0\"}'',
     parsed = Some [(str ''id'', JStr (str ''n'')), (str ''version'', JStr (str ''1:0''))]\<rparr>"

definition demo_node :: Envelope where
  "demo_node = \<lparr>en_version = 1, en_type = NODE, en_body = demo_body,
     en_created = TaiCursor 3 4, en_updated = TaiCursor 5 6, en_health = 7\<rparr>"

definition node_n :: ParsedKey where
  "node_n = \<lparr>pk_type = NODE, pk_id = str ''n'', pk_node = str ''n'', pk_device = None\<rparr>"

definition demo_node_key :: bytes where
  "demo_node_key = map of_nat (str ''/r/nodes/n/self'')"

definition demo_backend :: EtcdBackend where
  "demo_backend = new_etcd_backend (new_registry (new_store 12 12) [])
     \<lparr>ec_external = False, ec_members = [], ec_timeout = 5\<rparr> demo_ns True"

definition demo_put :: "bytes \<Rightarrow> RevisionBatch" where
  "demo_put v = \<lparr>rb_revision = 9, rb_events =
     [\<lparr>ke_delete = False, ke_kv = \<lparr>kv_key = demo_node_key, kv_value = v, kv_mod = 9, kv_lease = 5\<rparr>\<rparr>]\<rparr>"

lemma demo_node_parses: "parse_key demo_ns demo_node_key = Inr (Some node_n)"
proof (rule key_parses)
  show "wf_key node_n" by (simp add: wf_key_def node_n_def str_def)
  show "key_of demo_ns node_n = Inr demo_node_key"
    by (simp add: key_of_def node_n_def demo_ns_def node_key_def demo_node_key_def path_text_def str_def utf8_encode_def utf8_char_def)
qed

lemma demo_node_decodes: "\<exists>v. encode_envelope demo_node = Inr v \<and> decode_envelope id 3 v = Inr demo_node"
proof (rule envelope_decodes)
  show "body_ok id 3 (en_body demo_node)"
    by (simp add: body_ok_def demo_node_def demo_body_def scan_eval cong: bind_res_weak_cong)
  show "list_all valid_char (body_text (en_body demo_node))"
    by (simp add: demo_node_def demo_body_def str_def valid_char_def)
qed (simp_all add: demo_node_def ENVELOPE_VERSION_def int_fits_def cursor_fits_def two_pow_small)

lemma demo_node_checked: "check_envelope loads node_n demo_node = Inr ()"
  by (simp add: check_envelope_def node_n_def demo_node_def demo_body_def body_data_def)

lemma demo_node_applies:
  "apply_envelope loads (new_store 12 12) demo_node = Inr (st, evs) \<Longrightarrow> shown st = [str ''n'' \<mapsto> (NODE, demo_body)]"
  "\<exists>st evs. apply_envelope loads (new_store 12 12) demo_node = Inr (st, evs)"
proof -
  have wf: "wf_buckets (new_store 12 12)" using wf_new_store by (simp add: wf_store_def wf_graph_def)
  show "apply_envelope loads (new_store 12 12) demo_node = Inr (st, evs) \<Longrightarrow> shown st = [str ''n'' \<mapsto> (NODE, demo_body)]"
    using apply_envelope_effect [OF wf _ demo_node_checked] by (auto simp: shown_new_store node_n_def demo_node_def)
  show "\<exists>st evs. apply_envelope loads (new_store 12 12) demo_node = Inr (st, evs)"
    by (simp add: apply_envelope_def demo_node_def demo_body_def body_data_def prepare_def new_store_def
        check_parent_def parent_id_of_def Let_def str_def split_beta)
qed

lemma demo_put_applied:
  assumes "decode_envelope id 3 v = Inr demo_node"
  shows "\<exists>b'. apply_revisions loads id 3 hn demo_backend [demo_put v] = (b', Inr ()) \<and>
    shown (eb_store b') = [str ''n'' \<mapsto> (NODE, demo_body)] \<and> all_refused loads id 3 hn demo_backend [demo_put v] = []"
proof -
  have note1: "snd (note_events loads id 3 demo_backend (rb_events (demo_put v))) = Inr [Addition node_n demo_node]"
    using assms demo_node_parses demo_node_checked
    by (simp add: demo_put_def note_event_def Let_def demo_backend_def new_etcd_backend_def)
  then obtain b1 where b1: "note_events loads id 3 demo_backend (rb_events (demo_put v)) = (b1, Inr [Addition node_n demo_node])"
    by (metis prod.collapse)
  then have rg: "eb_registry b1 = new_registry (new_store 12 12) []"
    using note_events_frame [of loads id 3 demo_backend "rb_events (demo_put v)"] by (simp add: demo_backend_def new_etcd_backend_def)
  obtain st evs where st: "apply_envelope loads (new_store 12 12) demo_node = Inr (st, evs)" using demo_node_applies(2) by blast
  have "apply_changes loads hn (eb_store b1) [Addition node_n demo_node] = (st, Inr (evs, []))"
    using st rg by (simp add: apply_changes_def additions_def removals_def map_filter_simps parents_first_def
        descendants_first_def eb_store_def new_registry_def)
  moreover have "reg_publish loads (eb_registry (put_store b1 st)) evs = (eb_registry (put_store b1 st), Inr ())"
    using rg by (simp add: reg_publish_def put_store_def new_registry_def)
  ultimately have "\<exists>b2. apply_revision loads id 3 hn demo_backend (demo_put v) = (b2, Inr ()) \<and> eb_store b2 = st \<and>
      refused_ids loads id 3 hn demo_backend (demo_put v) = []"
    using b1 rg
    by (simp add: apply_revision_def refused_ids_def progress_only_def eb_store_def put_store_def schedule_advance_def new_registry_def)
       (simp add: demo_put_def)
  then show ?thesis using demo_node_applies(1) [OF st] by auto
qed


subsection \<open>What is left out\<close>

text \<open>
  A value that cannot be read is passed over and the fence advances: the view goes on without the
  resource. The header of the module promises the opposite, that none is skipped and the previous
  view keeps serving.
\<close>

lemma damaged_value_is_skipped:
  "apply_revision loads id 3 hn demo_backend (demo_put []) =
     (schedule_advance 9 (demo_backend\<lparr>eb_revisions := [demo_node_key \<mapsto> 9], eb_leases := [str ''n'' \<mapsto> 5]\<rparr>), Inr ())"
proof -
  have "utf8_decode [] = Inr []" by (simp add: utf8_decode_def)
  then have "decode_envelope id 3 [] = Inl Key_Error"
    by (simp add: decode_envelope_def envelope_members_def scan_eval cong: bind_res_weak_cong)
  then have "note_events loads id 3 demo_backend (rb_events (demo_put [])) =
      (demo_backend\<lparr>eb_revisions := [demo_node_key \<mapsto> 9], eb_leases := [str ''n'' \<mapsto> 5]\<rparr>, Inr [])"
    using demo_node_parses
    by (simp add: demo_put_def note_event_def Let_def demo_backend_def new_etcd_backend_def) (simp add: node_n_def is_node_def)
  moreover have "rb_events (demo_put []) \<noteq> []" "rb_revision (demo_put []) = 9" by (simp_all add: demo_put_def)
  ultimately show ?thesis
    by (simp add: apply_revision_def progress_only_def apply_changes_def additions_def removals_def map_filter_simps
        parents_first_def descendants_first_def put_store_def eb_store_def reg_publish_def demo_backend_def
        new_etcd_backend_def new_registry_def)
qed

text \<open>
  Members forget tombstones at their own times, and a member that read a snapshot never had them.
  A member that still remembers a deleted id refuses it under another type, where a member that has
  forgotten it accepts; both started from the same view, and etcd holds the resource.
\<close>

definition remembering :: RegistryStore where
  "remembering = (let r = \<lparr>resource_type = DEVICE, res_id = str ''n'', body = demo_body, version = [],
       created = TaiCursor 0 0, updated = TaiCursor 0 0, parent_id = None, extant = False, health = 0\<rparr>
     in (new_store 12 12)\<lparr>by_type := (\<lambda>_. [])(DEVICE := [(str ''n'', r)]), type_of := [str ''n'' \<mapsto> DEVICE]\<rparr>)"

lemma tombstones_divide_members:
  "shown remembering = shown (new_store 12 12) \<and>
   apply_additions loads remembering [(node_n, demo_node)] = (remembering, [], [str ''n''], Inr ()) \<and>
   (\<exists>st evs. apply_additions loads (new_store 12 12) [(node_n, demo_node)] = (st, evs, [], Inr ()) \<and>
      shown st = [str ''n'' \<mapsto> (NODE, demo_body)])"
proof (intro conjI)
  show "shown remembering = shown (new_store 12 12)"
    unfolding shown_new_store by (rule ext) (simp add: remembering_def shown_def look_def Let_def)
  show "apply_additions loads remembering [(node_n, demo_node)] = (remembering, [], [str ''n''], Inr ())"
    by (simp add: apply_envelope_def demo_node_def demo_body_def body_data_def prepare_def remembering_def node_n_def
        Let_def str_def)
  obtain st evs where st: "apply_envelope loads (new_store 12 12) demo_node = Inr (st, evs)" using demo_node_applies(2) by blast
  then show "\<exists>st evs. apply_additions loads (new_store 12 12) [(node_n, demo_node)] = (st, evs, [], Inr ()) \<and>
      shown st = [str ''n'' \<mapsto> (NODE, demo_body)]"
    using demo_node_applies(1) [OF st] by simp
qed

subsection \<open>The difference at a store\<close>

lemma diff_from_nothing: "\<exists>evs. diff_stores loads whole (new_store gc fi) st = Inr evs"
proof -
  have "diff_after loads whole [] rs = Inr (map (\<lambda>(i, r). ev_added r) rs)" for rs
    by (induction rs) auto
  then have "diff_type loads whole (new_store gc fi) st rt =
      Inr (map (\<lambda>(i, r). ev_added r) (by_res_id (iter_extant st rt)))" for rt
    by (simp add: diff_type_def iter_extant_def new_store_def by_res_id_def)
  then have "\<exists>evs. diff_types loads whole (new_store gc fi) st rts = Inr evs" for rts
    by (induction rts) auto
  then show ?thesis by (simp add: diff_stores_def)
qed

theorem resnapshot_tells_the_difference_witness:
  "\<exists>st evs g. diff_stores (\<lambda>_. Inl ValueError) (\<lambda>_. None) (new_store 12 12) st = Inr evs \<and>
     shown st = [str ''n'' \<mapsto> (NODE, demo_body)] \<and> follows (shown (new_store 12 12)) evs g \<and>
     (\<forall>i. same_data (\<lambda>_. Inl ValueError) (\<lambda>_. None) (g i) (shown st i))"
proof -
  let ?l = "\<lambda>_. Inl ValueError" and ?w = "\<lambda>_. None"
  obtain st evs0 where st: "apply_envelope ?l (new_store 12 12) demo_node = Inr (st, evs0)" using demo_node_applies(2) by blast
  have wf: "wf_buckets (new_store 12 12)" using wf_new_store by (simp add: wf_store_def wf_graph_def)
  moreover from this have "wf_buckets st" using apply_envelope_effect [OF _ st demo_node_checked] by blast
  moreover obtain evs where evs: "diff_stores ?l ?w (new_store 12 12) st = Inr evs" using diff_from_nothing by blast
  ultimately obtain g where "follows (shown (new_store 12 12)) evs g" "\<forall>i. same_data ?l ?w (g i) (shown st i)"
    using resnapshot_tells_the_difference [of "new_store 12 12" st ?l ?w evs] by (auto simp: shown_new_store)
  then show ?thesis using evs demo_node_applies(1) [OF st] by blast
qed

end
