(* ===== verification/Etcd_Properties.thy ===== *)
theory Etcd_Properties
  imports Etcd_Backend Etcd_History Store_Properties
begin

section \<open>What the backend over etcd promises\<close>

text \<open>
  The runs of a process: what it asked, with the backend it handed over, and what it was given
  back, until it ends. Every answer and every backend is a possible one, so what holds of all runs
  holds whatever etcd answers and whatever the watch and other requests do meanwhile.
\<close>

datatype etcd_event =
    Txned EtcdBackend "Compare list" "RequestOp list" EtcdBackend "TxnResult res"
  | Ranged EtcdBackend RangeRequest EtcdBackend "RangeResult res"
  | Granted EtcdBackend int EtcdBackend "int res"
  | KeptAlive EtcdBackend int EtcdBackend "int res"
  | Fenced EtcdBackend int EtcdBackend bool
  | Opened EtcdBackend int EtcdBackend "unit res"
  | Batched EtcdBackend EtcdBackend "pystr \<Rightarrow> int" "RevisionBatch option res"
  | Suspended EtcdBackend EtcdBackend
  | LoopTimed real
  | HealthRead int
  | TaiRead TaiCursor

datatype 'r finish = Finished EtcdBackend "'r res" | Starved

inductive runs :: "'r eproc \<Rightarrow> etcd_event list \<Rightarrow> 'r finish \<Rightarrow> bool" where
  "runs (Ended b r) [] (Finished b r)"
| "runs OutOfFuel [] Starved"
| "runs (k b' r) tr out \<Longrightarrow> runs (AskTxn b cs ops k) (Txned b cs ops b' r # tr) out"
| "runs (k b' r) tr out \<Longrightarrow> runs (AskRange b q k) (Ranged b q b' r # tr) out"
| "runs (k b' r) tr out \<Longrightarrow> runs (AskGrant b ttl k) (Granted b ttl b' r # tr) out"
| "runs (k b' r) tr out \<Longrightarrow> runs (AskKeepalive b l k) (KeptAlive b l b' r # tr) out"
| "runs (k b' ok) tr out \<Longrightarrow> runs (AwaitFence b i k) (Fenced b i b' ok # tr) out"
| "runs (k b' r) tr out \<Longrightarrow> runs (OpenStream b i k) (Opened b i b' r # tr) out"
| "runs (k b' hn r) tr out \<Longrightarrow> runs (NextBatch b k) (Batched b b' hn r # tr) out"
| "runs (k b') tr out \<Longrightarrow> runs (Suspend b k) (Suspended b b' # tr) out"
| "runs (k t) tr out \<Longrightarrow> runs (LoopTime k) (LoopTimed t # tr) out"
| "runs (k h) tr out \<Longrightarrow> runs (HealthNow k) (HealthRead h # tr) out"
| "runs (k t) tr out \<Longrightarrow> runs (TaiNow k) (TaiRead t # tr) out"

inductive_simps runs_simps [simp]:
  "runs (Ended b r) tr out"
  "runs OutOfFuel tr out"
  "runs (AskTxn b cs ops k) tr out"
  "runs (AskRange b q k) tr out"
  "runs (AskGrant b ttl k) tr out"
  "runs (AskKeepalive b l k) tr out"
  "runs (AwaitFence b i k) tr out"
  "runs (OpenStream b i k) tr out"
  "runs (NextBatch b k) tr out"
  "runs (Suspend b k) tr out"
  "runs (LoopTime k) tr out"
  "runs (HealthNow k) tr out"
  "runs (TaiNow k) tr out"

lemma eproc_induct [case_names Ended OutOfFuel AskTxn AskRange AskGrant AskKeepalive AwaitFence OpenStream NextBatch Suspend LoopTime HealthNow TaiNow]:
  assumes "\<And>b r. P (Ended b r)" and "P OutOfFuel"
    and "\<And>b cs ops k. (\<And>b' r. P (k b' r)) \<Longrightarrow> P (AskTxn b cs ops k)"
    and "\<And>b q k. (\<And>b' r. P (k b' r)) \<Longrightarrow> P (AskRange b q k)"
    and "\<And>b ttl k. (\<And>b' r. P (k b' r)) \<Longrightarrow> P (AskGrant b ttl k)"
    and "\<And>b l k. (\<And>b' r. P (k b' r)) \<Longrightarrow> P (AskKeepalive b l k)"
    and "\<And>b i k. (\<And>b' ok. P (k b' ok)) \<Longrightarrow> P (AwaitFence b i k)"
    and "\<And>b i k. (\<And>b' r. P (k b' r)) \<Longrightarrow> P (OpenStream b i k)"
    and "\<And>b k. (\<And>b' hn r. P (k b' hn r)) \<Longrightarrow> P (NextBatch b k)"
    and "\<And>b k. (\<And>b'. P (k b')) \<Longrightarrow> P (Suspend b k)"
    and "\<And>k. (\<And>t. P (k t)) \<Longrightarrow> P (LoopTime k)"
    and "\<And>k. (\<And>h. P (k h)) \<Longrightarrow> P (HealthNow k)"
    and "\<And>k. (\<And>t. P (k t)) \<Longrightarrow> P (TaiNow k)"
  shows "P p"
  by (induction p) (blast intro: assms)+

text \<open>How a run of a sequence splits; the three ways are kept by a question in front.\<close>

definition seq_run :: "'a eproc \<Rightarrow> (EtcdBackend \<Rightarrow> 'a \<Rightarrow> 'b eproc) \<Rightarrow> etcd_event list \<Rightarrow> 'b finish \<Rightarrow> bool" where
  "seq_run p f tr out \<longleftrightarrow>
     (\<exists>tr1 b x tr2. tr = tr1 @ tr2 \<and> runs p tr1 (Finished b (Inr x)) \<and> runs (f b x) tr2 out) \<or>
     (\<exists>b e. runs p tr (Finished b (Inl e)) \<and> out = Finished b (Inl e)) \<or> (runs p tr Starved \<and> out = Starved)"

definition try_run :: "'a eproc \<Rightarrow> (EtcdBackend \<Rightarrow> py_error \<Rightarrow> 'a eproc) \<Rightarrow> etcd_event list \<Rightarrow> 'a finish \<Rightarrow> bool" where
  "try_run p f tr out \<longleftrightarrow>
     (\<exists>b x. runs p tr (Finished b (Inr x)) \<and> out = Finished b (Inr x)) \<or>
     (\<exists>tr1 b e tr2. tr = tr1 @ tr2 \<and> runs p tr1 (Finished b (Inl e)) \<and> runs (f b e) tr2 out) \<or>
     (runs p tr Starved \<and> out = Starved)"

lemma seq_run_step:
  assumes "seq_run q f tr out" and "\<And>tr out'. runs q tr out' \<Longrightarrow> runs p (ev # tr) out'"
  shows "seq_run p f (ev # tr) out"
  using assms(1) unfolding seq_run_def by (elim disjE exE conjE) (metis append_Cons assms(2))+

lemma try_run_step:
  assumes "try_run q f tr out" and "\<And>tr out'. runs q tr out' \<Longrightarrow> runs p (ev # tr) out'"
  shows "try_run p f (ev # tr) out"
  using assms(1) unfolding try_run_def by (elim disjE exE conjE) (metis append_Cons assms(2))+

lemma runs_bind: "runs (bind_eproc p f) tr out \<Longrightarrow> seq_run p f tr out"
proof (induction p arbitrary: tr rule: eproc_induct)
  case (Ended b r)
  then show ?case by (cases r) (auto simp: seq_run_def)
next
  case OutOfFuel
  then show ?case by (auto simp: seq_run_def)
qed (clarsimp, rule seq_run_step, blast, simp, blast?)+

lemma runs_on_error: "runs (on_error p f) tr out \<Longrightarrow> try_run p f tr out"
proof (induction p arbitrary: tr rule: eproc_induct)
  case (Ended b r)
  then show ?case by (cases r) (auto simp: try_run_def)
next
  case OutOfFuel
  then show ?case by (auto simp: try_run_def)
qed (clarsimp, rule try_run_step, blast, simp, blast?)+

lemma runs_bindE:
  assumes "runs (bind_eproc p f) tr out"
  obtains (go) tr1 b x tr2 where "tr = tr1 @ tr2" "runs p tr1 (Finished b (Inr x))" "runs (f b x) tr2 out"
    | (raised) b e where "runs p tr (Finished b (Inl e))" "out = Finished b (Inl e)"
    | (starved) "runs p tr Starved" "out = Starved"
  using runs_bind [OF assms] unfolding seq_run_def by blast

lemma runs_on_errorE:
  assumes "runs (on_error p f) tr out"
  obtains (go) b x where "runs p tr (Finished b (Inr x))" "out = Finished b (Inr x)"
    | (handled) tr1 b e tr2 where "tr = tr1 @ tr2" "runs p tr1 (Finished b (Inl e))" "runs (f b e) tr2 out"
    | (starved) "runs p tr Starved" "out = Starved"
  using runs_on_error [OF assms] unfolding try_run_def by blast

subsection \<open>Waiting\<close>

definition waited :: "etcd_event list \<Rightarrow> EtcdBackend \<Rightarrow> int \<Rightarrow> EtcdBackend \<Rightarrow> bool" where
  "waited tr b revision b' \<longleftrightarrow>
     (if eb_applied b \<ge> revision then tr = [] \<and> b' = b else tr = [Fenced b revision b' True])"

lemma runs_fence_wait:
  "runs (fence_wait b revision) tr (Finished b' (Inr x)) \<longleftrightarrow> waited tr b revision b'"
  by (auto simp: fence_wait_def waited_def split: if_splits)

text \<open>
  The view has caught up: a read of etcd answered with a revision, and after it the local view was
  waited for until it had applied that revision; nothing was asked since. What happens in between
  to the believed revisions is of no account.
\<close>

definition same_view :: "EtcdBackend \<Rightarrow> EtcdBackend \<Rightarrow> bool" where
  "same_view b b' \<longleftrightarrow> eb_registry b = eb_registry b' \<and> eb_leases b = eb_leases b' \<and> eb_applied b = eb_applied b'"

definition caught_up :: "etcd_event list \<Rightarrow> EtcdBackend \<Rightarrow> bool" where
  "caught_up tr b \<longleftrightarrow>
     (\<exists>pre b0 keys b1 t b2 w. tr = pre @ Txned b0 [] (map (\<lambda>key. range_op key None) keys) b1 (Inr t) # w \<and>
        keys \<noteq> [] \<and> same_view b2 b1 \<and> waited w b2 (tx_revision t) b)"

lemma caught_up_after: "caught_up tr b \<Longrightarrow> caught_up (pre @ tr) b"
  unfolding caught_up_def by (metis append_assoc)

lemma runs_read_set:
  "runs (read_set b keys) tr (Finished b' r) \<longleftrightarrow> tr = [Txned b [] (map (\<lambda>key. range_op key None) keys) b' r]"
  by (auto simp: read_set_def txn_def)

lemma runs_catch_up: "runs (catch_up b key) tr (Finished b' (Inr x)) \<Longrightarrow> caught_up tr b'"
  unfolding catch_up_def caught_up_def
  by (elim runs_bindE) (auto simp: runs_read_set runs_fence_wait same_view_def intro!: exI [of _ "[]"] exI [of _ "[key]"])

lemma note_revisions_view: "same_view (note_revisions b xs) b"
  by (induction b xs rule: note_revisions.induct) (simp_all add: same_view_def)

lemma runs_read_fence: "runs (read_fence b p) tr (Finished b' (Inr revision)) \<Longrightarrow> caught_up tr b'"
proof -
  assume "runs (read_fence b p) tr (Finished b' (Inr revision))"
  then obtain b1 t w where "tr = Txned b [] (map (\<lambda>key. range_op key None) (write_set p)) b1 (Inr t) # w"
      "waited w (note_revisions b1 (zip (write_set p) (tx_responses t))) (tx_revision t) b'"
    unfolding read_fence_def by (auto elim!: runs_bindE simp: runs_read_set runs_fence_wait)
  moreover have "write_set p \<noteq> []" by (simp add: write_set_def)
  ultimately show ?thesis unfolding caught_up_def using note_revisions_view by (metis append_Nil)
qed

lemma runs_guarded:
  assumes "runs (guarded p) tr out"
  shows "runs p tr out \<or> (\<exists>b e. out = Finished b (Inl e) \<and> (e = MutationTimeout \<or> \<not> is_EtcdError e \<and> e \<noteq> FenceTimeout))"
  using assms unfolding guarded_def by (elim runs_on_errorE) (auto split: if_splits)

lemma runs_guarded_ok: "runs (guarded p) tr (Finished b (Inr x)) \<Longrightarrow> runs p tr (Finished b (Inr x))"
  by (drule runs_guarded) auto

subsection \<open>The answers of a registration\<close>

text \<open>A write that etcd accepted, and that was waited for until it came back through the watch.\<close>

definition committed :: "etcd_event list \<Rightarrow> EtcdBackend \<Rightarrow> bool" where
  "committed tr b \<longleftrightarrow>
     (\<exists>pre b0 p v b1 t w cs. tr = pre @ Txned b0 cs [PutOp (pl_key p) v (pl_lease p), PutOp (pl_claim p) (pl_key p) (pl_lease p)] b1 (Inr t) # w \<and>
        cs = compare_set b0 p \<and> tx_succeeded t \<and> waited w b1 (tx_revision t) b)"

lemma committed_after: "committed tr b \<Longrightarrow> committed (pre @ tr) b"
  unfolding committed_def by (metis append_assoc)

lemma write_ops_puts:
  "write_ops tn hn b p bdy rt = (b1, Inr ops) \<Longrightarrow>
     (\<exists>v ca ua. ops = [PutOp (pl_key p) v (pl_lease p), PutOp (pl_claim p) (pl_key p) (pl_lease p)] \<and>
        encode_envelope \<lparr>en_version = ENVELOPE_VERSION, en_type = rt, en_body = bdy, en_created = ca, en_updated = ua, en_health = hn\<rparr> = Inr v) \<and>
     compare_set b1 p = compare_set b p"
  by (auto simp: write_ops_def Let_def put_op_def claim_value_def bind_res_eq_Inr etcd_cursors_for_def put_store_def
      compare_set_def compare_believed_def believed_def split: prod.splits)

lemma runs_submit:
  assumes "runs (submit b p bdy rt) tr (Finished b' (Inr t))"
  shows "\<exists>pre b0 v. tr = pre @ [Txned b0 (compare_set b0 p)
      [PutOp (pl_key p) v (pl_lease p), PutOp (pl_claim p) (pl_key p) (pl_lease p)] b' (Inr t)]"
proof -
  obtain tn hn tr2 where "tr = TaiRead tn # HealthRead hn # tr2"
      "runs (let (b1, r) = write_ops tn hn b p bdy rt
        in case r of Inl e \<Rightarrow> Ended b1 (Inl e) | Inr ops \<Rightarrow> txn b1 (compare_set b p) ops) tr2 (Finished b' (Inr t))"
    using assms by (auto simp: submit_def)
  moreover obtain b1 r where w: "write_ops tn hn b p bdy rt = (b1, r)" by fastforce
  ultimately have tr: "tr = TaiRead tn # HealthRead hn # tr2"
      "runs (case r of Inl e \<Rightarrow> Ended b1 (Inl e) | Inr ops \<Rightarrow> txn b1 (compare_set b p) ops) tr2 (Finished b' (Inr t))"
    by simp_all
  then obtain ops where r: "r = Inr ops" by (cases r) auto
  then have "tr = [TaiRead tn, HealthRead hn] @ [Txned b1 (compare_set b p) ops b' (Inr t)]"
    using tr by (auto simp: txn_def)
  then show ?thesis using write_ops_puts [OF w [unfolded r]] by metis
qed

lemma committedI:
  assumes "runs (submit b p bdy rt) tr1 (Finished b1 (Inr t))" and "tx_succeeded t"
    and "runs (await_commit b1 (tx_revision t)) tr2 (Finished b2 (Inr u))"
  shows "committed (tr1 @ tr2) b2"
  using runs_submit [OF assms(1)] assms(2,3) unfolding committed_def await_commit_def runs_fence_wait by fastforce

lemma runs_fast_path:
  assumes "runs (try_fast_path b rt bdy raw p) tr (Finished b' (Inr (Some r)))"
  shows "committed tr b' \<and> rr_error r = None"
  using assms unfolding try_fast_path_def
  by (auto simp: committed_result_def elim!: runs_bindE split: sum.splits if_splits) (rule committedI; assumption)

lemma runs_fenced_register:
  assumes "runs (fenced_register n rt bdy raw deadline b p) tr (Finished b' (Inr r))"
  shows "committed tr b' \<and> rr_error r = None \<or> caught_up tr b' \<and> prepare (eb_store b') rt raw = Inr (Inl r)"
  using assms
proof (induction n arbitrary: b p tr)
  case (Suc n)
  obtain tr1 b1 revision tr2 where rd: "tr = tr1 @ tr2" "runs (on_error (read_fence b p) (\<lambda>b' e.
      if e \<noteq> EtcdCompacted \<and> is_EtcdError e then Ended (degrade b') (Inl e) else Ended b' (Inl e))) tr1 (Finished b1 (Inr revision))"
    and rest: "runs (case prepare (eb_store b1) rt raw of
       Inl e \<Rightarrow> Ended b1 (Inl e)
     | Inr (Inl refused) \<Rightarrow> Ended b1 (Inr refused)
     | Inr (Inr prepared) \<Rightarrow>
         let lease = lease_of b1 (pl_node p)
         in if rt \<noteq> NODE \<and> lease = 0 then Ended b1 (Inl MutationTimeout)
            else let p1 = (if rt \<noteq> NODE then with_lease p lease else p)
              in bind_eproc (submit b1 p1 bdy rt) (\<lambda>b2 t.
                   if tx_succeeded t
                   then bind_eproc (await_commit b2 (tx_revision t)) (\<lambda>b3 _. Ended b3 (Inr (committed_result prepared)))
                   else LoopTime (\<lambda>now.
                     if now \<ge> deadline then Ended b2 (Inl MutationTimeout)
                     else Suspend b2 (\<lambda>b3. fenced_register n rt bdy raw deadline b3 p1)))) tr2 (Finished b' (Inr r))"
    using Suc.prems unfolding fenced_register.simps by (elim runs_bindE) simp_all
  have up: "caught_up tr1 b1"
    using rd(2) by (elim runs_on_errorE) (auto split: if_splits dest: runs_read_fence)
  show ?case
  proof (cases "prepare (eb_store b1) rt raw")
    case (Inl e)
    then show ?thesis using rest by simp
  next
    case (Inr q)
    show ?thesis
    proof (cases q)
      case (Inl refused)
      then show ?thesis using rest Inr up rd(1) by simp
    next
      case p: (Inr prepared)
      define p1 where "p1 = (if rt \<noteq> NODE then with_lease p (lease_of b1 (pl_node p)) else p)"
      obtain ta b2 t tb where t: "tr2 = ta @ tb" "runs (submit b1 p1 bdy rt) ta (Finished b2 (Inr t))"
        and after: "runs (if tx_succeeded t
           then bind_eproc (await_commit b2 (tx_revision t)) (\<lambda>b3 _. Ended b3 (Inr (committed_result prepared)))
           else LoopTime (\<lambda>now. if now \<ge> deadline then Ended b2 (Inl MutationTimeout)
                else Suspend b2 (\<lambda>b3. fenced_register n rt bdy raw deadline b3 p1))) tb (Finished b' (Inr r))"
        using rest unfolding Inr p sum.case Let_def p1_def [symmetric]
        by (auto elim!: runs_bindE split: if_splits)
      show ?thesis
      proof (cases "tx_succeeded t")
        case True
        then obtain u where "runs (await_commit b2 (tx_revision t)) tb (Finished b' (Inr u))" "r = committed_result prepared"
          using after by (auto elim!: runs_bindE)
        then have "committed (ta @ tb) b'" "rr_error r = None" using committedI [OF t(2) True] by (simp_all add: committed_result_def)
        then show ?thesis using committed_after rd(1) t(1) by simp
      next
        case False
        then obtain now b3 tc where c: "tb = LoopTimed now # Suspended b2 b3 # tc"
            "runs (fenced_register n rt bdy raw deadline b3 p1) tc (Finished b' (Inr r))"
          using after by (auto split: if_splits)
        then have tr: "tr = (tr1 @ ta @ [LoopTimed now, Suspended b2 b3]) @ tc" using rd(1) t(1) by simp
        show ?thesis using Suc.IH [OF c(2)] committed_after caught_up_after unfolding tr by blast
      qed
    qed
  qed
qed simp

lemma runs_bind_lift [simp]:
  "runs (bind_eproc (lift_b b r) f) tr out \<longleftrightarrow>
     (case r of Inl e \<Rightarrow> tr = [] \<and> out = Finished b (Inl e) | Inr x \<Rightarrow> runs (f b x) tr out)"
  by (cases r) (auto simp: lift_b_def)

lemma runs_lift [simp]: "runs (lift_b b r) tr out \<longleftrightarrow> tr = [] \<and> out = Finished b r"
  by (auto simp: lift_b_def)

lemma placement_refusal:
  "placement b rt raw = Inr (Inl r) \<Longrightarrow> r = failure SCHEMA \<or> rr_error r = Some PARENT_MISSING"
  unfolding placement_def
  by (auto simp: failure_def elim!: bind_res_InrE split: option.split_asm json.split_asm if_split_asm)

lemma runs_settle_placement:
  assumes "runs (settle_placement brackets b rt raw) tr (Finished b' (Inr x))"
  shows "placement b' rt raw = Inr x \<and>
    (case x of Inl r \<Rightarrow> r = failure SCHEMA \<or> caught_up tr b' | Inr p \<Rightarrow> True)"
proof -
  obtain first where first: "placement b rt raw = Inr first"
    and go: "runs (if (case first of Inl r \<Rightarrow> rr_error r = Some PARENT_MISSING | Inr p \<Rightarrow> False)
       then bind_eproc (lift_b b (id_claim (eb_namespace b)
                (case dget raw (str ''device_id'') of Some v \<Rightarrow> py_str brackets v | None \<Rightarrow> []))) (\<lambda>b key.
            bind_eproc (guarded (catch_up b key)) (\<lambda>b1 _. lift_b b1 (placement b1 rt raw)))
       else Ended b (Inr first)) tr (Finished b' (Inr x))"
    using assms by (cases "placement b rt raw") (simp_all add: settle_placement_def)
  show ?thesis
  proof (cases "case first of Inl r \<Rightarrow> rr_error r = Some PARENT_MISSING | Inr p \<Rightarrow> False")
    case True
    then obtain tr1 b1 u tr2 key where "tr = tr1 @ tr2" "runs (guarded (catch_up b key)) tr1 (Finished b1 (Inr u))"
        "runs (lift_b b1 (placement b1 rt raw)) tr2 (Finished b' (Inr x))"
      using go by (auto elim!: runs_bindE split: sum.split_asm)
    then have "caught_up tr b'" "placement b' rt raw = Inr x"
      by (auto dest!: runs_guarded_ok runs_catch_up)
    then show ?thesis by (auto split: sum.splits)
  next
    case False
    then have "b' = b" "x = first" using go by auto
    then show ?thesis using first False placement_refusal [of b rt raw] by (auto split: sum.splits)
  qed
qed

text \<open>
  C9: the answers of a registration over etcd. Whatever etcd answers and whatever happens to the
  view in between, a registration that is accepted was committed by a transaction guarded by the
  revisions of its key and its id claim and by its parent's existence, and was waited for until the
  watch had brought it back; and one that is refused for what the store holds is refused on a view
  that had applied everything etcd held when it was read after the request came in. A refusal that
  no store could change is given at once.
\<close>

theorem etcd_answers_are_fenced:
  assumes "runs (etcd_register loads brackets n b rt bdy) tr (Finished b' (Inr r))"
  shows "rr_error r = None \<and> committed tr b' \<or>
    (\<exists>raw. body_data loads bdy = Inr raw \<and>
       (caught_up tr b' \<and> (placement b' rt raw = Inr (Inl r) \<or> prepare (eb_store b') rt raw = Inr (Inl r)) \<or>
        r = failure SCHEMA \<and> placement b' rt raw = Inr (Inl r)))"
proof -
  obtain start tr1 raw b1 placed tr2 where tr: "tr = LoopTimed start # tr1 @ tr2" "body_data loads bdy = Inr raw"
      "runs (settle_placement brackets b rt raw) tr1 (Finished b1 (Inr placed))"
    and go: "runs (case placed of Inl refused \<Rightarrow> Ended b1 (Inr refused)
       | Inr p \<Rightarrow>
           bind_eproc (if rt = NODE then bind_eproc (ensure_node_lease b1 (pl_node p)) (\<lambda>b2 l. Ended b2 (Inr (with_lease p l)))
                       else Ended b1 (Inr p)) (\<lambda>b2 p1.
             register_placed n rt bdy raw (start + ec_timeout (eb_config b)) b2 p1)) tr2 (Finished b' (Inr r))"
    using assms unfolding etcd_register_def by (cases "body_data loads bdy") (auto elim!: runs_bindE)
  note settled = runs_settle_placement [OF tr(3)]
  show ?thesis
  proof (cases placed)
    case (Inl refused)
    then have "b' = b1" "r = refused" "tr2 = []" using go by auto
    then show ?thesis using settled Inl tr(1,2) caught_up_after [of tr1 b1 "[LoopTimed start]"] by auto
  next
    case (Inr p)
    then obtain ta b2 p1 tb where t: "tr2 = ta @ tb"
        "runs (register_placed n rt bdy raw (start + ec_timeout (eb_config b)) b2 p1) tb (Finished b' (Inr r))"
      using go by (auto elim!: runs_bindE)
    have "committed tb b' \<and> rr_error r = None \<or> caught_up tb b' \<and> prepare (eb_store b') rt raw = Inr (Inl r)"
    proof (cases "eb_fast b2")
      case True
      then obtain tc b3 fast td where f: "tb = tc @ td" "runs (try_fast_path b2 rt bdy raw p1) tc (Finished b3 (Inr fast))"
          "runs (case fast of Some result \<Rightarrow> Ended b3 (Inr result)
             | None \<Rightarrow> fenced_register n rt bdy raw (start + ec_timeout (eb_config b)) b3 p1) td (Finished b' (Inr r))"
        using t(2) unfolding register_placed_def by (auto elim!: runs_bindE dest!: runs_guarded_ok)
      show ?thesis
      proof (cases fast)
        case None
        then show ?thesis using f runs_fenced_register committed_after caught_up_after by (metis option.simps(4))
      next
        case (Some result)
        then show ?thesis using f runs_fast_path [of b2 rt bdy raw p1 tc b3 result] by auto
      qed
    next
      case False
      then show ?thesis using t(2) unfolding register_placed_def by (auto dest!: runs_guarded_ok runs_fenced_register)
    qed
    moreover have "tr = (LoopTimed start # tr1 @ ta) @ tb" using tr(1) t(1) by simp
    ultimately show ?thesis using committed_after caught_up_after tr(2) by metis
  qed
qed

definition demo_sender :: Body where
  "demo_sender = \<lparr>body_text = [], parsed = Some [(str ''id'', JStr (str ''s'')), (str ''device_id'', JStr (str ''d''))]\<rparr>"

definition demo_read :: "int \<Rightarrow> TxnResult" where
  "demo_read r = \<lparr>tx_succeeded = True, tx_revision = r, tx_responses = [[]]\<rparr>"

definition demo_refusal :: "etcd_event list" where
  "demo_refusal =
     [LoopTimed 0, Txned demo_backend [] [range_op (map of_nat (str ''/r/ids/d'')) None] demo_backend (Inr (demo_read 9)),
      Fenced demo_backend 9 (demo_backend\<lparr>eb_applied := 9\<rparr>) True]"

lemma demo_claims:
  "id_claim demo_ns (str ''d'') = Inr (map of_nat (str ''/r/ids/d''))" "id_claim demo_ns (str ''s'') = Inr (map of_nat (str ''/r/ids/s''))"
  by (simp_all add: id_claim_def demo_ns_def path_text_def str_def utf8_encode_def utf8_char_def)

lemma demo_refusal_runs:
  "runs (etcd_register (\<lambda>_. Inl ValueError) (\<lambda>_. []) 1 demo_backend SENDER demo_sender) demo_refusal
     (Finished (demo_backend\<lparr>eb_applied := 9\<rparr>) (Inr (failure PARENT_MISSING)))"
proof -
  let ?raw = "[(str ''id'', JStr (str ''s'')), (str ''device_id'', JStr (str ''d''))]"
  have ns: "eb_namespace demo_backend = demo_ns" "eb_applied demo_backend = 0" "eb_store demo_backend = new_store 12 12"
    by (simp_all add: demo_backend_def new_etcd_backend_def eb_store_def new_registry_def)
  have data: "body_data (\<lambda>_. Inl ValueError) demo_sender = Inr ?raw" by (simp add: body_data_def demo_sender_def)
  have none: "get_resource (new_store 12 12) DEVICE i False = None" for i by (simp add: get_resource_def new_store_def)
  have strs: "str ''id'' \<noteq> str ''device_id''" "str ''s'' \<noteq> []" by (simp_all add: str_def)
  have pl: "placement b SENDER ?raw = Inr (Inl (failure PARENT_MISSING))"
    if "eb_namespace b = demo_ns" "eb_store b = new_store 12 12" for b
    using that strs none demo_claims by (simp add: placement_def)
  have st: "eb_store (demo_backend\<lparr>eb_applied := 9\<rparr>) = new_store 12 12" using ns(3) by (simp add: eb_store_def)
  show ?thesis
    using strs by (simp add: etcd_register_def data settle_placement_def lift_b_def pl ns st failure_def demo_claims
        guarded_def catch_up_def read_set_def txn_def fence_wait_def demo_read_def demo_refusal_def)
      (rule exI [of _ True], simp)
qed

theorem etcd_answers_are_fenced_witness:
  "runs (etcd_register (\<lambda>_. Inl ValueError) (\<lambda>_. []) 1 demo_backend SENDER demo_sender) demo_refusal
     (Finished (demo_backend\<lparr>eb_applied := 9\<rparr>) (Inr (failure PARENT_MISSING))) \<and>
   caught_up demo_refusal (demo_backend\<lparr>eb_applied := 9\<rparr>)"
  using etcd_answers_are_fenced [OF demo_refusal_runs] demo_refusal_runs by (auto simp: failure_def)

subsection \<open>A 404 for a heartbeat or a deletion\<close>

definition gone :: "int res \<Rightarrow> bool" where
  "gone r \<longleftrightarrow> r = Inl EtcdLeaseNotFound \<or> (\<exists>ttl \<le> 0. r = Inr ttl)"

lemma runs_keepalive:
  "runs (bind_eproc (keepalive_once b l) (\<lambda>b' ttl. Ended b' (Inr True))) tr out \<longleftrightarrow>
     (\<exists>b' r. tr = [KeptAlive b l b' r] \<and>
        out = Finished b' (if gone r then Inl EtcdLeaseNotFound else case r of Inl e \<Rightarrow> Inl e | Inr ttl \<Rightarrow> Inr True))"
proof -
  have "(runs (case bind_res r (\<lambda>ttl. if ttl \<le> 0 then Inl EtcdLeaseNotFound else Inr ttl) of
      Inl e \<Rightarrow> Ended b' (Inl e) | Inr x \<Rightarrow> Ended b' (Inr True)) tr' out) =
    (tr' = [] \<and> out = Finished b' (if gone r then Inl EtcdLeaseNotFound else case r of Inl e \<Rightarrow> Inl e | Inr ttl \<Rightarrow> Inr True))" for b' r tr'
    by (cases r) (auto simp: gone_def)
  then show ?thesis by (simp add: keepalive_once_def)
qed

lemma runs_renew:
  assumes "runs (renew b i l) tr (Finished b' (Inr None))"
  shows "\<exists>b1 r. tr = [KeptAlive b l b1 r] \<and> gone r"
proof -
  obtain tr1 b1 alive tr2 where t: "tr = tr1 @ tr2" "runs (on_error (bind_eproc (keepalive_once b l) (\<lambda>b' ttl. Ended b' (Inr True))) (\<lambda>b' e.
         if e = EtcdLeaseNotFound then Ended (b'\<lparr>eb_leases := (eb_leases b')(i := None)\<rparr>) (Inr False)
         else Ended b' (Inl e))) tr1 (Finished b1 (Inr alive))"
      "runs (if \<not> alive then Ended b1 (Inr None)
       else HealthNow (\<lambda>h.
         if get_resource (eb_store b1) NODE i False = None then Ended b1 (Inr (Some h))
         else HealthNow (\<lambda>h2. case heartbeat h2 (eb_store b1) i of
             Inl e \<Rightarrow> Ended b1 (Inl e) | Inr (st, _) \<Rightarrow> Ended (put_store b1 st) (Inr (Some h))))) tr2 (Finished b' (Inr None))"
    using assms unfolding renew_def by (elim runs_bindE) simp_all
  have "\<not> alive" "tr2 = []" using t(3)
    by (auto split: if_split_asm sum.split_asm prod.split_asm) (metis sum.exhaust prod.exhaust)+
  then show ?thesis
    using t(1,2) by (elim runs_on_errorE) (auto simp: runs_keepalive gone_def split: if_split_asm sum.split_asm)
qed

lemma runs_heartbeat_body:
  assumes "runs (heartbeat_body b i) tr (Finished b' (Inr None))"
  shows "caught_up tr b' \<and> lease_of b' i = 0 \<or> (\<exists>pre b0 l b1 r. tr = pre @ [KeptAlive b0 l b1 r] \<and> l \<noteq> 0 \<and> gone r)"
proof (cases "lease_of b i \<noteq> 0")
  case True
  then show ?thesis using assms runs_renew [of b i "lease_of b i" tr b'] by (auto simp: heartbeat_body_def)
next
  case False
  then obtain key tr1 b1 u tr2 where t: "tr = tr1 @ tr2" "runs (catch_up b key) tr1 (Finished b1 (Inr u))"
      "runs (if lease_of b1 i = 0 then Ended b1 (Inr None) else renew b1 i (lease_of b1 i)) tr2 (Finished b' (Inr None))"
    using assms by (cases "node_key (eb_namespace b) i") (auto simp: heartbeat_body_def elim!: runs_bindE)
  then show ?thesis using runs_catch_up [OF t(2)] runs_renew [of b1 i "lease_of b1 i" tr2 b'] by (auto split: if_splits)
qed

lemma runs_unregister_body:
  assumes "runs (unregister_body loads b rt i) tr (Finished b' (Inr False))"
  shows "caught_up tr b' \<and> get_resource (eb_store b') rt i False = None \<or>
    (\<exists>r raw refused. get_resource (eb_store b') rt i False = Some r \<and> body_data loads (body r) = Inr raw \<and>
       placement b' rt raw = Inr (Inl refused))"
proof -
  obtain tr1 b1 found tr2 where t: "tr = tr1 @ tr2"
      "runs (case get_resource (eb_store b) rt i False of
         Some r \<Rightarrow> Ended b (Inr (Some r))
       | None \<Rightarrow>
           bind_eproc (lift_b b (id_claim (eb_namespace b) i)) (\<lambda>b key.
           bind_eproc (catch_up b key) (\<lambda>b1 _. Ended b1 (Inr (get_resource (eb_store b1) rt i False))))) tr1 (Finished b1 (Inr found))"
      "runs (case found of
         None \<Rightarrow> Ended b1 (Inr False)
       | Some r \<Rightarrow>
           bind_eproc (lift_b b1 (bind_res (body_data loads (body r)) (placement b1 rt))) (\<lambda>b1 placed.
             case placed of
               Inl refused \<Rightarrow> Ended b1 (Inr False)
             | Inr p \<Rightarrow>
                 bind_eproc (lift_b b1 (delete_ops b1 rt i p)) (\<lambda>b1 ops.
                 bind_eproc (txn b1 [] ops) (\<lambda>b2 t.
                 bind_eproc (await_commit b2 (tx_revision t)) (\<lambda>b3 _. Ended b3 (Inr True)))))) tr2 (Finished b' (Inr False))"
    using assms unfolding unregister_body_def by (elim runs_bindE) simp_all
  have found: "found = get_resource (eb_store b1) rt i False \<and> (found = None \<longrightarrow> caught_up tr1 b1)"
  proof (cases "get_resource (eb_store b) rt i False")
    case None
    then show ?thesis using t(2) by (cases "id_claim (eb_namespace b) i") (auto elim!: runs_bindE dest: runs_catch_up)
  qed (use t(2) in auto)
  show ?thesis
  proof (cases found)
    case None
    then show ?thesis using found t by simp
  next
    case (Some r)
    obtain x where x: "bind_res (body_data loads (body r)) (placement b1 rt) = Inr x"
      using t(3) Some by (cases "bind_res (body_data loads (body r)) (placement b1 rt)") auto
    show ?thesis
    proof (cases x)
      case (Inl refused)
      then have "b' = b1" using t(3) Some x by simp
      moreover obtain raw where "body_data loads (body r) = Inr raw" "placement b1 rt raw = Inr (Inl refused)"
        using x Inl by (auto elim!: bind_res_InrE)
      ultimately show ?thesis using found Some by metis
    next
      case (Inr p)
      then show ?thesis using t(3) Some x by (cases "delete_ops b1 rt i p") (auto elim!: runs_bindE)
    qed
  qed
qed


definition demo_miss :: "etcd_event list" where
  "demo_miss =
     [Txned demo_backend [] [range_op demo_node_key None] demo_backend (Inr (demo_read 9)),
      Fenced demo_backend 9 (demo_backend\<lparr>eb_applied := 9\<rparr>) True]"


subsection \<open>A registration ends\<close>

text \<open>The readings of the event loop's clock in a run, in order.\<close>

fun readings :: "etcd_event list \<Rightarrow> real list" where
  "readings [] = []"
| "readings (LoopTimed t # tr) = t # readings tr"
| "readings (ev # tr) = readings tr"

lemma readings_append [simp]: "readings (xs @ ys) = readings xs @ readings ys"
  by (induction xs rule: readings.induct) simp_all

text \<open>A process without a retry loop: it reads no such clock and has no use for fuel.\<close>

definition brief :: "'r eproc \<Rightarrow> bool" where
  "brief p \<longleftrightarrow> (\<forall>tr out. runs p tr out \<longrightarrow> readings tr = [] \<and> out \<noteq> Starved)"

lemma brief_ends [simp, intro]: "brief (Ended b r)"
  by (auto simp: brief_def)

lemma brief_asks:
  "(\<And>b' r. brief (k1 b' r)) \<Longrightarrow> brief (AskTxn b cs ops k1)"
  "(\<And>b' r. brief (k2 b' r)) \<Longrightarrow> brief (AskGrant b ttl k2)"
  "(\<And>b' r. brief (k3 b' r)) \<Longrightarrow> brief (AskKeepalive b l k3)"
  "(\<And>b' ok. brief (k4 b' ok)) \<Longrightarrow> brief (AwaitFence b i k4)"
  "(\<And>h. brief (k5 h)) \<Longrightarrow> brief (HealthNow k5)"
  "(\<And>t. brief (k6 t)) \<Longrightarrow> brief (TaiNow k6)"
  by (fastforce simp: brief_def)+

lemma brief_bind: "brief p \<Longrightarrow> (\<And>b x. brief (f b x)) \<Longrightarrow> brief (bind_eproc p f)"
  unfolding brief_def by (auto elim!: runs_bindE) (metis append_Nil)+

lemma brief_on_error: "brief p \<Longrightarrow> (\<And>b e. brief (f b e)) \<Longrightarrow> brief (on_error p f)"
  unfolding brief_def by (auto elim!: runs_on_errorE) (metis append_Nil)+

lemma brief_branches:
  "(c \<Longrightarrow> brief p) \<Longrightarrow> (\<not> c \<Longrightarrow> brief q) \<Longrightarrow> brief (if c then p else q)"
  "(\<And>e. brief (fl e)) \<Longrightarrow> (\<And>x. brief (fr x)) \<Longrightarrow> brief (case r of Inl e \<Rightarrow> fl e | Inr x \<Rightarrow> fr x)"
  "brief pn \<Longrightarrow> (\<And>x. brief (ps x)) \<Longrightarrow> brief (case opt of None \<Rightarrow> pn | Some x \<Rightarrow> ps x)"
  "(\<And>x y. brief (g x y)) \<Longrightarrow> brief (case pr of (x, y) \<Rightarrow> g x y)"
  by (auto split: sum.split option.split prod.split)

lemmas brief_rules = brief_ends brief_asks brief_bind brief_on_error brief_branches

lemma brief_basic [simp, intro]: "brief (lift_b b r)" "brief (txn b cs ops)" "brief (fence_wait b i)" "brief (ensure_node_lease b l)"
  unfolding lift_b_def txn_def fence_wait_def ensure_node_lease_def by (intro brief_rules)+

lemma brief_calls [simp, intro]: "brief (read_set b keys)" "brief (await_commit b i)" "brief (submit b p bdy rt)"
  unfolding read_set_def await_commit_def submit_def Let_def by (intro brief_rules brief_basic)+

lemma brief_fences [simp, intro]: "brief (catch_up b key)" "brief (read_fence b p)"
  unfolding catch_up_def read_fence_def by (intro brief_rules brief_basic brief_calls)+

lemma brief_guarded [simp, intro]: "brief p \<Longrightarrow> brief (guarded p)"
  unfolding guarded_def by (intro brief_rules)

lemma brief_placement [simp]: "brief (settle_placement brackets b rt raw)"
  unfolding settle_placement_def by (intro brief_rules brief_basic brief_fences brief_guarded)

lemma brief_fast_path [simp]: "brief (try_fast_path b rt bdy raw p)"
  unfolding try_fast_path_def by (intro brief_rules brief_basic brief_calls)

lemma brief_runs: "brief p \<Longrightarrow> runs p tr out \<Longrightarrow> readings tr = [] \<and> out \<noteq> Starved"
  by (auto simp: brief_def)

lemma brief_starves_later:
  assumes "runs (bind_eproc p f) tr Starved" and "brief p"
  obtains tr1 b x tr2 where "tr = tr1 @ tr2" "runs p tr1 (Finished b (Inr x))" "readings tr1 = []" "runs (f b x) tr2 Starved"
  using assms by (auto elim!: runs_bindE simp: brief_def)

lemma fenced_register_starved:
  assumes "runs (fenced_register n rt bdy raw deadline b p) tr Starved"
  shows "length (readings tr) = n \<and> (\<forall>t \<in> set (readings tr). t < deadline)"
  using assms
proof (induction n arbitrary: b p tr)
  case (Suc n)
  let ?read = "on_error (read_fence b p) (\<lambda>b' e.
      if e \<noteq> EtcdCompacted \<and> is_EtcdError e then Ended (degrade b') (Inl e) else Ended b' (Inl e))"
  have rd: "brief ?read" by (intro brief_rules brief_fences)
  obtain tr1 b1 revision tr2 where t: "tr = tr1 @ tr2" "runs ?read tr1 (Finished b1 (Inr revision))"
    and rest: "runs (case prepare (eb_store b1) rt raw of
       Inl e \<Rightarrow> Ended b1 (Inl e)
     | Inr (Inl refused) \<Rightarrow> Ended b1 (Inr refused)
     | Inr (Inr prepared) \<Rightarrow>
         let lease = lease_of b1 (pl_node p)
         in if rt \<noteq> NODE \<and> lease = 0 then Ended b1 (Inl MutationTimeout)
            else let p1 = (if rt \<noteq> NODE then with_lease p lease else p)
              in bind_eproc (submit b1 p1 bdy rt) (\<lambda>b2 t.
                   if tx_succeeded t
                   then bind_eproc (await_commit b2 (tx_revision t)) (\<lambda>b3 _. Ended b3 (Inr (committed_result prepared)))
                   else LoopTime (\<lambda>now.
                     if now \<ge> deadline then Ended b2 (Inl MutationTimeout)
                     else Suspend b2 (\<lambda>b3. fenced_register n rt bdy raw deadline b3 p1)))) tr2 Starved"
    using Suc.prems unfolding fenced_register.simps by (rule brief_starves_later [OF _ rd])
  obtain prepared where q: "prepare (eb_store b1) rt raw = Inr (Inr prepared)"
    using rest by (cases "prepare (eb_store b1) rt raw"; cases "projr (prepare (eb_store b1) rt raw)") auto
  define p1 where "p1 = (if rt \<noteq> NODE then with_lease p (lease_of b1 (pl_node p)) else p)"
  obtain ta b2 x tb where s: "tr2 = ta @ tb" "runs (submit b1 p1 bdy rt) ta (Finished b2 (Inr x))"
    and after: "runs (if tx_succeeded x
           then bind_eproc (await_commit b2 (tx_revision x)) (\<lambda>b3 _. Ended b3 (Inr (committed_result prepared)))
           else LoopTime (\<lambda>now. if now \<ge> deadline then Ended b2 (Inl MutationTimeout)
                else Suspend b2 (\<lambda>b3. fenced_register n rt bdy raw deadline b3 p1))) tb Starved"
    using rest unfolding q sum.case Let_def p1_def [symmetric]
    by (auto elim!: brief_starves_later split: if_split_asm)
  have "\<not> tx_succeeded x"
  proof
    assume ok: "tx_succeeded x"
    have "brief (bind_eproc (await_commit b2 (tx_revision x)) (\<lambda>b3 _. Ended b3 (Inr (committed_result prepared))))"
      by (rule brief_bind) simp_all
    then show False using after ok brief_runs by fastforce
  qed
  then obtain now b3 tc where c: "tb = LoopTimed now # Suspended b2 b3 # tc" "now < deadline"
      "runs (fenced_register n rt bdy raw deadline b3 p1) tc Starved"
    using after by (auto split: if_splits)
  show ?case
    using Suc.IH [OF c(3)] c(1,2) t(1) s brief_runs [OF rd t(2)] brief_runs [OF brief_calls(3) s(2)] by simp
qed auto

text \<open>
  C11: a registration over etcd ends. Every run with fuel for \<open>n\<close> attempts that uses it up read the
  clock at its start and after each of \<open>n\<close> lost races, each time before the deadline of its start; so
  once the clock passes the deadline the request is answered, whatever the other members do.
\<close>

theorem etcd_register_ends:
  "runs (etcd_register loads brackets n b rt bdy) tr Starved \<longrightarrow>
     (\<exists>start later. readings tr = start # later \<and> length later = n \<and>
        (\<forall>t \<in> set later. t < start + ec_timeout (eb_config b)))"
proof
  assume "runs (etcd_register loads brackets n b rt bdy) tr Starved"
  then obtain start tra raw where tr: "tr = LoopTimed start # tra"
    and go: "runs (bind_eproc (settle_placement brackets b rt raw) (\<lambda>b1 placed.
       case placed of
         Inl refused \<Rightarrow> Ended b1 (Inr refused)
       | Inr p \<Rightarrow>
           bind_eproc (if rt = NODE then bind_eproc (ensure_node_lease b1 (pl_node p)) (\<lambda>b2 l. Ended b2 (Inr (with_lease p l)))
                       else Ended b1 (Inr p)) (\<lambda>b2 p1.
             register_placed n rt bdy raw (start + ec_timeout (eb_config b)) b2 p1))) tra Starved"
    unfolding etcd_register_def by (cases "body_data loads bdy") auto
  let ?dl = "start + ec_timeout (eb_config b)"
  obtain tr1 b1 p tr2 where t: "tra = tr1 @ tr2" "runs (settle_placement brackets b rt raw) tr1 (Finished b1 (Inr (Inr p)))"
      "runs (bind_eproc (if rt = NODE then bind_eproc (ensure_node_lease b1 (pl_node p)) (\<lambda>b2 l. Ended b2 (Inr (with_lease p l)))
                       else Ended b1 (Inr p)) (\<lambda>b2 p1. register_placed n rt bdy raw ?dl b2 p1)) tr2 Starved"
    by (rule brief_starves_later [OF go brief_placement]) (auto split: sum.split_asm)
  have lease: "brief (if rt = NODE then bind_eproc (ensure_node_lease b1 (pl_node p)) (\<lambda>b2 l. Ended b2 (Inr (with_lease p l)))
                       else Ended b1 (Inr p))" by (intro brief_rules brief_basic)
  obtain ta b2 p1 tb where u: "tr2 = ta @ tb" "readings ta = []" "runs (register_placed n rt bdy raw ?dl b2 p1) tb Starved"
    by (rule brief_starves_later [OF t(3) lease]) auto
  have "length (readings tb) = n \<and> (\<forall>x \<in> set (readings tb). x < ?dl)"
  proof (cases "eb_fast b2")
    case True
    then obtain tc b3 td where f: "tb = tc @ td" "readings tc = []" "runs (fenced_register n rt bdy raw ?dl b3 p1) td Starved"
      using u(3) unfolding register_placed_def
      by (auto dest!: runs_guarded elim!: brief_starves_later [OF _ brief_fast_path] split: option.split_asm)
    then show ?thesis using fenced_register_starved [OF f(3)] by simp
  next
    case False
    then show ?thesis using u(3) unfolding register_placed_def by (auto dest!: runs_guarded fenced_register_starved)
  qed
  then show "\<exists>start later. readings tr = start # later \<and> length later = n \<and> (\<forall>t \<in> set later. t < start + ec_timeout (eb_config b))"
    using tr t(1) u(1,2) brief_runs [OF brief_placement t(2)] by auto
qed

definition slow_backend :: EtcdBackend where
  "slow_backend = demo_backend\<lparr>eb_fast := False, eb_leases := [str ''n'' \<mapsto> 5]\<rparr>"

definition lost_race :: TxnResult where
  "lost_race = \<lparr>tx_succeeded = False, tx_revision = 0, tx_responses = []\<rparr>"

lemma demo_encodes:
  "\<exists>v. encode_envelope \<lparr>en_version = ENVELOPE_VERSION, en_type = NODE, en_body = demo_body,
     en_created = TaiCursor 5 6, en_updated = TaiCursor 5 6, en_health = 7\<rparr> = Inr v"
proof -
  let ?e = "demo_node\<lparr>en_created := TaiCursor 5 6\<rparr>"
  have "\<exists>v. encode_envelope ?e = Inr v \<and> decode_envelope id 3 v = Inr ?e"
  proof (rule envelope_decodes)
    show "body_ok id 3 (en_body ?e)"
      by (simp add: body_ok_def demo_node_def demo_body_def scan_eval cong: bind_res_weak_cong)
    show "list_all valid_char (body_text (en_body ?e))"
      by (simp add: demo_node_def demo_body_def str_def valid_char_def)
  qed (simp_all add: demo_node_def ENVELOPE_VERSION_def int_fits_def cursor_fits_def two_pow_small)
  then show ?thesis by (auto simp: demo_node_def ENVELOPE_VERSION_def)
qed

lemma demo_node_place:
  assumes "eb_namespace b = demo_ns"
  shows "placement b NODE [(str ''id'', JStr (str ''n'')), (str ''version'', JStr (str ''1:0''))] =
    Inr (Inr \<lparr>pl_id = str ''n'', pl_node = str ''n'', pl_key = demo_node_key, pl_claim = map of_nat (str ''/r/ids/n''),
      pl_parent = None, pl_lease = lease_of b (str ''n'')\<rparr>)"
  using assms
  by (simp add: placement_def id_claim_def node_key_def demo_ns_def demo_node_key_def path_text_def str_def
      utf8_encode_def utf8_char_def)

lemma demo_node_prepared:
  "\<exists>p. prepare (new_store 12 12) NODE [(str ''id'', JStr (str ''n'')), (str ''version'', JStr (str ''1:0''))] = Inr (Inr p)"
  by (simp add: prepare_def new_store_def check_parent_def parent_id_of_def Let_def str_def)

theorem etcd_register_ends_witness:
  "\<exists>tr later. runs (etcd_register (\<lambda>_. Inl ValueError) (\<lambda>_. []) 1 slow_backend NODE demo_body) tr Starved \<and>
     readings tr = 0 # later \<and> length later = 1 \<and> (\<forall>t \<in> set later. t < 5)"
proof -
  let ?raw = "[(str ''id'', JStr (str ''n'')), (str ''version'', JStr (str ''1:0''))]"
  let ?p = "\<lparr>pl_id = str ''n'', pl_node = str ''n'', pl_key = demo_node_key, pl_claim = map of_nat (str ''/r/ids/n''),
      pl_parent = None, pl_lease = 5\<rparr>"
  have sb: "eb_namespace slow_backend = demo_ns" "eb_store slow_backend = new_store 12 12" "\<not> eb_fast slow_backend"
      "eb_leases slow_backend = [str ''n'' \<mapsto> 5]" "eb_applied slow_backend = 0" "ec_timeout (eb_config slow_backend) = 5"
    by (simp_all add: slow_backend_def demo_backend_def new_etcd_backend_def eb_store_def new_registry_def)
  have data: "body_data (\<lambda>_. Inl ValueError) demo_body = Inr ?raw" by (simp add: body_data_def demo_body_def)
  have place: "placement slow_backend NODE ?raw = Inr (Inr ?p)" using demo_node_place [OF sb(1)] sb(4) by (simp add: lease_of_def)
  obtain q where q: "prepare (new_store 12 12) NODE ?raw = Inr (Inr q)" using demo_node_prepared by blast
  let ?b1 = "note_revisions slow_backend []"
  obtain b1 ops where ops: "write_ops (TaiCursor 5 6) 7 slow_backend ?p demo_body NODE = (b1, Inr ops)"
    using demo_encodes sb(2)
    by (auto simp: write_ops_def etcd_cursors_for_def get_resource_def next_cursor_def new_store_def Let_def)
  let ?tr = "[LoopTimed 0, Txned slow_backend [] (map (\<lambda>key. range_op key None) (write_set ?p)) slow_backend (Inr lost_race),
     TaiRead (TaiCursor 5 6), HealthRead 7, Txned b1 (compare_set slow_backend ?p) ops b1 (Inr lost_race), LoopTimed 1,
     Suspended b1 b1]"
  have "runs (etcd_register (\<lambda>_. Inl ValueError) (\<lambda>_. []) 1 slow_backend NODE demo_body) ?tr Starved"
    by (simp add: etcd_register_def data settle_placement_def lift_b_def place ensure_node_lease_def lease_of_def sb
        register_placed_def guarded_def read_fence_def read_set_def txn_def lost_race_def fence_wait_def q submit_def
        with_lease_def ops Let_def)
  moreover from this have "\<exists>start later. readings ?tr = start # later \<and> length later = 1 \<and>
      (\<forall>t \<in> set later. t < start + ec_timeout (eb_config slow_backend))"
    using etcd_register_ends [of "\<lambda>_. Inl ValueError" "\<lambda>_. []" 1 slow_backend NODE demo_body ?tr] by blast
  ultimately show ?thesis using sb(6) by (intro exI [of _ ?tr]) simp
qed

subsection \<open>Two ways past the guard\<close>

text \<open>
  A lease that etcd does not grant is not turned into the 503 of every other failure: the grant is
  awaited outside \<open>_guarded\<close>, so its exception leaves \<open>register\<close> as it is, and the backend is not
  degraded by it.
\<close>

lemma grant_failure_escapes:
  "runs (etcd_register (\<lambda>_. Inl ValueError) brackets n demo_backend NODE demo_body)
     [LoopTimed t, Granted demo_backend 12 demo_backend (Inl EtcdUnavailable)]
     (Finished demo_backend (Inl EtcdUnavailable))"
proof -
  let ?raw = "[(str ''id'', JStr (str ''n'')), (str ''version'', JStr (str ''1:0''))]"
  have b: "eb_namespace demo_backend = demo_ns" "lease_of demo_backend (str ''n'') = 0" "lease_ttl demo_backend = 12"
    by (simp_all add: demo_backend_def new_etcd_backend_def eb_store_def new_registry_def new_store_def lease_of_def lease_ttl_def)
  have data: "body_data (\<lambda>_. Inl ValueError) demo_body = Inr ?raw" by (simp add: body_data_def demo_body_def)
  show ?thesis
    by (simp add: etcd_register_def data settle_placement_def demo_node_place [OF b(1)] b ensure_node_lease_def lift_b_def del: runs_bind_lift)
qed

text \<open>
  The fast path writes on the lease it knew before the request, and does not ask that it knew one:
  while no lease of the Node is known (the state a refused heartbeat leaves), the keys of a child
  go out on no lease. The fenced path asks.
\<close>

lemma placement_lease: "placement b rt raw = Inr (Inr p) \<Longrightarrow> pl_lease p = lease_of b (pl_node p)"
  unfolding placement_def
  by (auto elim!: bind_res_InrE split: option.split_asm json.split_asm if_split_asm)

lemma fast_path_writes_without_lease:
  assumes "placement b rt raw = Inr (Inr p)" and "lease_of b (pl_node p) = 0"
    and "runs (try_fast_path b rt bdy raw p) tr (Finished b' (Inr (Some r)))"
  shows "\<exists>b0 v b1 t. Txned b0 (compare_set b0 p) [PutOp (pl_key p) v 0, PutOp (pl_claim p) (pl_key p) 0] b1 (Inr t) \<in> set tr \<and>
    tx_succeeded t"
proof -
  have "pl_lease p = 0" using placement_lease [OF assms(1)] assms(2) by simp
  moreover obtain tr1 tr2 b1 t where "tr = tr1 @ tr2" "runs (submit b p bdy rt) tr1 (Finished b1 (Inr t))" "tx_succeeded t"
    using assms(3) unfolding try_fast_path_def by (auto elim!: runs_bindE split: sum.splits if_splits)
  ultimately show ?thesis using runs_submit by fastforce
qed

subsection \<open>How the watch ends\<close>

lemma runs_outcome:
  assumes "runs (outcome p) tr (Finished b r)"
  shows "\<exists>failed. r = Inr failed \<and> runs p tr (Finished b (case failed of None \<Rightarrow> Inr () | Some e \<Rightarrow> Inl e))"
  using assms unfolding outcome_def by (elim runs_on_errorE runs_bindE) (auto split: option.split)

definition watch_end :: "etcd_event list \<Rightarrow> EtcdBackend \<Rightarrow> unit res \<Rightarrow> (EtcdBackend \<Rightarrow> int eproc) \<Rightarrow> bool" where
  "watch_end tr b' r rebuild \<longleftrightarrow>
     (case r of Inr u \<Rightarrow> eb_stopping b'
      | Inl e \<Rightarrow> \<exists>pre rebuilt b1. tr = pre @ rebuilt \<and> runs (rebuild b1) rebuilt (Finished b' (Inl e)))"

lemma watch_end_later: "watch_end tr b' r p \<Longrightarrow> watch_end (pre @ tr) b' r p"
  unfolding watch_end_def by (cases r) (auto, metis append_assoc)

lemma watch_loop_end:
  "runs (watch_loop m n loads fl d whole backoff nr b) tr (Finished b' r) \<Longrightarrow>
     watch_end tr b' r (\<lambda>b1. resnapshot n loads fl d whole b1)"
proof (induction m arbitrary: backoff nr b tr r)
  case (Suc m)
  show ?case
  proof (cases "eb_stopping b")
    case True
    then show ?thesis using Suc.prems by (auto simp: watch_end_def)
  next
    case False
    then obtain tr1 b1 failed tr2 where t: "tr = tr1 @ tr2"
      and go: "runs (if failed = Some EtcdCompacted
        then bind_eproc (resnapshot n loads fl d whole b1) (\<lambda>b2 revision.
               watch_loop m n loads fl d whole WATCH_RETRY_INITIAL (revision + 1) b2)
        else let (b2, nr) = watch_ended b1 failed
             in if eb_stopping b2 then Ended b2 (Inr ())
                else Suspend b2 (\<lambda>b3. watch_loop m n loads fl d whole (next_backoff backoff) nr b3)) tr2 (Finished b' r)"
      using Suc.prems by (auto elim!: runs_bindE dest: runs_outcome)
    have "watch_end tr2 b' r (\<lambda>b1. resnapshot n loads fl d whole b1)"
    proof (cases "failed = Some EtcdCompacted")
      case True
      then have "runs (bind_eproc (resnapshot n loads fl d whole b1) (\<lambda>b2 revision.
          watch_loop m n loads fl d whole WATCH_RETRY_INITIAL (revision + 1) b2)) tr2 (Finished b' r)"
        using go by simp
      then show ?thesis
      proof (cases rule: runs_bindE)
        case (go ta b2 revision tb)
        then show ?thesis using watch_end_later [OF Suc.IH] by simp
      next
        case (raised b2 x)
        then show ?thesis by (force simp: watch_end_def intro: exI [of _ "[]"])
      qed simp
    next
      case False
      obtain b2 nx where w: "watch_ended b1 failed = (b2, nx)" by fastforce
      show ?thesis
      proof (cases "eb_stopping b2")
        case True
        then show ?thesis using go False w by (auto simp: watch_end_def)
      next
        case nostop: False
        then obtain b3 tb where "tr2 = [Suspended b2 b3] @ tb"
            "runs (watch_loop m n loads fl d whole (next_backoff backoff) nx b3) tb (Finished b' r)"
          using go False w by auto
        then show ?thesis using watch_end_later [OF Suc.IH] by metis
      qed
    qed
    then show ?thesis using watch_end_later t by blast
  qed
qed simp

text \<open>
  C12: nothing but a failed rebuild ends the watch of a registry over etcd. When the watch task
  returns, the backend is closing; when it dies of an exception, the exception is that of the
  rebuild after a compaction, whatever the streams delivered and however they failed before.
\<close>

theorem watch_ends_only_when_closing:
  "(runs (watch_loop m n loads fl d whole backoff nr b) tr (Finished b' (Inr ())) \<longrightarrow> eb_stopping b') \<and>
   (runs (watch_loop m n loads fl d whole backoff nr b) tr (Finished b' (Inl e)) \<longrightarrow>
      (\<exists>pre rebuilt b1. tr = pre @ rebuilt \<and> runs (resnapshot n loads fl d whole b1) rebuilt (Finished b' (Inl e))))"
  using watch_loop_end [of m n loads fl d whole backoff nr b tr b'] unfolding watch_end_def by fastforce

text \<open>
  So a compaction whose rebuild cannot read etcd leaves no watch behind, in a state that neither
  accepts mutations nor can be degraded: only a restart brings the member back.
\<close>

theorem watch_ends_only_when_closing_witness:
  "\<exists>tr b'. runs (watch_loop 1 1 (\<lambda>_. Inl ValueError) id 3 (\<lambda>_. None) WATCH_RETRY_INITIAL 8 demo_backend) tr
       (Finished b' (Inl EtcdUnavailable)) \<and> eb_state b' = RESYNCING \<and> degrade b' = b' \<and>
     (\<exists>pre rebuilt b1. tr = pre @ rebuilt \<and>
        runs (resnapshot 1 (\<lambda>_. Inl ValueError) id 3 (\<lambda>_. None) b1) rebuilt (Finished b' (Inl EtcdUnavailable)))"
proof -
  let ?b = "set_state demo_backend RESYNCING"
  obtain root where root: "ns_root (eb_namespace demo_backend) = Inr root"
    by (simp add: demo_backend_def new_etcd_backend_def demo_ns_def ns_root_def path_text_def str_def utf8_encode_def utf8_char_def)
  let ?tr = "[Opened demo_backend 8 demo_backend (Inl EtcdCompacted),
    Ranged ?b \<lparr>rq_key = root, rq_end = prefix_range_end root, rq_revision = 0, rq_limit = PRELOAD_PAGE\<rparr> ?b (Inl EtcdUnavailable)]"
  have st: "eb_stopping demo_backend = False" "eb_state ?b = RESYNCING"
      "eb_namespace ?b = eb_namespace demo_backend" "degrade ?b = ?b"
    by (simp_all add: demo_backend_def new_etcd_backend_def set_state_def degrade_def)
  have run: "runs (watch_loop 1 1 (\<lambda>_. Inl ValueError) id 3 (\<lambda>_. None) WATCH_RETRY_INITIAL 8 demo_backend) ?tr
       (Finished ?b (Inl EtcdUnavailable))"
    by (simp add: st root watch_once_def outcome_def resnapshot_def read_snapshot_def range_prefix_at_def Let_def lift_b_def
        del: runs_bind_lift)
  then show ?thesis
    using st(2,4) conjunct2 [OF watch_ends_only_when_closing, rule_format, OF run] by blast
qed

end
