(* ===== verification/Spec2Isabelle.thy ===== *)
theory Spec2Isabelle
  imports Paging Machine_Spec Log_Matching Subscription_World Backend_Properties Store_Types Etcd_Properties
begin

text \<open>
  Verification of the distributed NMOS registry: the consensus layer \<open>src/nmos/raft/\<close>, the
  resource registry \<open>src/nmos/registry/\<close> it replicates, and the registry's other backend, a client
  of etcd (\<open>src/nmos/etcd/\<close>).

  \<^bold>\<open>The program.\<close> A registry of NMOS resources (nodes, devices, sources, flows, senders,
  receivers) answers an HTTP registration API and a paged, filtered query API. It may run as one
  process or as a cluster of members. In a cluster every change is an operation
  (\<open>operations.py\<close>) proposed to the leader, replicated through a log (\<open>log.py\<close>) by a
  consensus member (\<open>node.py\<close>) whose messages (\<open>messages.py\<close>, \<open>wire.py\<close>) travel over
  the transport, and applied by a state machine (\<open>machine.py\<close>) to the resource store
  (\<open>registry/store.py\<close>) and the table of node ownership (\<open>ownership.py\<close>). A member keeps its
  term and vote on disk (\<open>persist.py\<close>), draws cursors from a lane of its own
  (\<open>cursors.py\<close>) and ships its state to a member that fell behind as a snapshot
  (\<open>snapshot.py\<close>). Requests reach the cluster through \<open>raft_backend.py\<close>, which decides, asks the
  node's owner, proposes and waits. In the other deployment the registry is kept in etcd: a member
  holds a view of it, built from a snapshot and kept current by a watch (\<open>watch.py\<close>), answers
  queries from the view and writes through transactions that compare what it believes
  (\<open>etcd_backend.py\<close>, \<open>keys.py\<close>, \<open>kv.py\<close>, \<open>fence.py\<close>). Queries are answered from the store through
  \<open>query_filter.py\<close> and \<open>paging.py\<close>, or pushed over a WebSocket: every change of the store is
  published by \<open>registry.py\<close> to the subscriptions of \<open>subscriptions.py\<close>, whose grains
  \<open>websocket.py\<close> sends.

  \<^bold>\<open>The theories.\<close> Each opens with its correspondence to the code. Names follow the source;
  a name HOL already uses, or one that two classes share, has a prefix or suffix.
    \<^item> \<open>Prelude\<close>, \<open>Py_Text\<close>: Python values (text as code points, bytes as 8-bit words,
      dictionaries as association lists in insertion order), exceptions as values, decimal
      numerals, \<open>str.partition\<close> and \<open>isdigit\<close>. \<open>Utf8\<close>: \<open>str.encode\<close> and \<open>bytes.decode\<close>.
    \<^item> \<open>Raft_Log\<close>: \<open>RaftLog\<close>, entries above a compaction boundary.
    \<^item> \<open>Registry_Types\<close>, \<open>Registry_Store\<close>, \<open>Store_Invariant\<close>, \<open>Store_Properties\<close>:
      \<open>types.py\<close> and \<open>store.py\<close>; the invariant of the store (parents live while children do,
      the children and order indices agree with the records) and what each operation does.
    \<^item> \<open>Paging\<close>, \<open>Query_Filter\<close>: the query interface over a list of resources.
    \<^item> \<open>Wire\<close>, \<open>Operations\<close>, \<open>Messages\<close>: varints, fields, frames with their checksum, the
      operations and the seventeen messages, encoders and decoders.
    \<^item> \<open>Ownership\<close>, \<open>Cursors\<close>, \<open>Persist\<close>, \<open>Reservation\<close>: the ownership table, the cursor
      allocator, the state file, and the life of a member's cursors across restarts.
    \<^item> \<open>Snapshot\<close>, \<open>Machine\<close>, \<open>Machine_Spec\<close>: taking and installing a snapshot, the
      copy-on-write capture, the applier, and the abstract registry it refines.
    \<^item> \<open>Raft_State\<close>, \<open>Raft_Election\<close>, \<open>Raft_Replication\<close>: \<open>RaftNode\<close>, its fields and one
      definition per handler. A handler is a function from a member to a member and a result that
      may be an exception; what it sends is appended to an outbox in the member.
    \<^item> \<open>Quorum\<close>, \<open>Election_Safety\<close>, \<open>Cluster\<close>: majorities, what each handler does to terms,
      votes and roles, and the cluster as a transition system of members and messages.
    \<^item> \<open>Log_Ledger\<close>, \<open>Log_Matching\<close>: what each handler does to the log, as changes of a ledger
      of (index, term, payload) marks, and the invariant of the cluster that carries log matching.
    \<^item> \<open>Subscriptions\<close>, \<open>Registry\<close>: subscriptions, connections with their coalescing buffers,
      the manager and its fan-out; the mutations of the facade with their publication, and the
      turns of the WebSocket handler. \<open>Subscription_Sync\<close>, \<open>Subscription_World\<close>: what a client
      makes of its grains, and the registry with its clients as a transition system.
    \<^item> \<open>Raft_Backend\<close>, \<open>Backend_Properties\<close>: every coroutine of \<open>RaftRegistryBackend\<close> as a
      process that asks the consensus layer and goes on with any answer, with the member's view of
      the store after each await as part of the answer; and the runs of such processes.
    \<^item> \<open>Json_Text\<close>, \<open>Json_Spans\<close>: \<open>json.loads\<close> and \<open>json.dumps\<close> as \<open>json/engine.py\<close> calls them,
      the scan of an object's members with their text (\<open>json/spans.py\<close>), and the decoding of a
      registration request (\<open>registry/decode.py\<close>).
    \<^item> \<open>Keys\<close>, \<open>Envelope\<close>: the key space and its parser, key ranges and requests to etcd, the
      value under a resource's key.
    \<^item> \<open>Etcd_Watch\<close>: what a watch connection yields. \<open>Etcd_View\<close>: the methods of
      \<open>EtcdRegistryBackend\<close> that run without giving up control. \<open>Etcd_Backend\<close>: its coroutines, as
      processes over the questions they ask of etcd. \<open>Etcd_Mirror\<close>, \<open>Etcd_History\<close>: what one
      revision, a snapshot and a sequence of revisions make of the view. \<open>Etcd_Properties\<close>: the
      runs of the processes.
    \<^item> \<open>Store_Types\<close>: the store under all its operations, in any order.

  \<^bold>\<open>What the theorems show.\<close>
    \<^item> Agreement: one leader per term over a network that loses, repeats and reorders messages
      (\<open>Cluster\<close>); members that apply the same entries agree and answer alike, and the applier
      computes an abstract registry (\<open>Machine_Spec\<close>); logs that agree in one place agree below it
      (\<open>Log_Matching\<close>).
    \<^item> Requests: however the cluster answers, a request asks a bounded number of questions, forwards
      at most twice, and refuses only on a confirmed view (\<open>Backend_Properties\<close>).
    \<^item> Subscribers: what a client has put together from its grains, continued by what is buffered,
      is exactly what it subscribed to, in every reachable state (\<open>Subscription_World\<close>).
    \<^item> Durability: cursors never repeat across restarts and never collide between members
      (\<open>Reservation\<close>), a saved state survives a failing save (\<open>Persist\<close>), a snapshot restores
      the registry (\<open>Snapshot\<close>).
    \<^item> The log: committed entries survive any append, appends converge, conflict resolution and
      compaction answer what they promise (\<open>Raft_Log\<close>).
    \<^item> The store: outcome of registrations, cascading deletion, heartbeats, garbage collection
      and the order index (\<open>Store_Properties\<close>).
    \<^item> Over etcd: the view shows what etcd holds, its subscribers are told how it came to
      (\<open>Etcd_History\<close>); successes, refusals and misses are answered behind the fence,
      registrations end, and the watch ends only when the backend closes or a rebuild fails
      (\<open>Etcd_Properties\<close>); batches are whole revisions (\<open>Etcd_Watch\<close>); keys, values and JSON
      texts read back as they were written (\<open>Keys\<close>, \<open>Envelope\<close>, \<open>Json_Text\<close>).
    \<^item> The query interface: pages, their cursors and the walk over all pages (\<open>Paging\<close>); filters
      (\<open>Query_Filter\<close>).
    \<^item> The wire: every varint, frame, operation and message decodes to what was encoded, and
      damaged input is refused (\<open>Wire\<close>, \<open>Operations\<close>, \<open>Messages\<close>).

  \<^bold>\<open>Interfaces.\<close> \<open>Quorum.quorum_system\<close> (sets that count as majorities meet), interpreted on
  \<open>RaftLayout.quorum\<close>; the codec of a message family in \<open>Messages\<close>, interpreted on the code's
  encoder and decoder; the applier's contract in \<open>Machine_Spec\<close>, interpreted on
  \<open>apply_entries\<close>; and the ones their theories name.

  \<^bold>\<open>Bounds and fuel.\<close> Integers are Python's, unbounded; the limits the code states (a varint of
  ten bytes, frames of \<open>MAX_FRAME\<close> bytes, owner lanes of three bits, \<open>int\<close> conversion up to
  4300 digits) are written where the code checks or meets them. Recursion over the resource tree
  carries Python's recursion limit and raises \<open>RecursionError\<close> at it; theorems that need it state
  that the tree is shallow enough, which the invariant of the store gives. Loops are structural or
  have a termination proof. A process of \<open>Raft_Backend\<close> is a datatype value, so every run of it
  ends; the bounds proved of it (eleven questions, two forwards) are of the longest path. In
  \<open>Etcd_Backend\<close> three loops carry fuel: the retries of a registration (\<open>fenced_register\<close>), whose
  end by the clock is a theorem, the pages of a snapshot (\<open>read_pages\<close>), one more than etcd has
  pages, and the watch, which is meant to run for ever; the safety theorems hold for every fuel.

  \<^bold>\<open>Arguments of the model.\<close> The clock, the random election timeout, the outcome of a save by the
  operating system, which peers the transport can reach and \<open>json.loads\<close> are arguments of the
  definitions that use them. So are, over etcd and in requests, \<open>fl\<close> (how \<open>repr\<close> writes the float
  a numeral denotes), \<open>whole\<close> (the integer a float equals), \<open>d\<close> (the depth the interpreter lets a
  decoder recurse), \<open>brackets\<close> (\<open>str\<close> of a container) and \<open>validate\<close> (the generated types).

  \<^bold>\<open>Not modelled.\<close> Sockets, TLS, asyncio tasks and HTTP (\<open>transport.py\<close> beyond framing and
  dispatch, the aiohttp side of \<open>handlers_*.py\<close> and \<open>websocket.py\<close>): input and output around the
  functions above.
  Of the etcd deployment, the gRPC channels and their failover (\<open>channel.py\<close>), the supervisor of
  etcd processes and the derivation of the configuration (\<open>distributed.py\<close>); etcd itself is outside
  the repository. The node, controller, agent user interface, SDP, capabilities, OAuth2, code
  generation and the generated types: other programs of the repository. Texts of exceptions and log
  messages.
\<close>

end
